(* ===== verification/Prelude.thy ===== *)
theory Prelude
  imports Main "HOL-Library.Word"
begin

text \<open>
  Shared vocabulary of the development: bytes and machine integers of Go, the outcome
  type that keeps returned errors and run-time panics apart, slicing with Go's bounds
  checks, the fixed-width and variable-length integers of Go's \<^verbatim>\<open>encoding/binary\<close>, and
  the interface (a locale) that every length-delimited field of the archive formats
  implements.
\<close>

unbundle bit_operations_syntax

named_theorems codec_simps \<open>encode/decode equations that drive the round-trip proofs\<close>
named_theorems len_simps \<open>lengths of encoded fields\<close>

section \<open>Types\<close>

type_synonym byte = "8 word"
type_synonym bytes = "byte list"
type_synonym u16 = "16 word"
type_synonym u32 = "32 word"
type_synonym u64 = "64 word"

text \<open>
  A Go \<^verbatim>\<open>int64\<close> has the bits of a \<^verbatim>\<open>uint64\<close>; the conversions between the two keep the
  bits, so both are 64-bit words here and \<open>sint\<close> reads the signed value.  Lengths (\<^verbatim>\<open>int\<close>)
  are natural numbers, except where the source converts an unbounded \<^verbatim>\<open>uint64\<close> to
  \<^verbatim>\<open>int\<close>, which can give a negative number.  A Go string is its bytes.
\<close>

type_synonym i64 = "64 word"

definition str :: "string \<Rightarrow> bytes" where
  "str s = map of_char s"

lemma length_str [simp]: "length (str s) = length s"
  by (simp add: str_def)

lemma str_Cons: "str (c # s) = of_char c # str s" and str_Nil: "str [] = []"
  by (simp_all add: str_def)

section \<open>Errors, panics and sequencing\<close>

text \<open>
  The sentinel errors of the packages \<^verbatim>\<open>archive\<close> and \<^verbatim>\<open>crypto\<close>, each with the detail text
  the code formats after it (numbers left out), a plain \<^verbatim>\<open>fmt.Errorf\<close> without a sentinel,
  and an error wrapped with \<^verbatim>\<open>%w\<close> under a prefix.
\<close>

datatype sarc_error =
    ErrMalformedAttributes string
  | ErrMalformedSolidStream string
  | ErrMalformedIndex string
  | ErrMalformedCheckpoint string
  | ErrMalformedDirectory string
  | ErrMalformedVolumeHeader string
  | ErrMalformedRecipientBlock string
  | ErrUnsupportedVersion string
  | ErrInvalidCompressionLevel
  | ErrBlockTooLarge
  | ErrWrongCredential
  | IdentityError string
  | NoMatchingCredentialError "string list"
  | ErrKeyFileSize
  | ErrBadSignature string
  | EOF
  | ErrUnexpectedEOF
  | Errorf string
  | Wrap string sarc_error

text \<open>\<^verbatim>\<open>errors.Is(err, io.EOF)\<close>: the error or one it wraps.\<close>

fun is_EOF :: "sarc_error \<Rightarrow> bool" where
  "is_EOF EOF = True"
| "is_EOF (Wrap _ e) = is_EOF e"
| "is_EOF _ = False"

text \<open>
  The outcome of a Go call: a value, a returned error, or a run-time panic (an index or
  slice out of range).
\<close>

datatype 'a res = Ok 'a | Err sarc_error | Panic

fun bindR :: "'a res \<Rightarrow> ('a \<Rightarrow> 'b res) \<Rightarrow> 'b res" where
  "bindR (Ok x) f = f x"
| "bindR (Err e) f = Err e"
| "bindR Panic f = Panic"

text \<open>\<open>wrapR p m\<close> is \<^verbatim>\<open>if err != nil { return fmt.Errorf("p: %w", err) }\<close>.\<close>

fun wrapR :: "string \<Rightarrow> 'a res \<Rightarrow> 'a res" where
  "wrapR p (Ok x) = Ok x"
| "wrapR p (Err e) = Err (Wrap p e)"
| "wrapR p Panic = Panic"

text \<open>\<open>failR e m\<close> is \<^verbatim>\<open>if err != nil { return e }\<close>, dropping the error itself.\<close>

fun failR :: "sarc_error \<Rightarrow> 'a res \<Rightarrow> 'a res" where
  "failR e (Ok x) = Ok x"
| "failR e (Err _) = Err e"
| "failR e Panic = Panic"

lemma failR_conv [simp]:
  "failR e m = Ok x \<longleftrightarrow> m = Ok x" "failR e m = Panic \<longleftrightarrow> m = Panic"
  by (cases m; simp)+

lemma bindR_Ok_conv: "bindR m f = Ok y \<longleftrightarrow> (\<exists>x. m = Ok x \<and> f x = Ok y)"
  by (cases m) auto

lemma bindR_Panic_conv: "bindR m f = Panic \<longleftrightarrow> m = Panic \<or> (\<exists>x. m = Ok x \<and> f x = Panic)"
  by (cases m) auto

lemma wrapR_Ok_conv [simp]: "wrapR p m = Ok x \<longleftrightarrow> m = Ok x"
  by (cases m) auto

lemma wrapR_Panic_conv [simp]: "wrapR p m = Panic \<longleftrightarrow> m = Panic"
  by (cases m) auto

lemma bindR_assoc: "bindR (bindR m f) g = bindR m (\<lambda>x. bindR (f x) g)"
  by (cases m) auto

lemma bindR_Ok_right [simp]: "bindR m Ok = m"
  by (cases m) auto

lemma bindR_cong [fundef_cong]:
  "m = m' \<Longrightarrow> (\<And>x. m' = Ok x \<Longrightarrow> f x = f' x) \<Longrightarrow> bindR m f = bindR m' f'"
  by (cases m') auto

lemmas res_convs = bindR_Ok_conv bindR_Panic_conv

section \<open>Slices\<close>

text \<open>
  \<open>cut n b\<close> is the pair \<^verbatim>\<open>b[:n], b[n:]\<close>; out of range it panics.  A parser that walks a
  buffer with an offset \<^verbatim>\<open>off\<close> is written over the suffix \<^verbatim>\<open>b[off:]\<close>, so
  \<^verbatim>\<open>b[off:off+n]; off += n\<close> is one \<open>cut n\<close>.
\<close>

definition cut :: "nat \<Rightarrow> bytes \<Rightarrow> (bytes \<times> bytes) res" where
  "cut n b = (if n \<le> length b then Ok (take n b, drop n b) else Panic)"

definition index :: "bytes \<Rightarrow> nat \<Rightarrow> byte res" where
  "index b i = (if i < length b then Ok (b ! i) else Panic)"

lemma cut_append [codec_simps, simp]: "length x = n \<Longrightarrow> cut n (x @ r) = Ok (x, r)"
  by (simp add: cut_def)

lemma cut_Ok_conv: "cut n b = Ok (x, r) \<longleftrightarrow> b = x @ r \<and> length x = n"
  by (auto simp: cut_def)

lemma cut_Panic_conv: "cut n b = Panic \<longleftrightarrow> length b < n"
  by (auto simp: cut_def)

lemma cut_not_Err [simp]: "cut n b \<noteq> Err e"
  by (simp add: cut_def)

lemma index_Panic_conv: "index b i = Panic \<longleftrightarrow> length b \<le> i"
  by (auto simp: index_def)

lemma index_not_Err [simp]: "index b i \<noteq> Err e"
  by (simp add: index_def)

section \<open>Readers\<close>

text \<open>
  A byte stream read sequentially is the list of the bytes still to come.  \<open>read_full\<close> is
  \<^verbatim>\<open>n, err := io.ReadFull(r, buf)\<close> with a buffer of the given size: the bytes read, the
  error, and the stream afterwards.  \<open>ReadFull\<close> is its use by callers that give up on
  any error.
\<close>

definition read_full :: "nat \<Rightarrow> bytes \<Rightarrow> bytes \<times> sarc_error option \<times> bytes" where
  "read_full n r =
     (take n r, if n \<le> length r then None else if r = [] then Some EOF else Some ErrUnexpectedEOF,
      drop n r)"

definition ReadFull :: "nat \<Rightarrow> bytes \<Rightarrow> (bytes \<times> bytes) res" where
  "ReadFull n r =
     (case read_full n r of (b, None, r') \<Rightarrow> Ok (b, r') | (b, Some e, r') \<Rightarrow> Err e)"

lemma ReadFull_append [codec_simps, simp]: "length x = n \<Longrightarrow> ReadFull n (x @ r) = Ok (x, r)"
  by (simp add: ReadFull_def read_full_def)

lemma ReadFull_Ok_conv: "ReadFull n b = Ok (x, r) \<longleftrightarrow> b = x @ r \<and> length x = n"
  by (auto simp: ReadFull_def read_full_def)

lemma ReadFull_total: "n \<le> length b \<Longrightarrow> ReadFull n b = Ok (take n b, drop n b)"
  by (simp add: ReadFull_def read_full_def)

lemma ReadFull_short: "length b < n \<Longrightarrow> \<exists>e. ReadFull n b = Err e"
  by (auto simp: ReadFull_def read_full_def)

lemma ReadFull_not_Panic [simp]: "ReadFull n b \<noteq> Panic"
  by (auto simp: ReadFull_def read_full_def)

text \<open>A slice copied into a Go array of \<open>n\<close> bytes (zero-filled, truncated).\<close>

definition to_array :: "nat \<Rightarrow> bytes \<Rightarrow> bytes" where
  "to_array n b = take n (b @ replicate n 0)"

lemma length_to_array [simp]: "length (to_array n b) = n"
  by (simp add: to_array_def)

lemma to_array_id [simp]: "length b = n \<Longrightarrow> to_array n b = b"
  by (simp add: to_array_def)

section \<open>Fixed-width integers\<close>

text \<open>\<^verbatim>\<open>binary.LittleEndian\<close> and \<^verbatim>\<open>binary.BigEndian\<close> over \<open>k\<close> bytes.\<close>

fun le_enc :: "nat \<Rightarrow> nat \<Rightarrow> bytes" where
  "le_enc 0 n = []"
| "le_enc (Suc k) n = word_of_nat n # le_enc k (n div 256)"

fun le_dec :: "bytes \<Rightarrow> nat" where
  "le_dec [] = 0"
| "le_dec (b # bs) = unat b + 256 * le_dec bs"

lemma length_le_enc [simp, len_simps]: "length (le_enc k n) = k"
  by (induction k arbitrary: n) auto

lemma unat_bound: "unat (w :: 'a::len word) < 2 ^ LENGTH('a)"
  by (rule unsigned_less)

lemma unat_byte_of_nat: "unat (word_of_nat n :: byte) = n mod 256"
  by (simp add: unat_of_nat)

lemma le_dec_enc: "le_dec (le_enc k n) = n mod 256 ^ k"
proof (induction k arbitrary: n)
  case (Suc k)
  have "n mod (256 * 256 ^ k) = n mod 256 + 256 * (n div 256 mod 256 ^ k)"
    by (simp add: mod_mult2_eq)
  with Suc.IH show ?case by (simp add: unat_byte_of_nat)
qed simp

lemma le_dec_less: "le_dec bs < 256 ^ length bs"
proof (induction bs)
  case (Cons b bs)
  have "unat b < 256" using unat_bound [of b] by simp
  with Cons.IH show ?case by simp
qed simp

lemma le_enc_dec: "length bs = k \<Longrightarrow> le_enc k (le_dec bs) = bs"
proof (induction k arbitrary: bs)
  case (Suc k)
  then obtain b bs' where bs: "bs = b # bs'" and len: "length bs' = k"
    by (cases bs) auto
  have b: "unat b < 256" using unat_bound [of b] by simp
  have "word_of_nat (unat b + 256 * le_dec bs') = b"
  proof -
    have "unat (word_of_nat (unat b + 256 * le_dec bs') :: byte) = unat b"
      by (simp only: unat_byte_of_nat) (use b in simp)
    then show ?thesis by (rule word_unat_eq_iff [THEN iffD2])
  qed
  moreover have "(unat b + 256 * le_dec bs') div 256 = le_dec bs'" using b by simp
  ultimately show ?case using Suc.IH [OF len] by (simp add: bs)
qed simp

definition le16 :: "u16 \<Rightarrow> bytes" where "le16 w = le_enc 2 (unat w)"
definition le32 :: "u32 \<Rightarrow> bytes" where "le32 w = le_enc 4 (unat w)"
definition le64 :: "u64 \<Rightarrow> bytes" where "le64 w = le_enc 8 (unat w)"
definition be32 :: "u32 \<Rightarrow> bytes" where "be32 w = rev (le_enc 4 (unat w))"

definition word_le :: "nat \<Rightarrow> bytes \<Rightarrow> 'a::len word" where
  "word_le k b = word_of_nat (le_dec (take k b))"

text \<open>Reading past the end of the slice panics.\<close>

definition uint16 :: "bytes \<Rightarrow> u16 res" where
  "uint16 b = (if length b < 2 then Panic else Ok (word_le 2 b))"
definition uint32 :: "bytes \<Rightarrow> u32 res" where
  "uint32 b = (if length b < 4 then Panic else Ok (word_le 4 b))"
definition uint64 :: "bytes \<Rightarrow> u64 res" where
  "uint64 b = (if length b < 8 then Panic else Ok (word_le 8 b))"
definition be_uint32 :: "bytes \<Rightarrow> u32 res" where
  "be_uint32 b = (if length b < 4 then Panic else Ok (word_le 4 (rev (take 4 b))))"

lemma length_le_be [simp, len_simps]:
  "length (le16 a) = 2" "length (le32 c) = 4" "length (le64 d) = 8" "length (be32 c) = 4"
  by (simp_all add: le16_def le32_def le64_def be32_def)

lemma le_nonempty [simp]: "le16 a \<noteq> []" "le32 c \<noteq> []" "le64 d \<noteq> []" "be32 c \<noteq> []"
  by (metis length_le_be length_0_conv zero_neq_numeral)+

lemma word_le_enc:
  fixes w :: "'a::len word"
  assumes "LENGTH('a) = 8 * k"
  shows "word_le k (le_enc k (unat w) @ r) = w"
proof -
  have "unat w < 256 ^ k"
    using unat_bound [of w] by (simp add: assms power_mult)
  then show ?thesis by (simp add: word_le_def le_dec_enc)
qed

lemma uint_le [codec_simps, simp]:
  "uint16 (le16 a @ r) = Ok a" "uint32 (le32 c @ r) = Ok c" "uint64 (le64 d @ r) = Ok d"
  "be_uint32 (be32 c @ r) = Ok c"
proof -
  show "uint16 (le16 a @ r) = Ok a" "uint32 (le32 c @ r) = Ok c" "uint64 (le64 d @ r) = Ok d"
    by (simp_all add: uint16_def uint32_def uint64_def le16_def le32_def le64_def word_le_enc)
  have "take 4 (be32 c @ r) = be32 c" by simp
  then have "rev (take 4 (be32 c @ r)) = le_enc 4 (unat c)" by (simp add: be32_def)
  then show "be_uint32 (be32 c @ r) = Ok c"
    using word_le_enc [of 4 c "[]"] by (simp add: be_uint32_def)
qed

lemma uint_not_Err [simp]:
  "uint16 b \<noteq> Err e" "uint32 b \<noteq> Err e" "uint64 b \<noteq> Err e" "be_uint32 b \<noteq> Err e"
  by (simp_all add: uint16_def uint32_def uint64_def be_uint32_def)

lemma uint_Panic_conv:
  "uint16 b = Panic \<longleftrightarrow> length b < 2" "uint32 b = Panic \<longleftrightarrow> length b < 4"
  "uint64 b = Panic \<longleftrightarrow> length b < 8" "be_uint32 b = Panic \<longleftrightarrow> length b < 4"
  by (simp_all add: uint16_def uint32_def uint64_def be_uint32_def)

lemma le_enc_word_le:
  fixes b :: bytes
  assumes "LENGTH('a::len) = 8 * k" and "length b = k"
  shows "le_enc k (unat (word_le k b :: 'a word)) = b"
proof -
  have "le_dec b < 2 ^ LENGTH('a)"
    using le_dec_less [of b] by (simp add: assms power_mult)
  then have "unat (word_le k b :: 'a word) = le_dec b"
    using assms(2) by (simp add: word_le_def unat_of_nat)
  then show ?thesis using assms(2) by (simp add: le_enc_dec)
qed

lemma le_word_le:
  "length b = 2 \<Longrightarrow> le16 (word_le 2 b) = b"
  "length b = 4 \<Longrightarrow> le32 (word_le 4 b) = b"
  "length b = 8 \<Longrightarrow> le64 (word_le 8 b) = b"
  by (simp_all add: le16_def le32_def le64_def le_enc_word_le)

text \<open>A successful read returned the value whose encoding stands at the front.\<close>

lemma uint_Ok_conv:
  "uint16 b = Ok h \<longleftrightarrow> (\<exists>r. b = le16 h @ r)"
  "uint32 b = Ok w \<longleftrightarrow> (\<exists>r. b = le32 w @ r)"
  "uint64 b = Ok v \<longleftrightarrow> (\<exists>r. b = le64 v @ r)"
proof -
  have "\<exists>r. b = le16 h @ r" if "uint16 b = Ok h"
    using that le_word_le(1) [of "take 2 b"]
    by (intro exI [of _ "drop 2 b"]) (auto simp: uint16_def word_le_def split: if_splits)
  then show "uint16 b = Ok h \<longleftrightarrow> (\<exists>r. b = le16 h @ r)" by auto
  have "\<exists>r. b = le32 w @ r" if "uint32 b = Ok w"
    using that le_word_le(2) [of "take 4 b"]
    by (intro exI [of _ "drop 4 b"]) (auto simp: uint32_def word_le_def split: if_splits)
  then show "uint32 b = Ok w \<longleftrightarrow> (\<exists>r. b = le32 w @ r)" by auto
  have "\<exists>r. b = le64 v @ r" if "uint64 b = Ok v"
    using that le_word_le(3) [of "take 8 b"]
    by (intro exI [of _ "drop 8 b"]) (auto simp: uint64_def word_le_def split: if_splits)
  then show "uint64 b = Ok v \<longleftrightarrow> (\<exists>r. b = le64 v @ r)" by auto
qed

lemma index_0_Ok_conv: "index b 0 = Ok x \<longleftrightarrow> (\<exists>r. b = x # r)"
  by (cases b) (auto simp: index_def)

lemma index_Cons_0 [simp]: "index (x # r) 0 = Ok x"
  by (simp add: index_def)

lemma cut_1_Cons [simp]: "cut (Suc 0) (x # r) = Ok ([x], r)"
  by (simp add: cut_def)

lemma word_of_nat_unat_small:
  "n < 2 ^ LENGTH('a::len) \<Longrightarrow> unat (word_of_nat n :: 'a word) = n"
  by (simp add: unat_of_nat)

section \<open>Writing at an offset\<close>

text \<open>The content of a file after \<open>d\<close> is written at \<open>off\<close>; a gap reads as zeros.\<close>

definition overwrite :: "bytes \<Rightarrow> bytes \<Rightarrow> nat \<Rightarrow> bytes" where
  "overwrite c d off = take off (c @ replicate (off - length c) 0) @ d @ drop (off + length d) c"

lemma overwrite_at_end: "overwrite c d (length c) = c @ d"
  by (simp add: overwrite_def)

lemma length_overwrite: "length (overwrite c d off) = max (length c) (off + length d)"
  by (simp add: overwrite_def)

lemma take_overwrite: "off \<le> length c \<Longrightarrow> take off (overwrite c d off) = take off c"
  by (simp add: overwrite_def)

lemma overwrite_tail: "off \<le> length c \<Longrightarrow> length c \<le> off + length d \<Longrightarrow> overwrite c d off = take off c @ d"
  by (simp add: overwrite_def)

text \<open>Writing again over everything behind \<open>off\<close>, then cutting the file, undoes whatever happened there.\<close>

lemma overwrite_undo: "off \<le> length c \<Longrightarrow> take (length c) (overwrite (overwrite c junk off) (drop off c) off) = c"
  by (simp add: overwrite_def)

end
