(* ===== verification/Reader.thy ===== *)
theory Reader
  imports Prelude
begin

text \<open>
  How the package \<^verbatim>\<open>io\<close> reads an archive sequentially: the structured errors of
  \<^verbatim>\<open>io/errors.go\<close>, the \<^verbatim>\<open>io.Reader\<close> an extractor holds, and the composition of operations that
  read from it.  Unlike the parsers of package \<^verbatim>\<open>archive\<close>, which give up on an error, the
  extractor goes on after a recoverable one, so the position of the reader is part of
  every outcome.
\<close>

section \<open>Structured errors\<close>

datatype ErrorKind = ErrKindFatal | ErrKindRecoverable

datatype ErrorCode = ErrCodeBadMagic | ErrCodeBadVersion | ErrCodeAuthFailed | ErrCodeTruncated
  | ErrCodeIntegrityFail | ErrCodeWriteFailed | ErrCodeReadFailed | ErrCodeWorkerPanic | ErrCodeInvalidOption

record ArchiveError =
  ae_Kind :: ErrorKind
  ae_Code :: ErrorCode
  ae_Message :: string
  ae_cause :: "sarc_error option"

definition IsFatal :: "ArchiveError \<Rightarrow> bool" where
  "IsFatal e \<longleftrightarrow> ae_Kind e = ErrKindFatal"

definition fatal :: "ErrorCode \<Rightarrow> string \<Rightarrow> sarc_error option \<Rightarrow> ArchiveError" where
  "fatal code msg cause = \<lparr>ae_Kind = ErrKindFatal, ae_Code = code, ae_Message = msg, ae_cause = cause\<rparr>"

definition recoverable :: "ErrorCode \<Rightarrow> string \<Rightarrow> sarc_error option \<Rightarrow> ArchiveError" where
  "recoverable code msg cause =
     \<lparr>ae_Kind = ErrKindRecoverable, ae_Code = code, ae_Message = msg, ae_cause = cause\<rparr>"

lemma IsFatal_simps [simp]: "IsFatal (fatal c m e)" "\<not> IsFatal (recoverable c m e)"
  by (simp_all add: IsFatal_def fatal_def recoverable_def)

section \<open>Streams\<close>

text \<open>
  A stream is the bytes still to come and the error its reader reports after them: \<open>EOF\<close>,
  or a failure of the underlying device.
\<close>

datatype stream = Stream (s_bytes: bytes) (s_end: sarc_error)

text \<open>\<^verbatim>\<open>io.ReadFull(r, buf)\<close> and \<^verbatim>\<open>io.CopyN(io.Discard, r, n)\<close>.\<close>

definition sReadFull :: "nat \<Rightarrow> stream \<Rightarrow> bytes \<times> sarc_error option \<times> stream" where
  "sReadFull n s =
     (let b = s_bytes s in
      (take n b,
       if n \<le> length b then None
       else if b \<noteq> [] \<and> s_end s = EOF then Some ErrUnexpectedEOF else Some (s_end s),
       Stream (drop n b) (s_end s)))"

definition CopyN :: "nat \<Rightarrow> stream \<Rightarrow> sarc_error option \<times> stream" where
  "CopyN n s =
     (if n \<le> length (s_bytes s) then None else Some (s_end s), Stream (drop n (s_bytes s)) (s_end s))"

section \<open>Composing reads\<close>

datatype 'a outcome = Val 'a | Fail ArchiveError | Crash

text \<open>
  An operation on a state, which has an outcome and leaves a state either way.  For the
  extractor the state is the stream; the archiver has its own.
\<close>

type_synonym ('s, 'a) op = "'s \<Rightarrow> 'a outcome \<times> 's"

type_synonym 'a reader = "(stream, 'a) op"

definition returnS :: "'a \<Rightarrow> ('s, 'a) op" where
  "returnS x s = (Val x, s)"

definition failS :: "ArchiveError \<Rightarrow> ('s, 'a) op" where
  "failS e s = (Fail e, s)"

definition bindS :: "('s, 'a) op \<Rightarrow> ('a \<Rightarrow> ('s, 'b) op) \<Rightarrow> ('s, 'b) op" where
  "bindS m f s = (case m s of (Val x, s) \<Rightarrow> f x s | (Fail e, s) \<Rightarrow> (Fail e, s) | (Crash, s) \<Rightarrow> (Crash, s))"

text \<open>\<^verbatim>\<open>if err != nil { return h(err) }\<close>, where the handler may read on.\<close>

definition catchS :: "('s, 'a) op \<Rightarrow> (ArchiveError \<Rightarrow> ('s, 'a) op) \<Rightarrow> ('s, 'a) op" where
  "catchS m h s = (case m s of (Fail e, s) \<Rightarrow> h e s | r \<Rightarrow> r)"

text \<open>A read of \<open>n\<close> bytes whose error is wrapped, and a call that does not read.\<close>

definition readS :: "nat \<Rightarrow> (sarc_error \<Rightarrow> ArchiveError) \<Rightarrow> bytes reader" where
  "readS n wrap s =
     (case sReadFull n s of (b, None, s) \<Rightarrow> (Val b, s) | (b, Some e, s) \<Rightarrow> (Fail (wrap e), s))"

definition copyS :: "nat \<Rightarrow> (sarc_error \<Rightarrow> ArchiveError) \<Rightarrow> unit reader" where
  "copyS n wrap s = (case CopyN n s of (None, s) \<Rightarrow> (Val (), s) | (Some e, s) \<Rightarrow> (Fail (wrap e), s))"

definition callS :: "(sarc_error \<Rightarrow> ArchiveError) \<Rightarrow> 'a res \<Rightarrow> ('s, 'a) op" where
  "callS wrap m s = (case m of Ok x \<Rightarrow> (Val x, s) | Err e \<Rightarrow> (Fail (wrap e), s) | Panic \<Rightarrow> (Crash, s))"

lemma bindS_assoc: "bindS (bindS m f) g = bindS m (\<lambda>x. bindS (f x) g)"
  by (rule ext) (simp add: bindS_def split: outcome.splits prod.splits)

lemma bindS_Val_conv: "bindS m f s = (Val y, s'') \<longleftrightarrow> (\<exists>x s'. m s = (Val x, s') \<and> f x s' = (Val y, s''))"
  by (auto simp: bindS_def split: prod.splits outcome.splits)

lemma callS_Val_conv: "callS w m s = (Val x, s') \<longleftrightarrow> m = Ok x \<and> s' = s"
  by (auto simp: callS_def split: res.splits)

lemma bindS_returnS [simp]: "bindS (returnS x) f = f x"
  by (rule ext) (simp add: bindS_def returnS_def)

named_theorems reads \<open>what the operations of a reader do on a stream that starts with given bytes\<close>

lemma readS_append [reads]: "length x = n \<Longrightarrow> readS n w (Stream (x @ r) e) = (Val x, Stream r e)"
  by (simp add: readS_def sReadFull_def Let_def)

lemma readS_all [reads]: "length x = n \<Longrightarrow> readS n w (Stream x e) = (Val x, Stream [] e)"
  using readS_append [of x n w "[]" e] by simp

lemma copyS_append [reads]: "length x = n \<Longrightarrow> copyS n w (Stream (x @ r) e) = (Val (), Stream r e)"
  by (simp add: copyS_def CopyN_def)

lemma copyS_all [reads]: "length x = n \<Longrightarrow> copyS n w (Stream x e) = (Val (), Stream [] e)"
  using copyS_append [of x n w "[]" e] by simp

lemma bindS_Val [reads]: "m s = (Val x, s') \<Longrightarrow> bindS m f s = f x s'"
  by (simp add: bindS_def)

lemma catchS_Val [reads]: "m s = (Val x, s') \<Longrightarrow> catchS m h s = (Val x, s')"
  by (simp add: catchS_def)

lemma returnS_Val [reads]: "returnS x s = (Val x, s)"
  by (simp add: returnS_def)

lemma callS_Val [reads]: "callS w (Ok x) s = (Val x, s)"
  by (simp add: callS_def)

section \<open>Reads only consume\<close>

text \<open>
  Every operation leaves a suffix of the stream it found, with the same end.  This is what
  makes the loops over entries and blocks terminate.
\<close>

definition later :: "stream \<Rightarrow> stream \<Rightarrow> bool" where
  "later s s' \<longleftrightarrow> (\<exists>k. s' = Stream (drop k (s_bytes s)) (s_end s))"

lemma later_refl [simp]: "later s s"
  by (auto simp: later_def intro: exI [of _ 0])

lemma later_trans [trans]: "later a b \<Longrightarrow> later b c \<Longrightarrow> later a c"
  by (auto simp: later_def)

lemma later_le: "later s s' \<Longrightarrow> length (s_bytes s') \<le> length (s_bytes s)"
  by (auto simp: later_def)

lemma later_sReadFull: "sReadFull n s = (b, e, s') \<Longrightarrow> later s s'"
  by (auto simp: later_def sReadFull_def Let_def)

lemma later_CopyN: "CopyN n s = (e, s') \<Longrightarrow> later s s'"
  by (auto simp: later_def CopyN_def)

lemma sReadFull_shorter:
  "sReadFull n s = (b, None, s') \<Longrightarrow> 0 < n \<Longrightarrow> length b = n \<and> length (s_bytes s') < length (s_bytes s)"
  by (auto simp: sReadFull_def Let_def split: if_splits)

definition consumes :: "'a reader \<Rightarrow> bool" where
  "consumes m \<longleftrightarrow> (\<forall>s. later s (snd (m s)))"

named_theorems consume_intros \<open>operations that only consume\<close>

lemma consumesD: "consumes m \<Longrightarrow> m s = (r, s') \<Longrightarrow> later s s'"
  by (metis consumes_def snd_conv)

lemma consumes_basic [consume_intros]:
  "consumes (returnS x)" "consumes (failS e)" "consumes (callS w m)"
  by (simp_all add: consumes_def returnS_def failS_def callS_def split: res.splits)

lemma consumes_reads [consume_intros]: "consumes (readS n w)" "consumes (copyS n w)"
  by (auto simp: consumes_def readS_def copyS_def later_sReadFull later_CopyN split: prod.splits option.splits)

lemma consumes_bindS [consume_intros]:
  assumes "consumes m" and "\<And>x. consumes (f x)" shows "consumes (bindS m f)"
  unfolding consumes_def
proof
  fix s
  obtain r s1 where m: "m s = (r, s1)" by force
  have "later s s1" by (rule consumesD [OF assms(1) m])
  moreover have "later s1 (snd (f x s1))" for x using assms(2) by (simp add: consumes_def)
  ultimately show "later s (snd (bindS m f s))"
    by (cases r) (auto simp: bindS_def m intro: later_trans)
qed

lemma consumes_catchS [consume_intros]:
  assumes "consumes m" and "\<And>x. consumes (h x)" shows "consumes (catchS m h)"
  unfolding consumes_def
proof
  fix s
  obtain r s1 where m: "m s = (r, s1)" by force
  have "later s s1" by (rule consumesD [OF assms(1) m])
  moreover have "later s1 (snd (h x s1))" for x using assms(2) by (simp add: consumes_def)
  ultimately show "later s (snd (catchS m h s))"
    by (cases r) (auto simp: catchS_def m intro: later_trans)
qed

end
