(* ===== verification/Binary.thy ===== *)
theory Binary
  imports Prelude
begin

text \<open>
  The variable-length integers of Go's \<^verbatim>\<open>encoding/binary\<close> (\<^verbatim>\<open>AppendUvarint\<close>, \<^verbatim>\<open>Uvarint\<close>,
  \<^verbatim>\<open>AppendVarint\<close>, \<^verbatim>\<open>Varint\<close>), which the session index and the directory use, and the
  interface of a self-delimiting field with the lemmas its clients need.
\<close>

section \<open>Unsigned varints\<close>

fun uvarint_enc :: "nat \<Rightarrow> bytes" where
  "uvarint_enc n =
     (if n < 128 then [word_of_nat n]
      else word_of_nat (n mod 128 + 128) # uvarint_enc (n div 128))"

declare uvarint_enc.simps [simp del]

definition append_uvarint :: "u64 \<Rightarrow> bytes" where
  "append_uvarint x = uvarint_enc (unat x)"

text \<open>
  \<^verbatim>\<open>binary.Uvarint\<close> returns the value and the number of bytes read: 0 when the buffer is
  too short, negative on overflow past 64 bits.  The loop carries the byte index \<open>i\<close> and
  the value \<open>x\<close> accumulated so far; the shift is \<open>7 * i\<close>.
\<close>

fun uvarint_loop :: "nat \<Rightarrow> nat \<Rightarrow> bytes \<Rightarrow> u64 \<times> int" where
  "uvarint_loop i x [] = (0, 0)"
| "uvarint_loop i x (b # bs) =
     (if i = 10 then (0, - (int i + 1))
      else if unat b < 128 then
        (if i = 9 \<and> 1 < unat b then (0, - (int i + 1))
         else (word_of_nat (x + unat b * 2 ^ (7 * i)), int i + 1))
      else uvarint_loop (Suc i) (x + (unat b mod 128) * 2 ^ (7 * i)) bs)"

definition uvarint :: "bytes \<Rightarrow> u64 \<times> int" where
  "uvarint b = uvarint_loop 0 0 b"

lemma uvarint_enc_nonempty [simp]: "uvarint_enc n \<noteq> []"
  by (subst uvarint_enc.simps) simp

lemma uvarint_enc_small: "n < 128 \<Longrightarrow> uvarint_enc n = [word_of_nat n]"
  by (subst uvarint_enc.simps) simp

lemma uvarint_enc_big:
  "\<not> n < 128 \<Longrightarrow> uvarint_enc n = word_of_nat (n mod 128 + 128) # uvarint_enc (n div 128)"
  by (subst uvarint_enc.simps) simp

lemma unat_byte_small: "n < 256 \<Longrightarrow> unat (word_of_nat n :: byte) = n"
  by (simp add: unat_byte_of_nat)

lemma uvarint_loop_enc:
  "n * 2 ^ (7 * i) < 2 ^ 64 \<Longrightarrow> i < 10 \<Longrightarrow>
   uvarint_loop i x (uvarint_enc n @ r) =
     (word_of_nat (x + n * 2 ^ (7 * i)), int i + int (length (uvarint_enc n)))"
proof (induction n arbitrary: i x rule: uvarint_enc.induct)
  case (1 n)
  show ?case
  proof (cases "n < 128")
    case True
    have "i = 9 \<Longrightarrow> n \<le> 1"
    proof -
      assume "i = 9"
      with "1.prems"(1) have "n * 2 ^ 63 < 2 * 2 ^ 63" by simp
      then show "n \<le> 1" by simp
    qed
    with True "1.prems"(2) show ?thesis
      by (auto simp: uvarint_enc_small unat_byte_small)
  next
    case False
    let ?m = "n mod 128" and ?d = "n div 128"
    have n: "n = ?m + 128 * ?d" by simp
    have "128 * 2 ^ (7 * i) \<le> n * 2 ^ (7 * i)" using False by (intro mult_right_mono) auto
    then have "(2::nat) ^ (7 + 7 * i) \<le> n * 2 ^ (7 * i)" by (simp only: power_add) simp
    with "1.prems"(1) have "2 ^ (7 + 7 * i) < (2::nat) ^ 64" by (rule le_less_trans [rotated])
    then have "7 + 7 * i < 64" by (subst (asm) power_strict_increasing_iff) auto
    then have i9: "Suc i < 10" by simp
    have shift: "128 * ?d * 2 ^ (7 * i) = ?d * 2 ^ (7 * Suc i)"
      by (simp add: power_add)
    have "?d * 2 ^ (7 * Suc i) \<le> n * 2 ^ (7 * i)"
      unfolding shift [symmetric] by (intro mult_right_mono) simp_all
    with "1.prems"(1) have d: "?d * 2 ^ (7 * Suc i) < 2 ^ 64" by simp
    have "?m * 2 ^ (7 * i) + ?d * 2 ^ (7 * Suc i) = n * 2 ^ (7 * i)"
      unfolding shift [symmetric] by (subst (3) n) (simp only: distrib_right)
    then have sum: "x + ?m * 2 ^ (7 * i) + ?d * 2 ^ (7 * Suc i) = x + n * 2 ^ (7 * i)"
      by simp
    have hd: "unat (word_of_nat (?m + 128) :: byte) = ?m + 128"
      by (rule unat_byte_small) (simp add: less_le_trans [of _ 128])
    have "uvarint_loop i x (uvarint_enc n @ r) =
        uvarint_loop (Suc i) (x + ?m * 2 ^ (7 * i)) (uvarint_enc ?d @ r)"
      using False i9 by (simp add: uvarint_enc_big hd del: of_nat_add)
    also have "\<dots> = (word_of_nat (x + n * 2 ^ (7 * i)), int (Suc i) + int (length (uvarint_enc ?d)))"
      using "1.IH" [OF False d i9] by (simp only: sum)
    finally show ?thesis using False by (simp add: uvarint_enc_big)
  qed
qed

lemma append_uvarint_nonempty [simp]: "append_uvarint x \<noteq> []"
  by (simp add: append_uvarint_def)

lemma uvarint_append [codec_simps]:
  "uvarint (append_uvarint x @ r) = (x, int (length (append_uvarint x)))"
  using uvarint_loop_enc [of "unat x" 0 0 r] unat_bound [of x]
  by (simp add: uvarint_def append_uvarint_def)

text \<open>A successful read consumes at least one and at most ten bytes of the buffer.\<close>

lemma uvarint_loop_consumed:
  "uvarint_loop i x b = (v, n) \<Longrightarrow> i \<le> 10 \<Longrightarrow>
   n \<le> int i + int (length b) \<and> n \<le> 10 \<and> (0 < n \<longrightarrow> int i < n)"
  by (induction i x b rule: uvarint_loop.induct) (auto split: if_splits)

lemma uvarint_consumed:
  "uvarint b = (v, n) \<Longrightarrow> n \<le> int (length b) \<and> n \<le> 10"
  using uvarint_loop_consumed [of 0 0 b v n] by (simp add: uvarint_def)

section \<open>Signed varints\<close>

text \<open>The zig-zag encoding on the two's complement bits.\<close>

definition zigzag :: "i64 \<Rightarrow> u64" where
  "zigzag x = (if sint x < 0 then NOT (push_bit 1 x) else push_bit 1 x)"

definition unzigzag :: "u64 \<Rightarrow> i64" where
  "unzigzag u = (if u AND 1 \<noteq> 0 then NOT (drop_bit 1 u) else drop_bit 1 u)"

definition append_varint :: "i64 \<Rightarrow> bytes" where
  "append_varint x = append_uvarint (zigzag x)"

definition varint :: "bytes \<Rightarrow> i64 \<times> int" where
  "varint b = (let (u, n) = uvarint b in (unzigzag u, n))"

lemma unzigzag_zigzag: "unzigzag (zigzag x) = x"
proof (rule bit_eqI)
  fix k assume "possible_bit TYPE(64 word) k"
  then have k: "k < 64" by simp
  have neg: "sint x < 0 \<longleftrightarrow> bit x 63"
    using bit_last_iff [of x] by simp
  have "zigzag x AND 1 \<noteq> 0 \<longleftrightarrow> odd (zigzag x)"
    by (simp add: and_one_eq even_iff_mod_2_eq_zero)
  also have "\<dots> \<longleftrightarrow> bit x 63"
    by (simp add: zigzag_def neg)
  finally have lsb: "zigzag x AND 1 \<noteq> 0 \<longleftrightarrow> bit x 63" .
  show "bit (unzigzag (zigzag x)) k = bit x k"
  proof (cases "k = 63")
    case True
    then show ?thesis by (auto simp: unzigzag_def lsb bit_simps dest: bit_imp_le_length)
  next
    case False
    then show ?thesis using k
      by (auto simp: unzigzag_def lsb) (auto simp: zigzag_def neg bit_simps mult.commute [of x 2] bit_double_iff)
  qed
qed

lemma append_varint_nonempty [simp]: "append_varint x \<noteq> []"
  by (simp add: append_varint_def)

lemma varint_append [codec_simps]:
  "varint (append_varint x @ r) = (x, int (length (append_varint x)))"
  by (simp add: varint_def append_varint_def uvarint_append unzigzag_zigzag)

end
