(* ===== verification/Codec.thy ===== *)
theory Codec
  imports Binary
begin

text \<open>
  The interface between an encoder of one field and the decoder that reads it back from a
  decoder state, and what follows from it for repeated fields.  The decoders of the
  repository (\<^verbatim>\<open>attrDecoder\<close>, \<^verbatim>\<open>indexDecoder\<close>, and the cursors of the stream parsers) all
  consume a prefix of the bytes that remain.
\<close>

section \<open>Reading a counted sequence\<close>

text \<open>
  \<open>loopR stop n dec d\<close> is \<^verbatim>\<open>for i := 0; i < n && !stop; i++ { xs = append(xs, d.dec()) }\<close>:
  an error or panic of \<open>dec\<close> ends the loop at once.
\<close>

fun loopR :: "('d \<Rightarrow> bool) \<Rightarrow> nat \<Rightarrow> ('d \<Rightarrow> ('a \<times> 'd) res) \<Rightarrow> 'd \<Rightarrow> ('a list \<times> 'd) res" where
  "loopR stop 0 dec d = Ok ([], d)"
| "loopR stop (Suc n) dec d =
     (if stop d then Ok ([], d)
      else bindR (dec d) (\<lambda>(x, d'). bindR (loopR stop n dec d') (\<lambda>(xs, d''). Ok (x # xs, d''))))"

section \<open>Self-delimiting fields\<close>

locale prefix_codec =
  fixes ok :: "'a \<Rightarrow> bool" and enc :: "'a \<Rightarrow> bytes" and dec :: "'d \<Rightarrow> ('a \<times> 'd) res"
    and st :: "bytes \<Rightarrow> 'd" and stop :: "'d \<Rightarrow> bool"
  assumes dec_enc: "ok x \<Longrightarrow> dec (st (enc x @ r)) = Ok (x, st r)"
    and running: "\<not> stop (st r)"
begin

lemma loop_enc:
  "list_all ok xs \<Longrightarrow> loopR stop (length xs) dec (st (concat (map enc xs) @ r)) = Ok (xs, st r)"
  by (induction xs) (simp_all add: dec_enc running)

text \<open>No encoding is a prefix of a different one, so a concatenation splits in one way.\<close>

lemma enc_prefix_free:
  assumes "ok x" and "ok y" and "enc x @ r = enc y @ s"
  shows "x = y \<and> r = s"
proof -
  have "Ok (x, st r) = Ok (y, st s)"
    using dec_enc [OF assms(1), of r] dec_enc [OF assms(2), of s] assms(3) by simp
  then have "x = y" by simp
  with assms(3) show ?thesis by simp
qed

lemma concat_enc_inj:
  "list_all ok xs \<Longrightarrow> list_all ok ys \<Longrightarrow> length xs = length ys \<Longrightarrow>
   concat (map enc xs) @ r = concat (map enc ys) @ s \<Longrightarrow> xs = ys \<and> r = s"
proof (induction xs ys rule: list_induct2')
  case (4 x xs y ys)
  then have "x = y \<and> concat (map enc xs) @ r = concat (map enc ys) @ s"
    by (intro enc_prefix_free) auto
  with 4 show ?case by auto
qed auto

end

text \<open>
  A field is exact when, moreover, a decode that leaves the decoder clean has read the
  encoding of its result: the decoder accepts nothing but encodings.
\<close>

locale exact_codec = prefix_codec ok enc dec st stop
  for ok :: "'a \<Rightarrow> bool" and enc :: "'a \<Rightarrow> bytes" and dec :: "'d \<Rightarrow> ('a \<times> 'd) res"
    and st :: "bytes \<Rightarrow> 'd" and stop :: "'d \<Rightarrow> bool" +
  fixes clean :: "'d \<Rightarrow> bool" and rest :: "'d \<Rightarrow> bytes"
  assumes dec_inv: "dec d = Ok (x, d') \<Longrightarrow> clean d' \<Longrightarrow> clean d \<and> rest d = enc x @ rest d'"
    and stop_clean: "clean d \<Longrightarrow> \<not> stop d"
begin

lemma loop_inv:
  "loopR stop n dec d = Ok (xs, d') \<Longrightarrow> clean d' \<Longrightarrow>
   clean d \<and> length xs = n \<and> rest d = concat (map enc xs) @ rest d'"
proof (induction n arbitrary: d xs)
  case (Suc n)
  show ?case
  proof (cases "stop d")
    case True
    with Suc.prems have "d' = d" by simp
    with Suc.prems(2) True stop_clean show ?thesis by blast
  next
    case False
    with Suc.prems(1) obtain x d1 ys where x: "dec d = Ok (x, d1)"
      and ys: "loopR stop n dec d1 = Ok (ys, d')" and xs: "xs = x # ys"
      by (auto simp: bindR_Ok_conv)
    from Suc.IH [OF ys Suc.prems(2)] dec_inv [OF x] show ?thesis by (simp add: xs)
  qed
qed simp

end
section \<open>Fields that only accept valid values\<close>

text \<open>
  A decoder with a sticky error: when it is clean after a field, it was clean before, and
  the value it returned satisfies the field's check.
\<close>

locale checked_field =
  fixes good :: "'a \<Rightarrow> bool" and dec :: "'d \<Rightarrow> ('a \<times> 'd) res" and clean :: "'d \<Rightarrow> bool"
  assumes dec_good: "dec d = Ok (x, d') \<Longrightarrow> clean d' \<Longrightarrow> clean d \<and> good x"
begin

lemma loop_good:
  "loopR (\<lambda>_. False) n dec d = Ok (xs, d') \<Longrightarrow> clean d' \<Longrightarrow> clean d \<and> list_all good xs \<and> length xs = n"
proof (induction n arbitrary: d xs)
  case (Suc n)
  then obtain x d1 ys where "dec d = Ok (x, d1)" "loopR (\<lambda>_. False) n dec d1 = Ok (ys, d')" "xs = x # ys"
    by (auto simp: bindR_Ok_conv)
  with Suc.IH Suc.prems(2) dec_good show ?case by fastforce
qed simp

end

section \<open>Appending fallible records\<close>

fun appendAllR :: "('a \<Rightarrow> bytes res) \<Rightarrow> bytes \<Rightarrow> 'a list \<Rightarrow> bytes res" where
  "appendAllR f b [] = Ok b"
| "appendAllR f b (x # xs) = bindR (f x) (\<lambda>e. appendAllR f (b @ e) xs)"

lemma appendAllR_Ok_conv:
  assumes "\<And>x e. f x = Ok e \<longleftrightarrow> ok x \<and> e = enc x"
  shows "appendAllR f b xs = Ok b' \<longleftrightarrow> list_all ok xs \<and> b' = b @ concat (map enc xs)"
proof (induction xs arbitrary: b)
  case (Cons x xs)
  show ?case using assms by (auto simp: bindR_Ok_conv Cons.IH)
qed auto

text \<open>A loop over fields that do not panic does not panic.\<close>

lemma loopR_no_panic: "(\<And>d. dec d \<noteq> Panic) \<Longrightarrow> loopR stop n dec d \<noteq> Panic"
  by (induction n arbitrary: d) (auto simp: bindR_Panic_conv)

lemma length_concat_ge: "(\<And>x. x \<in> set xs \<Longrightarrow> m \<le> length (enc x)) \<Longrightarrow> length xs * m \<le> length (concat (map enc xs))"
  by (induction xs) fastforce+

lemma length_concat_member: "x \<in> set xs \<Longrightarrow> length (enc x) \<le> length (concat (map enc xs))"
  by (induction xs) auto

end
