(* ===== verification/Names.thy ===== *)
theory Names
  imports Prelude
begin

text \<open>
  Stored entry names (\<^verbatim>\<open>archive/names.go\<close>).  A name is a slash-separated relative path; the
  component decides which names a reader accepts.  The lemmas relate acceptance to a
  lexical walk below an extraction directory.
\<close>

section \<open>Go's \<open>strings.Split\<close> on one separator byte\<close>

fun split_on :: "byte \<Rightarrow> bytes \<Rightarrow> bytes list" where
  "split_on c [] = [[]]"
| "split_on c (x # xs) =
     (if x = c then [] # split_on c xs
      else case split_on c xs of [] \<Rightarrow> [[x]] | y # ys \<Rightarrow> (x # y) # ys)"

fun join_with :: "byte \<Rightarrow> bytes list \<Rightarrow> bytes" where
  "join_with c [] = []"
| "join_with c [x] = x"
| "join_with c (x # y # ys) = x @ c # join_with c (y # ys)"

lemma split_on_nonempty [simp]: "split_on c s \<noteq> []"
  by (induction s) (auto split: list.splits)

lemma join_split [simp]: "join_with c (split_on c s) = s"
proof (induction s)
  case (Cons x xs)
  obtain y ys where y: "split_on c xs = y # ys" by (cases "split_on c xs") auto
  with Cons.IH show ?case by (cases ys) auto
qed simp

lemma split_on_no_sep: "e \<in> set (split_on c s) \<Longrightarrow> c \<notin> set e"
proof (induction s arbitrary: e)
  case (Cons x xs)
  obtain y ys where y: "split_on c xs = y # ys" by (cases "split_on c xs") auto
  with Cons show ?case by (auto split: if_splits)
qed simp

section \<open>\<open>ValidEntryName\<close>\<close>

definition MaxEntryNameLen :: nat where "MaxEntryNameLen = 0xFFFF"

definition slash :: byte where "slash = 0x2F"
definition backslash :: byte where "backslash = 0x5C"
definition dot :: byte where "dot = 0x2E"

definition ValidEntryName :: "bytes \<Rightarrow> bool" where
  "ValidEntryName name =
     (if name = [] \<or> MaxEntryNameLen < length name \<or> 0 \<in> set name \<or> backslash \<in> set name
      then False
      else list_all (\<lambda>elem. \<not> (elem = [] \<or> elem = [dot] \<or> elem = [dot, dot]))
             (split_on slash name))"

lemma ValidEntryName_length:
  "ValidEntryName n \<Longrightarrow> 0 < length n \<and> length n \<le> MaxEntryNameLen"
  by (auto simp: ValidEntryName_def split: if_splits)

lemma ValidEntryName_nonempty [simp]: "\<not> ValidEntryName []"
  by (simp add: ValidEntryName_def)

lemma ValidEntryName_length_u16: "ValidEntryName n \<Longrightarrow> length n < 2 ^ 16"
  using ValidEntryName_length [of n] by (simp add: MaxEntryNameLen_def)

section \<open>What acceptance means for a path below a directory\<close>

text \<open>
  The lexical walk the operating system makes from directory \<open>d\<close> (its components, root
  first) along path elements: an empty element or \<^verbatim>\<open>.\<close> stays, \<^verbatim>\<open>..\<close> climbs, any other
  element descends.  The list of all directories visited is returned, so that "never
  leaves \<open>d\<close>" speaks of every intermediate step.
\<close>

fun walk_step :: "bytes list \<Rightarrow> bytes \<Rightarrow> bytes list" where
  "walk_step d e =
     (if e = [] \<or> e = [dot] then d else if e = [dot, dot] then butlast d else d @ [e])"

fun walk :: "bytes list \<Rightarrow> bytes list \<Rightarrow> bytes list list" where
  "walk d [] = [d]"
| "walk d (e # es) = d # walk (walk_step d e) es"

definition resolve :: "bytes list \<Rightarrow> bytes \<Rightarrow> bytes list" where
  "resolve d name = last (walk d (split_on slash name))"

definition safe_elem :: "bytes \<Rightarrow> bool" where
  "safe_elem e \<longleftrightarrow> e \<noteq> [] \<and> e \<noteq> [dot] \<and> e \<noteq> [dot, dot]"

lemma ValidEntryName_elems:
  "ValidEntryName n \<Longrightarrow> list_all safe_elem (split_on slash n)"
  by (auto simp: ValidEntryName_def safe_elem_def list_all_iff split: if_splits)

lemma walk_nonempty [simp]: "walk d es \<noteq> []"
  by (cases es) auto

lemma last_walk_safe: "list_all safe_elem es \<Longrightarrow> last (walk d es) = d @ es"
  by (induction es arbitrary: d) (auto simp: safe_elem_def)

lemma walk_prefix:
  "list_all safe_elem es \<Longrightarrow> p \<in> set (walk d es) \<Longrightarrow> \<exists>q. p = d @ q"
proof (induction es arbitrary: d)
  case (Cons e es)
  then have step: "walk_step d e = d @ [e]" and es: "list_all safe_elem es"
    by (simp add: safe_elem_def) (use Cons.prems(1) in simp)
  from Cons.prems(2) step consider "p = d" | "p \<in> set (walk (d @ [e]) es)" by auto
  then show ?case
  proof cases
    case 2
    from Cons.IH [OF es 2] show ?thesis by auto
  qed simp
qed simp

text \<open>
  C30: extraction containment.  For an accepted name, every directory on the walk from the
  extraction directory stays inside it, the name resolves to a strict descendant whose
  path is the extraction directory followed by the name's own elements, and none of those
  elements contains a separator.
\<close>

theorem valid_name_stays_inside:
  assumes "ValidEntryName n"
  shows "(\<forall>p \<in> set (walk d (split_on slash n)). \<exists>q. p = d @ q)
    \<and> resolve d n = d @ split_on slash n \<and> split_on slash n \<noteq> []
    \<and> (\<forall>e \<in> set (split_on slash n). slash \<notin> set e \<and> safe_elem e)"
proof -
  note es = ValidEntryName_elems [OF assms]
  have "resolve d n = d @ split_on slash n"
    by (simp add: resolve_def last_walk_safe [OF es])
  moreover have "\<forall>e \<in> set (split_on slash n). slash \<notin> set e \<and> safe_elem e"
    using es split_on_no_sep by (auto simp: list_all_iff)
  ultimately show ?thesis using walk_prefix [OF es] by auto
qed

theorem valid_name_stays_inside_witness:
  "resolve [str ''out''] (str ''docs/a.txt'') = [str ''out'', str ''docs'', str ''a.txt'']"
proof -
  have v: "ValidEntryName (str ''docs/a.txt'')"
    by (simp add: ValidEntryName_def str_def MaxEntryNameLen_def slash_def backslash_def dot_def)
  show ?thesis
    using valid_name_stays_inside [OF v, of "[str ''out'']"] by (simp add: str_def slash_def)
qed

text \<open>
  Two accepted names that resolve to the same path are the same name, so distinct entries
  of an archive never overwrite one another through different spellings.
\<close>

lemma valid_name_resolve_inj:
  assumes "ValidEntryName a" and "ValidEntryName b" and "resolve d a = resolve d b"
  shows "a = b"
proof -
  have "split_on slash a = split_on slash b"
    using assms by (simp add: resolve_def last_walk_safe [OF ValidEntryName_elems])
  then have "join_with slash (split_on slash a) = join_with slash (split_on slash b)" by simp
  then show ?thesis by simp
qed

end
