(* ===== verification/Attributes.thy ===== *)
theory Attributes
  imports Codec Names
begin

text \<open>
  File attributes (\<^verbatim>\<open>archive/attributes.go\<close>): their validation, their encoding, and the
  decoder with a sticky error.  The encoding is a bijection between the valid attributes
  and the byte strings the parser accepts.
\<close>

section \<open>Data\<close>

text \<open>\<^verbatim>\<open>FileKind\<close> is a Go \<^verbatim>\<open>uint8\<close>: the parser reads any byte and \<^verbatim>\<open>validate\<close> rejects others.\<close>

type_synonym FileKind = byte

definition KindRegular :: FileKind where "KindRegular = 0"
definition KindDirectory :: FileKind where "KindDirectory = 1"
definition KindSymlink :: FileKind where "KindSymlink = 2"
definition KindHardlink :: FileKind where "KindHardlink = 3"

lemmas kind_defs = KindRegular_def KindDirectory_def KindSymlink_def KindHardlink_def

definition ModeMask :: u32 where "ModeMask = 0xFFF"
definition MaxLinkTargetLen :: nat where "MaxLinkTargetLen = 4096"
definition MaxXattrs :: nat where "MaxXattrs = 1024"
definition MaxXattrNameLen :: nat where "MaxXattrNameLen = 255"
definition MaxXattrsSize :: nat where "MaxXattrsSize = 1048576"
definition MaxAttributesSize :: nat where
  "MaxAttributesSize = MaxXattrsSize + MaxLinkTargetLen + 64"

lemmas attr_limits =
  MaxLinkTargetLen_def MaxXattrs_def MaxXattrNameLen_def MaxXattrsSize_def MaxAttributesSize_def

record Owner =
  o_UID :: u32
  o_GID :: u32

record Xattr =
  x_Name :: bytes
  x_Value :: bytes

record Attributes =
  a_Kind :: FileKind
  a_Mode :: u32
  a_ModTime :: i64
  a_LinkTarget :: bytes
  a_Owner :: "Owner option"
  a_Xattrs :: "Xattr list"

definition attributesHasOwner :: byte where "attributesHasOwner = 0x01"

section \<open>Validation\<close>

fun XattrsSize :: "Xattr list \<Rightarrow> nat" where
  "XattrsSize [] = 0"
| "XattrsSize (x # xs) = 1 + length (x_Name x) + 4 + length (x_Value x) + XattrsSize xs"

definition validate :: "Attributes \<Rightarrow> sarc_error option" where
  "validate a =
     (if KindHardlink < a_Kind a then Some (ErrMalformedAttributes ''unknown kind'')
      else if a_Mode a AND NOT ModeMask \<noteq> 0
        then Some (ErrMalformedAttributes ''mode has bits outside 7777'')
      else if MaxLinkTargetLen < length (a_LinkTarget a)
        then Some (ErrMalformedAttributes ''link target too long'')
      else if (a_Kind a = KindSymlink \<or> a_Kind a = KindHardlink) \<noteq> (a_LinkTarget a \<noteq> [])
        then Some (ErrMalformedAttributes ''only links have a non-empty target'')
      else if a_Kind a = KindHardlink \<and> \<not> ValidEntryName (a_LinkTarget a)
        then Some (ErrMalformedAttributes ''hard link target is not a safe name'')
      else if MaxXattrs < length (a_Xattrs a) \<or> MaxXattrsSize < XattrsSize (a_Xattrs a)
        then Some (ErrMalformedAttributes ''extended attributes too large'')
      else if list_ex (\<lambda>x. x_Name x = [] \<or> MaxXattrNameLen < length (x_Name x)) (a_Xattrs a)
        then Some (ErrMalformedAttributes ''bad extended attribute name'')
      else None)"

section \<open>Encoding\<close>

definition append_xattr :: "Xattr \<Rightarrow> bytes" where
  "append_xattr x =
     word_of_nat (length (x_Name x)) # x_Name x
     @ le32 (word_of_nat (length (x_Value x))) @ x_Value x"

definition attr_flags :: "Owner option \<Rightarrow> byte" where
  "attr_flags ow = (if ow \<noteq> None then attributesHasOwner else 0)"

definition owner_fields :: "Owner option \<Rightarrow> bytes" where
  "owner_fields ow = (case ow of None \<Rightarrow> [] | Some w \<Rightarrow> le32 (o_UID w) @ le32 (o_GID w))"

definition attributes_bytes :: "Attributes \<Rightarrow> bytes" where
  "attributes_bytes a =
     [a_Kind a] @ le32 (a_Mode a) @ le64 (a_ModTime a)
     @ [attr_flags (a_Owner a)]
     @ owner_fields (a_Owner a)
     @ le16 (word_of_nat (length (a_LinkTarget a))) @ a_LinkTarget a
     @ le16 (word_of_nat (length (a_Xattrs a))) @ concat (map append_xattr (a_Xattrs a))"

definition AppendAttributes :: "bytes \<Rightarrow> Attributes \<Rightarrow> bytes res" where
  "AppendAttributes dst a =
     (case validate a of Some e \<Rightarrow> Err e | None \<Rightarrow> Ok (dst @ attributes_bytes a))"

section \<open>The sticky decoder\<close>

record attrDecoder =
  ad_b :: bytes
  ad_err :: "sarc_error option"

definition ad_bytes :: "nat \<Rightarrow> attrDecoder \<Rightarrow> bytes \<times> attrDecoder" where
  "ad_bytes n d =
     (if ad_err d \<noteq> None \<or> length (ad_b d) < n
      then ([], if ad_err d = None
                then d\<lparr>ad_err := Some (ErrMalformedAttributes ''truncated'')\<rparr> else d)
      else (take n (ad_b d), d\<lparr>ad_b := drop n (ad_b d)\<rparr>))"

definition ad_byte :: "attrDecoder \<Rightarrow> byte \<times> attrDecoder" where
  "ad_byte d = (let (b, d') = ad_bytes 1 d in (if b \<noteq> [] then b ! 0 else 0, d'))"

definition ad_u16 :: "attrDecoder \<Rightarrow> u16 \<times> attrDecoder" where
  "ad_u16 d = (let (b, d') = ad_bytes 2 d in (if b \<noteq> [] then word_le 2 b else 0, d'))"

definition ad_u32 :: "attrDecoder \<Rightarrow> u32 \<times> attrDecoder" where
  "ad_u32 d = (let (b, d') = ad_bytes 4 d in (if b \<noteq> [] then word_le 4 b else 0, d'))"

definition ad_u64 :: "attrDecoder \<Rightarrow> u64 \<times> attrDecoder" where
  "ad_u64 d = (let (b, d') = ad_bytes 8 d in (if b \<noteq> [] then word_le 8 b else 0, d'))"

section \<open>Parsing\<close>

definition ad_xattr :: "attrDecoder \<Rightarrow> (Xattr \<times> attrDecoder) res" where
  "ad_xattr d =
     (let (l, d) = ad_byte d; (name, d) = ad_bytes (unat l) d; (size, d) = ad_u32 d in
      if MaxXattrsSize < unat size
      then Err (ErrMalformedAttributes ''extended attribute too large'')
      else let (v, d) = ad_bytes (unat size) d in Ok (\<lparr>x_Name = name, x_Value = v\<rparr>, d))"

definition ad_owner :: "byte \<Rightarrow> attrDecoder \<Rightarrow> Owner option \<times> attrDecoder" where
  "ad_owner flags d =
     (if flags AND attributesHasOwner \<noteq> 0
      then let (u, d) = ad_u32 d; (g, d) = ad_u32 d in (Some \<lparr>o_UID = u, o_GID = g\<rparr>, d)
      else (None, d))"

definition ParseAttributes :: "bytes \<Rightarrow> Attributes res" where
  "ParseAttributes b =
     (let d = \<lparr>ad_b = b, ad_err = None\<rparr>;
          (kind, d) = ad_byte d; (mode, d) = ad_u32 d; (mtime, d) = ad_u64 d;
          (flags, d) = ad_byte d in
      if flags AND NOT attributesHasOwner \<noteq> 0
      then Err (ErrMalformedAttributes ''unknown flags'')
      else let (ow, d) = ad_owner flags d;
          (tlen, d) = ad_u16 d; (target, d) = ad_bytes (unat tlen) d;
          (count, d) = ad_u16 d in
      if MaxXattrs < unat count
      then Err (ErrMalformedAttributes ''too many extended attributes'')
      else bindR (loopR (\<lambda>d. ad_err d \<noteq> None) (unat count) ad_xattr d) (\<lambda>(xs, d).
        case ad_err d of Some e \<Rightarrow> Err e
        | None \<Rightarrow>
          if ad_b d \<noteq> [] then Err (ErrMalformedAttributes ''trailing bytes'')
          else let a = \<lparr>a_Kind = kind, a_Mode = mode, a_ModTime = mtime,
                        a_LinkTarget = target, a_Owner = ow, a_Xattrs = xs\<rparr> in
            (case validate a of Some e \<Rightarrow> Err e | None \<Rightarrow> Ok a)))"


section \<open>The decoder reads what the encoder wrote\<close>

abbreviation clean_attr :: "bytes \<Rightarrow> attrDecoder" where
  "clean_attr b \<equiv> \<lparr>ad_b = b, ad_err = None\<rparr>"

lemma ad_bytes_clean [simp]: "length x = n \<Longrightarrow> ad_bytes n (clean_attr (x @ r)) = (x, clean_attr r)"
  by (simp add: ad_bytes_def)

lemma ad_word_clean [simp]:
  "ad_byte (clean_attr (b # r)) = (b, clean_attr r)"
  "ad_u16 (clean_attr (le16 h @ r)) = (h, clean_attr r)"
  "ad_u32 (clean_attr (le32 w @ r)) = (w, clean_attr r)"
  "ad_u64 (clean_attr (le64 v @ r)) = (v, clean_attr r)"
  using ad_bytes_clean [of "[b]" 1 r] word_le_enc [of 2 h "[]"] word_le_enc [of 4 w "[]"]
    word_le_enc [of 8 v "[]"]
  by (simp_all add: ad_byte_def ad_u16_def ad_u32_def ad_u64_def)
    (simp_all add: le16_def le32_def le64_def)

text \<open>A decoder that is clean after a read was clean before it and consumed its result.\<close>

lemma ad_bytes_inv:
  "ad_bytes n d = (x, d') \<Longrightarrow> ad_err d' = None \<Longrightarrow>
   ad_err d = None \<and> ad_b d = x @ ad_b d' \<and> length x = n"
  by (auto simp: ad_bytes_def split: if_splits)

lemma ad_byte_inv:
  assumes "ad_byte d = (b, d')" and "ad_err d' = None"
  shows "ad_err d = None \<and> ad_b d = b # ad_b d'"
proof -
  obtain x where x: "ad_bytes 1 d = (x, d')" and b: "b = (if x \<noteq> [] then x ! 0 else 0)"
    using assms(1) by (auto simp: ad_byte_def Let_def split: prod.splits)
  with ad_bytes_inv [OF x assms(2)] show ?thesis by (cases x) auto
qed

lemma ad_u16_inv:
  assumes "ad_u16 d = (w, d')" and "ad_err d' = None"
  shows "ad_err d = None \<and> ad_b d = le16 w @ ad_b d'"
proof -
  obtain x where x: "ad_bytes 2 d = (x, d')" and w: "w = (if x \<noteq> [] then word_le 2 x else 0)"
    using assms(1) by (auto simp: ad_u16_def Let_def split: prod.splits)
  with ad_bytes_inv [OF x assms(2)] show ?thesis by (auto simp: le_word_le)
qed

lemma ad_u32_inv:
  assumes "ad_u32 d = (w, d')" and "ad_err d' = None"
  shows "ad_err d = None \<and> ad_b d = le32 w @ ad_b d'"
proof -
  obtain x where x: "ad_bytes 4 d = (x, d')" and w: "w = (if x \<noteq> [] then word_le 4 x else 0)"
    using assms(1) by (auto simp: ad_u32_def Let_def split: prod.splits)
  with ad_bytes_inv [OF x assms(2)] show ?thesis by (auto simp: le_word_le)
qed

lemma ad_u64_inv:
  assumes "ad_u64 d = (w, d')" and "ad_err d' = None"
  shows "ad_err d = None \<and> ad_b d = le64 w @ ad_b d'"
proof -
  obtain x where x: "ad_bytes 8 d = (x, d')" and w: "w = (if x \<noteq> [] then word_le 8 x else 0)"
    using assms(1) by (auto simp: ad_u64_def Let_def split: prod.splits)
  with ad_bytes_inv [OF x assms(2)] show ?thesis by (auto simp: le_word_le)
qed

section \<open>One extended attribute is an exact field\<close>

definition xattr_ok :: "Xattr \<Rightarrow> bool" where
  "xattr_ok x \<longleftrightarrow> length (x_Name x) < 256 \<and> length (x_Value x) \<le> MaxXattrsSize"

lemma ad_xattr_enc:
  assumes "xattr_ok x"
  shows "ad_xattr (clean_attr (append_xattr x @ r)) = Ok (x, clean_attr r)"
proof -
  have n: "unat (word_of_nat (length (x_Name x)) :: byte) = length (x_Name x)"
    and v: "unat (word_of_nat (length (x_Value x)) :: u32) = length (x_Value x)"
    using assms by (simp_all add: xattr_ok_def unat_of_nat attr_limits)
  show ?thesis
    using assms by (simp add: ad_xattr_def append_xattr_def n v xattr_ok_def)
qed

lemma ad_xattr_inv:
  assumes "ad_xattr d = Ok (x, d')" and "ad_err d' = None"
  shows "ad_err d = None \<and> ad_b d = append_xattr x @ ad_b d'"
proof -
  obtain l d1 name d2 size d3 v
    where s1: "ad_byte d = (l, d1)" and s2: "ad_bytes (unat l) d1 = (name, d2)"
      and s3: "ad_u32 d2 = (size, d3)" and s4: "ad_bytes (unat size) d3 = (v, d')"
      and x: "x = \<lparr>x_Name = name, x_Value = v\<rparr>"
    using assms(1) by (auto simp: ad_xattr_def Let_def split: prod.splits if_splits)
  note i4 = ad_bytes_inv [OF s4 assms(2)]
  note i3 = ad_u32_inv [OF s3] note i2 = ad_bytes_inv [OF s2] note i1 = ad_byte_inv [OF s1]
  show ?thesis using i1 i2 i3 i4 by (simp add: append_xattr_def x)
qed

interpretation xattr: exact_codec xattr_ok append_xattr ad_xattr clean_attr
  "\<lambda>d. ad_err d \<noteq> None" "\<lambda>d. ad_err d = None" ad_b
  by unfold_locales (auto simp: ad_xattr_enc dest: ad_xattr_inv)

section \<open>Round trip and canonicity\<close>

lemma XattrsSize_length: "length (concat (map append_xattr xs)) = XattrsSize xs"
  by (induction xs) (auto simp: append_xattr_def)

lemma XattrsSize_member:
  "x \<in> set xs \<Longrightarrow> length (x_Value x) \<le> XattrsSize xs"
  by (induction xs) auto

lemma validate_None:
  assumes "validate a = None"
  shows "length (a_LinkTarget a) \<le> MaxLinkTargetLen" and "length (a_Xattrs a) \<le> MaxXattrs"
    and "XattrsSize (a_Xattrs a) \<le> MaxXattrsSize" and "list_all xattr_ok (a_Xattrs a)"
proof -
  show 1: "length (a_LinkTarget a) \<le> MaxLinkTargetLen" "length (a_Xattrs a) \<le> MaxXattrs"
    "XattrsSize (a_Xattrs a) \<le> MaxXattrsSize"
    using assms by (auto simp: validate_def split: if_splits)
  have "\<forall>x \<in> set (a_Xattrs a). length (x_Name x) \<le> MaxXattrNameLen"
    using assms by (auto simp: validate_def list_ex_iff not_less split: if_splits)
  with 1(3) XattrsSize_member show "list_all xattr_ok (a_Xattrs a)"
    by (fastforce simp: list_all_iff xattr_ok_def attr_limits)
qed

lemma attr_flags_known: "attr_flags ow AND NOT attributesHasOwner = 0"
  by (simp add: attr_flags_def attributesHasOwner_def)

lemma ad_owner_clean:
  "ad_owner (attr_flags ow) (clean_attr (owner_fields ow @ r)) = (ow, clean_attr r)"
  by (cases ow) (simp_all add: ad_owner_def attr_flags_def owner_fields_def attributesHasOwner_def)

text \<open>A flag byte with no unknown bit is one that the encoder writes.\<close>

lemma known_flags:
  assumes "f AND NOT attributesHasOwner = 0"
  shows "f = (if f AND attributesHasOwner \<noteq> 0 then attributesHasOwner else 0)"
proof -
  have "f = f AND attributesHasOwner"
    by (rule bit_eqI) (use assms in \<open>auto simp: bit_eq_iff bit_simps\<close>)
  moreover have "f AND attributesHasOwner = 0 \<or> f AND attributesHasOwner = attributesHasOwner"
    by (auto simp: attributesHasOwner_def and_one_eq)
  ultimately show ?thesis by metis
qed

lemma ad_owner_inv:
  assumes "ad_owner f d = (ow, d')" and "ad_err d' = None" and "f AND NOT attributesHasOwner = 0"
  shows "ad_err d = None \<and> f = attr_flags ow \<and> ad_b d = owner_fields ow @ ad_b d'"
proof (cases "f AND attributesHasOwner \<noteq> 0")
  case True
  then obtain u d1 g where u: "ad_u32 d = (u, d1)" and g: "ad_u32 d1 = (g, d')"
    and ow: "ow = Some \<lparr>o_UID = u, o_GID = g\<rparr>"
    using assms(1) by (auto simp: ad_owner_def Let_def split: prod.splits)
  from ad_u32_inv [OF u] ad_u32_inv [OF g assms(2)] known_flags [OF assms(3)] True show ?thesis
    by (simp add: ow owner_fields_def attr_flags_def)
next
  case False
  with assms known_flags [OF assms(3)] show ?thesis
    by (simp add: ad_owner_def owner_fields_def attr_flags_def)
qed

lemma ParseAttributes_bytes:
  assumes "validate a = None"
  shows "ParseAttributes (attributes_bytes a) = Ok a"
proof -
  note v = validate_None [OF assms]
  have t: "unat (word_of_nat (length (a_LinkTarget a)) :: u16) = length (a_LinkTarget a)"
    and c: "unat (word_of_nat (length (a_Xattrs a)) :: u16) = length (a_Xattrs a)"
    using v(1,2) by (simp_all add: unat_of_nat attr_limits)
  have loop: "loopR (\<lambda>d. ad_err d \<noteq> None) (length (a_Xattrs a)) ad_xattr
      (clean_attr (concat (map append_xattr (a_Xattrs a)))) = Ok (a_Xattrs a, clean_attr [])"
    using xattr.loop_enc [OF v(4), of "[]"] by simp
  show ?thesis
    unfolding ParseAttributes_def attributes_bytes_def
    using v(2) assms
    by (simp add: t c loop attr_flags_known ad_owner_clean del: not_None_eq) (cases a, simp add: Let_def)
qed


lemma ParseAttributes_inv:
  assumes "ParseAttributes b = Ok a"
  shows "validate a = None \<and> attributes_bytes a = b"
proof -
  obtain kind d1 mode d2 mtime d3 flags d4 ow d5 tlen d6 target d7 count d8 xs d9
    where s1: "ad_byte (clean_attr b) = (kind, d1)" and s2: "ad_u32 d1 = (mode, d2)"
      and s3: "ad_u64 d2 = (mtime, d3)" and s4: "ad_byte d3 = (flags, d4)"
      and fl: "flags AND NOT attributesHasOwner = 0" and s5: "ad_owner flags d4 = (ow, d5)"
      and s6: "ad_u16 d5 = (tlen, d6)" and s7: "ad_bytes (unat tlen) d6 = (target, d7)"
      and s8: "ad_u16 d7 = (count, d8)"
      and s9: "loopR (\<lambda>d. ad_err d \<noteq> None) (unat count) ad_xattr d8 = Ok (xs, d9)"
      and fin: "ad_err d9 = None" "ad_b d9 = []" "validate a = None"
      and a: "a = \<lparr>a_Kind = kind, a_Mode = mode, a_ModTime = mtime, a_LinkTarget = target,
                a_Owner = ow, a_Xattrs = xs\<rparr>"
    using assms
    by (auto simp: ParseAttributes_def Let_def bindR_Ok_conv split: prod.splits if_splits option.splits)
  note i9 = xattr.loop_inv [OF s9 fin(1)]
  note i8 = ad_u16_inv [OF s8] note i7 = ad_bytes_inv [OF s7] note i6 = ad_u16_inv [OF s6]
  note i5 = ad_owner_inv [OF s5 _ fl] note i4 = ad_byte_inv [OF s4]
  note i3 = ad_u64_inv [OF s3] note i2 = ad_u32_inv [OF s2] note i1 = ad_byte_inv [OF s1]
  from i1 i2 i3 i4 i5 i6 i7 i8 i9 fin(2) have "attributes_bytes a = b"
    by (simp add: attributes_bytes_def a)
  with fin(3) show ?thesis by simp
qed

text \<open>
  C37: attribute encoding is a bijection.  Encoding attributes from an empty buffer succeeds
  with \<open>b\<close> exactly when parsing \<open>b\<close> succeeds with the same attributes: every valid value
  survives the round trip, and every accepted byte string is the one encoding of its value.
\<close>

theorem attributes_bijection: "AppendAttributes [] a = Ok b \<longleftrightarrow> ParseAttributes b = Ok a"
proof
  assume "AppendAttributes [] a = Ok b"
  then have "validate a = None" and "b = attributes_bytes a"
    by (auto simp: AppendAttributes_def split: option.splits)
  then show "ParseAttributes b = Ok a" by (simp add: ParseAttributes_bytes)
next
  assume "ParseAttributes b = Ok a"
  then show "AppendAttributes [] a = Ok b"
    using ParseAttributes_inv [of b a] by (simp add: AppendAttributes_def)
qed

lemma owner_fields_length: "length (owner_fields ow) \<le> 8"
  by (cases ow) (simp_all add: owner_fields_def)

lemma attributes_bytes_bounds:
  assumes "validate a = None"
  shows "18 \<le> length (attributes_bytes a)" and "length (attributes_bytes a) \<le> MaxAttributesSize"
proof -
  show "18 \<le> length (attributes_bytes a)" by (simp add: attributes_bytes_def)
  show "length (attributes_bytes a) \<le> MaxAttributesSize"
    using validate_None(1,3) [OF assms] owner_fields_length [of "a_Owner a"]
    by (simp add: attributes_bytes_def XattrsSize_length attr_limits)
qed

lemma ParseAttributes_no_panic: "ParseAttributes b \<noteq> Panic"
proof -
  have "ad_xattr d \<noteq> Panic" for d
    by (simp add: ad_xattr_def Let_def split: prod.splits)
  then have "loopR stop n ad_xattr d \<noteq> Panic" for stop n d
    by (induction n arbitrary: d) (auto simp: bindR_Panic_conv)
  then show ?thesis
    by (auto simp: ParseAttributes_def Let_def bindR_Panic_conv split: prod.splits option.splits)
qed

end
