(* ===== verification/Crypto.thy ===== *)
theory Crypto
  imports Prelude
begin

text \<open>
  Package \<^verbatim>\<open>crypto\<close>: block encryption with random nonces and varying block sizes
  (\<^verbatim>\<open>encryption.go\<close>), padding (\<^verbatim>\<open>padding.go\<close>), the buffered random source
  (\<^verbatim>\<open>bufferedrand.go\<close>), HMAC (\<^verbatim>\<open>hmac.go\<close>) and the key derivations (\<^verbatim>\<open>subkey.go\<close>,
  \<^verbatim>\<open>keyderiver.go\<close>).  The primitives themselves (AES-256-GCM, SHA-2, HMAC, HKDF, PBKDF2,
  ChaCha20) are a parameter.
\<close>

section \<open>Sizes\<close>

definition SaltSize :: nat where "SaltSize = 32"
definition KeySize :: nat where "KeySize = 32"
definition PBKDF2Iter :: nat where "PBKDF2Iter = 100000"
definition NonceSize :: nat where "NonceSize = 12"
definition GCMTagSize :: nat where "GCMTagSize = 16"
definition HMACSize :: nat where "HMACSize = 32"
definition BaseBlockSize :: int where "BaseBlockSize = 256 * 1024"
definition GearTableSize :: nat where "GearTableSize = 256"
definition HeaderPadMin :: nat where "HeaderPadMin = 1024"
definition HeaderPadMax :: nat where "HeaderPadMax = 4096"
definition TrailerPadMin :: nat where "TrailerPadMin = 512"
definition TrailerPadMax :: nat where "TrailerPadMax = 2048"

lemmas crypto_sizes = SaltSize_def KeySize_def PBKDF2Iter_def NonceSize_def GCMTagSize_def
  HMACSize_def BaseBlockSize_def GearTableSize_def

section \<open>The primitives\<close>

text \<open>
  What the code calls in \<^verbatim>\<open>crypto/aes\<close>, \<^verbatim>\<open>crypto/cipher\<close>, \<^verbatim>\<open>crypto/hmac\<close>, \<^verbatim>\<open>crypto/sha256\<close>,
  \<^verbatim>\<open>crypto/sha512\<close>, \<^verbatim>\<open>crypto/hkdf\<close>, \<^verbatim>\<open>x/crypto/pbkdf2\<close> and \<^verbatim>\<open>x/crypto/chacha20\<close>.  Arguments of
  \<open>gcm_seal\<close> and \<open>gcm_open\<close>: key, nonce, text, additional data.
\<close>

record prims =
  gcm_seal :: "bytes \<Rightarrow> bytes \<Rightarrow> bytes \<Rightarrow> bytes \<Rightarrow> bytes"
  gcm_open :: "bytes \<Rightarrow> bytes \<Rightarrow> bytes \<Rightarrow> bytes \<Rightarrow> bytes option"
  hmac_sha256 :: "bytes \<Rightarrow> bytes \<Rightarrow> bytes"
  sha256 :: "bytes \<Rightarrow> bytes"
  sha512 :: "bytes \<Rightarrow> bytes"
  hkdf_expand :: "bytes \<Rightarrow> bytes \<Rightarrow> nat \<Rightarrow> bytes res"
  hkdf_key :: "bytes \<Rightarrow> bytes \<Rightarrow> bytes \<Rightarrow> nat \<Rightarrow> bytes res"
  pbkdf2 :: "bytes \<Rightarrow> bytes \<Rightarrow> nat \<Rightarrow> nat \<Rightarrow> bytes"
  chacha20 :: "bytes \<Rightarrow> nat \<Rightarrow> byte"

text \<open>
  Documented behaviour of AES-GCM: opening what was sealed under the same key, nonce and
  additional data gives the text back, and sealing adds a 16-byte tag.
\<close>

definition gcm_correct :: "prims \<Rightarrow> bool" where
  "gcm_correct P \<longleftrightarrow>
     (\<forall>k n t a. gcm_open P k n (gcm_seal P k n t a) a = Some t) \<and>
     (\<forall>k n t a. length (gcm_seal P k n t a) = length t + GCMTagSize)"

text \<open>HMAC-SHA256 and SHA-256 produce 32 bytes; HKDF produces as many as asked for.\<close>

definition digest_sizes :: "prims \<Rightarrow> bool" where
  "digest_sizes P \<longleftrightarrow>
     (\<forall>k d. length (hmac_sha256 P k d) = 32) \<and> (\<forall>d. length (sha256 P d) = 32)"

definition hkdf_total :: "prims \<Rightarrow> bool" where
  "hkdf_total P \<longleftrightarrow> (\<forall>k i n. n \<le> 8160 \<longrightarrow> (\<exists>b. hkdf_expand P k i n = Ok b \<and> length b = n))"

lemma gcm_openD: "gcm_correct P \<Longrightarrow> gcm_open P k n (gcm_seal P k n t a) a = Some t"
  by (simp add: gcm_correct_def)

lemma gcm_lengthD: "gcm_correct P \<Longrightarrow> length (gcm_seal P k n t a) = length t + 16"
  by (simp add: gcm_correct_def GCMTagSize_def)

section \<open>Random sources\<close>

text \<open>
  A random source is an \<^verbatim>\<open>io.Reader\<close> read with \<^verbatim>\<open>io.ReadFull\<close>.  The source \<open>ReadFull\<close> stands
  for \<^verbatim>\<open>crypto/rand\<close>: the bytes the system will supply, and an error once they run out.
  \<^verbatim>\<open>BufferedRand\<close> is a ChaCha20 keystream at a position and never fails.
\<close>

type_synonym 's source = "nat \<Rightarrow> 's \<Rightarrow> (bytes \<times> 's) res"

record BufferedRand =
  br_seed :: bytes
  br_pos :: nat

definition NewBufferedRand :: "bytes \<Rightarrow> (BufferedRand \<times> bytes) res" where
  "NewBufferedRand rnd =
     bindR (wrapR ''crypto/bufferedrand: seed'' (ReadFull 32 rnd)) (\<lambda>(seed, rnd').
       Ok (\<lparr>br_seed = seed, br_pos = 0\<rparr>, rnd'))"

definition br_Read :: "prims \<Rightarrow> BufferedRand source" where
  "br_Read P n br =
     Ok (map (chacha20 P (br_seed br)) [br_pos br ..< br_pos br + n],
         br\<lparr>br_pos := br_pos br + n\<rparr>)"

text \<open>Every read of a source that succeeds is full.\<close>

locale random_source =
  fixes rd :: "'s source"
  assumes rd_full: "rd n s = Ok (b, s') \<Longrightarrow> length b = n"

interpretation sys_rand: random_source ReadFull
  by unfold_locales (auto simp: ReadFull_Ok_conv)

interpretation buf_rand: random_source "br_Read P" for P
  by unfold_locales (auto simp: br_Read_def)

section \<open>Padding and size variance\<close>

text \<open>\<^verbatim>\<open>(int(b[0])<<8|int(b[1])) % span\<close>\<close>

definition be16 :: "bytes \<Rightarrow> nat" where
  "be16 b = unat (b ! 0) * 256 + unat (b ! 1)"

definition secureRandomRange :: "'s source \<Rightarrow> nat \<Rightarrow> nat \<Rightarrow> 's \<Rightarrow> (bytes \<times> 's) res" where
  "secureRandomRange rd mn mx s =
     bindR (wrapR ''crypto/padding: range select'' (rd 2 s)) (\<lambda>(b, s1).
       let size = mn + be16 b mod (mx - mn + 1) in
       wrapR ''crypto/padding: rand.Read'' (rd size s1))"

definition pad_Header :: "'s source \<Rightarrow> 's \<Rightarrow> (bytes \<times> 's) res" where
  "pad_Header rd s = secureRandomRange rd HeaderPadMin HeaderPadMax s"

definition pad_Trailer :: "'s source \<Rightarrow> 's \<Rightarrow> (bytes \<times> 's) res" where
  "pad_Trailer rd s = secureRandomRange rd TrailerPadMin TrailerPadMax s"

text \<open>\<^verbatim>\<open>Bytes\<close> draws from the system source.\<close>

definition pad_Bytes :: "int \<Rightarrow> bytes \<Rightarrow> (bytes \<times> bytes) res" where
  "pad_Bytes n rnd =
     (if n \<le> 0 then Err (Errorf ''crypto/padding: n must be positive'')
      else wrapR ''crypto/padding: rand.Read'' (ReadFull (nat n) rnd))"

text \<open>
  \<^verbatim>\<open>RandomVarianceGenerator.Next\<close>: a failed read gives 0 (what the failed read consumed of
  the source is not tracked: the source keeps its state).
\<close>

definition variance_Next :: "'s source \<Rightarrow> nat \<Rightarrow> 's \<Rightarrow> int \<times> 's" where
  "variance_Next rd maxDelta s =
     (if maxDelta = 0 then (0, s)
      else case rd 2 s of
        Ok (b, s') \<Rightarrow> (int (be16 b mod (2 * maxDelta + 1)) - int maxDelta, s')
      | _ \<Rightarrow> (0, s))"

context random_source begin

lemma range_bounds:
  assumes "secureRandomRange rd mn mx s = Ok (b, s')" and "mn \<le> mx"
  shows "mn \<le> length b \<and> length b \<le> mx"
proof -
  obtain h s1 where "rd 2 s = Ok (h, s1)"
    and r: "rd (mn + be16 h mod (mx - mn + 1)) s1 = Ok (b, s')"
    using assms(1) by (auto simp: secureRandomRange_def bindR_Ok_conv Let_def)
  have "be16 h mod (mx - mn + 1) < mx - mn + 1" by (rule mod_less_divisor) simp
  with rd_full [OF r] assms(2) show ?thesis by linarith
qed

lemma variance_bounds:
  "fst (variance_Next rd m s) \<le> int m" "- int m \<le> fst (variance_Next rd m s)"
proof -
  have "int (be16 b mod (2 * m + 1)) \<le> 2 * int m" for b
  proof -
    have "be16 b mod (2 * m + 1) < 2 * m + 1" by (rule mod_less_divisor) simp
    then have "be16 b mod (2 * m + 1) \<le> 2 * m" by linarith
    then have "int (be16 b mod (2 * m + 1)) \<le> int (2 * m)" by (rule of_nat_mono)
    then show ?thesis by (simp only: of_nat_mult of_nat_numeral)
  qed
  then show "fst (variance_Next rd m s) \<le> int m" "- int m \<le> fst (variance_Next rd m s)"
    by (auto simp: variance_Next_def split: res.splits prod.splits)
qed

end


section \<open>Block encryption\<close>

record EncryptedBlock =
  eb_Nonce :: bytes
  eb_Ciphertext :: bytes

text \<open>An \<^verbatim>\<open>EncryptionManager\<close> is AES-GCM with its key; its nonce source is passed along.\<close>

record EncryptionManager =
  em_key :: bytes

definition NewEncryptionManager :: "bytes \<Rightarrow> EncryptionManager res" where
  "NewEncryptionManager key =
     (if length key = 16 \<or> length key = 24 \<or> length key = 32 then Ok \<lparr>em_key = key\<rparr>
      else Err (Wrap ''crypto/encryption: new cipher'' (Errorf ''invalid key size'')))"

definition EncryptBlock ::
  "prims \<Rightarrow> 's source \<Rightarrow> EncryptionManager \<Rightarrow> bytes \<Rightarrow> 's \<Rightarrow> (EncryptedBlock \<times> 's) res" where
  "EncryptBlock P rd em plaintext s =
     bindR (wrapR ''crypto/encryption: generate nonce'' (rd NonceSize s)) (\<lambda>(nonce, s').
       Ok (\<lparr>eb_Nonce = nonce, eb_Ciphertext = gcm_seal P (em_key em) nonce plaintext []\<rparr>, s'))"

definition EncryptBlockInto ::
  "prims \<Rightarrow> 's source \<Rightarrow> EncryptionManager \<Rightarrow> bytes \<Rightarrow> bytes \<Rightarrow> 's \<Rightarrow> (EncryptedBlock \<times> 's) res" where
  "EncryptBlockInto P rd em plaintext dst s =
     bindR (wrapR ''crypto/encryption: generate nonce'' (rd NonceSize s)) (\<lambda>(nonce, s').
       Ok (\<lparr>eb_Nonce = nonce,
            eb_Ciphertext = take 0 dst @ gcm_seal P (em_key em) nonce plaintext []\<rparr>, s'))"

definition EncryptBlockWithNonceInto ::
  "prims \<Rightarrow> EncryptionManager \<Rightarrow> bytes \<Rightarrow> bytes \<Rightarrow> bytes \<Rightarrow> EncryptedBlock" where
  "EncryptBlockWithNonceInto P em nonce plaintext dst =
     \<lparr>eb_Nonce = nonce, eb_Ciphertext = take 0 dst @ gcm_seal P (em_key em) nonce plaintext []\<rparr>"

definition DecryptBlock :: "prims \<Rightarrow> EncryptionManager \<Rightarrow> EncryptedBlock \<Rightarrow> bytes res" where
  "DecryptBlock P em b =
     (case gcm_open P (em_key em) (eb_Nonce b) (eb_Ciphertext b) [] of
        None \<Rightarrow> Err (Wrap ''crypto/encryption: decrypt: authentication failed'' (Errorf ''open''))
      | Some pt \<Rightarrow> Ok pt)"

text \<open>
  \<^verbatim>\<open>EncryptStream\<close> reads variable-size chunks until the stream ends.  \<open>s\<close> is the random
  source shared by the variance generator and the nonces.
\<close>

definition chunk_size :: "int \<Rightarrow> nat" where
  "chunk_size delta = (let size = BaseBlockSize + delta in nat (if size < 1 then 1 else size))"

lemma chunk_size_pos [simp]: "0 < chunk_size d" "chunk_size d \<noteq> 0"
  by (simp_all add: chunk_size_def Let_def)

function EncryptStream ::
  "prims \<Rightarrow> 's source \<Rightarrow> EncryptionManager \<Rightarrow> nat \<Rightarrow> bytes \<Rightarrow> 's \<Rightarrow> (EncryptedBlock list \<times> 's) res"
where
  "EncryptStream P rd em maxDelta r s =
     (let (delta, s) = variance_Next rd maxDelta s;
          (buf, err, r') = read_full (chunk_size delta) r in
      bindR (if buf \<noteq> []
             then bindR (EncryptBlock P rd em buf s) (\<lambda>(b, s). Ok ([b], s))
             else Ok ([], s)) (\<lambda>(bs, s).
      if err \<noteq> None then Ok (bs, s)
      else bindR (EncryptStream P rd em maxDelta r' s) (\<lambda>(rest, s). Ok (bs @ rest, s))))"
  by pat_completeness auto
termination
  by (relation "measure (\<lambda>(P, rd, em, m, r, s). length r)")
    (auto simp: read_full_def split: if_splits)

declare EncryptStream.simps [simp del]

section \<open>HMAC and key derivation\<close>

definition ComputeHMAC :: "prims \<Rightarrow> bytes \<Rightarrow> bytes \<Rightarrow> bytes" where
  "ComputeHMAC P key data = to_array HMACSize (hmac_sha256 P key data)"

definition VerifyHMAC :: "prims \<Rightarrow> bytes \<Rightarrow> bytes \<Rightarrow> bytes \<Rightarrow> unit res" where
  "VerifyHMAC P key data expected =
     (if ComputeHMAC P key data = expected then Ok () else Err (Errorf ''crypto/hmac: tag mismatch''))"

definition DeriveKey :: "prims \<Rightarrow> bytes \<Rightarrow> bytes \<Rightarrow> bytes" where
  "DeriveKey P password salt = to_array KeySize (pbkdf2 P password salt PBKDF2Iter KeySize)"

definition GenerateSalt :: "bytes \<Rightarrow> (bytes \<times> bytes) res" where
  "GenerateSalt rnd = wrapR ''crypto/keyderiver: generate salt'' (ReadFull SaltSize rnd)"

definition fileSubkeyLabel :: bytes where "fileSubkeyLabel = str ''sarc file key''"
definition headerSubkeyLabel :: bytes where "headerSubkeyLabel = str ''sarc header key''"
definition chunkIDLabel :: bytes where "chunkIDLabel = str ''sarc chunk id key''"
definition gearTableLabel :: bytes where "gearTableLabel = str ''sarc chunker gear table''"

definition expandSubkey :: "prims \<Rightarrow> bytes \<Rightarrow> bytes \<Rightarrow> bytes res" where
  "expandSubkey P masterKey info =
     bindR (wrapR ''crypto/subkey: hkdf expand'' (hkdf_expand P masterKey info KeySize)) (\<lambda>raw.
       Ok (to_array KeySize raw))"

definition DeriveFileSubkey :: "prims \<Rightarrow> bytes \<Rightarrow> bytes \<Rightarrow> bytes res" where
  "DeriveFileSubkey P masterKey salt = expandSubkey P masterKey (fileSubkeyLabel @ salt)"

definition DeriveHeaderSubkey :: "prims \<Rightarrow> bytes \<Rightarrow> bytes res" where
  "DeriveHeaderSubkey P masterKey = expandSubkey P masterKey headerSubkeyLabel"

definition DeriveChunkIDKey :: "prims \<Rightarrow> bytes \<Rightarrow> bytes res" where
  "DeriveChunkIDKey P masterKey = expandSubkey P masterKey chunkIDLabel"

text \<open>The loop \<^verbatim>\<open>table[i] = Uint64(raw[i*8:])\<close>; a short \<open>raw\<close> panics.\<close>

fun gear_entries :: "nat \<Rightarrow> bytes \<Rightarrow> u64 list res" where
  "gear_entries 0 raw = Ok []"
| "gear_entries (Suc n) raw =
     bindR (uint64 raw) (\<lambda>v. bindR (gear_entries n (drop 8 raw)) (\<lambda>vs. Ok (v # vs)))"

definition DeriveGearTable :: "prims \<Rightarrow> bytes \<Rightarrow> u64 list res" where
  "DeriveGearTable P masterKey =
     bindR (wrapR ''crypto/subkey: hkdf expand''
              (hkdf_expand P masterKey gearTableLabel (GearTableSize * 8))) (\<lambda>raw.
       gear_entries GearTableSize raw)"


section \<open>Correctness of block and stream encryption\<close>

lemma NewEncryptionManager_key [simp]: "length k = 32 \<Longrightarrow> NewEncryptionManager k = Ok \<lparr>em_key = k\<rparr>"
  by (simp add: NewEncryptionManager_def)

lemma EncryptBlock_Decrypt:
  assumes "gcm_correct P" and "EncryptBlock P rd em pt s = Ok (b, s')"
  shows "DecryptBlock P em b = Ok pt \<and> length (eb_Ciphertext b) = length pt + GCMTagSize"
  using assms
  by (auto simp: EncryptBlock_def DecryptBlock_def bindR_Ok_conv gcm_openD gcm_lengthD GCMTagSize_def)

text \<open>Writing into a caller's buffer or under a nonce drawn earlier gives the same block.\<close>

lemma EncryptBlockInto_eq: "EncryptBlockInto P rd em pt dst s = EncryptBlock P rd em pt s"
  by (simp add: EncryptBlockInto_def EncryptBlock_def)

lemma EncryptBlockWithNonce_eq:
  "rd NonceSize s = Ok (nonce, s') \<Longrightarrow>
   EncryptBlock P rd em pt s = Ok (EncryptBlockWithNonceInto P em nonce pt dst, s')"
  by (simp add: EncryptBlockWithNonceInto_def EncryptBlock_def)

text \<open>What the blocks of a stream are: encryptions of consecutive chunks of it.\<close>

definition chunk_of :: "prims \<Rightarrow> EncryptionManager \<Rightarrow> nat \<Rightarrow> EncryptedBlock \<Rightarrow> bytes \<Rightarrow> bool" where
  "chunk_of P em m b c \<longleftrightarrow>
     DecryptBlock P em b = Ok c \<and> 0 < length c \<and> int (length c) \<le> max 1 (BaseBlockSize + int m)
     \<and> length (eb_Nonce b) = NonceSize \<and> length (eb_Ciphertext b) = length c + GCMTagSize"

locale total_source = random_source +
  assumes rd_total: "\<exists>b s'. rd n s = Ok (b, s')"

interpretation buf_total: total_source "br_Read P" for P
  by unfold_locales (auto simp: br_Read_def)

context random_source begin

lemma EncryptBlock_Nonce: "EncryptBlock P rd em pt s = Ok (b, s') \<Longrightarrow> length (eb_Nonce b) = NonceSize"
  by (auto simp: EncryptBlock_def bindR_Ok_conv dest: rd_full)

lemma chunk_size_bounds:
  assumes "variance_Next rd m s = (delta, s1)"
  shows "int (chunk_size delta) \<le> max 1 (BaseBlockSize + int m)"
    and "BaseBlockSize - int m \<le> int (chunk_size delta)"
  using variance_bounds [of m s] assms by (auto simp: chunk_size_def Let_def)

lemma EncryptStream_step:
  assumes "EncryptStream P rd em m r s = Ok (bs, s')"
  obtains (Last) delta s1 where "variance_Next rd m s = (delta, s1)" "length r < chunk_size delta"
      "r = [] \<Longrightarrow> bs = []" "r \<noteq> [] \<Longrightarrow> \<exists>b. EncryptBlock P rd em r s1 = Ok (b, s') \<and> bs = [b]"
  | (More) delta s1 b s2 bs' where "variance_Next rd m s = (delta, s1)" "chunk_size delta \<le> length r"
      "EncryptBlock P rd em (take (chunk_size delta) r) s1 = Ok (b, s2)"
      "EncryptStream P rd em m (drop (chunk_size delta) r) s2 = Ok (bs', s')" "bs = b # bs'"
proof -
  obtain delta s1 where v: "variance_Next rd m s = (delta, s1)" by force
  note e = assms [unfolded EncryptStream.simps [of P rd em m r s] v read_full_def Let_def prod.case]
  show ?thesis
  proof (cases "chunk_size delta \<le> length r")
    case True
    then have "take (chunk_size delta) r \<noteq> []" by (cases r) auto
    with True e v that(2) show ?thesis by (auto simp: bindR_Ok_conv)
  next
    case False
    with e v that(1) show ?thesis by (auto simp: bindR_Ok_conv split: if_splits)
  qed
qed

lemma EncryptStream_correct:
  assumes "gcm_correct P" and "EncryptStream P rd em m r s = Ok (bs, s')"
  shows "\<exists>cs. concat cs = r \<and> list_all2 (chunk_of P em m) bs cs \<and>
    (\<forall>c \<in> set (butlast cs). BaseBlockSize - int m \<le> int (length c))"
  using assms(2)
proof (induction "length r" arbitrary: r s bs rule: less_induct)
  case less
  from less.prems show ?case
  proof (cases rule: EncryptStream_step)
    case (Last delta s1)
    show ?thesis
    proof (cases "r = []")
      case False
      with Last(4) obtain b where b: "EncryptBlock P rd em r s1 = Ok (b, s')" "bs = [b]" by blast
      have "int (length r) \<le> max 1 (BaseBlockSize + int m)"
        using chunk_size_bounds(1) [OF Last(1)] Last(2) by linarith
      with EncryptBlock_Decrypt [OF assms(1) b(1)] EncryptBlock_Nonce [OF b(1)] b(2) False show ?thesis
        by (intro exI [of _ "[r]"]) (simp add: chunk_of_def)
    qed (use Last(3) in \<open>auto intro: exI [of _ "[]"]\<close>)
  next
    case (More delta s1 b s2 bs')
    let ?n = "chunk_size delta"
    have n: "length (take ?n r) = ?n" using More(2) by simp
    have "length (drop ?n r) < length r"
      using More(2) chunk_size_pos(1) [of delta] unfolding length_drop by linarith
    from less.hyps [OF this More(4)] obtain cs where cs: "concat cs = drop ?n r"
      "list_all2 (chunk_of P em m) bs' cs"
      "\<forall>c \<in> set (butlast cs). BaseBlockSize - int m \<le> int (length c)" by blast
    have "chunk_of P em m b (take ?n r)"
      using EncryptBlock_Decrypt [OF assms(1) More(3)] EncryptBlock_Nonce [OF More(3)]
        chunk_size_bounds(1) [OF More(1)] n
      by (simp add: chunk_of_def)
    moreover have "BaseBlockSize - int m \<le> int (length (take ?n r))"
      using chunk_size_bounds(2) [OF More(1)] n by simp
    ultimately show ?thesis
      using cs More(5) by (intro exI [of _ "take ?n r # cs"]) auto
  qed
qed

end

context total_source begin

lemma EncryptBlock_total: "\<exists>b s'. EncryptBlock P rd em pt s = Ok (b, s')"
  using rd_total [of NonceSize s] by (auto simp: EncryptBlock_def)

lemma EncryptStream_total: "\<exists>bs s'. EncryptStream P rd em m r s = Ok (bs, s')"
proof (induction "length r" arbitrary: r s rule: less_induct)
  case less
  obtain delta s1 where v: "variance_Next rd m s = (delta, s1)" by force
  let ?n = "chunk_size delta"
  obtain b s2 where b: "EncryptBlock P rd em (take ?n r) s1 = Ok (b, s2)"
    using EncryptBlock_total by blast
  show ?case
  proof (cases "?n \<le> length r")
    case True
    then have "length (drop ?n r) < length r"
      using chunk_size_pos(1) [of delta] unfolding length_drop by linarith
    from less.hyps [OF this, of s2] obtain bs s'
      where "EncryptStream P rd em m (drop ?n r) s2 = Ok (bs, s')" by blast
    moreover have "take ?n r \<noteq> []" using True by (cases r) auto
    ultimately show ?thesis using True b v
      by (auto simp: EncryptStream.simps [of P rd em m r s] read_full_def)
  next
    case False
    with b v show ?thesis
      by (auto simp: EncryptStream.simps [of P rd em m r s] read_full_def)
  qed
qed

end

text \<open>
  Encrypting a stream with the buffered random source always succeeds, and the blocks,
  decrypted in order, are non-empty chunks that concatenate to the stream.  Every
  ciphertext is its chunk plus the 16-byte tag, no chunk is longer than the base size plus
  the variance, and none but the last is shorter than the base size minus the variance.
\<close>

lemma stream_encryption_correct:
  assumes "gcm_correct P"
  shows "\<exists>bs s' cs. EncryptStream P (br_Read P) em m r s = Ok (bs, s') \<and> concat cs = r
    \<and> list_all2 (chunk_of P em m) bs cs
    \<and> (\<forall>c \<in> set (butlast cs). BaseBlockSize - int m \<le> int (length c))"
proof -
  obtain bs s' where bs: "EncryptStream P (br_Read P) em m r s = Ok (bs, s')"
    using buf_total.EncryptStream_total by blast
  from buf_rand.EncryptStream_correct [OF assms bs] bs show ?thesis by blast
qed

text \<open>
  Concrete primitives, to show that the hypotheses on the parameter can hold: sealing
  prepends a 16-byte zero tag, digests and derived keys are zero-filled.
\<close>

definition toy_prims :: prims where
  "toy_prims = \<lparr>gcm_seal = (\<lambda>k n t a. replicate 16 0 @ t),
     gcm_open = (\<lambda>k n c a. if length c < 16 then None else Some (drop 16 c)),
     hmac_sha256 = (\<lambda>k d. to_array 32 (k @ d)), sha256 = to_array 32, sha512 = to_array 64,
     hkdf_expand = (\<lambda>k i n. Ok (to_array n (k @ i))),
     hkdf_key = (\<lambda>k salt i n. Ok (to_array n (k @ salt @ i))),
     pbkdf2 = (\<lambda>p salt it n. to_array n (p @ salt)), chacha20 = (\<lambda>seed i. word_of_nat i)\<rparr>"

lemma toy_prims_correct: "gcm_correct toy_prims" "digest_sizes toy_prims" "hkdf_total toy_prims"
  by (simp_all add: toy_prims_def gcm_correct_def digest_sizes_def hkdf_total_def GCMTagSize_def)

theorem stream_encryption_correct_witness:
  "\<exists>bs s' cs. EncryptStream toy_prims (br_Read toy_prims) \<lparr>em_key = replicate 32 0\<rparr> 32768 [1, 2, 3]
      \<lparr>br_seed = [], br_pos = 0\<rparr> = Ok (bs, s') \<and> concat cs = ([1, 2, 3] :: bytes)"
  using stream_encryption_correct [OF toy_prims_correct(1), of "\<lparr>em_key = replicate 32 0\<rparr>" 32768
      "[1, 2, 3]" "\<lparr>br_seed = [], br_pos = 0\<rparr>"] by blast

end
