(* ===== verification/Format.thy ===== *)
theory Format
  imports Attributes Crypto
begin

text \<open>
  The data of an archive (\<^verbatim>\<open>archive/format.go\<close>), the zstd codec and its limits
  (\<^verbatim>\<open>archive/codec.go\<close>), the key schedule (\<^verbatim>\<open>archive/keys.go\<close>) and the sealed per-file metadata
  (\<^verbatim>\<open>archive/metadata.go\<close>).
\<close>

section \<open>Format constants and records\<close>

definition Magic :: bytes where "Magic = str ''SARC''"
definition Version1 :: u16 where "Version1 = 1"
definition Version2 :: u16 where "Version2 = 2"
definition EntryTypeFile :: byte where "EntryTypeFile = 0x01"
definition EntryTypeSolid :: byte where "EntryTypeSolid = 0x02"
definition EntryTypeEnd :: byte where "EntryTypeEnd = 0x00"
definition ReservedSize :: nat where "ReservedSize = 32"
definition FileCountSealedSize :: nat where "FileCountSealedSize = 8 + NonceSize + GCMTagSize"

type_synonym SizeBucket = byte

definition BucketTiny :: SizeBucket where "BucketTiny = 0"
definition BucketSmall :: SizeBucket where "BucketSmall = 1"
definition BucketMedium :: SizeBucket where "BucketMedium = 2"
definition BucketLarge :: SizeBucket where "BucketLarge = 3"
definition BucketHuge :: SizeBucket where "BucketHuge = 4"

type_synonym Codec = byte

definition CodecNone :: Codec where "CodecNone = 0"
definition CodecZstd :: Codec where "CodecZstd = 1"

lemmas format_consts = Version1_def Version2_def EntryTypeFile_def EntryTypeSolid_def
  EntryTypeEnd_def ReservedSize_def FileCountSealedSize_def CodecNone_def CodecZstd_def

record ArchiveHeader =
  ah_Magic :: bytes
  ah_Version :: u16
  ah_ArchiveSalt :: bytes
  ah_RecipientBlock :: bytes
  ah_FileCountEncrypted :: bytes
  ah_Reserved :: bytes

record MetadataBlock =
  mb_Nonce :: bytes
  mb_Ciphertext :: bytes

record PlaintextMetadata =
  pm_EncryptedFilename :: bytes
  pm_SizeBucket :: SizeBucket
  pm_TimestampHash :: bytes
  pm_Permissions :: u32
  pm_Codec :: Codec
  pm_Attributes :: "Attributes option"

record DataBlock =
  db_Nonce :: bytes
  db_Ciphertext :: bytes

record FileTrailer =
  ft_RandomPadding :: bytes
  ft_PlaintextHMACNonce :: bytes
  ft_PlaintextHMACSealed :: bytes
  ft_EntryChecksum :: bytes

record FileEntry =
  fe_EntryType :: byte
  fe_EntrySalt :: bytes
  fe_FrameHdr :: bytes
  fe_Metadata :: MetadataBlock
  fe_InterBlockPad :: bytes
  fe_DataBlocks :: "DataBlock list"
  fe_Trailer :: FileTrailer

definition MaxMetadataSize :: nat where
  "MaxMetadataSize = 2 + 0xFFFF + 1 + 32 + 4 + 1 + 4 + MaxAttributesSize"

section \<open>The zstd codec\<close>

text \<open>
  The package \<^verbatim>\<open>klauspost/compress/zstd\<close> is a parameter: whether an encoder or decoder can be
  made, encoding one frame at a level and window, and decoding one under a memory limit and
  a window limit.
\<close>

datatype zstd_error = ErrDecoderSizeExceeded | ErrWindowSizeExceeded | ErrFrameSizeExceeded | ZstdError string

record zstd =
  z_level :: "nat \<Rightarrow> nat" \<comment> \<open>\<^verbatim>\<open>EncoderLevelFromZstd\<close>\<close>
  z_best :: nat \<comment> \<open>\<^verbatim>\<open>SpeedBestCompression\<close>\<close>
  z_NewWriter :: "nat \<Rightarrow> nat \<Rightarrow> nat \<Rightarrow> unit res"
  z_NewReader :: "nat \<Rightarrow> nat \<Rightarrow> unit res"
  z_EncodeAll :: "nat \<Rightarrow> nat \<Rightarrow> bytes \<Rightarrow> bytes"
  z_DecodeAll :: "nat \<Rightarrow> nat \<Rightarrow> bytes \<Rightarrow> zstd_error + bytes"

definition BlockVariance :: nat where "BlockVariance = 32 * 1024"
definition MaxChunkSize :: nat where "MaxChunkSize = nat BaseBlockSize + BlockVariance"
definition zstdWindowSize :: nat where "zstdWindowSize = 512 * 1024"
definition zstdMaxOverhead :: nat where "zstdMaxOverhead = 256"
definition bestTierMaxEncoders :: nat where "bestTierMaxEncoders = 2"
definition MaxPayloadSize :: nat where "MaxPayloadSize = MaxChunkSize + zstdMaxOverhead"
definition MaxSolidStreamSize :: nat where "MaxSolidStreamSize = 8 * 1024 * 1024"
definition MaxCDCChunkSize :: nat where "MaxCDCChunkSize = 4 * 1024 * 1024"

lemma MaxChunkSize_eq: "MaxChunkSize = 294912" and MaxPayloadSize_eq: "MaxPayloadSize = 295168"
  by (simp_all add: MaxChunkSize_def MaxPayloadSize_def BlockVariance_def BaseBlockSize_def zstdMaxOverhead_def)

lemmas size_limits = MaxChunkSize_eq MaxPayloadSize_eq MaxSolidStreamSize_def MaxCDCChunkSize_def zstdWindowSize_def

record BlockCompressor =
  bc_level :: nat
  bc_window :: nat

record BlockDecompressor =
  bd_limit :: nat
  bd_window :: nat

definition encoderConcurrency :: "zstd \<Rightarrow> nat \<Rightarrow> nat \<Rightarrow> nat" where
  "encoderConcurrency Z gomaxprocs level =
     (if z_best Z \<le> level then min gomaxprocs bestTierMaxEncoders else gomaxprocs)"

definition newCompressor :: "zstd \<Rightarrow> nat \<Rightarrow> int \<Rightarrow> nat \<Rightarrow> BlockCompressor res" where
  "newCompressor Z gomaxprocs level window =
     (if level < 1 \<or> 22 < level then Err ErrInvalidCompressionLevel
      else let encLevel = z_level Z (nat level) in
        bindR (wrapR ''archive/codec: new zstd encoder''
          (z_NewWriter Z encLevel (encoderConcurrency Z gomaxprocs encLevel) window)) (\<lambda>_.
        Ok \<lparr>bc_level = encLevel, bc_window = window\<rparr>))"

definition NewBlockCompressor :: "zstd \<Rightarrow> nat \<Rightarrow> int \<Rightarrow> BlockCompressor res" where
  "NewBlockCompressor Z procs level = newCompressor Z procs level zstdWindowSize"
definition NewSolidCompressor :: "zstd \<Rightarrow> nat \<Rightarrow> int \<Rightarrow> BlockCompressor res" where
  "NewSolidCompressor Z procs level = newCompressor Z procs level MaxSolidStreamSize"
definition NewChunkCompressor :: "zstd \<Rightarrow> nat \<Rightarrow> int \<Rightarrow> BlockCompressor res" where
  "NewChunkCompressor Z procs level = newCompressor Z procs level MaxCDCChunkSize"

definition Compress :: "zstd \<Rightarrow> BlockCompressor \<Rightarrow> bytes \<Rightarrow> bytes \<Rightarrow> bytes" where
  "Compress Z bc dst src = dst @ z_EncodeAll Z (bc_level bc) (bc_window bc) src"

definition newDecompressor :: "zstd \<Rightarrow> nat \<Rightarrow> nat \<Rightarrow> BlockDecompressor res" where
  "newDecompressor Z limit window =
     bindR (wrapR ''archive/codec: new zstd decoder'' (z_NewReader Z limit window)) (\<lambda>_.
       Ok \<lparr>bd_limit = limit, bd_window = window\<rparr>)"

definition NewBlockDecompressor :: "zstd \<Rightarrow> BlockDecompressor res" where
  "NewBlockDecompressor Z = newDecompressor Z MaxChunkSize zstdWindowSize"
definition NewSolidDecompressor :: "zstd \<Rightarrow> BlockDecompressor res" where
  "NewSolidDecompressor Z = newDecompressor Z MaxSolidStreamSize MaxSolidStreamSize"
definition NewChunkDecompressor :: "zstd \<Rightarrow> BlockDecompressor res" where
  "NewChunkDecompressor Z = newDecompressor Z MaxCDCChunkSize MaxCDCChunkSize"

definition Decompress :: "zstd \<Rightarrow> BlockDecompressor \<Rightarrow> bytes \<Rightarrow> bytes res" where
  "Decompress Z bd src =
     (case z_DecodeAll Z (bd_limit bd) (bd_window bd) src of
        Inl (ZstdError m) \<Rightarrow> Err (Wrap ''archive/codec: zstd decode'' (Errorf m))
      | Inl _ \<Rightarrow> Err ErrBlockTooLarge
      | Inr out \<Rightarrow> if bd_limit bd < length out then Err ErrBlockTooLarge else Ok out)"

text \<open>
  Documented behaviour of zstd: a frame decodes to its source when the source fits the
  decoder's memory limit and the encoder's window fits the decoder's.
\<close>

definition zstd_correct :: "zstd \<Rightarrow> bool" where
  "zstd_correct Z \<longleftrightarrow> (\<forall>l w limit window src. length src \<le> limit \<longrightarrow> w \<le> window \<longrightarrow>
     z_DecodeAll Z limit window (z_EncodeAll Z l w src) = Inr src)"

definition toy_zstd :: zstd where
  "toy_zstd = \<lparr>z_level = id, z_best = 10, z_NewWriter = (\<lambda>l c w. Ok ()), z_NewReader = (\<lambda>m w. Ok ()),
     z_EncodeAll = (\<lambda>l w s. 0 # s),
     z_DecodeAll = (\<lambda>m w s. if s = [] then Inl (ZstdError ''empty'')
        else if m < length (tl s) then Inl ErrDecoderSizeExceeded else Inr (tl s))\<rparr>"

lemma toy_zstd_correct: "zstd_correct toy_zstd"
  by (simp add: zstd_correct_def toy_zstd_def)

section \<open>The key schedule\<close>

datatype KeySchedule = KeySchedule (ks_version: u16) (ks_legacy: bytes) (ks_masterKey: bytes)

definition NewVersion1KeySchedule :: "bytes \<Rightarrow> KeySchedule" where
  "NewVersion1KeySchedule password = KeySchedule Version1 password (replicate KeySize 0)"

definition NewVersion2KeySchedule :: "bytes \<Rightarrow> KeySchedule" where
  "NewVersion2KeySchedule cek = KeySchedule Version2 [] cek"

definition FileKey :: "prims \<Rightarrow> KeySchedule \<Rightarrow> bytes \<Rightarrow> bytes res" where
  "FileKey P ks salt =
     (if ks_version ks = Version1 then Ok (DeriveKey P (ks_legacy ks) salt)
      else wrapR ''archive/keys: file key'' (DeriveFileSubkey P (ks_masterKey ks) salt))"

definition HeaderKey :: "prims \<Rightarrow> KeySchedule \<Rightarrow> bytes res" where
  "HeaderKey P ks =
     (if ks_version ks = Version1 then Err (ErrUnsupportedVersion ''no header key'')
      else wrapR ''archive/keys: header key'' (DeriveHeaderSubkey P (ks_masterKey ks)))"

definition ChunkIDKey :: "prims \<Rightarrow> KeySchedule \<Rightarrow> bytes res" where
  "ChunkIDKey P ks =
     (if ks_version ks = Version1 then Err (ErrUnsupportedVersion ''no chunk keys'')
      else wrapR ''archive/keys: chunk id key'' (DeriveChunkIDKey P (ks_masterKey ks)))"

definition GearTable :: "prims \<Rightarrow> KeySchedule \<Rightarrow> u64 list res" where
  "GearTable P ks =
     (if ks_version ks = Version1 then Err (ErrUnsupportedVersion ''no chunk keys'')
      else wrapR ''archive/keys: gear table'' (DeriveGearTable P (ks_masterKey ks)))"

section \<open>Metadata\<close>

definition knownCodec :: "Codec \<Rightarrow> bool" where
  "knownCodec c \<longleftrightarrow> c = CodecNone \<or> c = CodecZstd"

definition BucketizeSize :: "int \<Rightarrow> SizeBucket" where
  "BucketizeSize n =
     (if n \<le> 1024 then BucketTiny else if n \<le> 10240 then BucketSmall
      else if n \<le> 102400 then BucketMedium else if n \<le> 1048576 then BucketLarge else BucketHuge)"

text \<open>A time is its Unix time in seconds; truncation rounds down to a whole day.\<close>

definition HashTimestamp :: "prims \<Rightarrow> bytes \<Rightarrow> int \<Rightarrow> bytes" where
  "HashTimestamp P salt t =
     to_array 32 (hmac_sha256 P salt (le64 (word_of_int (t div 86400 * 86400))))"

text \<open>The fixed fields up to the permissions, which are all that Version1 metadata holds.\<close>

definition metadata_v1 :: "PlaintextMetadata \<Rightarrow> bytes" where
  "metadata_v1 pm = le16 (word_of_nat (length (pm_EncryptedFilename pm))) @ pm_EncryptedFilename pm
     @ [pm_SizeBucket pm] @ pm_TimestampHash pm @ le32 (pm_Permissions pm)"

definition marshalMetadata :: "PlaintextMetadata \<Rightarrow> bytes res" where
  "marshalMetadata pm =
     (if 0xFFFF < length (pm_EncryptedFilename pm) then Err (Errorf ''archive/metadata: filename too long'')
      else if \<not> knownCodec (pm_Codec pm) then Err (Errorf ''archive/metadata: unknown codec'')
      else let buf = metadata_v1 pm @ [pm_Codec pm] in
        case pm_Attributes pm of None \<Rightarrow> Ok buf
        | Some a \<Rightarrow> bindR (AppendAttributes [] a) (\<lambda>attrs.
            Ok (buf @ le32 (word_of_nat (length attrs)) @ attrs)))"

definition unmarshal_attributes :: "bytes \<Rightarrow> Attributes option res" where
  "unmarshal_attributes b =
     (if b = [] then Ok None
      else if length b < 4 then Err (Errorf ''archive/metadata: truncated attributes length'')
      else bindR (uint32 b) (\<lambda>n. bindR (cut 4 b) (\<lambda>(_, b).
        if unat n \<noteq> length b then Err (Errorf ''archive/metadata: attributes length mismatch'')
        else bindR (ParseAttributes b) (\<lambda>a. Ok (Some a)))))"

definition unmarshal_codec :: "bytes \<Rightarrow> (Codec \<times> bytes) res" where
  "unmarshal_codec b =
     (if b = [] then Ok (CodecNone, [])
      else bindR (index b 0) (\<lambda>c.
        if \<not> knownCodec c then Err (Errorf ''archive/metadata: unknown codec'')
        else bindR (cut 1 b) (\<lambda>(_, b). Ok (c, b))))"

definition unmarshalMetadata :: "bytes \<Rightarrow> PlaintextMetadata res" where
  "unmarshalMetadata b =
     (if length b < 2 then Err (Errorf ''archive/metadata: truncated'')
      else bindR (uint16 b) (\<lambda>fnLen.
      if length b < 2 + unat fnLen + 1 + 32 + 4 then Err (Errorf ''archive/metadata: too short'')
      else
        bindR (cut 2 b) (\<lambda>(_, b).
        bindR (cut (unat fnLen) b) (\<lambda>(name, b).
        bindR (index b 0) (\<lambda>bucket.
        bindR (cut 1 b) (\<lambda>(_, b).
        bindR (cut 32 b) (\<lambda>(ts, b).
        bindR (uint32 b) (\<lambda>perms.
        bindR (cut 4 b) (\<lambda>(_, b).
        bindR (unmarshal_codec b) (\<lambda>(codec, b).
        bindR (unmarshal_attributes b) (\<lambda>attrs.
          Ok \<lparr>pm_EncryptedFilename = name, pm_SizeBucket = bucket, pm_TimestampHash = ts,
              pm_Permissions = perms, pm_Codec = codec, pm_Attributes = attrs\<rparr>)))))))))))"

type_synonym MetadataManager = EncryptionManager

definition NewMetadataManager :: "bytes \<Rightarrow> MetadataManager res" where
  "NewMetadataManager key = wrapR ''archive/metadata: init encryption'' (NewEncryptionManager key)"

definition mm_Seal ::
  "prims \<Rightarrow> MetadataManager \<Rightarrow> PlaintextMetadata \<Rightarrow> bytes \<Rightarrow> (MetadataBlock \<times> bytes) res" where
  "mm_Seal P mm pm rnd =
     bindR (wrapR ''archive/metadata: marshal'' (marshalMetadata pm)) (\<lambda>raw.
     bindR (wrapR ''archive/metadata: encrypt'' (EncryptBlock P ReadFull mm raw rnd)) (\<lambda>(b, rnd).
       Ok (\<lparr>mb_Nonce = eb_Nonce b, mb_Ciphertext = eb_Ciphertext b\<rparr>, rnd)))"

definition mm_Open :: "prims \<Rightarrow> MetadataManager \<Rightarrow> MetadataBlock \<Rightarrow> PlaintextMetadata res" where
  "mm_Open P mm mb =
     bindR (wrapR ''archive/metadata: decrypt''
       (DecryptBlock P mm \<lparr>eb_Nonce = mb_Nonce mb, eb_Ciphertext = mb_Ciphertext mb\<rparr>)) (\<lambda>raw.
       wrapR ''archive/metadata: unmarshal'' (unmarshalMetadata raw))"

section \<open>Metadata round trip\<close>

lemma unmarshal_codec_enc [simp]: "knownCodec c \<Longrightarrow> unmarshal_codec (c # r) = Ok (c, r)"
  by (simp add: unmarshal_codec_def)

lemma unmarshal_attributes_enc:
  assumes "AppendAttributes [] a = Ok attrs"
  shows "unmarshal_attributes (le32 (word_of_nat (length attrs)) @ attrs) = Ok (Some a)"
proof -
  have v: "validate a = None" and e: "attrs = attributes_bytes a"
    using assms by (auto simp: AppendAttributes_def split: option.splits)
  have "unat (word_of_nat (length attrs) :: u32) = length attrs"
    using attributes_bytes_bounds [OF v] by (simp add: e unat_of_nat attr_limits MaxAttributesSize_def)
  then show ?thesis
    using v by (simp add: unmarshal_attributes_def e ParseAttributes_bytes)
qed

lemma unmarshal_fixed:
  assumes "length (pm_EncryptedFilename pm) \<le> 0xFFFF" and "length (pm_TimestampHash pm) = 32"
  shows "unmarshalMetadata (metadata_v1 pm @ r) =
    bindR (unmarshal_codec r) (\<lambda>(codec, r). bindR (unmarshal_attributes r) (\<lambda>attrs.
      Ok (pm\<lparr>pm_Codec := codec, pm_Attributes := attrs\<rparr>)))"
proof -
  have n: "unat (word_of_nat (length (pm_EncryptedFilename pm)) :: u16) = length (pm_EncryptedFilename pm)"
    using assms(1) by (simp add: unat_of_nat)
  show ?thesis
    by (cases pm) (use assms n in \<open>simp add: unmarshalMetadata_def metadata_v1_def\<close>)
qed

lemma marshal_unmarshal:
  assumes "marshalMetadata pm = Ok b" and "length (pm_TimestampHash pm) = 32"
  shows "unmarshalMetadata b = Ok pm"
proof -
  have n: "length (pm_EncryptedFilename pm) \<le> 0xFFFF" and k: "knownCodec (pm_Codec pm)"
    using assms(1) by (auto simp: marshalMetadata_def split: if_splits)
  have same: "pm\<lparr>pm_Codec := pm_Codec pm, pm_Attributes := x\<rparr> = pm" if "pm_Attributes pm = x" for x
    using that by (cases pm) simp
  show ?thesis
  proof (cases "pm_Attributes pm")
    case None
    with assms n k have "b = metadata_v1 pm @ [pm_Codec pm]" by (simp add: marshalMetadata_def)
    with None k show ?thesis
      by (simp add: unmarshal_fixed [OF n assms(2)] unmarshal_attributes_def same)
  next
    case (Some a)
    with assms n k obtain attrs where a: "AppendAttributes [] a = Ok attrs"
      and b: "b = metadata_v1 pm @ pm_Codec pm # le32 (word_of_nat (length attrs)) @ attrs"
      by (auto simp: marshalMetadata_def bindR_Ok_conv)
    from Some k show ?thesis unfolding b
      by (simp add: unmarshal_fixed [OF n assms(2)] unmarshal_attributes_enc [OF a] same)
  qed
qed

lemma unmarshal_codec_inv:
  "unmarshal_codec b = Ok (c, r) \<Longrightarrow> knownCodec c \<and> (b = c # r \<or> b = [] \<and> r = [] \<and> c = CodecNone)"
  by (auto simp: unmarshal_codec_def bindR_Ok_conv index_0_Ok_conv knownCodec_def split: if_splits)

lemma unmarshal_attributes_inv:
  assumes "unmarshal_attributes b = Ok x"
  shows "x = None \<and> b = [] \<or> (\<exists>a attrs. x = Some a \<and> AppendAttributes [] a = Ok attrs
    \<and> b = le32 (word_of_nat (length attrs)) @ attrs)"
proof (cases "b = []")
  case False
  with assms obtain n r a where "uint32 b = Ok n" and r: "cut 4 b = Ok (le32 n, r)"
    and len: "unat n = length r" and a: "ParseAttributes r = Ok a" and x: "x = Some a"
    by (auto simp: unmarshal_attributes_def bindR_Ok_conv uint_Ok_conv split: if_splits)
  have "AppendAttributes [] a = Ok r"
    using ParseAttributes_inv [OF a] by (simp add: AppendAttributes_def)
  moreover have "b = le32 (word_of_nat (length r)) @ r"
    using r by (simp add: len [symmetric] cut_Ok_conv)
  ultimately show ?thesis using x by blast
qed (use assms in \<open>simp add: unmarshal_attributes_def\<close>)

lemma unmarshal_inv:
  assumes "unmarshalMetadata b = Ok pm"
  shows "length (pm_TimestampHash pm) = 32 \<and> length (pm_EncryptedFilename pm) \<le> 0xFFFF \<and>
    (marshalMetadata pm = Ok b \<or> pm_Codec pm = CodecNone \<and> pm_Attributes pm = None \<and> b = metadata_v1 pm)"
proof -
  obtain n b1 name b2 bucket b3 ts b4 perms b5 codec b6 attrs
    where s: "b = le16 n @ b1" "cut (unat n) b1 = Ok (name, b2)" "b2 = bucket # b3"
      "cut 32 b3 = Ok (ts, b4)" "b4 = le32 perms @ b5"
      and c: "unmarshal_codec b5 = Ok (codec, b6)" and at: "unmarshal_attributes b6 = Ok attrs"
      and pm: "pm = \<lparr>pm_EncryptedFilename = name, pm_SizeBucket = bucket, pm_TimestampHash = ts,
              pm_Permissions = perms, pm_Codec = codec, pm_Attributes = attrs\<rparr>"
    using assms
    by (auto simp: unmarshalMetadata_def bindR_Ok_conv uint_Ok_conv index_0_Ok_conv split: if_splits)
  have len: "length name = unat n" "length ts = 32" using s by (auto simp: cut_Ok_conv)
  have n: "length name \<le> 0xFFFF" using unat_bound [of n] by (simp add: len)
  have b: "b = metadata_v1 pm @ b5"
    using s len by (auto simp: metadata_v1_def pm cut_Ok_conv)
  note ci = unmarshal_codec_inv [OF c] and ai = unmarshal_attributes_inv [OF at]
  have "marshalMetadata pm = Ok b \<or> codec = CodecNone \<and> attrs = None \<and> b = metadata_v1 pm"
    using ci ai n by (auto simp: marshalMetadata_def b) (simp_all add: pm)
  with len n show ?thesis by (simp add: pm)
qed

lemma unmarshalMetadata_no_panic: "unmarshalMetadata b \<noteq> Panic"
proof -
  have "unmarshal_attributes r \<noteq> Panic" for r
    using ParseAttributes_no_panic
    by (auto simp: unmarshal_attributes_def bindR_Panic_conv uint_Panic_conv cut_Panic_conv split: if_splits)
  moreover have "unmarshal_codec r \<noteq> Panic" for r
    by (auto simp: unmarshal_codec_def bindR_Panic_conv index_Panic_conv cut_Panic_conv split: if_splits)
  ultimately show ?thesis
    by (auto simp: unmarshalMetadata_def bindR_Panic_conv uint_Panic_conv uint_Ok_conv cut_Panic_conv
        cut_Ok_conv index_Panic_conv index_0_Ok_conv split: if_splits)
qed

lemma marshalMetadata_bound:
  assumes "marshalMetadata pm = Ok b" and "length (pm_TimestampHash pm) = 32"
  shows "length b \<le> MaxMetadataSize"
proof (cases "pm_Attributes pm")
  case None
  with assms show ?thesis
    by (auto simp: marshalMetadata_def metadata_v1_def MaxMetadataSize_def split: if_splits)
next
  case (Some a)
  then obtain attrs where a: "AppendAttributes [] a = Ok attrs" and "length (pm_EncryptedFilename pm) \<le> 0xFFFF"
      "b = metadata_v1 pm @ pm_Codec pm # le32 (word_of_nat (length attrs)) @ attrs"
    using assms(1) by (auto simp: marshalMetadata_def bindR_Ok_conv split: if_splits)
  moreover have "length attrs \<le> MaxAttributesSize"
    using a attributes_bytes_bounds by (auto simp: AppendAttributes_def split: option.splits)
  ultimately show ?thesis using assms(2) by (simp add: metadata_v1_def MaxMetadataSize_def)
qed

text \<open>
  C36: \<^verbatim>\<open>unmarshalMetadata\<close> never panics and is the exact inverse of \<^verbatim>\<open>marshalMetadata\<close>: it accepts
  a byte string as given metadata if and only if the string is the marshalled form of that
  metadata, or its Version1 form, which ends after the permissions and stands for no codec
  and no attributes.
\<close>

theorem unmarshalMetadata_exact:
  "unmarshalMetadata b \<noteq> Panic \<and>
   (unmarshalMetadata b = Ok pm \<longleftrightarrow>
      length (pm_TimestampHash pm) = 32 \<and>
      (marshalMetadata pm = Ok b \<or>
       length (pm_EncryptedFilename pm) \<le> 0xFFFF \<and> pm_Codec pm = CodecNone \<and> pm_Attributes pm = None
         \<and> b = metadata_v1 pm))"
proof -
  have "unmarshalMetadata b = Ok pm"
    if "length (pm_TimestampHash pm) = 32" "length (pm_EncryptedFilename pm) \<le> 0xFFFF"
      "pm_Codec pm = CodecNone" "pm_Attributes pm = None" "b = metadata_v1 pm"
  proof -
    have "pm\<lparr>pm_Codec := CodecNone, pm_Attributes := None\<rparr> = pm" using that(3,4) by (cases pm) simp
    then show ?thesis
      using unmarshal_fixed [OF that(2,1), of "[]"] that(5)
      by (simp add: unmarshal_codec_def unmarshal_attributes_def)
  qed
  then show ?thesis
    using marshal_unmarshal unmarshal_inv unmarshalMetadata_no_panic by blast
qed

text \<open>
  Sealing metadata and opening the block with the same key gives the metadata back,
  attributes included, and the sealed block never exceeds the size that the reader
  accepts.
\<close>

lemma metadata_seal_open:
  assumes "gcm_correct P" and "mm_Seal P mm pm rnd = Ok (mb, rnd')"
    and "length (pm_TimestampHash pm) = 32"
  shows "mm_Open P mm mb = Ok pm \<and> length (mb_Nonce mb) = NonceSize
    \<and> length (mb_Ciphertext mb) \<le> MaxMetadataSize + GCMTagSize"
proof -
  obtain raw b where raw: "marshalMetadata pm = Ok raw"
    and b: "EncryptBlock P ReadFull mm raw rnd = Ok (b, rnd')"
    and mb: "mb = \<lparr>mb_Nonce = eb_Nonce b, mb_Ciphertext = eb_Ciphertext b\<rparr>"
    using assms(2) by (auto simp: mm_Seal_def bindR_Ok_conv)
  note d = EncryptBlock_Decrypt [OF assms(1) b]
  have "length (eb_Nonce b) = NonceSize"
    using b by (auto simp: EncryptBlock_def bindR_Ok_conv ReadFull_Ok_conv)
  then show ?thesis
    using d marshalMetadata_bound [OF raw assms(3)] marshal_unmarshal [OF raw assms(3)]
    by (cases b) (simp add: mb mm_Open_def)
qed

section \<open>Compression and keys\<close>

lemma Decompress_Compress:
  "zstd_correct Z \<Longrightarrow> length src \<le> bd_limit bd \<Longrightarrow> bc_window bc \<le> bd_window bd \<Longrightarrow>
   Decompress Z bd (Compress Z bc [] src) = Ok src"
  by (simp add: Decompress_def Compress_def zstd_correct_def)

lemma Decompress_bounded: "Decompress Z bd src = Ok out \<Longrightarrow> length out \<le> bd_limit bd"
  by (auto simp: Decompress_def split: sum.splits zstd_error.splits if_splits)

lemma FileKey_length: "FileKey P ks salt = Ok k \<Longrightarrow> length k = 32"
  by (auto simp: FileKey_def DeriveKey_def DeriveFileSubkey_def expandSubkey_def bindR_Ok_conv
      KeySize_def split: if_splits)

lemma HeaderKey_length: "HeaderKey P ks = Ok k \<Longrightarrow> length k = 32"
  by (auto simp: HeaderKey_def DeriveHeaderSubkey_def expandSubkey_def bindR_Ok_conv KeySize_def
      split: if_splits)

text \<open>The subkey labels keep the keys of one archive apart: no two purposes share an HKDF input.\<close>

lemma subkey_infos_distinct:
  "fileSubkeyLabel @ salt = fileSubkeyLabel @ salt' \<longleftrightarrow> salt = salt'"
  "fileSubkeyLabel @ salt \<noteq> headerSubkeyLabel" "fileSubkeyLabel @ salt \<noteq> chunkIDLabel"
  "fileSubkeyLabel @ salt \<noteq> gearTableLabel" "headerSubkeyLabel \<noteq> chunkIDLabel"
  by (simp_all add: fileSubkeyLabel_def headerSubkeyLabel_def chunkIDLabel_def gearTableLabel_def
      str_def)

text \<open>Days are hashed, not seconds: times of one day cannot be told apart.\<close>

lemma HashTimestamp_day: "t div 86400 = t' div 86400 \<Longrightarrow> HashTimestamp P salt t = HashTimestamp P salt t'"
  by (simp add: HashTimestamp_def)

lemma BucketizeSize_mono: "m \<le> n \<Longrightarrow> BucketizeSize m \<le> BucketizeSize n"
  by (simp add: BucketizeSize_def BucketTiny_def BucketSmall_def BucketMedium_def BucketLarge_def BucketHuge_def)

end
