(* ===== verification/Frames.thy ===== *)
theory Frames
  imports Format
begin

text \<open>
  \<^verbatim>\<open>archive/frames.go\<close>: the \<^verbatim>\<open>FrameBuilder\<close> that assembles one entry.  One \<^verbatim>\<open>BufferedRand\<close>
  supplies nonces, size variance, padding and structural fields in the order the methods
  draw them, so every method takes the builder and returns it with the position of the
  random stream advanced.  With a compressor, each chunk is a zstd frame before it is sealed.
\<close>

section \<open>The builder\<close>

definition interBlockPadMin :: nat where "interBlockPadMin = 256"
definition interBlockPadMax :: nat where "interBlockPadMax = 1024"
definition TrailerPayloadSize :: nat where "TrailerPayloadSize = HMACSize + 8"

record FrameBuilder =
  fb_em :: EncryptionManager
  fb_br :: BufferedRand
  fb_compressor :: "BlockCompressor option"

definition NewFrameBuilder :: "bytes \<Rightarrow> bytes \<Rightarrow> (FrameBuilder \<times> bytes) res" where
  "NewFrameBuilder key rnd =
     bindR (wrapR ''archive/frames: buffered rand'' (NewBufferedRand rnd)) (\<lambda>(br, rnd).
     bindR (wrapR ''archive/frames: init encryption'' (NewEncryptionManager key)) (\<lambda>em.
       Ok (\<lparr>fb_em = em, fb_br = br, fb_compressor = None\<rparr>, rnd)))"

definition NewCompressingFrameBuilder ::
  "bytes \<Rightarrow> BlockCompressor option \<Rightarrow> bytes \<Rightarrow> (FrameBuilder \<times> bytes) res" where
  "NewCompressingFrameBuilder key bc rnd =
     (if bc = None then Err (Errorf ''archive/frames: nil block compressor'')
      else bindR (NewFrameBuilder key rnd) (\<lambda>(fb, rnd). Ok (fb\<lparr>fb_compressor := bc\<rparr>, rnd)))"

definition fb_Codec :: "FrameBuilder \<Rightarrow> Codec" where
  "fb_Codec fb = (if fb_compressor fb \<noteq> None then CodecZstd else CodecNone)"

text \<open>The builder with what a read of its random stream returned.\<close>

definition with_br :: "FrameBuilder \<Rightarrow> ('a \<times> BufferedRand) res \<Rightarrow> ('a \<times> FrameBuilder) res" where
  "with_br fb m = bindR m (\<lambda>(x, br). Ok (x, fb\<lparr>fb_br := br\<rparr>))"

definition encodeInto :: "zstd \<Rightarrow> FrameBuilder \<Rightarrow> bytes \<Rightarrow> bytes \<Rightarrow> bytes" where
  "encodeInto Z fb plaintext dst =
     (case fb_compressor fb of None \<Rightarrow> plaintext | Some bc \<Rightarrow> Compress Z bc (take 0 dst) plaintext)"

definition NextChunkSize :: "prims \<Rightarrow> FrameBuilder \<Rightarrow> nat \<times> FrameBuilder" where
  "NextChunkSize P fb =
     (let (delta, br) = variance_Next (br_Read P) BlockVariance (fb_br fb) in
      (chunk_size delta, fb\<lparr>fb_br := br\<rparr>))"

definition data_block :: "EncryptedBlock \<Rightarrow> DataBlock" where
  "data_block b = \<lparr>db_Nonce = eb_Nonce b, db_Ciphertext = eb_Ciphertext b\<rparr>"

definition EncryptChunkInto ::
  "prims \<Rightarrow> zstd \<Rightarrow> FrameBuilder \<Rightarrow> bytes \<Rightarrow> bytes \<Rightarrow> (DataBlock \<times> FrameBuilder) res" where
  "EncryptChunkInto P Z fb plaintext dst =
     (let payload = encodeInto Z fb plaintext dst;
          dst = (if fb_compressor fb \<noteq> None then payload else dst) in
      bindR (wrapR ''archive/frames: encrypt chunk''
        (with_br fb (EncryptBlockInto P (br_Read P) (fb_em fb) payload dst (fb_br fb)))) (\<lambda>(b, fb).
      Ok (data_block b, fb)))"

definition EncryptChunk :: "prims \<Rightarrow> zstd \<Rightarrow> FrameBuilder \<Rightarrow> bytes \<Rightarrow> (DataBlock \<times> FrameBuilder) res" where
  "EncryptChunk P Z fb plaintext =
     (if fb_compressor fb \<noteq> None then EncryptChunkInto P Z fb plaintext []
      else bindR (wrapR ''archive/frames: encrypt chunk''
        (with_br fb (EncryptBlock P (br_Read P) (fb_em fb) plaintext (fb_br fb)))) (\<lambda>(b, fb).
      Ok (data_block b, fb)))"

definition NextNonce :: "prims \<Rightarrow> FrameBuilder \<Rightarrow> (bytes \<times> FrameBuilder) res" where
  "NextNonce P fb = wrapR ''archive/frames: next nonce'' (with_br fb (br_Read P NonceSize (fb_br fb)))"

definition EncryptChunkWithNonceInto :: "prims \<Rightarrow> zstd \<Rightarrow> FrameBuilder \<Rightarrow> bytes \<Rightarrow> bytes \<Rightarrow> bytes \<Rightarrow> DataBlock" where
  "EncryptChunkWithNonceInto P Z fb nonce plaintext dst =
     (let payload = encodeInto Z fb plaintext dst;
          dst = (if fb_compressor fb \<noteq> None then payload else dst) in
      data_block (EncryptBlockWithNonceInto P (fb_em fb) nonce payload dst))"

definition FrameHeader :: "prims \<Rightarrow> FrameBuilder \<Rightarrow> (bytes \<times> FrameBuilder) res" where
  "FrameHeader P fb = wrapR ''archive/frames: frame header'' (with_br fb (br_Read P 32 (fb_br fb)))"

definition randomRange :: "prims \<Rightarrow> FrameBuilder \<Rightarrow> nat \<Rightarrow> nat \<Rightarrow> (bytes \<times> FrameBuilder) res" where
  "randomRange P fb mn mx =
     bindR (with_br fb (br_Read P 2 (fb_br fb))) (\<lambda>(b, fb).
       let size = mn + be16 b mod (mx - mn + 1) in
       with_br fb (br_Read P size (fb_br fb)))"

definition InterBlockPadding :: "prims \<Rightarrow> FrameBuilder \<Rightarrow> (bytes \<times> FrameBuilder) res" where
  "InterBlockPadding P fb =
     wrapR ''archive/frames: inter-block padding'' (randomRange P fb interBlockPadMin interBlockPadMax)"

text \<open>
  The compressing stream loop.  Its buffer has \<^verbatim>\<open>MaxChunkSize\<close> bytes, so a larger chunk
  size would panic when the buffer is sliced.
\<close>

function encryptStreamCompressed ::
  "prims \<Rightarrow> zstd \<Rightarrow> FrameBuilder \<Rightarrow> bytes \<Rightarrow> (DataBlock list \<times> FrameBuilder) res" where
  "encryptStreamCompressed P Z fb r =
     (let (size, fb) = NextChunkSize P fb in
      if MaxChunkSize < size then Panic
      else let (buf, err, r') = read_full size r in
        bindR (if buf \<noteq> []
               then bindR (EncryptChunk P Z fb buf) (\<lambda>(db, fb). Ok ([db], fb))
               else Ok ([], fb)) (\<lambda>(bs, fb).
        if err \<noteq> None then Ok (bs, fb)
        else bindR (encryptStreamCompressed P Z fb r') (\<lambda>(rest, fb). Ok (bs @ rest, fb))))"
  by pat_completeness auto
termination
  by (relation "measure (\<lambda>(P, Z, fb, r). length r)")
    (auto simp: read_full_def NextChunkSize_def split: if_splits prod.splits)

declare encryptStreamCompressed.simps [simp del]

definition fb_EncryptStream ::
  "prims \<Rightarrow> zstd \<Rightarrow> FrameBuilder \<Rightarrow> bytes \<Rightarrow> (DataBlock list \<times> FrameBuilder) res" where
  "fb_EncryptStream P Z fb r =
     (if fb_compressor fb \<noteq> None then encryptStreamCompressed P Z fb r
      else bindR (wrapR ''archive/frames: encrypt stream''
        (with_br fb (EncryptStream P (br_Read P) (fb_em fb) BlockVariance r (fb_br fb)))) (\<lambda>(bs, fb).
      Ok (map data_block bs, fb)))"

definition entryChecksum :: "prims \<Rightarrow> FrameBuilder \<Rightarrow> (bytes \<times> FrameBuilder) res" where
  "entryChecksum P fb = wrapR ''archive/frames: entry checksum'' (with_br fb (br_Read P 8 (fb_br fb)))"

definition BuildTrailer ::
  "prims \<Rightarrow> FrameBuilder \<Rightarrow> bytes \<Rightarrow> u64 \<Rightarrow> (FileTrailer \<times> FrameBuilder) res" where
  "BuildTrailer P fb plaintextHMAC plaintextSize =
     bindR (wrapR ''archive/frames: trailer padding''
       (with_br fb (pad_Trailer (br_Read P) (fb_br fb)))) (\<lambda>(pad, fb).
     let payload = to_array HMACSize plaintextHMAC @ le64 plaintextSize in
     bindR (wrapR ''archive/frames: seal HMAC''
       (with_br fb (EncryptBlock P (br_Read P) (fb_em fb) payload (fb_br fb)))) (\<lambda>(sealed, fb).
     bindR (wrapR ''archive/frames: entry checksum'' (entryChecksum P fb)) (\<lambda>(cs, fb).
       Ok (\<lparr>ft_RandomPadding = pad, ft_PlaintextHMACNonce = eb_Nonce sealed,
            ft_PlaintextHMACSealed = eb_Ciphertext sealed, ft_EntryChecksum = cs\<rparr>, fb))))"

definition BuildHeaderPadding :: "prims \<Rightarrow> FrameBuilder \<Rightarrow> (bytes \<times> FrameBuilder) res" where
  "BuildHeaderPadding P fb =
     wrapR ''archive/frames: header padding'' (with_br fb (pad_Header (br_Read P) (fb_br fb)))"

section \<open>One block\<close>

text \<open>
  Documented bound of zstd: the frame and block headers it adds to an incompressible input
  of up to one content-defined chunk stay below \<^verbatim>\<open>zstdMaxOverhead\<close>.
\<close>

definition zstd_bounded :: "zstd \<Rightarrow> bool" where
  "zstd_bounded Z \<longleftrightarrow> (\<forall>l w src. length src \<le> MaxCDCChunkSize \<longrightarrow>
     length (z_EncodeAll Z l w src) \<le> length src + zstdMaxOverhead)"

lemma toy_zstd_bounded: "zstd_bounded toy_zstd"
  by (simp add: zstd_bounded_def toy_zstd_def zstdMaxOverhead_def)

text \<open>
  What a reader with the file key and a decoder makes of a block: it is the block of the
  chunk \<open>c\<close> when decrypting and, for a compressed entry, decoding it gives \<open>c\<close>, and its
  fields have sizes that the reader accepts.
\<close>

definition block_of ::
  "prims \<Rightarrow> zstd \<Rightarrow> BlockDecompressor \<Rightarrow> EncryptionManager \<Rightarrow> Codec \<Rightarrow> DataBlock \<Rightarrow> bytes \<Rightarrow> bool" where
  "block_of P Z bd em codec db c \<longleftrightarrow>
     bindR (DecryptBlock P em \<lparr>eb_Nonce = db_Nonce db, eb_Ciphertext = db_Ciphertext db\<rparr>)
       (\<lambda>payload. if codec = CodecZstd then Decompress Z bd payload else Ok payload) = Ok c
     \<and> c \<noteq> [] \<and> length (db_Nonce db) = NonceSize \<and> GCMTagSize \<le> length (db_Ciphertext db)
     \<and> length (db_Ciphertext db) \<le> MaxPayloadSize + GCMTagSize"

text \<open>The parameters a block decoder must have to read what a builder writes.\<close>

definition decodes :: "prims \<Rightarrow> zstd \<Rightarrow> BlockDecompressor \<Rightarrow> FrameBuilder \<Rightarrow> bool" where
  "decodes P Z bd fb \<longleftrightarrow> gcm_correct P \<and> zstd_correct Z \<and> zstd_bounded Z \<and> MaxChunkSize \<le> bd_limit bd
     \<and> (\<forall>bc. fb_compressor fb = Some bc \<longrightarrow> bc_window bc \<le> bd_window bd)"

definition same_file :: "FrameBuilder \<Rightarrow> FrameBuilder \<Rightarrow> bool" where
  "same_file fb fb' \<longleftrightarrow> fb_em fb' = fb_em fb \<and> fb_compressor fb' = fb_compressor fb"

lemma same_file_refl [simp]: "same_file fb fb" "same_file fb (fb\<lparr>fb_br := br\<rparr>)"
  by (simp_all add: same_file_def)

lemma same_file_trans [trans]: "same_file a b \<Longrightarrow> same_file b c \<Longrightarrow> same_file a c"
  by (simp add: same_file_def)

lemma same_file_decodes: "same_file fb fb' \<Longrightarrow> decodes P Z bd fb \<Longrightarrow> decodes P Z bd fb'"
  by (simp add: same_file_def decodes_def)

lemma same_file_fields: "same_file fb fb' \<Longrightarrow> fb_em fb' = fb_em fb" "same_file fb fb' \<Longrightarrow> fb_Codec fb' = fb_Codec fb"
  by (simp_all add: same_file_def fb_Codec_def)

lemma with_br_Ok_conv: "with_br fb m = Ok (x, fb') \<longleftrightarrow> (\<exists>br. m = Ok (x, br) \<and> fb' = fb\<lparr>fb_br := br\<rparr>)"
  by (auto simp: with_br_def bindR_Ok_conv)

lemma with_br_same_file: "with_br fb m = Ok (x, fb') \<Longrightarrow> same_file fb fb'"
  by (auto simp: with_br_Ok_conv)

lemma with_br_read: "\<exists>b fb'. with_br fb (br_Read P n br) = Ok (b, fb') \<and> length b = n \<and> same_file fb fb'"
  by (simp add: with_br_def br_Read_def)

lemma EncryptChunk_Ok:
  "EncryptChunk P Z fb c = Ok (db, fb') \<longleftrightarrow>
     (\<exists>b br. EncryptBlock P (br_Read P) (fb_em fb) (encodeInto Z fb c []) (fb_br fb) = Ok (b, br)
       \<and> db = data_block b \<and> fb' = fb\<lparr>fb_br := br\<rparr>)"
  by (auto simp: EncryptChunk_def EncryptChunkInto_def encodeInto_def EncryptBlockInto_eq bindR_Ok_conv
      with_br_Ok_conv Let_def)

text \<open>Sealing into a caller's buffer, or under a nonce drawn before, gives the same block.\<close>

lemma encodeInto_dst: "encodeInto Z fb c dst = encodeInto Z fb c []"
  by (cases "fb_compressor fb") (simp_all add: encodeInto_def)

lemma EncryptChunkInto_eq: "EncryptChunkInto P Z fb c dst = EncryptChunk P Z fb c"
  by (cases "fb_compressor fb")
    (simp_all add: EncryptChunkInto_def EncryptChunk_def EncryptBlockInto_eq encodeInto_def Let_def)

lemma NextNonce_total:
  "\<exists>nonce fb'. NextNonce P fb = Ok (nonce, fb') \<and> length nonce = NonceSize \<and> same_file fb fb'"
  using with_br_read [of fb P NonceSize "fb_br fb"] by (auto simp: NextNonce_def)

lemma EncryptChunk_nonce:
  assumes "NextNonce P fb = Ok (nonce, fb')" and "same_file fb fb2"
  shows "EncryptChunk P Z fb c = Ok (EncryptChunkWithNonceInto P Z fb2 nonce c dst, fb')"
proof -
  obtain br where "br_Read P NonceSize (fb_br fb) = Ok (nonce, br)" "fb' = fb\<lparr>fb_br := br\<rparr>"
    using assms(1) by (auto simp: NextNonce_def with_br_Ok_conv)
  with assms(2) show ?thesis
    by (auto simp: EncryptChunk_Ok EncryptBlock_def EncryptChunkWithNonceInto_def
        EncryptBlockWithNonceInto_def same_file_def encodeInto_def Let_def split: option.splits)
qed

lemma EncryptChunk_total: "\<exists>db fb'. EncryptChunk P Z fb c = Ok (db, fb') \<and> same_file fb fb'"
proof -
  obtain b br where "EncryptBlock P (br_Read P) (fb_em fb) (encodeInto Z fb c []) (fb_br fb) = Ok (b, br)"
    using buf_total.EncryptBlock_total by blast
  then have "EncryptChunk P Z fb c = Ok (data_block b, fb\<lparr>fb_br := br\<rparr>)"
    unfolding EncryptChunk_Ok by blast
  then show ?thesis by auto
qed

lemma EncryptChunk_same_file: "EncryptChunk P Z fb c = Ok (db, fb') \<Longrightarrow> same_file fb fb'"
  by (auto simp: EncryptChunk_Ok)

lemma encodeInto_decodes:
  assumes "decodes P Z bd fb" and "length c \<le> MaxChunkSize"
  shows "(if fb_Codec fb = CodecZstd then Decompress Z bd (encodeInto Z fb c []) else Ok (encodeInto Z fb c [])) = Ok c"
    and "length (encodeInto Z fb c []) \<le> MaxPayloadSize"
proof -
  have "length c \<le> MaxCDCChunkSize" using assms(2) by (simp add: size_limits)
  then have "length (z_EncodeAll Z l w c) \<le> length c + zstdMaxOverhead" for l w
    using assms(1) by (simp add: decodes_def zstd_bounded_def)
  then have "length (z_EncodeAll Z l w c) \<le> MaxPayloadSize" for l w
    using assms(2) unfolding MaxPayloadSize_def by (meson add_le_mono1 order.trans)
  then show "length (encodeInto Z fb c []) \<le> MaxPayloadSize"
    using assms(2) by (simp add: encodeInto_def MaxPayloadSize_def Compress_def split: option.splits)
  show "(if fb_Codec fb = CodecZstd then Decompress Z bd (encodeInto Z fb c []) else Ok (encodeInto Z fb c [])) = Ok c"
    using assms
    by (auto simp: encodeInto_def fb_Codec_def decodes_def CodecZstd_def CodecNone_def
        intro!: Decompress_Compress split: option.splits)
qed

lemma EncryptChunk_block:
  assumes "decodes P Z bd fb" and "EncryptChunk P Z fb c = Ok (db, fb')" and "c \<noteq> []" "length c \<le> MaxChunkSize"
  shows "block_of P Z bd (fb_em fb) (fb_Codec fb) db c"
proof -
  obtain b br where b: "EncryptBlock P (br_Read P) (fb_em fb) (encodeInto Z fb c []) (fb_br fb) = Ok (b, br)"
    and db: "db = data_block b" using assms(2) unfolding EncryptChunk_Ok by blast
  have g: "gcm_correct P" using assms(1) by (simp add: decodes_def)
  note e = encodeInto_decodes [OF assms(1,4)]
  show ?thesis
    using EncryptBlock_Decrypt [OF g b] buf_rand.EncryptBlock_Nonce [OF b] e assms(3)
    by (cases b) (simp add: block_of_def db data_block_def)
qed

section \<open>Chunk sizes and padding\<close>

lemma NextChunkSize_bounds:
  assumes "NextChunkSize P fb = (n, fb')"
  shows "0 < n" "n \<le> MaxChunkSize" "same_file fb fb'"
proof -
  obtain delta br where v: "variance_Next (br_Read P) BlockVariance (fb_br fb) = (delta, br)"
    and n: "n = chunk_size delta" "fb' = fb\<lparr>fb_br := br\<rparr>"
    using assms by (auto simp: NextChunkSize_def split: prod.splits)
  show "0 < n" "same_file fb fb'" by (simp_all add: n)
  show "n \<le> MaxChunkSize"
    using buf_rand.chunk_size_bounds(1) [OF v]
    by (simp add: n MaxChunkSize_eq BlockVariance_def BaseBlockSize_def)
qed

lemma randomRange_total:
  assumes "mn \<le> mx"
  shows "\<exists>b fb'. randomRange P fb mn mx = Ok (b, fb') \<and> mn \<le> length b \<and> length b \<le> mx \<and> same_file fb fb'"
proof -
  have "be16 b mod (mx - mn + 1) < mx - mn + 1" for b by (rule mod_less_divisor) simp
  then have "be16 b mod (mx - mn + 1) \<le> mx - mn" for b by (simp add: less_Suc_eq_le)
  then have "mn + be16 b mod (mx - mn + 1) \<le> mx" for b using assms by (metis add.commute le_diff_conv2)
  moreover obtain b fb1 where "with_br fb (br_Read P 2 (fb_br fb)) = Ok (b, fb1)" "same_file fb fb1"
    using with_br_read by blast
  moreover obtain b' fb2 where "with_br fb1 (br_Read P (mn + be16 b mod (mx - mn + 1)) (fb_br fb1)) = Ok (b', fb2)"
    "length b' = mn + be16 b mod (mx - mn + 1)" "same_file fb1 fb2"
    using with_br_read by blast
  ultimately show ?thesis by (auto simp: randomRange_def intro: same_file_trans)
qed

lemma FrameHeader_total: "\<exists>h fb'. FrameHeader P fb = Ok (h, fb') \<and> length h = 32 \<and> same_file fb fb'"
  using with_br_read [of fb P 32 "fb_br fb"] by (auto simp: FrameHeader_def)

lemma InterBlockPadding_total:
  "\<exists>b fb'. InterBlockPadding P fb = Ok (b, fb') \<and> length b \<le> interBlockPadMax \<and> same_file fb fb'"
  using randomRange_total [of interBlockPadMin interBlockPadMax P fb]
  by (auto simp: InterBlockPadding_def interBlockPadMin_def interBlockPadMax_def)

section \<open>The trailer\<close>

text \<open>
  The sealed trailer opens to the HMAC and the size, and its parts have the sizes that the
  reader accepts.
\<close>

definition trailer_of :: "prims \<Rightarrow> EncryptionManager \<Rightarrow> FileTrailer \<Rightarrow> bytes \<Rightarrow> u64 \<Rightarrow> bool" where
  "trailer_of P em t mac sz \<longleftrightarrow>
     DecryptBlock P em \<lparr>eb_Nonce = ft_PlaintextHMACNonce t, eb_Ciphertext = ft_PlaintextHMACSealed t\<rparr>
       = Ok (mac @ le64 sz)
     \<and> length (ft_PlaintextHMACNonce t) = NonceSize \<and> length (ft_EntryChecksum t) = 8
     \<and> length (ft_PlaintextHMACSealed t) = TrailerPayloadSize + GCMTagSize
     \<and> length (ft_RandomPadding t) \<le> TrailerPadMax"

lemma pad_Trailer_total:
  "\<exists>b s'. pad_Trailer (br_Read P) s = Ok (b, s') \<and> TrailerPadMin \<le> length b \<and> length b \<le> TrailerPadMax"
proof -
  have ok: "\<exists>b s'. br_Read P n s = Ok (b, s')" for n s by (simp add: br_Read_def)
  obtain h s1 where h: "br_Read P 2 s = Ok (h, s1)" using ok by blast
  obtain b s2 where
    "br_Read P (TrailerPadMin + be16 h mod (TrailerPadMax - TrailerPadMin + 1)) s1 = Ok (b, s2)"
    using ok by blast
  with h have "pad_Trailer (br_Read P) s = Ok (b, s2)"
    by (simp add: pad_Trailer_def secureRandomRange_def Let_def)
  then show ?thesis
    using buf_rand.range_bounds by (fastforce simp: pad_Trailer_def TrailerPadMin_def TrailerPadMax_def)
qed

lemma BuildTrailer_total:
  assumes "gcm_correct P" and "length mac = HMACSize"
  shows "\<exists>t fb'. BuildTrailer P fb mac sz = Ok (t, fb') \<and> trailer_of P (fb_em fb) t mac sz"
proof -
  obtain pad br where pad: "pad_Trailer (br_Read P) (fb_br fb) = Ok (pad, br)" "length pad \<le> TrailerPadMax"
    using pad_Trailer_total by blast
  obtain b br2 where b: "EncryptBlock P (br_Read P) (fb_em fb) (mac @ le64 sz) br = Ok (b, br2)"
    using buf_total.EncryptBlock_total by blast
  obtain cs br3 where cs: "br_Read P 8 br2 = Ok (cs, br3)" "length cs = 8" by (simp add: br_Read_def)
  show ?thesis
    using pad b cs assms(2) EncryptBlock_Decrypt [OF assms(1) b] buf_rand.EncryptBlock_Nonce [OF b]
    by (cases b) (simp add: BuildTrailer_def entryChecksum_def with_br_def trailer_of_def TrailerPayloadSize_def)
qed

section \<open>A stream of blocks\<close>

lemma encryptStreamCompressed_correct:
  assumes "decodes P Z bd fb"
  shows "\<exists>bs fb' cs. encryptStreamCompressed P Z fb r = Ok (bs, fb') \<and> concat cs = r \<and> same_file fb fb'
    \<and> list_all2 (block_of P Z bd (fb_em fb) (fb_Codec fb)) bs cs"
  using assms
proof (induction "length r" arbitrary: r fb rule: less_induct)
  case less
  obtain n fb1 where n: "NextChunkSize P fb = (n, fb1)" by force
  note nb = NextChunkSize_bounds [OF n]
  obtain db fb2 where db: "EncryptChunk P Z fb1 (take n r) = Ok (db, fb2)" and f2: "same_file fb1 fb2"
    using EncryptChunk_total by blast
  have d1: "decodes P Z bd fb1" and f: "same_file fb fb2"
    using nb(3) less.prems f2 same_file_decodes same_file_trans by blast+
  have blk: "block_of P Z bd (fb_em fb) (fb_Codec fb) db (take n r)" if "take n r \<noteq> []"
    using EncryptChunk_block [OF d1 db that] nb by (simp add: same_file_fields)
  show ?case
  proof (cases "n \<le> length r")
    case True
    then have ne: "take n r \<noteq> []" and lt: "length (drop n r) < length r" using nb(1) by (cases r; auto)+
    from less.hyps [OF lt same_file_decodes [OF f less.prems]] obtain bs fb' cs where
      rest: "encryptStreamCompressed P Z fb2 (drop n r) = Ok (bs, fb')" "concat cs = drop n r"
        "same_file fb2 fb'" "list_all2 (block_of P Z bd (fb_em fb) (fb_Codec fb)) bs cs"
      by (auto simp: same_file_fields [OF f])
    have "encryptStreamCompressed P Z fb r = Ok (db # bs, fb')"
      using True ne rest(1) n db nb(2)
      by (simp add: encryptStreamCompressed.simps [of P Z fb r] read_full_def)
    then show ?thesis
      using rest blk [OF ne] f same_file_trans
      by (intro exI [of _ "db # bs"] exI [of _ fb'] exI [of _ "take n r # cs"]) auto
  next
    case False
    show ?thesis
    proof (cases "r = []")
      case True
      with False n nb show ?thesis
        by (intro exI [of _ "[]"] exI [of _ fb1])
          (simp add: encryptStreamCompressed.simps [of P Z fb "[]"] read_full_def)
    next
      case ne: False
      with False n nb db have "encryptStreamCompressed P Z fb r = Ok ([db], fb2)"
        by (simp add: encryptStreamCompressed.simps [of P Z fb r] read_full_def)
      with blk f False ne show ?thesis
        by (intro exI [of _ "[db]"] exI [of _ fb2] exI [of _ "[r]"]) simp
    qed
  qed
qed

text \<open>
  Whatever stream a \<^verbatim>\<open>FrameBuilder\<close> encrypts, compressed or not, it succeeds, and the
  blocks decrypt and decode one by one to non-empty chunks that concatenate to the stream;
  no block exceeds the size that the extractor accepts.
\<close>

lemma frame_stream_decodes:
  assumes "decodes P Z bd fb"
  shows "\<exists>bs fb' cs. fb_EncryptStream P Z fb r = Ok (bs, fb') \<and> concat cs = r \<and> same_file fb fb'
    \<and> list_all2 (block_of P Z bd (fb_em fb) (fb_Codec fb)) bs cs"
proof (cases "fb_compressor fb")
  case (Some bc)
  then show ?thesis
    using encryptStreamCompressed_correct [OF assms, of r] by (auto simp: fb_EncryptStream_def)
next
  case None
  have g: "gcm_correct P" using assms by (simp add: decodes_def)
  obtain bs br where bs: "EncryptStream P (br_Read P) (fb_em fb) BlockVariance r (fb_br fb) = Ok (bs, br)"
    using buf_total.EncryptStream_total by blast
  from buf_rand.EncryptStream_correct [OF g bs] obtain cs where cs: "concat cs = r"
    "list_all2 (chunk_of P (fb_em fb) BlockVariance) bs cs" by blast
  have "block_of P Z bd (fb_em fb) (fb_Codec fb) (data_block b) c" if "chunk_of P (fb_em fb) BlockVariance b c" for b c
    using that None
    by (cases b) (auto simp: block_of_def chunk_of_def data_block_def fb_Codec_def CodecZstd_def CodecNone_def
        size_limits BaseBlockSize_def BlockVariance_def)
  then have "list_all2 (block_of P Z bd (fb_em fb) (fb_Codec fb)) (map data_block bs) cs"
    using cs(2) by (auto simp: list_all2_conv_all_nth)
  with None bs cs(1) show ?thesis by (auto simp: fb_EncryptStream_def with_br_def)
qed

end
