(* ===== verification/Block_Reader.thy ===== *)
theory Block_Reader
  imports Reader Frames
begin

text \<open>
  The data blocks of an entry, as the extractor reads them: block framing and
  \<^verbatim>\<open>streamDataBlocks\<close> (\<^verbatim>\<open>io/extractor.go\<close>), the sequential decryption loop
  (\<^verbatim>\<open>io/decrypt_pipeline.go\<close>), and skipping blocks without a key.
\<close>

section \<open>Framing\<close>

definition maxBlockCiphertext :: nat where
  "maxBlockCiphertext = MaxPayloadSize + GCMTagSize"

text \<open>
  One call of the \<^verbatim>\<open>next\<close> closure: a block, the end of the blocks (the zero-length sentinel,
  or the end of the stream before a whole nonce), or an error.
\<close>

datatype next_result = NBlock bytes bytes | NEnd | NErr ArchiveError

definition next_block :: "stream \<Rightarrow> next_result \<times> stream" where
  "next_block s =
     (case sReadFull NonceSize s of
        (nonce, Some e, s) \<Rightarrow>
          if e = EOF \<or> e = ErrUnexpectedEOF then (NEnd, s)
          else (NErr (recoverable ErrCodeTruncated ''read block nonce'' (Some e)), s)
      | (nonce, None, s) \<Rightarrow>
          (case sReadFull 4 s of
             (sizeBuf, Some e, s) \<Rightarrow> (NErr (recoverable ErrCodeTruncated ''read block size'' (Some e)), s)
           | (sizeBuf, None, s) \<Rightarrow>
               let blockSize = unat (word_le 4 sizeBuf :: u32) in
               if blockSize = 0 then (NEnd, s)
               else if maxBlockCiphertext < blockSize
               then (NErr (fatal ErrCodeIntegrityFail ''block size exceeds maximum'' None), s)
               else (case sReadFull blockSize s of
                  (ct, Some e, s) \<Rightarrow> (NErr (recoverable ErrCodeTruncated ''read block ciphertext'' (Some e)), s)
                | (ct, None, s) \<Rightarrow> (NBlock nonce ct, s))))"

text \<open>
  \<^verbatim>\<open>skipDataBlocks\<close> reads the same framing without a key and returns the stored size.
\<close>

function skipDataBlocks_from :: "nat \<Rightarrow> stream \<Rightarrow> nat outcome \<times> stream" where
  "skipDataBlocks_from stored s =
     (case sReadFull (NonceSize + 4) s of
        (header, Some e, s) \<Rightarrow> (Fail (recoverable ErrCodeTruncated ''read block header'' (Some e)), s)
      | (header, None, s1) \<Rightarrow>
          let blockSize = unat (word_le 4 (drop NonceSize header) :: u32) in
          if blockSize = 0 then (Val stored, s1)
          else if maxBlockCiphertext < blockSize \<or> blockSize < GCMTagSize
          then (Fail (fatal ErrCodeIntegrityFail ''block size out of range'' None), s1)
          else (case CopyN blockSize s1 of
             (Some e, s2) \<Rightarrow> (Fail (recoverable ErrCodeTruncated ''skip block ciphertext'' (Some e)), s2)
           | (None, s2) \<Rightarrow> skipDataBlocks_from (stored + (blockSize - GCMTagSize)) s2))"
  by pat_completeness auto
termination
  by (relation "measure (\<lambda>(n, s). length (s_bytes s))")
    (auto simp: sReadFull_def CopyN_def Let_def NonceSize_def split: if_splits)

declare skipDataBlocks_from.simps [simp del]

definition skipDataBlocks :: "nat reader" where
  "skipDataBlocks = skipDataBlocks_from 0"

section \<open>Opening blocks\<close>

text \<open>
  The errors of the decryption loop: a block that fails to authenticate, one that
  authenticates but fails to decode (\<^verbatim>\<open>errDecompress\<close>), a failed sink (\<^verbatim>\<open>sinkError\<close>), and a
  framing error of \<^verbatim>\<open>next\<close>.
\<close>

datatype block_error = OpenError sarc_error | DecompressError sarc_error | SinkError sarc_error
  | ReadError ArchiveError

type_synonym blockOpener = "EncryptedBlock \<Rightarrow> block_error + bytes"

text \<open>Neither \<^verbatim>\<open>DecryptBlock\<close> nor \<^verbatim>\<open>Decompress\<close> panics, so the last branch is never taken.\<close>

definition tag_error :: "(sarc_error \<Rightarrow> block_error) \<Rightarrow> bytes res \<Rightarrow> block_error + bytes" where
  "tag_error tag m = (case m of Ok x \<Rightarrow> Inr x | Err e \<Rightarrow> Inl (tag e) | Panic \<Rightarrow> Inl (tag (Errorf ''panic'')))"

lemma no_panic_open: "DecryptBlock P em b \<noteq> Panic" "Decompress Z bd x \<noteq> Panic"
  by (auto simp: DecryptBlock_def Decompress_def split: option.splits sum.splits zstd_error.splits if_splits)

definition plain_opener :: "prims \<Rightarrow> EncryptionManager \<Rightarrow> blockOpener" where
  "plain_opener P em b = tag_error OpenError (DecryptBlock P em b)"

definition decompressingOpener :: "prims \<Rightarrow> zstd \<Rightarrow> EncryptionManager \<Rightarrow> BlockDecompressor \<Rightarrow> blockOpener" where
  "decompressingOpener P Z em dec b =
     (case tag_error OpenError (DecryptBlock P em b) of
        Inl e \<Rightarrow> Inl e
      | Inr payload \<Rightarrow> tag_error DecompressError (Decompress Z dec payload))"

text \<open>A sink takes each plaintext block in order; it carries its own state.\<close>

type_synonym 'k blockSink = "bytes \<Rightarrow> 'k \<Rightarrow> sarc_error option \<times> 'k"

text \<open>
  What the loop does with one block once no earlier one failed: open it and hand it to the
  sink.
\<close>

definition sink_block :: "blockOpener \<Rightarrow> 'k blockSink \<Rightarrow> EncryptedBlock \<Rightarrow> 'k \<Rightarrow> block_error option \<times> 'k" where
  "sink_block em sink b k =
     (case em b of
        Inl e \<Rightarrow> (Some e, k)
      | Inr pt \<Rightarrow> (case sink pt k of (None, k) \<Rightarrow> (None, k) | (Some e, k) \<Rightarrow> (Some (SinkError e), k)))"

lemma next_block_later: "next_block s = (r, s') \<Longrightarrow> later s s'"
  by (auto simp: next_block_def Let_def split: prod.splits option.splits if_splits
      dest!: later_sReadFull intro: later_trans)

lemma next_block_shorter: "next_block s = (NBlock n c, s') \<Longrightarrow> length (s_bytes s') < length (s_bytes s)"
  by (auto simp: next_block_def Let_def NonceSize_def split: prod.splits option.splits if_splits
      dest!: sReadFull_shorter)

section \<open>The sequential loop\<close>

text \<open>
  \<^verbatim>\<open>decryptBlocksSequential\<close>: after a block or the sink failed, the remaining blocks are still
  consumed, so the stream stays aligned on what follows the sentinel.
\<close>

function decryptBlocksSequential ::
  "blockOpener \<Rightarrow> 'k blockSink \<Rightarrow> block_error option \<Rightarrow> 'k \<Rightarrow> stream \<Rightarrow> block_error option \<times> 'k \<times> stream" where
  "decryptBlocksSequential em sink firstErr k s =
     (case next_block s of
        (NErr e, s') \<Rightarrow> (Some (ReadError e), k, s')
      | (NEnd, s') \<Rightarrow> (firstErr, k, s')
      | (NBlock nonce ct, s') \<Rightarrow>
          if firstErr \<noteq> None then decryptBlocksSequential em sink firstErr k s'
          else (case sink_block em sink \<lparr>eb_Nonce = nonce, eb_Ciphertext = ct\<rparr> k of
            (err, k) \<Rightarrow> decryptBlocksSequential em sink err k s'))"
  by pat_completeness auto
termination
  by (relation "measure (\<lambda>(em, sink, e, k, s). length (s_bytes s))") (auto dest: next_block_shorter [OF sym])

declare decryptBlocksSequential.simps [simp del]

text \<open>
  \<^verbatim>\<open>streamDataBlocks\<close>.  With more than one worker the blocks go through the parallel pipeline,
  every run of which has the outcome of the sequential loop (theory \<open>Decrypt_Pipeline\<close>).
\<close>

definition stream_error :: "block_error option \<Rightarrow> unit outcome" where
  "stream_error err =
     (case err of
        None \<Rightarrow> Val ()
      | Some (ReadError e) \<Rightarrow> Fail e
      | Some (SinkError e) \<Rightarrow> Fail (recoverable ErrCodeWriteFailed ''write file'' (Some e))
      | Some (DecompressError e) \<Rightarrow> Fail (recoverable ErrCodeIntegrityFail ''decompress block'' (Some e))
      | Some (OpenError e) \<Rightarrow> Fail (recoverable ErrCodeAuthFailed ''decrypt block'' (Some e)))"

definition streamDataBlocks ::
  "prims \<Rightarrow> zstd \<Rightarrow> bytes \<Rightarrow> Codec \<Rightarrow> BlockDecompressor \<Rightarrow> 'k blockSink \<Rightarrow> 'k \<Rightarrow> stream
     \<Rightarrow> unit outcome \<times> 'k \<times> stream" where
  "streamDataBlocks P Z fileKey codec dec sink k s =
     (case NewEncryptionManager fileKey of
        Err e \<Rightarrow> (Fail (fatal ErrCodeAuthFailed ''init block decryptor'' (Some e)), k, s)
      | Panic \<Rightarrow> (Crash, k, s)
      | Ok em \<Rightarrow>
          let opener = (if codec = CodecZstd then decompressingOpener P Z em dec else plain_opener P em);
              (err, k, s) = decryptBlocksSequential opener sink None k s in
          (stream_error err, k, s))"

text \<open>\<^verbatim>\<open>decryptDataBlocks\<close> collects the plaintext in memory.\<close>

definition decryptDataBlocks ::
  "prims \<Rightarrow> zstd \<Rightarrow> bytes \<Rightarrow> Codec \<Rightarrow> BlockDecompressor \<Rightarrow> bytes reader" where
  "decryptDataBlocks P Z fileKey codec dec s =
     (case streamDataBlocks P Z fileKey codec dec (\<lambda>pt out. (None, out @ pt)) [] s of
        (Val _, out, s) \<Rightarrow> (Val out, s)
      | (Fail e, out, s) \<Rightarrow> (Fail e, s)
      | (Crash, out, s) \<Rightarrow> (Crash, s))"

section \<open>Only consuming\<close>

lemma decryptBlocksSequential_later: "decryptBlocksSequential em sink e k s = (e', k', s') \<Longrightarrow> later s s'"
proof (induction "length (s_bytes s)" arbitrary: e k s rule: less_induct)
  case less
  obtain r s1 where n: "next_block s = (r, s1)" by force
  note l = next_block_later [OF n]
  show ?case
  proof (cases r)
    case (NBlock nonce ct)
    then have lt: "length (s_bytes s1) < length (s_bytes s)" using n next_block_shorter by blast
    have "\<exists>e k. decryptBlocksSequential em sink e k s1 = (e', k', s')"
      using less.prems
      by (auto simp: decryptBlocksSequential.simps [of em sink e k s] n NBlock split: if_splits prod.splits)
    with less.hyps [OF lt] l show ?thesis by (blast intro: later_trans)
  qed (use less.prems l in \<open>auto simp: decryptBlocksSequential.simps [of em sink e k s] n\<close>)
qed

lemma decryptDataBlocks_consumes [consume_intros]: "consumes (decryptDataBlocks P Z key codec dec)"
  by (auto simp: consumes_def decryptDataBlocks_def streamDataBlocks_def Let_def
      split: prod.splits res.splits outcome.splits dest: decryptBlocksSequential_later)

lemma skipDataBlocks_from_later: "later s (snd (skipDataBlocks_from n s))"
proof (induction "length (s_bytes s)" arbitrary: n s rule: less_induct)
  case less
  obtain h e s1 where h: "sReadFull (NonceSize + 4) s = (h, e, s1)" by (metis prod_cases3)
  let ?n = "unat (word_le 4 (drop NonceSize h) :: u32)"
  obtain c s2 where c: "CopyN ?n s1 = (c, s2)" by force
  have s: "later s s1" "later s1 s2" using later_sReadFull [OF h] later_CopyN [OF c] by auto
  then have e: "e = None \<Longrightarrow> length (s_bytes s2) < length (s_bytes s)"
    using sReadFull_shorter h later_le [OF s(2)] by fastforce
  have "snd (skipDataBlocks_from n s) \<in> {s1, s2}
      \<or> e = None \<and> (\<exists>m. snd (skipDataBlocks_from n s) = snd (skipDataBlocks_from m s2))"
    by (auto simp: skipDataBlocks_from.simps [of n s] h c Let_def split: option.splits)
  with less.hyps [OF e] s show ?case by (auto intro: later_trans)
qed

lemma skipDataBlocks_consumes [consume_intros]: "consumes skipDataBlocks"
  by (simp add: consumes_def skipDataBlocks_def skipDataBlocks_from_later)

end
