(* ===== verification/Worker_Pool.thy ===== *)
theory Worker_Pool
  imports Prelude "HOL-Library.Multiset"
begin

text \<open>
  What the concurrent pipelines of package \<^verbatim>\<open>io\<close> have in common.  A dispatcher hands jobs to
  worker goroutines; each job carries a result channel of capacity one, and the dispatcher
  also sends that channel on \<^verbatim>\<open>ordered\<close>, from which the caller takes the results in the order
  of dispatch.  Both channels are bounded.  The theory has the steps of such a pool, the
  invariant that ties the channels together, and the argument that a system whose steps
  keep an invariant, lose weight and are never stuck ends with the outcome it started with.
\<close>

section \<open>Systems that run to an end\<close>

text \<open>
  Runs keep the invariant and the outcome to come, and are finite because every step loses
  weight.
\<close>

locale ending_system =
  fixes step :: "'s \<Rightarrow> 's \<Rightarrow> bool" and inv :: "'s \<Rightarrow> bool" and weight :: "'s \<Rightarrow> nat" and outcome :: "'s \<Rightarrow> 'o"
  assumes step_inv: "inv s \<Longrightarrow> step s t \<Longrightarrow> inv t"
    and step_weight: "inv s \<Longrightarrow> step s t \<Longrightarrow> weight t < weight s"
    and step_outcome: "inv s \<Longrightarrow> step s t \<Longrightarrow> outcome t = outcome s"
begin

lemma run_inv: "step\<^sup>*\<^sup>* s t \<Longrightarrow> inv s \<Longrightarrow> inv t"
  by (induction rule: rtranclp_induct) (auto intro: step_inv)

lemma run_outcome: "step\<^sup>*\<^sup>* s t \<Longrightarrow> inv s \<Longrightarrow> outcome t = outcome s"
  by (induction rule: rtranclp_induct) (auto simp: step_outcome [OF run_inv])

lemma no_endless_run: "inv (f 0) \<Longrightarrow> \<exists>i. \<not> step (f i) (f (Suc i))"
proof (rule ccontr)
  assume i: "inv (f 0)" and "\<nexists>i. \<not> step (f i) (f (Suc i))"
  then have st: "step (f n) (f (Suc n))" for n by blast
  have inv: "inv (f n)" for n by (induction n) (auto intro: i step_inv st)
  have "weight (f n) + n \<le> weight (f 0)" for n
  proof (induction n)
    case (Suc n)
    then show ?case using step_weight [OF inv st, of n] by simp
  qed simp
  from this [of "Suc (weight (f 0))"] show False by simp
qed

end

text \<open>When, in addition, some step is possible in every state that is not final, every run ends well.\<close>

locale running_system = ending_system +
  fixes final :: "'a \<Rightarrow> bool"
  assumes step_enabled: "inv s \<Longrightarrow> \<not> final s \<Longrightarrow> \<exists>t. step s t"
begin

lemma run_ends: "inv s \<Longrightarrow> \<exists>t. step\<^sup>*\<^sup>* s t \<and> final t"
proof (induction "weight s" arbitrary: s rule: less_induct)
  case less
  show ?case
  proof (cases "final s")
    case False
    then obtain t where t: "step s t" using step_enabled less.prems by blast
    then show ?thesis
      using less.hyps [OF step_weight [OF less.prems t] step_inv [OF less.prems t]]
      by (meson converse_rtranclp_into_rtranclp)
  qed blast
qed

lemma runs_well:
  assumes "step\<^sup>*\<^sup>* s t" and "inv s"
  shows "(\<exists>u. step\<^sup>*\<^sup>* t u \<and> final u) \<and> (final t \<or> (\<exists>u. step t u)) \<and> \<not> (\<exists>f. f 0 = t \<and> (\<forall>i. step (f i) (f (Suc i))))"
  using run_ends step_enabled no_endless_run run_inv [OF assms] by blast

end

section \<open>The pool\<close>

text \<open>
  A result channel is identified by the number of its job.  \<open>wp_handed\<close> is the job whose
  channel is already on \<^verbatim>\<open>ordered\<close> but which is not yet on \<^verbatim>\<open>jobs\<close>; \<open>wp_busy\<close> are the jobs that
  workers hold; \<open>wp_results\<close> the filled result channels; \<open>wp_await\<close> the channel that the
  caller took from \<^verbatim>\<open>ordered\<close> and waits on.
\<close>

record ('j, 'r) pool =
  wp_ordered :: "nat list"
  wp_handed :: "(nat \<times> 'j) option"
  wp_jobs :: "(nat \<times> 'j) list"
  wp_busy :: "(nat \<times> 'j) list"
  wp_results :: "nat \<Rightarrow> 'r option"
  wp_next :: nat
  wp_await :: "nat option"

definition new_pool :: "('j, 'r) pool" where
  "new_pool = \<lparr>wp_ordered = [], wp_handed = None, wp_jobs = [], wp_busy = [], wp_results = Map.empty,
     wp_next = 0, wp_await = None\<rparr>"

text \<open>
  The operations on the channels; \<open>None\<close> says that the goroutine blocks.  First the
  dispatcher's two sends, then a worker that takes a job and one that delivers its result,
  then the caller's two receives.
\<close>

definition send_ordered :: "nat \<Rightarrow> 'j \<Rightarrow> ('j, 'r) pool \<Rightarrow> ('j, 'r) pool option" where
  "send_ordered cap j p =
     (if wp_handed p = None \<and> length (wp_ordered p) < cap
      then Some (p\<lparr>wp_ordered := wp_ordered p @ [wp_next p], wp_handed := Some (wp_next p, j),
        wp_next := Suc (wp_next p)\<rparr>)
      else None)"

definition send_job :: "nat \<Rightarrow> ('j, 'r) pool \<Rightarrow> ('j, 'r) pool option" where
  "send_job cap p =
     (case wp_handed p of
        Some x \<Rightarrow> if length (wp_jobs p) < cap then Some (p\<lparr>wp_jobs := wp_jobs p @ [x], wp_handed := None\<rparr>) else None
      | None \<Rightarrow> None)"

definition take_job :: "nat \<Rightarrow> ('j, 'r) pool \<Rightarrow> ('j, 'r) pool option" where
  "take_job workers p =
     (case wp_jobs p of
        x # js \<Rightarrow> if length (wp_busy p) < workers then Some (p\<lparr>wp_jobs := js, wp_busy := x # wp_busy p\<rparr>) else None
      | [] \<Rightarrow> None)"

definition deliver :: "('j \<Rightarrow> 'r) \<Rightarrow> nat \<Rightarrow> ('j, 'r) pool \<Rightarrow> ('j, 'r) pool option" where
  "deliver work n p =
     (if n < length (wp_busy p)
      then let (i, j) = wp_busy p ! n in
        Some (p\<lparr>wp_busy := take n (wp_busy p) @ drop (Suc n) (wp_busy p), wp_results := (wp_results p)(i \<mapsto> work j)\<rparr>)
      else None)"

definition receive_ordered :: "('j, 'r) pool \<Rightarrow> ('j, 'r) pool option" where
  "receive_ordered p =
     (case (wp_await p, wp_ordered p) of
        (None, i # is) \<Rightarrow> Some (p\<lparr>wp_ordered := is, wp_await := Some i\<rparr>)
      | _ \<Rightarrow> None)"

definition receive_result :: "('j, 'r) pool \<Rightarrow> ('r \<times> ('j, 'r) pool) option" where
  "receive_result p =
     (case wp_await p of
        None \<Rightarrow> None
      | Some i \<Rightarrow> (case wp_results p i of
          None \<Rightarrow> None
        | Some r \<Rightarrow> Some (r, p\<lparr>wp_await := None, wp_results := (wp_results p)(i := None)\<rparr>)))"

text \<open>The steps inside the pool: everything but a new job and a result leaving it.\<close>

inductive pool_step :: "nat \<Rightarrow> nat \<Rightarrow> ('j \<Rightarrow> 'r) \<Rightarrow> ('j, 'r) pool \<Rightarrow> ('j, 'r) pool \<Rightarrow> bool"
  for cap workers :: nat and work :: "'j \<Rightarrow> 'r" where
  job: "send_job cap p = Some p' \<Longrightarrow> pool_step cap workers work p p'"
| take: "take_job workers p = Some p' \<Longrightarrow> pool_step cap workers work p p'"
| deliver: "deliver work n p = Some p' \<Longrightarrow> pool_step cap workers work p p'"
| receive: "receive_ordered p = Some p' \<Longrightarrow> pool_step cap workers work p p'"

inductive_simps pool_step_simps: "pool_step cap workers work p p'"

section \<open>The invariant of the pool\<close>

definition await_list :: "('j, 'r) pool \<Rightarrow> nat list" where
  "await_list p = (case wp_await p of None \<Rightarrow> [] | Some i \<Rightarrow> [i])"

definition handed_list :: "('j, 'r) pool \<Rightarrow> (nat \<times> 'j) list" where
  "handed_list p = (case wp_handed p of None \<Rightarrow> [] | Some x \<Rightarrow> [x])"

definition open_ids :: "('j, 'r) pool \<Rightarrow> nat list" where
  "open_ids p = await_list p @ wp_ordered p"

definition owned :: "('j, 'r) pool \<Rightarrow> (nat \<times> 'j) list" where
  "owned p = handed_list p @ wp_jobs p @ wp_busy p"

text \<open>Every open result channel is filled or belongs to exactly one job on its way.\<close>

definition pool_ok :: "nat \<Rightarrow> nat \<Rightarrow> ('j, 'r) pool \<Rightarrow> bool" where
  "pool_ok cap workers p \<longleftrightarrow>
     distinct (open_ids p) \<and> (\<forall>i \<in> set (open_ids p). i < wp_next p)
     \<and> distinct (map fst (owned p)) \<and> fst ` set (owned p) \<inter> dom (wp_results p) = {}
     \<and> fst ` set (owned p) \<union> dom (wp_results p) = set (open_ids p)
     \<and> length (wp_ordered p) \<le> cap \<and> length (wp_jobs p) \<le> cap \<and> length (wp_busy p) \<le> workers"

text \<open>The results that the caller has still to receive, in order.\<close>

definition result_of :: "('j \<Rightarrow> 'r) \<Rightarrow> ('j, 'r) pool \<Rightarrow> nat \<Rightarrow> 'r" where
  "result_of work p i = (case wp_results p i of Some r \<Rightarrow> r | None \<Rightarrow> work (the (map_of (owned p) i)))"

definition pending :: "('j \<Rightarrow> 'r) \<Rightarrow> ('j, 'r) pool \<Rightarrow> 'r list" where
  "pending work p = map (result_of work p) (open_ids p)"

definition pool_weight :: "('j, 'r) pool \<Rightarrow> nat" where
  "pool_weight p = 3 * length (handed_list p) + 2 * length (wp_jobs p) + length (wp_busy p)
     + 2 * length (wp_ordered p) + length (await_list p)"

lemmas pool_defs = open_ids_def owned_def await_list_def handed_list_def

lemma new_pool_ok [simp]: "pool_ok cap workers new_pool" "pending work new_pool = []" "wp_handed new_pool = None"
  by (simp_all add: pool_ok_def pending_def new_pool_def pool_defs)

lemma result_of_cong:
  assumes "wp_results p' i = wp_results p i" and "map_of (owned p') i = map_of (owned p) i"
  shows "result_of work p' i = result_of work p i"
  using assms by (cases "wp_results p i") (simp_all add: result_of_def)

lemma send_ordered_ok:
  assumes "pool_ok cap workers p" and "send_ordered cap j p = Some p'"
  shows "pool_ok cap workers p'" and "pending work p' = pending work p @ [work j]"
    and "pool_weight p' = pool_weight p + 5"
proof -
  have p': "p' = p\<lparr>wp_ordered := wp_ordered p @ [wp_next p], wp_handed := Some (wp_next p, j), wp_next := Suc (wp_next p)\<rparr>"
    and g: "wp_handed p = None" "length (wp_ordered p) < cap"
    using assms(2) by (auto simp: send_ordered_def split: if_splits)
  have o: "open_ids p' = open_ids p @ [wp_next p]" "owned p' = (wp_next p, j) # owned p"
    using g by (simp_all add: p' pool_defs)
  have n: "wp_next p \<notin> set (open_ids p)" using assms(1) by (auto simp: pool_ok_def)
  then have f: "wp_next p \<notin> fst ` set (owned p)" "wp_next p \<notin> dom (wp_results p)"
    using assms(1) by (auto simp: pool_ok_def)
  have ok: "distinct (open_ids p)" "\<forall>i\<in>set (open_ids p). i < wp_next p" "distinct (map fst (owned p))"
    "fst ` set (owned p) \<inter> dom (wp_results p) = {}" "fst ` set (owned p) \<union> dom (wp_results p) = set (open_ids p)"
    "length (wp_ordered p) \<le> cap" "length (wp_jobs p) \<le> cap" "length (wp_busy p) \<le> workers"
    using assms(1) by (simp_all add: pool_ok_def)
  have "\<forall>i\<in>set (open_ids p'). i < wp_next p'" unfolding o(1) using ok(2) by (auto simp: p' intro: less_SucI)
  moreover have res: "wp_results p' = wp_results p" by (simp add: p')
  ultimately show "pool_ok cap workers p'"
    unfolding pool_ok_def using ok n f g by (simp add: o) (auto simp: p')
  have "result_of work p' i = result_of work p i" if "i \<in> set (open_ids p)" for i
    by (rule result_of_cong) (use that n in \<open>auto simp: o(2) res\<close>)
  moreover have "result_of work p' (wp_next p) = work j"
    using f(2) by (auto simp: result_of_def o(2) res split: option.splits)
  ultimately show "pending work p' = pending work p @ [work j]" by (simp add: pending_def o(1))
  show "pool_weight p' = pool_weight p + 5" using g by (simp add: pool_weight_def p' pool_defs)
qed

text \<open>A step inside the pool may only permute the jobs on their way or fill a channel.\<close>

lemma moved_ok:
  assumes "pool_ok cap workers p" and "open_ids p' = open_ids p" and "wp_next p' = wp_next p"
    and "wp_results p' = wp_results p" and "mset (owned p') = mset (owned p)"
    and "length (wp_ordered p') \<le> cap" "length (wp_jobs p') \<le> cap" "length (wp_busy p') \<le> workers"
  shows "pool_ok cap workers p' \<and> pending work p' = pending work p"
proof -
  have s: "set (owned p') = set (owned p)" using assms(5) by (rule mset_eq_setD)
  have "mset (map fst (owned p')) = mset (map fst (owned p))" using assms(5) by simp
  then have d: "distinct (map fst (owned p')) = distinct (map fst (owned p))" by (rule mset_eq_imp_distinct_iff)
  then have "distinct (map fst (owned p'))" "distinct (map fst (owned p))" using assms(1) by (simp_all add: pool_ok_def)
  then have "map_of (owned p') = map_of (owned p)" using s by (simp add: map_of_inject_set)
  then have "result_of work p' = result_of work p" using assms(4) by (intro ext result_of_cong) simp_all
  with assms s d show ?thesis by (simp add: pool_ok_def pending_def)
qed

lemma deliver_ok:
  assumes "pool_ok cap workers p" and "deliver work n p = Some p'"
  shows "pool_ok cap workers p' \<and> pending work p' = pending work p"
proof -
  obtain i j where n: "n < length (wp_busy p)" "wp_busy p ! n = (i, j)"
    and p': "p' = p\<lparr>wp_busy := take n (wp_busy p) @ drop (Suc n) (wp_busy p), wp_results := (wp_results p)(i \<mapsto> work j)\<rparr>"
    using assms(2) by (auto simp: deliver_def split: if_splits prod.splits)
  have b: "wp_busy p = take n (wp_busy p) @ (i, j) # drop (Suc n) (wp_busy p)" using n by (metis id_take_nth_drop)
  define pre post where "pre = handed_list p @ wp_jobs p @ take n (wp_busy p)" and "post = drop (Suc n) (wp_busy p)"
  have o: "owned p = pre @ (i, j) # post" "owned p' = pre @ post" "open_ids p' = open_ids p"
    using b by (auto simp: pool_defs pre_def post_def p')
  have ok: "distinct (open_ids p)" "\<forall>i\<in>set (open_ids p). i < wp_next p" "distinct (map fst (owned p))"
    "fst ` set (owned p) \<inter> dom (wp_results p) = {}" "fst ` set (owned p) \<union> dom (wp_results p) = set (open_ids p)"
    "length (wp_ordered p) \<le> cap" "length (wp_jobs p) \<le> cap" "length (wp_busy p) \<le> workers"
    using assms(1) by (simp_all add: pool_ok_def)
  have i: "i \<notin> fst ` set (pre @ post)" "i \<notin> dom (wp_results p)" "distinct (map fst (pre @ post))"
    using ok(3,4) by (auto simp: o(1))
  have r: "dom (wp_results p') = insert i (dom (wp_results p))" by (simp add: p')
  have "length (wp_busy p') \<le> workers" "wp_next p' = wp_next p" "wp_ordered p' = wp_ordered p" "wp_jobs p' = wp_jobs p"
    using ok(8) by (simp_all add: p')
  moreover have "fst ` set (owned p') \<inter> dom (wp_results p') = {}"
    using i ok(4) unfolding o r by auto
  moreover have "fst ` set (owned p') \<union> dom (wp_results p') = set (open_ids p)"
    using ok(5) unfolding o r by auto
  ultimately have "pool_ok cap workers p'"
    unfolding pool_ok_def using ok i(3) by (simp add: o)
  moreover have "result_of work p' x = result_of work p x" for x
  proof (cases "x = i")
    case True
    have "map_of (owned p) i = Some j" by (rule map_of_is_SomeI [OF ok(3)]) (simp add: o(1))
    with True i(2) show ?thesis by (auto simp: result_of_def p' split: option.splits)
  next
    case False
    have "map_of (owned p') x = map_of (owned p) x"
      unfolding o(1,2) using False by (simp add: map_add_def split: option.splits)
    with False show ?thesis by (intro result_of_cong) (simp_all add: p')
  qed
  then have "pending work p' = pending work p" by (simp add: pending_def o(3))
  ultimately show ?thesis by blast
qed

lemma pool_step_ok:
  assumes "pool_step cap workers work p p'" and "pool_ok cap workers p"
  shows "pool_ok cap workers p' \<and> pending work p' = pending work p"
  using assms
proof cases
  case job
  with assms(2) show ?thesis
    by (intro moved_ok) (auto simp: send_job_def pool_defs pool_ok_def split: option.splits if_splits)
next
  case take
  with assms(2) show ?thesis
    by (intro moved_ok) (auto simp: take_job_def pool_defs pool_ok_def split: list.splits option.splits if_splits)
next
  case (deliver n)
  with assms(2) show ?thesis by (simp add: deliver_ok)
next
  case receive
  with assms(2) show ?thesis
    by (intro moved_ok) (auto simp: receive_ordered_def pool_defs pool_ok_def split: list.splits option.splits)
qed

lemma pool_step_weight: "pool_step cap workers work p p' \<Longrightarrow> pool_weight p' < pool_weight p"
  by (auto simp: pool_step_simps send_job_def take_job_def deliver_def receive_ordered_def pool_weight_def
      pool_defs Let_def split: list.splits option.splits if_splits prod.splits)

lemma pool_step_handed: "pool_step cap workers work p p' \<Longrightarrow> wp_handed p = None \<Longrightarrow> wp_handed p' = None"
  by (auto simp: pool_step_simps send_job_def take_job_def deliver_def receive_ordered_def
      Let_def split: list.splits option.splits if_splits prod.splits)

lemma receive_result_ok:
  assumes "pool_ok cap workers p" and "receive_result p = Some (r, p')"
  shows "pool_ok cap workers p'" and "pending work p = r # pending work p'"
    and "pool_weight p' < pool_weight p" and "wp_handed p' = wp_handed p"
proof -
  obtain i where i: "wp_await p = Some i" "wp_results p i = Some r"
    and p': "p' = p\<lparr>wp_await := None, wp_results := (wp_results p)(i := None)\<rparr>"
    using assms(2) by (auto simp: receive_result_def split: option.splits)
  have o: "open_ids p = i # open_ids p'" "owned p' = owned p" using i(1) by (auto simp: p' pool_defs)
  have ok: "distinct (open_ids p)" "\<forall>i\<in>set (open_ids p). i < wp_next p" "distinct (map fst (owned p))"
    "fst ` set (owned p) \<inter> dom (wp_results p) = {}" "fst ` set (owned p) \<union> dom (wp_results p) = set (open_ids p)"
    "length (wp_ordered p) \<le> cap" "length (wp_jobs p) \<le> cap" "length (wp_busy p) \<le> workers"
    using assms(1) by (simp_all add: pool_ok_def)
  have "i \<notin> fst ` set (owned p)" using i(2) ok(4) by auto
  moreover have "dom (wp_results p') = dom (wp_results p) - {i}" by (auto simp: p')
  moreover have "wp_next p' = wp_next p" "wp_ordered p' = wp_ordered p" "wp_jobs p' = wp_jobs p" "wp_busy p' = wp_busy p"
    by (simp_all add: p')
  moreover have "i \<notin> set (open_ids p')" "distinct (open_ids p')" using ok(1) by (simp_all add: o)
  ultimately show "pool_ok cap workers p'"
    unfolding pool_ok_def using ok by (auto simp: o)
  have "result_of work p' x = result_of work p x" if "x \<in> set (open_ids p')" for x
  proof (rule result_of_cong)
    have "x \<noteq> i" using that \<open>i \<notin> set (open_ids p')\<close> by auto
    then show "wp_results p' x = wp_results p x" by (simp add: p')
  qed (simp only: o(2))
  then show "pending work p = r # pending work p'"
    using i(2) by (simp add: pending_def o(1)) (simp add: result_of_def)
  show "pool_weight p' < pool_weight p" "wp_handed p' = wp_handed p"
    using i(1) by (simp_all add: p' pool_weight_def pool_defs)
qed

text \<open>
  Progress: as long as a result is pending, a step inside the pool or a receive is possible,
  without any help of the dispatcher.
\<close>

lemma pool_progress:
  assumes "pool_ok cap workers p" and "pending work p \<noteq> []" and "0 < workers" and "0 < cap"
  shows "(\<exists>p'. pool_step cap workers work p p') \<or> (\<exists>r p'. receive_result p = Some (r, p'))"
proof -
  consider (busy) "wp_busy p \<noteq> []" | (jobs) "wp_busy p = []" "wp_jobs p \<noteq> []"
    | (handed) x where "wp_busy p = []" "wp_jobs p = []" "wp_handed p = Some x"
    | (idle) "owned p = []"
    by (cases "wp_handed p") (auto simp: pool_defs)
  then show ?thesis
  proof cases
    case busy
    then obtain p' where "deliver work 0 p = Some p'" by (cases "wp_busy p ! 0") (auto simp: deliver_def)
    then show ?thesis by (blast intro: pool_step.deliver)
  next
    case jobs
    then obtain p' where "take_job workers p = Some p'" using assms(3) by (auto simp: take_job_def neq_Nil_conv)
    then show ?thesis by (blast intro: pool_step.take)
  next
    case handed
    then obtain p' where "send_job cap p = Some p'" using assms(4) by (auto simp: send_job_def)
    then show ?thesis by (blast intro: pool_step.job)
  next
    case idle
    then have d: "dom (wp_results p) = set (open_ids p)" using assms(1) by (simp add: pool_ok_def)
    show ?thesis
    proof (cases "wp_await p")
      case None
      then obtain p' where "receive_ordered p = Some p'"
        using assms(2) by (auto simp: receive_ordered_def pending_def pool_defs neq_Nil_conv)
      then show ?thesis by (blast intro: pool_step.receive)
    next
      case (Some i)
      then have "i \<in> dom (wp_results p)" by (simp add: d pool_defs)
      with Some show ?thesis by (auto simp: receive_result_def)
    qed
  qed
qed

lemma pool_quiet:
  assumes "pool_ok cap workers p" and "pending work p = []"
  shows "wp_handed p = None" "wp_jobs p = []" "wp_busy p = []"
  using assms by (auto simp: pool_ok_def pending_def pool_defs split: option.splits)

lemma pool_bound: "pool_ok cap workers p \<Longrightarrow> length (pending work p) \<le> cap + 1"
  by (auto simp: pool_ok_def pending_def pool_defs split: option.splits)

lemma send_ordered_enabled:
  assumes "wp_handed p = None" and "length (wp_ordered p) < cap" shows "\<exists>p'. send_ordered cap j p = Some p'"
  using assms by (simp add: send_ordered_def)

end
