(* ===== verification/Decrypt_Pipeline.thy ===== *)
theory Decrypt_Pipeline
  imports Block_Reader Worker_Pool
begin

text \<open>
  \<^verbatim>\<open>decryptBlocksParallel\<close> (\<^verbatim>\<open>io/decrypt_pipeline.go\<close>) as a step relation: a dispatcher goroutine
  reads the block framing and hands out the blocks, worker goroutines open them, and the
  caller passes the plaintexts to the sink in order.  Any interleaving ends, and ends with
  what the sequential loop of \<open>Block_Reader\<close> does.
\<close>

section \<open>The goroutines\<close>

definition decryptPipelineDepth :: nat where
  "decryptPipelineDepth = 4"

type_synonym decryptResult = "block_error + bytes"

text \<open>
  \<open>dr_block\<close> is the block the dispatcher has read and is about to dispatch; \<open>dr_closed\<close> says
  that it closed its channels; \<open>dr_readErr\<close> is what it left in \<^verbatim>\<open>readErrCh\<close> and in the variable
  \<^verbatim>\<open>readErr\<close> that \<^verbatim>\<open>next\<close> sets.
\<close>

record 'k decryptRun =
  dr_stream :: stream
  dr_block :: "EncryptedBlock option"
  dr_closed :: bool
  dr_readErr :: "ArchiveError option"
  dr_pool :: "(EncryptedBlock, decryptResult) pool"
  dr_firstErr :: "block_error option"
  dr_k :: 'k

definition decrypt_start :: "'k \<Rightarrow> stream \<Rightarrow> 'k decryptRun" where
  "decrypt_start k s = \<lparr>dr_stream = s, dr_block = None, dr_closed = False, dr_readErr = None,
     dr_pool = new_pool, dr_firstErr = None, dr_k = k\<rparr>"

text \<open>What the caller does with a result it received.\<close>

fun drain_result :: "'k blockSink \<Rightarrow> decryptResult \<Rightarrow> block_error option \<times> 'k \<Rightarrow> block_error option \<times> 'k" where
  "drain_result sink res (Some e, k) = (Some e, k)"
| "drain_result sink (Inl e) (None, k) = (Some e, k)"
| "drain_result sink (Inr pt) (None, k) =
     (case sink pt k of (None, k) \<Rightarrow> (None, k) | (Some e, k) \<Rightarrow> (Some (SinkError e), k))"

inductive decrypt_step :: "blockOpener \<Rightarrow> 'k blockSink \<Rightarrow> nat \<Rightarrow> 'k decryptRun \<Rightarrow> 'k decryptRun \<Rightarrow> bool"
  for em :: blockOpener and sink :: "'k blockSink" and workers :: nat where
  next_ok: "\<lbrakk>\<not> dr_closed st; dr_block st = None; wp_handed (dr_pool st) = None;
      next_block (dr_stream st) = (NBlock nonce ct, s)\<rbrakk>
    \<Longrightarrow> decrypt_step em sink workers st
          (st\<lparr>dr_stream := s, dr_block := Some \<lparr>eb_Nonce = nonce, eb_Ciphertext = ct\<rparr>\<rparr>)"
| next_end: "\<lbrakk>\<not> dr_closed st; dr_block st = None; wp_handed (dr_pool st) = None;
      next_block (dr_stream st) = (NEnd, s)\<rbrakk>
    \<Longrightarrow> decrypt_step em sink workers st (st\<lparr>dr_stream := s, dr_closed := True\<rparr>)"
| next_err: "\<lbrakk>\<not> dr_closed st; dr_block st = None; wp_handed (dr_pool st) = None;
      next_block (dr_stream st) = (NErr e, s)\<rbrakk>
    \<Longrightarrow> decrypt_step em sink workers st (st\<lparr>dr_stream := s, dr_closed := True, dr_readErr := Some e\<rparr>)"
| dispatch: "\<lbrakk>dr_block st = Some b; send_ordered (workers * decryptPipelineDepth) b (dr_pool st) = Some p\<rbrakk>
    \<Longrightarrow> decrypt_step em sink workers st (st\<lparr>dr_block := None, dr_pool := p\<rparr>)"
| inside: "pool_step (workers * decryptPipelineDepth) workers em (dr_pool st) p
    \<Longrightarrow> decrypt_step em sink workers st (st\<lparr>dr_pool := p\<rparr>)"
| drain: "\<lbrakk>receive_result (dr_pool st) = Some (res, p); drain_result sink res (dr_firstErr st, dr_k st) = (err, k)\<rbrakk>
    \<Longrightarrow> decrypt_step em sink workers st (st\<lparr>dr_pool := p, dr_firstErr := err, dr_k := k\<rparr>)"

text \<open>
  The caller returns once \<^verbatim>\<open>ordered\<close> is closed and drained and all workers have left, with the
  first failure, or else the dispatcher's error.  \<^verbatim>\<open>streamDataBlocks\<close> then reports a framing
  error before any other.
\<close>

definition decrypt_done :: "'k decryptRun \<Rightarrow> bool" where
  "decrypt_done st \<longleftrightarrow> dr_closed st \<and> wp_ordered (dr_pool st) = [] \<and> wp_await (dr_pool st) = None
     \<and> wp_jobs (dr_pool st) = [] \<and> wp_busy (dr_pool st) = []"

definition parallel_error :: "'k decryptRun \<Rightarrow> block_error option" where
  "parallel_error st =
     (if dr_firstErr st \<noteq> None then dr_firstErr st else map_option ReadError (dr_readErr st))"

definition stream_outcome :: "ArchiveError option \<Rightarrow> block_error option \<Rightarrow> unit outcome" where
  "stream_outcome readErr err =
     (case err of
        None \<Rightarrow> Val ()
      | Some _ \<Rightarrow> (case readErr of Some e \<Rightarrow> Fail e | None \<Rightarrow> stream_error err))"

section \<open>Every run is a run of the sequential loop\<close>

definition decrypt_inv :: "nat \<Rightarrow> 'k decryptRun \<Rightarrow> bool" where
  "decrypt_inv workers st \<longleftrightarrow> pool_ok (workers * decryptPipelineDepth) workers (dr_pool st)
     \<and> (dr_closed st \<longrightarrow> dr_block st = None \<and> wp_handed (dr_pool st) = None)
     \<and> (dr_block st \<noteq> None \<longrightarrow> wp_handed (dr_pool st) = None)
     \<and> (dr_readErr st \<noteq> None \<longrightarrow> dr_closed st)"

definition in_flight :: "blockOpener \<Rightarrow> 'k decryptRun \<Rightarrow> decryptResult list" where
  "in_flight em st = pending em (dr_pool st) @ (case dr_block st of None \<Rightarrow> [] | Some b \<Rightarrow> [em b])"

text \<open>What is left to do from a state, done one block after the other.\<close>

definition decrypt_rest :: "blockOpener \<Rightarrow> 'k blockSink \<Rightarrow> 'k decryptRun \<Rightarrow> block_error option \<times> 'k \<times> stream" where
  "decrypt_rest em sink st =
     (case fold (drain_result sink) (in_flight em st) (dr_firstErr st, dr_k st) of
        (err, k) \<Rightarrow>
          if dr_closed st
          then (if dr_readErr st \<noteq> None then map_option ReadError (dr_readErr st) else err, k, dr_stream st)
          else decryptBlocksSequential em sink err k (dr_stream st))"

definition decrypt_weight :: "'k decryptRun \<Rightarrow> nat" where
  "decrypt_weight st = 7 * length (s_bytes (dr_stream st)) + (if dr_closed st then 0 else 1)
     + (if dr_block st = None then 0 else 6) + pool_weight (dr_pool st)"

lemma sequential_block:
  "next_block s = (NBlock nonce ct, s') \<Longrightarrow> decryptBlocksSequential em sink err k s =
     (case drain_result sink (em \<lparr>eb_Nonce = nonce, eb_Ciphertext = ct\<rparr>) (err, k) of
        (err, k) \<Rightarrow> decryptBlocksSequential em sink err k s')"
  by (cases err; cases "em \<lparr>eb_Nonce = nonce, eb_Ciphertext = ct\<rparr>")
    (auto simp: decryptBlocksSequential.simps [of em sink _ k s] sink_block_def split: prod.splits option.splits)

lemma decrypt_inv_pool: "decrypt_inv workers st \<Longrightarrow> pool_ok (workers * decryptPipelineDepth) workers (dr_pool st)"
  by (simp add: decrypt_inv_def)

lemma step_keeps_inv:
  assumes "decrypt_inv workers st" and "decrypt_step em sink workers st st'"
  shows "decrypt_inv workers st'"
proof -
  note ok = decrypt_inv_pool [OF assms(1)]
  from assms(2) show ?thesis
  proof cases
    case (dispatch b p)
    with assms(1) show ?thesis using send_ordered_ok(1) [OF ok dispatch(3)] by (auto simp: decrypt_inv_def)
  next
    case (inside p)
    with assms(1) show ?thesis
      using pool_step_ok [OF inside(2) ok] pool_step_handed [OF inside(2)] by (simp add: decrypt_inv_def)
  next
    case (drain res p err k)
    with assms(1) show ?thesis using receive_result_ok [OF ok drain(2)] by (simp add: decrypt_inv_def)
  qed (use assms(1) in \<open>simp_all add: decrypt_inv_def\<close>)
qed

lemma step_loses_weight:
  assumes "decrypt_inv workers st" and "decrypt_step em sink workers st st'"
  shows "decrypt_weight st' < decrypt_weight st"
  using assms(2)
proof cases
  case (next_ok nonce ct s)
  then show ?thesis using next_block_shorter [OF next_ok(5)] by (simp add: decrypt_weight_def)
next
  case (next_end s)
  then show ?thesis using later_le [OF next_block_later [OF next_end(5)]] by (simp add: decrypt_weight_def)
next
  case (next_err e s)
  then show ?thesis using later_le [OF next_block_later [OF next_err(5)]] by (simp add: decrypt_weight_def)
next
  case (dispatch b p)
  then show ?thesis
    using send_ordered_ok(3) [OF decrypt_inv_pool [OF assms(1)] dispatch(3)] by (simp add: decrypt_weight_def)
next
  case (inside p)
  then show ?thesis using pool_step_weight [OF inside(2)] by (simp add: decrypt_weight_def)
next
  case (drain res p err k)
  then show ?thesis
    using receive_result_ok(3) [OF decrypt_inv_pool [OF assms(1)] drain(2)] by (simp add: decrypt_weight_def)
qed

lemma step_keeps_rest:
  assumes "decrypt_inv workers st" and "decrypt_step em sink workers st st'"
  shows "decrypt_rest em sink st' = decrypt_rest em sink st"
  using assms(2)
proof cases
  case (next_ok nonce ct s)
  then show ?thesis by (simp add: decrypt_rest_def in_flight_def sequential_block [OF next_ok(5)] split: prod.splits)
next
  case (next_end s)
  moreover have "dr_readErr st = None" using assms(1) next_end(2) by (auto simp: decrypt_inv_def)
  ultimately show ?thesis
    by (simp add: decrypt_rest_def in_flight_def decryptBlocksSequential.simps [of em sink _ _ "dr_stream st"] split: prod.splits)
next
  case (next_err e s)
  then show ?thesis
    by (simp add: decrypt_rest_def in_flight_def decryptBlocksSequential.simps [of em sink _ _ "dr_stream st"] split: prod.splits)
next
  case (dispatch b p)
  then have "in_flight em st' = in_flight em st"
    using send_ordered_ok(2) [OF decrypt_inv_pool [OF assms(1)] dispatch(3)] by (simp add: in_flight_def)
  with dispatch show ?thesis by (auto simp: decrypt_rest_def split: prod.splits)
next
  case (inside p)
  then have "in_flight em st' = in_flight em st"
    using pool_step_ok [OF inside(2) decrypt_inv_pool [OF assms(1)]] by (simp add: in_flight_def)
  with inside show ?thesis by (auto simp: decrypt_rest_def split: prod.splits)
next
  case (drain res p err k)
  then have "in_flight em st = res # in_flight em st'"
    using receive_result_ok(2) [OF decrypt_inv_pool [OF assms(1)] drain(2)] by (simp add: in_flight_def)
  with drain show ?thesis by (auto simp: decrypt_rest_def split: prod.splits)
qed

lemma step_possible:
  assumes inv: "decrypt_inv workers st" and "\<not> decrypt_done st" and w: "0 < workers"
  shows "\<exists>st'. decrypt_step em sink workers st st'"
proof -
  have ok: "pool_ok (workers * decryptPipelineDepth) workers (dr_pool st)" using inv by (simp add: decrypt_inv_def)
  have c: "0 < workers * decryptPipelineDepth" using w by (simp add: decryptPipelineDepth_def)
  show ?thesis
  proof (cases "pending em (dr_pool st) = []")
    case False
    from pool_progress [OF ok False w c] show ?thesis
      by (metis decrypt_step.inside decrypt_step.drain surj_pair)
  next
    case True
    note q = pool_quiet [OF ok True]
    have e: "wp_ordered (dr_pool st) = []" "wp_await (dr_pool st) = None"
      using True by (auto simp: pending_def pool_defs split: option.splits)
    then have nc: "\<not> dr_closed st" using assms(2) q by (simp add: decrypt_done_def)
    show ?thesis
    proof (cases "dr_block st")
      case (Some b)
      then show ?thesis
        using send_ordered_enabled [OF q(1), of "workers * decryptPipelineDepth" b] e c by (auto intro: decrypt_step.dispatch)
    next
      case None
      obtain r s where "next_block (dr_stream st) = (r, s)" by force
      with None nc q(1) show ?thesis by (cases r) (auto intro: decrypt_step.intros(1-3))
    qed
  qed
qed

interpretation decrypting: running_system "decrypt_step em sink (Suc w)" "decrypt_inv (Suc w)" decrypt_weight
    "decrypt_rest em sink" decrypt_done for em sink w
  by unfold_locales (simp_all add: step_keeps_inv step_loses_weight step_keeps_rest step_possible)

lemma decrypt_start_inv [simp]: "decrypt_inv workers (decrypt_start k s)"
  by (simp add: decrypt_inv_def decrypt_start_def)

lemma decrypt_start_rest: "decrypt_rest em sink (decrypt_start k s) = decryptBlocksSequential em sink None k s"
  by (simp add: decrypt_rest_def decrypt_start_def in_flight_def)

lemma decrypt_done_rest:
  assumes "decrypt_inv workers st" and "decrypt_done st"
  shows "decrypt_rest em sink st =
    (if dr_readErr st \<noteq> None then map_option ReadError (dr_readErr st) else dr_firstErr st, dr_k st, dr_stream st)"
  using assms by (simp add: decrypt_rest_def in_flight_def pending_def pool_defs decrypt_done_def decrypt_inv_def)


text \<open>
  C19: the pipeline neither deadlocks nor runs forever.  From every state that it can reach, a
  return is reachable; in every state in which it has not returned some goroutine can
  move; and no run is infinite.
\<close>

theorem parallel_decrypt_returns:
  assumes "0 < workers" and "(decrypt_step em sink workers)\<^sup>*\<^sup>* (decrypt_start k s) st"
  shows "(\<exists>st'. (decrypt_step em sink workers)\<^sup>*\<^sup>* st st' \<and> decrypt_done st')
    \<and> (decrypt_done st \<or> (\<exists>st'. decrypt_step em sink workers st st'))
    \<and> \<not> (\<exists>f. f 0 = st \<and> (\<forall>i. decrypt_step em sink workers (f i) (f (Suc i))))"
proof -
  obtain w where w: "workers = Suc w" using assms(1) by (cases workers) auto
  show ?thesis using decrypting.runs_well [OF assms(2) [unfolded w] decrypt_start_inv] unfolding w .
qed

text \<open>
  Memory stays bounded.  In every reachable state at most four blocks per worker are
  queued for the caller; counting the one it waits for and the one that the dispatcher is
  about to send, at most \<open>4 * workers + 2\<close> blocks are in memory, whatever the size of the file.
\<close>

lemma parallel_decrypt_bounded:
  assumes "0 < workers" and "(decrypt_step em sink workers)\<^sup>*\<^sup>* (decrypt_start k s) st"
  shows "length (wp_ordered (dr_pool st)) \<le> 4 * workers \<and> length (in_flight em st) \<le> 4 * workers + 2"
proof -
  obtain w where w: "workers = Suc w" using assms(1) by (cases workers) auto
  have "decrypt_inv (Suc w) st" by (rule decrypting.run_inv [OF assms(2) [unfolded w]]) simp
  then have ok: "pool_ok (workers * 4) workers (dr_pool st)"
    unfolding w by (simp add: decrypt_inv_def decryptPipelineDepth_def)
  have "length (wp_ordered (dr_pool st)) \<le> workers * 4" using ok by (simp add: pool_ok_def)
  moreover have "length (pending em (dr_pool st)) \<le> workers * 4 + 1" by (rule pool_bound [OF ok])
  ultimately show ?thesis by (auto simp: in_flight_def split: option.splits)
qed

section \<open>A concrete run\<close>

definition sample_blocks :: stream where
  "sample_blocks = Stream (replicate 12 0 @ [17, 0, 0, 0] @ replicate 17 7 @ replicate 12 0 @ [0, 0, 0, 0] @ [9]) EOF"

definition length_opener :: blockOpener where
  "length_opener b = Inr (map (\<lambda>_. 1) (eb_Ciphertext b))"

definition collect :: "bytes blockSink" where
  "collect pt out = (None, out @ pt)"

lemma sample_sequential:
  "decryptBlocksSequential length_opener collect None [] sample_blocks = (None, replicate 17 1, Stream [9] EOF)"
proof -
  have n: "NonceSize = 12" "(word_le 4 [17, 0, 0, 0] :: u32) = 17" "(word_le 4 [0, 0, 0, 0] :: u32) = 0"
    by (simp_all add: NonceSize_def) code_simp+
  have "maxBlockCiphertext \<ge> 17" by (simp add: maxBlockCiphertext_def GCMTagSize_def MaxPayloadSize_def MaxChunkSize_eq)
  then show ?thesis
    by (simp add: decryptBlocksSequential.simps [of _ _ _ _ "Stream _ _"] next_block_def sample_blocks_def sReadFull_def n Let_def
        sink_block_def length_opener_def collect_def)
qed


theorem parallel_decrypt_returns_witness:
  "\<exists>st. (decrypt_step length_opener collect 2)\<^sup>*\<^sup>* (decrypt_start [] sample_blocks) st \<and> decrypt_done st"
  using parallel_decrypt_returns [of 2 length_opener collect "[]" sample_blocks, OF _ rtranclp.rtrancl_refl] by simp

theorem parallel_decrypt_bounded_witness:
  "length (in_flight length_opener (decrypt_start ([] :: bytes) sample_blocks)) \<le> 4 * 2 + 2"
  using parallel_decrypt_bounded [of 2 length_opener collect "[]" sample_blocks, OF _ rtranclp.rtrancl_refl] by simp

end
