(* ===== verification/Keywrap.thy ===== *)
theory Keywrap
  imports Crypto
begin

text \<open>
  Wrapping the content-encryption key for a credential: passwords and age recipients
  (\<^verbatim>\<open>crypto/cek.go\<close>), key files and key files with a password (\<^verbatim>\<open>crypto/keyfile.go\<close>).
\<close>

definition MinPasswordIterations :: nat where "MinPasswordIterations = PBKDF2Iter"
definition MaxPasswordIterations :: nat where "MaxPasswordIterations = 10000000"
definition passwordWrapAAD :: bytes where "passwordWrapAAD = str ''sarc password recipient''"
definition MinKeyFileSize :: nat where "MinKeyFileSize = KeySize"
definition MaxKeyFileSize :: nat where "MaxKeyFileSize = 1048576"
definition keyFileWrapLabel :: bytes where "keyFileWrapLabel = str ''sarc key file recipient''"
definition keyFilePasswordWrapLabel :: bytes where
  "keyFilePasswordWrapLabel = str ''sarc key file and password recipient''"

lemmas iteration_limits = MinPasswordIterations_def MaxPasswordIterations_def PBKDF2Iter_def

record PasswordWrap =
  pw_Iterations :: u32
  pw_Salt :: bytes
  pw_Nonce :: bytes
  pw_Sealed :: bytes

record KeyFileWrap =
  kw_Salt :: bytes
  kw_Nonce :: bytes
  kw_Sealed :: bytes

section \<open>Password wraps\<close>

definition GenerateCEK :: "bytes \<Rightarrow> (bytes \<times> bytes) res" where
  "GenerateCEK rnd = wrapR ''crypto/cek: generate'' (ReadFull KeySize rnd)"

definition randomSaltAndNonce :: "bytes \<Rightarrow> (bytes \<times> bytes \<times> bytes) res" where
  "randomSaltAndNonce rnd =
     bindR (wrapR ''crypto/cek: generate salt'' (ReadFull SaltSize rnd)) (\<lambda>(salt, rnd).
     bindR (wrapR ''crypto/cek: generate nonce'' (ReadFull NonceSize rnd)) (\<lambda>(nonce, rnd).
       Ok (salt, nonce, rnd)))"

definition stretchPassword :: "prims \<Rightarrow> bytes \<Rightarrow> bytes \<Rightarrow> u32 \<Rightarrow> bytes" where
  "stretchPassword P password salt iterations = pbkdf2 P password salt (unat iterations) KeySize"

text \<open>An AEAD for wrapping is its key-encryption key.\<close>

definition newWrapAEAD :: "bytes \<Rightarrow> bytes res" where
  "newWrapAEAD kek =
     (if length kek = 16 \<or> length kek = 24 \<or> length kek = 32 then Ok kek
      else Err (Wrap ''crypto/cek: new cipher'' (Errorf ''invalid key size'')))"

definition passwordAEAD :: "prims \<Rightarrow> bytes \<Rightarrow> bytes \<Rightarrow> u32 \<Rightarrow> bytes res" where
  "passwordAEAD P password salt iterations = newWrapAEAD (stretchPassword P password salt iterations)"

text \<open>
  \<^verbatim>\<open>Seal(arr[:0], ...)\<close> and \<^verbatim>\<open>Open(arr[:0], ...)\<close> write into the array \<^verbatim>\<open>arr\<close> when the output
  fits its capacity; a longer output is allocated elsewhere and the array stays zero.
\<close>

definition into_array :: "nat \<Rightarrow> bytes \<Rightarrow> bytes" where
  "into_array n out = (if length out \<le> n then to_array n out else replicate n 0)"

definition WrapCEKWithPassword :: "prims \<Rightarrow> bytes \<Rightarrow> bytes \<Rightarrow> bytes \<Rightarrow> (PasswordWrap \<times> bytes) res" where
  "WrapCEKWithPassword P cek password rnd =
     bindR (randomSaltAndNonce rnd) (\<lambda>(salt, nonce, rnd).
     let it = word_of_nat MinPasswordIterations in
     bindR (passwordAEAD P password salt it) (\<lambda>kek.
       Ok (\<lparr>pw_Iterations = it, pw_Salt = salt, pw_Nonce = nonce,
            pw_Sealed = into_array (KeySize + GCMTagSize) (gcm_seal P kek nonce cek passwordWrapAAD)\<rparr>,
           rnd)))"

definition UnwrapCEKWithPassword :: "prims \<Rightarrow> PasswordWrap \<Rightarrow> bytes \<Rightarrow> bytes res" where
  "UnwrapCEKWithPassword P w password =
     (if unat (pw_Iterations w) < MinPasswordIterations \<or> MaxPasswordIterations < unat (pw_Iterations w)
      then Err (Errorf ''crypto/cek: password wrap iterations out of range'')
      else bindR (passwordAEAD P password (pw_Salt w) (pw_Iterations w)) (\<lambda>kek.
        case gcm_open P kek (pw_Nonce w) (pw_Sealed w) passwordWrapAAD of
          None \<Rightarrow> Err ErrWrongCredential
        | Some pt \<Rightarrow> Ok (into_array KeySize pt)))"

section \<open>Key file wraps\<close>

definition CheckKeyFileSize :: "bytes \<Rightarrow> unit res" where
  "CheckKeyFileSize key =
     (if length key < MinKeyFileSize \<or> MaxKeyFileSize < length key then Err ErrKeyFileSize else Ok ())"

definition keyFileAEAD :: "prims \<Rightarrow> bytes \<Rightarrow> bytes \<Rightarrow> bytes res" where
  "keyFileAEAD P key salt =
     bindR (wrapR ''crypto/keyfile: hkdf'' (hkdf_key P key salt keyFileWrapLabel KeySize)) newWrapAEAD"

definition keyFilePasswordAEAD :: "prims \<Rightarrow> bytes \<Rightarrow> bytes \<Rightarrow> bytes \<Rightarrow> bytes res" where
  "keyFilePasswordAEAD P stretched key salt =
     bindR (wrapR ''crypto/keyfile: hkdf''
              (hkdf_key P (stretched @ key) salt keyFilePasswordWrapLabel KeySize)) newWrapAEAD"

definition openWrappedCEK :: "prims \<Rightarrow> bytes \<Rightarrow> bytes \<Rightarrow> bytes \<Rightarrow> bytes \<Rightarrow> bytes option" where
  "openWrappedCEK P kek nonce sealed label =
     (case gcm_open P kek nonce sealed label of
        None \<Rightarrow> None | Some pt \<Rightarrow> Some (into_array KeySize pt))"

definition WrapCEKWithKeyFile :: "prims \<Rightarrow> bytes \<Rightarrow> bytes \<Rightarrow> bytes \<Rightarrow> (KeyFileWrap \<times> bytes) res" where
  "WrapCEKWithKeyFile P cek key rnd =
     bindR (CheckKeyFileSize key) (\<lambda>_.
     bindR (randomSaltAndNonce rnd) (\<lambda>(salt, nonce, rnd).
     bindR (keyFileAEAD P key salt) (\<lambda>kek.
       Ok (\<lparr>kw_Salt = salt, kw_Nonce = nonce,
            kw_Sealed = into_array (KeySize + GCMTagSize) (gcm_seal P kek nonce cek keyFileWrapLabel)\<rparr>,
           rnd))))"

fun UnwrapCEKWithKeyFile :: "prims \<Rightarrow> KeyFileWrap \<Rightarrow> bytes list \<Rightarrow> bytes res" where
  "UnwrapCEKWithKeyFile P w [] = Err ErrWrongCredential"
| "UnwrapCEKWithKeyFile P w (key # keys) =
     (if CheckKeyFileSize key \<noteq> Ok () then UnwrapCEKWithKeyFile P w keys
      else bindR (keyFileAEAD P key (kw_Salt w)) (\<lambda>kek.
        case openWrappedCEK P kek (kw_Nonce w) (kw_Sealed w) keyFileWrapLabel of
          Some cek \<Rightarrow> Ok cek | None \<Rightarrow> UnwrapCEKWithKeyFile P w keys))"

definition WrapCEKWithKeyFileAndPassword ::
  "prims \<Rightarrow> bytes \<Rightarrow> bytes \<Rightarrow> bytes \<Rightarrow> bytes \<Rightarrow> (PasswordWrap \<times> bytes) res" where
  "WrapCEKWithKeyFileAndPassword P cek key password rnd =
     bindR (CheckKeyFileSize key) (\<lambda>_.
     if password = [] then Err (Errorf ''crypto/keyfile: empty password'')
     else bindR (randomSaltAndNonce rnd) (\<lambda>(salt, nonce, rnd).
     let it = word_of_nat MinPasswordIterations in
     bindR (keyFilePasswordAEAD P (stretchPassword P password salt it) key salt) (\<lambda>kek.
       Ok (\<lparr>pw_Iterations = it, pw_Salt = salt, pw_Nonce = nonce,
            pw_Sealed = into_array (KeySize + GCMTagSize)
              (gcm_seal P kek nonce cek keyFilePasswordWrapLabel)\<rparr>,
           rnd))))"

fun tryKeyFilesWithPassword :: "prims \<Rightarrow> PasswordWrap \<Rightarrow> bytes \<Rightarrow> bytes list \<Rightarrow> bytes res" where
  "tryKeyFilesWithPassword P w stretched [] = Err ErrWrongCredential"
| "tryKeyFilesWithPassword P w stretched (key # keys) =
     (if CheckKeyFileSize key \<noteq> Ok () then tryKeyFilesWithPassword P w stretched keys
      else bindR (keyFilePasswordAEAD P stretched key (pw_Salt w)) (\<lambda>kek.
        case openWrappedCEK P kek (pw_Nonce w) (pw_Sealed w) keyFilePasswordWrapLabel of
          Some cek \<Rightarrow> Ok cek | None \<Rightarrow> tryKeyFilesWithPassword P w stretched keys))"

definition UnwrapCEKWithKeyFileAndPassword ::
  "prims \<Rightarrow> PasswordWrap \<Rightarrow> bytes list \<Rightarrow> bytes \<Rightarrow> bytes res" where
  "UnwrapCEKWithKeyFileAndPassword P w keys password =
     (if unat (pw_Iterations w) < MinPasswordIterations \<or> MaxPasswordIterations < unat (pw_Iterations w)
      then Err (Errorf ''crypto/keyfile: wrap iterations out of range'')
      else if password = [] \<or> keys = [] then Err ErrWrongCredential
      else tryKeyFilesWithPassword P w (stretchPassword P password (pw_Salt w) (pw_Iterations w)) keys)"

section \<open>age recipients\<close>

text \<open>
  The package \<^verbatim>\<open>filippo.io/age\<close> is a parameter.  Decrypting reports how it ended and, in
  order, the identities whose \<^verbatim>\<open>Unwrap\<close> failed with what error: the code observes them
  through the wrapper \<^verbatim>\<open>recordingIdentity\<close>.
\<close>

datatype unwrap_error = ErrIncorrectIdentity | UnwrapFailed string

datatype age_result =
    AgePlaintext bytes \<comment> \<open>decrypted; the payload the reader delivers\<close>
  | AgeReadFailed string \<comment> \<open>decrypted; reading the payload fails\<close>
  | NoIdentityMatchError
  | AgeError string

record ('r, 'i) age =
  age_Encrypt :: "'r list \<Rightarrow> bytes \<Rightarrow> bytes res"
  age_Decrypt :: "bytes \<Rightarrow> 'i list \<Rightarrow> age_result \<times> ('i \<times> unwrap_error) list"
  age_native :: "'i \<Rightarrow> bool"

definition WrapCEKForAge :: "('r, 'i) age \<Rightarrow> bytes \<Rightarrow> 'r list \<Rightarrow> bytes res" where
  "WrapCEKForAge A cek recipients =
     (if recipients = [] then Err (Errorf ''crypto/cek: no age recipients'')
      else wrapR ''crypto/cek: age encrypt'' (age_Encrypt A recipients cek))"

text \<open>
  \<^verbatim>\<open>recordIdentityFailures\<close>: of the failures observed, the last one of a non-native identity
  other than \<^verbatim>\<open>ErrIncorrectIdentity\<close> is the one left in \<^verbatim>\<open>*failure\<close>.
\<close>

fun recordIdentityFailures ::
  "('r, 'i) age \<Rightarrow> ('i \<times> unwrap_error) list \<Rightarrow> string option \<Rightarrow> string option" where
  "recordIdentityFailures A [] failure = failure"
| "recordIdentityFailures A ((i, e) # calls) failure =
     recordIdentityFailures A calls
       (if age_native A i then failure
        else case e of ErrIncorrectIdentity \<Rightarrow> failure | UnwrapFailed m \<Rightarrow> Some m)"

definition UnwrapCEKWithAge :: "('r, 'i) age \<Rightarrow> bytes \<Rightarrow> 'i list \<Rightarrow> bytes res" where
  "UnwrapCEKWithAge A blob identities =
     (if identities = [] then Err ErrWrongCredential
      else let (outcome, calls) = age_Decrypt A blob identities;
               identityErr = recordIdentityFailures A calls None in
      (case outcome of
         NoIdentityMatchError \<Rightarrow> Err ErrWrongCredential
       | AgeError m \<Rightarrow>
           (case identityErr of Some f \<Rightarrow> Err (IdentityError f)
            | None \<Rightarrow> Err (Wrap ''crypto/cek: age decrypt'' (Errorf m)))
       | AgeReadFailed m \<Rightarrow> Err (Wrap ''crypto/cek: age read'' (Errorf m))
       | AgePlaintext r \<Rightarrow>
           let plain = take (KeySize + 1) r in
           if length plain \<noteq> KeySize then Err (Errorf ''crypto/cek: age payload has the wrong length'')
           else Ok (to_array KeySize plain)))"

section \<open>Wrapped keys unwrap\<close>

text \<open>
  Authenticity of AES-GCM in symbolic form: whatever key and label open a sealed text,
  they give the text that was sealed.  PBKDF2 and HKDF give keys of the length asked for.
\<close>

definition gcm_binding :: "prims \<Rightarrow> bool" where
  "gcm_binding P \<longleftrightarrow>
     (\<forall>k n t a k' a' t'. gcm_open P k' n (gcm_seal P k n t a) a' = Some t' \<longrightarrow> t' = t)"

definition kdf_sizes :: "prims \<Rightarrow> bool" where
  "kdf_sizes P \<longleftrightarrow> (\<forall>p s i n. length (pbkdf2 P p s i n) = n) \<and>
     (\<forall>k s i n. n \<le> 8160 \<longrightarrow> (\<exists>b. hkdf_key P k s i n = Ok b \<and> length b = n))"

lemma toy_prims_wrap: "gcm_binding toy_prims" "kdf_sizes toy_prims"
  by (auto simp: toy_prims_def gcm_binding_def kdf_sizes_def split: if_splits)

lemma into_array_exact [simp]: "length b = n \<Longrightarrow> into_array n b = b"
  by (simp add: into_array_def)

lemma length_into_array [simp]: "length (into_array n b) = n"
  by (simp add: into_array_def)

lemma min_iterations_word:
  "unat (word_of_nat MinPasswordIterations :: u32) = MinPasswordIterations"
  by (simp add: unat_of_nat iteration_limits)

lemma newWrapAEAD_32 [simp]: "length k = 32 \<Longrightarrow> newWrapAEAD k = Ok k"
  by (simp add: newWrapAEAD_def)

lemma passwordAEAD_total:
  "kdf_sizes P \<Longrightarrow> passwordAEAD P p s i = Ok (stretchPassword P p s i)"
  by (simp add: passwordAEAD_def stretchPassword_def kdf_sizes_def KeySize_def)

lemma hkdf_key_32:
  assumes "kdf_sizes P" shows "\<exists>b. hkdf_key P k s i KeySize = Ok b \<and> length b = 32"
proof -
  have "(32::nat) \<le> 8160" by simp
  with assms show ?thesis unfolding kdf_sizes_def KeySize_def by blast
qed

lemma keyFileAEAD_total: "kdf_sizes P \<Longrightarrow> \<exists>kek. keyFileAEAD P k s = Ok kek"
  using hkdf_key_32 [of P k s keyFileWrapLabel] by (auto simp: keyFileAEAD_def)

lemma keyFilePasswordAEAD_total: "kdf_sizes P \<Longrightarrow> \<exists>kek. keyFilePasswordAEAD P st k s = Ok kek"
  using hkdf_key_32 [of P "st @ k" s keyFilePasswordWrapLabel] by (auto simp: keyFilePasswordAEAD_def)

definition wrap_laws :: "prims \<Rightarrow> bool" where
  "wrap_laws P \<longleftrightarrow> gcm_correct P \<and> gcm_binding P \<and> kdf_sizes P"

lemma toy_prims_wrap_laws: "wrap_laws toy_prims"
  using toy_prims_correct toy_prims_wrap by (simp add: wrap_laws_def)

text \<open>Sealing a 32-byte key fills the 48-byte array exactly, and opening it is decided by AES-GCM.\<close>

definition sealed_cek :: "prims \<Rightarrow> bytes \<Rightarrow> bytes \<Rightarrow> bytes \<Rightarrow> bytes \<Rightarrow> bytes" where
  "sealed_cek P kek nonce cek aad = into_array (KeySize + GCMTagSize) (gcm_seal P kek nonce cek aad)"

lemma sealed_cek_open:
  assumes "wrap_laws P" and "length cek = 32"
  shows "gcm_open P kek nonce (sealed_cek P kek nonce cek aad) aad = Some cek"
    and "gcm_open P kek' nonce (sealed_cek P kek nonce cek aad) aad' = None
      \<or> gcm_open P kek' nonce (sealed_cek P kek nonce cek aad) aad' = Some cek"
proof -
  have g: "gcm_correct P" "gcm_binding P" using assms(1) by (simp_all add: wrap_laws_def)
  have eq: "sealed_cek P kek nonce cek aad = gcm_seal P kek nonce cek aad"
    using gcm_lengthD [OF g(1), of kek nonce cek aad] assms(2)
    by (simp add: sealed_cek_def KeySize_def GCMTagSize_def)
  show "gcm_open P kek nonce (sealed_cek P kek nonce cek aad) aad = Some cek"
    by (simp add: eq gcm_openD [OF g(1)])
  show "gcm_open P kek' nonce (sealed_cek P kek nonce cek aad) aad' = None
      \<or> gcm_open P kek' nonce (sealed_cek P kek nonce cek aad) aad' = Some cek"
    using g(2) by (cases "gcm_open P kek' nonce (gcm_seal P kek nonce cek aad) aad'")
      (auto simp: eq gcm_binding_def)
qed

text \<open>
  The contract of a way to wrap the key: a holder of the credential gets the key back, and
  an attempt with any other secrets gives the key or reports a wrong credential, never a
  different key and never another error.
\<close>

locale key_wrap =
  fixes wrap :: "prims \<Rightarrow> bytes \<Rightarrow> 'c \<Rightarrow> bytes \<Rightarrow> ('w \<times> bytes) res"
    and unwrap :: "prims \<Rightarrow> 'w \<Rightarrow> 'u \<Rightarrow> bytes res"
    and opens :: "'c \<Rightarrow> 'u \<Rightarrow> bool"
  assumes unwrap_wrap: "wrap_laws P \<Longrightarrow> length cek = 32 \<Longrightarrow> wrap P cek c rnd = Ok (w, rnd') \<Longrightarrow>
      opens c u \<Longrightarrow> unwrap P w u = Ok cek"
    and unwrap_other: "wrap_laws P \<Longrightarrow> length cek = 32 \<Longrightarrow> wrap P cek c rnd = Ok (w, rnd') \<Longrightarrow>
      unwrap P w u = Ok cek \<or> unwrap P w u = Err ErrWrongCredential"

lemma WrapCEKWithPassword_fields:
  assumes "wrap_laws P" and "WrapCEKWithPassword P cek pw rnd = Ok (w, rnd')"
  shows "pw_Iterations w = word_of_nat MinPasswordIterations \<and> length (pw_Salt w) = 32
    \<and> length (pw_Nonce w) = 12 \<and> pw_Sealed w =
      sealed_cek P (stretchPassword P pw (pw_Salt w) (pw_Iterations w)) (pw_Nonce w) cek passwordWrapAAD"
  using assms by (auto simp: WrapCEKWithPassword_def randomSaltAndNonce_def bindR_Ok_conv Let_def
      ReadFull_Ok_conv wrap_laws_def passwordAEAD_total sealed_cek_def SaltSize_def NonceSize_def)

lemma UnwrapCEKWithPassword_wrap:
  assumes "wrap_laws P" and "length cek = 32" and "WrapCEKWithPassword P cek pw rnd = Ok (w, rnd')"
  shows "UnwrapCEKWithPassword P w pw' =
    (case gcm_open P (stretchPassword P pw' (pw_Salt w) (pw_Iterations w)) (pw_Nonce w)
       (pw_Sealed w) passwordWrapAAD of None \<Rightarrow> Err ErrWrongCredential | Some pt \<Rightarrow> Ok (into_array KeySize pt))"
proof -
  have "unat (pw_Iterations w) = MinPasswordIterations"
    using WrapCEKWithPassword_fields [OF assms(1,3)] min_iterations_word by simp
  then show ?thesis
    using assms(1) by (simp add: UnwrapCEKWithPassword_def passwordAEAD_total wrap_laws_def iteration_limits)
qed

interpretation pw_wrap: key_wrap WrapCEKWithPassword UnwrapCEKWithPassword "(=)"
proof
  fix P cek c rnd w rnd' and u :: bytes
  assume h: "wrap_laws P" "length cek = 32" "WrapCEKWithPassword P cek c rnd = Ok (w, rnd')"
  note f = WrapCEKWithPassword_fields [OF h(1,3)] and un = UnwrapCEKWithPassword_wrap [OF h]
  show "UnwrapCEKWithPassword P w u = Ok cek" if "c = u"
    using f sealed_cek_open(1) [OF h(1,2)] that by (simp add: un h(2) KeySize_def)
  show "UnwrapCEKWithPassword P w u = Ok cek \<or> UnwrapCEKWithPassword P w u = Err ErrWrongCredential"
    using f sealed_cek_open(2) [OF h(1,2), of "stretchPassword P u (pw_Salt w) (pw_Iterations w)"
        "pw_Nonce w" "stretchPassword P c (pw_Salt w) (pw_Iterations w)" passwordWrapAAD passwordWrapAAD]
    by (auto simp: un h(2) KeySize_def)
qed

text \<open>Key files: the reader's list of key files opens the wrap when it contains the key file used.\<close>

lemma openWrapped_sealed:
  assumes "wrap_laws P" and "length cek = 32"
  shows "openWrappedCEK P kek nonce (sealed_cek P kek nonce cek l) l = Some cek"
    and "openWrappedCEK P kek' nonce (sealed_cek P kek nonce cek l) l = None
      \<or> openWrappedCEK P kek' nonce (sealed_cek P kek nonce cek l) l = Some cek"
  using sealed_cek_open(1) [OF assms, of kek nonce l] sealed_cek_open(2) [OF assms, of kek' nonce kek l l]
    assms(2)
  by (auto simp: openWrappedCEK_def KeySize_def)

lemma WrapCEKWithKeyFile_fields:
  assumes "WrapCEKWithKeyFile P cek key rnd = Ok (w, rnd')"
  shows "CheckKeyFileSize key = Ok () \<and> length (kw_Salt w) = 32 \<and> length (kw_Nonce w) = 12
    \<and> (\<exists>kek. keyFileAEAD P key (kw_Salt w) = Ok kek
        \<and> kw_Sealed w = sealed_cek P kek (kw_Nonce w) cek keyFileWrapLabel)"
  using assms by (auto simp: WrapCEKWithKeyFile_def randomSaltAndNonce_def bindR_Ok_conv
      ReadFull_Ok_conv sealed_cek_def SaltSize_def NonceSize_def)

lemma UnwrapCEKWithKeyFile_wrap:
  assumes "wrap_laws P" and "length cek = 32" and "WrapCEKWithKeyFile P cek key rnd = Ok (w, rnd')"
  shows "(key \<in> set keys \<longrightarrow> UnwrapCEKWithKeyFile P w keys = Ok cek)
    \<and> (UnwrapCEKWithKeyFile P w keys = Ok cek \<or> UnwrapCEKWithKeyFile P w keys = Err ErrWrongCredential)"
proof (induction keys)
  case (Cons k keys)
  obtain kek where kek: "keyFileAEAD P key (kw_Salt w) = Ok kek"
      "kw_Sealed w = sealed_cek P kek (kw_Nonce w) cek keyFileWrapLabel"
    using WrapCEKWithKeyFile_fields [OF assms(3)] by blast
  obtain kek' where kek': "keyFileAEAD P k (kw_Salt w) = Ok kek'"
    using keyFileAEAD_total assms(1) by (metis wrap_laws_def)
  have own: "k = key \<Longrightarrow> CheckKeyFileSize k = Ok () \<and> kek' = kek"
    using WrapCEKWithKeyFile_fields [OF assms(3)] kek kek' by auto
  show ?case
    using Cons.IH own openWrapped_sealed(1) [OF assms(1,2), of kek "kw_Nonce w" keyFileWrapLabel]
      openWrapped_sealed(2) [OF assms(1,2), of kek' "kw_Nonce w" kek keyFileWrapLabel]
    by (auto simp: kek' kek(2))
qed simp

interpretation kf_wrap: key_wrap WrapCEKWithKeyFile UnwrapCEKWithKeyFile "\<lambda>k ks. k \<in> set ks"
  by unfold_locales (use UnwrapCEKWithKeyFile_wrap in blast)+

lemma WrapCEKWithKeyFileAndPassword_fields:
  assumes "WrapCEKWithKeyFileAndPassword P cek key pw rnd = Ok (w, rnd')"
  shows "CheckKeyFileSize key = Ok () \<and> pw \<noteq> [] \<and> length (pw_Salt w) = 32 \<and> length (pw_Nonce w) = 12
    \<and> pw_Iterations w = word_of_nat MinPasswordIterations
    \<and> (\<exists>kek. keyFilePasswordAEAD P (stretchPassword P pw (pw_Salt w) (pw_Iterations w)) key (pw_Salt w) = Ok kek
        \<and> pw_Sealed w = sealed_cek P kek (pw_Nonce w) cek keyFilePasswordWrapLabel)"
  using assms by (auto simp: WrapCEKWithKeyFileAndPassword_def randomSaltAndNonce_def bindR_Ok_conv
      ReadFull_Ok_conv sealed_cek_def SaltSize_def NonceSize_def Let_def split: if_splits)

lemma tryKeyFilesWithPassword_wrap:
  assumes "wrap_laws P" and "length cek = 32"
    and "WrapCEKWithKeyFileAndPassword P cek key pw rnd = Ok (w, rnd')"
  defines "st \<equiv> stretchPassword P pw (pw_Salt w) (pw_Iterations w)"
  shows "(key \<in> set keys \<and> st' = st \<longrightarrow> tryKeyFilesWithPassword P w st' keys = Ok cek)
    \<and> (tryKeyFilesWithPassword P w st' keys = Ok cek
       \<or> tryKeyFilesWithPassword P w st' keys = Err ErrWrongCredential)"
proof (induction keys)
  case (Cons k keys)
  obtain kek where kek: "keyFilePasswordAEAD P st key (pw_Salt w) = Ok kek"
      "pw_Sealed w = sealed_cek P kek (pw_Nonce w) cek keyFilePasswordWrapLabel"
    using WrapCEKWithKeyFileAndPassword_fields [OF assms(3)] unfolding st_def by blast
  obtain kek' where kek': "keyFilePasswordAEAD P st' k (pw_Salt w) = Ok kek'"
    using keyFilePasswordAEAD_total assms(1) by (metis wrap_laws_def)
  have own: "k = key \<Longrightarrow> st' = st \<Longrightarrow> CheckKeyFileSize k = Ok () \<and> kek' = kek"
    using WrapCEKWithKeyFileAndPassword_fields [OF assms(3)] kek kek' by auto
  have step: "tryKeyFilesWithPassword P w st' (k # keys) =
      (if CheckKeyFileSize k = Ok ()
       then case openWrappedCEK P kek' (pw_Nonce w) (pw_Sealed w) keyFilePasswordWrapLabel of
              None \<Rightarrow> tryKeyFilesWithPassword P w st' keys | Some c \<Rightarrow> Ok c
       else tryKeyFilesWithPassword P w st' keys)"
    by (simp add: kek')
  show ?case
    unfolding step kek(2)
    using Cons.IH own openWrapped_sealed(1) [OF assms(1,2), of kek "pw_Nonce w" keyFilePasswordWrapLabel]
      openWrapped_sealed(2) [OF assms(1,2), of kek' "pw_Nonce w" kek keyFilePasswordWrapLabel]
    by auto
qed simp

text \<open>A key file and a password are one credential: both are needed.\<close>

lemma UnwrapCEKWithKeyFileAndPassword_wrap:
  assumes "wrap_laws P" and "length cek = 32"
    and w: "WrapCEKWithKeyFileAndPassword P cek key pw rnd = Ok (w, rnd')"
  shows "(key \<in> set keys \<and> pw = pw' \<longrightarrow> UnwrapCEKWithKeyFileAndPassword P w keys pw' = Ok cek)
    \<and> (UnwrapCEKWithKeyFileAndPassword P w keys pw' = Ok cek
       \<or> UnwrapCEKWithKeyFileAndPassword P w keys pw' = Err ErrWrongCredential)"
proof -
  note f = WrapCEKWithKeyFileAndPassword_fields [OF w]
  have it: "unat (pw_Iterations w) = MinPasswordIterations" using f min_iterations_word by simp
  note attempt = tryKeyFilesWithPassword_wrap [OF assms, of keys
      "stretchPassword P pw' (pw_Salt w) (pw_Iterations w)"]
  show ?thesis
    using attempt f by (auto simp: UnwrapCEKWithKeyFileAndPassword_def it iteration_limits Let_def)
qed

interpretation kp_wrap: key_wrap "\<lambda>P cek (key, pw). WrapCEKWithKeyFileAndPassword P cek key pw"
    "\<lambda>P w (keys, pw). UnwrapCEKWithKeyFileAndPassword P w keys pw"
    "\<lambda>(key, pw) (keys, pw'). key \<in> set keys \<and> pw = pw'"
  by unfold_locales (use UnwrapCEKWithKeyFileAndPassword_wrap in \<open>auto split: prod.splits\<close>)

end
