(* ===== verification/Recipients.thy ===== *)
theory Recipients
  imports Keywrap Codec
begin

text \<open>
  The recipient block of a Version2 header (\<^verbatim>\<open>archive/recipients.go\<close>): one stanza per wrapped
  copy of the content-encryption key.
\<close>

definition stanzaTypePassword :: byte where "stanzaTypePassword = 0x01"
definition stanzaTypeAge :: byte where "stanzaTypeAge = 0x02"
definition stanzaTypeKeyFile :: byte where "stanzaTypeKeyFile = 0x03"
definition stanzaTypeKeyFilePassword :: byte where "stanzaTypeKeyFilePassword = 0x04"
definition MaxRecipientBlockSize :: nat where "MaxRecipientBlockSize = 1048576"
definition MaxPasswordRecipients :: nat where "MaxPasswordRecipients = 8"
definition MaxKeyFileRecipients :: nat where "MaxKeyFileRecipients = 8"
definition passwordStanzaSize :: nat where
  "passwordStanzaSize = 4 + SaltSize + NonceSize + KeySize + GCMTagSize"
definition keyFileStanzaSize :: nat where
  "keyFileStanzaSize = SaltSize + NonceSize + KeySize + GCMTagSize"
definition stanzaHeaderSize :: nat where "stanzaHeaderSize = 1 + 4"
definition maxStanzas :: nat where "maxStanzas = MaxPasswordRecipients + 2 * MaxKeyFileRecipients + 1"

lemmas stanza_types = stanzaTypePassword_def stanzaTypeAge_def stanzaTypeKeyFile_def stanzaTypeKeyFilePassword_def
lemmas stanza_limits = MaxPasswordRecipients_def MaxKeyFileRecipients_def maxStanzas_def stanzaHeaderSize_def
lemmas stanza_sizes = passwordStanzaSize_def keyFileStanzaSize_def SaltSize_def NonceSize_def KeySize_def GCMTagSize_def

record KeyFile =
  kf_Key :: bytes
  kf_Password :: bytes

record 'r Credentials =
  c_Passwords :: "bytes list"
  c_KeyFiles :: "KeyFile list"
  c_AgeRecipients :: "'r list"

record 'i Unlockers =
  u_Password :: bytes
  u_KeyFiles :: "bytes list"
  u_Identities :: "'i list"

record stanza =
  s_kind :: byte
  s_body :: bytes

section \<open>Encoding\<close>

definition stanza_bytes :: "stanza \<Rightarrow> bytes" where
  "stanza_bytes s = [s_kind s] @ le32 (word_of_nat (length (s_body s))) @ s_body s"

definition appendStanza :: "bytes \<Rightarrow> byte \<Rightarrow> bytes \<Rightarrow> bytes" where
  "appendStanza dst kind body = dst @ [kind] @ le32 (word_of_nat (length body)) @ body"

definition encodePasswordWrap :: "PasswordWrap \<Rightarrow> bytes" where
  "encodePasswordWrap w = le32 (pw_Iterations w) @ pw_Salt w @ pw_Nonce w @ pw_Sealed w"

definition decodePasswordWrap :: "bytes \<Rightarrow> PasswordWrap res" where
  "decodePasswordWrap b =
     bindR (uint32 b) (\<lambda>it.
       let b1 = drop 4 b; b2 = drop SaltSize b1; b3 = drop NonceSize b2 in
       Ok \<lparr>pw_Iterations = it, pw_Salt = to_array SaltSize b1, pw_Nonce = to_array NonceSize b2,
           pw_Sealed = to_array (KeySize + GCMTagSize) b3\<rparr>)"

definition encodeKeyFileWrap :: "KeyFileWrap \<Rightarrow> bytes" where
  "encodeKeyFileWrap w = kw_Salt w @ kw_Nonce w @ kw_Sealed w"

definition decodeKeyFileWrap :: "bytes \<Rightarrow> KeyFileWrap" where
  "decodeKeyFileWrap b =
     (let b2 = drop SaltSize b; b3 = drop NonceSize b2 in
      \<lparr>kw_Salt = to_array SaltSize b, kw_Nonce = to_array NonceSize b2,
       kw_Sealed = to_array (KeySize + GCMTagSize) b3\<rparr>)"

section \<open>Sealing\<close>

fun sealPasswords :: "prims \<Rightarrow> bytes \<Rightarrow> bytes list \<Rightarrow> bytes \<Rightarrow> bytes \<Rightarrow> (bytes \<times> bytes) res" where
  "sealPasswords P cek [] block rnd = Ok (block, rnd)"
| "sealPasswords P cek (password # ps) block rnd =
     (if password = [] then Err (Errorf ''archive/recipients: empty password'')
      else bindR (wrapR ''archive/recipients: wrap for password'' (WrapCEKWithPassword P cek password rnd)) (\<lambda>(w, rnd).
        sealPasswords P cek ps (appendStanza block stanzaTypePassword (encodePasswordWrap w)) rnd))"

definition wrapForKeyFile :: "prims \<Rightarrow> bytes \<Rightarrow> KeyFile \<Rightarrow> bytes \<Rightarrow> ((byte \<times> bytes) \<times> bytes) res" where
  "wrapForKeyFile P cek kf rnd =
     (if kf_Password kf = []
      then bindR (wrapR ''archive/recipients: wrap for key file'' (WrapCEKWithKeyFile P cek (kf_Key kf) rnd)) (\<lambda>(w, rnd).
        Ok ((stanzaTypeKeyFile, encodeKeyFileWrap w), rnd))
      else bindR (wrapR ''archive/recipients: wrap for key file and password''
            (WrapCEKWithKeyFileAndPassword P cek (kf_Key kf) (kf_Password kf) rnd)) (\<lambda>(w, rnd).
        Ok ((stanzaTypeKeyFilePassword, encodePasswordWrap w), rnd)))"

fun sealKeyFiles :: "prims \<Rightarrow> bytes \<Rightarrow> KeyFile list \<Rightarrow> bytes \<Rightarrow> bytes \<Rightarrow> (bytes \<times> bytes) res" where
  "sealKeyFiles P cek [] block rnd = Ok (block, rnd)"
| "sealKeyFiles P cek (kf # kfs) block rnd =
     bindR (wrapForKeyFile P cek kf rnd) (\<lambda>((kind, body), rnd).
       sealKeyFiles P cek kfs (appendStanza block kind body) rnd)"

definition SealRecipientBlock ::
  "prims \<Rightarrow> ('r, 'i) age \<Rightarrow> bytes \<Rightarrow> 'r Credentials \<Rightarrow> bytes \<Rightarrow> (bytes \<times> bytes) res" where
  "SealRecipientBlock P A cek creds rnd =
     (if c_Passwords creds = [] \<and> c_KeyFiles creds = [] \<and> c_AgeRecipients creds = []
      then Err (Errorf ''archive/recipients: at least one credential is required'')
      else if MaxPasswordRecipients < length (c_Passwords creds)
      then Err (Errorf ''archive/recipients: too many password recipients'')
      else if MaxKeyFileRecipients < length (c_KeyFiles creds)
      then Err (Errorf ''archive/recipients: too many key file recipients'')
      else
      let count = length (c_Passwords creds) + length (c_KeyFiles creds)
                  + (if c_AgeRecipients creds \<noteq> [] then 1 else 0) in
      bindR (sealPasswords P cek (c_Passwords creds) (le16 (word_of_nat count)) rnd) (\<lambda>(block, rnd).
      bindR (sealKeyFiles P cek (c_KeyFiles creds) block rnd) (\<lambda>(block, rnd).
      bindR (if c_AgeRecipients creds \<noteq> []
             then bindR (wrapR ''archive/recipients: wrap for age recipients''
                    (WrapCEKForAge A cek (c_AgeRecipients creds))) (\<lambda>blob.
                  Ok (appendStanza block stanzaTypeAge blob))
             else Ok block) (\<lambda>block.
      if MaxRecipientBlockSize < length block then Err (Errorf ''archive/recipients: block too large'')
      else Ok (block, rnd)))))"

section \<open>Parsing\<close>

definition stanzaKindNames :: "byte \<Rightarrow> string" where
  "stanzaKindNames k =
     (if k = stanzaTypePassword then ''password''
      else if k = stanzaTypeAge then ''age or SSH identity''
      else if k = stanzaTypeKeyFile then ''key file''
      else if k = stanzaTypeKeyFilePassword then ''key file + password'' else '''')"

fun accepted_loop :: "byte set \<Rightarrow> stanza list \<Rightarrow> string list" where
  "accepted_loop seen [] = []"
| "accepted_loop seen (s # ss) =
     (if s_kind s \<in> seen then accepted_loop seen ss
      else stanzaKindNames (s_kind s) # accepted_loop (insert (s_kind s) seen) ss)"

definition acceptedKinds :: "stanza list \<Rightarrow> string list" where
  "acceptedKinds ss = accepted_loop {} ss"

definition validateStanza :: "byte \<Rightarrow> nat \<Rightarrow> nat \<Rightarrow> unit res" where
  "validateStanza kind bodyLen n =
     (let bad = Err (ErrMalformedRecipientBlock ''bad stanza'') in
      if kind = stanzaTypePassword
      then (if bodyLen = passwordStanzaSize \<and> n \<le> MaxPasswordRecipients then Ok () else bad)
      else if kind = stanzaTypeAge then (if 0 < bodyLen \<and> n = 1 then Ok () else bad)
      else if kind = stanzaTypeKeyFile
      then (if bodyLen = keyFileStanzaSize \<and> n \<le> MaxKeyFileRecipients then Ok () else bad)
      else if kind = stanzaTypeKeyFilePassword
      then (if bodyLen = passwordStanzaSize \<and> n \<le> MaxKeyFileRecipients then Ok () else bad)
      else Err (ErrMalformedRecipientBlock ''unknown stanza type''))"

fun parse_stanzas :: "nat \<Rightarrow> (byte \<Rightarrow> nat) \<Rightarrow> bytes \<Rightarrow> (stanza list \<times> bytes) res" where
  "parse_stanzas 0 perKind b = Ok ([], b)"
| "parse_stanzas (Suc k) perKind b =
     (if length b < stanzaHeaderSize then Err (ErrMalformedRecipientBlock ''truncated stanza header'')
      else bindR (index b 0) (\<lambda>kind. bindR (cut 1 b) (\<lambda>(_, b).
      bindR (uint32 b) (\<lambda>bodyLen. bindR (cut 4 b) (\<lambda>(_, b).
      if length b < unat bodyLen then Err (ErrMalformedRecipientBlock ''stanza runs past block'')
      else bindR (cut (unat bodyLen) b) (\<lambda>(body, b).
      let perKind = perKind(kind := perKind kind + 1) in
      bindR (validateStanza kind (length body) (perKind kind)) (\<lambda>_.
      bindR (parse_stanzas k perKind b) (\<lambda>(ss, b).
        Ok (\<lparr>s_kind = kind, s_body = body\<rparr> # ss, b)))))))))"

definition parseRecipientBlock :: "bytes \<Rightarrow> stanza list res" where
  "parseRecipientBlock block =
     (if length block < 2 then Err (ErrMalformedRecipientBlock ''truncated count'')
      else bindR (uint16 block) (\<lambda>count.
      if count = 0 \<or> maxStanzas < unat count then Err (ErrMalformedRecipientBlock ''stanzas'')
      else bindR (cut 2 block) (\<lambda>(_, b).
      bindR (parse_stanzas (unat count) (\<lambda>_. 0) b) (\<lambda>(ss, b).
        if b \<noteq> [] then Err (ErrMalformedRecipientBlock ''trailing bytes'') else Ok ss))))"

section \<open>Opening\<close>

text \<open>One pass of the loop's first \<^verbatim>\<open>switch\<close>: \<open>None\<close> when the stanza is skipped.\<close>

definition tryStanza ::
  "prims \<Rightarrow> ('r, 'i) age \<Rightarrow> 'i Unlockers \<Rightarrow> stanza \<Rightarrow> bytes res option" where
  "tryStanza P A u s =
     (if s_kind s = stanzaTypePassword \<and> u_Password u \<noteq> []
      then Some (bindR (decodePasswordWrap (s_body s)) (\<lambda>w. UnwrapCEKWithPassword P w (u_Password u)))
      else if s_kind s = stanzaTypeAge \<and> u_Identities u \<noteq> []
      then Some (UnwrapCEKWithAge A (s_body s) (u_Identities u))
      else if s_kind s = stanzaTypeKeyFile \<and> u_KeyFiles u \<noteq> []
      then Some (UnwrapCEKWithKeyFile P (decodeKeyFileWrap (s_body s)) (u_KeyFiles u))
      else if s_kind s = stanzaTypeKeyFilePassword \<and> u_KeyFiles u \<noteq> [] \<and> u_Password u \<noteq> []
      then Some (bindR (decodePasswordWrap (s_body s)) (\<lambda>w.
             UnwrapCEKWithKeyFileAndPassword P w (u_KeyFiles u) (u_Password u)))
      else None)"

text \<open>The loop: the key of the first stanza that opens, or the identity error seen last, if any.\<close>

fun openStanzas ::
  "prims \<Rightarrow> ('r, 'i) age \<Rightarrow> 'i Unlockers \<Rightarrow> string option \<Rightarrow> stanza list \<Rightarrow> (bytes + string option) res" where
  "openStanzas P A u identityErr [] = Ok (Inr identityErr)"
| "openStanzas P A u identityErr (s # ss) =
     (case tryStanza P A u s of
        None \<Rightarrow> openStanzas P A u identityErr ss
      | Some (Ok cek) \<Rightarrow> Ok (Inl cek)
      | Some Panic \<Rightarrow> Panic
      | Some (Err (IdentityError m)) \<Rightarrow> openStanzas P A u (Some m) ss
      | Some (Err ErrWrongCredential) \<Rightarrow> openStanzas P A u identityErr ss
      | Some (Err e) \<Rightarrow> Err (Wrap ''archive: malformed recipient block'' e))"

definition OpenRecipientBlock ::
  "prims \<Rightarrow> ('r, 'i) age \<Rightarrow> bytes \<Rightarrow> 'i Unlockers \<Rightarrow> bytes res" where
  "OpenRecipientBlock P A block u =
     bindR (parseRecipientBlock block) (\<lambda>ss.
     bindR (openStanzas P A u None ss) (\<lambda>r.
       case r of Inl cek \<Rightarrow> Ok cek
       | Inr (Some m) \<Rightarrow> Err (IdentityError m)
       | Inr None \<Rightarrow> Err (NoMatchingCredentialError (acceptedKinds ss))))"

section \<open>Blocks and stanza lists correspond\<close>

fun stanzas_valid :: "(byte \<Rightarrow> nat) \<Rightarrow> stanza list \<Rightarrow> bool" where
  "stanzas_valid pk [] = True"
| "stanzas_valid pk (s # ss) \<longleftrightarrow>
     length (s_body s) < 2 ^ 32 \<and> validateStanza (s_kind s) (length (s_body s)) (pk (s_kind s) + 1) = Ok ()
     \<and> stanzas_valid (pk(s_kind s := pk (s_kind s) + 1)) ss"

definition kind_count :: "byte \<Rightarrow> stanza list \<Rightarrow> nat" where
  "kind_count k ss = length (filter (\<lambda>s. s_kind s = k) ss)"

definition kind_limit :: "byte \<Rightarrow> nat" where
  "kind_limit k =
     (if k = stanzaTypePassword then MaxPasswordRecipients else if k = stanzaTypeAge then 1
      else if k = stanzaTypeKeyFile \<or> k = stanzaTypeKeyFilePassword then MaxKeyFileRecipients else 0)"

definition body_ok :: "stanza \<Rightarrow> bool" where
  "body_ok s \<longleftrightarrow> length (s_body s) < 2 ^ 32 \<and>
     (s_kind s = stanzaTypePassword \<and> length (s_body s) = passwordStanzaSize
      \<or> s_kind s = stanzaTypeAge \<and> s_body s \<noteq> []
      \<or> s_kind s = stanzaTypeKeyFile \<and> length (s_body s) = keyFileStanzaSize
      \<or> s_kind s = stanzaTypeKeyFilePassword \<and> length (s_body s) = passwordStanzaSize)"

lemma kind_count_simps [simp]:
  "kind_count k [] = 0" "kind_count k (s # ss) = (if s_kind s = k then 1 else 0) + kind_count k ss"
  "kind_count k (xs @ ys) = kind_count k xs + kind_count k ys"
  by (simp_all add: kind_count_def)

lemma validateStanza_Ok_conv:
  "length (s_body s) < 2 ^ 32 \<and> validateStanza (s_kind s) (length (s_body s)) (n + 1) = Ok () \<longleftrightarrow>
     body_ok s \<and> n + 1 \<le> kind_limit (s_kind s)"
  by (auto simp: validateStanza_def body_ok_def kind_limit_def stanza_types Let_def)

lemma stanzas_valid_conv:
  "stanzas_valid pk ss \<longleftrightarrow>
     list_all body_ok ss \<and> (\<forall>k. 0 < kind_count k ss \<longrightarrow> pk k + kind_count k ss \<le> kind_limit k)"
proof (induction ss arbitrary: pk)
  case (Cons s ss)
  let ?pk = "pk(s_kind s := pk (s_kind s) + 1)"
  have one: "(0 < kind_count k (s # ss) \<longrightarrow> pk k + kind_count k (s # ss) \<le> kind_limit k) \<longleftrightarrow>
      (k = s_kind s \<longrightarrow> pk (s_kind s) + 1 \<le> kind_limit (s_kind s))
      \<and> (0 < kind_count k ss \<longrightarrow> ?pk k + kind_count k ss \<le> kind_limit k)" for k
    by (cases "kind_count k ss") auto
  have "(\<forall>k. 0 < kind_count k (s # ss) \<longrightarrow> pk k + kind_count k (s # ss) \<le> kind_limit k) \<longleftrightarrow>
      pk (s_kind s) + 1 \<le> kind_limit (s_kind s)
      \<and> (\<forall>k. 0 < kind_count k ss \<longrightarrow> ?pk k + kind_count k ss \<le> kind_limit k)"
    unfolding one by blast
  then show ?case
    unfolding stanzas_valid.simps list.pred_inject Cons.IH
    using validateStanza_Ok_conv [of s "pk (s_kind s)"] by blast
qed simp

lemma parse_stanzas_Ok_conv:
  "parse_stanzas k pk b = Ok (ss, r) \<longleftrightarrow>
     length ss = k \<and> stanzas_valid pk ss \<and> b = concat (map stanza_bytes ss) @ r"
proof (induction k arbitrary: pk b ss)
  case (Suc k)
  show ?case
  proof (cases ss)
    case (Cons s ss')
    let ?pk = "pk(s_kind s := pk (s_kind s) + 1)"
    have "parse_stanzas (Suc k) pk b = Ok (ss, r) \<longleftrightarrow>
        (\<exists>rest. length (s_body s) < 2 ^ 32 \<and> b = stanza_bytes s @ rest
           \<and> validateStanza (s_kind s) (length (s_body s)) (pk (s_kind s) + 1) = Ok ()
           \<and> parse_stanzas k ?pk rest = Ok (ss', r))" (is "?L \<longleftrightarrow> ?R")
    proof
      assume ?L
      then obtain bl rest where "b = [s_kind s] @ le32 bl @ s_body s @ rest" "length (s_body s) = unat bl"
          "validateStanza (s_kind s) (length (s_body s)) (pk (s_kind s) + 1) = Ok ()"
          "parse_stanzas k ?pk rest = Ok (ss', r)"
        by (auto simp: Cons bindR_Ok_conv uint_Ok_conv cut_Ok_conv index_0_Ok_conv Let_def
            length_Suc_conv split: if_splits)
      then show ?R using unat_bound [of bl] by (auto simp: stanza_bytes_def)
    next
      assume ?R
      then obtain rest where l: "length (s_body s) < 2 ^ 32" and b: "b = stanza_bytes s @ rest"
        and v: "validateStanza (s_kind s) (length (s_body s)) (pk (s_kind s) + 1) = Ok ()"
        and p: "parse_stanzas k ?pk rest = Ok (ss', r)" by blast
      have "unat (word_of_nat (length (s_body s)) :: u32) = length (s_body s)"
        using l by (simp add: unat_of_nat)
      then show ?L using v p by (simp add: b stanza_bytes_def Cons Let_def stanzaHeaderSize_def)
    qed
    also have "\<dots> \<longleftrightarrow> length ss = Suc k \<and> stanzas_valid pk ss \<and> b = concat (map stanza_bytes ss) @ r"
      unfolding Suc.IH Cons stanzas_valid.simps by auto
    finally show ?thesis .
  qed (auto simp: bindR_Ok_conv Let_def split: if_splits)
qed auto

lemma parse_stanzas_no_panic: "parse_stanzas k pk b \<noteq> Panic"
proof (induction k arbitrary: pk b)
  case (Suc k)
  have "validateStanza a c d \<noteq> Panic" for a c d by (auto simp: validateStanza_def Let_def)
  with Suc.IH show ?case
    by (auto simp: bindR_Panic_conv index_Panic_conv cut_Panic_conv uint_Panic_conv Let_def
        stanzaHeaderSize_def cut_Ok_conv split: if_splits)
qed simp

lemma kind_counts_total:
  "list_all body_ok ss \<Longrightarrow> length ss = kind_count stanzaTypePassword ss + kind_count stanzaTypeAge ss
     + kind_count stanzaTypeKeyFile ss + kind_count stanzaTypeKeyFilePassword ss"
  by (induction ss) (auto simp: body_ok_def stanza_types)

lemma kind_limits:
  assumes "list_all body_ok ss"
  shows "(\<forall>k. 0 < kind_count k ss \<longrightarrow> kind_count k ss \<le> kind_limit k) \<longleftrightarrow>
    kind_count stanzaTypePassword ss \<le> 8 \<and> kind_count stanzaTypeAge ss \<le> 1
    \<and> kind_count stanzaTypeKeyFile ss \<le> 8 \<and> kind_count stanzaTypeKeyFilePassword ss \<le> 8"
    (is "?L \<longleftrightarrow> ?R")
proof
  assume ?L
  then have "kind_count k ss \<le> kind_limit k" for k
    by (cases "kind_count k ss = 0") auto
  note this [of stanzaTypePassword] this [of stanzaTypeAge] this [of stanzaTypeKeyFile]
    this [of stanzaTypeKeyFilePassword]
  then show ?R by (simp add: kind_limit_def stanza_types stanza_limits)
next
  assume r: ?R
  show ?L
  proof (intro allI impI)
    fix k assume "0 < kind_count k ss"
    then obtain s where "s \<in> set ss" "s_kind s = k" by (auto simp: kind_count_def filter_empty_conv)
    then have "k \<in> {stanzaTypePassword, stanzaTypeAge, stanzaTypeKeyFile, stanzaTypeKeyFilePassword}"
      using assms by (auto simp: list_all_iff body_ok_def)
    with r show "kind_count k ss \<le> kind_limit k"
      by (auto simp: kind_limit_def stanza_types stanza_limits)
  qed
qed

lemma stanza_total:
  assumes "list_all body_ok ss" and "stanzas_valid (\<lambda>_. 0) ss"
  shows "length ss \<le> maxStanzas"
  using kind_counts_total [OF assms(1)] kind_limits [OF assms(1)] assms(2)
  by (simp add: stanzas_valid_conv stanza_limits)

lemma parseRecipientBlock_Ok_conv:
  "parseRecipientBlock b = Ok ss \<longleftrightarrow>
     ss \<noteq> [] \<and> stanzas_valid (\<lambda>_. 0) ss \<and> b = le16 (word_of_nat (length ss)) @ concat (map stanza_bytes ss)"
  (is "?L \<longleftrightarrow> ?R")
proof
  assume ?L
  then obtain c b' where "b = le16 c @ b'" "c \<noteq> 0" and p: "parse_stanzas (unat c) (\<lambda>_. 0) b' = Ok (ss, [])"
    by (auto simp: parseRecipientBlock_def bindR_Ok_conv uint_Ok_conv cut_Ok_conv split: if_splits)
  moreover have "word_of_nat (length ss) = c" using p by (simp add: parse_stanzas_Ok_conv)
  moreover have "unat c \<noteq> 0" using \<open>c \<noteq> 0\<close> by (simp add: unat_gt_0)
  ultimately show ?R by (auto simp: parse_stanzas_Ok_conv)
next
  assume r: ?R
  then have n: "length ss \<le> maxStanzas" using stanza_total by (simp add: stanzas_valid_conv)
  then have c: "unat (word_of_nat (length ss) :: u16) = length ss"
    by (simp add: unat_of_nat stanza_limits)
  then have "(word_of_nat (length ss) :: u16) \<noteq> 0" using r by (metis length_0_conv unat_0)
  moreover have "parse_stanzas (length ss) (\<lambda>_. 0) (concat (map stanza_bytes ss)) = Ok (ss, [])"
    using r by (simp add: parse_stanzas_Ok_conv)
  ultimately show ?L using r n by (simp add: parseRecipientBlock_def c)
qed

lemma parseRecipientBlock_no_panic: "parseRecipientBlock b \<noteq> Panic"
  using parse_stanzas_no_panic
  by (auto simp: parseRecipientBlock_def bindR_Panic_conv uint_Panic_conv cut_Panic_conv split: if_splits)

text \<open>
  C32: \<^verbatim>\<open>parseRecipientBlock\<close> never panics and accepts exactly the blocks that encode a list of
  at least one well-formed stanza, with at most eight password stanzas, eight stanzas of
  each key-file kind and one age stanza, so a hostile block cannot make a reader run
  PBKDF2 more than sixteen times.
\<close>

theorem parseRecipientBlock_exact:
  "parseRecipientBlock b \<noteq> Panic \<and>
   (parseRecipientBlock b = Ok ss \<longleftrightarrow>
      ss \<noteq> [] \<and> list_all body_ok ss
      \<and> kind_count stanzaTypePassword ss \<le> 8 \<and> kind_count stanzaTypeAge ss \<le> 1
      \<and> kind_count stanzaTypeKeyFile ss \<le> 8 \<and> kind_count stanzaTypeKeyFilePassword ss \<le> 8
      \<and> b = le16 (word_of_nat (length ss)) @ concat (map stanza_bytes ss))"
  unfolding parseRecipientBlock_Ok_conv stanzas_valid_conv
  using parseRecipientBlock_no_panic [of b] kind_limits [of ss] by simp blast

section \<open>What sealing writes\<close>

datatype 'r cred = CredPassword bytes | CredKeyFile KeyFile | CredAge "'r list"

text \<open>The stanza that wraps the key for one credential.\<close>

fun wraps :: "prims \<Rightarrow> ('r, 'i) age \<Rightarrow> bytes \<Rightarrow> stanza \<Rightarrow> 'r cred \<Rightarrow> bool" where
  "wraps P A cek s (CredPassword p) \<longleftrightarrow> p \<noteq> [] \<and> (\<exists>w rnd rnd'. WrapCEKWithPassword P cek p rnd = Ok (w, rnd')
     \<and> s = \<lparr>s_kind = stanzaTypePassword, s_body = encodePasswordWrap w\<rparr>)"
| "wraps P A cek s (CredKeyFile kf) \<longleftrightarrow> (\<exists>k b rnd rnd'. wrapForKeyFile P cek kf rnd = Ok ((k, b), rnd')
     \<and> s = \<lparr>s_kind = k, s_body = b\<rparr>)"
| "wraps P A cek s (CredAge rs) \<longleftrightarrow> (\<exists>blob. WrapCEKForAge A cek rs = Ok blob
     \<and> s = \<lparr>s_kind = stanzaTypeAge, s_body = blob\<rparr>)"

definition cred_list :: "'r Credentials \<Rightarrow> 'r cred list" where
  "cred_list creds = map CredPassword (c_Passwords creds) @ map CredKeyFile (c_KeyFiles creds)
     @ (if c_AgeRecipients creds \<noteq> [] then [CredAge (c_AgeRecipients creds)] else [])"

lemma appendStanza_bytes: "appendStanza b k body = b @ stanza_bytes \<lparr>s_kind = k, s_body = body\<rparr>"
  by (simp add: appendStanza_def stanza_bytes_def)

lemma sealPasswords_Ok:
  "sealPasswords P cek ps b rnd = Ok (b', rnd') \<Longrightarrow>
   \<exists>ss. b' = b @ concat (map stanza_bytes ss) \<and> list_all2 (wraps P A cek) ss (map CredPassword ps)"
proof (induction ps arbitrary: b rnd)
  case (Cons p ps)
  then obtain w rnd1 where p: "p \<noteq> []" and w: "WrapCEKWithPassword P cek p rnd = Ok (w, rnd1)"
    and r: "sealPasswords P cek ps (appendStanza b stanzaTypePassword (encodePasswordWrap w)) rnd1 = Ok (b', rnd')"
    by (auto simp: bindR_Ok_conv split: if_splits)
  from Cons.IH [OF r] obtain ss where "b' = appendStanza b stanzaTypePassword (encodePasswordWrap w) @ concat (map stanza_bytes ss)"
    "list_all2 (wraps P A cek) ss (map CredPassword ps)" by blast
  with p w show ?case
    by (intro exI [of _ "\<lparr>s_kind = stanzaTypePassword, s_body = encodePasswordWrap w\<rparr> # ss"])
      (auto simp: appendStanza_bytes)
qed simp

lemma sealKeyFiles_Ok:
  "sealKeyFiles P cek kfs b rnd = Ok (b', rnd') \<Longrightarrow>
   \<exists>ss. b' = b @ concat (map stanza_bytes ss) \<and> list_all2 (wraps P A cek) ss (map CredKeyFile kfs)"
proof (induction kfs arbitrary: b rnd)
  case (Cons kf kfs)
  then obtain k body rnd1 where w: "wrapForKeyFile P cek kf rnd = Ok ((k, body), rnd1)"
    and r: "sealKeyFiles P cek kfs (appendStanza b k body) rnd1 = Ok (b', rnd')"
    by (auto simp: bindR_Ok_conv)
  from Cons.IH [OF r] obtain ss where "b' = appendStanza b k body @ concat (map stanza_bytes ss)"
    "list_all2 (wraps P A cek) ss (map CredKeyFile kfs)" by blast
  with w show ?case
    by (intro exI [of _ "\<lparr>s_kind = k, s_body = body\<rparr> # ss"]) (auto simp: appendStanza_bytes)
qed simp

lemma SealRecipientBlock_Ok:
  assumes "SealRecipientBlock P A cek creds rnd = Ok (block, rnd')"
  shows "\<exists>ss. list_all2 (wraps P A cek) ss (cred_list creds) \<and> ss \<noteq> []
    \<and> block = le16 (word_of_nat (length ss)) @ concat (map stanza_bytes ss) \<and> length block \<le> MaxRecipientBlockSize
    \<and> length (c_Passwords creds) \<le> 8 \<and> length (c_KeyFiles creds) \<le> 8"
proof -
  let ?n = "length (c_Passwords creds) + length (c_KeyFiles creds) + (if c_AgeRecipients creds \<noteq> [] then 1 else 0)"
  obtain b1 r1 b2 where some: "\<not> (c_Passwords creds = [] \<and> c_KeyFiles creds = [] \<and> c_AgeRecipients creds = [])"
    and lim: "length (c_Passwords creds) \<le> 8" "length (c_KeyFiles creds) \<le> 8"
    and p: "sealPasswords P cek (c_Passwords creds) (le16 (word_of_nat ?n)) rnd = Ok (b1, r1)"
    and k: "sealKeyFiles P cek (c_KeyFiles creds) b1 r1 = Ok (b2, rnd')"
    and a: "(if c_AgeRecipients creds \<noteq> []
             then bindR (wrapR ''archive/recipients: wrap for age recipients''
                    (WrapCEKForAge A cek (c_AgeRecipients creds))) (\<lambda>blob.
                  Ok (appendStanza b2 stanzaTypeAge blob)) else Ok b2) = Ok block"
    and size: "length block \<le> MaxRecipientBlockSize"
    using assms by (auto simp: SealRecipientBlock_def bindR_Ok_conv Let_def stanza_limits simp del: of_nat_add split: if_splits)
  obtain s1 where s1: "b1 = le16 (word_of_nat ?n) @ concat (map stanza_bytes s1)"
    "list_all2 (wraps P A cek) s1 (map CredPassword (c_Passwords creds))" using sealPasswords_Ok [OF p] by blast
  obtain s2 where s2: "b2 = b1 @ concat (map stanza_bytes s2)"
    "list_all2 (wraps P A cek) s2 (map CredKeyFile (c_KeyFiles creds))" using sealKeyFiles_Ok [OF k] by blast
  obtain s3 where s3: "block = b2 @ concat (map stanza_bytes s3)"
    "list_all2 (wraps P A cek) s3 (if c_AgeRecipients creds \<noteq> [] then [CredAge (c_AgeRecipients creds)] else [])"
  proof (cases "c_AgeRecipients creds = []")
    case False
    with a obtain blob where "WrapCEKForAge A cek (c_AgeRecipients creds) = Ok blob"
      "block = appendStanza b2 stanzaTypeAge blob" by (auto simp: bindR_Ok_conv)
    with False that [of "[\<lparr>s_kind = stanzaTypeAge, s_body = blob\<rparr>]"] show ?thesis
      by (simp add: appendStanza_bytes)
  qed (use a that [of "[]"] in auto)
  let ?ss = "s1 @ s2 @ s3"
  have all: "list_all2 (wraps P A cek) ?ss (cred_list creds)"
    unfolding cred_list_def using s1(2) s2(2) s3(2) by (intro list_all2_appendI)
  then have len: "length ?ss = ?n" by (auto simp: cred_list_def dest: list_all2_lengthD)
  with some have "?ss \<noteq> []" by (auto split: if_splits)
  with all len size s1(1) s2(1) s3(1) lim show ?thesis
    by (intro exI [of _ ?ss]) (simp del: of_nat_add)
qed

section \<open>Each stanza opens for its credential\<close>

lemma decodePasswordWrap_encode:
  "length (pw_Salt w) = 32 \<Longrightarrow> length (pw_Nonce w) = 12 \<Longrightarrow> length (pw_Sealed w) = 48 \<Longrightarrow>
   decodePasswordWrap (encodePasswordWrap w) = Ok w"
  by (cases w) (simp add: decodePasswordWrap_def encodePasswordWrap_def to_array_def Let_def
      SaltSize_def NonceSize_def KeySize_def GCMTagSize_def)

lemma decodeKeyFileWrap_encode:
  "length (kw_Salt w) = 32 \<Longrightarrow> length (kw_Nonce w) = 12 \<Longrightarrow> length (kw_Sealed w) = 48 \<Longrightarrow>
   decodeKeyFileWrap (encodeKeyFileWrap w) = w"
  by (cases w) (simp add: decodeKeyFileWrap_def encodeKeyFileWrap_def to_array_def Let_def
      SaltSize_def NonceSize_def KeySize_def GCMTagSize_def)

lemma length_sealed_cek [simp]: "length (sealed_cek P k n c a) = 48"
  by (simp add: sealed_cek_def KeySize_def GCMTagSize_def)

text \<open>
  Documented behaviour of age: what is encrypted is never empty, and an identity that
  belongs to one of the recipients decrypts it.  \<open>matches\<close> says which do.
\<close>

definition age_correct :: "('r, 'i) age \<Rightarrow> ('r list \<Rightarrow> 'i list \<Rightarrow> bool) \<Rightarrow> bool" where
  "age_correct A matches \<longleftrightarrow>
     (\<forall>rs k blob. age_Encrypt A rs k = Ok blob \<longrightarrow> blob \<noteq> [] \<and>
        (\<forall>is. matches rs is \<longrightarrow> is \<noteq> [] \<and> (\<exists>calls. age_Decrypt A blob is = (AgePlaintext k, calls))))"

fun opens :: "('r list \<Rightarrow> 'i list \<Rightarrow> bool) \<Rightarrow> 'i Unlockers \<Rightarrow> 'r cred \<Rightarrow> bool" where
  "opens matches u (CredPassword p) \<longleftrightarrow> u_Password u = p"
| "opens matches u (CredKeyFile kf) \<longleftrightarrow> kf_Key kf \<in> set (u_KeyFiles u) \<and>
     (kf_Password kf = [] \<or> kf_Password kf = u_Password u)"
| "opens matches u (CredAge rs) \<longleftrightarrow> matches rs (u_Identities u)"

definition benign :: "prims \<Rightarrow> ('r, 'i) age \<Rightarrow> 'i Unlockers \<Rightarrow> bytes \<Rightarrow> stanza \<Rightarrow> bool" where
  "benign P A u cek s \<longleftrightarrow>
     tryStanza P A u s \<in> {None, Some (Ok cek), Some (Err ErrWrongCredential)}"

lemma password_stanza:
  assumes "wrap_laws P" and "length cek = 32" and "wraps P A cek s (CredPassword p)"
  shows "body_ok s \<and> s_kind s = stanzaTypePassword \<and> benign P A u cek s
    \<and> (u_Password u = p \<longrightarrow> tryStanza P A u s = Some (Ok cek))"
proof -
  obtain w rnd rnd' where w: "WrapCEKWithPassword P cek p rnd = Ok (w, rnd')" and p: "p \<noteq> []"
    and s: "s = \<lparr>s_kind = stanzaTypePassword, s_body = encodePasswordWrap w\<rparr>"
    using assms(3) by auto
  have f: "length (pw_Salt w) = 32" "length (pw_Nonce w) = 12" "length (pw_Sealed w) = 48"
    using WrapCEKWithPassword_fields [OF assms(1) w] by auto
  have t: "tryStanza P A u s = (if u_Password u = [] then None else Some (UnwrapCEKWithPassword P w (u_Password u)))"
    by (simp add: tryStanza_def s decodePasswordWrap_encode [OF f] stanza_types)
  have "body_ok s" using f by (simp add: body_ok_def s encodePasswordWrap_def stanza_sizes)
  moreover have "s_kind s = stanzaTypePassword" by (simp add: s)
  ultimately show ?thesis
    using p pw_wrap.unwrap_wrap [OF assms(1,2) w, of "u_Password u"]
      pw_wrap.unwrap_other [OF assms(1,2) w, of "u_Password u"]
    by (auto simp: t benign_def)
qed

lemma keyfile_stanza:
  assumes "wrap_laws P" and "length cek = 32" and "wraps P A cek s (CredKeyFile kf)"
  shows "body_ok s \<and> s_kind s \<in> {stanzaTypeKeyFile, stanzaTypeKeyFilePassword} \<and> benign P A u cek s
    \<and> (opens m u (CredKeyFile kf) \<longrightarrow> tryStanza P A u s = Some (Ok cek))"
proof (cases "kf_Password kf = []")
  case True
  with assms(3) obtain w rnd rnd' where w: "WrapCEKWithKeyFile P cek (kf_Key kf) rnd = Ok (w, rnd')"
    and s: "s = \<lparr>s_kind = stanzaTypeKeyFile, s_body = encodeKeyFileWrap w\<rparr>"
    by (auto simp: wrapForKeyFile_def bindR_Ok_conv)
  have f: "length (kw_Salt w) = 32" "length (kw_Nonce w) = 12" "length (kw_Sealed w) = 48"
    using WrapCEKWithKeyFile_fields [OF w] by auto
  have t: "tryStanza P A u s = (if u_KeyFiles u = [] then None else Some (UnwrapCEKWithKeyFile P w (u_KeyFiles u)))"
    by (simp add: tryStanza_def s decodeKeyFileWrap_encode [OF f] stanza_types)
  have "body_ok s" using f by (simp add: body_ok_def s encodeKeyFileWrap_def stanza_sizes)
  moreover have "s_kind s = stanzaTypeKeyFile" by (simp add: s)
  ultimately show ?thesis
    using True kf_wrap.unwrap_wrap [OF assms(1,2) w, of "u_KeyFiles u"]
      kf_wrap.unwrap_other [OF assms(1,2) w, of "u_KeyFiles u"]
    by (auto simp: t benign_def)
next
  case False
  with assms(3) obtain w rnd rnd'
    where w: "WrapCEKWithKeyFileAndPassword P cek (kf_Key kf) (kf_Password kf) rnd = Ok (w, rnd')"
    and s: "s = \<lparr>s_kind = stanzaTypeKeyFilePassword, s_body = encodePasswordWrap w\<rparr>"
    by (auto simp: wrapForKeyFile_def bindR_Ok_conv)
  have f: "length (pw_Salt w) = 32" "length (pw_Nonce w) = 12" "length (pw_Sealed w) = 48"
    using WrapCEKWithKeyFileAndPassword_fields [OF w] by auto
  have t: "tryStanza P A u s = (if u_KeyFiles u = [] \<or> u_Password u = [] then None
      else Some (UnwrapCEKWithKeyFileAndPassword P w (u_KeyFiles u) (u_Password u)))"
    by (simp add: tryStanza_def s decodePasswordWrap_encode [OF f] stanza_types)
  have "body_ok s" using f by (simp add: body_ok_def s encodePasswordWrap_def stanza_sizes)
  moreover have "s_kind s = stanzaTypeKeyFilePassword" by (simp add: s)
  ultimately show ?thesis
    using False UnwrapCEKWithKeyFileAndPassword_wrap [OF assms(1,2) w, of "u_KeyFiles u" "u_Password u"]
    by (auto simp: t benign_def)
qed

lemma age_stanza:
  assumes "age_correct A m" and "length cek = 32" and "wraps P A cek s (CredAge rs)"
  shows "s_kind s = stanzaTypeAge \<and> s_body s \<noteq> [] \<and> (m rs (u_Identities u) \<longrightarrow> tryStanza P A u s = Some (Ok cek))"
proof -
  obtain blob where b: "age_Encrypt A rs cek = Ok blob" and s: "s = \<lparr>s_kind = stanzaTypeAge, s_body = blob\<rparr>"
    using assms(3) by (auto simp: WrapCEKForAge_def split: if_splits)
  have "UnwrapCEKWithAge A blob (u_Identities u) = Ok cek \<and> u_Identities u \<noteq> []" if "m rs (u_Identities u)"
    using assms(1,2) b that by (fastforce simp: age_correct_def UnwrapCEKWithAge_def KeySize_def)
  with assms(1) b show ?thesis by (auto simp: s tryStanza_def stanza_types age_correct_def)
qed

lemma openStanzas_benign:
  "list_all (benign P A u cek) xs \<Longrightarrow>
   openStanzas P A u i (xs @ ys) =
     (if \<exists>s \<in> set xs. tryStanza P A u s = Some (Ok cek) then Ok (Inl cek) else openStanzas P A u i ys)"
  by (induction xs) (auto simp: benign_def)

declare wraps.simps [simp del]

lemma list_all2_setD:
  "list_all2 R xs ys \<Longrightarrow> x \<in> set xs \<Longrightarrow> \<exists>y \<in> set ys. R x y"
  "list_all2 R xs ys \<Longrightarrow> y \<in> set ys \<Longrightarrow> \<exists>x \<in> set xs. R x y"
  by (induction rule: list_all2_induct) auto

text \<open>
  A sealed block is a front of password and key-file stanzas, all of them benign, followed
  by at most one age stanza, and the parser accepts it.
\<close>

lemma sealed_block_shape:
  assumes P: "wrap_laws P" and A: "c_AgeRecipients creds \<noteq> [] \<Longrightarrow> age_correct A m" and cek: "length cek = 32"
    and seal: "SealRecipientBlock P A cek creds rnd = Ok (block, rnd')"
  obtains xs ys where "parseRecipientBlock block = Ok (xs @ ys)" and "list_all (benign P A u cek) xs"
    and "list_all2 (wraps P A cek) xs (map CredPassword (c_Passwords creds) @ map CredKeyFile (c_KeyFiles creds))"
    and "list_all2 (wraps P A cek) ys (if c_AgeRecipients creds \<noteq> [] then [CredAge (c_AgeRecipients creds)] else [])"
proof -
  let ?front = "map CredPassword (c_Passwords creds) @ map CredKeyFile (c_KeyFiles creds)"
  let ?ages = "if c_AgeRecipients creds \<noteq> [] then [CredAge (c_AgeRecipients creds)] else []"
  obtain ss where ss: "list_all2 (wraps P A cek) ss (?front @ ?ages)" "ss \<noteq> []"
    and block: "block = le16 (word_of_nat (length ss)) @ concat (map stanza_bytes ss)" "length block \<le> MaxRecipientBlockSize"
    and lim: "length (c_Passwords creds) \<le> 8" "length (c_KeyFiles creds) \<le> 8"
    using SealRecipientBlock_Ok [OF seal] unfolding cred_list_def append_assoc by blast
  obtain ps ks ys where s0: "ss = ps @ ks @ ys" and ps: "list_all2 (wraps P A cek) ps (map CredPassword (c_Passwords creds))"
    and ks: "list_all2 (wraps P A cek) ks (map CredKeyFile (c_KeyFiles creds))"
    and ys: "list_all2 (wraps P A cek) ys ?ages"
    using ss(1) unfolding append_assoc list_all2_append2 by blast
  define xs where x: "xs = ps @ ks"
  have s: "ss = xs @ ys" and xs: "list_all2 (wraps P A cek) xs ?front"
    using s0 ps ks by (simp_all add: x list_all2_appendI)
  have p: "body_ok s \<and> s_kind s = stanzaTypePassword \<and> benign P A u cek s" if "s \<in> set ps" for s
    using list_all2_setD(1) [OF ps that] password_stanza [OF P cek] by auto
  have k: "body_ok s \<and> s_kind s \<in> {stanzaTypeKeyFile, stanzaTypeKeyFilePassword} \<and> benign P A u cek s" if "s \<in> set ks" for s
    using list_all2_setD(1) [OF ks that] keyfile_stanza [OF P cek] by auto
  have a: "body_ok s \<and> s_kind s = stanzaTypeAge" if "s \<in> set ys" for s
  proof -
    have w: "wraps P A cek s (CredAge (c_AgeRecipients creds))" and "ys = [s]" and "c_AgeRecipients creds \<noteq> []"
      using ys that by (auto simp: list_all2_Cons2 split: if_splits)
    then have "length (s_body s) \<le> length block" by (simp add: block s stanza_bytes_def)
    with age_stanza [OF A cek w] \<open>c_AgeRecipients creds \<noteq> []\<close> block(2) show ?thesis
      by (simp add: body_ok_def MaxRecipientBlockSize_def)
  qed
  have lens: "length ps \<le> 8" "length ks \<le> 8" "length ys \<le> 1"
    using ps ks ys lim by (auto dest!: list_all2_lengthD split: if_splits)
  have cnt: "kind_count c zs \<le> length zs" "(\<And>z. z \<in> set zs \<Longrightarrow> s_kind z \<noteq> c) \<Longrightarrow> kind_count c zs = 0" for c zs
    by (auto simp: kind_count_def)
  have zp: "kind_count c ps = 0" if "c \<noteq> stanzaTypePassword" for c using that p by (intro cnt(2)) auto
  have zk: "kind_count c ks = 0" if "c \<notin> {stanzaTypeKeyFile, stanzaTypeKeyFilePassword}" for c
    using that k by (intro cnt(2)) auto
  have zy: "kind_count c ys = 0" if "c \<noteq> stanzaTypeAge" for c using that a by (intro cnt(2)) auto
  have "kind_count c ss \<le> 8" if "c \<noteq> stanzaTypeAge" for c
    using that zp [of c] zk [of c] zy [of c] cnt(1) [of c ps] cnt(1) [of c ks] lens
    by (cases "c = stanzaTypePassword") (auto simp: s x stanza_types)
  then have "kind_count stanzaTypePassword ss \<le> 8" "kind_count stanzaTypeKeyFile ss \<le> 8"
    "kind_count stanzaTypeKeyFilePassword ss \<le> 8"
    by (simp_all add: stanza_types)
  moreover have "kind_count stanzaTypeAge ss \<le> 1"
    using zp [of stanzaTypeAge] zk [of stanzaTypeAge] cnt(1) [of stanzaTypeAge ys] lens
    by (simp add: s x stanza_types)
  moreover have "list_all body_ok ss" using p k a by (auto simp: s x list_all_iff)
  ultimately have "parseRecipientBlock block = Ok (xs @ ys)"
    using kind_limits [of ss] ss(2) block(1) s by (simp add: parseRecipientBlock_Ok_conv stanzas_valid_conv)
  moreover have "list_all (benign P A u cek) xs" using p k by (auto simp: x list_all_iff)
  ultimately show ?thesis using that xs ys by blast
qed

lemma recipient_block_opens:
  assumes "wrap_laws P" and "age_correct A m" and "length cek = 32"
    and "SealRecipientBlock P A cek creds rnd = Ok (block, rnd')"
    and "c \<in> set (cred_list creds)" and "opens m u c"
  shows "OpenRecipientBlock P A block u = Ok cek"
proof -
  let ?front = "map CredPassword (c_Passwords creds) @ map CredKeyFile (c_KeyFiles creds)"
  let ?ages = "if c_AgeRecipients creds \<noteq> [] then [CredAge (c_AgeRecipients creds)] else []"
  obtain xs ys where p: "parseRecipientBlock block = Ok (xs @ ys)" and b: "list_all (benign P A u cek) xs"
    and x: "list_all2 (wraps P A cek) xs ?front" and y: "list_all2 (wraps P A cek) ys ?ages"
    using sealed_block_shape [OF assms(1) assms(2) assms(3,4)] by metis
  have "openStanzas P A u None (xs @ ys) = Ok (Inl cek)"
  proof (cases "c \<in> set ?front")
    case True
    then obtain s where s: "s \<in> set xs" and w: "wraps P A cek s c"
      using list_all2_setD(2) [OF x] by blast
    have "tryStanza P A u s = Some (Ok cek)"
    proof (cases c)
      case (CredPassword p)
      with w assms(6) password_stanza [OF assms(1,3), of A s p u] show ?thesis by simp
    next
      case (CredKeyFile kf)
      with w assms(6) keyfile_stanza [OF assms(1,3), of A s kf u m] show ?thesis by simp
    qed (use True in auto)
    with s openStanzas_benign [OF b] show ?thesis by auto
  next
    case False
    then have "c = CredAge (c_AgeRecipients creds)" and "?ages = [c]"
      using assms(5) by (auto simp: cred_list_def split: if_splits)
    then obtain s where "ys = [s]" and w: "wraps P A cek s (CredAge (c_AgeRecipients creds))"
      using y by (auto simp: list_all2_Cons2)
    moreover have "tryStanza P A u s = Some (Ok cek)"
      using age_stanza [OF assms(2,3) w] assms(6) \<open>c = _\<close> by simp
    ultimately show ?thesis using openStanzas_benign [OF b] by simp
  qed
  with p show ?thesis by (simp add: OpenRecipientBlock_def)
qed

text \<open>
  A recipient block opens for everyone it was sealed for.  If sealing a 32-byte key for
  the credentials succeeds and the reader holds one of them (a listed password, a listed
  key file with its password where it has one, or an identity of an age recipient), then
  \<^verbatim>\<open>OpenRecipientBlock\<close> returns exactly that key, whatever other secrets the reader tries along
  with it.
\<close>

lemma sealed_block_opens:
  assumes "wrap_laws P" and "age_correct A m" and "length cek = 32"
    and "SealRecipientBlock P A cek creds rnd = Ok (block, rnd')"
    and "c \<in> set (cred_list creds)" and "opens m u c"
  shows "OpenRecipientBlock P A block u = Ok cek"
  by (rule recipient_block_opens [OF assms])


definition toy_age :: "(nat, nat) age" where
  "toy_age = \<lparr>age_Encrypt = (\<lambda>rs k. Ok (0 # k)), age_Decrypt = (\<lambda>b is. (AgePlaintext (tl b), [])),
     age_native = (\<lambda>i. True)\<rparr>"

lemma toy_age_correct: "age_correct toy_age (\<lambda>rs is. is \<noteq> [])"
  by (simp add: age_correct_def toy_age_def)

definition sample_creds :: "nat Credentials" where
  "sample_creds = \<lparr>c_Passwords = [str ''pw''], c_KeyFiles = [], c_AgeRecipients = []\<rparr>"

lemma sample_block:
  "\<exists>block. SealRecipientBlock toy_prims toy_age (replicate 32 5) sample_creds (replicate 44 0 @ r) = Ok (block, r)"
proof -
  have "str ''pw'' \<noteq> []" by (simp add: str_def)
  moreover have rnd: "replicate 44 0 @ r = replicate 32 0 @ replicate 12 0 @ r"
    by (simp add: append_assoc [symmetric] replicate_add [symmetric] del: append_assoc)
  have "\<exists>w. WrapCEKWithPassword toy_prims (replicate 32 5) (str ''pw'') (replicate 44 0 @ r) = Ok (w, r)
      \<and> length (pw_Salt w) = 32 \<and> length (pw_Nonce w) = 12 \<and> length (pw_Sealed w) = 48"
    by (simp add: WrapCEKWithPassword_def randomSaltAndNonce_def rnd SaltSize_def NonceSize_def
        passwordAEAD_total [OF toy_prims_wrap(2)] KeySize_def GCMTagSize_def Let_def)
  ultimately show ?thesis
    by (auto simp: SealRecipientBlock_def sample_creds_def appendStanza_def encodePasswordWrap_def
        MaxPasswordRecipients_def MaxRecipientBlockSize_def)
qed

theorem sealed_block_opens_witness:
  "\<exists>block. SealRecipientBlock toy_prims toy_age (replicate 32 5) sample_creds (replicate 44 0) = Ok (block, [])
     \<and> OpenRecipientBlock toy_prims toy_age block
         \<lparr>u_Password = str ''pw'', u_KeyFiles = [[1]], u_Identities = [7]\<rparr> = Ok (replicate 32 5)"
proof -
  obtain block where b: "SealRecipientBlock toy_prims toy_age (replicate 32 5) sample_creds (replicate 44 0) = Ok (block, [])"
    using sample_block [of "[]"] by auto
  have "OpenRecipientBlock toy_prims toy_age block
      \<lparr>u_Password = str ''pw'', u_KeyFiles = [[1]], u_Identities = [7]\<rparr> = Ok (replicate 32 5)"
    by (rule sealed_block_opens [OF toy_prims_wrap_laws toy_age_correct _ b, of "CredPassword (str ''pw'')"])
      (simp_all add: cred_list_def sample_creds_def)
  with b show ?thesis by blast
qed


end
