(* ===== verification/Index_Decoder.thy ===== *)
theory Index_Decoder
  imports Names Codec Format
begin

text \<open>
  The decoder that session indexes and archive directories share (\<^verbatim>\<open>indexDecoder\<close> in
  \<^verbatim>\<open>archive/incremental.go\<close>): it records the first error, drops the remaining bytes and
  returns zero values after it.
\<close>

datatype malformed_kind = MalformedIndex | MalformedDirectory

record indexDecoder =
  id_b :: bytes
  id_err :: "sarc_error option"
  id_malformed :: "malformed_kind option"

definition malformed_error :: "malformed_kind option \<Rightarrow> string \<Rightarrow> sarc_error" where
  "malformed_error k what =
     (case k of Some MalformedDirectory \<Rightarrow> ErrMalformedDirectory what | _ \<Rightarrow> ErrMalformedIndex what)"

definition id_fail :: "string \<Rightarrow> indexDecoder \<Rightarrow> indexDecoder" where
  "id_fail what d =
     (if id_err d = None then d\<lparr>id_err := Some (malformed_error (id_malformed d) what), id_b := []\<rparr>
      else d\<lparr>id_b := []\<rparr>)"

definition id_uvarint :: "indexDecoder \<Rightarrow> (u64 \<times> indexDecoder) res" where
  "id_uvarint d =
     (let (v, n) = uvarint (id_b d) in
      if n \<le> 0 then Ok (0, id_fail ''bad varint'' d)
      else bindR (cut (nat n) (id_b d)) (\<lambda>(_, b). Ok (v, d\<lparr>id_b := b\<rparr>)))"

definition id_varint :: "indexDecoder \<Rightarrow> (i64 \<times> indexDecoder) res" where
  "id_varint d =
     (let (v, n) = varint (id_b d) in
      if n \<le> 0 then Ok (0, id_fail ''bad varint'' d)
      else bindR (cut (nat n) (id_b d)) (\<lambda>(_, b). Ok (v, d\<lparr>id_b := b\<rparr>)))"

definition id_count :: "nat \<Rightarrow> indexDecoder \<Rightarrow> (nat \<times> indexDecoder) res" where
  "id_count minSize d =
     bindR (id_uvarint d) (\<lambda>(n, d).
       if length (id_b d) div minSize < unat n then Ok (0, id_fail ''count exceeds remaining data'' d)
       else Ok (unat n, d))"

text \<open>The argument is a Go \<^verbatim>\<open>int\<close>; slicing with a negative one panics.\<close>

definition id_bytes :: "int \<Rightarrow> indexDecoder \<Rightarrow> (bytes \<times> indexDecoder) res" where
  "id_bytes n d =
     (if int (length (id_b d)) < n then Ok ([], id_fail ''truncated'' d)
      else if n < 0 then Panic
      else bindR (cut (nat n) (id_b d)) (\<lambda>(out, b). Ok (out, d\<lparr>id_b := b\<rparr>)))"

definition id_readByte :: "indexDecoder \<Rightarrow> (byte \<times> indexDecoder) res" where
  "id_readByte d =
     bindR (id_bytes 1 d) (\<lambda>(b, d). if b = [] then Ok (0, d) else bindR (index b 0) (\<lambda>x. Ok (x, d)))"

definition id_name :: "indexDecoder \<Rightarrow> (bytes \<times> indexDecoder) res" where
  "id_name d =
     bindR (id_uvarint d) (\<lambda>(n, d).
       if MaxEntryNameLen < unat n then Ok ([], id_fail ''name too long'' d)
       else bindR (id_bytes (sint n) d) (\<lambda>(name, d).
         Ok (name, if id_err d = None \<and> \<not> ValidEntryName name then id_fail ''invalid name'' d else d)))"

definition appendString :: "bytes \<Rightarrow> bytes" where
  "appendString s = append_uvarint (word_of_nat (length s)) @ s"

section \<open>Reading what was written\<close>

abbreviation clean_index :: "malformed_kind option \<Rightarrow> bytes \<Rightarrow> indexDecoder" where
  "clean_index k b \<equiv> \<lparr>id_b = b, id_err = None, id_malformed = k\<rparr>"

lemma id_uvarint_enc [codec_simps]:
  "id_uvarint (clean_index k (append_uvarint x @ r)) = Ok (x, clean_index k r)"
  by (simp add: id_uvarint_def uvarint_append)

lemma id_varint_enc [codec_simps]:
  "id_varint (clean_index k (append_varint x @ r)) = Ok (x, clean_index k r)"
  by (simp add: id_varint_def varint_append)

lemma id_count_enc:
  assumes "n < 2 ^ 64" and "n * m \<le> length r" and "0 < m"
  shows "id_count m (clean_index k (append_uvarint (word_of_nat n) @ r)) = Ok (n, clean_index k r)"
proof -
  have "unat (word_of_nat n :: u64) = n" using assms(1) by (simp add: unat_of_nat)
  moreover have "\<not> length r div m < n"
    using assms(2,3) by (simp add: not_less less_eq_div_iff_mult_less_eq)
  ultimately show ?thesis by (simp add: id_count_def id_uvarint_enc)
qed

lemma id_bytes_enc [codec_simps]:
  "n = int (length x) \<Longrightarrow> id_bytes n (clean_index k (x @ r)) = Ok (x, clean_index k r)"
  by (simp add: id_bytes_def)

lemma id_readByte_enc [codec_simps]: "id_readByte (clean_index k (x # r)) = Ok (x, clean_index k r)"
  using id_bytes_enc [of 1 "[x]" r k] by (simp add: id_readByte_def)

lemma sint_small:
  assumes "unat (w :: 64 word) < 2 ^ 63" shows "sint w = int (unat w)"
proof -
  have "int (unat w) < int (2 ^ 63)" using assms by (simp only: of_nat_less_iff)
  then have "uint w < 2 ^ 63" by simp
  moreover have "- (2 ^ 63) \<le> uint w" using uint_ge_0 [of w] by (rule order_trans [rotated]) simp
  ultimately have "signed_take_bit 63 (uint w) = uint w" by (intro signed_take_bit_int_eq_self)
  then show ?thesis by (simp add: sint_uint)
qed

lemma id_name_enc:
  assumes "ValidEntryName s"
  shows "id_name (clean_index k (appendString s @ r)) = Ok (s, clean_index k r)"
proof -
  have l: "length s \<le> MaxEntryNameLen" using ValidEntryName_length [OF assms] by simp
  have n: "unat (word_of_nat (length s) :: u64) = length s"
    using l by (simp add: unat_of_nat MaxEntryNameLen_def)
  have "sint (word_of_nat (length s) :: u64) = int (length s)"
    using l n by (subst sint_small) (simp_all only: n, simp add: MaxEntryNameLen_def)
  then show ?thesis
    using l assms by (simp add: id_name_def appendString_def id_uvarint_enc id_bytes_enc n)
qed

lemma appendString_length: "ValidEntryName s \<Longrightarrow> 2 \<le> length (appendString s)"
  using ValidEntryName_length [of s] append_uvarint_nonempty [of "word_of_nat (length s)"]
  by (cases "append_uvarint (word_of_nat (length s))"; cases s) (simp_all add: appendString_def)

interpretation uvar: prefix_codec "\<lambda>_. True" append_uvarint id_uvarint "clean_index k" "\<lambda>_. False"
  by unfold_locales (simp_all add: id_uvarint_enc)

interpretation name: prefix_codec ValidEntryName appendString id_name "clean_index k" "\<lambda>_. False"
  by unfold_locales (simp_all add: id_name_enc)

section \<open>What a clean decoder has accepted\<close>

abbreviation id_clean :: "indexDecoder \<Rightarrow> bool" where
  "id_clean d \<equiv> id_err d = None"

lemma id_fail_dirty [simp]: "id_err (id_fail what d) \<noteq> None" "id_b (id_fail what d) = []"
  "id_malformed (id_fail what d) = id_malformed d"
  by (auto simp: id_fail_def)

lemma id_uvarint_clean: "id_uvarint d = Ok (x, d') \<Longrightarrow> id_clean d' \<Longrightarrow> id_clean d"
  by (auto simp: id_uvarint_def Let_def bindR_Ok_conv split: prod.splits if_splits)

lemma id_varint_clean: "id_varint d = Ok (x, d') \<Longrightarrow> id_clean d' \<Longrightarrow> id_clean d"
  by (auto simp: id_varint_def Let_def bindR_Ok_conv split: prod.splits if_splits)

lemma id_count_clean: "id_count m d = Ok (n, d') \<Longrightarrow> id_clean d' \<Longrightarrow> id_clean d"
  by (auto simp: id_count_def bindR_Ok_conv dest: id_uvarint_clean split: if_splits)

lemma id_bytes_clean:
  "id_bytes n d = Ok (x, d') \<Longrightarrow> id_clean d' \<Longrightarrow> id_clean d \<and> int (length x) = n"
  by (auto simp: id_bytes_def bindR_Ok_conv cut_Ok_conv split: if_splits)

lemma id_readByte_clean: "id_readByte d = Ok (x, d') \<Longrightarrow> id_clean d' \<Longrightarrow> id_clean d"
  by (auto simp: id_readByte_def bindR_Ok_conv dest: id_bytes_clean split: if_splits)

lemma id_fail_neq: "id_clean d' \<Longrightarrow> id_fail what d \<noteq> d'" "id_clean d' \<Longrightarrow> d' \<noteq> id_fail what d"
  by auto

lemma id_name_clean: "id_name d = Ok (x, d') \<Longrightarrow> id_clean d' \<Longrightarrow> id_clean d \<and> ValidEntryName x"
  by (auto simp: id_name_def bindR_Ok_conv id_fail_neq dest!: id_bytes_clean dest: id_uvarint_clean
      split: if_splits)

lemmas id_cleans = id_uvarint_clean id_varint_clean id_count_clean id_bytes_clean id_readByte_clean id_name_clean

interpretation uvar_field: checked_field "\<lambda>_. True" id_uvarint id_clean
  by unfold_locales (auto dest: id_uvarint_clean)

interpretation name_field: checked_field ValidEntryName id_name id_clean
  by unfold_locales (auto dest: id_name_clean)

text \<open>Only \<^verbatim>\<open>bytes\<close> can panic, on a negative length.\<close>

lemma id_uvarint_no_panic [simp]: "id_uvarint d \<noteq> Panic"
  using uvarint_consumed [of "id_b d"]
  by (auto simp: id_uvarint_def Let_def bindR_Panic_conv cut_Panic_conv split: prod.splits)

lemma varint_consumed: "varint b = (v, n) \<Longrightarrow> n \<le> int (length b)"
  using uvarint_consumed [of b] by (auto simp: varint_def Let_def split: prod.splits)

lemma id_varint_no_panic [simp]: "id_varint d \<noteq> Panic"
  using varint_consumed [of "id_b d"]
  by (auto simp: id_varint_def Let_def bindR_Panic_conv cut_Panic_conv split: prod.splits)

lemma id_count_no_panic [simp]: "id_count m d \<noteq> Panic"
  by (auto simp: id_count_def bindR_Panic_conv)

lemma id_bytes_Panic_conv: "id_bytes n d = Panic \<longleftrightarrow> n < 0"
  by (auto simp: id_bytes_def bindR_Panic_conv cut_Panic_conv)

lemma id_readByte_no_panic [simp]: "id_readByte d \<noteq> Panic"
  by (auto simp: id_readByte_def bindR_Panic_conv id_bytes_Panic_conv index_Panic_conv)

lemma id_name_no_panic [simp]: "id_name d \<noteq> Panic"
proof -
  have "0 \<le> sint w" if "unat w \<le> MaxEntryNameLen" for w :: u64
    using that by (simp add: sint_small MaxEntryNameLen_def)
  then show ?thesis
    by (auto simp: id_name_def bindR_Panic_conv id_bytes_Panic_conv not_less split: if_splits)
qed

end
