(* ===== verification/Session_Index.thy ===== *)
theory Session_Index
  imports Index_Decoder
begin

text \<open>
  Session indexes and checkpoints of incremental archives (\<^verbatim>\<open>archive/incremental.go\<close>).
\<close>

definition EntryTypePack :: byte where "EntryTypePack = 0x03"
definition EntryTypeIndex :: byte where "EntryTypeIndex = 0x04"
definition EntryTypeCheckpoint :: byte where "EntryTypeCheckpoint = 0x05"
definition HeaderFlagIncremental :: byte where "HeaderFlagIncremental = 0x01"
definition MaxPackSize :: nat where "MaxPackSize = 64 * 1024 * 1024"
definition MaxIndexSize :: nat where "MaxIndexSize = 256 * 1024 * 1024"
definition MaxStoredChunkSize :: nat where "MaxStoredChunkSize = MaxCDCChunkSize + zstdMaxOverhead"
definition FooterSize :: nat where "FooterSize = HMACSize + ReservedSize"
definition checkpointMagic :: bytes where "checkpointMagic = str ''SARCCKP1''"
definition checkpointStateSize :: nat where "checkpointStateSize = 128"
definition indexMagic :: bytes where "indexMagic = str ''SARCIDX1''"
definition CheckpointSize :: nat where
  "CheckpointSize = 1 + length checkpointMagic + 8 + 2 + checkpointStateSize"
definition TailSize :: nat where "TailSize = CheckpointSize + 1 + FooterSize"

lemmas index_limits = MaxPackSize_def MaxIndexSize_def MaxStoredChunkSize_def MaxCDCChunkSize_def
  zstdMaxOverhead_def

record ChunkRecord =
  cr_ID :: bytes
  cr_Pack :: u32
  cr_Offset :: u64
  cr_StoredLen :: u32
  cr_RawLen :: u32
  cr_Codec :: Codec

record FileVersion =
  fv_Name :: bytes
  fv_Attributes :: Attributes
  fv_Size :: u64
  fv_Chunks :: "u64 list"

record SessionIndex =
  si_Session :: u64
  si_Time :: i64
  si_PrevIndex :: u64
  si_FirstChunk :: u64
  si_Packs :: "u64 list"
  si_Chunks :: "ChunkRecord list"
  si_Files :: "FileVersion list"
  si_Deleted :: "bytes list"

section \<open>Marshalling\<close>

definition u64_of_u32 :: "u32 \<Rightarrow> u64" where "u64_of_u32 w = word_of_nat (unat w)"
definition u32_of_u64 :: "u64 \<Rightarrow> u32" where "u32_of_u64 w = word_of_nat (unat w)"

definition chunk_bytes :: "ChunkRecord \<Rightarrow> bytes" where
  "chunk_bytes c = cr_ID c @ append_uvarint (u64_of_u32 (cr_Pack c)) @ append_uvarint (cr_Offset c)
     @ append_uvarint (u64_of_u32 (cr_StoredLen c)) @ append_uvarint (u64_of_u32 (cr_RawLen c))
     @ [cr_Codec c]"

fun chunk_deltas :: "u64 \<Rightarrow> u64 list \<Rightarrow> bytes" where
  "chunk_deltas prev [] = []"
| "chunk_deltas prev (n # ns) = append_varint (n - prev) @ chunk_deltas n ns"

definition has_data :: "FileVersion \<Rightarrow> bool" where
  "has_data f \<longleftrightarrow> fv_Size f \<noteq> 0 \<or> fv_Chunks f \<noteq> []"

definition file_record :: "FileVersion \<Rightarrow> bytes res" where
  "file_record f =
     (if \<not> ValidEntryName (fv_Name f) then Err (Errorf ''archive/incremental: invalid file name'')
      else if a_Kind (fv_Attributes f) \<noteq> KindRegular \<and> has_data f
      then Err (Errorf ''archive/incremental: entry with data'')
      else bindR (AppendAttributes [] (fv_Attributes f)) (\<lambda>attrs.
        Ok (appendString (fv_Name f) @ append_uvarint (word_of_nat (length attrs)) @ attrs
          @ append_uvarint (fv_Size f) @ append_uvarint (word_of_nat (length (fv_Chunks f)))
          @ chunk_deltas 0 (fv_Chunks f))))"

definition deleted_record :: "bytes \<Rightarrow> bytes res" where
  "deleted_record n =
     (if \<not> ValidEntryName n then Err (Errorf ''archive/incremental: invalid deleted name'')
      else Ok (appendString n))"

definition si_Marshal :: "SessionIndex \<Rightarrow> bytes res" where
  "si_Marshal si =
     (let b = indexMagic @ append_uvarint (si_Session si) @ append_varint (si_Time si)
            @ append_uvarint (si_PrevIndex si) @ append_uvarint (si_FirstChunk si)
            @ append_uvarint (word_of_nat (length (si_Packs si))) @ concat (map append_uvarint (si_Packs si))
            @ append_uvarint (word_of_nat (length (si_Chunks si))) @ concat (map chunk_bytes (si_Chunks si))
            @ append_uvarint (word_of_nat (length (si_Files si))) in
      bindR (appendAllR file_record b (si_Files si)) (\<lambda>b.
      bindR (appendAllR deleted_record (b @ append_uvarint (word_of_nat (length (si_Deleted si)))) (si_Deleted si)) (\<lambda>b.
        if MaxIndexSize < length b then Err (Errorf ''archive/incremental: index too large'') else Ok b)))"

section \<open>Parsing\<close>

definition chunk_check :: "nat \<Rightarrow> u64 \<Rightarrow> u64 \<Rightarrow> u64 \<Rightarrow> u64 \<Rightarrow> Codec \<Rightarrow> indexDecoder \<Rightarrow> indexDecoder" where
  "chunk_check packs pack offset stored raw codec d =
     (if id_err d \<noteq> None then d
      else if packs \<le> unat pack then id_fail ''chunk in unknown pack'' d
      else if stored = 0 \<or> MaxStoredChunkSize < unat stored \<or> raw = 0 \<or> MaxCDCChunkSize < unat raw
      then id_fail ''chunk size out of range'' d
      else if MaxPackSize < unat offset \<or> MaxPackSize - unat offset < unat stored
      then id_fail ''chunk past pack end'' d
      else if codec \<noteq> CodecNone \<and> codec \<noteq> CodecZstd then id_fail ''unknown chunk codec'' d
      else if codec = CodecNone \<and> stored \<noteq> raw
      then id_fail ''stored size of uncompressed chunk differs'' d
      else d)"

definition id_chunk :: "nat \<Rightarrow> indexDecoder \<Rightarrow> (ChunkRecord \<times> indexDecoder) res" where
  "id_chunk packs d =
     bindR (id_bytes (int HMACSize) d) (\<lambda>(ident, d).
     bindR (id_uvarint d) (\<lambda>(pack, d). bindR (id_uvarint d) (\<lambda>(offset, d).
     bindR (id_uvarint d) (\<lambda>(stored, d). bindR (id_uvarint d) (\<lambda>(raw, d).
     bindR (id_readByte d) (\<lambda>(codec, d).
       Ok (\<lparr>cr_ID = to_array HMACSize ident, cr_Pack = u32_of_u64 pack, cr_Offset = offset,
            cr_StoredLen = u32_of_u64 stored, cr_RawLen = u32_of_u64 raw, cr_Codec = codec\<rparr>,
           chunk_check packs pack offset stored raw codec d)))))))"

definition id_chunk_ref :: "u64 \<Rightarrow> u64 \<Rightarrow> indexDecoder \<Rightarrow> (u64 \<times> indexDecoder) res" where
  "id_chunk_ref chunkLimit prev d =
     bindR (id_varint d) (\<lambda>(v, d). let n = prev + v in
       Ok (n, if id_err d = None \<and> chunkLimit \<le> n then id_fail ''file references an unknown chunk'' d else d))"

fun id_chunk_refs :: "u64 \<Rightarrow> nat \<Rightarrow> u64 \<Rightarrow> indexDecoder \<Rightarrow> (u64 list \<times> indexDecoder) res" where
  "id_chunk_refs chunkLimit 0 prev d = Ok ([], d)"
| "id_chunk_refs chunkLimit (Suc k) prev d =
     bindR (id_chunk_ref chunkLimit prev d) (\<lambda>(n, d).
     bindR (id_chunk_refs chunkLimit k n d) (\<lambda>(ns, d). Ok (n # ns, d)))"

text \<open>The zero value of \<^verbatim>\<open>Attributes\<close>, which a failed read leaves in the file version.\<close>

definition zero_attributes :: Attributes where
  "zero_attributes = \<lparr>a_Kind = 0, a_Mode = 0, a_ModTime = 0, a_LinkTarget = [], a_Owner = None, a_Xattrs = []\<rparr>"

text \<open>
  The attributes field of a file version and of a directory record.  A length over the
  maximum is recorded as an error, but the read of that many bytes follows all the same.
\<close>

definition id_attributes :: "indexDecoder \<Rightarrow> (Attributes \<times> indexDecoder) res" where
  "id_attributes d =
     bindR (id_uvarint d) (\<lambda>(attrsLen, d).
     let d = (if MaxAttributesSize < unat attrsLen then id_fail ''attributes too large'' d else d) in
     bindR (id_bytes (sint attrsLen) d) (\<lambda>(raw, d).
       if id_err d = None
       then case ParseAttributes raw of
              Ok a \<Rightarrow> Ok (a, d)
            | Err _ \<Rightarrow> Ok (zero_attributes, id_fail ''bad attributes'' d)
            | Panic \<Rightarrow> Panic
       else Ok (zero_attributes, d)))"

definition id_file :: "u64 \<Rightarrow> indexDecoder \<Rightarrow> (FileVersion \<times> indexDecoder) res" where
  "id_file chunkLimit d =
     bindR (id_name d) (\<lambda>(name, d).
     bindR (id_attributes d) (\<lambda>(attrs, d).
     bindR (id_uvarint d) (\<lambda>(size, d).
     bindR (id_count 1 d) (\<lambda>(k, d).
     bindR (id_chunk_refs chunkLimit k 0 d) (\<lambda>(chunks, d).
     let f = \<lparr>fv_Name = name, fv_Attributes = attrs, fv_Size = size, fv_Chunks = chunks\<rparr> in
       Ok (f, if id_err d = None \<and> a_Kind attrs \<noteq> KindRegular \<and> has_data f
              then id_fail ''directory or link with data'' d else d))))))"

definition has_prefix :: "bytes \<Rightarrow> bytes \<Rightarrow> bool" where
  "has_prefix b p \<longleftrightarrow> take (length p) b = p"

definition ParseSessionIndex :: "bytes \<Rightarrow> SessionIndex res" where
  "ParseSessionIndex b =
     (if MaxIndexSize < length b \<or> \<not> has_prefix b indexMagic
      then Err (ErrMalformedIndex ''bad magic or size'')
      else
      let d = \<lparr>id_b = drop (length indexMagic) b, id_err = None, id_malformed = None\<rparr> in
      bindR (id_uvarint d) (\<lambda>(session, d).
      bindR (id_varint d) (\<lambda>(time, d).
      bindR (id_uvarint d) (\<lambda>(prevIndex, d).
      bindR (id_uvarint d) (\<lambda>(firstChunk, d).
      bindR (id_count 1 d) (\<lambda>(np, d).
      bindR (loopR (\<lambda>_. False) np id_uvarint d) (\<lambda>(packs, d).
      bindR (id_count (HMACSize + 5) d) (\<lambda>(nc, d).
      bindR (loopR (\<lambda>_. False) nc (id_chunk (length packs)) d) (\<lambda>(chunks, d).
      let chunkLimit = firstChunk + word_of_nat (length chunks) in
      bindR (id_count 5 d) (\<lambda>(nf, d).
      bindR (loopR (\<lambda>_. False) nf (id_file chunkLimit) d) (\<lambda>(files, d).
      bindR (id_count 2 d) (\<lambda>(nd, d).
      bindR (loopR (\<lambda>_. False) nd id_name d) (\<lambda>(deleted, d).
      case id_err d of Some e \<Rightarrow> Err e
      | None \<Rightarrow>
        if id_b d \<noteq> [] then Err (ErrMalformedIndex ''trailing bytes'')
        else if session = 0 then Err (ErrMalformedIndex ''session 0'')
        else Ok \<lparr>si_Session = session, si_Time = time, si_PrevIndex = prevIndex,
                 si_FirstChunk = firstChunk, si_Packs = packs, si_Chunks = chunks,
                 si_Files = files, si_Deleted = deleted\<rparr>)))))))))))))"

section \<open>Checkpoints\<close>

record Checkpoint =
  cp_LastIndex :: u64
  cp_HashState :: bytes

definition cp_Marshal :: "Checkpoint \<Rightarrow> bytes res" where
  "cp_Marshal c =
     (if checkpointStateSize < length (cp_HashState c)
      then Err (Errorf ''archive/incremental: hash state too long'')
      else let b = [EntryTypeCheckpoint] @ checkpointMagic @ le64 (cp_LastIndex c)
                 @ le16 (word_of_nat (length (cp_HashState c))) @ cp_HashState c in
        Ok (b @ replicate (CheckpointSize - length b) 0))"

definition ParseCheckpoint :: "bytes \<Rightarrow> Checkpoint res" where
  "ParseCheckpoint b =
     (if length b \<noteq> CheckpointSize \<or> b ! 0 \<noteq> EntryTypeCheckpoint
         \<or> take (length checkpointMagic) (drop 1 b) \<noteq> checkpointMagic
      then Err (ErrMalformedCheckpoint ''bad type or magic'')
      else let off = 1 + length checkpointMagic in
        bindR (uint64 (drop off b)) (\<lambda>li.
        bindR (uint16 (drop (off + 8) b)) (\<lambda>n.
        if checkpointStateSize < unat n then Err (ErrMalformedCheckpoint ''hash state too long'')
        else bindR (cut (unat n) (drop (off + 10) b)) (\<lambda>(st, _).
          Ok \<lparr>cp_LastIndex = li, cp_HashState = st\<rparr>))))"

section \<open>What a valid index is\<close>

definition chunk_ok :: "nat \<Rightarrow> ChunkRecord \<Rightarrow> bool" where
  "chunk_ok packs c \<longleftrightarrow>
     length (cr_ID c) = HMACSize \<and> unat (cr_Pack c) < packs
     \<and> 0 < unat (cr_StoredLen c) \<and> unat (cr_StoredLen c) \<le> MaxStoredChunkSize
     \<and> 0 < unat (cr_RawLen c) \<and> unat (cr_RawLen c) \<le> MaxCDCChunkSize
     \<and> unat (cr_Offset c) + unat (cr_StoredLen c) \<le> MaxPackSize
     \<and> knownCodec (cr_Codec c) \<and> (cr_Codec c = CodecNone \<longrightarrow> cr_StoredLen c = cr_RawLen c)"

definition file_ok :: "u64 \<Rightarrow> FileVersion \<Rightarrow> bool" where
  "file_ok chunkLimit f \<longleftrightarrow>
     ValidEntryName (fv_Name f) \<and> validate (fv_Attributes f) = None
     \<and> list_all (\<lambda>n. n < chunkLimit) (fv_Chunks f)
     \<and> (a_Kind (fv_Attributes f) = KindRegular \<or> \<not> has_data f)"

definition index_ok :: "SessionIndex \<Rightarrow> bool" where
  "index_ok si \<longleftrightarrow>
     si_Session si \<noteq> 0 \<and> list_all (chunk_ok (length (si_Packs si))) (si_Chunks si)
     \<and> list_all (file_ok (si_FirstChunk si + word_of_nat (length (si_Chunks si)))) (si_Files si)
     \<and> list_all ValidEntryName (si_Deleted si)"

section \<open>Round trip, field by field\<close>

lemma u32_u64 [simp]: "unat (u64_of_u32 w) = unat w" "u32_of_u64 (u64_of_u32 w) = w"
proof -
  have "unat w < 2 ^ 64" using unat_bound [of w] by simp
  then show 1: "unat (u64_of_u32 w) = unat w"
    unfolding u64_of_u32_def unat_of_nat by simp
  show "u32_of_u64 (u64_of_u32 w) = w" unfolding u32_of_u64_def 1 by simp
qed

lemma u32_of_u64_small: "unat w < 2 ^ 32 \<Longrightarrow> unat (u32_of_u64 w) = unat w"
  unfolding u32_of_u64_def unat_of_nat by simp

lemma u32_of_u64_le: "unat (u32_of_u64 w) \<le> unat w"
  unfolding u32_of_u64_def unat_of_nat by simp

lemma u64_of_u32_eq_iff: "u64_of_u32 v = u64_of_u32 w \<longleftrightarrow> v = w" "u64_of_u32 w = 0 \<longleftrightarrow> unat w = 0"
proof -
  show "u64_of_u32 v = u64_of_u32 w \<longleftrightarrow> v = w" by (metis u32_u64(2))
  show "u64_of_u32 w = 0 \<longleftrightarrow> unat w = 0" by (metis u32_u64(1) unat_0 word_unat_eq_iff)
qed

lemma id_chunk_enc:
  assumes "chunk_ok packs c"
  shows "id_chunk packs (clean_index k (chunk_bytes c @ r)) = Ok (c, clean_index k r)"
proof -
  have "chunk_check packs (u64_of_u32 (cr_Pack c)) (cr_Offset c) (u64_of_u32 (cr_StoredLen c))
      (u64_of_u32 (cr_RawLen c)) (cr_Codec c) (clean_index k r) = clean_index k r"
    using assms by (auto simp: chunk_check_def chunk_ok_def knownCodec_def u64_of_u32_eq_iff)
  then show ?thesis
    using assms
    by (cases c) (simp add: id_chunk_def chunk_bytes_def codec_simps chunk_ok_def)
qed

lemma id_chunk_refs_enc:
  "list_all (\<lambda>n. n < limit) ns \<Longrightarrow>
   id_chunk_refs limit (length ns) prev (clean_index k (chunk_deltas prev ns @ r)) = Ok (ns, clean_index k r)"
  by (induction ns arbitrary: prev) (auto simp: id_chunk_ref_def id_varint_enc Let_def dest: leD)

lemma id_attributes_enc:
  assumes "validate a = None"
  shows "id_attributes (clean_index k
      (append_uvarint (word_of_nat (length (attributes_bytes a))) @ attributes_bytes a @ r)) = Ok (a, clean_index k r)"
proof -
  have l: "length (attributes_bytes a) \<le> MaxAttributesSize" using attributes_bytes_bounds [OF assms] by simp
  have n: "unat (word_of_nat (length (attributes_bytes a)) :: u64) = length (attributes_bytes a)"
    using l by (simp add: unat_of_nat attr_limits MaxAttributesSize_def)
  have "sint (word_of_nat (length (attributes_bytes a)) :: u64) = int (length (attributes_bytes a))"
    using l n by (subst sint_small) (simp_all only: n, simp add: attr_limits MaxAttributesSize_def)
  then show ?thesis
    using l by (simp add: id_attributes_def codec_simps n ParseAttributes_bytes [OF assms])
qed

definition file_bytes :: "FileVersion \<Rightarrow> bytes" where
  "file_bytes f = appendString (fv_Name f)
     @ append_uvarint (word_of_nat (length (attributes_bytes (fv_Attributes f)))) @ attributes_bytes (fv_Attributes f)
     @ append_uvarint (fv_Size f) @ append_uvarint (word_of_nat (length (fv_Chunks f)))
     @ chunk_deltas 0 (fv_Chunks f)"

lemma file_record_Ok_conv:
  "file_record f = Ok e \<longleftrightarrow>
     (ValidEntryName (fv_Name f) \<and> validate (fv_Attributes f) = None
      \<and> (a_Kind (fv_Attributes f) = KindRegular \<or> \<not> has_data f)) \<and> e = file_bytes f"
  by (auto simp: file_record_def file_bytes_def AppendAttributes_def split: option.splits if_splits)

lemma deleted_record_Ok_conv: "deleted_record n = Ok e \<longleftrightarrow> ValidEntryName n \<and> e = appendString n"
  by (auto simp: deleted_record_def)

lemma append_uvarint_length: "1 \<le> length (append_uvarint x)"
  using append_uvarint_nonempty [of x] by (cases "append_uvarint x") auto

lemma append_varint_length: "1 \<le> length (append_varint x)"
  using append_varint_nonempty [of x] by (cases "append_varint x") auto

lemma chunk_deltas_length: "length ns \<le> length (chunk_deltas prev ns)"
proof (induction ns arbitrary: prev)
  case (Cons n ns)
  show ?case using append_varint_length [of "n - prev"] Cons.IH [of n] by simp
qed simp

lemma id_file_enc:
  assumes "file_ok limit f" and "length (fv_Chunks f) < 2 ^ 64"
  shows "id_file limit (clean_index k (file_bytes f @ r)) = Ok (f, clean_index k r)"
proof -
  have f: "ValidEntryName (fv_Name f)" "validate (fv_Attributes f) = None"
    "list_all (\<lambda>n. n < limit) (fv_Chunks f)" "a_Kind (fv_Attributes f) = KindRegular \<or> \<not> has_data f"
    using assms(1) by (simp_all add: file_ok_def)
  have count: "id_count (Suc 0) (clean_index k (append_uvarint (word_of_nat (length (fv_Chunks f)))
      @ chunk_deltas 0 (fv_Chunks f) @ r)) = Ok (length (fv_Chunks f), clean_index k (chunk_deltas 0 (fv_Chunks f) @ r))"
    using chunk_deltas_length [of "fv_Chunks f" 0] by (intro id_count_enc assms(2)) simp_all
  have same: "\<lparr>fv_Name = fv_Name f, fv_Attributes = fv_Attributes f, fv_Size = fv_Size f,
      fv_Chunks = fv_Chunks f\<rparr> = f" by simp
  show ?thesis
    using f(4)
    by (auto simp: id_file_def file_bytes_def id_name_enc [OF f(1)] id_attributes_enc [OF f(2)]
        id_uvarint_enc count id_chunk_refs_enc [OF f(3)] Let_def same)
qed

interpretation chunk: prefix_codec "chunk_ok packs" chunk_bytes "id_chunk packs" "clean_index k" "\<lambda>_. False"
  by unfold_locales (simp_all add: id_chunk_enc)

interpretation filever: prefix_codec "\<lambda>f. file_ok limit f \<and> length (fv_Chunks f) < 2 ^ 64" file_bytes
  "id_file limit" "clean_index k" "\<lambda>_. False"
  by unfold_locales (simp_all add: id_file_enc)

lemma chunk_bytes_length: "chunk_ok packs c \<Longrightarrow> 37 \<le> length (chunk_bytes c)"
  using append_uvarint_length [of "u64_of_u32 (cr_Pack c)"] append_uvarint_length [of "cr_Offset c"]
    append_uvarint_length [of "u64_of_u32 (cr_StoredLen c)"] append_uvarint_length [of "u64_of_u32 (cr_RawLen c)"]
  by (simp add: chunk_bytes_def chunk_ok_def HMACSize_def)

lemma file_bytes_length: "file_ok limit f \<Longrightarrow> 5 \<le> length (file_bytes f)"
  using appendString_length [of "fv_Name f"] attributes_bytes_bounds [of "fv_Attributes f"]
  by (auto simp: file_bytes_def file_ok_def)

section \<open>Session index round trip\<close>

lemma si_Marshal_Ok_conv:
  "si_Marshal si = Ok b \<longleftrightarrow>
     list_all (\<lambda>f. ValidEntryName (fv_Name f) \<and> validate (fv_Attributes f) = None
        \<and> (a_Kind (fv_Attributes f) = KindRegular \<or> \<not> has_data f)) (si_Files si)
     \<and> list_all ValidEntryName (si_Deleted si) \<and> length b \<le> MaxIndexSize
     \<and> b = indexMagic @ append_uvarint (si_Session si) @ append_varint (si_Time si)
            @ append_uvarint (si_PrevIndex si) @ append_uvarint (si_FirstChunk si)
            @ append_uvarint (word_of_nat (length (si_Packs si))) @ concat (map append_uvarint (si_Packs si))
            @ append_uvarint (word_of_nat (length (si_Chunks si))) @ concat (map chunk_bytes (si_Chunks si))
            @ append_uvarint (word_of_nat (length (si_Files si))) @ concat (map file_bytes (si_Files si))
            @ append_uvarint (word_of_nat (length (si_Deleted si))) @ concat (map appendString (si_Deleted si))"
  unfolding si_Marshal_def Let_def bindR_Ok_conv
    appendAllR_Ok_conv [of file_record, OF file_record_Ok_conv]
    appendAllR_Ok_conv [of deleted_record, OF deleted_record_Ok_conv]
  by (auto split: if_splits)

lemma count_reads:
  assumes "\<And>x. x \<in> set xs \<Longrightarrow> m \<le> length (enc x)" and "0 < m"
    and "length (concat (map enc xs)) \<le> MaxIndexSize"
  shows "id_count m (clean_index k (append_uvarint (word_of_nat (length xs)) @ concat (map enc xs) @ r))
    = Ok (length xs, clean_index k (concat (map enc xs) @ r))"
proof (rule id_count_enc)
  have "length xs * m \<le> length (concat (map enc xs))" using length_concat_ge assms(1) by blast
  then show "length xs * m \<le> length (concat (map enc xs) @ r)" by (simp only: length_append)
  have "length xs \<le> length xs * m" using assms(2) by simp
  also have "\<dots> \<le> MaxIndexSize"
    using \<open>length xs * m \<le> length (concat (map enc xs))\<close> assms(3) by linarith
  also have "\<dots> < 2 ^ 64" by (simp add: index_limits)
  finally show "length xs < 2 ^ 64" .
qed (rule assms(2))

lemma ParseSessionIndex_Marshal:
  assumes m: "si_Marshal si = Ok b" and ok: "index_ok si"
  shows "ParseSessionIndex b = Ok si"
proof -
  note b = m [unfolded si_Marshal_Ok_conv]
  let ?files = "concat (map file_bytes (si_Files si))" and ?del = "concat (map appendString (si_Deleted si))"
  have sizes: "length (concat (map append_uvarint (si_Packs si))) \<le> MaxIndexSize"
    "length (concat (map chunk_bytes (si_Chunks si))) \<le> MaxIndexSize"
    "length ?files \<le> MaxIndexSize" "length ?del \<le> MaxIndexSize" "length b \<le> MaxIndexSize"
    using b by (auto simp del: length_concat)
  have "length (fv_Chunks f) < 2 ^ 64" if "f \<in> set (si_Files si)" for f
  proof -
    have "length (file_bytes f) \<le> length ?files"
      using that by (rule length_concat_member)
    moreover have "length (fv_Chunks f) \<le> length (file_bytes f)"
      using chunk_deltas_length [of "fv_Chunks f" 0] by (simp add: file_bytes_def)
    ultimately have "length (fv_Chunks f) \<le> MaxIndexSize" using sizes(3) by linarith
    then show ?thesis by (simp add: index_limits)
  qed
  then have files: "list_all (\<lambda>f. file_ok (si_FirstChunk si + word_of_nat (length (si_Chunks si))) f
      \<and> length (fv_Chunks f) < 2 ^ 64) (si_Files si)"
    using ok by (simp add: index_ok_def list_all_iff)
  have chunks: "list_all (chunk_ok (length (si_Packs si))) (si_Chunks si)"
    and del: "list_all ValidEntryName (si_Deleted si)" and s0: "si_Session si \<noteq> 0"
    using ok by (simp_all add: index_ok_def)
  have c1: "id_count (Suc 0) (clean_index k (append_uvarint (word_of_nat (length (si_Packs si))) @ concat (map append_uvarint (si_Packs si)) @ r))
    = Ok (length (si_Packs si), clean_index k (concat (map append_uvarint (si_Packs si)) @ r))" for k r
    using append_uvarint_length sizes(1) by (intro count_reads) simp_all
  have c2: "id_count (HMACSize + 5) (clean_index k (append_uvarint (word_of_nat (length (si_Chunks si))) @ concat (map chunk_bytes (si_Chunks si)) @ r))
    = Ok (length (si_Chunks si), clean_index k (concat (map chunk_bytes (si_Chunks si)) @ r))" for k r
    using chunks chunk_bytes_length sizes(2) by (intro count_reads) (auto simp: list_all_iff HMACSize_def)
  have c3: "id_count 5 (clean_index k (append_uvarint (word_of_nat (length (si_Files si))) @ ?files @ r))
    = Ok (length (si_Files si), clean_index k (?files @ r))" for k r
    using files file_bytes_length sizes(3) by (intro count_reads) (auto simp: list_all_iff)
  have c4: "id_count 2 (clean_index k (append_uvarint (word_of_nat (length (si_Deleted si))) @ ?del))
    = Ok (length (si_Deleted si), clean_index k ?del)" for k
    using del appendString_length sizes(4) count_reads [of "si_Deleted si" 2 appendString "[]" k]
    by (auto simp: list_all_iff)
  have l4: "loopR (\<lambda>_. False) (length (si_Deleted si)) id_name (clean_index k ?del) = Ok (si_Deleted si, clean_index k [])" for k
    using name.loop_enc [OF del, where r = "[]"] by simp
  have l1: "loopR (\<lambda>_. False) (length xs) id_uvarint (clean_index k (concat (map append_uvarint xs) @ r))
      = Ok (xs, clean_index k r)" for k xs r
    by (rule uvar.loop_enc) (simp add: list_all_iff)
  have pre: "has_prefix b indexMagic" using b by (simp add: has_prefix_def)
  show ?thesis
    using sizes(5) pre s0 unfolding ParseSessionIndex_def
    by (subst (3) conjunct2 [OF conjunct2 [OF conjunct2 [OF b]]])
      (simp add: id_uvarint_enc id_varint_enc c1 c2 c3 c4 l1 l4 chunk.loop_enc [OF chunks]
        filever.loop_enc [OF files] Let_def)
qed

section \<open>What the parser accepts is valid\<close>

lemma id_chunk_clean: "id_chunk packs d = Ok (c, d') \<Longrightarrow> id_clean d' \<Longrightarrow> id_clean d \<and> chunk_ok packs c"
proof -
  assume a: "id_chunk packs d = Ok (c, d')" and cl: "id_clean d'"
  obtain ident d1 pack d2 off d3 stored d4 raw d5 codec d6
    where s: "id_bytes (int HMACSize) d = Ok (ident, d1)" "id_uvarint d1 = Ok (pack, d2)"
      "id_uvarint d2 = Ok (off, d3)" "id_uvarint d3 = Ok (stored, d4)" "id_uvarint d4 = Ok (raw, d5)"
      "id_readByte d5 = Ok (codec, d6)"
      and c: "c = \<lparr>cr_ID = to_array HMACSize ident, cr_Pack = u32_of_u64 pack, cr_Offset = off,
            cr_StoredLen = u32_of_u64 stored, cr_RawLen = u32_of_u64 raw, cr_Codec = codec\<rparr>"
      and d': "d' = chunk_check packs pack off stored raw codec d6"
    using a by (auto simp: id_chunk_def bindR_Ok_conv)
  have k: "id_clean d6" "unat pack < packs" "stored \<noteq> 0" "unat stored \<le> MaxStoredChunkSize" "raw \<noteq> 0"
    "unat raw \<le> MaxCDCChunkSize" "unat off \<le> MaxPackSize" "unat stored \<le> MaxPackSize - unat off"
    "knownCodec codec" "codec = CodecNone \<longrightarrow> stored = raw"
    using cl by (auto simp: d' chunk_check_def knownCodec_def not_less not_le split: if_splits)
  have sm: "unat (u32_of_u64 stored) = unat stored" "unat (u32_of_u64 raw) = unat raw"
    using k(4,6) by (simp_all add: u32_of_u64_small index_limits)
  have pos: "0 < unat stored" "0 < unat raw" using k(3,5) by (simp_all add: unat_gt_0)
  have "id_clean d" using s k(1) by (blast dest: id_cleans)
  then show ?thesis
    using k pos order.strict_trans1 [OF u32_of_u64_le k(2)] by (simp add: c chunk_ok_def sm)
qed

lemma id_chunk_refs_clean:
  "id_chunk_refs limit n prev d = Ok (ns, d') \<Longrightarrow> id_clean d' \<Longrightarrow> id_clean d \<and> list_all (\<lambda>n. n < limit) ns"
proof (induction n arbitrary: prev d ns)
  case (Suc n)
  then obtain m d1 ms where m: "id_chunk_ref limit prev d = Ok (m, d1)"
    and ms: "id_chunk_refs limit n m d1 = Ok (ms, d')" and ns: "ns = m # ms"
    by (auto simp: bindR_Ok_conv)
  have "id_clean d1 \<and> list_all (\<lambda>n. n < limit) ms" using Suc.IH [OF ms Suc.prems(2)] .
  with m show ?case
    by (auto simp: ns id_chunk_ref_def bindR_Ok_conv Let_def not_le id_fail_neq dest: id_varint_clean split: if_splits)
qed simp

lemma id_attributes_steps:
  assumes "id_attributes d = Ok (a, d')"
  obtains n d1 raw d2 where "id_uvarint d = Ok (n, d1)"
    and "id_bytes (sint n) (if MaxAttributesSize < unat n then id_fail ''attributes too large'' d1 else d1)
      = Ok (raw, d2)"
    and "id_clean d2 \<and> ParseAttributes raw = Ok a \<and> d' = d2 \<or> id_err d' \<noteq> None \<and> (d' = d2 \<or> id_b d' = [])"
proof -
  obtain n d1 raw d2 where n: "id_uvarint d = Ok (n, d1)"
    and raw: "id_bytes (sint n) (if MaxAttributesSize < unat n then id_fail ''attributes too large'' d1 else d1)
      = Ok (raw, d2)"
    and fin: "(if id_err d2 = None
       then case ParseAttributes raw of
              Ok a \<Rightarrow> Ok (a, d2)
            | Err _ \<Rightarrow> Ok (zero_attributes, id_fail ''bad attributes'' d2)
            | Panic \<Rightarrow> Panic
       else Ok (zero_attributes, d2)) = Ok (a, d')"
    using assms by (auto simp: id_attributes_def bindR_Ok_conv Let_def simp del: not_None_eq)
  have "id_clean d2 \<and> ParseAttributes raw = Ok a \<and> d' = d2 \<or> id_err d' \<noteq> None \<and> (d' = d2 \<or> id_b d' = [])"
    using fin by (auto simp: id_fail_def split: if_splits res.splits)
  with n raw show ?thesis using that by blast
qed

lemma id_attributes_clean:
  assumes "id_attributes d = Ok (a, d')" and "id_clean d'"
  shows "id_clean d \<and> validate a = None"
  using assms(1)
proof (rule id_attributes_steps)
  fix n d1 raw d2
  assume n: "id_uvarint d = Ok (n, d1)"
    and raw: "id_bytes (sint n) (if MaxAttributesSize < unat n then id_fail ''attributes too large'' d1 else d1)
      = Ok (raw, d2)"
    and fin: "id_clean d2 \<and> ParseAttributes raw = Ok a \<and> d' = d2 \<or> id_err d' \<noteq> None \<and> (d' = d2 \<or> id_b d' = [])"
  from fin assms(2) have d2: "id_clean d2" and a: "ParseAttributes raw = Ok a" by auto
  have "id_clean d1" using id_bytes_clean [OF raw d2] by (auto split: if_splits)
  with id_uvarint_clean [OF n] ParseAttributes_inv [OF a] show ?thesis by simp
qed

lemma id_file_clean:
  assumes "id_file limit d = Ok (f, d')" and "id_clean d'"
  shows "id_clean d \<and> file_ok limit f"
proof -
  obtain name d1 attrs d2 size d3 k d4 chunks d5
    where s: "id_name d = Ok (name, d1)" "id_attributes d1 = Ok (attrs, d2)" "id_uvarint d2 = Ok (size, d3)"
      "id_count 1 d3 = Ok (k, d4)" "id_chunk_refs limit k 0 d4 = Ok (chunks, d5)"
      and f: "f = \<lparr>fv_Name = name, fv_Attributes = attrs, fv_Size = size, fv_Chunks = chunks\<rparr>"
      and d': "d' = (if id_err d5 = None \<and> a_Kind attrs \<noteq> KindRegular \<and> has_data f
              then id_fail ''directory or link with data'' d5 else d5)"
    using assms(1) by (auto simp: id_file_def bindR_Ok_conv Let_def)
  have d5: "id_clean d5" and kind: "a_Kind attrs = KindRegular \<or> \<not> has_data f"
    using assms(2) by (auto simp: d' split: if_splits)
  note c = id_chunk_refs_clean [OF s(5) d5]
  with s(3,4) have "id_clean d2" by (blast dest: id_cleans)
  note a = id_attributes_clean [OF s(2) this]
  with id_name_clean [OF s(1)] c kind show ?thesis by (simp add: file_ok_def f)
qed

interpretation chunk_field: checked_field "chunk_ok packs" "id_chunk packs" id_clean
  by unfold_locales (rule id_chunk_clean)

interpretation file_field: checked_field "file_ok limit" "id_file limit" id_clean
  by unfold_locales (rule id_file_clean)

lemma ParseSessionIndex_ok:
  assumes "ParseSessionIndex b = Ok si" shows "index_ok si"
proof -
  obtain d5 nc d6 chunks d7 nf d8 files d9 nd d10 deleted d11 packs
    where s: "id_count (HMACSize + 5) d5 = Ok (nc, d6)"
      "loopR (\<lambda>_. False) nc (id_chunk (length packs)) d6 = Ok (chunks, d7)"
      "id_count 5 d7 = Ok (nf, d8)"
      "loopR (\<lambda>_. False) nf (id_file (si_FirstChunk si + word_of_nat (length chunks))) d8 = Ok (files, d9)"
      "id_count 2 d9 = Ok (nd, d10)" "loopR (\<lambda>_. False) nd id_name d10 = Ok (deleted, d11)"
      and cl: "id_clean d11" and s0: "si_Session si \<noteq> 0"
      and si: "si_Packs si = packs" "si_Chunks si = chunks" "si_Files si = files" "si_Deleted si = deleted"
    using assms
    by (auto simp: ParseSessionIndex_def bindR_Ok_conv Let_def split: if_splits option.splits)
  note l = name_field.loop_good [OF s(6) cl]
  with s(5) have "id_clean d9" by (blast dest: id_cleans)
  note f = file_field.loop_good [OF s(4) this]
  with s(3) have "id_clean d7" by (blast dest: id_cleans)
  note c = chunk_field.loop_good [OF s(2) this]
  show ?thesis using l f c s0 by (simp add: index_ok_def si)
qed

text \<open>
  A session index that the writer marshals is read back exactly: if \<^verbatim>\<open>Marshal\<close> succeeds on
  a valid index (chunks inside the packs listed, files that reference known chunks, safe
  names), \<^verbatim>\<open>ParseSessionIndex\<close> returns that index, with every delta-coded chunk number,
  timestamp and attribute intact.
\<close>

lemma session_index_roundtrip:
  assumes "index_ok si" and "si_Marshal si = Ok b"
  shows "ParseSessionIndex b = Ok si"
  using assms by (rule ParseSessionIndex_Marshal [rotated])

text \<open>
  Whatever bytes it is given, an index that \<^verbatim>\<open>ParseSessionIndex\<close> returns is valid: every
  chunk lies within a listed pack and its size limits, every file references only chunks
  below \<^verbatim>\<open>FirstChunk + len(Chunks)\<close>, every name is a valid entry name and every attribute set
  is valid, and directories and links carry no data.
\<close>

lemma session_index_sound:
  assumes "ParseSessionIndex b = Ok si"
  shows "index_ok si"
  using assms by (rule ParseSessionIndex_ok)

definition sample_index :: SessionIndex where
  "sample_index = \<lparr>si_Session = 2, si_Time = 1700000000, si_PrevIndex = 900, si_FirstChunk = 5,
     si_Packs = [1000], si_Chunks = [\<lparr>cr_ID = replicate 32 9, cr_Pack = 0, cr_Offset = 0,
       cr_StoredLen = 300, cr_RawLen = 700, cr_Codec = CodecZstd\<rparr>],
     si_Files = [\<lparr>fv_Name = str ''a/b'', fv_Attributes = \<lparr>a_Kind = KindRegular, a_Mode = 0x1A4, a_ModTime = 12,
        a_LinkTarget = [], a_Owner = None, a_Xattrs = []\<rparr>, fv_Size = 1400, fv_Chunks = [5, 3, 5]\<rparr>],
     si_Deleted = [str ''old'']\<rparr>"

lemma append_varint_length_le: "length (append_uvarint x) \<le> 10" "length (append_varint y) \<le> 10"
proof -
  show u: "length (append_uvarint x) \<le> 10" for x
    using uvarint_consumed [OF uvarint_append [of x "[]"]] by simp
  show "length (append_varint y) \<le> 10" by (simp add: append_varint_def u)
qed

lemma sample_index_ok: "index_ok sample_index"
proof -
  have "ValidEntryName (str ''a/b'')" "ValidEntryName (str ''old'')"
    by (simp_all add: ValidEntryName_def str_def MaxEntryNameLen_def slash_def backslash_def dot_def)
  then show ?thesis
    by (simp add: index_ok_def sample_index_def chunk_ok_def file_ok_def index_limits HMACSize_def
        knownCodec_def CodecZstd_def CodecNone_def validate_def attr_limits kind_defs ModeMask_def)
qed

lemma sample_index_marshal: "\<exists>b. si_Marshal sample_index = Ok b"
proof -
  have l: "length (append_uvarint x) \<le> 10" "length (append_varint y) \<le> 10" for x y
    by (rule append_varint_length_le)+
  have "ValidEntryName (str ''a/b'')" "ValidEntryName (str ''old'')" "validate (fv_Attributes (hd (si_Files sample_index))) = None"
    using sample_index_ok by (simp_all add: index_ok_def file_ok_def sample_index_def)
  then show ?thesis
    unfolding si_Marshal_Ok_conv
    using l(1) [of 2] l(1) [of 900] l(1) [of 5] l(1) [of 1] l(1) [of 1000] l(1) [of "u64_of_u32 0"] l(1) [of 0]
      l(1) [of "u64_of_u32 300"] l(1) [of "u64_of_u32 700"] l(1) [of 3] l(1) [of 18] l(1) [of 1400]
      l(2) [of 1700000000] l(2) [of 5] l(2) [of "-2"] l(2) [of 2]
    by (simp add: sample_index_def indexMagic_def chunk_bytes_def file_bytes_def appendString_def
        attributes_bytes_def owner_fields_def MaxIndexSize_def)
qed

theorem session_index_roundtrip_witness:
  "index_ok sample_index \<and> (\<exists>b. si_Marshal sample_index = Ok b \<and> ParseSessionIndex b = Ok sample_index)"
  using sample_index_ok sample_index_marshal session_index_roundtrip by blast

theorem session_index_sound_witness:
  "\<exists>b. ParseSessionIndex b = Ok sample_index \<and> index_ok sample_index"
  using sample_index_ok sample_index_marshal ParseSessionIndex_Marshal session_index_sound by blast

section \<open>The one panic of the decoder\<close>

lemma id_attributes_panic:
  "id_attributes (clean_index k (append_uvarint n @ r)) = Panic \<longleftrightarrow> sint n < 0"
proof -
  have "id_bytes (sint n) (if c then id_fail w d else d) = Panic \<longleftrightarrow> sint n < 0" for c w d
    by (simp add: id_bytes_Panic_conv)
  moreover have "(case ParseAttributes raw of Ok a \<Rightarrow> Ok (f a) | Err _ \<Rightarrow> Ok z | Panic \<Rightarrow> Panic) \<noteq> Panic"
    for raw and f :: "Attributes \<Rightarrow> Attributes \<times> indexDecoder" and z
    using ParseAttributes_no_panic [of raw] by (simp split: res.splits)
  ultimately show ?thesis
    by (auto simp: id_attributes_def id_uvarint_enc bindR_Panic_conv Let_def simp del: if_split split: if_split_asm)
qed

definition hostile_index :: bytes where
  "hostile_index = indexMagic @ append_uvarint 1 @ append_varint 0 @ append_uvarint 0 @ append_uvarint 0
     @ append_uvarint 0 @ append_uvarint 0 @ append_uvarint 1
     @ appendString (str ''a'') @ append_uvarint 0x8000000000000000 @ replicate 8 0"

text \<open>
  C40: an attributes length of at least \<open>2\<^sup>6\<^sup>3\<close> is not reported as a malformed index: the
  decoder records the error but then slices with the length converted to a negative
  \<^verbatim>\<open>int\<close>, and \<^verbatim>\<open>ParseSessionIndex\<close> panics.
\<close>

theorem ParseSessionIndex_panics: "ParseSessionIndex hostile_index = Panic"
proof -
  have name: "ValidEntryName (str ''a'')"
    by (simp add: ValidEntryName_def str_def MaxEntryNameLen_def slash_def backslash_def dot_def)
  have neg: "sint (0x8000000000000000 :: u64) < 0" by simp
  let ?rest = "append_uvarint (0x8000000000000000 :: u64) @ replicate 8 0 :: bytes"
  have fpanic: "id_file 0 (clean_index k (appendString (str ''a'') @ ?rest)) = Panic" for k
    by (simp add: id_file_def id_name_enc [OF name] id_attributes_panic [THEN iffD2, OF neg] del: append_assoc)
  have count: "id_count m (clean_index k (append_uvarint 0 @ r)) = Ok (0, clean_index k r)" for m k r
    by (simp add: id_count_def id_uvarint_enc)
  have count1: "id_count 5 (clean_index k (append_uvarint 1 @ appendString (str ''a'') @ ?rest))
      = Ok (Suc 0, clean_index k (appendString (str ''a'') @ ?rest))" for k
    by (simp add: id_count_def id_uvarint_enc)
  have size: "\<not> MaxIndexSize < length hostile_index"
    using append_varint_length_le(1) [of 0] append_varint_length_le(1) [of 1] append_varint_length_le(2) [of 0]
      append_varint_length_le(1) [of "0x8000000000000000"]
    by (simp add: hostile_index_def indexMagic_def appendString_def MaxIndexSize_def)
  have pre: "has_prefix hostile_index indexMagic" by (simp add: hostile_index_def has_prefix_def)
  show ?thesis
    unfolding ParseSessionIndex_def using size pre
    by (subst (3) hostile_index_def) (simp add: id_uvarint_enc id_varint_enc count count1 fpanic)
qed

section \<open>Checkpoint round trip\<close>

lemma checkpoint_sizes: "length checkpointMagic = 8" "CheckpointSize = 147"
  by (simp_all add: CheckpointSize_def checkpointMagic_def checkpointStateSize_def)

lemma ParseCheckpoint_no_panic: "ParseCheckpoint b \<noteq> Panic"
  by (auto simp: ParseCheckpoint_def Let_def bindR_Panic_conv uint_Panic_conv cut_Panic_conv
      checkpoint_sizes checkpointStateSize_def)

lemma checkpoint_marshalled:
  assumes "length (cp_HashState c) \<le> checkpointStateSize"
  shows "\<exists>b. cp_Marshal c = Ok b \<and> length b = CheckpointSize \<and> hd b = EntryTypeCheckpoint
    \<and> ParseCheckpoint b = Ok c"
proof -
  have h: "length (cp_HashState c) \<le> 128" using assms by (simp add: checkpointStateSize_def)
  then have n: "unat (word_of_nat (length (cp_HashState c)) :: u16) = length (cp_HashState c)"
    by (simp add: unat_of_nat)
  define pad where "pad = replicate (128 - length (cp_HashState c)) (0 :: byte)"
  have m: "cp_Marshal c = Ok ([EntryTypeCheckpoint] @ checkpointMagic @ le64 (cp_LastIndex c)
      @ le16 (word_of_nat (length (cp_HashState c))) @ cp_HashState c @ pad)" (is "_ = Ok ?b")
    using h by (simp add: cp_Marshal_def checkpointStateSize_def Let_def checkpoint_sizes pad_def)
  have l: "length ?b = CheckpointSize" using h by (simp add: checkpoint_sizes pad_def)
  have d: "drop (1 + length checkpointMagic + k) ?b
      = drop k (le64 (cp_LastIndex c) @ le16 (word_of_nat (length (cp_HashState c))) @ cp_HashState c @ pad)" for k
    by simp
  have "ParseCheckpoint ?b = Ok c"
    unfolding ParseCheckpoint_def Let_def using l h d [of 0] d [of 8] d [of 10]
    by (simp add: checkpointStateSize_def n)
  with m l show ?thesis by simp
qed

text \<open>
  A checkpoint whose hash state fits is encoded in exactly \<^verbatim>\<open>CheckpointSize\<close> bytes,
  beginning with its entry type, and parsing those bytes returns the same checkpoint, the
  zero padding after the hash state left out.
\<close>

lemma checkpoint_roundtrip:
  assumes "length (cp_HashState c) \<le> checkpointStateSize"
  shows "\<exists>b. cp_Marshal c = Ok b \<and> length b = CheckpointSize \<and> hd b = EntryTypeCheckpoint
    \<and> ParseCheckpoint b = Ok c"
  by (rule checkpoint_marshalled [OF assms])

theorem checkpoint_roundtrip_witness:
  "\<exists>b. cp_Marshal \<lparr>cp_LastIndex = 4711, cp_HashState = replicate 108 3\<rparr> = Ok b \<and> length b = 147"
  using checkpoint_roundtrip [of "\<lparr>cp_LastIndex = 4711, cp_HashState = replicate 108 3\<rparr>"]
  by (auto simp: checkpointStateSize_def checkpoint_sizes)

end
