(* ===== verification/Checksum.thy ===== *)
theory Checksum
  imports Recipients Session_Index
begin

text \<open>
  The footer checksum (\<^verbatim>\<open>archive/checksum.go\<close>).  A running SHA-256 is the bytes written to it so
  far; saving and restoring its state is a parameter, since the state's encoding belongs to
  \<^verbatim>\<open>crypto/sha256\<close>.
\<close>

record hash_codec =
  hc_Marshal :: "bytes \<Rightarrow> bytes"
  hc_Unmarshal :: "bytes \<Rightarrow> bytes res"

text \<open>
  Documented behaviour of \<^verbatim>\<open>encoding.BinaryMarshaler\<close> for hashes: a restored hash continues as the
  one that was saved.
\<close>

definition hash_resumes :: "prims \<Rightarrow> hash_codec \<Rightarrow> bool" where
  "hash_resumes P H \<longleftrightarrow>
     (\<forall>x. \<exists>y. hc_Unmarshal H (hc_Marshal H x) = Ok y \<and> (\<forall>z. sha256 P (y @ z) = sha256 P (x @ z)))"

definition headerPrefixLen :: nat where "headerPrefixLen = 4 + 2 + 4"

record ArchiveChecksum =
  ac_h :: bytes
  ac_head :: bytes
  ac_done :: bool

definition NewArchiveChecksum :: ArchiveChecksum where
  "NewArchiveChecksum = \<lparr>ac_h = [], ac_head = [], ac_done = False\<rparr>"

definition ResumeArchiveChecksum :: "hash_codec \<Rightarrow> bytes \<Rightarrow> ArchiveChecksum res" where
  "ResumeArchiveChecksum H state =
     bindR (wrapR ''archive/checksum: restore state'' (hc_Unmarshal H state)) (\<lambda>h.
       Ok \<lparr>ac_h = h, ac_head = [], ac_done = True\<rparr>)"

text \<open>\<^verbatim>\<open>clear(b[i:j])\<close>.\<close>

definition clear :: "nat \<Rightarrow> nat \<Rightarrow> bytes \<Rightarrow> bytes" where
  "clear i j b = take i b @ replicate (j - i) 0 @ drop j b"

definition hash_head :: "bytes \<Rightarrow> ArchiveChecksum \<Rightarrow> ArchiveChecksum" where
  "hash_head head c = \<lparr>ac_h = ac_h c @ head, ac_head = [], ac_done = True\<rparr>"

definition flushHeader :: "bool \<Rightarrow> ArchiveChecksum \<Rightarrow> ArchiveChecksum" where
  "flushHeader final c =
     (let head = ac_head c in
      if length head < headerPrefixLen \<and> \<not> final then c
      else if headerPrefixLen \<le> length head \<and> take 4 head = Magic
              \<and> word_le 2 (drop 4 head) = Version2
      then
        let blockLen = unat (word_le 4 (drop 6 head) :: u32);
            countOff = headerPrefixLen + blockLen;
            flagOff = countOff + FileCountSealedSize in
        if blockLen \<le> MaxRecipientBlockSize
        then if length head \<le> flagOff \<and> \<not> final then c
             else if flagOff < length head \<and> head ! flagOff AND HeaderFlagIncremental \<noteq> 0
             then hash_head (clear countOff flagOff head) c
             else hash_head head c
        else hash_head head c
      else hash_head head c)"

definition ac_Write :: "ArchiveChecksum \<Rightarrow> bytes \<Rightarrow> ArchiveChecksum" where
  "ac_Write c p =
     (if ac_done c then c\<lparr>ac_h := ac_h c @ p\<rparr>
      else flushHeader False (c\<lparr>ac_head := ac_head c @ p\<rparr>))"

definition ac_Sum :: "prims \<Rightarrow> ArchiveChecksum \<Rightarrow> bytes \<Rightarrow> bytes \<times> ArchiveChecksum" where
  "ac_Sum P c b =
     (let c = (if \<not> ac_done c then flushHeader True c else c) in (b @ sha256 P (ac_h c), c))"

definition ac_MarshalBinary :: "hash_codec \<Rightarrow> ArchiveChecksum \<Rightarrow> bytes res" where
  "ac_MarshalBinary H c =
     (if \<not> ac_done c then Err (Errorf ''archive/checksum: header not yet hashed'')
      else Ok (hc_Marshal H (ac_h c)))"

section \<open>What the checksum is of\<close>

text \<open>
  The archive with the sealed session count of an incremental header read as zeros.  A
  header is one with the magic, Version2 and a recipient block within bounds.
\<close>

definition count_off :: "bytes \<Rightarrow> nat" where
  "count_off b = headerPrefixLen + unat (word_le 4 (drop 6 b) :: u32)"

definition v2_header :: "bytes \<Rightarrow> bool" where
  "v2_header b \<longleftrightarrow> headerPrefixLen \<le> length b \<and> take 4 b = Magic \<and> word_le 2 (drop 4 b) = Version2
     \<and> unat (word_le 4 (drop 6 b) :: u32) \<le> MaxRecipientBlockSize"

definition masked :: "bytes \<Rightarrow> bytes" where
  "masked b =
     (if v2_header b \<and> count_off b + FileCountSealedSize < length b
         \<and> b ! (count_off b + FileCountSealedSize) AND HeaderFlagIncremental \<noteq> 0
      then clear (count_off b) (count_off b + FileCountSealedSize) b else b)"

text \<open>The layout is known once these bytes have been seen; more bytes do not change it.\<close>

definition layout_known :: "bytes \<Rightarrow> bool" where
  "layout_known b \<longleftrightarrow> headerPrefixLen \<le> length b
     \<and> (v2_header b \<longrightarrow> count_off b + FileCountSealedSize < length b)"

lemma flushHeader_masked:
  "flushHeader final \<lparr>ac_h = h, ac_head = b, ac_done = False\<rparr> =
     (if layout_known b \<or> final then \<lparr>ac_h = h @ masked b, ac_head = [], ac_done = True\<rparr>
      else \<lparr>ac_h = h, ac_head = b, ac_done = False\<rparr>)"
  by (auto simp: flushHeader_def layout_known_def v2_header_def masked_def count_off_def hash_head_def Let_def)

lemma word_le_prefix: "k \<le> length b \<Longrightarrow> word_le k (b @ r) = word_le k b"
  by (simp add: word_le_def)

lemma v2_header_append:
  assumes "headerPrefixLen \<le> length b"
  shows "v2_header (b @ r) = v2_header b" and "count_off (b @ r) = count_off b"
proof -
  have l: "10 \<le> length b" using assms by (simp add: headerPrefixLen_def)
  then have "word_le 4 (drop 6 b @ r) = (word_le 4 (drop 6 b) :: u32)"
      "word_le 2 (drop 4 b @ r) = (word_le 2 (drop 4 b) :: u16)"
    by (auto intro: word_le_prefix)
  with l assms show "v2_header (b @ r) = v2_header b" "count_off (b @ r) = count_off b"
    by (auto simp: v2_header_def count_off_def)
qed

lemma layout_known_append: "layout_known b \<Longrightarrow> layout_known (b @ r)"
  by (auto simp: layout_known_def v2_header_append)

lemma masked_append:
  assumes "layout_known b" shows "masked (b @ r) = masked b @ r"
proof -
  have l: "headerPrefixLen \<le> length b" using assms by (simp add: layout_known_def)
  show ?thesis
    using assms by (auto simp: masked_def v2_header_append [OF l] layout_known_def nth_append clear_def)
qed

text \<open>Two writes are one write of both.\<close>

lemma ac_Write_append: "ac_Write (ac_Write c x) y = ac_Write c (x @ y)"
proof (cases "ac_done c")
  case False
  then obtain h b where c: "c = \<lparr>ac_h = h, ac_head = b, ac_done = False\<rparr>" by (cases c) auto
  show ?thesis
    using layout_known_append [of "b @ x" y] masked_append [of "b @ x" y]
    by (simp add: c ac_Write_def flushHeader_masked)
qed (simp add: ac_Write_def)

text \<open>The state after any sequence of writes depends only on the bytes written.\<close>

definition checksum_state :: "bytes \<Rightarrow> ArchiveChecksum" where
  "checksum_state b =
     (if layout_known b then \<lparr>ac_h = masked b, ac_head = [], ac_done = True\<rparr>
      else \<lparr>ac_h = [], ac_head = b, ac_done = False\<rparr>)"

lemma ac_Write_state: "ac_Write (checksum_state b) p = checksum_state (b @ p)"
  by (auto simp: ac_Write_def checksum_state_def flushHeader_masked layout_known_append masked_append)

lemma checksum_new: "NewArchiveChecksum = checksum_state []"
  by (simp add: NewArchiveChecksum_def checksum_state_def layout_known_def headerPrefixLen_def)

lemma checksum_writes: "foldl ac_Write (checksum_state b) ps = checksum_state (b @ concat ps)"
  by (induction ps arbitrary: b) (simp_all add: ac_Write_state)

lemma ac_Sum_state: "fst (ac_Sum P (checksum_state b) pre) = pre @ sha256 P (masked b)"
  by (simp add: ac_Sum_def checksum_state_def flushHeader_masked Let_def)

text \<open>
  C33: the checksum does not depend on how the archive is cut into writes: it is the SHA-256 of
  the archive with the sealed session count of an incremental header masked.
\<close>

theorem checksum_of_writes:
  "fst (ac_Sum P (foldl ac_Write NewArchiveChecksum ps) []) = sha256 P (masked (concat ps))"
  by (simp add: checksum_new checksum_writes ac_Sum_state)

section \<open>Updating and resuming\<close>

lemma masked_count_irrelevant:
  assumes "headerPrefixLen \<le> length h" and "count_off h = length h"
    and "length c = FileCountSealedSize" and "length c' = FileCountSealedSize"
    and "v2_header h" and "flags AND HeaderFlagIncremental \<noteq> 0"
  shows "masked (h @ c @ flags # r) = masked (h @ c' @ flags # r)"
  using assms
  by (simp add: masked_def v2_header_append [OF assms(1)] clear_def nth_append)

text \<open>
  An update that rewrites the sealed session count in an incremental header leaves the
  checksum of the archive unchanged, and a checksum resumed from a saved state finishes as
  the original would: appending bytes \<open>z\<close> after resuming gives the checksum of the whole
  archive.
\<close>

lemma checksum_update:
  assumes "hash_resumes P H" and "v2_header h" and "count_off h = length h"
    and "length c = FileCountSealedSize" and "length c' = FileCountSealedSize"
    and "flags AND HeaderFlagIncremental \<noteq> 0"
    and "st = foldl ac_Write NewArchiveChecksum [h @ c @ flags # r]"
  shows "\<exists>saved resumed. ac_MarshalBinary H st = Ok saved \<and> ResumeArchiveChecksum H saved = Ok resumed
    \<and> fst (ac_Sum P (foldl ac_Write resumed zs) []) = sha256 P (masked (h @ c' @ flags # r @ concat zs))"
proof -
  let ?b = "h @ c @ flags # r"
  have hl: "headerPrefixLen \<le> length h" using assms(2) by (simp add: v2_header_def)
  have known: "layout_known ?b"
    using hl assms(3,4) by (simp add: layout_known_def v2_header_append [OF hl])
  have st: "st = \<lparr>ac_h = masked ?b, ac_head = [], ac_done = True\<rparr>"
    using known checksum_writes [of "[]" "[?b]"] by (simp add: assms(7) checksum_new checksum_state_def [of ?b])
  obtain y where y: "hc_Unmarshal H (hc_Marshal H (masked ?b)) = Ok y"
    "\<And>z. sha256 P (y @ z) = sha256 P (masked ?b @ z)"
    using assms(1) by (auto simp: hash_resumes_def)
  let ?r = "\<lparr>ac_h = y, ac_head = [], ac_done = True\<rparr>"
  have w: "foldl ac_Write \<lparr>ac_h = h, ac_head = [], ac_done = True\<rparr> zs
      = \<lparr>ac_h = h @ concat zs, ac_head = [], ac_done = True\<rparr>" for h
    by (induction zs arbitrary: h) (simp_all add: ac_Write_def)
  have "masked ?b @ concat zs = masked (h @ c' @ flags # r @ concat zs)"
    using masked_append [OF known, of "concat zs"] masked_count_irrelevant [OF hl assms(3-5,2,6), of "r @ concat zs"]
    by simp
  then have "fst (ac_Sum P (foldl ac_Write ?r zs) []) = sha256 P (masked (h @ c' @ flags # r @ concat zs))"
    by (simp add: w ac_Sum_def y(2))
  then show ?thesis
    by (intro exI [of _ "hc_Marshal H (masked ?b)"] exI [of _ ?r])
      (simp add: st ac_MarshalBinary_def ResumeArchiveChecksum_def y(1))
qed

definition toy_hash_codec :: hash_codec where
  "toy_hash_codec = \<lparr>hc_Marshal = take 32, hc_Unmarshal = Ok\<rparr>"

lemma toy_hash_resumes: "hash_resumes toy_prims toy_hash_codec"
proof -
  have "to_array 32 (take 32 x @ z) = to_array 32 (x @ z)" for x z
    by (cases "length x \<le> 32") (simp_all add: to_array_def)
  then show ?thesis by (auto simp: hash_resumes_def toy_hash_codec_def toy_prims_def)
qed

theorem checksum_update_witness:
  "\<exists>saved resumed. ac_MarshalBinary toy_hash_codec
      (foldl ac_Write NewArchiveChecksum [(Magic @ le16 Version2 @ le32 0) @ replicate 36 1 @ 1 # [2, 3]]) = Ok saved
     \<and> ResumeArchiveChecksum toy_hash_codec saved = Ok resumed"
proof -
  let ?h = "Magic @ le16 Version2 @ le32 0"
  have w: "word_le 2 (le16 Version2 @ le32 0) = Version2" "word_le 4 (le32 0) = (0 :: u32)"
    using word_le_enc [of 2 Version2 "le32 0"] word_le_enc [of 4 "0 :: u32" "[]"] by (simp_all add: le16_def le32_def)
  have h: "v2_header ?h" "count_off ?h = length ?h"
    using w by (simp_all add: v2_header_def count_off_def headerPrefixLen_def Magic_def)
  have c: "length (replicate 36 (1 :: byte)) = FileCountSealedSize"
    by (simp add: FileCountSealedSize_def NonceSize_def GCMTagSize_def)
  have f: "(1 :: byte) AND HeaderFlagIncremental \<noteq> 0" by (simp add: HeaderFlagIncremental_def)
  from checksum_update [OF toy_hash_resumes h c c f refl, of "[2, 3]"] show ?thesis by blast
qed

end
