(* ===== verification/Directory.thy ===== *)
theory Directory
  imports Session_Index
begin

text \<open>
  The directory of a Version2 archive and its locator (\<^verbatim>\<open>archive/directory.go\<close>).
\<close>

definition EntryTypeDirectory :: byte where "EntryTypeDirectory = 0x06"
definition EntryTypeDirectoryLocator :: byte where "EntryTypeDirectoryLocator = 0x07"
definition MaxDirectorySize :: nat where "MaxDirectorySize = 16 * 1024 * 1024"
definition directoryMagic :: bytes where "directoryMagic = str ''SARCDIR1''"
definition directoryLocatorMagic :: bytes where "directoryLocatorMagic = str ''SARCDLC1''"
definition directoryFlagSolid :: byte where "directoryFlagSolid = 0x01"
definition DirectoryLocatorSize :: nat where
  "DirectoryLocatorSize = 1 + length directoryLocatorMagic + 8"
definition DirectoryTailSize :: nat where
  "DirectoryTailSize = DirectoryLocatorSize + 1 + FooterSize"

record DirectoryRecord =
  dr_Offset :: u64
  dr_Name :: bytes
  dr_Attributes :: Attributes
  dr_SizeBucket :: SizeBucket
  dr_Codec :: Codec
  dr_Solid :: bool
  dr_OriginalSize :: u64
  dr_StoredSize :: u64

definition NewDirectory :: bytes where "NewDirectory = directoryMagic"

definition dr_has_data :: "DirectoryRecord \<Rightarrow> bool" where
  "dr_has_data r \<longleftrightarrow> dr_OriginalSize r \<noteq> 0 \<or> dr_StoredSize r \<noteq> 0"

definition dr_flags :: "bool \<Rightarrow> byte" where
  "dr_flags solid = (if solid then 0 OR directoryFlagSolid else 0)"

definition AppendDirectoryRecord :: "bytes \<Rightarrow> DirectoryRecord \<Rightarrow> bytes res" where
  "AppendDirectoryRecord dir r =
     (if \<not> ValidEntryName (dr_Name r) then Err (Errorf ''archive/directory: invalid entry name'')
      else if a_Kind (dr_Attributes r) \<noteq> KindRegular \<and> dr_has_data r
      then Err (Errorf ''archive/directory: entry with data'')
      else bindR (AppendAttributes [] (dr_Attributes r)) (\<lambda>attrs.
        Ok (dir @ append_uvarint (dr_Offset r) @ appendString (dr_Name r)
          @ [dr_flags (dr_Solid r), dr_SizeBucket r, dr_Codec r]
          @ append_uvarint (word_of_nat (length attrs)) @ attrs
          @ append_uvarint (dr_OriginalSize r) @ append_uvarint (dr_StoredSize r))))"

fun AppendDirectoryRecords :: "bytes \<Rightarrow> DirectoryRecord list \<Rightarrow> bytes res" where
  "AppendDirectoryRecords dir [] = Ok dir"
| "AppendDirectoryRecords dir (r # rs) =
     bindR (AppendDirectoryRecord dir r) (\<lambda>dir. AppendDirectoryRecords dir rs)"

definition dr_check :: "byte \<Rightarrow> DirectoryRecord \<Rightarrow> indexDecoder \<Rightarrow> indexDecoder" where
  "dr_check flags r d =
     (if id_err d \<noteq> None then d
      else if flags AND NOT directoryFlagSolid \<noteq> 0 then id_fail ''unknown flags'' d
      else if BucketHuge < dr_SizeBucket r then id_fail ''unknown size bucket'' d
      else if dr_Codec r \<noteq> CodecNone \<and> dr_Codec r \<noteq> CodecZstd then id_fail ''unknown codec'' d
      else if a_Kind (dr_Attributes r) \<noteq> KindRegular \<and> dr_has_data r
      then id_fail ''directory or link with data'' d
      else d)"

definition id_directoryRecord :: "indexDecoder \<Rightarrow> (DirectoryRecord \<times> indexDecoder) res" where
  "id_directoryRecord d =
     bindR (id_uvarint d) (\<lambda>(off, d). bindR (id_name d) (\<lambda>(name, d).
     bindR (id_readByte d) (\<lambda>(flags, d). bindR (id_readByte d) (\<lambda>(bucket, d).
     bindR (id_readByte d) (\<lambda>(codec, d). bindR (id_attributes d) (\<lambda>(attrs, d).
     bindR (id_uvarint d) (\<lambda>(orig, d). bindR (id_uvarint d) (\<lambda>(stored, d).
     let r = \<lparr>dr_Offset = off, dr_Name = name, dr_Attributes = attrs, dr_SizeBucket = bucket,
              dr_Codec = codec, dr_Solid = (flags AND directoryFlagSolid \<noteq> 0),
              dr_OriginalSize = orig, dr_StoredSize = stored\<rparr> in
       Ok (r, dr_check flags r d)))))))))"

text \<open>Every read leaves at most as many bytes as there were, and the record's first field fewer.\<close>

abbreviation id_left :: "indexDecoder \<Rightarrow> nat" where "id_left d \<equiv> length (id_b d)"

lemma id_uvarint_left:
  "id_uvarint d = Ok (x, d') \<Longrightarrow> id_left d' \<le> id_left d"
  "id_uvarint d = Ok (x, d') \<Longrightarrow> id_b d \<noteq> [] \<Longrightarrow> id_left d' < id_left d"
  by (auto simp: id_uvarint_def Let_def bindR_Ok_conv cut_Ok_conv split: prod.splits if_splits)

lemma id_bytes_left: "id_bytes n d = Ok (x, d') \<Longrightarrow> id_left d' \<le> id_left d"
  by (auto simp: id_bytes_def bindR_Ok_conv cut_Ok_conv split: if_splits)

lemma id_readByte_left: "id_readByte d = Ok (x, d') \<Longrightarrow> id_left d' \<le> id_left d"
  by (auto simp: id_readByte_def bindR_Ok_conv dest: id_bytes_left split: if_splits)

lemma id_name_left: "id_name d = Ok (x, d') \<Longrightarrow> id_left d' \<le> id_left d"
  by (fastforce simp: id_name_def bindR_Ok_conv dest: id_bytes_left id_uvarint_left(1) split: if_splits)

lemma id_attributes_left:
  assumes "id_attributes d = Ok (a, d')" shows "id_left d' \<le> id_left d"
  using assms
proof (rule id_attributes_steps)
  fix n d1 raw d2
  assume n: "id_uvarint d = Ok (n, d1)"
    and raw: "id_bytes (sint n) (if MaxAttributesSize < unat n then id_fail ''attributes too large'' d1 else d1)
      = Ok (raw, d2)"
    and fin: "id_clean d2 \<and> ParseAttributes raw = Ok a \<and> d' = d2 \<or> id_err d' \<noteq> None \<and> (d' = d2 \<or> id_b d' = [])"
  have "id_left d2 \<le> id_left d1" using id_bytes_left [OF raw] by (auto split: if_splits)
  with id_uvarint_left(1) [OF n] fin show ?thesis by auto
qed

lemma dr_check_left: "id_left (dr_check flags r d) \<le> id_left d"
  by (simp add: dr_check_def)

lemma id_directoryRecord_left:
  assumes "id_directoryRecord d = Ok (r, d')" and "id_b d \<noteq> []"
  shows "id_left d' < id_left d"
proof -
  obtain off d1 name d2 flags d3 bucket d4 codec d5 attrs d6 orig d7 stored d8
    where "id_uvarint d = Ok (off, d1)" "id_name d1 = Ok (name, d2)" "id_readByte d2 = Ok (flags, d3)"
      "id_readByte d3 = Ok (bucket, d4)" "id_readByte d4 = Ok (codec, d5)" "id_attributes d5 = Ok (attrs, d6)"
      "id_uvarint d6 = Ok (orig, d7)" "id_uvarint d7 = Ok (stored, d8)" "d' = dr_check flags r d8"
    using assms(1) by (auto simp: id_directoryRecord_def bindR_Ok_conv Let_def)
  note s = this
  from id_uvarint_left(2) [OF s(1) assms(2)] id_name_left [OF s(2)] id_readByte_left [OF s(3)]
    id_readByte_left [OF s(4)] id_readByte_left [OF s(5)] id_attributes_left [OF s(6)]
    id_uvarint_left(1) [OF s(7)] id_uvarint_left(1) [OF s(8)] dr_check_left [of flags r d8]
  show ?thesis by (simp add: s(9))
qed

function directory_loop :: "indexDecoder \<Rightarrow> (DirectoryRecord list \<times> indexDecoder) res" where
  "directory_loop d =
     (if 0 < length (id_b d) \<and> id_err d = None
      then bindR (id_directoryRecord d) (\<lambda>(r, d). bindR (directory_loop d) (\<lambda>(rs, d). Ok (r # rs, d)))
      else Ok ([], d))"
  by pat_completeness auto
termination
  by (relation "measure id_left") (auto dest: id_directoryRecord_left)

declare directory_loop.simps [simp del]

definition ParseDirectory :: "bytes \<Rightarrow> DirectoryRecord list res" where
  "ParseDirectory b =
     (if MaxDirectorySize < length b \<or> \<not> has_prefix b directoryMagic
      then Err (ErrMalformedDirectory ''bad magic or size'')
      else bindR (directory_loop \<lparr>id_b = drop (length directoryMagic) b, id_err = None,
                                  id_malformed = Some MalformedDirectory\<rparr>) (\<lambda>(records, d).
        case id_err d of Some e \<Rightarrow> Err e | None \<Rightarrow> Ok records))"

definition AppendDirectoryLocator :: "bytes \<Rightarrow> u64 \<Rightarrow> bytes" where
  "AppendDirectoryLocator dst off =
     dst @ [EntryTypeDirectoryLocator] @ directoryLocatorMagic @ le64 off"

definition ParseDirectoryLocator :: "bytes \<Rightarrow> u64 res" where
  "ParseDirectoryLocator b =
     (if length b \<noteq> DirectoryLocatorSize \<or> b ! 0 \<noteq> EntryTypeDirectoryLocator
         \<or> take (length directoryLocatorMagic) (drop 1 b) \<noteq> directoryLocatorMagic
      then Err (ErrMalformedDirectory ''bad locator'')
      else uint64 (drop (1 + length directoryLocatorMagic) b))"

section \<open>Round trip\<close>

definition dr_ok :: "DirectoryRecord \<Rightarrow> bool" where
  "dr_ok r \<longleftrightarrow> ValidEntryName (dr_Name r) \<and> validate (dr_Attributes r) = None
     \<and> dr_SizeBucket r \<le> BucketHuge \<and> knownCodec (dr_Codec r)
     \<and> (a_Kind (dr_Attributes r) = KindRegular \<or> \<not> dr_has_data r)"

definition dr_bytes :: "DirectoryRecord \<Rightarrow> bytes" where
  "dr_bytes r = append_uvarint (dr_Offset r) @ appendString (dr_Name r)
     @ [dr_flags (dr_Solid r), dr_SizeBucket r, dr_Codec r]
     @ append_uvarint (word_of_nat (length (attributes_bytes (dr_Attributes r))))
     @ attributes_bytes (dr_Attributes r)
     @ append_uvarint (dr_OriginalSize r) @ append_uvarint (dr_StoredSize r)"

lemma AppendDirectoryRecord_ok: "dr_ok r \<Longrightarrow> AppendDirectoryRecord dir r = Ok (dir @ dr_bytes r)"
  by (auto simp: AppendDirectoryRecord_def dr_ok_def dr_bytes_def AppendAttributes_def)

lemma AppendDirectoryRecords_ok:
  "list_all dr_ok rs \<Longrightarrow> AppendDirectoryRecords dir rs = Ok (dir @ concat (map dr_bytes rs))"
  by (induction rs arbitrary: dir) (simp_all add: AppendDirectoryRecord_ok)

lemma dr_flags_solid: "dr_flags s AND directoryFlagSolid \<noteq> 0 \<longleftrightarrow> s"
  "dr_flags s AND NOT directoryFlagSolid = 0"
  by (simp_all add: dr_flags_def directoryFlagSolid_def)

lemma id_directoryRecord_enc:
  assumes "dr_ok r"
  shows "id_directoryRecord (clean_index k (dr_bytes r @ rest)) = Ok (r, clean_index k rest)"
proof -
  have r: "ValidEntryName (dr_Name r)" "validate (dr_Attributes r) = None"
    using assms by (simp_all add: dr_ok_def)
  have chk: "dr_check (dr_flags (dr_Solid r)) r (clean_index k rest) = clean_index k rest"
    using assms by (auto simp: dr_check_def dr_ok_def knownCodec_def dr_flags_solid not_less [symmetric])
  have same: "\<lparr>dr_Offset = dr_Offset r, dr_Name = dr_Name r, dr_Attributes = dr_Attributes r,
      dr_SizeBucket = dr_SizeBucket r, dr_Codec = dr_Codec r, dr_Solid = dr_Solid r,
      dr_OriginalSize = dr_OriginalSize r, dr_StoredSize = dr_StoredSize r\<rparr> = r" by simp
  show ?thesis
    by (simp add: id_directoryRecord_def dr_bytes_def same chk id_uvarint_enc id_name_enc [OF r(1)]
        id_readByte_enc id_attributes_enc [OF r(2)] dr_flags_solid Let_def)
qed

interpretation dirrec: prefix_codec dr_ok dr_bytes id_directoryRecord "clean_index k" "\<lambda>_. False"
  by unfold_locales (simp_all add: id_directoryRecord_enc)

lemma directory_loop_enc:
  "list_all dr_ok rs \<Longrightarrow> directory_loop (clean_index k (concat (map dr_bytes rs))) = Ok (rs, clean_index k [])"
proof (induction rs)
  case Nil
  show ?case by (simp add: directory_loop.simps)
next
  case (Cons r rs)
  have "dr_bytes r \<noteq> []" by (simp add: dr_bytes_def)
  with Cons show ?case
    by (subst directory_loop.simps) (simp add: id_directoryRecord_enc)
qed

section \<open>What is accepted\<close>

lemma id_directoryRecord_clean:
  assumes "id_directoryRecord d = Ok (r, d')" and "id_clean d'"
  shows "id_clean d \<and> dr_ok r"
proof -
  obtain off d1 name d2 flags d3 bucket d4 codec d5 attrs d6 orig d7 stored d8
    where s: "id_uvarint d = Ok (off, d1)" "id_name d1 = Ok (name, d2)" "id_readByte d2 = Ok (flags, d3)"
      "id_readByte d3 = Ok (bucket, d4)" "id_readByte d4 = Ok (codec, d5)" "id_attributes d5 = Ok (attrs, d6)"
      "id_uvarint d6 = Ok (orig, d7)" "id_uvarint d7 = Ok (stored, d8)" "d' = dr_check flags r d8"
      and r: "dr_Name r = name" "dr_Attributes r = attrs" "dr_SizeBucket r = bucket" "dr_Codec r = codec"
    using assms(1) by (auto simp: id_directoryRecord_def bindR_Ok_conv Let_def)
  have d8: "id_clean d8" and chk: "bucket \<le> BucketHuge" "knownCodec codec"
      "a_Kind attrs = KindRegular \<or> \<not> dr_has_data r"
    using assms(2) r by (auto simp: s(9) dr_check_def knownCodec_def not_less split: if_splits)
  have "id_clean d6" using s(7,8) d8 by (blast dest: id_cleans)
  note a = id_attributes_clean [OF s(6) this]
  then have "id_clean d2" using s(3,4,5) by (blast dest: id_cleans)
  note n = id_name_clean [OF s(2) this]
  show ?thesis using n a chk s(1) by (auto simp: dr_ok_def r dest: id_cleans)
qed

lemma directory_loop_clean:
  "directory_loop d = Ok (rs, d') \<Longrightarrow> id_clean d' \<Longrightarrow> list_all dr_ok rs"
proof (induction d arbitrary: rs rule: directory_loop.induct)
  case (1 d)
  show ?case
  proof (cases "0 < length (id_b d) \<and> id_err d = None")
    case True
    then obtain r d1 rs' where r: "id_directoryRecord d = Ok (r, d1)" and l: "directory_loop d1 = Ok (rs', d')"
      and rs: "rs = r # rs'"
      using "1.prems"(1) by (auto simp: directory_loop.simps [of d] bindR_Ok_conv)
    have "list_all dr_ok rs'" using "1.IH" [OF True r refl l "1.prems"(2)] .
    moreover have "id_clean d1"
    proof (rule ccontr)
      assume "\<not> id_clean d1"
      then have "d1 = d'" using l by (auto simp: directory_loop.simps [of d1])
      with \<open>\<not> id_clean d1\<close> "1.prems"(2) show False by simp
    qed
    ultimately show ?thesis using id_directoryRecord_clean [OF r] by (simp add: rs)
  next
    case False
    with "1.prems"(1) show ?thesis by (auto simp: directory_loop.simps [of d])
  qed
qed

text \<open>
  A directory reads back as it was written, and nothing invalid is ever read: appending
  valid records to a new directory succeeds, and, within the size limit, \<^verbatim>\<open>ParseDirectory\<close>
  returns exactly those records in order.
\<close>

lemma directory_roundtrip:
  assumes "list_all dr_ok rs"
  shows "\<exists>b. AppendDirectoryRecords NewDirectory rs = Ok b \<and>
    (length b \<le> MaxDirectorySize \<longrightarrow> ParseDirectory b = Ok rs)"
proof -
  let ?b = "directoryMagic @ concat (map dr_bytes rs)"
  have "AppendDirectoryRecords NewDirectory rs = Ok ?b"
    by (simp add: AppendDirectoryRecords_ok [OF assms] NewDirectory_def)
  moreover have "ParseDirectory ?b = Ok rs" if "length ?b \<le> MaxDirectorySize"
    using that by (simp add: ParseDirectory_def has_prefix_def directory_loop_enc [OF assms])
  ultimately show ?thesis by blast
qed

text \<open>
  Every record that \<^verbatim>\<open>ParseDirectory\<close> returns, for any input, has a valid entry name, valid
  attributes, a known size bucket and codec, and sizes only if it is a regular file.
\<close>

lemma directory_sound:
  assumes "ParseDirectory b = Ok rs"
  shows "list_all dr_ok rs"
  using assms directory_loop_clean
  by (auto simp: ParseDirectory_def bindR_Ok_conv split: if_splits option.splits)

definition sample_record :: DirectoryRecord where
  "sample_record = \<lparr>dr_Offset = 4096, dr_Name = str ''d'', dr_Attributes = zero_attributes\<lparr>a_Mode := 0x1ED\<rparr>,
     dr_SizeBucket = BucketSmall, dr_Codec = CodecZstd, dr_Solid = True,
     dr_OriginalSize = 2000, dr_StoredSize = 800\<rparr>"

lemma sample_record_ok: "dr_ok sample_record"
proof -
  have "ValidEntryName (str ''d'')"
    by (simp add: ValidEntryName_def str_def MaxEntryNameLen_def slash_def backslash_def dot_def)
  then show ?thesis
    by (simp add: dr_ok_def sample_record_def zero_attributes_def validate_def attr_limits kind_defs
        ModeMask_def BucketSmall_def BucketHuge_def knownCodec_def)
qed

lemma sample_directory: "\<exists>b. AppendDirectoryRecords NewDirectory [sample_record] = Ok b \<and> length b \<le> MaxDirectorySize"
  using append_varint_length_le(1) [of 4096] append_varint_length_le(1) [of 1] append_varint_length_le(1) [of 18]
    append_varint_length_le(1) [of 2000] append_varint_length_le(1) [of 800]
  by (simp add: AppendDirectoryRecord_ok [OF sample_record_ok] NewDirectory_def directoryMagic_def
      MaxDirectorySize_def)
    (simp add: sample_record_def dr_bytes_def appendString_def zero_attributes_def attributes_bytes_def
      owner_fields_def)

theorem directory_roundtrip_witness:
  "\<exists>b. AppendDirectoryRecords NewDirectory [sample_record] = Ok b \<and> ParseDirectory b = Ok [sample_record]"
  using directory_roundtrip [of "[sample_record]"] sample_record_ok sample_directory by fastforce

theorem directory_sound_witness: "ParseDirectory directoryMagic = Ok [] \<and> list_all dr_ok []"
proof -
  have p: "ParseDirectory directoryMagic = Ok []"
    by (simp add: ParseDirectory_def has_prefix_def directoryMagic_def MaxDirectorySize_def directory_loop.simps)
  from directory_sound [OF p] p show ?thesis by simp
qed

section \<open>The locator\<close>

lemma directory_locator_roundtrip:
  "length (AppendDirectoryLocator [] off) = DirectoryLocatorSize
   \<and> ParseDirectoryLocator (AppendDirectoryLocator [] off) = Ok off"
  using uint_le(3) [of off "[]"]
  by (simp add: ParseDirectoryLocator_def AppendDirectoryLocator_def DirectoryLocatorSize_def)

lemma directory_locator_inv:
  assumes "ParseDirectoryLocator b = Ok off" shows "b = AppendDirectoryLocator [] off"
proof -
  let ?m = "length directoryLocatorMagic"
  have l: "length b = 9 + ?m" and h: "b ! 0 = EntryTypeDirectoryLocator"
    and m: "take ?m (drop 1 b) = directoryLocatorMagic"
    using assms by (auto simp: ParseDirectoryLocator_def DirectoryLocatorSize_def split: if_splits)
  have "uint64 (drop (1 + ?m) b) = Ok off"
    using assms by (auto simp: ParseDirectoryLocator_def split: if_splits)
  then obtain r where r: "drop (1 + ?m) b = le64 off @ r" by (auto simp: uint_Ok_conv)
  have "length (drop (1 + ?m) b) = 8" using l by simp
  then have t: "drop (1 + ?m) b = le64 off" unfolding r by simp
  have "b = [b ! 0] @ take ?m (drop 1 b) @ drop (1 + ?m) b"
    using l by (cases b) (simp_all add: drop_drop)
  then show ?thesis using h m t by (simp add: AppendDirectoryLocator_def)
qed

end
