(* ===== verification/Writer.thy ===== *)
theory Writer
  imports Frames Checksum Recipients Directory
begin

text \<open>
  \<^verbatim>\<open>archive/writer.go\<close>: the \<^verbatim>\<open>ArchiveWriter\<close> that serialises an archive.  All content passes
  through one tee into the buffered output, the running checksum and the offset counter;
  only the footer bypasses the tee.  The output is a parameter: whether it accepts bytes
  after those written so far, and whether the final flush succeeds.  A failed write ends the
  archive, so an operation returns either the writer afterwards or the error.
\<close>

section \<open>The writer\<close>

record sink =
  sk_Write :: "bytes \<Rightarrow> bytes \<Rightarrow> sarc_error option"
  sk_Flush :: "bytes \<Rightarrow> sarc_error option"

record ArchiveWriter =
  aw_out :: bytes
  aw_hasher :: ArchiveChecksum
  aw_offset :: nat
  aw_keys :: KeySchedule
  aw_recipients :: bytes
  aw_checksum :: bytes
  aw_entryOffset :: nat
  aw_entryStored :: int

definition newArchiveWriter :: "KeySchedule \<Rightarrow> bytes \<Rightarrow> ArchiveChecksum \<Rightarrow> nat \<Rightarrow> ArchiveWriter" where
  "newArchiveWriter keys recipients hasher offset =
     \<lparr>aw_out = [], aw_hasher = hasher, aw_offset = offset, aw_keys = keys, aw_recipients = recipients,
      aw_checksum = [], aw_entryOffset = 0, aw_entryStored = 0\<rparr>"

definition NewArchiveWriter ::
  "prims \<Rightarrow> ('r, 'i) age \<Rightarrow> 'r Credentials \<Rightarrow> bytes \<Rightarrow> (ArchiveWriter \<times> bytes) res" where
  "NewArchiveWriter P A creds rnd =
     bindR (wrapR ''archive/writer'' (GenerateCEK rnd)) (\<lambda>(cek, rnd).
     bindR (wrapR ''archive/writer'' (SealRecipientBlock P A cek creds rnd)) (\<lambda>(recipients, rnd).
       Ok (newArchiveWriter (NewVersion2KeySchedule cek) recipients NewArchiveChecksum 0, rnd)))"

definition ResumeArchiveWriter :: "hash_codec \<Rightarrow> KeySchedule \<Rightarrow> nat \<Rightarrow> bytes \<Rightarrow> ArchiveWriter res" where
  "ResumeArchiveWriter H keys offset hashState =
     bindR (wrapR ''archive/writer'' (ResumeArchiveChecksum H hashState)) (\<lambda>hasher.
       Ok (newArchiveWriter keys [] hasher offset))"

definition LastEntry :: "ArchiveWriter \<Rightarrow> nat \<times> int" where
  "LastEntry aw = (aw_entryOffset aw, aw_entryStored aw)"

section \<open>Writing through the tee\<close>

definition tee_Write :: "sink \<Rightarrow> bytes \<Rightarrow> ArchiveWriter \<Rightarrow> ArchiveWriter res" where
  "tee_Write K p aw =
     (case sk_Write K (aw_out aw) p of
        Some e \<Rightarrow> Err e
      | None \<Rightarrow> Ok (aw\<lparr>aw_out := aw_out aw @ p, aw_hasher := ac_Write (aw_hasher aw) p,
                     aw_offset := aw_offset aw + length p\<rparr>))"

text \<open>A write to the buffered output that bypasses the checksum and the counter.\<close>

definition raw_Write :: "sink \<Rightarrow> bytes \<Rightarrow> ArchiveWriter \<Rightarrow> ArchiveWriter res" where
  "raw_Write K p aw =
     (case sk_Write K (aw_out aw) p of
        Some e \<Rightarrow> Err e
      | None \<Rightarrow> Ok (aw\<lparr>aw_out := aw_out aw @ p\<rparr>))"

definition writeByte :: "sink \<Rightarrow> byte \<Rightarrow> ArchiveWriter \<Rightarrow> ArchiveWriter res" where
  "writeByte K b aw = tee_Write K [b] aw"

definition size32 :: "bytes \<Rightarrow> bytes" where
  "size32 b = le32 (word_of_nat (length b))"

definition writeHeader :: "sink \<Rightarrow> ArchiveHeader \<Rightarrow> ArchiveWriter \<Rightarrow> ArchiveWriter res" where
  "writeHeader K hdr aw =
     wrapR ''archive/writer: write header''
       (tee_Write K (ah_Magic hdr @ le16 (ah_Version hdr) @ size32 (ah_RecipientBlock hdr)
          @ ah_RecipientBlock hdr @ ah_FileCountEncrypted hdr @ ah_Reserved hdr) aw)"

definition SealFileCount :: "prims \<Rightarrow> KeySchedule \<Rightarrow> u64 \<Rightarrow> bytes \<Rightarrow> (bytes \<times> bytes) res" where
  "SealFileCount P keys count rnd =
     bindR (wrapR ''archive/writer: header key'' (HeaderKey P keys)) (\<lambda>headerKey.
     bindR (wrapR ''archive/writer: header encryption'' (NewEncryptionManager headerKey)) (\<lambda>em.
     bindR (wrapR ''archive/writer: seal file count'' (EncryptBlock P ReadFull em (le64 count) rnd)) (\<lambda>(sealed, rnd).
       Ok (to_array FileCountSealedSize (eb_Nonce sealed @ eb_Ciphertext sealed), rnd))))"

definition WriteHeaderWithFlags ::
  "prims \<Rightarrow> sink \<Rightarrow> u64 \<Rightarrow> byte \<Rightarrow> ArchiveWriter \<Rightarrow> bytes \<Rightarrow> (ArchiveWriter \<times> bytes) res" where
  "WriteHeaderWithFlags P K fileCount flags aw rnd =
     bindR (SealFileCount P (aw_keys aw) fileCount rnd) (\<lambda>(sealed, rnd).
     bindR (writeHeader K \<lparr>ah_Magic = Magic, ah_Version = ks_version (aw_keys aw),
       ah_ArchiveSalt = replicate SaltSize 0, ah_RecipientBlock = aw_recipients aw,
       ah_FileCountEncrypted = sealed, ah_Reserved = flags # replicate (ReservedSize - 1) 0\<rparr> aw) (\<lambda>aw.
       Ok (aw, rnd)))"

definition WriteHeader ::
  "prims \<Rightarrow> sink \<Rightarrow> u64 \<Rightarrow> ArchiveWriter \<Rightarrow> bytes \<Rightarrow> (ArchiveWriter \<times> bytes) res" where
  "WriteHeader P K fileCount aw rnd = WriteHeaderWithFlags P K fileCount 0 aw rnd"

definition FileCountOffset :: "nat \<Rightarrow> nat" where
  "FileCountOffset recipientBlockLen = 4 + 2 + 4 + recipientBlockLen"

definition aw_FileCountOffset :: "ArchiveWriter \<Rightarrow> nat" where
  "aw_FileCountOffset aw = FileCountOffset (length (aw_recipients aw))"

section \<open>Entries\<close>

definition writeMetadataBlock :: "sink \<Rightarrow> MetadataBlock \<Rightarrow> ArchiveWriter \<Rightarrow> ArchiveWriter res" where
  "writeMetadataBlock K mb aw =
     bindR (wrapR ''archive/writer: metadata nonce'' (tee_Write K (mb_Nonce mb) aw)) (\<lambda>aw.
     bindR (wrapR ''archive/writer: metadata size'' (tee_Write K (size32 (mb_Ciphertext mb)) aw)) (\<lambda>aw.
     wrapR ''archive/writer: metadata ciphertext'' (tee_Write K (mb_Ciphertext mb) aw)))"

definition writePadding :: "sink \<Rightarrow> bytes \<Rightarrow> ArchiveWriter \<Rightarrow> ArchiveWriter res" where
  "writePadding K pad aw = bindR (tee_Write K (size32 pad) aw) (\<lambda>aw. tee_Write K pad aw)"

definition startEntry :: "ArchiveWriter \<Rightarrow> ArchiveWriter" where
  "startEntry aw = aw\<lparr>aw_entryOffset := aw_offset aw, aw_entryStored := 0\<rparr>"

definition writeDataBlock :: "sink \<Rightarrow> DataBlock \<Rightarrow> ArchiveWriter \<Rightarrow> ArchiveWriter res" where
  "writeDataBlock K db aw =
     (let aw = aw\<lparr>aw_entryStored := aw_entryStored aw + (int (length (db_Ciphertext db)) - int GCMTagSize)\<rparr> in
      bindR (wrapR ''archive/writer: block nonce'' (tee_Write K (db_Nonce db) aw)) (\<lambda>aw.
      bindR (wrapR ''archive/writer: block size'' (tee_Write K (size32 (db_Ciphertext db)) aw)) (\<lambda>aw.
      wrapR ''archive/writer: block ciphertext'' (tee_Write K (db_Ciphertext db) aw))))"

definition writeTrailer :: "sink \<Rightarrow> FileTrailer \<Rightarrow> ArchiveWriter \<Rightarrow> ArchiveWriter res" where
  "writeTrailer K t aw =
     bindR (wrapR ''archive/writer: trailer padding'' (writePadding K (ft_RandomPadding t) aw)) (\<lambda>aw.
     bindR (wrapR ''archive/writer: HMAC nonce'' (tee_Write K (ft_PlaintextHMACNonce t) aw)) (\<lambda>aw.
     bindR (wrapR ''archive/writer: HMAC sealed size'' (tee_Write K (size32 (ft_PlaintextHMACSealed t)) aw)) (\<lambda>aw.
     bindR (wrapR ''archive/writer: HMAC sealed'' (tee_Write K (ft_PlaintextHMACSealed t) aw)) (\<lambda>aw.
     wrapR ''archive/writer: entry checksum'' (tee_Write K (ft_EntryChecksum t) aw)))))"

fun writeDataBlocks :: "sink \<Rightarrow> DataBlock list \<Rightarrow> ArchiveWriter \<Rightarrow> ArchiveWriter res" where
  "writeDataBlocks K [] aw = Ok aw"
| "writeDataBlocks K (db # dbs) aw =
     bindR (wrapR ''archive/writer: data block'' (writeDataBlock K db aw)) (\<lambda>aw. writeDataBlocks K dbs aw)"

definition sentinel :: bytes where
  "sentinel = replicate (NonceSize + 4) 0"

definition WriteFileEntry :: "sink \<Rightarrow> FileEntry \<Rightarrow> ArchiveWriter \<Rightarrow> ArchiveWriter res" where
  "WriteFileEntry K entry aw =
     bindR (wrapR ''archive/writer: entry type'' (writeByte K (fe_EntryType entry) (startEntry aw))) (\<lambda>aw.
     bindR (wrapR ''archive/writer: entry salt'' (tee_Write K (fe_EntrySalt entry) aw)) (\<lambda>aw.
     bindR (wrapR ''archive/writer: frame header'' (tee_Write K (fe_FrameHdr entry) aw)) (\<lambda>aw.
     bindR (writeMetadataBlock K (fe_Metadata entry) aw) (\<lambda>aw.
     bindR (wrapR ''archive/writer: inter-block padding'' (writePadding K (fe_InterBlockPad entry) aw)) (\<lambda>aw.
     bindR (writeDataBlocks K (fe_DataBlocks entry) aw) (\<lambda>aw.
     bindR (wrapR ''archive/writer: data block sentinel'' (tee_Write K sentinel aw)) (\<lambda>aw.
     writeTrailer K (fe_Trailer entry) aw)))))))"

definition BeginFileEntry ::
  "sink \<Rightarrow> byte \<Rightarrow> bytes \<Rightarrow> bytes \<Rightarrow> MetadataBlock \<Rightarrow> bytes \<Rightarrow> ArchiveWriter \<Rightarrow> ArchiveWriter res" where
  "BeginFileEntry K entryType salt frameHdr meta interPad aw =
     bindR (wrapR ''archive/writer: entry type'' (writeByte K entryType (startEntry aw))) (\<lambda>aw.
     bindR (wrapR ''archive/writer: entry salt'' (tee_Write K salt aw)) (\<lambda>aw.
     bindR (wrapR ''archive/writer: frame header'' (tee_Write K frameHdr aw)) (\<lambda>aw.
     bindR (writeMetadataBlock K meta aw) (\<lambda>aw. writePadding K interPad aw))))"

definition AppendDataBlock :: "sink \<Rightarrow> DataBlock \<Rightarrow> ArchiveWriter \<Rightarrow> ArchiveWriter res" where
  "AppendDataBlock K db aw = writeDataBlock K db aw"

definition EndFileEntry :: "sink \<Rightarrow> FileTrailer \<Rightarrow> ArchiveWriter \<Rightarrow> ArchiveWriter res" where
  "EndFileEntry K trailer aw =
     bindR (wrapR ''archive/writer: data block sentinel'' (tee_Write K sentinel aw)) (\<lambda>aw.
     writeTrailer K trailer aw)"

section \<open>Ending an archive\<close>

definition WriteDirectoryLocator :: "sink \<Rightarrow> nat \<Rightarrow> ArchiveWriter \<Rightarrow> ArchiveWriter res" where
  "WriteDirectoryLocator K offset aw =
     wrapR ''archive/writer: directory locator''
       (tee_Write K (AppendDirectoryLocator [] (word_of_nat offset)) aw)"

definition WriteFooter :: "prims \<Rightarrow> sink \<Rightarrow> ArchiveWriter \<Rightarrow> ArchiveWriter res" where
  "WriteFooter P K aw =
     bindR (wrapR ''archive/writer: end marker'' (writeByte K EntryTypeEnd aw)) (\<lambda>aw.
     let (checksum, hasher) = ac_Sum P (aw_hasher aw) [];
         aw = aw\<lparr>aw_hasher := hasher, aw_checksum := checksum\<rparr> in
     bindR (wrapR ''archive/writer: footer HMAC'' (raw_Write K (to_array HMACSize checksum) aw)) (\<lambda>aw.
     bindR (wrapR ''archive/writer: footer reserved'' (raw_Write K (replicate ReservedSize 0) aw)) (\<lambda>aw.
     case sk_Flush K (aw_out aw) of Some e \<Rightarrow> Err e | None \<Rightarrow> Ok aw)))"

definition WriteCheckpointFooter :: "prims \<Rightarrow> hash_codec \<Rightarrow> sink \<Rightarrow> nat \<Rightarrow> ArchiveWriter \<Rightarrow> ArchiveWriter res" where
  "WriteCheckpointFooter P H K lastIndex aw =
     bindR (wrapR ''archive/writer: save checksum state'' (ac_MarshalBinary H (aw_hasher aw))) (\<lambda>state.
     bindR (cp_Marshal \<lparr>cp_LastIndex = word_of_nat lastIndex, cp_HashState = state\<rparr>) (\<lambda>cp.
     bindR (wrapR ''archive/writer: checkpoint'' (tee_Write K cp aw)) (\<lambda>aw.
     WriteFooter P K aw)))"

definition DeriveFileKey :: "prims \<Rightarrow> ArchiveWriter \<Rightarrow> bytes \<Rightarrow> bytes res" where
  "DeriveFileKey P aw salt = FileKey P (aw_keys aw) salt"

section \<open>What each operation writes\<close>

text \<open>The writer after the bytes \<open>x\<close> went through the tee; two writes are one of both.\<close>

definition put :: "bytes \<Rightarrow> ArchiveWriter \<Rightarrow> ArchiveWriter" where
  "put x aw = aw\<lparr>aw_out := aw_out aw @ x, aw_hasher := ac_Write (aw_hasher aw) x,
     aw_offset := aw_offset aw + length x\<rparr>"

lemma put_put [simp]: "put y (put x aw) = put (x @ y) aw"
  by (simp add: put_def ac_Write_append add.assoc)

lemma put_entry [simp]:
  "put x (aw\<lparr>aw_entryStored := n\<rparr>) = put x aw\<lparr>aw_entryStored := n\<rparr>"
  "put x (aw\<lparr>aw_entryOffset := m\<rparr>) = put x aw\<lparr>aw_entryOffset := m\<rparr>"
  "aw_entryStored (put x aw) = aw_entryStored aw" "aw_entryOffset (put x aw) = aw_entryOffset aw"
  "aw_out (put x aw) = aw_out aw @ x" "aw_offset (put x aw) = aw_offset aw + length x"
  "aw_keys (put x aw) = aw_keys aw" "aw_recipients (put x aw) = aw_recipients aw"
  by (simp_all add: put_def)

lemma tee_Write_Ok: "tee_Write K p aw = Ok aw' \<Longrightarrow> aw' = put p aw"
  by (auto simp: tee_Write_def put_def split: option.splits)

text \<open>A sink that accepts everything.\<close>

definition accepts :: "sink \<Rightarrow> bool" where
  "accepts K \<longleftrightarrow> (\<forall>b p. sk_Write K b p = None) \<and> (\<forall>b. sk_Flush K b = None)"

lemma tee_Write_accepts: "accepts K \<Longrightarrow> tee_Write K p aw = Ok (put p aw)"
  by (simp add: accepts_def tee_Write_def put_def)

text \<open>The bytes of the parts of an archive, in the order of the format.\<close>

definition metadata_bytes :: "MetadataBlock \<Rightarrow> bytes" where
  "metadata_bytes mb = mb_Nonce mb @ size32 (mb_Ciphertext mb) @ mb_Ciphertext mb"

definition padding_bytes :: "bytes \<Rightarrow> bytes" where
  "padding_bytes pad = size32 pad @ pad"

definition block_bytes :: "DataBlock \<Rightarrow> bytes" where
  "block_bytes db = db_Nonce db @ size32 (db_Ciphertext db) @ db_Ciphertext db"

definition trailer_bytes :: "FileTrailer \<Rightarrow> bytes" where
  "trailer_bytes t = padding_bytes (ft_RandomPadding t) @ ft_PlaintextHMACNonce t
     @ size32 (ft_PlaintextHMACSealed t) @ ft_PlaintextHMACSealed t @ ft_EntryChecksum t"

definition entry_head :: "byte \<Rightarrow> bytes \<Rightarrow> bytes \<Rightarrow> MetadataBlock \<Rightarrow> bytes" where
  "entry_head entryType salt frameHdr meta = [entryType] @ salt @ frameHdr @ metadata_bytes meta"

definition entry_body :: "bytes \<Rightarrow> DataBlock list \<Rightarrow> FileTrailer \<Rightarrow> bytes" where
  "entry_body pad blocks trailer =
     padding_bytes pad @ concat (map block_bytes blocks) @ sentinel @ trailer_bytes trailer"

definition entry_bytes :: "FileEntry \<Rightarrow> bytes" where
  "entry_bytes e = entry_head (fe_EntryType e) (fe_EntrySalt e) (fe_FrameHdr e) (fe_Metadata e)
     @ entry_body (fe_InterBlockPad e) (fe_DataBlocks e) (fe_Trailer e)"

definition stored_size :: "DataBlock list \<Rightarrow> int" where
  "stored_size dbs = sum_list (map (\<lambda>db. int (length (db_Ciphertext db)) - int GCMTagSize) dbs)"

lemma writer_parts:
  "writePadding K pad aw = Ok aw' \<Longrightarrow> aw' = put (padding_bytes pad) aw"
  "writeMetadataBlock K mb aw = Ok aw' \<Longrightarrow> aw' = put (metadata_bytes mb) aw"
  "writeTrailer K t aw = Ok aw' \<Longrightarrow> aw' = put (trailer_bytes t) aw"
  "writeDataBlock K db aw = Ok aw' \<Longrightarrow> aw' = put (block_bytes db) aw
     \<lparr>aw_entryStored := aw_entryStored aw + (int (length (db_Ciphertext db)) - int GCMTagSize)\<rparr>"
  by (auto simp: writePadding_def writeMetadataBlock_def writeTrailer_def writeDataBlock_def bindR_Ok_conv Let_def
      padding_bytes_def metadata_bytes_def trailer_bytes_def block_bytes_def dest!: tee_Write_Ok)

lemma writeDataBlocks_Ok:
  "writeDataBlocks K dbs (put x aw\<lparr>aw_entryStored := n\<rparr>) = Ok aw' \<Longrightarrow>
   aw' = put (x @ concat (map block_bytes dbs)) aw\<lparr>aw_entryStored := n + stored_size dbs\<rparr>"
proof (induction dbs arbitrary: x n)
  case (Cons db dbs)
  let ?n = "n + (int (length (db_Ciphertext db)) - int GCMTagSize)"
  have "writeDataBlocks K dbs (put (x @ block_bytes db) aw\<lparr>aw_entryStored := ?n\<rparr>) = Ok aw'"
    using Cons.prems by (auto simp: bindR_Ok_conv dest!: writer_parts(4))
  from Cons.IH [OF this] show ?case by (simp add: stored_size_def add.assoc)
qed (simp add: stored_size_def)

text \<open>The writer after a whole entry.\<close>

definition put_entry_of :: "FileEntry \<Rightarrow> ArchiveWriter \<Rightarrow> ArchiveWriter" where
  "put_entry_of e aw = put (entry_bytes e) aw
     \<lparr>aw_entryOffset := aw_offset aw, aw_entryStored := stored_size (fe_DataBlocks e)\<rparr>"

lemma startEntry_put: "put x (startEntry aw) = put x (aw\<lparr>aw_entryOffset := aw_offset aw\<rparr>)\<lparr>aw_entryStored := 0\<rparr>"
  by (simp add: startEntry_def)

lemma BeginFileEntry_Ok:
  assumes "BeginFileEntry K ty salt hdr meta pad aw = Ok aw'"
  shows "aw' = put (entry_head ty salt hdr meta @ padding_bytes pad)
    (aw\<lparr>aw_entryOffset := aw_offset aw\<rparr>)\<lparr>aw_entryStored := 0\<rparr>"
  using assms
  by (auto simp: BeginFileEntry_def writeByte_def bindR_Ok_conv startEntry_put entry_head_def
      dest!: tee_Write_Ok writer_parts(1,2))

lemma EndFileEntry_Ok: "EndFileEntry K t aw = Ok aw' \<Longrightarrow> aw' = put (sentinel @ trailer_bytes t) aw"
  by (auto simp: EndFileEntry_def bindR_Ok_conv dest!: tee_Write_Ok writer_parts(3))

text \<open>Writing an entry at once is beginning it, appending its blocks and ending it.\<close>

lemma WriteFileEntry_steps:
  "WriteFileEntry K e aw = Ok aw' \<longleftrightarrow>
   (\<exists>a b. BeginFileEntry K (fe_EntryType e) (fe_EntrySalt e) (fe_FrameHdr e) (fe_Metadata e) (fe_InterBlockPad e) aw = Ok a
      \<and> writeDataBlocks K (fe_DataBlocks e) a = Ok b \<and> EndFileEntry K (fe_Trailer e) b = Ok aw')"
  by (auto simp: WriteFileEntry_def BeginFileEntry_def EndFileEntry_def bindR_Ok_conv)

lemma WriteFileEntry_Ok: "WriteFileEntry K e aw = Ok aw' \<Longrightarrow> aw' = put_entry_of e aw"
  by (auto simp: WriteFileEntry_steps put_entry_of_def entry_bytes_def entry_body_def
      dest!: BeginFileEntry_Ok writeDataBlocks_Ok EndFileEntry_Ok)

lemma writeDataBlocks_accept: "accepts K \<Longrightarrow> \<exists>aw'. writeDataBlocks K dbs aw = Ok aw'"
proof (induction dbs arbitrary: aw)
  case (Cons db dbs)
  obtain a where "writeDataBlock K db aw = Ok a"
    by (simp add: writeDataBlock_def tee_Write_accepts [OF Cons.prems])
  with Cons show ?case by simp
qed simp

lemma WriteFileEntry_accepts:
  assumes "accepts K" shows "WriteFileEntry K e aw = Ok (put_entry_of e aw)"
proof -
  note t = tee_Write_accepts [OF assms]
  have "\<exists>a. BeginFileEntry K (fe_EntryType e) (fe_EntrySalt e) (fe_FrameHdr e) (fe_Metadata e) (fe_InterBlockPad e) aw = Ok a"
    by (simp add: BeginFileEntry_def writeByte_def writeMetadataBlock_def writePadding_def t)
  then obtain a where a: "BeginFileEntry K (fe_EntryType e) (fe_EntrySalt e) (fe_FrameHdr e) (fe_Metadata e)
      (fe_InterBlockPad e) aw = Ok a" ..
  obtain b where b: "writeDataBlocks K (fe_DataBlocks e) a = Ok b"
    using writeDataBlocks_accept [OF assms] by blast
  have "\<exists>aw'. EndFileEntry K (fe_Trailer e) b = Ok aw'"
    by (simp add: EndFileEntry_def writeTrailer_def writePadding_def t)
  with a b have "\<exists>aw'. WriteFileEntry K e aw = Ok aw'" unfolding WriteFileEntry_steps by blast
  with WriteFileEntry_Ok show ?thesis by blast
qed

section \<open>The whole archive\<close>

definition header_bytes :: "u16 \<Rightarrow> bytes \<Rightarrow> bytes \<Rightarrow> byte \<Rightarrow> bytes" where
  "header_bytes version recipients count flags =
     Magic @ le16 version @ size32 recipients @ recipients @ count @ flags # replicate (ReservedSize - 1) 0"

fun writeEntries :: "sink \<Rightarrow> FileEntry list \<Rightarrow> ArchiveWriter \<Rightarrow> ArchiveWriter res" where
  "writeEntries K [] aw = Ok aw"
| "writeEntries K (e # es) aw = bindR (WriteFileEntry K e aw) (\<lambda>aw. writeEntries K es aw)"

lemma SealFileCount_length: "SealFileCount P keys n rnd = Ok (c, rnd') \<Longrightarrow> length c = FileCountSealedSize"
  by (auto simp: SealFileCount_def bindR_Ok_conv)

lemma WriteHeader_Ok:
  assumes "WriteHeaderWithFlags P K n flags aw rnd = Ok (aw', rnd')"
  shows "\<exists>count. SealFileCount P (aw_keys aw) n rnd = Ok (count, rnd')
    \<and> aw' = put (header_bytes (ks_version (aw_keys aw)) (aw_recipients aw) count flags) aw"
  using assms
  by (auto simp: WriteHeaderWithFlags_def writeHeader_def header_bytes_def bindR_Ok_conv dest!: tee_Write_Ok)

lemma writeEntries_Ok:
  assumes "writeEntries K es (put x aw) = Ok aw'"
  shows "\<exists>m n. aw' = put (x @ concat (map entry_bytes es)) (aw\<lparr>aw_entryOffset := m, aw_entryStored := n\<rparr>)"
  using assms
proof (induction es arbitrary: x aw)
  case Nil
  have "aw\<lparr>aw_entryOffset := aw_entryOffset aw, aw_entryStored := aw_entryStored aw\<rparr> = aw" by simp
  with Nil show ?case by (metis append_Nil2 concat.simps(1) list.map(1) res.inject writeEntries.simps(1))
next
  case (Cons e es)
  let ?aw = "aw\<lparr>aw_entryOffset := aw_offset aw + length x, aw_entryStored := stored_size (fe_DataBlocks e)\<rparr>"
  have "writeEntries K es (put (x @ entry_bytes e) ?aw) = Ok aw'"
    using Cons.prems by (auto simp: bindR_Ok_conv put_entry_of_def dest!: WriteFileEntry_Ok)
  from Cons.IH [OF this] show ?case by auto
qed

lemma WriteFooter_Ok:
  assumes "WriteFooter P K aw = Ok aw'" and "ac_Sum P (ac_Write (aw_hasher aw) [EntryTypeEnd]) [] = (cs, h)"
    and "length cs = HMACSize"
  shows "aw_out aw' = aw_out aw @ [EntryTypeEnd] @ cs @ replicate ReservedSize 0 \<and> aw_checksum aw' = cs
    \<and> aw_offset aw' = Suc (aw_offset aw)"
  using assms
  by (auto simp: WriteFooter_def writeByte_def bindR_Ok_conv Let_def raw_Write_def put_def
      dest!: tee_Write_Ok split: option.splits)


definition sample_entry :: FileEntry where
  "sample_entry = \<lparr>fe_EntryType = EntryTypeFile, fe_EntrySalt = replicate 32 1, fe_FrameHdr = replicate 32 2,
     fe_Metadata = \<lparr>mb_Nonce = replicate 12 3, mb_Ciphertext = replicate 20 4\<rparr>, fe_InterBlockPad = [5],
     fe_DataBlocks = [\<lparr>db_Nonce = replicate 12 6, db_Ciphertext = replicate 17 7\<rparr>],
     fe_Trailer = \<lparr>ft_RandomPadding = [8], ft_PlaintextHMACNonce = replicate 12 9,
       ft_PlaintextHMACSealed = replicate 56 1, ft_EntryChecksum = replicate 8 2\<rparr>\<rparr>"

definition open_sink :: sink where
  "open_sink = \<lparr>sk_Write = (\<lambda>b p. None), sk_Flush = (\<lambda>b. None)\<rparr>"

lemma open_sink_accepts: "accepts open_sink"
  by (simp add: accepts_def open_sink_def)

lemma sample_writer:
  "\<exists>aw. NewArchiveWriter toy_prims toy_age sample_creds (replicate 32 5 @ replicate 44 0 @ r) = Ok (aw, r)
     \<and> aw_keys aw = NewVersion2KeySchedule (replicate 32 5)"
proof -
  obtain block where "SealRecipientBlock toy_prims toy_age (replicate 32 5) sample_creds (replicate 44 0 @ r) = Ok (block, r)"
    using sample_block by blast
  then show ?thesis
    by (simp add: NewArchiveWriter_def GenerateCEK_def KeySize_def newArchiveWriter_def)
qed

lemma SealFileCount_total:
  assumes "hkdf_total P" and "ks_version ks = Version2" and "length nonce = NonceSize"
  shows "\<exists>c. SealFileCount P ks n (nonce @ r) = Ok (c, r)"
proof -
  obtain b where "hkdf_expand P (ks_masterKey ks) headerSubkeyLabel KeySize = Ok b"
    using assms(1) [unfolded hkdf_total_def, rule_format, of KeySize] by (auto simp: KeySize_def)
  with assms(2,3) show ?thesis
    by (simp add: SealFileCount_def HeaderKey_def DeriveHeaderSubkey_def expandSubkey_def Version1_def
        Version2_def EncryptBlock_def KeySize_def)
qed


section \<open>Extending an incremental archive\<close>

text \<open>
  The checksum resumed from a saved state follows the one of the whole archive: after the
  same bytes both give the same digest.
\<close>

definition follows :: "prims \<Rightarrow> ArchiveChecksum \<Rightarrow> bytes \<Rightarrow> bool" where
  "follows P c b \<longleftrightarrow> layout_known b \<and> ac_done c \<and> ac_head c = [] \<and> (\<forall>z. sha256 P (ac_h c @ z) = sha256 P (masked b @ z))"

lemma follows_Write: "follows P c b \<Longrightarrow> follows P (ac_Write c x) (b @ x)"
  by (auto simp: follows_def ac_Write_def layout_known_append masked_append)

lemma follows_Sum: "follows P c b \<Longrightarrow> ac_Sum P c [] = (sha256 P (masked b), c)"
  using spec [of "\<lambda>z. sha256 P (ac_h c @ z) = sha256 P (masked b @ z)" "[]"]
  by (auto simp: follows_def ac_Sum_def)

lemma follows_resume:
  assumes "hash_resumes P H" and "follows P c b" and "ac_MarshalBinary H c = Ok state"
  shows "\<exists>c'. ResumeArchiveChecksum H state = Ok c' \<and> follows P c' b"
proof -
  have st: "state = hc_Marshal H (ac_h c)" using assms(3) by (simp add: ac_MarshalBinary_def split: if_splits)
  obtain y where "hc_Unmarshal H state = Ok y" "\<forall>z. sha256 P (y @ z) = sha256 P (ac_h c @ z)"
    using assms(1) unfolding st by (auto simp: hash_resumes_def)
  with assms(2) show ?thesis
    by (auto simp: ResumeArchiveChecksum_def follows_def)
qed

lemma follows_state: "layout_known b \<Longrightarrow> follows P (checksum_state b) b"
  by (simp add: follows_def checksum_state_def)

lemma WriteCheckpointFooter_Ok:
  assumes "WriteCheckpointFooter P H K i aw = Ok aw'" and "digest_sizes P" and "follows P (aw_hasher aw) base"
  shows "\<exists>cp state. ac_MarshalBinary H (aw_hasher aw) = Ok state \<and> length cp = CheckpointSize
    \<and> ParseCheckpoint cp = Ok \<lparr>cp_LastIndex = word_of_nat i, cp_HashState = state\<rparr>
    \<and> aw_out aw' = aw_out aw @ cp @ [EntryTypeEnd] @ sha256 P (masked (base @ cp @ [EntryTypeEnd])) @ replicate ReservedSize 0"
proof -
  obtain state cp where st: "ac_MarshalBinary H (aw_hasher aw) = Ok state"
    and m: "cp_Marshal \<lparr>cp_LastIndex = word_of_nat i, cp_HashState = state\<rparr> = Ok cp"
    and foot: "WriteFooter P K (put cp aw) = Ok aw'"
    using assms(1) by (auto simp: WriteCheckpointFooter_def bindR_Ok_conv dest!: tee_Write_Ok)
  have "length state \<le> checkpointStateSize" using m by (simp add: cp_Marshal_def split: if_splits)
  then have cp: "length cp = CheckpointSize"
      "ParseCheckpoint cp = Ok \<lparr>cp_LastIndex = word_of_nat i, cp_HashState = state\<rparr>"
    using checkpoint_marshalled [of "\<lparr>cp_LastIndex = word_of_nat i, cp_HashState = state\<rparr>"] m by auto
  have "ac_Sum P (ac_Write (aw_hasher (put cp aw)) [EntryTypeEnd]) []
      = (sha256 P (masked (base @ cp @ [EntryTypeEnd])), ac_Write (aw_hasher (put cp aw)) [EntryTypeEnd])"
    using follows_Sum [OF follows_Write [OF follows_Write [OF assms(3), of cp], of "[EntryTypeEnd]"]] by (simp add: put_def)
  from WriteFooter_Ok [OF foot this] assms(2) st cp show ?thesis by (simp add: digest_sizes_def HMACSize_def)
qed

text \<open>
  A session appended to an archive through the checkpoint of the session before it gives a
  valid archive again.  Let the writer's checksum follow the archive bytes \<open>base\<close>, of which it
  wrote the last ones.  After it closes the archive, the bytes right after \<open>base\<close> parse as a
  checkpoint; a writer resumed from the hash state found there, writing more entries and
  closing again, produces bytes whose footer is the SHA-256 of the whole archive, old and
  new, although the old part is never read.
\<close>

lemma resumed_archive:
  assumes "digest_sizes P" and "hash_resumes P H" and "follows P (aw_hasher aw) base"
    and "WriteCheckpointFooter P H K i aw = Ok closed"
    and "ParseCheckpoint (take CheckpointSize (drop (length (aw_out aw)) (aw_out closed))) = Ok chk"
    and "ResumeArchiveWriter H keys (length base) (cp_HashState chk) = Ok aw1"
    and "writeEntries K es (put x aw1) = Ok aw2" and "WriteCheckpointFooter P H K j aw2 = Ok aw3"
  shows "\<exists>cp content. cp_LastIndex chk = word_of_nat i \<and> length cp = CheckpointSize
    \<and> content = x @ concat (map entry_bytes es) @ cp @ [EntryTypeEnd]
    \<and> aw_out aw3 = content @ sha256 P (masked (base @ content)) @ replicate ReservedSize 0
    \<and> aw_offset aw2 = length (base @ x @ concat (map entry_bytes es))"
proof -
  obtain state where st: "ac_MarshalBinary H (aw_hasher aw) = Ok state"
    and chk: "chk = \<lparr>cp_LastIndex = word_of_nat i, cp_HashState = state\<rparr>"
    using WriteCheckpointFooter_Ok [OF assms(4,1,3)] assms(5) by auto
  obtain c where c: "ResumeArchiveChecksum H state = Ok c" "follows P c base"
    using follows_resume [OF assms(2,3) st] by blast
  then have aw1: "aw1 = newArchiveWriter keys [] c (length base)"
    using assms(6) by (auto simp: ResumeArchiveWriter_def chk)
  let ?b = "x @ concat (map entry_bytes es)"
  obtain m n where aw2: "aw2 = put ?b (aw1\<lparr>aw_entryOffset := m, aw_entryStored := n\<rparr>)"
    using writeEntries_Ok [OF assms(7)] by blast
  then have out: "aw_out aw2 = ?b" and off: "aw_offset aw2 = length (base @ ?b)"
    and f: "follows P (aw_hasher aw2) (base @ ?b)"
    using follows_Write [OF c(2)] by (simp_all add: aw1 newArchiveWriter_def put_def)
  from WriteCheckpointFooter_Ok [OF assms(8,1) f] obtain cp where "length cp = CheckpointSize"
    "aw_out aw3 = ?b @ cp @ [EntryTypeEnd] @ sha256 P (masked (base @ ?b @ cp @ [EntryTypeEnd])) @ replicate ReservedSize 0"
    by (auto simp: out)
  with off show ?thesis by (intro exI [of _ cp] exI [of _ "?b @ cp @ [EntryTypeEnd]"]) (simp add: chk)
qed

lemma follows_toy: "follows toy_prims (checksum_state (replicate 10 1)) (replicate 10 1)"
proof (rule follows_state)
  have "hd (replicate 4 (1 :: byte)) \<noteq> 83" by simp
  then have "replicate 4 (1 :: byte) \<noteq> [83, 65, 82, 67]" by (metis list.sel(1))
  then show "layout_known (replicate 10 1)"
    by (simp add: layout_known_def headerPrefixLen_def v2_header_def Magic_def str_def)
qed

lemma toy_footer_total:
  assumes "follows toy_prims (aw_hasher aw) b"
  shows "\<exists>aw'. WriteCheckpointFooter toy_prims toy_hash_codec open_sink n aw = Ok aw'"
proof -
  note t = tee_Write_accepts [OF open_sink_accepts]
  let ?st = "take 32 (ac_h (aw_hasher aw))" and ?cp = "\<lambda>st. \<lparr>cp_LastIndex = word_of_nat n, cp_HashState = st\<rparr>"
  have m: "ac_MarshalBinary toy_hash_codec (aw_hasher aw) = Ok ?st"
    using assms by (simp add: ac_MarshalBinary_def toy_hash_codec_def follows_def)
  have "length (cp_HashState (?cp ?st)) \<le> checkpointStateSize"
    using min.cobounded2 [of "length (ac_h (aw_hasher aw))" 32] by (simp add: checkpointStateSize_def min_def)
  then obtain cp where cp: "cp_Marshal (?cp ?st) = Ok cp" using checkpoint_marshalled by blast
  have r: "raw_Write open_sink p aw = Ok (aw\<lparr>aw_out := aw_out aw @ p\<rparr>)" "sk_Flush open_sink b = None" for p aw b
    by (simp_all add: raw_Write_def open_sink_def)
  have "\<exists>aw'. WriteFooter toy_prims open_sink aw = Ok aw'" for aw
    by (cases "ac_Sum toy_prims (aw_hasher (put [EntryTypeEnd] aw)) []") (simp add: WriteFooter_def writeByte_def t r)
  with m cp show ?thesis by (simp add: WriteCheckpointFooter_def t)
qed

theorem resumed_archive_witness:
  "\<exists>closed chk aw1 aw2 aw3 cp content.
     WriteCheckpointFooter toy_prims toy_hash_codec open_sink 7
       (newArchiveWriter (NewVersion2KeySchedule []) [] (checksum_state (replicate 10 1)) 10) = Ok closed
     \<and> ResumeArchiveWriter toy_hash_codec (NewVersion2KeySchedule []) (length (replicate 10 (1 :: byte))) (cp_HashState (chk :: Checkpoint)) = Ok aw1
     \<and> writeEntries open_sink [sample_entry] (put [] aw1) = Ok aw2
     \<and> WriteCheckpointFooter toy_prims toy_hash_codec open_sink 9 aw2 = Ok aw3
     \<and> content = entry_bytes sample_entry @ cp @ [EntryTypeEnd]
     \<and> aw_out aw3 = content @ sha256 toy_prims (masked (replicate 10 1 @ content)) @ replicate ReservedSize 0"
proof -
  let ?aw = "newArchiveWriter (NewVersion2KeySchedule []) [] (checksum_state (replicate 10 1)) 10"
  note t = tee_Write_accepts [OF open_sink_accepts] and w = WriteFileEntry_accepts [OF open_sink_accepts]
  note total = toy_footer_total
  have f: "follows toy_prims (aw_hasher ?aw) (replicate 10 1)"
    using follows_toy by (simp add: newArchiveWriter_def)
  obtain closed where closed: "WriteCheckpointFooter toy_prims toy_hash_codec open_sink 7 ?aw = Ok closed"
    using total [OF f] by blast
  obtain cp state where st: "ac_MarshalBinary toy_hash_codec (aw_hasher ?aw) = Ok state"
    and cp: "length cp = CheckpointSize" "ParseCheckpoint cp = Ok \<lparr>cp_LastIndex = word_of_nat 7, cp_HashState = state\<rparr>"
      "aw_out closed = aw_out ?aw @ cp @ [EntryTypeEnd] @ sha256 toy_prims (masked (replicate 10 1 @ cp @ [EntryTypeEnd]))
        @ replicate ReservedSize 0"
    using WriteCheckpointFooter_Ok [OF closed toy_prims_correct(2) f] by blast
  let ?chk = "\<lparr>cp_LastIndex = word_of_nat 7, cp_HashState = state\<rparr>"
  have chk: "ParseCheckpoint (take CheckpointSize (drop (length (aw_out ?aw)) (aw_out closed))) = Ok ?chk"
    using cp by simp
  obtain c where c: "ResumeArchiveChecksum toy_hash_codec state = Ok c" "follows toy_prims c (replicate 10 1)"
    using follows_resume [OF toy_hash_resumes f st] by blast
  let ?aw1 = "newArchiveWriter (NewVersion2KeySchedule []) [] c (length (replicate 10 (1 :: byte)))"
  have aw1: "ResumeArchiveWriter toy_hash_codec (NewVersion2KeySchedule []) (length (replicate 10 (1 :: byte))) (cp_HashState ?chk) = Ok ?aw1"
    using c by (simp add: ResumeArchiveWriter_def)
  obtain aw2 where aw2: "writeEntries open_sink [sample_entry] (put [] ?aw1) = Ok aw2" by (simp add: w)
  have "follows toy_prims (aw_hasher aw2) (replicate 10 1 @ entry_bytes sample_entry)"
    using aw2 follows_Write [OF c(2), of "entry_bytes sample_entry"]
    by (auto simp: w put_entry_of_def newArchiveWriter_def put_def ac_Write_append)
  then obtain aw3 where aw3: "WriteCheckpointFooter toy_prims toy_hash_codec open_sink 9 aw2 = Ok aw3"
    using total by blast
  obtain cp' where out: "aw_out aw3 = (entry_bytes sample_entry @ cp' @ [EntryTypeEnd])
      @ sha256 toy_prims (masked (replicate 10 1 @ entry_bytes sample_entry @ cp' @ [EntryTypeEnd])) @ replicate ReservedSize 0"
    using resumed_archive [OF toy_prims_correct(2) toy_hash_resumes f closed chk aw1 aw2 aw3] by auto
  show ?thesis by (intro exI conjI) (rule closed aw1 aw2 aw3 refl out)+
qed

end
