(* ===== verification/Solid.thy ===== *)
theory Solid
  imports Names Format
begin

text \<open>
  Solid groups (\<^verbatim>\<open>archive/solid.go\<close>): many small files packed into one record stream.  The
  parser's offset \<^verbatim>\<open>off\<close> is kept as the suffix of the stream that starts there.
\<close>

definition SolidMemberMaxSize :: nat where "SolidMemberMaxSize = 1048576"
definition solidRecordHeaderSize :: nat where "solidRecordHeaderSize = 2 + 4 + 8"

record SolidMember =
  sm_Name :: bytes
  sm_Attributes :: Attributes
  sm_Data :: bytes

definition SolidRecordSize :: "nat \<Rightarrow> nat \<Rightarrow> nat \<Rightarrow> nat" where
  "SolidRecordSize nameLen attrsLen dataLen = solidRecordHeaderSize + nameLen + attrsLen + dataLen"

definition AppendSolidRecord :: "bytes \<Rightarrow> SolidMember \<Rightarrow> bytes res" where
  "AppendSolidRecord dst m =
     (if \<not> ValidEntryName (sm_Name m) then Err (Errorf ''archive/solid: invalid member name'')
      else if a_Kind (sm_Attributes m) \<noteq> KindRegular
      then Err (Errorf ''archive/solid: only regular files join solid groups'')
      else bindR (AppendAttributes [] (sm_Attributes m)) (\<lambda>attrs.
        Ok (dst @ le16 (word_of_nat (length (sm_Name m))) @ sm_Name m
              @ le32 (word_of_nat (length attrs)) @ attrs
              @ le64 (word_of_nat (length (sm_Data m))) @ sm_Data m)))"

text \<open>How a group is packed: one record after the other.\<close>

fun AppendSolidRecords :: "bytes \<Rightarrow> SolidMember list \<Rightarrow> bytes res" where
  "AppendSolidRecords dst [] = Ok dst"
| "AppendSolidRecords dst (m # ms) = bindR (AppendSolidRecord dst m) (\<lambda>dst. AppendSolidRecords dst ms)"

text \<open>One iteration of the parser's loop: the record at the front and the suffix after it.\<close>

definition parse_record :: "bytes \<Rightarrow> (SolidMember \<times> bytes) res" where
  "parse_record s =
     (if length s < 2 then Err (ErrMalformedSolidStream ''truncated name length'')
      else bindR (uint16 s) (\<lambda>nameLen. bindR (cut 2 s) (\<lambda>(_, s).
      if length s < unat nameLen + 4 + 8 then Err (ErrMalformedSolidStream ''truncated record header'')
      else bindR (cut (unat nameLen) s) (\<lambda>(name, s).
      if \<not> ValidEntryName name then Err (ErrMalformedSolidStream ''invalid member name'')
      else bindR (uint32 s) (\<lambda>attrsLen. bindR (cut 4 s) (\<lambda>(_, s).
      if MaxAttributesSize < unat attrsLen \<or> length s < unat attrsLen + 8
      then Err (ErrMalformedSolidStream ''attributes run past stream'')
      else bindR (cut (unat attrsLen) s) (\<lambda>(ab, s).
      bindR (failR (ErrMalformedSolidStream ''bad member attributes'') (ParseAttributes ab)) (\<lambda>attrs.
        if a_Kind attrs \<noteq> KindRegular then Err (ErrMalformedSolidStream ''bad member attributes'')
        else bindR (uint64 s) (\<lambda>dataLen. bindR (cut 8 s) (\<lambda>(_, s).
        if length s < unat dataLen then Err (ErrMalformedSolidStream ''member data runs past stream'')
        else bindR (cut (unat dataLen) s) (\<lambda>(data, s).
          Ok (\<lparr>sm_Name = name, sm_Attributes = attrs, sm_Data = data\<rparr>, s))))))))))))"

lemma parse_record_Ok_conv:
  "parse_record s = Ok (m, r) \<longleftrightarrow>
     length (sm_Data m) < 2 ^ 64 \<and> (\<exists>b. AppendSolidRecord [] m = Ok b \<and> s = b @ r)"
  (is "?lhs \<longleftrightarrow> ?rhs")
proof
  assume ?lhs
  then obtain n name l ab v data
    where s: "s = le16 n @ name @ le32 l @ ab @ le64 v @ data @ r" and n: "length name = unat n"
      and l: "length ab = unat l" and v: "length data = unat v" and name: "ValidEntryName name"
      and a: "ParseAttributes ab = Ok (sm_Attributes m)" "a_Kind (sm_Attributes m) = KindRegular"
      and m: "sm_Name m = name" "sm_Data m = data"
    by (auto simp: parse_record_def bindR_Ok_conv uint_Ok_conv cut_Ok_conv split: if_splits)
  have "AppendAttributes [] (sm_Attributes m) = Ok ab"
    using ParseAttributes_inv [OF a(1)] by (simp add: AppendAttributes_def)
  then show ?rhs
    using unat_bound [of v] name a(2) by (simp add: AppendSolidRecord_def s m n l v)
next
  assume ?rhs
  then obtain attrs where d: "length (sm_Data m) < 2 ^ 64" and at: "AppendAttributes [] (sm_Attributes m) = Ok attrs"
      and name: "ValidEntryName (sm_Name m)" and k: "a_Kind (sm_Attributes m) = KindRegular"
      and s: "s = le16 (word_of_nat (length (sm_Name m))) @ sm_Name m
              @ le32 (word_of_nat (length attrs)) @ attrs
              @ le64 (word_of_nat (length (sm_Data m))) @ sm_Data m @ r"
    by (auto simp: AppendSolidRecord_def bindR_Ok_conv split: if_splits)
  have v: "validate (sm_Attributes m) = None" and e: "attrs = attributes_bytes (sm_Attributes m)"
    using at by (auto simp: AppendAttributes_def split: option.splits)
  have a: "unat (word_of_nat (length attrs) :: u32) = length attrs" "length attrs \<le> MaxAttributesSize"
    using attributes_bytes_bounds [OF v]
    by (simp_all add: e unat_of_nat attr_limits MaxAttributesSize_def)
  have n: "unat (word_of_nat (length (sm_Name m)) :: u16) = length (sm_Name m)"
    using ValidEntryName_length_u16 [OF name] by (simp add: unat_of_nat)
  have dl: "unat (word_of_nat (length (sm_Data m)) :: u64) = length (sm_Data m)"
    using d by (simp add: unat_of_nat)
  show ?lhs
    using ParseAttributes_bytes [OF v] name k a(2)
    by (simp add: parse_record_def s n a(1) dl e [symmetric])
qed

lemma parse_record_shorter: "parse_record s = Ok (m, r) \<Longrightarrow> length r < length s"
  by (auto simp: parse_record_Ok_conv AppendSolidRecord_def bindR_Ok_conv split: if_splits)

function ParseSolidRecords :: "bytes \<Rightarrow> SolidMember list res" where
  "ParseSolidRecords s =
     (if s = [] then Ok []
      else bindR (parse_record s) (\<lambda>(m, r). bindR (ParseSolidRecords r) (\<lambda>ms. Ok (m # ms))))"
  by pat_completeness auto
termination
  by (relation "measure length") (auto dest: parse_record_shorter)

declare ParseSolidRecords.simps [simp del]

definition ParseSolidStream :: "bytes \<Rightarrow> SolidMember list res" where
  "ParseSolidStream stream =
     bindR (ParseSolidRecords stream) (\<lambda>ms.
       if ms = [] then Err (ErrMalformedSolidStream ''no members'') else Ok ms)"

section \<open>The stream parser inverts the packer\<close>

lemma AppendSolidRecord_dst: "AppendSolidRecord dst m = bindR (AppendSolidRecord [] m) (\<lambda>b. Ok (dst @ b))"
  by (cases "AppendAttributes [] (sm_Attributes m)") (simp_all add: AppendSolidRecord_def)

lemma AppendSolidRecords_dst: "AppendSolidRecords dst ms = bindR (AppendSolidRecords [] ms) (\<lambda>b. Ok (dst @ b))"
proof (induction ms arbitrary: dst)
  case (Cons m ms)
  have "AppendSolidRecords dst (m # ms) =
      bindR (AppendSolidRecord [] m) (\<lambda>b. bindR (AppendSolidRecords [] ms) (\<lambda>c. Ok (dst @ b @ c)))" for dst
    by (cases "AppendSolidRecord [] m")
      (simp_all add: AppendSolidRecord_dst [of dst m] Cons.IH [of "dst @ _"])
  from this [of dst] this [of "[]"] show ?case
    by (cases "AppendSolidRecord [] m"; cases "AppendSolidRecords [] ms") simp_all
qed simp

lemma ParseSolidRecords_Ok_conv:
  "ParseSolidRecords s = Ok ms \<longleftrightarrow>
     list_all (\<lambda>m. length (sm_Data m) < 2 ^ 64) ms \<and> AppendSolidRecords [] ms = Ok s"
proof (induction s arbitrary: ms rule: ParseSolidRecords.induct)
  case (1 s)
  show ?case
  proof (cases ms)
    case Nil
    then show ?thesis by (auto simp: ParseSolidRecords.simps [of s] bindR_Ok_conv)
  next
    case (Cons m ms')
    have app: "AppendSolidRecords [] (m # ms') = Ok s \<longleftrightarrow>
      (\<exists>b r. AppendSolidRecord [] m = Ok b \<and> AppendSolidRecords [] ms' = Ok r \<and> s = b @ r)"
    proof -
      have "AppendSolidRecords b ms' = Ok s \<longleftrightarrow> (\<exists>r. AppendSolidRecords [] ms' = Ok r \<and> s = b @ r)" for b
        by (subst AppendSolidRecords_dst) (auto simp: bindR_Ok_conv)
      then show ?thesis by (simp add: bindR_Ok_conv)
    qed
    have ne: "parse_record [] \<noteq> Ok x" for x by (simp add: parse_record_def)
    have "ParseSolidRecords s = Ok ms \<longleftrightarrow>
        (\<exists>r. parse_record s = Ok (m, r) \<and> ParseSolidRecords r = Ok ms')"
      using ne by (auto simp: ParseSolidRecords.simps [of s] bindR_Ok_conv Cons)
    also have "\<dots> \<longleftrightarrow> (\<exists>r. parse_record s = Ok (m, r) \<and>
        list_all (\<lambda>m. length (sm_Data m) < 2 ^ 64) ms' \<and> AppendSolidRecords [] ms' = Ok r)"
      using 1 ne by (metis (no_types, lifting))
    finally show ?thesis unfolding Cons app parse_record_Ok_conv by auto
  qed
qed

lemma parse_record_no_panic: "parse_record s \<noteq> Panic"
  using ParseAttributes_no_panic
  by (auto simp: parse_record_def bindR_Panic_conv uint_Panic_conv cut_Panic_conv uint_Ok_conv
      cut_Ok_conv not_less split: if_splits)

lemma ParseSolidRecords_no_panic: "ParseSolidRecords s \<noteq> Panic"
proof (induction s rule: ParseSolidRecords.induct)
  case (1 s)
  then show ?case
    using parse_record_no_panic [of s]
    by (auto simp: ParseSolidRecords.simps [of s] bindR_Panic_conv)
qed

lemma AppendSolidRecord_size:
  "AppendSolidRecord [] m = Ok b \<Longrightarrow>
   length b = SolidRecordSize (length (sm_Name m)) (length (attributes_bytes (sm_Attributes m))) (length (sm_Data m))"
  by (auto simp: AppendSolidRecord_def SolidRecordSize_def solidRecordHeaderSize_def bindR_Ok_conv
      AppendAttributes_def split: if_splits option.splits)

text \<open>
  C35: \<^verbatim>\<open>ParseSolidStream\<close> never panics on any input and is the exact inverse of packing: it
  returns the members \<open>ms\<close> if and only if the stream is what \<^verbatim>\<open>AppendSolidRecord\<close> produces for
  them in order, with at least one member (and no member longer than a 64-bit length).
  Hence member names, attributes and data survive, no other stream is accepted, and every
  accepted name is a valid entry name of a regular file.
\<close>

theorem ParseSolidStream_exact:
  "ParseSolidStream s \<noteq> Panic \<and>
   (ParseSolidStream s = Ok ms \<longleftrightarrow>
      ms \<noteq> [] \<and> list_all (\<lambda>m. length (sm_Data m) < 2 ^ 64) ms \<and> AppendSolidRecords [] ms = Ok s)"
  using ParseSolidRecords_no_panic [of s] ParseSolidRecords_Ok_conv [of s ms]
  by (auto simp: ParseSolidStream_def bindR_Ok_conv bindR_Panic_conv split: if_splits)

end
