(* ===== verification/Extractor.thy ===== *)
theory Extractor
  imports Block_Reader Writer Solid
begin

text \<open>
  \<^verbatim>\<open>io/extractor.go\<close> with the reading half of \<^verbatim>\<open>io/solid.go\<close> and \<^verbatim>\<open>io/directory.go\<close>: the header,
  the walk over entries, opening an entry's metadata, trailer and payload, skipping an entry
  that cannot be opened, and listing.  The reader of the extractor is the stream that
  every operation takes and returns; progress reports are left out.  An error that wraps a
  structured error keeps the cause of the latter.
\<close>

section \<open>The header\<close>

record headerInfo =
  hi_flags :: byte
  hi_sealedCount :: u64
  hi_recipientBlockLen :: nat

definition no_header :: headerInfo where
  "no_header = \<lparr>hi_flags = 0, hi_sealedCount = 0, hi_recipientBlockLen = 0\<rparr>"

definition incremental :: "headerInfo \<Rightarrow> bool" where
  "incremental h \<longleftrightarrow> hi_flags h AND HeaderFlagIncremental \<noteq> 0"

definition header_end :: "headerInfo \<Rightarrow> nat" where
  "header_end h = FileCountOffset (hi_recipientBlockLen h) + FileCountSealedSize + ReservedSize"

text \<open>\<^verbatim>\<open>errors.As\<close> for the two credential errors: the error itself or one it wraps.\<close>

fun as_NoMatch :: "sarc_error \<Rightarrow> string list option" where
  "as_NoMatch (NoMatchingCredentialError kinds) = Some kinds"
| "as_NoMatch (Wrap _ e) = as_NoMatch e"
| "as_NoMatch _ = None"

fun as_Identity :: "sarc_error \<Rightarrow> string option" where
  "as_Identity (IdentityError m) = Some m"
| "as_Identity (Wrap _ e) = as_Identity e"
| "as_Identity _ = None"

definition joinComma :: "string list \<Rightarrow> string" where
  "joinComma ks = concat (map (\<lambda>i. if i = 0 then ks ! i else '', '' @ ks ! i) [0..<length ks])"

definition credential_error :: "sarc_error \<Rightarrow> ArchiveError" where
  "credential_error e =
     (case as_NoMatch e of
        Some kinds \<Rightarrow> fatal ErrCodeAuthFailed
          (''no matching credential; this archive accepts: '' @ joinComma kinds) (Some e)
      | None \<Rightarrow> (case as_Identity e of
          Some m \<Rightarrow> fatal ErrCodeAuthFailed (''identity could not be used: '' @ m) (Some e)
        | None \<Rightarrow> fatal ErrCodeIntegrityFail ''malformed recipient block'' (Some e)))"

definition openFileCount :: "prims \<Rightarrow> KeySchedule \<Rightarrow> bytes \<Rightarrow> u64 res" where
  "openFileCount P keys sealed =
     bindR (HeaderKey P keys) (\<lambda>headerKey.
     bindR (NewEncryptionManager headerKey) (\<lambda>em.
     bindR (DecryptBlock P em \<lparr>eb_Nonce = take NonceSize sealed, eb_Ciphertext = drop NonceSize sealed\<rparr>) (\<lambda>plain.
       if length plain \<noteq> 8 then Err (Errorf ''sealed count size'')
       else uint64 plain)))"

definition readVersion1Header :: "bytes \<Rightarrow> (KeySchedule \<times> headerInfo) reader" where
  "readVersion1Header password =
     bindS (readS (SaltSize + FileCountSealedSize + ReservedSize)
       (\<lambda>e. fatal ErrCodeTruncated ''read header'' (Some e))) (\<lambda>_.
     if password = [] then failS (fatal ErrCodeAuthFailed ''version 1 archives require a password'' None)
     else returnS (NewVersion1KeySchedule password, no_header))"

definition readVersion2Header ::
  "prims \<Rightarrow> ('r, 'i) age \<Rightarrow> 'i Unlockers \<Rightarrow> (KeySchedule \<times> headerInfo) reader" where
  "readVersion2Header P A u =
     bindS (readS 4 (\<lambda>e. fatal ErrCodeTruncated ''read recipient block length'' (Some e))) (\<lambda>lenBuf.
     let blockLen = unat (word_le 4 lenBuf :: u32) in
     if MaxRecipientBlockSize < blockLen
     then failS (fatal ErrCodeIntegrityFail ''recipient block exceeds maximum size'' None)
     else
       bindS (readS blockLen (\<lambda>e. fatal ErrCodeTruncated ''read recipient block'' (Some e))) (\<lambda>block.
       bindS (readS FileCountSealedSize (\<lambda>e. fatal ErrCodeTruncated ''read file count'' (Some e))) (\<lambda>count.
       bindS (readS ReservedSize (\<lambda>e. fatal ErrCodeTruncated ''read header reserved'' (Some e))) (\<lambda>reserved.
       bindS (callS credential_error (OpenRecipientBlock P A block u)) (\<lambda>cek.
       let keys = NewVersion2KeySchedule cek in
       bindS (callS (\<lambda>e. fatal ErrCodeAuthFailed ''corrupted header'' (Some e)) (openFileCount P keys count)) (\<lambda>n.
       returnS (keys, \<lparr>hi_flags = hd reserved, hi_sealedCount = n, hi_recipientBlockLen = blockLen\<rparr>)))))))"

definition readHeader ::
  "prims \<Rightarrow> ('r, 'i) age \<Rightarrow> 'i Unlockers \<Rightarrow> (KeySchedule \<times> headerInfo) reader" where
  "readHeader P A u =
     bindS (readS 4 (\<lambda>e. fatal ErrCodeTruncated ''read magic'' (Some e))) (\<lambda>magic.
     if magic \<noteq> Magic then failS (fatal ErrCodeBadMagic ''invalid magic bytes'' None)
     else bindS (readS 2 (\<lambda>e. fatal ErrCodeTruncated ''read version'' (Some e))) (\<lambda>version.
       let v = (word_le 2 version :: u16) in
       if v = Version1 then readVersion1Header (u_Password u)
       else if v = Version2 then readVersion2Header P A u
       else failS (fatal ErrCodeBadVersion ''unsupported version'' (Some (ErrUnsupportedVersion [])))))"

section \<open>Skipping\<close>

text \<open>The error of \<^verbatim>\<open>skipPadding\<close> is not structured; each caller wraps it.\<close>

definition skipPadding :: "(sarc_error \<Rightarrow> ArchiveError) \<Rightarrow> unit reader" where
  "skipPadding wrap = bindS (readS 4 wrap) (\<lambda>sizeBuf. copyS (unat (word_le 4 sizeBuf :: u32)) wrap)"

text \<open>
  \<^verbatim>\<open>skipTrailer(cause)\<close> and \<^verbatim>\<open>skipEntryBody(cause)\<close> return the cause once the bytes are skipped:
  \<open>cause\<close> is \<open>failS e\<close> for an error and \<open>returnS ()\<close> for \<^verbatim>\<open>nil\<close>.
\<close>

definition skipTrailer :: "'a reader \<Rightarrow> 'a reader" where
  "skipTrailer cause =
     bindS (skipPadding (\<lambda>e. fatal ErrCodeTruncated ''skip trailer padding'' (Some e))) (\<lambda>_.
     bindS (readS (NonceSize + 4) (\<lambda>e. fatal ErrCodeTruncated ''read sealed trailer header'' (Some e))) (\<lambda>header.
     let sealedSize = unat (word_le 4 (drop NonceSize header) :: u32) in
     if TrailerPayloadSize + GCMTagSize < sealedSize
     then failS (fatal ErrCodeIntegrityFail ''sealed trailer too large'' None)
     else bindS (copyS (sealedSize + 8) (\<lambda>e. fatal ErrCodeTruncated ''skip sealed trailer'' (Some e))) (\<lambda>_. cause)))"

definition skipEntryBody :: "'a reader \<Rightarrow> 'a reader" where
  "skipEntryBody cause =
     bindS (skipPadding (\<lambda>e. fatal ErrCodeTruncated ''skip inter-block padding'' (Some e))) (\<lambda>_.
     bindS skipDataBlocks (\<lambda>_. skipTrailer cause))"

section \<open>Opening an entry\<close>

definition maxMetadataCiphertext :: nat where
  "maxMetadataCiphertext = MaxMetadataSize + GCMTagSize"

definition readMetadataBlock :: "MetadataBlock reader" where
  "readMetadataBlock =
     bindS (readS NonceSize (\<lambda>e. recoverable ErrCodeTruncated ''read metadata nonce'' (Some e))) (\<lambda>nonce.
     bindS (readS 4 (\<lambda>e. recoverable ErrCodeTruncated ''read metadata size'' (Some e))) (\<lambda>sizeBuf.
     let size = unat (word_le 4 sizeBuf :: u32) in
     if maxMetadataCiphertext < size then failS (fatal ErrCodeIntegrityFail ''metadata size exceeds maximum'' None)
     else bindS (readS size (\<lambda>e. recoverable ErrCodeTruncated ''read metadata ciphertext'' (Some e))) (\<lambda>ct.
       returnS \<lparr>mb_Nonce = nonce, mb_Ciphertext = ct\<rparr>)))"

record entryHead =
  eh_fileKey :: bytes
  eh_pm :: PlaintextMetadata

text \<open>An error of \<open>m\<close> that makes the reader skip the rest of the entry before it is reported.\<close>

definition orSkipBody :: "(sarc_error \<Rightarrow> ArchiveError) \<Rightarrow> 'a res \<Rightarrow> 'a reader" where
  "orSkipBody wrap m =
     (case m of Ok x \<Rightarrow> returnS x | Err e \<Rightarrow> skipEntryBody (failS (wrap e)) | Panic \<Rightarrow> callS wrap Panic)"

definition readEntryHead :: "prims \<Rightarrow> KeySchedule \<Rightarrow> entryHead reader" where
  "readEntryHead P keys =
     bindS (readS SaltSize (\<lambda>e. recoverable ErrCodeTruncated ''read entry salt'' (Some e))) (\<lambda>salt.
     bindS (callS (\<lambda>e. fatal ErrCodeAuthFailed ''derive file key'' (Some e)) (FileKey P keys salt)) (\<lambda>fileKey.
     bindS (readS 32 (\<lambda>e. recoverable ErrCodeTruncated ''read frame header'' (Some e))) (\<lambda>_.
     bindS readMetadataBlock (\<lambda>metaBlock.
     bindS (callS (\<lambda>e. fatal ErrCodeAuthFailed ''init metadata manager'' (Some e)) (NewMetadataManager fileKey)) (\<lambda>mm.
     bindS (orSkipBody (\<lambda>e. recoverable ErrCodeAuthFailed ''decrypt metadata'' (Some e)) (mm_Open P mm metaBlock)) (\<lambda>pm.
     returnS \<lparr>eh_fileKey = fileKey, eh_pm = pm\<rparr>))))))"

record trailerInfo =
  ti_hmac :: bytes
  ti_plaintextSize :: u64
  ti_hasSize :: bool

definition trailer_payload :: "u16 \<Rightarrow> bytes \<Rightarrow> trailerInfo reader" where
  "trailer_payload version payload =
     (if version = Version1 \<and> length payload = HMACSize
      then returnS \<lparr>ti_hmac = take HMACSize payload, ti_plaintextSize = 0, ti_hasSize = False\<rparr>
      else if version \<noteq> Version1 \<and> length payload = TrailerPayloadSize
      then returnS \<lparr>ti_hmac = take HMACSize payload, ti_plaintextSize = word_le 8 (drop HMACSize payload),
             ti_hasSize = True\<rparr>
      else failS (recoverable ErrCodeIntegrityFail ''HMAC length mismatch'' None))"

definition readTrailer :: "prims \<Rightarrow> bytes \<Rightarrow> u16 \<Rightarrow> trailerInfo reader" where
  "readTrailer P fileKey version =
     bindS (skipPadding (\<lambda>e. recoverable ErrCodeTruncated ''skip trailer padding'' (Some e))) (\<lambda>_.
     bindS (readS NonceSize (\<lambda>e. recoverable ErrCodeTruncated ''read HMAC nonce'' (Some e))) (\<lambda>sealedNonce.
     bindS (readS 4 (\<lambda>e. recoverable ErrCodeTruncated ''read HMAC sealed size'' (Some e))) (\<lambda>sizeBuf.
     let sealedSize = unat (word_le 4 sizeBuf :: u32) in
     if TrailerPayloadSize + GCMTagSize < sealedSize
     then failS (fatal ErrCodeIntegrityFail ''sealed trailer too large'' None)
     else
       bindS (readS sealedSize (\<lambda>e. recoverable ErrCodeTruncated ''read HMAC sealed'' (Some e))) (\<lambda>sealed.
       bindS (readS 8 (\<lambda>e. recoverable ErrCodeTruncated ''read entry checksum'' (Some e))) (\<lambda>_.
       bindS (callS (\<lambda>e. fatal ErrCodeAuthFailed ''init HMAC decryptor'' (Some e)) (NewEncryptionManager fileKey)) (\<lambda>em.
       bindS (callS (\<lambda>e. recoverable ErrCodeAuthFailed ''decrypt HMAC'' (Some e))
         (DecryptBlock P em \<lparr>eb_Nonce = sealedNonce, eb_Ciphertext = sealed\<rparr>)) (\<lambda>payload.
       trailer_payload version payload)))))))"

definition verifyPlaintext :: "prims \<Rightarrow> bytes \<Rightarrow> bytes \<Rightarrow> trailerInfo \<Rightarrow> unit reader" where
  "verifyPlaintext P fileKey plaintext trailer =
     bindS (callS (\<lambda>e. recoverable ErrCodeIntegrityFail ''plaintext HMAC mismatch'' (Some e))
       (VerifyHMAC P fileKey plaintext (ti_hmac trailer))) (\<lambda>_.
     if ti_hasSize trailer \<and> ti_plaintextSize trailer \<noteq> word_of_nat (length plaintext)
     then failS (recoverable ErrCodeIntegrityFail ''plaintext size mismatch'' None)
     else returnS ())"

definition decryptFilename :: "prims \<Rightarrow> bytes \<Rightarrow> bytes \<Rightarrow> bytes res" where
  "decryptFilename P blob fileKey =
     (if length blob < NonceSize then Err (Errorf ''decryptFilename: blob too short'')
      else bindR (NewEncryptionManager fileKey) (\<lambda>em.
        DecryptBlock P em \<lparr>eb_Nonce = take NonceSize blob, eb_Ciphertext = drop NonceSize blob\<rparr>))"

section \<open>Walking over the entries\<close>

definition skipDirectory :: "prims \<Rightarrow> KeySchedule \<Rightarrow> byte \<Rightarrow> unit reader" where
  "skipDirectory P keys entryType =
     (if entryType = EntryTypeDirectoryLocator
      then bindS (readS (DirectoryLocatorSize - 1) (\<lambda>e. fatal ErrCodeTruncated ''read directory locator'' (Some e))) (\<lambda>rest.
        bindS (callS (\<lambda>e. fatal ErrCodeIntegrityFail ''damaged directory locator'' (Some e))
          (ParseDirectoryLocator (entryType # rest))) (\<lambda>_. returnS ()))
      else catchS (bindS (readEntryHead P keys) (\<lambda>_. skipEntryBody (returnS ())))
        (\<lambda>e. failS (fatal ErrCodeIntegrityFail ''damaged directory'' (ae_cause e))))"

lemma consumes_let [consume_intros]: "(\<And>x. consumes (f x)) \<Longrightarrow> consumes (Let a f)"
  by (simp add: Let_def)

lemma consumes_if [consume_intros]: "consumes a \<Longrightarrow> consumes b \<Longrightarrow> consumes (if c then a else b)"
  by simp

lemma skipPadding_consumes [consume_intros]: "consumes (skipPadding w)"
  unfolding skipPadding_def by (intro consume_intros)

lemma skipTrailer_consumes [consume_intros]: "consumes c \<Longrightarrow> consumes (skipTrailer c)"
  unfolding skipTrailer_def by (intro consume_intros)

lemma skipEntryBody_consumes [consume_intros]: "consumes c \<Longrightarrow> consumes (skipEntryBody c)"
  unfolding skipEntryBody_def by (intro consume_intros)

lemma orSkipBody_consumes [consume_intros]: "consumes (orSkipBody w m)"
  by (cases m) (auto simp: orSkipBody_def intro: consume_intros)

lemma readMetadataBlock_consumes [consume_intros]: "consumes readMetadataBlock"
  unfolding readMetadataBlock_def by (intro consume_intros)

lemma readEntryHead_consumes [consume_intros]: "consumes (readEntryHead P keys)"
  unfolding readEntryHead_def by (intro consume_intros)

lemma readTrailer_consumes [consume_intros]: "consumes (readTrailer P k v)"
  unfolding readTrailer_def trailer_payload_def by (intro consume_intros)

lemma verifyPlaintext_consumes [consume_intros]: "consumes (verifyPlaintext P k x t)"
  unfolding verifyPlaintext_def by (intro consume_intros)

lemma skipDirectory_consumes [consume_intros]: "consumes (skipDirectory P keys t)"
  unfolding skipDirectory_def by (intro consume_intros)

lemma skipDirectory_shorter:
  assumes "sReadFull (Suc 0) s = (b, None, s1)" and "skipDirectory P keys t s1 = (r, s2)"
  shows "length (s_bytes s2) < length (s_bytes s)"
  using sReadFull_shorter [OF assms(1)] later_le [OF consumesD [OF skipDirectory_consumes assms(2)]] by simp

function nextEntryType :: "prims \<Rightarrow> KeySchedule \<Rightarrow> (byte \<times> bool) reader" where
  "nextEntryType P keys s =
     (case sReadFull 1 s of (b, err, s1) \<Rightarrow>
      let t = hd b in
      if ks_version keys = Version1 then
        (case err of
           Some e \<Rightarrow> if e = EOF then (Val (0, False), s1)
                    else (Fail (fatal ErrCodeTruncated ''read entry type'' (Some e)), s1)
         | None \<Rightarrow> (Val (t, t = EntryTypeFile), s1))
      else
        (case err of
           Some e \<Rightarrow> (Fail (fatal ErrCodeTruncated ''read entry type'' (Some e)), s1)
         | None \<Rightarrow>
             if t = EntryTypeFile \<or> t = EntryTypeSolid then (Val (t, True), s1)
             else if t = EntryTypeEnd then (Val (t, False), s1)
             else if t = EntryTypeDirectory \<or> t = EntryTypeDirectoryLocator then
               (case skipDirectory P keys t s1 of
                  (Val _, s2) \<Rightarrow> nextEntryType P keys s2
                | (Fail e, s2) \<Rightarrow> (Fail e, s2)
                | (Crash, s2) \<Rightarrow> (Crash, s2))
             else (Fail (fatal ErrCodeIntegrityFail ''unexpected entry type'' None), s1)))"
  by pat_completeness auto
termination
  by (relation "measure (\<lambda>(P, keys, s). length (s_bytes s))") (auto dest: skipDirectory_shorter [OF sym sym])

declare nextEntryType.simps [simp del]

section \<open>Solid groups\<close>

text \<open>
  The solid decoder is created on first use; its creation can only fail in the library, and
  the decoder found in \<^verbatim>\<open>entryDecoders\<close> is the one \<^verbatim>\<open>NewSolidDecompressor\<close> makes.
\<close>

definition decode_solid :: "zstd \<Rightarrow> Codec \<Rightarrow> bytes \<Rightarrow> bytes reader" where
  "decode_solid Z codec payload =
     (if codec = CodecZstd
      then bindS (callS (\<lambda>e. fatal ErrCodeReadFailed ''init solid decompressor'' (Some e)) (NewSolidDecompressor Z)) (\<lambda>dec.
        callS (\<lambda>e. recoverable ErrCodeIntegrityFail ''decompress solid group'' (Some e)) (Decompress Z dec payload))
      else if MaxSolidStreamSize < length payload
      then failS (recoverable ErrCodeIntegrityFail ''solid group exceeds maximum size'' None)
      else returnS payload)"

definition readSolidStream :: "prims \<Rightarrow> zstd \<Rightarrow> KeySchedule \<Rightarrow> entryHead \<Rightarrow> (bytes \<times> nat) reader" where
  "readSolidStream P Z keys head =
     bindS (skipPadding (\<lambda>e. recoverable ErrCodeTruncated ''skip inter-block padding'' (Some e))) (\<lambda>_.
     bindS (catchS (decryptDataBlocks P Z (eh_fileKey head) CodecNone \<lparr>bd_limit = 0, bd_window = 0\<rparr>)
       (\<lambda>e. if IsFatal e then failS e else skipTrailer (failS e))) (\<lambda>payload.
     bindS (readTrailer P (eh_fileKey head) (ks_version keys)) (\<lambda>trailer.
     bindS (decode_solid Z (pm_Codec (eh_pm head)) payload) (\<lambda>stream.
     bindS (verifyPlaintext P (eh_fileKey head) stream trailer) (\<lambda>_.
     returnS (stream, length payload))))))"

definition readSolidMembers ::
  "prims \<Rightarrow> zstd \<Rightarrow> KeySchedule \<Rightarrow> entryHead \<Rightarrow> (SolidMember list \<times> nat \<times> nat) reader" where
  "readSolidMembers P Z keys head =
     bindS (readSolidStream P Z keys head) (\<lambda>(stream, stored).
     bindS (callS (\<lambda>e. recoverable ErrCodeIntegrityFail ''parse solid group'' (Some e)) (ParseSolidStream stream)) (\<lambda>members.
     returnS (members, length stream, stored)))"

section \<open>Listing\<close>

record ListResult =
  lr_Filename :: bytes
  lr_SizeBucket :: string
  lr_Codec :: string
  lr_Solid :: bool
  lr_OriginalBytes :: int
  lr_StoredBytes :: int
  lr_Kind :: FileKind
  lr_Mode :: u32
  lr_LinkTarget :: bytes
  lr_ModTime :: i64
  lr_Err :: "ArchiveError option"

definition Codec_String :: "Codec \<Rightarrow> string" where
  "Codec_String c = (if c = CodecNone then ''none'' else if c = CodecZstd then ''zstd'' else ''unknown'')"

definition bucketName :: "SizeBucket \<Rightarrow> string" where
  "bucketName b =
     (if b = BucketTiny then ''0-1 KB'' else if b = BucketSmall then ''1-10 KB''
      else if b = BucketMedium then ''10-100 KB'' else if b = BucketLarge then ''100 KB-1 MB'' else ''>1 MB'')"

definition list_result :: "bytes \<Rightarrow> string \<Rightarrow> string \<Rightarrow> bool \<Rightarrow> int \<Rightarrow> int \<Rightarrow> ListResult" where
  "list_result name bucket codec solid original stored =
     \<lparr>lr_Filename = name, lr_SizeBucket = bucket, lr_Codec = codec, lr_Solid = solid, lr_OriginalBytes = original,
      lr_StoredBytes = stored, lr_Kind = KindRegular, lr_Mode = 0, lr_LinkTarget = [], lr_ModTime = 0, lr_Err = None\<rparr>"

definition withAttributes :: "ListResult \<Rightarrow> Attributes option \<Rightarrow> u32 \<Rightarrow> ListResult" where
  "withAttributes r attrs permissions =
     (case attrs of
        None \<Rightarrow> r\<lparr>lr_Mode := permissions AND 0x1FF\<rparr>
      | Some a \<Rightarrow> r\<lparr>lr_Kind := a_Kind a, lr_Mode := a_Mode a, lr_LinkTarget := a_LinkTarget a,
                   lr_ModTime := a_ModTime a\<rparr>)"

definition listFileBody :: "prims \<Rightarrow> KeySchedule \<Rightarrow> entryHead \<Rightarrow> ListResult reader" where
  "listFileBody P keys head =
     (let fileKey = eh_fileKey head; pm = eh_pm head in
      bindS (orSkipBody (\<lambda>e. recoverable ErrCodeAuthFailed ''decrypt filename'' (Some e))
        (decryptFilename P (pm_EncryptedFilename pm) fileKey)) (\<lambda>filename.
      bindS (skipPadding (\<lambda>e. recoverable ErrCodeTruncated ''skip inter-block padding'' (Some e))) (\<lambda>_.
      bindS skipDataBlocks (\<lambda>stored.
      bindS (readTrailer P fileKey (ks_version keys)) (\<lambda>trailer.
      let original = (if ti_hasSize trailer then sint (ti_plaintextSize trailer) else int stored) in
      returnS (withAttributes (list_result filename (bucketName (pm_SizeBucket pm)) (Codec_String (pm_Codec pm))
        False original (int stored)) (pm_Attributes pm) (pm_Permissions pm)))))))"

definition list_member :: "Codec \<Rightarrow> nat \<Rightarrow> nat \<Rightarrow> SolidMember \<Rightarrow> ListResult" where
  "list_member codec streamSize stored m =
     (let n = length (sm_Data m) in
      withAttributes (list_result (sm_Name m) (bucketName (BucketizeSize (int n))) (Codec_String codec) True (int n)
        (int (n * stored div streamSize))) (Some (sm_Attributes m)) 0)"

definition listSolidBody :: "prims \<Rightarrow> zstd \<Rightarrow> KeySchedule \<Rightarrow> entryHead \<Rightarrow> ListResult list reader" where
  "listSolidBody P Z keys head =
     bindS (readSolidMembers P Z keys head) (\<lambda>(members, streamSize, stored).
       returnS (map (list_member (pm_Codec (eh_pm head)) streamSize stored) members))"

definition listEntry :: "prims \<Rightarrow> zstd \<Rightarrow> KeySchedule \<Rightarrow> byte \<Rightarrow> ListResult list reader" where
  "listEntry P Z keys entryType =
     bindS (readEntryHead P keys) (\<lambda>head.
     if entryType = EntryTypeSolid then listSolidBody P Z keys head
     else bindS (listFileBody P keys head) (\<lambda>r. returnS [r]))"

definition list_failed :: "ArchiveError \<Rightarrow> ListResult" where
  "list_failed e = (list_result (str ''<decrypt error>'') ''?'' ''?'' False 0 0)\<lparr>lr_Err := Some e\<rparr>"

lemma decode_solid_consumes [consume_intros]: "consumes (decode_solid Z c p)"
  unfolding decode_solid_def by (intro consume_intros)

lemma readSolidStream_consumes [consume_intros]: "consumes (readSolidStream P Z keys head)"
  unfolding readSolidStream_def by (intro consume_intros)

lemma consumes_split [consume_intros]: "(\<And>x y. consumes (f x y)) \<Longrightarrow> consumes (case p of (x, y) \<Rightarrow> f x y)"
  by (cases p) simp

lemma readSolidMembers_consumes [consume_intros]: "consumes (readSolidMembers P Z keys head)"
  unfolding readSolidMembers_def by (intro consume_intros)

lemma listFileBody_consumes [consume_intros]: "consumes (listFileBody P keys head)"
  unfolding listFileBody_def by (intro consume_intros)

lemma listEntry_consumes [consume_intros]: "consumes (listEntry P Z keys t)"
  unfolding listEntry_def listSolidBody_def by (intro consume_intros)

lemma nextEntryType_later:
  "nextEntryType P keys s = (r, s') \<Longrightarrow> later s s' \<and> (r = Val (t, True) \<longrightarrow> length (s_bytes s') < length (s_bytes s))"
proof (induction "length (s_bytes s)" arbitrary: s rule: less_induct)
  case less
  obtain b err s1 where b: "sReadFull 1 s = (b, err, s1)" by (metis prod_cases3)
  obtain o2 s2 where d: "skipDirectory P keys (hd b) s1 = (o2, s2)" by force
  have l: "later s s1" "later s1 s2" using later_sReadFull [OF b] consumesD [OF skipDirectory_consumes d] by auto
  have lt: "length (s_bytes s1) < length (s_bytes s)" if "err = None"
    using sReadFull_shorter [of 1 s b s1] b that by simp
  note e = less.prems [unfolded nextEntryType.simps [of P keys s] b prod.case Let_def d]
  show ?case
  proof (cases "err = None \<and> (\<exists>x. o2 = Val x) \<and> nextEntryType P keys s2 = (r, s')")
    case True
    have "length (s_bytes s2) < length (s_bytes s)" using lt True later_le [OF l(2)] by simp
    from less.hyps [OF this] True l this show ?thesis by (meson later_trans less_trans)
  next
    case False
    with e l lt show ?thesis by (auto split: if_splits option.splits outcome.splits intro: later_trans)
  qed
qed

lemma listEntry_shorter:
  assumes "nextEntryType P keys s = (Val (t, True), s1)" and "listEntry P Z keys t s1 = (r, s2)"
  shows "length (s_bytes s2) < length (s_bytes s)"
  using nextEntryType_later [OF assms(1), of t] later_le [OF consumesD [OF listEntry_consumes assms(2)]] by simp

text \<open>\<^verbatim>\<open>scanList\<close>: a recoverable failure of one entry is listed, and the walk goes on.\<close>

function scanList_from ::
  "prims \<Rightarrow> zstd \<Rightarrow> KeySchedule \<Rightarrow> ListResult list \<Rightarrow> stream \<Rightarrow> (ListResult list \<times> unit outcome) \<times> stream" where
  "scanList_from P Z keys results s =
     (case nextEntryType P keys s of
        (Fail e, s1) \<Rightarrow> ((results, Fail e), s1)
      | (Crash, s1) \<Rightarrow> ((results, Crash), s1)
      | (Val (t, go), s1) \<Rightarrow>
          if \<not> go then ((results, Val ()), s1)
          else (case listEntry P Z keys t s1 of
             (Val rs, s2) \<Rightarrow> scanList_from P Z keys (results @ rs) s2
           | (Fail e, s2) \<Rightarrow> if IsFatal e then ((results, Fail e), s2)
                            else scanList_from P Z keys (results @ [list_failed e]) s2
           | (Crash, s2) \<Rightarrow> ((results, Crash), s2)))"
  by pat_completeness auto
termination
  by (relation "measure (\<lambda>(P, Z, keys, rs, s). length (s_bytes s))") (auto dest: listEntry_shorter [OF sym sym])

declare scanList_from.simps [simp del]

definition scanList :: "prims \<Rightarrow> zstd \<Rightarrow> KeySchedule \<Rightarrow> stream \<Rightarrow> (ListResult list \<times> unit outcome) \<times> stream" where
  "scanList P Z keys s = scanList_from P Z keys [] s"

section \<open>Reading what the writer wrote\<close>

text \<open>
  The sizes every entry of the writer has, whatever it contains: they are all that a reader
  needs to find the next entry.
\<close>

definition block_sized :: "DataBlock \<Rightarrow> bool" where
  "block_sized db \<longleftrightarrow> length (db_Nonce db) = NonceSize \<and> GCMTagSize \<le> length (db_Ciphertext db)
     \<and> length (db_Ciphertext db) \<le> maxBlockCiphertext"

definition trailer_sized :: "FileTrailer \<Rightarrow> bool" where
  "trailer_sized t \<longleftrightarrow> length (ft_RandomPadding t) < 2 ^ 32 \<and> length (ft_PlaintextHMACNonce t) = NonceSize
     \<and> length (ft_PlaintextHMACSealed t) \<le> TrailerPayloadSize + GCMTagSize \<and> length (ft_EntryChecksum t) = 8"

definition entry_sized :: "FileEntry \<Rightarrow> bool" where
  "entry_sized e \<longleftrightarrow> length (fe_EntrySalt e) = SaltSize \<and> length (fe_FrameHdr e) = 32
     \<and> length (mb_Nonce (fe_Metadata e)) = NonceSize
     \<and> length (mb_Ciphertext (fe_Metadata e)) \<le> maxMetadataCiphertext
     \<and> length (fe_InterBlockPad e) < 2 ^ 32 \<and> list_all block_sized (fe_DataBlocks e)
     \<and> trailer_sized (fe_Trailer e)"

lemma block_limit: "maxBlockCiphertext = 295184" "TrailerPayloadSize + GCMTagSize = 56"
  by (simp_all add: maxBlockCiphertext_def MaxPayloadSize_eq GCMTagSize_def TrailerPayloadSize_def HMACSize_def)

lemma metadata_limit: "maxMetadataCiphertext < 2 ^ 32"
  by (simp add: maxMetadataCiphertext_def MaxMetadataSize_def GCMTagSize_def MaxAttributesSize_def attr_limits)

lemma size32_dec: "length b < 2 ^ 32 \<Longrightarrow> unat (word_le 4 (size32 b) :: u32) = length b"
  using word_le_enc [of 4 "word_of_nat (length b) :: u32" "[]"]
  by (simp add: size32_def le32_def unat_of_nat)

lemma length_size32 [simp]: "length (size32 b) = 4"
  by (simp add: size32_def)

lemma skipPadding_reads [reads]:
  "length pad < 2 ^ 32 \<Longrightarrow> skipPadding w (Stream (padding_bytes pad @ r) e) = (Val (), Stream r e)"
  by (simp add: skipPadding_def padding_bytes_def bindS_def readS_append size32_dec copyS_append)

lemma block_sized_nonempty: "block_sized db \<Longrightarrow> db_Ciphertext db \<noteq> []"
  by (auto simp: block_sized_def GCMTagSize_def)

lemma sReadFull_reads: "length x = n \<Longrightarrow> sReadFull n (Stream (x @ r) e) = (x, None, Stream r e)"
  by (simp add: sReadFull_def Let_def)

lemma next_block_reads:
  "block_sized db \<Longrightarrow> next_block (Stream (block_bytes db @ r) e) = (NBlock (db_Nonce db) (db_Ciphertext db), Stream r e)"
proof -
  assume db: "block_sized db"
  then have "length (db_Ciphertext db) < 2 ^ 32" by (simp add: block_sized_def block_limit)
  with db block_sized_nonempty [OF db] show ?thesis
    by (simp add: next_block_def block_bytes_def block_sized_def sReadFull_reads size32_dec Let_def)
qed

lemma sentinel_split: "sentinel @ r = replicate NonceSize 0 @ replicate 4 0 @ r"
  by (simp add: sentinel_def replicate_add)

lemma word_le_zeros: "(word_le 4 (replicate 4 0) :: u32) = 0"
  by (simp add: word_le_def numeral_eq_Suc)

lemma next_block_end: "next_block (Stream (sentinel @ r) e) = (NEnd, Stream r e)"
  unfolding sentinel_split by (simp add: next_block_def sReadFull_reads word_le_zeros)

lemma skipDataBlocks_from_reads:
  "list_all block_sized dbs \<Longrightarrow>
   \<exists>m. skipDataBlocks_from n (Stream (concat (map block_bytes dbs) @ sentinel @ r) e) = (Val m, Stream r e)
     \<and> int m = int n + stored_size dbs"
proof (induction dbs arbitrary: n)
  case Nil
  have "sReadFull (NonceSize + 4) (Stream (sentinel @ r) e) = (sentinel, None, Stream r e)"
    by (simp add: sReadFull_reads sentinel_def)
  moreover have "drop NonceSize sentinel = replicate 4 0" by (simp add: sentinel_def replicate_add)
  ultimately show ?case by (simp add: skipDataBlocks_from.simps [of n] word_le_zeros stored_size_def)
next
  case (Cons db dbs)
  let ?r = "concat (map block_bytes dbs) @ sentinel @ r" and ?l = "length (db_Ciphertext db)"
  have db: "block_sized db" "?l < 2 ^ 32" using Cons.prems by (simp_all add: block_sized_def block_limit)
  have h: "sReadFull (NonceSize + 4) (Stream (block_bytes db @ ?r) e)
      = (db_Nonce db @ size32 (db_Ciphertext db), None, Stream (db_Ciphertext db @ ?r) e)"
    using db(1) sReadFull_reads [of "db_Nonce db @ size32 (db_Ciphertext db)" "NonceSize + 4"]
    by (simp add: block_bytes_def block_sized_def)
  obtain m where m: "skipDataBlocks_from (n + (?l - GCMTagSize)) (Stream ?r e) = (Val m, Stream r e)"
    "int m = int (n + (?l - GCMTagSize)) + stored_size dbs" using Cons by fastforce
  have c: "CopyN ?l (Stream (db_Ciphertext db @ ?r) e) = (None, Stream ?r e)" by (simp add: CopyN_def)
  have "skipDataBlocks_from n (Stream (block_bytes db @ ?r) e) = (Val m, Stream r e)"
    using db h c m(1) block_sized_nonempty [OF db(1)]
    by (simp add: skipDataBlocks_from.simps [of n] block_sized_def size32_dec Let_def)
  moreover have "int m = int n + stored_size (db # dbs)"
    using m(2) db(1) by (simp add: stored_size_def block_sized_def of_nat_diff)
  ultimately show ?case by simp
qed

lemma skipDataBlocks_reads:
  assumes "list_all block_sized dbs"
  shows "skipDataBlocks (Stream (concat (map block_bytes dbs) @ sentinel @ r) e) = (Val (nat (stored_size dbs)), Stream r e)"
    and "0 \<le> stored_size dbs"
  using skipDataBlocks_from_reads [OF assms, of 0 r e] by (auto simp: skipDataBlocks_def)

lemma skipTrailer_reads:
  assumes "trailer_sized t"
  shows "skipTrailer c (Stream (trailer_bytes t @ r) e) = c (Stream r e)"
proof -
  let ?s = "ft_PlaintextHMACSealed t"
  have l: "length ?s < 2 ^ 32" "length ?s \<le> 56" "length (ft_PlaintextHMACNonce t @ size32 ?s) = NonceSize + 4"
      "length (?s @ ft_EntryChecksum t) = length ?s + 8"
    using assms by (simp_all add: trailer_sized_def block_limit)
  have d: "drop NonceSize (ft_PlaintextHMACNonce t @ size32 ?s) = size32 ?s"
    using assms by (simp add: trailer_sized_def)
  show ?thesis
    using assms l readS_append [OF l(3), of _ "?s @ ft_EntryChecksum t @ r" e] copyS_append [OF l(4), of _ r e]
    by (simp add: skipTrailer_def trailer_bytes_def bindS_def skipPadding_reads trailer_sized_def d size32_dec block_limit
        del: drop_append)
qed

lemma skipEntryBody_reads:
  assumes "length pad < 2 ^ 32" and "list_all block_sized dbs" and "trailer_sized t"
  shows "skipEntryBody c (Stream (entry_body pad dbs t @ r) e) = c (Stream r e)"
  using assms skipDataBlocks_reads(1) [OF assms(2), of "trailer_bytes t @ r" e]
  by (simp add: skipEntryBody_def entry_body_def bindS_def skipPadding_reads skipTrailer_reads)

lemma readMetadataBlock_reads:
  assumes "length (mb_Nonce mb) = NonceSize" and "length (mb_Ciphertext mb) \<le> maxMetadataCiphertext"
  shows "readMetadataBlock (Stream (metadata_bytes mb @ r) e) = (Val mb, Stream r e)"
proof -
  have "length (mb_Ciphertext mb) < 2 ^ 32" using assms(2) metadata_limit by simp
  with assms show ?thesis
    by (simp add: readMetadataBlock_def metadata_bytes_def bindS_def readS_append size32_dec returnS_def)
qed

end
