(* ===== verification/Archive_Roundtrip.thy ===== *)
theory Archive_Roundtrip
  imports Extractor
begin

text \<open>
  The writer and the extractor together: the header the writer writes opens with every
  credential of the archive, the parts of an entry are read as they were written, and an
  entry that cannot be opened does not hide the ones after it.
\<close>

section \<open>The header\<close>

lemma SealFileCount_open:
  assumes "gcm_correct P" and "SealFileCount P keys n rnd = Ok (c, rnd')"
  shows "openFileCount P keys c = Ok n"
proof -
  obtain k em b where k: "HeaderKey P keys = Ok k" "NewEncryptionManager k = Ok em"
    and b: "EncryptBlock P ReadFull em (le64 n) rnd = Ok (b, rnd')"
    and c: "c = to_array FileCountSealedSize (eb_Nonce b @ eb_Ciphertext b)"
    using assms(2) by (auto simp: SealFileCount_def bindR_Ok_conv)
  have n: "length (eb_Nonce b) = NonceSize" by (rule sys_rand.EncryptBlock_Nonce [OF b])
  have d: "DecryptBlock P em b = Ok (le64 n)" "length (eb_Ciphertext b) = 8 + GCMTagSize"
    using EncryptBlock_Decrypt [OF assms(1) b] by simp_all
  have "c = eb_Nonce b @ eb_Ciphertext b"
    using n d(2) by (simp add: c FileCountSealedSize_def)
  then show ?thesis
    using k n d uint_le(3) [of n "[]"] by (cases b) (simp add: openFileCount_def)
qed

lemma header_reads:
  assumes "OpenRecipientBlock P A block u = Ok cek" and "length block \<le> MaxRecipientBlockSize"
    and "openFileCount P (NewVersion2KeySchedule cek) count = Ok n" and "length count = FileCountSealedSize"
  shows "readHeader P A u (Stream (header_bytes Version2 block count flags @ r) e) =
    (Val (NewVersion2KeySchedule cek, \<lparr>hi_flags = flags, hi_sealedCount = n, hi_recipientBlockLen = length block\<rparr>), Stream r e)"
proof -
  have l: "length block < 2 ^ 32" using assms(2) by (simp add: MaxRecipientBlockSize_def)
  have v: "(word_le 2 (le16 Version2) :: u16) = Version2" using word_le_enc [of 2 Version2 "[]"] by (simp add: le16_def)
  let ?res = "flags # replicate (ReservedSize - 1) 0"
  have res: "readS ReservedSize w (Stream (?res @ r) e) = (Val ?res, Stream r e)" for w
    by (rule readS_append) (simp add: ReservedSize_def)
  have m: "length Magic = 4" by (simp add: Magic_def)
  show ?thesis
    using assms l v res m
    by (simp add: readHeader_def readVersion2Header_def header_bytes_def bindS_def readS_append size32_dec
        Version1_def Version2_def callS_def returnS_def Let_def)
qed

lemma header_opens:
  assumes "wrap_laws P" and "gcm_correct P" and "age_correct A m"
    and "NewArchiveWriter P A creds rnd = Ok (aw, rnd1)"
    and "WriteHeaderWithFlags P K n flags aw rnd1 = Ok (aw', rnd2)"
    and "c \<in> set (cred_list creds)" and "opens m u c"
  shows "\<exists>h. readHeader P A u (Stream (aw_out aw' @ r) e) = (Val (aw_keys aw', h), Stream r e)
    \<and> hi_flags h = flags \<and> hi_sealedCount h = n \<and> header_end h = aw_offset aw'"
proof -
  obtain cek recipients rnd0 where cek: "GenerateCEK rnd = Ok (cek, rnd0)"
    and seal: "SealRecipientBlock P A cek creds rnd0 = Ok (recipients, rnd1)"
    and aw: "aw = newArchiveWriter (NewVersion2KeySchedule cek) recipients NewArchiveChecksum 0"
    using assms(4) by (auto simp: NewArchiveWriter_def bindR_Ok_conv)
  have len: "length cek = 32" using cek by (auto simp: GenerateCEK_def ReadFull_Ok_conv KeySize_def)
  have o: "OpenRecipientBlock P A recipients u = Ok cek"
    by (rule recipient_block_opens [OF assms(1,3) len seal assms(6,7)])
  have "length recipients \<le> MaxRecipientBlockSize"
    using seal by (auto simp: SealRecipientBlock_def bindR_Ok_conv split: if_splits)
  have f: "aw_keys aw = NewVersion2KeySchedule cek" "aw_recipients aw = recipients" "ks_version (aw_keys aw) = Version2"
      "aw_out aw = []" "aw_offset aw = 0"
    by (simp_all add: aw newArchiveWriter_def NewVersion2KeySchedule_def)
  from WriteHeader_Ok [OF assms(5)] f obtain count where
    count: "SealFileCount P (NewVersion2KeySchedule cek) n rnd1 = Ok (count, rnd2)"
    and aw': "aw' = put (header_bytes Version2 recipients count flags) aw" by auto
  note cl = SealFileCount_length [OF count] and co = SealFileCount_open [OF assms(2) count]
  show ?thesis
    using header_reads [OF o \<open>length recipients \<le> _\<close> co cl, of flags r e] cl
    by (simp add: aw' f header_end_def header_bytes_def FileCountOffset_def Magic_def ReservedSize_def)
qed

text \<open>
  C16: the header of a new archive opens with any one of its credentials.  For a writer made
  for some credentials, the header it writes is read by an extractor that holds one of them:
  it recovers the key schedule, the sealed file count and the flags, and stands right after
  the header, where the first entry begins.
\<close>

theorem header_roundtrip:
  assumes "wrap_laws P" and "gcm_correct P" and "age_correct A m"
    and "NewArchiveWriter P A creds rnd = Ok (aw, rnd1)"
    and "WriteHeaderWithFlags P K n flags aw rnd1 = Ok (aw', rnd2)"
    and "c \<in> set (cred_list creds)" and "opens m u c"
  shows "\<exists>h. readHeader P A u (Stream (aw_out aw' @ r) e) = (Val (aw_keys aw', h), Stream r e)
    \<and> hi_flags h = flags \<and> hi_sealedCount h = n \<and> header_end h = aw_offset aw'"
  using assms by (rule header_opens)

theorem header_roundtrip_witness:
  "\<exists>aw aw' h. NewArchiveWriter toy_prims toy_age sample_creds (replicate 32 5 @ replicate 44 0 @ replicate 12 0) = Ok (aw, replicate 12 0)
    \<and> WriteHeaderWithFlags toy_prims open_sink 3 1 aw (replicate 12 0) = Ok (aw', [])
    \<and> readHeader toy_prims toy_age \<lparr>u_Password = str ''pw'', u_KeyFiles = [], u_Identities = [7]\<rparr>
        (Stream (aw_out aw' @ [9]) EOF) = (Val (aw_keys aw', h), Stream [9] EOF) \<and> hi_sealedCount h = 3"
proof -
  obtain aw where aw: "NewArchiveWriter toy_prims toy_age sample_creds
      (replicate 32 5 @ replicate 44 0 @ replicate 12 0) = Ok (aw, replicate 12 0)"
    and k: "aw_keys aw = NewVersion2KeySchedule (replicate 32 5)" using sample_writer by blast
  have "\<exists>c. SealFileCount toy_prims (aw_keys aw) 3 (replicate 12 0 @ []) = Ok (c, [])"
    by (rule SealFileCount_total) (simp_all add: toy_prims_correct k NewVersion2KeySchedule_def NonceSize_def)
  then obtain aw' where aw': "WriteHeaderWithFlags toy_prims open_sink 3 1 aw (replicate 12 0) = Ok (aw', [])"
    by (auto simp: WriteHeaderWithFlags_def writeHeader_def tee_Write_accepts [OF open_sink_accepts])
  have c: "CredPassword (str ''pw'') \<in> set (cred_list sample_creds)" by (simp add: cred_list_def sample_creds_def)
  have o: "opens (\<lambda>rs is. is \<noteq> []) \<lparr>u_Password = str ''pw'', u_KeyFiles = [], u_Identities = [7 :: nat]\<rparr> (CredPassword (str ''pw'') :: nat cred)"
    by simp
  from header_roundtrip [OF toy_prims_wrap_laws toy_prims_correct(1) toy_age_correct aw aw' c o, of "[9]" EOF] aw aw'
  show ?thesis by blast
qed

section \<open>The parts of an entry\<close>

lemma readEntryHead_reads:
  assumes "entry_sized en" and "FileKey P keys (fe_EntrySalt en) = Ok k"
  shows "readEntryHead P keys (Stream (fe_EntrySalt en @ fe_FrameHdr en @ metadata_bytes (fe_Metadata en) @ r) e) =
    bindS (orSkipBody (\<lambda>e. recoverable ErrCodeAuthFailed ''decrypt metadata'' (Some e)) (mm_Open P \<lparr>em_key = k\<rparr> (fe_Metadata en)))
      (\<lambda>pm. returnS \<lparr>eh_fileKey = k, eh_pm = pm\<rparr>) (Stream r e)"
proof -
  have "NewMetadataManager k = Ok \<lparr>em_key = k\<rparr>"
    using FileKey_length [OF assms(2)] by (simp add: NewMetadataManager_def)
  with assms show ?thesis
    by (simp add: readEntryHead_def bindS_def readS_append callS_def readMetadataBlock_reads entry_sized_def)
qed

lemma entry_split:
  "entry_bytes en @ r = fe_EntryType en # fe_EntrySalt en @ fe_FrameHdr en @ metadata_bytes (fe_Metadata en)
     @ entry_body (fe_InterBlockPad en) (fe_DataBlocks en) (fe_Trailer en) @ r"
  by (simp add: entry_bytes_def entry_head_def)

lemma entry_body_split:
  "entry_body pad dbs t @ r = padding_bytes pad @ concat (map block_bytes dbs) @ sentinel @ trailer_bytes t @ r"
  by (simp add: entry_body_def)

lemma readTrailer_reads:
  assumes "trailer_sized t" and "length k = 32"
  shows "readTrailer P k v (Stream (trailer_bytes t @ r) e) =
    bindS (callS (\<lambda>e. recoverable ErrCodeAuthFailed ''decrypt HMAC'' (Some e))
      (DecryptBlock P \<lparr>em_key = k\<rparr> \<lparr>eb_Nonce = ft_PlaintextHMACNonce t, eb_Ciphertext = ft_PlaintextHMACSealed t\<rparr>))
      (trailer_payload v) (Stream r e)"
proof -
  have "length (ft_PlaintextHMACSealed t) < 2 ^ 32" "length (ft_PlaintextHMACSealed t) \<le> 56"
    using assms(1) by (simp_all add: trailer_sized_def block_limit)
  with assms show ?thesis
    by (simp add: readTrailer_def trailer_bytes_def bindS_def skipPadding_reads trailer_sized_def readS_append
        size32_dec block_limit callS_def Let_def)
qed

text \<open>What the block loop does with a list of blocks: open each and feed the sink until one fails.\<close>

fun feed :: "blockOpener \<Rightarrow> 'k blockSink \<Rightarrow> block_error option \<Rightarrow> 'k \<Rightarrow> DataBlock list \<Rightarrow> block_error option \<times> 'k" where
  "feed em sink err k [] = (err, k)"
| "feed em sink err k (db # dbs) =
     (if err \<noteq> None then feed em sink err k dbs
      else case sink_block em sink \<lparr>eb_Nonce = db_Nonce db, eb_Ciphertext = db_Ciphertext db\<rparr> k of
        (err, k) \<Rightarrow> feed em sink err k dbs)"

lemma decryptBlocks_reads:
  "list_all block_sized dbs \<Longrightarrow>
   decryptBlocksSequential em sink err k (Stream (concat (map block_bytes dbs) @ sentinel @ r) e) =
     (case feed em sink err k dbs of (err, k) \<Rightarrow> (err, k, Stream r e))"
proof (induction dbs arbitrary: err k)
  case Nil
  then show ?case by (simp add: decryptBlocksSequential.simps [of em sink err k] next_block_end)
next
  case (Cons db dbs)
  then show ?case
    by (simp add: decryptBlocksSequential.simps [of em sink err k] next_block_reads split: prod.splits)
qed

lemma feed_not_ReadError:
  assumes "\<And>b e. em b \<noteq> Inl (ReadError e)" and "feed em sink err k dbs = (err', k')" and "\<And>e. err \<noteq> Some (ReadError e)"
  shows "err' \<noteq> Some (ReadError e)"
  using assms(2,3)
proof (induction dbs arbitrary: err k)
  case (Cons db dbs)
  have "fst (sink_block em sink b k) \<noteq> Some (ReadError e)" for b k e
    using assms(1) by (auto simp: sink_block_def split: sum.splits prod.splits option.splits)
  with Cons show ?case by (auto split: if_splits prod.splits) (metis fst_conv)
qed auto

lemma openers_no_ReadError:
  "plain_opener P em b \<noteq> Inl (ReadError e)" "decompressingOpener P Z em dec b \<noteq> Inl (ReadError e)"
  by (auto simp: plain_opener_def decompressingOpener_def tag_error_def split: res.splits)

section \<open>An entry that cannot be opened does not hide the next\<close>

text \<open>
  \<open>settles m s s'\<close>: run on \<open>s\<close>, the operation ends at \<open>s'\<close> with a value or a recoverable
  error.
\<close>

definition settles :: "'a reader \<Rightarrow> stream \<Rightarrow> stream \<Rightarrow> bool" where
  "settles m s s' \<longleftrightarrow> (\<exists>r. m s = (r, s') \<and> r \<noteq> Crash \<and> (\<forall>e. r = Fail e \<longrightarrow> \<not> IsFatal e))"

lemma settles_bind:
  assumes "m s = (Val x, s1)" and "settles (f x) s1 s2" shows "settles (bindS m f) s s2"
  using assms by (simp add: settles_def bindS_def)

lemma bindS_at: "m s = m' s' \<Longrightarrow> bindS m f s = bindS m' f s'"
  by (simp add: bindS_def)

lemma settles_at: "m s = m' s1 \<Longrightarrow> settles (bindS m' f) s1 s' \<Longrightarrow> settles (bindS m f) s s'"
  by (simp add: settles_def bindS_at [of m s m' s1])

lemma settles_fail: "\<not> IsFatal e \<Longrightarrow> m s = (Fail e, s') \<Longrightarrow> settles (bindS m f) s s'"
  by (simp add: settles_def bindS_def)

lemma settles_returnS [simp]: "settles (returnS x) s s"
  by (simp add: settles_def returnS_def)

lemma settles_return: "settles m s s' \<Longrightarrow> settles (bindS m (\<lambda>x. returnS (f x))) s s'"
  by (auto simp: settles_def bindS_def returnS_def split: outcome.splits)

lemma settles_call:
  assumes "m \<noteq> Panic" and "\<And>e. \<not> IsFatal (w e)" and "\<And>x. m = Ok x \<Longrightarrow> settles (f x) s s"
  shows "settles (bindS (callS w m) f) s s"
  using assms by (cases m) (auto simp: settles_def bindS_def callS_def)

lemma trailer_settles:
  assumes "trailer_sized t" and "length k = 32"
    and "\<And>info. settles (f info) (Stream r e) (Stream r e)"
  shows "settles (bindS (readTrailer P k v) f) (Stream (trailer_bytes t @ r) e) (Stream r e)"
proof -
  let ?d = "DecryptBlock P \<lparr>em_key = k\<rparr> \<lparr>eb_Nonce = ft_PlaintextHMACNonce t, eb_Ciphertext = ft_PlaintextHMACSealed t\<rparr>"
  let ?c = "callS (\<lambda>e. recoverable ErrCodeAuthFailed ''decrypt HMAC'' (Some e)) ?d"
  have "settles (bindS (trailer_payload v payload) f) (Stream r e) (Stream r e)" for payload
    using assms(3) by (auto simp: trailer_payload_def bindS_def returnS_def failS_def settles_def)
  then have "settles (bindS (bindS ?c (trailer_payload v)) f) (Stream r e) (Stream r e)"
    unfolding bindS_assoc by (intro settles_call) (simp_all add: no_panic_open)
  moreover have "readTrailer P k v (Stream (trailer_bytes t @ r) e) = bindS ?c (trailer_payload v) (Stream r e)"
    by (rule readTrailer_reads [OF assms(1,2)])
  ultimately show ?thesis
    using settles_at [of "readTrailer P k v" "Stream (trailer_bytes t @ r) e" "bindS ?c (trailer_payload v)" "Stream r e"] by blast
qed

lemma orSkipBody_settles:
  assumes "length pad < 2 ^ 32" and "list_all block_sized dbs" and "trailer_sized t"
    and "m \<noteq> Panic" and "\<And>e. \<not> IsFatal (w e)"
    and "\<And>x. m = Ok x \<Longrightarrow> settles (f x) (Stream (entry_body pad dbs t @ r) e) (Stream r e)"
  shows "settles (bindS (orSkipBody w m) f) (Stream (entry_body pad dbs t @ r) e) (Stream r e)"
proof (cases m)
  case (Err x)
  have "orSkipBody w m (Stream (entry_body pad dbs t @ r) e) = (Fail (w x), Stream r e)"
    using skipEntryBody_reads [OF assms(1-3), of "failS (w x)" r e] by (simp add: Err orSkipBody_def failS_def)
  with assms(5) show ?thesis by (rule settles_fail)
next
  case (Ok x)
  then show ?thesis using assms(6) [OF Ok] by (auto simp: orSkipBody_def returnS_def settles_def bindS_def)
qed (use assms(4) in simp)

lemma mm_Open_no_panic: "mm_Open P mm mb \<noteq> Panic"
  by (simp add: mm_Open_def bindR_Panic_conv no_panic_open unmarshalMetadata_no_panic)

lemma decryptFilename_no_panic: "decryptFilename P blob k \<noteq> Panic"
  by (simp add: decryptFilename_def bindR_Panic_conv no_panic_open NewEncryptionManager_def)

lemma file_body_settles:
  assumes "length pad < 2 ^ 32" and "list_all block_sized dbs" and "trailer_sized t" and "length (eh_fileKey head) = 32"
  shows "settles (listFileBody P keys head) (Stream (entry_body pad dbs t @ r) e) (Stream r e)"
  unfolding listFileBody_def Let_def
proof (rule orSkipBody_settles [OF assms(1-3) decryptFilename_no_panic])
  fix name
  show "settles (bindS (skipPadding (\<lambda>e. recoverable ErrCodeTruncated ''skip inter-block padding'' (Some e))) (\<lambda>_.
      bindS skipDataBlocks (\<lambda>stored.
      bindS (readTrailer P (eh_fileKey head) (ks_version keys)) (\<lambda>trailer.
      returnS (withAttributes (list_result name (bucketName (pm_SizeBucket (eh_pm head))) (Codec_String (pm_Codec (eh_pm head)))
        False (if ti_hasSize trailer then sint (ti_plaintextSize trailer) else int stored) (int stored))
        (pm_Attributes (eh_pm head)) (pm_Permissions (eh_pm head)))))))
    (Stream (entry_body pad dbs t @ r) e) (Stream r e)"
    unfolding entry_body_split
    by (rule settles_bind, rule skipPadding_reads [OF assms(1)], rule settles_bind, rule skipDataBlocks_reads(1) [OF assms(2)],
        rule trailer_settles [OF assms(3,4)], rule settles_returnS)
qed simp

lemma decryptDataBlocks_reads:
  assumes "list_all block_sized dbs" and "length k = 32"
  shows "(\<exists>pt. decryptDataBlocks P Z k codec dec (Stream (concat (map block_bytes dbs) @ sentinel @ r) e) = (Val pt, Stream r e))
    \<or> (\<exists>err. decryptDataBlocks P Z k codec dec (Stream (concat (map block_bytes dbs) @ sentinel @ r) e) = (Fail err, Stream r e)
        \<and> \<not> IsFatal err)"
proof -
  let ?em = "if codec = CodecZstd then decompressingOpener P Z \<lparr>em_key = k\<rparr> dec else plain_opener P \<lparr>em_key = k\<rparr>"
  obtain err out where f: "feed ?em (\<lambda>pt out. (None, out @ pt)) None [] dbs = (err, out)" by force
  have "err \<noteq> Some (ReadError x)" for x
    by (rule feed_not_ReadError [OF _ f]) (simp_all add: openers_no_ReadError)
  then show ?thesis
    using assms f
    by (auto simp: decryptDataBlocks_def streamDataBlocks_def decryptBlocks_reads stream_error_def Let_def
        split: option.splits block_error.splits)
qed

lemma decode_solid_settles:
  assumes "z_NewReader Z MaxSolidStreamSize MaxSolidStreamSize = Ok ()" and "\<And>x. settles (f x) s s"
  shows "settles (bindS (decode_solid Z codec payload) f) s s"
proof (cases "codec = CodecZstd")
  case True
  have "settles (bindS (callS (\<lambda>e. recoverable ErrCodeIntegrityFail ''decompress solid group'' (Some e))
      (Decompress Z \<lparr>bd_limit = MaxSolidStreamSize, bd_window = MaxSolidStreamSize\<rparr> payload)) f) s s"
    by (intro settles_call) (simp_all add: no_panic_open assms(2))
  with True assms(1) show ?thesis
    by (simp add: decode_solid_def NewSolidDecompressor_def newDecompressor_def bindS_assoc)
      (simp add: settles_def bindS_def callS_def)
next
  case False
  with assms(2) show ?thesis
    by (auto simp: decode_solid_def failS_def returnS_def settles_def bindS_def)
qed

lemma verify_settles: "settles (f ()) s s \<Longrightarrow> settles (bindS (verifyPlaintext P k x t) f) s s"
  unfolding verifyPlaintext_def bindS_assoc
  by (intro settles_call) (auto simp: VerifyHMAC_def failS_def returnS_def settles_def bindS_def)

lemma solid_body_settles:
  assumes "length pad < 2 ^ 32" and "list_all block_sized dbs" and "trailer_sized t" and k: "length (eh_fileKey head) = 32"
    and z: "z_NewReader Z MaxSolidStreamSize MaxSolidStreamSize = Ok ()"
  shows "settles (listSolidBody P Z keys head) (Stream (entry_body pad dbs t @ r) e) (Stream r e)"
proof -
  let ?d = "decryptDataBlocks P Z (eh_fileKey head) CodecNone \<lparr>bd_limit = 0, bd_window = 0\<rparr>"
  let ?c = "catchS ?d (\<lambda>e. if IsFatal e then failS e else skipTrailer (failS e))"
  have blocks: "settles (bindS ?c f) (Stream (concat (map block_bytes dbs) @ sentinel @ trailer_bytes t @ r) e) (Stream r e)"
    if f: "\<And>x. settles (f x) (Stream (trailer_bytes t @ r) e) (Stream r e)" for f :: "bytes \<Rightarrow> ListResult list reader"
  proof -
    consider (ok) pt where "?d (Stream (concat (map block_bytes dbs) @ sentinel @ trailer_bytes t @ r) e) = (Val pt, Stream (trailer_bytes t @ r) e)"
      | (bad) err where "?d (Stream (concat (map block_bytes dbs) @ sentinel @ trailer_bytes t @ r) e) = (Fail err, Stream (trailer_bytes t @ r) e)" "\<not> IsFatal err"
      using decryptDataBlocks_reads [OF assms(2) k, of P Z CodecNone] by blast
    then show ?thesis
    proof cases
      case ok
      with f show ?thesis by (simp add: settles_def bindS_def catchS_def)
    next
      case bad
      then show ?thesis
        by (simp add: settles_def bindS_def catchS_def skipTrailer_reads [OF assms(3)] failS_def)
    qed
  qed
  have parse: "settles (bindS (callS (\<lambda>e. recoverable ErrCodeIntegrityFail ''parse solid group'' (Some e)) (ParseSolidStream x))
      (\<lambda>ms. returnS (g ms))) s s" for x s and g :: "SolidMember list \<Rightarrow> ListResult list"
    using ParseSolidRecords_no_panic by (intro settles_call) (auto simp: ParseSolidStream_def bindR_Panic_conv)
  show ?thesis
    unfolding listSolidBody_def readSolidMembers_def readSolidStream_def entry_body_split bindS_assoc
    by (rule settles_bind, rule skipPadding_reads [OF assms(1)], rule blocks, rule trailer_settles [OF assms(3) k],
        rule decode_solid_settles [OF z], rule verify_settles)
      (use parse in \<open>simp add: bindS_returnS bindS_assoc\<close>)
qed

lemma ParseSolidStream_nonempty: "ParseSolidStream x = Ok ms \<Longrightarrow> ms \<noteq> []"
  by (auto simp: ParseSolidStream_def bindR_Ok_conv split: if_splits)

lemma listEntry_nonempty: "listEntry P Z keys t s = (Val rs, s') \<Longrightarrow> rs \<noteq> []"
  by (auto simp: listEntry_def listSolidBody_def readSolidMembers_def bindS_Val_conv returnS_def callS_Val_conv
      dest: ParseSolidStream_nonempty split: if_splits)

lemma listEntry_settles:
  assumes en: "entry_sized en" and key: "FileKey P keys (fe_EntrySalt en) = Ok k"
    and z: "z_NewReader Z MaxSolidStreamSize MaxSolidStreamSize = Ok ()"
  shows "settles (listEntry P Z keys ty)
    (Stream (fe_EntrySalt en @ fe_FrameHdr en @ metadata_bytes (fe_Metadata en)
       @ entry_body (fe_InterBlockPad en) (fe_DataBlocks en) (fe_Trailer en) @ r) e) (Stream r e)"
proof -
  let ?body = "Stream (entry_body (fe_InterBlockPad en) (fe_DataBlocks en) (fe_Trailer en) @ r) e"
  let ?o = "orSkipBody (\<lambda>e. recoverable ErrCodeAuthFailed ''decrypt metadata'' (Some e)) (mm_Open P \<lparr>em_key = k\<rparr> (fe_Metadata en))"
  let ?f = "\<lambda>head. if ty = EntryTypeSolid then listSolidBody P Z keys head else bindS (listFileBody P keys head) (\<lambda>r. returnS [r])"
  have sz: "length (fe_InterBlockPad en) < 2 ^ 32" "list_all block_sized (fe_DataBlocks en)" "trailer_sized (fe_Trailer en)"
    using en by (simp_all add: entry_sized_def)
  have k: "length k = 32" by (rule FileKey_length [OF key])
  have body: "settles (?f \<lparr>eh_fileKey = k, eh_pm = pm\<rparr>) ?body (Stream r e)" for pm
    using solid_body_settles [OF sz _ z, of "\<lparr>eh_fileKey = k, eh_pm = pm\<rparr>" P keys r e]
      settles_return [OF file_body_settles [OF sz, of "\<lparr>eh_fileKey = k, eh_pm = pm\<rparr>" P keys r e], of "\<lambda>r. [r]"] k by simp
  have "settles (bindS (bindS ?o (\<lambda>pm. returnS \<lparr>eh_fileKey = k, eh_pm = pm\<rparr>)) ?f) ?body (Stream r e)"
    unfolding bindS_assoc bindS_returnS by (rule orSkipBody_settles [OF sz mm_Open_no_panic _ body]) simp
  then show ?thesis
    unfolding listEntry_def
    using settles_at [of "readEntryHead P keys" _ "bindS ?o (\<lambda>pm. returnS \<lparr>eh_fileKey = k, eh_pm = pm\<rparr>)" ?body ?f,
        OF readEntryHead_reads [OF en key]] by blast
qed

lemma FileKey_total:
  assumes "hkdf_total P" and "ks_version keys = Version2" shows "\<exists>k. FileKey P keys salt = Ok k"
proof -
  obtain b where "hkdf_expand P (ks_masterKey keys) (fileSubkeyLabel @ salt) KeySize = Ok b"
    using assms(1) [unfolded hkdf_total_def, rule_format, of KeySize] by (auto simp: KeySize_def)
  with assms(2) show ?thesis
    by (simp add: FileKey_def DeriveFileSubkey_def expandSubkey_def Version1_def Version2_def)
qed

lemma nextEntryType_reads:
  assumes "ks_version keys = Version2" and "t = EntryTypeFile \<or> t = EntryTypeSolid"
  shows "nextEntryType P keys (Stream (t # r) e) = (Val (t, True), Stream r e)"
  using assms sReadFull_reads [of "[t]" "Suc 0" r e]
  by (simp add: nextEntryType.simps [of P keys] Version1_def Version2_def)

lemma nextEntryType_end:
  assumes "ks_version keys = Version2"
  shows "nextEntryType P keys (Stream (EntryTypeEnd # r) e) = (Val (EntryTypeEnd, False), Stream r e)"
  using assms sReadFull_reads [of "[EntryTypeEnd]" "Suc 0" r e]
  by (simp add: nextEntryType.simps [of P keys] Version1_def Version2_def EntryTypeFile_def EntryTypeSolid_def EntryTypeEnd_def)

lemma scan_entry:
  assumes "entry_sized en" and "fe_EntryType en = EntryTypeFile \<or> fe_EntryType en = EntryTypeSolid"
    and "hkdf_total P" and v: "ks_version keys = Version2"
    and "z_NewReader Z MaxSolidStreamSize MaxSolidStreamSize = Ok ()"
  shows "\<exists>rs'. rs' \<noteq> [] \<and> scanList_from P Z keys rs (Stream (entry_bytes en @ r) e) = scanList_from P Z keys (rs @ rs') (Stream r e)"
proof -
  obtain k where k: "FileKey P keys (fe_EntrySalt en) = Ok k" using FileKey_total [OF assms(3) v] by blast
  let ?s = "Stream (fe_EntrySalt en @ fe_FrameHdr en @ metadata_bytes (fe_Metadata en)
       @ entry_body (fe_InterBlockPad en) (fe_DataBlocks en) (fe_Trailer en) @ r) e"
  obtain o1 where o1: "listEntry P Z keys (fe_EntryType en) ?s = (o1, Stream r e)" "o1 \<noteq> Crash" "\<forall>e. o1 = Fail e \<longrightarrow> \<not> IsFatal e"
    using listEntry_settles [OF assms(1) k assms(5)] unfolding settles_def by blast
  note n = nextEntryType_reads [OF v assms(2), of P _ e]
  show ?thesis
  proof (cases o1)
    case (Val rs')
    then show ?thesis
      using o1(1) listEntry_nonempty by (intro exI [of _ rs']) (simp add: scanList_from.simps [of P Z keys rs] entry_split n)
  next
    case (Fail x)
    then show ?thesis
      using o1 by (intro exI [of _ "[list_failed x]"]) (simp add: scanList_from.simps [of P Z keys rs] entry_split n)
  qed (use o1 in simp)
qed

text \<open>
  C17: damage inside entries never hides other entries.  Whatever the bytes of the entries are,
  authentic or not, as long as their length fields are intact, scanning the archive reaches
  the end marker without a fatal error or a panic, and reports at least one result for every
  entry.
\<close>

theorem scan_survives_damage:
  assumes "hkdf_total P" and "ks_version keys = Version2"
    and "z_NewReader Z MaxSolidStreamSize MaxSolidStreamSize = Ok ()"
    and "list_all (\<lambda>en. entry_sized en \<and> (fe_EntryType en = EntryTypeFile \<or> fe_EntryType en = EntryTypeSolid)) ens"
  shows "\<exists>results. scanList P Z keys (Stream (concat (map entry_bytes ens) @ EntryTypeEnd # foot) e)
      = ((results, Val ()), Stream foot e) \<and> length ens \<le> length results"
proof -
  have "\<exists>results. scanList_from P Z keys rs (Stream (concat (map entry_bytes ens) @ EntryTypeEnd # foot) e)
      = ((results, Val ()), Stream foot e) \<and> length rs + length ens \<le> length results" for rs
    using assms(4)
  proof (induction ens arbitrary: rs)
    case Nil
    then show ?case by (simp add: scanList_from.simps [of P Z keys rs] nextEntryType_end [OF assms(2)])
  next
    case (Cons en ens)
    then obtain rs' where rs': "rs' \<noteq> []"
      "scanList_from P Z keys rs (Stream (entry_bytes en @ concat (map entry_bytes ens) @ EntryTypeEnd # foot) e)
        = scanList_from P Z keys (rs @ rs') (Stream (concat (map entry_bytes ens) @ EntryTypeEnd # foot) e)"
      using scan_entry [OF _ _ assms(1-3), of en rs "concat (map entry_bytes ens) @ EntryTypeEnd # foot" e] by fastforce
    from rs'(1) have "1 \<le> length rs'" by (cases rs') auto
    moreover from Cons.IH [of "rs @ rs'"] Cons.prems obtain results where
      "scanList_from P Z keys (rs @ rs') (Stream (concat (map entry_bytes ens) @ EntryTypeEnd # foot) e) = ((results, Val ()), Stream foot e)"
      "length (rs @ rs') + length ens \<le> length results" by auto
    ultimately show ?case using rs'(2) by (intro exI [of _ results]) simp
  qed
  from this [of "[]"] show ?thesis by (simp add: scanList_def)
qed

theorem scan_survives_damage_witness:
  "\<exists>results. scanList toy_prims toy_zstd (NewVersion2KeySchedule (replicate 32 5))
      (Stream (concat (map entry_bytes [sample_entry, sample_entry]) @ EntryTypeEnd # [1, 2]) EOF)
    = ((results, Val ()), Stream [1, 2] EOF) \<and> 2 \<le> length results"
proof -
  have "entry_sized sample_entry"
    using metadata_limit
    by (simp add: entry_sized_def sample_entry_def SaltSize_def NonceSize_def block_sized_def trailer_sized_def block_limit
        TrailerPayloadSize_def HMACSize_def GCMTagSize_def maxMetadataCiphertext_def MaxMetadataSize_def)
  then have "list_all (\<lambda>en. entry_sized en \<and> (fe_EntryType en = EntryTypeFile \<or> fe_EntryType en = EntryTypeSolid)) [sample_entry, sample_entry]"
    by (simp add: sample_entry_def)
  from scan_survives_damage [OF toy_prims_correct(3) _ _ this, of "NewVersion2KeySchedule (replicate 32 5)" toy_zstd "[1, 2]" EOF]
  show ?thesis by (simp add: NewVersion2KeySchedule_def toy_zstd_def numeral_2_eq_2)
qed

end
