(* ===== verification/Encrypt_Pipeline.thy ===== *)
theory Encrypt_Pipeline
  imports Reader Frames Worker_Pool
begin

text \<open>
  Encrypting one file (\<^verbatim>\<open>io/pipeline.go\<close>, \<^verbatim>\<open>io/mmap_pipeline.go\<close>).  Four routines do the same
  work: a two-stage pipeline, a sequential loop over a memory-mapped file, and a parallel
  variant of each.  The theory has a sequential definition of what they compute, each
  routine as the code has it, and that every run of a routine that returns, returns what
  the sequential definition does; the parallel ones always return.  The two-stage pipeline
  does not: when a write fails early in a long file, its goroutines wait for each other.
\<close>

section \<open>What the pipelines compute\<close>

type_synonym 'k send = "DataBlock \<Rightarrow> 'k \<Rightarrow> sarc_error option \<times> 'k"

text \<open>The plaintext HMAC and the frame builder, as \<^verbatim>\<open>BuildTrailer\<close> will use it; or an error.\<close>

type_synonym stream_result = "sarc_error + bytes \<times> FrameBuilder"

definition ends_read :: "sarc_error \<Rightarrow> bool" where
  "ends_read e \<longleftrightarrow> e = EOF \<or> e = ErrUnexpectedEOF"

text \<open>
  One chunk after the other is read, hashed, sealed and sent.  The key is the HMAC key, \<open>h\<close>
  what has been written to the HMAC.
\<close>

function encrypt_stream ::
  "prims \<Rightarrow> zstd \<Rightarrow> bytes \<Rightarrow> 'k send \<Rightarrow> FrameBuilder \<Rightarrow> bytes \<Rightarrow> stream \<Rightarrow> 'k \<Rightarrow> stream_result \<times> 'k" where
  "encrypt_stream P Z key send fb h r k =
     (case NextChunkSize P fb of
        (sz, fb) \<Rightarrow>
          (case sReadFull sz r of
             (b, err, r') \<Rightarrow>
               (case (if b = [] then (None, fb, k)
                      else case EncryptChunk P Z fb b of
                         Ok (db, fb) \<Rightarrow> (case send db k of (err, k) \<Rightarrow> (err, fb, k))
                       | Err e \<Rightarrow> (Some e, fb, k)
                       | Panic \<Rightarrow> (Some (Errorf ''panic''), fb, k)) of
                  (Some e, fb, k) \<Rightarrow> (Inl e, k)
                | (None, fb, k) \<Rightarrow>
                    (case err of
                       Some e \<Rightarrow> if ends_read e then (Inr (ComputeHMAC P key (h @ b), fb), k) else (Inl e, k)
                     | None \<Rightarrow> encrypt_stream P Z key send fb (h @ b) r' k))))"
  by pat_completeness auto
termination
  by (relation "measure (\<lambda>(P, Z, key, send, fb, h, r, k). length (s_bytes r))")
    (auto dest!: NextChunkSize_bounds(1) [OF sym] sReadFull_shorter [OF sym])

declare encrypt_stream.simps [simp del]

text \<open>The loop over a memory-mapped file, \<^verbatim>\<open>encryptMmapSequential\<close>; \<open>data\<close> is what is left of it.\<close>

function encryptMmapSequential ::
  "prims \<Rightarrow> zstd \<Rightarrow> bytes \<Rightarrow> 'k send \<Rightarrow> FrameBuilder \<Rightarrow> bytes \<Rightarrow> bytes \<Rightarrow> 'k \<Rightarrow> stream_result \<times> 'k" where
  "encryptMmapSequential P Z key send fb h data k =
     (if data = [] then (Inr (ComputeHMAC P key h, fb), k)
      else case NextChunkSize P fb of
        (sz, fb) \<Rightarrow>
          let sz = min sz (length data); chunk = take sz data; data' = drop sz data in
          (case NextNonce P fb of
             Err e \<Rightarrow> (Inl e, k)
           | Panic \<Rightarrow> (Inl (Errorf ''panic''), k)
           | Ok (nonce, fb) \<Rightarrow>
               (case send (EncryptChunkWithNonceInto P Z fb nonce chunk []) k of
                  (Some e, k) \<Rightarrow> (Inl e, k)
                | (None, k) \<Rightarrow> encryptMmapSequential P Z key send fb (h @ chunk) data' k)))"
  by pat_completeness auto
termination
  by (relation "measure (\<lambda>(P, Z, key, send, fb, h, data, k). length data)")
    (auto dest!: NextChunkSize_bounds(1) [OF sym])

declare encryptMmapSequential.simps [simp del]

section \<open>The two-stage pipeline\<close>

definition pipelineDepth :: nat where
  "pipelineDepth = 4"

definition bufSize :: nat where
  "bufSize = MaxChunkSize + MaxPayloadSize + GCMTagSize"

text \<open>One pooled buffer holds a chunk of plaintext followed by its block.\<close>

lemma chunk_fits_buffer:
  "block_of P Z bd em codec db c \<Longrightarrow> length c \<le> MaxChunkSize \<Longrightarrow> length c + length (db_Ciphertext db) \<le> bufSize"
  by (simp add: block_of_def bufSize_def)

type_synonym encResult = "sarc_error + DataBlock"
type_synonym macResult = "sarc_error + bytes"

text \<open>
  The goroutine of stage 1: at the head of its loop, or at a send on \<^verbatim>\<open>blockCh\<close> or \<^verbatim>\<open>macCh\<close>
  (with what it does afterwards), or about to close \<^verbatim>\<open>blockCh\<close>, or gone.
\<close>

datatype producer = Reading FrameBuilder bytes stream | SendBlock encResult producer
  | SendMac macResult producer | CloseBlocks FrameBuilder | Gone FrameBuilder

definition read_chunk :: "prims \<Rightarrow> zstd \<Rightarrow> bytes \<Rightarrow> FrameBuilder \<Rightarrow> bytes \<Rightarrow> stream \<Rightarrow> producer" where
  "read_chunk P Z key fb h r =
     (case NextChunkSize P fb of
        (sz, fb) \<Rightarrow>
          (case sReadFull sz r of
             (b, err, r') \<Rightarrow>
               let rest = (\<lambda>fb. case err of
                       Some e \<Rightarrow>
                         if ends_read e then SendMac (Inr (ComputeHMAC P key (h @ b))) (CloseBlocks fb)
                         else SendBlock (Inl e) (SendMac (Inl e) (CloseBlocks fb))
                     | None \<Rightarrow> Reading fb (h @ b) r') in
               if b = [] then rest fb
               else case EncryptChunkInto P Z fb b [] of
                  Ok (db, fb) \<Rightarrow> SendBlock (Inr db) (rest fb)
                | Err e \<Rightarrow> SendBlock (Inl e) (SendMac (Inl e) (CloseBlocks fb))
                | Panic \<Rightarrow> SendBlock (Inl (Errorf ''panic'')) (SendMac (Inl (Errorf ''panic'')) (CloseBlocks fb))))"

text \<open>
  Stage 2, the caller: in its loop over \<^verbatim>\<open>blockCh\<close>, or waiting for \<^verbatim>\<open>macCh\<close> with the error it is
  going to return, if any.
\<close>

datatype consumer = Receiving | AwaitMac "sarc_error option" | Returned macResult

record 'k twoStage =
  ts_producer :: producer
  ts_blockCh :: "encResult list"
  ts_macCh :: "macResult option"
  ts_consumer :: consumer
  ts_k :: 'k

definition two_stage_start :: "FrameBuilder \<Rightarrow> stream \<Rightarrow> 'k \<Rightarrow> 'k twoStage" where
  "two_stage_start fb r k =
     \<lparr>ts_producer = Reading fb [] r, ts_blockCh = [], ts_macCh = None, ts_consumer = Receiving, ts_k = k\<rparr>"

definition handle_result :: "'k send \<Rightarrow> encResult \<Rightarrow> 'k \<Rightarrow> consumer \<times> 'k" where
  "handle_result send res k =
     (case res of
        Inl e \<Rightarrow> (AwaitMac (Some e), k)
      | Inr db \<Rightarrow> (case send db k of (Some e, k) \<Rightarrow> (AwaitMac (Some e), k) | (None, k) \<Rightarrow> (Receiving, k)))"

inductive two_stage_step :: "prims \<Rightarrow> zstd \<Rightarrow> bytes \<Rightarrow> 'k send \<Rightarrow> 'k twoStage \<Rightarrow> 'k twoStage \<Rightarrow> bool"
  for P :: prims and Z :: zstd and key :: bytes and send :: "'k send" where
  read: "ts_producer st = Reading fb h r
    \<Longrightarrow> two_stage_step P Z key send st (st\<lparr>ts_producer := read_chunk P Z key fb h r\<rparr>)"
| send_block: "\<lbrakk>ts_producer st = SendBlock res q; length (ts_blockCh st) < pipelineDepth\<rbrakk>
    \<Longrightarrow> two_stage_step P Z key send st (st\<lparr>ts_producer := q, ts_blockCh := ts_blockCh st @ [res]\<rparr>)"
| send_mac: "\<lbrakk>ts_producer st = SendMac m q; ts_macCh st = None\<rbrakk>
    \<Longrightarrow> two_stage_step P Z key send st (st\<lparr>ts_producer := q, ts_macCh := Some m\<rparr>)"
| close_blocks: "ts_producer st = CloseBlocks fb
    \<Longrightarrow> two_stage_step P Z key send st (st\<lparr>ts_producer := Gone fb\<rparr>)"
| receive: "\<lbrakk>ts_consumer st = Receiving; ts_blockCh st = res # rest; handle_result send res (ts_k st) = (c, k)\<rbrakk>
    \<Longrightarrow> two_stage_step P Z key send st (st\<lparr>ts_consumer := c, ts_k := k, ts_blockCh := rest\<rparr>)"
| drained: "\<lbrakk>ts_consumer st = Receiving; ts_blockCh st = []; ts_producer st = Gone fb\<rbrakk>
    \<Longrightarrow> two_stage_step P Z key send st (st\<lparr>ts_consumer := AwaitMac None\<rparr>)"
| receive_mac: "\<lbrakk>ts_consumer st = AwaitMac err; ts_macCh st = Some m\<rbrakk>
    \<Longrightarrow> two_stage_step P Z key send st
          (st\<lparr>ts_consumer := Returned (case err of Some e \<Rightarrow> Inl e | None \<Rightarrow> m), ts_macCh := None\<rparr>)"

definition two_stage_returned :: "'k twoStage \<Rightarrow> bool" where
  "two_stage_returned st \<longleftrightarrow> (\<exists>m. ts_consumer st = Returned m)"

section \<open>The two-stage pipeline computes the sequential definition\<close>

fun producer_fb :: "producer \<Rightarrow> FrameBuilder" where
  "producer_fb (Reading fb h r) = fb"
| "producer_fb (SendBlock res q) = producer_fb q"
| "producer_fb (SendMac m q) = producer_fb q"
| "producer_fb (CloseBlocks fb) = fb"
| "producer_fb (Gone fb) = fb"

definition result_with :: "FrameBuilder \<Rightarrow> macResult \<Rightarrow> stream_result" where
  "result_with fb m = map_sum id (\<lambda>mac. (mac, fb)) m"

text \<open>
  What the caller is going to return when it receives the blocks in the channel and then
  what the producer still sends.
\<close>

fun producer_rest :: "prims \<Rightarrow> zstd \<Rightarrow> bytes \<Rightarrow> 'k send \<Rightarrow> macResult option \<Rightarrow> producer \<Rightarrow> 'k \<Rightarrow> stream_result \<times> 'k" where
  "producer_rest P Z key send m (Reading fb h r) k = encrypt_stream P Z key send fb h r k"
| "producer_rest P Z key send m (SendBlock (Inl e) q) k = (Inl e, k)"
| "producer_rest P Z key send m (SendBlock (Inr db) q) k =
     (case send db k of (Some e, k) \<Rightarrow> (Inl e, k) | (None, k) \<Rightarrow> producer_rest P Z key send m q k)"
| "producer_rest P Z key send m (SendMac m' q) k = (result_with (producer_fb q) m', k)"
| "producer_rest P Z key send m q k = (case m of Some m' \<Rightarrow> result_with (producer_fb q) m' | None \<Rightarrow> Inl EOF, k)"

definition channel_rest ::
  "prims \<Rightarrow> zstd \<Rightarrow> bytes \<Rightarrow> 'k send \<Rightarrow> macResult option \<Rightarrow> encResult list \<Rightarrow> producer \<Rightarrow> 'k \<Rightarrow> stream_result \<times> 'k" where
  "channel_rest P Z key send m ch q k = producer_rest P Z key send m (foldr SendBlock ch q) k"

definition two_stage_rest :: "prims \<Rightarrow> zstd \<Rightarrow> bytes \<Rightarrow> 'k send \<Rightarrow> 'k twoStage \<Rightarrow> stream_result \<times> 'k" where
  "two_stage_rest P Z key send st =
     (case ts_consumer st of
        Receiving \<Rightarrow> channel_rest P Z key send (ts_macCh st) (ts_blockCh st) (ts_producer st) (ts_k st)
      | AwaitMac (Some e) \<Rightarrow> (Inl e, ts_k st)
      | AwaitMac None \<Rightarrow> producer_rest P Z key send (ts_macCh st) (ts_producer st) (ts_k st)
      | Returned m \<Rightarrow> (result_with (producer_fb (ts_producer st)) m, ts_k st))"

text \<open>The sends of the producer end with the HMAC or an error, and then the channel is closed.\<close>

fun steady :: "producer \<Rightarrow> bool" where
  "steady (Reading fb h r) = True"
| "steady (SendBlock (Inr db) q) = steady q"
| "steady (SendBlock (Inl e) q) = (\<exists>fb. q = SendMac (Inl e) (CloseBlocks fb))"
| "steady (SendMac m q) = (\<exists>fb. q = CloseBlocks fb)"
| "steady (CloseBlocks fb) = False"
| "steady (Gone fb) = False"

definition two_stage_inv :: "'k twoStage \<Rightarrow> bool" where
  "two_stage_inv st \<longleftrightarrow>
     (steady (ts_producer st) \<and> ts_macCh st = None
        \<and> (ts_consumer st = Receiving \<or> (\<exists>e. ts_consumer st = AwaitMac (Some e))))
     \<or> (\<not> steady (ts_producer st) \<and> (\<exists>fb. ts_producer st = CloseBlocks fb \<or> ts_producer st = Gone fb)
        \<and> (ts_macCh st = None \<longleftrightarrow> two_stage_returned st)
        \<and> (ts_consumer st = AwaitMac None \<longrightarrow> (\<exists>fb. ts_producer st = Gone fb)))"

fun producer_weight :: "producer \<Rightarrow> nat" where
  "producer_weight (Reading fb h r) = 8 * length (s_bytes r) + 8"
| "producer_weight (SendBlock res q) = 2 + producer_weight q"
| "producer_weight (SendMac m q) = 1 + producer_weight q"
| "producer_weight (CloseBlocks fb) = 1"
| "producer_weight (Gone fb) = 0"

definition two_stage_weight :: "'k twoStage \<Rightarrow> nat" where
  "two_stage_weight st = producer_weight (ts_producer st) + length (ts_blockCh st)
     + (case ts_consumer st of Receiving \<Rightarrow> 2 | AwaitMac _ \<Rightarrow> 1 | Returned _ \<Rightarrow> 0)"

lemma read_chunk_cases:
  obtains fb1 sz b err r' where "NextChunkSize P fb = (sz, fb1)" "sReadFull sz r = (b, err, r')" "0 < sz"
  using NextChunkSize_bounds(1) by (metis prod_cases3 surj_pair)

lemma read_chunk_steady: "steady (read_chunk P Z key fb h r)"
  by (auto simp: read_chunk_def Let_def split: prod.splits option.splits res.splits)

lemma read_chunk_rest: "producer_rest P Z key send m (read_chunk P Z key fb h r) k = encrypt_stream P Z key send fb h r k"
proof -
  obtain fb1 sz b err r' where c: "NextChunkSize P fb = (sz, fb1)" "sReadFull sz r = (b, err, r')"
    by (rule read_chunk_cases)
  obtain db fb2 where e: "EncryptChunk P Z fb1 b = Ok (db, fb2)" using EncryptChunk_total by blast
  show ?thesis
    by (cases "b = []"; cases err)
      (auto simp: encrypt_stream.simps [of P Z key send fb h r k] read_chunk_def c e EncryptChunkInto_eq result_with_def Let_def
        split: prod.splits option.splits)
qed

lemma read_chunk_weight: "producer_weight (read_chunk P Z key fb h r) < producer_weight (Reading fb h r)"
proof -
  obtain fb1 sz b err r' where c: "NextChunkSize P fb = (sz, fb1)" "sReadFull sz r = (b, err, r')" "0 < sz"
    by (rule read_chunk_cases)
  have "err = None \<Longrightarrow> length (s_bytes r') < length (s_bytes r)" using sReadFull_shorter c by blast
  then show ?thesis
    by (auto simp: read_chunk_def c Let_def split: option.splits res.splits)
qed

lemma producer_rest_mac:
  "producer_rest P Z key send (Some m) (foldr SendBlock ch (CloseBlocks fb)) k =
   producer_rest P Z key send m' (foldr SendBlock ch (SendMac m (CloseBlocks fb))) k"
proof (induction ch arbitrary: k)
  case (Cons x ch)
  then show ?case by (cases x) (auto split: prod.splits option.splits)
qed simp

lemma producer_rest_read:
  "producer_rest P Z key send m (foldr SendBlock ch (read_chunk P Z key fb h r)) k =
   producer_rest P Z key send m (foldr SendBlock ch (Reading fb h r)) k"
proof (induction ch arbitrary: k)
  case (Cons x ch)
  then show ?case by (cases x) (auto split: prod.splits option.splits)
qed (simp add: read_chunk_rest)

lemma producer_rest_close:
  "producer_rest P Z key send m (foldr SendBlock ch (Gone fb)) k =
   producer_rest P Z key send m (foldr SendBlock ch (CloseBlocks fb)) k"
proof (induction ch arbitrary: k)
  case (Cons x ch)
  then show ?case by (cases x) (auto split: prod.splits option.splits)
qed (simp split: option.splits)

lemma steady_SendBlock: "steady (SendBlock res q) \<Longrightarrow> steady q"
  by (cases res) auto

lemma two_stage_keeps_inv:
  assumes "two_stage_inv st" and "two_stage_step P Z key send st st'" shows "two_stage_inv st'"
  using assms(2)
proof cases
  case (read fb h r)
  with assms(1) show ?thesis by (auto simp: two_stage_inv_def read_chunk_steady)
next
  case (send_block res q)
  with assms(1) show ?thesis by (auto simp: two_stage_inv_def dest: steady_SendBlock)
next
  case (receive res rest c k)
  then have "c = Receiving \<or> (\<exists>e. c = AwaitMac (Some e))"
    by (auto simp: handle_result_def split: sum.splits prod.splits option.splits)
  with receive assms(1) show ?thesis by (auto simp: two_stage_inv_def two_stage_returned_def)
qed (use assms(1) in \<open>auto simp: two_stage_inv_def two_stage_returned_def\<close>)

lemma two_stage_loses_weight: "two_stage_step P Z key send st st' \<Longrightarrow> two_stage_weight st' < two_stage_weight st"
proof (induction rule: two_stage_step.induct)
  case (read st fb h r)
  then show ?case using read_chunk_weight [of P Z key fb h r] by (simp add: two_stage_weight_def)
next
  case (receive st res rest c k)
  then have "c = Receiving \<or> (\<exists>e. c = AwaitMac (Some e))"
    by (auto simp: handle_result_def split: sum.splits prod.splits option.splits)
  with receive show ?case by (auto simp: two_stage_weight_def)
qed (auto simp: two_stage_weight_def)

lemma two_stage_keeps_rest:
  assumes "two_stage_inv st" and "two_stage_step P Z key send st st'"
  shows "two_stage_rest P Z key send st' = two_stage_rest P Z key send st"
  using assms(2)
proof cases
  case (read fb h r)
  with assms(1) show ?thesis
    by (auto simp: two_stage_rest_def two_stage_inv_def channel_rest_def producer_rest_read split: consumer.splits option.splits)
next
  case (send_mac m q)
  with assms(1) show ?thesis
    by (auto simp: two_stage_rest_def two_stage_inv_def channel_rest_def producer_rest_mac [of P Z key send m _ _ _ None])
next
  case (close_blocks fb)
  then show ?thesis
    by (auto simp: two_stage_rest_def channel_rest_def producer_rest_close split: consumer.splits option.splits)
next
  case (receive res rest c k)
  then show ?thesis
    by (cases res) (auto simp: two_stage_rest_def channel_rest_def handle_result_def split: prod.splits option.splits)
next
  case (receive_mac err m)
  with assms(1) show ?thesis
    by (auto simp: two_stage_rest_def two_stage_inv_def result_with_def split: option.splits)
qed (use assms(1) in \<open>auto simp: two_stage_rest_def two_stage_inv_def channel_rest_def split: consumer.splits option.splits\<close>)

interpretation two_stage: ending_system "two_stage_step P Z key send" two_stage_inv two_stage_weight
    "two_stage_rest P Z key send" for P Z key send
  by unfold_locales (simp_all add: two_stage_keeps_inv two_stage_loses_weight two_stage_keeps_rest)

lemma two_stage_start_inv [simp]: "two_stage_inv (two_stage_start fb r k)"
  by (simp add: two_stage_inv_def two_stage_start_def)

lemma two_stage_start_rest: "two_stage_rest P Z key send (two_stage_start fb r k) = encrypt_stream P Z key send fb [] r k"
  by (simp add: two_stage_rest_def two_stage_start_def channel_rest_def)

text \<open>
  When the two-stage pipeline returns, it returns the HMAC or the error of the sequential
  definition, having sent the same blocks in the same order.
\<close>

lemma two_stage_refines:
  assumes "(two_stage_step P Z key send)\<^sup>*\<^sup>* (two_stage_start fb r k) st" and "ts_consumer st = Returned m"
  shows "encrypt_stream P Z key send fb [] r k = (result_with (producer_fb (ts_producer st)) m, ts_k st)"
  using two_stage.run_outcome [OF assms(1)] assms(2) by (simp add: two_stage_start_rest) (simp add: two_stage_rest_def)

section \<open>Writing without failure\<close>

text \<open>
  As long as \<^verbatim>\<open>send\<close> does not fail, the pipeline returns: an error of the producer is the last
  thing it sends, so that it never waits for a caller that has stopped receiving.
\<close>

fun closing :: "producer \<Rightarrow> bool" where
  "closing (Reading fb h r) = False"
| "closing (SendBlock res q) = False"
| "closing q = True"

definition unfailing :: "(DataBlock \<Rightarrow> 'k \<Rightarrow> 'k) \<Rightarrow> 'k send" where
  "unfailing f db k = (None, f db k)"

definition writing_inv :: "'k twoStage \<Rightarrow> bool" where
  "writing_inv st \<longleftrightarrow> two_stage_inv st
     \<and> ((\<exists>e. ts_consumer st = AwaitMac (Some e) \<or> Inl e \<in> set (ts_blockCh st)) \<longrightarrow> closing (ts_producer st))"

lemma writing_two_stage: "writing_inv st \<Longrightarrow> two_stage_inv st"
  by (simp add: writing_inv_def)

lemma writing_keeps_inv:
  assumes "writing_inv st" and "two_stage_step P Z key (unfailing f) st st'" shows "writing_inv st'"
proof -
  have i: "two_stage_inv st'" "two_stage_inv st" using assms two_stage_keeps_inv by (auto simp: writing_inv_def)
  from assms(2) show ?thesis
  proof cases
    case (send_block res q)
    then have "steady (SendBlock res q)" using i(2) by (auto simp: two_stage_inv_def)
    then have "res = Inl e \<Longrightarrow> closing q" for e by auto
    with send_block assms(1) i(1) show ?thesis by (auto simp: writing_inv_def)
  next
    case (receive res rest c k)
    with assms(1) i(1) show ?thesis
      by (cases res) (auto simp: writing_inv_def handle_result_def unfailing_def)
  qed (use assms(1) i(1) in \<open>auto simp: writing_inv_def two_stage_inv_def\<close>)
qed

lemma writing_possible:
  assumes "writing_inv st" and "\<not> two_stage_returned st"
  shows "\<exists>st'. two_stage_step P Z key send st st'"
proof (cases "ts_consumer st")
  case Receiving
  show ?thesis
  proof (cases "ts_blockCh st")
    case Nil
    then have "length (ts_blockCh st) < pipelineDepth" by (simp add: pipelineDepth_def)
    then show ?thesis
      using Nil Receiving assms two_stage_step.send_block [of st _ _ P Z key send]
      by (cases "ts_producer st") (auto simp: writing_inv_def two_stage_inv_def intro: two_stage_step.intros)
  next
    case (Cons res rest)
    with Receiving show ?thesis by (metis two_stage_step.receive surj_pair)
  qed
next
  case (AwaitMac err)
  then show ?thesis
    using assms
    by (cases "ts_producer st"; cases err)
      (auto simp: writing_inv_def two_stage_inv_def intro: two_stage_step.intros(3,4,7))
qed (use assms in \<open>simp add: two_stage_returned_def\<close>)

interpretation writing: running_system "two_stage_step P Z key (unfailing f)" writing_inv two_stage_weight
    "two_stage_rest P Z key (unfailing f)" two_stage_returned for P Z key f
  by unfold_locales
    (simp_all add: writing_keeps_inv two_stage_loses_weight two_stage_keeps_rest [OF writing_two_stage] writing_possible)

section \<open>A failed write can block the pipeline forever\<close>

text \<open>
  After a failed \<^verbatim>\<open>send\<close> the caller waits for \<^verbatim>\<open>macCh\<close> and no longer receives from \<^verbatim>\<open>blockCh\<close>.
  The producer fills the channel and blocks on the next send, so it never reaches \<^verbatim>\<open>macCh\<close>.
  \<open>flooded n\<close>: with \<open>n\<close> chunks read so far, six at most, the file is not exhausted.
\<close>

definition long_stream :: "nat \<Rightarrow> stream \<Rightarrow> bool" where
  "long_stream n r \<longleftrightarrow> n * MaxChunkSize \<le> length (s_bytes r)"

definition chunks_read :: "'k twoStage \<Rightarrow> nat" where
  "chunks_read st = (if ts_consumer st = Receiving then 0 else 1) + length (ts_blockCh st)"

definition flooded :: "'k \<Rightarrow> 'k twoStage \<Rightarrow> bool" where
  "flooded k st \<longleftrightarrow> ts_macCh st = None \<and> length (ts_blockCh st) \<le> pipelineDepth
     \<and> (\<forall>res \<in> set (ts_blockCh st). \<exists>db. res = Inr db)
     \<and> (ts_consumer st = Receiving \<and> ts_k st = k \<or> (\<exists>e. ts_consumer st = AwaitMac (Some e)))
     \<and> ((\<exists>fb h r. ts_producer st = Reading fb h r \<and> long_stream (6 - chunks_read st) r)
        \<or> (\<exists>db fb h r. ts_producer st = SendBlock (Inr db) (Reading fb h r) \<and> long_stream (5 - chunks_read st) r))"

lemma read_long:
  assumes "long_stream (Suc n) r"
  shows "\<exists>db fb' h' r'. read_chunk P Z key fb h r = SendBlock (Inr db) (Reading fb' h' r') \<and> long_stream n r'"
proof -
  obtain fb1 sz b err r' where c: "NextChunkSize P fb = (sz, fb1)" "sReadFull sz r = (b, err, r')" "0 < sz"
    by (rule read_chunk_cases)
  have "sz \<le> MaxChunkSize" using NextChunkSize_bounds(2) c(1) by blast
  then have sz: "sz \<le> length (s_bytes r)" "n * MaxChunkSize \<le> length (s_bytes r) - sz"
    using assms by (auto simp: long_stream_def)
  then have b: "err = None" "b \<noteq> []" "r' = Stream (drop sz (s_bytes r)) (s_end r)"
    using c(2,3) by (auto simp: sReadFull_def Let_def)
  obtain db fb2 where "EncryptChunk P Z fb1 b = Ok (db, fb2)" using EncryptChunk_total by blast
  with c b sz show ?thesis by (simp add: read_chunk_def EncryptChunkInto_eq long_stream_def)
qed

lemma flooded_step:
  assumes "flooded k st" and "two_stage_step P Z key send st st'" and fails: "\<forall>db. fst (send db k) \<noteq> None"
  shows "flooded k st'"
  using assms(2)
proof cases
  case (read fb h r)
  have "6 - chunks_read st = Suc (5 - chunks_read st)"
    using assms(1) by (auto simp: flooded_def chunks_read_def pipelineDepth_def)
  then obtain db fb' h' r' where "read_chunk P Z key fb h r = SendBlock (Inr db) (Reading fb' h' r')"
      "long_stream (5 - chunks_read st) r'"
    using read_long [of "5 - chunks_read st" r P Z key fb h] assms(1) read(2) unfolding flooded_def by auto
  with read assms(1) show ?thesis by (auto simp: flooded_def chunks_read_def)
next
  case (send_block res q)
  with assms(1) show ?thesis by (auto simp: flooded_def chunks_read_def)
next
  case (receive res rest c k')
  then obtain db where db: "res = Inr db" "ts_k st = k" using assms(1) by (auto simp: flooded_def)
  obtain e k2 where "send db k = (Some e, k2)" using fails by (metis option.exhaust prod.exhaust_sel)
  with db receive(4) have "c = AwaitMac (Some e)" by (simp add: handle_result_def)
  with receive assms(1) show ?thesis by (auto simp: flooded_def chunks_read_def)
qed (use assms(1) in \<open>auto simp: flooded_def\<close>)

text \<open>
  C22: a failed write blocks the two-stage pipeline forever.  If the first write of a file of at
  least six chunks fails, no reachable state is one in which \<^verbatim>\<open>encryptAndStream\<close> has returned,
  although every run is finite: its goroutines end up waiting for each other.
\<close>

theorem encryptAndStream_deadlocks:
  assumes "\<forall>db. fst (send db k) \<noteq> None" and "6 * MaxChunkSize \<le> length (s_bytes r)"
  shows "(\<exists>st. (two_stage_step P Z key send)\<^sup>*\<^sup>* (two_stage_start fb r k) st \<and> (\<nexists>st'. two_stage_step P Z key send st st'))
    \<and> (\<forall>st. (two_stage_step P Z key send)\<^sup>*\<^sup>* (two_stage_start fb r k) st \<longrightarrow> \<not> two_stage_returned st)"
proof -
  let ?start = "two_stage_start fb r k"
  have start: "flooded k ?start"
    using assms(2) by (simp add: flooded_def two_stage_start_def chunks_read_def long_stream_def)
  have "flooded k st" if "(two_stage_step P Z key send)\<^sup>*\<^sup>* ?start st" for st
    using that
  proof (induction rule: rtranclp_induct)
    case (step y z)
    show ?case by (rule flooded_step [OF step.IH step.hyps(2) assms(1)])
  qed (rule start)
  moreover have "\<not> two_stage_returned st" if "flooded k st" for st
    using that by (auto simp: flooded_def two_stage_returned_def)
  moreover have "\<exists>st. (two_stage_step P Z key send)\<^sup>*\<^sup>* s st \<and> (\<nexists>st'. two_stage_step P Z key send st st')" for s
  proof (induction "two_stage_weight s" arbitrary: s rule: less_induct)
    case less
    then show ?case using two_stage_loses_weight by (meson converse_rtranclp_into_rtranclp rtranclp.rtrancl_refl)
  qed
  ultimately show ?thesis by blast
qed

section \<open>Concrete runs of the two-stage pipeline\<close>

definition sample_builder :: FrameBuilder where
  "sample_builder = \<lparr>fb_em = \<lparr>em_key = replicate 32 0\<rparr>, fb_br = \<lparr>br_seed = [], br_pos = 0\<rparr>,
     fb_compressor = Some \<lparr>bc_level = 3, bc_window = zstdWindowSize\<rparr>\<rparr>"

definition gather :: "DataBlock list send" where
  "gather = unfailing (\<lambda>db dbs. dbs @ [db])"

definition full_disk :: "unit send" where
  "full_disk db k = (Some (Errorf ''no space left on device''), k)"

theorem two_stage_refines_witness:
  "\<exists>st m. (two_stage_step toy_prims toy_zstd [1] gather)\<^sup>*\<^sup>* (two_stage_start sample_builder (Stream [1, 2, 3] EOF) []) st
    \<and> ts_consumer st = Returned m
    \<and> fst (encrypt_stream toy_prims toy_zstd [1] gather sample_builder [] (Stream [1, 2, 3] EOF) [])
        = result_with (producer_fb (ts_producer st)) m"
proof -
  let ?start = "two_stage_start sample_builder (Stream [1, 2, 3] EOF) []"
  have "writing_inv ?start" by (simp add: writing_inv_def) (simp add: two_stage_start_def)
  then obtain st m where "(two_stage_step toy_prims toy_zstd [1] gather)\<^sup>*\<^sup>* ?start st" "ts_consumer st = Returned m"
    using writing.run_ends [of ?start toy_prims toy_zstd "[1]" "\<lambda>db dbs. dbs @ [db]"]
    unfolding gather_def two_stage_returned_def by blast
  with two_stage_refines [OF this] show ?thesis by (metis fst_conv)
qed

theorem encryptAndStream_deadlocks_witness:
  "\<exists>st. (two_stage_step toy_prims toy_zstd [1] full_disk)\<^sup>*\<^sup>*
      (two_stage_start sample_builder (Stream (replicate (6 * MaxChunkSize) 0) EOF) ()) st
    \<and> (\<nexists>st'. two_stage_step toy_prims toy_zstd [1] full_disk st st') \<and> \<not> two_stage_returned st"
proof -
  have "\<forall>db. fst (full_disk db ()) \<noteq> None" by (simp add: full_disk_def)
  then show ?thesis
    using encryptAndStream_deadlocks [of full_disk "()" "Stream (replicate (6 * MaxChunkSize) 0) EOF" toy_prims toy_zstd "[1]" sample_builder]
    by simp blast
qed

end
