(* ===== verification/Encrypt_Parallel.thy ===== *)
theory Encrypt_Parallel
  imports Encrypt_Pipeline
begin

text \<open>
  The parallel encryption pipelines \<^verbatim>\<open>encryptAndStreamParallel\<close> (\<^verbatim>\<open>io/pipeline.go\<close>) and
  \<^verbatim>\<open>encryptAndStreamMmap\<close> (\<^verbatim>\<open>io/mmap_pipeline.go\<close>): a dispatcher goroutine reads the plaintext and
  draws the nonces, workers seal, the caller writes the blocks in order and returns their
  buffers.  The two differ only in what the dispatcher does, so the step relation takes the
  dispatcher as a parameter.
\<close>

section \<open>The goroutines\<close>

definition parallelPipelineDepth :: nat where
  "parallelPipelineDepth = 4"

definition errDispatchCanceled :: sarc_error where
  "errDispatchCanceled = Errorf ''io: encryption pipeline canceled after write failure''"

text \<open>
  A job: the plaintext, its nonce, and the builder whose key and compressor the worker uses
  (the builder is shared, but these never change; the bytes behind the plaintext in the
  buffer do not matter, see \<open>EncryptChunk_nonce\<close>).
\<close>

type_synonym parallelJob = "FrameBuilder \<times> bytes \<times> bytes"

definition seal_job :: "prims \<Rightarrow> zstd \<Rightarrow> parallelJob \<Rightarrow> DataBlock" where
  "seal_job P Z j = (case j of (fb, b, nonce) \<Rightarrow> EncryptChunkWithNonceInto P Z fb nonce b [])"

text \<open>
  The dispatcher: at the \<^verbatim>\<open>select\<close> that polls \<^verbatim>\<open>cancel\<close>, waiting for a free buffer, about to dispatch
  a job, about to leave its outcome and close the channels, or gone.
\<close>

datatype ('p, 't) dispatcher = Poll 'p | TakeBuf 't | Dispatch parallelJob "('p, 't) dispatcher"
  | Finish stream_result | Closed stream_result

record ('p, 't, 'k) fanOut =
  fo_disp :: "('p, 't) dispatcher"
  fo_free :: nat
  fo_pool :: "(parallelJob, DataBlock) pool"
  fo_sendErr :: "sarc_error option"
  fo_k :: 'k

definition fan_start :: "nat \<Rightarrow> ('p, 't) dispatcher \<Rightarrow> 'k \<Rightarrow> ('p, 't, 'k) fanOut" where
  "fan_start workers d k = \<lparr>fo_disp = d, fo_free = workers * parallelPipelineDepth, fo_pool = new_pool,
     fo_sendErr = None, fo_k = k\<rparr>"

text \<open>The caller writes a block unless a write failed before.\<close>

definition drain_block :: "'k send \<Rightarrow> DataBlock \<Rightarrow> sarc_error option \<times> 'k \<Rightarrow> sarc_error option \<times> 'k" where
  "drain_block send db = (\<lambda>(err, k). if err = None then send db k else (err, k))"

text \<open>
  \<open>poll\<close> is what the dispatcher does from the default branch of its \<^verbatim>\<open>select\<close> to the next blocking
  operation, \<open>grab\<close> what it does with a free buffer; its first component says whether the
  buffer goes back at once.  \<^verbatim>\<open>cancel\<close> is closed exactly when \<^verbatim>\<open>sendErr\<close> is set.
\<close>

inductive fan_step ::
  "('p \<Rightarrow> ('p, 't) dispatcher) \<Rightarrow> ('t \<Rightarrow> bool \<times> ('p, 't) dispatcher) \<Rightarrow> (parallelJob \<Rightarrow> DataBlock) \<Rightarrow> 'k send \<Rightarrow> nat
    \<Rightarrow> ('p, 't, 'k) fanOut \<Rightarrow> ('p, 't, 'k) fanOut \<Rightarrow> bool"
  for poll :: "'p \<Rightarrow> ('p, 't) dispatcher" and grab :: "'t \<Rightarrow> bool \<times> ('p, 't) dispatcher"
    and work :: "parallelJob \<Rightarrow> DataBlock" and send :: "'k send" and workers :: nat where
  poll_default: "\<lbrakk>fo_disp st = Poll p; wp_handed (fo_pool st) = None; fo_sendErr st = None\<rbrakk>
    \<Longrightarrow> fan_step poll grab work send workers st (st\<lparr>fo_disp := poll p\<rparr>)"
| poll_cancel: "\<lbrakk>fo_disp st = Poll p; wp_handed (fo_pool st) = None; fo_sendErr st \<noteq> None\<rbrakk>
    \<Longrightarrow> fan_step poll grab work send workers st (st\<lparr>fo_disp := Finish (Inl errDispatchCanceled)\<rparr>)"
| take_buf: "\<lbrakk>fo_disp st = TakeBuf t; wp_handed (fo_pool st) = None; 0 < fo_free st; grab t = (returned, d)\<rbrakk>
    \<Longrightarrow> fan_step poll grab work send workers st
          (st\<lparr>fo_disp := d, fo_free := fo_free st - (if returned then 0 else 1)\<rparr>)"
| dispatch: "\<lbrakk>fo_disp st = Dispatch j d; send_ordered (workers * parallelPipelineDepth) j (fo_pool st) = Some p\<rbrakk>
    \<Longrightarrow> fan_step poll grab work send workers st (st\<lparr>fo_disp := d, fo_pool := p\<rparr>)"
| finish: "\<lbrakk>fo_disp st = Finish res; wp_handed (fo_pool st) = None\<rbrakk>
    \<Longrightarrow> fan_step poll grab work send workers st (st\<lparr>fo_disp := Closed res\<rparr>)"
| inside: "pool_step (workers * parallelPipelineDepth) workers work (fo_pool st) p
    \<Longrightarrow> fan_step poll grab work send workers st (st\<lparr>fo_pool := p\<rparr>)"
| drain: "\<lbrakk>receive_result (fo_pool st) = Some (db, p); drain_block send db (fo_sendErr st, fo_k st) = (err, k)\<rbrakk>
    \<Longrightarrow> fan_step poll grab work send workers st
          (st\<lparr>fo_pool := p, fo_sendErr := err, fo_k := k, fo_free := Suc (fo_free st)\<rparr>)"

definition fan_done :: "('p, 't, 'k) fanOut \<Rightarrow> bool" where
  "fan_done st \<longleftrightarrow> (\<exists>res. fo_disp st = Closed res) \<and> wp_ordered (fo_pool st) = [] \<and> wp_await (fo_pool st) = None
     \<and> wp_jobs (fo_pool st) = [] \<and> wp_busy (fo_pool st) = []"

text \<open>The call returns a write error first, then the dispatcher's outcome.\<close>

definition fan_result :: "('p, 't, 'k) fanOut \<Rightarrow> stream_result" where
  "fan_result st =
     (case fo_sendErr st of
        Some e \<Rightarrow> Inl e
      | None \<Rightarrow> (case fo_disp st of Closed res \<Rightarrow> res | _ \<Rightarrow> Inl errDispatchCanceled))"

text \<open>The dispatcher of \<^verbatim>\<open>encryptAndStreamParallel\<close>.\<close>

definition reader_poll ::
  "prims \<Rightarrow> FrameBuilder \<times> bytes \<times> stream \<Rightarrow> (FrameBuilder \<times> bytes \<times> stream, nat \<times> FrameBuilder \<times> bytes \<times> stream) dispatcher" where
  "reader_poll P p = (case p of (fb, h, r) \<Rightarrow> case NextChunkSize P fb of (sz, fb) \<Rightarrow> TakeBuf (sz, fb, h, r))"

definition reader_grab ::
  "prims \<Rightarrow> bytes \<Rightarrow> nat \<times> FrameBuilder \<times> bytes \<times> stream
     \<Rightarrow> bool \<times> (FrameBuilder \<times> bytes \<times> stream, nat \<times> FrameBuilder \<times> bytes \<times> stream) dispatcher" where
  "reader_grab P key t =
     (case t of (sz, fb, h, r) \<Rightarrow>
        case sReadFull sz r of
          (b, err, r') \<Rightarrow>
            let rest = (\<lambda>fb. case err of
                    Some e \<Rightarrow> if ends_read e then Finish (Inr (ComputeHMAC P key (h @ b), fb)) else Finish (Inl e)
                  | None \<Rightarrow> Poll (fb, h @ b, r')) in
            if b = [] then (True, rest fb)
            else case NextNonce P fb of
               Ok (nonce, fb) \<Rightarrow> (False, Dispatch (fb, b, nonce) (rest fb))
             | Err e \<Rightarrow> (True, Finish (Inl e))
             | Panic \<Rightarrow> (True, Finish (Inl (Errorf ''panic''))))"

text \<open>The dispatcher of \<^verbatim>\<open>encryptAndStreamMmap\<close>: its loop head, and its body up to the buffer.\<close>

definition mmap_head ::
  "prims \<Rightarrow> bytes \<Rightarrow> FrameBuilder \<times> bytes \<times> bytes
     \<Rightarrow> (FrameBuilder \<times> bytes \<times> bytes, parallelJob \<times> FrameBuilder \<times> bytes \<times> bytes) dispatcher" where
  "mmap_head P key p = (case p of (fb, h, data) \<Rightarrow> if data = [] then Finish (Inr (ComputeHMAC P key h, fb)) else Poll (fb, h, data))"

definition mmap_poll ::
  "prims \<Rightarrow> FrameBuilder \<times> bytes \<times> bytes
     \<Rightarrow> (FrameBuilder \<times> bytes \<times> bytes, parallelJob \<times> FrameBuilder \<times> bytes \<times> bytes) dispatcher" where
  "mmap_poll P p =
     (case p of (fb, h, data) \<Rightarrow>
        case NextChunkSize P fb of
          (sz, fb) \<Rightarrow>
            let sz = min sz (length data); chunk = take sz data; data' = drop sz data in
            (case NextNonce P fb of
               Err e \<Rightarrow> Finish (Inl e)
             | Panic \<Rightarrow> Finish (Inl (Errorf ''panic''))
             | Ok (nonce, fb) \<Rightarrow> TakeBuf ((fb, chunk, nonce), fb, h @ chunk, data')))"

definition mmap_grab ::
  "prims \<Rightarrow> bytes \<Rightarrow> parallelJob \<times> FrameBuilder \<times> bytes \<times> bytes
     \<Rightarrow> bool \<times> (FrameBuilder \<times> bytes \<times> bytes, parallelJob \<times> FrameBuilder \<times> bytes \<times> bytes) dispatcher" where
  "mmap_grab P key t = (case t of (j, p) \<Rightarrow> (False, Dispatch j (mmap_head P key p)))"

section \<open>Any dispatcher\<close>

fun disp_rest ::
  "('p \<Rightarrow> 'k \<Rightarrow> stream_result \<times> 'k) \<Rightarrow> ('t \<Rightarrow> 'k \<Rightarrow> stream_result \<times> 'k) \<Rightarrow> (parallelJob \<Rightarrow> DataBlock) \<Rightarrow> 'k send
    \<Rightarrow> ('p, 't) dispatcher \<Rightarrow> 'k \<Rightarrow> stream_result \<times> 'k" where
  "disp_rest pr tr work send (Poll p) k = pr p k"
| "disp_rest pr tr work send (TakeBuf t) k = tr t k"
| "disp_rest pr tr work send (Dispatch j d) k =
     (case send (work j) k of (Some e, k) \<Rightarrow> (Inl e, k) | (None, k) \<Rightarrow> disp_rest pr tr work send d k)"
| "disp_rest pr tr work send (Finish res) k = (res, k)"
| "disp_rest pr tr work send (Closed res) k = (res, k)"

fun disp_weight :: "('p \<Rightarrow> nat) \<Rightarrow> ('t \<Rightarrow> nat) \<Rightarrow> ('p, 't) dispatcher \<Rightarrow> nat" where
  "disp_weight pw tw (Poll p) = pw p"
| "disp_weight pw tw (TakeBuf t) = tw t"
| "disp_weight pw tw (Dispatch j d) = 6 + disp_weight pw tw d"
| "disp_weight pw tw (Finish res) = 1"
| "disp_weight pw tw (Closed res) = 0"

fun plain :: "('p, 't) dispatcher \<Rightarrow> bool" where
  "plain (Poll p) = True"
| "plain (Finish res) = True"
| "plain _ = False"

text \<open>
  What makes a dispatcher correct: \<open>pr\<close> and \<open>tr\<close> say what the call is going to return from the
  \<^verbatim>\<open>select\<close> and from the wait for a buffer, and agree with what the dispatcher does there; it
  loses weight; it keeps a buffer only for a job.
\<close>

locale fan_out =
  fixes poll :: "'p \<Rightarrow> ('p, 't) dispatcher" and grab :: "'t \<Rightarrow> bool \<times> ('p, 't) dispatcher"
    and work :: "parallelJob \<Rightarrow> DataBlock" and send :: "'k send"
    and pr :: "'p \<Rightarrow> 'k \<Rightarrow> stream_result \<times> 'k" and tr :: "'t \<Rightarrow> 'k \<Rightarrow> stream_result \<times> 'k"
    and pw :: "'p \<Rightarrow> nat" and tw :: "'t \<Rightarrow> nat" and fine :: "'t \<Rightarrow> bool" and workers :: nat
  assumes some_workers: "0 < workers"
    and poll_rest: "disp_rest pr tr work send (poll p) k = pr p k"
    and grab_rest: "disp_rest pr tr work send (snd (grab t)) k = tr t k"
    and poll_weight: "disp_weight pw tw (poll p) < pw p" and poll_heavy: "1 < pw p"
    and grab_weight: "fine t \<Longrightarrow> disp_weight pw tw (snd (grab t)) < tw t"
    and poll_next: "(\<exists>t. poll p = TakeBuf t \<and> fine t) \<or> (\<exists>res. poll p = Finish res)"
    and grab_returned: "grab t = (True, d) \<Longrightarrow> plain d"
    and grab_kept: "grab t = (False, d) \<Longrightarrow> \<exists>j d'. d = Dispatch j d' \<and> plain d'"
begin

abbreviation cap where "cap \<equiv> workers * parallelPipelineDepth"

definition held :: "('p, 't, 'k) fanOut \<Rightarrow> nat" where
  "held st = (case fo_disp st of Dispatch j d \<Rightarrow> 1 | _ \<Rightarrow> 0)"

definition fan_inv :: "('p, 't, 'k) fanOut \<Rightarrow> bool" where
  "fan_inv st \<longleftrightarrow> pool_ok cap workers (fo_pool st)
     \<and> fo_free st + length (pending work (fo_pool st)) + held st = cap
     \<and> (wp_handed (fo_pool st) \<noteq> None \<longrightarrow> plain (fo_disp st))
     \<and> (\<forall>t. fo_disp st = TakeBuf t \<longrightarrow> fine t) \<and> (\<forall>j d. fo_disp st = Dispatch j d \<longrightarrow> plain d)"

definition fan_rest :: "('p, 't, 'k) fanOut \<Rightarrow> stream_result \<times> 'k" where
  "fan_rest st =
     (case fold (drain_block send) (pending work (fo_pool st)) (fo_sendErr st, fo_k st) of
        (Some e, k) \<Rightarrow> (Inl e, k)
      | (None, k) \<Rightarrow> disp_rest pr tr work send (fo_disp st) k)"

definition fan_weight :: "('p, 't, 'k) fanOut \<Rightarrow> nat" where
  "fan_weight st = disp_weight pw tw (fo_disp st) + pool_weight (fo_pool st)"

lemma fan_inv_pool: "fan_inv st \<Longrightarrow> pool_ok cap workers (fo_pool st)"
  by (simp add: fan_inv_def)

lemma fan_keeps_inv:
  assumes "fan_inv st" and "fan_step poll grab work send workers st st'" shows "fan_inv st'"
proof -
  note ok = fan_inv_pool [OF assms(1)]
  from assms(2) show ?thesis
  proof cases
    case (poll_default p)
    with assms(1) poll_next [of p] show ?thesis by (auto simp: fan_inv_def held_def)
  next
    case (take_buf t returned d)
    with assms(1) show ?thesis
      using grab_returned [of t d] grab_kept [of t d] by (cases returned; cases d) (auto simp: fan_inv_def held_def)
  next
    case (dispatch j d p)
    then have "plain d" using assms(1) unfolding fan_inv_def by blast
    with dispatch assms(1) show ?thesis
      using send_ordered_ok(1,2) [OF ok dispatch(3)] by (cases d) (auto simp: fan_inv_def held_def)
  next
    case (inside p)
    have "wp_handed p \<noteq> None \<longrightarrow> plain (fo_disp st)"
      using pool_step_handed [OF inside(2)] assms(1) unfolding fan_inv_def by metis
    with inside(1) assms(1) show ?thesis
      using pool_step_ok [OF inside(2) ok] by (simp add: fan_inv_def held_def del: not_None_eq)
  next
    case (drain db p err k)
    with assms(1) show ?thesis
      using receive_result_ok(1,2,4) [OF ok drain(2)] by (auto simp: fan_inv_def held_def)
  qed (use assms(1) in \<open>auto simp: fan_inv_def held_def\<close>)
qed

lemma fan_loses_weight:
  assumes "fan_inv st" and "fan_step poll grab work send workers st st'" shows "fan_weight st' < fan_weight st"
proof -
  note ok = fan_inv_pool [OF assms(1)]
  from assms(2) show ?thesis
  proof cases
    case (take_buf t returned d)
    then have "fine t" using assms(1) by (simp add: fan_inv_def)
    with take_buf grab_weight [of t] show ?thesis by (simp add: fan_weight_def)
  next
    case (dispatch j d p)
    then show ?thesis using send_ordered_ok(3) [OF ok dispatch(3)] by (simp add: fan_weight_def)
  next
    case (inside p)
    then show ?thesis using pool_step_weight [OF inside(2)] by (simp add: fan_weight_def)
  next
    case (drain db p err k)
    then show ?thesis using receive_result_ok(3) [OF ok drain(2)] by (simp add: fan_weight_def)
  qed (use poll_weight poll_heavy in \<open>auto simp: fan_weight_def\<close>)
qed

lemma drained_failed: "fold (drain_block send) dbs (Some e, k) = (Some e, k)"
  by (induction dbs) (auto simp: drain_block_def)

lemma fan_keeps_rest:
  assumes "fan_inv st" and "fan_step poll grab work send workers st st'" shows "fan_rest st' = fan_rest st"
proof -
  note ok = fan_inv_pool [OF assms(1)]
  from assms(2) show ?thesis
  proof cases
    case (poll_default p)
    then show ?thesis by (auto simp: fan_rest_def poll_rest split: prod.splits option.splits)
  next
    case (poll_cancel p)
    then show ?thesis by (auto simp: fan_rest_def drained_failed)
  next
    case (take_buf t returned d)
    then show ?thesis using grab_rest [of t] by (auto simp: fan_rest_def split: prod.splits option.splits)
  next
    case (dispatch j d p)
    then show ?thesis
      using send_ordered_ok(2) [OF ok dispatch(3)]
      by (auto simp: fan_rest_def drain_block_def split: prod.splits option.splits)
  next
    case (inside p)
    then show ?thesis using pool_step_ok [OF inside(2) ok] by (auto simp: fan_rest_def split: prod.splits option.splits)
  next
    case (drain db p err k)
    then show ?thesis
      using receive_result_ok(2) [OF ok drain(2)] by (auto simp: fan_rest_def split: prod.splits option.splits)
  qed (auto simp: fan_rest_def split: prod.splits option.splits)
qed

lemma fan_possible:
  assumes inv: "fan_inv st" and "\<not> fan_done st" shows "\<exists>st'. fan_step poll grab work send workers st st'"
proof -
  note ok = fan_inv_pool [OF inv]
  have c: "0 < cap" using some_workers by (simp add: parallelPipelineDepth_def)
  show ?thesis
  proof (cases "pending work (fo_pool st) = []")
    case False
    from pool_progress [OF ok False some_workers c] show ?thesis
      by (metis fan_step.inside fan_step.drain surj_pair)
  next
    case True
    note q = pool_quiet [OF ok True]
    have e: "wp_ordered (fo_pool st) = []" "wp_await (fo_pool st) = None"
      using True by (auto simp: pending_def pool_defs split: option.splits)
    show ?thesis
    proof (cases "fo_disp st")
      case (Poll p)
      then show ?thesis using q(1) by (cases "fo_sendErr st") (auto intro: fan_step.poll_default fan_step.poll_cancel)
    next
      case (TakeBuf t)
      then have "0 < fo_free st" using inv True c by (simp add: fan_inv_def held_def)
      with TakeBuf q(1) show ?thesis by (metis fan_step.take_buf surj_pair)
    next
      case (Dispatch j d)
      then show ?thesis using send_ordered_enabled [OF q(1), of cap j] e c by (auto intro: fan_step.dispatch)
    next
      case (Finish res)
      then show ?thesis using q(1) by (auto intro: fan_step.finish)
    next
      case (Closed res)
      with assms(2) q e show ?thesis by (simp add: fan_done_def)
    qed
  qed
qed

end

sublocale fan_out \<subseteq> run: running_system "fan_step poll grab work send workers" fan_inv fan_weight fan_rest fan_done
  by unfold_locales (simp_all add: fan_keeps_inv fan_loses_weight fan_keeps_rest fan_possible)

context fan_out begin

lemma fan_start_inv: "plain d \<Longrightarrow> fan_inv (fan_start workers d k)"
  by (cases d) (simp_all add: fan_inv_def fan_start_def held_def)

lemma fan_refines:
  assumes "plain d" and "(fan_step poll grab work send workers)\<^sup>*\<^sup>* (fan_start workers d k) st" and "fan_done st"
  shows "(fan_result st, fo_k st) = disp_rest pr tr work send d k"
proof -
  have "fan_rest st = fan_rest (fan_start workers d k)"
    by (rule run.run_outcome [OF assms(2) fan_start_inv [OF assms(1)]])
  moreover have "pending work (fo_pool st) = []" using assms(3) by (simp add: fan_done_def pending_def pool_defs)
  ultimately show ?thesis
    using assms(3) by (auto simp: fan_rest_def fan_result_def fan_done_def fan_start_def split: option.splits)
qed

lemma fan_returns:
  assumes "plain d" and "(fan_step poll grab work send workers)\<^sup>*\<^sup>* (fan_start workers d k) st"
  shows "(\<exists>u. (fan_step poll grab work send workers)\<^sup>*\<^sup>* st u \<and> fan_done u)
    \<and> (fan_done st \<or> (\<exists>u. fan_step poll grab work send workers st u))
    \<and> \<not> (\<exists>f. f 0 = st \<and> (\<forall>i. fan_step poll grab work send workers (f i) (f (Suc i))))"
  by (rule run.runs_well [OF assms(2) fan_start_inv [OF assms(1)]])

end

section \<open>The two dispatchers\<close>

definition reader_rest ::
  "prims \<Rightarrow> zstd \<Rightarrow> bytes \<Rightarrow> 'k send \<Rightarrow> FrameBuilder \<times> bytes \<times> stream \<Rightarrow> 'k \<Rightarrow> stream_result \<times> 'k" where
  "reader_rest P Z key send p k = (case p of (fb, h, r) \<Rightarrow> encrypt_stream P Z key send fb h r k)"

definition grabbed_rest ::
  "prims \<Rightarrow> zstd \<Rightarrow> bytes \<Rightarrow> 'k send \<Rightarrow> nat \<times> FrameBuilder \<times> bytes \<times> stream \<Rightarrow> 'k \<Rightarrow> stream_result \<times> 'k" where
  "grabbed_rest P Z key send t k =
     disp_rest (reader_rest P Z key send) (\<lambda>_ k. (Inl EOF, k)) (seal_job P Z) send (snd (reader_grab P key t)) k"

definition stream_weight :: "stream \<Rightarrow> nat" where
  "stream_weight r = 16 * length (s_bytes r) + 16"

lemma disp_rest_plain:
  "plain d \<Longrightarrow> disp_rest pr tr work send d k = disp_rest pr tr' work send d k"
  by (cases d) simp_all

lemma reader_grab_cases:
  "(\<exists>d. reader_grab P key t = (True, d) \<and> plain d) \<or> (\<exists>j d. reader_grab P key t = (False, Dispatch j d) \<and> plain d)"
  by (auto simp: reader_grab_def Let_def split: prod.splits option.splits res.splits)

lemma NextNonce_sealed:
  assumes "NextNonce P fb = Ok (nonce, fb')"
  shows "EncryptChunk P Z fb b = Ok (seal_job P Z (fb', b, nonce), fb')"
proof -
  have "same_file fb fb'" using assms by (auto simp: NextNonce_def intro: with_br_same_file)
  then show ?thesis using EncryptChunk_nonce [OF assms] by (simp add: seal_job_def)
qed

interpretation reading: fan_out "reader_poll P" "reader_grab P key" "seal_job P Z" send "reader_rest P Z key send"
    "grabbed_rest P Z key send" "\<lambda>(fb, h, r). stream_weight r" "\<lambda>(sz, fb, h, r). stream_weight r - 1"
    "\<lambda>(sz, fb, h, r). 0 < sz" "Suc w" for P key Z send w
proof unfold_locales
  fix p :: "FrameBuilder \<times> bytes \<times> stream" and t k
  show "disp_rest (reader_rest P Z key send) (grabbed_rest P Z key send) (seal_job P Z) send (snd (reader_grab P key t)) k
      = grabbed_rest P Z key send t k"
    using reader_grab_cases [of P key t] by (auto simp: grabbed_rest_def disp_rest_plain split: prod.splits option.splits)
  obtain fb h r where p: "p = (fb, h, r)" by (metis prod_cases3)
  obtain sz fb1 where c: "NextChunkSize P fb = (sz, fb1)" by force
  obtain b err r' where b: "sReadFull sz r = (b, err, r')" by (metis prod_cases3)
  obtain nonce fb2 where n: "NextNonce P fb1 = Ok (nonce, fb2)" using NextNonce_total by blast
  show "disp_rest (reader_rest P Z key send) (grabbed_rest P Z key send) (seal_job P Z) send (reader_poll P p) k
      = reader_rest P Z key send p k"
    by (cases err; cases "b = []")
      (auto simp: p reader_poll_def c grabbed_rest_def reader_grab_def b n reader_rest_def NextNonce_sealed [OF n]
        encrypt_stream.simps [of P Z key send fb h r k] Let_def split: prod.splits option.splits)
next
  fix t :: "nat \<times> FrameBuilder \<times> bytes \<times> stream"
  assume "case t of (sz, fb, h, r) \<Rightarrow> 0 < sz"
  then show "disp_weight (\<lambda>(fb, h, r). stream_weight r) (\<lambda>(sz, fb, h, r). stream_weight r - 1) (snd (reader_grab P key t))
      < (case t of (sz, fb, h, r) \<Rightarrow> stream_weight r - 1)"
    by (auto simp: reader_grab_def stream_weight_def Let_def split: prod.splits option.splits res.splits dest!: sReadFull_shorter)
next
  fix t d assume "reader_grab P key t = (False, d)"
  then show "\<exists>j d'. d = Dispatch j d' \<and> plain d'" using reader_grab_cases [of P key t] by auto
next
  fix t d assume "reader_grab P key t = (True, d)"
  then show "plain d" using reader_grab_cases [of P key t] by auto
qed (auto simp: reader_poll_def stream_weight_def NextChunkSize_bounds(1) split: prod.splits)

definition mapped_rest ::
  "prims \<Rightarrow> zstd \<Rightarrow> bytes \<Rightarrow> 'k send \<Rightarrow> parallelJob \<times> FrameBuilder \<times> bytes \<times> bytes \<Rightarrow> 'k \<Rightarrow> stream_result \<times> 'k" where
  "mapped_rest P Z key send t k =
     (case t of (j, fb, h, data) \<Rightarrow>
        case send (seal_job P Z j) k of
          (Some e, k) \<Rightarrow> (Inl e, k)
        | (None, k) \<Rightarrow> encryptMmapSequential P Z key send fb h data k)"

definition polled_rest ::
  "prims \<Rightarrow> zstd \<Rightarrow> bytes \<Rightarrow> 'k send \<Rightarrow> FrameBuilder \<times> bytes \<times> bytes \<Rightarrow> 'k \<Rightarrow> stream_result \<times> 'k" where
  "polled_rest P Z key send p k =
     disp_rest (\<lambda>_ k. (Inl EOF, k)) (mapped_rest P Z key send) (seal_job P Z) send (mmap_poll P p) k"

lemma mmap_poll_cases: "(\<exists>t. mmap_poll P p = TakeBuf t) \<or> (\<exists>res. mmap_poll P p = Finish res)"
  by (auto simp: mmap_poll_def Let_def split: prod.splits res.splits)

lemma mmap_head_plain: "plain (mmap_head P key p)"
  by (auto simp: mmap_head_def split: prod.splits)

lemma mmap_head_rest:
  "disp_rest (polled_rest P Z key send) tr (seal_job P Z) send (mmap_head P key (fb, h, data)) k
     = encryptMmapSequential P Z key send fb h data k"
  by (auto simp: mmap_head_def polled_rest_def mmap_poll_def mapped_rest_def seal_job_def
      encryptMmapSequential.simps [of P Z key send fb h data k] Let_def split: prod.splits res.splits option.splits)

definition mapped_weight :: "bytes \<Rightarrow> nat" where
  "mapped_weight data = (if data = [] then 8 else 16 * length data + 24)"

interpretation mapping: fan_out "mmap_poll P" "mmap_grab P key" "seal_job P Z" send "polled_rest P Z key send"
    "mapped_rest P Z key send" "\<lambda>(fb, h, data). 16 * length data + 16" "\<lambda>(j, fb, h, data). mapped_weight data"
    "\<lambda>_. True" "Suc w" for P key Z send w
proof unfold_locales
  fix p :: "FrameBuilder \<times> bytes \<times> bytes" and t k
  show "disp_rest (polled_rest P Z key send) (mapped_rest P Z key send) (seal_job P Z) send (mmap_poll P p) k
      = polled_rest P Z key send p k"
    using mmap_poll_cases [of P p] by (auto simp: polled_rest_def)
  show "disp_rest (polled_rest P Z key send) (mapped_rest P Z key send) (seal_job P Z) send (snd (mmap_grab P key t)) k
      = mapped_rest P Z key send t k"
    by (auto simp: mmap_grab_def mapped_rest_def mmap_head_rest split: prod.splits option.splits)
next
  fix p :: "FrameBuilder \<times> bytes \<times> bytes"
  obtain fb h data where p: "p = (fb, h, data)" by (metis prod_cases3)
  obtain sz fb1 where c: "NextChunkSize P fb = (sz, fb1)" by force
  show "disp_weight (\<lambda>(fb, h, data). 16 * length data + 16) (\<lambda>(j, fb, h, data). mapped_weight data) (mmap_poll P p)
      < (case p of (fb, h, data) \<Rightarrow> 16 * length data + 16)"
    using NextChunkSize_bounds(1) [OF c]
    by (auto simp: p mmap_poll_def c mapped_weight_def Let_def split: prod.splits res.splits)
next
  fix t :: "parallelJob \<times> FrameBuilder \<times> bytes \<times> bytes"
  show "disp_weight (\<lambda>(fb, h, data). 16 * length data + 16) (\<lambda>(j, fb, h, data). mapped_weight data) (snd (mmap_grab P key t))
      < (case t of (j, fb, h, data) \<Rightarrow> mapped_weight data)"
    by (auto simp: mmap_grab_def mmap_head_def mapped_weight_def split: prod.splits)
qed (use mmap_poll_cases mmap_head_plain in \<open>auto simp: mmap_grab_def split: prod.splits\<close>)

text \<open>
  C20: the parallel encryption pipeline computes the sequential definition.  However the
  dispatcher, the workers and the caller interleave, when \<^verbatim>\<open>encryptAndStreamParallel\<close> returns it
  returns the HMAC and leaves the frame builder of the sequential definition, or its error,
  and has written the same blocks in the same order; a failed write stops the writing.
\<close>

theorem parallel_encrypt_refines:
  assumes "0 < workers"
    and "(fan_step (reader_poll P) (reader_grab P key) (seal_job P Z) send workers)\<^sup>*\<^sup>* (fan_start workers (Poll (fb, [], r)) k) st"
    and "fan_done st"
  shows "(fan_result st, fo_k st) = encrypt_stream P Z key send fb [] r k"
proof -
  obtain w where "workers = Suc w" using assms(1) by (cases workers) auto
  then show ?thesis using reading.fan_refines [OF _ assms(2) [unfolded \<open>workers = _\<close>] assms(3)] by (simp add: reader_rest_def)
qed


text \<open>
  The parallel pipeline over a memory-mapped file always returns, and returns what
  \<^verbatim>\<open>encryptMmapSequential\<close> does, having written the same blocks in the same order.
\<close>

lemma mmap_encrypt_refines:
  assumes "0 < workers"
    and "(fan_step (mmap_poll P) (mmap_grab P key) (seal_job P Z) send workers)\<^sup>*\<^sup>*
      (fan_start workers (mmap_head P key (fb, [], data)) k) st"
  shows "(fan_done st \<longrightarrow> (fan_result st, fo_k st) = encryptMmapSequential P Z key send fb [] data k)
    \<and> (\<exists>u. (fan_step (mmap_poll P) (mmap_grab P key) (seal_job P Z) send workers)\<^sup>*\<^sup>* st u \<and> fan_done u)"
proof -
  obtain w where w: "workers = Suc w" using assms(1) by (cases workers) auto
  note run = assms(2) [unfolded w]
  show ?thesis
    using mapping.fan_refines [OF mmap_head_plain run] mapping.fan_returns [OF mmap_head_plain run]
    unfolding w by (simp add: mmap_head_rest)
qed

section \<open>The blocks that are sent\<close>

text \<open>Sending a list of blocks up to the first failure.\<close>

fun send_all :: "'k send \<Rightarrow> DataBlock list \<Rightarrow> 'k \<Rightarrow> sarc_error option \<times> 'k" where
  "send_all send [] k = (None, k)"
| "send_all send (db # dbs) k = (case send db k of (Some e, k) \<Rightarrow> (Some e, k) | (None, k) \<Rightarrow> send_all send dbs k)"

text \<open>
  The outcome of encrypting \<open>content\<close>: blocks that decode to its consecutive chunks are sent one
  after the other, and when all were accepted the result is the HMAC of the content.
\<close>

definition sends_content ::
  "prims \<Rightarrow> zstd \<Rightarrow> BlockDecompressor \<Rightarrow> bytes \<Rightarrow> FrameBuilder \<Rightarrow> bytes \<Rightarrow> bytes
    \<Rightarrow> ('k send \<Rightarrow> 'k \<Rightarrow> stream_result \<times> 'k) \<Rightarrow> bool" where
  "sends_content P Z bd key fb h content run \<longleftrightarrow>
     (\<exists>dbs cs fb'. concat cs = content \<and> same_file fb fb'
       \<and> list_all2 (block_of P Z bd (fb_em fb) (fb_Codec fb)) dbs cs
       \<and> (\<forall>send k. run send k = (case send_all send dbs k of
            (Some e, k) \<Rightarrow> (Inl e, k) | (None, k) \<Rightarrow> (Inr (ComputeHMAC P key (h @ content), fb'), k))))"

lemma sends_first:
  assumes "block_of P Z bd (fb_em fb) (fb_Codec fb) db c" and "same_file fb fb2"
    and "sends_content P Z bd key fb2 (h @ c) content run'"
    and run: "\<And>send k. run send k = (case send db k of (Some e, k) \<Rightarrow> (Inl e, k) | (None, k) \<Rightarrow> run' send k)"
  shows "sends_content P Z bd key fb h (c @ content) run"
proof -
  from assms(3) obtain dbs cs fb' where r: "concat cs = content" "same_file fb2 fb'"
      "list_all2 (block_of P Z bd (fb_em fb) (fb_Codec fb)) dbs cs"
      "\<And>send k. run' send k = (case send_all send dbs k of
            (Some e, k) \<Rightarrow> (Inl e, k) | (None, k) \<Rightarrow> (Inr (ComputeHMAC P key (h @ c @ content), fb'), k))"
    unfolding sends_content_def same_file_fields [OF assms(2)] append_assoc by blast
  show ?thesis
    unfolding sends_content_def
    by (rule exI [of _ "db # dbs"], rule exI [of _ "c # cs"], rule exI [of _ fb'])
      (use r assms(1) same_file_trans [OF assms(2)] in \<open>auto simp: run split: prod.splits option.splits\<close>)
qed

lemma sends_nothing:
  assumes "same_file fb fb'" and "\<And>send k. run send k = (Inr (ComputeHMAC P key h, fb'), k)"
  shows "sends_content P Z bd key fb h [] run"
  unfolding sends_content_def
  by (rule exI [of _ "[]"], rule exI [of _ "[]"], rule exI [of _ fb']) (simp add: assms)

lemma encrypt_stream_content:
  "decodes P Z bd fb \<Longrightarrow> ends_read (s_end r) \<Longrightarrow>
   sends_content P Z bd key fb h (s_bytes r) (\<lambda>(send :: 'k send) k. encrypt_stream P Z key send fb h r k)"
proof (induction "length (s_bytes r)" arbitrary: fb h r rule: less_induct)
  case less
  obtain sz fb1 where c: "NextChunkSize P fb = (sz, fb1)" by force
  note sz = NextChunkSize_bounds [OF c]
  let ?b = "take sz (s_bytes r)" and ?r = "Stream (drop sz (s_bytes r)) (s_end r)"
  have d1: "decodes P Z bd fb1" by (rule same_file_decodes [OF sz(3) less.prems(1)])
  obtain db fb2 where e: "EncryptChunk P Z fb1 ?b = Ok (db, fb2)" and s2: "same_file fb1 fb2"
    using EncryptChunk_total by blast
  have f: "same_file fb fb2" using sz(3) s2 by (rule same_file_trans)
  show ?case
  proof (cases "s_bytes r = []")
    case True
    have "sReadFull sz r = ([], Some (s_end r), r)" using True sz(1) by (cases r) (simp add: sReadFull_def)
    with less.prems(2) show ?thesis
      unfolding True by (intro sends_nothing [OF sz(3)]) (simp add: encrypt_stream.simps [of P Z key _ fb h r] c)
  next
    case False
    then have ne: "?b \<noteq> []" using sz(1) by simp
    have "length ?b \<le> MaxChunkSize" using sz(2) by simp
    then have blk: "block_of P Z bd (fb_em fb) (fb_Codec fb) db ?b"
      using EncryptChunk_block [OF d1 e ne] same_file_fields [OF sz(3)] by simp
    show ?thesis
    proof (cases "sz \<le> length (s_bytes r)")
      case True
      have lt: "length (s_bytes ?r) < length (s_bytes r)" using True sz(1) by simp
      have ih: "sends_content P Z bd key fb2 (h @ ?b) (s_bytes ?r) (\<lambda>(send :: 'k send) k. encrypt_stream P Z key send fb2 (h @ ?b) ?r k)"
        by (rule less.hyps [OF lt same_file_decodes [OF f less.prems(1)]]) (use less.prems(2) in simp)
      have "sends_content P Z bd key fb h (?b @ s_bytes ?r) (\<lambda>(send :: 'k send) k. encrypt_stream P Z key send fb h r k)"
        by (rule sends_first [OF blk f ih])
          (use True ne e in \<open>simp add: encrypt_stream.simps [of P Z key _ fb h r] c sReadFull_def Let_def split: prod.splits option.splits\<close>)
      then show ?thesis by simp
    next
      case short: False
      then have b: "?b = s_bytes r" by simp
      have "sends_content P Z bd key fb h (?b @ []) (\<lambda>(send :: 'k send) k. encrypt_stream P Z key send fb h r k)"
        by (rule sends_first [OF blk f, of key h "[]" "\<lambda>(send :: 'k send) k. (Inr (ComputeHMAC P key (h @ ?b), fb2), k)"], rule sends_nothing)
          (use short ne e less.prems(2) in \<open>auto simp: encrypt_stream.simps [of P Z key _ fb h r] c sReadFull_def Let_def
              ends_read_def b split: prod.splits option.splits\<close>)
      then show ?thesis by (simp add: b)
    qed
  qed
qed

lemma mmap_content:
  "decodes P Z bd fb \<Longrightarrow> sends_content P Z bd key fb h data (\<lambda>(send :: 'k send) k. encryptMmapSequential P Z key send fb h data k)"
proof (induction "length data" arbitrary: fb h data rule: less_induct)
  case less
  show ?case
  proof (cases "data = []")
    case True
    then show ?thesis by (simp only: True, intro sends_nothing [OF same_file_refl(1)]) (simp add: encryptMmapSequential.simps)
  next
    case False
    obtain sz fb1 where c: "NextChunkSize P fb = (sz, fb1)" by force
    note sz = NextChunkSize_bounds [OF c]
    define b where "b = take (min sz (length data)) data"
    define rest where "rest = drop (min sz (length data)) data"
    have bl: "b \<noteq> []" "length b \<le> MaxChunkSize" "length rest < length data" "b @ rest = data"
      using False sz(1,2) by (simp_all add: b_def rest_def)
    obtain nonce fb2 where n: "NextNonce P fb1 = Ok (nonce, fb2)" "same_file fb1 fb2" using NextNonce_total by blast
    have f: "same_file fb fb2" using sz(3) n(2) by (rule same_file_trans)
    have blk: "block_of P Z bd (fb_em fb) (fb_Codec fb) (seal_job P Z (fb2, b, nonce)) b"
      using EncryptChunk_block [OF same_file_decodes [OF sz(3) less.prems] NextNonce_sealed [OF n(1)] bl(1,2)]
        same_file_fields [OF sz(3)] by simp
    have ih: "sends_content P Z bd key fb2 (h @ b) rest (\<lambda>(send :: 'k send) k. encryptMmapSequential P Z key send fb2 (h @ b) rest k)"
      by (rule less.hyps [OF bl(3) same_file_decodes [OF f less.prems]])
    have "sends_content P Z bd key fb h (b @ rest) (\<lambda>(send :: 'k send) k. encryptMmapSequential P Z key send fb h data k)"
      by (rule sends_first [OF blk f ih])
        (use False in \<open>simp add: encryptMmapSequential.simps [of P Z key _ fb h data] c n(1) seal_job_def b_def [symmetric]
            rest_def [symmetric] Let_def split: prod.splits option.splits\<close>)
    then show ?thesis by (simp only: bl(4))
  qed
qed

text \<open>
  The blocks of a file.  Whichever way a file is encrypted, from a reader or memory-mapped,
  the blocks handed to the writer decrypt and decode one by one to its consecutive chunks,
  every block within the size a reader accepts, and the returned tag is the HMAC of the
  whole file; a failed write is returned as the error, after exactly the writes before it.
\<close>

lemma encrypted_blocks_decode:
  assumes "decodes P Z bd fb"
  shows "sends_content P Z bd key fb [] content (\<lambda>send k. encrypt_stream P Z key send fb [] (Stream content EOF) k)
    \<and> sends_content P Z bd key fb [] content (\<lambda>send k. encryptMmapSequential P Z key send fb [] content k)"
  using encrypt_stream_content [OF assms, of "Stream content EOF" key "[]"] mmap_content [OF assms, of key "[]" content]
  by (simp add: ends_read_def)

section \<open>Concrete runs\<close>

theorem parallel_encrypt_refines_witness:
  "\<exists>st. (fan_step (reader_poll toy_prims) (reader_grab toy_prims [1]) (seal_job toy_prims toy_zstd) gather 2)\<^sup>*\<^sup>*
      (fan_start 2 (Poll (sample_builder, [], Stream [1, 2, 3] EOF)) []) st \<and> fan_done st
    \<and> (fan_result st, fo_k st) = encrypt_stream toy_prims toy_zstd [1] gather sample_builder [] (Stream [1, 2, 3] EOF) []"
proof -
  have inv: "reading.fan_inv toy_prims toy_zstd 1 (fan_start (Suc 1) (Poll (sample_builder, [], Stream [1, 2, 3] EOF)) [])"
    by (rule reading.fan_start_inv) simp
  obtain st where st: "(fan_step (reader_poll toy_prims) (reader_grab toy_prims [1]) (seal_job toy_prims toy_zstd) gather (Suc 1))\<^sup>*\<^sup>*
      (fan_start (Suc 1) (Poll (sample_builder, [], Stream [1, 2, 3] EOF)) []) st" "fan_done st"
    using reading.run.run_ends [OF inv] by blast
  from parallel_encrypt_refines [OF _ st] st show ?thesis unfolding numeral_2_eq_2 by auto
qed


theorem mmap_encrypt_refines_witness:
  "\<exists>st. (fan_step (mmap_poll toy_prims) (mmap_grab toy_prims [1]) (seal_job toy_prims toy_zstd) full_disk 2)\<^sup>*\<^sup>*
      (fan_start 2 (mmap_head toy_prims [1] (sample_builder, [], [1, 2, 3])) ()) st \<and> fan_done st"
  using mmap_encrypt_refines [of 2 toy_prims "[1]" toy_zstd full_disk sample_builder "[1, 2, 3]" "()", OF _ rtranclp.rtrancl_refl]
  by simp

theorem encrypted_blocks_decode_witness:
  "sends_content toy_prims toy_zstd \<lparr>bd_limit = MaxChunkSize, bd_window = zstdWindowSize\<rparr> [1] sample_builder [] [1, 2, 3]
     (\<lambda>send (k :: nat). encrypt_stream toy_prims toy_zstd [1] send sample_builder [] (Stream [1, 2, 3] EOF) k)"
proof -
  have "decodes toy_prims toy_zstd \<lparr>bd_limit = MaxChunkSize, bd_window = zstdWindowSize\<rparr> sample_builder"
    by (simp add: decodes_def toy_prims_correct toy_zstd_correct toy_zstd_bounded sample_builder_def)
  from encrypted_blocks_decode [OF this] show ?thesis by blast
qed

end
