(* ===== verification/Archiver.thy ===== *)
theory Archiver
  imports Archive_Roundtrip Encrypt_Parallel
begin

text \<open>
  Turning files into entries: the compression policy (\<^verbatim>\<open>io/compression.go\<close>), streaming one file
  into the archive (\<^verbatim>\<open>io/streaming.go\<close>), encrypting a whole file in memory (\<^verbatim>\<open>io/concurrent.go\<close>),
  packing and sealing solid groups (\<^verbatim>\<open>io/solid.go\<close>), directories and links (\<^verbatim>\<open>io/special.go\<close>).
  The operating system is a parameter: what opening a path, its metadata and its content
  give.
\<close>

section \<open>Operations of an archiver\<close>

text \<open>
  The state is the archive writer and the bytes that \<^verbatim>\<open>crypto/rand\<close> is going to return.  \<open>drawS\<close>
  is a call that uses randomness, \<open>writeS\<close> one that changes the writer, \<open>withWriter\<close> one that
  looks at it.
\<close>

type_synonym 'a writing = "(ArchiveWriter \<times> bytes, 'a) op"

definition drawS :: "(sarc_error \<Rightarrow> ArchiveError) \<Rightarrow> (bytes \<Rightarrow> ('a \<times> bytes) res) \<Rightarrow> 'a writing" where
  "drawS wrap f = (\<lambda>(aw, rnd).
     case f rnd of Ok (x, rnd') \<Rightarrow> (Val x, (aw, rnd')) | Err e \<Rightarrow> (Fail (wrap e), (aw, rnd)) | Panic \<Rightarrow> (Crash, (aw, rnd)))"

definition writeS :: "(sarc_error \<Rightarrow> ArchiveError) \<Rightarrow> (ArchiveWriter \<Rightarrow> ArchiveWriter res) \<Rightarrow> unit writing" where
  "writeS wrap f = (\<lambda>(aw, rnd).
     case f aw of Ok aw' \<Rightarrow> (Val (), (aw', rnd)) | Err e \<Rightarrow> (Fail (wrap e), (aw, rnd)) | Panic \<Rightarrow> (Crash, (aw, rnd)))"

definition withWriter :: "(ArchiveWriter \<Rightarrow> 'a writing) \<Rightarrow> 'a writing" where
  "withWriter f s = f (fst s) s"

definition orFail :: "(sarc_error \<Rightarrow> ArchiveError) \<Rightarrow> sarc_error + 'a \<Rightarrow> ('s, 'a) op" where
  "orFail wrap m s = (case m of Inl e \<Rightarrow> (Fail (wrap e), s) | Inr x \<Rightarrow> (Val x, s))"

lemma writing_Val_conv:
  "drawS w f (aw, rnd) = (Val x, s') \<longleftrightarrow> (\<exists>rnd'. f rnd = Ok (x, rnd') \<and> s' = (aw, rnd'))"
  "writeS w g (aw, rnd) = (Val u, s') \<longleftrightarrow> (\<exists>aw'. g aw = Ok aw' \<and> s' = (aw', rnd))"
  "withWriter h (aw, rnd) = h aw (aw, rnd)"
  "orFail w m s = (Val x, s') \<longleftrightarrow> m = Inr x \<and> s' = s"
  "returnS x s = (Val y, s') \<longleftrightarrow> y = x \<and> s' = s"
  "failS e s \<noteq> (Val x, s')"
  by (auto simp: drawS_def writeS_def withWriter_def orFail_def returnS_def failS_def split: res.splits sum.splits)

lemmas writing_convs = bindS_Val_conv callS_Val_conv writing_Val_conv

section \<open>The compression policy\<close>

type_synonym CompressionMode = byte

definition CompressionAuto :: CompressionMode where "CompressionAuto = 0"
definition CompressionAlways :: CompressionMode where "CompressionAlways = 1"
definition CompressionNever :: CompressionMode where "CompressionNever = 2"

definition compressionProbeSize :: nat where "compressionProbeSize = 64 * 1024"
definition compressionMinSavingsPercent :: nat where "compressionMinSavingsPercent = 5"

definition incompressibleExtensions :: "bytes list" where
  "incompressibleExtensions = map str
     [''.jpg'', ''.jpeg'', ''.png'', ''.gif'', ''.webp'', ''.heic'', ''.avif'',
      ''.mp4'', ''.m4v'', ''.mov'', ''.mkv'', ''.webm'', ''.avi'',
      ''.mp3'', ''.m4a'', ''.aac'', ''.ogg'', ''.opus'', ''.flac'',
      ''.zip'', ''.gz'', ''.tgz'', ''.bz2'', ''.xz'', ''.zst'', ''.7z'', ''.rar'',
      ''.jar'', ''.apk'', ''.docx'', ''.xlsx'', ''.pptx'', ''.woff2'', ''.sarc'']"

record CompressionOptions =
  co_Mode :: CompressionMode
  co_Level :: int
  co_Solid :: bool

definition DefaultCompressionOptions :: CompressionOptions where
  "DefaultCompressionOptions = \<lparr>co_Mode = CompressionAuto, co_Level = 3, co_Solid = False\<rparr>"

record compressionPolicy =
  po_mode :: CompressionMode
  po_solid :: bool
  po_compressor :: "BlockCompressor option"
  po_solidCompressor :: "BlockCompressor option"
  po_probeCompressor :: "BlockCompressor option"

definition newCompressionPolicy :: "zstd \<Rightarrow> nat \<Rightarrow> CompressionOptions \<Rightarrow> compressionPolicy res" where
  "newCompressionPolicy Z procs opts =
     (if co_Mode opts = CompressionNever
      then Ok \<lparr>po_mode = co_Mode opts, po_solid = co_Solid opts, po_compressor = None,
             po_solidCompressor = None, po_probeCompressor = None\<rparr>
      else if co_Mode opts = CompressionAuto \<or> co_Mode opts = CompressionAlways
      then bindR (NewBlockCompressor Z procs (co_Level opts)) (\<lambda>bc.
        bindR (if co_Mode opts = CompressionAuto then bindR (NewBlockCompressor Z procs 1) (\<lambda>p. Ok (Some p)) else Ok None) (\<lambda>probe.
        bindR (if co_Solid opts then bindR (NewSolidCompressor Z procs (co_Level opts)) (\<lambda>p. Ok (Some p)) else Ok None) (\<lambda>solid.
        Ok \<lparr>po_mode = co_Mode opts, po_solid = co_Solid opts, po_compressor = Some bc,
            po_solidCompressor = solid, po_probeCompressor = probe\<rparr>)))
      else Err (Errorf ''io/compression: unknown compression mode''))"

text \<open>
  \<^verbatim>\<open>filepath.Ext\<close>: from the last dot of the last element on.  \<^verbatim>\<open>strings.ToLower\<close>, which follows the
  Unicode tables, is the parameter \<open>lower\<close>.
\<close>

definition Ext :: "bytes \<Rightarrow> bytes" where
  "Ext name =
     (let r = takeWhile (\<lambda>c. c \<noteq> slash) (rev name) in
      if dot \<in> set r then rev (takeWhile (\<lambda>c. c \<noteq> dot) r @ [dot]) else [])"

text \<open>A nil probe compressor would be dereferenced: the model calls that a panic.\<close>

definition codecFor :: "zstd \<Rightarrow> (bytes \<Rightarrow> bytes) \<Rightarrow> compressionPolicy \<Rightarrow> bytes \<Rightarrow> bytes \<Rightarrow> Codec res" where
  "codecFor Z lower p name probe =
     (if po_mode p = CompressionAlways then Ok CodecZstd
      else if po_mode p = CompressionAuto
      then if lower (Ext name) \<in> set incompressibleExtensions \<or> probe = [] then Ok CodecNone
           else case po_probeCompressor p of
             None \<Rightarrow> Panic
           | Some pc \<Rightarrow>
               if length (Compress Z pc [] probe) * 100 \<le> length probe * (100 - compressionMinSavingsPercent)
               then Ok CodecZstd else Ok CodecNone
      else Ok CodecNone)"

definition newFrameBuilder :: "compressionPolicy \<Rightarrow> bytes \<Rightarrow> Codec \<Rightarrow> bytes \<Rightarrow> (FrameBuilder \<times> bytes) res" where
  "newFrameBuilder p fileKey codec rnd =
     (if codec = CodecZstd then NewCompressingFrameBuilder fileKey (po_compressor p) rnd
      else NewFrameBuilder fileKey rnd)"

section \<open>Files\<close>

record inputFile =
  in_path :: bytes
  in_name :: bytes
  in_attrs :: Attributes

definition in_regular :: "inputFile \<Rightarrow> bool" where
  "in_regular f \<longleftrightarrow> a_Kind (in_attrs f) = KindRegular"

record fileInfo =
  fi_Size :: nat
  fi_ModTime :: int
  fi_Perm :: u32
  fi_Regular :: bool

text \<open>
  An open file: its metadata, the stream its reads deliver, what \<^verbatim>\<open>ReadAt(probe, 0)\<close> delivers, and
  the mapped bytes when mapping it succeeds.
\<close>

record osFile =
  of_info :: "sarc_error + fileInfo"
  of_r :: stream
  of_ReadAt :: "nat \<Rightarrow> bytes \<times> sarc_error option"
  of_mapped :: "bytes option"

record os =
  os_Stat :: "bytes \<Rightarrow> sarc_error + fileInfo"
  os_Open :: "bytes \<Rightarrow> sarc_error + osFile"

definition readProbe :: "osFile \<Rightarrow> nat \<Rightarrow> CompressionMode \<Rightarrow> sarc_error + bytes" where
  "readProbe f n mode =
     (if mode \<noteq> CompressionAuto \<or> n = 0 then Inr []
      else case of_ReadAt f (min n compressionProbeSize) of
        (b, err) \<Rightarrow> case err of Some e \<Rightarrow> if e = EOF then Inr b else Inl e | None \<Rightarrow> Inr b)"

definition encryptFilename :: "prims \<Rightarrow> bytes \<Rightarrow> bytes \<Rightarrow> bytes \<Rightarrow> (bytes \<times> bytes) res" where
  "encryptFilename P name fileKey rnd =
     bindR (wrapR ''encrypt filename'' (NewEncryptionManager fileKey)) (\<lambda>em.
     bindR (wrapR ''encrypt filename'' (EncryptBlock P ReadFull em name rnd)) (\<lambda>(block, rnd).
       Ok (eb_Nonce block @ eb_Ciphertext block, rnd)))"

record entrySummary =
  es_bucket :: SizeBucket
  es_codec :: Codec
  es_original :: nat

definition file_metadata :: "prims \<Rightarrow> bytes \<Rightarrow> bytes \<Rightarrow> fileInfo \<Rightarrow> Codec \<Rightarrow> Attributes \<Rightarrow> PlaintextMetadata" where
  "file_metadata P salt encName info codec attrs =
     \<lparr>pm_EncryptedFilename = encName, pm_SizeBucket = BucketizeSize (int (fi_Size info)),
      pm_TimestampHash = HashTimestamp P salt (fi_ModTime info), pm_Permissions = fi_Perm info,
      pm_Codec = codec, pm_Attributes = Some attrs\<rparr>"

section \<open>Streaming a file into the archive\<close>

text \<open>The \<^verbatim>\<open>send\<close> closure: append the block to the archive.\<close>

definition send_writer :: "sink \<Rightarrow> ArchiveWriter send" where
  "send_writer K db aw =
     (case AppendDataBlock K db aw of
        Ok aw' \<Rightarrow> (None, aw') | Err e \<Rightarrow> (Some e, aw) | Panic \<Rightarrow> (Some (Errorf ''panic''), aw))"

text \<open>
  The data of the entry, through one of the pipelines: every run of a pipeline that returns
  does what the sequential definitions say (\<open>Encrypt_Pipeline\<close>, \<open>Encrypt_Parallel\<close>).  The size is
  that of the mapping, or what the tracked reader counted; on success it was read to its end.
\<close>

definition encrypt_data :: "prims \<Rightarrow> zstd \<Rightarrow> sink \<Rightarrow> bytes \<Rightarrow> FrameBuilder \<Rightarrow> osFile \<Rightarrow> (bytes \<times> FrameBuilder \<times> nat) writing" where
  "encrypt_data P Z K fileKey fb f = (\<lambda>(aw, rnd).
     case (case of_mapped f of
             Some data \<Rightarrow> (encryptMmapSequential P Z fileKey (send_writer K) fb [] data aw, length data)
           | None \<Rightarrow> (encrypt_stream P Z fileKey (send_writer K) fb [] (of_r f) aw, length (s_bytes (of_r f)))) of
       ((Inr (mac, fb), aw), n) \<Rightarrow> (Val (mac, fb, n), (aw, rnd))
     | ((Inl e, aw), n) \<Rightarrow> (Fail (fatal ErrCodeWriteFailed ''encrypt stream'' (Some e)), (aw, rnd)))"

abbreviation writeFailed :: "string \<Rightarrow> sarc_error \<Rightarrow> ArchiveError" where
  "writeFailed msg e \<equiv> fatal ErrCodeWriteFailed msg (Some e)"

abbreviation readFailed :: "string \<Rightarrow> sarc_error \<Rightarrow> ArchiveError" where
  "readFailed msg e \<equiv> recoverable ErrCodeReadFailed msg (Some e)"

definition addFileStreaming ::
  "prims \<Rightarrow> zstd \<Rightarrow> sink \<Rightarrow> os \<Rightarrow> (bytes \<Rightarrow> bytes) \<Rightarrow> compressionPolicy \<Rightarrow> inputFile \<Rightarrow> entrySummary writing" where
  "addFileStreaming P Z K fs lower compression inp =
     bindS (orFail (readFailed ''open file'') (os_Open fs (in_path inp))) (\<lambda>f.
     bindS (orFail (readFailed ''stat file'') (of_info f)) (\<lambda>info.
     bindS (drawS (writeFailed ''generate file salt'') GenerateSalt) (\<lambda>salt.
     bindS (withWriter (\<lambda>aw. callS (writeFailed ''derive file key'') (DeriveFileKey P aw salt))) (\<lambda>fileKey.
     bindS (orFail (readFailed ''read compression probe'') (readProbe f (fi_Size info) (po_mode compression))) (\<lambda>probe.
     bindS (callS (writeFailed ''init frame builder'') (codecFor Z lower compression (in_name inp) probe)) (\<lambda>codec.
     bindS (drawS (writeFailed ''init frame builder'') (newFrameBuilder compression fileKey codec)) (\<lambda>fb.
     bindS (callS (writeFailed ''frame header'') (FrameHeader P fb)) (\<lambda>(frameHdr, fb).
     bindS (callS (writeFailed ''init metadata manager'') (NewMetadataManager fileKey)) (\<lambda>mm.
     bindS (drawS (writeFailed ''encrypt filename'') (encryptFilename P (in_name inp) fileKey)) (\<lambda>encFilename.
     let pm = file_metadata P salt encFilename info codec (in_attrs inp) in
     bindS (drawS (writeFailed ''seal metadata'') (mm_Seal P mm pm)) (\<lambda>metaBlock.
     bindS (callS (writeFailed ''inter-block padding'') (InterBlockPadding P fb)) (\<lambda>(interPad, fb).
     bindS (writeS (writeFailed ''begin file entry'') (BeginFileEntry K EntryTypeFile salt frameHdr metaBlock interPad)) (\<lambda>_.
     bindS (encrypt_data P Z K fileKey fb f) (\<lambda>(plaintextHMAC, fb, plaintextSize).
     bindS (callS (writeFailed ''build trailer'') (BuildTrailer P fb plaintextHMAC (word_of_nat plaintextSize))) (\<lambda>(trailer, fb).
     bindS (writeS (writeFailed ''end file entry'') (EndFileEntry K trailer)) (\<lambda>_.
     returnS \<lparr>es_bucket = pm_SizeBucket pm, es_codec = codec, es_original = plaintextSize\<rparr>))))))))))))))))"

section \<open>Whole files in memory\<close>

text \<open>\<^verbatim>\<open>io.ReadAll\<close>: an error other than the end of the file discards what was read.\<close>

definition ReadAll :: "stream \<Rightarrow> sarc_error + bytes" where
  "ReadAll r = (if s_end r = EOF then Inr (s_bytes r) else Inl (s_end r))"

definition encryptFile ::
  "prims \<Rightarrow> zstd \<Rightarrow> os \<Rightarrow> (bytes \<Rightarrow> bytes) \<Rightarrow> compressionPolicy \<Rightarrow> inputFile \<Rightarrow> (FileEntry \<times> entrySummary) writing" where
  "encryptFile P Z fs lower compression inp =
     bindS (orFail (readFailed ''open file'') (os_Open fs (in_path inp))) (\<lambda>f.
     bindS (orFail (readFailed ''stat file'') (of_info f)) (\<lambda>info.
     bindS (drawS (writeFailed ''generate salt'') GenerateSalt) (\<lambda>salt.
     bindS (withWriter (\<lambda>aw. callS (writeFailed ''derive file key'') (DeriveFileKey P aw salt))) (\<lambda>fileKey.
     bindS (orFail (readFailed ''read file'') (ReadAll (of_r f))) (\<lambda>plaintext.
     let plaintextHMAC = ComputeHMAC P fileKey plaintext in
     bindS (callS (writeFailed ''init frame builder'')
       (codecFor Z lower compression (in_name inp) (take compressionProbeSize plaintext))) (\<lambda>codec.
     bindS (drawS (writeFailed ''init frame builder'') (newFrameBuilder compression fileKey codec)) (\<lambda>fb.
     bindS (callS (writeFailed ''frame header'') (FrameHeader P fb)) (\<lambda>(frameHdr, fb).
     bindS (callS (writeFailed ''init metadata manager'') (NewMetadataManager fileKey)) (\<lambda>mm.
     bindS (drawS (writeFailed ''encrypt filename'') (encryptFilename P (in_name inp) fileKey)) (\<lambda>encName.
     let pm = file_metadata P salt encName info codec (in_attrs inp) in
     bindS (drawS (writeFailed ''seal metadata'') (mm_Seal P mm pm)) (\<lambda>metaBlock.
     bindS (callS (writeFailed ''inter-block padding'') (InterBlockPadding P fb)) (\<lambda>(interPad, fb).
     bindS (callS (writeFailed ''encrypt stream'') (fb_EncryptStream P Z fb plaintext)) (\<lambda>(dataBlocks, fb).
     bindS (callS (writeFailed ''build trailer'') (BuildTrailer P fb plaintextHMAC (word_of_nat (length plaintext)))) (\<lambda>(trailer, fb).
     returnS (\<lparr>fe_EntryType = EntryTypeFile, fe_EntrySalt = salt, fe_FrameHdr = frameHdr, fe_Metadata = metaBlock,
         fe_InterBlockPad = interPad, fe_DataBlocks = dataBlocks, fe_Trailer = trailer\<rparr>,
       \<lparr>es_bucket = pm_SizeBucket pm, es_codec = codec, es_original = length plaintext\<rparr>)))))))))))))))"

section \<open>Sealing data in memory\<close>

text \<open>The loop over the chunks of the payload.\<close>

function seal_chunks :: "prims \<Rightarrow> zstd \<Rightarrow> FrameBuilder \<Rightarrow> bytes \<Rightarrow> (DataBlock list \<times> FrameBuilder) res" where
  "seal_chunks P Z fb payload =
     (if payload = [] then Ok ([], fb)
      else case NextChunkSize P fb of
        (sz, fb) \<Rightarrow>
          let n = min sz (length payload) in
          bindR (EncryptChunk P Z fb (take n payload)) (\<lambda>(db, fb).
          bindR (seal_chunks P Z fb (drop n payload)) (\<lambda>(dbs, fb). Ok (db # dbs, fb))))"
  by pat_completeness auto
termination
  by (relation "measure (\<lambda>(P, Z, fb, payload). length payload)") (auto dest!: NextChunkSize_bounds(1) [OF sym])

declare seal_chunks.simps [simp del]

definition sealPayloadEntry :: "prims \<Rightarrow> zstd \<Rightarrow> byte \<Rightarrow> Codec \<Rightarrow> bytes \<Rightarrow> bytes \<Rightarrow> FileEntry writing" where
  "sealPayloadEntry P Z entryType codec payload plaintext =
     bindS (drawS (writeFailed ''generate salt'') GenerateSalt) (\<lambda>salt.
     bindS (withWriter (\<lambda>aw. callS (writeFailed ''derive file key'') (DeriveFileKey P aw salt))) (\<lambda>fileKey.
     bindS (drawS (writeFailed ''init frame builder'') (NewFrameBuilder fileKey)) (\<lambda>fb.
     bindS (callS (writeFailed ''frame header'') (FrameHeader P fb)) (\<lambda>(frameHdr, fb).
     bindS (callS (writeFailed ''init metadata manager'') (NewMetadataManager fileKey)) (\<lambda>mm.
     bindS (drawS (writeFailed ''seal metadata'') (mm_Seal P mm
       \<lparr>pm_EncryptedFilename = [], pm_SizeBucket = BucketizeSize (int (length plaintext)), pm_TimestampHash = replicate 32 0,
        pm_Permissions = 0, pm_Codec = codec, pm_Attributes = None\<rparr>)) (\<lambda>meta.
     bindS (callS (writeFailed ''inter-block padding'') (InterBlockPadding P fb)) (\<lambda>(interPad, fb).
     bindS (callS (writeFailed ''encrypt block'') (seal_chunks P Z fb payload)) (\<lambda>(blocks, fb).
     bindS (callS (writeFailed ''build trailer'')
       (BuildTrailer P fb (ComputeHMAC P fileKey plaintext) (word_of_nat (length plaintext)))) (\<lambda>(trailer, fb).
     returnS \<lparr>fe_EntryType = entryType, fe_EntrySalt = salt, fe_FrameHdr = frameHdr, fe_Metadata = meta,
       fe_InterBlockPad = interPad, fe_DataBlocks = blocks, fe_Trailer = trailer\<rparr>)))))))))"

definition sealSpecialEntry :: "prims \<Rightarrow> inputFile \<Rightarrow> FileEntry writing" where
  "sealSpecialEntry P inp =
     bindS (drawS (writeFailed ''generate salt'') GenerateSalt) (\<lambda>salt.
     bindS (withWriter (\<lambda>aw. callS (writeFailed ''derive file key'') (DeriveFileKey P aw salt))) (\<lambda>fileKey.
     bindS (drawS (writeFailed ''init frame builder'') (NewFrameBuilder fileKey)) (\<lambda>fb.
     bindS (callS (writeFailed ''frame header'') (FrameHeader P fb)) (\<lambda>(frameHdr, fb).
     bindS (drawS (writeFailed ''encrypt filename'') (encryptFilename P (in_name inp) fileKey)) (\<lambda>encName.
     bindS (callS (writeFailed ''init metadata manager'') (NewMetadataManager fileKey)) (\<lambda>mm.
     bindS (drawS (writeFailed ''seal metadata'') (mm_Seal P mm
       \<lparr>pm_EncryptedFilename = encName, pm_SizeBucket = BucketTiny, pm_TimestampHash = replicate 32 0,
        pm_Permissions = a_Mode (in_attrs inp) AND 0x1FF, pm_Codec = CodecNone, pm_Attributes = Some (in_attrs inp)\<rparr>)) (\<lambda>meta.
     bindS (callS (writeFailed ''inter-block padding'') (InterBlockPadding P fb)) (\<lambda>(interPad, fb).
     bindS (callS (writeFailed ''build trailer'') (BuildTrailer P fb (ComputeHMAC P fileKey []) 0)) (\<lambda>(trailer, fb).
     returnS \<lparr>fe_EntryType = EntryTypeFile, fe_EntrySalt = salt, fe_FrameHdr = frameHdr, fe_Metadata = meta,
       fe_InterBlockPad = interPad, fe_DataBlocks = [], fe_Trailer = trailer\<rparr>)))))))))"

end
