(* ===== verification/Volume_Header.thy ===== *)
theory Volume_Header
  imports Format
begin

text \<open>
  Volume headers of split archives (\<^verbatim>\<open>archive/volume.go\<close>).
\<close>

definition VolumeIDSize :: nat where "VolumeIDSize = 16"
definition volumeMagic :: bytes where "volumeMagic = str ''SARCVOL1''"
definition VolumeHeaderSize :: nat where
  "VolumeHeaderSize = length volumeMagic + VolumeIDSize + 4 + 1 + 3 + 8"
definition VolumeChecksumSize :: nat where "VolumeChecksumSize = 32"
definition VolumeOverhead :: nat where "VolumeOverhead = VolumeHeaderSize + VolumeChecksumSize"
definition VolumeFlagLast :: byte where "VolumeFlagLast = 0x01"

lemma length_volumeMagic: "length volumeMagic = 8"
  by (simp add: volumeMagic_def)

lemma VolumeHeaderSize_eq: "VolumeHeaderSize = 40" and VolumeOverhead_eq: "VolumeOverhead = 72"
  by (simp_all add: VolumeHeaderSize_def VolumeOverhead_def VolumeIDSize_def VolumeChecksumSize_def length_volumeMagic)

record VolumeHeader =
  vh_ArchiveID :: bytes
  vh_Index :: u32
  vh_Last :: bool
  vh_PayloadLen :: u64

definition vh_Marshal :: "VolumeHeader \<Rightarrow> bytes" where
  "vh_Marshal h = volumeMagic @ vh_ArchiveID h @ le32 (vh_Index h)
     @ [if vh_Last h then 0 OR VolumeFlagLast else 0, 0, 0, 0] @ le64 (vh_PayloadLen h)"

definition IsVolumeHeader :: "bytes \<Rightarrow> bool" where
  "IsVolumeHeader b \<longleftrightarrow> length volumeMagic \<le> length b \<and> take (length volumeMagic) b = volumeMagic"

definition ParseVolumeHeader :: "bytes \<Rightarrow> VolumeHeader res" where
  "ParseVolumeHeader b =
     (if length b \<noteq> VolumeHeaderSize \<or> \<not> IsVolumeHeader b
      then Err (ErrMalformedVolumeHeader ''bad magic or size'')
      else bindR (cut (length volumeMagic) b) (\<lambda>(_, b).
      let ident = to_array VolumeIDSize b in
      bindR (cut VolumeIDSize b) (\<lambda>(_, b).
      bindR (uint32 b) (\<lambda>idx. bindR (cut 4 b) (\<lambda>(_, b).
      bindR (index b 0) (\<lambda>flags. bindR (index b 1) (\<lambda>r1. bindR (index b 2) (\<lambda>r2. bindR (index b 3) (\<lambda>r3.
      if flags AND NOT VolumeFlagLast \<noteq> 0 \<or> r1 \<noteq> 0 \<or> r2 \<noteq> 0 \<or> r3 \<noteq> 0
      then Err (ErrMalformedVolumeHeader ''unknown flags'')
      else bindR (cut 4 b) (\<lambda>(_, b). bindR (uint64 b) (\<lambda>plen.
      if idx = 0 then Err (ErrMalformedVolumeHeader ''index 0'')
      else Ok \<lparr>vh_ArchiveID = ident, vh_Index = idx, vh_Last = (flags AND VolumeFlagLast \<noteq> 0),
               vh_PayloadLen = plen\<rparr>)))))))))))"

lemma vh_Marshal_length: "length (vh_ArchiveID h) = VolumeIDSize \<Longrightarrow> length (vh_Marshal h) = VolumeHeaderSize"
  by (simp add: vh_Marshal_def VolumeHeaderSize_def)

lemma volume_flags:
  assumes "f AND NOT VolumeFlagLast = 0"
  shows "f = (if f AND VolumeFlagLast \<noteq> 0 then 0 OR VolumeFlagLast else 0)"
proof -
  have "f = f AND VolumeFlagLast"
    by (rule bit_eqI) (use assms in \<open>auto simp: bit_eq_iff bit_simps\<close>)
  moreover have "f AND VolumeFlagLast = 0 \<or> f AND VolumeFlagLast = VolumeFlagLast"
    by (auto simp: VolumeFlagLast_def and_one_eq)
  ultimately show ?thesis by (metis or.left_neutral)
qed

lemma ParseVolumeHeader_Marshal:
  assumes "length (vh_ArchiveID h) = VolumeIDSize" and "vh_Index h \<noteq> 0"
  shows "ParseVolumeHeader (vh_Marshal h) = Ok h"
proof -
  have l: "length (vh_Marshal h) = VolumeHeaderSize" using assms(1) by (rule vh_Marshal_length)
  have m: "IsVolumeHeader (vh_Marshal h)" by (simp add: IsVolumeHeader_def vh_Marshal_def)
  have id: "to_array VolumeIDSize (vh_ArchiveID h @ r) = vh_ArchiveID h" for r
    using assms(1) by (simp add: to_array_def)
  have u: "uint64 (le64 p) = Ok p" for p using uint_le(3) [of p "[]"] by simp
  have c: "cut 4 (a # b # c # d # r) = Ok ([a, b, c, d], r)" for a b c d r by (simp add: cut_def)
  show ?thesis
    using l m assms unfolding ParseVolumeHeader_def
    by (simp add: vh_Marshal_def id index_def u c VolumeFlagLast_def)
qed

lemma ParseVolumeHeader_accepts:
  "ParseVolumeHeader b \<noteq> Panic \<and>
   (ParseVolumeHeader b = Ok h \<longleftrightarrow>
      length (vh_ArchiveID h) = VolumeIDSize \<and> vh_Index h \<noteq> 0 \<and> b = vh_Marshal h)"
proof (intro conjI iffI)
  show "ParseVolumeHeader b \<noteq> Panic"
    by (auto simp: ParseVolumeHeader_def bindR_Panic_conv cut_Panic_conv cut_Ok_conv uint_Panic_conv index_Panic_conv
        VolumeHeaderSize_def VolumeIDSize_def Let_def split: if_splits)
next
  assume "ParseVolumeHeader b = Ok h"
  then obtain i idx x b4 plen
    where b: "b = volumeMagic @ i @ le32 idx @ x @ b4" and i: "length i = VolumeIDSize" and xl: "length x = 4"
      and lb: "length b = VolumeHeaderSize"
      and z: "(x @ b4) ! 0 AND NOT VolumeFlagLast = 0" "(x @ b4) ! 1 = 0" "(x @ b4) ! 2 = 0" "(x @ b4) ! 3 = 0"
      and t: "uint64 b4 = Ok plen" "idx \<noteq> 0"
      and h: "h = \<lparr>vh_ArchiveID = to_array VolumeIDSize (i @ le32 idx @ x @ b4), vh_Index = idx,
        vh_Last = ((x @ b4) ! 0 AND VolumeFlagLast \<noteq> 0), vh_PayloadLen = plen\<rparr>"
    by (auto simp: ParseVolumeHeader_def bindR_Ok_conv cut_Ok_conv uint_Ok_conv(2) IsVolumeHeader_def Let_def
        index_def split: if_splits) blast+
  obtain x0 x1 x2 x3 where x: "x = [x0, x1, x2, x3]"
    using xl by (auto simp: length_Suc_conv numeral_eq_Suc)
  have "length b4 = 8" using lb i xl by (simp add: b VolumeHeaderSize_def)
  then have b4: "b4 = le64 plen" using t(1) by (auto simp: uint_Ok_conv(3))
  have x0: "x0 = (if x0 AND VolumeFlagLast \<noteq> 0 then 0 OR VolumeFlagLast else 0)" and z': "x1 = 0" "x2 = 0" "x3 = 0"
    using z volume_flags [of x0] by (simp_all add: x)
  have "vh_ArchiveID h = i" using i by (simp add: h to_array_def)
  moreover have "b = volumeMagic @ i @ le32 idx @ [x0, 0, 0, 0] @ le64 plen"
    by (simp add: b x z' b4)
  moreover have "vh_Last h = (x0 AND VolumeFlagLast \<noteq> 0)" by (simp add: h x)
  ultimately show "length (vh_ArchiveID h) = VolumeIDSize" "vh_Index h \<noteq> 0" "b = vh_Marshal h"
    using i t(2) x0 by (simp_all add: vh_Marshal_def h)
qed (auto simp: ParseVolumeHeader_Marshal)

text \<open>
  C38: \<^verbatim>\<open>ParseVolumeHeader\<close> never panics and accepts exactly the marshalled headers with a 16-byte
  archive id and a volume number from 1, returning the header that was marshalled.
\<close>

lemma ParseVolumeHeader_exact:
  "ParseVolumeHeader b \<noteq> Panic \<and>
   (ParseVolumeHeader b = Ok h \<longleftrightarrow>
      length (vh_ArchiveID h) = VolumeIDSize \<and> vh_Index h \<noteq> 0 \<and> b = vh_Marshal h)"
  by (rule ParseVolumeHeader_accepts)

end
