(* ===== verification/Volumes.thy ===== *)
theory Volumes
  imports Archiver Volume_Header
begin

text \<open>
  Split archives (\<^verbatim>\<open>io/volume.go\<close>): the writer that cuts the byte stream of an archive into
  volume files, the check of a set of volumes, and the reader that joins them.
\<close>

section \<open>Names of volumes\<close>

definition digit :: "nat \<Rightarrow> byte" where "digit n = word_of_nat (48 + n)"

fun decimal :: "nat \<Rightarrow> bytes" where
  "decimal n = (if n < 10 then [digit n] else decimal (n div 10) @ [digit (n mod 10)])"

declare decimal.simps [simp del]

text \<open>\<^verbatim>\<open>fmt.Sprintf("%s.%03d", base, index)\<close>.\<close>

definition VolumePath :: "bytes \<Rightarrow> nat \<Rightarrow> bytes" where
  "VolumePath base i = base @ [dot] @ replicate (3 - length (decimal i)) (digit 0) @ decimal i"

definition isDigit :: "byte \<Rightarrow> bool" where "isDigit c \<longleftrightarrow> digit 0 \<le> c \<and> c \<le> digit 9"

text \<open>The base name that \<^verbatim>\<open>^(.+)\.(\d{3,})$\<close> matches; a dot in the pattern matches no newline.\<close>

definition volumeName :: "bytes \<Rightarrow> bytes option" where
  "volumeName path =
     (let r = rev path; ds = takeWhile isDigit r; r' = drop (length ds) r in
      if 3 \<le> length ds \<and> r' \<noteq> [] \<and> hd r' = dot \<and> tl r' \<noteq> [] \<and> 10 \<notin> set (tl r') then Some (rev (tl r')) else None)"

section \<open>The writer\<close>

text \<open>
  The volume files are a map from paths to contents.  What the operating system refuses is a
  parameter; a failing write may still have written some bytes.
\<close>

type_synonym files = "bytes \<rightharpoonup> bytes"

record volumeOS =
  vo_Create :: "bytes \<Rightarrow> sarc_error option"
  vo_Write :: "bytes \<Rightarrow> bytes \<Rightarrow> bytes \<Rightarrow> (nat \<times> sarc_error) option"
  vo_WriteAt :: "bytes \<Rightarrow> bytes \<Rightarrow> bytes \<Rightarrow> (nat \<times> sarc_error) option"
  vo_Close :: "bytes \<Rightarrow> sarc_error option"
  vo_Remove :: "bytes \<Rightarrow> sarc_error option"

definition vol_content :: "files \<Rightarrow> bytes \<Rightarrow> bytes" where
  "vol_content files path = (case files path of None \<Rightarrow> [] | Some c \<Rightarrow> c)"

definition file_Write :: "volumeOS \<Rightarrow> bytes \<Rightarrow> bytes \<Rightarrow> files \<Rightarrow> sarc_error option \<times> files" where
  "file_Write D path p files =
     (let c = vol_content files path in
      case vo_Write D path c p of
        None \<Rightarrow> (None, files(path \<mapsto> c @ p))
      | Some (n, e) \<Rightarrow> (Some e, files(path \<mapsto> c @ take n p)))"

definition file_WriteAt :: "volumeOS \<Rightarrow> bytes \<Rightarrow> bytes \<Rightarrow> files \<Rightarrow> sarc_error option \<times> files" where
  "file_WriteAt D path p files =
     (let c = vol_content files path; (err, p) = (case vo_WriteAt D path c p of None \<Rightarrow> (None, p) | Some (n, e) \<Rightarrow> (Some e, take n p)) in
      (err, files(path \<mapsto> p @ drop (length p) c)))"

definition MinVolumeSize :: nat where "MinVolumeSize = 65536"

record VolumeWriter =
  vw_base :: bytes
  vw_capacity :: nat
  vw_id :: bytes
  vw_index :: nat
  vw_f :: "bytes option"
  vw_written :: nat
  vw_sum :: bytes
  vw_paths :: "bytes list"
  vw_err :: "ArchiveError option"
  vw_closed :: bool

definition CreateVolumes :: "bytes \<Rightarrow> int \<Rightarrow> (bytes, VolumeWriter) op" where
  "CreateVolumes base volumeSize rnd =
     (if volumeSize < int MinVolumeSize then (Fail (fatal ErrCodeInvalidOption ''volume size'' None), rnd)
      else case ReadFull VolumeIDSize rnd of
        Ok (ident, rnd) \<Rightarrow> (Val \<lparr>vw_base = base, vw_capacity = nat (volumeSize - int VolumeOverhead), vw_id = ident, vw_index = 0,
          vw_f = None, vw_written = 0, vw_sum = [], vw_paths = [], vw_err = None, vw_closed = False\<rparr>, rnd)
      | Err e \<Rightarrow> (Fail (fatal ErrCodeWriteFailed ''generate archive id'' (Some e)), rnd)
      | Panic \<Rightarrow> (Crash, rnd))"

type_synonym volumes = "VolumeWriter \<times> files"

definition openVolume :: "volumeOS \<Rightarrow> volumes \<Rightarrow> ArchiveError option \<times> volumes" where
  "openVolume D = (\<lambda>(v, files).
     let v = v\<lparr>vw_index := Suc (vw_index v)\<rparr>; path = VolumePath (vw_base v) (vw_index v) in
     case vo_Create D path of
       Some e \<Rightarrow> (Some (writeFailed ''create volume'' e), (v, files))
     | None \<Rightarrow>
         let header = vh_Marshal \<lparr>vh_ArchiveID = vw_id v, vh_Index = word_of_nat (vw_index v), vh_Last = False,
               vh_PayloadLen = word_of_nat (vw_capacity v)\<rparr> in
         case file_Write D path header (files(path \<mapsto> [])) of
           (Some e, files) \<Rightarrow> (Some (writeFailed ''write volume header'' e), (v, files))
         | (None, files) \<Rightarrow> (None, (v\<lparr>vw_f := Some path, vw_written := 0, vw_sum := [], vw_paths := vw_paths v @ [path]\<rparr>, files)))"

text \<open>Called only with an open volume: without one, the nil file would be dereferenced.\<close>

definition vw_finishVolume :: "prims \<Rightarrow> volumeOS \<Rightarrow> bool \<Rightarrow> volumes \<Rightarrow> ArchiveError option \<times> volumes" where
  "vw_finishVolume P D final = (\<lambda>(v, files).
     let path = the (vw_f v); v = v\<lparr>vw_f := None\<rparr>;
         header = vh_Marshal \<lparr>vh_ArchiveID = vw_id v, vh_Index = word_of_nat (vw_index v), vh_Last = final,
           vh_PayloadLen = word_of_nat (vw_written v)\<rparr> in
     case file_WriteAt D path header files of
       (Some e, files) \<Rightarrow> (Some (writeFailed ''write volume header'' e), (v, files))
     | (None, files) \<Rightarrow>
         let v = v\<lparr>vw_sum := vw_sum v @ header\<rparr> in
         case file_Write D path (sha256 P (vw_sum v)) files of
           (Some e, files) \<Rightarrow> (Some (writeFailed ''write volume checksum'' e), (v, files))
         | (None, files) \<Rightarrow>
             (case vo_Close D path of
                Some e \<Rightarrow> (Some (writeFailed ''close volume'' e), (v, files))
              | None \<Rightarrow> (None, (v, files))))"

definition keepErr :: "ArchiveError option \<times> volumes \<Rightarrow> volumes" where
  "keepErr = (\<lambda>(err, v, files). (v\<lparr>vw_err := err\<rparr>, files))"

text \<open>The loop of \<^verbatim>\<open>Write\<close>; with a capacity of 0 it would run forever.\<close>

partial_function (option) vw_Write_from ::
  "prims \<Rightarrow> volumeOS \<Rightarrow> nat \<Rightarrow> bytes \<Rightarrow> volumes \<Rightarrow> ((nat \<times> ArchiveError option) \<times> volumes) option" where
  "vw_Write_from P D n p s =
     (if p = [] then Some ((n, None), s)
      else if vw_err (fst s) \<noteq> None then Some ((n, vw_err (fst s)), s)
      else if vw_f (fst s) = None then vw_Write_from P D n p (keepErr (openVolume D s))
      else if vw_written (fst s) = vw_capacity (fst s) then vw_Write_from P D n p (keepErr (vw_finishVolume P D False s))
      else
        let m = min (length p) (vw_capacity (fst s) - vw_written (fst s)) in
        case file_Write D (the (vw_f (fst s))) (take m p) (snd s) of
          (Some e, files) \<Rightarrow>
            let err = Some (writeFailed ''write volume'' e) in Some ((n, err), ((fst s)\<lparr>vw_err := err\<rparr>, files))
        | (None, files) \<Rightarrow>
            vw_Write_from P D (n + m) (drop m p)
              ((fst s)\<lparr>vw_sum := vw_sum (fst s) @ take m p, vw_written := vw_written (fst s) + m\<rparr>, files))"

declare vw_Write_from.simps [code]

definition vw_Write :: "prims \<Rightarrow> volumeOS \<Rightarrow> bytes \<Rightarrow> volumes \<Rightarrow> ((nat \<times> ArchiveError option) \<times> volumes) option" where
  "vw_Write P D = vw_Write_from P D 0"

definition startsWithVolumeHeader :: "os \<Rightarrow> bytes \<Rightarrow> bool" where
  "startsWithVolumeHeader fs path =
     (case os_Open fs path of
        Inl e \<Rightarrow> False
      | Inr f \<Rightarrow> (case sReadFull VolumeHeaderSize (of_r f) of (head, err, _) \<Rightarrow> err = None \<and> IsVolumeHeader head))"

text \<open>The file system that reads see.\<close>

definition ErrNotExist :: sarc_error where "ErrNotExist = Errorf ''file does not exist''"

definition files_os :: "files \<Rightarrow> os" where
  "files_os files =
     (let info = (\<lambda>c. \<lparr>fi_Size = length c, fi_ModTime = 0, fi_Perm = 0, fi_Regular = True\<rparr>) in
      \<lparr>os_Stat = (\<lambda>p. case files p of None \<Rightarrow> Inl ErrNotExist | Some c \<Rightarrow> Inr (info c)),
       os_Open = (\<lambda>p. case files p of None \<Rightarrow> Inl ErrNotExist
         | Some c \<Rightarrow> Inr \<lparr>of_info = Inr (info c), of_r = Stream c EOF, of_ReadAt = (\<lambda>n. (take n c, if n \<le> length c then None else Some EOF)),
             of_mapped = None\<rparr>)\<rparr>)"

partial_function (option) removeStaleVolumes ::
  "volumeOS \<Rightarrow> bytes \<Rightarrow> nat \<Rightarrow> files \<Rightarrow> (ArchiveError option \<times> files) option" where
  "removeStaleVolumes D base i files =
     (let path = VolumePath base i in
      if \<not> startsWithVolumeHeader (files_os files) path then Some (None, files)
      else case vo_Remove D path of
        Some e \<Rightarrow> Some (Some (writeFailed ''remove stale volume'' e), files)
      | None \<Rightarrow> removeStaleVolumes D base (Suc i) (files(path := None)))"

declare removeStaleVolumes.simps [code]

definition vw_Close :: "prims \<Rightarrow> volumeOS \<Rightarrow> volumes \<Rightarrow> (ArchiveError option \<times> volumes) option" where
  "vw_Close P D s =
     (if vw_closed (fst s) then Some (vw_err (fst s), s)
      else
        let s = ((fst s)\<lparr>vw_closed := True\<rparr>, snd s) in
        if vw_err (fst s) \<noteq> None then Some (vw_err (fst s), s)
        else
          let s = (if vw_f (fst s) = None then keepErr (openVolume D s) else s) in
          if vw_err (fst s) \<noteq> None then Some (vw_err (fst s), s)
          else
            let s = keepErr (vw_finishVolume P D True s) in
            if vw_err (fst s) \<noteq> None then Some (vw_err (fst s), s)
            else map_option (\<lambda>(err, files). (err, ((fst s)\<lparr>vw_err := err\<rparr>, files)))
              (removeStaleVolumes D (vw_base (fst s)) (Suc (vw_index (fst s))) (snd s)))"

section \<open>Finding and checking volumes\<close>

fun is_NotExist :: "sarc_error \<Rightarrow> bool" where
  "is_NotExist (Wrap _ e) = is_NotExist e"
| "is_NotExist e \<longleftrightarrow> e = ErrNotExist"

definition FindVolumes :: "os \<Rightarrow> bytes \<Rightarrow> bytes option" where
  "FindVolumes fs path =
     (case (if startsWithVolumeHeader fs path then volumeName path else None) of
        Some base \<Rightarrow> Some base
      | None \<Rightarrow>
          if (case os_Stat fs path of Inl e \<Rightarrow> is_NotExist e | Inr _ \<Rightarrow> False) \<and> startsWithVolumeHeader fs (VolumePath path 1)
          then Some path else None)"

datatype VolumeError = VolumeError (ve_Index: nat) (ve_Path: bytes) (ve_Problem: string)

definition readVolumeHeader :: "os \<Rightarrow> bytes \<Rightarrow> string + VolumeHeader \<times> nat" where
  "readVolumeHeader fs path =
     (case os_Open fs path of
        Inl e \<Rightarrow> Inl (if is_NotExist e then ''missing'' else ''cannot open'')
      | Inr f \<Rightarrow> (case of_info f of
          Inl e \<Rightarrow> Inl ''cannot stat''
        | Inr info \<Rightarrow> (case sReadFull VolumeHeaderSize (of_r f) of (header, err, _) \<Rightarrow>
            if err \<noteq> None then Inl ''truncated volume header''
            else case ParseVolumeHeader header of
              Ok h \<Rightarrow> Inr (h, fi_Size info)
            | _ \<Rightarrow> Inl ''not a sarc volume'')))"

definition checkVolumeHeader :: "VolumeHeader \<Rightarrow> bytes \<Rightarrow> nat \<Rightarrow> string option" where
  "checkVolumeHeader h ident i =
     (if vh_ArchiveID h \<noteq> ident then Some ''belongs to a different archive''
      else if vh_Index h \<noteq> word_of_nat i then Some ''out of order'' else None)"

text \<open>Sizes are compared as 64-bit integers.\<close>

partial_function (option) checkVolumeSet_from :: "os \<Rightarrow> bytes \<Rightarrow> bytes \<Rightarrow> nat \<Rightarrow> VolumeError option option" where
  "checkVolumeSet_from fs base ident i =
     (let path = VolumePath base i in
      case readVolumeHeader fs path of
        Inl problem \<Rightarrow> Some (Some (VolumeError i path problem))
      | Inr (h, len) \<Rightarrow>
          let ident = (if i = 1 then vh_ArchiveID h else ident) in
          case checkVolumeHeader h ident i of
            Some problem \<Rightarrow> Some (Some (VolumeError i path problem))
          | None \<Rightarrow>
              if word_of_nat len \<noteq> word_of_nat VolumeOverhead + vh_PayloadLen h
              then Some (Some (VolumeError i path ''truncated or padded''))
              else if vh_Last h then Some None
              else checkVolumeSet_from fs base ident (Suc i))"

declare checkVolumeSet_from.simps [code]

definition checkVolumeSet :: "os \<Rightarrow> bytes \<Rightarrow> VolumeError option option" where
  "checkVolumeSet fs base = checkVolumeSet_from fs base (replicate VolumeIDSize 0) 1"

section \<open>The reader\<close>

text \<open>
  Volumes come from files, each read on its own, or back to back in one stream, whose rest is
  kept between volumes.
\<close>

datatype volumeSource = VolumeFiles bytes | VolumeStream stream

record VolumeReader =
  vr_next :: volumeSource
  vr_index :: nat
  vr_id :: bytes
  vr_cur :: "stream option"
  vr_path :: bytes
  vr_header :: bytes
  vr_sum :: bytes
  vr_remaining :: u64
  vr_last :: bool
  vr_done :: bool
  vr_err :: "VolumeError option"

definition newVolumeReader :: "volumeSource \<Rightarrow> VolumeReader" where
  "newVolumeReader source = \<lparr>vr_next = source, vr_index = 0, vr_id = replicate VolumeIDSize 0, vr_cur = None, vr_path = [],
     vr_header = [], vr_sum = [], vr_remaining = 0, vr_last = False, vr_done = False, vr_err = None\<rparr>"

definition OpenVolumes :: "os \<Rightarrow> bytes \<Rightarrow> (VolumeError + VolumeReader) option" where
  "OpenVolumes fs base =
     map_option (\<lambda>err. case err of Some e \<Rightarrow> Inl e | None \<Rightarrow> Inr (newVolumeReader (VolumeFiles base))) (checkVolumeSet fs base)"

definition NewVolumeStreamReader :: "stream \<Rightarrow> VolumeReader" where
  "NewVolumeStreamReader r = newVolumeReader (VolumeStream r)"

definition vr_Volumes :: "VolumeReader \<Rightarrow> nat" where
  "vr_Volumes vr = (if vr_done vr then vr_index vr else vr_index vr - 1)"

definition vr_fail :: "string \<Rightarrow> VolumeReader \<Rightarrow> VolumeError option \<times> VolumeReader" where
  "vr_fail problem vr = (Some (VolumeError (vr_index vr) (vr_path vr) problem), vr)"

definition openNext :: "os \<Rightarrow> VolumeReader \<Rightarrow> VolumeError option \<times> VolumeReader" where
  "openNext fs vr =
     (let vr = vr\<lparr>vr_index := Suc (vr_index vr)\<rparr>;
          (r, path) = (case vr_next vr of
             VolumeFiles base \<Rightarrow>
               (let path = VolumePath base (vr_index vr) in
                (case os_Open fs path of Inl e \<Rightarrow> None | Inr f \<Rightarrow> Some (of_r f), path))
           | VolumeStream r \<Rightarrow> (Some r, []));
          vr = vr\<lparr>vr_path := path\<rparr> in
      case r of
        None \<Rightarrow> vr_fail ''missing'' vr
      | Some r \<Rightarrow> (case sReadFull VolumeHeaderSize r of (header, err, r) \<Rightarrow>
          let vr = vr\<lparr>vr_cur := Some r\<rparr> in
          if err \<noteq> None then vr_fail ''missing or truncated volume header'' vr
          else case ParseVolumeHeader header of
            Ok h \<Rightarrow>
              (let vr = (if vr_index vr = 1 then vr\<lparr>vr_id := vh_ArchiveID h\<rparr> else vr) in
               case checkVolumeHeader h (vr_id vr) (vr_index vr) of
                 Some problem \<Rightarrow> vr_fail problem vr
               | None \<Rightarrow> (None, vr\<lparr>vr_header := header, vr_remaining := vh_PayloadLen h, vr_last := vh_Last h, vr_sum := []\<rparr>))
          | _ \<Rightarrow> vr_fail ''not a sarc volume'' vr))"

text \<open>\<^verbatim>\<open>Close\<close>: a volume file is closed; the rest of a single stream stays where the next volume starts.\<close>

definition vr_release :: "stream \<Rightarrow> VolumeReader \<Rightarrow> VolumeReader" where
  "vr_release r vr =
     (case vr_next vr of
        VolumeFiles base \<Rightarrow> vr\<lparr>vr_cur := None\<rparr>
      | VolumeStream _ \<Rightarrow> vr\<lparr>vr_cur := None, vr_next := VolumeStream r\<rparr>)"

definition vr_finishVolume :: "prims \<Rightarrow> volumeOS \<Rightarrow> stream \<Rightarrow> VolumeReader \<Rightarrow> VolumeError option \<times> VolumeReader" where
  "vr_finishVolume P D r vr =
     (case sReadFull VolumeChecksumSize r of (stored, err, r) \<Rightarrow>
        let vr = vr\<lparr>vr_cur := Some r\<rparr> in
        if err \<noteq> None then vr_fail ''truncated: the volume checksum is missing'' vr
        else
          let vr = vr\<lparr>vr_sum := vr_sum vr @ vr_header vr\<rparr> in
          if sha256 P (vr_sum vr) \<noteq> stored then vr_fail ''corrupted: checksum mismatch'' vr
          else if vr_path vr \<noteq> [] \<and> vo_Close D (vr_path vr) \<noteq> None then vr_fail ''close failed'' (vr\<lparr>vr_cur := None\<rparr>)
          else (None, (vr_release r vr)\<lparr>vr_done := vr_last vr\<rparr>))"

definition vr_keepErr :: "VolumeError option \<times> VolumeReader \<Rightarrow> VolumeReader" where
  "vr_keepErr = (\<lambda>(err, vr). vr\<lparr>vr_err := err\<rparr>)"

text \<open>
  One \<^verbatim>\<open>Read\<close> into a buffer of \<open>len\<close> bytes.  How many bytes the read of the volume itself delivers,
  at least one when there are any and the buffer is not empty, is the parameter \<open>short\<close>.  The result is what was read, or an error,
  where \<open>None\<close> stands for \<^verbatim>\<open>io.EOF\<close>.
\<close>

partial_function (option) vr_Read ::
  "prims \<Rightarrow> volumeOS \<Rightarrow> os \<Rightarrow> (VolumeReader \<Rightarrow> nat) \<Rightarrow> nat \<Rightarrow> VolumeReader
   \<Rightarrow> ((VolumeError option + bytes) \<times> VolumeReader) option" where
  "vr_Read P D fs short len vr =
     (if vr_err vr \<noteq> None then Some (Inl (vr_err vr), vr)
      else if vr_done vr then Some (Inl None, vr)
      else case vr_cur vr of
        None \<Rightarrow> vr_Read P D fs short len (vr_keepErr (openNext fs vr))
      | Some r \<Rightarrow>
          if vr_remaining vr = 0 then vr_Read P D fs short len (vr_keepErr (vr_finishVolume P D r vr))
          else
            let want = min len (unat (vr_remaining vr)); n = min (min want (max 1 (short vr))) (length (s_bytes r));
                vr' = vr\<lparr>vr_cur := Some (Stream (drop n (s_bytes r)) (s_end r)), vr_sum := vr_sum vr @ take n (s_bytes r),
                  vr_remaining := vr_remaining vr - word_of_nat n\<rparr> in
            if 0 < n then Some (Inr (take n (s_bytes r)), vr')
            else if want = 0 then vr_Read P D fs short len vr
            else vr_Read P D fs short len
              (vr_keepErr (vr_fail (if is_EOF (s_end r) then ''truncated: the volume ends before its declared length'' else ''read failed'') vr)))"

declare vr_Read.simps [code]

text \<open>Reading to the end: what was delivered, and the error, \<open>None\<close> for \<^verbatim>\<open>io.EOF\<close>.\<close>

partial_function (option) vr_ReadAll ::
  "prims \<Rightarrow> volumeOS \<Rightarrow> os \<Rightarrow> (VolumeReader \<Rightarrow> nat) \<Rightarrow> nat \<Rightarrow> bytes \<Rightarrow> VolumeReader
   \<Rightarrow> ((bytes \<times> VolumeError option) \<times> VolumeReader) option" where
  "vr_ReadAll P D fs short len out vr =
     (case vr_Read P D fs short len vr of
        None \<Rightarrow> None
      | Some (Inl err, vr) \<Rightarrow> Some ((out, err), vr)
      | Some (Inr b, vr) \<Rightarrow> vr_ReadAll P D fs short len (out @ b) vr)"

declare vr_ReadAll.simps [code]

section \<open>Distinct names\<close>

definition number :: "bytes \<Rightarrow> nat" where
  "number ds = foldl (\<lambda>n c. 10 * n + (unat c - 48)) 0 ds"

lemma unat_digit: "n < 10 \<Longrightarrow> unat (digit n) = 48 + n"
  unfolding digit_def by (subst unat_of_nat) simp

lemma number_decimal: "number (decimal n) = n"
proof (induction n rule: decimal.induct)
  case (1 n)
  show ?case
  proof (cases "n < 10")
    case True
    then show ?thesis by (simp add: decimal.simps [of n] number_def unat_digit)
  next
    case False
    with 1 have "foldl (\<lambda>n c. 10 * n + (unat c - 48)) 0 (decimal (n div 10)) = n div 10" by (simp add: number_def)
    with False show ?thesis by (simp add: decimal.simps [of n] number_def unat_digit)
  qed
qed

lemma number_padded: "number (replicate k (digit 0) @ ds) = number ds"
  by (induction k) (simp_all add: number_def unat_digit)

lemma VolumePath_inject [simp]: "VolumePath base i = VolumePath base j \<longleftrightarrow> i = j"
proof
  assume "VolumePath base i = VolumePath base j"
  then have "replicate (3 - length (decimal i)) (digit 0) @ decimal i = replicate (3 - length (decimal j)) (digit 0) @ decimal j"
    by (simp add: VolumePath_def)
  then have "number (decimal i) = number (decimal j)" by (metis number_padded)
  then show "i = j" by (simp add: number_decimal)
qed simp

lemma isDigit_digit: "n < 10 \<Longrightarrow> isDigit (digit n)"
  by (simp add: isDigit_def word_le_nat_alt unat_digit)

lemma decimal_digits: "list_all isDigit (decimal n)"
  by (induction n rule: decimal.induct) (subst decimal.simps, simp add: isDigit_digit)

lemma volumeName_VolumePath:
  assumes "base \<noteq> []" and "10 \<notin> set base"
  shows "volumeName (VolumePath base i) = Some base"
proof -
  define ds where "ds = replicate (3 - length (decimal i)) (digit 0) @ decimal i"
  have d: "list_all isDigit ds" "3 \<le> length ds"
    using decimal_digits [of i] by (auto simp: ds_def list_all_iff isDigit_digit)
  have nd: "\<not> isDigit dot" by (simp add: isDigit_def word_le_nat_alt unat_digit dot_def)
  have r: "rev (VolumePath base i) = rev ds @ dot # rev base" by (simp add: VolumePath_def ds_def)
  have t: "takeWhile isDigit (rev ds @ dot # rev base) = rev ds"
    using d(1) nd by (subst takeWhile_append2) (auto simp: list_all_iff)
  show ?thesis unfolding volumeName_def Let_def r t using d assms by simp
qed

section \<open>What the writer leaves\<close>

definition volume :: "prims \<Rightarrow> bytes \<Rightarrow> nat \<Rightarrow> bool \<Rightarrow> bytes \<Rightarrow> bytes" where
  "volume P ident i final x =
     (let h = vh_Marshal \<lparr>vh_ArchiveID = ident, vh_Index = word_of_nat i, vh_Last = final, vh_PayloadLen = word_of_nat (length x)\<rparr> in
      h @ x @ sha256 P (x @ h))"

text \<open>\<open>splits\<close>: the full volumes \<open>xs\<close> are finished, \<open>cur\<close> is in the open one.\<close>

definition splits :: "prims \<Rightarrow> volumes \<Rightarrow> bytes list \<Rightarrow> bytes \<Rightarrow> bool" where
  "splits P = (\<lambda>(v, files) xs cur. finite (dom files) \<and> 0 < vw_capacity v \<and> length (vw_id v) = VolumeIDSize \<and> (\<forall>x \<in> set xs. length x = vw_capacity v)
     \<and> (\<forall>i < length xs. files (VolumePath (vw_base v) (Suc i)) = Some (volume P (vw_id v) (Suc i) False (xs ! i)))
     \<and> (case vw_f v of
          None \<Rightarrow> cur = [] \<and> vw_index v = length xs
        | Some path \<Rightarrow> vw_index v = Suc (length xs) \<and> path = VolumePath (vw_base v) (vw_index v)
            \<and> (\<exists>h. length h = VolumeHeaderSize \<and> files path = Some (h @ cur))
            \<and> vw_written v = length cur \<and> length cur \<le> vw_capacity v \<and> vw_sum v = cur))"

definition same_set :: "VolumeWriter \<Rightarrow> VolumeWriter \<Rightarrow> bool" where
  "same_set v v' \<longleftrightarrow> vw_base v' = vw_base v \<and> vw_id v' = vw_id v \<and> vw_capacity v' = vw_capacity v \<and> vw_closed v' = vw_closed v"

lemma same_set_refl [simp]: "same_set v v"
  by (simp add: same_set_def)

lemma file_Write_None: "file_Write D path p files = (None, files') \<Longrightarrow> files' = files(path \<mapsto> vol_content files path @ p)"
  by (auto simp: file_Write_def Let_def split: option.splits)

lemma file_WriteAt_None:
  "file_WriteAt D path p files = (None, files') \<Longrightarrow> files' = files(path \<mapsto> p @ drop (length p) (vol_content files path))"
  by (auto simp: file_WriteAt_def Let_def split: option.splits)

lemma openVolume_splits:
  assumes "splits P (v, files) xs []" and "vw_f v = None" and "openVolume D (v, files) = (None, (v', files'))"
  shows "splits P (v', files') xs [] \<and> vw_f v' \<noteq> None \<and> vw_written v' = 0 \<and> same_set v v' \<and> vw_index v' = Suc (vw_index v)"
proof -
  let ?path = "VolumePath (vw_base v) (Suc (length xs))"
  let ?h = "vh_Marshal \<lparr>vh_ArchiveID = vw_id v, vh_Index = word_of_nat (Suc (length xs)), vh_Last = False,
    vh_PayloadLen = word_of_nat (vw_capacity v)\<rparr>"
  have i: "vw_index v = length xs" "length (vw_id v) = VolumeIDSize" using assms(1,2) by (simp_all add: splits_def)
  have files': "files' = files(?path \<mapsto> ?h)"
    and v': "v' = v\<lparr>vw_index := Suc (length xs), vw_f := Some ?path, vw_written := 0, vw_sum := [], vw_paths := vw_paths v @ [?path]\<rparr>"
    using assms(3) i(1)
    by (auto simp: openVolume_def Let_def vol_content_def dest!: file_Write_None split: option.splits prod.splits)
  have "length ?h = VolumeHeaderSize" by (rule vh_Marshal_length) (simp add: i(2))
  with assms(1,2) i show ?thesis by (simp add: splits_def files' v' same_set_def)
qed

lemma finishVolume_splits:
  assumes s: "splits P (v, files) xs cur" and f: "vw_f v \<noteq> None" and run: "vw_finishVolume P D final (v, files) = (None, (v', files'))"
  shows "vw_f v' = None \<and> same_set v v' \<and> vw_index v' = vw_index v \<and> vw_index v = Suc (length xs)
    \<and> files' = files(VolumePath (vw_base v) (Suc (length xs)) \<mapsto> volume P (vw_id v) (Suc (length xs)) final cur)"
proof -
  let ?path = "VolumePath (vw_base v) (Suc (length xs))"
  let ?h = "vh_Marshal \<lparr>vh_ArchiveID = vw_id v, vh_Index = word_of_nat (Suc (length xs)), vh_Last = final,
    vh_PayloadLen = word_of_nat (length cur)\<rparr>"
  obtain h where i: "vw_index v = Suc (length xs)" "vw_f v = Some ?path" "files ?path = Some (h @ cur)" "length h = VolumeHeaderSize"
      "vw_written v = length cur" "vw_sum v = cur" "length (vw_id v) = VolumeIDSize"
    using s f by (auto simp: splits_def)
  have hl: "length ?h = VolumeHeaderSize" by (rule vh_Marshal_length) (simp add: i(7))
  have "v' = v\<lparr>vw_f := None, vw_sum := cur @ ?h\<rparr> \<and> files' = files(?path \<mapsto> ?h @ cur @ sha256 P (cur @ ?h))"
    using run i hl
    by (auto simp: vw_finishVolume_def Let_def vol_content_def dest!: file_Write_None file_WriteAt_None split: option.splits prod.splits)
  then show ?thesis using i by (simp add: same_set_def volume_def Let_def)
qed

lemma finish_full:
  assumes "splits P (v, files) xs cur" and "vw_f v \<noteq> None" and "length cur = vw_capacity v"
    and "vw_finishVolume P D False (v, files) = (None, (v', files'))"
  shows "splits P (v', files') (xs @ [cur]) []"
  using finishVolume_splits [OF assms(1,2,4)] assms(1,3) by (auto simp: splits_def same_set_def nth_append less_Suc_eq)

text \<open>A write returns; without an error it took all bytes.\<close>

definition wrote :: "prims \<Rightarrow> volumes \<Rightarrow> bytes \<Rightarrow> nat \<Rightarrow> bytes \<Rightarrow> ((nat \<times> ArchiveError option) \<times> volumes) option \<Rightarrow> bool" where
  "wrote P s data n p r \<longleftrightarrow> (\<exists>n' e s'. r = Some ((n', e), s') \<and> (e = None \<longrightarrow> n' = n + length p \<and> vw_err (fst s') = None
     \<and> same_set (fst s) (fst s') \<and> (\<exists>xs cur. splits P s' xs cur \<and> concat xs @ cur = data @ p)))"

lemma keepErr_simps [simp]: "keepErr (e, v, files) = (v\<lparr>vw_err := e\<rparr>, files)"
  by (simp add: keepErr_def)

lemma splits_err [simp]: "splits P (v\<lparr>vw_err := e\<rparr>, files) xs cur = splits P (v, files) xs cur"
    "splits P (v\<lparr>vw_closed := b\<rparr>, files) xs cur = splits P (v, files) xs cur"
  by (simp_all add: splits_def split: option.split)

lemma same_set_trans: "same_set v v' \<Longrightarrow> same_set v' v'' \<Longrightarrow> same_set v v''"
  by (simp add: same_set_def)

lemma same_set_err [simp]: "same_set v (v'\<lparr>vw_err := e\<rparr>) = same_set v v'"
  by (simp add: same_set_def)

lemma wrote_trans: "wrote P s' data n p r \<Longrightarrow> same_set (fst s) (fst s') \<Longrightarrow> wrote P s data n p r"
  unfolding wrote_def using same_set_trans by blast

lemma stopped: "p \<noteq> [] \<Longrightarrow> vw_err (fst s') \<noteq> None \<Longrightarrow> wrote P s data n p (vw_Write_from P D n p s')"
  by (auto simp: wrote_def vw_Write_from.simps [of P D n p s'])

definition phase :: "VolumeWriter \<Rightarrow> nat" where
  "phase v = (if vw_f v = None then 1 else if vw_written v = vw_capacity v then 2 else 0)"

lemma vw_Write_from_splits:
  "splits P (v, files) xs cur \<Longrightarrow> vw_err v = None \<Longrightarrow> wrote P (v, files) (concat xs @ cur) n p (vw_Write_from P D n p (v, files))"
proof (induction "3 * length p + phase v" arbitrary: v files xs cur n p rule: less_induct)
  case less
  note s = less.prems(1) and e = less.prems(2)
  consider (empty) "p = []" | (fresh) "p \<noteq> []" "vw_f v = None" | (full) "p \<noteq> []" "vw_f v \<noteq> None" "vw_written v = vw_capacity v"
    | (data) "p \<noteq> []" "vw_f v \<noteq> None" "vw_written v \<noteq> vw_capacity v" by blast
  then show ?case
  proof cases
    case empty
    with s e show ?thesis by (auto simp: wrote_def vw_Write_from.simps)
  next
    case fresh
    obtain err v1 files1 where o: "openVolume D (v, files) = (err, (v1, files1))" by (metis surj_pair)
    have eq: "vw_Write_from P D n p (v, files) = vw_Write_from P D n p (v1\<lparr>vw_err := err\<rparr>, files1)"
      using fresh e by (simp add: vw_Write_from.simps [of P D n p "(v, files)"] o)
    show ?thesis
    proof (cases err)
      case None
      have c: "cur = []" using s fresh by (simp add: splits_def)
      note o' = openVolume_splits [OF s [unfolded c] fresh(2) o [unfolded None]]
      then have v1: "splits P (v1\<lparr>vw_err := None\<rparr>, files1) xs []" "phase (v1\<lparr>vw_err := None\<rparr>) = 0"
        by (auto simp: phase_def splits_def same_set_def)
      have lt: "3 * length p + phase (v1\<lparr>vw_err := None\<rparr>) < 3 * length p + phase v" using v1(2) fresh by (simp add: phase_def)
      have "wrote P (v1\<lparr>vw_err := None\<rparr>, files1) (concat xs @ []) n p (vw_Write_from P D n p (v1\<lparr>vw_err := None\<rparr>, files1))"
        by (rule less.hyps [OF lt v1(1)]) simp
      with eq None c o' show ?thesis using wrote_trans [of P "(v1\<lparr>vw_err := None\<rparr>, files1)"] by simp
    qed (use eq fresh in \<open>simp add: stopped\<close>)
  next
    case full
    obtain err v1 files1 where o: "vw_finishVolume P D False (v, files) = (err, (v1, files1))" by (metis surj_pair)
    have eq: "vw_Write_from P D n p (v, files) = vw_Write_from P D n p (v1\<lparr>vw_err := err\<rparr>, files1)"
      using full e by (auto simp: vw_Write_from.simps [of P D n p "(v, files)"] o)
    show ?thesis
    proof (cases err)
      case None
      have c: "length cur = vw_capacity v" using s full by (auto simp: splits_def)
      note f = finishVolume_splits [OF s full(2) o [unfolded None]]
      have v1: "splits P (v1\<lparr>vw_err := None\<rparr>, files1) (xs @ [cur]) []" using finish_full [OF s full(2) c o [unfolded None]] by simp
      have lt: "3 * length p + phase (v1\<lparr>vw_err := None\<rparr>) < 3 * length p + phase v" using f full by (simp add: phase_def)
      have "wrote P (v1\<lparr>vw_err := None\<rparr>, files1) (concat (xs @ [cur]) @ []) n p (vw_Write_from P D n p (v1\<lparr>vw_err := None\<rparr>, files1))"
        by (rule less.hyps [OF lt v1]) simp
      with eq None f show ?thesis using wrote_trans [of P "(v1\<lparr>vw_err := None\<rparr>, files1)"] by simp
    qed (use eq full in \<open>simp add: stopped\<close>)
  next
    case data
    let ?m = "min (length p) (vw_capacity v - vw_written v)"
    let ?path = "VolumePath (vw_base v) (Suc (length xs))"
    obtain h where f: "vw_f v = Some ?path" "length h = VolumeHeaderSize" "files ?path = Some (h @ cur)"
        "vw_written v = length cur" "length cur \<le> vw_capacity v" "vw_sum v = cur" "vw_index v = Suc (length xs)"
      using s data by (auto simp: splits_def)
    obtain err files1 where w: "file_Write D ?path (take ?m p) files = (err, files1)" by (metis surj_pair)
    let ?v = "v\<lparr>vw_sum := cur @ take ?m p, vw_written := length cur + ?m\<rparr>"
    show ?thesis
    proof (cases err)
      case None
      have files1: "files1 = files(?path \<mapsto> h @ cur @ take ?m p)"
        using file_Write_None [OF w [unfolded None]] f(3) by (simp add: vol_content_def)
      have v1: "splits P (?v, files1) xs (cur @ take ?m p)"
        using s f by (simp add: splits_def files1)
      have m: "0 < ?m" using data f(4,5) by simp
      have "phase v = 0" "phase ?v \<le> 2" using data by (auto simp: phase_def)
      moreover have "length (drop ?m p) < length p" using m by simp
      ultimately have lt: "3 * length (drop ?m p) + phase ?v < 3 * length p + phase v" by linarith
      have "wrote P (?v, files1) (concat xs @ cur @ take ?m p) (n + ?m) (drop ?m p) (vw_Write_from P D (n + ?m) (drop ?m p) (?v, files1))"
        by (rule less.hyps [OF lt v1]) (use e in simp)
      moreover have "vw_Write_from P D n p (v, files) = vw_Write_from P D (n + ?m) (drop ?m p) (?v, files1)"
        using data e f w None by (simp add: vw_Write_from.simps [of P D n p "(v, files)"] Let_def)
      ultimately show ?thesis by (auto simp: wrote_def same_set_def)
    qed (use data e f w in \<open>simp add: wrote_def vw_Write_from.simps [of P D n p "(v, files)"] Let_def\<close>)
  qed
qed

text \<open>Several writes, as an archiver makes them; closing.\<close>

fun vw_Writes :: "prims \<Rightarrow> volumeOS \<Rightarrow> bytes list \<Rightarrow> volumes \<Rightarrow> (ArchiveError option \<times> volumes) option" where
  "vw_Writes P D [] s = Some (None, s)"
| "vw_Writes P D (p # ps) s =
     (case vw_Write P D p s of
        None \<Rightarrow> None
      | Some ((n, Some e), s) \<Rightarrow> Some (Some e, s)
      | Some ((n, None), s) \<Rightarrow> vw_Writes P D ps s)"

lemma vw_Writes_splits:
  "splits P s xs cur \<Longrightarrow> vw_err (fst s) = None \<Longrightarrow> \<exists>e s'. vw_Writes P D ps s = Some (e, s') \<and> (e = None \<longrightarrow> vw_err (fst s') = None
     \<and> same_set (fst s) (fst s') \<and> (\<exists>xs' cur'. splits P s' xs' cur' \<and> concat xs' @ cur' = concat xs @ cur @ concat ps))"
proof (induction ps arbitrary: s xs cur)
  case (Cons p ps)
  obtain v files where s: "s = (v, files)" by force
  have "wrote P s (concat xs @ cur) 0 p (vw_Write P D p s)"
    unfolding s vw_Write_def by (rule vw_Write_from_splits) (use Cons.prems s in simp_all)
  then obtain n e s' where w: "vw_Write P D p s = Some ((n, e), s')" "e = None \<longrightarrow> vw_err (fst s') = None \<and> same_set (fst s) (fst s')
      \<and> (\<exists>xs' cur'. splits P s' xs' cur' \<and> concat xs' @ cur' = (concat xs @ cur) @ p)"
    unfolding wrote_def by blast
  show ?case
  proof (cases e)
    case None
    then obtain xs' cur' where i: "splits P s' xs' cur'" "vw_err (fst s') = None" "same_set (fst s) (fst s')"
        "concat xs' @ cur' = concat xs @ cur @ p"
      using w by auto
    from Cons.IH [OF i(1,2)] obtain e2 s2 where r: "vw_Writes P D ps s' = Some (e2, s2)"
      and k: "e2 = None \<longrightarrow> vw_err (fst s2) = None \<and> same_set (fst s') (fst s2)
        \<and> (\<exists>ys c. splits P s2 ys c \<and> concat ys @ c = concat xs' @ cur' @ concat ps)" by blast
    have "concat xs' @ cur' @ concat ps = concat xs @ cur @ p @ concat ps" using i(4) by (metis append.assoc)
    with k same_set_trans [OF i(3)] have "e2 = None \<longrightarrow> vw_err (fst s2) = None \<and> same_set (fst s) (fst s2)
        \<and> (\<exists>ys c. splits P s2 ys c \<and> concat ys @ c = concat xs @ cur @ p @ concat ps)" by metis
    with w(1) None r show ?thesis by simp
  qed (use w(1) in simp)
qed auto

text \<open>\<open>volume_set\<close>: the files hold the payloads \<open>ys\<close> as the volumes of one archive.\<close>

definition volume_set :: "prims \<Rightarrow> files \<Rightarrow> bytes \<Rightarrow> bytes \<Rightarrow> bytes list \<Rightarrow> bool" where
  "volume_set P files base ident ys \<longleftrightarrow> ys \<noteq> [] \<and> length ident = VolumeIDSize
     \<and> (\<forall>i < length ys. files (VolumePath base (Suc i)) = Some (volume P ident (Suc i) (Suc i = length ys) (ys ! i)))"

lemma removeStaleVolumes_returns:
  assumes "finite (dom files)"
  shows "\<exists>err files'. removeStaleVolumes D base i files = Some (err, files')
    \<and> (err = None \<longrightarrow> (\<forall>j < i. files' (VolumePath base j) = files (VolumePath base j))
         \<and> (\<exists>j \<ge> i. \<not> startsWithVolumeHeader (files_os files') (VolumePath base j) \<and> (\<forall>k. i \<le> k \<and> k < j \<longrightarrow> files' (VolumePath base k) = None)))"
proof -
  have "inj (VolumePath base)" by (rule injI) simp
  then have "finite {j. VolumePath base j \<in> dom files}" using finite_vimageI [OF assms] by (simp add: vimage_def)
  then obtain m where m: "\<And>j. VolumePath base j \<in> dom files \<Longrightarrow> j < m" using finite_nat_set_iff_bounded by auto
  have "m \<le> i + k \<Longrightarrow> (\<And>j. VolumePath base j \<in> dom files \<Longrightarrow> j < m) \<Longrightarrow> ?thesis" for k
  proof (induction k arbitrary: i files)
    case 0
    then have "files (VolumePath base i) = None" by (metis add_0_right domIff linorder_not_le)
    then have "\<not> startsWithVolumeHeader (files_os files) (VolumePath base i)"
      by (simp add: startsWithVolumeHeader_def files_os_def Let_def)
    then show ?case by (subst removeStaleVolumes.simps) (auto simp: Let_def)
  next
    case (Suc k)
    show ?case
    proof (cases "startsWithVolumeHeader (files_os files) (VolumePath base i)")
      case True
      note here = True
      show ?thesis
      proof (cases "vo_Remove D (VolumePath base i)")
        case None
        let ?f = "files(VolumePath base i := None)"
        have d: "VolumePath base j \<in> dom ?f \<Longrightarrow> j < m" for j using Suc.prems(2) by (auto split: if_splits)
        have "m \<le> Suc i + k" using Suc.prems(1) by simp
        from Suc.IH [OF this d] obtain err files' where r: "removeStaleVolumes D base (Suc i) ?f = Some (err, files')"
          and k: "err = None \<longrightarrow> (\<forall>j < Suc i. files' (VolumePath base j) = ?f (VolumePath base j))
            \<and> (\<exists>j \<ge> Suc i. \<not> startsWithVolumeHeader (files_os files') (VolumePath base j) \<and> (\<forall>k. Suc i \<le> k \<and> k < j \<longrightarrow> files' (VolumePath base k) = None))"
          by blast
        have eq: "removeStaleVolumes D base i files = Some (err, files')"
          using here None r by (subst removeStaleVolumes.simps) (simp add: Let_def)
        have "err = None \<longrightarrow> (\<forall>j < i. files' (VolumePath base j) = files (VolumePath base j))
            \<and> (\<exists>j \<ge> i. \<not> startsWithVolumeHeader (files_os files') (VolumePath base j) \<and> (\<forall>k. i \<le> k \<and> k < j \<longrightarrow> files' (VolumePath base k) = None))"
        proof
          assume "err = None"
          with k obtain j where j: "Suc i \<le> j" "\<not> startsWithVolumeHeader (files_os files') (VolumePath base j)"
              "\<forall>k. Suc i \<le> k \<and> k < j \<longrightarrow> files' (VolumePath base k) = None" and e: "\<forall>j < Suc i. files' (VolumePath base j) = ?f (VolumePath base j)"
            by blast
          have "\<forall>k. i \<le> k \<and> k < j \<longrightarrow> files' (VolumePath base k) = None"
          proof (intro allI impI)
            fix k assume "i \<le> k \<and> k < j"
            then show "files' (VolumePath base k) = None" using j(3) e by (cases "k = i") simp_all
          qed
          with j e show "(\<forall>j < i. files' (VolumePath base j) = files (VolumePath base j))
            \<and> (\<exists>j \<ge> i. \<not> startsWithVolumeHeader (files_os files') (VolumePath base j) \<and> (\<forall>k. i \<le> k \<and> k < j \<longrightarrow> files' (VolumePath base k) = None))"
            by (intro conjI exI [of _ j]) auto
        qed
        with eq show ?thesis by blast
      qed (use here in \<open>subst removeStaleVolumes.simps, simp add: Let_def\<close>)
    next
      case False
      then show ?thesis by (subst removeStaleVolumes.simps) (auto simp: Let_def)
    qed
  qed
  from this [of m] m show ?thesis by simp
qed

text \<open>\<open>final_set\<close>: after closing, the volumes hold the data, and what an older archive left behind them is gone.\<close>

definition final_set :: "prims \<Rightarrow> VolumeWriter \<Rightarrow> bytes \<Rightarrow> volumes \<Rightarrow> bool" where
  "final_set P v data s \<longleftrightarrow> (\<exists>ys. volume_set P (snd s) (vw_base v) (vw_id v) ys \<and> concat ys = data \<and> (\<forall>y \<in> set ys. length y \<le> vw_capacity v)
     \<and> length ys = vw_index (fst s)
     \<and> (\<exists>j > length ys. \<not> startsWithVolumeHeader (files_os (snd s)) (VolumePath (vw_base v) j)
          \<and> (\<forall>k. length ys < k \<and> k < j \<longrightarrow> snd s (VolumePath (vw_base v) k) = None)))"

lemma close_last:
  assumes s: "splits P (v, files) xs cur" and f: "vw_f v \<noteq> None"
    and run: "vw_finishVolume P D True (v, files) = (None, (v', files'))"
  shows "\<exists>err files''. removeStaleVolumes D (vw_base v') (Suc (vw_index v')) files' = Some (err, files'')
    \<and> (err = None \<longrightarrow> final_set P v (concat xs @ cur) (v'\<lparr>vw_err := None\<rparr>, files''))"
proof -
  let ?ys = "xs @ [cur]" and ?base = "vw_base v"
  note fin = finishVolume_splits [OF s f run]
  have idx: "vw_index v' = length ?ys" "vw_base v' = ?base" using fin by (simp_all add: same_set_def)
  have set: "volume_set P files' ?base (vw_id v) ?ys"
    using s fin by (auto simp: volume_set_def splits_def nth_append less_Suc_eq)
  have len: "\<forall>y \<in> set ?ys. length y \<le> vw_capacity v" using s f by (auto simp: splits_def)
  have "finite (dom files')" using s fin by (simp add: splits_def)
  from removeStaleVolumes_returns [OF this, of D ?base "Suc (length ?ys)"] obtain err files'' where
    r: "removeStaleVolumes D ?base (Suc (length ?ys)) files' = Some (err, files'')"
    and k: "err = None \<longrightarrow> (\<forall>j < Suc (length ?ys). files'' (VolumePath ?base j) = files' (VolumePath ?base j))
         \<and> (\<exists>j \<ge> Suc (length ?ys). \<not> startsWithVolumeHeader (files_os files'') (VolumePath ?base j)
              \<and> (\<forall>k. Suc (length ?ys) \<le> k \<and> k < j \<longrightarrow> files'' (VolumePath ?base k) = None))" by blast
  have "final_set P v (concat xs @ cur) (v'\<lparr>vw_err := None\<rparr>, files'')" if "err = None"
  proof -
    have "volume_set P files'' ?base (vw_id v) ?ys" using set k that unfolding volume_set_def by (metis Suc_less_eq)
    with k that len idx(1) show ?thesis unfolding final_set_def by (intro exI [of _ ?ys]) (simp add: Suc_le_eq)
  qed
  with r idx show ?thesis by auto
qed

lemma vw_Close_returns:
  assumes s: "splits P s xs cur" and e: "vw_err (fst s) = None" and c: "\<not> vw_closed (fst s)"
  shows "\<exists>err s'. vw_Close P D s = Some (err, s') \<and> (err = None \<longrightarrow> final_set P (fst s) (concat xs @ cur) s')"
proof -
  obtain v files where sv: "s = (v, files)" by force
  let ?v = "v\<lparr>vw_closed := True\<rparr>"
  have e': "vw_err v = None" "\<not> vw_closed v" using e c by (simp_all add: sv)
  define s1 where "s1 = (if vw_f v = None then keepErr (openVolume D (?v, files)) else (?v, files))"
  have open_ok: "splits P s1 xs cur \<and> vw_f (fst s1) \<noteq> None \<and> vw_base (fst s1) = vw_base v \<and> vw_id (fst s1) = vw_id v
      \<and> vw_capacity (fst s1) = vw_capacity v" if "vw_err (fst s1) = None"
  proof (cases "vw_f v")
    case None
    obtain err v1 files1 where o: "openVolume D (?v, files) = (err, (v1, files1))" by (metis surj_pair)
    with that None have "err = None" by (simp add: s1_def)
    moreover have "cur = []" using s None by (simp add: sv splits_def)
    ultimately show ?thesis
      using openVolume_splits [of P ?v files xs D v1 files1] o s None by (simp add: s1_def sv same_set_def)
  qed (use s in \<open>simp add: s1_def sv\<close>)
  have close: "vw_Close P D s = (if vw_err (fst s1) \<noteq> None then Some (vw_err (fst s1), s1)
      else let s = keepErr (vw_finishVolume P D True s1) in
            if vw_err (fst s) \<noteq> None then Some (vw_err (fst s), s)
            else map_option (\<lambda>(err, files). (err, ((fst s)\<lparr>vw_err := err\<rparr>, files)))
              (removeStaleVolumes D (vw_base (fst s)) (Suc (vw_index (fst s))) (snd s)))"
    using e' by (simp add: vw_Close_def sv s1_def Let_def)
  show ?thesis
  proof (cases "vw_err (fst s1) = None")
    case True
    note o = open_ok [OF True]
    obtain v1 files1 where s1: "s1 = (v1, files1)" by force
    obtain err v2 files2 where f: "vw_finishVolume P D True (v1, files1) = (err, (v2, files2))" by (metis surj_pair)
    show ?thesis
    proof (cases err)
      case None
      from close_last [of P v1 files1 xs cur D v2 files2] o f None obtain err3 files3 where
        "removeStaleVolumes D (vw_base v2) (Suc (vw_index v2)) files2 = Some (err3, files3)"
        "err3 = None \<longrightarrow> final_set P v1 (concat xs @ cur) (v2\<lparr>vw_err := None\<rparr>, files3)" by (auto simp: s1)
      then show ?thesis using close True f None o by (auto simp: s1 sv final_set_def Let_def)
    qed (use close True f in \<open>simp add: s1 Let_def\<close>)
  qed (use close in auto)
qed

section \<open>Checking and joining the volumes\<close>

lemma volume_parts:
  assumes "length ident = VolumeIDSize" and "0 < i" "i < 2 ^ 32"
  shows "\<exists>h. ParseVolumeHeader h = Ok \<lparr>vh_ArchiveID = ident, vh_Index = word_of_nat i, vh_Last = final, vh_PayloadLen = word_of_nat (length x)\<rparr>
    \<and> length h = VolumeHeaderSize \<and> volume P ident i final x = h @ x @ sha256 P (x @ h)"
proof -
  have "(word_of_nat i :: u32) \<noteq> 0" using assms(2,3) by (auto simp: word_of_nat_eq_0_iff dest: dvd_imp_le)
  with assms(1) show ?thesis
    by (intro exI [of _ "vh_Marshal \<lparr>vh_ArchiveID = ident, vh_Index = word_of_nat i, vh_Last = final, vh_PayloadLen = word_of_nat (length x)\<rparr>"])
      (simp add: ParseVolumeHeader_Marshal vh_Marshal_length volume_def Let_def)
qed

lemma checkVolumeHeader_ok [simp]:
  "checkVolumeHeader \<lparr>vh_ArchiveID = ident, vh_Index = word_of_nat i, vh_Last = l, vh_PayloadLen = n\<rparr> ident i = None"
  by (simp add: checkVolumeHeader_def)

lemma checkVolumeSet_ok:
  assumes dig: "digest_sizes P" and set: "volume_set P files base ident ys" and len: "length ys < 2 ^ 32"
  shows "checkVolumeSet (files_os files) base = Some None"
proof -
  have "Suc i \<le> length ys \<Longrightarrow> (i = 0 \<or> ident' = ident) \<Longrightarrow> checkVolumeSet_from (files_os files) base ident' (Suc i) = Some None" for i ident'
  proof (induction "length ys - i" arbitrary: i ident' rule: less_induct)
    case less
    let ?y = "ys ! i"
    have f: "files (VolumePath base (Suc i)) = Some (volume P ident (Suc i) (Suc i = length ys) ?y)" "length ident = VolumeIDSize"
      using set less.prems(1) by (simp_all add: volume_set_def)
    have "Suc i < 2 ^ 32" using less.prems(1) len by simp
    from volume_parts [OF f(2) _ this] obtain h where
      h: "ParseVolumeHeader h = Ok \<lparr>vh_ArchiveID = ident, vh_Index = word_of_nat (Suc i), vh_Last = (Suc i = length ys), vh_PayloadLen = word_of_nat (length ?y)\<rparr>"
        "length h = VolumeHeaderSize" "volume P ident (Suc i) (Suc i = length ys) ?y = h @ ?y @ sha256 P (?y @ h)" by blast
    have sz: "length (h @ ?y @ sha256 P (?y @ h)) = VolumeOverhead + length ?y"
      using h(2) dig by (simp add: VolumeOverhead_def VolumeChecksumSize_def digest_sizes_def)
    have r: "readVolumeHeader (files_os files) (VolumePath base (Suc i)) =
        Inr (\<lparr>vh_ArchiveID = ident, vh_Index = word_of_nat (Suc i), vh_Last = (Suc i = length ys), vh_PayloadLen = word_of_nat (length ?y)\<rparr>, VolumeOverhead + length ?y)"
      using h f(1) sz by (simp add: readVolumeHeader_def files_os_def Let_def sReadFull_def)
    have eq: "checkVolumeSet_from (files_os files) base ident' (Suc i) =
        (if Suc i = length ys then Some None else checkVolumeSet_from (files_os files) base ident (Suc (Suc i)))"
      using less.prems(2) by (subst checkVolumeSet_from.simps) (auto simp: Let_def r simp del: of_nat_Suc)
    show ?case
    proof (cases "Suc i = length ys")
      case False
      then have "Suc (Suc i) \<le> length ys" "length ys - Suc i < length ys - i" using less.prems(1) by simp_all
      with less.hyps [of "Suc i" ident] eq False show ?thesis by simp
    qed (use eq in simp)
  qed
  from this [of 0] set show ?thesis by (simp add: checkVolumeSet_def volume_set_def Suc_le_eq)
qed

text \<open>Reading all that is left depends only on the next read; opening and finishing a volume deliver nothing.\<close>

lemma vr_ReadAll_cong:
  "vr_Read P D fs short len vr = vr_Read P D fs short len vr' \<Longrightarrow> vr_ReadAll P D fs short len out vr = vr_ReadAll P D fs short len out vr'"
  by (simp add: vr_ReadAll.simps [of P D fs short len out])

lemma vr_ReadAll_open:
  assumes "vr_err vr = None" "\<not> vr_done vr" "vr_cur vr = None"
  shows "vr_ReadAll P D fs short len out vr = vr_ReadAll P D fs short len out (vr_keepErr (openNext fs vr))"
  using assms by (intro vr_ReadAll_cong) (simp add: vr_Read.simps [of P D fs short len vr])

lemma vr_ReadAll_finish:
  assumes "vr_err vr = None" "\<not> vr_done vr" "vr_cur vr = Some r" "vr_remaining vr = 0"
  shows "vr_ReadAll P D fs short len out vr = vr_ReadAll P D fs short len out (vr_keepErr (vr_finishVolume P D r vr))"
  using assms by (intro vr_ReadAll_cong) (simp add: vr_Read.simps [of P D fs short len vr])

lemma vr_Read_data:
  assumes "vr_err vr = None" "\<not> vr_done vr" "vr_cur vr = Some r" "vr_remaining vr \<noteq> 0"
    and "n = min (min (min len (unat (vr_remaining vr))) (max 1 (short vr))) (length (s_bytes r))" "0 < n"
  shows "vr_Read P D fs short len vr = Some (Inr (take n (s_bytes r)),
    vr\<lparr>vr_cur := Some (Stream (drop n (s_bytes r)) (s_end r)), vr_sum := vr_sum vr @ take n (s_bytes r),
      vr_remaining := vr_remaining vr - word_of_nat n\<rparr>)"
proof -
  have "0 < len" "s_bytes r \<noteq> []" "0 < unat (vr_remaining vr)" using assms(4-6) by (auto simp: unat_gt_0)
  with assms(1-4,6) show ?thesis by (subst vr_Read.simps) (simp add: Let_def assms(5) [symmetric, unfolded One_nat_def])
qed

lemma vr_ReadAll_payload:
  assumes "0 < len"
  shows "vr_err vr = None \<Longrightarrow> \<not> vr_done vr \<Longrightarrow> vr_cur vr = Some (Stream (x @ r) e) \<Longrightarrow> vr_remaining vr = word_of_nat (length x) \<Longrightarrow> length x < 2 ^ 64
    \<Longrightarrow> vr_ReadAll P D fs short len out vr = vr_ReadAll P D fs short len (out @ x)
        (vr\<lparr>vr_cur := Some (Stream r e), vr_sum := vr_sum vr @ x, vr_remaining := 0\<rparr>)"
proof (induction "length x" arbitrary: x vr out rule: less_induct)
  case less
  show ?case
  proof (cases "x = []")
    case True
    with less.prems show ?thesis by (cases vr) simp
  next
    case False
    define n where "n = min (min len (length x)) (max 1 (short vr))"
    have n: "0 < n" "n \<le> length x" using False assms by (auto simp: n_def)
    let ?vr = "vr\<lparr>vr_cur := Some (Stream (drop n x @ r) e), vr_sum := vr_sum vr @ take n x, vr_remaining := word_of_nat (length x) - word_of_nat n\<rparr>"
    have u: "unat (vr_remaining vr) = length x" using less.prems(4,5) by (simp add: unat_of_nat)
    have nz: "vr_remaining vr \<noteq> 0" using u False by auto
    have m: "n = min (min (min len (unat (vr_remaining vr))) (max 1 (short vr))) (length (s_bytes (Stream (x @ r) e)))"
      using n(2) unfolding u by (simp add: n_def)
    have rd: "vr_Read P D fs short len vr = Some (Inr (take n x), ?vr)"
      using vr_Read_data [where short = short, OF less.prems(1-3) nz m n(1), of P D fs] n(2) less.prems(4) by simp
    have rem: "vr_remaining ?vr = word_of_nat (length (drop n x))" using n(2) by (simp add: of_nat_diff)
    have lt: "length (drop n x) < length x" using n by simp
    have "vr_ReadAll P D fs short len out vr = vr_ReadAll P D fs short len (out @ take n x) ?vr"
      by (simp add: vr_ReadAll.simps [of P D fs short len out vr] rd)
    also have "\<dots> = vr_ReadAll P D fs short len ((out @ take n x) @ drop n x)
        (?vr\<lparr>vr_cur := Some (Stream r e), vr_sum := vr_sum ?vr @ drop n x, vr_remaining := 0\<rparr>)"
      using less.prems by (intro less.hyps [OF lt _ _ _ rem]) (simp_all add: less_le_trans)
    finally show ?thesis by simp
  qed
qed

text \<open>
  One whole volume: the reader is between volumes, and the next one comes with \<open>rest\<close> behind it.
\<close>

definition at_volume :: "VolumeReader \<Rightarrow> nat \<Rightarrow> bytes \<Rightarrow> bool" where
  "at_volume vr i ident \<longleftrightarrow> vr_err vr = None \<and> \<not> vr_done vr \<and> vr_cur vr = None \<and> vr_index vr = i \<and> (0 < i \<longrightarrow> vr_id vr = ident)"

definition supplies :: "os \<Rightarrow> VolumeReader \<Rightarrow> bytes \<Rightarrow> bytes \<Rightarrow> sarc_error \<Rightarrow> bool" where
  "supplies fs vr v rest e \<longleftrightarrow> (case vr_next vr of
     VolumeFiles base \<Rightarrow> (\<exists>f. os_Open fs (VolumePath base (Suc (vr_index vr))) = Inr f \<and> of_r f = Stream (v @ rest) e)
   | VolumeStream r \<Rightarrow> r = Stream (v @ rest) e)"

lemma read_volume:
  assumes dig: "digest_sizes P" and len: "0 < len" and D: "\<And>path. vo_Close D path = None"
    and vr: "at_volume vr i ident" and src: "supplies fs vr (volume P ident (Suc i) final x) rest e"
    and ident: "length ident = VolumeIDSize" and i: "Suc i < 2 ^ 32" and x: "length x < 2 ^ 64"
  shows "\<exists>vr'. vr_ReadAll P D fs short len out vr = vr_ReadAll P D fs short len (out @ x) vr'
    \<and> vr_err vr' = None \<and> vr_done vr' = final \<and> vr_cur vr' = None \<and> vr_index vr' = Suc i \<and> vr_id vr' = ident
    \<and> vr_next vr' = (case vr_next vr of VolumeFiles base \<Rightarrow> VolumeFiles base | VolumeStream _ \<Rightarrow> VolumeStream (Stream rest e))"
proof -
  let ?hdr = "\<lparr>vh_ArchiveID = ident, vh_Index = word_of_nat (Suc i), vh_Last = final, vh_PayloadLen = word_of_nat (length x)\<rparr>"
  obtain h where h: "ParseVolumeHeader h = Ok ?hdr" "length h = VolumeHeaderSize" "volume P ident (Suc i) final x = h @ x @ sha256 P (x @ h)"
    using volume_parts [OF ident _ i] by blast
  define path where "path = (case vr_next vr of VolumeFiles base \<Rightarrow> VolumePath base (Suc i) | VolumeStream _ \<Rightarrow> [])"
  let ?r = "Stream (x @ sha256 P (x @ h) @ rest) e"
  let ?v1 = "vr\<lparr>vr_index := Suc i, vr_path := path, vr_cur := Some ?r, vr_id := ident, vr_header := h,
    vr_remaining := word_of_nat (length x), vr_last := final, vr_sum := []\<rparr>"
  have a: "vr_err vr = None" "\<not> vr_done vr" "vr_cur vr = None" "vr_index vr = i" "0 < i \<longrightarrow> vr_id vr = ident"
    using vr by (simp_all add: at_volume_def)
  have rf: "sReadFull VolumeHeaderSize (Stream (h @ x @ sha256 P (x @ h) @ rest) e) = (h, None, ?r)"
    using h(2) by (simp add: sReadFull_def)
  have o: "openNext fs vr = (None, ?v1)"
    using src a h rf
    by (cases "vr_next vr"; cases "i = 0"; cases vr; auto simp: openNext_def Let_def supplies_def path_def simp del: of_nat_Suc)
  let ?v2 = "?v1\<lparr>vr_cur := Some (Stream (sha256 P (x @ h) @ rest) e), vr_sum := x, vr_remaining := 0\<rparr>"
  let ?v3 = "vr_keepErr (vr_finishVolume P D (Stream (sha256 P (x @ h) @ rest) e) ?v2)"
  have k1: "vr_keepErr (openNext fs vr) = ?v1" unfolding o vr_keepErr_def prod.case using a(1) by (cases vr) simp
  have "vr_ReadAll P D fs short len out vr = vr_ReadAll P D fs short len out ?v1"
    using vr_ReadAll_open [OF a(1-3), of P D fs short len out] by (simp only: k1)
  also have "\<dots> = vr_ReadAll P D fs short len (out @ x) ?v2"
    using vr_ReadAll_payload [OF len, of ?v1 x "sha256 P (x @ h) @ rest" e P D fs short out] a x by simp
  also have "\<dots> = vr_ReadAll P D fs short len (out @ x) ?v3"
    by (rule vr_ReadAll_finish) (use a in simp_all)
  finally have eq: "vr_ReadAll P D fs short len out vr = vr_ReadAll P D fs short len (out @ x) ?v3" .
  have sl: "length (sha256 P (x @ h)) = VolumeChecksumSize" using dig by (simp add: digest_sizes_def VolumeChecksumSize_def)
  have "vr_finishVolume P D (Stream (sha256 P (x @ h) @ rest) e) ?v2 =
      (None, (vr_release (Stream rest e) (?v2\<lparr>vr_cur := Some (Stream rest e), vr_sum := x @ h\<rparr>))\<lparr>vr_done := final\<rparr>)"
    using sl D by (simp add: vr_finishVolume_def sReadFull_def Let_def)
  then show ?thesis
    using eq by (intro exI [of _ ?v3]) (auto simp: vr_keepErr_def vr_release_def split: volumeSource.splits)
qed

lemma read_files:
  assumes dig: "digest_sizes P" and len: "0 < len" and D: "\<And>path. vo_Close D path = None"
    and set: "volume_set P files base ident ys" and n: "length ys < 2 ^ 32" and sz: "\<forall>y \<in> set ys. length y < 2 ^ 64"
  shows "\<exists>vr. vr_ReadAll P D (files_os files) short len [] (newVolumeReader (VolumeFiles base)) = Some ((concat ys, None), vr)"
proof -
  have "i < length ys \<Longrightarrow> at_volume vr i ident \<Longrightarrow> vr_next vr = VolumeFiles base \<Longrightarrow>
      \<exists>vr'. vr_ReadAll P D (files_os files) short len out vr = Some ((out @ concat (drop i ys), None), vr')" for i vr out
  proof (induction "length ys - i" arbitrary: i vr out rule: less_induct)
    case less
    let ?x = "ys ! i"
    have f: "files (VolumePath base (Suc i)) = Some (volume P ident (Suc i) (Suc i = length ys) ?x)" "length ident = VolumeIDSize"
      using set less.prems(1) by (simp_all add: volume_set_def)
    have idx: "vr_index vr = i" using less.prems(2) by (simp add: at_volume_def)
    have src: "supplies (files_os files) vr (volume P ident (Suc i) (Suc i = length ys) ?x) [] EOF"
      using f(1) less.prems(3) idx by (simp add: supplies_def files_os_def Let_def)
    have b: "Suc i < 2 ^ 32" "length ?x < 2 ^ 64" using less.prems(1) n sz by simp_all
    from read_volume [OF dig len D less.prems(2) src f(2) b, where short = short and out = out] less.prems(3) obtain vr' where
      r: "vr_ReadAll P D (files_os files) short len out vr = vr_ReadAll P D (files_os files) short len (out @ ?x) vr'"
      and v: "vr_err vr' = None" "vr_done vr' = (Suc i = length ys)" "vr_cur vr' = None" "vr_index vr' = Suc i" "vr_id vr' = ident"
        "vr_next vr' = VolumeFiles base" by auto
    have d: "concat (drop i ys) = ?x @ concat (drop (Suc i) ys)" using less.prems(1) by (simp add: Cons_nth_drop_Suc [symmetric])
    show ?case
    proof (cases "Suc i = length ys")
      case True
      then have "vr_Read P D (files_os files) short len vr' = Some (Inl None, vr')" using v by (subst vr_Read.simps) simp
      then show ?thesis using r d True by (simp add: vr_ReadAll.simps [of P D "files_os files" short len "out @ ?x" vr'])
    next
      case False
      then have "Suc i < length ys" "length ys - Suc i < length ys - i" "at_volume vr' (Suc i) ident"
        using less.prems(1) v by (simp_all add: at_volume_def)
      with less.hyps [of "Suc i" vr' "out @ ?x"] v(6) r d show ?thesis by simp
    qed
  qed
  from this [of 0 "newVolumeReader (VolumeFiles base)" "[]"] set show ?thesis
    by (simp add: at_volume_def newVolumeReader_def volume_set_def)
qed

text \<open>
  C23: a split archive joins to the archive that was written.  When a volume writer took the data
  in any number of writes and closed without an error, the check of the set passes and
  reading the volumes, in buffers of any size and with reads of any length, gives exactly
  the data and then the end.  Every volume file respects the volume size, and any of their
  names leads back to the archive.  Writing and closing always return.
\<close>

theorem volumes_roundtrip:
  assumes dig: "digest_sizes P" and D: "\<And>path. vo_Close D path = None" and fin: "finite (dom files)"
    and new: "CreateVolumes base volumeSize rnd = (Val v, rnd')" and sz: "volumeSize < 2 ^ 63" and len: "0 < len"
  shows "\<exists>err s. vw_Writes P D ps (v, files) = Some (err, s) \<and> (err = None \<longrightarrow>
    (\<exists>err' s'. vw_Close P D s = Some (err', s') \<and> (err' = None \<and> vw_index (fst s') < 2 ^ 32 \<longrightarrow>
       (\<exists>vr vr'. OpenVolumes (files_os (snd s')) base = Some (Inr vr)
          \<and> vr_ReadAll P D (files_os (snd s')) short len [] vr = Some ((concat ps, None), vr')
          \<and> (\<forall>i. 0 < i \<and> i \<le> vw_index (fst s') \<longrightarrow> (\<exists>b. snd s' (VolumePath base i) = Some b \<and> int (length b) \<le> volumeSize
               \<and> (base \<noteq> [] \<and> 10 \<notin> set base \<longrightarrow> FindVolumes (files_os (snd s')) (VolumePath base i) = Some base)))))))"
proof -
  have v: "vw_base v = base" "vw_capacity v = nat (volumeSize - int VolumeOverhead)" "length (vw_id v) = VolumeIDSize" "vw_index v = 0"
      "vw_f v = None" "vw_err v = None" "\<not> vw_closed v" and big: "int MinVolumeSize \<le> volumeSize"
    using new by (auto simp: CreateVolumes_def ReadFull_Ok_conv split: if_splits res.splits)
  have cap: "0 < vw_capacity v" "vw_capacity v < 2 ^ 63" "int (vw_capacity v + VolumeOverhead) = volumeSize"
    using big sz unfolding v(2) by (simp_all add: MinVolumeSize_def VolumeOverhead_eq)
  have "splits P (v, files) [] []" using v cap fin by (simp add: splits_def)
  from vw_Writes_splits [OF this, of D ps] v(6) have "\<exists>err s. vw_Writes P D ps (v, files) = Some (err, s)
      \<and> (err = None \<longrightarrow> vw_err (fst s) = None \<and> same_set v (fst s) \<and> (\<exists>xs cur. splits P s xs cur \<and> concat xs @ cur = concat ps))"
    by simp
  then obtain err s where w: "vw_Writes P D ps (v, files) = Some (err, s)"
    and k: "err = None \<longrightarrow> vw_err (fst s) = None \<and> same_set v (fst s) \<and> (\<exists>xs cur. splits P s xs cur \<and> concat xs @ cur = concat ps)"
    by blast
  have inner: "\<exists>err' s'. vw_Close P D s = Some (err', s') \<and> (err' = None \<and> vw_index (fst s') < 2 ^ 32 \<longrightarrow>
       (\<exists>vr vr'. OpenVolumes (files_os (snd s')) base = Some (Inr vr)
          \<and> vr_ReadAll P D (files_os (snd s')) short len [] vr = Some ((concat ps, None), vr')
          \<and> (\<forall>i. 0 < i \<and> i \<le> vw_index (fst s') \<longrightarrow> (\<exists>b. snd s' (VolumePath base i) = Some b \<and> int (length b) \<le> volumeSize
               \<and> (base \<noteq> [] \<and> 10 \<notin> set base \<longrightarrow> FindVolumes (files_os (snd s')) (VolumePath base i) = Some base)))))"
    if "err = None"
  proof -
    from that
    obtain xs cur where s: "splits P s xs cur" "concat xs @ cur = concat ps" "vw_err (fst s) = None" "\<not> vw_closed (fst s)"
        "vw_base (fst s) = base" "vw_id (fst s) = vw_id v" "vw_capacity (fst s) = vw_capacity v"
      using k v by (auto simp: same_set_def)
    from vw_Close_returns [OF s(1,3,4), of D] obtain err' s' where c: "vw_Close P D s = Some (err', s')"
      and f: "err' = None \<longrightarrow> final_set P (fst s) (concat ps) s'" using s(2) by auto
    have "\<exists>vr vr'. OpenVolumes (files_os (snd s')) base = Some (Inr vr)
          \<and> vr_ReadAll P D (files_os (snd s')) short len [] vr = Some ((concat ps, None), vr')
          \<and> (\<forall>i. 0 < i \<and> i \<le> vw_index (fst s') \<longrightarrow> (\<exists>b. snd s' (VolumePath base i) = Some b \<and> int (length b) \<le> volumeSize
               \<and> (base \<noteq> [] \<and> 10 \<notin> set base \<longrightarrow> FindVolumes (files_os (snd s')) (VolumePath base i) = Some base)))"
      if ok: "err' = None \<and> vw_index (fst s') < 2 ^ 32"
    proof -
      obtain ys where ys: "volume_set P (snd s') base (vw_id v) ys" "concat ys = concat ps" "\<forall>y \<in> set ys. length y \<le> vw_capacity v"
          "length ys = vw_index (fst s')"
        using f ok s(5-7) by (auto simp: final_set_def)
      have n: "length ys < 2 ^ 32" using ys(4) ok by simp
      have small: "\<forall>y \<in> set ys. length y < 2 ^ 64" using ys(3) cap(2) by fastforce
      obtain vr' where r: "vr_ReadAll P D (files_os (snd s')) short len [] (newVolumeReader (VolumeFiles base)) = Some ((concat ps, None), vr')"
        using read_files [OF dig len D ys(1) n small] ys(2) by metis
      have each: "\<exists>b. snd s' (VolumePath base i) = Some b \<and> int (length b) \<le> volumeSize
          \<and> (base \<noteq> [] \<and> 10 \<notin> set base \<longrightarrow> FindVolumes (files_os (snd s')) (VolumePath base i) = Some base)"
        if i: "0 < i" "i \<le> length ys" for i
      proof -
        obtain j where j: "i = Suc j" "j < length ys" using i by (cases i) auto
        have fj: "snd s' (VolumePath base i) = Some (volume P (vw_id v) i (i = length ys) (ys ! j))"
          using ys(1) j by (simp add: volume_set_def)
        have "i < 2 ^ 32" using n i by simp
        from volume_parts [OF v(3) i(1) this, of "i = length ys" "ys ! j" P] obtain h where
          h: "ParseVolumeHeader h = Ok \<lparr>vh_ArchiveID = vw_id v, vh_Index = word_of_nat i, vh_Last = (i = length ys), vh_PayloadLen = word_of_nat (length (ys ! j))\<rparr>"
          "length h = VolumeHeaderSize" "volume P (vw_id v) i (i = length ys) (ys ! j) = h @ (ys ! j) @ sha256 P ((ys ! j) @ h)" by blast
        have "length (volume P (vw_id v) i (i = length ys) (ys ! j)) = VolumeOverhead + length (ys ! j)"
          using h(2,3) dig by (simp add: VolumeOverhead_def VolumeChecksumSize_def digest_sizes_def)
        moreover have "length (ys ! j) \<le> vw_capacity v" using ys(3) j by simp
        ultimately have l: "int (length (volume P (vw_id v) i (i = length ys) (ys ! j))) \<le> volumeSize" using cap(3) by simp
        have "IsVolumeHeader h" using h(1) by (auto simp: ParseVolumeHeader_def split: if_splits)
        then have "startsWithVolumeHeader (files_os (snd s')) (VolumePath base i)"
          using fj h(2,3) by (simp add: startsWithVolumeHeader_def files_os_def Let_def sReadFull_def)
        then show ?thesis using fj l volumeName_VolumePath [of base i] by (auto simp: FindVolumes_def)
      qed
      have "OpenVolumes (files_os (snd s')) base = Some (Inr (newVolumeReader (VolumeFiles base)))"
        using checkVolumeSet_ok [OF dig ys(1) n] by (simp add: OpenVolumes_def)
      with r each ys(4) show ?thesis by auto
    qed
    with c show ?thesis by blast
  qed
  with w show ?thesis by blast
qed

section \<open>What the reader accepts\<close>

text \<open>
  \<open>joined\<close>: the state of a reader of volume files that has delivered the payloads \<open>ys\<close> of whole
  volumes and \<open>cur\<close> of the open one.
\<close>

definition vol_at :: "prims \<Rightarrow> os \<Rightarrow> bytes \<Rightarrow> bytes \<Rightarrow> nat \<Rightarrow> bool \<Rightarrow> bytes \<Rightarrow> bool" where
  "vol_at P fs base ident i final x \<longleftrightarrow> (\<exists>f rest. os_Open fs (VolumePath base i) = Inr f \<and> s_bytes (of_r f) = volume P ident i final x @ rest)"

definition joined :: "prims \<Rightarrow> os \<Rightarrow> bytes \<Rightarrow> VolumeReader \<Rightarrow> bytes list \<Rightarrow> bytes \<Rightarrow> bool" where
  "joined P fs base vr ys cur \<longleftrightarrow> vr_err vr \<noteq> None \<or> (vr_next vr = VolumeFiles base
     \<and> (vr_done vr \<longrightarrow> ys \<noteq> [] \<and> cur = [])
     \<and> (\<forall>i < length ys. vol_at P fs base (vr_id vr) (Suc i) (Suc i = length ys \<and> vr_done vr) (ys ! i))
     \<and> (case vr_cur vr of
          None \<Rightarrow> vr_index vr = length ys \<and> cur = []
        | Some r \<Rightarrow> vr_index vr = Suc (length ys) \<and> \<not> vr_done vr \<and> vr_sum vr = cur
            \<and> (\<exists>f h. os_Open fs (VolumePath base (Suc (length ys))) = Inr f \<and> s_bytes (of_r f) = vr_header vr @ cur @ s_bytes r
                 \<and> ParseVolumeHeader (vr_header vr) = Ok h \<and> vh_ArchiveID h = vr_id vr \<and> vh_Index h = word_of_nat (Suc (length ys))
                 \<and> vh_Last h = vr_last vr \<and> unat (vh_PayloadLen h) = length cur + unat (vr_remaining vr))))"

lemma joined_failed [simp]: "joined P fs base (vr_keepErr (vr_fail problem vr)) ys cur"
  by (simp add: joined_def vr_keepErr_def vr_fail_def)

lemma joined_open:
  assumes j: "joined P fs base vr ys []" and vr: "vr_err vr = None" "\<not> vr_done vr" "vr_cur vr = None"
  shows "joined P fs base (vr_keepErr (openNext fs vr)) ys []"
proof -
  have n: "vr_next vr = VolumeFiles base" "vr_index vr = length ys"
    and ys: "\<And>i. i < length ys \<Longrightarrow> vol_at P fs base (vr_id vr) (Suc i) False (ys ! i)"
    using j vr by (auto simp: joined_def)
  let ?path = "VolumePath base (Suc (length ys))"
  let ?vr = "vr\<lparr>vr_index := Suc (length ys), vr_path := ?path\<rparr>"
  show ?thesis
  proof (cases "os_Open fs ?path")
    case (Inl e)
    then have "openNext fs vr = vr_fail ''missing'' ?vr" by (simp add: openNext_def Let_def n)
    then show ?thesis by simp
  next
    case (Inr f)
    obtain header err r where rf: "sReadFull VolumeHeaderSize (of_r f) = (header, err, r)" by (metis surj_pair)
    let ?vr1 = "?vr\<lparr>vr_cur := Some r\<rparr>"
    have op: "openNext fs vr = (if err \<noteq> None then vr_fail ''missing or truncated volume header'' ?vr1
      else case ParseVolumeHeader header of
            Ok h \<Rightarrow>
              (let vr = (if vr_index ?vr1 = 1 then ?vr1\<lparr>vr_id := vh_ArchiveID h\<rparr> else ?vr1) in
               case checkVolumeHeader h (vr_id vr) (vr_index vr) of
                 Some problem \<Rightarrow> vr_fail problem vr
               | None \<Rightarrow> (None, vr\<lparr>vr_header := header, vr_remaining := vh_PayloadLen h, vr_last := vh_Last h, vr_sum := []\<rparr>))
          | _ \<Rightarrow> vr_fail ''not a sarc volume'' ?vr1)"
      using Inr n rf by (simp add: openNext_def Let_def)
    show ?thesis
    proof (cases "err = None \<and> (\<exists>h. ParseVolumeHeader header = Ok h)")
      case True
      then obtain h where h: "err = None" "ParseVolumeHeader header = Ok h" by blast
      define vr2 where "vr2 = (if ys = [] then ?vr1\<lparr>vr_id := vh_ArchiveID h\<rparr> else ?vr1)"
      have op': "openNext fs vr = (case checkVolumeHeader h (vr_id vr2) (Suc (length ys)) of
                 Some problem \<Rightarrow> vr_fail problem vr2
               | None \<Rightarrow> (None, vr2\<lparr>vr_header := header, vr_remaining := vh_PayloadLen h, vr_last := vh_Last h, vr_sum := []\<rparr>))"
        using op h by (cases "ys = []") (simp_all add: vr2_def Let_def split: option.split)
      have b: "s_bytes (of_r f) = header @ s_bytes r"
        using rf h(1) by (auto simp: sReadFull_def Let_def split: if_splits)
      show ?thesis
      proof (cases "checkVolumeHeader h (vr_id vr2) (Suc (length ys))")
        case None
        then have c: "vh_ArchiveID h = vr_id vr2" "vh_Index h = word_of_nat (Suc (length ys))"
          by (auto simp: checkVolumeHeader_def split: if_splits)
        have id: "ys \<noteq> [] \<Longrightarrow> vr_id vr2 = vr_id vr" by (simp add: vr2_def)
        have ys2: "i < length ys \<Longrightarrow> vol_at P fs base (vr_id vr2) (Suc i) False (ys ! i)" for i using ys [of i] id by (cases "ys = []") simp_all
        have f: "vr_next vr2 = VolumeFiles base" "\<not> vr_done vr2" "vr_cur vr2 = Some r" "vr_index vr2 = Suc (length ys)"
          using n vr by (simp_all add: vr2_def)
        show ?thesis
          unfolding op' None option.case joined_def vr_keepErr_def prod.case
          using f c b h(2) Inr ys2 by (auto simp del: of_nat_Suc)
      qed (use op' in simp)
    qed (use op in \<open>auto split: res.split\<close>)
  qed
qed

lemma joined_finish:
  assumes j: "joined P fs base vr ys cur" and vr: "vr_err vr = None" "\<not> vr_done vr" "vr_cur vr = Some r" "vr_remaining vr = 0"
  shows "\<exists>ys' cur'. joined P fs base (vr_keepErr (vr_finishVolume P D r vr)) ys' cur' \<and> concat ys' @ cur' = concat ys @ cur"
proof -
  let ?i = "Suc (length ys)"
  obtain f h where fh: "os_Open fs (VolumePath base ?i) = Inr f" "s_bytes (of_r f) = vr_header vr @ cur @ s_bytes r"
      "ParseVolumeHeader (vr_header vr) = Ok h" "vh_ArchiveID h = vr_id vr" "vh_Index h = word_of_nat ?i" "vh_Last h = vr_last vr"
      "unat (vh_PayloadLen h) = length cur"
    and n: "vr_next vr = VolumeFiles base" "vr_index vr = ?i" "vr_sum vr = cur"
    and ys: "\<And>i. i < length ys \<Longrightarrow> vol_at P fs base (vr_id vr) (Suc i) False (ys ! i)"
    using j vr by (auto simp: joined_def)
  obtain stored err r' where rf: "sReadFull VolumeChecksumSize r = (stored, err, r')" by (metis surj_pair)
  let ?vr = "vr\<lparr>vr_cur := Some r', vr_sum := cur @ vr_header vr\<rparr>"
  show ?thesis
  proof (cases "err = None \<and> sha256 P (cur @ vr_header vr) = stored \<and> \<not> (vr_path vr \<noteq> [] \<and> vo_Close D (vr_path vr) \<noteq> None)")
    case True
    then have "take VolumeChecksumSize (s_bytes r) = sha256 P (cur @ vr_header vr)" "s_bytes r' = drop VolumeChecksumSize (s_bytes r)"
      using rf by (auto simp: sReadFull_def Let_def split: if_splits)
    then have r: "s_bytes r = sha256 P (cur @ vr_header vr) @ s_bytes r'" by (metis append_take_drop_id)
    have fin: "vr_finishVolume P D r vr = (None, ?vr\<lparr>vr_cur := None, vr_done := vr_last vr\<rparr>)"
      using True n rf by (auto simp: vr_finishVolume_def Let_def vr_release_def)
    have hm: "vr_header vr = vh_Marshal h" using fh(3) ParseVolumeHeader_accepts by blast
    have "vh_PayloadLen h = word_of_nat (length cur)" by (simp flip: fh(7))
    then have "h = \<lparr>vh_ArchiveID = vr_id vr, vh_Index = word_of_nat ?i, vh_Last = vr_last vr, vh_PayloadLen = word_of_nat (length cur)\<rparr>"
      using fh(4-6) by (cases h) simp
    then have "vol_at P fs base (vr_id vr) ?i (vr_last vr) cur"
      using fh(1,2) r hm by (simp add: vol_at_def volume_def Let_def)
    with ys n have "joined P fs base (vr_keepErr (vr_finishVolume P D r vr)) (ys @ [cur]) []"
      by (auto simp: fin joined_def vr_keepErr_def nth_append less_Suc_eq)
    then show ?thesis by (intro exI [of _ "ys @ [cur]"] exI [of _ "[]"]) simp
  next
    case False
    then have "\<exists>problem vr'. vr_finishVolume P D r vr = vr_fail problem vr'"
      using n rf by (auto simp: vr_finishVolume_def Let_def)
    then obtain problem vr' where "vr_finishVolume P D r vr = vr_fail problem vr'" by blast
    then show ?thesis by (intro exI [of _ ys] exI [of _ cur]) simp
  qed
qed

lemma joined_data:
  assumes j: "joined P fs base vr ys cur" and vr: "vr_err vr = None" "vr_cur vr = Some r" and n: "n \<le> unat (vr_remaining vr)" "n \<le> length (s_bytes r)"
  shows "joined P fs base (vr\<lparr>vr_cur := Some (Stream (drop n (s_bytes r)) (s_end r)), vr_sum := vr_sum vr @ take n (s_bytes r),
      vr_remaining := vr_remaining vr - word_of_nat n\<rparr>) ys (cur @ take n (s_bytes r))"
proof -
  have unat_lt_vr: "unat (vr_remaining vr) < 2 ^ 64" using unsigned_less [of "vr_remaining vr"] by simp
  have "word_of_nat n \<le> vr_remaining vr" using n(1) by (simp add: word_le_nat_alt unat_of_nat)
  moreover have "unat (word_of_nat n :: u64) = n" using n(1) unat_lt_vr by (simp add: unat_of_nat)
  ultimately have "unat (vr_remaining vr - word_of_nat n) = unat (vr_remaining vr) - n" by (simp add: unat_sub)
  with j vr n show ?thesis by (auto simp: joined_def)
qed

definition read_ok ::
  "bytes \<Rightarrow> ((((prims \<times> volumeOS) \<times> os) \<times> (VolumeReader \<Rightarrow> nat)) \<times> nat) \<times> VolumeReader \<Rightarrow> (VolumeError option + bytes) \<times> VolumeReader \<Rightarrow> bool" where
  "read_ok base = (\<lambda>(((((P, D), fs), short), len), vr) r. \<forall>ys cur. joined P fs base vr ys cur \<longrightarrow>
     (\<exists>ys' cur'. joined P fs base (snd r) ys' cur' \<and> (case fst r of
       Inr b \<Rightarrow> concat ys' @ cur' = concat ys @ cur @ b
     | Inl err \<Rightarrow> err = vr_err (snd r) \<and> (err = None \<longrightarrow> vr_done (snd r) \<and> concat ys' @ cur' = concat ys @ cur))))"

lemma vr_Read_joined: "vr_Read P D fs short len vr = Some r \<Longrightarrow> read_ok base (((((P, D), fs), short), len), vr) r"
proof (rule vr_Read.raw_induct [of "read_ok base"], goal_cases)
  case (1 read P D fs short len vr r)
    let ?goal = "\<lambda>ys cur. \<exists>ys' cur'. joined P fs base (snd r) ys' cur' \<and> (case fst r of
       Inr b \<Rightarrow> concat ys' @ cur' = concat ys @ cur @ b
     | Inl err \<Rightarrow> err = vr_err (snd r) \<and> (err = None \<longrightarrow> vr_done (snd r) \<and> concat ys' @ cur' = concat ys @ cur))"
    have moved: "?goal ys cur"
      if m: "read P D fs short len vr1 = Some r" "joined P fs base vr1 ys1 cur1" "concat ys1 @ cur1 = concat ys @ cur" for vr1 ys1 cur1 ys cur
    proof -
      obtain ys' cur' where j: "joined P fs base (snd r) ys' cur'" "case fst r of
           Inr b \<Rightarrow> concat ys' @ cur' = concat ys1 @ cur1 @ b
         | Inl err \<Rightarrow> err = vr_err (snd r) \<and> (err = None \<longrightarrow> vr_done (snd r) \<and> concat ys' @ cur' = concat ys1 @ cur1)"
        using 1(2) [OF m(1)] m(2) unfolding read_ok_def prod.case by blast
      have "concat ys1 @ cur1 @ b = concat ys @ cur @ b" for b using m(3) by (metis append.assoc)
      with j m(3) show ?thesis by (intro exI [of _ ys'] exI [of _ cur']) (simp split: sum.splits)
    qed
    show ?case
      unfolding read_ok_def prod.case
    proof (intro allI impI)
      fix ys cur assume j: "joined P fs base vr ys cur"
      consider (err) "vr_err vr \<noteq> None" | (eof) "vr_err vr = None" "vr_done vr" | (fresh) "vr_err vr = None" "\<not> vr_done vr" "vr_cur vr = None"
        | (finish) r0 where "vr_err vr = None" "\<not> vr_done vr" "vr_cur vr = Some r0" "vr_remaining vr = 0"
        | (data) r0 where "vr_err vr = None" "\<not> vr_done vr" "vr_cur vr = Some r0" "vr_remaining vr \<noteq> 0" by fastforce
      then show "?goal ys cur"
      proof cases
        case err
        then have "fst r = Inl (vr_err vr)" "snd r = vr" using 1(3) by auto
        with err j show ?thesis by (intro exI [of _ ys] exI [of _ cur]) auto
      next
        case eof
        then have "fst r = Inl None" "snd r = vr" using 1(3) by auto
        with eof j show ?thesis by (intro exI [of _ ys] exI [of _ cur]) auto
      next
        case fresh
        then have "read P D fs short len (vr_keepErr (openNext fs vr)) = Some r" using 1(3) by simp
        moreover have c: "cur = []" using j fresh by (simp add: joined_def)
        ultimately show ?thesis using joined_open [OF j [unfolded c] fresh] moved by blast
      next
        case finish
        then have "read P D fs short len (vr_keepErr (vr_finishVolume P D r0 vr)) = Some r" using 1(3) by simp
        with joined_finish [OF j finish, of D] moved show ?thesis by blast
      next
        case data
        define want where "want = min len (unat (vr_remaining vr))"
        define n where "n = min (min want (max 1 (short vr))) (length (s_bytes r0))"
        have n: "n \<le> unat (vr_remaining vr)" "n \<le> length (s_bytes r0)" by (auto simp: n_def want_def)
        let ?vr = "vr\<lparr>vr_cur := Some (Stream (drop n (s_bytes r0)) (s_end r0)), vr_sum := vr_sum vr @ take n (s_bytes r0),
            vr_remaining := vr_remaining vr - word_of_nat n\<rparr>"
        let ?fail = "vr_keepErr (vr_fail (if is_EOF (s_end r0) then ''truncated: the volume ends before its declared length'' else ''read failed'') vr)"
        have run: "(if 0 < n then Some (Inr (take n (s_bytes r0)), ?vr)
            else if want = 0 then read P D fs short len vr else read P D fs short len ?fail) = Some r"
          using 1(3) by (simp only: data n_def want_def Let_def simp_thms if_True if_False option.case not_True_eq_False not_False_eq_True)
        consider "0 < n" | "n = 0" "want = 0" | "n = 0" "want \<noteq> 0" by auto
        then show ?thesis
        proof cases
          case 1
          then have r: "fst r = Inr (take n (s_bytes r0))" "snd r = ?vr" using run by auto
          show ?thesis
            unfolding r using joined_data [OF j data(1,3) n] by (intro exI [of _ ys] exI [of _ "cur @ take n (s_bytes r0)"]) simp
        next
          case 2
          with run have "read P D fs short len vr = Some r" by simp
          from moved [OF this j] show ?thesis by simp
        next
          case 3
          with run have "read P D fs short len ?fail = Some r" by simp
          from moved [OF this joined_failed] show ?thesis by blast
        qed
      qed
    qed
qed

definition all_ok ::
  "bytes \<Rightarrow> (((((prims \<times> volumeOS) \<times> os) \<times> (VolumeReader \<Rightarrow> nat)) \<times> nat) \<times> bytes) \<times> VolumeReader
   \<Rightarrow> (bytes \<times> VolumeError option) \<times> VolumeReader \<Rightarrow> bool" where
  "all_ok base = (\<lambda>((((((P, D), fs), short), len), out), vr) ((out', err), vr'). \<forall>ys cur. joined P fs base vr ys cur \<longrightarrow> out = concat ys @ cur \<longrightarrow> err = None \<longrightarrow>
     (\<exists>ys'. joined P fs base vr' ys' [] \<and> vr_err vr' = None \<and> vr_done vr' \<and> out' = concat ys'))"

lemma vr_ReadAll_joined: "vr_ReadAll P D fs short len out vr = Some r \<Longrightarrow> all_ok base ((((((P, D), fs), short), len), out), vr) r"
proof (rule vr_ReadAll.raw_induct [of "all_ok base"], goal_cases)
  case (1 readAll P D fs short len out vr r)
  obtain out' err vr' where r: "r = ((out', err), vr')" by (metis surj_pair)
  obtain res vr1 where rd: "vr_Read P D fs short len vr = Some (res, vr1)" using 1(3) by (auto split: option.splits)
  show ?case
    unfolding all_ok_def r prod.case
  proof (intro allI impI)
    fix ys cur assume j: "joined P fs base vr ys cur" and out: "out = concat ys @ cur" and e: "err = None"
    obtain ys1 cur1 where j1: "joined P fs base vr1 ys1 cur1" "case res of
       Inr b \<Rightarrow> concat ys1 @ cur1 = concat ys @ cur @ b
     | Inl err \<Rightarrow> err = vr_err vr1 \<and> (err = None \<longrightarrow> vr_done vr1 \<and> concat ys1 @ cur1 = concat ys @ cur)"
      using vr_Read_joined [OF rd, of base] j unfolding read_ok_def prod.case fst_conv snd_conv by blast
    show "\<exists>ys'. joined P fs base vr' ys' [] \<and> vr_err vr' = None \<and> vr_done vr' \<and> out' = concat ys'"
    proof (cases res)
      case (Inl err1)
      then have "err1 = None" "out' = out" "vr' = vr1" using 1(3) rd e by (auto simp: r)
      with j1 Inl out show ?thesis by (cases "vr_cur vr1"; auto simp: joined_def)
    next
      case (Inr b)
      then have "readAll P D fs short len (out @ b) vr1 = Some ((out', err), vr')" using 1(3) rd by (simp add: r)
      moreover have "out @ b = concat ys1 @ cur1" using j1(2) Inr out by simp
      ultimately show ?thesis using 1(2) j1(1) e unfolding all_ok_def prod.case by blast
    qed
  qed
qed

text \<open>
  C24: nothing but a complete split archive is accepted.  When reading the volumes of \<open>base\<close> ends
  without an error, what was delivered is the payloads of volumes 1 to n in order, all of
  one archive, each at the head of its file with a matching number, length and checksum, and only
  the last one marked as last.  A missing, foreign, reordered, truncated or damaged volume ends
  in an error instead.
\<close>

theorem volumes_sound:
  assumes "vr_ReadAll P D fs short len [] (newVolumeReader (VolumeFiles base)) = Some ((out, None), vr)"
  shows "\<exists>ident ys. ys \<noteq> [] \<and> out = concat ys \<and>
    (\<forall>i < length ys. \<exists>f rest. os_Open fs (VolumePath base (Suc i)) = Inr f
       \<and> s_bytes (of_r f) = volume P ident (Suc i) (Suc i = length ys) (ys ! i) @ rest)"
proof -
  have "joined P fs base (newVolumeReader (VolumeFiles base)) [] []" by (simp add: joined_def newVolumeReader_def)
  with vr_ReadAll_joined [OF assms, of base] obtain ys where
    "joined P fs base vr ys []" "vr_err vr = None" "vr_done vr" "out = concat ys" unfolding all_ok_def prod.case by auto
  then show ?thesis by (intro exI [of _ "vr_id vr"] exI [of _ ys]) (auto simp: joined_def vol_at_def)
qed

definition moves :: "((((prims \<times> volumeOS) \<times> os) \<times> (VolumeReader \<Rightarrow> nat)) \<times> nat) \<times> VolumeReader \<Rightarrow> (VolumeError option + bytes) \<times> VolumeReader \<Rightarrow> bool" where
  "moves = (\<lambda>(((((P, D), fs), short), len), vr) y. 0 < len \<or> vr_err vr \<noteq> None \<or> vr_done vr \<or> vr_cur vr = None \<or> vr_remaining vr = 0)"

lemma vr_Read_moves: "vr_Read P D fs short len vr = Some y \<Longrightarrow> moves (((((P, D), fs), short), len), vr) y"
proof (rule vr_Read.raw_induct [of moves], goal_cases)
  case (1 read P D fs short len vr y)
  show ?case
  proof (rule ccontr)
    assume "\<not> moves (((((P, D), fs), short), len), vr) y"
    then obtain r where r: "len = 0" "vr_err vr = None" "\<not> vr_done vr" "vr_cur vr = Some r" "vr_remaining vr \<noteq> 0"
      by (auto simp: moves_def)
    then have "read P D fs short len vr = Some y" using 1(3) by (simp add: Let_def)
    from 1(2) [OF this] r show False by (simp add: moves_def)
  qed
qed

text \<open>
  C39: reading into an empty buffer never returns.  While payload of the open volume is left,
  \<^verbatim>\<open>Read\<close> with a buffer of length 0 asks the volume for no bytes, gets none and no error, and
  tries again forever, instead of returning 0 as readers do.
\<close>

theorem empty_read_hangs:
  assumes "vr_err vr = None" and "\<not> vr_done vr" and "vr_cur vr = Some r" and "vr_remaining vr \<noteq> 0"
  shows "vr_Read P D fs short 0 vr = None"
  using vr_Read_moves [of P D fs short 0 vr] assms by (cases "vr_Read P D fs short 0 vr") (simp_all add: moves_def)

section \<open>Concrete volumes\<close>

definition open_volumes :: volumeOS where
  "open_volumes = \<lparr>vo_Create = (\<lambda>p. None), vo_Write = (\<lambda>p c b. None), vo_WriteAt = (\<lambda>p c b. None), vo_Close = (\<lambda>p. None), vo_Remove = (\<lambda>p. None)\<rparr>"

definition sample_volumes :: VolumeWriter where
  "sample_volumes = \<lparr>vw_base = str ''a'', vw_capacity = 65464, vw_id = replicate 16 7, vw_index = 0, vw_f = None, vw_written = 0,
     vw_sum = [], vw_paths = [], vw_err = None, vw_closed = False\<rparr>"

lemma sample_created: "CreateVolumes (str ''a'') 65536 (replicate 16 7) = (Val sample_volumes, [])"
  by (simp add: CreateVolumes_def MinVolumeSize_def ReadFull_total VolumeIDSize_def VolumeOverhead_eq sample_volumes_def)

lemma sample_written:
  "\<exists>s s'. vw_Writes toy_prims open_volumes [[1, 2], [3]] (sample_volumes, Map.empty) = Some (None, s)
     \<and> vw_Close toy_prims open_volumes s = Some (None, s') \<and> vw_index (fst s') = 1"
  by (simp add: vw_Write_def vw_Write_from.simps openVolume_def vw_finishVolume_def file_Write_def file_WriteAt_def open_volumes_def
      vol_content_def keepErr_def sample_volumes_def vw_Close_def removeStaleVolumes.simps startsWithVolumeHeader_def files_os_def Let_def)

theorem volumes_roundtrip_witness:
  "\<exists>s s' vr vr'. vw_Writes toy_prims open_volumes [[1, 2], [3]] (sample_volumes, Map.empty) = Some (None, s)
     \<and> vw_Close toy_prims open_volumes s = Some (None, s') \<and> OpenVolumes (files_os (snd s')) (str ''a'') = Some (Inr vr)
     \<and> vr_ReadAll toy_prims open_volumes (files_os (snd s')) (\<lambda>_. 1) 512 [] vr = Some (([1, 2, 3], None), vr')"
proof -
  obtain s s' where s: "vw_Writes toy_prims open_volumes [[1, 2], [3]] (sample_volumes, Map.empty) = Some (None, s)"
      "vw_Close toy_prims open_volumes s = Some (None, s')" "vw_index (fst s') = 1" using sample_written by blast
  have "vo_Close open_volumes path = None" for path by (simp add: open_volumes_def)
  from volumes_roundtrip [OF toy_prims_correct(2) this _ sample_created, of Map.empty 512 "[[1, 2], [3]]" "\<lambda>_. 1"] s
  show ?thesis by auto
qed

theorem volumes_sound_witness:
  "\<exists>s' vr ident. vr_ReadAll toy_prims open_volumes (files_os (snd s')) (\<lambda>_. 1) 512 [] (newVolumeReader (VolumeFiles (str ''a'')))
       = Some (([1, 2, 3], None), vr)
     \<and> (\<exists>ys f rest. concat ys = [1, 2, 3] \<and> ys \<noteq> [] \<and> os_Open (files_os (snd (s' :: volumes))) (VolumePath (str ''a'') 1) = Inr f
          \<and> s_bytes (of_r f) = volume toy_prims ident 1 (1 = length ys) (ys ! 0) @ rest)"
proof -
  let ?base = "str ''a''" and ?ident = "replicate 16 (7 :: byte)"
  define files where "files = [VolumePath ?base (Suc 0) \<mapsto> volume toy_prims ?ident (Suc 0) True [1, 2, 3]]"
  have "volume_set toy_prims files ?base ?ident [[1, 2, 3]]" by (simp add: volume_set_def files_def VolumeIDSize_def)
  moreover have "vo_Close open_volumes path = None" for path by (simp add: open_volumes_def)
  ultimately obtain vr where r: "vr_ReadAll toy_prims open_volumes (files_os files) (\<lambda>_. 1) 512 [] (newVolumeReader (VolumeFiles ?base))
      = Some (([1, 2, 3], None), vr)"
    using read_files [OF toy_prims_correct(2), of 512 open_volumes files ?base ?ident "[[1, 2, 3]]" "\<lambda>_. 1"] by auto
  from volumes_sound [OF r] obtain ident ys where ys: "ys \<noteq> []" "[1, 2, 3] = concat ys" "\<forall>i < length ys. \<exists>f rest.
      os_Open (files_os files) (VolumePath ?base (Suc i)) = Inr f \<and> s_bytes (of_r f) = volume toy_prims ident (Suc i) (Suc i = length ys) (ys ! i) @ rest"
    by blast
  then obtain f rest where "os_Open (files_os files) (VolumePath ?base (Suc 0)) = Inr f"
      "s_bytes (of_r f) = volume toy_prims ident (Suc 0) (Suc 0 = length ys) (ys ! 0) @ rest" by blast
  with r ys(1,2) show ?thesis
    by (intro exI [of _ "(sample_volumes, files)"] exI [of _ vr] exI [of _ ident] conjI exI [of _ ys] exI [of _ f] exI [of _ rest]) simp_all
qed

theorem empty_read_hangs_witness:
  "\<exists>vr. vr_remaining vr = 3 \<and> vr_Read toy_prims open_volumes (files_os Map.empty) (\<lambda>_. 1) 0 vr = None"
  by (intro exI [of _ "(newVolumeReader (VolumeFiles []))\<lparr>vr_cur := Some (Stream [1, 2, 3] EOF), vr_remaining := 3\<rparr>"] conjI
      empty_read_hangs [where r = "Stream [1, 2, 3] EOF"]) (simp_all add: newVolumeReader_def)

end
