(* ===== verification/Sealed_Entry.thy ===== *)
theory Sealed_Entry
  imports Archiver
begin

text \<open>
  What an archiver writes for a file, a solid group, a directory or a link is an entry that a
  reader with the key schedule opens to the same metadata and content.
\<close>

section \<open>Sealed entries\<close>

text \<open>
  \<open>sealed_as\<close>: under the entry's key \<open>k\<close>, the metadata opens to \<open>pm\<close>, the blocks decode to the
  payload, and the trailer holds the HMAC and size of the plaintext.
\<close>

definition block_decoder :: BlockDecompressor where
  "block_decoder = \<lparr>bd_limit = MaxChunkSize, bd_window = zstdWindowSize\<rparr>"

definition sealed_as ::
  "prims \<Rightarrow> zstd \<Rightarrow> bytes \<Rightarrow> PlaintextMetadata \<Rightarrow> Codec \<Rightarrow> bytes \<Rightarrow> bytes \<Rightarrow> FileEntry \<Rightarrow> bool" where
  "sealed_as P Z k pm codec payload plaintext en \<longleftrightarrow> entry_sized en
     \<and> mm_Open P \<lparr>em_key = k\<rparr> (fe_Metadata en) = Ok pm
     \<and> (\<exists>cs. concat cs = payload \<and> list_all2 (block_of P Z block_decoder \<lparr>em_key = k\<rparr> codec) (fe_DataBlocks en) cs)
     \<and> trailer_of P \<lparr>em_key = k\<rparr> (fe_Trailer en) (ComputeHMAC P k plaintext) (word_of_nat (length plaintext))"

text \<open>The assumptions on the library code under which entries open again.\<close>

definition lib_ok :: "prims \<Rightarrow> zstd \<Rightarrow> bool" where
  "lib_ok P Z \<longleftrightarrow> gcm_correct P \<and> digest_sizes P \<and> zstd_correct Z \<and> zstd_bounded Z"

lemma toy_lib_ok: "lib_ok toy_prims toy_zstd"
  by (simp add: lib_ok_def toy_prims_correct toy_zstd_correct toy_zstd_bounded)

definition policy_ok :: "compressionPolicy \<Rightarrow> bool" where
  "policy_ok p \<longleftrightarrow> (\<forall>bc. po_compressor p = Some bc \<longrightarrow> bc_window bc \<le> zstdWindowSize)
     \<and> (\<forall>bc. po_solidCompressor p = Some bc \<longrightarrow> bc_window bc \<le> MaxSolidStreamSize)"

lemma newCompressionPolicy_ok: "newCompressionPolicy Z procs opts = Ok p \<Longrightarrow> policy_ok p"
  by (auto simp: newCompressionPolicy_def policy_ok_def NewBlockCompressor_def NewSolidCompressor_def newCompressor_def
      bindR_Ok_conv Let_def split: if_splits)

lemma HMAC_length: "lib_ok P Z \<Longrightarrow> length (ComputeHMAC P k x) = HMACSize"
  by (simp add: lib_ok_def digest_sizes_def ComputeHMAC_def HMACSize_def)

lemma block_of_sized: "block_of P Z bd em codec db c \<Longrightarrow> block_sized db"
  by (simp add: block_of_def block_sized_def maxBlockCiphertext_def)

lemma blocks_of_sized: "list_all2 (block_of P Z bd em codec) dbs cs \<Longrightarrow> list_all block_sized dbs"
  by (induction rule: list_all2_induct) (auto dest: block_of_sized)

lemma trailer_of_sized: "trailer_of P em t mac sz \<Longrightarrow> trailer_sized t"
  by (auto simp: trailer_of_def trailer_sized_def TrailerPadMax_def)

text \<open>Every builder of entries draws the parts in the same order from one frame builder.\<close>

lemma entry_sealed:
  assumes lib: "lib_ok P Z" and salt: "length salt = SaltSize" and fb: "fb_em fb = \<lparr>em_key = k\<rparr>"
    and hdr: "FrameHeader P fb = Ok (hdr, fb1)" and pad: "InterBlockPadding P fb1 = Ok (pad, fb2)"
    and meta: "mm_Seal P \<lparr>em_key = k\<rparr> pm rnd = Ok (mb, rnd')" "length (pm_TimestampHash pm) = 32"
    and blocks: "list_all2 (block_of P Z block_decoder \<lparr>em_key = k\<rparr> codec) dbs cs" "concat cs = payload"
    and fb3: "same_file fb2 fb3"
    and trailer: "BuildTrailer P fb3 (ComputeHMAC P k plaintext) (word_of_nat (length plaintext)) = Ok (t, fb4)"
  shows "sealed_as P Z k pm codec payload plaintext
    \<lparr>fe_EntryType = ty, fe_EntrySalt = salt, fe_FrameHdr = hdr, fe_Metadata = mb, fe_InterBlockPad = pad,
     fe_DataBlocks = dbs, fe_Trailer = t\<rparr>"
proof -
  have g: "gcm_correct P" using lib by (simp add: lib_ok_def)
  have h: "length hdr = 32" "same_file fb fb1" using FrameHeader_total [of P fb] hdr by auto
  have p: "length pad \<le> interBlockPadMax" "same_file fb1 fb2" using InterBlockPadding_total [of P fb1] pad by auto
  have em: "fb_em fb3 = \<lparr>em_key = k\<rparr>"
    using fb same_file_fields(1) [OF same_file_trans [OF same_file_trans [OF h(2) p(2)] fb3]] by simp
  have t: "trailer_of P \<lparr>em_key = k\<rparr> t (ComputeHMAC P k plaintext) (word_of_nat (length plaintext))"
    using BuildTrailer_total [OF g HMAC_length [OF lib], of fb3 k plaintext "word_of_nat (length plaintext)"] trailer em by auto
  note m = metadata_seal_open [OF g meta]
  show ?thesis
    using blocks m t h p salt trailer_of_sized [OF t] blocks_of_sized [OF blocks(1)]
    by (auto simp: sealed_as_def entry_sized_def maxMetadataCiphertext_def interBlockPadMax_def)
qed

lemma encryptFilename_decrypt:
  assumes "gcm_correct P" and "length k = 32" and "encryptFilename P name k rnd = Ok (blob, rnd')"
  shows "decryptFilename P blob k = Ok name"
proof -
  obtain b where b: "EncryptBlock P ReadFull \<lparr>em_key = k\<rparr> name rnd = Ok (b, rnd')"
    and blob: "blob = eb_Nonce b @ eb_Ciphertext b"
    using assms(2,3) by (auto simp: encryptFilename_def bindR_Ok_conv)
  show ?thesis
    using EncryptBlock_Decrypt [OF assms(1) b] sys_rand.EncryptBlock_Nonce [OF b] assms(2)
    by (cases b) (simp add: decryptFilename_def blob)
qed

lemma newFrameBuilder_fields:
  assumes "newFrameBuilder p k codec rnd = Ok (fb, rnd')" and "policy_ok p" and "length k = 32"
    and "lib_ok P Z" and "codec = CodecZstd \<or> codec = CodecNone"
  shows "fb_em fb = \<lparr>em_key = k\<rparr>" "fb_Codec fb = codec" "decodes P Z block_decoder fb"
  using assms
  by (auto simp: newFrameBuilder_def NewCompressingFrameBuilder_def NewFrameBuilder_def bindR_Ok_conv fb_Codec_def
      decodes_def lib_ok_def block_decoder_def policy_ok_def split: if_splits)

lemma codecFor_known: "codecFor Z lower p name probe = Ok codec \<Longrightarrow> codec = CodecZstd \<or> codec = CodecNone"
  by (auto simp: codecFor_def split: if_splits option.splits)

section \<open>Files\<close>

lemma file_metadata_fields [simp]:
  "pm_EncryptedFilename (file_metadata P salt n info c a) = n" "pm_Codec (file_metadata P salt n info c a) = c"
  "pm_SizeBucket (file_metadata P salt n info c a) = BucketizeSize (int (fi_Size info))"
  "pm_Attributes (file_metadata P salt n info c a) = Some a" "pm_Permissions (file_metadata P salt n info c a) = fi_Perm info"
  "length (pm_TimestampHash (file_metadata P salt n info c a)) = 32"
  by (simp_all add: file_metadata_def HashTimestamp_def)

text \<open>
  \<open>file_entry\<close>: an entry, written by a writer with the key schedule \<open>keys\<close>, that holds the file
  \<open>inp\<close> with the given content and summary.
\<close>

definition file_entry ::
  "prims \<Rightarrow> zstd \<Rightarrow> KeySchedule \<Rightarrow> bytes \<Rightarrow> Attributes \<Rightarrow> entrySummary \<Rightarrow> bytes \<Rightarrow> FileEntry \<Rightarrow> bool" where
  "file_entry P Z keys name attrs summary content en \<longleftrightarrow> fe_EntryType en = EntryTypeFile
     \<and> es_bucket summary \<le> BucketHuge \<and> knownCodec (es_codec summary)
     \<and> (\<exists>k pm. FileKey P keys (fe_EntrySalt en) = Ok k \<and> decryptFilename P (pm_EncryptedFilename pm) k = Ok name
        \<and> pm_Attributes pm = Some attrs \<and> pm_SizeBucket pm = es_bucket summary \<and> pm_Codec pm = es_codec summary
        \<and> es_original summary = length content
        \<and> sealed_as P Z k pm (es_codec summary) content content en)"

lemma BucketizeSize_known [simp]: "BucketizeSize n \<le> BucketHuge" "BucketTiny \<le> BucketHuge"
  by (simp_all add: BucketizeSize_def BucketTiny_def BucketSmall_def BucketMedium_def BucketLarge_def BucketHuge_def)

lemma knownCodec_simps [simp]: "knownCodec CodecNone" "knownCodec CodecZstd"
  by (simp_all add: knownCodec_def)

lemma codecFor_knownCodec: "codecFor Z lower p name probe = Ok codec \<Longrightarrow> knownCodec codec"
  using codecFor_known [of Z lower p name probe codec] by auto

lemma file_entryI:
  "sealed_as P Z k pm (es_codec summary) content content en \<Longrightarrow> fe_EntryType en = EntryTypeFile
   \<Longrightarrow> FileKey P keys (fe_EntrySalt en) = Ok k \<Longrightarrow> decryptFilename P (pm_EncryptedFilename pm) k = Ok name
   \<Longrightarrow> pm_Attributes pm = Some attrs \<Longrightarrow> pm_SizeBucket pm = es_bucket summary \<Longrightarrow> pm_Codec pm = es_codec summary
   \<Longrightarrow> es_original summary = length content \<Longrightarrow> es_bucket summary \<le> BucketHuge \<Longrightarrow> knownCodec (es_codec summary)
   \<Longrightarrow> file_entry P Z keys name attrs summary content en"
  unfolding file_entry_def by blast

lemma send_all_writer:
  "send_all (send_writer K) dbs aw = (None, aw') \<Longrightarrow> writeDataBlocks K dbs aw = Ok aw'"
  by (induction dbs arbitrary: aw)
    (auto simp: send_writer_def AppendDataBlock_def split: prod.splits option.splits res.splits)

text \<open>A stream that is encrypted to its end did end.\<close>

lemma encrypt_stream_ends:
  "encrypt_stream P Z key send fb h r k = (Inr x, k') \<Longrightarrow> ends_read (s_end r)"
proof (induction P Z key send fb h r k rule: encrypt_stream.induct)
  case (1 P Z key send fb h r k)
  obtain sz fb1 where c: "(sz, fb1) = NextChunkSize P fb" by (metis surj_pair)
  obtain b err r' where b: "(b, err, r') = sReadFull sz r" by (metis surj_pair)
  obtain db fb2 where e: "EncryptChunk P Z fb1 b = Ok (db, fb2)" using EncryptChunk_total by blast
  let ?sent = "if b = [] then (None, fb1, k)
      else case EncryptChunk P Z fb1 b of
         Ok (db, fb) \<Rightarrow> (case send db k of (err, k) \<Rightarrow> (err, fb, k))
       | Err e \<Rightarrow> (Some e, fb1, k) | Panic \<Rightarrow> (Some (Errorf ''panic''), fb1, k)"
  obtain serr fb3 k3 where s: "(serr, fb3, k3) = ?sent" by (metis surj_pair)
  have run: "(case (serr, fb3, k3) of (Some e, fb, k) \<Rightarrow> (Inl e, k)
      | (None, fb, k) \<Rightarrow> (case err of
           Some e \<Rightarrow> if ends_read e then (Inr (ComputeHMAC P key (h @ b), fb), k) else (Inl e, k)
         | None \<Rightarrow> encrypt_stream P Z key send fb (h @ b) r' k)) = (Inr x, k')"
    unfolding s using "1.prems" by (simp add: encrypt_stream.simps [of P Z key send fb h r k] c [symmetric] b [symmetric])
  have e': "s_end r' = s_end r" using b by (simp add: sReadFull_def Let_def)
  show ?case
  proof (cases err)
    case None
    then have n: "serr = None" and r: "encrypt_stream P Z key send fb3 (h @ b) r' k3 = (Inr x, k')"
      using run by (auto split: option.splits)
    from "1.IH" [OF c b refl s n refl None r] e' show ?thesis by simp
  next
    case (Some err')
    with run have "ends_read err'" by (auto split: option.splits if_splits)
    with Some b show ?thesis by (auto simp: sReadFull_def Let_def ends_read_def split: if_splits)
  qed
qed

lemma encrypt_data_blocks:
  assumes "decodes P Z bd fb" and "encrypt_data P Z K key fb f (aw, rnd) = (Val (mac, fb', n), s')"
  shows "\<exists>content dbs cs aw'. content = (case of_mapped f of Some data \<Rightarrow> data | None \<Rightarrow> s_bytes (of_r f))
    \<and> concat cs = content \<and> list_all2 (block_of P Z bd (fb_em fb) (fb_Codec fb)) dbs cs \<and> same_file fb fb'
    \<and> writeDataBlocks K dbs aw = Ok aw' \<and> s' = (aw', rnd) \<and> mac = ComputeHMAC P key content \<and> n = length content"
proof -
  define content where "content = (case of_mapped f of Some data \<Rightarrow> data | None \<Rightarrow> s_bytes (of_r f))"
  define run where "run = (\<lambda>send (k :: ArchiveWriter). case of_mapped f of
      Some data \<Rightarrow> encryptMmapSequential P Z key send fb [] data k | None \<Rightarrow> encrypt_stream P Z key send fb [] (of_r f) k)"
  have "ends_read (s_end (of_r f))" if "of_mapped f = None"
    using that assms(2) by (auto simp: encrypt_data_def dest: encrypt_stream_ends split: prod.splits sum.splits)
  then have "sends_content P Z bd key fb [] content run"
    using mmap_content [OF assms(1)] encrypt_stream_content [OF assms(1)]
    by (cases "of_mapped f") (simp_all add: run_def content_def)
  then obtain dbs cs fb2 where c: "concat cs = content" "same_file fb fb2"
      "list_all2 (block_of P Z bd (fb_em fb) (fb_Codec fb)) dbs cs"
      "run (send_writer K) aw = (case send_all (send_writer K) dbs aw of
         (Some e, k) \<Rightarrow> (Inl e, k) | (None, k) \<Rightarrow> (Inr (ComputeHMAC P key content, fb2), k))"
    unfolding sends_content_def append_Nil by blast
  have "encrypt_data P Z K key fb f (aw, rnd) =
      (case (run (send_writer K) aw, length content) of
         ((Inr (mac, fb), aw), n) \<Rightarrow> (Val (mac, fb, n), (aw, rnd))
       | ((Inl e, aw), n) \<Rightarrow> (Fail (fatal ErrCodeWriteFailed ''encrypt stream'' (Some e)), (aw, rnd)))"
    by (cases "of_mapped f") (simp_all add: encrypt_data_def run_def content_def)
  with assms(2) c(4) obtain aw' where "send_all (send_writer K) dbs aw = (None, aw')" "s' = (aw', rnd)"
      "mac = ComputeHMAC P key content" "n = length content" "fb' = fb2"
    by (auto split: prod.splits option.splits)
  with c send_all_writer show ?thesis unfolding content_def by blast
qed

lemma addFileStreaming_entry:
  assumes lib: "lib_ok P Z" and pol: "policy_ok policy" and f: "os_Open fs (in_path inp) = Inr f"
    and run: "addFileStreaming P Z K fs lower policy inp (aw, rnd) = (Val summary, (aw', rnd'))"
  shows "\<exists>en. WriteFileEntry K en aw = Ok aw'
    \<and> file_entry P Z (aw_keys aw) (in_name inp) (in_attrs inp) summary
        (case of_mapped f of Some data \<Rightarrow> data | None \<Rightarrow> s_bytes (of_r f)) en"
proof -
  let ?content = "case of_mapped f of Some data \<Rightarrow> data | None \<Rightarrow> s_bytes (of_r f)"
  obtain info salt r1 k probe codec fb0 r2 hdr fb1 mm encName r3 mb r4 pad fb2 aw1 mac fb3 n s3 t fb4 aw3 where
    salt: "GenerateSalt rnd = Ok (salt, r1)" and k: "DeriveFileKey P aw salt = Ok k"
    and codec: "codecFor Z lower policy (in_name inp) probe = Ok codec"
    and fb0: "newFrameBuilder policy k codec r1 = Ok (fb0, r2)" and hdr: "FrameHeader P fb0 = Ok (hdr, fb1)"
    and mm: "NewMetadataManager k = Ok mm" and encName: "encryptFilename P (in_name inp) k r2 = Ok (encName, r3)"
    and mb: "mm_Seal P mm (file_metadata P salt encName info codec (in_attrs inp)) r3 = Ok (mb, r4)"
    and pad: "InterBlockPadding P fb1 = Ok (pad, fb2)"
    and begin_entry: "BeginFileEntry K EntryTypeFile salt hdr mb pad aw = Ok aw1"
    and data: "encrypt_data P Z K k fb2 f (aw1, r4) = (Val (mac, fb3, n), s3)"
    and trailer: "BuildTrailer P fb3 mac (word_of_nat n) = Ok (t, fb4)"
    and end_entry: "EndFileEntry K t (fst s3) = Ok aw3" and aw': "aw' = aw3"
    and summary: "summary = \<lparr>es_bucket = BucketizeSize (int (fi_Size info)), es_codec = codec, es_original = n\<rparr>"
    using run f
    by (auto simp: addFileStreaming_def writing_convs Let_def split: prod.splits)
  have kl: "length k = 32" and fk: "FileKey P (aw_keys aw) salt = Ok k"
    using k FileKey_length by (auto simp: DeriveFileKey_def)
  have g: "gcm_correct P" using lib by (simp add: lib_ok_def)
  note fields = newFrameBuilder_fields [OF fb0 pol kl lib codecFor_known [OF codec]]
  have f2: "same_file fb0 fb2"
    using FrameHeader_total [of P fb0] InterBlockPadding_total [of P fb1] hdr pad by (auto intro: same_file_trans)
  obtain dbs cs aw2 where d: "concat cs = ?content"
      "list_all2 (block_of P Z block_decoder (fb_em fb2) (fb_Codec fb2)) dbs cs" "same_file fb2 fb3"
      "writeDataBlocks K dbs aw1 = Ok aw2" "s3 = (aw2, r4)" "mac = ComputeHMAC P k ?content" "n = length ?content"
    using encrypt_data_blocks [OF same_file_decodes [OF f2 fields(3)] data] by blast
  let ?en = "\<lparr>fe_EntryType = EntryTypeFile, fe_EntrySalt = salt, fe_FrameHdr = hdr, fe_Metadata = mb, fe_InterBlockPad = pad,
     fe_DataBlocks = dbs, fe_Trailer = t\<rparr>"
  have blocks: "list_all2 (block_of P Z block_decoder \<lparr>em_key = k\<rparr> codec) dbs cs"
    using d(2) same_file_fields [OF f2] fields by simp
  have mk: "mm = \<lparr>em_key = k\<rparr>" using mm kl by (simp add: NewMetadataManager_def)
  have "length salt = SaltSize" using salt by (auto simp: GenerateSalt_def ReadFull_Ok_conv)
  then have "sealed_as P Z k (file_metadata P salt encName info codec (in_attrs inp)) codec ?content ?content ?en"
    by (rule entry_sealed [OF lib _ fields(1) hdr pad mb [unfolded mk] _ blocks d(1,3) trailer [unfolded d(6,7)]]) simp
  then have "file_entry P Z (aw_keys aw) (in_name inp) (in_attrs inp) summary ?content ?en"
    using fk encryptFilename_decrypt [OF g kl encName] d(7) codecFor_knownCodec [OF codec] by (intro file_entryI [where pm = "file_metadata P salt encName info codec (in_attrs inp)" and k = k]) (simp_all add: summary)
  moreover have "WriteFileEntry K ?en aw = Ok aw'"
    using begin_entry d(4,5) end_entry by (auto simp: WriteFileEntry_steps aw')
  ultimately show ?thesis by blast
qed

lemma encryptFile_entry:
  assumes lib: "lib_ok P Z" and pol: "policy_ok policy" and f: "os_Open fs (in_path inp) = Inr f"
    and run: "encryptFile P Z fs lower policy inp (aw, rnd) = (Val (en, summary), (aw', rnd'))"
  shows "aw' = aw \<and> file_entry P Z (aw_keys aw) (in_name inp) (in_attrs inp) summary (s_bytes (of_r f)) en"
proof -
  let ?content = "s_bytes (of_r f)"
  obtain info salt r1 k codec fb0 r2 hdr fb1 mm encName r3 mb r4 pad fb2 dbs fb3 t fb4 where
    salt: "GenerateSalt rnd = Ok (salt, r1)" and k: "DeriveFileKey P aw salt = Ok k"
    and codec: "codecFor Z lower policy (in_name inp) (take compressionProbeSize ?content) = Ok codec"
    and fb0: "newFrameBuilder policy k codec r1 = Ok (fb0, r2)" and hdr: "FrameHeader P fb0 = Ok (hdr, fb1)"
    and mm: "NewMetadataManager k = Ok mm" and encName: "encryptFilename P (in_name inp) k r2 = Ok (encName, r3)"
    and mb: "mm_Seal P mm (file_metadata P salt encName info codec (in_attrs inp)) r3 = Ok (mb, r4)"
    and pad: "InterBlockPadding P fb1 = Ok (pad, fb2)"
    and data: "fb_EncryptStream P Z fb2 ?content = Ok (dbs, fb3)"
    and trailer: "BuildTrailer P fb3 (ComputeHMAC P k ?content) (word_of_nat (length ?content)) = Ok (t, fb4)"
    and en: "en = \<lparr>fe_EntryType = EntryTypeFile, fe_EntrySalt = salt, fe_FrameHdr = hdr, fe_Metadata = mb,
        fe_InterBlockPad = pad, fe_DataBlocks = dbs, fe_Trailer = t\<rparr>" and aw': "aw' = aw"
    and summary: "summary = \<lparr>es_bucket = BucketizeSize (int (fi_Size info)), es_codec = codec, es_original = length ?content\<rparr>"
    using run f
    by (auto simp: encryptFile_def ReadAll_def writing_convs Let_def split: prod.splits if_splits)
  have kl: "length k = 32" and fk: "FileKey P (aw_keys aw) salt = Ok k"
    using k FileKey_length by (auto simp: DeriveFileKey_def)
  have g: "gcm_correct P" using lib by (simp add: lib_ok_def)
  note fields = newFrameBuilder_fields [OF fb0 pol kl lib codecFor_known [OF codec]]
  have f2: "same_file fb0 fb2"
    using FrameHeader_total [of P fb0] InterBlockPadding_total [of P fb1] hdr pad by (auto intro: same_file_trans)
  obtain cs where d: "concat cs = ?content" "same_file fb2 fb3"
      "list_all2 (block_of P Z block_decoder (fb_em fb2) (fb_Codec fb2)) dbs cs"
    using frame_stream_decodes [OF same_file_decodes [OF f2 fields(3)], of ?content] data by auto
  have blocks: "list_all2 (block_of P Z block_decoder \<lparr>em_key = k\<rparr> codec) dbs cs"
    using d(3) same_file_fields [OF f2] fields by simp
  have mk: "mm = \<lparr>em_key = k\<rparr>" using mm kl by (simp add: NewMetadataManager_def)
  have "length salt = SaltSize" using salt by (auto simp: GenerateSalt_def ReadFull_Ok_conv)
  then have "sealed_as P Z k (file_metadata P salt encName info codec (in_attrs inp)) codec ?content ?content en"
    unfolding en by (rule entry_sealed [OF lib _ fields(1) hdr pad mb [unfolded mk] _ blocks d(1,2) trailer]) simp
  then have "file_entry P Z (aw_keys aw) (in_name inp) (in_attrs inp) summary ?content en"
    using fk encryptFilename_decrypt [OF g kl encName] codecFor_knownCodec [OF codec] by (intro file_entryI [where pm = "file_metadata P salt encName info codec (in_attrs inp)" and k = k]) (simp_all add: summary en)
  with aw' show ?thesis by blast
qed

lemma NewFrameBuilder_fields:
  assumes "NewFrameBuilder k rnd = Ok (fb, rnd')" and "length k = 32" and "lib_ok P Z"
  shows "fb_em fb = \<lparr>em_key = k\<rparr>" "fb_Codec fb = CodecNone" "decodes P Z block_decoder fb"
  using assms by (auto simp: NewFrameBuilder_def bindR_Ok_conv fb_Codec_def decodes_def lib_ok_def block_decoder_def)

lemma sealSpecialEntry_entry:
  assumes lib: "lib_ok P Z" and run: "sealSpecialEntry P inp (aw, rnd) = (Val en, (aw', rnd'))"
  shows "aw' = aw \<and> file_entry P Z (aw_keys aw) (in_name inp) (in_attrs inp)
    \<lparr>es_bucket = BucketTiny, es_codec = CodecNone, es_original = 0\<rparr> [] en \<and> fe_DataBlocks en = []"
proof -
  obtain salt r1 k fb0 r2 hdr fb1 encName r3 mm mb r4 pad fb2 t fb4 where
    salt: "GenerateSalt rnd = Ok (salt, r1)" and k: "DeriveFileKey P aw salt = Ok k"
    and fb0: "NewFrameBuilder k r1 = Ok (fb0, r2)" and hdr: "FrameHeader P fb0 = Ok (hdr, fb1)"
    and encName: "encryptFilename P (in_name inp) k r2 = Ok (encName, r3)" and mm: "NewMetadataManager k = Ok mm"
    and mb: "mm_Seal P mm \<lparr>pm_EncryptedFilename = encName, pm_SizeBucket = BucketTiny, pm_TimestampHash = replicate 32 0,
        pm_Permissions = a_Mode (in_attrs inp) AND 0x1FF, pm_Codec = CodecNone, pm_Attributes = Some (in_attrs inp)\<rparr> r3 = Ok (mb, r4)"
    and pad: "InterBlockPadding P fb1 = Ok (pad, fb2)"
    and trailer: "BuildTrailer P fb2 (ComputeHMAC P k []) 0 = Ok (t, fb4)"
    and en: "en = \<lparr>fe_EntryType = EntryTypeFile, fe_EntrySalt = salt, fe_FrameHdr = hdr, fe_Metadata = mb,
        fe_InterBlockPad = pad, fe_DataBlocks = [], fe_Trailer = t\<rparr>" and aw': "aw' = aw"
    using run by (auto simp: sealSpecialEntry_def writing_convs Let_def split: prod.splits)
  have kl: "length k = 32" and fk: "FileKey P (aw_keys aw) salt = Ok k"
    using k FileKey_length by (auto simp: DeriveFileKey_def)
  have g: "gcm_correct P" using lib by (simp add: lib_ok_def)
  note fields = NewFrameBuilder_fields [OF fb0 kl lib]
  have mk: "mm = \<lparr>em_key = k\<rparr>" using mm kl by (simp add: NewMetadataManager_def)
  have "length salt = SaltSize" using salt by (auto simp: GenerateSalt_def ReadFull_Ok_conv)
  then have sealed: "sealed_as P Z k \<lparr>pm_EncryptedFilename = encName, pm_SizeBucket = BucketTiny, pm_TimestampHash = replicate 32 0,
        pm_Permissions = a_Mode (in_attrs inp) AND 0x1FF, pm_Codec = CodecNone, pm_Attributes = Some (in_attrs inp)\<rparr>
      CodecNone [] [] en"
    unfolding en
    by (rule entry_sealed [OF lib _ fields(1) hdr pad mb [unfolded mk], where cs = "[]" and ?fb3.0 = fb2]) (use trailer in simp_all)
  have "file_entry P Z (aw_keys aw) (in_name inp) (in_attrs inp)
      \<lparr>es_bucket = BucketTiny, es_codec = CodecNone, es_original = 0\<rparr> [] en"
    by (rule file_entryI [where pm = "\<lparr>pm_EncryptedFilename = encName, pm_SizeBucket = BucketTiny,
        pm_TimestampHash = replicate 32 0, pm_Permissions = a_Mode (in_attrs inp) AND 0x1FF, pm_Codec = CodecNone,
        pm_Attributes = Some (in_attrs inp)\<rparr>" and k = k])
      (use sealed fk encryptFilename_decrypt [OF g kl encName] in \<open>simp_all add: en\<close>)
  with aw' show ?thesis by (simp add: en)
qed

section \<open>Payload entries\<close>

lemma seal_chunks_blocks:
  assumes "decodes P Z bd fb"
  shows "\<exists>dbs fb' cs. seal_chunks P Z fb payload = Ok (dbs, fb') \<and> concat cs = payload \<and> same_file fb fb'
    \<and> list_all2 (block_of P Z bd (fb_em fb) (fb_Codec fb)) dbs cs"
  using assms
proof (induction "length payload" arbitrary: fb payload rule: less_induct)
  case less
  show ?case
  proof (cases "payload = []")
    case False
    obtain sz fb1 where c: "NextChunkSize P fb = (sz, fb1)" by force
    note sz = NextChunkSize_bounds [OF c]
    define b where "b = take (min sz (length payload)) payload"
    define rest where "rest = drop (min sz (length payload)) payload"
    have bl: "b \<noteq> []" "length b \<le> MaxChunkSize" "length rest < length payload" "b @ rest = payload"
      using False sz(1,2) by (simp_all add: b_def rest_def)
    obtain db fb2 where e: "EncryptChunk P Z fb1 b = Ok (db, fb2)" "same_file fb1 fb2" using EncryptChunk_total by blast
    have f: "same_file fb fb2" using sz(3) e(2) by (rule same_file_trans)
    have blk: "block_of P Z bd (fb_em fb) (fb_Codec fb) db b"
      using EncryptChunk_block [OF same_file_decodes [OF sz(3) less.prems] e(1) bl(1,2)] same_file_fields [OF sz(3)] by simp
    obtain dbs fb' cs where ih: "seal_chunks P Z fb2 rest = Ok (dbs, fb')" "concat cs = rest" "same_file fb2 fb'"
        "list_all2 (block_of P Z bd (fb_em fb2) (fb_Codec fb2)) dbs cs"
      using less.hyps [OF bl(3) same_file_decodes [OF f less.prems]] by blast
    have "seal_chunks P Z fb payload = Ok (db # dbs, fb')"
      using False e(1) ih(1) by (simp add: seal_chunks.simps [of P Z fb payload] c b_def rest_def Let_def)
    moreover have "list_all2 (block_of P Z bd (fb_em fb) (fb_Codec fb)) (db # dbs) (b # cs)"
      using blk ih(4) same_file_fields [OF f] by simp
    ultimately show ?thesis
      using ih(2) bl(4) same_file_trans [OF f ih(3)] by (intro exI [of _ "db # dbs"] exI [of _ fb'] exI [of _ "b # cs"]) simp
  qed (simp add: seal_chunks.simps)
qed

text \<open>Without a compressor the stored size of the blocks is the size of the payload.\<close>

lemma EncryptChunk_stored:
  assumes "gcm_correct P" and "fb_compressor fb = None" and "EncryptChunk P Z fb c = Ok (db, fb')"
  shows "length (db_Ciphertext db) = length c + GCMTagSize"
proof -
  obtain b br where b: "EncryptBlock P (br_Read P) (fb_em fb) (encodeInto Z fb c []) (fb_br fb) = Ok (b, br)"
    and db: "db = data_block b" using assms(3) unfolding EncryptChunk_Ok by blast
  have "encodeInto Z fb c [] = c" using assms(2) by (simp add: encodeInto_def)
  with EncryptBlock_Decrypt [OF assms(1) b] show ?thesis by (simp add: db data_block_def)
qed

lemma seal_chunks_stored:
  "gcm_correct P \<Longrightarrow> fb_compressor fb = None \<Longrightarrow> seal_chunks P Z fb payload = Ok (dbs, fb') \<Longrightarrow>
   stored_size dbs = int (length payload)"
proof (induction P Z fb payload arbitrary: dbs rule: seal_chunks.induct)
  case (1 P Z fb payload)
  show ?case
  proof (cases "payload = []")
    case True
    with "1.prems"(3) show ?thesis by (simp add: seal_chunks.simps stored_size_def)
  next
    case False
    obtain sz fb1 where c: "(sz, fb1) = NextChunkSize P fb" by (metis surj_pair)
    let ?n = "min sz (length payload)"
    obtain db fb2 dbs' where e: "EncryptChunk P Z fb1 (take ?n payload) = Ok (db, fb2)"
      and r: "seal_chunks P Z fb2 (drop ?n payload) = Ok (dbs', fb')" and dbs: "dbs = db # dbs'"
      using "1.prems"(3) False
      by (auto simp: seal_chunks.simps [of P Z fb payload] c [symmetric] bindR_Ok_conv Let_def)
    have nc: "fb_compressor fb1 = None" "fb_compressor fb2 = None"
      using "1.prems"(2) NextChunkSize_bounds(3) [OF c [symmetric]] EncryptChunk_same_file [OF e] by (simp_all add: same_file_def)
    have "stored_size dbs' = int (length (drop ?n payload))"
      by (rule "1.IH" [OF False c refl e refl "1.prems"(1) nc(2) r])
    then show ?thesis
      using EncryptChunk_stored [OF "1.prems"(1) nc(1) e] by (simp add: dbs stored_size_def min_def split: if_splits)
  qed
qed

definition payload_metadata :: "Codec \<Rightarrow> bytes \<Rightarrow> PlaintextMetadata" where
  "payload_metadata codec plaintext =
     \<lparr>pm_EncryptedFilename = [], pm_SizeBucket = BucketizeSize (int (length plaintext)), pm_TimestampHash = replicate 32 0,
      pm_Permissions = 0, pm_Codec = codec, pm_Attributes = None\<rparr>"

lemma sealPayloadEntry_sealed:
  assumes lib: "lib_ok P Z" and run: "sealPayloadEntry P Z ty codec payload plaintext (aw, rnd) = (Val en, (aw', rnd'))"
  shows "aw' = aw \<and> fe_EntryType en = ty \<and> stored_size (fe_DataBlocks en) = int (length payload)
    \<and> (\<exists>k. FileKey P (aw_keys aw) (fe_EntrySalt en) = Ok k
        \<and> sealed_as P Z k (payload_metadata codec plaintext) CodecNone payload plaintext en)"
proof -
  obtain salt r1 k fb0 r2 hdr fb1 mm mb r4 pad fb2 dbs fb3 t fb4 where
    salt: "GenerateSalt rnd = Ok (salt, r1)" and k: "DeriveFileKey P aw salt = Ok k"
    and fb0: "NewFrameBuilder k r1 = Ok (fb0, r2)" and hdr: "FrameHeader P fb0 = Ok (hdr, fb1)"
    and mm: "NewMetadataManager k = Ok mm" and mb: "mm_Seal P mm (payload_metadata codec plaintext) r2 = Ok (mb, r4)"
    and pad: "InterBlockPadding P fb1 = Ok (pad, fb2)" and data: "seal_chunks P Z fb2 payload = Ok (dbs, fb3)"
    and trailer: "BuildTrailer P fb3 (ComputeHMAC P k plaintext) (word_of_nat (length plaintext)) = Ok (t, fb4)"
    and en: "en = \<lparr>fe_EntryType = ty, fe_EntrySalt = salt, fe_FrameHdr = hdr, fe_Metadata = mb,
        fe_InterBlockPad = pad, fe_DataBlocks = dbs, fe_Trailer = t\<rparr>" and aw': "aw' = aw"
    using run by (auto simp: sealPayloadEntry_def payload_metadata_def writing_convs Let_def split: prod.splits)
  have kl: "length k = 32" and fk: "FileKey P (aw_keys aw) salt = Ok k"
    using k FileKey_length by (auto simp: DeriveFileKey_def)
  note fields = NewFrameBuilder_fields [OF fb0 kl lib]
  have f2: "same_file fb0 fb2"
    using FrameHeader_total [of P fb0] InterBlockPadding_total [of P fb1] hdr pad by (auto intro: same_file_trans)
  obtain cs where d: "concat cs = payload" "same_file fb2 fb3"
      "list_all2 (block_of P Z block_decoder (fb_em fb2) (fb_Codec fb2)) dbs cs"
    using seal_chunks_blocks [OF same_file_decodes [OF f2 fields(3)], of payload] data by auto
  have blocks: "list_all2 (block_of P Z block_decoder \<lparr>em_key = k\<rparr> CodecNone) dbs cs"
    using d(3) same_file_fields [OF f2] fields by simp
  have mk: "mm = \<lparr>em_key = k\<rparr>" using mm kl by (simp add: NewMetadataManager_def)
  have "length salt = SaltSize" using salt by (auto simp: GenerateSalt_def ReadFull_Ok_conv)
  then have "sealed_as P Z k (payload_metadata codec plaintext) CodecNone payload plaintext en"
    unfolding en by (rule entry_sealed [OF lib _ fields(1) hdr pad mb [unfolded mk] _ blocks d(1,2) trailer]) (simp add: payload_metadata_def)
  moreover have "stored_size dbs = int (length payload)"
  proof (rule seal_chunks_stored [OF _ _ data])
    show "gcm_correct P" using lib by (simp add: lib_ok_def)
    have "fb_compressor fb0 = None" using fb0 by (auto simp: NewFrameBuilder_def bindR_Ok_conv)
    with f2 show "fb_compressor fb2 = None" by (simp add: same_file_def)
  qed
  ultimately show ?thesis using fk by (auto simp: aw' en)
qed

end
