(* ===== verification/Entry_Listing.thy ===== *)
theory Entry_Listing
  imports Sealed_Entry
begin

text \<open>
  Reading back what an archiver wrote: the trailer, the blocks, and the listing of a file
  entry and of a payload entry.
\<close>

section \<open>Trailer and blocks\<close>

lemma readTrailer_opens:
  assumes "trailer_of P \<lparr>em_key = k\<rparr> t mac sz" and "length mac = HMACSize" and "length k = 32" and "v \<noteq> Version1"
  shows "readTrailer P k v (Stream (trailer_bytes t @ r) e) =
    (Val \<lparr>ti_hmac = mac, ti_plaintextSize = sz, ti_hasSize = True\<rparr>, Stream r e)"
proof -
  have w: "(word_le 8 (le64 sz) :: u64) = sz" using word_le_enc [of 8 sz "[]"] by (simp add: le64_def)
  have d: "DecryptBlock P \<lparr>em_key = k\<rparr> \<lparr>eb_Nonce = ft_PlaintextHMACNonce t, eb_Ciphertext = ft_PlaintextHMACSealed t\<rparr>
      = Ok (mac @ le64 sz)" using assms(1) by (simp add: trailer_of_def)
  show ?thesis
    using assms(2,4) w
    by (simp add: readTrailer_reads [OF trailer_of_sized [OF assms(1)] assms(3)] d bindS_def callS_def trailer_payload_def
        returnS_def TrailerPayloadSize_def)
qed

text \<open>What the sink receives when every block opens.\<close>

fun sink_all :: "'k blockSink \<Rightarrow> bytes list \<Rightarrow> 'k \<Rightarrow> block_error option \<times> 'k" where
  "sink_all sink [] k = (None, k)"
| "sink_all sink (c # cs) k = (case sink c k of (None, k) \<Rightarrow> sink_all sink cs k | (Some e, k) \<Rightarrow> (Some (SinkError e), k))"

definition opener_of :: "prims \<Rightarrow> zstd \<Rightarrow> bytes \<Rightarrow> Codec \<Rightarrow> BlockDecompressor \<Rightarrow> blockOpener" where
  "opener_of P Z k codec dec =
     (if codec = CodecZstd then decompressingOpener P Z \<lparr>em_key = k\<rparr> dec else plain_opener P \<lparr>em_key = k\<rparr>)"

lemma opener_of_block:
  assumes "block_of P Z bd \<lparr>em_key = k\<rparr> codec db c"
  shows "opener_of P Z k codec bd \<lparr>eb_Nonce = db_Nonce db, eb_Ciphertext = db_Ciphertext db\<rparr> = Inr c"
  using assms
  by (auto simp: block_of_def opener_of_def plain_opener_def decompressingOpener_def tag_error_def bindR_Ok_conv)

lemma feed_failed: "feed em sink (Some e) k dbs = (Some e, k)"
  by (induction dbs) auto

lemma feed_opens:
  "list_all2 (block_of P Z bd \<lparr>em_key = key\<rparr> codec) dbs cs \<Longrightarrow>
   feed (opener_of P Z key codec bd) sink None k dbs = sink_all sink cs k"
proof (induction arbitrary: k rule: list_all2_induct)
  case (Cons db dbs c cs)
  then show ?case
    by (auto simp: sink_block_def opener_of_block feed_failed split: prod.splits option.splits)
qed simp

lemma streamDataBlocks_opens:
  assumes "list_all2 (block_of P Z bd \<lparr>em_key = key\<rparr> codec) dbs cs" and "length key = 32"
  shows "streamDataBlocks P Z key codec bd sink k (Stream (concat (map block_bytes dbs) @ sentinel @ r) e) =
    (case sink_all sink cs k of (err, k) \<Rightarrow> (stream_error err, k, Stream r e))"
  using assms
  by (simp add: streamDataBlocks_def decryptBlocks_reads [OF blocks_of_sized] feed_opens opener_of_def [symmetric] Let_def
      split: prod.splits)

lemma collect_all: "sink_all (\<lambda>pt out. (None, out @ pt)) cs out = (None, out @ concat cs)"
  by (induction cs arbitrary: out) auto

lemma decryptDataBlocks_opens:
  assumes "list_all2 (block_of P Z bd \<lparr>em_key = key\<rparr> codec) dbs cs" and "length key = 32"
  shows "decryptDataBlocks P Z key codec bd (Stream (concat (map block_bytes dbs) @ sentinel @ r) e) =
    (Val (concat cs), Stream r e)"
  by (simp add: decryptDataBlocks_def streamDataBlocks_opens [OF assms] collect_all stream_error_def)

lemma block_of_any_decoder:
  "codec \<noteq> CodecZstd \<Longrightarrow> block_of P Z bd em codec db c \<Longrightarrow> block_of P Z bd' em codec db c"
  by (simp add: block_of_def)

section \<open>The head of an entry\<close>

lemma readEntryHead_opens:
  assumes "sealed_as P Z k pm codec payload plaintext en" and "FileKey P keys (fe_EntrySalt en) = Ok k"
  shows "readEntryHead P keys (Stream (fe_EntrySalt en @ fe_FrameHdr en @ metadata_bytes (fe_Metadata en) @ r) e) =
    (Val \<lparr>eh_fileKey = k, eh_pm = pm\<rparr>, Stream r e)"
proof -
  have "entry_sized en" "mm_Open P \<lparr>em_key = k\<rparr> (fe_Metadata en) = Ok pm" using assms(1) by (simp_all add: sealed_as_def)
  then show ?thesis
    using readEntryHead_reads [OF _ assms(2)] by (simp add: orSkipBody_def bindS_def returnS_def)
qed

section \<open>Listing a file entry\<close>

definition file_listing :: "bytes \<Rightarrow> Attributes \<Rightarrow> entrySummary \<Rightarrow> int \<Rightarrow> ListResult" where
  "file_listing name attrs summary stored =
     withAttributes (list_result name (bucketName (es_bucket summary)) (Codec_String (es_codec summary)) False
       (int (es_original summary)) stored) (Some attrs) 0"

lemma sint_nat: "n < 2 ^ 63 \<Longrightarrow> sint (word_of_nat n :: u64) = int n"
  by (simp add: signed_of_nat signed_take_bit_int_eq_self)

lemma listEntry_file:
  assumes en: "file_entry P Z keys name attrs summary content en" and lib: "lib_ok P Z"
    and v: "ks_version keys = Version2" and len: "length content < 2 ^ 63"
  shows "listEntry P Z keys EntryTypeFile
      (Stream (fe_EntrySalt en @ fe_FrameHdr en @ metadata_bytes (fe_Metadata en)
        @ entry_body (fe_InterBlockPad en) (fe_DataBlocks en) (fe_Trailer en) @ r) e) =
    (Val [file_listing name attrs summary (stored_size (fe_DataBlocks en))], Stream r e)"
proof -
  obtain k pm where k: "FileKey P keys (fe_EntrySalt en) = Ok k" "decryptFilename P (pm_EncryptedFilename pm) k = Ok name"
      "pm_Attributes pm = Some attrs" "pm_SizeBucket pm = es_bucket summary" "pm_Codec pm = es_codec summary"
      "es_original summary = length content"
    and s: "sealed_as P Z k pm (es_codec summary) content content en"
    using en by (auto simp: file_entry_def)
  have kl: "length k = 32" by (rule FileKey_length [OF k(1)])
  have sz: "entry_sized en" and t: "trailer_of P \<lparr>em_key = k\<rparr> (fe_Trailer en) (ComputeHMAC P k content) (word_of_nat (length content))"
    using s by (simp_all add: sealed_as_def)
  have pad: "length (fe_InterBlockPad en) < 2 ^ 32" and bs: "list_all block_sized (fe_DataBlocks en)"
    using sz by (simp_all add: entry_sized_def)
  have v1: "ks_version keys \<noteq> Version1" using v by (simp add: Version1_def Version2_def)
  note tr = readTrailer_opens [OF t HMAC_length [OF lib] kl v1]
  note st = skipDataBlocks_reads [OF bs]
  show ?thesis
    using st(2)
    by (simp add: listEntry_def readEntryHead_opens [OF s k(1)] EntryTypeFile_def EntryTypeSolid_def listFileBody_def k
        orSkipBody_def entry_body_split Let_def bindS_def skipPadding_reads [OF pad] st(1) tr returnS_def
        sint_nat [OF len] file_listing_def withAttributes_def)
qed

section \<open>Reading a payload entry\<close>

lemma verifyPlaintext_same:
  "verifyPlaintext P k x \<lparr>ti_hmac = ComputeHMAC P k x, ti_plaintextSize = word_of_nat (length x), ti_hasSize = True\<rparr> s = (Val (), s)"
  by (simp add: verifyPlaintext_def VerifyHMAC_def bindS_def callS_def returnS_def)

lemma readSolidStream_opens:
  assumes s: "sealed_as P Z k pm CodecNone payload plaintext en" and kl: "length k = 32" and lib: "lib_ok P Z"
    and v: "ks_version keys = Version2"
    and dec: "\<And>s. decode_solid Z (pm_Codec pm) payload s = (Val plaintext, s)"
  shows "readSolidStream P Z keys \<lparr>eh_fileKey = k, eh_pm = pm\<rparr>
      (Stream (entry_body (fe_InterBlockPad en) (fe_DataBlocks en) (fe_Trailer en) @ r) e) =
    (Val (plaintext, length payload), Stream r e)"
proof -
  obtain cs where cs: "concat cs = payload" "list_all2 (block_of P Z block_decoder \<lparr>em_key = k\<rparr> CodecNone) (fe_DataBlocks en) cs"
    and t: "trailer_of P \<lparr>em_key = k\<rparr> (fe_Trailer en) (ComputeHMAC P k plaintext) (word_of_nat (length plaintext))"
    and sz: "entry_sized en"
    using s by (auto simp: sealed_as_def)
  have pad: "length (fe_InterBlockPad en) < 2 ^ 32" using sz by (simp add: entry_sized_def)
  have nz: "CodecNone \<noteq> CodecZstd" by (simp add: CodecNone_def CodecZstd_def)
  have "list_all2 (block_of P Z \<lparr>bd_limit = 0, bd_window = 0\<rparr> \<lparr>em_key = k\<rparr> CodecNone) (fe_DataBlocks en) cs"
    using cs(2) by (rule list_all2_mono) (rule block_of_any_decoder [OF nz])
  note d = decryptDataBlocks_opens [OF this kl]
  have v1: "ks_version keys \<noteq> Version1" using v by (simp add: Version1_def Version2_def)
  note tr = readTrailer_opens [OF t HMAC_length [OF lib] kl v1]
  show ?thesis
    by (simp add: readSolidStream_def entry_body_split bindS_def skipPadding_reads [OF pad] catchS_def d tr dec
        verifyPlaintext_same cs(1) returnS_def)
qed

end
