(* ===== verification/Solid_Groups.thy ===== *)
theory Solid_Groups
  imports Entry_Listing "HOL-Library.List_Lexorder" "HOL-Library.Multiset"
begin

text \<open>
  The writing half of \<^verbatim>\<open>io/solid.go\<close>: which small files share a solid group, packing them into one
  record stream and sealing it.
\<close>

section \<open>Candidates\<close>

definition attributesSize :: "Attributes \<Rightarrow> nat" where
  "attributesSize attrs = (case AppendAttributes [] attrs of Ok b \<Rightarrow> length b | _ \<Rightarrow> 0)"

definition solidCandidate :: "os \<Rightarrow> inputFile \<Rightarrow> nat option" where
  "solidCandidate fs inp =
     (case os_Stat fs (in_path inp) of
        Inl e \<Rightarrow> None
      | Inr info \<Rightarrow>
          if \<not> in_regular inp \<or> \<not> fi_Regular info \<or> SolidMemberMaxSize < fi_Size info then None
          else Some (SolidRecordSize (length (in_name inp)) (attributesSize (in_attrs inp)) (fi_Size info)))"

section \<open>Planning groups\<close>

record solidPlan =
  pl_individual :: "inputFile list"
  pl_groups :: "inputFile list list"

record candidate =
  cd_in :: inputFile
  cd_ext :: bytes
  cd_record :: nat

text \<open>The variables of the loop over the candidates: the plan, the open group and its size.\<close>

record planState = solidPlan +
  ps_group :: "inputFile list"
  ps_groupSize :: nat

definition plan_flush :: "planState \<Rightarrow> planState" where
  "plan_flush s =
     (let s' = (case ps_group s of
           [] \<Rightarrow> s
         | [f] \<Rightarrow> s\<lparr>pl_individual := pl_individual s @ [f]\<rparr>
         | _ \<Rightarrow> s\<lparr>pl_groups := pl_groups s @ [ps_group s]\<rparr>) in
      s'\<lparr>ps_group := [], ps_groupSize := 0\<rparr>)"

definition plan_add :: "candidate \<Rightarrow> planState \<Rightarrow> planState" where
  "plan_add c s =
     (let s = (if MaxSolidStreamSize < ps_groupSize s + cd_record c then plan_flush s else s) in
      s\<lparr>ps_group := ps_group s @ [cd_in c], ps_groupSize := ps_groupSize s + cd_record c\<rparr>)"

definition plan_candidates :: "os \<Rightarrow> (bytes \<Rightarrow> bytes) \<Rightarrow> inputFile list \<Rightarrow> candidate list" where
  "plan_candidates fs lower files =
     map (\<lambda>f. \<lparr>cd_in = f, cd_ext = lower (Ext (in_name f)), cd_record = the (solidCandidate fs f)\<rparr>)
       (filter (\<lambda>f. solidCandidate fs f \<noteq> None) files)"

text \<open>\<^verbatim>\<open>sort.SliceStable\<close> by the extension; Go compares strings byte by byte.\<close>

definition planSolid :: "os \<Rightarrow> (bytes \<Rightarrow> bytes) \<Rightarrow> inputFile list \<Rightarrow> solidPlan" where
  "planSolid fs lower files =
     (let candidates = sort_key cd_ext (plan_candidates fs lower files);
          s = plan_flush (fold plan_add candidates
            \<lparr>pl_individual = filter (\<lambda>f. solidCandidate fs f = None) files, pl_groups = [], ps_group = [], ps_groupSize = 0\<rparr>) in
      \<lparr>pl_individual = pl_individual s, pl_groups = pl_groups s\<rparr>)"

subsection \<open>What a plan is\<close>

definition record_size :: "os \<Rightarrow> inputFile list \<Rightarrow> nat" where
  "record_size fs g = sum_list (map (\<lambda>f. the (solidCandidate fs f)) g)"

definition group_ok :: "os \<Rightarrow> inputFile list \<Rightarrow> bool" where
  "group_ok fs g \<longleftrightarrow> 2 \<le> length g \<and> record_size fs g \<le> MaxSolidStreamSize \<and> list_all (\<lambda>f. solidCandidate fs f \<noteq> None) g"

text \<open>
  The invariant of the loop: \<open>seen\<close> are the files that have been placed so far, in order.
\<close>

definition plan_inv :: "os \<Rightarrow> inputFile list \<Rightarrow> inputFile list \<Rightarrow> planState \<Rightarrow> bool" where
  "plan_inv fs rest seen s \<longleftrightarrow>
     mset (pl_individual s @ concat (pl_groups s) @ ps_group s) = mset rest + mset seen
     \<and> list_all (group_ok fs) (pl_groups s)
     \<and> ps_groupSize s = record_size fs (ps_group s)
     \<and> (ps_groupSize s \<le> MaxSolidStreamSize \<or> length (ps_group s) \<le> 1)
     \<and> list_all (\<lambda>f. solidCandidate fs f \<noteq> None) (ps_group s)"

lemma plan_flush_inv:
  assumes "plan_inv fs rest seen s"
  shows "plan_inv fs rest seen (plan_flush s)" and "ps_group (plan_flush s) = []"
proof -
  show e: "ps_group (plan_flush s) = []" by (simp add: plan_flush_def Let_def)
  show "plan_inv fs rest seen (plan_flush s)"
  proof (cases "ps_group s")
    case Nil
    with assms show ?thesis by (simp add: plan_inv_def plan_flush_def record_size_def)
  next
    case (Cons f g)
    with assms show ?thesis
      by (cases g) (simp_all add: plan_inv_def plan_flush_def record_size_def group_ok_def)
  qed
qed

lemma plan_add_inv:
  assumes "plan_inv fs rest seen s" and "solidCandidate fs (cd_in c) = Some (cd_record c)"
  shows "plan_inv fs rest (seen @ [cd_in c]) (plan_add c s)"
proof (cases "MaxSolidStreamSize < ps_groupSize s + cd_record c")
  case True
  with plan_flush_inv [OF assms(1)] assms(2) show ?thesis
    by (auto simp: plan_add_def Let_def plan_inv_def record_size_def)
next
  case False
  with assms show ?thesis
    by (auto simp: plan_add_def Let_def plan_inv_def record_size_def)
qed

lemma plan_fold_inv:
  "plan_inv fs rest seen s \<Longrightarrow> \<forall>c \<in> set cs. solidCandidate fs (cd_in c) = Some (cd_record c) \<Longrightarrow>
   plan_inv fs rest (seen @ map cd_in cs) (fold plan_add cs s)"
proof (induction cs arbitrary: seen s)
  case (Cons c cs)
  from Cons.IH [OF plan_add_inv [OF Cons.prems(1), of c]] Cons.prems(2) show ?case by simp
qed simp

text \<open>
  A plan places every file exactly once, and its solid groups are within bounds.  Each
  group has at least two members, all of them regular files small enough for a group, and
  its estimated record stream fits in \<^verbatim>\<open>MaxSolidStreamSize\<close>; everything else is stored
  individually.
\<close>

lemma planSolid_partition:
  "mset (pl_individual (planSolid fs lower files) @ concat (pl_groups (planSolid fs lower files))) = mset files
   \<and> list_all (group_ok fs) (pl_groups (planSolid fs lower files))"
proof -
  let ?c = "sort_key cd_ext (plan_candidates fs lower files)"
  let ?rest = "filter (\<lambda>f. solidCandidate fs f = None) files"
  let ?s0 = "\<lparr>pl_individual = ?rest, pl_groups = [], ps_group = [], ps_groupSize = 0\<rparr>"
  have "plan_inv fs ?rest [] ?s0" by (simp add: plan_inv_def record_size_def)
  moreover have "\<forall>c \<in> set ?c. solidCandidate fs (cd_in c) = Some (cd_record c)" by (auto simp: plan_candidates_def)
  ultimately have "plan_inv fs ?rest (map cd_in ?c) (fold plan_add ?c ?s0)"
    using plan_fold_inv [of fs ?rest "[]" ?s0 ?c] by simp
  note i = plan_flush_inv [OF this]
  have "mset (map cd_in ?c) = mset (filter (\<lambda>f. solidCandidate fs f \<noteq> None) files)"
    by (simp add: plan_candidates_def image_mset.compositionality comp_def)
  then have "mset ?rest + mset (map cd_in ?c) = mset files"
    using multiset_partition [of "mset files" "\<lambda>f. solidCandidate fs f = None"] by simp
  with i show ?thesis by (simp add: planSolid_def Let_def plan_inv_def)
qed

section \<open>Packing a group\<close>

record solidMemberResult =
  sr_path :: bytes
  sr_name :: bytes
  sr_size :: nat
  sr_err :: "ArchiveError option"
  sr_attrs :: Attributes
  sr_codec :: Codec
  sr_stored :: int

text \<open>\<^verbatim>\<open>io.ReadAll(io.LimitReader(r, n))\<close>: the limit ends the stream before its own end is seen.\<close>

definition ReadLimited :: "nat \<Rightarrow> stream \<Rightarrow> sarc_error + bytes" where
  "ReadLimited n r = (if n \<le> length (s_bytes r) then Inr (take n (s_bytes r)) else ReadAll r)"

definition appendSolidMember :: "os \<Rightarrow> bytes \<Rightarrow> inputFile \<Rightarrow> (bytes \<times> solidMemberResult) res" where
  "appendSolidMember fs stream inp =
     (let result = \<lparr>sr_path = in_path inp, sr_name = in_name inp, sr_size = 0, sr_err = None, sr_attrs = in_attrs inp,
            sr_codec = 0, sr_stored = 0\<rparr>;
          failed = (\<lambda>msg cause. Ok (stream, result\<lparr>sr_err := Some (recoverable ErrCodeReadFailed msg cause)\<rparr>)) in
      case os_Open fs (in_path inp) of
        Inl e \<Rightarrow> failed ''open file'' (Some e)
      | Inr f \<Rightarrow>
      (case of_info f of
        Inl e \<Rightarrow> failed ''stat file'' (Some e)
      | Inr info \<Rightarrow>
      (case ReadLimited (SolidMemberMaxSize + 1) (of_r f) of
        Inl e \<Rightarrow> failed ''read file'' (Some e)
      | Inr data \<Rightarrow>
          if SolidMemberMaxSize < length data
             \<or> MaxSolidStreamSize < length stream + SolidRecordSize (length (in_name inp)) (attributesSize (in_attrs inp)) (length data)
          then failed ''file changed size during archive'' None
          else (case AppendSolidRecord stream \<lparr>sm_Name = in_name inp, sm_Attributes = in_attrs inp, sm_Data = data\<rparr> of
              Ok out \<Rightarrow> Ok (out, result\<lparr>sr_size := length data\<rparr>)
            | Err e \<Rightarrow> failed ''unsupported file name'' (Some e)
            | Panic \<Rightarrow> Panic))))"

fun pack_members :: "os \<Rightarrow> bytes \<Rightarrow> inputFile list \<Rightarrow> (bytes \<times> solidMemberResult list) res" where
  "pack_members fs stream [] = Ok (stream, [])"
| "pack_members fs stream (m # ms) =
     bindR (appendSolidMember fs stream m) (\<lambda>(stream, r).
     bindR (pack_members fs stream ms) (\<lambda>(stream, rs). Ok (stream, r # rs)))"

definition storedSize :: "FileEntry \<Rightarrow> int" where
  "storedSize entry = foldl (\<lambda>n db. n + (int (length (db_Ciphertext db)) - int GCMTagSize)) 0 (fe_DataBlocks entry)"

definition solidCodecFor :: "zstd \<Rightarrow> (bytes \<Rightarrow> bytes) \<Rightarrow> compressionPolicy \<Rightarrow> bytes \<Rightarrow> Codec res" where
  "solidCodecFor Z lower p stream =
     (if po_solidCompressor p = None then Ok CodecNone
      else codecFor Z lower p [] (take compressionProbeSize stream))"

definition sealSolidEntry ::
  "prims \<Rightarrow> zstd \<Rightarrow> (bytes \<Rightarrow> bytes) \<Rightarrow> compressionPolicy \<Rightarrow> bytes \<Rightarrow> (FileEntry \<times> Codec) writing" where
  "sealSolidEntry P Z lower policy stream =
     bindS (callS (writeFailed ''solid codec'') (solidCodecFor Z lower policy stream)) (\<lambda>codec.
     bindS (if codec = CodecZstd
            then (case po_solidCompressor policy of
                None \<Rightarrow> callS (writeFailed ''solid compressor'') Panic
              | Some sc \<Rightarrow> returnS (Compress Z sc [] stream))
            else returnS stream) (\<lambda>payload.
     bindS (sealPayloadEntry P Z EntryTypeSolid codec payload stream) (\<lambda>entry.
     returnS (entry, codec))))"

text \<open>The sizes are nonnegative, so Go's truncating division is \<^verbatim>\<open>div\<close>.\<close>

definition buildSolidEntry ::
  "prims \<Rightarrow> zstd \<Rightarrow> os \<Rightarrow> (bytes \<Rightarrow> bytes) \<Rightarrow> compressionPolicy \<Rightarrow> inputFile list
   \<Rightarrow> (FileEntry option \<times> solidMemberResult list) writing" where
  "buildSolidEntry P Z fs lower policy members =
     bindS (callS (writeFailed ''pack members'') (pack_members fs [] members)) (\<lambda>(stream, results).
     if list_all (\<lambda>r. sr_err r \<noteq> None) results then returnS (None, results)
     else bindS (sealSolidEntry P Z lower policy stream) (\<lambda>(entry, codec).
       let stored = storedSize entry in
       returnS (Some entry, map (\<lambda>r. r\<lparr>sr_codec := codec, sr_stored := int (sr_size r) * stored div int (length stream)\<rparr>) results)))"

section \<open>What a solid entry holds\<close>

lemma storedSize_eq: "storedSize en = stored_size (fe_DataBlocks en)"
proof -
  have "foldl (\<lambda>n db. n + (int (length (db_Ciphertext db)) - int GCMTagSize)) k dbs = k + stored_size dbs" for k dbs
    by (induction dbs arbitrary: k) (simp_all add: stored_size_def)
  from this [of 0] show ?thesis by (simp add: storedSize_def)
qed

text \<open>The member that a file becomes.\<close>

definition member_of :: "os \<Rightarrow> inputFile \<Rightarrow> SolidMember \<Rightarrow> bool" where
  "member_of fs inp m \<longleftrightarrow> sm_Name m = in_name inp \<and> sm_Attributes m = in_attrs inp
     \<and> (\<exists>f. os_Open fs (in_path inp) = Inr f \<and> sm_Data m = s_bytes (of_r f))"

lemma ReadLimited_all:
  "ReadLimited (n + 1) r = Inr data \<Longrightarrow> length data \<le> n \<Longrightarrow> data = s_bytes r"
  by (auto simp: ReadLimited_def ReadAll_def split: if_splits)

text \<open>The result a packed member leaves, before the group is sealed.\<close>

definition packed_as :: "solidMemberResult \<Rightarrow> SolidMember \<Rightarrow> bool" where
  "packed_as r m \<longleftrightarrow> sr_name r = sm_Name m \<and> sr_attrs r = sm_Attributes m \<and> sr_size r = length (sm_Data m)"

lemma attributesSize_ok: "AppendAttributes [] a = Ok b \<Longrightarrow> attributesSize a = length (attributes_bytes a)"
  by (auto simp: attributesSize_def AppendAttributes_def split: option.splits)

lemma appendSolidMember_cases:
  assumes "appendSolidMember fs stream inp = Ok (stream', r)"
  shows "sr_path r = in_path inp \<and> sr_name r = in_name inp \<and>
    ((sr_err r \<noteq> None \<and> stream' = stream)
     \<or> (sr_err r = None \<and> (\<exists>m. member_of fs inp m \<and> packed_as r m \<and> AppendSolidRecord stream m = Ok stream'
        \<and> length stream' \<le> MaxSolidStreamSize \<and> length (sm_Data m) \<le> SolidMemberMaxSize)))"
proof (cases "sr_err r = None")
  case True
  then obtain f data info where f: "os_Open fs (in_path inp) = Inr f" "of_info f = Inr info"
      "ReadLimited (SolidMemberMaxSize + 1) (of_r f) = Inr data"
    and sz: "length data \<le> SolidMemberMaxSize"
      "length stream + SolidRecordSize (length (in_name inp)) (attributesSize (in_attrs inp)) (length data) \<le> MaxSolidStreamSize"
    and a: "AppendSolidRecord stream \<lparr>sm_Name = in_name inp, sm_Attributes = in_attrs inp, sm_Data = data\<rparr> = Ok stream'"
    and r: "r = \<lparr>sr_path = in_path inp, sr_name = in_name inp, sr_size = length data, sr_err = None, sr_attrs = in_attrs inp,
            sr_codec = 0, sr_stored = 0\<rparr>"
    using assms by (auto simp: appendSolidMember_def Let_def split: sum.splits res.splits if_splits)
  let ?m = "\<lparr>sm_Name = in_name inp, sm_Attributes = in_attrs inp, sm_Data = data\<rparr>"
  obtain b where b: "AppendSolidRecord [] ?m = Ok b" "stream' = stream @ b"
    using a by (subst (asm) AppendSolidRecord_dst) (auto simp: bindR_Ok_conv)
  obtain ab where "AppendAttributes [] (in_attrs inp) = Ok ab"
    using b(1) by (auto simp: AppendSolidRecord_def bindR_Ok_conv split: if_splits)
  from attributesSize_ok [OF this] AppendSolidRecord_size [OF b(1)] have "length stream' \<le> MaxSolidStreamSize"
    using sz(2) b(2) by simp
  moreover have "member_of fs inp ?m" using f ReadLimited_all [OF f(3) sz(1)] by (simp add: member_of_def)
  moreover have "packed_as r ?m" by (simp add: packed_as_def r)
  ultimately show ?thesis using a sz(1) by (auto simp: r)
next
  case False
  with assms show ?thesis
    by (auto simp: appendSolidMember_def Let_def split: sum.splits res.splits if_splits)
qed

abbreviation packed :: "solidMemberResult list \<Rightarrow> solidMemberResult list" where
  "packed rs \<equiv> filter (\<lambda>r. sr_err r = None) rs"

text \<open>The files behind the packed results.\<close>

definition kept :: "inputFile list \<Rightarrow> solidMemberResult list \<Rightarrow> inputFile list" where
  "kept files rs = map fst (filter (\<lambda>(f, r). sr_err r = None) (zip files rs))"

lemma pack_members_stream:
  "pack_members fs stream files = Ok (stream', rs) \<Longrightarrow> length stream \<le> MaxSolidStreamSize \<Longrightarrow>
   \<exists>ms. AppendSolidRecords stream ms = Ok stream' \<and> length stream' \<le> MaxSolidStreamSize
     \<and> list_all (\<lambda>m. length (sm_Data m) \<le> SolidMemberMaxSize) ms
     \<and> list_all2 packed_as (packed rs) ms \<and> list_all2 (member_of fs) (kept files rs) ms
     \<and> list_all2 (\<lambda>f r. sr_path r = in_path f \<and> sr_name r = in_name f) files rs"
proof (induction files arbitrary: stream rs)
  case Nil
  then show ?case by (intro exI [of _ "[]"]) (simp add: kept_def)
next
  case (Cons f files)
  obtain s1 r rs' where a: "appendSolidMember fs stream f = Ok (s1, r)"
    and p: "pack_members fs s1 files = Ok (stream', rs')" and rs: "rs = r # rs'"
    using Cons.prems(1) by (auto simp: bindR_Ok_conv)
  note c = appendSolidMember_cases [OF a]
  then have "length s1 \<le> MaxSolidStreamSize" using Cons.prems(2) by auto
  from Cons.IH [OF p this] obtain ms where ms: "AppendSolidRecords s1 ms = Ok stream'" "length stream' \<le> MaxSolidStreamSize"
      "list_all (\<lambda>m. length (sm_Data m) \<le> SolidMemberMaxSize) ms" "list_all2 packed_as (packed rs') ms"
      "list_all2 (member_of fs) (kept files rs') ms"
      "list_all2 (\<lambda>f r. sr_path r = in_path f \<and> sr_name r = in_name f) files rs'" by blast
  show ?case
  proof (cases "sr_err r = None")
    case True
    with c obtain m where "member_of fs f m" "packed_as r m" "AppendSolidRecord stream m = Ok s1"
        "length (sm_Data m) \<le> SolidMemberMaxSize" by auto
    with True ms c show ?thesis by (intro exI [of _ "m # ms"]) (simp add: rs kept_def)
  next
    case False
    with ms c show ?thesis by (intro exI [of _ ms]) (auto simp: rs kept_def)
  qed
qed

text \<open>
  \<open>solid_entry\<close>: an entry that holds the members \<open>ms\<close>, stored with the codec, whose record stream
  and payload have the given lengths.
\<close>

definition solid_entry ::
  "prims \<Rightarrow> zstd \<Rightarrow> KeySchedule \<Rightarrow> Codec \<Rightarrow> SolidMember list \<Rightarrow> nat \<Rightarrow> nat \<Rightarrow> FileEntry \<Rightarrow> bool" where
  "solid_entry P Z keys codec ms len stored en \<longleftrightarrow> fe_EntryType en = EntryTypeSolid
     \<and> stored_size (fe_DataBlocks en) = int stored
     \<and> (\<exists>k stream payload. FileKey P keys (fe_EntrySalt en) = Ok k \<and> AppendSolidRecords [] ms = Ok stream \<and> ms \<noteq> []
        \<and> list_all (\<lambda>m. length (sm_Data m) < 2 ^ 64) ms \<and> length stream = len \<and> length payload = stored
        \<and> (\<forall>s. decode_solid Z codec payload s = (Val stream, s))
        \<and> sealed_as P Z k (payload_metadata codec stream) CodecNone payload stream en)"

lemma payload_metadata_fields [simp]:
  "pm_Codec (payload_metadata codec x) = codec" "pm_EncryptedFilename (payload_metadata codec x) = []"
  by (simp_all add: payload_metadata_def)

text \<open>Reading the entry gives the members back, in order.\<close>

lemma readSolidMembers_entry:
  assumes "sealed_as P Z k (payload_metadata codec stream) CodecNone payload stream en" and "length k = 32"
    and lib: "lib_ok P Z" and v: "ks_version keys = Version2" and dec: "\<And>s. decode_solid Z codec payload s = (Val stream, s)"
    and ms: "ParseSolidStream stream = Ok ms"
  shows "readSolidMembers P Z keys \<lparr>eh_fileKey = k, eh_pm = payload_metadata codec stream\<rparr>
      (Stream (entry_body (fe_InterBlockPad en) (fe_DataBlocks en) (fe_Trailer en) @ r) e) =
    (Val (ms, length stream, length payload), Stream r e)"
proof -
  have "\<And>s. decode_solid Z (pm_Codec (payload_metadata codec stream)) payload s = (Val stream, s)" using dec by simp
  from readSolidStream_opens [OF assms(1,2) lib v this, of r e] ms show ?thesis
    by (simp add: readSolidMembers_def bindS_def callS_def returnS_def)
qed

lemma ParseSolidStream_packed:
  "AppendSolidRecords [] ms = Ok s \<Longrightarrow> ms \<noteq> [] \<Longrightarrow> list_all (\<lambda>m. length (sm_Data m) < 2 ^ 64) ms \<Longrightarrow> ParseSolidStream s = Ok ms"
  using ParseSolidRecords_Ok_conv [of s ms] by (simp add: ParseSolidStream_def)

lemma listEntry_solid:
  assumes en: "solid_entry P Z keys codec ms len stored en" and lib: "lib_ok P Z" and v: "ks_version keys = Version2"
  shows "listEntry P Z keys EntryTypeSolid
      (Stream (fe_EntrySalt en @ fe_FrameHdr en @ metadata_bytes (fe_Metadata en)
        @ entry_body (fe_InterBlockPad en) (fe_DataBlocks en) (fe_Trailer en) @ r) e) =
    (Val (map (list_member codec len stored) ms), Stream r e)"
proof -
  obtain k stream payload where k: "FileKey P keys (fe_EntrySalt en) = Ok k"
    and p: "ParseSolidStream stream = Ok ms" and sz: "length stream = len" "length payload = stored"
    and dec: "\<And>s. decode_solid Z codec payload s = (Val stream, s)"
    and s: "sealed_as P Z k (payload_metadata codec stream) CodecNone payload stream en"
    using en ParseSolidStream_packed unfolding solid_entry_def by blast
  note m = readSolidMembers_entry [OF s FileKey_length [OF k] lib v dec p, of r e]
  show ?thesis
    by (simp add: listEntry_def bindS_def readEntryHead_opens [OF s k] listSolidBody_def m returnS_def sz)
qed

text \<open>What the policy must satisfy besides \<open>policy_ok\<close> for solid groups: the decoder can be made.\<close>

lemma sealSolidEntry_entry:
  assumes lib: "lib_ok P Z" and pol: "policy_ok policy" and z: "z_NewReader Z MaxSolidStreamSize MaxSolidStreamSize = Ok ()"
    and run: "sealSolidEntry P Z lower policy stream (aw, rnd) = (Val (en, codec), (aw', rnd'))"
    and ms: "AppendSolidRecords [] ms = Ok stream" "ms \<noteq> []" "list_all (\<lambda>m. length (sm_Data m) < 2 ^ 64) ms"
    and sz: "length stream \<le> MaxSolidStreamSize"
  shows "aw' = aw \<and> (codec = CodecNone \<or> codec = CodecZstd)
    \<and> (\<exists>stored. storedSize en = int stored \<and> solid_entry P Z (aw_keys aw) codec ms (length stream) stored en)"
proof -
  obtain payload where codec: "solidCodecFor Z lower policy stream = Ok codec"
    and pay: "if codec = CodecZstd then (\<exists>sc. po_solidCompressor policy = Some sc \<and> payload = Compress Z sc [] stream) else payload = stream"
    and seal: "sealPayloadEntry P Z EntryTypeSolid codec payload stream (aw, rnd) = (Val en, (aw', rnd'))"
    using run by (auto simp: sealSolidEntry_def writing_convs split: if_splits option.splits)
  have c: "codec = CodecNone \<or> codec = CodecZstd"
    using codec by (auto simp: solidCodecFor_def dest: codecFor_known split: if_splits)
  note s = sealPayloadEntry_sealed [OF lib seal]
  have d: "decode_solid Z codec payload s = (Val stream, s)" for s :: stream
  proof (cases "codec = CodecZstd")
    case True
    then obtain sc where sc: "po_solidCompressor policy = Some sc" "payload = Compress Z sc [] stream" using pay by auto
    have "Decompress Z \<lparr>bd_limit = MaxSolidStreamSize, bd_window = MaxSolidStreamSize\<rparr> payload = Ok stream"
      unfolding sc(2) using lib pol sz sc(1) by (intro Decompress_Compress) (auto simp: lib_ok_def policy_ok_def)
    with True z show ?thesis
      by (simp add: decode_solid_def NewSolidDecompressor_def newDecompressor_def bindS_def callS_def)
  next
    case False
    with pay sz show ?thesis by (simp add: decode_solid_def returnS_def)
  qed
  obtain k where k: "FileKey P (aw_keys aw) (fe_EntrySalt en) = Ok k"
      "sealed_as P Z k (payload_metadata codec stream) CodecNone payload stream en" using s by blast
  have "solid_entry P Z (aw_keys aw) codec ms (length stream) (length payload) en"
    unfolding solid_entry_def using s k ms d by blast
  with s c show ?thesis by (auto simp: storedSize_eq)
qed

text \<open>The result reported for a packed member of a sealed group.\<close>

definition group_result :: "Codec \<Rightarrow> nat \<Rightarrow> nat \<Rightarrow> solidMemberResult \<Rightarrow> SolidMember \<Rightarrow> bool" where
  "group_result codec len stored r m \<longleftrightarrow> packed_as r m \<and> sr_codec r = codec
     \<and> sr_stored r = int (length (sm_Data m) * stored div len) \<and> length (sm_Data m) \<le> SolidMemberMaxSize"

lemma group_results:
  assumes "list_all2 packed_as rs ms" and "list_all (\<lambda>m. length (sm_Data m) \<le> SolidMemberMaxSize) ms"
  shows "list_all2 (group_result codec len stored)
    (map (\<lambda>r. r\<lparr>sr_codec := codec, sr_stored := int (sr_size r) * int stored div int len\<rparr>) rs) ms"
  using assms
  by (induction rule: list_all2_induct) (simp_all add: group_result_def packed_as_def zdiv_int)

lemma kept_map:
  "(\<And>r. sr_err (g r) = sr_err r) \<Longrightarrow> kept files (map g rs) = kept files rs"
  by (simp add: kept_def zip_map2 filter_map comp_def case_prod_unfold)

lemma packed_map: "(\<And>r. sr_err (g r) = sr_err r) \<Longrightarrow> packed (map g rs) = map g (packed rs)"
  by (simp add: filter_map comp_def)

lemma buildSolidEntry_entry:
  assumes lib: "lib_ok P Z" and pol: "policy_ok policy" and z: "z_NewReader Z MaxSolidStreamSize MaxSolidStreamSize = Ok ()"
    and run: "buildSolidEntry P Z fs lower policy files (aw, rnd) = (Val (oen, rs), (aw', rnd'))"
  shows "aw' = aw \<and> list_all2 (\<lambda>f r. sr_path r = in_path f \<and> sr_name r = in_name f) files rs
    \<and> (case oen of None \<Rightarrow> packed rs = []
       | Some en \<Rightarrow> \<exists>ms codec len stored. (codec = CodecNone \<or> codec = CodecZstd)
           \<and> solid_entry P Z (aw_keys aw) codec ms len stored en
           \<and> list_all2 (group_result codec len stored) (packed rs) ms \<and> list_all2 (member_of fs) (kept files rs) ms)"
proof -
  obtain stream rs0 where p: "pack_members fs [] files = Ok (stream, rs0)"
    and rest: "(if list_all (\<lambda>r. sr_err r \<noteq> None) rs0 then returnS (None, rs0)
       else bindS (sealSolidEntry P Z lower policy stream) (\<lambda>(entry, codec). returnS (Some entry,
         map (\<lambda>r. r\<lparr>sr_codec := codec, sr_stored := int (sr_size r) * storedSize entry div int (length stream)\<rparr>) rs0)))
       (aw, rnd) = (Val (oen, rs), (aw', rnd'))"
    using run unfolding buildSolidEntry_def Let_def by (auto simp: writing_convs)
  obtain ms where ms: "AppendSolidRecords [] ms = Ok stream" "length stream \<le> MaxSolidStreamSize"
      "list_all (\<lambda>m. length (sm_Data m) \<le> SolidMemberMaxSize) ms" "list_all2 packed_as (packed rs0) ms"
      "list_all2 (member_of fs) (kept files rs0) ms"
      "list_all2 (\<lambda>f r. sr_path r = in_path f \<and> sr_name r = in_name f) files rs0"
    using pack_members_stream [OF p] by auto
  show ?thesis
  proof (cases "list_all (\<lambda>r. sr_err r \<noteq> None) rs0")
    case True
    then have "packed rs0 = []" by (auto simp: list_all_iff filter_empty_conv)
    with True rest ms(6) show ?thesis by (auto simp: writing_convs)
  next
    case False
    then obtain en codec where seal: "sealSolidEntry P Z lower policy stream (aw, rnd) = (Val (en, codec), (aw', rnd'))"
      and oen: "oen = Some en"
      and rs: "rs = map (\<lambda>r. r\<lparr>sr_codec := codec, sr_stored := int (sr_size r) * storedSize en div int (length stream)\<rparr>) rs0"
      using rest by (auto simp: writing_convs)
    from False have "packed rs0 \<noteq> []" by (auto simp: list_all_iff filter_empty_conv)
    with ms(4) have ne: "ms \<noteq> []" by auto
    have "list_all (\<lambda>m. length (sm_Data m) < 2 ^ 64) ms"
      using ms(3) by (auto simp: list_all_iff SolidMemberMaxSize_def)
    from sealSolidEntry_entry [OF lib pol z seal ms(1) ne this ms(2)] obtain stored where
      en: "aw' = aw" "codec = CodecNone \<or> codec = CodecZstd" "storedSize en = int stored"
        "solid_entry P Z (aw_keys aw) codec ms (length stream) stored en" by blast
    have "list_all2 (group_result codec (length stream) stored) (packed rs) ms"
      using group_results [OF ms(4,3)] by (simp add: rs packed_map en(3))
    moreover have "kept files rs = kept files rs0" by (simp add: rs kept_map)
    moreover have "list_all2 (\<lambda>f r. sr_path r = in_path f \<and> sr_name r = in_name f) files rs"
      using ms(6) by (simp add: rs list.rel_map)
    ultimately show ?thesis using en ms(5) unfolding oen by auto
  qed
qed

end
