(* ===== verification/Signature.thy ===== *)
theory Signature
  imports Format
begin

text \<open>
  SSH signatures over archives (\<^verbatim>\<open>crypto/signature.go\<close>) and the signature block after the footer
  (\<^verbatim>\<open>archive/signature.go\<close>).
\<close>

section \<open>The ssh package\<close>

text \<open>
  \<^verbatim>\<open>golang.org/x/crypto/ssh\<close> is a parameter: its algorithm names, public keys (\<open>'p\<close>), signers
  (\<open>'s\<close>), and the encoding of keys and signatures.  \<open>sh_rsa_bits\<close> is the modulus size of a
  readable RSA key.
\<close>

record ssh_signature =
  sg_Format :: string
  sg_Blob :: bytes

record ('p, 's) ssh =
  KeyAlgoED25519 :: string
  KeyAlgoSKED25519 :: string
  KeyAlgoECDSA256 :: string
  KeyAlgoECDSA384 :: string
  KeyAlgoECDSA521 :: string
  KeyAlgoSKECDSA256 :: string
  KeyAlgoRSA :: string
  KeyAlgoRSASHA512 :: string
  sh_Type :: "'p \<Rightarrow> string"
  sh_MarshalKey :: "'p \<Rightarrow> bytes"
  sh_ParsePublicKey :: "bytes \<Rightarrow> 'p res"
  sh_rsa_bits :: "'p \<Rightarrow> nat option"
  sh_Verify :: "'p \<Rightarrow> bytes \<Rightarrow> ssh_signature \<Rightarrow> bool"
  sh_PublicKey :: "'s \<Rightarrow> 'p"
  sh_AlgorithmSigner :: "'s \<Rightarrow> bool"
  sh_Sign :: "'s \<Rightarrow> bytes \<Rightarrow> ssh_signature res"
  sh_SignWithAlgorithm :: "'s \<Rightarrow> bytes \<Rightarrow> string \<Rightarrow> ssh_signature res"
  sh_Marshal :: "ssh_signature \<Rightarrow> bytes"
  sh_Unmarshal :: "bytes \<Rightarrow> ssh_signature res"

text \<open>
  Documented behaviour: keys and signatures survive their encoding, what a signer signs
  verifies under its public key, and the format of a signature is the key's type or the
  algorithm asked for.
\<close>

definition ssh_correct :: "('p, 's) ssh \<Rightarrow> bool" where
  "ssh_correct S \<longleftrightarrow>
     (\<forall>k. let p = sh_PublicKey S k in
        sh_ParsePublicKey S (sh_MarshalKey S p) = Ok p \<and> length (sh_MarshalKey S p) < 2 ^ 32) \<and>
     (\<forall>k d g. (\<exists>f. sh_Sign S k d = Ok g \<or> sh_SignWithAlgorithm S k d f = Ok g) \<longrightarrow>
        sh_Verify S (sh_PublicKey S k) d g
        \<and> sh_Unmarshal S (sh_Marshal S g) = Ok g \<and> length (sh_Marshal S g) < 2 ^ 32) \<and>
     (\<forall>k d g. sh_Sign S k d = Ok g \<longrightarrow> sg_Format g = sh_Type S (sh_PublicKey S k)) \<and>
     (\<forall>k d f g. sh_SignWithAlgorithm S k d f = Ok g \<longrightarrow> sg_Format g = f)"

section \<open>Signing and verifying\<close>

definition SignatureNamespace :: bytes where "SignatureNamespace = str ''sarc-archive''"
definition sshsigMagic :: bytes where "sshsigMagic = str ''SSHSIG''"
definition sshsigVersion :: u32 where "sshsigVersion = 1"
definition sshsigHashAlgo :: bytes where "sshsigHashAlgo = str ''sha512''"
definition minRSABits :: nat where "minRSABits = 2048"

definition allowedSignatureFormats :: "('p, 's) ssh \<Rightarrow> (string \<times> string) list" where
  "allowedSignatureFormats S =
     [(KeyAlgoED25519 S, KeyAlgoED25519 S), (KeyAlgoSKED25519 S, KeyAlgoSKED25519 S),
      (KeyAlgoECDSA256 S, KeyAlgoECDSA256 S), (KeyAlgoECDSA384 S, KeyAlgoECDSA384 S),
      (KeyAlgoECDSA521 S, KeyAlgoECDSA521 S), (KeyAlgoSKECDSA256 S, KeyAlgoSKECDSA256 S),
      (KeyAlgoRSA S, KeyAlgoRSASHA512 S)]"

definition appendSSHString :: "bytes \<Rightarrow> bytes \<Rightarrow> bytes" where
  "appendSSHString b s = b @ be32 (word_of_nat (length s)) @ s"

definition signedData :: "prims \<Rightarrow> bytes \<Rightarrow> bytes" where
  "signedData P message =
     appendSSHString (appendSSHString (appendSSHString (appendSSHString sshsigMagic
       SignatureNamespace) []) sshsigHashAlgo) (sha512 P message)"

definition checkRSASize :: "('p, 's) ssh \<Rightarrow> 'p \<Rightarrow> unit res" where
  "checkRSASize S pub =
     (if sh_Type S pub \<noteq> KeyAlgoRSA S then Ok ()
      else case sh_rsa_bits S pub of
        None \<Rightarrow> Err (Errorf ''crypto/signature: unreadable RSA key'')
      | Some n \<Rightarrow> if n < minRSABits then Err (Errorf ''crypto/signature: RSA key too small'') else Ok ())"

definition SignMessage :: "prims \<Rightarrow> ('p, 's) ssh \<Rightarrow> 's \<Rightarrow> bytes \<Rightarrow> bytes res" where
  "SignMessage P S signer message =
     (let pub = sh_PublicKey S signer; t = sh_Type S pub in
      case map_of (allowedSignatureFormats S) t of
        None \<Rightarrow> Err (Errorf ''crypto/signature: unsupported signing key type'')
      | Some format \<Rightarrow>
        if t = KeyAlgoSKED25519 S \<or> t = KeyAlgoSKECDSA256 S
        then Err (Errorf ''crypto/signature: unsupported signing key type'')
        else bindR (checkRSASize S pub) (\<lambda>_.
        let data = signedData P message in
        bindR (if t = KeyAlgoRSA S
               then if \<not> sh_AlgorithmSigner S signer
                    then Err (Errorf ''crypto/signature: RSA key cannot sign with SHA-512'')
                    else wrapR ''crypto/signature: sign'' (sh_SignWithAlgorithm S signer data format)
               else wrapR ''crypto/signature: sign'' (sh_Sign S signer data)) (\<lambda>sig.
          Ok (appendSSHString (appendSSHString (appendSSHString (appendSSHString (appendSSHString
                (sshsigMagic @ be32 sshsigVersion) (sh_MarshalKey S pub)) SignatureNamespace) [])
                sshsigHashAlgo) (sh_Marshal S sig)))))"

record sshsig =
  sp_publicKey :: bytes
  sp_namespace :: bytes
  sp_hashAlgo :: bytes
  sp_signature :: bytes

fun parse_fields :: "nat \<Rightarrow> bytes \<Rightarrow> (bytes list \<times> bytes) res" where
  "parse_fields 0 rest = Ok ([], rest)"
| "parse_fields (Suc k) rest =
     (if length rest < 4 then Err (ErrBadSignature ''truncated'')
      else bindR (be_uint32 rest) (\<lambda>n. bindR (cut 4 rest) (\<lambda>(_, rest).
      if length rest < unat n then Err (ErrBadSignature ''truncated'')
      else bindR (cut (unat n) rest) (\<lambda>(f, rest).
      bindR (parse_fields k rest) (\<lambda>(fs, rest). Ok (f # fs, rest))))))"

definition parseSSHSig :: "bytes \<Rightarrow> sshsig res" where
  "parseSSHSig blob =
     (if length blob < length sshsigMagic + 4 \<or> take (length sshsigMagic) blob \<noteq> sshsigMagic
      then Err (ErrBadSignature ''bad magic'')
      else bindR (cut (length sshsigMagic) blob) (\<lambda>(_, rest).
      bindR (be_uint32 rest) (\<lambda>v.
      if v \<noteq> sshsigVersion then Err (ErrBadSignature ''unsupported version'')
      else bindR (cut 4 rest) (\<lambda>(_, rest).
      bindR (parse_fields 5 rest) (\<lambda>(fs, rest).
      if rest \<noteq> [] then Err (ErrBadSignature ''trailing bytes'')
      else Ok \<lparr>sp_publicKey = fs ! 0, sp_namespace = fs ! 1, sp_hashAlgo = fs ! 3, sp_signature = fs ! 4\<rparr>)))))"

definition VerifyMessage :: "prims \<Rightarrow> ('p, 's) ssh \<Rightarrow> bytes \<Rightarrow> bytes \<Rightarrow> 'p res" where
  "VerifyMessage P S blob message =
     bindR (parseSSHSig blob) (\<lambda>p.
     bindR (failR (ErrBadSignature ''public key'') (sh_ParsePublicKey S (sp_publicKey p))) (\<lambda>pub.
     case map_of (allowedSignatureFormats S) (sh_Type S pub) of
       None \<Rightarrow> Err (ErrBadSignature ''unsupported key type'')
     | Some format \<Rightarrow>
       bindR (failR (ErrBadSignature ''RSA key'') (checkRSASize S pub)) (\<lambda>_.
       if sp_namespace p \<noteq> SignatureNamespace \<or> sp_hashAlgo p \<noteq> sshsigHashAlgo
       then Err (ErrBadSignature ''namespace or hash algorithm'')
       else bindR (failR (ErrBadSignature ''signature encoding'') (sh_Unmarshal S (sp_signature p))) (\<lambda>sig.
       if sg_Format sig \<noteq> format then Err (ErrBadSignature ''signature type not allowed'')
       else if sh_Verify S pub (signedData P message) sig then Ok pub
       else Err (ErrBadSignature ''verify'')))))"

section \<open>The signature block\<close>

definition signatureMagic :: bytes where "signatureMagic = str ''SARCSIG1''"
definition SignatureTrailerSize :: nat where "SignatureTrailerSize = 4 + length signatureMagic"
definition MaxSignatureSize :: nat where "MaxSignatureSize = 16 * 1024"

definition AppendSignatureBlock :: "bytes \<Rightarrow> bytes \<Rightarrow> bytes res" where
  "AppendSignatureBlock dst signature =
     (if length signature = 0 \<or> MaxSignatureSize < length signature
      then Err (Errorf ''archive/signature: bad signature size'')
      else Ok (dst @ signature @ le32 (word_of_nat (length signature)) @ signatureMagic))"

definition ParseSignatureTrailer :: "bytes \<Rightarrow> nat option" where
  "ParseSignatureTrailer tail =
     (if length tail \<noteq> SignatureTrailerSize \<or> drop 4 tail \<noteq> signatureMagic then None
      else let n = unat (word_le 4 tail :: u32) in
        if n = 0 \<or> MaxSignatureSize < n then None else Some n)"

section \<open>Verification accepts signatures and only them\<close>

definition ssh_string :: "bytes \<Rightarrow> bytes" where
  "ssh_string s = be32 (word_of_nat (length s)) @ s"

lemma appendSSHString_string: "appendSSHString b s = b @ ssh_string s"
  by (simp add: appendSSHString_def ssh_string_def)

lemma parse_fields_strings:
  "list_all (\<lambda>f. length f < 2 ^ 32) fs \<Longrightarrow> parse_fields (length fs) (concat (map ssh_string fs) @ r) = Ok (fs, r)"
proof (induction fs)
  case (Cons f fs)
  then have "unat (word_of_nat (length f) :: u32) = length f" by (simp add: unat_of_nat)
  with Cons show ?case by (simp add: ssh_string_def)
qed simp

lemma parseSSHSig_blob:
  assumes "length k < 2 ^ 32" and "length s < 2 ^ 32"
  shows "parseSSHSig (sshsigMagic @ be32 sshsigVersion @ concat (map ssh_string [k, SignatureNamespace, [], sshsigHashAlgo, s]))
    = Ok \<lparr>sp_publicKey = k, sp_namespace = SignatureNamespace, sp_hashAlgo = sshsigHashAlgo, sp_signature = s\<rparr>"
proof -
  let ?fs = "[k, SignatureNamespace, [], sshsigHashAlgo, s]"
  have "list_all (\<lambda>f. length f < 2 ^ 32) ?fs"
    using assms by (simp add: SignatureNamespace_def sshsigHashAlgo_def)
  from parse_fields_strings [OF this, of "[]"]
  have "parse_fields (length ?fs) (concat (map ssh_string ?fs)) = Ok (?fs, [])" by (simp only: append_Nil2)
  moreover have "length ?fs = 5" by simp
  ultimately have "parse_fields 5 (concat (map ssh_string ?fs)) = Ok (?fs, [])" by (simp only:)
  then show ?thesis by (simp add: parseSSHSig_def del: list.map concat.simps)
qed

lemma SignMessage_Ok:
  assumes "ssh_correct S" and "SignMessage P S signer m = Ok blob"
  shows "VerifyMessage P S blob m = Ok (sh_PublicKey S signer)"
proof -
  let ?pub = "sh_PublicKey S signer"
  let ?t = "sh_Type S ?pub"
  obtain format sig where fmt: "map_of (allowedSignatureFormats S) ?t = Some format"
    and sk: "?t \<noteq> KeyAlgoSKED25519 S" "?t \<noteq> KeyAlgoSKECDSA256 S" and rsa: "checkRSASize S ?pub = Ok ()"
    and sig: "(if ?t = KeyAlgoRSA S then sh_AlgorithmSigner S signer \<and> sh_SignWithAlgorithm S signer (signedData P m) format = Ok sig
       else sh_Sign S signer (signedData P m) = Ok sig)"
    and blob: "blob = sshsigMagic @ be32 sshsigVersion @ concat (map ssh_string
       [sh_MarshalKey S ?pub, SignatureNamespace, [], sshsigHashAlgo, sh_Marshal S sig])"
    using assms(2)
    by (auto simp: SignMessage_def Let_def bindR_Ok_conv appendSSHString_string split: option.splits if_splits)
  have made: "\<exists>f. sh_Sign S signer (signedData P m) = Ok sig \<or> sh_SignWithAlgorithm S signer (signedData P m) f = Ok sig"
    using sig by (auto split: if_splits)
  have v: "sh_Verify S ?pub (signedData P m) sig"
    and u: "sh_Unmarshal S (sh_Marshal S sig) = Ok sig" "length (sh_Marshal S sig) < 2 ^ 32"
    using assms(1) made unfolding ssh_correct_def by blast+
  have fm: "sg_Format sig = (if ?t = KeyAlgoRSA S then format else ?t)"
    using sig assms(1) by (auto simp: ssh_correct_def split: if_splits)
  have "?t \<noteq> KeyAlgoRSA S \<Longrightarrow> format = ?t"
    using fmt by (auto simp: allowedSignatureFormats_def split: if_splits)
  with fm have f: "sg_Format sig = format" by auto
  have k: "sh_ParsePublicKey S (sh_MarshalKey S ?pub) = Ok ?pub" "length (sh_MarshalKey S ?pub) < 2 ^ 32"
    using assms(1) by (simp_all add: ssh_correct_def Let_def)
  show ?thesis
    unfolding VerifyMessage_def blob parseSSHSig_blob [OF k(2) u(2)] using k(1) u(1) fmt rsa f v by simp
qed

text \<open>
  A signature that \<^verbatim>\<open>SignMessage\<close> produces verifies: \<^verbatim>\<open>VerifyMessage\<close> on the same message returns
  the signer's public key, for every key type the signer accepts.
\<close>

lemma signed_message_verifies:
  assumes "ssh_correct S" and "SignMessage P S signer m = Ok blob"
  shows "VerifyMessage P S blob m = Ok (sh_PublicKey S signer)"
  using assms by (rule SignMessage_Ok)


definition toy_ssh :: "(unit, unit) ssh" where
  "toy_ssh = \<lparr>KeyAlgoED25519 = ''a'', KeyAlgoSKED25519 = ''b'', KeyAlgoECDSA256 = ''c'', KeyAlgoECDSA384 = ''d'',
     KeyAlgoECDSA521 = ''e'', KeyAlgoSKECDSA256 = ''f'', KeyAlgoRSA = ''g'', KeyAlgoRSASHA512 = ''h'',
     sh_Type = (\<lambda>p. ''a''), sh_MarshalKey = (\<lambda>p. [7]), sh_ParsePublicKey = (\<lambda>b. Ok ()),
     sh_rsa_bits = (\<lambda>p. None), sh_Verify = (\<lambda>p d g. True), sh_PublicKey = (\<lambda>s. ()),
     sh_AlgorithmSigner = (\<lambda>s. False), sh_Sign = (\<lambda>s d. Ok \<lparr>sg_Format = ''a'', sg_Blob = []\<rparr>),
     sh_SignWithAlgorithm = (\<lambda>s d f. Err EOF),
     sh_Marshal = (\<lambda>g. [9]), sh_Unmarshal = (\<lambda>b. Ok \<lparr>sg_Format = ''a'', sg_Blob = []\<rparr>)\<rparr>"

lemma toy_ssh_correct: "ssh_correct toy_ssh"
  by (simp add: ssh_correct_def toy_ssh_def)

lemma toy_signature: "\<exists>blob. SignMessage toy_prims toy_ssh () [1, 2] = Ok blob"
  by (simp add: SignMessage_def toy_ssh_def allowedSignatureFormats_def checkRSASize_def Let_def)

theorem signed_message_verifies_witness:
  "\<exists>blob. SignMessage toy_prims toy_ssh () [1, 2] = Ok blob \<and> VerifyMessage toy_prims toy_ssh blob [1, 2] = Ok ()"
  using toy_signature signed_message_verifies [OF toy_ssh_correct, of toy_prims "()" "[1, 2]"] by auto


section \<open>Finding the signature block\<close>

lemma signature_trailer:
  assumes "AppendSignatureBlock dst s = Ok b"
  shows "ParseSignatureTrailer (drop (length b - SignatureTrailerSize) b) = Some (length s)
    \<and> take (length s) (drop (length b - SignatureTrailerSize - length s) b) = s
    \<and> take (length b - SignatureTrailerSize - length s) b = dst"
proof -
  have s: "s \<noteq> []" "length s \<le> MaxSignatureSize"
    and b: "b = dst @ s @ le32 (word_of_nat (length s)) @ signatureMagic"
    using assms by (auto simp: AppendSignatureBlock_def split: if_splits)
  have n: "unat (word_of_nat (length s) :: u32) = length s"
    using s(2) by (simp add: unat_of_nat MaxSignatureSize_def)
  have "word_le 4 (le32 (word_of_nat (length s)) @ signatureMagic) = (word_of_nat (length s) :: u32)"
    unfolding le32_def by (rule word_le_enc) simp
  then show ?thesis
    using s n by (simp add: b ParseSignatureTrailer_def SignatureTrailerSize_def)
qed

lemma ParseSignatureTrailer_zero: "ParseSignatureTrailer (t @ [0]) = None"
proof -
  have "drop 4 (t @ [0]) \<noteq> signatureMagic"
  proof
    assume "drop 4 (t @ [0]) = signatureMagic"
    moreover have "last signatureMagic = 0x31" by (simp add: signatureMagic_def str_def)
    ultimately show False by (cases "length t < 4") (auto simp: signatureMagic_def str_def split: if_splits)
  qed
  then show ?thesis by (simp add: ParseSignatureTrailer_def)
qed

text \<open>
  A signature block is found again behind an archive and gives the signature and the
  archive back exactly, and an archive that ends with a zero byte, as every unsigned one
  does, is never taken for a signed one.
\<close>

theorem signature_block_found:
  "(AppendSignatureBlock dst s = Ok b \<longrightarrow>
      ParseSignatureTrailer (drop (length b - SignatureTrailerSize) b) = Some (length s)
      \<and> take (length s) (drop (length b - SignatureTrailerSize - length s) b) = s
      \<and> take (length b - SignatureTrailerSize - length s) b = dst)
   \<and> ParseSignatureTrailer (t @ [0]) = None"
  using signature_trailer ParseSignatureTrailer_zero by simp

theorem signature_block_found_witness:
  "AppendSignatureBlock [1] [2, 3] = Ok ([1, 2, 3] @ le32 2 @ signatureMagic)
   \<and> ParseSignatureTrailer (le32 2 @ signatureMagic) = Some 2"
proof -
  have a: "AppendSignatureBlock [1] [2, 3] = Ok ([1, 2, 3] @ le32 2 @ signatureMagic)"
    by (simp add: AppendSignatureBlock_def MaxSignatureSize_def)
  from signature_block_found [of "[1]" "[2, 3]" "[1, 2, 3] @ le32 2 @ signatureMagic" "[]"] a show ?thesis
    by (simp add: SignatureTrailerSize_def)
qed

end
