(* ===== verification/Archive_Session.thy ===== *)
theory Archive_Session
  imports Solid_Groups Signature
begin

text \<open>
  Writing a one-pass archive file by file: collecting its directory (\<^verbatim>\<open>io/directory.go\<close>),
  directories and links (\<^verbatim>\<open>io/special.go\<close>), the end of an archive (\<^verbatim>\<open>io/signature.go\<close>) and the
  \<^verbatim>\<open>StreamingArchiver\<close> (\<^verbatim>\<open>io/streaming.go\<close>).
\<close>

section \<open>The state of an archiver\<close>

record directoryBuilder =
  dd_plaintext :: bytes
  dd_full :: bool

definition newDirectoryBuilder :: directoryBuilder where
  "newDirectoryBuilder = \<lparr>dd_plaintext = NewDirectory, dd_full = False\<rparr>"

text \<open>
  What every archiver holds: the archive writer, the bytes \<^verbatim>\<open>crypto/rand\<close> is going to return,
  the directory, and the failures reported to the progress tracker so far.
\<close>

record session =
  ss_w :: ArchiveWriter
  ss_rnd :: bytes
  ss_dir :: directoryBuilder
  ss_errors :: "(bytes \<times> ArchiveError) list"

record StreamingArchiver = session +
  sa_special :: "inputFile list"
  sa_pending :: "inputFile list"
  sa_pendingSize :: nat

definition onWriter :: "'a writing \<Rightarrow> ('z session_scheme, 'a) op" where
  "onWriter m s = (case m (ss_w s, ss_rnd s) of (r, (aw, rnd)) \<Rightarrow> (r, s\<lparr>ss_w := aw, ss_rnd := rnd\<rparr>))"

definition FileError :: "bytes \<Rightarrow> ArchiveError \<Rightarrow> ('z session_scheme, unit) op" where
  "FileError path e s = (Val (), s\<lparr>ss_errors := ss_errors s @ [(path, e)]\<rparr>)"

definition updateS :: "('s \<Rightarrow> 's) \<Rightarrow> ('s, unit) op" where
  "updateS f s = (Val (), f s)"

definition withS :: "('s \<Rightarrow> ('s, 'a) op) \<Rightarrow> ('s, 'a) op" where
  "withS f s = f s s"

section \<open>The directory\<close>

definition dir_add :: "DirectoryRecord \<Rightarrow> ('z session_scheme, unit) op" where
  "dir_add r s =
     (if dd_full (ss_dir s) then (Val (), s)
      else case AppendDirectoryRecord (dd_plaintext (ss_dir s)) r of
        Err e \<Rightarrow> (Fail (writeFailed ''record directory entry'' e), s)
      | Panic \<Rightarrow> (Crash, s)
      | Ok out \<Rightarrow>
          if MaxDirectorySize < length out then (Val (), s\<lparr>ss_dir := \<lparr>dd_plaintext = [], dd_full = True\<rparr>\<rparr>)
          else (Val (), s\<lparr>ss_dir := (ss_dir s)\<lparr>dd_plaintext := out\<rparr>\<rparr>))"

definition specialSummary :: entrySummary where
  "specialSummary = \<lparr>es_bucket = BucketTiny, es_codec = CodecNone, es_original = 0\<rparr>"

definition dir_addEntry :: "inputFile \<Rightarrow> entrySummary \<Rightarrow> ('z session_scheme, unit) op" where
  "dir_addEntry inp summary =
     withS (\<lambda>s. case LastEntry (ss_w s) of (off, stored) \<Rightarrow>
       dir_add \<lparr>dr_Offset = word_of_nat off, dr_Name = in_name inp, dr_Attributes = in_attrs inp,
         dr_SizeBucket = es_bucket summary, dr_Codec = es_codec summary, dr_Solid = False,
         dr_OriginalSize = word_of_nat (es_original summary), dr_StoredSize = word_of_int stored\<rparr>)"

definition member_record :: "nat \<Rightarrow> solidMemberResult \<Rightarrow> DirectoryRecord" where
  "member_record off m =
     \<lparr>dr_Offset = word_of_nat off, dr_Name = sr_name m, dr_Attributes = sr_attrs m,
      dr_SizeBucket = BucketizeSize (int (sr_size m)), dr_Codec = sr_codec m, dr_Solid = True,
      dr_OriginalSize = word_of_nat (sr_size m), dr_StoredSize = word_of_int (sr_stored m)\<rparr>"

fun dir_addMembers :: "nat \<Rightarrow> solidMemberResult list \<Rightarrow> ('z session_scheme, unit) op" where
  "dir_addMembers off [] = returnS ()"
| "dir_addMembers off (m # ms) =
     (if sr_err m \<noteq> None then dir_addMembers off ms
      else bindS (dir_add (member_record off m)) (\<lambda>_. dir_addMembers off ms))"

definition dir_addSolid :: "solidMemberResult list \<Rightarrow> ('z session_scheme, unit) op" where
  "dir_addSolid members = withS (\<lambda>s. dir_addMembers (fst (LastEntry (ss_w s))) members)"

definition dir_write :: "prims \<Rightarrow> zstd \<Rightarrow> sink \<Rightarrow> ('z session_scheme, unit) op" where
  "dir_write P Z K =
     withS (\<lambda>s. if dd_full (ss_dir s) then returnS ()
       else
         let offset = aw_offset (ss_w s); plaintext = dd_plaintext (ss_dir s) in
         bindS (onWriter (sealPayloadEntry P Z EntryTypeDirectory CodecNone plaintext plaintext)) (\<lambda>entry.
         bindS (onWriter (writeS (writeFailed ''write directory'') (WriteFileEntry K entry))) (\<lambda>_.
         onWriter (writeS (writeFailed ''write directory locator'') (WriteDirectoryLocator K offset)))))"

section \<open>Directories and links\<close>

fun writeSpecialEntries :: "prims \<Rightarrow> sink \<Rightarrow> inputFile list \<Rightarrow> ('z session_scheme, unit) op" where
  "writeSpecialEntries P K [] = returnS ()"
| "writeSpecialEntries P K (inp # special) =
     bindS (onWriter (sealSpecialEntry P inp)) (\<lambda>entry.
     bindS (onWriter (writeS (writeFailed ''write entry'') (WriteFileEntry K entry))) (\<lambda>_.
     bindS (dir_addEntry inp specialSummary) (\<lambda>_.
     writeSpecialEntries P K special)))"

section \<open>The end of an archive\<close>

definition signatureBlock :: "prims \<Rightarrow> ('p, 's) ssh \<Rightarrow> bytes \<Rightarrow> 's \<Rightarrow> ('t, bytes) op" where
  "signatureBlock P S checksum signer =
     bindS (callS (\<lambda>e. fatal ErrCodeInvalidOption ''sign archive'' (Some e)) (SignMessage P S signer checksum)) (\<lambda>signature.
     callS (\<lambda>e. fatal ErrCodeInvalidOption ''sign archive'' (Some e)) (AppendSignatureBlock [] signature))"

text \<open>The signature goes to the output itself, behind the flushed buffer and past the tee.\<close>

definition finishArchive ::
  "prims \<Rightarrow> zstd \<Rightarrow> sink \<Rightarrow> ('p, 's) ssh \<Rightarrow> 's option \<Rightarrow> ('z session_scheme, unit) op" where
  "finishArchive P Z K S signer =
     bindS (dir_write P Z K) (\<lambda>_.
     bindS (onWriter (writeS (writeFailed ''write footer'') (WriteFooter P K))) (\<lambda>_.
     case signer of
       None \<Rightarrow> returnS ()
     | Some sg \<Rightarrow>
         bindS (withS (\<lambda>s. signatureBlock P S (aw_checksum (ss_w s)) sg)) (\<lambda>block.
         onWriter (writeS (writeFailed ''write signature'') (raw_Write K block)))))"

section \<open>The streaming archiver\<close>

text \<open>
  \<^verbatim>\<open>openArchiveWriter\<close> after the options are applied: the policy, the writer and the header of an
  archive whose file count is not known yet.
\<close>

record 'r archiverConfig =
  cf_compression :: CompressionOptions
  cf_keyFiles :: "KeyFile list"
  cf_ageRecipients :: "'r list"

definition archiveCredentials :: "bytes \<Rightarrow> 'r archiverConfig \<Rightarrow> 'r Credentials" where
  "archiveCredentials password cfg =
     \<lparr>c_Passwords = (if password \<noteq> [] then [password] else []), c_KeyFiles = cf_keyFiles cfg,
      c_AgeRecipients = cf_ageRecipients cfg\<rparr>"

definition newCredentialedWriter ::
  "prims \<Rightarrow> ('r, 'i) age \<Rightarrow> bytes \<Rightarrow> 'r archiverConfig \<Rightarrow> (bytes, ArchiveWriter) op" where
  "newCredentialedWriter P A password cfg rnd =
     (if password = [] \<and> cf_keyFiles cfg = [] \<and> cf_ageRecipients cfg = []
      then (Fail (fatal ErrCodeInvalidOption ''a password, key file, or age recipient is required'' None), rnd)
      else case NewArchiveWriter P A (archiveCredentials password cfg) rnd of
        Ok (aw, rnd) \<Rightarrow> (Val aw, rnd)
      | Err e \<Rightarrow> (Fail (writeFailed ''init archive writer'' e), rnd)
      | Panic \<Rightarrow> (Crash, rnd))"

definition openArchiveWriter ::
  "prims \<Rightarrow> ('r, 'i) age \<Rightarrow> zstd \<Rightarrow> nat \<Rightarrow> sink \<Rightarrow> bytes \<Rightarrow> 'r archiverConfig
   \<Rightarrow> (bytes, ArchiveWriter \<times> compressionPolicy) op" where
  "openArchiveWriter P A Z procs K password cfg =
     bindS (callS (\<lambda>e. fatal ErrCodeInvalidOption ''invalid compression options'' (Some e))
       (newCompressionPolicy Z procs (cf_compression cfg))) (\<lambda>policy.
     bindS (newCredentialedWriter P A password cfg) (\<lambda>aw rnd.
       case WriteHeader P K 0 aw rnd of
         Ok (aw, rnd) \<Rightarrow> (Val (aw, policy), rnd)
       | Err e \<Rightarrow> (Fail (writeFailed ''write header'' e), rnd)
       | Panic \<Rightarrow> (Crash, rnd)))"

definition newStreaming :: "ArchiveWriter \<Rightarrow> bytes \<Rightarrow> StreamingArchiver" where
  "newStreaming aw rnd = \<lparr>ss_w = aw, ss_rnd = rnd, ss_dir = newDirectoryBuilder, ss_errors = [],
     sa_special = [], sa_pending = [], sa_pendingSize = 0\<rparr>"

definition NewStreamingArchiver ::
  "prims \<Rightarrow> ('r, 'i) age \<Rightarrow> zstd \<Rightarrow> nat \<Rightarrow> sink \<Rightarrow> bytes \<Rightarrow> 'r archiverConfig
   \<Rightarrow> (bytes, StreamingArchiver \<times> compressionPolicy) op" where
  "NewStreamingArchiver P A Z procs K password cfg =
     bindS (openArchiveWriter P A Z procs K password cfg) (\<lambda>(aw, policy) rnd. (Val (newStreaming aw rnd, policy), rnd))"

type_synonym 'a streaming = "(StreamingArchiver, 'a) op"

definition addStreamed ::
  "prims \<Rightarrow> zstd \<Rightarrow> sink \<Rightarrow> os \<Rightarrow> (bytes \<Rightarrow> bytes) \<Rightarrow> compressionPolicy \<Rightarrow> inputFile \<Rightarrow> ('z session_scheme, unit) op" where
  "addStreamed P Z K fs lower policy inp =
     bindS (onWriter (addFileStreaming P Z K fs lower policy inp)) (\<lambda>summary. dir_addEntry inp summary)"

text \<open>The failures of the members of a group, as reported to the tracker.\<close>

fun reportSolidMembers :: "solidMemberResult list \<Rightarrow> ('z session_scheme, unit) op" where
  "reportSolidMembers [] = returnS ()"
| "reportSolidMembers (m # ms) =
     (case sr_err m of
        Some e \<Rightarrow> bindS (FileError (sr_path m) e) (\<lambda>_. reportSolidMembers ms)
      | None \<Rightarrow> reportSolidMembers ms)"

definition orReport :: "bytes \<Rightarrow> ('z session_scheme, unit) op \<Rightarrow> ('z session_scheme, unit) op" where
  "orReport path m = catchS m (\<lambda>e. if IsFatal e then failS e else FileError path e)"

definition write_group ::
  "prims \<Rightarrow> zstd \<Rightarrow> sink \<Rightarrow> os \<Rightarrow> (bytes \<Rightarrow> bytes) \<Rightarrow> compressionPolicy \<Rightarrow> inputFile list \<Rightarrow> ('z session_scheme, unit) op" where
  "write_group P Z K fs lower policy members =
     bindS (onWriter (buildSolidEntry P Z fs lower policy members)) (\<lambda>(entry, results).
     bindS (case entry of
         None \<Rightarrow> returnS ()
       | Some en \<Rightarrow>
           bindS (onWriter (writeS (writeFailed ''write solid entry'') (WriteFileEntry K en))) (\<lambda>_. dir_addSolid results)) (\<lambda>_.
     reportSolidMembers results))"

definition flushSolid ::
  "prims \<Rightarrow> zstd \<Rightarrow> sink \<Rightarrow> os \<Rightarrow> (bytes \<Rightarrow> bytes) \<Rightarrow> compressionPolicy \<Rightarrow> unit streaming" where
  "flushSolid P Z K fs lower policy =
     withS (\<lambda>s.
       bindS (updateS (\<lambda>s. s\<lparr>sa_pending := [], sa_pendingSize := 0\<rparr>)) (\<lambda>_.
       case sa_pending s of
         [] \<Rightarrow> returnS ()
       | [inp] \<Rightarrow> orReport (in_path inp) (addStreamed P Z K fs lower policy inp)
       | members \<Rightarrow> write_group P Z K fs lower policy members))"

definition addInput ::
  "prims \<Rightarrow> zstd \<Rightarrow> sink \<Rightarrow> os \<Rightarrow> (bytes \<Rightarrow> bytes) \<Rightarrow> compressionPolicy \<Rightarrow> inputFile \<Rightarrow> unit streaming" where
  "addInput P Z K fs lower policy inp =
     (case (if po_solid policy then solidCandidate fs inp else None) of
        None \<Rightarrow> addStreamed P Z K fs lower policy inp
      | Some record \<Rightarrow>
          bindS (withS (\<lambda>s. if MaxSolidStreamSize < sa_pendingSize s + record then flushSolid P Z K fs lower policy else returnS ())) (\<lambda>_.
          updateS (\<lambda>s. s\<lparr>sa_pending := sa_pending s @ [inp], sa_pendingSize := sa_pendingSize s + record\<rparr>)))"

text \<open>
  The part of \<^verbatim>\<open>AddFile\<close> that follows the walk over a directory argument: links and directories
  wait for the end, a file that fails with a recoverable error is reported.
\<close>

fun addInputs ::
  "prims \<Rightarrow> zstd \<Rightarrow> sink \<Rightarrow> os \<Rightarrow> (bytes \<Rightarrow> bytes) \<Rightarrow> compressionPolicy \<Rightarrow> inputFile list \<Rightarrow> unit streaming" where
  "addInputs P Z K fs lower policy [] = returnS ()"
| "addInputs P Z K fs lower policy (inp # files) =
     bindS (orReport (in_path inp) (addInput P Z K fs lower policy inp)) (\<lambda>_. addInputs P Z K fs lower policy files)"

definition splitSpecial :: "inputFile list \<Rightarrow> inputFile list \<times> inputFile list" where
  "splitSpecial files = (filter in_regular files, filter (\<lambda>f. \<not> in_regular f) files)"

definition addWalked ::
  "prims \<Rightarrow> zstd \<Rightarrow> sink \<Rightarrow> os \<Rightarrow> (bytes \<Rightarrow> bytes) \<Rightarrow> compressionPolicy \<Rightarrow> inputFile list \<Rightarrow> unit streaming" where
  "addWalked P Z K fs lower policy entries =
     (case splitSpecial entries of (files, special) \<Rightarrow>
      bindS (updateS (\<lambda>s. s\<lparr>sa_special := sa_special s @ special\<rparr>)) (\<lambda>_. addInputs P Z K fs lower policy files))"

definition Finalize ::
  "prims \<Rightarrow> zstd \<Rightarrow> sink \<Rightarrow> os \<Rightarrow> (bytes \<Rightarrow> bytes) \<Rightarrow> compressionPolicy \<Rightarrow> ('p, 's) ssh \<Rightarrow> 's option \<Rightarrow> unit streaming" where
  "Finalize P Z K fs lower policy S signer =
     bindS (flushSolid P Z K fs lower policy) (\<lambda>_.
     bindS (withS (\<lambda>s. writeSpecialEntries P K (sa_special s))) (\<lambda>_.
     finishArchive P Z K S signer))"

end
