(* ===== verification/Job_Pool.thy ===== *)
theory Job_Pool
  imports Archive_Session Worker_Pool
begin

text \<open>
  The worker pool of the concurrent archiver (\<^verbatim>\<open>archiveJobs\<close> of \<^verbatim>\<open>io/concurrent.go\<close>).  A dispatcher hands the
  jobs to the workers; the calling goroutine writes their results in job order, and streams the
  large files itself.  The theory has the goroutines as a step relation over what the jobs do, and
  shows that every interleaving does what running the jobs one after the other does, that it
  always ends with no goroutine left behind, and that the window of results is bounded.
\<close>

section \<open>Jobs\<close>

definition resultLookahead :: nat where "resultLookahead = 2"

record fileJob =
  fj_index :: nat
  fj_in :: inputFile
  fj_members :: "inputFile list option"
  fj_inline :: bool

section \<open>The goroutines\<close>

text \<open>
  Where the dispatcher is: at the head of its loop, at the second \<^verbatim>\<open>select\<close> with a slot taken, or
  gone, with \<^verbatim>\<open>work\<close> closed.  Where the writer is: before a job, between its receives from the result
  channel and from \<^verbatim>\<open>slots\<close>, or returned, with \<^verbatim>\<open>done\<close> closed.  The writer carries \<^verbatim>\<open>totalBytes\<close>; what
  it returns on success are the totals it tells the progress tracker.
\<close>

datatype dispatching = Looping "fileJob list" | Sending fileJob "fileJob list" | Closed

datatype 'r resultWriter = Writing "fileJob list" nat | Releasing 'r "fileJob list" nat | Returned "(nat \<times> nat) outcome"

text \<open>\<open>jp_busy\<close> are the jobs that workers hold, \<open>jp_results\<close> the filled result channels, \<open>jp_slots\<close> the tokens in \<^verbatim>\<open>slots\<close>.\<close>

record ('s, 'r) jobPool =
  jp_dispatcher :: dispatching
  jp_slots :: nat
  jp_busy :: "fileJob list"
  jp_results :: "nat \<Rightarrow> 'r option"
  jp_writer :: "'r resultWriter"
  jp_session :: 's

definition jobs_start :: "fileJob list \<Rightarrow> 's \<Rightarrow> ('s, 'r) jobPool" where
  "jobs_start jobs s = \<lparr>jp_dispatcher = Looping jobs, jp_slots = 0, jp_busy = [], jp_results = Map.empty,
     jp_writer = Writing jobs 0, jp_session = s\<rparr>"

definition after_job :: "nat outcome \<Rightarrow> fileJob list \<Rightarrow> nat \<Rightarrow> 'r resultWriter" where
  "after_job r jobs n = (case r of Val m \<Rightarrow> Writing jobs (n + m) | Fail e \<Rightarrow> Returned (Fail e) | Crash \<Rightarrow> Returned Crash)"

definition after_jobs :: "unit outcome \<Rightarrow> nat \<Rightarrow> nat \<Rightarrow> 'r resultWriter" where
  "after_jobs r files n = Returned (case r of Val u \<Rightarrow> Val (files, n) | Fail e \<Rightarrow> Fail e | Crash \<Rightarrow> Crash)"

abbreviation returned :: "('s, 'r) jobPool \<Rightarrow> bool" where
  "returned p \<equiv> \<exists>r. jp_writer p = Returned r"

text \<open>
  The parameters say what a worker makes of a job in the present state of the archiver, \<open>None\<close> when
  it panics and takes the process down; what the writer does with a result and with an inline job;
  and what it does after the last job.  \<^verbatim>\<open>work\<close> has no buffer: a job goes from the dispatcher to an idle
  worker in one step.  Once \<^verbatim>\<open>done\<close> is closed a \<^verbatim>\<open>select\<close> may take either branch.
\<close>

inductive jobs_step ::
  "('s \<Rightarrow> fileJob \<Rightarrow> 'r option) \<Rightarrow> ('r \<Rightarrow> ('s, nat) op) \<Rightarrow> (inputFile \<Rightarrow> ('s, nat) op) \<Rightarrow> ('s, unit) op \<Rightarrow> nat \<Rightarrow> nat
   \<Rightarrow> ('s, 'r) jobPool \<Rightarrow> ('s, 'r) jobPool \<Rightarrow> bool"
  for run :: "'s \<Rightarrow> fileJob \<Rightarrow> 'r option" and emit :: "'r \<Rightarrow> ('s, nat) op" and inl :: "inputFile \<Rightarrow> ('s, nat) op"
    and finish :: "('s, unit) op" and workers files :: nat where
  skip: "jp_dispatcher p = Looping (j # js) \<Longrightarrow> fj_inline j \<Longrightarrow>
    jobs_step run emit inl finish workers files p (p\<lparr>jp_dispatcher := Looping js\<rparr>)"
| slot: "jp_dispatcher p = Looping (j # js) \<Longrightarrow> \<not> fj_inline j \<Longrightarrow> jp_slots p < workers + resultLookahead \<Longrightarrow>
    jobs_step run emit inl finish workers files p (p\<lparr>jp_dispatcher := Sending j js, jp_slots := Suc (jp_slots p)\<rparr>)"
| hand: "jp_dispatcher p = Sending j js \<Longrightarrow> length (jp_busy p) < workers \<Longrightarrow>
    jobs_step run emit inl finish workers files p (p\<lparr>jp_dispatcher := Looping js, jp_busy := j # jp_busy p\<rparr>)"
| close: "jp_dispatcher p = Looping [] \<Longrightarrow>
    jobs_step run emit inl finish workers files p (p\<lparr>jp_dispatcher := Closed\<rparr>)"
| quit_slot: "jp_dispatcher p = Looping (j # js) \<Longrightarrow> \<not> fj_inline j \<Longrightarrow> returned p \<Longrightarrow>
    jobs_step run emit inl finish workers files p (p\<lparr>jp_dispatcher := Closed\<rparr>)"
| quit_send: "jp_dispatcher p = Sending j js \<Longrightarrow> returned p \<Longrightarrow>
    jobs_step run emit inl finish workers files p (p\<lparr>jp_dispatcher := Closed\<rparr>)"
| deliver: "n < length (jp_busy p) \<Longrightarrow> jp_busy p ! n = j \<Longrightarrow> run (jp_session p) j = Some r \<Longrightarrow> jp_results p (fj_index j) = None \<Longrightarrow>
    jobs_step run emit inl finish workers files p
      (p\<lparr>jp_busy := take n (jp_busy p) @ drop (Suc n) (jp_busy p), jp_results := (jp_results p)(fj_index j \<mapsto> r)\<rparr>)"
| panic: "j \<in> set (jp_busy p) \<Longrightarrow> run (jp_session p) j = None \<Longrightarrow>
    jobs_step run emit inl finish workers files p (p\<lparr>jp_dispatcher := Closed, jp_busy := [], jp_writer := Returned Crash\<rparr>)"
| inline: "jp_writer p = Writing (j # js) n \<Longrightarrow> fj_inline j \<Longrightarrow> inl (fj_in j) (jp_session p) = (r, s) \<Longrightarrow>
    jobs_step run emit inl finish workers files p (p\<lparr>jp_writer := after_job r js n, jp_session := s\<rparr>)"
| receive: "jp_writer p = Writing (j # js) n \<Longrightarrow> \<not> fj_inline j \<Longrightarrow> jp_results p (fj_index j) = Some x \<Longrightarrow>
    jobs_step run emit inl finish workers files p
      (p\<lparr>jp_writer := Releasing x js n, jp_results := (jp_results p)(fj_index j := None)\<rparr>)"
| release: "jp_writer p = Releasing x js n \<Longrightarrow> 0 < jp_slots p \<Longrightarrow> emit x (jp_session p) = (r, s) \<Longrightarrow>
    jobs_step run emit inl finish workers files p
      (p\<lparr>jp_slots := jp_slots p - 1, jp_writer := after_job r js n, jp_session := s\<rparr>)"
| finish: "jp_writer p = Writing [] n \<Longrightarrow> finish (jp_session p) = (r, s) \<Longrightarrow>
    jobs_step run emit inl finish workers files p (p\<lparr>jp_writer := after_jobs r files n, jp_session := s\<rparr>)"

text \<open>Over: the writer has returned, the dispatcher is gone and the workers, idle, find \<^verbatim>\<open>work\<close> closed.\<close>

definition jobs_over :: "('s, 'r) jobPool \<Rightarrow> bool" where
  "jobs_over p \<longleftrightarrow> returned p \<and> jp_dispatcher p = Closed \<and> jp_busy p = []"

section \<open>One job after the other\<close>

text \<open>What the pool implements: every job is run and written before the next one.\<close>

definition run_write ::
  "('s \<Rightarrow> fileJob \<Rightarrow> 'r option) \<Rightarrow> ('r \<Rightarrow> ('s, nat) op) \<Rightarrow> (inputFile \<Rightarrow> ('s, nat) op) \<Rightarrow> fileJob \<Rightarrow> ('s, nat) op" where
  "run_write run emit inl j s =
     (if fj_inline j then inl (fj_in j) s
      else case run s j of Some x \<Rightarrow> emit x s | None \<Rightarrow> (Crash, s))"

fun archive_seq ::
  "('s \<Rightarrow> fileJob \<Rightarrow> 'r option) \<Rightarrow> ('r \<Rightarrow> ('s, nat) op) \<Rightarrow> (inputFile \<Rightarrow> ('s, nat) op) \<Rightarrow> ('s, unit) op \<Rightarrow> nat
   \<Rightarrow> fileJob list \<Rightarrow> nat \<Rightarrow> ('s, nat \<times> nat) op" where
  "archive_seq run emit inl finish files [] n = bindS finish (\<lambda>_. returnS (files, n))"
| "archive_seq run emit inl finish files (j # js) n =
     bindS (run_write run emit inl j) (\<lambda>m. archive_seq run emit inl finish files js (n + m))"

section \<open>The invariant\<close>

text \<open>
  The jobs the dispatcher has still to take, the jobs that are on their way to a result, and the
  jobs \<open>flight\<close> that have a slot: each of them is on its way or its result channel is filled.  While the
  writer has not returned, it has exactly the jobs in flight and those not yet dispatched before it.
\<close>

abbreviation pooled :: "fileJob list \<Rightarrow> fileJob list" where
  "pooled js \<equiv> filter (\<lambda>j. \<not> fj_inline j) js"

fun queue_of :: "dispatching \<Rightarrow> fileJob list" where
  "queue_of (Looping js) = pooled js"
| "queue_of (Sending j js) = pooled js"
| "queue_of Closed = []"

fun sending_of :: "dispatching \<Rightarrow> fileJob list" where
  "sending_of (Sending j js) = [j]"
| "sending_of _ = []"

definition jobs_owned :: "('s, 'r) jobPool \<Rightarrow> fileJob list" where
  "jobs_owned p = sending_of (jp_dispatcher p) @ jp_busy p"

text \<open>The job's result channel agrees with who holds the job.\<close>

definition settled :: "('s \<Rightarrow> fileJob \<Rightarrow> 'r option) \<Rightarrow> ('s, 'r) jobPool \<Rightarrow> fileJob \<Rightarrow> bool" where
  "settled run p j \<longleftrightarrow> jp_results p (fj_index j) = (if j \<in> set (jobs_owned p) then None else run (jp_session p) j)"

fun writer_sees :: "'r resultWriter \<Rightarrow> nat \<Rightarrow> fileJob list \<Rightarrow> fileJob list \<Rightarrow> bool" where
  "writer_sees (Writing js n) slots flight queue \<longleftrightarrow> pooled js = flight @ queue \<and> slots = length flight"
| "writer_sees (Releasing x js n) slots flight queue \<longleftrightarrow> pooled js = flight @ queue \<and> slots = Suc (length flight)"
| "writer_sees (Returned r) slots flight queue \<longleftrightarrow> length flight \<le> slots"

definition jobs_flight :: "('s \<Rightarrow> fileJob \<Rightarrow> 'r option) \<Rightarrow> nat \<Rightarrow> ('s, 'r) jobPool \<Rightarrow> fileJob list \<Rightarrow> bool" where
  "jobs_flight run workers p flight \<longleftrightarrow>
     distinct (map fj_index (flight @ queue_of (jp_dispatcher p))) \<and> distinct (jobs_owned p)
     \<and> set (jobs_owned p) \<subseteq> set flight \<and> (\<forall>j \<in> set flight. settled run p j)
     \<and> dom (jp_results p) \<subseteq> fj_index ` set flight
     \<and> (\<forall>j \<in> set (flight @ queue_of (jp_dispatcher p)). run (jp_session p) j \<noteq> None)
     \<and> writer_sees (jp_writer p) (jp_slots p) flight (queue_of (jp_dispatcher p)) \<and> length (jp_busy p) \<le> workers \<and> jp_slots p \<le> workers + resultLookahead"

definition jobs_inv :: "('s \<Rightarrow> fileJob \<Rightarrow> 'r option) \<Rightarrow> nat \<Rightarrow> ('s, 'r) jobPool \<Rightarrow> bool" where
  "jobs_inv run workers p \<longleftrightarrow> (\<exists>flight. jobs_flight run workers p flight)"


lemmas flight_defs = jobs_flight_def jobs_owned_def settled_def

lemma remove_nth:
  assumes "distinct xs" and "n < length xs"
  shows "distinct (take n xs @ drop (Suc n) xs) \<and> set (take n xs @ drop (Suc n) xs) = set xs - {xs ! n}"
proof -
  obtain a b where "xs = a @ xs ! n # b" "take n xs @ drop (Suc n) xs = a @ b" using id_take_nth_drop [OF assms(2)] by blast
  with assms(1) show ?thesis by (metis (no_types, lifting) Diff_insert_absorb Un_insert_right distinct.simps(2) distinct_append
    insert_iff list.simps(15) mset.simps(2) mset_append mset_eq_imp_distinct_iff set_append union_mset_add_mset_right)
qed

lemma jobs_start_inv:
  assumes "distinct (map fj_index jobs)" and "\<forall>j \<in> set (pooled jobs). run s j \<noteq> None"
  shows "jobs_inv run workers (jobs_start jobs s)"
  unfolding jobs_inv_def
proof (rule exI [of _ "[]"])
  show "jobs_flight run workers (jobs_start jobs s) []"
    using assms by (auto simp: flight_defs jobs_start_def distinct_map_filter)
qed

fun dispatch_weight :: "dispatching \<Rightarrow> nat" where
  "dispatch_weight (Looping js) = 4 * length js + 1"
| "dispatch_weight (Sending j js) = 4 * length js + 3"
| "dispatch_weight Closed = 0"

fun writer_weight :: "'r resultWriter \<Rightarrow> nat" where
  "writer_weight (Writing js n) = 2 * length js + 1"
| "writer_weight (Releasing x js n) = 2 * length js + 2"
| "writer_weight (Returned r) = 0"

definition jobs_weight :: "('s, 'r) jobPool \<Rightarrow> nat" where
  "jobs_weight p = dispatch_weight (jp_dispatcher p) + length (jp_busy p) + writer_weight (jp_writer p)"

lemma after_job_weight: "writer_weight (after_job r js n) \<le> 2 * length js + 1"
  by (simp add: after_job_def split: outcome.split)

lemma jobs_step_weight: "jobs_step run emit inl finish workers files p q \<Longrightarrow> jobs_weight q < jobs_weight p"
proof (induction rule: jobs_step.induct)
  case (inline p j js n r s)
  then show ?case by (auto simp: jobs_weight_def intro: le_less_trans [OF after_job_weight])
next
  case (release p x js n r s)
  then show ?case by (auto simp: jobs_weight_def intro: le_less_trans [OF after_job_weight])
next
  case (panic j p)
  then have "0 < length (jp_busy p)" by auto
  then show ?case by (simp add: jobs_weight_def)
qed (auto simp: jobs_weight_def after_jobs_def)

text \<open>What the writer will have done in the end.\<close>

fun writer_rest ::
  "('s \<Rightarrow> fileJob \<Rightarrow> 'r option) \<Rightarrow> ('r \<Rightarrow> ('s, nat) op) \<Rightarrow> (inputFile \<Rightarrow> ('s, nat) op) \<Rightarrow> ('s, unit) op \<Rightarrow> nat
   \<Rightarrow> 'r resultWriter \<Rightarrow> ('s, nat \<times> nat) op" where
  "writer_rest run emit inl finish files (Writing js n) s = archive_seq run emit inl finish files js n s"
| "writer_rest run emit inl finish files (Releasing x js n) s =
     bindS (emit x) (\<lambda>m. archive_seq run emit inl finish files js (n + m)) s"
| "writer_rest run emit inl finish files (Returned r) s = (r, s)"

definition jobs_rest ::
  "('s \<Rightarrow> fileJob \<Rightarrow> 'r option) \<Rightarrow> ('r \<Rightarrow> ('s, nat) op) \<Rightarrow> (inputFile \<Rightarrow> ('s, nat) op) \<Rightarrow> ('s, unit) op \<Rightarrow> nat
   \<Rightarrow> ('s, 'r) jobPool \<Rightarrow> (nat \<times> nat) outcome \<times> 's" where
  "jobs_rest run emit inl finish files p = writer_rest run emit inl finish files (jp_writer p) (jp_session p)"

section \<open>Every interleaving\<close>

text \<open>
  The contract of what runs in the pool: writing entries changes nothing that a worker looks at.
\<close>

locale job_archiver =
  fixes run :: "'s \<Rightarrow> fileJob \<Rightarrow> 'r option" and emit :: "'r \<Rightarrow> ('s, nat) op" and inl :: "inputFile \<Rightarrow> ('s, nat) op"
    and finish :: "('s, unit) op"
  assumes emit_run: "emit x s = (r, s') \<Longrightarrow> run s' = run s"
    and inl_run: "inl i s = (r', s') \<Longrightarrow> run s' = run s"
    and finish_run: "finish s = (r'', s') \<Longrightarrow> run s' = run s"
begin

lemma slot_flight:
  assumes "jobs_flight run workers p flight" and "jp_dispatcher p = Looping (j # js)" and "\<not> fj_inline j"
    and "jp_slots p < workers + resultLookahead"
  shows "jobs_flight run workers (p\<lparr>jp_dispatcher := Sending j js, jp_slots := Suc (jp_slots p)\<rparr>) (flight @ [j])"
  using assms by (cases "jp_writer p") (auto simp: flight_defs)

lemma deliver_flight:
  assumes f: "jobs_flight run workers p flight" and n: "n < length (jp_busy p)" "jp_busy p ! n = j" and r: "run (jp_session p) j = Some r"
  shows "jobs_flight run workers
    (p\<lparr>jp_busy := take n (jp_busy p) @ drop (Suc n) (jp_busy p), jp_results := (jp_results p)(fj_index j \<mapsto> r)\<rparr>) flight"
    (is "jobs_flight run workers ?q flight")
proof -
  have b: "distinct (jobs_owned p)" "set (jobs_owned p) \<subseteq> set flight" "distinct (map fj_index flight)" using f by (simp_all add: jobs_flight_def)
  then have "distinct (jp_busy p)" by (simp add: jobs_owned_def)
  note d = remove_nth [OF this n(1), unfolded n(2)]
  have "set (jobs_owned ?q) = set (jobs_owned p) - {j}" "distinct (jobs_owned ?q)" "j \<in> set flight"
    using b d n by (auto simp: jobs_owned_def)
  moreover have "settled run ?q i" if "i \<in> set flight" for i
  proof (cases "i = j")
    case False
    then have "fj_index i \<noteq> fj_index j" using that b(3) \<open>j \<in> set flight\<close> by (auto simp: distinct_map inj_on_def)
    moreover have "settled run p i" using f that by (simp add: jobs_flight_def)
    ultimately show ?thesis using False \<open>set (jobs_owned ?q) = _\<close> by (simp add: settled_def)
  qed (use r \<open>set (jobs_owned ?q) = _\<close> in \<open>simp add: settled_def\<close>)
  moreover have "length (jp_busy ?q) \<le> workers" "dom (jp_results ?q) \<subseteq> fj_index ` set flight"
    using f d \<open>j \<in> set flight\<close> by (auto simp: jobs_flight_def)
  ultimately show ?thesis using f unfolding jobs_flight_def by auto
qed

lemma receive_flight:
  assumes f: "jobs_flight run workers p flight" and w: "jp_writer p = Writing (j # js) n" "\<not> fj_inline j"
    and x: "jp_results p (fj_index j) = Some x"
  shows "\<exists>fl. flight = j # fl \<and> run (jp_session p) j = Some x
    \<and> jobs_flight run workers (p\<lparr>jp_writer := Releasing x js n, jp_results := (jp_results p)(fj_index j := None)\<rparr>) fl"
proof -
  have l: "j # pooled js = flight @ queue_of (jp_dispatcher p)" "jp_slots p = length flight"
    using f w by (simp_all add: jobs_flight_def)
  have d: "distinct (map fj_index (flight @ queue_of (jp_dispatcher p)))" "dom (jp_results p) \<subseteq> fj_index ` set flight"
    using f by (simp_all add: jobs_flight_def)
  have "fj_index j \<in> fj_index ` set flight" using x d(2) by auto
  then obtain fl where fl: "flight = j # fl"
    using l(1) d(1) by (cases flight) (auto dest: arg_cong [where f = hd])
  have st: "settled run p j" using f by (simp add: jobs_flight_def fl)
  then have j: "j \<notin> set (jobs_owned p)" "run (jp_session p) j = Some x" using x by (auto simp: settled_def split: if_splits)
  have "fj_index j \<notin> fj_index ` set fl" using d(1) by (simp add: fl)
  then have ne: "fj_index i \<noteq> fj_index j" if "i \<in> set fl" for i using that by (metis imageI)
  have o: "jobs_owned (p\<lparr>jp_writer := Releasing x js n, jp_results := (jp_results p)(fj_index j := None)\<rparr>) = jobs_owned p"
    by (simp add: jobs_owned_def)
  have "jobs_flight run workers (p\<lparr>jp_writer := Releasing x js n, jp_results := (jp_results p)(fj_index j := None)\<rparr>) fl"
    using f j(1) l ne unfolding jobs_flight_def o by (auto simp: fl settled_def o)
  with fl j(2) show ?thesis by blast
qed

lemma quit_flight:
  assumes f: "jobs_flight run workers p flight" and d: "jp_dispatcher p = Sending j js" and w: "jp_writer p = Returned r"
  shows "jobs_flight run workers (p\<lparr>jp_dispatcher := Closed\<rparr>) (remove1 j flight)"
proof -
  have "distinct (map fj_index flight)" using f by (simp add: jobs_flight_def)
  then have r: "set (remove1 j flight) = set flight - {j}" "distinct (map fj_index (remove1 j flight))"
    by (simp_all add: distinct_map set_remove1_eq inj_on_diff)
  have "settled run p j" "j \<in> set (jobs_owned p)" using f d by (auto simp: jobs_flight_def jobs_owned_def)
  then have "dom (jp_results p) \<subseteq> fj_index ` set flight - {fj_index j}" using f by (auto simp: jobs_flight_def settled_def)
  then have "dom (jp_results p) \<subseteq> fj_index ` (set flight - {j})" by auto
  moreover have "length (remove1 j flight) \<le> length flight" by (simp add: length_remove1)
  ultimately show ?thesis using f r d w by (auto simp: flight_defs)
qed

lemma session_flight:
  assumes f: "jobs_flight run workers p flight" and s: "run s = run (jp_session p)"
    and w: "writer_sees w' k flight (queue_of (jp_dispatcher p))" "k \<le> workers + resultLookahead"
  shows "jobs_flight run workers (p\<lparr>jp_slots := k, jp_writer := w', jp_session := s\<rparr>) flight"
  using f s w by (simp add: jobs_flight_def settled_def jobs_owned_def)

lemma after_job_sees:
  assumes "pooled js = flight @ queue"
  shows "writer_sees (after_job r js n) (length flight) flight queue"
  using assms by (simp add: after_job_def split: outcome.split)

lemma flight_runs: "jobs_flight run workers p flight \<Longrightarrow> j \<in> set (jp_busy p) \<Longrightarrow> run (jp_session p) j \<noteq> None"
  by (auto simp: jobs_flight_def jobs_owned_def)

lemma step_flight:
  assumes "jobs_step run emit inl finish workers files p q" and f: "jobs_flight run workers p flight"
  shows "\<exists>flight'. jobs_flight run workers q flight'"
  using assms(1)
proof cases
  case (skip j js)
  then have "jobs_flight run workers q flight" using f by (simp add: flight_defs)
  then show ?thesis ..
next
  case (slot j js)
  then show ?thesis using slot_flight [OF f] by blast
next
  case (hand j js)
  then have "jobs_flight run workers q flight" using f by (auto simp: flight_defs)
  then show ?thesis ..
next
  case close
  then have "jobs_flight run workers q flight" using f by (simp add: flight_defs)
  then show ?thesis ..
next
  case (quit_slot j js)
  then have "jobs_flight run workers q flight" using f by (auto simp: flight_defs)
  then show ?thesis ..
next
  case (quit_send j js)
  then show ?thesis using quit_flight [OF f] by blast
next
  case (deliver n j r)
  then show ?thesis using deliver_flight [OF f] by blast
next
  case (panic j)
  then show ?thesis using flight_runs [OF f] by blast
next
  case (inline j js n r s)
  then have l: "pooled js = flight @ queue_of (jp_dispatcher p)" "jp_slots p = length flight" "jp_slots p \<le> workers + resultLookahead"
    using f by (simp_all add: jobs_flight_def)
  then have "q = p\<lparr>jp_slots := length flight, jp_writer := after_job r js n, jp_session := s\<rparr>" using inline(1) by simp
  with session_flight [OF f inl_run [OF inline(4)] after_job_sees [OF l(1), of r n]] l(2,3) show ?thesis by auto
next
  case (receive j js n x)
  from receive_flight [OF f receive(2-4)] receive(1) show ?thesis by auto
next
  case (release x js n r s)
  then have l: "pooled js = flight @ queue_of (jp_dispatcher p)" "jp_slots p = Suc (length flight)" "length flight \<le> workers + resultLookahead"
    using f by (simp_all add: jobs_flight_def)
  from session_flight [OF f emit_run [OF release(4)] after_job_sees [OF l(1), of r n] l(3)] release(1) l(2) show ?thesis by auto
next
  case (finish n r s)
  then have "writer_sees (after_jobs r files n) (jp_slots p) flight (queue_of (jp_dispatcher p))" "jp_slots p \<le> workers + resultLookahead"
    using f by (simp_all add: jobs_flight_def after_jobs_def)
  moreover have "q = p\<lparr>jp_slots := jp_slots p, jp_writer := after_jobs r files n, jp_session := s\<rparr>" using finish(1) by simp
  ultimately show ?thesis using session_flight [OF f finish_run [OF finish(3)]] by blast
qed

text \<open>A step does not change what the writer will have done in the end.\<close>

lemma step_rest:
  assumes "jobs_step run emit inl finish workers files p q" and f: "jobs_flight run workers p flight"
  shows "jobs_rest run emit inl finish files q = jobs_rest run emit inl finish files p"
  using assms(1)
proof cases
  case (panic j)
  then show ?thesis using flight_runs [OF f] by blast
next
  case (receive j js n x)
  from receive_flight [OF f receive(2-4)] receive show ?thesis
    by (auto simp: jobs_rest_def bindS_def run_write_def)
qed (auto simp: jobs_rest_def after_job_def after_jobs_def bindS_def run_write_def returnS_def split: outcome.split)

text \<open>As long as something is left to do, some goroutine can move.\<close>

lemma busy_moves:
  assumes f: "jobs_flight run workers p flight" and b: "jp_busy p \<noteq> []"
  shows "\<exists>q. jobs_step run emit inl finish workers files p q"
proof -
  let ?j = "jp_busy p ! 0"
  have j: "?j \<in> set (jp_busy p)" using b by simp
  then have "settled run p ?j" "?j \<in> set (jobs_owned p)" using f by (auto simp: jobs_flight_def jobs_owned_def)
  then have "jp_results p (fj_index ?j) = None" by (simp add: settled_def)
  with b flight_runs [OF f j] show ?thesis by (fastforce intro: jobs_step.deliver [of 0])
qed

lemma dispatcher_moves:
  assumes "jp_dispatcher p \<noteq> Closed" and "returned p \<or> jp_slots p < workers + resultLookahead"
    and "returned p \<or> length (jp_busy p) < workers"
  shows "\<exists>q. jobs_step run emit inl finish workers files p q"
proof (cases "jp_dispatcher p")
  case (Looping js)
  show ?thesis
  proof (cases js)
    case Nil
    with Looping show ?thesis by (blast intro: jobs_step.close)
  next
    case (Cons j js')
    with Looping assms(2) show ?thesis by (cases "fj_inline j") (blast intro: jobs_step.skip jobs_step.slot jobs_step.quit_slot)+
  qed
next
  case (Sending j js)
  with assms(3) show ?thesis by (blast intro: jobs_step.hand jobs_step.quit_send)
qed (use assms(1) in simp)

lemma writer_moves:
  assumes f: "jobs_flight run workers p flight" and w: "jp_writer p = Writing (j # js) n" "\<not> fj_inline j" and "0 < workers"
    and b: "jp_busy p = []"
  shows "\<exists>q. jobs_step run emit inl finish workers files p q"
proof (cases flight)
  case Nil
  then have "queue_of (jp_dispatcher p) \<noteq> []" "jp_slots p = 0" using f w by (auto simp: jobs_flight_def)
  with assms(4) b show ?thesis by (intro dispatcher_moves) auto
next
  case (Cons i fl)
  then have i: "i = j" using f w by (auto simp: jobs_flight_def)
  show ?thesis
  proof (cases "j \<in> set (jobs_owned p)")
    case True
    then obtain js' where "jp_dispatcher p = Sending j js'" using b by (cases "jp_dispatcher p") (auto simp: jobs_owned_def)
    moreover have "length (jp_busy p) < workers" using assms(4) b by simp
    ultimately show ?thesis by (blast intro: jobs_step.hand)
  next
    case False
    then obtain x where "jp_results p (fj_index j) = Some x"
      using f Cons i by (auto simp: jobs_flight_def settled_def)
    with w show ?thesis by (blast intro: jobs_step.receive)
  qed
qed

lemma step_exists:
  assumes f: "jobs_flight run workers p flight" and "0 < workers" and n: "\<not> jobs_over p"
  shows "\<exists>q. jobs_step run emit inl finish workers files p q"
proof (cases "jp_busy p = []")
  case False
  then show ?thesis by (rule busy_moves [OF f])
next
  case b: True
  show ?thesis
  proof (cases "jp_writer p")
    case (Writing js m)
    show ?thesis
    proof (cases js)
      case Nil
      with Writing show ?thesis by (metis jobs_step.finish prod.collapse)
    next
      case (Cons j js')
      show ?thesis
      proof (cases "fj_inline j")
        case True
        with Writing Cons show ?thesis by (metis jobs_step.inline prod.collapse)
      qed (use writer_moves [OF f _ _ assms(2) b] Writing Cons in blast)
    qed
  next
    case (Releasing x js m)
    then have "0 < jp_slots p" using f by (simp add: jobs_flight_def)
    with Releasing show ?thesis by (metis jobs_step.release prod.collapse)
  next
    case (Returned r)
    then have "jp_dispatcher p \<noteq> Closed" using n b by (simp add: jobs_over_def)
    with Returned show ?thesis by (intro dispatcher_moves) simp_all
  qed
qed

end

sublocale job_archiver \<subseteq> pool: running_system "jobs_step run emit inl finish (Suc w) files" "jobs_inv run (Suc w)" jobs_weight
    "jobs_rest run emit inl finish files" jobs_over for w files
  by unfold_locales (auto simp: jobs_inv_def intro: step_flight jobs_step_weight step_rest dest: step_exists)

text \<open>The results that wait, the jobs that workers hold and the result in the writer's hands.\<close>

definition results_held :: "('s, 'r) jobPool \<Rightarrow> nat" where
  "results_held p = card (dom (jp_results p)) + length (jp_busy p)
     + (case jp_writer p of Releasing x js n \<Rightarrow> 1 | _ \<Rightarrow> 0)"

lemma jobs_window:
  assumes "jobs_flight run workers p flight" shows "results_held p \<le> workers + resultLookahead"
proof -
  let ?b = "fj_index ` set (jp_busy p)"
  have d: "distinct (map fj_index flight)" "set (jp_busy p) \<subseteq> set flight" "distinct (jp_busy p)"
      "dom (jp_results p) \<subseteq> fj_index ` set flight" "\<And>j. j \<in> set (jp_busy p) \<Longrightarrow> jp_results p (fj_index j) = None"
    using assms by (auto simp: flight_defs)
  have "inj_on fj_index (set (jp_busy p))" using d(1,2) by (auto simp: distinct_map intro: inj_on_subset)
  then have "card ?b = length (jp_busy p)" using d(3) by (simp add: card_image distinct_card)
  moreover have "dom (jp_results p) \<inter> ?b = {}" using d(5) by auto
  moreover have "finite (dom (jp_results p))" using d(4) by (rule finite_subset) simp
  ultimately have "card (dom (jp_results p)) + length (jp_busy p) = card (dom (jp_results p) \<union> ?b)" by (simp add: card_Un_disjoint)
  also have "\<dots> \<le> card (fj_index ` set flight)" using d(2,4) by (intro card_mono) auto
  also have "\<dots> \<le> length flight" by (metis card_length length_map list.set_map)
  finally show ?thesis using assms by (cases "jp_writer p") (simp_all add: results_held_def jobs_flight_def)
qed

end
