(* ===== verification/Archive_Contents.thy ===== *)
theory Archive_Contents
  imports Archive_Session
begin

text \<open>
  What an archive holds after a run of the archiver: the ledger of its entries, the listing a
  scan of the entries gives, and the directory that agrees with it.
\<close>

section \<open>Entries and their listing\<close>

text \<open>An entry holds one file, or the members of a solid group.\<close>

datatype item = FileItem bytes Attributes entrySummary bytes | GroupItem Codec "SolidMember list" nat nat

fun holds :: "prims \<Rightarrow> zstd \<Rightarrow> KeySchedule \<Rightarrow> item \<Rightarrow> FileEntry \<Rightarrow> bool" where
  "holds P Z keys (FileItem name attrs summary content) en \<longleftrightarrow>
     file_entry P Z keys name attrs summary content en \<and> length content < 2 ^ 63"
| "holds P Z keys (GroupItem codec ms len stored) en \<longleftrightarrow> solid_entry P Z keys codec ms len stored en"

fun item_listing :: "item \<Rightarrow> FileEntry \<Rightarrow> ListResult list" where
  "item_listing (FileItem name attrs summary content) en = [file_listing name attrs summary (stored_size (fe_DataBlocks en))]"
| "item_listing (GroupItem codec ms len stored) en = map (list_member codec len stored) ms"

text \<open>The files of an item: name, attributes and content.\<close>

fun item_files :: "item \<Rightarrow> (bytes \<times> Attributes \<times> bytes) list" where
  "item_files (FileItem name attrs summary content) = [(name, attrs, content)]"
| "item_files (GroupItem codec ms len stored) = map (\<lambda>m. (sm_Name m, sm_Attributes m, sm_Data m)) ms"

lemma sealed_as_sized: "sealed_as P Z k pm codec payload plaintext en \<Longrightarrow> entry_sized en"
  by (simp add: sealed_as_def)

lemma holds_type: "holds P Z keys it en \<Longrightarrow> fe_EntryType en = EntryTypeFile \<or> fe_EntryType en = EntryTypeSolid"
  by (cases it) (auto simp: file_entry_def solid_entry_def)

lemma holds_sized: "holds P Z keys it en \<Longrightarrow> entry_sized en"
  by (cases it) (auto simp: file_entry_def solid_entry_def dest: sealed_as_sized)

lemma listEntry_item:
  assumes "holds P Z keys it en" and "lib_ok P Z" and "ks_version keys = Version2"
  shows "listEntry P Z keys (fe_EntryType en)
      (Stream (fe_EntrySalt en @ fe_FrameHdr en @ metadata_bytes (fe_Metadata en)
        @ entry_body (fe_InterBlockPad en) (fe_DataBlocks en) (fe_Trailer en) @ r) e) =
    (Val (item_listing it en), Stream r e)"
proof (cases it)
  case (FileItem name attrs summary content)
  with assms(1) have f: "file_entry P Z keys name attrs summary content en" "length content < 2 ^ 63" by simp_all
  then have "fe_EntryType en = EntryTypeFile" by (simp add: file_entry_def)
  with listEntry_file [OF f(1) assms(2,3) f(2)] FileItem show ?thesis by simp
next
  case (GroupItem codec ms len stored)
  with assms(1) have s: "solid_entry P Z keys codec ms len stored en" by simp
  then have "fe_EntryType en = EntryTypeSolid" by (simp add: solid_entry_def)
  with listEntry_solid [OF s assms(2,3)] GroupItem show ?thesis by simp
qed

definition listing :: "item list \<Rightarrow> FileEntry list \<Rightarrow> ListResult list" where
  "listing items ens = concat (map2 item_listing items ens)"

lemma listing_append: "length items = length ens \<Longrightarrow> listing (items @ [it]) (ens @ [en]) = listing items ens @ item_listing it en"
  by (simp add: listing_def)

text \<open>A result describes a file when name, attributes and size are those of the file.\<close>

definition describes :: "bytes \<times> Attributes \<times> bytes \<Rightarrow> ListResult \<Rightarrow> bool" where
  "describes = (\<lambda>(name, attrs, content) r. lr_Filename r = name \<and> lr_OriginalBytes r = int (length content)
     \<and> lr_Kind r = a_Kind attrs \<and> lr_Mode r = a_Mode attrs \<and> lr_LinkTarget r = a_LinkTarget attrs
     \<and> lr_ModTime r = a_ModTime attrs \<and> lr_Err r = None)"

lemma listing_describes:
  "list_all2 (holds P Z keys) items ens \<Longrightarrow> list_all2 describes (concat (map item_files items)) (listing items ens)"
proof (induction rule: list_all2_induct)
  case (Cons it items en ens)
  have "list_all2 describes (item_files it) (item_listing it en)"
    using Cons(1)
    by (cases it) (auto simp: describes_def file_listing_def withAttributes_def list_result_def list_member_def Let_def
        file_entry_def list.rel_map intro!: list.rel_refl)
  with Cons.IH show ?case by (simp add: listing_def list_all2_appendI)
qed (simp add: listing_def)

lemma scan_items:
  assumes "list_all2 (holds P Z keys) items ens" and "lib_ok P Z" and v: "ks_version keys = Version2"
  shows "scanList_from P Z keys rs (Stream (concat (map entry_bytes ens) @ r) e) =
    scanList_from P Z keys (rs @ listing items ens) (Stream r e)"
  using assms(1)
proof (induction arbitrary: rs rule: list_all2_induct)
  case (Cons it items en ens)
  note n = nextEntryType_reads [OF v holds_type [OF Cons(1)], of P _ e]
  show ?case
    using Cons.IH [of "rs @ item_listing it en"]
    by (simp add: scanList_from.simps [of P Z keys rs] entry_split n listEntry_item [OF Cons(1) assms(2) v] listing_def)
qed (simp add: listing_def)

section \<open>Passing over the directory\<close>

text \<open>A sequential reader passes over the directory entry and its locator.\<close>

lemma nextEntryType_directory:
  assumes s: "sealed_as P Z k pm codec payload plaintext en" and k: "FileKey P keys (fe_EntrySalt en) = Ok k"
    and v: "ks_version keys = Version2" and ty: "fe_EntryType en = EntryTypeDirectory"
  shows "nextEntryType P keys (Stream (entry_bytes en @ r) e) = nextEntryType P keys (Stream r e)"
proof -
  have sz: "length (fe_InterBlockPad en) < 2 ^ 32" "list_all block_sized (fe_DataBlocks en)" "trailer_sized (fe_Trailer en)"
    using sealed_as_sized [OF s] by (simp_all add: entry_sized_def)
  have "skipDirectory P keys EntryTypeDirectory
      (Stream (fe_EntrySalt en @ fe_FrameHdr en @ metadata_bytes (fe_Metadata en)
        @ entry_body (fe_InterBlockPad en) (fe_DataBlocks en) (fe_Trailer en) @ r) e) = (Val (), Stream r e)"
    by (simp add: skipDirectory_def EntryTypeDirectory_def EntryTypeDirectoryLocator_def catchS_def bindS_def
        readEntryHead_opens [OF s k] skipEntryBody_reads [OF sz] returnS_def)
  with v show ?thesis
    using sReadFull_reads [of "[EntryTypeDirectory]" "Suc 0" _ e]
    by (subst nextEntryType.simps)
      (simp add: entry_split ty Version1_def Version2_def EntryTypeDirectory_def EntryTypeFile_def EntryTypeSolid_def EntryTypeEnd_def)
qed

lemma nextEntryType_locator:
  assumes v: "ks_version keys = Version2"
  shows "nextEntryType P keys (Stream (AppendDirectoryLocator [] off @ r) e) = nextEntryType P keys (Stream r e)"
proof -
  let ?rest = "directoryLocatorMagic @ le64 off"
  have l: "AppendDirectoryLocator [] off = EntryTypeDirectoryLocator # ?rest" by (simp add: AppendDirectoryLocator_def)
  have "length ?rest = DirectoryLocatorSize - 1" by (simp add: DirectoryLocatorSize_def)
  then have "readS (DirectoryLocatorSize - 1) w (Stream (?rest @ r) e) = (Val ?rest, Stream r e)" for w
    by (rule readS_append)
  then have "skipDirectory P keys EntryTypeDirectoryLocator (Stream (?rest @ r) e) = (Val (), Stream r e)"
    using directory_locator_roundtrip [of off]
    by (simp add: skipDirectory_def bindS_def callS_def returnS_def l)
  with v show ?thesis
    using sReadFull_reads [of "[EntryTypeDirectoryLocator]" "Suc 0" _ e]
    by (subst nextEntryType.simps)
      (simp add: l Version1_def Version2_def EntryTypeDirectory_def EntryTypeDirectoryLocator_def EntryTypeFile_def EntryTypeSolid_def EntryTypeEnd_def)
qed

lemma scanList_next:
  "nextEntryType P keys s = nextEntryType P keys s' \<Longrightarrow> scanList_from P Z keys rs s = scanList_from P Z keys rs s'"
  by (simp add: scanList_from.simps [of P Z keys rs])

section \<open>The directory agrees with the entries\<close>

text \<open>\<^verbatim>\<open>directoryListing\<close>.\<close>

definition record_listing :: "DirectoryRecord \<Rightarrow> ListResult" where
  "record_listing r =
     withAttributes (list_result (dr_Name r) (bucketName (dr_SizeBucket r)) (Codec_String (dr_Codec r)) (dr_Solid r)
       (sint (dr_OriginalSize r)) (sint (dr_StoredSize r))) (Some (dr_Attributes r)) 0"

definition directoryListing :: "DirectoryRecord list \<Rightarrow> ListResult list" where
  "directoryListing records = map record_listing records"

text \<open>The collected directory is full, or encodes valid records that list as \<open>ls\<close> and point between \<open>lo\<close> and \<open>hi\<close>.\<close>

definition directory_ok :: "nat \<Rightarrow> nat \<Rightarrow> directoryBuilder \<Rightarrow> ListResult list \<Rightarrow> bool" where
  "directory_ok lo hi d ls \<longleftrightarrow> dd_full d
     \<or> (\<exists>recs. dd_plaintext d = directoryMagic @ concat (map dr_bytes recs) \<and> length (dd_plaintext d) \<le> MaxDirectorySize
        \<and> list_all dr_ok recs \<and> directoryListing recs = ls
        \<and> list_all (\<lambda>r. lo \<le> unat (dr_Offset r) \<and> unat (dr_Offset r) < hi) recs)"

lemma directory_ok_new: "directory_ok lo hi newDirectoryBuilder []"
  unfolding directory_ok_def
  by (intro disjI2 exI [of _ "[]"])
    (simp add: newDirectoryBuilder_def NewDirectory_def directoryListing_def directoryMagic_def MaxDirectorySize_def)

lemma directory_ok_mono: "directory_ok lo hi d ls \<Longrightarrow> hi \<le> hi' \<Longrightarrow> directory_ok lo hi' d ls"
  unfolding directory_ok_def by (fastforce simp: list_all_iff)

lemma AppendDirectoryRecord_inv:
  assumes "AppendDirectoryRecord dir r = Ok out" and "dr_SizeBucket r \<le> BucketHuge" and "knownCodec (dr_Codec r)"
  shows "dr_ok r" and "out = dir @ dr_bytes r"
proof -
  show ok: "dr_ok r"
    using assms by (auto simp: AppendDirectoryRecord_def dr_ok_def AppendAttributes_def bindR_Ok_conv split: if_splits option.splits)
  show "out = dir @ dr_bytes r" using assms(1) AppendDirectoryRecord_ok [OF ok, of dir] by simp
qed

lemma dir_add_ok:
  assumes d: "directory_ok lo hi (ss_dir s) ls" and run: "dir_add r s = (Val (), s')"
    and r: "dr_SizeBucket r \<le> BucketHuge" "knownCodec (dr_Codec r)" "lo \<le> unat (dr_Offset r)" "unat (dr_Offset r) < hi"
  shows "s' = s\<lparr>ss_dir := ss_dir s'\<rparr> \<and> directory_ok lo hi (ss_dir s') (ls @ [record_listing r])"
proof (cases "dd_full (ss_dir s)")
  case True
  with run show ?thesis by (auto simp: dir_add_def directory_ok_def)
next
  case False
  then obtain recs where recs: "dd_plaintext (ss_dir s) = directoryMagic @ concat (map dr_bytes recs)" "list_all dr_ok recs"
      "directoryListing recs = ls" "list_all (\<lambda>r. lo \<le> unat (dr_Offset r) \<and> unat (dr_Offset r) < hi) recs"
    using d by (auto simp: directory_ok_def)
  obtain out where out: "AppendDirectoryRecord (dd_plaintext (ss_dir s)) r = Ok out"
    using run False by (auto simp: dir_add_def split: res.splits)
  note a = AppendDirectoryRecord_inv [OF out r(1,2)]
  show ?thesis
  proof (cases "MaxDirectorySize < length out")
    case True
    with run False out show ?thesis by (auto simp: dir_add_def directory_ok_def)
  next
    case small: False
    with run False out have s': "s' = s\<lparr>ss_dir := (ss_dir s)\<lparr>dd_plaintext := out\<rparr>\<rparr>" by (simp add: dir_add_def)
    show ?thesis
      unfolding directory_ok_def
      by (intro conjI disjI2 exI [of _ "recs @ [r]"])
        (use recs a r small in \<open>simp_all add: s' directoryListing_def\<close>)
  qed
qed

lemma dir_addMembers_ok:
  assumes "directory_ok lo hi (ss_dir s) ls" and "dir_addMembers off rs s = (Val (), s')"
    and "list_all (\<lambda>r. knownCodec (sr_codec r)) (packed rs)" and "lo \<le> off" "off < hi" "off < 2 ^ 63"
  shows "s' = s\<lparr>ss_dir := ss_dir s'\<rparr> \<and> directory_ok lo hi (ss_dir s') (ls @ directoryListing (map (member_record off) (packed rs)))"
  using assms(1-3)
proof (induction rs arbitrary: s ls)
  case Nil
  then show ?case by (simp add: returnS_def directoryListing_def)
next
  case (Cons r rs)
  show ?case
  proof (cases "sr_err r = None")
    case True
    then obtain s1 where s1: "dir_add (member_record off r) s = (Val (), s1)" "dir_addMembers off rs s1 = (Val (), s')"
      using Cons.prems(2) by (auto simp: bindS_Val_conv)
    have o: "unat (word_of_nat off :: u64) = off" using assms(6) by (simp add: unat_of_nat)
    have a: "s1 = s\<lparr>ss_dir := ss_dir s1\<rparr>" "directory_ok lo hi (ss_dir s1) (ls @ [record_listing (member_record off r)])"
      using dir_add_ok [OF Cons.prems(1) s1(1)] Cons.prems(3) assms(4,5) o True by (simp_all add: member_record_def)
    from Cons.IH [OF a(2) s1(2)] Cons.prems(3) True
    have "s' = s1\<lparr>ss_dir := ss_dir s'\<rparr>"
      "directory_ok lo hi (ss_dir s') ((ls @ [record_listing (member_record off r)]) @ directoryListing (map (member_record off) (packed rs)))"
      by simp_all
    with a(1) True show ?thesis by (cases s, cases s1, cases s') (simp add: directoryListing_def)
  next
    case False
    with Cons show ?thesis by auto
  qed
qed

lemma dir_addMembers_fields:
  "dir_addMembers off rs s = (r, s') \<Longrightarrow> ss_w s' = ss_w s \<and> ss_errors s' = ss_errors s"
proof (induction rs arbitrary: s)
  case (Cons m rs)
  then show ?case
    by (auto simp: bindS_def dir_add_def split: if_splits res.splits prod.splits outcome.splits)
qed (simp add: returnS_def)

text \<open>The records of packed members list as the members of the group do.\<close>

lemma member_within_stream:
  "AppendSolidRecords [] ms = Ok stream \<Longrightarrow> m \<in> set ms \<Longrightarrow> length (sm_Data m) \<le> length stream"
proof (induction ms arbitrary: stream)
  case (Cons a ms)
  obtain b where b: "AppendSolidRecord [] a = Ok b" and r: "AppendSolidRecords b ms = Ok stream"
    using Cons.prems(1) by (auto simp: bindR_Ok_conv)
  obtain c where c: "AppendSolidRecords [] ms = Ok c" "stream = b @ c"
    using r by (subst (asm) AppendSolidRecords_dst) (auto simp: bindR_Ok_conv)
  from AppendSolidRecord_size [OF b] have "length (sm_Data a) \<le> length b" by (simp add: SolidRecordSize_def)
  with Cons.IH [OF c(1)] Cons.prems(2) show ?case by (fastforce simp: c(2))
qed simp

lemma stored_share: "n \<le> len \<Longrightarrow> n * stored div len \<le> (stored :: nat)"
proof -
  assume "n \<le> len"
  then have "n * stored div len \<le> len * stored div len" by (intro div_le_mono mult_right_mono) simp_all
  also have "\<dots> \<le> stored" by (cases "len = 0") simp_all
  finally show ?thesis .
qed

lemma sint_int: "0 \<le> n \<Longrightarrow> n < 2 ^ 63 \<Longrightarrow> sint (word_of_int n :: u64) = n"
  using sint_nat [of "nat n"] by (simp add: nat_less_iff)

lemma group_record_listing:
  assumes "group_result codec len stored r m" and "length (sm_Data m) \<le> len" and "stored < 2 ^ 63"
  shows "record_listing (member_record off r) = list_member codec len stored m"
proof -
  have r: "sr_name r = sm_Name m" "sr_attrs r = sm_Attributes m" "sr_size r = length (sm_Data m)" "sr_codec r = codec"
      "sr_stored r = int (length (sm_Data m) * stored div len)"
    using assms(1) by (simp_all add: group_result_def packed_as_def)
  have "length (sm_Data m) < 2 ^ 63" using assms(1) by (simp add: group_result_def SolidMemberMaxSize_def)
  moreover have "length (sm_Data m) * stored div len < 2 ^ 63" using stored_share [OF assms(2), of stored] assms(3) by simp
  ultimately show ?thesis
    by (simp add: record_listing_def member_record_def r list_member_def Let_def sint_nat)
qed

lemma group_listing:
  assumes "list_all2 (group_result codec len stored) rs ms" and "solid_entry P Z keys codec ms len stored en"
    and "stored < 2 ^ 63"
  shows "directoryListing (map (member_record off) rs) = map (list_member codec len stored) ms"
proof -
  have len: "\<forall>m \<in> set ms. length (sm_Data m) \<le> len"
    using assms(2) member_within_stream unfolding solid_entry_def by blast
  from assms(1) have "length rs = length ms" by (rule list_all2_lengthD)
  with assms(1) len show ?thesis
    unfolding directoryListing_def
    by (intro nth_equalityI) (auto simp: list_all2_conv_all_nth intro!: group_record_listing [OF _ _ assms(3)])
qed

lemma file_record_listing:
  assumes "0 \<le> stored" "stored < 2 ^ 63" "es_original summary < 2 ^ 63"
  shows "record_listing \<lparr>dr_Offset = off, dr_Name = name, dr_Attributes = attrs, dr_SizeBucket = es_bucket summary,
      dr_Codec = es_codec summary, dr_Solid = False, dr_OriginalSize = word_of_nat (es_original summary),
      dr_StoredSize = word_of_int stored\<rparr> = file_listing name attrs summary stored"
  using assms by (simp add: record_listing_def file_listing_def sint_nat sint_int)

lemma stored_le_entry: "stored_size (fe_DataBlocks en) \<le> int (length (entry_bytes en))"
proof -
  have "stored_size dbs \<le> int (length (concat (map block_bytes dbs)))" for dbs
    by (induction dbs) (simp_all add: stored_size_def block_bytes_def)
  from this [of "fe_DataBlocks en"] show ?thesis by (simp add: entry_bytes_def entry_body_def)
qed

end
