(* ===== verification/Archiver_Invariant.thy ===== *)
theory Archiver_Invariant
  imports Archive_Contents
begin

text \<open>
  The invariant of the streaming archiver: what has been written is a header and the entries of
  a ledger, the directory agrees with them, every input is archived, reported or queued; and
  every operation keeps it.
\<close>

section \<open>A recoverable failure writes nothing\<close>

text \<open>
  An operation is \<open>quiet\<close> when it never changes the writer, \<open>fatal_only\<close> when all its errors are
  fatal, and \<open>tidy\<close> when a recoverable error leaves the writer as it was.
\<close>

definition quiet :: "'a writing \<Rightarrow> bool" where
  "quiet m \<longleftrightarrow> (\<forall>s. fst (snd (m s)) = fst s)"

definition fatal_only :: "('s, 'a) op \<Rightarrow> bool" where
  "fatal_only m \<longleftrightarrow> (\<forall>s e s'. m s = (Fail e, s') \<longrightarrow> IsFatal e)"

definition tidy :: "'a writing \<Rightarrow> bool" where
  "tidy m \<longleftrightarrow> (\<forall>s e s'. m s = (Fail e, s') \<longrightarrow> \<not> IsFatal e \<longrightarrow> fst s' = fst s)"

named_theorems fatal_intros \<open>operations whose errors are all fatal\<close>

lemma tidy_bind:
  assumes "quiet m" and "\<And>x. tidy (f x)" shows "tidy (bindS m f)"
  unfolding tidy_def
proof (intro allI impI)
  fix s e s' assume run: "bindS m f s = (Fail e, s')" and e: "\<not> IsFatal e"
  obtain r s1 where m: "m s = (r, s1)" by (cases "m s")
  have q: "fst s1 = fst s" using assms(1) m by (metis quiet_def snd_conv)
  show "fst s' = fst s"
  proof (cases r)
    case (Val x)
    with run m have "f x s1 = (Fail e, s')" by (simp add: bindS_def)
    with assms(2) e q show ?thesis unfolding tidy_def by metis
  qed (use run m q in \<open>auto simp: bindS_def\<close>)
qed

lemma fatal_only_bind [fatal_intros]:
  "fatal_only m \<Longrightarrow> (\<And>x. fatal_only (f x)) \<Longrightarrow> fatal_only (bindS m f)"
  by (fastforce simp: fatal_only_def bindS_def split: prod.splits outcome.splits)

lemma fatal_only_tidy: "fatal_only m \<Longrightarrow> tidy m"
  unfolding fatal_only_def tidy_def by blast

lemma quiet_basic:
  "quiet (orFail w m)" "quiet (drawS w f)" "quiet (withWriter (\<lambda>aw. callS w (g aw)))" "quiet (callS w r)"
  by (auto simp: quiet_def orFail_def drawS_def withWriter_def callS_def split: sum.splits res.splits prod.splits)

lemma fatal_only_basic [fatal_intros]:
  "fatal_only (writeS (writeFailed msg) f)" "fatal_only (callS (writeFailed msg) r)" "fatal_only (returnS x)"
  "fatal_only (encrypt_data P Z K key fb f')"
  by (auto simp: fatal_only_def writeS_def callS_def returnS_def encrypt_data_def
      split: res.splits prod.splits sum.splits option.splits)

lemma fatal_only_writing [fatal_intros]:
  "fatal_only (drawS (writeFailed msg) h)" "fatal_only (withWriter (\<lambda>aw. callS (writeFailed msg) (g aw)))"
  by (auto simp: fatal_only_def drawS_def withWriter_def callS_def split: res.splits prod.splits)

lemma fatal_only_if [fatal_intros]: "fatal_only a \<Longrightarrow> fatal_only b \<Longrightarrow> fatal_only (if c then a else b)"
  by simp

lemma fatal_only_split [fatal_intros]: "(\<And>x y. fatal_only (f x y)) \<Longrightarrow> fatal_only (case p of (x, y) \<Rightarrow> f x y)"
  by (cases p) simp

lemma tidy_split: "(\<And>x y. tidy (f x y)) \<Longrightarrow> tidy (case p of (x, y) \<Rightarrow> f x y)"
  by (cases p) simp

lemmas tidy_steps = quiet_basic [THEN tidy_bind] tidy_split

lemma addFileStreaming_tidy: "tidy (addFileStreaming P Z K fs lower policy inp)"
  unfolding addFileStreaming_def Let_def
  by (intro tidy_steps, rule fatal_only_tidy, intro fatal_intros)

text \<open>
  C14: a file that cannot be read leaves no trace in the archive.  When streaming a file ends
  with a recoverable error, which the archivers report and pass over, nothing has been
  written: the output, the checksum and the position of the writer are as before.
\<close>

theorem recoverable_writes_nothing:
  assumes "addFileStreaming P Z K fs lower policy inp (aw, rnd) = (Fail e, (aw', rnd'))" and "\<not> IsFatal e"
  shows "aw' = aw"
  using addFileStreaming_tidy [of P Z K fs lower policy inp] assms by (fastforce simp: tidy_def)

section \<open>The invariant of an archiver\<close>

text \<open>
  The environment: file contents have an \<^verbatim>\<open>int64\<close> length, and mapping a file gives the bytes that
  reading it gives.
\<close>

definition os_ok :: "os \<Rightarrow> bool" where
  "os_ok fs \<longleftrightarrow> (\<forall>p f. os_Open fs p = Inr f \<longrightarrow> length (s_bytes (of_r f)) < 2 ^ 63
     \<and> (\<forall>d. of_mapped f = Some d \<longrightarrow> d = s_bytes (of_r f)))"

text \<open>\<open>written\<close>: the output is the header and the entries, and the writer's own state describes it.\<close>

definition written :: "bytes \<Rightarrow> KeySchedule \<Rightarrow> FileEntry list \<Rightarrow> ArchiveWriter \<Rightarrow> bool" where
  "written hdr keys ens aw \<longleftrightarrow> aw_out aw = hdr @ concat (map entry_bytes ens) \<and> aw_offset aw = length (aw_out aw)
     \<and> aw_hasher aw = checksum_state (aw_out aw) \<and> aw_keys aw = keys"

lemma put_entry_fields:
  "aw_out (put_entry_of en aw) = aw_out aw @ entry_bytes en" "aw_offset (put_entry_of en aw) = aw_offset aw + length (entry_bytes en)"
  "aw_keys (put_entry_of en aw) = aw_keys aw" "aw_hasher (put_entry_of en aw) = ac_Write (aw_hasher aw) (entry_bytes en)"
  "LastEntry (put_entry_of en aw) = (aw_offset aw, stored_size (fe_DataBlocks en))"
  by (simp_all add: put_entry_of_def put_def LastEntry_def)

lemma written_entry: "written hdr keys ens aw \<Longrightarrow> written hdr keys (ens @ [en]) (put_entry_of en aw)"
  by (simp add: written_def put_entry_fields ac_Write_state)

text \<open>The file an archive holds for an input: what the file contained when it was read.\<close>

definition stored_file :: "os \<Rightarrow> inputFile \<Rightarrow> bytes \<times> Attributes \<times> bytes \<Rightarrow> bool" where
  "stored_file fs inp = (\<lambda>(name, attrs, content). name = in_name inp \<and> attrs = in_attrs inp
     \<and> (if in_regular inp then \<exists>f. os_Open fs (in_path inp) = Inr f \<and> content = s_bytes (of_r f) else content = []))"

text \<open>
  The ledger: the items of the entries, the inputs they hold in order, and the inputs whose
  failure was reported.
\<close>

record ledger =
  lg_items :: "item list"
  lg_entries :: "FileEntry list"
  lg_archived :: "inputFile list"
  lg_failed :: "inputFile list"

definition session_ok :: "prims \<Rightarrow> zstd \<Rightarrow> os \<Rightarrow> bytes \<Rightarrow> KeySchedule \<Rightarrow> ledger \<Rightarrow> 'z session_scheme \<Rightarrow> bool" where
  "session_ok P Z fs hdr keys L s \<longleftrightarrow> written hdr keys (lg_entries L) (ss_w s)
     \<and> list_all2 (holds P Z keys) (lg_items L) (lg_entries L)
     \<and> (aw_offset (ss_w s) < 2 ^ 63 \<longrightarrow>
          directory_ok (length hdr) (aw_offset (ss_w s)) (ss_dir s) (listing (lg_items L) (lg_entries L)))
     \<and> list_all2 (stored_file fs) (lg_archived L) (concat (map item_files (lg_items L)))
     \<and> map fst (ss_errors s) = map in_path (lg_failed L)"

definition archive_item :: "item \<Rightarrow> FileEntry \<Rightarrow> inputFile list \<Rightarrow> ledger \<Rightarrow> ledger" where
  "archive_item it en inps L = L\<lparr>lg_items := lg_items L @ [it], lg_entries := lg_entries L @ [en],
     lg_archived := lg_archived L @ inps\<rparr>"

lemma archive_item_fields [simp]:
  "lg_items (archive_item it en inps L) = lg_items L @ [it]" "lg_entries (archive_item it en inps L) = lg_entries L @ [en]"
  "lg_archived (archive_item it en inps L) = lg_archived L @ inps" "lg_failed (archive_item it en inps L) = lg_failed L"
  by (simp_all add: archive_item_def)

text \<open>One more entry, once its records are in the directory.\<close>

lemma session_entry:
  assumes ok: "session_ok P Z fs hdr keys L s" and it: "holds P Z keys it en"
    and inps: "list_all2 (stored_file fs) inps (item_files it)"
    and s': "ss_w s' = put_entry_of en (ss_w s)" "ss_errors s' = ss_errors s"
    and dir: "\<And>ls. aw_offset (ss_w s') < 2 ^ 63 \<Longrightarrow>
      directory_ok (length hdr) (aw_offset (ss_w s')) (ss_dir s) ls \<Longrightarrow>
      directory_ok (length hdr) (aw_offset (ss_w s')) (ss_dir s') (ls @ item_listing it en)"
  shows "session_ok P Z fs hdr keys (archive_item it en inps L) s'"
proof -
  have l: "list_all2 (holds P Z keys) (lg_items L) (lg_entries L)" and w: "written hdr keys (lg_entries L) (ss_w s)"
    using ok by (simp_all add: session_ok_def)
  have off: "aw_offset (ss_w s) \<le> aw_offset (ss_w s')" by (simp add: s' put_entry_fields)
  have "directory_ok (length hdr) (aw_offset (ss_w s')) (ss_dir s') (listing (lg_items L @ [it]) (lg_entries L @ [en]))"
    if "aw_offset (ss_w s') < 2 ^ 63"
  proof -
    have "directory_ok (length hdr) (aw_offset (ss_w s)) (ss_dir s) (listing (lg_items L) (lg_entries L))"
      using ok that off by (simp add: session_ok_def)
    from dir [OF that directory_ok_mono [OF this off]] show ?thesis
      by (simp add: listing_append [OF list_all2_lengthD [OF l]])
  qed
  with ok it inps w show ?thesis
    by (simp add: session_ok_def s' written_entry list_all2_appendI)
qed

lemma onWriter_Val_conv:
  "onWriter m s = (Val x, s') \<longleftrightarrow>
     (\<exists>aw rnd. m (ss_w s, ss_rnd s) = (Val x, (aw, rnd)) \<and> s' = s\<lparr>ss_w := aw, ss_rnd := rnd\<rparr>)"
  "onWriter m s = (Fail e, s') \<longleftrightarrow>
     (\<exists>aw rnd. m (ss_w s, ss_rnd s) = (Fail e, (aw, rnd)) \<and> s' = s\<lparr>ss_w := aw, ss_rnd := rnd\<rparr>)"
  by (auto simp: onWriter_def split: prod.splits)

lemma offset_before:
  assumes "written hdr keys ens aw" shows "length hdr \<le> aw_offset aw" "aw_offset aw < aw_offset (put_entry_of en aw)"
  using assms by (simp_all add: written_def put_entry_fields entry_bytes_def entry_head_def)

lemma dir_addEntry_file:
  assumes ok: "session_ok P Z fs hdr keys L s" and it: "holds P Z keys (FileItem (in_name inp) (in_attrs inp) summary content) en"
    and inp: "stored_file fs inp (in_name inp, in_attrs inp, content)"
    and s1: "s1 = s\<lparr>ss_w := put_entry_of en (ss_w s), ss_rnd := rnd\<rparr>" and run: "dir_addEntry inp summary s1 = (Val (), s')"
  shows "session_ok P Z fs hdr keys (archive_item (FileItem (in_name inp) (in_attrs inp) summary content) en [inp] L) s'"
proof -
  have w: "written hdr keys (lg_entries L) (ss_w s)" using ok by (simp add: session_ok_def)
  note off = offset_before(1) [OF w] offset_before(2) [OF w, of en]
  let ?stored = "stored_size (fe_DataBlocks en)"
  let ?r = "\<lparr>dr_Offset = word_of_nat (aw_offset (ss_w s)), dr_Name = in_name inp, dr_Attributes = in_attrs inp,
      dr_SizeBucket = es_bucket summary, dr_Codec = es_codec summary, dr_Solid = False,
      dr_OriginalSize = word_of_nat (es_original summary), dr_StoredSize = word_of_int ?stored\<rparr>"
  have add: "dir_add ?r s1 = (Val (), s')"
    using run by (simp add: dir_addEntry_def withS_def s1 put_entry_fields)
  have f: "es_bucket summary \<le> BucketHuge" "knownCodec (es_codec summary)" "es_original summary < 2 ^ 63"
    using it by (auto simp: file_entry_def)
  have st: "0 \<le> ?stored" using holds_sized [OF it] skipDataBlocks_reads(2) by (auto simp: entry_sized_def)
  have same: "ss_w s' = ss_w s1" "ss_errors s' = ss_errors s1"
    using add by (auto simp: dir_add_def split: if_splits res.splits)
  show ?thesis
  proof (rule session_entry [OF ok it])
    show "ss_w s' = put_entry_of en (ss_w s)" "ss_errors s' = ss_errors s" using same by (simp_all add: s1)
    show "list_all2 (stored_file fs) [inp] (item_files (FileItem (in_name inp) (in_attrs inp) summary content))" using inp by simp
    fix ls assume b: "aw_offset (ss_w s') < 2 ^ 63" and d: "directory_ok (length hdr) (aw_offset (ss_w s')) (ss_dir s) ls"
    have lt: "aw_offset (ss_w s) < 2 ^ 63" "?stored < 2 ^ 63"
      using b off stored_le_entry [of en] by (simp_all add: same s1 put_entry_fields)
    then have o: "unat (word_of_nat (aw_offset (ss_w s)) :: u64) = aw_offset (ss_w s)" by (simp add: unat_of_nat)
    have "directory_ok (length hdr) (aw_offset (ss_w s')) (ss_dir s1) ls" using d by (simp add: s1)
    from dir_add_ok [OF this add] f o off show "directory_ok (length hdr) (aw_offset (ss_w s')) (ss_dir s')
        (ls @ item_listing (FileItem (in_name inp) (in_attrs inp) summary content) en)"
      by (simp add: same s1 file_record_listing [OF st lt(2) f(3)])
  qed
qed

section \<open>Every step keeps the invariant\<close>

text \<open>The operations on a session do not touch what the record is extended with.\<close>

definition keeps_more :: "('z session_scheme, 'a) op \<Rightarrow> bool" where
  "keeps_more m \<longleftrightarrow> (\<forall>s. session.more (snd (m s)) = session.more s)"

named_theorems more_intros \<open>operations that leave the fields of the extended record\<close>

lemma keeps_moreD: "keeps_more m \<Longrightarrow> m s = (r, s') \<Longrightarrow> session.more s' = session.more s"
  by (metis keeps_more_def snd_conv)

lemma keeps_more_bind [more_intros]: "keeps_more m \<Longrightarrow> (\<And>x. keeps_more (f x)) \<Longrightarrow> keeps_more (bindS m f)"
  by (auto simp: keeps_more_def bindS_def split: prod.splits outcome.splits) (metis snd_conv)+

lemma keeps_more_catch [more_intros]: "keeps_more m \<Longrightarrow> (\<And>x. keeps_more (h x)) \<Longrightarrow> keeps_more (catchS m h)"
  by (auto simp: keeps_more_def catchS_def split: prod.splits outcome.splits) (metis snd_conv)+

lemma keeps_more_basic [more_intros]:
  "keeps_more (returnS x)" "keeps_more (failS e)" "keeps_more (onWriter m)" "keeps_more (FileError p e)" "keeps_more (dir_add r)"
  by (auto simp: keeps_more_def returnS_def failS_def onWriter_def FileError_def dir_add_def split: prod.splits res.splits)

lemma keeps_more_with [more_intros]: "(\<And>s. keeps_more (f s)) \<Longrightarrow> keeps_more (withS f)"
  by (simp add: keeps_more_def withS_def)

lemma keeps_more_if [more_intros]: "keeps_more a \<Longrightarrow> keeps_more b \<Longrightarrow> keeps_more (if c then a else b)"
  by simp

lemma keeps_more_pair [more_intros]: "(\<And>x y. keeps_more (f x y)) \<Longrightarrow> keeps_more (case p of (x, y) \<Rightarrow> f x y)"
  by (cases p) simp

lemma keeps_more_option [more_intros]: "keeps_more a \<Longrightarrow> (\<And>x. keeps_more (f x)) \<Longrightarrow> keeps_more (case o' of None \<Rightarrow> a | Some x \<Rightarrow> f x)"
  by (cases o') simp_all

lemma dir_addEntry_more [more_intros]: "keeps_more (dir_addEntry inp summary)"
  unfolding dir_addEntry_def by (intro more_intros)

lemma addStreamed_more [more_intros]: "keeps_more (addStreamed P Z K fs lower policy inp)"
  unfolding addStreamed_def by (intro more_intros)

lemma orReport_more [more_intros]: "keeps_more m \<Longrightarrow> keeps_more (orReport path m)"
  unfolding orReport_def by (intro more_intros)

lemma dir_addMembers_more [more_intros]: "keeps_more (dir_addMembers off ms)"
  by (induction ms) (auto intro: more_intros)

lemma reportSolidMembers_more [more_intros]: "keeps_more (reportSolidMembers ms)"
  by (induction ms) (auto intro!: more_intros split: option.split)

lemma write_group_more [more_intros]: "keeps_more (write_group P Z K fs lower policy members)"
  unfolding write_group_def dir_addSolid_def by (intro more_intros)

lemma writeSpecialEntries_more [more_intros]: "keeps_more (writeSpecialEntries P K special)"
  by (induction special) (auto intro!: more_intros)

text \<open>Which inputs are accounted for: archived or reported.\<close>

definition accounts :: "ledger \<Rightarrow> inputFile multiset" where
  "accounts L = mset (lg_archived L) + mset (lg_failed L)"

lemma accounts_failed: "accounts (L\<lparr>lg_failed := lg_failed L @ xs\<rparr>) = accounts L + mset xs"
  by (simp add: accounts_def)

text \<open>The assumptions of a run: the libraries, the policy and the environment.\<close>

definition run_ok :: "prims \<Rightarrow> zstd \<Rightarrow> os \<Rightarrow> compressionPolicy \<Rightarrow> bool" where
  "run_ok P Z fs policy \<longleftrightarrow> lib_ok P Z \<and> policy_ok policy \<and> os_ok fs \<and> z_NewReader Z MaxSolidStreamSize MaxSolidStreamSize = Ok ()"

lemma run_okD:
  assumes "run_ok P Z fs policy"
  shows "lib_ok P Z" "policy_ok policy" "os_ok fs" "z_NewReader Z MaxSolidStreamSize MaxSolidStreamSize = Ok ()"
  using assms by (simp_all add: run_ok_def)

lemma addFileStreaming_opens:
  "addFileStreaming P Z K fs lower policy inp (aw, rnd) = (Val summary, s') \<Longrightarrow> \<exists>f. os_Open fs (in_path inp) = Inr f"
  unfolding addFileStreaming_def by (subst (asm) bindS_Val_conv) (auto simp: writing_Val_conv)

lemma addStreamed_ok:
  assumes env: "run_ok P Z fs policy" and ok: "session_ok P Z fs hdr keys L s" and reg: "in_regular inp"
    and run: "addStreamed P Z K fs lower policy inp s = (Val (), s')"
  shows "\<exists>L'. session_ok P Z fs hdr keys L' s' \<and> accounts L' = accounts L + {#inp#}"
proof -
  note e = run_okD [OF env]
  obtain summary aw rnd where st: "addFileStreaming P Z K fs lower policy inp (ss_w s, ss_rnd s) = (Val summary, (aw, rnd))"
    and add: "dir_addEntry inp summary (s\<lparr>ss_w := aw, ss_rnd := rnd\<rparr>) = (Val (), s')"
    using run by (auto simp: addStreamed_def bindS_Val_conv onWriter_Val_conv)
  obtain f where f: "os_Open fs (in_path inp) = Inr f" using addFileStreaming_opens [OF st] by blast
  have c: "length (s_bytes (of_r f)) < 2 ^ 63" "(case of_mapped f of Some data \<Rightarrow> data | None \<Rightarrow> s_bytes (of_r f)) = s_bytes (of_r f)"
    using e(3) f by (auto simp: os_ok_def split: option.splits)
  have k: "aw_keys (ss_w s) = keys" using ok by (simp add: session_ok_def written_def)
  obtain en where w: "WriteFileEntry K en (ss_w s) = Ok aw"
    and en: "file_entry P Z keys (in_name inp) (in_attrs inp) summary (s_bytes (of_r f)) en"
    using addFileStreaming_entry [OF e(1,2) f st] by (auto simp: c k)
  have h: "holds P Z keys (FileItem (in_name inp) (in_attrs inp) summary (s_bytes (of_r f))) en" using en c by simp
  have st: "stored_file fs inp (in_name inp, in_attrs inp, s_bytes (of_r f))" using f reg by (simp add: stored_file_def)
  from dir_addEntry_file [OF ok h st _ add, of] WriteFileEntry_Ok [OF w]
  have "session_ok P Z fs hdr keys (archive_item (FileItem (in_name inp) (in_attrs inp) summary (s_bytes (of_r f))) en [inp] L) s'" by simp
  then show ?thesis by (intro exI) (auto simp: accounts_def)
qed

lemma dir_add_fatal [fatal_intros]: "fatal_only (dir_add r)"
  by (auto simp: fatal_only_def dir_add_def split: res.splits if_splits)

lemma withS_fatal [fatal_intros]: "(\<And>s. fatal_only (f s)) \<Longrightarrow> fatal_only (withS f)"
  by (auto simp: fatal_only_def withS_def)

lemma onWriter_fatal [fatal_intros]: "fatal_only m \<Longrightarrow> fatal_only (onWriter m)"
  by (auto simp: fatal_only_def onWriter_Val_conv)

lemma dir_addEntry_fatal [fatal_intros]: "fatal_only (dir_addEntry inp summary)"
  unfolding dir_addEntry_def by (intro fatal_intros)

lemma option_fatal [fatal_intros]:
  "fatal_only a \<Longrightarrow> (\<And>x. fatal_only (f x)) \<Longrightarrow> fatal_only (case o' of None \<Rightarrow> a | Some x \<Rightarrow> f x)"
  by (cases o') simp_all

lemma misc_fatal [fatal_intros]: "fatal_only (updateS g)" "fatal_only (FileError p e)"
  by (simp_all add: fatal_only_def updateS_def FileError_def)

lemma dir_addMembers_fatal [fatal_intros]: "fatal_only (dir_addMembers off ms)"
  by (induction ms) (auto intro!: fatal_intros)

lemma reportSolidMembers_fatal [fatal_intros]: "fatal_only (reportSolidMembers ms)"
  by (induction ms) (auto intro!: fatal_intros split: option.split)

lemma orReport_fatal [fatal_intros]: "fatal_only (orReport path m)"
  by (auto simp: fatal_only_def orReport_def catchS_def failS_def FileError_def split: prod.splits outcome.splits if_splits)

lemma orReport_fatal_only:
  assumes "fatal_only m" and "orReport path m s = (Val u, s')" shows "m s = (Val u, s')"
proof (cases "m s")
  case (Pair r s1)
  have "IsFatal e" if "r = Fail e" for e using that Pair assms(1) unfolding fatal_only_def by blast
  with Pair assms(2) show ?thesis by (cases r) (simp_all add: orReport_def catchS_def failS_def)
qed

lemma sealPayloadEntry_fatal [fatal_intros]: "fatal_only (sealPayloadEntry P Z ty codec payload plaintext)"
  unfolding sealPayloadEntry_def by (intro fatal_intros)

lemma buildSolidEntry_fatal [fatal_intros]: "fatal_only (buildSolidEntry P Z fs lower policy members)"
  unfolding buildSolidEntry_def sealSolidEntry_def Let_def by (intro fatal_intros)

lemma write_group_fatal [fatal_intros]: "fatal_only (write_group P Z K fs lower policy members)"
  unfolding write_group_def dir_addSolid_def by (intro fatal_intros)

lemma flushSolid_fatal [fatal_intros]: "fatal_only (flushSolid P Z K fs lower policy)"
  unfolding flushSolid_def by (intro fatal_intros) (auto intro!: fatal_intros split: list.split)

lemma session_ok_rnd: "session_ok P Z fs hdr keys L s \<Longrightarrow> session_ok P Z fs hdr keys L (s\<lparr>ss_rnd := r\<rparr>)"
  by (simp add: session_ok_def)

lemma addStreamed_failed:
  assumes ok: "session_ok P Z fs hdr keys L s" and run: "addStreamed P Z K fs lower policy inp s = (Fail e, s')" and e: "\<not> IsFatal e"
  shows "session_ok P Z fs hdr keys L s'"
proof -
  have "fatal_only (dir_addEntry inp summary)" for summary by (rule dir_addEntry_fatal)
  with run e obtain aw rnd where st: "addFileStreaming P Z K fs lower policy inp (ss_w s, ss_rnd s) = (Fail e, (aw, rnd))"
    and s': "s' = s\<lparr>ss_w := aw, ss_rnd := rnd\<rparr>"
    by (auto simp: addStreamed_def bindS_def onWriter_Val_conv fatal_only_def split: prod.splits outcome.splits)
  have "aw = ss_w s" using addFileStreaming_tidy [of P Z K fs lower policy inp] st e by (fastforce simp: tidy_def)
  with session_ok_rnd [OF ok, of rnd] show ?thesis by (simp add: s')
qed

text \<open>A reported failure is in the ledger.\<close>

lemma FileError_ok:
  assumes "session_ok P Z fs hdr keys L s"
  shows "session_ok P Z fs hdr keys (L\<lparr>lg_failed := lg_failed L @ [inp]\<rparr>) (s\<lparr>ss_errors := ss_errors s @ [(in_path inp, e)]\<rparr>)"
  using assms by (simp add: session_ok_def)

lemma orReport_streamed_ok:
  assumes env: "run_ok P Z fs policy" and ok: "session_ok P Z fs hdr keys L s" and reg: "in_regular inp"
    and run: "orReport (in_path inp) (addStreamed P Z K fs lower policy inp) s = (Val (), s')"
  shows "\<exists>L'. session_ok P Z fs hdr keys L' s' \<and> accounts L' = accounts L + {#inp#}"
proof -
  obtain r s1 where a: "addStreamed P Z K fs lower policy inp s = (r, s1)" by force
  show ?thesis
  proof (cases r)
    case (Val u)
    with run a have "s' = s1" by (simp add: orReport_def catchS_def)
    with addStreamed_ok [OF env ok reg] a Val show ?thesis by simp
  next
    case (Fail e)
    with run a have e: "\<not> IsFatal e" "s' = s1\<lparr>ss_errors := ss_errors s1 @ [(in_path inp, e)]\<rparr>"
      by (auto simp: orReport_def catchS_def failS_def FileError_def split: if_splits)
    have "session_ok P Z fs hdr keys L s1" using addStreamed_failed [OF ok _ e(1)] a Fail by simp
    from FileError_ok [OF this, of inp e] e(2) show ?thesis
      by (intro exI [of _ "L\<lparr>lg_failed := lg_failed L @ [inp]\<rparr>"]) (simp add: accounts_def)
  qed (use run a in \<open>simp add: orReport_def catchS_def\<close>)
qed

text \<open>The failed members of a group.\<close>

definition dropped :: "inputFile list \<Rightarrow> solidMemberResult list \<Rightarrow> inputFile list" where
  "dropped files rs = map fst (filter (\<lambda>(f, r). sr_err r \<noteq> None) (zip files rs))"

lemma kept_dropped:
  "length files = length rs \<Longrightarrow> mset (kept files rs) + mset (dropped files rs) = mset files"
  by (induction rule: list_induct2) (auto simp: kept_def dropped_def)

lemma reportSolidMembers_ok:
  assumes "session_ok P Z fs hdr keys L s" and "reportSolidMembers rs s = (Val (), s')"
    and "list_all2 (\<lambda>f r. sr_path r = in_path f \<and> sr_name r = in_name f) files rs"
  shows "session_ok P Z fs hdr keys (L\<lparr>lg_failed := lg_failed L @ dropped files rs\<rparr>) s'"
  using assms(3,1,2)
proof (induction arbitrary: L s rule: list_all2_induct)
  case Nil
  then show ?case by (simp add: dropped_def returnS_def)
next
  case (Cons f files r rs)
  show ?case
  proof (cases "sr_err r")
    case None
    with Cons show ?thesis by (simp add: dropped_def)
  next
    case (Some e)
    then have "reportSolidMembers rs (s\<lparr>ss_errors := ss_errors s @ [(in_path f, e)]\<rparr>) = (Val (), s')"
      using Cons by (simp add: bindS_def FileError_def)
    from Cons.IH [OF FileError_ok [OF Cons.prems(1), of f] this] Some show ?thesis by (simp add: dropped_def)
  qed
qed

lemma group_written_ok:
  assumes env: "run_ok P Z fs policy" and ok: "session_ok P Z fs hdr keys L s" and reg: "list_all in_regular members"
    and b: "buildSolidEntry P Z fs lower policy members (ss_w s, rnd0) = (Val (oen, rs), (aw, rnd1))"
    and w: "(case oen of None \<Rightarrow> returnS () | Some en \<Rightarrow>
        bindS (onWriter (writeS (writeFailed ''write solid entry'') (WriteFileEntry K en))) (\<lambda>_. dir_addSolid rs))
        (s\<lparr>ss_rnd := rnd\<rparr>) = (Val (), s2)"
    and rep: "reportSolidMembers rs s2 = (Val (), s')"
  shows "\<exists>L'. session_ok P Z fs hdr keys L' s' \<and> accounts L' = accounts L + mset members"
proof -
  note e = run_okD [OF env]
  note g = buildSolidEntry_entry [OF e(1,2,4) b]
  then have aw: "aw = ss_w s" and paths: "list_all2 (\<lambda>f r. sr_path r = in_path f \<and> sr_name r = in_name f) members rs" by simp_all
  have k: "aw_keys (ss_w s) = keys" using ok by (simp add: session_ok_def written_def)
  have "\<exists>L2. session_ok P Z fs hdr keys L2 s2 \<and> accounts L2 = accounts L + mset (kept members rs) \<and> lg_failed L2 = lg_failed L"
  proof (cases oen)
    case None
    then have "packed rs = []" using g by simp
    then have "kept members rs = []" by (force simp: kept_def filter_empty_conv dest: set_zip_rightD)
    with None w session_ok_rnd [OF ok, of rnd] show ?thesis by (auto simp: returnS_def)
  next
    case (Some en)
    with g k obtain ms codec len stored where codec: "codec = CodecNone \<or> codec = CodecZstd"
      and en: "solid_entry P Z keys codec ms len stored en"
      and res: "list_all2 (group_result codec len stored) (packed rs) ms" and mem: "list_all2 (member_of fs) (kept members rs) ms" by auto
    let ?it = "GroupItem codec ms len stored"
    let ?s1 = "s\<lparr>ss_w := put_entry_of en (ss_w s), ss_rnd := rnd\<rparr>"
    have add: "dir_addMembers (aw_offset (ss_w s)) rs ?s1 = (Val (), s2)"
      using w by (auto simp: Some bindS_Val_conv onWriter_Val_conv writing_Val_conv dir_addSolid_def withS_def put_entry_fields
          dest!: WriteFileEntry_Ok)
    have same: "ss_w s2 = ss_w ?s1" "ss_errors s2 = ss_errors ?s1"
      using add by (auto dest: dir_addMembers_fields)
    have "set (kept members rs) \<subseteq> set members" by (auto simp: kept_def dest: set_zip_leftD)
    with reg have "list_all in_regular (kept members rs)" by (auto simp: list_all_iff)
    with mem have inps: "list_all2 (stored_file fs) (kept members rs) (item_files ?it)"
      by (auto simp: list_all2_conv_all_nth member_of_def stored_file_def list_all_length)
    have w: "written hdr keys (lg_entries L) (ss_w s)" using ok by (simp add: session_ok_def)
    note off = offset_before(1) [OF w] offset_before(2) [OF w, of en]
    have "session_ok P Z fs hdr keys (archive_item ?it en (kept members rs) L) s2"
    proof (rule session_entry [OF ok _ inps])
      show "holds P Z keys ?it en" using en by simp
      show "ss_w s2 = put_entry_of en (ss_w s)" "ss_errors s2 = ss_errors s" using same by simp_all
      fix ls assume b: "aw_offset (ss_w s2) < 2 ^ 63" and d: "directory_ok (length hdr) (aw_offset (ss_w s2)) (ss_dir s) ls"
      have "stored_size (fe_DataBlocks en) = int stored" using en by (simp add: solid_entry_def)
      with b off stored_le_entry [of en] have lt: "aw_offset (ss_w s) < 2 ^ 63" "stored < 2 ^ 63"
        by (simp_all add: same put_entry_fields)
      have "list_all (\<lambda>r. knownCodec (sr_codec r)) (packed rs)"
        using res codec by (auto simp: list_all_length list_all2_conv_all_nth group_result_def)
      moreover have "directory_ok (length hdr) (aw_offset (ss_w s2)) (ss_dir ?s1) ls" using d by simp
      ultimately have "directory_ok (length hdr) (aw_offset (ss_w s2)) (ss_dir s2)
          (ls @ directoryListing (map (member_record (aw_offset (ss_w s))) (packed rs)))"
        using dir_addMembers_ok [OF _ add, of "length hdr" "aw_offset (ss_w s2)" ls] off lt by (simp add: same)
      then show "directory_ok (length hdr) (aw_offset (ss_w s2)) (ss_dir s2) (ls @ item_listing ?it en)"
        by (simp add: group_listing [OF res en lt(2)])
    qed
    then show ?thesis by (intro exI [of _ "archive_item ?it en (kept members rs) L"]) (simp add: accounts_def)
  qed
  then obtain L2 where L2: "session_ok P Z fs hdr keys L2 s2" "accounts L2 = accounts L + mset (kept members rs)" by blast
  have "mset (kept members rs) + mset (dropped members rs) = mset members"
    by (rule kept_dropped [OF list_all2_lengthD [OF paths]])
  with reportSolidMembers_ok [OF L2(1) rep paths] L2(2) show ?thesis
    by (intro exI [of _ "L2\<lparr>lg_failed := lg_failed L2 @ dropped members rs\<rparr>"]) (simp add: accounts_failed add.assoc)
qed

lemma write_group_ok:
  assumes env: "run_ok P Z fs policy" and ok: "session_ok P Z fs hdr keys L s" and reg: "list_all in_regular members"
    and run: "write_group P Z K fs lower policy members s = (Val (), s')"
  shows "\<exists>L'. session_ok P Z fs hdr keys L' s' \<and> accounts L' = accounts L + mset members"
proof -
  obtain oen rs aw rnd s2 where b: "buildSolidEntry P Z fs lower policy members (ss_w s, ss_rnd s) = (Val (oen, rs), (aw, rnd))"
    and w: "(case oen of None \<Rightarrow> returnS () | Some en \<Rightarrow>
        bindS (onWriter (writeS (writeFailed ''write solid entry'') (WriteFileEntry K en))) (\<lambda>_. dir_addSolid rs))
        (s\<lparr>ss_w := aw, ss_rnd := rnd\<rparr>) = (Val (), s2)"
    and rep: "reportSolidMembers rs s2 = (Val (), s')"
    using run by (auto simp: write_group_def bindS_Val_conv onWriter_Val_conv)
  have "aw = ss_w s" using buildSolidEntry_entry [OF _ _ _ b] run_okD [OF env] by blast
  with w have "(case oen of None \<Rightarrow> returnS () | Some en \<Rightarrow>
        bindS (onWriter (writeS (writeFailed ''write solid entry'') (WriteFileEntry K en))) (\<lambda>_. dir_addSolid rs))
        (s\<lparr>ss_rnd := rnd\<rparr>) = (Val (), s2)" by simp
  from group_written_ok [OF env ok reg b this rep] show ?thesis .
qed

text \<open>
  The invariant of a \<^verbatim>\<open>StreamingArchiver\<close>: the queued files are regular, and every file handed in so
  far is archived, reported or queued.
\<close>

definition streaming_ok ::
  "prims \<Rightarrow> zstd \<Rightarrow> os \<Rightarrow> bytes \<Rightarrow> KeySchedule \<Rightarrow> ledger \<Rightarrow> inputFile multiset \<Rightarrow> StreamingArchiver \<Rightarrow> bool" where
  "streaming_ok P Z fs hdr keys L files s \<longleftrightarrow> session_ok P Z fs hdr keys L s
     \<and> list_all in_regular (sa_pending s) \<and> accounts L + mset (sa_pending s) = files"

lemma more_fields:
  "session.more (s' :: StreamingArchiver) = session.more s \<Longrightarrow>
   sa_pending s' = sa_pending s \<and> sa_special s' = sa_special s \<and> sa_pendingSize s' = sa_pendingSize s"
  by (cases s, cases s') simp

lemma flushSolid_ok:
  assumes env: "run_ok P Z fs policy" and ok: "streaming_ok P Z fs hdr keys L files s"
    and run: "flushSolid P Z K fs lower policy s = (Val (), s')"
  shows "\<exists>L'. streaming_ok P Z fs hdr keys L' files s' \<and> sa_pending s' = [] \<and> sa_special s' = sa_special s"
proof -
  let ?s0 = "s\<lparr>sa_pending := [], sa_pendingSize := 0\<rparr>"
  have s0: "session_ok P Z fs hdr keys L ?s0" and reg: "list_all in_regular (sa_pending s)"
    and acc: "accounts L + mset (sa_pending s) = files"
    using ok by (simp_all add: streaming_ok_def session_ok_def)
  define m :: "unit streaming" where "m = (case sa_pending s of [] \<Rightarrow> returnS ()
       | [inp] \<Rightarrow> orReport (in_path inp) (addStreamed P Z K fs lower policy inp)
       | members \<Rightarrow> write_group P Z K fs lower policy members)"
  have r: "m ?s0 = (Val (), s')"
    using run by (simp add: flushSolid_def withS_def bindS_def updateS_def m_def)
  have "keeps_more m" unfolding m_def by (auto intro!: more_intros split: list.split)
  from more_fields [OF keeps_moreD [OF this r]] have f: "sa_pending s' = []" "sa_special s' = sa_special s" by simp_all
  have "\<exists>L'. session_ok P Z fs hdr keys L' s' \<and> accounts L' = accounts L + mset (sa_pending s)"
  proof (cases "sa_pending s")
    case Nil
    with r s0 show ?thesis by (auto simp: m_def returnS_def)
  next
    case (Cons a as)
    show ?thesis
    proof (cases as)
      case Nil
      with Cons r reg orReport_streamed_ok [OF env s0, of a K lower s'] show ?thesis by (simp add: m_def)
    next
      case (Cons b bs)
      with \<open>sa_pending s = a # as\<close> r reg write_group_ok [OF env s0, of "a # b # bs" K lower s'] show ?thesis by (simp add: m_def)
    qed
  qed
  with acc f show ?thesis by (auto simp: streaming_ok_def)
qed

lemma addInput_ok:
  assumes env: "run_ok P Z fs policy" and ok: "streaming_ok P Z fs hdr keys L files s" and reg: "in_regular inp"
    and run: "orReport (in_path inp) (addInput P Z K fs lower policy inp) s = (Val (), s')"
  shows "\<exists>L'. streaming_ok P Z fs hdr keys L' (files + {#inp#}) s' \<and> sa_special s' = sa_special s"
proof (cases "if po_solid policy then solidCandidate fs inp else None")
  case None
  then have r: "orReport (in_path inp) (addStreamed P Z K fs lower policy inp) s = (Val (), s')"
    using run by (simp add: addInput_def)
  have "session_ok P Z fs hdr keys L s" using ok by (simp add: streaming_ok_def)
  from orReport_streamed_ok [OF env this reg r] obtain L' where
    L': "session_ok P Z fs hdr keys L' s'" "accounts L' = accounts L + {#inp#}" by blast
  have "keeps_more (orReport (in_path inp) (addStreamed P Z K fs lower policy inp))" by (intro more_intros)
  from more_fields [OF keeps_moreD [OF this r]] L' ok show ?thesis by (auto simp: streaming_ok_def)
next
  case (Some n)
  let ?u = "\<lambda>s. s\<lparr>sa_pending := sa_pending s @ [inp], sa_pendingSize := sa_pendingSize s + n\<rparr>"
  let ?m = "withS (\<lambda>s. if MaxSolidStreamSize < sa_pendingSize s + n then flushSolid P Z K fs lower policy else returnS ())"
  have "fatal_only (bindS ?m (\<lambda>_. updateS ?u))" by (intro fatal_intros)
  then have "bindS ?m (\<lambda>_. updateS ?u) s = (Val (), s')"
    using orReport_fatal_only [of _ "in_path inp" s "()" s'] run Some by (simp add: addInput_def)
  then obtain s1 where m: "?m s = (Val (), s1)" and s': "s' = ?u s1"
    by (auto simp: bindS_Val_conv updateS_def)
  obtain L' where L': "streaming_ok P Z fs hdr keys L' files s1" "sa_special s1 = sa_special s"
    using m ok flushSolid_ok [OF env ok] by (auto simp: withS_def returnS_def split: if_splits)
  then show ?thesis using reg by (intro exI [of _ L']) (auto simp: streaming_ok_def session_ok_def s')
qed

lemma addInputs_ok:
  assumes env: "run_ok P Z fs policy"
  shows "streaming_ok P Z fs hdr keys L files s \<Longrightarrow> list_all in_regular inps \<Longrightarrow>
    addInputs P Z K fs lower policy inps s = (Val (), s') \<Longrightarrow>
    \<exists>L'. streaming_ok P Z fs hdr keys L' (files + mset inps) s' \<and> sa_special s' = sa_special s"
proof (induction inps arbitrary: L files s)
  case Nil
  then show ?case by (auto simp: returnS_def)
next
  case (Cons inp inps)
  obtain s1 where a: "orReport (in_path inp) (addInput P Z K fs lower policy inp) s = (Val (), s1)"
    and r: "addInputs P Z K fs lower policy inps s1 = (Val (), s')"
    using Cons.prems(3) by (auto simp: bindS_Val_conv)
  from addInput_ok [OF env Cons.prems(1) _ a] Cons.prems(2) obtain L1 where
    L1: "streaming_ok P Z fs hdr keys L1 (files + {#inp#}) s1" "sa_special s1 = sa_special s" by auto
  from Cons.IH [OF L1(1) _ r] Cons.prems(2) L1(2) show ?case by simp
qed

lemma special_entry_ok:
  assumes lib: "lib_ok P Z" and ok: "session_ok P Z fs hdr keys L s" and special: "\<not> in_regular inp"
    and run: "bindS (onWriter (sealSpecialEntry P inp)) (\<lambda>entry.
      bindS (onWriter (writeS (writeFailed ''write entry'') (WriteFileEntry K entry))) (\<lambda>_. dir_addEntry inp specialSummary)) s = (Val (), s')"
  shows "\<exists>L'. session_ok P Z fs hdr keys L' s' \<and> accounts L' = accounts L + {#inp#}"
proof -
  obtain en aw rnd where en: "sealSpecialEntry P inp (ss_w s, ss_rnd s) = (Val en, (aw, rnd))"
    and add: "dir_addEntry inp specialSummary (s\<lparr>ss_rnd := rnd, ss_w := put_entry_of en aw\<rparr>) = (Val (), s')"
    using run by (auto simp: bindS_Val_conv onWriter_Val_conv writing_Val_conv dest!: WriteFileEntry_Ok)
  have k: "aw_keys (ss_w s) = keys" using ok by (simp add: session_ok_def written_def)
  note f = sealSpecialEntry_entry [OF lib en]
  then have h: "holds P Z keys (FileItem (in_name inp) (in_attrs inp) specialSummary []) en" by (simp add: specialSummary_def k)
  have "stored_file fs inp (in_name inp, in_attrs inp, [])" using special by (simp add: stored_file_def)
  from dir_addEntry_file [OF ok h this _ add, of rnd] f show ?thesis
    by (intro exI [of _ "archive_item (FileItem (in_name inp) (in_attrs inp) specialSummary []) en [inp] L"]) (simp add: accounts_def)
qed

lemma writeSpecialEntries_ok:
  assumes lib: "lib_ok P Z"
  shows "session_ok P Z fs hdr keys L s \<Longrightarrow> list_all (\<lambda>f. \<not> in_regular f) special \<Longrightarrow>
    writeSpecialEntries P K special s = (Val (), s') \<Longrightarrow>
    \<exists>L'. session_ok P Z fs hdr keys L' s' \<and> accounts L' = accounts L + mset special"
proof (induction special arbitrary: L s)
  case Nil
  then show ?case by (auto simp: returnS_def)
next
  case (Cons inp special)
  from Cons.prems(3) obtain s1 where a: "bindS (onWriter (sealSpecialEntry P inp)) (\<lambda>entry.
      bindS (onWriter (writeS (writeFailed ''write entry'') (WriteFileEntry K entry))) (\<lambda>_. dir_addEntry inp specialSummary)) s = (Val (), s1)"
    and r: "writeSpecialEntries P K special s1 = (Val (), s')"
    by (auto simp: bindS_Val_conv)
  from special_entry_ok [OF lib Cons.prems(1) _ a] Cons.prems(2) obtain L1 where
    L1: "session_ok P Z fs hdr keys L1 s1" "accounts L1 = accounts L + {#inp#}" by auto
  from Cons.IH [OF L1(1) _ r] Cons.prems(2) L1(2) show ?case by simp
qed

end
