(* ===== verification/Concurrent_Archiver.thy ===== *)
theory Concurrent_Archiver
  imports Job_Pool Archiver_Invariant
begin

text \<open>
  The \<^verbatim>\<open>ConcurrentArchiver\<close> (\<^verbatim>\<open>io/concurrent.go\<close>): which jobs it makes of its inputs, what a worker does with a
  job and the writer with its result, and the pool that runs them.  \<^verbatim>\<open>crypto/rand\<close> is shared by all
  goroutines; \<open>rnds\<close> gives the bytes that the worker of each job gets of it, the session has those of
  the writer.  Every interleaving leaves the archive that one job after the other leaves.
\<close>

section \<open>Jobs and results\<close>

definition minParallelFileSize :: nat where "minParallelFileSize = 4 * 1024 * 1024"
definition inlineStreamThreshold :: nat where "inlineStreamThreshold = minParallelFileSize"

text \<open>
  What a worker sends back: of the fields of \<^verbatim>\<open>fileResult\<close>, \<^verbatim>\<open>err\<close> decides whether the others are looked at, and
  \<^verbatim>\<open>members\<close> which of them; \<^verbatim>\<open>noEntry\<close> is a group without an entry.
\<close>

datatype jobOutput = FileOutput inputFile FileEntry entrySummary | GroupOutput "FileEntry option" "solidMemberResult list"

record fileResult =
  fr_index :: nat
  fr_path :: bytes
  fr_out :: "ArchiveError + jobOutput"

definition isLargeFile :: "os \<Rightarrow> bytes \<Rightarrow> bool" where
  "isLargeFile fs path = (case os_Stat fs path of Inl e \<Rightarrow> False | Inr info \<Rightarrow> fi_Regular info \<and> inlineStreamThreshold \<le> fi_Size info)"

definition add_file_job :: "os \<Rightarrow> inputFile \<Rightarrow> fileJob list \<Rightarrow> fileJob list" where
  "add_file_job fs f jobs =
     jobs @ [\<lparr>fj_index = length jobs, fj_in = f, fj_members = None, fj_inline = isLargeFile fs (in_path f)\<rparr>]"

definition add_group_job :: "inputFile list \<Rightarrow> fileJob list \<Rightarrow> fileJob list" where
  "add_group_job g jobs = jobs @ [\<lparr>fj_index = length jobs, fj_in = hd g, fj_members = Some g, fj_inline = False\<rparr>]"

definition planJobs :: "os \<Rightarrow> (bytes \<Rightarrow> bytes) \<Rightarrow> compressionPolicy \<Rightarrow> inputFile list \<Rightarrow> fileJob list" where
  "planJobs fs lower policy files =
     (let plan = (if po_solid policy then planSolid fs lower files else \<lparr>pl_individual = files, pl_groups = []\<rparr>) in
      fold add_group_job (pl_groups plan) (fold (add_file_job fs) (pl_individual plan) []))"

text \<open>A single file is one job, which the writer streams itself.\<close>

definition archive_plan :: "os \<Rightarrow> (bytes \<Rightarrow> bytes) \<Rightarrow> compressionPolicy \<Rightarrow> inputFile list \<Rightarrow> fileJob list" where
  "archive_plan fs lower policy files =
     (case files of
        [f] \<Rightarrow> [\<lparr>fj_index = 0, fj_in = f, fj_members = None, fj_inline = True\<rparr>]
      | _ \<Rightarrow> planJobs fs lower policy files)"

definition job_result :: "fileJob \<Rightarrow> jobOutput outcome \<Rightarrow> fileResult option" where
  "job_result job r =
     (case r of
        Val out \<Rightarrow> Some \<lparr>fr_index = fj_index job, fr_path = in_path (fj_in job), fr_out = Inr out\<rparr>
      | Fail e \<Rightarrow> Some \<lparr>fr_index = fj_index job, fr_path = in_path (fj_in job), fr_out = Inl e\<rparr>
      | Crash \<Rightarrow> None)"

definition runJob ::
  "prims \<Rightarrow> zstd \<Rightarrow> os \<Rightarrow> (bytes \<Rightarrow> bytes) \<Rightarrow> compressionPolicy \<Rightarrow> (nat \<Rightarrow> bytes) \<Rightarrow> 'z session_scheme \<Rightarrow> fileJob \<Rightarrow> fileResult option" where
  "runJob P Z fs lower policy rnds s job =
     job_result job (fst ((case fj_members job of
         Some members \<Rightarrow> bindS (buildSolidEntry P Z fs lower policy members) (\<lambda>(entry, results). returnS (GroupOutput entry results))
       | None \<Rightarrow> bindS (encryptFile P Z fs lower policy (fj_in job)) (\<lambda>(entry, summary). returnS (FileOutput (fj_in job) entry summary)))
       (ss_w s, rnds (fj_index job))))"

section \<open>The writer\<close>

definition streamInline ::
  "prims \<Rightarrow> zstd \<Rightarrow> sink \<Rightarrow> os \<Rightarrow> (bytes \<Rightarrow> bytes) \<Rightarrow> compressionPolicy \<Rightarrow> inputFile \<Rightarrow> ('z session_scheme, nat) op" where
  "streamInline P Z K fs lower policy inp s =
     (case onWriter (addFileStreaming P Z K fs lower policy inp) s of
        (Val summary, s) \<Rightarrow>
          bindS (dir_addEntry inp summary) (\<lambda>_. returnS (case os_Stat fs (in_path inp) of Inl e \<Rightarrow> 0 | Inr info \<Rightarrow> fi_Size info)) s
      | (Fail e, s) \<Rightarrow> if IsFatal e then (Fail e, s) else bindS (FileError (in_path inp) e) (\<lambda>_. returnS 0) s
      | (Crash, s) \<Rightarrow> (Crash, s))"

text \<open>What \<^verbatim>\<open>reportSolidMembers\<close> returns.\<close>

definition packed_size :: "solidMemberResult list \<Rightarrow> nat" where
  "packed_size members = sum_list (map sr_size (filter (\<lambda>m. sr_err m = None) members))"

definition writeResult :: "sink \<Rightarrow> fileResult \<Rightarrow> ('z session_scheme, nat) op" where
  "writeResult K r =
     (case fr_out r of
        Inl e \<Rightarrow> if IsFatal e then failS e else bindS (FileError (fr_path r) e) (\<lambda>_. returnS 0)
      | Inr (GroupOutput entry members) \<Rightarrow>
          bindS (case entry of
              None \<Rightarrow> returnS ()
            | Some en \<Rightarrow>
                bindS (onWriter (writeS (writeFailed ''write solid entry'') (WriteFileEntry K en))) (\<lambda>_. dir_addSolid members)) (\<lambda>_.
          bindS (reportSolidMembers members) (\<lambda>_. returnS (packed_size members)))
      | Inr (FileOutput inp entry summary) \<Rightarrow>
          bindS (onWriter (writeS (writeFailed ''write file entry'') (WriteFileEntry K entry))) (\<lambda>_.
          bindS (dir_addEntry inp summary) (\<lambda>_. returnS (es_original summary))))"

definition finishJobs ::
  "prims \<Rightarrow> zstd \<Rightarrow> sink \<Rightarrow> ('p, 'k) ssh \<Rightarrow> 'k option \<Rightarrow> inputFile list \<Rightarrow> ('z session_scheme, unit) op" where
  "finishJobs P Z K S signer special =
     bindS (writeSpecialEntries P K special) (\<lambda>_. finishArchive P Z K S signer)"

section \<open>The archiver\<close>

definition newSession :: "ArchiveWriter \<Rightarrow> bytes \<Rightarrow> session" where
  "newSession aw rnd = \<lparr>ss_w = aw, ss_rnd = rnd, ss_dir = newDirectoryBuilder, ss_errors = []\<rparr>"

definition NewConcurrentArchiver ::
  "prims \<Rightarrow> ('r, 'i) age \<Rightarrow> zstd \<Rightarrow> nat \<Rightarrow> nat \<Rightarrow> sink \<Rightarrow> bytes \<Rightarrow> int \<Rightarrow> 'r archiverConfig
   \<Rightarrow> (bytes, session \<times> compressionPolicy \<times> nat) op" where
  "NewConcurrentArchiver P A Z procs cpus K password workers cfg =
     bindS (openArchiveWriter P A Z procs K password cfg) (\<lambda>(aw, policy) rnd.
       (Val (newSession aw rnd, policy, if workers \<le> 0 then cpus else nat workers), rnd))"

text \<open>
  \<^verbatim>\<open>archiveJobs\<close>: the pool with the archiver's own jobs, and what it amounts to.
\<close>

definition archive_step ::
  "prims \<Rightarrow> zstd \<Rightarrow> sink \<Rightarrow> os \<Rightarrow> (bytes \<Rightarrow> bytes) \<Rightarrow> compressionPolicy \<Rightarrow> ('p, 'k) ssh \<Rightarrow> 'k option \<Rightarrow> (nat \<Rightarrow> bytes)
   \<Rightarrow> inputFile list \<Rightarrow> nat \<Rightarrow> nat \<Rightarrow> ('z session_scheme, fileResult) jobPool \<Rightarrow> ('z session_scheme, fileResult) jobPool \<Rightarrow> bool" where
  "archive_step P Z K fs lower policy S signer rnds special =
     jobs_step (runJob P Z fs lower policy rnds) (writeResult K) (streamInline P Z K fs lower policy) (finishJobs P Z K S signer special)"

definition archiveJobs ::
  "prims \<Rightarrow> zstd \<Rightarrow> sink \<Rightarrow> os \<Rightarrow> (bytes \<Rightarrow> bytes) \<Rightarrow> compressionPolicy \<Rightarrow> ('p, 'k) ssh \<Rightarrow> 'k option \<Rightarrow> (nat \<Rightarrow> bytes)
   \<Rightarrow> inputFile list \<Rightarrow> nat \<Rightarrow> fileJob list \<Rightarrow> ('z session_scheme, nat \<times> nat) op" where
  "archiveJobs P Z K fs lower policy S signer rnds special files jobs =
     archive_seq (runJob P Z fs lower policy rnds) (writeResult K) (streamInline P Z K fs lower policy)
       (finishJobs P Z K S signer special) files jobs 0"

section \<open>A worker looks only at the keys\<close>

text \<open>\<open>keyed\<close>: the outcome and the bytes drawn depend on the writer only through its keys.\<close>

definition keyed :: "'a writing \<Rightarrow> bool" where
  "keyed m \<longleftrightarrow> (\<forall>aw aw' rnd. aw_keys aw = aw_keys aw' \<longrightarrow>
     (\<exists>r rnd'. m (aw, rnd) = (r, (aw, rnd')) \<and> m (aw', rnd) = (r, (aw', rnd'))))"

named_theorems keyed_intros \<open>operations that look only at the keys of the writer\<close>

lemma keyed_bind [keyed_intros]:
  assumes "keyed m" and "\<And>x. keyed (f x)" shows "keyed (bindS m f)"
  unfolding keyed_def
proof (intro allI impI)
  fix aw aw' :: ArchiveWriter and rnd assume k: "aw_keys aw = aw_keys aw'"
  then obtain r rnd' where m: "m (aw, rnd) = (r, (aw, rnd'))" "m (aw', rnd) = (r, (aw', rnd'))"
    using assms(1) unfolding keyed_def by blast
  show "\<exists>r rnd'. bindS m f (aw, rnd) = (r, (aw, rnd')) \<and> bindS m f (aw', rnd) = (r, (aw', rnd'))"
  proof (cases r)
    case (Val x)
    obtain r' rnd2 where "f x (aw, rnd') = (r', (aw, rnd2))" "f x (aw', rnd') = (r', (aw', rnd2))"
      using assms(2) k unfolding keyed_def by blast
    with Val m show ?thesis by (simp add: bindS_def)
  qed (use m in \<open>simp_all add: bindS_def\<close>)
qed

lemma keyed_basic [keyed_intros]:
  "keyed (orFail w m)" "keyed (drawS w f)" "keyed (withWriter (\<lambda>aw. callS w (DeriveFileKey P aw salt)))" "keyed (callS w r)"
  "keyed (returnS x)"
  by (auto simp: keyed_def orFail_def drawS_def withWriter_def callS_def returnS_def DeriveFileKey_def split: sum.splits res.splits prod.splits)

lemma keyed_split [keyed_intros]: "(\<And>x y. keyed (f x y)) \<Longrightarrow> keyed (case p of (x, y) \<Rightarrow> f x y)"
  by (cases p) simp

lemma keyed_if [keyed_intros]: "keyed a \<Longrightarrow> keyed b \<Longrightarrow> keyed (if c then a else b)"
  by simp

lemma keyed_option [keyed_intros]: "keyed a \<Longrightarrow> (\<And>x. keyed (f x)) \<Longrightarrow> keyed (case o' of None \<Rightarrow> a | Some x \<Rightarrow> f x)"
  by (cases o') simp_all

lemma encryptFile_keyed [keyed_intros]: "keyed (encryptFile P Z fs lower policy inp)"
  unfolding encryptFile_def Let_def by (intro keyed_intros)

lemma buildSolidEntry_keyed [keyed_intros]: "keyed (buildSolidEntry P Z fs lower policy members)"
  unfolding buildSolidEntry_def sealSolidEntry_def sealPayloadEntry_def Let_def by (intro keyed_intros)

lemma keyed_outcome: "keyed m \<Longrightarrow> aw_keys aw = aw_keys aw' \<Longrightarrow> fst (m (aw, rnd)) = fst (m (aw', rnd))"
  unfolding keyed_def by (metis fst_conv)

lemma runJob_keys:
  assumes "aw_keys (ss_w s) = aw_keys (ss_w s')"
  shows "runJob P Z fs lower policy rnds s = runJob P Z fs lower policy rnds s'"
proof
  fix job :: fileJob
  have "keyed (case fj_members job of
         Some members \<Rightarrow> bindS (buildSolidEntry P Z fs lower policy members) (\<lambda>(entry, results). returnS (GroupOutput entry results))
       | None \<Rightarrow> bindS (encryptFile P Z fs lower policy (fj_in job)) (\<lambda>(entry, summary). returnS (FileOutput (fj_in job) entry summary)))"
    by (intro keyed_intros)
  from keyed_outcome [OF this assms] show "runJob P Z fs lower policy rnds s job = runJob P Z fs lower policy rnds s' job"
    unfolding runJob_def by simp
qed

section \<open>Nothing changes the keys\<close>

definition same_keys :: "'a writing \<Rightarrow> bool" where
  "same_keys m \<longleftrightarrow> (\<forall>s. aw_keys (fst (snd (m s))) = aw_keys (fst s))"

definition keeps_keys :: "('z session_scheme, 'a) op \<Rightarrow> bool" where
  "keeps_keys m \<longleftrightarrow> (\<forall>s. aw_keys (ss_w (snd (m s))) = aw_keys (ss_w s))"

named_theorems keys_intros \<open>operations that leave the keys of the writer\<close>

lemma same_keys_bind [keys_intros]: "same_keys m \<Longrightarrow> (\<And>x. same_keys (f x)) \<Longrightarrow> same_keys (bindS m f)"
  by (auto simp: same_keys_def bindS_def split: prod.splits outcome.splits) (metis fst_conv snd_conv)+

lemma quiet_same_keys: "quiet m \<Longrightarrow> same_keys m"
  by (simp add: quiet_def same_keys_def)

lemmas same_keys_basic [keys_intros] = quiet_basic [THEN quiet_same_keys]

lemma same_keys_return [keys_intros]: "same_keys (returnS x)"
  by (simp add: same_keys_def returnS_def)

lemma same_keys_split [keys_intros]: "(\<And>x y. same_keys (f x y)) \<Longrightarrow> same_keys (case p of (x, y) \<Rightarrow> f x y)"
  by (cases p) simp

lemma same_keys_write: "(\<And>aw aw'. f aw = Ok aw' \<Longrightarrow> aw_keys aw' = aw_keys aw) \<Longrightarrow> same_keys (writeS w f)"
  by (auto simp: same_keys_def writeS_def split: res.splits)

lemma write_keys:
  "WriteFileEntry K en aw = Ok aw' \<Longrightarrow> aw_keys aw' = aw_keys aw"
  "BeginFileEntry K ty salt hdr mb pad aw = Ok aw' \<Longrightarrow> aw_keys aw' = aw_keys aw"
  "EndFileEntry K t aw = Ok aw' \<Longrightarrow> aw_keys aw' = aw_keys aw"
  "AppendDataBlock K db aw = Ok aw' \<Longrightarrow> aw_keys aw' = aw_keys aw"
  "WriteDirectoryLocator K n aw = Ok aw' \<Longrightarrow> aw_keys aw' = aw_keys aw"
  "WriteFooter P K aw = Ok aw' \<Longrightarrow> aw_keys aw' = aw_keys aw"
  "raw_Write K x aw = Ok aw' \<Longrightarrow> aw_keys aw' = aw_keys aw"
  by (auto simp: put_entry_of_def put_def AppendDataBlock_def WriteDirectoryLocator_def WriteFooter_def writeByte_def raw_Write_def
      bindR_Ok_conv Let_def case_prod_unfold dest!: WriteFileEntry_Ok BeginFileEntry_Ok EndFileEntry_Ok tee_Write_Ok writer_parts(4)
      split: option.splits)

lemma same_keys_writes [keys_intros]:
  "same_keys (writeS w (WriteFileEntry K en))" "same_keys (writeS w (BeginFileEntry K ty salt hdr mb pad))"
  "same_keys (writeS w (EndFileEntry K t))" "same_keys (writeS w (WriteDirectoryLocator K n))"
  "same_keys (writeS w (WriteFooter P K))" "same_keys (writeS w (raw_Write K x))"
  by (rule same_keys_write, erule write_keys)+

text \<open>A pipeline changes the writer only by appending blocks.\<close>

lemma encrypt_stream_view:
  assumes "\<And>db k. v (snd (send db k)) = v k"
  shows "v (snd (encrypt_stream P Z key send fb h r k)) = v k"
  using assms
proof (induction P Z key send fb h r k rule: encrypt_stream.induct)
  case (1 P Z key send fb h r k)
  have s: "v k' = v k" if "send db k = (x, k')" for db k x k' using 1(2) [of db k] that by simp
  note ih = 1(1) [OF _ _ _ _ _ _ _ 1(2)]
  show ?case
    by (subst encrypt_stream.simps) (auto simp: ih ih [where xa = "[]", simplified] dest: s split: prod.splits res.splits option.splits if_splits)
qed

lemma encryptMmap_view:
  assumes "\<And>db k. v (snd (send db k)) = v k"
  shows "v (snd (encryptMmapSequential P Z key send fb h data k)) = v k"
  using assms
proof (induction P Z key send fb h data k rule: encryptMmapSequential.induct)
  case (1 P Z key send fb h data k)
  have s: "v k' = v k" if "send db k = (x, k')" for db k x k' using 1(2) [of db k] that by simp
  show ?case
    by (subst encryptMmapSequential.simps)
      (auto simp: 1 Let_def dest: s split: prod.splits res.splits option.splits)
qed

lemma send_writer_keys: "aw_keys (snd (send_writer K db aw)) = aw_keys aw"
  by (auto simp: send_writer_def dest: write_keys(4) split: res.splits)

lemma encrypt_data_keys [keys_intros]: "same_keys (encrypt_data P Z K key fb f)"
proof -
  have "aw_keys (snd (encrypt_stream P Z key (send_writer K) fb [] (of_r f) aw)) = aw_keys aw"
    "aw_keys (snd (encryptMmapSequential P Z key (send_writer K) fb [] d aw)) = aw_keys aw" for aw d
    by (rule encrypt_stream_view encryptMmap_view, rule send_writer_keys)+
  then show ?thesis
    by (auto simp: same_keys_def encrypt_data_def split: prod.splits sum.splits option.splits) (simp_all add: prod_eq_iff)
qed

lemma addFileStreaming_keys [keys_intros]: "same_keys (addFileStreaming P Z K fs lower policy inp)"
  unfolding addFileStreaming_def Let_def by (intro keys_intros)

lemma sealPayloadEntry_keys [keys_intros]: "same_keys (sealPayloadEntry P Z ty codec payload plaintext)"
  unfolding sealPayloadEntry_def by (intro keys_intros)

lemma sealSpecialEntry_keys [keys_intros]: "same_keys (sealSpecialEntry P inp)"
  unfolding sealSpecialEntry_def by (intro keys_intros)

lemma keeps_keysD: "keeps_keys m \<Longrightarrow> m s = (r, s') \<Longrightarrow> aw_keys (ss_w s') = aw_keys (ss_w s)"
  by (metis keeps_keys_def snd_conv)

lemma keeps_keys_bind [keys_intros]: "keeps_keys m \<Longrightarrow> (\<And>x. keeps_keys (f x)) \<Longrightarrow> keeps_keys (bindS m f)"
  by (auto simp: keeps_keys_def bindS_def split: prod.splits outcome.splits) (metis snd_conv)+

lemma keeps_keys_writer [keys_intros]: "same_keys m \<Longrightarrow> keeps_keys (onWriter m)"
  by (auto simp: keeps_keys_def same_keys_def onWriter_def split: prod.splits) (metis fst_conv snd_conv)+

lemma keeps_keys_basic [keys_intros]:
  "keeps_keys (returnS x)" "keeps_keys (failS e)" "keeps_keys (FileError p e)" "keeps_keys (dir_add r)" "keeps_keys (callS w r')"
  by (auto simp: keeps_keys_def returnS_def failS_def FileError_def dir_add_def callS_def split: res.splits)

lemma keeps_keys_with [keys_intros]: "(\<And>s. keeps_keys (f s)) \<Longrightarrow> keeps_keys (withS f)"
  by (simp add: keeps_keys_def withS_def)

lemma keeps_keys_if [keys_intros]: "keeps_keys a \<Longrightarrow> keeps_keys b \<Longrightarrow> keeps_keys (if c then a else b)"
  by simp

lemma keeps_keys_split [keys_intros]: "(\<And>x y. keeps_keys (f x y)) \<Longrightarrow> keeps_keys (case p of (x, y) \<Rightarrow> f x y)"
  by (cases p) simp

lemma keeps_keys_option [keys_intros]: "keeps_keys a \<Longrightarrow> (\<And>x. keeps_keys (f x)) \<Longrightarrow> keeps_keys (case o' of None \<Rightarrow> a | Some x \<Rightarrow> f x)"
  by (cases o') simp_all

lemma dir_addEntry_keys [keys_intros]: "keeps_keys (dir_addEntry inp summary)"
  unfolding dir_addEntry_def by (intro keys_intros)

lemma dir_addMembers_keys [keys_intros]: "keeps_keys (dir_addMembers off ms)"
  by (induction ms) (auto intro: keys_intros)

lemma reportSolidMembers_keys [keys_intros]: "keeps_keys (reportSolidMembers ms)"
  by (induction ms) (auto intro!: keys_intros split: option.split)

lemma writeSpecialEntries_keys [keys_intros]: "keeps_keys (writeSpecialEntries P K special)"
  by (induction special) (auto intro!: keys_intros)

lemma finishJobs_keys: "keeps_keys (finishJobs P Z K S signer special)"
  unfolding finishJobs_def finishArchive_def dir_write_def signatureBlock_def Let_def by (intro keys_intros)

lemma writeResult_keys: "keeps_keys (writeResult K r)"
  unfolding writeResult_def dir_addSolid_def by (auto intro!: keys_intros split: sum.split jobOutput.split)

lemma streamInline_keys: "keeps_keys (streamInline P Z K fs lower policy inp)"
  unfolding keeps_keys_def
proof
  fix s :: "'z session_scheme"
  obtain r s1 where a: "onWriter (addFileStreaming P Z K fs lower policy inp) s = (r, s1)" by force
  have k: "aw_keys (ss_w s1) = aw_keys (ss_w s)"
    by (rule keeps_keysD [OF keeps_keys_writer [OF addFileStreaming_keys] a])
  have "keeps_keys (bindS (dir_addEntry inp x) (\<lambda>_. returnS n) :: ('z session_scheme, nat) op)"
    "keeps_keys (bindS (FileError (in_path inp) e) (\<lambda>_. returnS n) :: ('z session_scheme, nat) op)" for x e n
    by (intro keys_intros)+
  with a k show "aw_keys (ss_w (snd (streamInline P Z K fs lower policy inp s))) = aw_keys (ss_w s)"
    by (cases r) (simp_all add: streamInline_def keeps_keys_def)
qed

interpretation archiving: job_archiver "runJob P Z fs lower policy rnds" "writeResult K" "streamInline P Z K fs lower policy"
    "finishJobs P Z K S signer special" for P Z fs lower policy rnds K S signer special
  by unfold_locales (blast intro: runJob_keys keeps_keysD [OF writeResult_keys] keeps_keysD [OF streamInline_keys] keeps_keysD [OF finishJobs_keys])+

end
