(* ===== verification/Output_Tree.thy ===== *)
theory Output_Tree
  imports Reader Attributes
begin

text \<open>
  Writing extracted entries below one directory (\<^verbatim>\<open>io/output_tree.go\<close>, \<^verbatim>\<open>io/verified_file.go\<close>, and
  \<^verbatim>\<open>writeXattrs\<close> of \<^verbatim>\<open>io/xattr_unix.go\<close>), on a Unix system, where the slash form of a path is its own.
\<close>

section \<open>The operating system\<close>

text \<open>
  Every call the tree makes on its \<^verbatim>\<open>os.Root\<close>, or on a file it opened there (named by the path it was
  opened with), is recorded with its answer: \<open>None\<close>, or the error it returned.  What a call answers
  is a parameter, and may depend on everything that happened before.
\<close>

type_synonym path = bytes

datatype call =
    MkdirOutput path
  | OpenRoot path
  | MkdirAll path
  | CreateExcl path
  | OpenAt path
  | WriteTo path bytes
  | WriteAt path bytes nat
  | CloseAt path
  | Fsetxattr path bytes bytes
  | Fchown path u32 u32
  | Fchmod path u32
  | Rename path path
  | Remove path
  | Lstat path
  | Symlink bytes path
  | Link path path
  | Lchown path u32 u32
  | Chtimes path i64

type_synonym log = "(call \<times> sarc_error option) list"

record world =
  wd_answer :: "log \<Rightarrow> call \<Rightarrow> sarc_error option"
  wd_IsDir :: "log \<Rightarrow> path \<Rightarrow> bool"
  wd_IsExist :: "sarc_error \<Rightarrow> bool"

record outputTree =
  ot_dir :: path
  ot_root :: bool
  ot_restoreOwner :: bool
  ot_dirs :: "(path \<times> Attributes) list"
  ot_warned :: "string list"
  ot_warnings :: "(path \<times> string) list"
  ot_rnd :: bytes
  ot_log :: log

definition newOutputTree :: "path \<Rightarrow> bool \<Rightarrow> bytes \<Rightarrow> outputTree" where
  "newOutputTree dir restoreOwner rnd =
     \<lparr>ot_dir = dir, ot_root = False, ot_restoreOwner = restoreOwner, ot_dirs = [], ot_warned = [], ot_warnings = [],
      ot_rnd = rnd, ot_log = []\<rparr>"

definition sys :: "world \<Rightarrow> call \<Rightarrow> outputTree \<Rightarrow> sarc_error option \<times> outputTree" where
  "sys W c t = (let a = wd_answer W (ot_log t) c in (a, t\<lparr>ot_log := ot_log t @ [(c, a)]\<rparr>))"

text \<open>A call whose error is wrapped in a structured one, and one whose error is dropped.\<close>

definition sysS :: "world \<Rightarrow> (sarc_error \<Rightarrow> ArchiveError) \<Rightarrow> call \<Rightarrow> (outputTree, unit) op" where
  "sysS W wrap c t = (case sys W c t of (None, t) \<Rightarrow> (Val (), t) | (Some e, t) \<Rightarrow> (Fail (wrap e), t))"

definition sysDrop :: "world \<Rightarrow> call \<Rightarrow> outputTree \<Rightarrow> outputTree" where
  "sysDrop W c t = snd (sys W c t)"

definition writeRecoverable :: "string \<Rightarrow> sarc_error \<Rightarrow> ArchiveError" where
  "writeRecoverable m e = recoverable ErrCodeWriteFailed m (Some e)"

section \<open>Warnings\<close>

definition warnFile :: "path \<Rightarrow> string \<Rightarrow> outputTree \<Rightarrow> outputTree" where
  "warnFile local m t = t\<lparr>ot_warnings := ot_warnings t @ [(local, m)]\<rparr>"

definition warnOnce :: "string \<Rightarrow> outputTree \<Rightarrow> outputTree" where
  "warnOnce m t =
     (if m \<in> set (ot_warned t) then t
      else t\<lparr>ot_warned := m # ot_warned t, ot_warnings := ot_warnings t @ [([], m)]\<rparr>)"

text \<open>A call whose failure is only a warning about the file.\<close>

definition sys_warn :: "world \<Rightarrow> call \<Rightarrow> path \<Rightarrow> string \<Rightarrow> outputTree \<Rightarrow> outputTree" where
  "sys_warn W c local m t = (case sys W c t of (None, t) \<Rightarrow> t | (Some e, t) \<Rightarrow> warnFile local m t)"

section \<open>Names\<close>

text \<open>
  \<^verbatim>\<open>filepath.IsLocal\<close> on Unix: not empty, not absolute, and no element climbs above the start of the
  path.
\<close>

fun climbs :: "nat \<Rightarrow> bytes list \<Rightarrow> bool" where
  "climbs depth [] = False"
| "climbs depth (e # es) =
     (if e = [] \<or> e = [dot] then climbs depth es
      else if e = [dot, dot] then depth = 0 \<or> climbs (depth - 1) es
      else climbs (Suc depth) es)"

definition IsLocal :: "path \<Rightarrow> bool" where
  "IsLocal p \<longleftrightarrow> p \<noteq> [] \<and> hd p \<noteq> slash \<and> \<not> climbs 0 (split_on slash p)"

definition localName :: "bytes \<Rightarrow> (outputTree, path) op" where
  "localName name =
     (if \<not> ValidEntryName name \<or> \<not> IsLocal name
      then failS (recoverable ErrCodeIntegrityFail ''unsafe file name'' None) else returnS name)"

text \<open>\<^verbatim>\<open>filepath.Dir\<close> and \<^verbatim>\<open>filepath.Join\<close> on the names they are used with, which are clean already.\<close>

definition parentDir :: "path \<Rightarrow> path" where
  "parentDir local = (let r = dropWhile (\<lambda>c. c \<noteq> slash) (rev local) in if r = [] then [dot] else rev (tl r))"

definition joinPath :: "path \<Rightarrow> bytes \<Rightarrow> path" where
  "joinPath parent name = (if parent = [dot] then name else parent @ [slash] @ name)"

section \<open>Opening the tree and creating files\<close>

definition ot_open :: "world \<Rightarrow> (outputTree, unit) op" where
  "ot_open W t =
     (if ot_root t then (Val (), t)
      else bindS (sysS W (\<lambda>e. fatal ErrCodeWriteFailed ''create output dir'' (Some e)) (MkdirOutput (ot_dir t))) (\<lambda>_.
        bindS (sysS W (\<lambda>e. fatal ErrCodeWriteFailed ''open output dir'' (Some e)) (OpenRoot (ot_dir t))) (\<lambda>_ t.
        (Val (), t\<lparr>ot_root := True\<rparr>))) t)"

definition prepare :: "world \<Rightarrow> bytes \<Rightarrow> (outputTree, path) op" where
  "prepare W name =
     bindS (localName name) (\<lambda>local.
     bindS (ot_open W) (\<lambda>_.
     if parentDir local \<noteq> [dot]
     then bindS (sysS W (writeRecoverable ''create directory'') (MkdirAll (parentDir local))) (\<lambda>_. returnS local)
     else returnS local))"

definition tempNameAttempts :: nat where "tempNameAttempts = 8"
definition tempFilePrefix :: bytes where "tempFilePrefix = str ''.sarc-extract-''"

definition hexDigit :: "nat \<Rightarrow> byte" where
  "hexDigit n = (if n < 10 then word_of_nat (48 + n) else word_of_nat (87 + n))"

definition hexEncode :: "bytes \<Rightarrow> bytes" where
  "hexEncode b = concat (map (\<lambda>x. [hexDigit (unat x div 16), hexDigit (unat x mod 16)]) b)"

definition tempName :: "path \<Rightarrow> bytes \<Rightarrow> path" where
  "tempName parent suffix = joinPath parent (tempFilePrefix @ hexEncode suffix)"

fun create_attempts :: "world \<Rightarrow> path \<Rightarrow> nat \<Rightarrow> (outputTree, path) op" where
  "create_attempts W parent 0 t =
     (Fail (writeRecoverable ''create file'' (Errorf ''no free temporary name'')), t)"
| "create_attempts W parent (Suc n) t =
     (case ReadFull 8 (ot_rnd t) of
        Ok (suffix, rnd) \<Rightarrow>
          (let tmp = tempName parent suffix in
           case sys W (CreateExcl tmp) (t\<lparr>ot_rnd := rnd\<rparr>) of
             (None, t) \<Rightarrow> (Val tmp, t)
           | (Some e, t) \<Rightarrow> if wd_IsExist W e then create_attempts W parent n t
                             else (Fail (writeRecoverable ''create file'' e), t))
      | Err e \<Rightarrow> (Fail (fatal ErrCodeWriteFailed ''generate temporary name'' (Some e)), t)
      | Panic \<Rightarrow> (Crash, t))"

text \<open>The temporary file and the local name it is meant for.\<close>

definition createTemp :: "world \<Rightarrow> bytes \<Rightarrow> (outputTree, path \<times> path) op" where
  "createTemp W name =
     bindS (prepare W name) (\<lambda>local.
     bindS (create_attempts W (parentDir local) tempNameAttempts) (\<lambda>tmp. returnS (tmp, local)))"

section \<open>Attributes\<close>

fun writeXattrs :: "world \<Rightarrow> path \<Rightarrow> Xattr list \<Rightarrow> outputTree \<Rightarrow> nat \<times> outputTree" where
  "writeXattrs W f [] t = (0, t)"
| "writeXattrs W f (x # xs) t =
     (case sys W (Fsetxattr f (x_Name x) (x_Value x)) t of (err, t) \<Rightarrow>
      case writeXattrs W f xs t of (failed, t) \<Rightarrow> (if err = None then failed else Suc failed, t))"

definition restoreOwnership :: "world \<Rightarrow> Owner option \<Rightarrow> (u32 \<Rightarrow> u32 \<Rightarrow> call) \<Rightarrow> outputTree \<Rightarrow> outputTree" where
  "restoreOwnership W owner chown t =
     (case owner of
        None \<Rightarrow> t
      | Some o' \<Rightarrow>
          if \<not> ot_restoreOwner t then warnOnce ''ownership recorded in the archive was not restored'' t
          else (case sys W (chown (o_UID o') (o_GID o')) t of
            (None, t) \<Rightarrow> t
          | (Some e, t) \<Rightarrow> warnOnce ''ownership could not be restored'' t))"

definition ModeSetuid :: u32 where "ModeSetuid = 0x800000"
definition ModeSetgid :: u32 where "ModeSetgid = 0x400000"
definition ModeSticky :: u32 where "ModeSticky = 0x100000"

definition fileMode :: "u32 \<Rightarrow> u32" where
  "fileMode mode =
     (let m = mode AND 0x1FF;
          m = (if mode AND 0x800 \<noteq> 0 then m OR ModeSetuid else m);
          m = (if mode AND 0x400 \<noteq> 0 then m OR ModeSetgid else m) in
      if mode AND 0x200 \<noteq> 0 then m OR ModeSticky else m)"

definition ot_mode :: "u32 \<Rightarrow> outputTree \<Rightarrow> u32 \<times> outputTree" where
  "ot_mode mode t =
     (if \<not> ot_restoreOwner t \<and> mode AND 0xE00 \<noteq> 0
      then (fileMode (mode AND 0x1FF), warnOnce ''setuid, setgid, and sticky bits were not restored'' t)
      else (fileMode mode, t))"

definition applyAttributes :: "world \<Rightarrow> path \<Rightarrow> path \<Rightarrow> Attributes option \<Rightarrow> u32 \<Rightarrow> outputTree \<Rightarrow> outputTree" where
  "applyAttributes W f local attrs fallbackPerm t =
     (case attrs of
        None \<Rightarrow> sys_warn W (Fchmod f fallbackPerm) local ''permissions not restored'' t
      | Some a \<Rightarrow>
          let (failed, t) = writeXattrs W f (a_Xattrs a) t;
              t = (if 0 < failed then warnFile local ''extended attribute(s) not restored'' t else t);
              t = restoreOwnership W (a_Owner a) (Fchown f) t;
              (mode, t) = ot_mode (a_Mode a) t in
          sys_warn W (Fchmod f mode) local ''permissions not restored'' t)"

definition setModTime :: "world \<Rightarrow> path \<Rightarrow> i64 \<Rightarrow> outputTree \<Rightarrow> outputTree" where
  "setModTime W local modTime t =
     (if modTime = 0 then t else sys_warn W (Chtimes local modTime) local ''modification time not restored'' t)"

section \<open>Publishing\<close>

definition publish ::
  "world \<Rightarrow> path \<Rightarrow> path \<Rightarrow> Attributes option \<Rightarrow> u32 \<Rightarrow> outputTree \<Rightarrow> sarc_error option \<times> outputTree" where
  "publish W tmp local attrs fallbackPerm t =
     (case sys W (CloseAt tmp) (applyAttributes W tmp local attrs fallbackPerm t) of
        (Some e, t) \<Rightarrow> (Some (Wrap ''close'' e), t)
      | (None, t) \<Rightarrow>
          (case sys W (Rename tmp local) t of
             (Some e, t) \<Rightarrow> (Some (Wrap ''rename'' e), t)
           | (None, t) \<Rightarrow> (None, case attrs of None \<Rightarrow> t | Some a \<Rightarrow> setModTime W local (a_ModTime a) t)))"

definition discard :: "world \<Rightarrow> path \<Rightarrow> outputTree \<Rightarrow> outputTree" where
  "discard W tmp t = sysDrop W (Remove tmp) (sysDrop W (CloseAt tmp) t)"

definition writeFile :: "world \<Rightarrow> bytes \<Rightarrow> bytes \<Rightarrow> Attributes option \<Rightarrow> (outputTree, unit) op" where
  "writeFile W name data attrs =
     bindS (createTemp W name) (\<lambda>(tmp, local) t.
       case sys W (WriteTo tmp data) t of
         (Some e, t) \<Rightarrow> (Fail (writeRecoverable ''write file'' e), discard W tmp t)
       | (None, t) \<Rightarrow>
           (case publish W tmp local attrs 0x1A4 t of
              (Some e, t) \<Rightarrow> (Fail (writeRecoverable ''write file'' e), discard W tmp t)
            | (None, t) \<Rightarrow> (Val (), t)))"

section \<open>Directories and links\<close>

definition removeExisting :: "world \<Rightarrow> path \<Rightarrow> outputTree \<Rightarrow> outputTree" where
  "removeExisting W local t =
     (let dir = wd_IsDir W (ot_log t) local in
      case sys W (Lstat local) t of
        (None, t) \<Rightarrow> if \<not> dir then sysDrop W (Remove local) t else t
      | (Some e, t) \<Rightarrow> t)"

definition symlink :: "world \<Rightarrow> bytes \<Rightarrow> Attributes \<Rightarrow> (outputTree, unit) op" where
  "symlink W name attrs =
     bindS (prepare W name) (\<lambda>local t.
       bindS (sysS W (writeRecoverable ''create symlink'') (Symlink (a_LinkTarget attrs) local)) (\<lambda>_ t.
         (Val (), restoreOwnership W (a_Owner attrs) (Lchown local) t))
         (removeExisting W local t))"

definition hardlink :: "world \<Rightarrow> bytes \<Rightarrow> Attributes \<Rightarrow> (outputTree, unit) op" where
  "hardlink W name attrs =
     bindS (localName (a_LinkTarget attrs)) (\<lambda>target.
     bindS (prepare W name) (\<lambda>local t.
       sysS W (writeRecoverable ''create hard link'') (Link target local) (removeExisting W local t)))"

definition directory :: "world \<Rightarrow> bytes \<Rightarrow> Attributes \<Rightarrow> (outputTree, unit) op" where
  "directory W name attrs =
     bindS (prepare W name) (\<lambda>local.
     bindS (sysS W (writeRecoverable ''create directory'') (MkdirAll local)) (\<lambda>_ t.
       (Val (), t\<lparr>ot_dirs := ot_dirs t @ [(local, attrs)]\<rparr>)))"

definition special :: "world \<Rightarrow> bytes \<Rightarrow> Attributes \<Rightarrow> (outputTree, unit) op" where
  "special W name attrs =
     (if a_Kind attrs = KindDirectory then directory W name attrs
      else if a_Kind attrs = KindSymlink then symlink W name attrs
      else if a_Kind attrs = KindHardlink then hardlink W name attrs
      else failS (recoverable ErrCodeIntegrityFail ''unknown entry kind'' None))"

definition close_dir :: "world \<Rightarrow> path \<times> Attributes \<Rightarrow> outputTree \<Rightarrow> outputTree" where
  "close_dir W = (\<lambda>(local, attrs) t.
     case sys W (OpenAt local) t of
       (Some e, t) \<Rightarrow> warnFile local ''directory attributes not restored'' t
     | (None, t) \<Rightarrow> setModTime W local (a_ModTime attrs)
         (sysDrop W (CloseAt local) (applyAttributes W local local (Some attrs) 0 t)))"

definition ot_close :: "world \<Rightarrow> outputTree \<Rightarrow> outputTree" where
  "ot_close W t =
     (if \<not> ot_root t then t
      else fold (close_dir W) (sort_key (\<lambda>(local, _). - int (count_list local slash)) (ot_dirs t)) t)"

section \<open>A file that is verified before it is published\<close>

definition verifiedFileBufferSize :: nat where "verifiedFileBufferSize = 2 ^ 20"

text \<open>
  The running HMAC is given by the bytes written to it.  The buffered writer keeps the bytes not yet
  written to the file and its first error, which makes every later write and the flush fail.
\<close>

record verifiedFile =
  vf_tmp :: path
  vf_local :: path
  vf_buf :: bytes
  vf_err :: "sarc_error option"
  vf_mac :: bytes
  vf_size :: nat
  vf_published :: bool

definition newVerifiedFile :: "world \<Rightarrow> bytes \<Rightarrow> (outputTree, verifiedFile) op" where
  "newVerifiedFile W name =
     bindS (createTemp W name) (\<lambda>(tmp, local).
       returnS \<lparr>vf_tmp = tmp, vf_local = local, vf_buf = [], vf_err = None, vf_mac = [], vf_size = 0, vf_published = False\<rparr>)"

text \<open>Write \<open>p\<close> to the file and keep \<open>rest\<close> in the buffer, or keep the error.\<close>

definition vf_put :: "world \<Rightarrow> bytes \<Rightarrow> verifiedFile \<times> outputTree \<Rightarrow> verifiedFile \<times> outputTree" where
  "vf_put W p = (\<lambda>(v, t).
     case sys W (WriteTo (vf_tmp v) p) t of
       (None, t) \<Rightarrow> (v\<lparr>vf_buf := []\<rparr>, t)
     | (Some e, t) \<Rightarrow> (v\<lparr>vf_err := Some e\<rparr>, t))"

function bufio_Write :: "world \<Rightarrow> bytes \<Rightarrow> verifiedFile \<times> outputTree \<Rightarrow> sarc_error option \<times> verifiedFile \<times> outputTree" where
  "bufio_Write W p (v, t) =
     (let free = verifiedFileBufferSize - length (vf_buf v) in
      if length p \<le> free \<or> vf_err v \<noteq> None
      then if vf_err v \<noteq> None then (vf_err v, v, t) else (None, v\<lparr>vf_buf := vf_buf v @ p\<rparr>, t)
      else if vf_buf v = [] then bufio_Write W [] (vf_put W p (v, t))
      else bufio_Write W (drop free p) (vf_put W (vf_buf v @ take free p) (v, t)))"
  by pat_completeness auto
termination
  by (relation "measure (\<lambda>(W, p, v, t). if vf_err v \<noteq> None then 0 else Suc (length p + length (vf_buf v)))")
    (auto simp: vf_put_def split: option.splits prod.splits intro!: le_less_trans [OF diff_le_self])

declare bufio_Write.simps [simp del]

definition bufio_Flush :: "world \<Rightarrow> verifiedFile \<times> outputTree \<Rightarrow> verifiedFile \<times> outputTree" where
  "bufio_Flush W = (\<lambda>(v, t).
     if vf_err v \<noteq> None \<or> vf_buf v = [] then (v, t) else vf_put W (vf_buf v) (v, t))"

definition vf_write :: "world \<Rightarrow> bytes \<Rightarrow> verifiedFile \<times> outputTree \<Rightarrow> sarc_error option \<times> verifiedFile \<times> outputTree" where
  "vf_write W plaintext = (\<lambda>(v, t).
     bufio_Write W plaintext (v\<lparr>vf_mac := vf_mac v @ plaintext, vf_size := vf_size v + length plaintext\<rparr>, t))"

definition vf_publish ::
  "world \<Rightarrow> Attributes option \<Rightarrow> u32 \<Rightarrow> verifiedFile \<times> outputTree \<Rightarrow> sarc_error option \<times> verifiedFile \<times> outputTree" where
  "vf_publish W attrs fallbackPerm s =
     (case bufio_Flush W s of (v, t) \<Rightarrow>
      case vf_err v of
        Some e \<Rightarrow> (Some (Wrap ''flush'' e), v, t)
      | None \<Rightarrow> (case publish W (vf_tmp v) (vf_local v) attrs fallbackPerm t of
          (Some e, t) \<Rightarrow> (Some e, v, t)
        | (None, t) \<Rightarrow> (None, v\<lparr>vf_published := True\<rparr>, t)))"

definition vf_discard :: "world \<Rightarrow> verifiedFile \<Rightarrow> outputTree \<Rightarrow> outputTree" where
  "vf_discard W v t = (if vf_published v then t else discard W (vf_tmp v) t)"

end
