(* ===== verification/Entry_Extraction.thy ===== *)
theory Entry_Extraction
  imports Extractor Output_Tree
begin

text \<open>
  Extracting the entries of an archive into an output tree: \<^verbatim>\<open>extractEntry\<close>, \<^verbatim>\<open>extractFileBody\<close>,
  \<^verbatim>\<open>extractSpecial\<close> and the loop of \<^verbatim>\<open>Extract\<close> (\<^verbatim>\<open>io/extractor.go\<close>), and \<^verbatim>\<open>extractSolidBody\<close> (\<^verbatim>\<open>io/solid.go\<close>).
  The state is the reader of the extractor and the output tree; progress reports are left out.
\<close>

record ExtractionResult =
  er_Filename :: bytes
  er_Size :: nat
  er_OK :: bool
  er_Err :: "ArchiveError option"

definition extracted :: "bytes \<Rightarrow> nat \<Rightarrow> ExtractionResult" where
  "extracted name n = \<lparr>er_Filename = name, er_Size = n, er_OK = True, er_Err = None\<rparr>"

definition notExtracted :: "bytes \<Rightarrow> ArchiveError \<Rightarrow> ExtractionResult" where
  "notExtracted name e = \<lparr>er_Filename = name, er_Size = 0, er_OK = False, er_Err = Some e\<rparr>"

section \<open>Operations on the reader or on the tree\<close>

definition onReader :: "'a reader \<Rightarrow> (stream \<times> 't, 'a) op" where
  "onReader m = (\<lambda>(s, t). case m s of (r, s) \<Rightarrow> (r, s, t))"

definition onTree :: "('t, 'a) op \<Rightarrow> (stream \<times> 't, 'a) op" where
  "onTree m = (\<lambda>(s, t). case m t of (r, t) \<Rightarrow> (r, s, t))"

section \<open>File entries\<close>

definition extractSpecial :: "world \<Rightarrow> bytes \<Rightarrow> Attributes \<Rightarrow> (stream \<times> outputTree, ExtractionResult) op" where
  "extractSpecial W name attrs =
     bindS (onReader (skipEntryBody (returnS ()))) (\<lambda>_.
     catchS (bindS (onTree (special W name attrs)) (\<lambda>_. returnS (extracted name 0)))
       (\<lambda>e. if IsFatal e then failS e else returnS (notExtracted name e)))"

text \<open>\<^verbatim>\<open>verifiedFile.verify\<close>.\<close>

definition vf_verify :: "prims \<Rightarrow> bytes \<Rightarrow> trailerInfo \<Rightarrow> (verifiedFile \<times> outputTree, unit) op" where
  "vf_verify P fileKey trailer = (\<lambda>(v, t).
     if ComputeHMAC P fileKey (vf_mac v) \<noteq> ti_hmac trailer
     then (Fail (recoverable ErrCodeIntegrityFail ''plaintext HMAC mismatch'' None), (v, t))
     else if ti_hasSize trailer \<and> ti_plaintextSize trailer \<noteq> word_of_nat (vf_size v)
     then (Fail (recoverable ErrCodeIntegrityFail ''plaintext size mismatch'' None), (v, t))
     else (Val (), (v, t)))"

definition publishS :: "world \<Rightarrow> Attributes option \<Rightarrow> u32 \<Rightarrow> (verifiedFile \<times> outputTree, unit) op" where
  "publishS W attrs perm s =
     (case vf_publish W attrs perm s of
        (None, s) \<Rightarrow> (Val (), s) | (Some e, s) \<Rightarrow> (Fail (writeRecoverable ''write file'' e), s))"

definition streamInto ::
  "prims \<Rightarrow> zstd \<Rightarrow> world \<Rightarrow> bytes \<Rightarrow> Codec \<Rightarrow> (stream \<times> verifiedFile \<times> outputTree, unit) op" where
  "streamInto P Z W fileKey codec = (\<lambda>(s, k).
     case streamDataBlocks P Z fileKey codec \<lparr>bd_limit = MaxChunkSize, bd_window = zstdWindowSize\<rparr> (vf_write W) k s of
       (r, k, s) \<Rightarrow> (r, s, k))"

definition verified_body ::
  "prims \<Rightarrow> zstd \<Rightarrow> world \<Rightarrow> KeySchedule \<Rightarrow> entryHead \<Rightarrow> (stream \<times> verifiedFile \<times> outputTree, unit) op" where
  "verified_body P Z W keys head =
     (let fileKey = eh_fileKey head; pm = eh_pm head in
      bindS (onReader (skipPadding (\<lambda>e. recoverable ErrCodeTruncated ''skip inter-block padding'' (Some e)))) (\<lambda>_.
      bindS (catchS (streamInto P Z W fileKey (pm_Codec pm))
        (\<lambda>e. if IsFatal e then failS e else onReader (skipTrailer (failS e)))) (\<lambda>_.
      bindS (onReader (readTrailer P fileKey (ks_version keys))) (\<lambda>trailer.
      bindS (onTree (vf_verify P fileKey trailer)) (\<lambda>_.
      onTree (publishS W (pm_Attributes pm) (pm_Permissions pm AND 0x1FF)))))))"

text \<open>The deferred \<^verbatim>\<open>discard\<close> runs whichever way the body ends.\<close>

definition with_verified ::
  "world \<Rightarrow> (stream \<times> verifiedFile \<times> outputTree, unit) op \<Rightarrow> verifiedFile \<Rightarrow> (stream \<times> outputTree, nat) op" where
  "with_verified W body v = (\<lambda>(s, t).
     case body (s, v, t) of (r, s, v, t) \<Rightarrow>
       ((case r of Val _ \<Rightarrow> Val (vf_size v) | Fail e \<Rightarrow> Fail e | Crash \<Rightarrow> Crash), s, vf_discard W v t))"

definition extractFileBody ::
  "prims \<Rightarrow> zstd \<Rightarrow> world \<Rightarrow> KeySchedule \<Rightarrow> entryHead \<Rightarrow> (stream \<times> outputTree, ExtractionResult) op" where
  "extractFileBody P Z W keys head =
     (let fileKey = eh_fileKey head; pm = eh_pm head in
      bindS (onReader (orSkipBody (\<lambda>e. recoverable ErrCodeAuthFailed ''decrypt filename'' (Some e))
        (decryptFilename P (pm_EncryptedFilename pm) fileKey))) (\<lambda>filename.
      let regular =
        bindS (catchS (onTree (newVerifiedFile W filename))
          (\<lambda>e. if IsFatal e then failS e else onReader (skipEntryBody (failS e)))) (\<lambda>out.
        bindS (with_verified W (verified_body P Z W keys head) out) (\<lambda>n.
        returnS (extracted filename n))) in
      case pm_Attributes pm of
        None \<Rightarrow> regular
      | Some attrs \<Rightarrow> if a_Kind attrs \<noteq> KindRegular then extractSpecial W filename attrs else regular))"

section \<open>Solid groups\<close>

fun extract_members :: "world \<Rightarrow> SolidMember list \<Rightarrow> (outputTree, ExtractionResult list) op" where
  "extract_members W [] = returnS []"
| "extract_members W (m # ms) =
     bindS (catchS (bindS (writeFile W (sm_Name m) (sm_Data m) (Some (sm_Attributes m)))
         (\<lambda>_. returnS (extracted (sm_Name m) (length (sm_Data m)))))
       (\<lambda>e. if IsFatal e then failS e else returnS (notExtracted (sm_Name m) e))) (\<lambda>r.
     bindS (extract_members W ms) (\<lambda>rs. returnS (r # rs)))"

definition extractSolidBody ::
  "prims \<Rightarrow> zstd \<Rightarrow> world \<Rightarrow> KeySchedule \<Rightarrow> entryHead \<Rightarrow> (stream \<times> outputTree, ExtractionResult list) op" where
  "extractSolidBody P Z W keys head =
     bindS (onReader (readSolidMembers P Z keys head)) (\<lambda>(members, _, _). onTree (extract_members W members))"

section \<open>The walk over the entries\<close>

definition extractEntry ::
  "prims \<Rightarrow> zstd \<Rightarrow> world \<Rightarrow> KeySchedule \<Rightarrow> byte \<Rightarrow> (stream \<times> outputTree, ExtractionResult list) op" where
  "extractEntry P Z W keys entryType =
     bindS (onReader (readEntryHead P keys)) (\<lambda>head.
     if entryType = EntryTypeSolid then extractSolidBody P Z W keys head
     else bindS (extractFileBody P Z W keys head) (\<lambda>r. returnS [r]))"

text \<open>Extraction only consumes the stream, whatever the tree does.\<close>

definition consuming :: "(stream \<times> 't, 'a) op \<Rightarrow> bool" where
  "consuming m \<longleftrightarrow> (\<forall>s t r s' t'. m (s, t) = (r, s', t') \<longrightarrow> later s s')"

named_theorems consuming_intros \<open>operations that only consume the stream\<close>

lemma consumingD: "consuming m \<Longrightarrow> m (s, t) = (r, s', t') \<Longrightarrow> later s s'"
  unfolding consuming_def by blast

lemma consuming_onReader [consuming_intros]: "consumes m \<Longrightarrow> consuming (onReader m)"
  by (auto simp: consuming_def onReader_def split: prod.splits dest: consumesD)

lemma consuming_basic [consuming_intros]: "consuming (onTree m')" "consuming (returnS x)" "consuming (failS e)"
  by (auto simp: consuming_def onTree_def returnS_def failS_def split: prod.splits)

lemma consuming_bind [consuming_intros]: "consuming m \<Longrightarrow> (\<And>x. consuming (f x)) \<Longrightarrow> consuming (bindS m f)"
  unfolding consuming_def bindS_def by (fastforce split: prod.splits outcome.splits intro: later_trans)

lemma consuming_catch [consuming_intros]: "consuming m \<Longrightarrow> (\<And>e. consuming (h e)) \<Longrightarrow> consuming (catchS m h)"
  unfolding consuming_def catchS_def by (fastforce split: prod.splits outcome.splits intro: later_trans)

lemma consuming_if [consuming_intros]: "consuming a \<Longrightarrow> consuming b \<Longrightarrow> consuming (if c then a else b)"
  by simp

lemma consuming_option [consuming_intros]:
  "consuming a \<Longrightarrow> (\<And>x. consuming (f x)) \<Longrightarrow> consuming (case o' of None \<Rightarrow> a | Some x \<Rightarrow> f x)"
  by (cases o') auto

lemma consuming_split [consuming_intros]: "(\<And>x y. consuming (f x y)) \<Longrightarrow> consuming (case p of (x, y) \<Rightarrow> f x y)"
  by (cases p) simp

lemma streamInto_consuming [consuming_intros]: "consuming (streamInto P Z W k codec)"
  by (auto simp: consuming_def streamInto_def streamDataBlocks_def Let_def split: prod.splits res.splits
      dest: decryptBlocksSequential_later)

lemma with_verified_consuming [consuming_intros]: "consuming body \<Longrightarrow> consuming (with_verified W body v)"
  by (auto simp: consuming_def with_verified_def split: prod.splits)

lemma extractEntry_consuming: "consuming (extractEntry P Z W keys ty)"
  unfolding extractEntry_def extractSolidBody_def extractFileBody_def extractSpecial_def verified_body_def Let_def
  by (intro consuming_intros consume_intros)

lemma extractEntry_shorter:
  assumes "nextEntryType P keys s = (Val (ty, True), s1)" and "extractEntry P Z W keys ty (s1, t) = (r, s2, t')"
  shows "length (s_bytes s2) < length (s_bytes s)"
  using nextEntryType_later [OF assms(1), of ty] later_le [OF consumingD [OF extractEntry_consuming assms(2)]] by simp

text \<open>
  The loop of \<^verbatim>\<open>Extract\<close>: a recoverable failure of an entry is reported and the walk goes on.
\<close>

function extract_entries ::
  "prims \<Rightarrow> zstd \<Rightarrow> world \<Rightarrow> KeySchedule \<Rightarrow> ExtractionResult list \<Rightarrow> stream \<times> outputTree
    \<Rightarrow> (ExtractionResult list \<times> unit outcome) \<times> stream \<times> outputTree" where
  "extract_entries P Z W keys results (s, t) =
     (case nextEntryType P keys s of
        (Fail e, s1) \<Rightarrow> ((results, Fail e), s1, t)
      | (Crash, s1) \<Rightarrow> ((results, Crash), s1, t)
      | (Val (ty, go), s1) \<Rightarrow>
          if \<not> go then ((results, Val ()), s1, t)
          else (case extractEntry P Z W keys ty (s1, t) of
             (Val rs, s2, t2) \<Rightarrow> extract_entries P Z W keys (results @ rs) (s2, t2)
           | (Fail e, s2, t2) \<Rightarrow> if IsFatal e then ((results, Fail e), s2, t2)
                            else extract_entries P Z W keys (results @ [notExtracted [] e]) (s2, t2)
           | (Crash, s2, t2) \<Rightarrow> ((results, Crash), s2, t2)))"
  by pat_completeness auto
termination
  by (relation "measure (\<lambda>(P, Z, W, keys, rs, s, t). length (s_bytes s))")
    (auto dest: extractEntry_shorter [OF sym sym])

declare extract_entries.simps [simp del]

end
