(* ===== verification/Publication.thy ===== *)
theory Publication
  imports Entry_Extraction "HOL-Library.Sublist"
begin

text \<open>
  What an extraction does to the file system, read off the log of its calls: which paths it names,
  and which content it publishes under which name.  Every property holds for whatever the operating
  system answers and whatever the archive contains.
\<close>

section \<open>Paths stay below the output directory\<close>

definition safe_path :: "path \<Rightarrow> bool" where
  "safe_path p \<longleftrightarrow> list_all safe_elem (split_on slash p)"

fun confined :: "call \<Rightarrow> bool" where
  "confined (MkdirOutput p) \<longleftrightarrow> True"
| "confined (OpenRoot p) \<longleftrightarrow> True"
| "confined (MkdirAll p) \<longleftrightarrow> safe_path p"
| "confined (CreateExcl p) \<longleftrightarrow> safe_path p"
| "confined (OpenAt p) \<longleftrightarrow> safe_path p"
| "confined (WriteTo p d) \<longleftrightarrow> safe_path p"
| "confined (WriteAt p d n) \<longleftrightarrow> safe_path p"
| "confined (CloseAt p) \<longleftrightarrow> safe_path p"
| "confined (Fsetxattr p n v) \<longleftrightarrow> safe_path p"
| "confined (Fchown p u g) \<longleftrightarrow> safe_path p"
| "confined (Fchmod p m) \<longleftrightarrow> safe_path p"
| "confined (Rename p q) \<longleftrightarrow> safe_path p \<and> safe_path q"
| "confined (Remove p) \<longleftrightarrow> safe_path p"
| "confined (Lstat p) \<longleftrightarrow> safe_path p"
| "confined (Symlink target p) \<longleftrightarrow> safe_path p"
| "confined (Link p q) \<longleftrightarrow> safe_path p \<and> safe_path q"
| "confined (Lchown p u g) \<longleftrightarrow> safe_path p"
| "confined (Chtimes p n) \<longleftrightarrow> safe_path p"

lemma split_on_append: "split_on c (a @ c # b) = split_on c a @ split_on c b"
proof (induction a)
  case (Cons x a)
  obtain y ys where "split_on c a = y # ys" by (cases "split_on c a") auto
  with Cons.IH show ?case by auto
qed simp

lemma split_on_whole: "c \<notin> set x \<Longrightarrow> split_on c x = [x]"
  by (induction x) auto

lemma safe_path_join: "safe_path (a @ slash # b) \<longleftrightarrow> safe_path a \<and> safe_path b"
  by (simp add: safe_path_def split_on_append)

lemma ValidEntryName_safe: "ValidEntryName n \<Longrightarrow> safe_path n"
  by (simp add: safe_path_def ValidEntryName_elems)

lemma climbs_safe: "list_all safe_elem es \<Longrightarrow> \<not> climbs d es"
  by (induction es arbitrary: d) (auto simp: safe_elem_def)

text \<open>On Unix the second check of \<^verbatim>\<open>localName\<close> never refuses a name that the first one accepted.\<close>

lemma ValidEntryName_IsLocal: "ValidEntryName n \<Longrightarrow> IsLocal n"
proof -
  assume v: "ValidEntryName n"
  then have es: "list_all safe_elem (split_on slash n)" by (rule ValidEntryName_elems)
  then have "hd n \<noteq> slash" using v by (cases n) (auto simp: safe_elem_def split: if_splits)
  with v es climbs_safe [OF es] show ?thesis by (auto simp: IsLocal_def)
qed

lemma localName_eq:
  "localName name = (if ValidEntryName name then returnS name
     else failS (recoverable ErrCodeIntegrityFail ''unsafe file name'' None))"
  using ValidEntryName_IsLocal by (auto simp: localName_def)

lemma parentDir_cases:
  obtains "slash \<notin> set local" "parentDir local = [dot]"
  | a b where "local = a @ slash # b" "slash \<notin> set b" "parentDir local = a"
proof (cases "slash \<in> set local")
  case True
  then obtain b a where r: "rev local = b @ slash # a" "slash \<notin> set b" by (metis in_set_conv_decomp_first set_rev)
  then have "dropWhile (\<lambda>c. c \<noteq> slash) (rev local) = slash # a"
    by (simp only: r(1)) (subst dropWhile_append2, auto)
  then have "parentDir local = rev a" by (simp add: parentDir_def)
  moreover have "local = rev a @ slash # rev b" using arg_cong [OF r(1), of rev] by simp
  ultimately show thesis using that(2) r(2) by simp
next
  case False
  then have "dropWhile (\<lambda>c. c \<noteq> slash) (rev local) = []" by auto
  then show thesis using that(1) False by (simp add: parentDir_def)
qed

lemma parentDir_safe: "safe_path local \<Longrightarrow> parentDir local = [dot] \<or> safe_path (parentDir local)"
  by (cases local rule: parentDir_cases) (auto simp: safe_path_join)

lemma parent_safe: "ValidEntryName n \<Longrightarrow> parentDir n \<noteq> [dot] \<Longrightarrow> safe_path (parentDir n)"
  using parentDir_safe [OF ValidEntryName_safe] by blast

lemma hexDigit_no_slash: "n < 16 \<Longrightarrow> hexDigit n \<noteq> slash"
proof -
  assume "n < 16"
  then have "n \<in> {0..<16}" by simp
  then show ?thesis unfolding hexDigit_def slash_def by (simp only: atLeastLessThan_upt upt_conv_Cons) auto
qed

lemma tempName_safe: "parent = [dot] \<or> safe_path parent \<Longrightarrow> safe_path (tempName parent suf)"
proof -
  assume p: "parent = [dot] \<or> safe_path parent"
  have "hexDigit (unat x div 16) \<noteq> slash" "hexDigit (unat x mod 16) \<noteq> slash" for x :: byte
    using unat_bound [of x] by (simp_all add: hexDigit_no_slash)
  then have "slash \<notin> set (hexEncode suf)" by (auto simp: hexEncode_def) metis+
  then have "slash \<notin> set (tempFilePrefix @ hexEncode suf)"
    by (simp add: tempFilePrefix_def str_def slash_def)
  then have "safe_path (tempFilePrefix @ hexEncode suf)"
    by (simp add: safe_path_def split_on_whole safe_elem_def tempFilePrefix_def str_def dot_def)
  with p show ?thesis by (auto simp: tempName_def joinPath_def safe_path_join)
qed

section \<open>What the log says was written and published\<close>

text \<open>
  The bytes written to each temporary file since it was created, as long as every write succeeded,
  and for each successful rename the new name with what had been written to the file.
\<close>

type_synonym trace = "(path \<rightharpoonup> bytes) \<times> (path \<times> bytes option) list"

fun observe :: "trace \<Rightarrow> call \<times> sarc_error option \<Rightarrow> trace" where
  "observe (m, ps) (CreateExcl p, a) = (if a = None then m(p \<mapsto> []) else m, ps)"
| "observe (m, ps) (WriteTo p d, a) = (m(p := if a = None then map_option (\<lambda>c. c @ d) (m p) else None), ps)"
| "observe (m, ps) (WriteAt p d off, a) = (m(p := if a = None then map_option (\<lambda>c. overwrite c d off) (m p) else None), ps)"
| "observe (m, ps) (Rename p q, a) = (if a = None then (m(p := None), ps @ [(q, m p)]) else (m, ps))"
| "observe st _ = st"

definition trace_of :: "outputTree \<Rightarrow> trace" where
  "trace_of t = foldl observe (Map.empty, []) (ot_log t)"

definition temps :: "outputTree \<Rightarrow> path \<rightharpoonup> bytes" where "temps t = fst (trace_of t)"
definition published :: "outputTree \<Rightarrow> (path \<times> bytes option) list" where "published t = snd (trace_of t)"

definition calls_ok :: "outputTree \<Rightarrow> bool" where
  "calls_ok t \<longleftrightarrow> list_all (\<lambda>(c, _). confined c) (ot_log t) \<and> list_all (\<lambda>(p, _). safe_path p) (ot_dirs t)"

lemma new_tree: "calls_ok (newOutputTree dir own rnd)" "temps (newOutputTree dir own rnd) = Map.empty"
    "published (newOutputTree dir own rnd) = []"
  by (simp_all add: calls_ok_def temps_def published_def trace_of_def newOutputTree_def)

lemma sys_effect:
  assumes "sys W c t = (a, t')"
  shows "trace_of t' = observe (trace_of t) (c, a)" and "calls_ok t \<Longrightarrow> confined c \<Longrightarrow> calls_ok t'" and "ot_dirs t' = ot_dirs t"
  using assms by (auto simp: sys_def Let_def trace_of_def calls_ok_def)

text \<open>A step of the tree that neither writes nor publishes, and names only safe paths.\<close>

fun quiet_call :: "call \<Rightarrow> bool" where
  "quiet_call (CreateExcl p) = False"
| "quiet_call (WriteTo p d) = False"
| "quiet_call (WriteAt p d off) = False"
| "quiet_call (Rename p q) = False"
| "quiet_call c = True"

definition quietly :: "outputTree \<Rightarrow> outputTree \<Rightarrow> bool" where
  "quietly t t' \<longleftrightarrow> trace_of t' = trace_of t \<and> (calls_ok t \<longrightarrow> calls_ok t')"

named_theorems quiet_intros \<open>steps of the tree that write and publish nothing\<close>

lemma quietly_refl [simp]: "quietly t t"
  by (simp add: quietly_def)

lemma quietly_trans [trans]: "quietly t t' \<Longrightarrow> quietly t' t'' \<Longrightarrow> quietly t t''"
  by (simp add: quietly_def)

lemma quietly_effect: "quietly t t' \<Longrightarrow> temps t' = temps t \<and> published t' = published t \<and> (calls_ok t \<longrightarrow> calls_ok t')"
  by (simp add: quietly_def temps_def published_def)

lemma observe_quiet: "quiet_call c \<Longrightarrow> observe st (c, a) = st"
  by (cases st; cases c) auto

lemma sys_quiet: "sys W c t = (a, t') \<Longrightarrow> quiet_call c \<Longrightarrow> confined c \<Longrightarrow> quietly t t'"
  using sys_effect [of W c t a t'] by (simp add: quietly_def observe_quiet)

lemma sysDrop_quiet: "quiet_call c \<Longrightarrow> confined c \<Longrightarrow> quietly t (sysDrop W c t)"
  using sys_quiet [of W c t "fst (sys W c t)" "snd (sys W c t)"] by (simp add: sysDrop_def)

lemma warn_quiet: "quietly t (warnFile local m t)" "quietly t (warnOnce m t)"
  by (simp_all add: quietly_def warnFile_def warnOnce_def trace_of_def calls_ok_def)

lemma sys_warn_quiet: "quiet_call c \<Longrightarrow> confined c \<Longrightarrow> quietly t (sys_warn W c local m t)"
  by (auto simp: sys_warn_def split: prod.splits option.splits intro: quietly_trans sys_quiet warn_quiet)

lemma writeXattrs_quiet: "safe_path f \<Longrightarrow> writeXattrs W f xs t = (n, t') \<Longrightarrow> quietly t t'"
proof (induction xs arbitrary: t n)
  case (Cons x xs)
  obtain err t1 where s: "sys W (Fsetxattr f (x_Name x) (x_Value x)) t = (err, t1)" by force
  obtain k t2 where w: "writeXattrs W f xs t1 = (k, t2)" by force
  have "t' = t2" using Cons.prems(2) by (simp add: s w)
  with Cons.IH w sys_quiet [OF s] Cons.prems(1) show ?case by (auto intro: quietly_trans)
qed simp

lemma restoreOwnership_quiet:
  assumes "\<And>u g. quiet_call (chown u g) \<and> confined (chown u g)"
  shows "quietly t (restoreOwnership W owner chown t)"
  using assms
  by (auto simp: restoreOwnership_def split: option.splits prod.splits
      intro: sys_quiet warn_quiet quietly_trans [OF sys_quiet warn_quiet(2)])

lemma ot_mode_quiet: "ot_mode m t = (m', t') \<Longrightarrow> quietly t t'"
  by (auto simp: ot_mode_def warn_quiet split: if_splits)

lemma applyAttributes_quiet: "safe_path f \<Longrightarrow> quietly t (applyAttributes W f local attrs perm t)"
proof (cases attrs)
  case (Some a)
  assume f: "safe_path f"
  obtain n t1 where x: "writeXattrs W f (a_Xattrs a) t = (n, t1)" by force
  define t2 where "t2 = (if 0 < n then warnFile local ''extended attribute(s) not restored'' t1 else t1)"
  define t3 where "t3 = restoreOwnership W (a_Owner a) (Fchown f) t2"
  obtain m t4 where mo: "ot_mode (a_Mode a) t3 = (m, t4)" by force
  have "quietly t t1" by (rule writeXattrs_quiet [OF f x])
  also have "quietly t1 t2" by (simp add: t2_def warn_quiet)
  also have "quietly t2 t3" unfolding t3_def by (rule restoreOwnership_quiet) (simp add: f)
  also have "quietly t3 t4" by (rule ot_mode_quiet [OF mo])
  also have "quietly t4 (sys_warn W (Fchmod f m) local ''permissions not restored'' t4)" by (rule sys_warn_quiet) (simp_all add: f)
  finally show ?thesis by (simp add: applyAttributes_def Some x t2_def [symmetric] t3_def [symmetric] mo)
qed (simp add: applyAttributes_def sys_warn_quiet)

lemma setModTime_quiet: "safe_path local \<Longrightarrow> quietly t (setModTime W local n t)"
  by (simp add: setModTime_def sys_warn_quiet)

lemma discard_quiet: "safe_path tmp \<Longrightarrow> quietly t (discard W tmp t)"
  by (auto simp: discard_def intro!: quietly_trans [OF sysDrop_quiet sysDrop_quiet])

lemma removeExisting_quiet: "safe_path local \<Longrightarrow> quietly t (removeExisting W local t)"
  by (auto simp: removeExisting_def Let_def split: prod.splits option.splits
      intro: sys_quiet quietly_trans [OF sys_quiet sysDrop_quiet])

section \<open>What each operation of the tree publishes\<close>

definition publishes :: "(path \<times> bytes option) list \<Rightarrow> outputTree \<Rightarrow> outputTree \<Rightarrow> bool" where
  "publishes ps t t' \<longleftrightarrow> published t' = published t @ ps \<and> (calls_ok t \<longrightarrow> calls_ok t')"

lemma publishes_quietly: "quietly t t' \<Longrightarrow> publishes [] t t'"
  by (simp add: publishes_def quietly_effect)

lemma publishes_trans: "publishes ps t t' \<Longrightarrow> publishes qs t' t'' \<Longrightarrow> publishes (ps @ qs) t t''"
  by (simp add: publishes_def)

lemma publishes_Nil_trans: "publishes [] t t' \<Longrightarrow> publishes ps t' t'' \<Longrightarrow> publishes ps t t''"
  by (simp add: publishes_def)

lemma publishes_then_quietly: "publishes ps t t' \<Longrightarrow> quietly t' t'' \<Longrightarrow> publishes ps t t''"
  using publishes_trans [OF _ publishes_quietly] by force

lemma quietly_then_publishes: "quietly t t' \<Longrightarrow> publishes ps t' t'' \<Longrightarrow> publishes ps t t''"
  using publishes_trans [OF publishes_quietly] by force

lemma sysS_quiet: "sysS W w c t = (r, t') \<Longrightarrow> quiet_call c \<Longrightarrow> confined c \<Longrightarrow> quietly t t'"
  by (auto simp: sysS_def split: prod.splits option.splits intro: sys_quiet)

text \<open>Operations all of whose steps are quiet.\<close>

definition hushed :: "(outputTree, 'a) op \<Rightarrow> bool" where
  "hushed m \<longleftrightarrow> (\<forall>t. quietly t (snd (m t)))"

lemma hushedD: "hushed m \<Longrightarrow> m t = (r, t') \<Longrightarrow> quietly t t'"
  unfolding hushed_def by (metis snd_conv)

lemma hushed_basic [quiet_intros]: "hushed (returnS x)" "hushed (failS e)" "hushed (localName n)"
  by (simp_all add: hushed_def returnS_def failS_def localName_eq)

lemma hushed_bind [quiet_intros]:
  assumes "hushed m" and "\<And>x t t'. m t = (Val x, t') \<Longrightarrow> hushed (f x)"
  shows "hushed (bindS m f)"
proof -
  have "quietly t (snd (bindS m f t))" for t
  proof (cases "m t")
    case (Pair r t1)
    note q = hushedD [OF assms(1) Pair]
    show ?thesis
    proof (cases r)
      case (Val x)
      then have "quietly t1 (snd (f x t1))" using assms(2) Pair by (simp add: hushed_def)
      with quietly_trans [OF q] show ?thesis by (simp add: bindS_def Pair Val)
    qed (use q in \<open>simp_all add: bindS_def Pair\<close>)
  qed
  then show ?thesis by (simp add: hushed_def)
qed

lemma hushed_sysS [quiet_intros]: "quiet_call c \<Longrightarrow> confined c \<Longrightarrow> hushed (sysS W w c)"
  unfolding hushed_def using sysS_quiet by (metis prod.collapse)

lemma hushed_after: "(\<And>t. quietly t (g t)) \<Longrightarrow> hushed m \<Longrightarrow> hushed (\<lambda>t. m (g t))"
  unfolding hushed_def by (blast intro: quietly_trans)

lemma hushed_update: "(\<And>t. quietly t (g t)) \<Longrightarrow> hushed (\<lambda>t. (Val x, g t))"
  by (simp add: hushed_def)

lemma ot_open_hushed [quiet_intros]: "hushed (ot_open W)"
proof -
  have r: "hushed (\<lambda>t. (Val (), t\<lparr>ot_root := True\<rparr>))"
    by (rule hushed_update) (simp add: quietly_def trace_of_def calls_ok_def)
  have "hushed (bindS (sysS W w (MkdirOutput d)) (\<lambda>_. bindS (sysS W w' (OpenRoot d)) (\<lambda>_ t. (Val (), t\<lparr>ot_root := True\<rparr>))))"
    for w w' d by (intro hushed_bind hushed_sysS r) simp_all
  then show ?thesis by (simp add: hushed_def ot_open_def)
qed

lemma prepare_Val: "prepare W name t = (Val local, t') \<Longrightarrow> local = name \<and> ValidEntryName name"
  by (auto simp: prepare_def localName_eq bindS_Val_conv returnS_def failS_def split: if_splits)

lemma localName_Val: "localName name t = (Val local, t') \<Longrightarrow> local = name \<and> ValidEntryName name"
  by (auto simp: localName_eq returnS_def failS_def split: if_splits)

lemma prepare_hushed [quiet_intros]: "hushed (prepare W name)"
  unfolding prepare_def
proof (rule hushed_bind [OF hushed_basic(3)], rule hushed_bind [OF ot_open_hushed])
  fix local t t'
  assume "localName name t = (Val local, t')"
  then have "parentDir local \<noteq> [dot] \<Longrightarrow> safe_path (parentDir local)" using localName_Val parent_safe by blast
  then show "hushed (if parentDir local \<noteq> [dot]
      then bindS (sysS W (writeRecoverable ''create directory'') (MkdirAll (parentDir local))) (\<lambda>_. returnS local)
      else returnS local)"
    by (auto intro!: hushed_bind hushed_sysS hushed_basic)
qed

lemma directory_hushed: "hushed (directory W name attrs)"
  unfolding directory_def
proof (rule hushed_bind [OF prepare_hushed])
  fix local t t'
  assume "prepare W name t = (Val local, t')"
  then have p: "safe_path local" using prepare_Val ValidEntryName_safe by blast
  then have "quietly t (t\<lparr>ot_dirs := ot_dirs t @ [(local, attrs)]\<rparr>)" for t
    by (simp add: quietly_def trace_of_def calls_ok_def)
  with p show "hushed (bindS (sysS W (writeRecoverable ''create directory'') (MkdirAll local))
      (\<lambda>_ t. (Val (), t\<lparr>ot_dirs := ot_dirs t @ [(local, attrs)]\<rparr>)))"
    by (intro hushed_bind hushed_sysS hushed_update) simp_all
qed

lemma symlink_hushed: "hushed (symlink W name attrs)"
  unfolding symlink_def
proof (rule hushed_bind [OF prepare_hushed])
  fix local t t'
  assume "prepare W name t = (Val local, t')"
  then have p: "safe_path local" using prepare_Val ValidEntryName_safe by blast
  then show "hushed (\<lambda>t. bindS (sysS W (writeRecoverable ''create symlink'') (Symlink (a_LinkTarget attrs) local))
      (\<lambda>_ t. (Val (), restoreOwnership W (a_Owner attrs) (Lchown local) t)) (removeExisting W local t))"
    by (intro hushed_after [of "removeExisting W local"] removeExisting_quiet hushed_bind hushed_sysS hushed_update restoreOwnership_quiet) simp_all
qed

lemma hardlink_hushed: "hushed (hardlink W name attrs)"
  unfolding hardlink_def
proof (rule hushed_bind [OF hushed_basic(3)], rule hushed_bind [OF prepare_hushed])
  fix target local t t' u u'
  assume "localName (a_LinkTarget attrs) t = (Val target, t')" and "prepare W name u = (Val local, u')"
  then have p: "safe_path target" "safe_path local" using localName_Val prepare_Val ValidEntryName_safe by blast+
  then show "hushed (\<lambda>t. sysS W (writeRecoverable ''create hard link'') (Link target local) (removeExisting W local t))"
    by (intro hushed_after [of "removeExisting W local"] removeExisting_quiet hushed_sysS) simp_all
qed

lemma special_hushed: "hushed (special W name attrs)"
  by (simp add: special_def directory_hushed symlink_hushed hardlink_hushed hushed_basic)

lemma create_attempts_effect:
  assumes "create_attempts W parent n t = (r, t')" and p: "parent = [dot] \<or> safe_path parent"
  shows "publishes [] t t' \<and> (\<forall>tmp. r = Val tmp \<longrightarrow> safe_path tmp \<and> temps t' tmp = Some [])"
  using assms(1)
proof (induction n arbitrary: t)
  case 0
  then show ?case by (auto simp: publishes_quietly)
next
  case (Suc n)
  show ?case
  proof (cases "ReadFull 8 (ot_rnd t)")
    case (Ok x)
    obtain suf rnd where x: "x = (suf, rnd)" by force
    let ?tmp = "tempName parent suf" and ?t = "t\<lparr>ot_rnd := rnd\<rparr>"
    obtain a t1 where s: "sys W (CreateExcl ?tmp) ?t = (a, t1)" by force
    have q: "quietly t ?t" by (simp add: quietly_def trace_of_def calls_ok_def)
    obtain m ps where tr: "trace_of ?t = (m, ps)" by force
    have "trace_of t1 = (if a = None then m(?tmp \<mapsto> []) else m, ps)" using sys_effect(1) [OF s] tr by simp
    then have e: "publishes [] ?t t1" "a = None \<Longrightarrow> temps t1 ?tmp = Some []"
      using sys_effect(2) [OF s] tempName_safe [OF p] tr by (auto simp: publishes_def published_def temps_def)
    have "publishes [] t t1" by (rule quietly_then_publishes [OF q e(1)])
    with Suc e(2) tempName_safe [OF p] show ?thesis
      by (auto simp: Ok x s Let_def split: option.splits if_splits dest: publishes_Nil_trans)
  qed (use Suc.prems in \<open>auto simp: publishes_quietly\<close>)
qed

lemma createTemp_effect:
  assumes "createTemp W name t = (r, t')"
  shows "publishes [] t t' \<and> (\<forall>tmp local. r = Val (tmp, local) \<longrightarrow>
    local = name \<and> ValidEntryName name \<and> safe_path tmp \<and> temps t' tmp = Some [])"
proof -
  obtain r1 t1 where p: "prepare W name t = (r1, t1)" by force
  note q = publishes_quietly [OF hushedD [OF prepare_hushed p]]
  show ?thesis
  proof (cases r1)
    case (Val local)
    note n = prepare_Val [OF p [unfolded Val]]
    obtain r2 t2 where c: "create_attempts W (parentDir local) tempNameAttempts t1 = (r2, t2)" by force
    have "parentDir local = [dot] \<or> safe_path (parentDir local)" using n parentDir_safe ValidEntryName_safe by blast
    note e = create_attempts_effect [OF c this]
    with publishes_trans [OF q] have "publishes [] t t2" by force
    with e n show ?thesis
      using assms c [unfolded conjunct1 [OF n]]
      by (auto simp: createTemp_def bindS_def p Val returnS_def split: outcome.splits)
  qed (use assms q in \<open>auto simp: createTemp_def bindS_def p\<close>)
qed

lemma publish_effect:
  assumes run: "publish W tmp local attrs perm t = (r, t')" and safe: "safe_path tmp" "safe_path local"
  shows "publishes (if r = None then [(local, temps t tmp)] else []) t t'"
proof -
  define t0 where "t0 = applyAttributes W tmp local attrs perm t"
  obtain a t1 where c: "sys W (CloseAt tmp) t0 = (a, t1)" by force
  have q: "quietly t t1" unfolding t0_def [symmetric]
    using applyAttributes_quiet [OF safe(1), of t W local attrs perm] sys_quiet [OF c] safe(1)
    by (auto simp: t0_def intro: quietly_trans)
  obtain b t2 where n: "sys W (Rename tmp local) t1 = (b, t2)" by force
  obtain m ps where tr: "trace_of t1 = (m, ps)" by force
  have "trace_of t2 = (if b = None then (m(tmp := None), ps @ [(local, m tmp)]) else (m, ps))"
    using sys_effect(1) [OF n] tr by simp
  then have e: "publishes (if b = None then [(local, temps t1 tmp)] else []) t1 t2"
    using sys_effect(2) [OF n] safe tr by (auto simp: publishes_def published_def temps_def)
  have "temps t1 tmp = temps t tmp" using quietly_effect [OF q] by simp
  with quietly_then_publishes [OF q e] publishes_quietly [OF q] run setModTime_quiet [OF safe(2), of t2 W] show ?thesis
    by (auto simp: publish_def t0_def [symmetric] c n split: option.splits intro: publishes_then_quietly)
qed

lemma write_effect:
  assumes "sys W (WriteTo tmp d) t = (a, t')" and "safe_path tmp"
  shows "publishes [] t t'" "a = None \<Longrightarrow> temps t' tmp = map_option (\<lambda>c. c @ d) (temps t tmp)"
proof -
  obtain m ps where tr: "trace_of t = (m, ps)" by force
  have "trace_of t' = (m(tmp := if a = None then map_option (\<lambda>c. c @ d) (m tmp) else None), ps)"
    using sys_effect(1) [OF assms(1)] tr by simp
  then show "publishes [] t t'" "a = None \<Longrightarrow> temps t' tmp = map_option (\<lambda>c. c @ d) (temps t tmp)"
    using sys_effect(2) [OF assms(1)] assms(2) tr by (auto simp: publishes_def published_def temps_def)
qed

lemma writeFile_effect:
  assumes "writeFile W name d attrs t = (r, t')"
  shows "publishes (if r = Val () then [(name, Some d)] else []) t t' \<and> (r = Val () \<longrightarrow> ValidEntryName name)"
proof -
  obtain r1 t1 where c: "createTemp W name t = (r1, t1)" by force
  note e = createTemp_effect [OF c]
  show ?thesis
  proof (cases r1)
    case (Val x)
    obtain tmp local where x: "x = (tmp, local)" by force
    have s: "local = name" "ValidEntryName name" "safe_path tmp" "temps t1 tmp = Some []" using e by (simp_all add: Val x)
    obtain a t2 where w: "sys W (WriteTo tmp d) t1 = (a, t2)" by force
    note we = write_effect [OF w s(3)]
    have p2: "publishes [] t t2" using publishes_trans [OF conjunct1 [OF e] we(1)] by simp
    obtain b t3 where p: "publish W tmp local attrs 0x1A4 t2 = (b, t3)" by force
    note pe = publish_effect [OF p s(3) ValidEntryName_safe [OF s(2) [folded s(1)]]]
    have dq: "publishes ps t u \<Longrightarrow> publishes ps t (discard W tmp u)" for ps t u
      by (rule publishes_then_quietly [OF _ discard_quiet [OF s(3)]])
    have p3: "publishes (if b = None then [(name, temps t2 tmp)] else []) t t3"
      using publishes_Nil_trans [OF p2 pe] by (simp only: s(1))
    show ?thesis
      using assms we(2) p3 dq [OF p2] dq [OF p3] s(2,4)
      by (auto simp: writeFile_def bindS_def c Val x w p split: option.splits)
  qed (use assms e in \<open>auto simp: writeFile_def bindS_def c\<close>)
qed

section \<open>Verified files\<close>

text \<open>
  What was written to the file, followed by what is still buffered, is what went into the HMAC,
  unless a write failed; then the file cannot be published any more.
\<close>

definition pending_ok :: "bytes \<Rightarrow> verifiedFile \<Rightarrow> outputTree \<Rightarrow> bool" where
  "pending_ok p v t \<longleftrightarrow> safe_path (vf_tmp v) \<and> \<not> vf_published v \<and> vf_size v = length (vf_mac v)
     \<and> (vf_err v = None \<longrightarrow> (\<exists>c. temps t (vf_tmp v) = Some c \<and> c @ vf_buf v @ p = vf_mac v))"

lemma vf_put_ok:
  assumes "pending_ok p v t" and "vf_err v = None" and "vf_buf v @ p = d @ p'" and "vf_put W d (v, t) = (v', t')"
  shows "pending_ok p' v' t' \<and> publishes [] t t' \<and> vf_local v' = vf_local v \<and> (vf_err v' = None \<longrightarrow> vf_buf v' = [])"
proof -
  obtain a t1 where w: "sys W (WriteTo (vf_tmp v) d) t = (a, t1)" by force
  have s: "safe_path (vf_tmp v)" using assms(1) by (simp add: pending_ok_def)
  obtain c where c: "temps t (vf_tmp v) = Some c" "c @ vf_buf v @ p = vf_mac v" using assms(1,2) by (auto simp: pending_ok_def)
  show ?thesis
    using assms(1,3,4) write_effect [OF w s] c
    by (auto simp: pending_ok_def vf_put_def w split: option.splits)
qed

lemma bufio_Write_ok:
  "pending_ok p v t \<Longrightarrow> bufio_Write W p (v, t) = (e, v', t') \<Longrightarrow>
   pending_ok [] v' t' \<and> publishes [] t t' \<and> vf_local v' = vf_local v \<and> vf_err v' = e"
proof (induction W p "(v, t)" arbitrary: v t rule: bufio_Write.induct)
  case (1 W p v t)
  let ?free = "verifiedFileBufferSize - length (vf_buf v)"
  consider "vf_err v \<noteq> None" | "vf_err v = None" "length p \<le> ?free"
    | "vf_err v = None" "\<not> length p \<le> ?free" "vf_buf v = []" | "vf_err v = None" "\<not> length p \<le> ?free" "vf_buf v \<noteq> []" by blast
  then show ?case
  proof cases
    case 3
    obtain v1 t1 where u: "vf_put W p (v, t) = (v1, t1)" by force
    have "pending_ok [] v1 t1 \<and> publishes [] t t1 \<and> vf_local v1 = vf_local v"
      using vf_put_ok [OF "1.prems"(1) 3(1) _ u, of "[]"] 3(3) by simp
    moreover have "pending_ok [] v' t' \<and> publishes [] t1 t' \<and> vf_local v' = vf_local v1 \<and> vf_err v' = e"
      by (rule "1.hyps"(1) [OF refl _ 3(3) u])
        (use 3 "1.prems"(2) calculation u in \<open>auto simp: bufio_Write.simps [of W p v t]\<close>)
    ultimately show ?thesis by (auto intro: publishes_Nil_trans)
  next
    case 4
    obtain v1 t1 where u: "vf_put W (vf_buf v @ take ?free p) (v, t) = (v1, t1)" by force
    have "pending_ok (drop ?free p) v1 t1 \<and> publishes [] t t1 \<and> vf_local v1 = vf_local v"
      using vf_put_ok [OF "1.prems"(1) 4(1) _ u, of "drop ?free p"] by simp
    moreover have "pending_ok [] v' t' \<and> publishes [] t1 t' \<and> vf_local v' = vf_local v1 \<and> vf_err v' = e"
      by (rule "1.hyps"(2) [OF refl _ 4(3) u])
        (use 4 "1.prems"(2) calculation u in \<open>auto simp: bufio_Write.simps [of W p v t]\<close>)
    ultimately show ?thesis by (auto intro: publishes_Nil_trans)
  qed (use "1.prems" in \<open>auto simp: bufio_Write.simps [of W p v t] pending_ok_def publishes_quietly\<close>)
qed

lemma vf_write_ok:
  assumes "pending_ok [] v t" and "vf_write W pt (v, t) = (e, v', t')"
  shows "pending_ok [] v' t' \<and> publishes [] t t' \<and> vf_local v' = vf_local v"
proof -
  let ?v = "v\<lparr>vf_mac := vf_mac v @ pt, vf_size := vf_size v + length pt\<rparr>"
  have "pending_ok pt ?v t" using assms(1) by (auto simp: pending_ok_def)
  moreover have "bufio_Write W pt (?v, t) = (e, v', t')" using assms(2) by (simp add: vf_write_def)
  ultimately show ?thesis using bufio_Write_ok by fastforce
qed

lemma vf_publish_effect:
  assumes ok: "pending_ok [] v t" and loc: "safe_path (vf_local v)" and run: "vf_publish W attrs perm (v, t) = (e, v', t')"
  shows "publishes (if e = None then [(vf_local v, Some (vf_mac v))] else []) t t' \<and> vf_published v' = (e = None)
    \<and> vf_tmp v' = vf_tmp v"
proof -
  obtain v1 t1 where f: "bufio_Flush W (v, t) = (v1, t1)" by force
  have "pending_ok [] v1 t1 \<and> publishes [] t t1 \<and> vf_local v1 = vf_local v \<and> (vf_err v1 = None \<longrightarrow> vf_buf v1 = [])
      \<and> vf_mac v1 = vf_mac v \<and> vf_tmp v1 = vf_tmp v"
  proof (cases "vf_err v \<noteq> None \<or> vf_buf v = []")
    case True
    with f ok show ?thesis by (auto simp: bufio_Flush_def publishes_quietly)
  next
    case False
    then have u: "vf_put W (vf_buf v) (v, t) = (v1, t1)" using f by (auto simp: bufio_Flush_def)
    have "vf_mac v1 = vf_mac v \<and> vf_tmp v1 = vf_tmp v" using u by (auto simp: vf_put_def split: prod.splits option.splits)
    with vf_put_ok [OF ok _ _ u, of "[]"] False show ?thesis by simp
  qed
  then have s: "safe_path (vf_tmp v1)" "\<not> vf_published v1" "publishes [] t t1" "vf_local v1 = vf_local v" "vf_tmp v1 = vf_tmp v"
    "vf_err v1 = None \<Longrightarrow> temps t1 (vf_tmp v1) = Some (vf_mac v)"
    by (auto simp: pending_ok_def)
  obtain b t2 where p: "publish W (vf_tmp v) (vf_local v) attrs perm t1 = (b, t2)" by force
  note pe = publishes_Nil_trans [OF s(3) publish_effect [OF p s(1) [unfolded s(5)] loc]]
  show ?thesis
    using run pe s by (auto simp: vf_publish_def f p split: option.splits)
qed

section \<open>Entries\<close>

text \<open>
  The plaintext of an entry is authentic when a block that opens under the key of the entry holds
  its HMAC and, from the second version on, its size.
\<close>

definition authentic :: "prims \<Rightarrow> KeySchedule \<Rightarrow> bytes \<Rightarrow> bytes \<Rightarrow> bool" where
  "authentic P keys k x \<longleftrightarrow> (\<exists>salt blk. FileKey P keys salt = Ok k \<and> DecryptBlock P \<lparr>em_key = k\<rparr> blk =
     Ok (ComputeHMAC P k x @ (if ks_version keys = Version1 then [] else le64 (word_of_nat (length x)))))"

text \<open>
  A file may appear under a name when its content is authentic and the name was sealed with the same
  key, or when it is a member of an authentic solid stream.
\<close>

definition vouched :: "prims \<Rightarrow> KeySchedule \<Rightarrow> path \<times> bytes option \<Rightarrow> bool" where
  "vouched P keys = (\<lambda>(name, content). ValidEntryName name \<and> (\<exists>x k. content = Some x
     \<and> (authentic P keys k x \<and> (\<exists>blob. decryptFilename P blob k = Ok name)
       \<or> (\<exists>stream ms m. authentic P keys k stream \<and> ParseSolidStream stream = Ok ms \<and> m \<in> set ms
           \<and> sm_Name m = name \<and> sm_Data m = x))))"

lemma readEntryHead_key: "readEntryHead P keys s = (Val head, s') \<Longrightarrow> \<exists>salt. FileKey P keys salt = Ok (eh_fileKey head)"
  by (auto simp: readEntryHead_def bindS_Val_conv callS_Val_conv returnS_def)

lemma readTrailer_sealed:
  assumes run: "readTrailer P k v s = (Val ti, s')" and k: "length k = 32"
  shows "\<exists>blk payload. DecryptBlock P \<lparr>em_key = k\<rparr> blk = Ok payload
    \<and> payload = ti_hmac ti @ (if v = Version1 then [] else le64 (ti_plaintextSize ti)) \<and> ti_hasSize ti = (v \<noteq> Version1)"
proof -
  obtain blk payload s1 where d: "DecryptBlock P \<lparr>em_key = k\<rparr> blk = Ok payload" and t: "trailer_payload v payload s1 = (Val ti, s')"
    using run k by (auto simp: readTrailer_def bindS_Val_conv callS_Val_conv Let_def failS_def NewEncryptionManager_def KeySize_def split: if_splits)
  have "payload = take HMACSize payload @ le64 (word_le 8 (drop HMACSize payload))" if "length payload = TrailerPayloadSize"
    using that le_word_le(3) [of "drop HMACSize payload"] by (simp add: TrailerPayloadSize_def)
  with d t show ?thesis
    by (intro exI [of _ blk] exI [of _ payload]) (auto simp: trailer_payload_def returnS_def failS_def split: if_splits)
qed

lemma authenticI:
  assumes "FileKey P keys salt = Ok k" and "readTrailer P k (ks_version keys) s = (Val ti, s')"
    and "ComputeHMAC P k x = ti_hmac ti" and "ti_hasSize ti \<Longrightarrow> ti_plaintextSize ti = word_of_nat (length x)"
  shows "authentic P keys k x"
  using readTrailer_sealed [OF assms(2) FileKey_length [OF assms(1)]] assms(1,3,4) by (auto simp: authentic_def split: if_splits)

lemma readSolidStream_authentic:
  assumes "FileKey P keys salt = Ok (eh_fileKey head)" and "readSolidStream P Z keys head s = (Val (x, n), s')"
  shows "authentic P keys (eh_fileKey head) x"
  using assms
  by (auto simp: readSolidStream_def bindS_Val_conv callS_Val_conv verifyPlaintext_def VerifyHMAC_def returnS_def failS_def
      split: if_splits intro!: authenticI)

text \<open>A sink whose state keeps an invariant keeps it through the blocks of an entry.\<close>

lemma decryptBlocks_inv:
  assumes "\<And>pt k e k'. I k \<Longrightarrow> sink pt k = (e, k') \<Longrightarrow> I k'"
  shows "decryptBlocksSequential em sink e k s = (e', k', s') \<Longrightarrow> I k \<Longrightarrow> I k'"
proof (induction "length (s_bytes s)" arbitrary: e k s rule: less_induct)
  case less
  obtain r s1 where n: "next_block s = (r, s1)" by force
  show ?case
  proof (cases r)
    case (NBlock nonce ct)
    then have lt: "length (s_bytes s1) < length (s_bytes s)" using n next_block_shorter by blast
    let ?b = "\<lparr>eb_Nonce = nonce, eb_Ciphertext = ct\<rparr>"
    have i: "I (snd (sink_block em sink ?b k))"
      using assms less.prems(2) by (auto simp: sink_block_def split: sum.splits prod.splits option.splits)
    have "\<exists>e k1. decryptBlocksSequential em sink e k1 s1 = (e', k', s') \<and> I k1"
      using less.prems i
      by (auto simp: decryptBlocksSequential.simps [of em sink e k s] n NBlock split: if_splits prod.splits)
    with less.hyps [OF lt] show ?thesis by blast
  qed (use less.prems in \<open>auto simp: decryptBlocksSequential.simps [of em sink e k s] n\<close>)
qed

lemma streamInto_ok:
  assumes "streamInto P Z W key codec (s, v, t) = (r, s', v', t')" and "pending_ok [] v t"
  shows "pending_ok [] v' t' \<and> publishes [] t t' \<and> vf_local v' = vf_local v"
proof -
  let ?I = "\<lambda>(v1, t1). pending_ok [] v1 t1 \<and> publishes [] t t1 \<and> vf_local v1 = vf_local v"
  have step: "?I k'" if "?I k" "vf_write W pt k = (e, k')" for pt k e k'
    using that vf_write_ok by (cases k; cases k') (auto intro: publishes_Nil_trans)
  have start: "?I (v, t)" using assms(2) by (simp add: publishes_quietly)
  have inv: "?I k'" if "decryptBlocksSequential em (vf_write W) None (v, t) s = (e, k', s'')" for em e k' s''
    by (rule decryptBlocks_inv [where I = ?I, OF _ that start]) (rule step)
  have "?I (v', t')"
  proof (cases "NewEncryptionManager key")
    case (Ok em)
    let ?em = "if codec = CodecZstd then decompressingOpener P Z em \<lparr>bd_limit = MaxChunkSize, bd_window = zstdWindowSize\<rparr>
      else plain_opener P em"
    obtain e k' s'' where d: "decryptBlocksSequential ?em (vf_write W) None (v, t) s = (e, k', s'')" by (metis prod_cases3)
    then have "k' = (v', t')" using assms(1) by (simp add: streamInto_def streamDataBlocks_def Ok Let_def)
    with inv [OF d] show ?thesis by simp
  qed (use assms(1) start in \<open>simp_all add: streamInto_def streamDataBlocks_def\<close>)
  then show ?thesis by simp
qed

lemma vf_verify_Val:
  "vf_verify P k ti (v, t) = (Val (), x) \<Longrightarrow> x = (v, t) \<and> ComputeHMAC P k (vf_mac v) = ti_hmac ti
    \<and> (ti_hasSize ti \<longrightarrow> ti_plaintextSize ti = word_of_nat (vf_size v))"
  by (auto simp: vf_verify_def split: if_splits)

lemma onReader_conv: "onReader m (s, t) = (r, s', t') \<longleftrightarrow> m s = (r, s') \<and> t' = t"
  by (auto simp: onReader_def split: prod.splits)

lemma onTree_conv: "onTree m (s, t) = (r, s', t') \<longleftrightarrow> m t = (r, t') \<and> s' = s"
  by (auto simp: onTree_def split: prod.splits)

lemma bind_onReader:
  "bindS (onReader m) f (s, t) = (case m s of (Val x, s) \<Rightarrow> f x (s, t) | (Fail e, s) \<Rightarrow> (Fail e, s, t) | (Crash, s) \<Rightarrow> (Crash, s, t))"
  by (simp add: bindS_def onReader_def split: prod.splits outcome.splits)

lemma verified_body_effect:
  assumes run: "verified_body P Z W keys head (s, v, t) = (r, s', v', t')"
    and key: "FileKey P keys salt = Ok (eh_fileKey head)" and ok: "pending_ok [] v t" "safe_path (vf_local v)"
  shows "\<exists>x. publishes (if r = Val () then [(vf_local v, Some x)] else []) t t'
    \<and> (r = Val () \<longrightarrow> authentic P keys (eh_fileKey head) x \<and> vf_size v' = length x \<and> vf_published v')
    \<and> (r \<noteq> Val () \<longrightarrow> \<not> vf_published v' \<and> safe_path (vf_tmp v'))"
proof -
  let ?k = "eh_fileKey head"
  have un: "\<not> vf_published v" "safe_path (vf_tmp v)" using ok(1) by (simp_all add: pending_ok_def)
  obtain r1 s1 where p: "skipPadding (\<lambda>e. recoverable ErrCodeTruncated ''skip inter-block padding'' (Some e)) s = (r1, s1)" by force
  obtain r2 s2 v2 t2 where d: "streamInto P Z W ?k (pm_Codec (eh_pm head)) (s1, v, t) = (r2, s2, v2, t2)" by (metis prod_cases4)
  note so = streamInto_ok [OF d ok(1)]
  then have un2: "\<not> vf_published v2" "safe_path (vf_tmp v2)" "safe_path (vf_local v2)" using ok(2) by (simp_all add: pending_ok_def)
  obtain r3 s3 where tr: "readTrailer P ?k (ks_version keys) s2 = (r3, s3)" by force
  show ?thesis
  proof (cases "\<exists>ti. r1 = Val () \<and> r2 = Val () \<and> r3 = Val ti \<and> vf_verify P ?k ti (v2, t2) = (Val (), v2, t2)")
    case True
    then obtain ti where c: "r1 = Val ()" "r2 = Val ()" "r3 = Val ti" "vf_verify P ?k ti (v2, t2) = (Val (), v2, t2)" by blast
    obtain e v3 t3 where pb: "vf_publish W (pm_Attributes (eh_pm head)) (pm_Permissions (eh_pm head) AND 0x1FF) (v2, t2) = (e, v3, t3)"
      by (metis prod_cases3)
    note pe = vf_publish_effect [OF conjunct1 [OF so] un2(3) pb]
    have sz: "vf_size v2 = length (vf_mac v2)" using so by (simp add: pending_ok_def)
    have au: "authentic P keys ?k (vf_mac v2)"
      using vf_verify_Val [OF c(4)] sz by (intro authenticI [OF key tr [unfolded c(3)]]) auto
    have fin: "r = (if e = None then Val () else Fail (writeRecoverable ''write file'' (the e))) \<and> v' = v3 \<and> t' = t3"
      using run
      by (auto simp: verified_body_def Let_def bindS_def catchS_def onReader_def onTree_def p c d tr publishS_def pb split: option.splits)
    have "vf_size v3 = vf_size v2"
      using pb by (auto simp: vf_publish_def bufio_Flush_def vf_put_def split: prod.splits option.splits if_splits)
    with fin pe so au sz un2(2) show ?thesis by (auto intro!: exI [of _ "vf_mac v2"] dest: publishes_Nil_trans)
  next
    case False
    have "r \<noteq> Val () \<and> (v' = v \<and> t' = t \<or> v' = v2 \<and> t' = t2)"
      using run False
      by (auto simp: verified_body_def Let_def bindS_def catchS_def onReader_def onTree_def p d tr vf_verify_def failS_def skipTrailer_def
          split: outcome.splits if_splits prod.splits)
    with so un un2 show ?thesis by (auto simp: publishes_quietly)
  qed
qed

text \<open>
  The results of an operation agree with what it published: each publication is reported, in order,
  with its name and size, and each result with data is a publication.
\<close>

definition report :: "path \<times> bytes option \<Rightarrow> ExtractionResult" where
  "report = (\<lambda>(name, content). extracted name (length (the content)))"

definition honest :: "(path \<times> bytes option) list \<Rightarrow> ExtractionResult list \<Rightarrow> bool" where
  "honest ps rs \<longleftrightarrow> subseq (map report ps) rs \<and> (\<forall>r \<in> set rs. er_OK r \<and> 0 < er_Size r \<longrightarrow> r \<in> set (map report ps))"

lemma honest_append: "honest ps rs \<Longrightarrow> honest ps' rs' \<Longrightarrow> honest (ps @ ps') (rs @ rs')"
  by (auto simp: honest_def intro: list_emb_append_mono)

lemma honest_one: "honest [(name, Some x)] [extracted name (length x)]" "honest [] [notExtracted name e]" "honest [] [extracted name 0]"
    "honest [] []"
  by (auto simp: honest_def report_def extracted_def notExtracted_def)

text \<open>What an operation of the extractor may publish, and what it reports when it returns results.\<close>

definition accounted :: "prims \<Rightarrow> KeySchedule \<Rightarrow> outputTree \<Rightarrow> ExtractionResult list outcome \<Rightarrow> outputTree \<Rightarrow> bool" where
  "accounted P keys t r t' \<longleftrightarrow> (\<exists>ps. publishes ps t t' \<and> list_all (vouched P keys) ps
     \<and> (\<forall>rs. r = Val rs \<longrightarrow> honest ps rs) \<and> (\<forall>e. r = Fail e \<and> \<not> IsFatal e \<longrightarrow> ps = []))"

lemma accounted_quiet: "quietly t t' \<Longrightarrow> (\<And>rs. r = Val rs \<Longrightarrow> honest [] rs) \<Longrightarrow> accounted P keys t r t'"
  unfolding accounted_def using publishes_quietly by fastforce

lemma extractSpecial_effect:
  assumes "extractSpecial W name attrs (s, t) = (r, s', t')"
  shows "quietly t t' \<and> (\<forall>x. r = Val x \<longrightarrow> honest [] [x])"
proof -
  obtain r1 s1 where sk: "skipEntryBody (returnS ()) s = (r1, s1)" by force
  obtain r2 t2 where sp: "special W name attrs t = (r2, t2)" by force
  show ?thesis
    using assms hushedD [OF special_hushed sp]
    by (auto simp: extractSpecial_def bindS_def catchS_def onReader_def onTree_def sk sp returnS_def failS_def honest_one
        split: outcome.splits if_splits)
qed

lemma newVerifiedFile_effect:
  assumes "newVerifiedFile W name t = (r, t')"
  shows "publishes [] t t' \<and> (\<forall>v. r = Val v \<longrightarrow> vf_local v = name \<and> ValidEntryName name \<and> pending_ok [] v t')"
proof -
  obtain r1 t1 where c: "createTemp W name t = (r1, t1)" by force
  show ?thesis
    using createTemp_effect [OF c] assms
    by (auto simp: newVerifiedFile_def bindS_def c returnS_def pending_ok_def split: outcome.splits)
qed

lemma extractFileBody_effect:
  assumes run: "extractFileBody P Z W keys head (s, t) = (r, s', t')" and key: "FileKey P keys salt = Ok (eh_fileKey head)"
  shows "accounted P keys t (case r of Val x \<Rightarrow> Val [x] | Fail e \<Rightarrow> Fail e | Crash \<Rightarrow> Crash) t'"
proof -
  let ?k = "eh_fileKey head" and ?pm = "eh_pm head"
  obtain r1 s1 where n: "orSkipBody (\<lambda>e. recoverable ErrCodeAuthFailed ''decrypt filename'' (Some e))
      (decryptFilename P (pm_EncryptedFilename ?pm) ?k) s = (r1, s1)" by force
  show ?thesis
  proof (cases r1)
    case (Val name)
    have dn: "decryptFilename P (pm_EncryptedFilename ?pm) ?k = Ok name"
      using n by (auto simp: Val orSkipBody_def returnS_def callS_def skipEntryBody_def skipTrailer_def bindS_Val_conv Let_def
          failS_def split: res.splits if_splits)
    obtain r2 t2 where nv: "newVerifiedFile W name t = (r2, t2)" by force
    note ne = newVerifiedFile_effect [OF nv]
    define regular where "regular = bindS (catchS (onTree (newVerifiedFile W name))
          (\<lambda>e. if IsFatal e then failS e else onReader (skipEntryBody (failS e)))) (\<lambda>out.
        bindS (with_verified W (verified_body P Z W keys head) out) (\<lambda>n. returnS (extracted name n)))"
    have reg: "accounted P keys t (case r of Val x \<Rightarrow> Val [x] | Fail e \<Rightarrow> Fail e | Crash \<Rightarrow> Crash) t'"
      if "regular (s1, t) = (r, s', t')"
    proof (cases r2)
      case v: (Val v)
      have vok: "vf_local v = name" "ValidEntryName name" "pending_ok [] v t2" using ne v by simp_all
      obtain r3 s3 v3 t3 where b: "verified_body P Z W keys head (s1, v, t2) = (r3, s3, v3, t3)" by (metis prod_cases4)
      obtain x where x: "publishes (if r3 = Val () then [(name, Some x)] else []) t2 t3"
        "r3 = Val () \<Longrightarrow> authentic P keys ?k x \<and> vf_size v3 = length x \<and> vf_published v3"
        "r3 \<noteq> Val () \<Longrightarrow> \<not> vf_published v3 \<and> safe_path (vf_tmp v3)"
        using verified_body_effect [OF b key vok(3)] vok(1,2) ValidEntryName_safe by auto
      have t': "t' = vf_discard W v3 t3" and r: "r = (case r3 of Val _ \<Rightarrow> Val (extracted name (vf_size v3)) | Fail e \<Rightarrow> Fail e | Crash \<Rightarrow> Crash)"
        using that by (auto simp: regular_def bindS_def catchS_def onTree_def nv v with_verified_def b returnS_def split: outcome.splits)
      have "quietly t3 t'" using x(2,3) discard_quiet [of "vf_tmp v3"] by (cases "r3 = Val ()") (simp_all add: t' vf_discard_def)
      with publishes_Nil_trans [OF conjunct1 [OF ne] x(1)]
      have "publishes (if r3 = Val () then [(name, Some x)] else []) t t'" by (rule publishes_then_quietly)
      moreover have "vouched P keys (name, Some x)" if "r3 = Val ()" using x(2) [OF that] vok(2) dn by (auto simp: vouched_def)
      ultimately show ?thesis
        using x(2) honest_one(1)
        by (auto simp: accounted_def r split: outcome.splits intro!: exI [of _ "if r3 = Val () then [(name, Some x)] else []"])
    next
      case (Fail e)
      obtain r3 s3 where sk: "skipEntryBody (failS e) s1 = (r3 :: verifiedFile outcome, s3)" by force
      have "r3 \<noteq> Val v" for v using sk
        by (auto simp: skipEntryBody_def skipTrailer_def bindS_Val_conv Let_def failS_def split: if_splits)
      then have "t' = t2 \<and> (\<forall>x. r \<noteq> Val x)"
        using that by (auto simp: regular_def bindS_def catchS_def onTree_def onReader_def nv Fail sk failS_def split: if_splits outcome.splits)
      with ne show ?thesis by (auto simp: accounted_def intro!: exI [of _ "[]"] split: outcome.splits)
    next
      case Crash
      then have "t' = t2 \<and> r = Crash" using that by (auto simp: regular_def bindS_def catchS_def onTree_def nv)
      with ne show ?thesis by (auto simp: accounted_def intro!: exI [of _ "[]"])
    qed
    have "(case pm_Attributes ?pm of None \<Rightarrow> regular | Some attrs \<Rightarrow> if a_Kind attrs \<noteq> KindRegular then extractSpecial W name attrs
        else regular) (s1, t) = (r, s', t')"
      using run unfolding extractFileBody_def Let_def bind_onReader n Val regular_def by simp
    then show ?thesis
      using reg extractSpecial_effect [of W name _ s1 t r s' t']
      by (auto split: option.splits if_splits outcome.splits intro: accounted_quiet)
  qed (use run in \<open>auto simp: extractFileBody_def Let_def bindS_def onReader_def n intro: accounted_quiet\<close>)
qed

lemma extract_members_effect:
  assumes "extract_members W ms t = (r, t')"
  shows "\<exists>ps. publishes ps t t' \<and> list_all (\<lambda>(name, c). ValidEntryName name \<and> (\<exists>m \<in> set ms. sm_Name m = name \<and> c = Some (sm_Data m))) ps
    \<and> (\<forall>rs. r = Val rs \<longrightarrow> honest ps rs) \<and> (\<forall>e. r = Fail e \<longrightarrow> IsFatal e)"
  using assms
proof (induction ms arbitrary: t r t')
  case Nil
  then show ?case by (auto simp: returnS_def publishes_quietly honest_one intro!: exI [of _ "[]"])
next
  case (Cons m ms)
  obtain r1 t1 where w: "writeFile W (sm_Name m) (sm_Data m) (Some (sm_Attributes m)) t = (r1, t1)" by force
  define ps where "ps = (if r1 = Val () then [(sm_Name m, Some (sm_Data m))] else [])"
  have e: "publishes ps t t1" "r1 = Val () \<Longrightarrow> ValidEntryName (sm_Name m)" using writeFile_effect [OF w] by (simp_all add: ps_def)
  obtain r2 t2 where q: "extract_members W ms t1 = (r2, t2)" by force
  obtain ps' where ih: "publishes ps' t1 t2"
    "list_all (\<lambda>(name, c). ValidEntryName name \<and> (\<exists>m \<in> set ms. sm_Name m = name \<and> c = Some (sm_Data m))) ps'"
    "\<And>rs. r2 = Val rs \<Longrightarrow> honest ps' rs" "\<And>e. r2 = Fail e \<Longrightarrow> IsFatal e"
    using Cons.IH [OF q] by blast
  define x where "x = (case r1 of Val _ \<Rightarrow> extracted (sm_Name m) (length (sm_Data m)) | Fail e \<Rightarrow> notExtracted (sm_Name m) e)"
  have h: "honest ps [x]" if "r1 \<noteq> Crash" using that by (cases r1) (auto simp: ps_def x_def honest_one)
  have good: "list_all (\<lambda>(name, c). ValidEntryName name \<and> (\<exists>m \<in> set (m # ms). sm_Name m = name \<and> c = Some (sm_Data m))) (ps @ ps')"
    using ih(2) e(2) by (auto simp: ps_def list_all_iff)
  consider "r1 = Crash" | er where "r1 = Fail er" "IsFatal er" | "r1 \<noteq> Crash" "\<And>er. r1 = Fail er \<Longrightarrow> \<not> IsFatal er" by (cases r1) auto
  then show ?case
  proof cases
    case 3
    then have "r = (case r2 of Val rs \<Rightarrow> Val (x # rs) | Fail e \<Rightarrow> Fail e | Crash \<Rightarrow> Crash)" "t' = t2"
      using Cons.prems by (cases r1; auto simp: bindS_def catchS_def w q returnS_def failS_def x_def split: outcome.splits)+
    with publishes_trans [OF e(1) ih(1)] good ih(3,4) honest_append [OF h [OF 3(1)]] show ?thesis
      by (auto intro!: exI [of _ "ps @ ps'"] split: outcome.splits)
  qed (use Cons.prems e in \<open>auto simp: bindS_def catchS_def w returnS_def failS_def ps_def intro!: exI [of _ "[]"]\<close>)
qed

lemma extractEntry_effect:
  assumes run: "extractEntry P Z W keys ty (s, t) = (r, s', t')"
  shows "accounted P keys t r t'"
proof -
  obtain r1 s1 where h: "readEntryHead P keys s = (r1, s1)" by force
  show ?thesis
  proof (cases r1)
    case (Val head)
    obtain salt where key: "FileKey P keys salt = Ok (eh_fileKey head)" using readEntryHead_key h Val by blast
    show ?thesis
    proof (cases "ty = EntryTypeSolid")
      case True
      obtain r2 s2 where m: "readSolidMembers P Z keys head s1 = (r2, s2)" by force
      show ?thesis
      proof (cases r2)
        case v: (Val x)
        obtain ms n k where x: "x = (ms, n, k)" by (metis prod_cases3)
        obtain stream where "readSolidStream P Z keys head s1 = (Val (stream, k), s2)" and ps: "ParseSolidStream stream = Ok ms"
          using m by (auto simp: v x readSolidMembers_def bindS_Val_conv callS_Val_conv returnS_def split: prod.splits)
        then have st: "authentic P keys (eh_fileKey head) stream" "ParseSolidStream stream = Ok ms"
          using readSolidStream_authentic [OF key] by blast+
        obtain r3 t3 where e: "extract_members W ms t = (r3, t3)" by force
        have "r = r3 \<and> t' = t3"
          using run by (simp add: extractEntry_def bindS_def onReader_def onTree_def h Val True extractSolidBody_def m v x e)
        moreover obtain ps where ps: "publishes ps t t3" "\<forall>rs. r3 = Val rs \<longrightarrow> honest ps rs" "\<forall>e. r3 = Fail e \<longrightarrow> IsFatal e"
          "list_all (\<lambda>(name, c). ValidEntryName name \<and> (\<exists>m \<in> set ms. sm_Name m = name \<and> c = Some (sm_Data m))) ps"
          using extract_members_effect [OF e] by blast
        have "vouched P keys p" if p: "p \<in> set ps" for p
        proof -
          obtain name m where "p = (name, Some (sm_Data m))" "ValidEntryName name" "m \<in> set ms" "sm_Name m = name"
            using ps(4) p by (cases p) (auto simp: list_all_iff)
          with st show ?thesis unfolding vouched_def by blast
        qed
        then have "list_all (vouched P keys) ps" by (simp add: list_all_iff)
        ultimately show ?thesis using ps(1-3) unfolding accounted_def by blast
      qed (use run in \<open>auto simp: extractEntry_def bindS_def onReader_def h Val True extractSolidBody_def m intro: accounted_quiet\<close>)
    next
      case False
      obtain r2 s2 t2 where b: "extractFileBody P Z W keys head (s1, t) = (r2, s2, t2)" by (metis prod_cases3)
      have "r = (case r2 of Val x \<Rightarrow> Val [x] | Fail e \<Rightarrow> Fail e | Crash \<Rightarrow> Crash) \<and> t' = t2"
        using run False by (auto simp: extractEntry_def bindS_def onReader_def h Val b returnS_def split: outcome.splits)
      with extractFileBody_effect [OF b key] show ?thesis by simp
    qed
  qed (use run in \<open>auto simp: extractEntry_def bindS_def onReader_def h intro: accounted_quiet\<close>)
qed

lemma extract_entries_effect:
  assumes "extract_entries P Z W keys rs0 (s, t) = ((rs, r), s', t')"
  shows "\<exists>ps rs'. rs = rs0 @ rs' \<and> publishes ps t t' \<and> list_all (vouched P keys) ps \<and> (r = Val () \<longrightarrow> honest ps rs')"
  using assms
proof (induction "length (s_bytes s)" arbitrary: s t rs0 rule: less_induct)
  case less
  have stop: ?case if "rs = rs0" "t' = t"
    using that by (auto simp: publishes_quietly honest_one intro!: exI [of _ "[]"])
  obtain r1 s1 where n: "nextEntryType P keys s = (r1, s1)" by force
  note run = less.prems [unfolded extract_entries.simps [of P Z W keys rs0] n prod.case]
  show ?case
  proof (cases "\<exists>ty. r1 = Val (ty, True)")
    case True
    then obtain ty where r1: "r1 = Val (ty, True)" by blast
    obtain r2 s2 t2 where e: "extractEntry P Z W keys ty (s1, t) = (r2, s2, t2)" by (metis prod_cases3)
    note lt = extractEntry_shorter [OF n [unfolded r1] e]
    obtain ps where a: "publishes ps t t2" "list_all (vouched P keys) ps" "\<And>rs. r2 = Val rs \<Longrightarrow> honest ps rs"
        "\<And>e. r2 = Fail e \<Longrightarrow> \<not> IsFatal e \<Longrightarrow> ps = []"
      using extractEntry_effect [OF e] by (auto simp: accounted_def)
    define rs1 where "rs1 = (case r2 of Val x \<Rightarrow> x | Fail e \<Rightarrow> [notExtracted [] e] | Crash \<Rightarrow> [])"
    show ?thesis
    proof (cases "r2 = Crash \<or> (\<exists>e. r2 = Fail e \<and> IsFatal e)")
      case True
      then show ?thesis using run a(1,2) by (auto simp: r1 e split: if_splits)
    next
      case False
      then have "extract_entries P Z W keys (rs0 @ rs1) (s2, t2) = ((rs, r), s', t')"
        using run by (auto simp: r1 e rs1_def split: if_splits outcome.splits)
      from less.hyps [OF lt this] obtain ps' rs' where ih: "rs = (rs0 @ rs1) @ rs'" "publishes ps' t2 t'"
        "list_all (vouched P keys) ps'" "r = Val () \<longrightarrow> honest ps' rs'" by blast
      have "honest ps rs1" using a(3,4) False by (auto simp: rs1_def honest_one split: outcome.splits)
      with ih a publishes_trans [OF a(1) ih(2)] show ?thesis
        by (intro exI [of _ "ps @ ps'"] exI [of _ "rs1 @ rs'"]) (auto intro: honest_append)
    qed
  next
    case False
    then have "rs = rs0" "t' = t" using run by (auto split: outcome.splits prod.splits if_splits)
    then show ?thesis by (rule stop)
  qed
qed

lemma close_dir_quiet: "safe_path p \<Longrightarrow> quietly t (close_dir W (p, a) t)"
  by (auto simp: close_dir_def split: prod.splits option.splits
      intro: quietly_trans [OF sys_quiet warn_quiet(1)]
        quietly_trans [OF quietly_trans [OF quietly_trans [OF sys_quiet applyAttributes_quiet] sysDrop_quiet] setModTime_quiet])

lemma ot_close_quiet: "calls_ok t \<Longrightarrow> quietly t (ot_close W t)"
proof -
  assume ok: "calls_ok t"
  have "quietly t (fold (close_dir W) ds t)" if "list_all (\<lambda>(p, _). safe_path p) ds" for ds t
    using that
  proof (induction ds arbitrary: t)
    case (Cons d ds)
    obtain p a where d: "d = (p, a)" by force
    have "quietly t (close_dir W d t)" using Cons.prems by (simp add: d close_dir_quiet)
    with Cons show ?case by (auto intro: quietly_trans)
  qed simp
  with ok show ?thesis by (simp add: ot_close_def calls_ok_def list_all_iff)
qed

end
