(* ===== verification/Archive_Reading.thy ===== *)
theory Archive_Reading
  imports Archive_Session
begin

text \<open>
  Reading an archive at random positions and verifying it without a key: the signature behind
  the archive and \<^verbatim>\<open>VerifyArchive\<close> (\<^verbatim>\<open>io/signature.go\<close>), entries at an offset and payload entries
  (\<^verbatim>\<open>io/incremental.go\<close>), and the directory (\<^verbatim>\<open>io/directory.go\<close>).
\<close>

section \<open>Random access\<close>

text \<open>
  An \<^verbatim>\<open>io.ReaderAt\<close> is a stream: the bytes that can be read and the error a read beyond them reports.
  \<open>subS\<close> runs an operation on a reader of its own.
\<close>

definition ReadAt :: "stream \<Rightarrow> nat \<Rightarrow> nat \<Rightarrow> sarc_error + bytes" where
  "ReadAt f n off = (if off + n \<le> length (s_bytes f) then Inr (take n (drop off (s_bytes f))) else Inl (s_end f))"

definition SectionReader :: "stream \<Rightarrow> nat \<Rightarrow> nat \<Rightarrow> stream" where
  "SectionReader f off n =
     (if off + n \<le> length (s_bytes f) then Stream (take n (drop off (s_bytes f))) EOF
      else Stream (drop off (s_bytes f)) (s_end f))"

definition entryReaderAt :: "stream \<Rightarrow> nat \<Rightarrow> nat \<Rightarrow> stream" where
  "entryReaderAt f len offset = SectionReader f offset (len - offset)"

definition subS :: "'a reader \<Rightarrow> stream \<Rightarrow> ('s, 'a) op" where
  "subS m sub s = (fst (m sub), s)"

section \<open>The signature\<close>

definition splitSignatureTail :: "bytes \<Rightarrow> bytes \<times> bytes option" where
  "splitSignatureTail t =
     (if length t < SignatureTrailerSize then (t, None)
      else case ParseSignatureTrailer (drop (length t - SignatureTrailerSize) t) of
        None \<Rightarrow> (t, None)
      | Some n \<Rightarrow>
          if length t < n + SignatureTrailerSize + FooterSize then (t, None)
          else let start = length t - SignatureTrailerSize - n in
            (take start t, Some (take n (drop start t))))"

definition splitSignature :: "stream \<Rightarrow> nat \<Rightarrow> ('s, nat \<times> bytes option) op" where
  "splitSignature ra len =
     (if len < SignatureTrailerSize + FooterSize then returnS (len, None)
      else bindS (orFail (\<lambda>e. fatal ErrCodeReadFailed ''read archive end'' (Some e))
        (ReadAt ra SignatureTrailerSize (len - SignatureTrailerSize))) (\<lambda>trailer.
      case ParseSignatureTrailer trailer of
        None \<Rightarrow> returnS (len, None)
      | Some n \<Rightarrow>
          if len < n + SignatureTrailerSize + FooterSize then returnS (len, None)
          else let proper = len - (SignatureTrailerSize + n) in
            bindS (orFail (\<lambda>e. fatal ErrCodeReadFailed ''read signature'' (Some e)) (ReadAt ra n proper)) (\<lambda>signature.
            returnS (proper, Some signature))))"

subsection \<open>Verifying without a key\<close>

definition verifyHoldSize :: nat where
  "verifyHoldSize = FooterSize + MaxSignatureSize + SignatureTrailerSize"

record 'p VerifyReport =
  vr_ChecksumOK :: bool
  vr_Signed :: bool
  vr_Signer :: "'p option"
  vr_SignatureErr :: "sarc_error option"

text \<open>
  The reads of the stream are given by what each returns: those without an error, and the last
  one, which may deliver bytes together with its error.  The loop holds the end of the
  stream in the work buffer and hashes what falls out of it.
\<close>

definition hold :: "ArchiveChecksum \<times> bytes \<Rightarrow> bytes \<Rightarrow> ArchiveChecksum \<times> bytes" where
  "hold = (\<lambda>(c, held) p.
     let work = held @ p in
     if verifyHoldSize < length work
     then (ac_Write c (take (length work - verifyHoldSize) work), drop (length work - verifyHoldSize) work)
     else (c, work))"

definition verify_report :: "prims \<Rightarrow> ('p, 's) ssh \<Rightarrow> bytes \<Rightarrow> bytes \<Rightarrow> bytes option \<Rightarrow> ('t, 'p VerifyReport) op" where
  "verify_report P S computed stored signature =
     (let report = \<lparr>vr_ChecksumOK = (computed = stored), vr_Signed = False, vr_Signer = None, vr_SignatureErr = None\<rparr> in
      case signature of
        None \<Rightarrow> returnS report
      | Some sg \<Rightarrow> (case VerifyMessage P S sg computed of
          Ok pub \<Rightarrow> returnS (report\<lparr>vr_Signed := True, vr_Signer := Some pub\<rparr>)
        | Err e \<Rightarrow> returnS (report\<lparr>vr_Signed := True, vr_SignatureErr := Some e\<rparr>)
        | Panic \<Rightarrow> callS (\<lambda>e. fatal ErrCodeReadFailed ''panic'' (Some e)) Panic))"

definition VerifyArchive ::
  "prims \<Rightarrow> ('p, 's) ssh \<Rightarrow> bytes list \<Rightarrow> bytes \<Rightarrow> sarc_error \<Rightarrow> ('t, 'p VerifyReport) op" where
  "VerifyArchive P S reads lastRead err =
     (if err \<noteq> EOF then failS (fatal ErrCodeReadFailed ''read archive'' (Some err))
      else
        let (c, held) = foldl hold (NewArchiveChecksum, []) (reads @ [lastRead]);
            (proper, signature) = splitSignatureTail held in
        if length proper < FooterSize then failS (fatal ErrCodeTruncated ''archive too small to contain a footer'' None)
        else
          let c = ac_Write c (take (length proper - FooterSize) proper);
              computed = fst (ac_Sum P c []);
              stored = take HMACSize (drop (length proper - FooterSize) proper) in
          verify_report P S computed stored signature)"

section \<open>Payload entries\<close>

text \<open>Every failure becomes fatal; the cause of a structured error is kept.\<close>

definition fatalS :: "ErrorCode \<Rightarrow> string \<Rightarrow> ('s, 'a) op \<Rightarrow> ('s, 'a) op" where
  "fatalS code msg m = catchS m (\<lambda>e. failS (fatal code msg (ae_cause e)))"

definition limited_sink :: "nat \<Rightarrow> bytes blockSink" where
  "limited_sink limit pt out =
     (if limit < length out + length pt then (Some (Errorf ''entry exceeds maximum size''), out) else (None, out @ pt))"

definition readPayloadBlocks :: "prims \<Rightarrow> zstd \<Rightarrow> bytes \<Rightarrow> nat \<Rightarrow> bytes reader" where
  "readPayloadBlocks P Z fileKey limit s =
     (case streamDataBlocks P Z fileKey CodecNone \<lparr>bd_limit = 0, bd_window = 0\<rparr> (limited_sink limit) [] s of
        (Val _, out, s) \<Rightarrow> (Val out, s)
      | (Fail e, out, s) \<Rightarrow> (Fail e, s)
      | (Crash, out, s) \<Rightarrow> (Crash, s))"

definition readPayloadBody :: "prims \<Rightarrow> zstd \<Rightarrow> KeySchedule \<Rightarrow> nat \<Rightarrow> string \<Rightarrow> bytes reader" where
  "readPayloadBody P Z keys limit what =
     bindS (fatalS ErrCodeIntegrityFail (''open '' @ what) (readEntryHead P keys)) (\<lambda>head.
     bindS (skipPadding (\<lambda>e. fatal ErrCodeTruncated (''skip '' @ what @ '' padding'') (Some e))) (\<lambda>_.
     bindS (fatalS ErrCodeIntegrityFail (''decrypt '' @ what) (readPayloadBlocks P Z (eh_fileKey head) limit)) (\<lambda>plaintext.
     bindS (fatalS ErrCodeIntegrityFail (''read '' @ what @ '' trailer'') (readTrailer P (eh_fileKey head) (ks_version keys))) (\<lambda>trailer.
     bindS (fatalS ErrCodeIntegrityFail (what @ '' failed verification'') (verifyPlaintext P (eh_fileKey head) plaintext trailer)) (\<lambda>_.
     returnS plaintext)))))"

section \<open>The directory\<close>

definition readDirectory ::
  "prims \<Rightarrow> zstd \<Rightarrow> KeySchedule \<Rightarrow> headerInfo \<Rightarrow> stream \<Rightarrow> nat \<Rightarrow> ('s, DirectoryRecord list option) op" where
  "readDirectory P Z keys header ra len =
     bindS (splitSignature ra len) (\<lambda>(proper, _).
     let tail = int proper - int DirectoryTailSize in
     if tail < int (header_end header) then returnS None
     else bindS (orFail (\<lambda>e. fatal ErrCodeReadFailed ''read archive tail'' (Some e)) (ReadAt ra DirectoryTailSize (nat tail))) (\<lambda>buf.
     case ParseDirectoryLocator (take DirectoryLocatorSize buf) of
       Err e \<Rightarrow> returnS None
     | Panic \<Rightarrow> callS (\<lambda>e. fatal ErrCodeIntegrityFail ''panic'' (Some e)) Panic
     | Ok offset \<Rightarrow>
         if buf ! DirectoryLocatorSize \<noteq> EntryTypeEnd then failS (fatal ErrCodeIntegrityFail ''damaged archive tail'' None)
         else if offset < word_of_nat (header_end header) \<or> word_of_int tail \<le> offset
         then failS (fatal ErrCodeIntegrityFail ''directory locator points outside the archive'' None)
         else bindS (subS (bindS (readS 1 (\<lambda>e. fatal ErrCodeTruncated ''read directory'' (Some e))) (\<lambda>entryType.
             if entryType \<noteq> [EntryTypeDirectory] then failS (fatal ErrCodeIntegrityFail ''expected a directory entry'' None)
             else readPayloadBody P Z keys MaxDirectorySize ''directory''))
             (entryReaderAt ra (nat tail) (unat offset))) (\<lambda>plaintext.
         bindS (callS (\<lambda>e. fatal ErrCodeIntegrityFail ''parse directory'' (Some e)) (ParseDirectory plaintext)) (\<lambda>records.
         if \<exists>r \<in> set records. dr_Offset r < word_of_nat (header_end header) \<or> offset \<le> dr_Offset r
         then failS (fatal ErrCodeIntegrityFail ''directory entry points outside the archive'' None)
         else returnS (Some records)))))"

section \<open>Verification does not depend on how the archive is read\<close>

definition held_of :: "bytes \<Rightarrow> ArchiveChecksum \<times> bytes" where
  "held_of x = (checksum_state (take (length x - verifyHoldSize) x), drop (length x - verifyHoldSize) x)"

lemma hold_held: "hold (held_of x) p = held_of (x @ p)"
proof (cases "length x \<le> verifyHoldSize")
  case True
  then show ?thesis by (simp add: hold_def held_of_def Let_def ac_Write_state)
next
  case False
  then obtain k where k: "length x = verifyHoldSize + k" "k \<le> length x" by (metis le_add2 less_eqE nat_le_linear)
  have t: "take (k + length p) (x @ p) = take k x @ take (length p) (drop k x @ p)"
    using k(2) take_add [of k "length p" "x @ p"] by simp
  have d: "drop (k + length p) (x @ p) = drop (length p) (drop k x @ p)"
    using k(2) drop_drop [of "length p" k "x @ p"] by (simp add: add.commute)
  have l: "length (x @ p) - verifyHoldSize = k + length p" "length x - verifyHoldSize = k" "length (drop k x @ p) = verifyHoldSize + length p"
    using k by simp_all
  show ?thesis
    unfolding held_of_def l(1,2) t d hold_def prod.case Let_def l(3) by (cases "p = []") (simp_all add: ac_Write_state)
qed

lemma hold_all: "foldl hold (NewArchiveChecksum, []) ps = held_of (concat ps)"
proof -
  have "foldl hold (held_of x) ps = held_of (x @ concat ps)" for x
    by (induction ps arbitrary: x) (simp_all add: hold_held)
  from this [of "[]"] show ?thesis by (simp add: held_of_def checksum_new)
qed

lemma ParseSignatureTrailer_limit: "ParseSignatureTrailer t = Some n \<Longrightarrow> n \<le> MaxSignatureSize"
  by (auto simp: ParseSignatureTrailer_def Let_def split: if_splits)

lemma split_prefix: "splitSignatureTail x = (proper, signature) \<Longrightarrow> proper = take (length proper) x"
  by (auto simp: splitSignatureTail_def Let_def min_def split: if_splits option.splits)

text \<open>What is held back is enough to split the signature off.\<close>

lemma split_held:
  assumes "splitSignatureTail x = (proper, signature)" and k: "k = length x - verifyHoldSize"
  shows "splitSignatureTail (drop k x) = (drop k proper, signature)"
    and "k = 0 \<or> k + FooterSize \<le> length proper"
proof -
  have hold: "SignatureTrailerSize \<le> verifyHoldSize" by (simp add: verifyHoldSize_def)
  show "splitSignatureTail (drop k x) = (drop k proper, signature)"
  proof (cases "k = 0")
    case False
    then have lx: "length x = verifyHoldSize + k" using k by simp
    have lh: "length (drop k x) = verifyHoldSize" using lx by simp
    have t: "drop (verifyHoldSize - SignatureTrailerSize) (drop k x) = drop (length x - SignatureTrailerSize) x"
      using hold lx by (simp add: drop_drop)
    show ?thesis
    proof (cases "ParseSignatureTrailer (drop (length x - SignatureTrailerSize) x)")
      case None
      with assms(1) lx hold t show ?thesis
        unfolding splitSignatureTail_def lh by (simp add: Let_def split: if_splits)
    next
      case (Some n)
      have n: "n + SignatureTrailerSize + FooterSize \<le> verifyHoldSize"
        using ParseSignatureTrailer_limit [OF Some] by (simp add: verifyHoldSize_def)
      have p: "proper = take (length x - SignatureTrailerSize - n) x"
          "signature = Some (take n (drop (length x - SignatureTrailerSize - n) x))"
        using assms(1) Some n lx unfolding splitSignatureTail_def by (simp_all add: Let_def split: if_splits)
      have d: "drop (verifyHoldSize - SignatureTrailerSize - n) (drop k x) = drop (length x - SignatureTrailerSize - n) x"
          "take (verifyHoldSize - SignatureTrailerSize - n) (drop k x) = drop k (take (length x - SignatureTrailerSize - n) x)"
        using n lx by (simp_all add: drop_drop take_drop add.commute)
      show ?thesis
        unfolding splitSignatureTail_def lh t using Some n hold p d by (simp add: Let_def)
    qed
  qed (use assms in simp)
  show "k = 0 \<or> k + FooterSize \<le> length proper"
  proof (cases "k = 0")
    case False
    then have lx: "length x = verifyHoldSize + k" using k by simp
    show ?thesis
      using assms(1) lx ParseSignatureTrailer_limit [of "drop (length x - SignatureTrailerSize) x"]
      by (auto simp: splitSignatureTail_def Let_def verifyHoldSize_def split: if_splits option.splits)
  qed simp
qed

lemma VerifyArchive_reads:
  "VerifyArchive P S reads lastRead EOF s =
     (case splitSignatureTail (concat reads @ lastRead) of (proper, signature) \<Rightarrow>
        let n = length proper - FooterSize in
        if length proper < FooterSize then (Fail (fatal ErrCodeTruncated ''archive too small to contain a footer'' None), s)
        else verify_report P S (sha256 P (masked (take n proper))) (take HMACSize (drop n proper)) signature s)"
proof -
  let ?x = "concat reads @ lastRead"
  define k where "k = length ?x - verifyHoldSize"
  obtain proper signature where x: "splitSignatureTail ?x = (proper, signature)" by force
  note h = split_held [OF x k_def]
  have held: "foldl hold (NewArchiveChecksum, []) (reads @ [lastRead]) = (checksum_state (take k ?x), drop k ?x)"
    using hold_all [of "reads @ [lastRead]"] by (simp add: held_of_def k_def)
  have pre: "take k ?x = take k proper"
  proof (cases "k = 0")
    case False
    then have "k + FooterSize \<le> length proper" using h(2) by simp
    moreover note split_prefix [OF x]
    ultimately show ?thesis by (metis min.absorb1 add_leD1 take_take)
  qed simp
  let ?n = "length proper - FooterSize"
  have foot: "length (drop k proper) - FooterSize = ?n - k" by simp
  have split: "take k proper @ take (?n - k) (drop k proper) = take ?n proper" if "FooterSize \<le> length proper"
    using that h(2) take_add [of k "?n - k" proper] by (cases "k = 0") simp_all
  have small: "length (drop k proper) < FooterSize \<longleftrightarrow> length proper < FooterSize"
    using h(2) by auto
  have dr: "drop (?n - k) (drop k proper) = drop ?n proper" if "FooterSize \<le> length proper"
    using that h(2) by (auto simp: drop_drop)
  show ?thesis
    unfolding VerifyArchive_def held Let_def x prod.case h(1) small foot pre
    using ac_Sum_state [of P "take ?n proper" "[]"] split dr
    by (cases "length proper < FooterSize") (simp_all add: failS_def ac_Write_state del: drop_drop)
qed

text \<open>
  Verifying an archive does not depend on how the stream delivers it.  Whatever the sizes of
  the single reads are, \<^verbatim>\<open>VerifyArchive\<close>, which keeps only the end of the stream in memory, reports
  on the whole archive: the signature block is split off at the end, the checksum is the
  SHA-256 of everything before the footer (with an incremental session count masked), it is
  compared with the one in the footer, and the signature is checked against it.
\<close>

lemma verify_any_reads:
  "VerifyArchive P S reads lastRead EOF s =
     (case splitSignatureTail (concat reads @ lastRead) of (proper, signature) \<Rightarrow>
        let n = length proper - FooterSize in
        if length proper < FooterSize then (Fail (fatal ErrCodeTruncated ''archive too small to contain a footer'' None), s)
        else verify_report P S (sha256 P (masked (take n proper))) (take HMACSize (drop n proper)) signature s)"
  by (rule VerifyArchive_reads)

end
