(* ===== verification/Written_Archive.thy ===== *)
theory Written_Archive
  imports Archiver_Invariant Archive_Reading
begin

text \<open>
  The archives that the streaming archiver finishes: they open with each of their credentials,
  scanning them and reading their directory give the same listing, no input is lost, and
  they verify without a key.
\<close>

section \<open>The end of the archive\<close>

text \<open>The bytes of the directory entry and its locator, for a directory that was collected completely.\<close>

definition directory_bytes :: "prims \<Rightarrow> zstd \<Rightarrow> KeySchedule \<Rightarrow> directoryBuilder \<Rightarrow> nat \<Rightarrow> bytes \<Rightarrow> bool" where
  "directory_bytes P Z keys d off b \<longleftrightarrow>
     (if dd_full d then b = []
      else \<exists>en k. b = entry_bytes en @ AppendDirectoryLocator [] (word_of_nat off)
        \<and> fe_EntryType en = EntryTypeDirectory \<and> FileKey P keys (fe_EntrySalt en) = Ok k
        \<and> sealed_as P Z k (payload_metadata CodecNone (dd_plaintext d)) CodecNone (dd_plaintext d) (dd_plaintext d) en)"

lemma dir_write_bytes:
  assumes lib: "lib_ok P Z" and run: "dir_write P Z K s = (Val (), s')"
    and h: "aw_hasher (ss_w s) = checksum_state (aw_out (ss_w s))"
  shows "\<exists>b. directory_bytes P Z (aw_keys (ss_w s)) (ss_dir s) (aw_offset (ss_w s)) b
    \<and> aw_out (ss_w s') = aw_out (ss_w s) @ b \<and> aw_offset (ss_w s') = aw_offset (ss_w s) + length b
    \<and> aw_hasher (ss_w s') = checksum_state (aw_out (ss_w s')) \<and> ss_dir s' = ss_dir s \<and> ss_errors s' = ss_errors s"
proof (cases "dd_full (ss_dir s)")
  case True
  with run h show ?thesis
    by (intro exI [of _ "[]"]) (auto simp: dir_write_def withS_def returnS_def directory_bytes_def)
next
  case False
  let ?pt = "dd_plaintext (ss_dir s)" and ?off = "aw_offset (ss_w s)"
  obtain en aw rnd where en: "sealPayloadEntry P Z EntryTypeDirectory CodecNone ?pt ?pt (ss_w s, ss_rnd s) = (Val en, (aw, rnd))"
    and s': "s' = s\<lparr>ss_rnd := rnd, ss_w := put (AppendDirectoryLocator [] (word_of_nat ?off)) (put_entry_of en aw)\<rparr>"
    using run False
    by (auto simp: dir_write_def withS_def bindS_Val_conv onWriter_Val_conv writing_Val_conv Let_def WriteDirectoryLocator_def
        dest!: WriteFileEntry_Ok tee_Write_Ok)
  note e = sealPayloadEntry_sealed [OF lib en]
  let ?b = "entry_bytes en @ AppendDirectoryLocator [] (word_of_nat ?off)"
  have "directory_bytes P Z (aw_keys (ss_w s)) (ss_dir s) ?off ?b"
    using e False by (auto simp: directory_bytes_def)
  with e h show ?thesis
    by (intro exI [of _ ?b]) (simp add: s' put_entry_fields put_def ac_Write_state)
qed

text \<open>The signature block behind a footer with the checksum \<open>sum\<close>.\<close>

definition signature_bytes :: "prims \<Rightarrow> ('p, 's) ssh \<Rightarrow> 's option \<Rightarrow> bytes \<Rightarrow> bytes \<Rightarrow> bool" where
  "signature_bytes P S signer checksum b \<longleftrightarrow>
     (case signer of None \<Rightarrow> b = []
      | Some sg \<Rightarrow> \<exists>signature. SignMessage P S sg checksum = Ok signature \<and> AppendSignatureBlock [] signature = Ok b)"

text \<open>
  \<open>finished\<close>: the whole archive is the header, the entries, the directory, the end marker, the
  footer and the signature block.
\<close>

definition finished ::
  "prims \<Rightarrow> zstd \<Rightarrow> ('p, 's) ssh \<Rightarrow> 's option \<Rightarrow> bytes \<Rightarrow> KeySchedule \<Rightarrow> FileEntry list \<Rightarrow> directoryBuilder \<Rightarrow> bytes \<Rightarrow> bool" where
  "finished P Z S signer hdr keys ens d out \<longleftrightarrow>
     (\<exists>b block content. content = hdr @ concat (map entry_bytes ens) @ b @ [EntryTypeEnd]
        \<and> directory_bytes P Z keys d (length (hdr @ concat (map entry_bytes ens))) b
        \<and> signature_bytes P S signer (sha256 P (masked content)) block
        \<and> out = content @ sha256 P (masked content) @ replicate ReservedSize 0 @ block)"

lemma finishArchive_finished:
  assumes lib: "lib_ok P Z" and w: "written hdr keys ens (ss_w s)" and run: "finishArchive P Z K S signer s = (Val (), s')"
  shows "finished P Z S signer hdr keys ens (ss_dir s) (aw_out (ss_w s')) \<and> ss_dir s' = ss_dir s \<and> ss_errors s' = ss_errors s
    \<and> aw_offset (ss_w s) \<le> aw_offset (ss_w s')
    \<and> (\<exists>b. directory_bytes P Z keys (ss_dir s) (aw_offset (ss_w s)) b \<and> aw_offset (ss_w s') = Suc (aw_offset (ss_w s) + length b))"
proof -
  obtain s1 aw where d: "dir_write P Z K s = (Val (), s1)" and f: "WriteFooter P K (ss_w s1) = Ok aw"
    and r: "(case signer of None \<Rightarrow> returnS () | Some sg \<Rightarrow>
         bindS (withS (\<lambda>s. signatureBlock P S (aw_checksum (ss_w s)) sg)) (\<lambda>block.
         onWriter (writeS (writeFailed ''write signature'') (raw_Write K block)))) (s1\<lparr>ss_w := aw\<rparr>) = (Val (), s')"
    using run by (auto simp: finishArchive_def bindS_Val_conv onWriter_Val_conv writing_Val_conv)
  have ww: "aw_out (ss_w s) = hdr @ concat (map entry_bytes ens)" "aw_offset (ss_w s) = length (aw_out (ss_w s))"
      "aw_hasher (ss_w s) = checksum_state (aw_out (ss_w s))" "aw_keys (ss_w s) = keys"
    using w by (simp_all add: written_def)
  obtain b where b: "directory_bytes P Z keys (ss_dir s) (aw_offset (ss_w s)) b" "aw_out (ss_w s1) = aw_out (ss_w s) @ b"
      "aw_offset (ss_w s1) = aw_offset (ss_w s) + length b"
      "aw_hasher (ss_w s1) = checksum_state (aw_out (ss_w s1))" "ss_dir s1 = ss_dir s" "ss_errors s1 = ss_errors s"
    using dir_write_bytes [OF lib d ww(3)] ww(4) by auto
  let ?content = "aw_out (ss_w s1) @ [EntryTypeEnd]"
  let ?sum = "sha256 P (masked ?content)"
  have len: "length ?sum = HMACSize" using lib by (simp add: lib_ok_def digest_sizes_def HMACSize_def)
  obtain h where "ac_Sum P (ac_Write (aw_hasher (ss_w s1)) [EntryTypeEnd]) [] = (?sum, h)"
    using ac_Sum_state [of P ?content "[]"] unfolding b(4) ac_Write_state by (metis append_Nil prod.collapse)
  from WriteFooter_Ok [OF f this len] have aw: "aw_out aw = ?content @ ?sum @ replicate ReservedSize 0" "aw_checksum aw = ?sum"
    and off: "aw_offset aw = Suc (aw_offset (ss_w s1))" by simp_all
  have "\<exists>block. signature_bytes P S signer ?sum block \<and> aw_out (ss_w s') = aw_out aw @ block
      \<and> aw_offset (ss_w s') = aw_offset aw \<and> ss_dir s' = ss_dir s1 \<and> ss_errors s' = ss_errors s1"
  proof (cases signer)
    case None
    with r show ?thesis by (intro exI [of _ "[]"]) (auto simp: returnS_def signature_bytes_def)
  next
    case (Some sg)
    with r aw(2) show ?thesis
      by (auto simp: bindS_Val_conv withS_def signatureBlock_def callS_Val_conv onWriter_Val_conv writing_Val_conv
          raw_Write_def signature_bytes_def split: option.splits)
  qed
  then obtain block where "signature_bytes P S signer ?sum block" "aw_out (ss_w s') = aw_out aw @ block"
      "aw_offset (ss_w s') = aw_offset aw" "ss_dir s' = ss_dir s1" "ss_errors s' = ss_errors s1" by blast
  with b aw off ww show ?thesis
    unfolding finished_def by (intro conjI exI [of _ b] exI [of _ block] exI [of _ ?content]) auto
qed

section \<open>Splitting the signature off\<close>

lemma splitSignature_whole:
  "splitSignature (Stream x e) (length x) s = (case splitSignatureTail x of (p, sg) \<Rightarrow> (Val (length p, sg), s))"
proof (cases "length x < SignatureTrailerSize + FooterSize")
  case True
  then show ?thesis
    by (auto simp: splitSignature_def splitSignatureTail_def returnS_def Let_def split: option.split)
next
  case False
  then have "ReadAt (Stream x e) SignatureTrailerSize (length x - SignatureTrailerSize) = Inr (drop (length x - SignatureTrailerSize) x)"
    by (simp add: ReadAt_def)
  with False show ?thesis
    by (auto simp: splitSignature_def splitSignatureTail_def bindS_def orFail_def returnS_def Let_def ReadAt_def
        split: option.split)
qed

lemma footer_zero: "0 < ReservedSize" "replicate ReservedSize 0 = replicate (ReservedSize - 1) 0 @ [0 :: byte]"
  by (simp_all add: ReservedSize_def numeral_eq_Suc flip: replicate_append_same)

lemma split_finished:
  assumes "length checksum = HMACSize"
    and sg: "case signer of None \<Rightarrow> block = [] \<and> signature = None
      | Some k \<Rightarrow> \<exists>s. signature = Some s \<and> AppendSignatureBlock [] s = Ok block"
  shows "splitSignatureTail (content @ checksum @ replicate ReservedSize 0 @ block)
    = (content @ checksum @ replicate ReservedSize 0, signature)"
proof (cases signer)
  case None
  let ?x = "content @ checksum @ replicate ReservedSize 0"
  have "SignatureTrailerSize \<le> length ?x"
    using assms(1) by (simp add: SignatureTrailerSize_def signatureMagic_def HMACSize_def ReservedSize_def)
  then have "drop (length ?x - SignatureTrailerSize) ?x
      = drop (length ?x - SignatureTrailerSize) (content @ checksum @ replicate (ReservedSize - 1) 0) @ [0]"
    using footer_zero by (simp add: SignatureTrailerSize_def footer_zero(2))
  from this ParseSignatureTrailer_zero
  have "ParseSignatureTrailer (drop (length ?x - SignatureTrailerSize) ?x) = None" by metis
  with None sg show ?thesis by (simp add: splitSignatureTail_def)
next
  case (Some k)
  let ?dst = "content @ checksum @ replicate ReservedSize 0"
  obtain s where s: "signature = Some s" "AppendSignatureBlock [] s = Ok block" using sg Some by auto
  then have a: "AppendSignatureBlock ?dst s = Ok (?dst @ block)" by (auto simp: AppendSignatureBlock_def split: if_splits)
  note t = signature_trailer [OF a]
  have l: "length (?dst @ block) = length ?dst + length s + SignatureTrailerSize" "FooterSize \<le> length ?dst"
    using s assms(1) by (auto simp: AppendSignatureBlock_def SignatureTrailerSize_def FooterSize_def split: if_splits)
  have "splitSignatureTail (?dst @ block) = (?dst, Some s)"
    unfolding splitSignatureTail_def Let_def using t l by (simp del: append_assoc)
  with s show ?thesis by simp
qed

section \<open>Reading the directory\<close>

lemma limited_all:
  "length out + length (concat cs) \<le> limit \<Longrightarrow> sink_all (limited_sink limit) cs out = (None, out @ concat cs)"
  by (induction cs arbitrary: out) (auto simp: limited_sink_def)

lemma readPayloadBody_opens:
  assumes s: "sealed_as P Z k pm CodecNone payload payload en" and key: "FileKey P keys (fe_EntrySalt en) = Ok k"
    and lib: "lib_ok P Z" and v: "ks_version keys = Version2" and limit: "length payload \<le> limit"
  shows "readPayloadBody P Z keys limit what (Stream (fe_EntrySalt en @ fe_FrameHdr en @ metadata_bytes (fe_Metadata en)
      @ entry_body (fe_InterBlockPad en) (fe_DataBlocks en) (fe_Trailer en) @ r) e) = (Val payload, Stream r e)"
proof -
  obtain cs where cs: "concat cs = payload" "list_all2 (block_of P Z block_decoder \<lparr>em_key = k\<rparr> CodecNone) (fe_DataBlocks en) cs"
    and t: "trailer_of P \<lparr>em_key = k\<rparr> (fe_Trailer en) (ComputeHMAC P k payload) (word_of_nat (length payload))"
    and sz: "entry_sized en"
    using s by (auto simp: sealed_as_def)
  have pad: "length (fe_InterBlockPad en) < 2 ^ 32" using sz by (simp add: entry_sized_def)
  have kl: "length k = 32" by (rule FileKey_length [OF key])
  have nz: "CodecNone \<noteq> CodecZstd" by (simp add: CodecNone_def CodecZstd_def)
  have "list_all2 (block_of P Z \<lparr>bd_limit = 0, bd_window = 0\<rparr> \<lparr>em_key = k\<rparr> CodecNone) (fe_DataBlocks en) cs"
    using cs(2) by (rule list_all2_mono) (rule block_of_any_decoder [OF nz])
  note d = streamDataBlocks_opens [OF this kl, of "limited_sink limit" "[]"]
  have "sink_all (limited_sink limit) cs [] = (None, payload)" using limited_all [of "[]" cs limit] cs(1) limit by simp
  then have b: "readPayloadBlocks P Z k limit (Stream (concat (map block_bytes (fe_DataBlocks en)) @ sentinel @ r) e)
      = (Val payload, Stream r e)" for r e
    by (simp add: readPayloadBlocks_def d stream_error_def)
  have v1: "ks_version keys \<noteq> Version1" using v by (simp add: Version1_def Version2_def)
  note tr = readTrailer_opens [OF t HMAC_length [OF lib] kl v1]
  show ?thesis
    by (simp add: readPayloadBody_def fatalS_def catchS_def bindS_def readEntryHead_opens [OF s key] entry_body_split
        skipPadding_reads [OF pad] b tr verifyPlaintext_same returnS_def)
qed

lemma ParseDirectory_bytes:
  assumes "list_all dr_ok recs" and "length (directoryMagic @ concat (map dr_bytes recs)) \<le> MaxDirectorySize"
  shows "ParseDirectory (directoryMagic @ concat (map dr_bytes recs)) = Ok recs"
  using assms by (simp add: ParseDirectory_def has_prefix_def directory_loop_enc)

lemma DirectoryTail: "DirectoryTailSize = DirectoryLocatorSize + 1 + HMACSize + ReservedSize"
  by (simp add: DirectoryTailSize_def FooterSize_def)

text \<open>A directory entry at \<open>off\<close>, between the header and the tail, with its locator in the tail.\<close>

lemma readDirectory_reads:
  assumes split: "splitSignature ra len s = (Val (proper, sg), s)"
    and tail: "int proper - int DirectoryTailSize = int tail" "header_end h \<le> off" "off < tail" "tail < 2 ^ 63"
    and buf: "ReadAt ra DirectoryTailSize tail = Inr (AppendDirectoryLocator [] (word_of_nat off) @ EntryTypeEnd # r)"
    and sub: "entryReaderAt ra tail off = Stream (entry_bytes en) EOF"
    and en: "fe_EntryType en = EntryTypeDirectory" "FileKey P keys (fe_EntrySalt en) = Ok k"
      "sealed_as P Z k (payload_metadata CodecNone pt) CodecNone pt pt en"
    and lib: "lib_ok P Z" and v: "ks_version keys = Version2" and pt: "length pt \<le> MaxDirectorySize" "ParseDirectory pt = Ok recs"
    and recs: "list_all (\<lambda>r. header_end h \<le> unat (dr_Offset r) \<and> unat (dr_Offset r) < off) recs"
  shows "readDirectory P Z keys h ra len s = (Val (Some recs), s)"
proof -
  have w: "unat (word_of_nat off :: u64) = off" "unat (word_of_nat (header_end h) :: u64) = header_end h" "unat (word_of_nat tail :: u64) = tail"
    using tail(2-4) by (simp_all add: unat_of_nat)
  have range: "\<not> (word_of_nat off < (word_of_nat (header_end h) :: u64) \<or> word_of_int (int tail) \<le> (word_of_nat off :: u64))"
    unfolding of_int_of_nat_eq word_less_nat_alt word_le_nat_alt w using tail(2,3) by simp
  have rec: "\<not> (\<exists>r \<in> set recs. dr_Offset r < word_of_nat (header_end h) \<or> word_of_nat off \<le> dr_Offset r)"
    using recs w by (auto simp: list_all_iff word_less_nat_alt word_le_nat_alt)
  have loc: "length (AppendDirectoryLocator [] (word_of_nat off)) = DirectoryLocatorSize"
      "ParseDirectoryLocator (AppendDirectoryLocator [] (word_of_nat off)) = Ok (word_of_nat off)"
    using directory_locator_roundtrip by blast+
  have rd: "readS 1 e (Stream (entry_bytes en) EOF) = (Val [EntryTypeDirectory],
      Stream (fe_EntrySalt en @ fe_FrameHdr en @ metadata_bytes (fe_Metadata en)
        @ entry_body (fe_InterBlockPad en) (fe_DataBlocks en) (fe_Trailer en)) EOF)" for e
    using entry_split [of en "[]"] en(1) readS_append [of "[EntryTypeDirectory]" 1] by simp
  have pay: "fst (bindS (readS 1 e) (\<lambda>t. if t \<noteq> [EntryTypeDirectory] then failS e' else readPayloadBody P Z keys MaxDirectorySize ''directory'')
      (Stream (entry_bytes en) EOF)) = Val pt" for e e'
    using readPayloadBody_opens [OF en(3,2) lib v pt(1), of "''directory''" "[]" EOF] by (simp add: bindS_def rd [unfolded One_nat_def])
  have le: "\<not> int tail < int (header_end h)" using tail(2,3) by simp
  show ?thesis
    unfolding readDirectory_def Let_def bindS_def [of "splitSignature ra len"] split prod.case outcome.case tail(1) if_not_P [OF le] nat_int
    using range rec
    by (simp add: bindS_def [of "orFail _ _"] orFail_def buf loc nth_append w(1) sub subS_def bindS_def [of "subS _ _"] pay [unfolded One_nat_def]
        bindS_def [of "callS _ _"] callS_def pt(2) returnS_def)
qed

lemma readDirectory_finished:
  assumes fin: "finished P Z S signer hdr keys ens d out" and full: "\<not> dd_full d"
    and ok: "directory_ok (length hdr) (length (hdr @ concat (map entry_bytes ens))) d ls"
    and lib: "lib_ok P Z" and v: "ks_version keys = Version2" and len: "length out < 2 ^ 63" and h: "header_end h = length hdr"
  shows "\<exists>recs. readDirectory P Z keys h (Stream out EOF) (length out) s = (Val (Some recs), s) \<and> directoryListing recs = ls"
proof -
  let ?pre = "hdr @ concat (map entry_bytes ens)"
  let ?off = "length ?pre" and ?pt = "dd_plaintext d"
  let ?loc = "AppendDirectoryLocator [] (word_of_nat ?off)"
  obtain en k block content where en: "fe_EntryType en = EntryTypeDirectory" "FileKey P keys (fe_EntrySalt en) = Ok k"
      "sealed_as P Z k (payload_metadata CodecNone ?pt) CodecNone ?pt ?pt en"
    and c: "content = ?pre @ entry_bytes en @ ?loc @ [EntryTypeEnd]"
    and sb: "signature_bytes P S signer (sha256 P (masked content)) block"
    and out: "out = content @ sha256 P (masked content) @ replicate ReservedSize 0 @ block"
    using fin full by (auto simp: finished_def directory_bytes_def)
  define checksum where "checksum = sha256 P (masked content)"
  have cl: "length checksum = HMACSize" using lib by (simp add: checksum_def lib_ok_def digest_sizes_def HMACSize_def)
  obtain signature where "case signer of None \<Rightarrow> block = [] \<and> signature = None
      | Some k \<Rightarrow> \<exists>s. signature = Some s \<and> AppendSignatureBlock [] s = Ok block"
    using sb by (auto simp: signature_bytes_def split: option.splits)
  note sp = split_finished [OF cl this, of content]
  let ?proper = "content @ checksum @ replicate ReservedSize 0" and ?tail = "?off + length (entry_bytes en)"
  have ll: "length ?loc = DirectoryLocatorSize" using directory_locator_roundtrip by blast
  obtain recs where recs: "?pt = directoryMagic @ concat (map dr_bytes recs)" "length ?pt \<le> MaxDirectorySize" "list_all dr_ok recs"
      "directoryListing recs = ls" "list_all (\<lambda>r. length hdr \<le> unat (dr_Offset r) \<and> unat (dr_Offset r) < ?off) recs"
    using ok full by (auto simp: directory_ok_def)
  have "readDirectory P Z keys h (Stream out EOF) (length out) s = (Val (Some recs), s)"
  proof (rule readDirectory_reads [OF _ _ _ _ _ _ _ en lib v recs(2)])
    show "splitSignature (Stream out EOF) (length out) s = (Val (length ?proper, signature), s)"
      unfolding out checksum_def [symmetric] splitSignature_whole sp by simp
    show "int (length ?proper) - int DirectoryTailSize = int ?tail" using ll cl by (simp add: DirectoryTail c)
    show "header_end h \<le> ?off" "?off < ?tail" using h by (simp_all add: entry_bytes_def entry_head_def)
    show "?tail < 2 ^ 63" using len by (simp add: out c)
    show "ReadAt (Stream out EOF) DirectoryTailSize ?tail = Inr (?loc @ EntryTypeEnd # checksum @ replicate ReservedSize 0)"
      using ll cl by (simp add: ReadAt_def out DirectoryTail c checksum_def)
    show "entryReaderAt (Stream out EOF) ?tail ?off = Stream (entry_bytes en) EOF"
      by (simp add: entryReaderAt_def SectionReader_def out c)
    show "ParseDirectory ?pt = Ok recs" using ParseDirectory_bytes [OF recs(3)] recs(1,2) by simp
    show "list_all (\<lambda>r. header_end h \<le> unat (dr_Offset r) \<and> unat (dr_Offset r) < ?off) recs" using recs(5) h by simp
  qed
  with recs(4) show ?thesis by blast
qed

section \<open>A whole run\<close>

lemma scan_finished:
  assumes fin: "finished P Z S signer hdr keys ens d (hdr @ rest)" and items: "list_all2 (holds P Z keys) items ens"
    and lib: "lib_ok P Z" and v: "ks_version keys = Version2"
  shows "\<exists>foot. scanList P Z keys (Stream rest EOF) = ((listing items ens, Val ()), foot)"
proof -
  obtain b foot where b: "directory_bytes P Z keys d (length (hdr @ concat (map entry_bytes ens))) b"
    and rest: "rest = concat (map entry_bytes ens) @ b @ EntryTypeEnd # foot"
    using fin by (auto simp: finished_def)
  have "nextEntryType P keys (Stream (b @ EntryTypeEnd # foot) EOF) = nextEntryType P keys (Stream (EntryTypeEnd # foot) EOF)"
    using b v by (auto simp: directory_bytes_def nextEntryType_directory nextEntryType_locator split: if_splits)
  then have "scanList_from P Z keys rs (Stream (b @ EntryTypeEnd # foot) EOF) = ((rs, Val ()), Stream foot EOF)" for rs
    by (simp add: scanList_from.simps [of P Z keys rs] nextEntryType_end [OF v])
  with scan_items [OF items lib v, of "[]" "b @ EntryTypeEnd # foot" EOF] show ?thesis by (simp add: scanList_def rest)
qed

lemma newCredentialedWriter_Val:
  "newCredentialedWriter P A password cfg rnd = (Val aw, rnd') \<Longrightarrow>
   NewArchiveWriter P A (archiveCredentials password cfg) rnd = Ok (aw, rnd')"
  by (auto simp: newCredentialedWriter_def split: if_splits res.splits)

lemma NewStreamingArchiver_start:
  assumes "NewStreamingArchiver P A Z procs K password cfg rnd = (Val (s0, policy), rnd')"
  shows "\<exists>aw0 rnd1 aw. NewArchiveWriter P A (archiveCredentials password cfg) rnd = Ok (aw0, rnd1)
    \<and> WriteHeaderWithFlags P K 0 0 aw0 rnd1 = Ok (aw, rnd') \<and> s0 = newStreaming aw rnd'
    \<and> newCompressionPolicy Z procs (cf_compression cfg) = Ok policy"
proof -
  obtain aw where o: "openArchiveWriter P A Z procs K password cfg rnd = (Val (aw, policy), rnd')" and s0: "s0 = newStreaming aw rnd'"
    using assms by (auto simp: NewStreamingArchiver_def bindS_Val_conv)
  obtain pol aw0 rnd1 where p: "newCompressionPolicy Z procs (cf_compression cfg) = Ok pol"
    and n: "newCredentialedWriter P A password cfg rnd = (Val aw0, rnd1)"
    and w: "(case WriteHeader P K 0 aw0 rnd1 of Ok (aw, rnd) \<Rightarrow> (Val (aw, pol), rnd)
       | Err e \<Rightarrow> (Fail (writeFailed ''write header'' e), rnd1) | Panic \<Rightarrow> (Crash, rnd1)) = (Val (aw, policy), rnd')"
    using o unfolding openArchiveWriter_def bindS_Val_conv callS_Val_conv by blast
  from w have "WriteHeaderWithFlags P K 0 0 aw0 rnd1 = Ok (aw, rnd')" "pol = policy"
    by (cases "WriteHeader P K 0 aw0 rnd1"; auto simp: WriteHeader_def)+
  with p newCredentialedWriter_Val [OF n] s0 show ?thesis by blast
qed

definition empty_ledger :: ledger where
  "empty_ledger = \<lparr>lg_items = [], lg_entries = [], lg_archived = [], lg_failed = []\<rparr>"

lemma streaming_start:
  assumes "NewArchiveWriter P A creds rnd = Ok (aw0, rnd1)" and "WriteHeaderWithFlags P K n flags aw0 rnd1 = Ok (aw, rnd2)"
  shows "streaming_ok P Z fs (aw_out aw) (aw_keys aw) empty_ledger {#} (newStreaming aw rnd2)"
    and "ks_version (aw_keys aw) = Version2"
proof -
  obtain keys recipients where aw0: "aw0 = newArchiveWriter keys recipients NewArchiveChecksum 0" "ks_version keys = Version2"
    using assms(1) by (auto simp: NewArchiveWriter_def bindR_Ok_conv NewVersion2KeySchedule_def)
  obtain x where aw: "aw = put x aw0" using WriteHeader_Ok [OF assms(2)] by blast
  show "streaming_ok P Z fs (aw_out aw) (aw_keys aw) empty_ledger {#} (newStreaming aw rnd2)"
    by (simp add: streaming_ok_def session_ok_def newStreaming_def empty_ledger_def written_def accounts_def listing_def
        directory_ok_new aw aw0 put_def newArchiveWriter_def checksum_new ac_Write_state)
  show "ks_version (aw_keys aw) = Version2" using aw0 by (simp add: aw newArchiveWriter_def)
qed

lemma Finalize_ok:
  assumes env: "run_ok P Z fs policy" and ok: "streaming_ok P Z fs hdr keys L files s"
    and special: "list_all (\<lambda>f. \<not> in_regular f) (sa_special s)" and run: "Finalize P Z K fs lower policy S signer s = (Val (), s')"
  shows "\<exists>L' s1. session_ok P Z fs hdr keys L' (s1 :: StreamingArchiver) \<and> accounts L' = files + mset (sa_special s)
    \<and> finished P Z S signer hdr keys (lg_entries L') (ss_dir s1) (aw_out (ss_w s'))
    \<and> ss_dir s' = ss_dir s1 \<and> ss_errors s' = ss_errors s1"
proof -
  obtain s1 s2 where f: "flushSolid P Z K fs lower policy s = (Val (), s1)"
    and w: "writeSpecialEntries P K (sa_special s1) s1 = (Val (), s2)" and e: "finishArchive P Z K S signer s2 = (Val (), s')"
    using run by (auto simp: Finalize_def bindS_Val_conv withS_def)
  note lib = run_okD(1) [OF env]
  obtain L1 where L1: "streaming_ok P Z fs hdr keys L1 files s1" "sa_pending s1 = []" "sa_special s1 = sa_special s"
    using flushSolid_ok [OF env ok f] by blast
  have "session_ok P Z fs hdr keys L1 s1" using L1(1) by (simp add: streaming_ok_def)
  from writeSpecialEntries_ok [OF lib this _ w] special L1 obtain L2 where
    L2: "session_ok P Z fs hdr keys L2 s2" "accounts L2 = accounts L1 + mset (sa_special s)" by auto
  have "written hdr keys (lg_entries L2) (ss_w s2)" using L2(1) by (simp add: session_ok_def)
  from finishArchive_finished [OF lib this e] L1 L2 show ?thesis
    by (intro exI [of _ L2] exI [of _ s2]) (simp add: streaming_ok_def)
qed

lemma splitSpecial_mset: "splitSpecial entries = (files, special) \<Longrightarrow> mset files + mset special = mset entries
  \<and> list_all in_regular files \<and> list_all (\<lambda>f. \<not> in_regular f) special"
  using multiset_partition [of "mset entries" in_regular] by (auto simp: splitSpecial_def list_all_iff)

lemma run_finished:
  assumes lib: "lib_ok P Z" and fs: "os_ok fs" and z: "z_NewReader Z MaxSolidStreamSize MaxSolidStreamSize = Ok ()"
    and new: "NewStreamingArchiver P A Z procs K password cfg rnd = (Val (s0, policy), rnd0)"
    and add: "addWalked P Z K fs lower policy entries s0 = (Val (), s1)"
    and fin: "Finalize P Z K fs lower policy S signer s1 = (Val (), s2)"
  shows "\<exists>L s. session_ok P Z fs (aw_out (ss_w s0)) (aw_keys (ss_w s0)) L (s :: StreamingArchiver) \<and> accounts L = mset entries
    \<and> finished P Z S signer (aw_out (ss_w s0)) (aw_keys (ss_w s0)) (lg_entries L) (ss_dir s) (aw_out (ss_w s2))
    \<and> ss_dir s2 = ss_dir s \<and> ss_errors s2 = ss_errors s"
proof -
  obtain aw0 rnd1 aw where h: "NewArchiveWriter P A (archiveCredentials password cfg) rnd = Ok (aw0, rnd1)"
      "WriteHeaderWithFlags P K 0 0 aw0 rnd1 = Ok (aw, rnd0)" "s0 = newStreaming aw rnd0"
    and pol: "newCompressionPolicy Z procs (cf_compression cfg) = Ok policy"
    using NewStreamingArchiver_start [OF new] by blast
  have env: "run_ok P Z fs policy" using lib fs z newCompressionPolicy_ok [OF pol] by (simp add: run_ok_def)
  obtain files special where sp: "splitSpecial entries = (files, special)" by force
  note m = splitSpecial_mset [OF sp]
  have s0: "ss_w s0 = aw" "sa_special s0 = []" by (simp_all add: h(3) newStreaming_def)
  have "streaming_ok P Z fs (aw_out aw) (aw_keys aw) empty_ledger {#} (s0\<lparr>sa_special := special\<rparr>)"
    using streaming_start(1) [OF h(1,2), of Z fs] by (simp add: h(3) streaming_ok_def session_ok_def)
  moreover have "addInputs P Z K fs lower policy files (s0\<lparr>sa_special := special\<rparr>) = (Val (), s1)"
    using add by (simp add: addWalked_def sp bindS_def updateS_def s0)
  ultimately obtain L1 where L1: "streaming_ok P Z fs (aw_out aw) (aw_keys aw) L1 (mset files) s1" "sa_special s1 = special"
    using addInputs_ok [OF env, of "aw_out aw" "aw_keys aw" empty_ledger "{#}" "s0\<lparr>sa_special := special\<rparr>" files K lower s1] m by auto
  from Finalize_ok [OF env L1(1) _ fin] L1(2) m show ?thesis unfolding s0(1) by metis
qed

section \<open>What a finished archive holds\<close>

text \<open>
  C3: no input is lost.  When a streaming run over the walked \<open>entries\<close> ends without a fatal
  error, each of them is either stored in the archive or was reported as failed.  The archive
  opens with every credential it was written for; scanning it lists exactly the stored
  inputs, each with the name, the attributes and the size of the content that was read; and
  when the directory was kept, reading it at the end of the archive gives the same listing.
\<close>

theorem streamed_archive_lists:
  assumes lib: "lib_ok P Z" "wrap_laws P" "age_correct A m"
    and fs: "os_ok fs" and z: "z_NewReader Z MaxSolidStreamSize MaxSolidStreamSize = Ok ()"
    and new: "NewStreamingArchiver P A Z procs K password cfg rnd = (Val (s0, policy), rnd0)"
    and add: "addWalked P Z K fs lower policy entries s0 = (Val (), s1)"
    and fin: "Finalize P Z K fs lower policy S signer s1 = (Val (), s2)"
    and c: "c \<in> set (cred_list (archiveCredentials password cfg))" "opens m u c"
  shows "\<exists>keys h rest archived failed stored results foot.
    readHeader P A u (Stream (aw_out (ss_w s2)) EOF) = (Val (keys, h), Stream rest EOF)
    \<and> scanList P Z keys (Stream rest EOF) = ((results, Val ()), foot)
    \<and> mset archived + mset failed = mset entries \<and> map fst (ss_errors s2) = map in_path failed
    \<and> list_all2 (stored_file fs) archived stored \<and> list_all2 describes stored results
    \<and> (\<not> dd_full (ss_dir s2) \<and> length (aw_out (ss_w s2)) < 2 ^ 63 \<longrightarrow>
         (\<exists>recs. readDirectory P Z keys h (Stream (aw_out (ss_w s2)) EOF) (length (aw_out (ss_w s2))) t = (Val (Some recs), t)
           \<and> directoryListing recs = results))"
proof -
  obtain aw0 rnd1 aw where h: "NewArchiveWriter P A (archiveCredentials password cfg) rnd = Ok (aw0, rnd1)"
      "WriteHeaderWithFlags P K 0 0 aw0 rnd1 = Ok (aw, rnd0)" "s0 = newStreaming aw rnd0"
    using NewStreamingArchiver_start [OF new] by blast
  have s0: "ss_w s0 = aw" by (simp add: h(3) newStreaming_def)
  note start = streaming_start [OF h(1,2)]
  obtain L s where ok: "session_ok P Z fs (aw_out aw) (aw_keys aw) L (s :: StreamingArchiver)" "accounts L = mset entries"
    and f: "finished P Z S signer (aw_out aw) (aw_keys aw) (lg_entries L) (ss_dir s) (aw_out (ss_w s2))"
    and same: "ss_dir s2 = ss_dir s" "ss_errors s2 = ss_errors s"
    using run_finished [OF lib(1) fs z new add fin] unfolding s0 by blast
  obtain rest where out: "aw_out (ss_w s2) = aw_out aw @ rest" using f by (auto simp: finished_def)
  obtain hd where hd: "readHeader P A u (Stream (aw_out aw @ rest) EOF) = (Val (aw_keys aw, hd), Stream rest EOF)"
      "header_end hd = aw_offset aw"
    using header_opens [OF lib(2) _ lib(3) h(1,2) c, of rest EOF] lib(1) by (auto simp: lib_ok_def)
  have so: "written (aw_out aw) (aw_keys aw) (lg_entries L) (ss_w s)" "list_all2 (holds P Z (aw_keys aw)) (lg_items L) (lg_entries L)"
      "list_all2 (stored_file fs) (lg_archived L) (concat (map item_files (lg_items L)))" "map fst (ss_errors s) = map in_path (lg_failed L)"
      "aw_offset (ss_w s) < 2 ^ 63 \<Longrightarrow>
        directory_ok (length (aw_out aw)) (aw_offset (ss_w s)) (ss_dir s) (listing (lg_items L) (lg_entries L))"
    using ok(1) by (simp_all add: session_ok_def)
  have off: "aw_offset (ss_w s) = length (aw_out aw @ concat (map entry_bytes (lg_entries L)))" "header_end hd = length (aw_out aw)"
    using so(1) start(1) hd(2) by (simp_all add: written_def streaming_ok_def session_ok_def newStreaming_def empty_ledger_def)
  obtain foot where scan: "scanList P Z (aw_keys aw) (Stream rest EOF) = ((listing (lg_items L) (lg_entries L), Val ()), foot)"
    using scan_finished [OF f [unfolded out] so(2) lib(1) start(2)] by blast
  have dir: "\<exists>recs. readDirectory P Z (aw_keys aw) hd (Stream (aw_out (ss_w s2)) EOF) (length (aw_out (ss_w s2))) t = (Val (Some recs), t)
      \<and> directoryListing recs = listing (lg_items L) (lg_entries L)"
    if "\<not> dd_full (ss_dir s2)" and len: "length (aw_out (ss_w s2)) < 2 ^ 63"
  proof -
    have "aw_offset (ss_w s) < 2 ^ 63" using f len by (auto simp: off finished_def)
    from readDirectory_finished [OF f _ so(5) [OF this, unfolded off(1)] lib(1) start(2) len off(2)] that same show ?thesis by simp
  qed
  show ?thesis
    using hd(1) scan ok(2) so(3,4) listing_describes [OF so(2)] dir same
    unfolding out accounts_def by metis
qed

lemma signature_bytes_verify:
  assumes "ssh_correct S" and sb: "signature_bytes P S signer checksum block"
  shows "\<exists>signature. (case signer of None \<Rightarrow> block = [] \<and> signature = None
      | Some k \<Rightarrow> \<exists>s. signature = Some s \<and> AppendSignatureBlock [] s = Ok block)
    \<and> (\<forall>k. signer = Some k \<longrightarrow> (\<exists>b. signature = Some b \<and> VerifyMessage P S b checksum = Ok (sh_PublicKey S k)))"
proof (cases signer)
  case (Some k)
  with sb obtain b where "SignMessage P S k checksum = Ok b" "AppendSignatureBlock [] b = Ok block"
    by (auto simp: signature_bytes_def)
  with SignMessage_Ok [OF assms(1)] Some show ?thesis by (intro exI [of _ "Some b"]) auto
qed (use sb in \<open>auto simp: signature_bytes_def\<close>)

text \<open>
  C12: an archive that a streaming run finishes verifies without a key.  Whatever the sizes of
  the reads that deliver it, the checksum matches, and the archive counts as signed
  exactly when a signer was given, by that signer's key.
\<close>

theorem streamed_archive_verifies:
  assumes lib: "lib_ok P Z" "ssh_correct S"
    and fs: "os_ok fs" and z: "z_NewReader Z MaxSolidStreamSize MaxSolidStreamSize = Ok ()"
    and new: "NewStreamingArchiver P A Z procs K password cfg rnd = (Val (s0, policy), rnd0)"
    and add: "addWalked P Z K fs lower policy entries s0 = (Val (), s1)"
    and fin: "Finalize P Z K fs lower policy S signer s1 = (Val (), s2)"
    and reads: "concat reads @ lastRead = aw_out (ss_w s2)"
  shows "VerifyArchive P S reads lastRead EOF t =
    (Val \<lparr>vr_ChecksumOK = True, vr_Signed = (signer \<noteq> None), vr_Signer = map_option (sh_PublicKey S) signer,
       vr_SignatureErr = None\<rparr>, t)"
proof -
  obtain L :: ledger and s :: StreamingArchiver and block content where
    sb: "signature_bytes P S signer (sha256 P (masked content)) block"
    and out: "aw_out (ss_w s2) = content @ sha256 P (masked content) @ replicate ReservedSize 0 @ block"
    using run_finished [OF lib(1) fs z new add fin] by (auto simp: finished_def)
  define checksum where "checksum = sha256 P (masked content)"
  have cl: "length checksum = HMACSize" using lib by (simp add: checksum_def lib_ok_def digest_sizes_def HMACSize_def)
  obtain signature where sg: "case signer of None \<Rightarrow> block = [] \<and> signature = None
      | Some k \<Rightarrow> \<exists>s. signature = Some s \<and> AppendSignatureBlock [] s = Ok block"
    and v: "\<forall>k. signer = Some k \<longrightarrow> (\<exists>b. signature = Some b \<and> VerifyMessage P S b checksum = Ok (sh_PublicKey S k))"
    using signature_bytes_verify [OF lib(2) sb, folded checksum_def] by (elim exE conjE) (rule that)
  let ?proper = "content @ checksum @ replicate ReservedSize 0"
  have x: "splitSignatureTail (concat reads @ lastRead) = (?proper, signature)"
    unfolding reads out checksum_def [symmetric] using split_finished [OF cl sg, of content] by simp
  have "length ?proper - FooterSize = length content" "\<not> length ?proper < FooterSize"
    using cl by (simp_all add: FooterSize_def)
  then show ?thesis
    unfolding VerifyArchive_reads x prod.case Let_def using v cl checksum_def
    by (cases signer) (use sg in \<open>auto simp: verify_report_def returnS_def\<close>)
qed

end
