(* ===== verification/Extraction_Roundtrip.thy ===== *)
theory Extraction_Roundtrip
  imports Publication Written_Archive
begin

text \<open>
  Extracting what an archiver wrote, on an operating system that does what it is asked to: every
  stored file is published with its content and attributes, and every directory and link restored.
\<close>

section \<open>The calls that restore a file\<close>

text \<open>
  The operating system carries out the calls an extraction cannot do without.  Removing, looking up
  and changing attributes may fail.
\<close>

fun essential :: "call \<Rightarrow> bool" where
  "essential (Fsetxattr p n v) = False"
| "essential (Fchown p u g) = False"
| "essential (Fchmod p m) = False"
| "essential (Lchown p u g) = False"
| "essential (Chtimes p n) = False"
| "essential (Remove p) = False"
| "essential (Lstat p) = False"
| "essential c = True"

definition willing :: "world \<Rightarrow> bool" where
  "willing W \<longleftrightarrow> (\<forall>l c. essential c \<longrightarrow> wd_answer W l c = None)"

definition restored_mode :: "bool \<Rightarrow> u32 \<Rightarrow> u32" where
  "restored_mode own mode = fileMode (if own then mode else mode AND 0x1FF)"

definition attr_calls :: "bool \<Rightarrow> path \<Rightarrow> Attributes \<Rightarrow> call list" where
  "attr_calls own f a = map (\<lambda>x. Fsetxattr f (x_Name x) (x_Value x)) (a_Xattrs a)
     @ (case a_Owner a of Some w \<Rightarrow> if own then [Fchown f (o_UID w) (o_GID w)] else [] | None \<Rightarrow> [])
     @ [Fchmod f (restored_mode own (a_Mode a))]"

definition mtime_calls :: "path \<Rightarrow> Attributes \<Rightarrow> call list" where
  "mtime_calls local a = (if a_ModTime a = 0 then [] else [Chtimes local (a_ModTime a)])"

fun preparing :: "call \<Rightarrow> bool" where
  "preparing (MkdirOutput p) = True"
| "preparing (OpenRoot p) = True"
| "preparing (MkdirAll p) = True"
| "preparing (Lstat p) = True"
| "preparing (Remove p) = True"
| "preparing c = False"

text \<open>
  The calls that restore one file: after preparations, a regular file is written to a new temporary
  file, given its attributes and renamed; a directory or link is created.
\<close>

definition restores :: "bool \<Rightarrow> bytes \<times> Attributes \<times> bytes \<Rightarrow> call list \<Rightarrow> bool" where
  "restores own = (\<lambda>(name, a, content) cs. \<exists>pre. list_all preparing pre \<and>
     (if a_Kind a = KindDirectory then cs = pre @ [MkdirAll name]
      else if a_Kind a = KindSymlink then cs = pre @ [Symlink (a_LinkTarget a) name]
        @ (case a_Owner a of Some w \<Rightarrow> if own then [Lchown name (o_UID w) (o_GID w)] else [] | None \<Rightarrow> [])
      else if a_Kind a = KindHardlink then cs = pre @ [Link (a_LinkTarget a) name]
      else \<exists>tmp ws. concat ws = content \<and>
        cs = pre @ [CreateExcl tmp] @ map (WriteTo tmp) ws @ attr_calls own tmp a @ [CloseAt tmp, Rename tmp name]
          @ mtime_calls name a))"

definition calls :: "outputTree \<Rightarrow> call list" where "calls t = map fst (ot_log t)"

text \<open>A step of the tree that makes the given calls and changes nothing else but warnings and the root.\<close>

definition does :: "call list \<Rightarrow> outputTree \<Rightarrow> outputTree \<Rightarrow> bool" where
  "does cs t t' \<longleftrightarrow> calls t' = calls t @ cs \<and> ot_restoreOwner t' = ot_restoreOwner t \<and> ot_dirs t' = ot_dirs t
     \<and> ot_rnd t' = ot_rnd t \<and> (ot_root t \<longrightarrow> ot_root t')"

lemma does_refl [simp]: "does [] t t"
  by (simp add: does_def)

lemma does_trans: "does cs t t' \<Longrightarrow> does ds t' t'' \<Longrightarrow> does (cs @ ds) t t''"
  by (simp add: does_def)

lemma does_root: "does cs t t' \<Longrightarrow> ot_root t \<Longrightarrow> ot_root t'"
  by (simp add: does_def)

lemma sys_does: "sys W c t = (a, t') \<Longrightarrow> does [c] t t'"
  by (auto simp: sys_def Let_def does_def calls_def)

lemma sys_willing: "willing W \<Longrightarrow> essential c \<Longrightarrow> \<exists>t'. sys W c t = (None, t') \<and> does [c] t t'"
  by (auto simp: sys_def Let_def does_def calls_def willing_def)

lemma sysDrop_does: "does [c] t (sysDrop W c t)"
  unfolding sysDrop_def by (metis prod.collapse sys_does)

lemma warn_does: "does [] t (warnFile local m t)" "does [] t (warnOnce m t)"
  by (simp_all add: does_def warnFile_def warnOnce_def calls_def)

lemma sys_warn_does: "does [c] t (sys_warn W c local m t)"
proof -
  obtain a t1 where s: "sys W c t = (a, t1)" by force
  show ?thesis
    using sys_does [OF s] does_trans [OF sys_does [OF s] warn_does(1)]
    by (auto simp: sys_warn_def s split: option.splits)
qed

lemma writeXattrs_does:
  "writeXattrs W f xs t = (n, t') \<Longrightarrow> does (map (\<lambda>x. Fsetxattr f (x_Name x) (x_Value x)) xs) t t'"
proof (induction xs arbitrary: t n)
  case (Cons x xs)
  obtain err t1 where s: "sys W (Fsetxattr f (x_Name x) (x_Value x)) t = (err, t1)" by force
  obtain k t2 where w: "writeXattrs W f xs t1 = (k, t2)" by force
  have "t' = t2" using Cons.prems by (simp add: s w)
  with does_trans [OF sys_does [OF s] Cons.IH [of t1 k]] w show ?case by simp
qed simp

lemma restoreOwnership_does:
  "does (case owner of Some w \<Rightarrow> if ot_restoreOwner t then [chown (o_UID w) (o_GID w)] else [] | None \<Rightarrow> []) t
     (restoreOwnership W owner chown t)"
proof (cases owner)
  case (Some w)
  obtain a t1 where s: "sys W (chown (o_UID w) (o_GID w)) t = (a, t1)" by force
  show ?thesis
    using does_trans [OF sys_does [OF s] warn_does(2)] sys_does [OF s]
    by (auto simp: restoreOwnership_def Some s warn_does split: option.splits)
qed (simp add: restoreOwnership_def)

lemma mode_low: "(m AND 0x1FF) AND 0x1FF = m AND (0x1FF :: u32)"
  by (simp add: and.assoc)

lemma ot_mode_does: "ot_mode m t = (m', t') \<Longrightarrow> does [] t t' \<and> m' = restored_mode (ot_restoreOwner t) m"
proof -
  assume a: "ot_mode m t = (m', t')"
  have "fileMode m = fileMode (m AND 0x1FF)" if "m AND 0xE00 = 0"
  proof -
    have "m AND 0x800 = (m AND 0xE00) AND 0x800" "m AND 0x400 = (m AND 0xE00) AND 0x400" "m AND 0x200 = (m AND 0xE00) AND 0x200"
      by (simp_all add: and.assoc)
    then show ?thesis using that by (simp add: fileMode_def Let_def and.assoc)
  qed
  with a show ?thesis by (auto simp: ot_mode_def restored_mode_def warn_does split: if_splits)
qed

lemma applyAttributes_does: "does (attr_calls (ot_restoreOwner t) f a) t (applyAttributes W f local (Some a) perm t)"
proof -
  obtain n t1 where x: "writeXattrs W f (a_Xattrs a) t = (n, t1)" by force
  define t2 where "t2 = (if 0 < n then warnFile local ''extended attribute(s) not restored'' t1 else t1)"
  define t3 where "t3 = restoreOwnership W (a_Owner a) (Fchown f) t2"
  obtain m t4 where mo: "ot_mode (a_Mode a) t3 = (m, t4)" by force
  have 1: "does (map (\<lambda>x. Fsetxattr f (x_Name x) (x_Value x)) (a_Xattrs a)) t t2"
    using does_trans [OF writeXattrs_does [OF x], of "[]" t2] by (simp add: t2_def warn_does)
  have own2: "ot_restoreOwner t2 = ot_restoreOwner t" using 1 by (simp add: does_def)
  note 2 = restoreOwnership_does [where owner = "a_Owner a" and t = t2 and chown = "Fchown f" and W = W, folded t3_def,
      unfolded own2]
  note 3 = ot_mode_does [OF mo]
  have own: "ot_restoreOwner t3 = ot_restoreOwner t" using 2 own2 by (simp add: does_def)
  have "does (attr_calls (ot_restoreOwner t) f a) t (sys_warn W (Fchmod f m) local ''permissions not restored'' t4)"
    using does_trans [OF does_trans [OF does_trans [OF 1 2] conjunct1 [OF 3]] sys_warn_does [of "Fchmod f m" t4 W local]] 3 own
    by (simp add: attr_calls_def)
  then show ?thesis by (simp add: applyAttributes_def x t2_def [symmetric] t3_def [symmetric] mo)
qed

lemma setModTime_does: "does (mtime_calls local a) t (setModTime W local (a_ModTime a) t)"
  by (simp add: mtime_calls_def setModTime_def sys_warn_does)

section \<open>Regular files\<close>

lemma ot_open_willing: "willing W \<Longrightarrow> \<exists>pre t'. ot_open W t = (Val (), t') \<and> does pre t t' \<and> list_all preparing pre \<and> ot_root t'"
proof (cases "ot_root t")
  case False
  assume w: "willing W"
  obtain t1 where 1: "sys W (MkdirOutput (ot_dir t)) t = (None, t1)" "does [MkdirOutput (ot_dir t)] t t1"
    using sys_willing [OF w, of "MkdirOutput (ot_dir t)"] by auto
  obtain t2 where 2: "sys W (OpenRoot (ot_dir t)) t1 = (None, t2)" "does [OpenRoot (ot_dir t)] t1 t2"
    using sys_willing [OF w, of "OpenRoot (ot_dir t)"] by auto
  have "does [] t2 (t2\<lparr>ot_root := True\<rparr>)" by (simp add: does_def calls_def)
  with does_trans [OF 1(2) 2(2)] have "does [MkdirOutput (ot_dir t), OpenRoot (ot_dir t)] t (t2\<lparr>ot_root := True\<rparr>)"
    by (simp add: does_def calls_def)
  then show ?thesis
    using False
    by (intro exI [of _ "[MkdirOutput (ot_dir t), OpenRoot (ot_dir t)]"] exI [of _ "t2\<lparr>ot_root := True\<rparr>"])
      (simp add: ot_open_def bindS_def sysS_def 1 2)
qed (auto simp: ot_open_def intro!: exI [of _ "[]"])

lemma prepare_willing:
  assumes "willing W" and "ValidEntryName name"
  shows "\<exists>pre t'. prepare W name t = (Val name, t') \<and> does pre t t' \<and> list_all preparing pre \<and> ot_root t'"
proof -
  obtain pre t1 where o: "ot_open W t = (Val (), t1)" "does pre t t1" "list_all preparing pre" "ot_root t1"
    using ot_open_willing [OF assms(1)] by blast
  obtain t2 where m: "sys W (MkdirAll (parentDir name)) t1 = (None, t2)" "does [MkdirAll (parentDir name)] t1 t2"
    using sys_willing [OF assms(1), of "MkdirAll (parentDir name)"] by auto
  show ?thesis
  proof (cases "parentDir name = [dot]")
    case True
    then show ?thesis using o assms(2)
      by (intro exI [of _ pre] exI [of _ t1]) (simp add: prepare_def localName_eq bindS_def returnS_def)
  next
    case False
    then show ?thesis using o m assms(2) does_trans [OF o(2) m(2)]
      by (intro exI [of _ "pre @ [MkdirAll (parentDir name)]"] exI [of _ t2])
        (auto simp: prepare_def localName_eq bindS_def returnS_def sysS_def does_def)
  qed
qed

lemma createTemp_willing:
  assumes w: "willing W" and n: "ValidEntryName name" and r: "8 \<le> length (ot_rnd t)"
  shows "\<exists>pre tmp t1. createTemp W name t = (Val (tmp, name), t1) \<and> list_all preparing pre
    \<and> does (pre @ [CreateExcl tmp]) (t\<lparr>ot_rnd := drop 8 (ot_rnd t)\<rparr>) t1 \<and> ot_root t1"
proof -
  obtain pre t1 where p: "prepare W name t = (Val name, t1)" "does pre t t1" "list_all preparing pre" "ot_root t1"
    using prepare_willing [OF w n] by blast
  have "ot_rnd t1 = take 8 (ot_rnd t) @ drop 8 (ot_rnd t)" using p(2) by (simp add: does_def)
  then have rf: "ReadFull 8 (ot_rnd t1) = Ok (take 8 (ot_rnd t), drop 8 (ot_rnd t))" using r by (simp only: ReadFull_append length_take)
  let ?tmp = "tempName (parentDir name) (take 8 (ot_rnd t))"
  obtain t2 where c: "sys W (CreateExcl ?tmp) (t1\<lparr>ot_rnd := drop 8 (ot_rnd t)\<rparr>) = (None, t2)"
      "does [CreateExcl ?tmp] (t1\<lparr>ot_rnd := drop 8 (ot_rnd t)\<rparr>) t2"
    using sys_willing [OF w, of "CreateExcl ?tmp"] by auto
  have "does pre (t\<lparr>ot_rnd := drop 8 (ot_rnd t)\<rparr>) (t1\<lparr>ot_rnd := drop 8 (ot_rnd t)\<rparr>)" using p(2) by (simp add: does_def calls_def)
  note d = does_trans [OF this c(2)]
  have "ot_root t2" using c(2) p(4) by (simp add: does_def)
  moreover have "create_attempts W (parentDir name) tempNameAttempts t1 = (Val ?tmp, t2)"
  proof -
    have "create_attempts W (parentDir name) (Suc 7) t1 = (Val ?tmp, t2)"
      by (subst create_attempts.simps(2)) (simp add: rf c(1) Let_def)
    then show ?thesis by (simp add: tempNameAttempts_def)
  qed
  ultimately show ?thesis
    using d p(1,3) by (intro exI [of _ pre] exI [of _ ?tmp] exI [of _ t2]) (simp add: createTemp_def bindS_def returnS_def)
qed

lemma publish_willing:
  assumes w: "willing W"
  shows "\<exists>t'. publish W tmp name (Some a) perm t = (None, t')
    \<and> does (attr_calls (ot_restoreOwner t) tmp a @ [CloseAt tmp, Rename tmp name] @ mtime_calls name a) t t'"
proof -
  let ?t = "applyAttributes W tmp name (Some a) perm t"
  obtain t1 where 1: "sys W (CloseAt tmp) ?t = (None, t1)" "does [CloseAt tmp] ?t t1" using sys_willing [OF w, of "CloseAt tmp"] by auto
  obtain t2 where 2: "sys W (Rename tmp name) t1 = (None, t2)" "does [Rename tmp name] t1 t2"
    using sys_willing [OF w, of "Rename tmp name"] by auto
  from does_trans [OF does_trans [OF does_trans [OF applyAttributes_does [of t tmp a W name perm] 1(2)] 2(2)] setModTime_does [of name a t2 W]]
  show ?thesis by (simp add: publish_def 1(1) 2(1))
qed

text \<open>What is written to a verified file, when every write succeeds.\<close>

definition writing :: "path \<Rightarrow> bytes list \<Rightarrow> outputTree \<Rightarrow> verifiedFile \<times> outputTree \<Rightarrow> bool" where
  "writing tmp ws t0 = (\<lambda>(v, t). does (map (WriteTo tmp) ws) t0 t \<and> vf_tmp v = tmp \<and> vf_err v = None \<and> \<not> vf_published v)"

lemma vf_put_willing:
  assumes "willing W" and "writing tmp ws t0 (v, t)" and "vf_put W d (v, t) = (v', t')"
  shows "writing tmp (ws @ [d]) t0 (v', t') \<and> v' = v\<lparr>vf_buf := []\<rparr>"
proof -
  obtain t1 where s: "sys W (WriteTo tmp d) t = (None, t1)" "does [WriteTo tmp d] t t1"
    using sys_willing [OF assms(1), of "WriteTo tmp d"] by auto
  have "does (map (WriteTo tmp) (ws @ [d])) t0 t1" using assms(2) does_trans [OF _ s(2)] by (simp add: writing_def)
  with assms(2,3) s(1) show ?thesis by (auto simp: vf_put_def writing_def)
qed

lemma bufio_Write_willing:
  assumes "willing W"
  shows "writing tmp ws t0 (v, t) \<Longrightarrow> bufio_Write W p (v, t) = (e, v', t') \<Longrightarrow>
    \<exists>ws'. writing tmp ws' t0 (v', t') \<and> e = None \<and> (\<exists>b. v' = v\<lparr>vf_buf := b\<rparr> \<and> concat ws' @ b = concat ws @ vf_buf v @ p)"
  using assms
proof (induction W p "(v, t)" arbitrary: v t ws rule: bufio_Write.induct)
  case (1 W p v t)
  let ?free = "verifiedFileBufferSize - length (vf_buf v)"
  have ne: "vf_err v = None" using "1.prems"(1) by (simp add: writing_def)
  consider "length p \<le> ?free" | "\<not> length p \<le> ?free" "vf_buf v = []" | "\<not> length p \<le> ?free" "vf_buf v \<noteq> []" by blast
  then show ?case
  proof cases
    case 1
    then have "e = None \<and> v' = v\<lparr>vf_buf := vf_buf v @ p\<rparr> \<and> t' = t" using "1.prems"(2) ne by (auto simp: bufio_Write.simps [of W p v t])
    with "1.prems"(1) show ?thesis by (intro exI [of _ ws]) (auto simp: writing_def)
  next
    case 2
    obtain v1 t1 where u: "vf_put W p (v, t) = (v1, t1)" by force
    note w = vf_put_willing [OF "1.prems"(3,1) u]
    have "bufio_Write W [] (v1, t1) = (e, v', t')" using "1.prems"(2) ne 2 u by (simp add: bufio_Write.simps [of W p v t] Let_def)
    from "1.hyps"(1) [OF refl _ 2(2) u conjunct1 [OF w] this "1.prems"(3)] 2 ne w show ?thesis by auto
  next
    case 3
    obtain v1 t1 where u: "vf_put W (vf_buf v @ take ?free p) (v, t) = (v1, t1)" by force
    note w = vf_put_willing [OF "1.prems"(3,1) u]
    have "bufio_Write W (drop ?free p) (v1, t1) = (e, v', t')" using "1.prems"(2) ne 3 u by (simp add: bufio_Write.simps [of W p v t] Let_def)
    from "1.hyps"(2) [OF refl _ 3(2) u conjunct1 [OF w] this "1.prems"(3)] 3 ne w show ?thesis by auto
  qed
qed

definition collecting :: "path \<Rightarrow> bytes \<Rightarrow> bytes list \<Rightarrow> outputTree \<Rightarrow> bytes \<Rightarrow> verifiedFile \<times> outputTree \<Rightarrow> bool" where
  "collecting tmp name ws t0 x = (\<lambda>(v, t). writing tmp ws t0 (v, t) \<and> vf_local v = name \<and> vf_mac v = x
     \<and> vf_size v = length x \<and> concat ws @ vf_buf v = x)"

lemma sink_all_willing:
  assumes w: "willing W" and "collecting tmp name ws t0 x k"
  shows "\<exists>ws' k'. sink_all (vf_write W) cs k = (None, k') \<and> collecting tmp name ws' t0 (x @ concat cs) k'"
  using assms(2)
proof (induction cs arbitrary: ws x k)
  case (Cons c cs)
  obtain v t where k: "k = (v, t)" by force
  let ?v = "v\<lparr>vf_mac := vf_mac v @ c, vf_size := vf_size v + length c\<rparr>"
  obtain e v' t' where b: "bufio_Write W c (?v, t) = (e, v', t')" by (metis prod_cases3)
  have "writing tmp ws t0 (?v, t)" using Cons.prems by (simp add: collecting_def k writing_def)
  from bufio_Write_willing [OF w this b] obtain ws' bf where ws': "writing tmp ws' t0 (v', t')" "e = None"
      "v' = ?v\<lparr>vf_buf := bf\<rparr>" "concat ws' @ bf = concat ws @ vf_buf v @ c" by auto
  have "collecting tmp name ws' t0 (x @ c) (v', t')"
    using Cons.prems ws' by (auto simp: collecting_def k)
  from Cons.IH [OF this] show ?case using b ws'(2) by (auto simp: k vf_write_def)
qed (auto intro: exI [of _ ws])

lemma vf_publish_willing:
  assumes w: "willing W" and c: "collecting tmp name ws t0 x (v, t)"
  shows "\<exists>ws' v' t'. vf_publish W (Some a) perm (v, t) = (None, v', t') \<and> concat ws' = x \<and> vf_published v' \<and> vf_size v' = length x
    \<and> does (map (WriteTo tmp) ws' @ attr_calls (ot_restoreOwner t0) tmp a @ [CloseAt tmp, Rename tmp name] @ mtime_calls name a) t0 t'"
proof -
  obtain v1 t1 where f: "bufio_Flush W (v, t) = (v1, t1)" by force
  have wr: "writing tmp ws t0 (v, t)" "vf_local v = name" "vf_size v = length x" "concat ws @ vf_buf v = x"
    using c by (simp_all add: collecting_def)
  have "\<exists>ws'. writing tmp ws' t0 (v1, t1) \<and> concat ws' = x \<and> vf_local v1 = name \<and> vf_size v1 = length x"
  proof (cases "vf_buf v = []")
    case True
    with f wr show ?thesis by (auto simp: bufio_Flush_def)
  next
    case False
    then have "vf_put W (vf_buf v) (v, t) = (v1, t1)" using f wr(1) by (simp add: bufio_Flush_def writing_def)
    from vf_put_willing [OF w wr(1) this] wr show ?thesis by (intro exI [of _ "ws @ [vf_buf v]"]) auto
  qed
  then obtain ws' where ws': "writing tmp ws' t0 (v1, t1)" "concat ws' = x" "vf_local v1 = name" "vf_size v1 = length x" by blast
  then have v1: "vf_err v1 = None" "vf_tmp v1 = tmp" "does (map (WriteTo tmp) ws') t0 t1" by (simp_all add: writing_def)
  obtain t2 where p: "publish W tmp name (Some a) perm t1 = (None, t2)"
      "does (attr_calls (ot_restoreOwner t1) tmp a @ [CloseAt tmp, Rename tmp name] @ mtime_calls name a) t1 t2"
    using publish_willing [OF w] by blast
  have "ot_restoreOwner t1 = ot_restoreOwner t0" using v1(3) by (simp add: does_def)
  with does_trans [OF v1(3) p(2)] ws'(2-4) v1(1,2) p(1) show ?thesis
    by (intro exI [of _ ws'] exI [of _ "v1\<lparr>vf_published := True\<rparr>"] exI [of _ t2]) (simp add: vf_publish_def f)
qed

section \<open>Entries\<close>

definition regular_files :: "(bytes \<times> Attributes \<times> bytes) list \<Rightarrow> (bytes \<times> Attributes \<times> bytes) list" where
  "regular_files = filter (\<lambda>(name, a, c). a_Kind a = KindRegular)"

definition directories :: "(bytes \<times> Attributes \<times> bytes) list \<Rightarrow> (path \<times> Attributes) list" where
  "directories fs = map (\<lambda>(name, a, c). (name, a)) (filter (\<lambda>(name, a, c). a_Kind a = KindDirectory) fs)"

definition extracts :: "(bytes \<times> Attributes \<times> bytes) list \<Rightarrow> outputTree \<Rightarrow> outputTree \<Rightarrow> bool" where
  "extracts fs t t' \<longleftrightarrow> (\<exists>segs. list_all2 (restores (ot_restoreOwner t)) fs segs \<and> calls t' = calls t @ concat segs)
     \<and> ot_restoreOwner t' = ot_restoreOwner t \<and> ot_dirs t' = ot_dirs t @ directories fs
     \<and> ot_rnd t' = drop (8 * length (regular_files fs)) (ot_rnd t) \<and> (ot_root t \<or> fs \<noteq> [] \<longrightarrow> ot_root t')"

lemma extracts_Nil [simp]: "extracts [] t t"
  by (simp add: extracts_def directories_def regular_files_def)

lemma extracts_append: "extracts fs t t' \<Longrightarrow> extracts gs t' t'' \<Longrightarrow> extracts (fs @ gs) t t''"
proof -
  assume a: "extracts fs t t'" "extracts gs t' t''"
  obtain xs where x: "list_all2 (restores (ot_restoreOwner t)) fs xs" "calls t' = calls t @ concat xs" using a(1) by (auto simp: extracts_def)
  obtain ys where y: "list_all2 (restores (ot_restoreOwner t')) gs ys" "calls t'' = calls t' @ concat ys" using a(2) by (auto simp: extracts_def)
  have o: "ot_restoreOwner t' = ot_restoreOwner t" using a(1) by (simp add: extracts_def)
  have "list_all2 (restores (ot_restoreOwner t)) (fs @ gs) (xs @ ys)" "calls t'' = calls t @ concat (xs @ ys)"
    using x y by (simp_all add: o list_all2_appendI)
  then have "\<exists>segs. list_all2 (restores (ot_restoreOwner t)) (fs @ gs) segs \<and> calls t'' = calls t @ concat segs" by blast
  with a show ?thesis by (auto simp: extracts_def directories_def regular_files_def algebra_simps)
qed

definition file_fine :: "bytes \<times> Attributes \<times> bytes \<Rightarrow> bool" where
  "file_fine = (\<lambda>(name, a, c). ValidEntryName name \<and> validate a = None \<and> (a_Kind a \<noteq> KindRegular \<longrightarrow> c = []))"

definition results_of :: "(bytes \<times> Attributes \<times> bytes) list \<Rightarrow> ExtractionResult list" where
  "results_of = map (\<lambda>(name, a, c). extracted name (length c))"

text \<open>One regular file: a segment of calls that ends in its publication.\<close>

lemma regular_extracts:
  assumes pre: "list_all preparing pre" and create: "does (pre @ [CreateExcl tmp]) (t\<lparr>ot_rnd := drop 8 (ot_rnd t)\<rparr>) t1" and root: "ot_root t1"
    and ws: "concat ws = content"
    and rest: "does (map (WriteTo tmp) ws @ attr_calls (ot_restoreOwner t) tmp a @ [CloseAt tmp, Rename tmp name] @ mtime_calls name a) t1 t2"
    and kind: "a_Kind a = KindRegular"
  shows "extracts [(name, a, content)] t t2"
proof -
  let ?seg = "pre @ [CreateExcl tmp] @ map (WriteTo tmp) ws @ attr_calls (ot_restoreOwner t) tmp a @ [CloseAt tmp, Rename tmp name] @ mtime_calls name a"
  have "does ?seg (t\<lparr>ot_rnd := drop 8 (ot_rnd t)\<rparr>) t2" using does_trans [OF create rest] by simp
  moreover have "restores (ot_restoreOwner t) (name, a, content) ?seg"
    using pre ws kind by (auto simp: restores_def kind_defs intro!: exI [of _ pre] exI [of _ tmp] exI [of _ ws])
  ultimately show ?thesis
    using kind root rest
    by (auto simp: extracts_def does_def calls_def directories_def regular_files_def kind_defs intro!: exI [of _ "[?seg]"])
qed

lemma writeFile_willing:
  assumes w: "willing W" and n: "ValidEntryName name" and r: "8 \<le> length (ot_rnd t)" and k: "a_Kind a = KindRegular"
  shows "\<exists>t'. writeFile W name x (Some a) t = (Val (), t') \<and> extracts [(name, a, x)] t t'"
proof -
  obtain pre tmp t1 where c: "createTemp W name t = (Val (tmp, name), t1)" "list_all preparing pre"
      "does (pre @ [CreateExcl tmp]) (t\<lparr>ot_rnd := drop 8 (ot_rnd t)\<rparr>) t1" "ot_root t1"
    using createTemp_willing [OF w n r] by blast
  obtain t2 where s: "sys W (WriteTo tmp x) t1 = (None, t2)" "does [WriteTo tmp x] t1 t2"
    using sys_willing [OF w, of "WriteTo tmp x"] by auto
  obtain t3 where p: "publish W tmp name (Some a) 0x1A4 t2 = (None, t3)"
      "does (attr_calls (ot_restoreOwner t2) tmp a @ [CloseAt tmp, Rename tmp name] @ mtime_calls name a) t2 t3"
    using publish_willing [OF w] by blast
  have "ot_restoreOwner t2 = ot_restoreOwner t" using c(3) s(2) by (simp add: does_def)
  with does_trans [OF s(2) p(2)]
  have "does (map (WriteTo tmp) [x] @ attr_calls (ot_restoreOwner t) tmp a @ [CloseAt tmp, Rename tmp name] @ mtime_calls name a) t1 t3"
    by simp
  from regular_extracts [OF c(2-4) _ this k] c(1) s(1) p(1) show ?thesis
    by (intro exI [of _ t3]) (simp add: writeFile_def bindS_def)
qed

lemma removeExisting_does: "\<exists>pre. does pre t (removeExisting W local t) \<and> list_all preparing pre"
proof -
  obtain a t1 where l: "sys W (Lstat local) t = (a, t1)" by force
  note 1 = sys_does [OF l]
  note 2 = does_trans [OF 1 sysDrop_does [of "Remove local" t1 W]]
  have "removeExisting W local t = t1 \<or> removeExisting W local t = sysDrop W (Remove local) t1"
    by (auto simp: removeExisting_def l Let_def split: option.splits)
  then show ?thesis
  proof
    assume "removeExisting W local t = t1"
    with 1 show ?thesis by (intro exI [of _ "[Lstat local]"]) simp
  next
    assume "removeExisting W local t = sysDrop W (Remove local) t1"
    with 2 show ?thesis by (intro exI [of _ "[Lstat local, Remove local]"]) simp
  qed
qed

lemma special_willing:
  assumes w: "willing W" and f: "file_fine (name, a, c)" and k: "a_Kind a \<noteq> KindRegular"
  shows "\<exists>t'. special W name a t = (Val (), t') \<and> extracts [(name, a, c)] t t'"
proof -
  have n: "ValidEntryName name" and v: "validate a = None" using f by (simp_all add: file_fine_def)
  obtain pre t1 where p: "prepare W name t = (Val name, t1)" "does pre t t1" "list_all preparing pre" "ot_root t1"
    using prepare_willing [OF w n] by blast
  obtain pre' where x: "does pre' t1 (removeExisting W name t1)" "list_all preparing pre'" using removeExisting_does by blast
  note px = does_trans [OF p(2) x(1)]
  have step: "extracts [(name, a, c)] t t'" if "does seg t t''" "restores (ot_restoreOwner t) (name, a, c) seg"
      "t' = t''\<lparr>ot_dirs := ot_dirs t'' @ directories [(name, a, c)]\<rparr>" "ot_root t''" for seg t' t''
    using that k by (auto simp: extracts_def does_def calls_def regular_files_def intro!: exI [of _ "[seg]"])
  consider "a_Kind a = KindDirectory" | "a_Kind a = KindSymlink" | "a_Kind a = KindHardlink" "ValidEntryName (a_LinkTarget a)"
  proof -
    have "a_Kind a \<le> 3" using v by (auto simp: validate_def kind_defs not_less split: if_splits)
    then have "unat (a_Kind a) \<le> 3" by (simp add: word_le_nat_alt)
    then have "unat (a_Kind a) = 0 \<or> unat (a_Kind a) = 1 \<or> unat (a_Kind a) = 2 \<or> unat (a_Kind a) = 3" by linarith
    then have "a_Kind a = 0 \<or> a_Kind a = 1 \<or> a_Kind a = 2 \<or> a_Kind a = 3" by (simp add: word_unat_eq_iff)
    moreover have "ValidEntryName (a_LinkTarget a)" if "a_Kind a = 3" using v that by (auto simp: validate_def kind_defs split: if_splits)
    ultimately show thesis using k that by (auto simp: kind_defs)
  qed
  then show ?thesis
  proof cases
    case 1
    obtain t2 where m: "sys W (MkdirAll name) t1 = (None, t2)" "does [MkdirAll name] t1 t2" using sys_willing [OF w, of "MkdirAll name"] by auto
    have "extracts [(name, a, c)] t (t2\<lparr>ot_dirs := ot_dirs t2 @ [(name, a)]\<rparr>)"
      using step [OF does_trans [OF p(2) m(2)] _ refl] 1 p(3,4) m(2) by (auto simp: restores_def directories_def does_def)
    then show ?thesis using 1 p(1) m(1) by (auto simp: special_def directory_def bindS_def sysS_def)
  next
    case 2
    obtain t2 where m: "sys W (Symlink (a_LinkTarget a) name) (removeExisting W name t1) = (None, t2)"
        "does [Symlink (a_LinkTarget a) name] (removeExisting W name t1) t2"
      using sys_willing [OF w, of "Symlink (a_LinkTarget a) name"] by auto
    have o2: "ot_restoreOwner t2 = ot_restoreOwner t" using px m(2) by (simp add: does_def)
    let ?t = "restoreOwnership W (a_Owner a) (Lchown name) t2"
    note d = does_trans [OF does_trans [OF px m(2)] restoreOwnership_does [where owner = "a_Owner a" and t = t2 and chown = "Lchown name" and W = W, unfolded o2]]
    have "ot_root ?t" by (rule does_root [OF restoreOwnership_does does_root [OF m(2) does_root [OF x(1) p(4)]]])
    then have "extracts [(name, a, c)] t ?t"
      using step [OF d _ _, of ?t] 2 p(3) x(2) by (auto simp: restores_def directories_def kind_defs intro!: exI [of _ "pre @ pre'"])
    then show ?thesis using 2 p(1) m(1) by (auto simp: special_def symlink_def bindS_def sysS_def kind_defs)
  next
    case 3
    obtain t2 where m: "sys W (Link (a_LinkTarget a) name) (removeExisting W name t1) = (None, t2)"
        "does [Link (a_LinkTarget a) name] (removeExisting W name t1) t2"
      using sys_willing [OF w, of "Link (a_LinkTarget a) name"] by auto
    have "ot_root t2" using p(4) x(1) m(2) by (simp add: does_def)
    then have "extracts [(name, a, c)] t t2"
      using step [OF does_trans [OF px m(2)] _ _, of t2] 3 p(3) x(2)
      by (auto simp: restores_def directories_def kind_defs intro!: exI [of _ "pre @ pre'"])
    then show ?thesis
      using 3 p(1) m(1) by (auto simp: special_def hardlink_def localName_eq bindS_def sysS_def returnS_def kind_defs)
  qed
qed

lemma mm_Open_valid: "mm_Open P mm mb = Ok pm \<Longrightarrow> pm_Attributes pm = Some a \<Longrightarrow> validate a = None"
  by (auto simp: mm_Open_def bindR_Ok_conv dest!: unmarshal_inv)
    (auto simp: marshalMetadata_def AppendAttributes_def bindR_Ok_conv split: if_splits option.splits)

lemma extractEntry_file:
  assumes w: "willing W" and en: "file_entry P Z keys name a summary content en" and lib: "lib_ok P Z"
    and v: "ks_version keys = Version2" and f: "file_fine (name, a, content)" and r: "8 \<le> length (ot_rnd t)"
  shows "\<exists>t'. extractEntry P Z W keys EntryTypeFile
      (Stream (fe_EntrySalt en @ fe_FrameHdr en @ metadata_bytes (fe_Metadata en)
        @ entry_body (fe_InterBlockPad en) (fe_DataBlocks en) (fe_Trailer en) @ rest) e, t) =
    (Val [extracted name (length content)], Stream rest e, t') \<and> extracts [(name, a, content)] t t'"
proof -
  obtain k pm where k: "FileKey P keys (fe_EntrySalt en) = Ok k" "decryptFilename P (pm_EncryptedFilename pm) k = Ok name"
      "pm_Attributes pm = Some a" "pm_Codec pm = es_codec summary"
    and s: "sealed_as P Z k pm (es_codec summary) content content en"
    using en by (auto simp: file_entry_def)
  have kl: "length k = 32" by (rule FileKey_length [OF k(1)])
  have sz: "entry_sized en" and tr: "trailer_of P \<lparr>em_key = k\<rparr> (fe_Trailer en) (ComputeHMAC P k content) (word_of_nat (length content))"
    using s by (simp_all add: sealed_as_def)
  have pad: "length (fe_InterBlockPad en) < 2 ^ 32" and bs: "list_all block_sized (fe_DataBlocks en)" and ts: "trailer_sized (fe_Trailer en)"
    using sz by (simp_all add: entry_sized_def)
  have n: "ValidEntryName name" using f by (simp add: file_fine_def)
  have ty: "EntryTypeFile \<noteq> EntryTypeSolid" by (simp add: EntryTypeFile_def EntryTypeSolid_def)
  let ?body = "entry_body (fe_InterBlockPad en) (fe_DataBlocks en) (fe_Trailer en) @ rest"
  show ?thesis
  proof (cases "a_Kind a = KindRegular")
    case False
    obtain t' where t': "special W name a t = (Val (), t')" "extracts [(name, a, content)] t t'" using special_willing [OF w f False] by blast
    have "content = []" using f False by (simp add: file_fine_def)
    then have "extractSpecial W name a (Stream ?body e, t) = (Val (extracted name (length content)), Stream rest e, t')"
      by (simp add: extractSpecial_def onReader_def skipEntryBody_reads [OF pad bs ts] catchS_def bindS_def onTree_def t'(1) returnS_def)
    then have "extractFileBody P Z W keys \<lparr>eh_fileKey = k, eh_pm = pm\<rparr> (Stream ?body e, t)
        = (Val (extracted name (length content)), Stream rest e, t')"
      using False by (simp add: extractFileBody_def bind_onReader k orSkipBody_def returnS_def Let_def)
    with t'(2) ty show ?thesis
      by (intro exI [of _ t']) (simp add: extractEntry_def onReader_def readEntryHead_opens [OF s k(1)] bindS_def returnS_def)
  next
    case True
    obtain pre tmp t1 where c: "createTemp W name t = (Val (tmp, name), t1)" "list_all preparing pre"
        "does (pre @ [CreateExcl tmp]) (t\<lparr>ot_rnd := drop 8 (ot_rnd t)\<rparr>) t1" "ot_root t1"
      using createTemp_willing [OF w n r] by blast
    let ?v = "\<lparr>vf_tmp = tmp, vf_local = name, vf_buf = [], vf_err = None, vf_mac = [], vf_size = 0, vf_published = False\<rparr>"
    have nv: "newVerifiedFile W name t = (Val ?v, t1)" by (simp add: newVerifiedFile_def bindS_def c(1) returnS_def)
    obtain cs where cs: "concat cs = content" "list_all2 (block_of P Z block_decoder \<lparr>em_key = k\<rparr> (es_codec summary)) (fe_DataBlocks en) cs"
      using s by (auto simp: sealed_as_def)
    have "collecting tmp name [] t1 [] (?v, t1)" by (simp add: collecting_def writing_def)
    from sink_all_willing [OF w this, of cs] obtain ws v2 t2 where sk: "sink_all (vf_write W) cs (?v, t1) = (None, v2, t2)"
        "collecting tmp name ws t1 content (v2, t2)" by (auto simp: cs(1))
    have d: "streamInto P Z W k (pm_Codec pm) (Stream (concat (map block_bytes (fe_DataBlocks en)) @ sentinel @ trailer_bytes (fe_Trailer en) @ rest) e, ?v, t1)
        = (Val (), Stream (trailer_bytes (fe_Trailer en) @ rest) e, v2, t2)"
      using streamDataBlocks_opens [OF cs(2) kl, of "vf_write W" "(?v, t1)" "trailer_bytes (fe_Trailer en) @ rest" e]
      by (simp add: streamInto_def k(4) sk(1) stream_error_def block_decoder_def)
    have v1: "ks_version keys \<noteq> Version1" using v by (simp add: Version1_def Version2_def)
    note rt = readTrailer_opens [OF tr HMAC_length [OF lib] kl v1, of rest e]
    have ver: "vf_verify P k \<lparr>ti_hmac = ComputeHMAC P k content, ti_plaintextSize = word_of_nat (length content), ti_hasSize = True\<rparr> (v2, t2)
        = (Val (), v2, t2)" using sk(2) by (simp add: vf_verify_def collecting_def)
    obtain ws' v3 t3 where pb: "vf_publish W (Some a) (pm_Permissions pm AND 0x1FF) (v2, t2) = (None, v3, t3)" "concat ws' = content"
        "vf_published v3" "vf_size v3 = length content"
        "does (map (WriteTo tmp) ws' @ attr_calls (ot_restoreOwner t1) tmp a @ [CloseAt tmp, Rename tmp name] @ mtime_calls name a) t1 t3"
      using vf_publish_willing [OF w sk(2)] by blast
    have "ot_restoreOwner t1 = ot_restoreOwner t" using c(3) by (simp add: does_def)
    then have ex: "extracts [(name, a, content)] t t3" using regular_extracts [OF c(2-4) pb(2) _ True] pb(5) by simp
    have b: "verified_body P Z W keys \<lparr>eh_fileKey = k, eh_pm = pm\<rparr> (Stream ?body e, ?v, t1) = (Val (), Stream rest e, v3, t3)"
      by (simp add: verified_body_def Let_def bind_onReader entry_body_split skipPadding_reads [OF pad] bindS_def catchS_def d
          onReader_def onTree_def rt ver publishS_def pb(1) k(3))
    have "extractFileBody P Z W keys \<lparr>eh_fileKey = k, eh_pm = pm\<rparr> (Stream ?body e, t)
        = (Val (extracted name (length content)), Stream rest e, t3)"
      using True
      by (simp add: extractFileBody_def onReader_def k orSkipBody_def returnS_def Let_def bindS_def catchS_def onTree_def nv
          with_verified_def b pb(3,4) vf_discard_def)
    with ex ty show ?thesis
      by (intro exI [of _ t3]) (simp add: extractEntry_def onReader_def readEntryHead_opens [OF s k(1)] bindS_def returnS_def)
  qed
qed

lemma extract_members_willing:
  assumes w: "willing W"
  shows "list_all (\<lambda>m. ValidEntryName (sm_Name m) \<and> a_Kind (sm_Attributes m) = KindRegular) ms \<Longrightarrow> 8 * length ms \<le> length (ot_rnd t) \<Longrightarrow>
    \<exists>t'. extract_members W ms t = (Val (map (\<lambda>m. extracted (sm_Name m) (length (sm_Data m))) ms), t')
      \<and> extracts (map (\<lambda>m. (sm_Name m, sm_Attributes m, sm_Data m)) ms) t t'"
proof (induction ms arbitrary: t)
  case (Cons m ms)
  then obtain t1 where f: "writeFile W (sm_Name m) (sm_Data m) (Some (sm_Attributes m)) t = (Val (), t1)"
      "extracts [(sm_Name m, sm_Attributes m, sm_Data m)] t t1"
    using writeFile_willing [OF w, of "sm_Name m" t "sm_Attributes m" "sm_Data m"] by auto
  have "ot_rnd t1 = drop 8 (ot_rnd t)" using f(2) Cons.prems(1) by (simp add: extracts_def regular_files_def)
  then have "8 * length ms \<le> length (ot_rnd t1)" using Cons.prems(2) by auto
  then obtain t2 where "extract_members W ms t1 = (Val (map (\<lambda>m. extracted (sm_Name m) (length (sm_Data m))) ms), t2)"
      "extracts (map (\<lambda>m. (sm_Name m, sm_Attributes m, sm_Data m)) ms) t1 t2"
    using Cons.IH [of t1] Cons.prems by auto
  with f extracts_append [OF f(2)] show ?case
    by (intro exI [of _ t2]) (simp add: bindS_def catchS_def returnS_def)
qed (simp add: returnS_def)

lemma AppendSolidRecords_valid:
  "AppendSolidRecords dst ms = Ok s \<Longrightarrow> list_all (\<lambda>m. ValidEntryName (sm_Name m) \<and> a_Kind (sm_Attributes m) = KindRegular) ms"
  by (induction ms arbitrary: dst) (auto simp: AppendSolidRecord_def bindR_Ok_conv split: if_splits)

lemma extractEntry_solid:
  assumes w: "willing W" and en: "solid_entry P Z keys codec ms len stored en" and lib: "lib_ok P Z"
    and v: "ks_version keys = Version2" and r: "8 * length ms \<le> length (ot_rnd t)"
  shows "\<exists>t'. extractEntry P Z W keys EntryTypeSolid
      (Stream (fe_EntrySalt en @ fe_FrameHdr en @ metadata_bytes (fe_Metadata en)
        @ entry_body (fe_InterBlockPad en) (fe_DataBlocks en) (fe_Trailer en) @ rest) e, t) =
    (Val (map (\<lambda>m. extracted (sm_Name m) (length (sm_Data m))) ms), Stream rest e, t')
    \<and> extracts (map (\<lambda>m. (sm_Name m, sm_Attributes m, sm_Data m)) ms) t t'"
proof -
  obtain k stream payload where k: "FileKey P keys (fe_EntrySalt en) = Ok k"
    and a: "AppendSolidRecords [] ms = Ok stream" and p: "ParseSolidStream stream = Ok ms"
    and dec: "\<And>s. decode_solid Z codec payload s = (Val stream, s)"
    and s: "sealed_as P Z k (payload_metadata codec stream) CodecNone payload stream en"
    using en ParseSolidStream_packed unfolding solid_entry_def by blast
  note m = readSolidMembers_entry [OF s FileKey_length [OF k] lib v dec p, of rest e]
  obtain t' where t': "extract_members W ms t = (Val (map (\<lambda>m. extracted (sm_Name m) (length (sm_Data m))) ms), t')"
      "extracts (map (\<lambda>m. (sm_Name m, sm_Attributes m, sm_Data m)) ms) t t'"
    using extract_members_willing [OF w AppendSolidRecords_valid [OF a] r] by blast
  then show ?thesis
    by (intro exI [of _ t']) (simp add: extractEntry_def bind_onReader readEntryHead_opens [OF s k] extractSolidBody_def m onTree_def)
qed

lemma item_regular_length: "length (regular_files (item_files it)) \<le> length (item_files it)"
  by (simp add: regular_files_def)

lemma extractEntry_item:
  assumes w: "willing W" and h: "holds P Z keys it en" and lib: "lib_ok P Z" and v: "ks_version keys = Version2"
    and f: "list_all file_fine (item_files it)" and r: "8 * length (item_files it) \<le> length (ot_rnd t)"
  shows "\<exists>t'. extractEntry P Z W keys (fe_EntryType en)
      (Stream (fe_EntrySalt en @ fe_FrameHdr en @ metadata_bytes (fe_Metadata en)
        @ entry_body (fe_InterBlockPad en) (fe_DataBlocks en) (fe_Trailer en) @ rest) e, t) =
    (Val (results_of (item_files it)), Stream rest e, t') \<and> extracts (item_files it) t t'"
proof (cases it)
  case (FileItem name a summary content)
  with h have fe: "file_entry P Z keys name a summary content en" by simp
  then have "fe_EntryType en = EntryTypeFile" by (simp add: file_entry_def)
  with extractEntry_file [OF w fe lib v, of t rest e] f r FileItem show ?thesis by (simp add: results_of_def)
next
  case (GroupItem codec ms len stored)
  with h have s: "solid_entry P Z keys codec ms len stored en" by simp
  then have "fe_EntryType en = EntryTypeSolid" by (simp add: solid_entry_def)
  with extractEntry_solid [OF w s lib v, of t rest e] r GroupItem show ?thesis by (simp add: results_of_def comp_def)
qed

definition stored_files :: "item list \<Rightarrow> (bytes \<times> Attributes \<times> bytes) list" where
  "stored_files items = concat (map item_files items)"

lemma extract_items:
  assumes h: "list_all2 (holds P Z keys) items ens" and w: "willing W" and lib: "lib_ok P Z" and v: "ks_version keys = Version2"
  shows "list_all file_fine (stored_files items) \<Longrightarrow> 8 * length (stored_files items) \<le> length (ot_rnd t) \<Longrightarrow>
    \<exists>t'. extract_entries P Z W keys rs (Stream (concat (map entry_bytes ens) @ r) e, t) =
      extract_entries P Z W keys (rs @ results_of (stored_files items)) (Stream r e, t') \<and> extracts (stored_files items) t t'"
  using h
proof (induction arbitrary: rs t rule: list_all2_induct)
  case (Cons it items en ens)
  note n = nextEntryType_reads [OF v holds_type [OF Cons(1)], of P _ e]
  have f: "list_all file_fine (item_files it)" "list_all file_fine (stored_files items)" and
    rl: "8 * length (item_files it) \<le> length (ot_rnd t)"
    using Cons.prems by (simp_all add: stored_files_def)
  obtain t1 where x: "extractEntry P Z W keys (fe_EntryType en)
      (Stream (fe_EntrySalt en @ fe_FrameHdr en @ metadata_bytes (fe_Metadata en)
        @ entry_body (fe_InterBlockPad en) (fe_DataBlocks en) (fe_Trailer en) @ concat (map entry_bytes ens) @ r) e, t) =
    (Val (results_of (item_files it)), Stream (concat (map entry_bytes ens) @ r) e, t1)" "extracts (item_files it) t t1"
    using extractEntry_item [OF w Cons(1) lib v f(1) rl] by blast
  have "8 * length (stored_files items) \<le> length (ot_rnd t1)"
    using x(2) Cons.prems(2) item_regular_length [of it] by (auto simp: extracts_def stored_files_def)
  from Cons.IH [OF f(2) this, of "rs @ results_of (item_files it)"] obtain t2 where
    t2: "extract_entries P Z W keys (rs @ results_of (item_files it)) (Stream (concat (map entry_bytes ens) @ r) e, t1) =
      extract_entries P Z W keys ((rs @ results_of (item_files it)) @ results_of (stored_files items)) (Stream r e, t2)"
      "extracts (stored_files items) t1 t2" by blast
  have sf: "stored_files (it # items) = item_files it @ stored_files items" by (simp add: stored_files_def)
  have "extract_entries P Z W keys rs (Stream (concat (map entry_bytes (en # ens)) @ r) e, t) =
      extract_entries P Z W keys (rs @ results_of (item_files it)) (Stream (concat (map entry_bytes ens) @ r) e, t1)"
    by (subst extract_entries.simps) (simp add: entry_split n x(1))
  with t2 extracts_append [OF x(2) t2(2)] show ?case by (intro exI [of _ t2]) (simp add: sf results_of_def)
qed (auto simp: stored_files_def results_of_def)

end
