(* ===== verification/Incremental_State.thy ===== *)
theory Incremental_State
  imports Archive_Reading Session_Index "HOL-Library.AList" "HOL-Library.List_Lexorder"
begin

text \<open>
  The state of an incremental archive (\<^verbatim>\<open>io/incremental.go\<close>): finding the newest session through the
  checkpoint or by scanning, reading the chain of session indexes, and applying them in order.
  Reading at an offset leaves no state behind, so these operations are functions to outcomes.
\<close>

section \<open>State\<close>

record chunkLocation =
  cl_id :: bytes
  cl_packOffset :: u64
  cl_offset :: u64
  cl_stored :: u32
  cl_raw :: u32
  cl_codec :: Codec

text \<open>The map of files is an association list with one entry per name.\<close>

record incrementalArchive =
  ia_keys :: KeySchedule
  ia_header :: headerInfo
  ia_sessions :: u64
  ia_lastIndex :: nat
  ia_tail :: nat
  ia_hashState :: "bytes option"
  ia_recovered :: bool
  ia_chunks :: "chunkLocation list"
  ia_files :: "(bytes \<times> FileVersion) list"

definition sortedFiles :: "incrementalArchive \<Rightarrow> FileVersion list" where
  "sortedFiles ia = sort_key fv_Name (map snd (ia_files ia))"

section \<open>Reading indexes\<close>

definition outcome_of :: "(sarc_error \<Rightarrow> ArchiveError) \<Rightarrow> 'a res \<Rightarrow> 'a outcome" where
  "outcome_of wrap m = (case m of Ok x \<Rightarrow> Val x | Err e \<Rightarrow> Fail (wrap e) | Panic \<Rightarrow> Crash)"

fun bindO :: "'a outcome \<Rightarrow> ('a \<Rightarrow> 'b outcome) \<Rightarrow> 'b outcome" where
  "bindO (Val x) f = f x"
| "bindO (Fail e) f = Fail e"
| "bindO Crash f = Crash"

lemma bindO_Val_conv: "bindO m f = Val y \<longleftrightarrow> (\<exists>x. m = Val x \<and> f x = Val y)"
  by (cases m) auto

lemma bindO_Crash_conv: "bindO m f = Crash \<longleftrightarrow> m = Crash \<or> (\<exists>x. m = Val x \<and> f x = Crash)"
  by (cases m) auto

definition readCheckpoint :: "stream \<Rightarrow> nat \<Rightarrow> nat \<Rightarrow> (nat \<times> nat \<times> bytes) outcome" where
  "readCheckpoint ra len headerEnd =
     (let tail = int len - int TailSize in
      if tail < int headerEnd then Fail (fatal ErrCodeTruncated ''incremental archive is too short'' None)
      else case ReadAt ra TailSize (nat tail) of
        Inl e \<Rightarrow> Fail (fatal ErrCodeReadFailed ''read archive tail'' (Some e))
      | Inr buf \<Rightarrow>
          (case ParseCheckpoint (take CheckpointSize buf) of
             Err e \<Rightarrow> Fail (fatal ErrCodeIntegrityFail ''damaged archive tail'' (Some e))
           | Panic \<Rightarrow> Crash
           | Ok cp \<Rightarrow>
               if buf ! CheckpointSize \<noteq> EntryTypeEnd
               then Fail (fatal ErrCodeIntegrityFail ''damaged archive tail'' None)
               else if cp_LastIndex cp < word_of_nat headerEnd \<or> word_of_int tail \<le> cp_LastIndex cp
               then Fail (fatal ErrCodeIntegrityFail ''checkpoint points outside the archive'' None)
               else Val (unat (cp_LastIndex cp), nat tail, cp_HashState cp)))"

definition readIndexBody :: "prims \<Rightarrow> zstd \<Rightarrow> KeySchedule \<Rightarrow> SessionIndex reader" where
  "readIndexBody P Z keys =
     bindS (readPayloadBody P Z keys MaxIndexSize ''session index'') (\<lambda>plaintext.
       callS (\<lambda>e. fatal ErrCodeIntegrityFail ''parse session index'' (Some e)) (ParseSessionIndex plaintext))"

definition readIndexAt :: "prims \<Rightarrow> zstd \<Rightarrow> stream \<Rightarrow> nat \<Rightarrow> KeySchedule \<Rightarrow> nat \<Rightarrow> SessionIndex outcome" where
  "readIndexAt P Z ra len keys offset =
     fst (bindS (readS 1 (\<lambda>e. fatal ErrCodeTruncated ''read session index'' (Some e))) (\<lambda>entryType.
       if entryType \<noteq> [EntryTypeIndex] then failS (fatal ErrCodeIntegrityFail ''expected a session index entry'' None)
       else readIndexBody P Z keys) (entryReaderAt ra len offset))"

text \<open>
  The chain from the index at \<open>off\<close> back to session 1, newest first; \<open>after\<close> is the session of the index
  read before.  The offsets decrease, so the loop ends.
\<close>

function index_chain ::
  "prims \<Rightarrow> zstd \<Rightarrow> stream \<Rightarrow> nat \<Rightarrow> KeySchedule \<Rightarrow> nat \<Rightarrow> u64 option \<Rightarrow> nat \<Rightarrow> (SessionIndex \<times> nat) list outcome" where
  "index_chain P Z ra len keys headerEnd after off =
     (case readIndexAt P Z ra len keys off of
        Fail e \<Rightarrow> Fail e
      | Crash \<Rightarrow> Crash
      | Val si \<Rightarrow>
          if after \<noteq> None \<and> si_Session si \<noteq> the after - 1
          then Fail (fatal ErrCodeIntegrityFail ''session index chain is out of order'' None)
          else if si_Session si = 1
          then if si_PrevIndex si \<noteq> 0 then Fail (fatal ErrCodeIntegrityFail ''first session index has a predecessor'' None)
               else Val [(si, off)]
          else if si_PrevIndex si < word_of_nat headerEnd \<or> word_of_nat off \<le> si_PrevIndex si
          then Fail (fatal ErrCodeIntegrityFail ''session index chain points outside the archive'' None)
          else bindO (index_chain P Z ra len keys headerEnd (Some (si_Session si)) (unat (si_PrevIndex si)))
            (\<lambda>rest. Val ((si, off) # rest)))"
  by pat_completeness auto
termination
proof (relation "measure (\<lambda>(P, Z, ra, len, keys, headerEnd, after, off). off)", goal_cases)
  case (2 P Z ra len keys headerEnd after off si)
  then have "si_PrevIndex si < word_of_nat off" by (simp add: not_le)
  then have "unat (si_PrevIndex si) < unat (word_of_nat off :: u64)" by (simp add: word_less_nat_alt)
  also have "\<dots> \<le> off" by (simp add: unat_of_nat)
  finally show ?case by simp
qed simp

declare index_chain.simps [simp del]

definition readIndexChain ::
  "prims \<Rightarrow> zstd \<Rightarrow> stream \<Rightarrow> nat \<Rightarrow> KeySchedule \<Rightarrow> nat \<Rightarrow> nat \<Rightarrow> (SessionIndex \<times> nat) list outcome" where
  "readIndexChain P Z ra len keys headerEnd lastIndex =
     bindO (index_chain P Z ra len keys headerEnd None lastIndex) (\<lambda>chain. Val (rev chain))"

section \<open>Scanning for the last index\<close>

lemma readPayloadBody_consumes [consume_intros]: "consumes (readPayloadBody P Z keys limit what)"
proof -
  have "consumes (readPayloadBlocks P Z k l)" for k l
    by (auto simp: consumes_def readPayloadBlocks_def streamDataBlocks_def Let_def
        split: prod.splits res.splits outcome.splits dest: decryptBlocksSequential_later)
  then show ?thesis unfolding readPayloadBody_def fatalS_def by (intro consume_intros)
qed

lemma readIndexBody_consumes [consume_intros]: "consumes (readIndexBody P Z keys)"
  unfolding readIndexBody_def by (intro consume_intros)

definition skipPack :: "prims \<Rightarrow> KeySchedule \<Rightarrow> unit reader" where
  "skipPack P keys = bindS (readEntryHead P keys) (\<lambda>_. skipEntryBody (returnS ()))"

lemma skipPack_consumes [consume_intros]: "consumes (skipPack P keys)"
  unfolding skipPack_def by (intro consume_intros)

lemma scan_shorter:
  assumes "sReadFull (Suc 0) s = (b, None, s1)" and "consumes m" and "m s1 = (r, s2)"
  shows "length (s_bytes s2) < length (s_bytes s)"
  using sReadFull_shorter [OF assms(1)] later_le [OF consumesD [OF assms(2,3)]] by simp

text \<open>
  \<open>found\<close> is the last complete index with the offset behind it; the offset of an entry is \<open>start\<close> plus
  the bytes consumed, which are those of the \<open>whole\<close> section without the rest of the stream.  A panic
  of the parser is not caught.
\<close>

function scan_indexes ::
  "prims \<Rightarrow> zstd \<Rightarrow> KeySchedule \<Rightarrow> nat \<Rightarrow> nat \<Rightarrow> (nat \<times> nat) option \<Rightarrow> stream \<Rightarrow> (nat \<times> nat) option outcome" where
  "scan_indexes P Z keys start whole found s =
     (let entryStart = start + (whole - length (s_bytes s)) in
      case sReadFull 1 s of
        (b, Some e, s1) \<Rightarrow> Val found
      | (b, None, s1) \<Rightarrow>
          if hd b = EntryTypePack then
            (case skipPack P keys s1 of
               (Val _, s2) \<Rightarrow> scan_indexes P Z keys start whole found s2
             | (Fail e, s2) \<Rightarrow> Val found
             | (Crash, s2) \<Rightarrow> Crash)
          else if hd b \<noteq> EntryTypeIndex then Val found
          else
            (case readIndexBody P Z keys s1 of
               (Val _, s2) \<Rightarrow> scan_indexes P Z keys start whole (Some (entryStart, start + (whole - length (s_bytes s2)))) s2
             | (Fail e, s2) \<Rightarrow> Val found
             | (Crash, s2) \<Rightarrow> Crash))"
  by pat_completeness auto
termination
  by (relation "measure (\<lambda>(P, Z, keys, start, whole, found, s). length (s_bytes s))")
    (auto dest: scan_shorter [OF sym skipPack_consumes sym] scan_shorter [OF sym readIndexBody_consumes sym])

declare scan_indexes.simps [simp del]

definition scanForLastIndex :: "prims \<Rightarrow> zstd \<Rightarrow> stream \<Rightarrow> nat \<Rightarrow> KeySchedule \<Rightarrow> nat \<Rightarrow> (nat \<times> nat) outcome" where
  "scanForLastIndex P Z ra len keys start =
     (let s = entryReaderAt ra len start in
      bindO (scan_indexes P Z keys start (length (s_bytes s)) None s) (\<lambda>found.
        case found of
          None \<Rightarrow> Fail (fatal ErrCodeIntegrityFail ''incremental archive has no complete session'' None)
        | Some x \<Rightarrow> Val x))"

section \<open>Applying a session\<close>

definition chunk_location :: "u64 list \<Rightarrow> ChunkRecord \<Rightarrow> chunkLocation outcome" where
  "chunk_location packs c =
     (if unat (cr_Pack c) < length packs
      then Val \<lparr>cl_id = cr_ID c, cl_packOffset = packs ! unat (cr_Pack c), cl_offset = cr_Offset c,
             cl_stored = cr_StoredLen c, cl_raw = cr_RawLen c, cl_codec = cr_Codec c\<rparr>
      else Crash)"

fun mapO :: "('a \<Rightarrow> 'b outcome) \<Rightarrow> 'a list \<Rightarrow> 'b list outcome" where
  "mapO f [] = Val []"
| "mapO f (x # xs) = bindO (f x) (\<lambda>y. bindO (mapO f xs) (\<lambda>ys. Val (y # ys)))"

text \<open>The sum of a \<^verbatim>\<open>uint64\<close> field of the chunks that a file names.\<close>

fun chunk_total :: "(chunkLocation \<Rightarrow> u64) \<Rightarrow> chunkLocation list \<Rightarrow> u64 list \<Rightarrow> u64 outcome" where
  "chunk_total field chunks [] = Val 0"
| "chunk_total field chunks (n # ns) =
     (if unat n < length chunks
      then bindO (chunk_total field chunks ns) (\<lambda>total. Val (field (chunks ! unat n) + total)) else Crash)"

fun apply_files :: "FileVersion list \<Rightarrow> incrementalArchive \<Rightarrow> incrementalArchive outcome" where
  "apply_files [] ia = Val ia"
| "apply_files (f # fs) ia =
     bindO (chunk_total (\<lambda>c. u64_of_u32 (cl_raw c)) (ia_chunks ia) (fv_Chunks f)) (\<lambda>total'.
       if total' \<noteq> fv_Size f then Fail (fatal ErrCodeIntegrityFail ''file size does not match its chunks'' None)
       else apply_files fs (ia\<lparr>ia_files := AList.update (fv_Name f) f (ia_files ia)\<rparr>))"

definition ia_apply :: "SessionIndex \<Rightarrow> nat \<Rightarrow> incrementalArchive \<Rightarrow> incrementalArchive outcome" where
  "ia_apply si indexOffset ia =
     (if si_FirstChunk si \<noteq> word_of_nat (length (ia_chunks ia))
      then Fail (fatal ErrCodeIntegrityFail ''session index chunk numbering is inconsistent'' None)
      else if list_ex (\<lambda>p. p < word_of_nat (header_end (ia_header ia)) \<or> word_of_nat indexOffset \<le> p) (si_Packs si)
      then Fail (fatal ErrCodeIntegrityFail ''pack lies outside its session'' None)
      else bindO (mapO (chunk_location (si_Packs si)) (si_Chunks si)) (\<lambda>locs.
        bindO (apply_files (si_Files si) (ia\<lparr>ia_chunks := ia_chunks ia @ locs\<rparr>)) (\<lambda>ia.
        Val (ia\<lparr>ia_files := fold AList.delete (si_Deleted si) (ia_files ia)\<rparr>))))"

fun apply_all :: "(SessionIndex \<times> nat) list \<Rightarrow> incrementalArchive \<Rightarrow> incrementalArchive outcome" where
  "apply_all [] ia = Val ia"
| "apply_all ((si, off) # chain) ia = bindO (ia_apply si off ia) (apply_all chain)"

definition loadIncremental ::
  "prims \<Rightarrow> zstd \<Rightarrow> stream \<Rightarrow> nat \<Rightarrow> KeySchedule \<Rightarrow> headerInfo \<Rightarrow> incrementalArchive outcome" where
  "loadIncremental P Z ra len keys header =
     bindO (case readCheckpoint ra len (header_end header) of
         Val (lastIndex, tail, hashState) \<Rightarrow> Val (lastIndex, tail, Some hashState, False)
       | Crash \<Rightarrow> Crash
       | Fail _ \<Rightarrow> bindO (scanForLastIndex P Z ra len keys (header_end header)) (\<lambda>(lastIndex, tail).
           Val (lastIndex, tail, None, True))) (\<lambda>(lastIndex, tail, hashState, recovered).
     bindO (readIndexChain P Z ra len keys (header_end header) lastIndex) (\<lambda>chain.
     let newest = si_Session (fst (last chain)) in
     if newest < hi_sealedCount header
     then Fail (fatal ErrCodeIntegrityFail ''incremental archive is missing its newest sessions'' None)
     else bindO (apply_all chain \<lparr>ia_keys = keys, ia_header = header, ia_sessions = 0, ia_lastIndex = lastIndex,
         ia_tail = tail, ia_hashState = hashState, ia_recovered = recovered, ia_chunks = [], ia_files = []\<rparr>) (\<lambda>ia.
       Val (ia\<lparr>ia_sessions := newest\<rparr>))))"

definition openIncremental ::
  "prims \<Rightarrow> zstd \<Rightarrow> KeySchedule \<Rightarrow> headerInfo \<Rightarrow> (stream \<times> nat) option \<Rightarrow> incrementalArchive outcome" where
  "openIncremental P Z keys header random =
     (case random of
        None \<Rightarrow> Fail (fatal ErrCodeInvalidOption ''incremental archives must be read from a file, not a pipe'' None)
      | Some (ra, len) \<Rightarrow> bindO (fst (splitSignature ra len ())) (\<lambda>(proper, _).
          loadIncremental P Z ra proper keys header))"

section \<open>Listing\<close>

definition list_version :: "incrementalArchive \<Rightarrow> FileVersion \<Rightarrow> ListResult outcome" where
  "list_version ia f =
     bindO (chunk_total (\<lambda>c. u64_of_u32 (cl_stored c)) (ia_chunks ia) (fv_Chunks f)) (\<lambda>stored.
       Val (withAttributes (list_result (fv_Name f) (bucketName (BucketizeSize (sint (fv_Size f)))) ''chunked'' False
         (sint (fv_Size f)) (sint stored)) (Some (fv_Attributes f)) 0))"

definition listIncremental ::
  "prims \<Rightarrow> zstd \<Rightarrow> KeySchedule \<Rightarrow> headerInfo \<Rightarrow> (stream \<times> nat) option \<Rightarrow> ListResult list outcome" where
  "listIncremental P Z keys header random =
     bindO (openIncremental P Z keys header random) (\<lambda>ia. mapO (list_version ia) (sortedFiles ia))"

section \<open>What a loaded state satisfies\<close>

definition location_ok :: "u64 \<Rightarrow> u64 \<Rightarrow> chunkLocation \<Rightarrow> bool" where
  "location_ok lo hi c \<longleftrightarrow> length (cl_id c) = HMACSize \<and> lo \<le> cl_packOffset c \<and> cl_packOffset c < hi
     \<and> 0 < unat (cl_stored c) \<and> unat (cl_stored c) \<le> MaxStoredChunkSize
     \<and> 0 < unat (cl_raw c) \<and> unat (cl_raw c) \<le> MaxCDCChunkSize
     \<and> unat (cl_offset c) + unat (cl_stored c) \<le> MaxPackSize
     \<and> knownCodec (cl_codec c) \<and> (cl_codec c = CodecNone \<longrightarrow> cl_stored c = cl_raw c)"

definition version_ok :: "chunkLocation list \<Rightarrow> FileVersion \<Rightarrow> bool" where
  "version_ok chunks f \<longleftrightarrow> ValidEntryName (fv_Name f) \<and> validate (fv_Attributes f) = None
     \<and> list_all (\<lambda>n. unat n < length chunks) (fv_Chunks f)
     \<and> fv_Size f = (\<Sum>n\<leftarrow>fv_Chunks f. u64_of_u32 (cl_raw (chunks ! unat n)))
     \<and> (a_Kind (fv_Attributes f) = KindRegular \<or> \<not> has_data f)"

definition state_ok :: "u64 \<Rightarrow> incrementalArchive \<Rightarrow> bool" where
  "state_ok hi ia \<longleftrightarrow> list_all (location_ok (word_of_nat (header_end (ia_header ia))) hi) (ia_chunks ia)
     \<and> distinct (map fst (ia_files ia)) \<and> list_all (\<lambda>(n, f). fv_Name f = n \<and> version_ok (ia_chunks ia) f) (ia_files ia)"

lemma unat_of_nat_le: "unat (word_of_nat n :: 'a::len word) \<le> n"
  by (simp add: unat_of_nat)

lemma set_update: "x \<in> set (AList.update k v al) \<Longrightarrow> x = (k, v) \<or> x \<in> set al"
  by (induction al) (auto split: if_splits)

lemma set_deletes: "set (fold AList.delete ks al) \<subseteq> set al"
proof (induction ks arbitrary: al)
  case (Cons k ks)
  have "set (AList.delete k al) \<subseteq> set al" by (auto simp: AList.delete_eq)
  with Cons.IH [of "AList.delete k al"] show ?case by auto
qed simp

lemma chunk_total_sum:
  "list_all (\<lambda>n. unat n < length chunks) ns \<Longrightarrow> chunk_total field chunks ns = Val (\<Sum>n\<leftarrow>ns. field (chunks ! unat n))"
  by (induction ns) auto

lemma chunk_total_Val: "chunk_total field chunks ns = Val x \<Longrightarrow> list_all (\<lambda>n. unat n < length chunks) ns"
  by (induction ns arbitrary: x) (auto simp: bindO_Val_conv split: if_splits)

lemma version_ok_extend: "version_ok chunks f \<Longrightarrow> version_ok (chunks @ more') f"
proof -
  assume v: "version_ok chunks f"
  then have "map (\<lambda>n. u64_of_u32 (cl_raw ((chunks @ more') ! unat n))) (fv_Chunks f)
      = map (\<lambda>n. u64_of_u32 (cl_raw (chunks ! unat n))) (fv_Chunks f)"
    by (auto simp: version_ok_def list_all_iff nth_append)
  from arg_cong [OF this, of sum_list] v show ?thesis by (auto simp: version_ok_def list_all_iff trans_less_add1)
qed

lemma mapO_Val: "mapO f xs = Val ys \<Longrightarrow> list_all2 (\<lambda>x y. f x = Val y) xs ys"
  by (induction xs arbitrary: ys) (auto simp: bindO_Val_conv)

lemma mapO_Crash: "mapO f xs = Crash \<Longrightarrow> \<exists>x \<in> set xs. f x = Crash"
  by (induction xs) (auto simp: bindO_Crash_conv)

text \<open>What the parser of the index guarantees about the files of a session, once the numbering is checked.\<close>

lemma file_ok_refs:
  assumes "file_ok (word_of_nat n + word_of_nat k) f"
  shows "list_all (\<lambda>m. unat m < n + k) (fv_Chunks f)"
proof -
  have "unat m < n + k" if "m < (word_of_nat n + word_of_nat k :: u64)" for m
  proof -
    have "unat m < unat (word_of_nat (n + k) :: u64)" using that by (simp add: word_less_nat_alt)
    also have "\<dots> \<le> n + k" by (rule unat_of_nat_le)
    finally show ?thesis .
  qed
  with assms show ?thesis by (auto simp: file_ok_def list_all_iff)
qed

lemma apply_files_Val:
  assumes "apply_files fs ia = Val ia'" and "list_all (file_ok limit) fs"
    and "state_ok hi ia"
  shows "state_ok hi ia' \<and> ia' = ia\<lparr>ia_files := ia_files ia'\<rparr>
    \<and> map_of (ia_files ia') = map_of (ia_files ia) ++ map_of (rev (map (\<lambda>f. (fv_Name f, f)) fs))"
  using assms
proof (induction fs arbitrary: ia)
  case Nil
  then show ?case by simp
next
  case (Cons f fs)
  let ?ia = "ia\<lparr>ia_files := AList.update (fv_Name f) f (ia_files ia)\<rparr>"
  obtain x where x: "chunk_total (\<lambda>c. u64_of_u32 (cl_raw c)) (ia_chunks ia) (fv_Chunks f) = Val x" "x = fv_Size f"
    and r: "apply_files fs ?ia = Val ia'"
    using Cons.prems(1) by (auto simp: bindO_Val_conv split: if_splits)
  note refs = chunk_total_Val [OF x(1)]
  have "version_ok (ia_chunks ia) f"
    using Cons.prems(2) refs x chunk_total_sum [OF refs, of "\<lambda>c. u64_of_u32 (cl_raw c)"]
    by (simp add: version_ok_def file_ok_def)
  then have "state_ok hi ?ia"
    using Cons.prems(3)
    by (auto simp: state_ok_def list_all_iff distinct_update dest!: set_update)
  note ih = Cons.IH [OF r _ this]
  let ?M = "map_of (rev (map (\<lambda>f. (fv_Name f, f)) fs))"
  have "map_of (rev (map (\<lambda>f. (fv_Name f, f)) (f # fs))) = [fv_Name f \<mapsto> f] ++ ?M" by (simp add: map_of_append)
  moreover have "map_of (ia_files ?ia) = map_of (ia_files ia) ++ [fv_Name f \<mapsto> f]" by (simp add: update_conv' del: update_conv)
  ultimately have "map_of (ia_files ia) ++ map_of (rev (map (\<lambda>f. (fv_Name f, f)) (f # fs))) = map_of (ia_files ?ia) ++ ?M"
    by (simp only: map_add_assoc)
  with ih Cons.prems(2) show ?case by auto
qed

lemma chunk_locations_ok:
  assumes "mapO (chunk_location packs) cs = Val locs" and "list_all (chunk_ok (length packs)) cs"
    and "\<not> list_ex (\<lambda>p. p < lo \<or> hi \<le> p) packs"
  shows "list_all (location_ok lo hi) locs \<and> length locs = length cs"
proof -
  have l: "list_all2 (\<lambda>c l. chunk_location packs c = Val l) cs locs" by (rule mapO_Val [OF assms(1)])
  have "location_ok lo hi l" if cl: "chunk_location packs c = Val l" "c \<in> set cs" for c l
  proof -
    have c: "chunk_ok (length packs) c" using assms(2) cl(2) by (simp add: list_all_iff)
    then have "packs ! unat (cr_Pack c) \<in> set packs" by (simp add: chunk_ok_def)
    then have "lo \<le> packs ! unat (cr_Pack c) \<and> packs ! unat (cr_Pack c) < hi" using assms(3) by (auto simp: list_ex_iff not_less not_le)
    with c cl(1) show ?thesis by (auto simp: chunk_location_def chunk_ok_def location_ok_def split: if_splits)
  qed
  with l show ?thesis by (auto simp: list_all2_conv_all_nth list_all_length)
qed

lemma location_ok_mono: "location_ok lo hi c \<Longrightarrow> hi \<le> hi' \<Longrightarrow> location_ok lo hi' c"
  by (auto simp: location_ok_def)

text \<open>The effect of a session on the files, as a map: new versions replace old ones, then names are deleted.\<close>

definition session_files :: "SessionIndex \<Rightarrow> (bytes \<rightharpoonup> FileVersion) \<Rightarrow> (bytes \<rightharpoonup> FileVersion)" where
  "session_files si m = (m ++ map_of (rev (map (\<lambda>f. (fv_Name f, f)) (si_Files si)))) |` (- set (si_Deleted si))"

lemma map_of_deletes: "map_of (fold AList.delete ks al) = map_of al |` (- set ks)"
proof (induction ks arbitrary: al)
  case (Cons k ks)
  show ?case by (rule ext) (simp add: Cons.IH delete_conv' restrict_map_def)
qed (simp add: restrict_map_def)

lemma ia_apply_Val:
  assumes run: "ia_apply si off ia = Val ia'" and ok: "index_ok si" and st: "state_ok hi ia" and off: "word_of_nat off \<le> hi'" "hi \<le> hi'"
  shows "state_ok hi' ia' \<and> ia' = ia\<lparr>ia_chunks := ia_chunks ia', ia_files := ia_files ia'\<rparr>
    \<and> map_of (ia_files ia') = session_files si (map_of (ia_files ia))
    \<and> length (ia_chunks ia') = length (ia_chunks ia) + length (si_Chunks si)"
proof -
  obtain locs ia1 where fc: "si_FirstChunk si = word_of_nat (length (ia_chunks ia))"
    and pk: "\<not> list_ex (\<lambda>p. p < word_of_nat (header_end (ia_header ia)) \<or> word_of_nat off \<le> p) (si_Packs si)"
    and locs: "mapO (chunk_location (si_Packs si)) (si_Chunks si) = Val locs"
    and af: "apply_files (si_Files si) (ia\<lparr>ia_chunks := ia_chunks ia @ locs\<rparr>) = Val ia1"
    and ia': "ia' = ia1\<lparr>ia_files := fold AList.delete (si_Deleted si) (ia_files ia1)\<rparr>"
    using run by (auto simp: ia_apply_def bindO_Val_conv split: if_splits)
  have cs: "list_all (chunk_ok (length (si_Packs si))) (si_Chunks si)"
    and fs: "list_all (file_ok (si_FirstChunk si + word_of_nat (length (si_Chunks si)))) (si_Files si)"
    using ok by (simp_all add: index_ok_def)
  note l = chunk_locations_ok [OF locs cs pk]
  let ?ia = "ia\<lparr>ia_chunks := ia_chunks ia @ locs\<rparr>" and ?lo = "word_of_nat (header_end (ia_header ia)) :: u64"
  have "list_all (location_ok ?lo hi') (ia_chunks ia @ locs)"
    using st l off by (auto simp: state_ok_def list_all_iff intro: location_ok_mono)
  then have "state_ok hi' ?ia"
    using st by (auto simp: state_ok_def list_all_iff intro: version_ok_extend)
  note a = apply_files_Val [OF af fs this]
  obtain F where ia1: "ia1 = ?ia\<lparr>ia_files := F\<rparr>" using a by blast
  have "distinct (map fst (fold AList.delete ks al))" if "distinct (map fst al)" for ks and al :: "(bytes \<times> FileVersion) list"
    using that by (induction ks arbitrary: al) (auto simp: distinct_delete)
  then have "state_ok hi' ia'"
    using a set_deletes [of "si_Deleted si" F] by (auto simp: ia' ia1 state_ok_def list_all_iff)
  moreover have "map_of (ia_files ia') = session_files si (map_of (ia_files ia))"
    using a by (simp add: ia' map_of_deletes session_files_def)
  ultimately show ?thesis using l by (simp add: ia' ia1)
qed

lemma readIndexAt_ok: "readIndexAt P Z ra len keys off = Val si \<Longrightarrow> index_ok si"
proof -
  assume "readIndexAt P Z ra len keys off = Val si"
  then obtain s' where "bindS (readS 1 (\<lambda>e. fatal ErrCodeTruncated ''read session index'' (Some e))) (\<lambda>entryType.
       if entryType \<noteq> [EntryTypeIndex] then failS (fatal ErrCodeIntegrityFail ''expected a session index entry'' None)
       else readIndexBody P Z keys) (entryReaderAt ra len off) = (Val si, s')"
    unfolding readIndexAt_def by (metis prod.collapse)
  then obtain x where "ParseSessionIndex x = Ok si"
    by (auto simp: bindS_Val_conv readIndexBody_def callS_Val_conv failS_def split: if_splits)
  then show ?thesis by (rule ParseSessionIndex_ok)
qed

text \<open>
  A chain, newest first: every index was read at its offset, the sessions count down to 1, and the
  offsets decrease.
\<close>

fun chain_ok :: "prims \<Rightarrow> zstd \<Rightarrow> stream \<Rightarrow> nat \<Rightarrow> KeySchedule \<Rightarrow> (SessionIndex \<times> nat) list \<Rightarrow> bool" where
  "chain_ok P Z ra len keys [] \<longleftrightarrow> False"
| "chain_ok P Z ra len keys [(si, off)] \<longleftrightarrow> readIndexAt P Z ra len keys off = Val si \<and> si_Session si = 1"
| "chain_ok P Z ra len keys ((si, off) # (sj, off') # chain) \<longleftrightarrow> readIndexAt P Z ra len keys off = Val si
     \<and> si_Session sj = si_Session si - 1 \<and> si_Session si \<noteq> 1 \<and> (word_of_nat off' :: u64) < word_of_nat off
     \<and> chain_ok P Z ra len keys ((sj, off') # chain)"

lemma index_chain_ok:
  "index_chain P Z ra len keys headerEnd after off = Val chain \<Longrightarrow>
   chain_ok P Z ra len keys chain \<and> chain \<noteq> [] \<and> snd (hd chain) = off
   \<and> (\<forall>n. after = Some n \<longrightarrow> si_Session (fst (hd chain)) = n - 1)"
proof (induction P Z ra len keys headerEnd after off arbitrary: chain rule: index_chain.induct)
  case (1 P Z ra len keys headerEnd after off)
  obtain si where si: "readIndexAt P Z ra len keys off = Val si"
    using "1.prems" by (auto simp: index_chain.simps [of P Z ra len keys headerEnd after off] split: outcome.splits)
  have n: "\<not> (after \<noteq> None \<and> si_Session si \<noteq> the after - 1)"
    using "1.prems" by (auto simp: index_chain.simps [of P Z ra len keys headerEnd after off] si split: if_splits)
  show ?case
  proof (cases "si_Session si = 1")
    case True
    with "1.prems" n si have "chain = [(si, off)]"
      by (simp add: index_chain.simps [of P Z ra len keys headerEnd after off] split: if_splits)
    with True n si show ?thesis by auto
  next
    case False
    obtain rest where rest: "index_chain P Z ra len keys headerEnd (Some (si_Session si)) (unat (si_PrevIndex si)) = Val rest"
      and c: "chain = (si, off) # rest" and p: "\<not> (si_PrevIndex si < word_of_nat headerEnd \<or> word_of_nat off \<le> si_PrevIndex si)"
      using "1.prems" False n si
      by (simp add: index_chain.simps [of P Z ra len keys headerEnd after off] bindO_Val_conv split: if_splits) blast
    have ih: "chain_ok P Z ra len keys rest" "rest \<noteq> []" "snd (hd rest) = unat (si_PrevIndex si)"
        "si_Session (fst (hd rest)) = si_Session si - 1"
      using "1.IH" [OF si n False p rest] by simp_all
    obtain sj off' rest' where r: "rest = (sj, off') # rest'" using ih(2) by (cases rest) auto
    with ih False n si p show ?thesis by (auto simp: c not_le)
  qed
qed

lemma chain_ok_facts:
  "chain_ok P Z ra len keys chain \<Longrightarrow> chain \<noteq> [] \<and> si_Session (fst (last chain)) = 1
    \<and> list_all (\<lambda>(si, off). index_ok si \<and> (word_of_nat off :: u64) \<le> word_of_nat (snd (hd chain))) chain
    \<and> (\<forall>i < length chain. si_Session (fst (chain ! i)) = word_of_nat (length chain - i))
    \<and> sorted_wrt (\<lambda>a b. (word_of_nat (snd b) :: u64) < word_of_nat (snd a)) chain"
proof (induction P Z ra len keys chain rule: chain_ok.induct)
  case (2 P Z ra len keys si off)
  then show ?case by (auto dest: readIndexAt_ok)
next
  case (3 P Z ra len keys si off sj off' chain)
  let ?rest = "(sj, off') # chain"
  have ih: "list_all (\<lambda>(si, off). index_ok si \<and> (word_of_nat off :: u64) \<le> word_of_nat off') ?rest"
      "\<forall>i < length ?rest. si_Session (fst (?rest ! i)) = word_of_nat (length ?rest - i)"
      "sorted_wrt (\<lambda>a b. (word_of_nat (snd b) :: u64) < word_of_nat (snd a)) ?rest" "si_Session (fst (last ?rest)) = 1"
    and s: "si_Session sj = si_Session si - 1" "(word_of_nat off' :: u64) < word_of_nat off" "index_ok si"
    using 3 by (auto dest: readIndexAt_ok)
  have "si_Session sj = word_of_nat (length ?rest)" using ih(2) by force
  then have "si_Session si = word_of_nat (Suc (length ?rest))" using s(1) by (simp add: algebra_simps)
  then have "\<forall>i < length ((si, off) # ?rest). si_Session (fst (((si, off) # ?rest) ! i)) = word_of_nat (length ((si, off) # ?rest) - i)"
    using ih(2) by (auto simp: nth_Cons split: nat.splits)
  moreover have "list_all (\<lambda>(si, off1). index_ok si \<and> (word_of_nat off1 :: u64) \<le> word_of_nat off) ((si, off) # ?rest)"
    using ih(1) s(2,3) by (fastforce simp: list_all_iff)
  moreover have "sorted_wrt (\<lambda>a b. (word_of_nat (snd b) :: u64) < word_of_nat (snd a)) ((si, off) # ?rest)"
    using ih(3) s(2) by fastforce
  ultimately show ?case using ih(4) by simp
qed simp

end
