(* ===== verification/Incremental_Restore.thy ===== *)
theory Incremental_Restore
  imports Incremental_State Entry_Extraction Archive_Contents
begin

text \<open>
  Restoring the newest state of an incremental archive (\<^verbatim>\<open>io/incremental_restore.go\<close>), and \<^verbatim>\<open>Extract\<close> and
  \<^verbatim>\<open>List\<close> as a whole (\<^verbatim>\<open>io/extractor.go\<close>).
\<close>

section \<open>State\<close>

text \<open>
  The files being assembled are a list, and a target names its file by its position there.  An
  empty temporary name is \<open>None\<close>.
\<close>

record restoreFile =
  rf_version :: FileVersion
  rf_local :: path
  rf_tmp :: "path option"
  rf_pending :: int
  rf_err :: "ArchiveError option"

record chunkTarget =
  ct_file :: nat
  ct_offset :: nat

type_synonym targets = "(u64 \<times> chunkTarget list) list"

definition targets_of :: "targets \<Rightarrow> u64 \<Rightarrow> chunkTarget list" where
  "targets_of ts n = (case map_of ts n of None \<Rightarrow> [] | Some xs \<Rightarrow> xs)"

definition add_target :: "u64 \<Rightarrow> chunkTarget \<Rightarrow> targets \<Rightarrow> targets" where
  "add_target n x ts = AList.update n (targets_of ts n @ [x]) ts"

text \<open>The files, their tree, and the error that stops further delivery of a pack.\<close>

record restoring =
  rs_files :: "restoreFile list"
  rs_tree :: outputTree

section \<open>Preparing\<close>

definition specialOrder :: "FileKind \<Rightarrow> nat" where
  "specialOrder kind = (if kind = KindDirectory then 0 else if kind = KindHardlink then 1 else 2)"

fun place_chunks :: "chunkLocation list \<Rightarrow> nat \<Rightarrow> u64 list \<Rightarrow> nat \<Rightarrow> targets \<Rightarrow> targets outcome" where
  "place_chunks chunks i [] offset ts = Val ts"
| "place_chunks chunks i (n # ns) offset ts =
     (if unat n < length chunks
      then place_chunks chunks i ns (offset + unat (cl_raw (chunks ! unat n)))
        (add_target n \<lparr>ct_file = i, ct_offset = offset\<rparr> ts)
      else Crash)"

fun prepare_files ::
  "world \<Rightarrow> chunkLocation list \<Rightarrow> FileVersion list \<Rightarrow> restoring \<times> FileVersion list \<times> targets
    \<Rightarrow> unit outcome \<times> restoring \<times> FileVersion list \<times> targets" where
  "prepare_files W chunks [] st = (Val (), st)"
| "prepare_files W chunks (f # fs) (rs, specials, ts) =
     (if a_Kind (fv_Attributes f) \<noteq> KindRegular then prepare_files W chunks fs (rs, specials @ [f], ts)
      else
        let rf = \<lparr>rf_version = f, rf_local = [], rf_tmp = None, rf_pending = int (length (fv_Chunks f)), rf_err = None\<rparr>;
            add = (\<lambda>rf t. rs\<lparr>rs_files := rs_files rs @ [rf], rs_tree := t\<rparr>) in
        case createTemp W (fv_Name f) (rs_tree rs) of
          (Crash, t) \<Rightarrow> (Crash, (add rf t, specials, ts))
        | (Fail e, t) \<Rightarrow>
            if IsFatal e then (Fail e, (add rf t, specials, ts))
            else prepare_files W chunks fs (add (rf\<lparr>rf_err := Some e\<rparr>) t, specials, ts)
        | (Val (tmp, local), t) \<Rightarrow>
            let rf = rf\<lparr>rf_local := local, rf_tmp := Some tmp\<rparr> in
            (case sys W (CloseAt tmp) t of
               (Some e, t) \<Rightarrow> prepare_files W chunks fs
                 (add (rf\<lparr>rf_err := Some (writeRecoverable ''create file'' e)\<rparr>) t, specials, ts)
             | (None, t) \<Rightarrow>
                 (case place_chunks chunks (length (rs_files rs)) (fv_Chunks f) 0 ts of
                    Val ts \<Rightarrow> prepare_files W chunks fs (add rf t, specials, ts)
                  | Fail e \<Rightarrow> (Fail e, (add rf t, specials, ts))
                  | Crash \<Rightarrow> (Crash, (add rf t, specials, ts)))))"

definition prepareRestore ::
  "world \<Rightarrow> incrementalArchive \<Rightarrow> outputTree \<Rightarrow> unit outcome \<times> restoring \<times> FileVersion list \<times> targets" where
  "prepareRestore W ia t =
     (case prepare_files W (ia_chunks ia) (sortedFiles ia) (\<lparr>rs_files = [], rs_tree = t\<rparr>, [], []) of
        (r, rs, specials, ts) \<Rightarrow> (r, rs, sort_key (\<lambda>f. specialOrder (a_Kind (fv_Attributes f))) specials, ts))"

section \<open>Delivering chunks\<close>

definition writeAtTemp :: "world \<Rightarrow> path \<Rightarrow> bytes \<Rightarrow> nat \<Rightarrow> outputTree \<Rightarrow> sarc_error option \<times> outputTree" where
  "writeAtTemp W tmp d offset t =
     (case sys W (OpenAt tmp) t of
        (Some e, t) \<Rightarrow> (Some e, t)
      | (None, t) \<Rightarrow>
          (case sys W (WriteAt tmp d offset) t of
             (Some e, t) \<Rightarrow> (Some e, sysDrop W (CloseAt tmp) t)
           | (None, t) \<Rightarrow> sys W (CloseAt tmp) t))"

definition deliver_target :: "world \<Rightarrow> bytes \<Rightarrow> chunkTarget \<Rightarrow> restoring \<Rightarrow> restoring" where
  "deliver_target W raw x rs =
     (let i = ct_file x; rf = rs_files rs ! i in
      if rf_err rf \<noteq> None then rs
      else case writeAtTemp W (the (rf_tmp rf)) raw (ct_offset x) (rs_tree rs) of
        (Some e, t) \<Rightarrow> rs\<lparr>rs_files := (rs_files rs)[i := rf\<lparr>rf_err := Some (writeRecoverable ''write file'' e)\<rparr>], rs_tree := t\<rparr>
      | (None, t) \<Rightarrow> rs\<lparr>rs_files := (rs_files rs)[i := rf\<lparr>rf_pending := rf_pending rf - 1\<rparr>], rs_tree := t\<rparr>)"

text \<open>\<^verbatim>\<open>Decompress\<close> does not panic, so the last branch is never taken.\<close>

definition decode_chunk :: "prims \<Rightarrow> zstd \<Rightarrow> BlockDecompressor \<Rightarrow> bytes \<Rightarrow> chunkLocation \<Rightarrow> bytes \<Rightarrow> ArchiveError + bytes" where
  "decode_chunk P Z dec idKey loc stored =
     (case (if cl_codec loc = CodecZstd then Decompress Z dec stored else Ok stored) of
        Ok raw \<Rightarrow>
          if length raw \<noteq> unat (cl_raw loc) \<or> ComputeHMAC P idKey raw \<noteq> cl_id loc
          then Inl (recoverable ErrCodeIntegrityFail ''chunk failed verification'' None) else Inr raw
      | Err e \<Rightarrow> Inl (recoverable ErrCodeIntegrityFail ''decompress chunk'' (Some e))
      | Panic \<Rightarrow> Inl (recoverable ErrCodeIntegrityFail ''panic'' None))"

definition deliverChunk ::
  "prims \<Rightarrow> zstd \<Rightarrow> world \<Rightarrow> BlockDecompressor \<Rightarrow> bytes \<Rightarrow> chunkLocation \<Rightarrow> bytes \<Rightarrow> chunkTarget list \<Rightarrow> restoring
    \<Rightarrow> ArchiveError option \<times> restoring" where
  "deliverChunk P Z W dec idKey loc stored ts rs =
     (case decode_chunk P Z dec idKey loc stored of
        Inl e \<Rightarrow> (Some e, rs)
      | Inr raw \<Rightarrow> (None, fold (deliver_target W raw) ts rs))"

section \<open>Cutting a pack into chunks\<close>

text \<open>
  The chunks still needed, in order of their offset; the position in the plaintext; the part of the
  current chunk already seen; and what \<^verbatim>\<open>deliver\<close> works on.
\<close>

record 'd chunkRouter =
  cr_needed :: "(u64 \<times> chunkLocation) list"
  cr_pos :: u64
  cr_buf :: bytes
  cr_err :: "ArchiveError option"
  cr_data :: 'd

type_synonym 'd delivery = "u64 \<Rightarrow> chunkLocation \<Rightarrow> bytes \<Rightarrow> 'd \<Rightarrow> ArchiveError option \<times> 'd"

text \<open>How many bytes the next step takes from \<open>pt\<close> for the current chunk; the subtraction is that of \<^verbatim>\<open>uint64\<close>.\<close>

definition chunk_take :: "chunkLocation \<Rightarrow> bytes \<Rightarrow> bytes \<Rightarrow> nat" where
  "chunk_take c buf pt = min (unat (u64_of_u32 (cl_stored c) - word_of_nat (length buf))) (length pt)"

function router_feed :: "'d delivery \<Rightarrow> bytes \<Rightarrow> 'd chunkRouter \<Rightarrow> ArchiveError option \<times> 'd chunkRouter" where
  "router_feed dlv pt r =
     (if pt = [] \<or> cr_needed r = [] then (None, r\<lparr>cr_pos := cr_pos r + word_of_nat (length pt)\<rparr>)
      else case hd (cr_needed r) of (n, c) \<Rightarrow>
        if cr_buf r = [] \<and> cr_pos r < cl_offset c then
          (let skip = min (unat (cl_offset c - cr_pos r)) (length pt) in
           router_feed dlv (drop skip pt) (r\<lparr>cr_pos := cr_pos r + word_of_nat skip\<rparr>))
        else if cr_buf r = [] \<and> cl_offset c < cr_pos r then
          (let e = Some (recoverable ErrCodeIntegrityFail ''overlapping chunks in pack'' None) in (e, r\<lparr>cr_err := e\<rparr>))
        else
          let k = chunk_take c (cr_buf r) pt; buf = cr_buf r @ take k pt;
              r = r\<lparr>cr_buf := buf, cr_pos := cr_pos r + word_of_nat k\<rparr> in
          if length buf = unat (cl_stored c) then
            (case dlv n c buf (cr_data r) of
               (Some e, d) \<Rightarrow> (Some e, r\<lparr>cr_err := Some e, cr_data := d\<rparr>)
             | (None, d) \<Rightarrow> router_feed dlv (drop k pt) (r\<lparr>cr_buf := [], cr_needed := tl (cr_needed r), cr_data := d\<rparr>))
          else if k = 0 then (None, r) else router_feed dlv (drop k pt) r)"
  by pat_completeness auto
termination
proof (relation "measures [\<lambda>(dlv, pt, r). length (cr_needed r), \<lambda>(dlv, pt, r). length pt]", goal_cases)
  case (2 dlv pt r x n c)
  then have "0 < unat (cl_offset n - cr_pos r)" by (auto simp: word_neq_0_conv unat_gt_0)
  with 2 show ?case by auto
qed auto

declare router_feed.simps [simp del]

section \<open>Restoring from a pack\<close>

text \<open>The running HMAC is given by the bytes written to it.\<close>

definition pack_sink :: "'d delivery \<Rightarrow> (bytes \<times> 'd chunkRouter) blockSink" where
  "pack_sink dlv pt = (\<lambda>(mac, r).
     case router_feed dlv pt r of
       (None, r) \<Rightarrow> (None, mac @ pt, r)
     | (Some e, r) \<Rightarrow> (Some (Errorf ''deliver''), mac @ pt, r))"

definition openPack :: "prims \<Rightarrow> KeySchedule \<Rightarrow> entryHead reader" where
  "openPack P keys =
     bindS (readS 1 (\<lambda>e. recoverable ErrCodeTruncated ''read pack'' (Some e))) (\<lambda>entryType.
       if entryType \<noteq> [EntryTypePack] then failS (recoverable ErrCodeIntegrityFail ''expected a pack entry'' None)
       else bindS (readEntryHead P keys) (\<lambda>head.
         bindS (skipPadding (\<lambda>e. recoverable ErrCodeTruncated ''skip pack padding'' (Some e))) (\<lambda>_. returnS head)))"

definition checkPack :: "prims \<Rightarrow> KeySchedule \<Rightarrow> bytes \<Rightarrow> bytes \<Rightarrow> unit reader" where
  "checkPack P keys fileKey plaintext =
     bindS (readTrailer P fileKey (ks_version keys)) (\<lambda>trailer.
       if ComputeHMAC P fileKey plaintext \<noteq> ti_hmac trailer \<or> ti_plaintextSize trailer \<noteq> word_of_nat (length plaintext)
       then failS (recoverable ErrCodeIntegrityFail ''pack HMAC mismatch'' None) else returnS ())"

definition restorePack ::
  "prims \<Rightarrow> zstd \<Rightarrow> world \<Rightarrow> stream \<Rightarrow> nat \<Rightarrow> KeySchedule \<Rightarrow> BlockDecompressor \<Rightarrow> bytes \<Rightarrow> targets \<Rightarrow> nat
    \<Rightarrow> (u64 \<times> chunkLocation) list \<Rightarrow> restoring \<Rightarrow> unit outcome \<times> restoring" where
  "restorePack P Z W ra len keys dec idKey ts packOffset needed rs =
     (case openPack P keys (entryReaderAt ra len packOffset) of
        (Fail e, s) \<Rightarrow> (Fail e, rs)
      | (Crash, s) \<Rightarrow> (Crash, rs)
      | (Val head, s) \<Rightarrow>
          (let dlv = (\<lambda>n c stored rs. deliverChunk P Z W dec idKey c stored (targets_of ts n) rs) in
           case streamDataBlocks P Z (eh_fileKey head) CodecNone \<lparr>bd_limit = 0, bd_window = 0\<rparr> (pack_sink dlv)
               ([], \<lparr>cr_needed = needed, cr_pos = 0, cr_buf = [], cr_err = None, cr_data = rs\<rparr>) s of
             (r, (mac, router), s) \<Rightarrow>
               (let rs = cr_data router in
                if r = Crash then (Crash, rs)
                else if cr_err router \<noteq> None then (Fail (the (cr_err router)), rs)
                else if r \<noteq> Val () then (r, rs)
                else if cr_needed router \<noteq> []
                then (Fail (recoverable ErrCodeIntegrityFail ''pack is shorter than its index'' None), rs)
                else (fst (checkPack P keys (eh_fileKey head) mac s), rs))))"

definition fail_files :: "ArchiveError \<Rightarrow> chunkTarget list \<Rightarrow> restoring \<Rightarrow> restoring" where
  "fail_files e xs rs = fold (\<lambda>x rs. let rf = rs_files rs ! ct_file x in
     if rf_err rf = None then rs\<lparr>rs_files := (rs_files rs)[ct_file x := rf\<lparr>rf_err := Some e\<rparr>]\<rparr> else rs) xs rs"

fun restore_packs ::
  "prims \<Rightarrow> zstd \<Rightarrow> world \<Rightarrow> stream \<Rightarrow> nat \<Rightarrow> KeySchedule \<Rightarrow> BlockDecompressor \<Rightarrow> bytes \<Rightarrow> targets
    \<Rightarrow> (u64 \<times> (u64 \<times> chunkLocation) list) list \<Rightarrow> restoring \<Rightarrow> unit outcome \<times> restoring" where
  "restore_packs P Z W ra len keys dec idKey ts [] rs = (Val (), rs)"
| "restore_packs P Z W ra len keys dec idKey ts ((p, needed) # packs) rs =
     (case restorePack P Z W ra len keys dec idKey ts (unat p) needed rs of
        (Crash, rs) \<Rightarrow> (Crash, rs)
      | (Val _, rs) \<Rightarrow> restore_packs P Z W ra len keys dec idKey ts packs rs
      | (Fail e, rs) \<Rightarrow> restore_packs P Z W ra len keys dec idKey ts packs
          (fold (\<lambda>(n, _). fail_files e (targets_of ts n)) needed rs))"

text \<open>
  The chunks needed from each pack, packs in order of their offset and chunks in order of theirs.
  The order in which Go ranges over the maps does not matter, except among chunks with the same
  offset, which overlap.
\<close>

definition by_pack :: "chunkLocation list \<Rightarrow> targets \<Rightarrow> (u64 \<times> (u64 \<times> chunkLocation) list) list" where
  "by_pack chunks ts =
     (let needed = map (\<lambda>(n, _). (n, chunks ! unat n)) ts;
          packs = sort (remdups (map (\<lambda>(n, c). cl_packOffset c) needed)) in
      map (\<lambda>p. (p, sort_key (\<lambda>(n, c). cl_offset c) (filter (\<lambda>(n, c). cl_packOffset c = p) needed))) packs)"

section \<open>Publishing\<close>

definition publishRestore :: "world \<Rightarrow> restoreFile \<Rightarrow> outputTree \<Rightarrow> ArchiveError option \<times> outputTree" where
  "publishRestore W rf t =
     (let tmp = the (rf_tmp rf) in
      case sys W (OpenAt tmp) t of
        (Some e, t) \<Rightarrow> (Some (writeRecoverable ''write file'' e), t)
      | (None, t) \<Rightarrow>
          (case publish W tmp (rf_local rf) (Some (fv_Attributes (rf_version rf))) 0 t of
             (Some e, t) \<Rightarrow> (Some (writeRecoverable ''write file'' e), sysDrop W (CloseAt tmp) t)
           | (None, t) \<Rightarrow> (None, t)))"

fun publishRestores :: "world \<Rightarrow> restoreFile list \<Rightarrow> outputTree \<Rightarrow> ExtractionResult list \<times> path option list \<times> outputTree" where
  "publishRestores W [] t = ([], [], t)"
| "publishRestores W (rf # rfs) t =
     (let name = fv_Name (rf_version rf);
          rf = (if rf_err rf = None \<and> rf_pending rf \<noteq> 0
                then rf\<lparr>rf_err := Some (recoverable ErrCodeIntegrityFail ''file is missing chunks'' None)\<rparr> else rf);
          (err, tmp, t) = (case rf_err rf of
             Some e \<Rightarrow> (Some e, rf_tmp rf, t)
           | None \<Rightarrow> (case publishRestore W rf t of (Some e, t) \<Rightarrow> (Some e, rf_tmp rf, t) | (None, t) \<Rightarrow> (None, None, t)));
          result = (case err of Some e \<Rightarrow> notExtracted name e | None \<Rightarrow> extracted name (unat (fv_Size (rf_version rf))));
          (results, tmps, t) = publishRestores W rfs t in
      (result # results, tmp # tmps, t))"

fun restoreSpecial :: "world \<Rightarrow> FileVersion list \<Rightarrow> outputTree \<Rightarrow> ExtractionResult list outcome \<times> outputTree" where
  "restoreSpecial W [] t = (Val [], t)"
| "restoreSpecial W (f # fs) t =
     (case special W (fv_Name f) (fv_Attributes f) t of
        (Crash, t) \<Rightarrow> (Crash, t)
      | (r, t) \<Rightarrow>
          let x = (case r of Fail e \<Rightarrow> notExtracted (fv_Name f) e | _ \<Rightarrow> extracted (fv_Name f) 0) in
          (case restoreSpecial W fs t of
             (Val xs, t) \<Rightarrow> (Val (x # xs), t) | (Fail e, t) \<Rightarrow> (Fail e, t) | (Crash, t) \<Rightarrow> (Crash, t)))"

text \<open>The deferred removal of the temporary files that were not published.\<close>

definition remove_temps :: "world \<Rightarrow> path option list \<Rightarrow> outputTree \<Rightarrow> outputTree" where
  "remove_temps W tmps t = fold (\<lambda>tmp t. case tmp of None \<Rightarrow> t | Some p \<Rightarrow> sysDrop W (Remove p) t) tmps t"

text \<open>What follows \<^verbatim>\<open>prepareRestore\<close>: the temporary files that remain are removed whichever way it ends.\<close>

definition restorePrepared ::
  "prims \<Rightarrow> zstd \<Rightarrow> world \<Rightarrow> stream \<Rightarrow> nat \<Rightarrow> incrementalArchive \<Rightarrow> FileVersion list \<Rightarrow> targets \<Rightarrow> restoring
    \<Rightarrow> (ExtractionResult list \<times> unit outcome) \<times> outputTree" where
  "restorePrepared P Z W ra len ia specials ts rs =
     (let keys = ia_keys ia;
          give_up = (\<lambda>r rs. (([], r), remove_temps W (map rf_tmp (rs_files rs)) (rs_tree rs))) in
      case NewChunkDecompressor Z of
        Err e \<Rightarrow> give_up (Fail (fatal ErrCodeReadFailed ''init chunk decompressor'' (Some e))) rs
      | Panic \<Rightarrow> give_up Crash rs
      | Ok dec \<Rightarrow>
          (case ChunkIDKey P keys of
             Err e \<Rightarrow> give_up (Fail (fatal ErrCodeAuthFailed ''derive chunk key'' (Some e))) rs
           | Panic \<Rightarrow> give_up Crash rs
           | Ok idKey \<Rightarrow>
               (case restore_packs P Z W ra len keys dec idKey ts (by_pack (ia_chunks ia) ts) rs of
                  (Fail e, rs) \<Rightarrow> give_up (Fail e) rs
                | (Crash, rs) \<Rightarrow> give_up Crash rs
                | (Val _, rs) \<Rightarrow>
                    (case publishRestores W (rs_files rs) (rs_tree rs) of
                       (results, tmps, t) \<Rightarrow>
                         (case restoreSpecial W specials t of
                            (Val xs, t) \<Rightarrow> ((results @ xs, Val ()), remove_temps W tmps t)
                          | (Fail e, t) \<Rightarrow> (([], Fail e), remove_temps W tmps t)
                          | (Crash, t) \<Rightarrow> (([], Crash), remove_temps W tmps t))))))"

definition extractIncremental ::
  "prims \<Rightarrow> zstd \<Rightarrow> world \<Rightarrow> KeySchedule \<Rightarrow> headerInfo \<Rightarrow> (stream \<times> nat) option \<Rightarrow> outputTree
    \<Rightarrow> (ExtractionResult list \<times> unit outcome) \<times> outputTree" where
  "extractIncremental P Z W keys header random t =
     (case openIncremental P Z keys header random of
        Fail e \<Rightarrow> (([], Fail e), t)
      | Crash \<Rightarrow> (([], Crash), t)
      | Val ia \<Rightarrow>
          (case prepareRestore W ia t of
             (Fail e, rs, specials, ts) \<Rightarrow> (([], Fail e), rs_tree rs)
           | (Crash, rs, specials, ts) \<Rightarrow> (([], Crash), rs_tree rs)
           | (Val _, rs, specials, ts) \<Rightarrow>
               restorePrepared P Z W (fst (the random)) (snd (the random)) ia specials ts rs))"

section \<open>The extractor as a whole\<close>

text \<open>
  \<^verbatim>\<open>Extract\<close>: \<open>s\<close> reads the archive from its start and \<open>random\<close>, when given, at any position.  The tree is
  closed whichever way the extraction ends.
\<close>

definition Extract ::
  "prims \<Rightarrow> ('r, 'i) age \<Rightarrow> zstd \<Rightarrow> world \<Rightarrow> 'i Unlockers \<Rightarrow> path \<Rightarrow> bool \<Rightarrow> bytes \<Rightarrow> (stream \<times> nat) option \<Rightarrow> stream
    \<Rightarrow> (ExtractionResult list \<times> unit outcome) \<times> outputTree" where
  "Extract P A Z W u outputDir restoreOwner rnd random s =
     (let t = newOutputTree outputDir restoreOwner rnd in
      case readHeader P A u s of
        (Fail e, s) \<Rightarrow> (([], Fail e), t)
      | (Crash, s) \<Rightarrow> (([], Crash), t)
      | (Val (keys, header), s) \<Rightarrow>
          (case (if incremental header then extractIncremental P Z W keys header random t
             else case NewBlockDecompressor Z of
               Err e \<Rightarrow> (([], Fail (fatal ErrCodeReadFailed ''init decompressor'' (Some e))), t)
             | Panic \<Rightarrow> (([], Crash), t)
             | Ok dec \<Rightarrow> (case extract_entries P Z W keys [] (s, t) of (r, s, t) \<Rightarrow> (r, t))) of
             (r, t) \<Rightarrow> (r, ot_close W t)))"

section \<open>Listing as a whole\<close>

definition list_outcome :: "ListResult list outcome \<Rightarrow> ListResult list \<times> unit outcome" where
  "list_outcome m = (case m of Val xs \<Rightarrow> (xs, Val ()) | Fail e \<Rightarrow> ([], Fail e) | Crash \<Rightarrow> ([], Crash))"

text \<open>
  \<^verbatim>\<open>listRandom\<close>: the header is read through random access; when the directory cannot be used, as many
  bytes of the sequential reader are skipped as the header has.
\<close>

definition scanAfter :: "prims \<Rightarrow> zstd \<Rightarrow> KeySchedule \<Rightarrow> nat \<Rightarrow> stream \<Rightarrow> ListResult list \<times> unit outcome" where
  "scanAfter P Z keys n s =
     (if length (s_bytes s) < n then ([], Fail (fatal ErrCodeTruncated ''read header'' (Some (s_end s))))
      else fst (scanList P Z keys (Stream (drop n (s_bytes s)) (s_end s))))"

definition listRandom ::
  "prims \<Rightarrow> ('r, 'i) age \<Rightarrow> zstd \<Rightarrow> 'i Unlockers \<Rightarrow> stream \<Rightarrow> nat \<Rightarrow> stream \<Rightarrow> ListResult list \<times> unit outcome" where
  "listRandom P A Z u ra len s =
     (let whole = SectionReader ra 0 len in
      case readHeader P A u whole of
        (Fail e, s1) \<Rightarrow> ([], Fail e)
      | (Crash, s1) \<Rightarrow> ([], Crash)
      | (Val (keys, header), s1) \<Rightarrow>
          (let scan = scanAfter P Z keys (length (s_bytes whole) - length (s_bytes s1)) s in
           if incremental header then list_outcome (listIncremental P Z keys header (Some (ra, len)))
           else if ks_version keys \<noteq> Version1
           then (case fst (readDirectory P Z keys header ra len ()) of
               Val (Some records) \<Rightarrow> (directoryListing records, Val ())
             | Val None \<Rightarrow> scan
             | Fail e \<Rightarrow> ([], Fail e)
             | Crash \<Rightarrow> ([], Crash))
           else scan))"

definition List ::
  "prims \<Rightarrow> ('r, 'i) age \<Rightarrow> zstd \<Rightarrow> 'i Unlockers \<Rightarrow> (stream \<times> nat) option \<Rightarrow> stream \<Rightarrow> ListResult list \<times> unit outcome" where
  "List P A Z u random s =
     (case random of
        Some (ra, len) \<Rightarrow> listRandom P A Z u ra len s
      | None \<Rightarrow>
          (case readHeader P A u s of
             (Fail e, s) \<Rightarrow> ([], Fail e)
           | (Crash, s) \<Rightarrow> ([], Crash)
           | (Val (keys, header), s) \<Rightarrow>
               if incremental header then list_outcome (listIncremental P Z keys header None)
               else fst (scanList P Z keys s)))"

end
