(* ===== verification/Archive_Completes.thy ===== *)
theory Archive_Completes
  imports Written_Archive
begin

text \<open>
  Runs of the streaming archiver that complete: with an output that accepts every write, enough
  random bytes and inputs that the format can hold, no fatal error occurs, whatever the state
  of the files is when they are opened.
\<close>

section \<open>Sealing succeeds\<close>

text \<open>What the format can hold: the name, with its nonce and tag, has a 16-bit length.\<close>

definition input_ok :: "inputFile \<Rightarrow> bool" where
  "input_ok inp \<longleftrightarrow> ValidEntryName (in_name inp) \<and> NonceSize + length (in_name inp) + GCMTagSize \<le> 0xFFFF
     \<and> validate (in_attrs inp) = None"

definition env_ok :: "prims \<Rightarrow> zstd \<Rightarrow> bool" where
  "env_ok P Z \<longleftrightarrow> lib_ok P Z \<and> hkdf_total P"

lemma env_okD: "env_ok P Z \<Longrightarrow> gcm_correct P" "env_ok P Z \<Longrightarrow> lib_ok P Z" "env_ok P Z \<Longrightarrow> hkdf_total P"
  by (simp_all add: env_ok_def lib_ok_def)

lemma GenerateSalt_draws: "SaltSize \<le> length rnd \<Longrightarrow> GenerateSalt rnd = Ok (take SaltSize rnd, drop SaltSize rnd)"
  by (simp add: GenerateSalt_def ReadFull_total)

lemma NewFrameBuilder_draws:
  "length k = 32 \<Longrightarrow> 32 \<le> length rnd \<Longrightarrow> \<exists>fb. NewFrameBuilder k rnd = Ok (fb, drop 32 rnd)"
  by (simp add: NewFrameBuilder_def NewBufferedRand_def ReadFull_total)

lemma EncryptBlock_draws:
  "NonceSize \<le> length rnd \<Longrightarrow> EncryptBlock P ReadFull em x rnd =
     Ok (\<lparr>eb_Nonce = take NonceSize rnd, eb_Ciphertext = gcm_seal P (em_key em) (take NonceSize rnd) x []\<rparr>, drop NonceSize rnd)"
  by (simp add: EncryptBlock_def ReadFull_total)

lemma encryptFilename_draws:
  assumes "gcm_correct P" and "length k = 32" and "NonceSize \<le> length rnd"
  shows "\<exists>n. encryptFilename P name k rnd = Ok (n, drop NonceSize rnd) \<and> length n = NonceSize + length name + GCMTagSize"
  using assms gcm_lengthD [OF assms(1)]
  by (simp add: encryptFilename_def EncryptBlock_draws NewEncryptionManager_def GCMTagSize_def)

lemma mm_Seal_draws:
  assumes "length (pm_EncryptedFilename pm) \<le> 0xFFFF" and "knownCodec (pm_Codec pm)"
    and "\<And>a. pm_Attributes pm = Some a \<Longrightarrow> validate a = None" and "NonceSize \<le> length rnd"
  shows "\<exists>mb. mm_Seal P mm pm rnd = Ok (mb, drop NonceSize rnd)"
proof -
  have "\<exists>raw. marshalMetadata pm = Ok raw"
    using assms(1-3) by (cases "pm_Attributes pm") (simp_all add: marshalMetadata_def AppendAttributes_def Let_def)
  with assms(4) show ?thesis by (auto simp: mm_Seal_def EncryptBlock_draws)
qed

text \<open>The parts of an entry that never fail, drawn one after the other.\<close>

lemma seal_chunks_completes: "\<exists>dbs fb'. seal_chunks P Z fb payload = Ok (dbs, fb')"
proof (induction P Z fb payload rule: seal_chunks.induct)
  case (1 P Z fb payload)
  obtain sz fb1 where c: "NextChunkSize P fb = (sz, fb1)" by force
  obtain db fb2 where e: "EncryptChunk P Z fb1 (take (min sz (length payload)) payload) = Ok (db, fb2)"
    using EncryptChunk_total by blast
  show ?case
  proof (cases "payload = []")
    case False
    with e 1 [OF _ c [symmetric] refl, of "(db, fb2)" db fb2] obtain dbs fb' where
      "seal_chunks P Z fb2 (drop (min sz (length payload)) payload) = Ok (dbs, fb')" by auto
    with False c e show ?thesis by (simp add: seal_chunks.simps [of P Z fb] Let_def)
  qed (simp add: seal_chunks.simps)
qed

lemma sealPayloadEntry_completes:
  assumes env: "env_ok P Z" and v: "ks_version (aw_keys aw) = Version2" and rnd: "76 \<le> length rnd" and codec: "knownCodec codec"
  shows "\<exists>en. sealPayloadEntry P Z ty codec payload plaintext (aw, rnd) = (Val en, (aw, drop 76 rnd))"
proof -
  obtain k where k: "FileKey P (aw_keys aw) (take SaltSize rnd) = Ok k" using FileKey_total [OF env_okD(3) [OF env] v] by blast
  have kl: "length k = 32" by (rule FileKey_length [OF k])
  have s: "SaltSize \<le> length rnd" "32 \<le> length (drop SaltSize rnd)" "NonceSize \<le> length (drop 32 (drop SaltSize rnd))"
      "drop NonceSize (drop 32 (drop SaltSize rnd)) = drop 76 rnd"
    using rnd by (simp_all add: SaltSize_def NonceSize_def)
  obtain fb0 where fb0: "NewFrameBuilder k (drop SaltSize rnd) = Ok (fb0, drop 32 (drop SaltSize rnd))"
    using NewFrameBuilder_draws [OF kl s(2)] by blast
  obtain hdr fb1 where hdr: "FrameHeader P fb0 = Ok (hdr, fb1)" using FrameHeader_total by blast
  obtain pad fb2 where pad: "InterBlockPadding P fb1 = Ok (pad, fb2)" using InterBlockPadding_total by blast
  obtain dbs fb3 where dbs: "seal_chunks P Z fb2 payload = Ok (dbs, fb3)" using seal_chunks_completes by blast
  obtain t fb4 where t: "BuildTrailer P fb3 (ComputeHMAC P k plaintext) (word_of_nat (length plaintext)) = Ok (t, fb4)"
    using BuildTrailer_total [OF env_okD(1) [OF env] HMAC_length [OF env_okD(2) [OF env]]] by blast
  obtain mb where mb: "mm_Seal P \<lparr>em_key = k\<rparr> \<lparr>pm_EncryptedFilename = [], pm_SizeBucket = BucketizeSize (int (length plaintext)),
      pm_TimestampHash = replicate 32 0, pm_Permissions = 0, pm_Codec = codec, pm_Attributes = None\<rparr> (drop 32 (drop SaltSize rnd))
      = Ok (mb, drop NonceSize (drop 32 (drop SaltSize rnd)))"
    using mm_Seal_draws [OF _ _ _ s(3), of "\<lparr>pm_EncryptedFilename = [], pm_SizeBucket = BucketizeSize (int (length plaintext)),
      pm_TimestampHash = replicate 32 0, pm_Permissions = 0, pm_Codec = codec, pm_Attributes = None\<rparr>"] codec by auto
  show ?thesis
    using kl
    by (simp add: sealPayloadEntry_def bindS_def drawS_def withWriter_def callS_def GenerateSalt_draws [OF s(1)] DeriveFileKey_def k fb0
        hdr NewMetadataManager_def mb pad dbs t returnS_def s(4) del: drop_drop)
qed

lemma sealSpecialEntry_completes:
  assumes env: "env_ok P Z" and v: "ks_version (aw_keys aw) = Version2" and rnd: "88 \<le> length rnd" and inp: "input_ok inp"
  shows "\<exists>en. sealSpecialEntry P inp (aw, rnd) = (Val en, (aw, drop 88 rnd))"
proof -
  let ?r1 = "drop SaltSize rnd" let ?r2 = "drop 32 ?r1" let ?r3 = "drop NonceSize ?r2"
  obtain k where k: "FileKey P (aw_keys aw) (take SaltSize rnd) = Ok k" using FileKey_total [OF env_okD(3) [OF env] v] by blast
  have kl: "length k = 32" by (rule FileKey_length [OF k])
  have s: "SaltSize \<le> length rnd" "32 \<le> length ?r1" "NonceSize \<le> length ?r2" "NonceSize \<le> length ?r3" "drop NonceSize ?r3 = drop 88 rnd"
    using rnd by (simp_all add: SaltSize_def NonceSize_def)
  obtain fb0 where fb0: "NewFrameBuilder k ?r1 = Ok (fb0, ?r2)" using NewFrameBuilder_draws [OF kl s(2)] by blast
  obtain hdr fb1 where hdr: "FrameHeader P fb0 = Ok (hdr, fb1)" using FrameHeader_total by blast
  obtain pad fb2 where pad: "InterBlockPadding P fb1 = Ok (pad, fb2)" using InterBlockPadding_total by blast
  obtain t fb4 where t: "BuildTrailer P fb2 (ComputeHMAC P k []) 0 = Ok (t, fb4)"
    using BuildTrailer_total [OF env_okD(1) [OF env] HMAC_length [OF env_okD(2) [OF env]]] by blast
  obtain n where n: "encryptFilename P (in_name inp) k ?r2 = Ok (n, ?r3)" "length n \<le> 0xFFFF"
    using encryptFilename_draws [OF env_okD(1) [OF env] kl s(3), of "in_name inp"] inp by (auto simp: input_ok_def)
  let ?pm = "\<lparr>pm_EncryptedFilename = n, pm_SizeBucket = BucketTiny, pm_TimestampHash = replicate 32 0,
      pm_Permissions = a_Mode (in_attrs inp) AND 0x1FF, pm_Codec = CodecNone, pm_Attributes = Some (in_attrs inp)\<rparr>"
  obtain mb where mb: "mm_Seal P \<lparr>em_key = k\<rparr> ?pm ?r3 = Ok (mb, drop NonceSize ?r3)"
    using mm_Seal_draws [OF _ _ _ s(4), of ?pm] n(2) inp by (auto simp: input_ok_def)
  show ?thesis
    using kl
    by (simp add: sealSpecialEntry_def bindS_def drawS_def withWriter_def callS_def GenerateSalt_draws [OF s(1)] DeriveFileKey_def k fb0
        hdr n(1) NewMetadataManager_def mb pad t returnS_def s(5) del: drop_drop)
qed

section \<open>Streaming a file\<close>

text \<open>A file that can be opened is read to its end, or mapped.\<close>

definition readable :: "os \<Rightarrow> bool" where
  "readable fs \<longleftrightarrow> (\<forall>p f. os_Open fs p = Inr f \<longrightarrow> of_mapped f \<noteq> None \<or> s_end (of_r f) = EOF)"

definition policy_full :: "compressionPolicy \<Rightarrow> bool" where
  "policy_full p \<longleftrightarrow> policy_ok p \<and> (po_mode p \<noteq> CompressionNever \<longrightarrow> po_compressor p \<noteq> None)
     \<and> (po_mode p = CompressionAuto \<longrightarrow> po_probeCompressor p \<noteq> None)"

lemma newCompressionPolicy_full: "newCompressionPolicy Z procs opts = Ok p \<Longrightarrow> policy_full p"
  using newCompressionPolicy_ok [of Z procs opts p]
  by (auto simp: policy_full_def newCompressionPolicy_def bindR_Ok_conv CompressionAuto_def CompressionAlways_def CompressionNever_def
      split: if_splits)

lemma codecFor_completes:
  assumes "policy_full p"
  shows "\<exists>codec. codecFor Z lower p name probe = Ok codec \<and> knownCodec codec \<and> (codec = CodecZstd \<longrightarrow> po_compressor p \<noteq> None)"
proof -
  have "CodecNone \<noteq> CodecZstd" by (simp add: CodecNone_def CodecZstd_def)
  with assms show ?thesis
    by (auto simp: codecFor_def policy_full_def CompressionAuto_def CompressionAlways_def CompressionNever_def split: option.splits if_splits)
qed

lemma newFrameBuilder_draws:
  assumes "length k = 32" and "32 \<le> length rnd" and "codec = CodecZstd \<longrightarrow> po_compressor p \<noteq> None"
  shows "\<exists>fb. newFrameBuilder p k codec rnd = Ok (fb, drop 32 rnd)"
  using NewFrameBuilder_draws [OF assms(1,2)] assms(3) by (auto simp: newFrameBuilder_def NewCompressingFrameBuilder_def)

lemma send_all_accepts:
  assumes "accepts K" shows "\<exists>aw'. send_all (send_writer K) dbs aw = (None, aw') \<and> aw_keys aw' = aw_keys aw"
proof (induction dbs arbitrary: aw)
  case (Cons db dbs)
  obtain aw1 where "AppendDataBlock K db aw = Ok aw1" "aw_keys aw1 = aw_keys aw"
    by (simp add: AppendDataBlock_def writeDataBlock_def tee_Write_accepts [OF assms] put_def)
  with Cons [of aw1] show ?case by (auto simp: send_writer_def)
qed simp

lemma encrypt_data_completes:
  assumes K: "accepts K" and d: "decodes P Z block_decoder fb" and f: "of_mapped f \<noteq> None \<or> s_end (of_r f) = EOF"
  shows "\<exists>x fb' n aw'. encrypt_data P Z K k fb f (aw, rnd) = (Val (ComputeHMAC P k x, fb', n), (aw', rnd)) \<and> aw_keys aw' = aw_keys aw"
proof -
  have sent: "\<exists>fb' aw'. run (send_writer K) aw = (Inr (ComputeHMAC P k x, fb'), aw') \<and> aw_keys aw' = aw_keys aw"
    if content: "sends_content P Z block_decoder k fb [] x run" for x and run :: "ArchiveWriter send \<Rightarrow> ArchiveWriter \<Rightarrow> stream_result \<times> ArchiveWriter"
  proof -
    obtain dbs fb' where "run (send_writer K) aw = (case send_all (send_writer K) dbs aw of
        (Some e, k) \<Rightarrow> (Inl e, k) | (None, aw) \<Rightarrow> (Inr (ComputeHMAC P k x, fb'), aw))"
      using content unfolding sends_content_def append_Nil by blast
    with send_all_accepts [OF K, of dbs aw] show ?thesis by auto
  qed
  show ?thesis
  proof (cases "of_mapped f")
    case (Some data)
    obtain fb' aw' where "encryptMmapSequential P Z k (send_writer K) fb [] data aw = (Inr (ComputeHMAC P k data, fb'), aw')"
        "aw_keys aw' = aw_keys aw" using sent [OF mmap_content [OF d]] by blast
    with Some show ?thesis by (auto simp: encrypt_data_def)
  next
    case None
    then have "ends_read (s_end (of_r f))" using f by (simp add: ends_read_def)
    from sent [OF encrypt_stream_content [OF d this]] obtain fb' aw' where
      "encrypt_stream P Z k (send_writer K) fb [] (of_r f) aw = (Inr (ComputeHMAC P k (s_bytes (of_r f)), fb'), aw')"
      "aw_keys aw' = aw_keys aw" by blast
    with None show ?thesis by (auto simp: encrypt_data_def)
  qed
qed

lemma entry_ends_accept:
  assumes "accepts K"
  shows "\<exists>aw'. BeginFileEntry K ty salt hdr mb pad aw = Ok aw' \<and> aw_keys aw' = aw_keys aw"
    and "\<exists>aw'. EndFileEntry K t aw = Ok aw' \<and> aw_keys aw' = aw_keys aw"
  by (simp_all add: BeginFileEntry_def EndFileEntry_def writeByte_def writeMetadataBlock_def writePadding_def writeTrailer_def
      tee_Write_accepts [OF assms] put_def startEntry_def)

text \<open>\<open>settles n m\<close>: with \<open>n\<close> random bytes, \<open>m\<close> gives a value or a recoverable error, and uses no more than those.\<close>

definition settles :: "nat \<Rightarrow> 'a writing \<Rightarrow> bool" where
  "settles n m \<longleftrightarrow> (\<forall>aw rnd. ks_version (aw_keys aw) = Version2 \<longrightarrow> n \<le> length rnd \<longrightarrow>
     (\<exists>r aw' rnd'. m (aw, rnd) = (r, (aw', rnd')) \<and> length rnd \<le> length rnd' + n \<and> aw_keys aw' = aw_keys aw
        \<and> (case r of Val x \<Rightarrow> True | Fail e \<Rightarrow> \<not> IsFatal e | Crash \<Rightarrow> False)))"

lemma addFileStreaming_settles:
  assumes env: "env_ok P Z" and K: "accepts K" and fs: "readable fs" and pol: "policy_full policy" and inp: "input_ok inp"
  shows "settles 88 (addFileStreaming P Z K fs lower policy inp)"
  unfolding settles_def
proof (intro allI impI)
  fix aw :: ArchiveWriter and rnd :: bytes assume v: "ks_version (aw_keys aw) = Version2" and rnd: "88 \<le> length rnd"
  let ?r1 = "drop SaltSize rnd" let ?r2 = "drop 32 ?r1" let ?r3 = "drop NonceSize ?r2" let ?salt = "take SaltSize rnd"
  obtain k where k: "FileKey P (aw_keys aw) ?salt = Ok k" using FileKey_total [OF env_okD(3) [OF env] v] by blast
  have kl: "length k = 32" by (rule FileKey_length [OF k])
  have s: "SaltSize \<le> length rnd" "32 \<le> length ?r1" "NonceSize \<le> length ?r2" "NonceSize \<le> length ?r3" "drop NonceSize ?r3 = drop 88 rnd"
      "length rnd \<le> length ?r1 + 88"
    using rnd by (simp_all add: SaltSize_def NonceSize_def)
  note drawn = GenerateSalt_draws [OF s(1)] DeriveFileKey_def k
  note steps = addFileStreaming_def bindS_def orFail_def drawS_def withWriter_def callS_def writeS_def drawn IsFatal_def recoverable_def
  show "\<exists>r aw' rnd'. addFileStreaming P Z K fs lower policy inp (aw, rnd) = (r, (aw', rnd')) \<and> length rnd \<le> length rnd' + 88
      \<and> aw_keys aw' = aw_keys aw \<and> (case r of Val x \<Rightarrow> True | Fail e \<Rightarrow> \<not> IsFatal e | Crash \<Rightarrow> False)"
  proof (cases "os_Open fs (in_path inp)")
    case (Inr f)
    note f = Inr
    show ?thesis
    proof (cases "of_info f")
      case (Inr info)
      note info = Inr
      show ?thesis
      proof (cases "readProbe f (fi_Size info) (po_mode policy)")
        case (Inl e)
        with f info s(6) show ?thesis by (simp add: steps)
      next
        case (Inr probe)
        obtain codec where codec: "codecFor Z lower policy (in_name inp) probe = Ok codec" "knownCodec codec"
            "codec = CodecZstd \<longrightarrow> po_compressor policy \<noteq> None"
          using codecFor_completes [OF pol] by blast
        obtain fb0 where fb0: "newFrameBuilder policy k codec ?r1 = Ok (fb0, ?r2)" using newFrameBuilder_draws [OF kl s(2) codec(3)] by blast
        have d: "decodes P Z block_decoder fb0"
          using newFrameBuilder_fields(3) [OF fb0 _ kl env_okD(2) [OF env] codecFor_known [OF codec(1)]] pol by (simp add: policy_full_def)
        obtain hdr fb1 where hdr: "FrameHeader P fb0 = Ok (hdr, fb1)" "same_file fb0 fb1" using FrameHeader_total by blast
        obtain n where n: "encryptFilename P (in_name inp) k ?r2 = Ok (n, ?r3)" "length n \<le> 0xFFFF"
          using encryptFilename_draws [OF env_okD(1) [OF env] kl s(3), of "in_name inp"] inp by (auto simp: input_ok_def)
        let ?pm = "file_metadata P ?salt n info codec (in_attrs inp)"
        obtain mb where mb: "mm_Seal P \<lparr>em_key = k\<rparr> ?pm ?r3 = Ok (mb, drop NonceSize ?r3)"
          using mm_Seal_draws [OF _ _ _ s(4), of ?pm] n(2) codec(2) inp by (auto simp: input_ok_def)
        obtain pad fb2 where pad: "InterBlockPadding P fb1 = Ok (pad, fb2)" "same_file fb1 fb2" using InterBlockPadding_total by blast
        obtain aw1 where aw1: "BeginFileEntry K EntryTypeFile ?salt hdr mb pad aw = Ok aw1" "aw_keys aw1 = aw_keys aw"
          using entry_ends_accept(1) [OF K] by blast
        have "of_mapped f \<noteq> None \<or> s_end (of_r f) = EOF" using fs f by (auto simp: readable_def)
        from encrypt_data_completes [OF K same_file_decodes [OF same_file_trans [OF hdr(2) pad(2)] d] this]
        obtain x fb3 sz aw2 where data: "encrypt_data P Z K k fb2 f (aw1, drop 88 rnd) = (Val (ComputeHMAC P k x, fb3, sz), (aw2, drop 88 rnd))"
            "aw_keys aw2 = aw_keys aw1" by blast
        obtain t fb4 where t: "BuildTrailer P fb3 (ComputeHMAC P k x) (word_of_nat sz) = Ok (t, fb4)"
          using BuildTrailer_total [OF env_okD(1) [OF env] HMAC_length [OF env_okD(2) [OF env]]] by blast
        obtain aw3 where aw3: "EndFileEntry K t aw2 = Ok aw3" "aw_keys aw3 = aw_keys aw2" using entry_ends_accept(2) [OF K] by blast
        show ?thesis
          using kl rnd f info Inr
          by (simp add: steps codec(1) fb0 hdr(1) NewMetadataManager_def n(1) Let_def mb pad(1) aw1 s(5) data t aw3 returnS_def del: drop_drop)
      qed
    qed (use f in \<open>simp add: steps\<close>)
  qed (simp add: steps)
qed

section \<open>A whole run\<close>

text \<open>\<open>completes n m s\<close>: with \<open>n\<close> random bytes, \<open>m\<close> returns from \<open>s\<close>, and what a run carries along stays.\<close>

definition ready :: "nat \<Rightarrow> 'z session_scheme \<Rightarrow> bool" where
  "ready n s \<longleftrightarrow> n \<le> length (ss_rnd s) \<and> ks_version (aw_keys (ss_w s)) = Version2"

definition completes :: "nat \<Rightarrow> ('z session_scheme, unit) op \<Rightarrow> 'z session_scheme \<Rightarrow> bool" where
  "completes n m s \<longleftrightarrow> (\<exists>s'. m s = (Val (), s') \<and> length (ss_rnd s) \<le> length (ss_rnd s') + n
     \<and> aw_keys (ss_w s') = aw_keys (ss_w s) \<and> session.more s' = session.more s)"

lemma completes_bind:
  assumes "completes n m s" and "\<And>s'. m s = (Val (), s') \<Longrightarrow> session.more s' = session.more s \<Longrightarrow> ready k s' \<Longrightarrow> completes k (f ()) s'"
    and "ready (n + k) s"
  shows "completes (n + k) (bindS m f) s"
proof -
  obtain s' where s': "m s = (Val (), s')" "length (ss_rnd s) \<le> length (ss_rnd s') + n"
      "aw_keys (ss_w s') = aw_keys (ss_w s)" "session.more s' = session.more s"
    using assms(1) by (auto simp: completes_def)
  have "ready k s'" using assms(3) s' by (simp add: ready_def)
  from assms(2) [OF s'(1,4) this] s' show ?thesis by (fastforce simp: completes_def bindS_def)
qed

lemma completes_return: "completes 0 (returnS ()) s"
  by (simp add: completes_def returnS_def)

lemma dir_add_completes:
  assumes "ValidEntryName (dr_Name r)" and "validate (dr_Attributes r) = None"
    and "a_Kind (dr_Attributes r) = KindRegular \<or> \<not> dr_has_data r"
  shows "completes 0 (dir_add r) s"
  using assms by (auto simp: completes_def dir_add_def AppendDirectoryRecord_def AppendAttributes_def)

lemma dir_addEntry_completes:
  assumes "input_ok inp" and "in_regular inp \<or> es_original summary = 0 \<and> snd (LastEntry (ss_w s)) = 0"
  shows "completes 0 (dir_addEntry inp summary) s"
proof -
  obtain off stored where l: "LastEntry (ss_w s) = (off, stored)" by force
  have "completes 0 (dir_add \<lparr>dr_Offset = word_of_nat off, dr_Name = in_name inp, dr_Attributes = in_attrs inp,
      dr_SizeBucket = es_bucket summary, dr_Codec = es_codec summary, dr_Solid = False,
      dr_OriginalSize = word_of_nat (es_original summary), dr_StoredSize = word_of_int stored\<rparr>) s"
    by (rule dir_add_completes) (use assms l in \<open>auto simp: input_ok_def in_regular_def dr_has_data_def\<close>)
  then show ?thesis unfolding completes_def dir_addEntry_def withS_def l prod.case .
qed

lemma addStreamed_settles:
  assumes w: "settles n (addFileStreaming P Z K fs lower policy inp)" and inp: "input_ok inp" "in_regular inp" and s: "ready n s"
  shows "completes n (orReport path (addStreamed P Z K fs lower policy inp)) s"
proof -
  obtain r aw' rnd' where r: "addFileStreaming P Z K fs lower policy inp (ss_w s, ss_rnd s) = (r, (aw', rnd'))"
      "length (ss_rnd s) \<le> length rnd' + n" "aw_keys aw' = aw_keys (ss_w s)"
      "case r of Val x \<Rightarrow> True | Fail e \<Rightarrow> \<not> IsFatal e | Crash \<Rightarrow> False"
    using w s unfolding settles_def ready_def by blast
  let ?s = "s\<lparr>ss_w := aw', ss_rnd := rnd'\<rparr>"
  show ?thesis
  proof (cases r)
    case (Val x)
    have "completes 0 (dir_addEntry inp x) ?s" by (rule dir_addEntry_completes) (use inp in simp_all)
    then obtain s' where "dir_addEntry inp x ?s = (Val (), s')" "length rnd' \<le> length (ss_rnd s')" "aw_keys (ss_w s') = aw_keys aw'"
        "session.more s' = session.more s" by (auto simp: completes_def)
    with Val r show ?thesis by (simp add: completes_def orReport_def catchS_def addStreamed_def bindS_def onWriter_def)
  next
    case (Fail e)
    with r show ?thesis by (simp add: completes_def orReport_def catchS_def addStreamed_def bindS_def onWriter_def FileError_def)
  qed (use r in simp)
qed

lemma addInputs_completes:
  assumes env: "env_ok P Z" and K: "accepts K" and fs: "readable fs" and pol: "policy_full policy" "\<not> po_solid policy"
  shows "list_all (\<lambda>f. input_ok f \<and> in_regular f) files \<Longrightarrow> ready (length files * 88) s
    \<Longrightarrow> completes (length files * 88) (addInputs P Z K fs lower policy files) s"
proof (induction files arbitrary: s)
  case (Cons inp files)
  have "ready 88 s" using Cons.prems(2) by (simp add: ready_def)
  from addStreamed_settles [OF addFileStreaming_settles [OF env K fs pol(1)] _ _ this] Cons.prems(1) pol(2)
  have "completes 88 (orReport (in_path inp) (addInput P Z K fs lower policy inp)) s" by (simp add: addInput_def)
  from completes_bind [OF this] Cons show ?case by simp
qed (simp add: completes_return)

lemma writeSpecialEntries_completes:
  assumes env: "env_ok P Z" and K: "accepts K"
  shows "list_all input_ok special \<Longrightarrow> ready (length special * 88) s
    \<Longrightarrow> completes (length special * 88) (writeSpecialEntries P K special) s"
proof (induction special arbitrary: s)
  case (Cons inp special)
  let ?aw = "ss_w s" and ?rnd = "ss_rnd s"
  have r: "88 \<le> length ?rnd" and v: "ks_version (aw_keys ?aw) = Version2" and inp: "input_ok inp"
    using Cons.prems by (simp_all add: ready_def)
  obtain en where en: "sealSpecialEntry P inp (?aw, ?rnd) = (Val en, (?aw, drop 88 ?rnd))"
    using sealSpecialEntry_completes [OF env v r inp] by blast
  have db: "fe_DataBlocks en = []" using sealSpecialEntry_entry [OF env_okD(2) [OF env] en] by simp
  let ?s = "s\<lparr>ss_rnd := drop 88 ?rnd, ss_w := put_entry_of en ?aw\<rparr>"
  have "completes 0 (dir_addEntry inp specialSummary) ?s"
    by (rule dir_addEntry_completes) (use inp db in \<open>simp_all add: put_entry_fields specialSummary_def stored_size_def\<close>)
  then obtain s' where s': "dir_addEntry inp specialSummary ?s = (Val (), s')" "length ?rnd \<le> length (ss_rnd s') + 88"
      "aw_keys (ss_w s') = aw_keys ?aw" "session.more s' = session.more s"
    by (auto simp: completes_def put_entry_fields)
  have "ready (length special * 88) s'" using Cons.prems(2) s' by (simp add: ready_def)
  with Cons.IH Cons.prems(1) obtain s2 where "writeSpecialEntries P K special s' = (Val (), s2)"
      "length (ss_rnd s') \<le> length (ss_rnd s2) + length special * 88" "aw_keys (ss_w s2) = aw_keys (ss_w s')"
      "session.more s2 = session.more s'"
    by (auto simp: completes_def)
  with s' en show ?case
    by (simp add: completes_def bindS_def onWriter_def writeS_def WriteFileEntry_accepts [OF K])
qed (simp add: completes_return)

text \<open>A key signs every message with a signature that fits the block.\<close>

definition signs :: "prims \<Rightarrow> ('p, 's) ssh \<Rightarrow> 's option \<Rightarrow> bool" where
  "signs P S signer \<longleftrightarrow> (\<forall>sg m. signer = Some sg \<longrightarrow>
     (\<exists>b. SignMessage P S sg m = Ok b \<and> b \<noteq> [] \<and> length b \<le> MaxSignatureSize))"

lemma finishArchive_completes:
  assumes env: "env_ok P Z" and K: "accepts K" and sg: "signs P S signer" and s: "ready 76 s"
  shows "\<exists>s'. finishArchive P Z K S signer s = (Val (), s')"
proof -
  have d: "\<exists>s1. dir_write P Z K s = (Val (), s1)"
  proof (cases "dd_full (ss_dir s)")
    case True
    then show ?thesis by (simp add: dir_write_def withS_def returnS_def)
  next
    case False
    have r: "76 \<le> length (ss_rnd s)" and v: "ks_version (aw_keys (ss_w s)) = Version2" using s by (simp_all add: ready_def)
    obtain en where "sealPayloadEntry P Z EntryTypeDirectory CodecNone (dd_plaintext (ss_dir s)) (dd_plaintext (ss_dir s)) (ss_w s, ss_rnd s)
        = (Val en, (ss_w s, drop 76 (ss_rnd s)))"
      using sealPayloadEntry_completes [OF env v r] by (metis knownCodec_simps(1))
    with False show ?thesis
      by (simp add: dir_write_def withS_def Let_def bindS_def onWriter_def writeS_def WriteFileEntry_accepts [OF K]
          WriteDirectoryLocator_def tee_Write_accepts [OF K])
  qed
  then obtain s1 where s1: "dir_write P Z K s = (Val (), s1)" by blast
  have raw: "raw_Write K b aw = Ok (aw\<lparr>aw_out := aw_out aw @ b\<rparr>)" "sk_Flush K b = None" for b aw
    using K by (simp_all add: accepts_def raw_Write_def)
  have "\<exists>aw. WriteFooter P K (ss_w s1) = Ok aw"
    by (cases "ac_Sum P (aw_hasher (put [EntryTypeEnd] (ss_w s1))) []")
      (simp add: WriteFooter_def writeByte_def tee_Write_accepts [OF K] raw)
  then obtain aw where aw: "WriteFooter P K (ss_w s1) = Ok aw" by blast
  show ?thesis
  proof (cases signer)
    case None
    with s1 aw show ?thesis by (simp add: finishArchive_def bindS_def onWriter_def writeS_def returnS_def)
  next
    case (Some k)
    then obtain b where "SignMessage P S k (aw_checksum aw) = Ok b" "b \<noteq> []" "length b \<le> MaxSignatureSize"
      using sg unfolding signs_def by blast
    with s1 aw Some show ?thesis
      by (simp add: finishArchive_def bindS_def onWriter_def writeS_def withS_def signatureBlock_def callS_def
          AppendSignatureBlock_def raw)
  qed
qed

lemma policy_solid: "newCompressionPolicy Z procs opts = Ok p \<Longrightarrow> po_solid p = co_Solid opts"
  by (auto simp: newCompressionPolicy_def bindR_Ok_conv split: if_splits)

lemma run_completes:
  assumes env: "env_ok P Z" and K: "accepts K" and fs: "readable fs" and inp: "list_all input_ok entries" and sg: "signs P S signer"
    and new: "NewStreamingArchiver P A Z procs K password cfg rnd = (Val (s0, policy), rnd0)"
    and solid: "\<not> co_Solid (cf_compression cfg)" and rnd: "88 * length entries + 76 \<le> length rnd0"
  shows "\<exists>s1 s2. addWalked P Z K fs lower policy entries s0 = (Val (), s1) \<and> Finalize P Z K fs lower policy S signer s1 = (Val (), s2)"
proof -
  obtain aw0 rnd1 aw where h: "NewArchiveWriter P A (archiveCredentials password cfg) rnd = Ok (aw0, rnd1)"
      "WriteHeaderWithFlags P K 0 0 aw0 rnd1 = Ok (aw, rnd0)" "s0 = newStreaming aw rnd0"
    and pol: "newCompressionPolicy Z procs (cf_compression cfg) = Ok policy"
    using NewStreamingArchiver_start [OF new] by blast
  note v = streaming_start(2) [OF h(1,2)]
  have p: "policy_full policy" "\<not> po_solid policy" using newCompressionPolicy_full [OF pol] policy_solid [OF pol] solid by simp_all
  obtain files special where sp: "splitSpecial entries = (files, special)" by force
  have len: "length files + length special = length entries"
    using splitSpecial_mset [OF sp] by (metis size_mset size_union)
  have ok: "list_all (\<lambda>f. input_ok f \<and> in_regular f) files" "list_all input_ok special"
    using sp inp by (auto simp: splitSpecial_def list_all_iff)
  let ?s = "s0\<lparr>sa_special := special\<rparr>"
  have n: "88 * length entries = length files * 88 + length special * 88" using len by simp
  have "ready (length files * 88) ?s" using rnd v n by (simp add: ready_def h(3) newStreaming_def)
  from addInputs_completes [OF env K fs p ok(1) this] obtain s1 where
    s1: "addInputs P Z K fs lower policy files ?s = (Val (), s1)" "length rnd0 \<le> length (ss_rnd s1) + length files * 88"
      "aw_keys (ss_w s1) = aw_keys aw" "session.more s1 = session.more ?s"
    by (auto simp: completes_def h(3) newStreaming_def)
  have f: "sa_pending s1 = []" "sa_special s1 = special" using more_fields [OF s1(4)] by (simp_all add: h(3) newStreaming_def)
  let ?s1 = "s1\<lparr>sa_pending := [], sa_pendingSize := 0\<rparr>"
  have r1: "ready (length special * 88 + 76) ?s1" using s1 rnd v n by (simp add: ready_def)
  then have "ready (length special * 88) ?s1" by (simp add: ready_def)
  from writeSpecialEntries_completes [OF env K ok(2) this] obtain s2 where
    s2: "writeSpecialEntries P K special ?s1 = (Val (), s2)" "length (ss_rnd ?s1) \<le> length (ss_rnd s2) + length special * 88"
      "aw_keys (ss_w s2) = aw_keys (ss_w ?s1)"
    by (auto simp: completes_def)
  have "ready 76 s2" using r1 s2 by (simp add: ready_def)
  from finishArchive_completes [OF env K sg this] obtain s3 where s3: "finishArchive P Z K S signer s2 = (Val (), s3)" by blast
  have "addWalked P Z K fs lower policy entries s0 = (Val (), s1)"
    using s1(1) by (simp add: addWalked_def sp bindS_def updateS_def h(3) newStreaming_def)
  moreover have "Finalize P Z K fs lower policy S signer s1 = (Val (), s3)"
    using f s2(1) s3 by (simp add: Finalize_def bindS_def flushSolid_def withS_def updateS_def returnS_def)
  ultimately show ?thesis by blast
qed


section \<open>A concrete run\<close>

text \<open>Two files, one of which cannot be opened, and a directory.\<close>

definition sample_cfg :: "nat archiverConfig" where
  "sample_cfg = \<lparr>cf_compression = DefaultCompressionOptions, cf_keyFiles = [], cf_ageRecipients = []\<rparr>"

definition sample_file :: osFile where
  "sample_file = \<lparr>of_info = Inr \<lparr>fi_Size = 3, fi_ModTime = 0, fi_Perm = 0x1A4, fi_Regular = True\<rparr>,
     of_r = Stream [1, 2, 3] EOF, of_ReadAt = (\<lambda>n. ([1, 2, 3], Some EOF)), of_mapped = None\<rparr>"

definition sample_os :: os where
  "sample_os = \<lparr>os_Stat = (\<lambda>p. if p = str ''/a'' then of_info sample_file else Inl (Errorf ''no such file'')),
     os_Open = (\<lambda>p. if p = str ''/a'' then Inr sample_file else Inl (Errorf ''no such file''))\<rparr>"

definition sample_input :: "string \<Rightarrow> FileKind \<Rightarrow> inputFile" where
  "sample_input name kind = \<lparr>in_path = str (CHR ''/'' # name), in_name = str name,
     in_attrs = \<lparr>a_Kind = kind, a_Mode = 0x1A4, a_ModTime = 0, a_LinkTarget = [], a_Owner = None, a_Xattrs = []\<rparr>\<rparr>"

definition sample_inputs :: "inputFile list" where
  "sample_inputs = [sample_input ''a'' KindRegular, sample_input ''b'' KindRegular, sample_input ''d'' KindDirectory]"

definition sample_rnd :: bytes where
  "sample_rnd = replicate 32 5 @ replicate 44 0 @ replicate 12 0 @ replicate 340 0"

lemma sample_ok:
  "env_ok toy_prims toy_zstd" "readable sample_os" "os_ok sample_os" "signs toy_prims toy_ssh signer"
  "z_NewReader toy_zstd MaxSolidStreamSize MaxSolidStreamSize = Ok ()" "\<not> co_Solid (cf_compression sample_cfg)"
proof -
  show "env_ok toy_prims toy_zstd" by (simp add: env_ok_def toy_lib_ok toy_prims_correct)
  show "readable sample_os" "os_ok sample_os" by (simp_all add: readable_def os_ok_def sample_os_def sample_file_def)
  show "signs toy_prims toy_ssh signer"
    by (simp add: signs_def toy_ssh_def SignMessage_def allowedSignatureFormats_def checkRSASize_def Let_def appendSSHString_string
        ssh_string_def sshsigMagic_def SignatureNamespace_def sshsigHashAlgo_def MaxSignatureSize_def str_def)
qed (simp_all add: toy_zstd_def sample_cfg_def DefaultCompressionOptions_def)

lemma sample_inputs_ok: "list_all input_ok sample_inputs"
  by (simp add: sample_inputs_def sample_input_def input_ok_def ValidEntryName_def str_def slash_def backslash_def dot_def MaxEntryNameLen_def NonceSize_def
      GCMTagSize_def validate_def KindRegular_def KindDirectory_def KindHardlink_def KindSymlink_def ModeMask_def)

lemma sample_start:
  "\<exists>s0 policy. NewStreamingArchiver toy_prims toy_age toy_zstd 4 open_sink (str ''pw'') sample_cfg sample_rnd
     = (Val (s0, policy), replicate 340 0)"
proof -
  obtain aw where aw: "NewArchiveWriter toy_prims toy_age sample_creds sample_rnd = Ok (aw, replicate 12 0 @ replicate 340 0)"
      "aw_keys aw = NewVersion2KeySchedule (replicate 32 5)"
    using sample_writer [of "replicate 12 0 @ replicate 340 0"] unfolding sample_rnd_def by blast
  have "\<exists>c. SealFileCount toy_prims (aw_keys aw) 0 (replicate 12 0 @ replicate 340 0) = Ok (c, replicate 340 0)"
    by (rule SealFileCount_total) (simp_all add: toy_prims_correct aw(2) NewVersion2KeySchedule_def NonceSize_def)
  then obtain aw' where w: "WriteHeader toy_prims open_sink 0 aw (replicate 12 0 @ replicate 340 0) = Ok (aw', replicate 340 0)"
    by (auto simp: WriteHeader_def WriteHeaderWithFlags_def writeHeader_def tee_Write_accepts [OF open_sink_accepts])
  have p: "\<exists>policy. newCompressionPolicy toy_zstd 4 (cf_compression sample_cfg) = Ok policy"
    by (simp add: newCompressionPolicy_def sample_cfg_def DefaultCompressionOptions_def CompressionAuto_def CompressionNever_def
        NewBlockCompressor_def newCompressor_def toy_zstd_def Let_def)
  have "archiveCredentials (str ''pw'') sample_cfg = sample_creds"
    by (simp add: archiveCredentials_def sample_cfg_def sample_creds_def str_def)
  then have "newCredentialedWriter toy_prims toy_age (str ''pw'') sample_cfg sample_rnd = (Val aw, replicate 12 0 @ replicate 340 0)"
    using aw(1) by (simp add: newCredentialedWriter_def str_def)
  with p w show ?thesis
    by (auto simp: NewStreamingArchiver_def openArchiveWriter_def bindS_def callS_def)
qed


lemma sample_run:
  "\<exists>s0 policy s1 s2. NewStreamingArchiver toy_prims toy_age toy_zstd 4 open_sink (str ''pw'') sample_cfg sample_rnd
       = (Val (s0, policy), replicate 340 0)
     \<and> addWalked toy_prims toy_zstd open_sink sample_os id policy sample_inputs s0 = (Val (), s1)
     \<and> Finalize toy_prims toy_zstd open_sink sample_os id policy toy_ssh (Some ()) s1 = (Val (), s2)"
proof -
  obtain s0 policy where s0: "NewStreamingArchiver toy_prims toy_age toy_zstd 4 open_sink (str ''pw'') sample_cfg sample_rnd
       = (Val (s0, policy), replicate 340 0)" using sample_start by blast
  have "88 * length sample_inputs + 76 \<le> length (replicate 340 0 :: bytes)" by (simp add: sample_inputs_def)
  from run_completes [OF sample_ok(1) open_sink_accepts sample_ok(2) sample_inputs_ok sample_ok(4) s0 sample_ok(6) this] s0
  show ?thesis by blast
qed

theorem streamed_archive_lists_witness:
  "\<exists>keys h rest results foot out.
     readHeader toy_prims toy_age \<lparr>u_Password = str ''pw'', u_KeyFiles = [], u_Identities = [7]\<rparr> (Stream out EOF)
       = (Val (keys, h), Stream rest EOF)
     \<and> scanList toy_prims toy_zstd keys (Stream rest EOF) = ((results, Val ()), foot)
     \<and> (\<exists>archived failed stored. mset archived + mset failed = mset sample_inputs
         \<and> list_all2 (stored_file sample_os) archived stored \<and> list_all2 describes stored results)"
proof -
  obtain s0 policy s1 s2 where r: "NewStreamingArchiver toy_prims toy_age toy_zstd 4 open_sink (str ''pw'') sample_cfg sample_rnd
       = (Val (s0, policy), replicate 340 0)"
     "addWalked toy_prims toy_zstd open_sink sample_os id policy sample_inputs s0 = (Val (), s1)"
     "Finalize toy_prims toy_zstd open_sink sample_os id policy toy_ssh (Some ()) s1 = (Val (), s2)"
    using sample_run by blast
  have c: "CredPassword (str ''pw'') \<in> set (cred_list (archiveCredentials (str ''pw'') sample_cfg))"
    by (simp add: archiveCredentials_def cred_list_def str_def)
  have o: "opens (\<lambda>rs is. is \<noteq> []) \<lparr>u_Password = str ''pw'', u_KeyFiles = [], u_Identities = [7 :: nat]\<rparr> (CredPassword (str ''pw'') :: nat cred)"
    by simp
  from streamed_archive_lists [OF toy_lib_ok toy_prims_wrap_laws toy_age_correct sample_ok(3,5) r c o, of "()"]
  show ?thesis by blast
qed

theorem streamed_archive_verifies_witness:
  "\<exists>out. VerifyArchive toy_prims toy_ssh [out] [] EOF () =
    (Val \<lparr>vr_ChecksumOK = True, vr_Signed = True, vr_Signer = Some (), vr_SignatureErr = None\<rparr>, ())"
proof -
  obtain s0 policy s1 s2 where r: "NewStreamingArchiver toy_prims toy_age toy_zstd 4 open_sink (str ''pw'') sample_cfg sample_rnd
       = (Val (s0, policy), replicate 340 0)"
     "addWalked toy_prims toy_zstd open_sink sample_os id policy sample_inputs s0 = (Val (), s1)"
     "Finalize toy_prims toy_zstd open_sink sample_os id policy toy_ssh (Some ()) s1 = (Val (), s2)"
    using sample_run by blast
  from streamed_archive_verifies [OF toy_lib_ok toy_ssh_correct sample_ok(3,5) r, of "[aw_out (ss_w s2)]" "[]" "()"]
  show ?thesis by (intro exI [of _ "aw_out (ss_w s2)"]) simp
qed

theorem recoverable_writes_nothing_witness:
  "\<exists>e aw'. addFileStreaming toy_prims toy_zstd open_sink sample_os id
       \<lparr>po_mode = CompressionNever, po_solid = False, po_compressor = None, po_solidCompressor = None, po_probeCompressor = None\<rparr>
       (sample_input ''b'' KindRegular) (newArchiveWriter (NewVersion2KeySchedule []) [] NewArchiveChecksum 0, [1])
     = (Fail e, (aw', [1])) \<and> \<not> IsFatal e \<and> aw' = newArchiveWriter (NewVersion2KeySchedule []) [] NewArchiveChecksum 0"
proof -
  let ?run = "addFileStreaming toy_prims toy_zstd open_sink sample_os id
       \<lparr>po_mode = CompressionNever, po_solid = False, po_compressor = None, po_solidCompressor = None, po_probeCompressor = None\<rparr>
       (sample_input ''b'' KindRegular) (newArchiveWriter (NewVersion2KeySchedule []) [] NewArchiveChecksum 0, [1])"
  have "\<exists>e aw'. ?run = (Fail e, (aw', [1])) \<and> \<not> IsFatal e"
    by (simp add: addFileStreaming_def bindS_def orFail_def sample_os_def sample_input_def str_def IsFatal_def recoverable_def)
  then obtain e aw' where r: "?run = (Fail e, (aw', [1]))" "\<not> IsFatal e" by blast
  from recoverable_writes_nothing [OF r] r show ?thesis by blast
qed

end
