(* ===== verification/Extract_Archive.thy ===== *)
theory Extract_Archive
  imports Extraction_Roundtrip Incremental_Restore Archive_Completes
begin

text \<open>
  \<^verbatim>\<open>Extract\<close> as a whole (\<^verbatim>\<open>io/extractor.go\<close>) on one-pass archives: extracting what a streaming run wrote
  restores it, and extracting arbitrary bytes publishes only what is vouched for.
\<close>

section \<open>Closing the tree\<close>

definition close_calls :: "bool \<Rightarrow> path \<times> Attributes \<Rightarrow> call list" where
  "close_calls own = (\<lambda>(p, a). [OpenAt p] @ attr_calls own p a @ [CloseAt p] @ mtime_calls p a)"

definition deepest_first :: "(path \<times> Attributes) list \<Rightarrow> (path \<times> Attributes) list" where
  "deepest_first = sort_key (\<lambda>(p, a). - int (count_list p slash))"

lemma close_dir_willing:
  assumes "willing W"
  shows "does (close_calls (ot_restoreOwner t) d) t (close_dir W d t)"
proof -
  obtain p a where d: "d = (p, a)" by force
  obtain t1 where 1: "sys W (OpenAt p) t = (None, t1)" "does [OpenAt p] t t1" using sys_willing [OF assms, of "OpenAt p"] by auto
  have o: "ot_restoreOwner t1 = ot_restoreOwner t" using 1(2) by (simp add: does_def)
  note 2 = does_trans [OF does_trans [OF does_trans [OF 1(2) applyAttributes_does [of t1 p a W p 0]] sysDrop_does [of "CloseAt p"]]
      setModTime_does [of p a]]
  from 2 [of W W] show ?thesis by (simp add: d close_dir_def 1(1) o close_calls_def)
qed

lemma ot_close_willing:
  assumes w: "willing W" and root: "ot_root t \<or> ot_dirs t = []"
  shows "calls (ot_close W t) = calls t @ concat (map (close_calls (ot_restoreOwner t)) (deepest_first (ot_dirs t)))"
proof -
  have "does (concat (map (close_calls (ot_restoreOwner t)) ds)) t (fold (close_dir W) ds t)" for ds t
  proof (induction ds arbitrary: t)
    case (Cons d ds)
    have s: "does (close_calls (ot_restoreOwner t) d) t (close_dir W d t)" by (rule close_dir_willing [OF w])
    then have "ot_restoreOwner (close_dir W d t) = ot_restoreOwner t" by (simp add: does_def)
    with does_trans [OF s Cons.IH] show ?case by simp
  qed simp
  with root show ?thesis by (auto simp: ot_close_def deepest_first_def does_def)
qed

section \<open>What a streaming run wrote\<close>

lemma extract_finished:
  assumes fin: "finished P Z S signer hdr keys ens d (hdr @ rest)" and items: "list_all2 (holds P Z keys) items ens"
    and lib: "lib_ok P Z" and v: "ks_version keys = Version2" and w: "willing W"
    and fine: "list_all file_fine (stored_files items)" and rnd: "8 * length (stored_files items) \<le> length (ot_rnd t)"
  shows "\<exists>foot t'. extract_entries P Z W keys [] (Stream rest EOF, t) = ((results_of (stored_files items), Val ()), foot, t')
    \<and> extracts (stored_files items) t t'"
proof -
  obtain b foot where b: "directory_bytes P Z keys d (length (hdr @ concat (map entry_bytes ens))) b"
    and rest: "rest = concat (map entry_bytes ens) @ b @ EntryTypeEnd # foot"
    using fin by (auto simp: finished_def)
  have "nextEntryType P keys (Stream (b @ EntryTypeEnd # foot) EOF) = nextEntryType P keys (Stream (EntryTypeEnd # foot) EOF)"
    using b v by (auto simp: directory_bytes_def nextEntryType_directory nextEntryType_locator split: if_splits)
  then have "extract_entries P Z W keys rs (Stream (b @ EntryTypeEnd # foot) EOF, t) = ((rs, Val ()), Stream foot EOF, t)" for rs t
    by (simp add: extract_entries.simps [of P Z W keys rs] nextEntryType_end [OF v])
  with extract_items [OF items w lib v fine rnd, of "[]" "b @ EntryTypeEnd # foot" EOF] show ?thesis by (auto simp: rest)
qed

lemma stored_fine:
  assumes "list_all2 (stored_file fs) archived stored" and "\<forall>i \<in> set archived. input_ok i"
  shows "list_all file_fine stored"
  using assms
proof (induction rule: list_all2_induct)
  case (Cons i archived x xs)
  have "file_fine x"
    using Cons.hyps(1) Cons.prems by (cases x) (auto simp: stored_file_def file_fine_def input_ok_def in_regular_def)
  with Cons show ?case by simp
qed simp

lemma extract_session:
  assumes lib: "lib_ok P Z" "wrap_laws P" "age_correct A m" and dec: "NewBlockDecompressor Z = Ok dec"
    and h: "NewArchiveWriter P A creds rnd = Ok (aw0, rnd1)" "WriteHeaderWithFlags P K 0 0 aw0 rnd1 = Ok (aw, rnd0)"
    and ok: "session_ok P Z fs (aw_out aw) (aw_keys aw) L (s :: 'z session_scheme)" "accounts L = mset entries"
    and f: "finished P Z S signer (aw_out aw) (aw_keys aw) (lg_entries L) (ss_dir s) out"
    and c: "c \<in> set (cred_list creds)" "opens m u c"
    and inputs: "list_all input_ok entries" and w: "willing W" and rnd': "8 * length entries \<le> length rnd'"
  shows "\<exists>archived failed stored t segs. mset archived + mset failed = mset entries
    \<and> map fst (ss_errors s) = map in_path failed \<and> list_all2 (stored_file fs) archived stored
    \<and> Extract P A Z W u dir own rnd' random (Stream out EOF) = ((results_of stored, Val ()), t)
    \<and> list_all2 (restores own) stored segs
    \<and> calls t = concat segs @ concat (map (close_calls own) (deepest_first (directories stored)))"
proof -
  note start = streaming_start [OF h]
  obtain rest where out: "out = aw_out aw @ rest" using f by (auto simp: finished_def)
  obtain hd where hd: "readHeader P A u (Stream (aw_out aw @ rest) EOF) = (Val (aw_keys aw, hd), Stream rest EOF)" "hi_flags hd = 0"
    using header_opens [OF lib(2) _ lib(3) h c, of rest EOF] lib(1) by (auto simp: lib_ok_def)
  let ?stored = "stored_files (lg_items L)"
  have so: "list_all2 (holds P Z (aw_keys aw)) (lg_items L) (lg_entries L)" "list_all2 (stored_file fs) (lg_archived L) ?stored"
      "map fst (ss_errors s) = map in_path (lg_failed L)"
    using ok(1) by (simp_all add: session_ok_def stored_files_def)
  have ms: "mset (lg_archived L) + mset (lg_failed L) = mset entries" using ok(2) by (simp add: accounts_def)
  then have "set (lg_archived L) \<subseteq> set entries" by (metis set_mset_mset set_mset_mono mset_subset_eq_add_left)
  then have fine: "list_all file_fine ?stored" using stored_fine [OF so(2)] inputs by (auto simp: list_all_iff)
  have "length ?stored \<le> length entries"
    using arg_cong [OF ms, of size] list_all2_lengthD [OF so(2)] by simp
  then have rnd: "8 * length ?stored \<le> length (ot_rnd (newOutputTree dir own rnd'))" using rnd' by (simp add: newOutputTree_def)
  obtain foot t1 where x: "extract_entries P Z W (aw_keys aw) [] (Stream rest EOF, newOutputTree dir own rnd')
      = ((results_of ?stored, Val ()), foot, t1)" "extracts ?stored (newOutputTree dir own rnd') t1"
    using extract_finished [OF f [unfolded out] so(1) lib(1) start(2) w fine rnd] by blast
  from x(2) obtain segs where segs: "list_all2 (restores own) ?stored segs" "calls t1 = concat segs"
    and t1: "ot_restoreOwner t1 = own" "ot_dirs t1 = directories ?stored" "?stored \<noteq> [] \<longrightarrow> ot_root t1"
    by (auto simp: extracts_def newOutputTree_def calls_def)
  have "ot_root t1 \<or> ot_dirs t1 = []" using t1 by (auto simp: directories_def)
  note cl = ot_close_willing [OF w this]
  have "Extract P A Z W u dir own rnd' random (Stream out EOF) = ((results_of ?stored, Val ()), ot_close W t1)"
    by (simp add: Extract_def out hd incremental_def dec x(1))
  with ms so(2,3) segs cl t1 show ?thesis by auto
qed

text \<open>
  C1: extracting what was archived restores it.  A streaming run over the walked inputs stores each of
  them or reports it as failed; \<^verbatim>\<open>Extract\<close> with any credential the archive was written for, on a system
  that carries out the calls it cannot do without, reports every stored input as extracted.  In order,
  each regular file was written to a new temporary file with exactly the bytes that were read when
  it was archived, given its attributes and renamed to its name; each directory and link was created;
  and at the end the directories got their attributes, deepest first.
\<close>

theorem streamed_archive_extracts:
  assumes lib: "lib_ok P Z" "wrap_laws P" "age_correct A m" and fs: "os_ok fs"
    and z: "z_NewReader Z MaxSolidStreamSize MaxSolidStreamSize = Ok ()" "NewBlockDecompressor Z = Ok dec"
    and new: "NewStreamingArchiver P A Z procs K password cfg rnd = (Val (s0, policy), rnd0)"
    and add: "addWalked P Z K fs lower policy entries s0 = (Val (), s1)"
    and fin: "Finalize P Z K fs lower policy S signer s1 = (Val (), s2)"
    and c: "c \<in> set (cred_list (archiveCredentials password cfg))" "opens m u c"
    and inputs: "list_all input_ok entries" and w: "willing W" and rnd': "8 * length entries \<le> length rnd'"
  shows "\<exists>archived failed stored t segs. mset archived + mset failed = mset entries
    \<and> map fst (ss_errors s2) = map in_path failed \<and> list_all2 (stored_file fs) archived stored
    \<and> Extract P A Z W u dir own rnd' random (Stream (aw_out (ss_w s2)) EOF) = ((results_of stored, Val ()), t)
    \<and> list_all2 (restores own) stored segs
    \<and> calls t = concat segs @ concat (map (close_calls own) (deepest_first (directories stored)))"
proof -
  obtain aw0 rnd1 aw where h: "NewArchiveWriter P A (archiveCredentials password cfg) rnd = Ok (aw0, rnd1)"
      "WriteHeaderWithFlags P K 0 0 aw0 rnd1 = Ok (aw, rnd0)" "s0 = newStreaming aw rnd0"
    using NewStreamingArchiver_start [OF new] by blast
  have s0: "ss_w s0 = aw" by (simp add: h(3) newStreaming_def)
  obtain L s where ok: "session_ok P Z fs (aw_out aw) (aw_keys aw) L (s :: StreamingArchiver)" "accounts L = mset entries"
    and f: "finished P Z S signer (aw_out aw) (aw_keys aw) (lg_entries L) (ss_dir s) (aw_out (ss_w s2))"
    and same: "ss_errors s2 = ss_errors s"
    using run_finished [OF lib(1) fs z(1) new add fin] unfolding s0 by blast
  from extract_session [OF lib z(2) h(1,2) ok f c inputs w rnd'] show ?thesis unfolding same .
qed

section \<open>Whatever the archive holds\<close>

text \<open>
  C2: extraction never lets unauthenticated data appear, and never leaves the output directory.  For
  any bytes offered as a one-pass archive and whatever the operating system answers: every path the
  extraction names lies below the output directory; every file it renames into place has a valid name
  and content vouched for by an HMAC sealed under a key of the archive, or is a member of a solid
  stream that is; and when the walk ends without a fatal error, each such file is reported, in order,
  with its name and size, and nothing with data is reported as extracted that was not published.
\<close>

theorem extraction_publishes_vouched:
  assumes "readHeader P A u s = (Val (keys, h), s')" and "\<not> incremental h"
    and "Extract P A Z W u dir own rnd random s = ((rs, r), t)"
  shows "list_all (\<lambda>(c, _). confined c) (ot_log t) \<and> list_all (vouched P keys) (published t)
    \<and> (r = Val () \<longrightarrow> honest (published t) rs)"
proof -
  let ?t0 = "newOutputTree dir own rnd"
  have "\<exists>t1. t = ot_close W t1 \<and> (\<exists>ps. publishes ps ?t0 t1 \<and> list_all (vouched P keys) ps \<and> (r = Val () \<longrightarrow> honest ps rs))"
  proof (cases "NewBlockDecompressor Z")
    case (Ok dec)
    obtain x s1 t1 where e: "extract_entries P Z W keys [] (s', ?t0) = (x, s1, t1)" by (metis prod_cases3)
    have "x = (rs, r)" "t = ot_close W t1" using assms e Ok by (simp_all add: Extract_def)
    with extract_entries_effect [of P Z W keys "[]" s' ?t0 rs r s1 t1] e show ?thesis by auto
  qed (use assms in \<open>auto simp: Extract_def publishes_quietly intro!: exI [of _ ?t0] exI [of _ "[]"]\<close>)
  then obtain t1 ps where t1: "t = ot_close W t1" "publishes ps ?t0 t1" "list_all (vouched P keys) ps" "r = Val () \<longrightarrow> honest ps rs"
    by blast
  then have "calls_ok t1" "published t1 = ps" using new_tree [of dir own rnd] by (simp_all add: publishes_def)
  with quietly_effect [OF ot_close_quiet] t1 show ?thesis by (simp add: calls_ok_def)
qed

section \<open>A concrete extraction\<close>

definition yes_world :: world where
  "yes_world = \<lparr>wd_answer = (\<lambda>l c. None), wd_IsDir = (\<lambda>l p. False), wd_IsExist = (\<lambda>e. False)\<rparr>"

lemma yes_willing: "willing yes_world"
  by (simp add: willing_def yes_world_def)

lemma sample_cred:
  "CredPassword (str ''pw'') \<in> set (cred_list (archiveCredentials (str ''pw'') sample_cfg))"
  by (simp add: archiveCredentials_def cred_list_def str_def)

theorem streamed_archive_extracts_witness:
  "\<exists>out archived failed stored t segs. mset archived + mset failed = mset sample_inputs
     \<and> list_all2 (stored_file sample_os) archived stored
     \<and> Extract toy_prims toy_age toy_zstd yes_world \<lparr>u_Password = str ''pw'', u_KeyFiles = [], u_Identities = [7]\<rparr> (str ''out'') True
         (replicate 24 0) None (Stream out EOF) = ((results_of stored, Val ()), t)
     \<and> list_all2 (restores True) stored segs
     \<and> calls t = concat segs @ concat (map (close_calls True) (deepest_first (directories stored)))"
proof -
  obtain s0 policy s1 s2 where r: "NewStreamingArchiver toy_prims toy_age toy_zstd 4 open_sink (str ''pw'') sample_cfg sample_rnd
       = (Val (s0, policy), replicate 340 0)"
     "addWalked toy_prims toy_zstd open_sink sample_os id policy sample_inputs s0 = (Val (), s1)"
     "Finalize toy_prims toy_zstd open_sink sample_os id policy toy_ssh (Some ()) s1 = (Val (), s2)"
    using sample_run by blast
  have o: "opens (\<lambda>rs is'. is' \<noteq> []) \<lparr>u_Password = str ''pw'', u_KeyFiles = [], u_Identities = [7 :: nat]\<rparr> (CredPassword (str ''pw'') :: nat cred)"
    by simp
  have d: "NewBlockDecompressor toy_zstd = Ok \<lparr>bd_limit = MaxChunkSize, bd_window = zstdWindowSize\<rparr>"
    by (simp add: NewBlockDecompressor_def newDecompressor_def toy_zstd_def)
  have n: "8 * length sample_inputs \<le> length (replicate 24 0 :: bytes)" by (simp add: sample_inputs_def)
  from streamed_archive_extracts [OF toy_lib_ok toy_prims_wrap_laws toy_age_correct sample_ok(3,5) d r sample_cred o sample_inputs_ok
      yes_willing n, of "str ''out''" True None]
  show ?thesis by blast
qed

theorem extraction_publishes_vouched_witness:
  "\<exists>keys h out rs r t. Extract toy_prims toy_age toy_zstd yes_world \<lparr>u_Password = str ''pw'', u_KeyFiles = [], u_Identities = [7]\<rparr>
       (str ''out'') True [] None (Stream out EOF) = ((rs, r), t)
     \<and> readHeader toy_prims toy_age \<lparr>u_Password = str ''pw'', u_KeyFiles = [], u_Identities = [7]\<rparr> (Stream out EOF)
         = (Val (keys, h), Stream [] EOF)
     \<and> list_all (\<lambda>(c, _). confined c) (ot_log t) \<and> list_all (vouched toy_prims keys) (published t)
     \<and> (r = Val () \<longrightarrow> honest (published t) rs)"
proof -
  let ?u = "\<lparr>u_Password = str ''pw'', u_KeyFiles = [], u_Identities = [7 :: nat]\<rparr>"
  obtain s0 policy where "NewStreamingArchiver toy_prims toy_age toy_zstd 4 open_sink (str ''pw'') sample_cfg sample_rnd
       = (Val (s0, policy), replicate 340 0)" using sample_start by blast
  then obtain aw0 rnd1 aw where h: "NewArchiveWriter toy_prims toy_age (archiveCredentials (str ''pw'') sample_cfg) sample_rnd = Ok (aw0, rnd1)"
      "WriteHeaderWithFlags toy_prims open_sink 0 0 aw0 rnd1 = Ok (aw, replicate 340 0)"
    using NewStreamingArchiver_start by blast
  have o: "opens (\<lambda>rs is'. is' \<noteq> []) ?u (CredPassword (str ''pw'') :: nat cred)" by simp
  obtain hd where hd: "readHeader toy_prims toy_age ?u (Stream (aw_out aw) EOF) = (Val (aw_keys aw, hd), Stream [] EOF)" "\<not> incremental hd"
    using header_opens [OF toy_prims_wrap_laws _ toy_age_correct h sample_cred o, of "[]" EOF] toy_lib_ok
    by (auto simp: lib_ok_def incremental_def)
  obtain rs r t where e: "Extract toy_prims toy_age toy_zstd yes_world ?u (str ''out'') True [] None (Stream (aw_out aw) EOF) = ((rs, r), t)"
    by (metis prod.collapse)
  from extraction_publishes_vouched [OF hd e] e hd(1) show ?thesis by blast
qed

end
