(* ===== verification/Concurrent_Roundtrip.thy ===== *)
theory Concurrent_Roundtrip
  imports Concurrent_Archiver Extract_Archive
begin

text \<open>
  What a run of the \<^verbatim>\<open>ConcurrentArchiver\<close> leaves behind, whatever the interleaving of its goroutines: no
  worker panics, every input is archived or reported, and extracting the archive restores the archived
  ones.
\<close>

section \<open>No worker panics\<close>

definition calm :: "('s, 'a) op \<Rightarrow> bool" where
  "calm m \<longleftrightarrow> (\<forall>s. fst (m s) \<noteq> Crash)"

named_theorems calm_intros \<open>operations that do not panic\<close>

lemma calm_bind [calm_intros]: "calm m \<Longrightarrow> (\<And>x. calm (f x)) \<Longrightarrow> calm (bindS m f)"
  by (auto simp: calm_def bindS_def split: prod.splits outcome.splits) (metis fst_conv)+

lemma calm_basic [calm_intros]:
  "calm (orFail w m)" "r \<noteq> Panic \<Longrightarrow> calm (callS w r)" "(\<And>rnd. f rnd \<noteq> Panic) \<Longrightarrow> calm (drawS w f)" "calm (returnS x)"
  "(\<And>aw. calm (g aw)) \<Longrightarrow> calm (withWriter g)"
  by (auto simp: calm_def orFail_def callS_def drawS_def returnS_def withWriter_def split: sum.splits res.splits prod.splits)

lemma calm_split [calm_intros]: "(\<And>x y. calm (f x y)) \<Longrightarrow> calm (case p of (x, y) \<Rightarrow> f x y)"
  by (cases p) simp

lemma calm_if [calm_intros]: "calm a \<Longrightarrow> calm b \<Longrightarrow> calm (if c then a else b)"
  by simp

lemma calm_call_bind: "r \<noteq> Panic \<Longrightarrow> (\<And>x. r = Ok x \<Longrightarrow> calm (f x)) \<Longrightarrow> calm (bindS (callS w r) f)"
  by (cases r) (simp_all add: calm_def bindS_def callS_def)

lemma br_no_panic [simp]: "br_Read P n br \<noteq> Panic"
  by (simp add: br_Read_def)

lemma with_br_no_panic [simp]: "with_br fb m = Panic \<longleftrightarrow> m = Panic"
  by (auto simp: with_br_def bindR_Panic_conv)

lemma block_no_panic [simp]:
  "EncryptBlock P (br_Read P) em x br \<noteq> Panic" "EncryptBlock P ReadFull em x rnd \<noteq> Panic" "EncryptBlockInto P (br_Read P) em x dst br \<noteq> Panic"
  "NewEncryptionManager k \<noteq> Panic" "AppendAttributes b attrs \<noteq> Panic"
  by (auto simp: EncryptBlock_def EncryptBlockInto_def NewEncryptionManager_def AppendAttributes_def bindR_Panic_conv split: option.splits)

lemma frame_no_panic [simp]:
  "GenerateSalt rnd \<noteq> Panic" "NewMetadataManager k \<noteq> Panic" "NewFrameBuilder k rnd \<noteq> Panic"
  "newFrameBuilder policy k codec rnd \<noteq> Panic" "FrameHeader P fb \<noteq> Panic" "encryptFilename P name k rnd \<noteq> Panic"
  by (auto simp: GenerateSalt_def NewMetadataManager_def newFrameBuilder_def NewFrameBuilder_def NewCompressingFrameBuilder_def
      NewBufferedRand_def FrameHeader_def encryptFilename_def bindR_Panic_conv)

lemma entry_no_panic [simp]:
  "mm_Seal P mm pm rnd \<noteq> Panic" "InterBlockPadding P fb \<noteq> Panic" "BuildTrailer P fb x n \<noteq> Panic" "EncryptChunk P Z fb b \<noteq> Panic"
  by (auto simp: mm_Seal_def marshalMetadata_def InterBlockPadding_def randomRange_def BuildTrailer_def pad_Trailer_def secureRandomRange_def entryChecksum_def
      EncryptChunk_def EncryptChunkInto_def bindR_Panic_conv Let_def split: option.splits)

lemma seal_chunks_no_panic [simp]: "seal_chunks P Z fb payload \<noteq> Panic"
proof (induction P Z fb payload rule: seal_chunks.induct)
  case (1 P Z fb payload)
  then show ?case by (subst seal_chunks.simps) (auto simp: bindR_Panic_conv Let_def split: prod.splits)
qed

lemma EncryptStream_no_panic [simp]: "EncryptStream P (br_Read P) em d r br \<noteq> Panic"
proof (induction P "br_Read P" em d r br rule: EncryptStream.induct)
  case (1 P em d r br)
  then show ?case by (subst EncryptStream.simps) (auto simp: bindR_Panic_conv Let_def split: prod.splits)
qed

lemma encryptStreamCompressed_no_panic [simp]: "encryptStreamCompressed P Z fb r \<noteq> Panic"
proof (induction P Z fb r rule: encryptStreamCompressed.induct)
  case (1 P Z fb r)
  then show ?case
    by (subst encryptStreamCompressed.simps)
      (auto simp: bindR_Panic_conv Let_def dest!: NextChunkSize_bounds(2) split: prod.splits)
qed

lemma fb_EncryptStream_no_panic [simp]: "fb_EncryptStream P Z fb x \<noteq> Panic"
  by (auto simp: fb_EncryptStream_def bindR_Panic_conv)

lemma codecFor_no_panic: "policy_full p \<Longrightarrow> codecFor Z lower p name probe \<noteq> Panic"
  using codecFor_completes [of p Z lower name probe] by auto

lemma KeySize_le: "KeySize \<le> 8160"
  by (simp add: KeySize_def)

lemma DeriveFileKey_no_panic: "hkdf_total P \<Longrightarrow> DeriveFileKey P aw salt \<noteq> Panic"
proof -
  assume "hkdf_total P"
  then have "hkdf_expand P k i KeySize \<noteq> Panic" for k i by (metis KeySize_le hkdf_total_def res.distinct(3))
  then show ?thesis by (simp add: DeriveFileKey_def FileKey_def DeriveFileSubkey_def expandSubkey_def bindR_Panic_conv)
qed

lemma encryptFile_calm:
  assumes "hkdf_total P" and "policy_full policy" shows "calm (encryptFile P Z fs lower policy inp)"
  unfolding encryptFile_def Let_def
  by (intro calm_intros) (simp_all add: codecFor_no_panic [OF assms(2)] DeriveFileKey_no_panic [OF assms(1)])

lemma AppendSolidRecord_no_panic [simp]: "AppendSolidRecord stream m \<noteq> Panic"
  by (auto simp: AppendSolidRecord_def bindR_Panic_conv)

lemma pack_members_no_panic [simp]: "pack_members fs stream ms \<noteq> Panic"
  by (induction ms arbitrary: stream)
    (auto simp: bindR_Panic_conv appendSolidMember_def Let_def split: sum.splits res.splits)

lemma buildSolidEntry_calm:
  assumes "hkdf_total P" and "policy_full policy" shows "calm (buildSolidEntry P Z fs lower policy members)"
proof -
  have c: "solidCodecFor Z lower policy stream \<noteq> Panic" for stream
    by (simp add: solidCodecFor_def codecFor_no_panic [OF assms(2)])
  have "calm (sealPayloadEntry P Z ty codec payload plaintext)" for ty codec payload plaintext
    unfolding sealPayloadEntry_def by (intro calm_intros) (simp_all add: DeriveFileKey_no_panic [OF assms(1)])
  then have "calm (sealSolidEntry P Z lower policy stream)" for stream
    unfolding sealSolidEntry_def
  proof (intro calm_call_bind [OF c] calm_bind)
    fix codec assume codec: "solidCodecFor Z lower policy stream = Ok codec"
    have "po_solidCompressor policy \<noteq> None" if "codec = CodecZstd"
      using that codec by (auto simp: solidCodecFor_def CodecNone_def CodecZstd_def split: if_splits)
    then show "calm (if codec = CodecZstd then (case po_solidCompressor policy of
        None \<Rightarrow> callS (writeFailed ''solid compressor'') Panic | Some sc \<Rightarrow> returnS (Compress Z sc [] stream)) else returnS stream)"
      by (auto simp: calm_def returnS_def)
  qed (auto simp: calm_def returnS_def)
  then show ?thesis unfolding buildSolidEntry_def Let_def by (intro calm_intros) simp_all
qed

lemma calm_outcome: "calm m \<Longrightarrow> fst (m s) \<noteq> Crash"
  by (simp add: calm_def)

lemma runJob_runs:
  assumes "hkdf_total P" and "policy_full policy" shows "runJob P Z fs lower policy rnds s job \<noteq> None"
proof -
  have "calm (case fj_members job of
         Some members \<Rightarrow> bindS (buildSolidEntry P Z fs lower policy members) (\<lambda>(entry, results). returnS (GroupOutput entry results))
       | None \<Rightarrow> bindS (encryptFile P Z fs lower policy (fj_in job)) (\<lambda>(entry, summary). returnS (FileOutput (fj_in job) entry summary)))"
    using buildSolidEntry_calm [OF assms] encryptFile_calm [OF assms]
    by (auto intro!: calm_bind calm_split calm_basic(4) split: option.split)
  from calm_outcome [OF this] show ?thesis
    by (auto simp: runJob_def job_result_def split: outcome.split)
qed

section \<open>The plan\<close>

text \<open>The jobs are numbered in order, and every file is in exactly one of them.\<close>

definition job_inputs :: "fileJob \<Rightarrow> inputFile list" where
  "job_inputs j = (case fj_members j of Some members \<Rightarrow> members | None \<Rightarrow> [fj_in j])"

lemma fold_jobs:
  assumes "\<And>x js. \<exists>j. add x js = js @ [j] \<and> fj_index j = length js \<and> job_inputs j = inputs x"
    and "map fj_index js = [0..<length js]"
  shows "map fj_index (fold add xs js) = [0..<length (fold add xs js)]
    \<and> concat (map job_inputs (fold add xs js)) = concat (map job_inputs js) @ concat (map inputs xs)"
  using assms(2)
proof (induction xs arbitrary: js)
  case (Cons x xs)
  obtain j where j: "add x js = js @ [j]" "fj_index j = length js" "job_inputs j = inputs x" using assms(1) by blast
  with Cons.prems have "map fj_index (add x js) = [0..<length (add x js)]" by simp
  from Cons.IH [OF this] j show ?case by simp
qed simp

lemma archive_plan_jobs:
  "distinct (map fj_index (archive_plan fs lower policy files))"
  "mset (concat (map job_inputs (archive_plan fs lower policy files))) = mset files"
proof -
  define plan where "plan = (if po_solid policy then planSolid fs lower files else \<lparr>pl_individual = files, pl_groups = []\<rparr>)"
  define js where "js = fold (add_file_job fs) (pl_individual plan) []"
  have p: "planJobs fs lower policy files = fold add_group_job (pl_groups plan) js" by (simp add: planJobs_def plan_def js_def Let_def)
  have a: "map fj_index js = [0..<length js] \<and> concat (map job_inputs js) = concat (map job_inputs []) @ concat (map (\<lambda>f. [f]) (pl_individual plan))"
    unfolding js_def by (rule fold_jobs) (simp_all add: add_file_job_def job_inputs_def)
  have b: "map fj_index (planJobs fs lower policy files) = [0..<length (planJobs fs lower policy files)]
      \<and> concat (map job_inputs (planJobs fs lower policy files)) = concat (map job_inputs js) @ concat (map (\<lambda>g. g) (pl_groups plan))"
    unfolding p by (rule fold_jobs) (use a in \<open>simp_all add: add_group_job_def job_inputs_def\<close>)
  have "mset (pl_individual plan @ concat (pl_groups plan)) = mset files" using planSolid_partition [of fs lower files] by (simp add: plan_def)
  with a b have "distinct (map fj_index (planJobs fs lower policy files))" "mset (concat (map job_inputs (planJobs fs lower policy files))) = mset files"
    by simp_all
  then show "distinct (map fj_index (archive_plan fs lower policy files))"
    "mset (concat (map job_inputs (archive_plan fs lower policy files))) = mset files"
    by (auto simp: archive_plan_def job_inputs_def split: list.split)
qed

section \<open>One job keeps the invariant\<close>

lemma runJob_file:
  assumes "fj_members j = None" and "runJob P Z fs lower policy rnds s j = Some x"
  shows "(\<exists>e. fr_out x = Inl e) \<or> (\<exists>en summary rnd'. fr_out x = Inr (FileOutput (fj_in j) en summary)
    \<and> encryptFile P Z fs lower policy (fj_in j) (ss_w s, rnds (fj_index j)) = (Val (en, summary), (ss_w s, rnd')))"
proof -
  have "keyed (encryptFile P Z fs lower policy (fj_in j))" by (rule encryptFile_keyed)
  then obtain r rnd' where e: "encryptFile P Z fs lower policy (fj_in j) (ss_w s, rnds (fj_index j)) = (r, (ss_w s, rnd'))"
    unfolding keyed_def by blast
  with assms show ?thesis
    by (cases r) (auto simp: runJob_def job_result_def bindS_def returnS_def split: prod.splits)
qed

lemma runJob_group:
  assumes "fj_members j = Some members" and "runJob P Z fs lower policy rnds s j = Some x"
  shows "(\<exists>e. fr_out x = Inl e \<and> IsFatal e) \<or> (\<exists>oen rs rnd'. fr_out x = Inr (GroupOutput oen rs)
    \<and> buildSolidEntry P Z fs lower policy members (ss_w s, rnds (fj_index j)) = (Val (oen, rs), (ss_w s, rnd')))"
proof -
  have "keyed (buildSolidEntry P Z fs lower policy members)" by (rule buildSolidEntry_keyed)
  then obtain r rnd' where e: "buildSolidEntry P Z fs lower policy members (ss_w s, rnds (fj_index j)) = (r, (ss_w s, rnd'))"
    unfolding keyed_def by blast
  moreover have "IsFatal er" if "r = Fail er" for er
    using that e buildSolidEntry_fatal [of P Z fs lower policy members] unfolding fatal_only_def by blast
  ultimately show ?thesis using assms
    by (cases r) (auto simp: runJob_def job_result_def bindS_def returnS_def split: prod.splits)
qed

lemma runJob_path: "runJob P Z fs lower policy rnds s j = Some x \<Longrightarrow> fr_path x = in_path (fj_in j)"
  by (auto simp: runJob_def job_result_def split: outcome.splits)

lemma streamInline_ok:
  assumes env: "run_ok P Z fs policy" and ok: "session_ok P Z fs hdr keys L s" and reg: "in_regular inp"
    and run: "streamInline P Z K fs lower policy inp s = (Val n, s')"
  shows "\<exists>L'. session_ok P Z fs hdr keys L' s' \<and> accounts L' = accounts L + {#inp#}"
proof -
  have "orReport (in_path inp) (addStreamed P Z K fs lower policy inp) s = (Val (), s')"
  proof (cases "onWriter (addFileStreaming P Z K fs lower policy inp) s")
    case (Pair r s1)
    show ?thesis
    proof (cases r)
      case (Val summary)
      with Pair run have "dir_addEntry inp summary s1 = (Val (), s')"
        by (auto simp: streamInline_def bindS_Val_conv returnS_def)
      with Pair Val show ?thesis by (simp add: orReport_def addStreamed_def catchS_def bindS_def)
    qed (use Pair run in \<open>auto simp: streamInline_def bindS_def orReport_def addStreamed_def catchS_def failS_def FileError_def returnS_def
        split: if_splits\<close>)
  qed
  from orReport_streamed_ok [OF env ok reg this] show ?thesis .
qed

lemma encryptFile_opens:
  "encryptFile P Z fs lower policy inp (aw, rnd) = (Val x, s') \<Longrightarrow> \<exists>f. os_Open fs (in_path inp) = Inr f"
  unfolding encryptFile_def by (subst (asm) bindS_Val_conv) (auto simp: writing_Val_conv)

lemma file_result_ok:
  assumes env: "run_ok P Z fs policy" and ok: "session_ok P Z fs hdr keys L s" and reg: "in_regular inp"
    and enc: "encryptFile P Z fs lower policy inp (ss_w s, rnd) = (Val (en, summary), (aw, rnd'))"
    and out: "fr_out x = Inr (FileOutput inp en summary)" and run: "writeResult K x s = (Val n, s')"
  shows "\<exists>L'. session_ok P Z fs hdr keys L' s' \<and> accounts L' = accounts L + {#inp#}"
proof -
  note e = run_okD [OF env]
  obtain f where f: "os_Open fs (in_path inp) = Inr f" using encryptFile_opens [OF enc] by blast
  have k: "aw_keys (ss_w s) = keys" using ok by (simp add: session_ok_def written_def)
  let ?it = "FileItem (in_name inp) (in_attrs inp) summary (s_bytes (of_r f))"
  have "length (s_bytes (of_r f)) < 2 ^ 63" using e(3) f by (auto simp: os_ok_def)
  then have h: "holds P Z keys ?it en" using encryptFile_entry [OF e(1,2) f enc] by (simp add: k)
  have st: "stored_file fs inp (in_name inp, in_attrs inp, s_bytes (of_r f))" using f reg by (simp add: stored_file_def)
  have add: "dir_addEntry inp summary (s\<lparr>ss_w := put_entry_of en (ss_w s), ss_rnd := ss_rnd s\<rparr>) = (Val (), s')"
    using run by (auto simp: writeResult_def out bindS_Val_conv onWriter_Val_conv writing_Val_conv returnS_def dest!: WriteFileEntry_Ok)
  from dir_addEntry_file [OF ok h st refl add] show ?thesis
    by (intro exI [of _ "archive_item ?it en [inp] L"]) (simp add: accounts_def)
qed

lemma group_result_ok:
  assumes env: "run_ok P Z fs policy" and ok: "session_ok P Z fs hdr keys L s" and reg: "list_all in_regular members"
    and b: "buildSolidEntry P Z fs lower policy members (ss_w s, rnd) = (Val (oen, rs), (aw, rnd'))"
    and out: "fr_out x = Inr (GroupOutput oen rs)" and run: "writeResult K x s = (Val n, s')"
  shows "\<exists>L'. session_ok P Z fs hdr keys L' s' \<and> accounts L' = accounts L + mset members"
proof -
  obtain s2 where "(case oen of None \<Rightarrow> returnS () | Some en \<Rightarrow>
        bindS (onWriter (writeS (writeFailed ''write solid entry'') (WriteFileEntry K en))) (\<lambda>_. dir_addSolid rs))
        (s\<lparr>ss_rnd := ss_rnd s\<rparr>) = (Val (), s2)" "reportSolidMembers rs s2 = (Val (), s')"
    using run by (auto simp: writeResult_def out bindS_Val_conv returnS_def [of "packed_size rs"])
  from group_written_ok [OF env ok reg b this] show ?thesis .
qed

lemma run_write_ok:
  assumes env: "run_ok P Z fs policy" and ok: "session_ok P Z fs hdr keys L s" and reg: "list_all in_regular (job_inputs j)"
    and job: "fj_inline j \<longrightarrow> fj_members j = None"
    and run: "run_write (runJob P Z fs lower policy rnds) (writeResult K) (streamInline P Z K fs lower policy) j s = (Val n, s')"
  shows "\<exists>L'. session_ok P Z fs hdr keys L' s' \<and> accounts L' = accounts L + mset (job_inputs j)"
proof (cases "fj_inline j")
  case True
  with job reg run streamInline_ok [OF env ok, of "fj_in j"] show ?thesis by (simp add: run_write_def job_inputs_def)
next
  case False
  with run obtain x where x: "runJob P Z fs lower policy rnds s j = Some x" and w: "writeResult K x s = (Val n, s')"
    by (auto simp: run_write_def split: option.splits)
  show ?thesis
  proof (cases "fj_members j")
    case None
    with runJob_file [OF None x] consider e where "fr_out x = Inl e"
      | en summary rnd' where "fr_out x = Inr (FileOutput (fj_in j) en summary)"
        "encryptFile P Z fs lower policy (fj_in j) (ss_w s, rnds (fj_index j)) = (Val (en, summary), (ss_w s, rnd'))" by blast
    then show ?thesis
    proof cases
      case (1 e)
      with w runJob_path [OF x] have s': "s' = s\<lparr>ss_errors := ss_errors s @ [(in_path (fj_in j), e)]\<rparr>"
        by (auto simp: writeResult_def failS_def bindS_def FileError_def returnS_def split: if_splits)
      from FileError_ok [OF ok, of "fj_in j" e] None show ?thesis
        by (intro exI [of _ "L\<lparr>lg_failed := lg_failed L @ [fj_in j]\<rparr>"]) (simp add: s' accounts_def job_inputs_def)
    next
      case 2
      with file_result_ok [OF env ok _ 2(2,1) w] None reg show ?thesis by (simp add: job_inputs_def)
    qed
  next
    case (Some members)
    with runJob_group [OF Some x] w obtain oen rs rnd' where "fr_out x = Inr (GroupOutput oen rs)"
        "buildSolidEntry P Z fs lower policy members (ss_w s, rnds (fj_index j)) = (Val (oen, rs), (ss_w s, rnd'))"
      by (auto simp: writeResult_def failS_def)
    with group_result_ok [OF env ok _ this(2,1) w] Some reg show ?thesis by (simp add: job_inputs_def)
  qed
qed

text \<open>The jobs of a run one after the other, then the end of the archive.\<close>

lemma archive_seq_ok:
  assumes env: "run_ok P Z fs policy" and special: "list_all (\<lambda>f. \<not> in_regular f) specials"
  shows "session_ok P Z fs hdr keys L (s :: 'z session_scheme) \<Longrightarrow> \<forall>j \<in> set js. list_all in_regular (job_inputs j) \<and> (fj_inline j \<longrightarrow> fj_members j = None) \<Longrightarrow>
    archive_seq (runJob P Z fs lower policy rnds) (writeResult K) (streamInline P Z K fs lower policy)
       (finishJobs P Z K S signer specials) files js n s = (Val total', s') \<Longrightarrow>
    \<exists>L' s1. session_ok P Z fs hdr keys L' (s1 :: 'z session_scheme) \<and> accounts L' = accounts L + mset (concat (map job_inputs js)) + mset specials
      \<and> finished P Z S signer hdr keys (lg_entries L') (ss_dir s1) (aw_out (ss_w s'))
      \<and> ss_dir s' = ss_dir s1 \<and> ss_errors s' = ss_errors s1"
proof (induction js arbitrary: L s n)
  case Nil
  note lib = run_okD(1) [OF env]
  obtain s2 where w: "writeSpecialEntries P K specials s = (Val (), s2)" and e: "finishArchive P Z K S signer s2 = (Val (), s')"
    using Nil.prems(3) by (auto simp: finishJobs_def bindS_Val_conv returnS_def)
  from writeSpecialEntries_ok [OF lib Nil.prems(1) special w] obtain L2 where
    L2: "session_ok P Z fs hdr keys L2 s2" "accounts L2 = accounts L + mset specials" by blast
  have "written hdr keys (lg_entries L2) (ss_w s2)" using L2(1) by (simp add: session_ok_def)
  from finishArchive_finished [OF lib this e] L2 show ?case
    by (intro exI [of _ L2] exI [of _ s2]) simp
next
  case (Cons j js)
  obtain m s1 where j: "run_write (runJob P Z fs lower policy rnds) (writeResult K) (streamInline P Z K fs lower policy) j s = (Val m, s1)"
    and r: "archive_seq (runJob P Z fs lower policy rnds) (writeResult K) (streamInline P Z K fs lower policy)
       (finishJobs P Z K S signer specials) files js (n + m) s1 = (Val total', s')"
    using Cons.prems(3) by (auto simp: bindS_Val_conv)
  have jr: "list_all in_regular (job_inputs j)" "fj_inline j \<longrightarrow> fj_members j = None" using Cons.prems(2) by simp_all
  from run_write_ok [OF env Cons.prems(1) jr j] obtain L1 where
    L1: "session_ok P Z fs hdr keys L1 s1" "accounts L1 = accounts L + mset (job_inputs j)" by blast
  from Cons.IH [OF L1(1) _ r] Cons.prems(2) L1(2) show ?case by (simp add: ac_simps)
qed

section \<open>Every interleaving\<close>

lemma archive_start_inv:
  assumes "hkdf_total P" and "policy_full policy"
  shows "jobs_inv (runJob P Z fs lower policy rnds) workers (jobs_start (archive_plan fs lower policy files) s)"
  by (rule jobs_start_inv) (simp_all add: archive_plan_jobs(1) runJob_runs [OF assms])

lemma archive_run_refines:
  assumes "hkdf_total P" and "policy_full policy" and "0 < workers"
    and run: "(archive_step P Z K fs lower policy S signer rnds specials workers total')\<^sup>*\<^sup>*
      (jobs_start (archive_plan fs lower policy files) s) p"
    and ret: "jp_writer p = Returned r"
  shows "archiveJobs P Z K fs lower policy S signer rnds specials total' (archive_plan fs lower policy files) s = (r, jp_session p)"
proof -
  obtain w where w: "workers = Suc w" using assms(3) by (cases workers) auto
  from archiving.pool.run_outcome [OF run [unfolded archive_step_def w] archive_start_inv [OF assms(1,2)]] ret
  show ?thesis by (simp add: archiveJobs_def jobs_rest_def jobs_start_def)
qed

lemma archive_plan_inline: "list_all (\<lambda>j. fj_inline j \<longrightarrow> fj_members j = None) (archive_plan fs lower policy files)"
proof -
  let ?Q = "\<lambda>j :: fileJob. fj_inline j \<longrightarrow> fj_members j = None"
  have f: "list_all ?Q js \<Longrightarrow> list_all ?Q (fold (add_file_job fs) xs js)" for xs js
    by (induction xs arbitrary: js) (simp_all add: add_file_job_def)
  have g: "list_all ?Q js \<Longrightarrow> list_all ?Q (fold add_group_job gs js)" for gs js
    by (induction gs arbitrary: js) (simp_all add: add_group_job_def)
  show ?thesis by (auto simp: archive_plan_def planJobs_def Let_def add_file_job_def intro!: f g split: list.split)
qed

lemma archive_plan_regular:
  assumes "list_all in_regular files" and "j \<in> set (archive_plan fs lower policy files)"
  shows "list_all in_regular (job_inputs j)"
proof -
  have "set (job_inputs j) \<subseteq> set (concat (map job_inputs (archive_plan fs lower policy files)))" using assms(2) by auto
  also have "\<dots> = set files" using archive_plan_jobs(2) by (rule mset_eq_setD)
  finally show ?thesis using assms(1) by (auto simp: list_all_iff)
qed

lemma NewConcurrentArchiver_start:
  assumes "NewConcurrentArchiver P A Z procs cpus K password workers cfg rnd = (Val (s0, policy, n), rnd')"
  shows "\<exists>aw0 rnd1 aw. NewArchiveWriter P A (archiveCredentials password cfg) rnd = Ok (aw0, rnd1)
    \<and> WriteHeaderWithFlags P K 0 0 aw0 rnd1 = Ok (aw, rnd') \<and> s0 = newSession aw rnd'
    \<and> newCompressionPolicy Z procs (cf_compression cfg) = Ok policy \<and> n = (if workers \<le> 0 then cpus else nat workers)"
proof -
  obtain aw where o: "openArchiveWriter P A Z procs K password cfg rnd = (Val (aw, policy), rnd')"
    and s0: "s0 = newSession aw rnd'" "n = (if workers \<le> 0 then cpus else nat workers)"
    using assms by (auto simp: NewConcurrentArchiver_def bindS_Val_conv split: if_splits)
  then have "NewStreamingArchiver P A Z procs K password cfg rnd = (Val (newStreaming aw rnd', policy), rnd')"
    by (simp add: NewStreamingArchiver_def bindS_def)
  from NewStreamingArchiver_start [OF this] s0 show ?thesis by (auto simp: newStreaming_def)
qed

lemma concurrent_start_ok:
  assumes "NewArchiveWriter P A creds rnd = Ok (aw0, rnd1)" and "WriteHeaderWithFlags P K n flags aw0 rnd1 = Ok (aw, rnd2)"
  shows "session_ok P Z fs (aw_out aw) (aw_keys aw) empty_ledger (newSession aw rnd2)"
  using streaming_start(1) [OF assms, of Z fs] by (simp add: streaming_ok_def session_ok_def newStreaming_def newSession_def)

section \<open>What the archiver does\<close>

text \<open>
  C5: the concurrent archiver is deterministic.  Whatever the interleaving of dispatcher, workers and
  writer, when \<^verbatim>\<open>archiveJobs\<close> returns, its result, the archive, the directory, the reported failures
  and the totals are those of running and writing the jobs one after the other.
\<close>

theorem concurrent_archive_refines:
  assumes "hkdf_total P" and pol: "newCompressionPolicy Z procs opts = Ok policy" and "0 < workers"
    and run: "(archive_step P Z K fs lower policy S signer rnds specials workers total')\<^sup>*\<^sup>*
      (jobs_start (archive_plan fs lower policy files) s) p"
    and ret: "jp_writer p = Returned r"
  shows "archiveJobs P Z K fs lower policy S signer rnds specials total' (archive_plan fs lower policy files) s = (r, jp_session p)"
  using archive_run_refines [OF assms(1) newCompressionPolicy_full [OF pol] assms(3) run ret] .



text \<open>
  C4: extracting what was archived concurrently restores it.  Whatever the interleaving, when \<^verbatim>\<open>Archive\<close>
  returns without an error each of the walked \<open>entries\<close> is stored in the archive or was reported as
  failed; \<^verbatim>\<open>Extract\<close> with any credential the archive was written for, on a system that carries out
  the calls it cannot do without, reports every stored input as extracted, having written each
  regular file with exactly the bytes that were read when it was archived, given it its attributes and
  renamed it to its name, and created each directory and link.
\<close>

theorem concurrent_archive_extracts:
  assumes lib: "lib_ok P Z" "wrap_laws P" "age_correct A m" "hkdf_total P" and fs: "os_ok fs"
    and z: "z_NewReader Z MaxSolidStreamSize MaxSolidStreamSize = Ok ()" "NewBlockDecompressor Z = Ok dec"
    and new: "NewConcurrentArchiver P A Z procs cpus K password workers cfg rnd = (Val (s0, policy, n), rnd0)" and cpus: "0 < cpus"
    and sp: "splitSpecial entries = (files, specials)"
    and run: "(archive_step P Z K fs lower policy S signer rnds specials n (length entries))\<^sup>*\<^sup>*
      (jobs_start (archive_plan fs lower policy files) s0) p"
    and ret: "jp_writer p = Returned (Val totals)"
    and c: "c \<in> set (cred_list (archiveCredentials password cfg))" "opens m u c"
    and inputs: "list_all input_ok entries" and w: "willing W" and rnd': "8 * length entries \<le> length rnd'"
  shows "\<exists>archived failed stored t segs. mset archived + mset failed = mset entries
    \<and> map fst (ss_errors (jp_session p)) = map in_path failed \<and> list_all2 (stored_file fs) archived stored
    \<and> Extract P A Z W u dir own rnd' random (Stream (aw_out (ss_w (jp_session p))) EOF) = ((results_of stored, Val ()), t)
    \<and> list_all2 (restores own) stored segs
    \<and> calls t = concat segs @ concat (map (close_calls own) (deepest_first (directories stored)))"
proof -
  obtain aw0 rnd1 aw where h: "NewArchiveWriter P A (archiveCredentials password cfg) rnd = Ok (aw0, rnd1)"
      "WriteHeaderWithFlags P K 0 0 aw0 rnd1 = Ok (aw, rnd0)" "s0 = newSession aw rnd0"
    and pol: "newCompressionPolicy Z procs (cf_compression cfg) = Ok policy" and n: "n = (if workers \<le> 0 then cpus else nat workers)"
    using NewConcurrentArchiver_start [OF new] by blast
  have env: "run_ok P Z fs policy" using lib fs z newCompressionPolicy_ok [OF pol] by (simp add: run_ok_def)
  note m = splitSpecial_mset [OF sp]
  have "0 < n" using n cpus by simp
  note seq = archive_run_refines [OF lib(4) newCompressionPolicy_full [OF pol] this run ret, unfolded archiveJobs_def]
  have jobs: "\<forall>j \<in> set (archive_plan fs lower policy files). list_all in_regular (job_inputs j) \<and> (fj_inline j \<longrightarrow> fj_members j = None)"
    using archive_plan_regular [of files] archive_plan_inline [of fs lower policy files] m by (simp add: list_all_iff)
  have "list_all (\<lambda>f. \<not> in_regular f) specials" using m by blast
  from archive_seq_ok [OF env this concurrent_start_ok [OF h(1,2)] jobs seq [unfolded h(3)]] obtain L s1 where
    ok: "session_ok P Z fs (aw_out aw) (aw_keys aw) L (s1 :: session)" "accounts L = mset entries"
    and f: "finished P Z S signer (aw_out aw) (aw_keys aw) (lg_entries L) (ss_dir s1) (aw_out (ss_w (jp_session p)))"
    and same: "ss_errors (jp_session p) = ss_errors s1"
    using m archive_plan_jobs(2) [of fs lower policy files] by (auto simp: empty_ledger_def accounts_def)
  from extract_session [OF lib(1-3) z(2) h(1,2) ok f c inputs w rnd'] show ?thesis unfolding same .
qed

end
