(* ===== verification/Concurrent_Completes.thy ===== *)
theory Concurrent_Completes
  imports Concurrent_Roundtrip
begin

text \<open>
  A run of the \<^verbatim>\<open>ConcurrentArchiver\<close> without solid groups, on an output that accepts every write and with
  enough random bytes, ends well; and a concrete run, in which two workers share the files.
\<close>

section \<open>Jobs\<close>

lemma encryptFile_settles:
  assumes env: "env_ok P Z" and pol: "policy_full policy" and inp: "input_ok inp"
  shows "settles 88 (encryptFile P Z fs lower policy inp)"
  unfolding settles_def
proof (intro allI impI)
  fix aw :: ArchiveWriter and rnd :: bytes assume v: "ks_version (aw_keys aw) = Version2" and rnd: "88 \<le> length rnd"
  let ?r1 = "drop SaltSize rnd" let ?r2 = "drop 32 ?r1" let ?r3 = "drop NonceSize ?r2" let ?salt = "take SaltSize rnd"
  obtain k where k: "FileKey P (aw_keys aw) ?salt = Ok k" using FileKey_total [OF env_okD(3) [OF env] v] by blast
  have kl: "length k = 32" by (rule FileKey_length [OF k])
  have s: "SaltSize \<le> length rnd" "32 \<le> length ?r1" "NonceSize \<le> length ?r2" "NonceSize \<le> length ?r3" "drop NonceSize ?r3 = drop 88 rnd"
      "length rnd \<le> length ?r1 + 88"
    using rnd by (simp_all add: SaltSize_def NonceSize_def)
  note steps = encryptFile_def bindS_def orFail_def drawS_def withWriter_def callS_def GenerateSalt_draws [OF s(1)] DeriveFileKey_def k
    IsFatal_def recoverable_def
  show "\<exists>r aw' rnd'. encryptFile P Z fs lower policy inp (aw, rnd) = (r, (aw', rnd')) \<and> length rnd \<le> length rnd' + 88
      \<and> aw_keys aw' = aw_keys aw \<and> (case r of Val x \<Rightarrow> True | Fail e \<Rightarrow> \<not> IsFatal e | Crash \<Rightarrow> False)"
  proof (cases "os_Open fs (in_path inp)")
    case (Inr f)
    note f = Inr
    show ?thesis
    proof (cases "of_info f")
      case (Inr info)
      note info = Inr
      show ?thesis
      proof (cases "ReadAll (of_r f)")
        case (Inl e)
        with f info s(6) show ?thesis by (simp add: steps)
      next
        case (Inr x)
        obtain codec where codec: "codecFor Z lower policy (in_name inp) (take compressionProbeSize x) = Ok codec" "knownCodec codec"
            "codec = CodecZstd \<longrightarrow> po_compressor policy \<noteq> None"
          using codecFor_completes [OF pol] by blast
        obtain fb0 where fb0: "newFrameBuilder policy k codec ?r1 = Ok (fb0, ?r2)" using newFrameBuilder_draws [OF kl s(2) codec(3)] by blast
        have d: "decodes P Z block_decoder fb0"
          using newFrameBuilder_fields(3) [OF fb0 _ kl env_okD(2) [OF env] codecFor_known [OF codec(1)]] pol by (simp add: policy_full_def)
        obtain hdr fb1 where hdr: "FrameHeader P fb0 = Ok (hdr, fb1)" "same_file fb0 fb1" using FrameHeader_total by blast
        obtain n where n: "encryptFilename P (in_name inp) k ?r2 = Ok (n, ?r3)" "length n \<le> 0xFFFF"
          using encryptFilename_draws [OF env_okD(1) [OF env] kl s(3), of "in_name inp"] inp by (auto simp: input_ok_def)
        let ?pm = "file_metadata P ?salt n info codec (in_attrs inp)"
        obtain mb where mb: "mm_Seal P \<lparr>em_key = k\<rparr> ?pm ?r3 = Ok (mb, drop NonceSize ?r3)"
          using mm_Seal_draws [OF _ _ _ s(4), of ?pm] n(2) codec(2) inp by (auto simp: input_ok_def)
        obtain pad fb2 where pad: "InterBlockPadding P fb1 = Ok (pad, fb2)" "same_file fb1 fb2" using InterBlockPadding_total by blast
        obtain dbs fb3 where dbs: "fb_EncryptStream P Z fb2 x = Ok (dbs, fb3)" 
          using frame_stream_decodes [OF same_file_decodes [OF same_file_trans [OF hdr(2) pad(2)] d]] by blast
        obtain t fb4 where t: "BuildTrailer P fb3 (ComputeHMAC P k x) (word_of_nat (length x)) = Ok (t, fb4)"
          using BuildTrailer_total [OF env_okD(1) [OF env] HMAC_length [OF env_okD(2) [OF env]]] by blast
        show ?thesis
          using kl rnd f info Inr
          by (simp add: steps codec(1) fb0 hdr(1) NewMetadataManager_def n(1) Let_def mb pad(1) s(5) dbs t returnS_def del: drop_drop)
      qed
    qed (use f in \<open>simp add: steps\<close>)
  qed (simp add: steps)
qed


section \<open>A whole run\<close>

text \<open>With \<open>n\<close> random bytes, \<open>m\<close> returns a value from \<open>s\<close>.\<close>

definition succeeds :: "nat \<Rightarrow> ('z session_scheme, 'a) op \<Rightarrow> 'z session_scheme \<Rightarrow> bool" where
  "succeeds n m s \<longleftrightarrow> (\<exists>x s'. m s = (Val x, s') \<and> length (ss_rnd s) \<le> length (ss_rnd s') + n \<and> aw_keys (ss_w s') = aw_keys (ss_w s))"

lemma streamInline_succeeds:
  assumes w: "settles 88 (addFileStreaming P Z K fs lower policy inp)" and inp: "input_ok inp" "in_regular inp" and s: "ready 88 s"
  shows "succeeds 88 (streamInline P Z K fs lower policy inp) s"
proof -
  obtain r aw' rnd' where r: "addFileStreaming P Z K fs lower policy inp (ss_w s, ss_rnd s) = (r, (aw', rnd'))"
      "length (ss_rnd s) \<le> length rnd' + 88" "aw_keys aw' = aw_keys (ss_w s)"
      "case r of Val x \<Rightarrow> True | Fail e \<Rightarrow> \<not> IsFatal e | Crash \<Rightarrow> False"
    using w s unfolding settles_def ready_def by blast
  let ?s = "s\<lparr>ss_w := aw', ss_rnd := rnd'\<rparr>"
  show ?thesis
  proof (cases r)
    case (Val x)
    have "completes 0 (dir_addEntry inp x) ?s" by (rule dir_addEntry_completes) (use inp in simp_all)
    then obtain s' where "dir_addEntry inp x ?s = (Val (), s')" "length rnd' \<le> length (ss_rnd s')" "aw_keys (ss_w s') = aw_keys aw'"
      by (auto simp: completes_def)
    with Val r show ?thesis by (simp add: succeeds_def streamInline_def bindS_def onWriter_def returnS_def)
  next
    case (Fail e)
    with r show ?thesis by (simp add: succeeds_def streamInline_def bindS_def onWriter_def FileError_def returnS_def)
  qed (use r in simp)
qed

lemma file_job_succeeds:
  assumes env: "env_ok P Z" and K: "accepts K" and pol: "policy_full policy" and inp: "input_ok (fj_in j)" "in_regular (fj_in j)"
    and j: "fj_members j = None" and s: "ready 0 s" and rnd: "88 \<le> length (rnds (fj_index j))"
  shows "\<exists>x. runJob P Z fs lower policy rnds s j = Some x \<and> succeeds 0 (writeResult K x) s"
proof -
  obtain r aw' rnd' where r: "encryptFile P Z fs lower policy (fj_in j) (ss_w s, rnds (fj_index j)) = (r, (aw', rnd'))"
      "case r of Val x \<Rightarrow> True | Fail e \<Rightarrow> \<not> IsFatal e | Crash \<Rightarrow> False"
    using encryptFile_settles [OF env pol inp(1)] s rnd unfolding settles_def ready_def by blast
  show ?thesis
  proof (cases r)
    case (Val p)
    obtain en summary where p: "p = (en, summary)" by force
    let ?s = "s\<lparr>ss_w := put_entry_of en (ss_w s)\<rparr>"
    have "completes 0 (dir_addEntry (fj_in j) summary) ?s" by (rule dir_addEntry_completes) (use inp in simp_all)
    then obtain s' where "dir_addEntry (fj_in j) summary ?s = (Val (), s')" "length (ss_rnd s) \<le> length (ss_rnd s')"
        "aw_keys (ss_w s') = aw_keys (ss_w s)"
      by (auto simp: completes_def put_entry_fields)
    with Val p j r(1) show ?thesis
      by (simp add: runJob_def job_result_def bindS_def returnS_def succeeds_def writeResult_def onWriter_def writeS_def
          WriteFileEntry_accepts [OF K])
  next
    case (Fail e)
    with j r show ?thesis
      by (simp add: runJob_def job_result_def bindS_def returnS_def succeeds_def writeResult_def FileError_def)
  qed (use r in simp)
qed

lemma run_write_succeeds:
  assumes env: "env_ok P Z" and K: "accepts K" and fs: "readable fs" and pol: "policy_full policy"
    and j: "fj_members j = None" "input_ok (fj_in j)" "in_regular (fj_in j)" and s: "ready 88 s" and rnd: "88 \<le> length (rnds (fj_index j))"
  shows "succeeds 88 (run_write (runJob P Z fs lower policy rnds) (writeResult K) (streamInline P Z K fs lower policy) j) s"
proof (cases "fj_inline j")
  case True
  with streamInline_succeeds [OF addFileStreaming_settles [OF env K fs pol j(2)] j(2,3) s] show ?thesis
    by (simp add: succeeds_def run_write_def)
next
  case False
  have "ready 0 s" using s by (simp add: ready_def)
  from file_job_succeeds [where rnds = rnds, OF env K pol j(2,3,1) this, of fs lower] rnd False show ?thesis
    by (fastforce simp: succeeds_def run_write_def)
qed

lemma archive_seq_succeeds:
  assumes env: "env_ok P Z" and K: "accepts K" and fs: "readable fs" and pol: "policy_full policy" and sg: "signs P S signer"
    and sp: "list_all input_ok specials" and rnds: "\<forall>i. 88 \<le> length (rnds i)"
  shows "list_all (\<lambda>j. fj_members j = None \<and> input_ok (fj_in j) \<and> in_regular (fj_in j)) js \<Longrightarrow>
    ready (length js * 88 + (length specials * 88 + 76)) s \<Longrightarrow>
    \<exists>totals s'. archive_seq (runJob P Z fs lower policy rnds) (writeResult K) (streamInline P Z K fs lower policy)
       (finishJobs P Z K S signer specials) files js n s = (Val totals, s')"
proof (induction js arbitrary: s n)
  case Nil
  then have r: "ready (length specials * 88) s" by (simp add: ready_def)
  from writeSpecialEntries_completes [OF env K sp r] obtain s1 where s1: "writeSpecialEntries P K specials s = (Val (), s1)"
      "length (ss_rnd s) \<le> length (ss_rnd s1) + length specials * 88" "aw_keys (ss_w s1) = aw_keys (ss_w s)"
    by (auto simp: completes_def)
  have "ready 76 s1" using Nil.prems(2) s1 by (simp add: ready_def)
  from finishArchive_completes [OF env K sg this] s1(1) show ?case by (auto simp: finishJobs_def bindS_def returnS_def)
next
  case (Cons j js)
  have j: "fj_members j = None" "input_ok (fj_in j)" "in_regular (fj_in j)" and r: "ready 88 s"
    using Cons.prems by (simp_all add: ready_def)
  from run_write_succeeds [OF env K fs pol j r, of rnds lower] rnds obtain m s1 where
    s1: "run_write (runJob P Z fs lower policy rnds) (writeResult K) (streamInline P Z K fs lower policy) j s = (Val m, s1)"
      "length (ss_rnd s) \<le> length (ss_rnd s1) + 88" "aw_keys (ss_w s1) = aw_keys (ss_w s)"
    by (auto simp: succeeds_def)
  have "ready (length js * 88 + (length specials * 88 + 76)) s1" using Cons.prems(2) s1 by (simp add: ready_def)
  from Cons.IH [OF _ this, of "n + m"] Cons.prems(1) s1(1) show ?case by (simp add: bindS_def)
qed

lemma archive_plan_files:
  assumes "\<not> po_solid policy" shows "list_all (\<lambda>j. fj_members j = None) (archive_plan fs lower policy files)"
    and "length (archive_plan fs lower policy files) = length files"
proof -
  have f: "list_all (\<lambda>j. fj_members j = None) (fold (add_file_job fs) xs js) = list_all (\<lambda>j. fj_members j = None) js"
      "length (fold (add_file_job fs) xs js) = length js + length xs" for xs js
    by (induction xs arbitrary: js) (simp_all add: add_file_job_def)
  then show "list_all (\<lambda>j. fj_members j = None) (archive_plan fs lower policy files)"
      "length (archive_plan fs lower policy files) = length files"
    using assms by (simp_all add: archive_plan_def planJobs_def Let_def f add_file_job_def split: list.split)
qed

text \<open>
  Every run of the pool, once it is over, returned without an error.
\<close>

lemma concurrent_run_completes:
  assumes env: "env_ok P Z" and K: "accepts K" and fs: "readable fs" and inp: "list_all input_ok entries" and sg: "signs P S signer"
    and new: "NewConcurrentArchiver P A Z procs cpus K password workers cfg rnd = (Val (s0, policy, n), rnd0)" and cpus: "0 < cpus"
    and solid: "\<not> co_Solid (cf_compression cfg)" and rnd: "88 * length entries + 76 \<le> length rnd0" and rnds: "\<forall>i. 88 \<le> length (rnds i)"
    and sp: "splitSpecial entries = (files, specials)"
    and run: "(archive_step P Z K fs lower policy S signer rnds specials n total')\<^sup>*\<^sup>* (jobs_start (archive_plan fs lower policy files) s0) p"
    and over: "jobs_over p"
  shows "\<exists>totals. jp_writer p = Returned (Val totals)"
proof -
  obtain aw0 rnd1 aw where h: "NewArchiveWriter P A (archiveCredentials password cfg) rnd = Ok (aw0, rnd1)"
      "WriteHeaderWithFlags P K 0 0 aw0 rnd1 = Ok (aw, rnd0)" "s0 = newSession aw rnd0"
    and pol: "newCompressionPolicy Z procs (cf_compression cfg) = Ok policy" and n: "n = (if workers \<le> 0 then cpus else nat workers)"
    using NewConcurrentArchiver_start [OF new] by blast
  have p: "policy_full policy" "\<not> po_solid policy" using newCompressionPolicy_full [OF pol] policy_solid [OF pol] solid by simp_all
  note m = splitSpecial_mset [OF sp]
  let ?js = "archive_plan fs lower policy files"
  have "set files \<subseteq> set entries" "set specials \<subseteq> set entries" using m by (metis Un_upper1 Un_upper2 set_mset_mset set_mset_union)+
  then have ok: "list_all input_ok specials" "list_all input_ok files" using inp by (auto simp: list_all_iff)
  have len: "length files + length specials = length entries" using m by (metis size_mset size_union)
  have "list_all (\<lambda>j. fj_members j = None \<and> input_ok (fj_in j) \<and> in_regular (fj_in j)) ?js"
    unfolding list_all_iff
  proof
    fix j assume j: "j \<in> set ?js"
    then have i: "job_inputs j = [fj_in j]" "fj_members j = None"
      using archive_plan_files(1) [OF p(2), of fs lower files] by (simp_all add: list_all_iff job_inputs_def)
    have "set (job_inputs j) \<subseteq> set (concat (map job_inputs ?js))" using j by auto
    also have "\<dots> = set files" using archive_plan_jobs(2) by (rule mset_eq_setD)
    finally show "fj_members j = None \<and> input_ok (fj_in j) \<and> in_regular (fj_in j)"
      using i ok(2) m by (auto simp: list_all_iff)
  qed
  moreover have "ready (length ?js * 88 + (length specials * 88 + 76)) s0"
    using rnd len streaming_start(2) [OF h(1,2)] by (simp add: ready_def h(3) newSession_def archive_plan_files(2) [OF p(2)])
  ultimately obtain totals s' where seq: "archiveJobs P Z K fs lower policy S signer rnds specials total' ?js s0 = (Val totals, s')"
    using archive_seq_succeeds [OF env K fs p(1) sg ok(1) rnds] unfolding archiveJobs_def by blast
  obtain r where r: "jp_writer p = Returned r" using over by (auto simp: jobs_over_def)
  have "0 < n" using n cpus by simp
  from archive_run_refines [OF env_okD(3) [OF env] p(1) this run r] seq r show ?thesis by (metis prod.inject)
qed

section \<open>A concrete run\<close>

lemma concurrent_sample_start:
  "\<exists>s0 policy. NewConcurrentArchiver toy_prims toy_age toy_zstd 4 8 open_sink (str ''pw'') 2 sample_cfg sample_rnd
     = (Val (s0, policy, 2), replicate 340 0) \<and> newCompressionPolicy toy_zstd 4 (cf_compression sample_cfg) = Ok policy"
proof -
  obtain s0 policy where s: "NewStreamingArchiver toy_prims toy_age toy_zstd 4 open_sink (str ''pw'') sample_cfg sample_rnd
     = (Val (s0, policy), replicate 340 0)" using sample_start by blast
  then obtain aw where "openArchiveWriter toy_prims toy_age toy_zstd 4 open_sink (str ''pw'') sample_cfg sample_rnd
     = (Val (aw, policy), replicate 340 0)" by (auto simp: NewStreamingArchiver_def bindS_Val_conv)
  with NewStreamingArchiver_start [OF s] show ?thesis by (auto simp: NewConcurrentArchiver_def bindS_def)
qed

lemma sample_split:
  "splitSpecial sample_inputs = ([sample_input ''a'' KindRegular, sample_input ''b'' KindRegular], [sample_input ''d'' KindDirectory])"
  by (simp add: splitSpecial_def sample_inputs_def in_regular_def sample_input_def KindRegular_def KindDirectory_def)

abbreviation sample_rnds :: "nat \<Rightarrow> bytes" where
  "sample_rnds \<equiv> \<lambda>i. replicate 88 (word_of_nat i)"

abbreviation sample_step ::
  "compressionPolicy \<Rightarrow> (session, fileResult) jobPool \<Rightarrow> (session, fileResult) jobPool \<Rightarrow> bool" where
  "sample_step policy \<equiv> archive_step toy_prims toy_zstd open_sink sample_os id policy toy_ssh (Some ()) sample_rnds
     [sample_input ''d'' KindDirectory] 2 (length sample_inputs)"

abbreviation sample_pool :: "compressionPolicy \<Rightarrow> session \<Rightarrow> (session, fileResult) jobPool" where
  "sample_pool policy s0 \<equiv> jobs_start (archive_plan sample_os id policy [sample_input ''a'' KindRegular, sample_input ''b'' KindRegular]) s0"


lemma concurrent_sample_run:
  "\<exists>s0 policy p totals. newCompressionPolicy toy_zstd 4 (cf_compression sample_cfg) = Ok policy
     \<and> NewConcurrentArchiver toy_prims toy_age toy_zstd 4 8 open_sink (str ''pw'') 2 sample_cfg sample_rnd = (Val (s0, policy, 2), replicate 340 0)
     \<and> (sample_step policy)\<^sup>*\<^sup>* (sample_pool policy s0) p \<and> jp_writer p = Returned (Val totals)"
proof -
  obtain s0 policy where s: "newCompressionPolicy toy_zstd 4 (cf_compression sample_cfg) = Ok policy"
    "NewConcurrentArchiver toy_prims toy_age toy_zstd 4 8 open_sink (str ''pw'') 2 sample_cfg sample_rnd = (Val (s0, policy, 2), replicate 340 0)"
    using concurrent_sample_start by blast
  have "jobs_inv (runJob toy_prims toy_zstd sample_os id policy sample_rnds) (Suc 1) (sample_pool policy s0)"
    by (rule archive_start_inv [OF toy_prims_correct(3) newCompressionPolicy_full [OF s(1)]])
  from archiving.pool.run_ends [OF this, of open_sink toy_ssh "Some ()" "[sample_input ''d'' KindDirectory]" "length sample_inputs"]
  obtain p where p: "(sample_step policy)\<^sup>*\<^sup>* (sample_pool policy s0) p" "jobs_over p"
    by (auto simp: archive_step_def numeral_2_eq_2)
  have "88 * length sample_inputs + 76 \<le> length (replicate 340 0 :: bytes)" by (simp add: sample_inputs_def)
  from concurrent_run_completes [OF sample_ok(1) open_sink_accepts sample_ok(2) sample_inputs_ok sample_ok(4) s(2) _ sample_ok(6) this _ sample_split p]
  show ?thesis using s p by auto
qed

theorem concurrent_archive_refines_witness:
  "\<exists>s0 policy p r. (sample_step policy)\<^sup>*\<^sup>* (sample_pool policy s0) p \<and> jp_writer p = Returned (Val r)
     \<and> archiveJobs toy_prims toy_zstd open_sink sample_os id policy toy_ssh (Some ()) sample_rnds [sample_input ''d'' KindDirectory]
         (length sample_inputs) (archive_plan sample_os id policy [sample_input ''a'' KindRegular, sample_input ''b'' KindRegular]) s0
       = (Val r, jp_session p)"
proof -
  obtain s0 policy p r where s: "newCompressionPolicy toy_zstd 4 (cf_compression sample_cfg) = Ok policy"
    "(sample_step policy)\<^sup>*\<^sup>* (sample_pool policy s0) p" "jp_writer p = Returned (Val r)"
    using concurrent_sample_run by blast
  from concurrent_archive_refines [OF toy_prims_correct(3) s(1) zero_less_numeral s(2,3)] s(2,3) show ?thesis by blast
qed


theorem concurrent_archive_extracts_witness:
  "\<exists>out archived failed stored t segs. mset archived + mset failed = mset sample_inputs
     \<and> list_all2 (stored_file sample_os) archived stored
     \<and> Extract toy_prims toy_age toy_zstd yes_world \<lparr>u_Password = str ''pw'', u_KeyFiles = [], u_Identities = [7]\<rparr> (str ''out'') True
         (replicate 24 0) None (Stream out EOF) = ((results_of stored, Val ()), t)
     \<and> list_all2 (restores True) stored segs"
proof -
  obtain s0 policy p r where
      new: "NewConcurrentArchiver toy_prims toy_age toy_zstd 4 8 open_sink (str ''pw'') 2 sample_cfg sample_rnd = (Val (s0, policy, 2), replicate 340 0)"
    and run: "(sample_step policy)\<^sup>*\<^sup>* (sample_pool policy s0) p" "jp_writer p = Returned (Val r)"
    using concurrent_sample_run by blast
  have o: "opens (\<lambda>rs is'. is' \<noteq> []) \<lparr>u_Password = str ''pw'', u_KeyFiles = [], u_Identities = [7 :: nat]\<rparr> (CredPassword (str ''pw'') :: nat cred)"
    by simp
  have d: "NewBlockDecompressor toy_zstd = Ok \<lparr>bd_limit = MaxChunkSize, bd_window = zstdWindowSize\<rparr>"
    by (simp add: NewBlockDecompressor_def newDecompressor_def toy_zstd_def)
  have n: "8 * length sample_inputs \<le> length (replicate 24 0 :: bytes)" by (simp add: sample_inputs_def)
  from concurrent_archive_extracts [OF toy_lib_ok toy_prims_wrap_laws toy_age_correct toy_prims_correct(3) sample_ok(3,5) d new _ sample_split
      run sample_cred o sample_inputs_ok yes_willing n, of "str ''out''" True None]
  show ?thesis by auto
qed

end
