(* ===== verification/Chunker.thy ===== *)
theory Chunker
  imports Format
begin

text \<open>
  Content-defined chunking for incremental archives (\<^verbatim>\<open>archive/chunker.go\<close>): FastCDC over a keyed
  gear table.  The reader delivers the stream in arbitrary pieces, as \<^verbatim>\<open>io.Reader\<close> allows.
\<close>

definition MinCDCChunkSize :: nat where "MinCDCChunkSize = 256 * 1024"
definition AvgCDCChunkSize :: nat where "AvgCDCChunkSize = 1024 * 1024"
definition cdcAvgBits :: nat where "cdcAvgBits = 20"
definition cdcMaskS :: u64 where "cdcMaskS = NOT (2 ^ (64 - (cdcAvgBits + 2)) - 1)"
definition cdcMaskL :: u64 where "cdcMaskL = NOT (2 ^ (64 - (cdcAvgBits - 2)) - 1)"

lemma cdc_sizes: "0 < MinCDCChunkSize" "MinCDCChunkSize \<le> AvgCDCChunkSize" "AvgCDCChunkSize \<le> MaxCDCChunkSize"
  by (simp_all add: MinCDCChunkSize_def AvgCDCChunkSize_def MaxCDCChunkSize_def)

text \<open>
  One of the two loops of \<^verbatim>\<open>cutPoint\<close>, over the bytes from position \<open>i\<close> on: the cut found, or the
  hash with which the next loop continues.
\<close>

fun scan :: "u64 \<Rightarrow> u64 list \<Rightarrow> u64 \<Rightarrow> nat \<Rightarrow> bytes \<Rightarrow> nat + u64" where
  "scan msk gear h i [] = Inr h"
| "scan msk gear h i (b # bs) =
     (let h = push_bit 1 h + gear ! unat b in
      if h AND msk = 0 then Inl (i + 1) else scan msk gear h (i + 1) bs)"

definition cutPoint :: "bytes \<Rightarrow> u64 list \<Rightarrow> nat" where
  "cutPoint data gear =
     (let n = length data in
      if n \<le> MinCDCChunkSize then n
      else let normal = min n AvgCDCChunkSize in
        case scan cdcMaskS gear 0 MinCDCChunkSize (take (normal - MinCDCChunkSize) (drop MinCDCChunkSize data)) of
          Inl c \<Rightarrow> c
        | Inr h \<Rightarrow> (case scan cdcMaskL gear h normal (drop normal data) of Inl c \<Rightarrow> c | Inr _ \<Rightarrow> n))"

section \<open>The reader and the chunker\<close>

text \<open>
  A reader holds the pieces its next calls deliver and how it ends: \<^verbatim>\<open>io.EOF\<close> or another
  error.  A piece longer than the buffer is delivered in parts.
\<close>

record reader =
  rd_pieces :: "bytes list"
  rd_err :: "sarc_error option"

definition rd_Read :: "nat \<Rightarrow> reader \<Rightarrow> bytes \<times> sarc_error option \<times> reader" where
  "rd_Read n r =
     (case rd_pieces r of
        [] \<Rightarrow> ([], Some (case rd_err r of None \<Rightarrow> EOF | Some e \<Rightarrow> e), r)
      | p # ps \<Rightarrow> if length p \<le> n then (p, None, r\<lparr>rd_pieces := ps\<rparr>)
                  else (take n p, None, r\<lparr>rd_pieces := drop n p # ps\<rparr>))"

record Chunker =
  ck_r :: reader
  ck_gear :: "u64 list"
  ck_buf :: bytes \<comment> \<open>the valid bytes \<^verbatim>\<open>buf[:n]\<close>\<close>
  ck_cut :: nat
  ck_eof :: bool

definition NewChunker :: "reader \<Rightarrow> u64 list \<Rightarrow> Chunker" where
  "NewChunker r gear = \<lparr>ck_r = r, ck_gear = gear, ck_buf = [], ck_cut = 0, ck_eof = False\<rparr>"

text \<open>The filling loop: reads until the buffer is full, the stream ends, or an error occurs.\<close>

function fill :: "Chunker \<Rightarrow> sarc_error option \<times> Chunker" where
  "fill c =
     (if \<not> ck_eof c \<and> length (ck_buf c) < MaxCDCChunkSize
      then let (m, err, r) = rd_Read (MaxCDCChunkSize - length (ck_buf c)) (ck_r c);
               c' = c\<lparr>ck_r := r, ck_buf := ck_buf c @ m\<rparr> in
           (case err of None \<Rightarrow> fill c'
            | Some e \<Rightarrow> if is_EOF e then fill (c'\<lparr>ck_eof := True\<rparr>) else (Some e, c'))
      else (None, c))"
  by pat_completeness auto
termination
proof (relation "measures [\<lambda>c. if ck_eof c then 0 else 1, \<lambda>c. length (rd_pieces (ck_r c)), \<lambda>c. MaxCDCChunkSize - length (ck_buf c)]", goal_cases)
  case (2 c x xa y m yb c')
  then show ?case by (auto simp: rd_Read_def split: list.splits if_splits)
qed (auto simp: rd_Read_def split: list.splits if_splits)

declare fill.simps [simp del]

definition ck_Next :: "Chunker \<Rightarrow> bytes res \<times> Chunker" where
  "ck_Next c =
     (let c = c\<lparr>ck_buf := drop (ck_cut c) (ck_buf c), ck_cut := 0\<rparr>;
          (err, c) = fill c in
      case err of Some e \<Rightarrow> (Err e, c)
      | None \<Rightarrow>
        if ck_buf c = [] then (Err EOF, c)
        else let k = cutPoint (ck_buf c) (ck_gear c) in (Ok (take k (ck_buf c)), c\<lparr>ck_cut := k\<rparr>))"

text \<open>How callers use it: \<^verbatim>\<open>Next\<close> until it fails, at most \<open>fuel\<close> times.\<close>

fun chunk_all :: "nat \<Rightarrow> Chunker \<Rightarrow> bytes list \<times> sarc_error option" where
  "chunk_all 0 c = ([], None)"
| "chunk_all (Suc fuel) c =
     (case ck_Next c of
        (Ok chunk, c) \<Rightarrow> (let (cs, e) = chunk_all fuel c in (chunk # cs, e))
      | (Err e, c) \<Rightarrow> ([], Some e)
      | (Panic, c) \<Rightarrow> ([], None))"

section \<open>Cut points\<close>

lemma scan_bounds: "scan msk gear h i bs = Inl c \<Longrightarrow> i < c \<and> c \<le> i + length bs"
  by (induction msk gear h i bs rule: scan.induct) (auto simp: Let_def split: if_splits)

lemma cutPoint_bounds:
  "cutPoint data gear \<le> length data"
  "MinCDCChunkSize < length data \<Longrightarrow> MinCDCChunkSize < cutPoint data gear"
  using cdc_sizes(2) by (auto simp: cutPoint_def Let_def split: sum.splits dest!: scan_bounds)

lemma cutPoint_pos: "data \<noteq> [] \<Longrightarrow> 0 < cutPoint data gear"
  using cutPoint_bounds(2) [of data gear] by (cases "MinCDCChunkSize < length data") (auto simp: cutPoint_def)

text \<open>The chunks of a stream, as a function of its content alone.\<close>

function cdc_split :: "u64 list \<Rightarrow> bytes \<Rightarrow> bytes list" where
  "cdc_split gear data =
     (if data = [] then []
      else let c = cutPoint (take MaxCDCChunkSize data) gear in take c data # cdc_split gear (drop c data))"
  by pat_completeness auto
termination
proof (relation "measure (\<lambda>(g, d). length d)", goal_cases)
  case (2 gear data x)
  then have "0 < x" using cdc_sizes by (simp add: cutPoint_pos)
  with 2 show ?case by simp
qed simp

declare cdc_split.simps [simp del]

section \<open>The chunker computes the split\<close>

definition stream_left :: "Chunker \<Rightarrow> bytes" where
  "stream_left c = drop (ck_cut c) (ck_buf c) @ concat (rd_pieces (ck_r c))"

definition chunker_inv :: "Chunker \<Rightarrow> bool" where
  "chunker_inv c \<longleftrightarrow> rd_err (ck_r c) = None \<and> (ck_eof c \<longrightarrow> rd_pieces (ck_r c) = [])
     \<and> ck_cut c \<le> length (ck_buf c) \<and> length (ck_buf c) \<le> MaxCDCChunkSize"

lemma rd_Read_pieces:
  "rd_Read n r = (m, err, r') \<Longrightarrow> rd_err r = None \<Longrightarrow>
     rd_err r' = None \<and> concat (rd_pieces r) = m @ concat (rd_pieces r') \<and> length m \<le> n
     \<and> (err = None \<or> err = Some EOF \<and> rd_pieces r' = [])"
  by (auto simp: rd_Read_def split: list.splits if_splits)

lemma fill_complete:
  assumes "chunker_inv c" and "ck_cut c = 0"
  shows "\<exists>c'. fill c = (None, c') \<and> chunker_inv c' \<and> ck_cut c' = 0 \<and> ck_gear c' = ck_gear c
    \<and> stream_left c' = stream_left c \<and> ck_buf c' = take MaxCDCChunkSize (stream_left c)"
  using assms
proof (induction c rule: fill.induct)
  case (1 c)
  show ?case
  proof (cases "\<not> ck_eof c \<and> length (ck_buf c) < MaxCDCChunkSize")
    case False
    then have "fill c = (None, c)" by (subst fill.simps) auto
    moreover have "ck_buf c = take MaxCDCChunkSize (stream_left c)"
      using False "1.prems" by (auto simp: stream_left_def chunker_inv_def)
    ultimately show ?thesis using "1.prems" by blast
  next
    case True
    obtain m err r where rd: "rd_Read (MaxCDCChunkSize - length (ck_buf c)) (ck_r c) = (m, err, r)"
      using prod_cases3 by blast
    define c1 where "c1 = c\<lparr>ck_r := r, ck_buf := ck_buf c @ m\<rparr>"
    note p = rd_Read_pieces [OF rd]
    have inv: "chunker_inv c1" "ck_cut c1 = 0" "stream_left c1 = stream_left c" "ck_gear c1 = ck_gear c"
      using p "1.prems" True by (auto simp: c1_def chunker_inv_def stream_left_def)
    show ?thesis
    proof (cases err)
      case None
      then have f: "fill c = fill c1" using True rd by (subst fill.simps) (simp add: c1_def Let_def)
      from "1.IH"(1) [OF True rd [symmetric] refl refl c1_def None] inv f show ?thesis by simp
    next
      case (Some e)
      with p "1.prems" have e: "e = EOF" "rd_pieces r = []" by (auto simp: chunker_inv_def)
      have f: "fill c = fill (c1\<lparr>ck_eof := True\<rparr>)"
        using True rd Some e by (subst fill.simps) (simp add: c1_def Let_def)
      have inv': "chunker_inv (c1\<lparr>ck_eof := True\<rparr>)" "ck_cut (c1\<lparr>ck_eof := True\<rparr>) = 0"
          "stream_left (c1\<lparr>ck_eof := True\<rparr>) = stream_left c"
        using inv e by (auto simp: chunker_inv_def stream_left_def c1_def)
      from "1.IH"(2) [OF True rd [symmetric] refl refl c1_def Some] inv inv' f e(1) show ?thesis by simp
    qed
  qed
qed

lemma ck_Next_split:
  assumes "chunker_inv c"
  shows "stream_left c = [] \<Longrightarrow> fst (ck_Next c) = Err EOF"
    and "stream_left c \<noteq> [] \<Longrightarrow> (let k = cutPoint (take MaxCDCChunkSize (stream_left c)) (ck_gear c) in
      \<exists>c'. ck_Next c = (Ok (take k (stream_left c)), c') \<and> chunker_inv c' \<and> ck_gear c' = ck_gear c
        \<and> stream_left c' = drop k (stream_left c))"
proof -
  let ?c = "c\<lparr>ck_buf := drop (ck_cut c) (ck_buf c), ck_cut := 0\<rparr>"
  have "chunker_inv ?c" "ck_cut ?c = 0" "stream_left ?c = stream_left c"
    using assms by (auto simp: chunker_inv_def stream_left_def)
  with fill_complete [of ?c] obtain c' where f: "fill ?c = (None, c')" and inv: "chunker_inv c'" "ck_cut c' = 0"
    and g: "ck_gear c' = ck_gear c" and left: "stream_left c' = stream_left c"
    and buf: "ck_buf c' = take MaxCDCChunkSize (stream_left c)" by auto
  have mx: "MaxCDCChunkSize \<noteq> 0" using cdc_sizes by linarith
  show "fst (ck_Next c) = Err EOF" if "stream_left c = []"
    using f buf that by (simp add: ck_Next_def)
  define k where "k = cutPoint (take MaxCDCChunkSize (stream_left c)) (ck_gear c)"
  have k: "k \<le> length (ck_buf c')" using cutPoint_bounds(1) [of "ck_buf c'" "ck_gear c"] by (simp add: k_def buf)
  show "let k = cutPoint (take MaxCDCChunkSize (stream_left c)) (ck_gear c) in
      \<exists>c'. ck_Next c = (Ok (take k (stream_left c)), c') \<and> chunker_inv c' \<and> ck_gear c' = ck_gear c
        \<and> stream_left c' = drop k (stream_left c)" if "stream_left c \<noteq> []"
    unfolding Let_def k_def [symmetric]
  proof (intro exI conjI)
    show "ck_Next c = (Ok (take k (stream_left c)), c'\<lparr>ck_cut := k\<rparr>)"
      using f buf that mx k by (simp add: ck_Next_def g k_def [symmetric] min_absorb1)
    show "chunker_inv (c'\<lparr>ck_cut := k\<rparr>)" using inv k by (simp add: chunker_inv_def)
    show "stream_left (c'\<lparr>ck_cut := k\<rparr>) = drop k (stream_left c)"
      using inv(2) k by (simp add: stream_left_def [of "c'\<lparr>ck_cut := k\<rparr>"] left [symmetric])
        (simp add: stream_left_def)
  qed (simp add: g)
qed

lemma chunk_all_split:
  "chunker_inv c \<Longrightarrow> length (stream_left c) < fuel \<Longrightarrow>
   chunk_all fuel c = (cdc_split (ck_gear c) (stream_left c), Some EOF)"
proof (induction fuel arbitrary: c)
  case (Suc fuel)
  show ?case
  proof (cases "stream_left c = []")
    case True
    with ck_Next_split(1) [OF Suc.prems(1)] show ?thesis
      by (cases "ck_Next c") (simp add: cdc_split.simps)
  next
    case False
    define k where "k = cutPoint (take MaxCDCChunkSize (stream_left c)) (ck_gear c)"
    obtain c' where n: "ck_Next c = (Ok (take k (stream_left c)), c')" "chunker_inv c'" "ck_gear c' = ck_gear c"
        "stream_left c' = drop k (stream_left c)"
      using ck_Next_split(2) [OF Suc.prems(1) False] unfolding Let_def k_def by blast
    have "take MaxCDCChunkSize (stream_left c) \<noteq> []" using False cdc_sizes by auto
    then have "0 < k" unfolding k_def by (rule cutPoint_pos)
    moreover have "0 < length (stream_left c)" using False by simp
    ultimately have "length (stream_left c') < fuel" using n(4) Suc.prems(2) by (simp del: length_greater_0_conv)
    with Suc.IH [OF n(2)] n False show ?thesis
      by (simp add: cdc_split.simps [of _ "stream_left c"] k_def [symmetric] Let_def)
  qed
qed simp

lemma cdc_split_concat: "concat (cdc_split gear data) = data"
proof (induction gear data rule: cdc_split.induct)
  case (1 gear data)
  then show ?case by (subst cdc_split.simps) (simp add: Let_def)
qed

lemma cdc_split_sizes:
  "list_all (\<lambda>c. 0 < length c \<and> length c \<le> MaxCDCChunkSize) (cdc_split gear data)
   \<and> list_all (\<lambda>c. MinCDCChunkSize < length c) (butlast (cdc_split gear data))"
proof (induction gear data rule: cdc_split.induct)
  case (1 gear data)
  show ?case
  proof (cases "data = []")
    case False
    define k where "k = cutPoint (take MaxCDCChunkSize data) gear"
    have s: "cdc_split gear data = take k data # cdc_split gear (drop k data)"
      using False by (subst cdc_split.simps) (simp add: k_def Let_def)
    have kb: "k \<le> length data" "k \<le> MaxCDCChunkSize"
      using cutPoint_bounds(1) [of "take MaxCDCChunkSize data" gear] by (simp_all add: k_def)
    have "0 < k" unfolding k_def using False cdc_sizes by (intro cutPoint_pos) auto
    moreover have "MinCDCChunkSize < k" if "cdc_split gear (drop k data) \<noteq> []"
    proof (rule ccontr)
      assume "\<not> MinCDCChunkSize < k"
      then have "length (take MaxCDCChunkSize data) \<le> MinCDCChunkSize"
        using cutPoint_bounds(2) [of "take MaxCDCChunkSize data" gear] unfolding k_def by linarith
      then have "length data \<le> MinCDCChunkSize"
        by (auto simp: MinCDCChunkSize_def MaxCDCChunkSize_def)
      moreover from this have "take MaxCDCChunkSize data = data" using cdc_sizes by simp
      ultimately have "k = length data" by (simp add: k_def cutPoint_def)
      with that show False by (simp add: cdc_split.simps)
    qed
    ultimately show ?thesis
      using "1.IH" [OF False k_def] kb
      by (auto simp: s min_absorb2 cdc_split.simps [of gear "[]"] split: if_splits)
  qed (simp add: cdc_split.simps)
qed

text \<open>
  C34: calling \<^verbatim>\<open>Next\<close> until it reports the end of the stream splits the stream completely and
  independently of how the reader delivers it: the chunks are \<open>cdc_split\<close> of the content,
  their concatenation is the content, every chunk is non-empty and at most
  \<^verbatim>\<open>MaxCDCChunkSize\<close> long, and every chunk but the last exceeds \<^verbatim>\<open>MinCDCChunkSize\<close>.
\<close>

theorem chunker_complete:
  "let data = concat pieces;
       (chunks, e) = chunk_all (Suc (length data)) (NewChunker \<lparr>rd_pieces = pieces, rd_err = None\<rparr> gear) in
   e = Some EOF \<and> chunks = cdc_split gear data \<and> concat chunks = data
   \<and> list_all (\<lambda>c. 0 < length c \<and> length c \<le> MaxCDCChunkSize) chunks
   \<and> list_all (\<lambda>c. MinCDCChunkSize < length c) (butlast chunks)"
proof -
  let ?c = "NewChunker \<lparr>rd_pieces = pieces, rd_err = None\<rparr> gear"
  have "chunker_inv ?c" "stream_left ?c = concat pieces" "ck_gear ?c = gear"
    by (simp_all add: NewChunker_def chunker_inv_def stream_left_def)
  then show ?thesis
    using chunk_all_split [of ?c "Suc (length (concat pieces))"] cdc_split_concat cdc_split_sizes
    by (simp add: Let_def)
qed

text \<open>After a common cut, equal content is cut equally: the chunks after it are those of the rest alone.\<close>

lemma cdc_split_suffix:
  "cdc_split gear data = xs @ ys \<Longrightarrow> ys = cdc_split gear (concat ys)"
proof (induction xs arbitrary: data)
  case Nil
  then show ?case using cdc_split_concat [of gear data] by simp
next
  case (Cons x xs)
  then have "data \<noteq> []" by (auto simp: cdc_split.simps)
  with Cons.prems have "cdc_split gear (drop (cutPoint (take MaxCDCChunkSize data) gear) data) = xs @ ys"
    by (subst (asm) cdc_split.simps) (simp add: Let_def)
  then show ?case by (rule Cons.IH)
qed

text \<open>
  Chunking resynchronises after an edit.  If two streams have the same content from some
  cut on, then they have the same chunks from there on, however they differ before it.
\<close>

lemma chunker_resynchronises:
  assumes "cdc_split gear a = xs @ ys" and "cdc_split gear b = us @ vs" and "concat ys = concat vs"
  shows "ys = vs"
  using cdc_split_suffix [OF assms(1)] cdc_split_suffix [OF assms(2)] assms(3) by simp

theorem chunker_resynchronises_witness:
  "cdc_split [] [1, 2] = [] @ [[1, 2]] \<and> [[1, 2 :: byte]] = [[1, 2]]"
proof -
  have s: "cdc_split [] [1, 2] = [] @ [[1, 2]]"
    by (simp add: cdc_split.simps [of _ "[1, 2]"] cdc_split.simps [of _ "[]"] cutPoint_def Let_def
        MinCDCChunkSize_def MaxCDCChunkSize_def)
  show ?thesis using s chunker_resynchronises [OF s s refl] by blast
qed

end
