(* ===== verification/Session_Writer.thy ===== *)
theory Session_Writer
  imports Incremental_State Archive_Session Chunker
begin

text \<open>
  Writing one session of an incremental archive (\<^verbatim>\<open>io/incremental_write.go\<close>): pack entries, the chunks of
  files, the session index.  The state of a session is the archive writer and the random bytes still
  to be drawn, what the archive is known to hold, the index under construction and the open pack;
  progress reports other than failures are left out.
\<close>

section \<open>Packs\<close>

text \<open>The running HMAC of a pack is given by its key and the bytes written to it.\<close>

record packWriter =
  pw_fb :: FrameBuilder
  pw_key :: bytes
  pw_mac :: bytes
  pw_size :: u64
  pw_buf :: bytes
  pw_next :: nat

definition openPackEntry :: "prims \<Rightarrow> sink \<Rightarrow> packWriter writing" where
  "openPackEntry P K =
     bindS (drawS (writeFailed ''generate salt'') GenerateSalt) (\<lambda>salt.
     bindS (withWriter (\<lambda>aw. callS (writeFailed ''derive pack key'') (DeriveFileKey P aw salt))) (\<lambda>key.
     bindS (drawS (writeFailed ''init frame builder'') (NewFrameBuilder key)) (\<lambda>fb.
     bindS (callS (writeFailed ''frame header'') (FrameHeader P fb)) (\<lambda>(frameHdr, fb).
     bindS (callS (writeFailed ''init metadata manager'') (NewMetadataManager key)) (\<lambda>mm.
     bindS (drawS (writeFailed ''seal metadata'') (mm_Seal P mm
       \<lparr>pm_EncryptedFilename = [], pm_SizeBucket = BucketHuge, pm_TimestampHash = replicate 32 0,
        pm_Permissions = 0, pm_Codec = CodecNone, pm_Attributes = None\<rparr>)) (\<lambda>meta.
     bindS (callS (writeFailed ''inter-block padding'') (InterBlockPadding P fb)) (\<lambda>(interPad, fb).
     bindS (writeS (writeFailed ''begin pack'') (BeginFileEntry K EntryTypePack salt frameHdr meta interPad)) (\<lambda>_.
     case NextChunkSize P fb of (n, fb) \<Rightarrow>
       returnS \<lparr>pw_fb = fb, pw_key = key, pw_mac = [], pw_size = 0, pw_buf = [], pw_next = n\<rparr>))))))))"

definition pw_seal :: "prims \<Rightarrow> zstd \<Rightarrow> sink \<Rightarrow> bytes \<Rightarrow> packWriter \<Rightarrow> packWriter writing" where
  "pw_seal P Z K block pw =
     bindS (callS (writeFailed ''encrypt pack block'') (EncryptChunk P Z (pw_fb pw) block)) (\<lambda>(db, fb).
     bindS (writeS (writeFailed ''write pack block'') (AppendDataBlock K db)) (\<lambda>_.
     case NextChunkSize P fb of (n, fb) \<Rightarrow> returnS (pw\<lparr>pw_fb := fb, pw_next := n\<rparr>)))"

lemma pw_seal_Val:
  assumes "pw_seal P Z K block pw (aw, rnd) = (Val pw', s')"
  shows "\<exists>db fb aw' n fb'. EncryptChunk P Z (pw_fb pw) block = Ok (db, fb) \<and> AppendDataBlock K db aw = Ok aw'
    \<and> NextChunkSize P fb = (n, fb') \<and> pw' = pw\<lparr>pw_fb := fb', pw_next := n\<rparr> \<and> s' = (aw', rnd)"
proof -
  obtain db fb aw' where a: "EncryptChunk P Z (pw_fb pw) block = Ok (db, fb)" "AppendDataBlock K db aw = Ok aw'"
      "(case NextChunkSize P fb of (n, fb) \<Rightarrow> returnS (pw\<lparr>pw_fb := fb, pw_next := n\<rparr>)) (aw', rnd) = (Val pw', s')"
    using assms by (auto simp: pw_seal_def writing_convs)
  then show ?thesis by (cases "NextChunkSize P fb") (auto simp: writing_convs)
qed

lemma pw_seal_next: "pw_seal P Z K block pw s = (Val pw', s') \<Longrightarrow> 0 < pw_next pw'"
  by (cases s) (auto dest!: pw_seal_Val NextChunkSize_bounds(1))

text \<open>The loop of \<^verbatim>\<open>write\<close> that seals whole blocks; what is left is buffered.\<close>

function pw_blocks :: "prims \<Rightarrow> zstd \<Rightarrow> sink \<Rightarrow> bytes \<Rightarrow> packWriter \<Rightarrow> packWriter writing" where
  "pw_blocks P Z K data pw s =
     (if length data < pw_next pw then (Val (pw\<lparr>pw_buf := pw_buf pw @ data\<rparr>), s)
      else case pw_seal P Z K (take (pw_next pw) data) pw s of
        (Val pw', s') \<Rightarrow> pw_blocks P Z K (drop (pw_next pw) data) pw' s'
      | (Fail e, s') \<Rightarrow> (Fail e, s')
      | (Crash, s') \<Rightarrow> (Crash, s'))"
  by pat_completeness auto
termination
proof (relation "measures [\<lambda>(P, Z, K, data, pw, s). length data, \<lambda>(P, Z, K, data, pw, s). if pw_next pw = 0 then 1 else 0]", goal_cases)
  case (2 P Z K data pw s x y pw')
  then have "0 < pw_next pw'" by (metis pw_seal_next)
  with 2 show ?case by (auto simp: not_less)
qed simp

declare pw_blocks.simps [simp del]

definition pw_write :: "prims \<Rightarrow> zstd \<Rightarrow> sink \<Rightarrow> bytes \<Rightarrow> packWriter \<Rightarrow> packWriter writing" where
  "pw_write P Z K data pw =
     (let pw = pw\<lparr>pw_mac := pw_mac pw @ data, pw_size := pw_size pw + word_of_nat (length data)\<rparr> in
      if pw_buf pw \<noteq> [] then
        let n = min (pw_next pw - length (pw_buf pw)) (length data);
            pw = pw\<lparr>pw_buf := pw_buf pw @ take n data\<rparr> in
        if length (pw_buf pw) < pw_next pw then returnS pw
        else bindS (pw_seal P Z K (pw_buf pw) pw) (\<lambda>pw. pw_blocks P Z K (drop n data) (pw\<lparr>pw_buf := []\<rparr>))
      else pw_blocks P Z K data pw)"

definition pw_close :: "prims \<Rightarrow> zstd \<Rightarrow> sink \<Rightarrow> packWriter \<Rightarrow> unit writing" where
  "pw_close P Z K pw =
     bindS (if pw_buf pw \<noteq> [] then pw_seal P Z K (pw_buf pw) pw else returnS pw) (\<lambda>pw.
     bindS (callS (writeFailed ''build pack trailer'')
       (BuildTrailer P (pw_fb pw) (ComputeHMAC P (pw_key pw) (pw_mac pw)) (pw_size pw))) (\<lambda>(trailer, fb).
     writeS (writeFailed ''end pack'') (EndFileEntry K trailer)))"

section \<open>The session writer\<close>

record sessionWriter =
  sw_aw :: ArchiveWriter
  sw_rnd :: bytes
  sw_ia :: incrementalArchive
  sw_idKey :: bytes
  sw_gear :: "u64 list"
  sw_policy :: compressionPolicy
  sw_compressor :: "BlockCompressor option"
  sw_known :: "bytes \<rightharpoonup> u64"
  sw_index :: SessionIndex
  sw_pack :: "packWriter option"
  sw_errors :: "(bytes \<times> ArchiveError) list"

definition swWriter :: "'a writing \<Rightarrow> (sessionWriter, 'a) op" where
  "swWriter m sw = (case m (sw_aw sw, sw_rnd sw) of (r, aw, rnd) \<Rightarrow> (r, sw\<lparr>sw_aw := aw, sw_rnd := rnd\<rparr>))"

text \<open>The map from the identifier of each chunk to its number; a later chunk with the same one wins.\<close>

fun known_chunks :: "nat \<Rightarrow> chunkLocation list \<Rightarrow> (bytes \<rightharpoonup> u64)" where
  "known_chunks n [] = Map.empty"
| "known_chunks n (c # cs) = [cl_id c \<mapsto> word_of_nat n] ++ known_chunks (Suc n) cs"

definition newSessionWriter ::
  "prims \<Rightarrow> zstd \<Rightarrow> nat \<Rightarrow> i64 \<Rightarrow> incrementalArchive \<Rightarrow> CompressionOptions \<Rightarrow> ArchiveWriter \<times> bytes
    \<Rightarrow> sessionWriter outcome \<times> ArchiveWriter \<times> bytes" where
  "newSessionWriter P Z procs now ia compression =
     bindS (callS (\<lambda>e. fatal ErrCodeInvalidOption ''invalid compression options'' (Some e)) (newCompressionPolicy Z procs compression)) (\<lambda>policy.
     bindS (callS (writeFailed ''derive chunk key'') (ChunkIDKey P (ia_keys ia))) (\<lambda>idKey.
     bindS (callS (writeFailed ''derive chunker table'') (GearTable P (ia_keys ia))) (\<lambda>gear.
     bindS (if co_Mode compression \<noteq> CompressionNever
       then callS (\<lambda>e. fatal ErrCodeInvalidOption ''invalid compression options'' (Some e))
         (bindR (NewChunkCompressor Z procs (co_Level compression)) (\<lambda>c. Ok (Some c)))
       else returnS None) (\<lambda>compressor (aw, rnd).
     (Val \<lparr>sw_aw = aw, sw_rnd = rnd, sw_ia = ia, sw_idKey = idKey, sw_gear = gear, sw_policy = policy, sw_compressor = compressor,
        sw_known = known_chunks 0 (ia_chunks ia),
        sw_index = \<lparr>si_Session = ia_sessions ia + 1, si_Time = now, si_PrevIndex = word_of_nat (ia_lastIndex ia),
          si_FirstChunk = word_of_nat (length (ia_chunks ia)), si_Packs = [], si_Chunks = [], si_Files = [], si_Deleted = []\<rparr>,
        sw_pack = None, sw_errors = []\<rparr>, (aw, rnd))))))"

definition closePack :: "prims \<Rightarrow> zstd \<Rightarrow> sink \<Rightarrow> (sessionWriter, unit) op" where
  "closePack P Z K sw =
     (case sw_pack sw of
        None \<Rightarrow> (Val (), sw)
      | Some pw \<Rightarrow> (case swWriter (pw_close P Z K pw) sw of (r, sw) \<Rightarrow> (r, sw\<lparr>sw_pack := None\<rparr>)))"

text \<open>The bytes stored for a chunk, and how they are coded.\<close>

definition encode_chunk :: "zstd \<Rightarrow> BlockCompressor option \<Rightarrow> Codec \<Rightarrow> bytes \<Rightarrow> bytes \<times> Codec" where
  "encode_chunk Z compressor codec chunk =
     (case compressor of
        None \<Rightarrow> (chunk, CodecNone)
      | Some bc \<Rightarrow>
          if codec = CodecZstd \<and> length (Compress Z bc [] chunk) < length chunk
          then (Compress Z bc [] chunk, CodecZstd) else (chunk, CodecNone))"

text \<open>Make sure a pack is open that has room for \<open>n\<close> more bytes.\<close>

definition ensurePack :: "prims \<Rightarrow> zstd \<Rightarrow> sink \<Rightarrow> nat \<Rightarrow> (sessionWriter, packWriter) op" where
  "ensurePack P Z K n =
     bindS (withS (\<lambda>sw. case sw_pack sw of
         Some pw \<Rightarrow> if word_of_nat MaxPackSize < pw_size pw + word_of_nat n then closePack P Z K else returnS ()
       | None \<Rightarrow> returnS ())) (\<lambda>_.
     withS (\<lambda>sw. case sw_pack sw of
         Some pw \<Rightarrow> returnS pw
       | None \<Rightarrow>
           bindS (updateS (\<lambda>sw. sw\<lparr>sw_index := (sw_index sw)\<lparr>si_Packs := si_Packs (sw_index sw) @ [word_of_nat (aw_offset (sw_aw sw))]\<rparr>\<rparr>)) (\<lambda>_.
           bindS (swWriter (openPackEntry P K)) (\<lambda>pw.
           bindS (updateS (\<lambda>sw. sw\<lparr>sw_pack := Some pw\<rparr>)) (\<lambda>_. returnS pw)))))"

definition record_chunk :: "bytes \<Rightarrow> u64 \<Rightarrow> bytes \<Rightarrow> bytes \<Rightarrow> Codec \<Rightarrow> sessionWriter \<Rightarrow> sessionWriter" where
  "record_chunk cid offset chunk stored codec sw =
     (let packs = si_Packs (sw_index sw); n = word_of_nat (length (ia_chunks (sw_ia sw))) in
      sw\<lparr>sw_index := (sw_index sw)\<lparr>si_Chunks := si_Chunks (sw_index sw) @
           [\<lparr>cr_ID = cid, cr_Pack = word_of_nat (length packs - 1), cr_Offset = offset,
             cr_StoredLen = word_of_nat (length stored), cr_RawLen = word_of_nat (length chunk), cr_Codec = codec\<rparr>]\<rparr>,
         sw_ia := (sw_ia sw)\<lparr>ia_chunks := ia_chunks (sw_ia sw) @
           [\<lparr>cl_id = cid, cl_packOffset = last packs, cl_offset = offset,
             cl_stored = word_of_nat (length stored), cl_raw = word_of_nat (length chunk), cl_codec = codec\<rparr>]\<rparr>,
         sw_known := (sw_known sw)(cid \<mapsto> n)\<rparr>)"

definition storeChunk :: "prims \<Rightarrow> zstd \<Rightarrow> sink \<Rightarrow> bytes \<Rightarrow> bytes \<Rightarrow> Codec \<Rightarrow> (sessionWriter, u64) op" where
  "storeChunk P Z K cid chunk codec =
     withS (\<lambda>sw. case encode_chunk Z (sw_compressor sw) codec chunk of (stored, storedCodec) \<Rightarrow>
     bindS (ensurePack P Z K (length stored)) (\<lambda>pw.
     bindS (swWriter (pw_write P Z K stored pw)) (\<lambda>pw'.
     bindS (updateS (\<lambda>sw. sw\<lparr>sw_pack := Some pw'\<rparr>)) (\<lambda>_.
     withS (\<lambda>sw. bindS (updateS (record_chunk cid (pw_size pw) chunk stored storedCodec)) (\<lambda>_.
       returnS (word_of_nat (length (ia_chunks (sw_ia sw))))))))))"

section \<open>Files\<close>

text \<open>
  The pieces in which the content of a file arrives do not matter (\<open>chunker_content\<close>), so the reader
  delivers it in one.
\<close>

definition file_reader :: "osFile \<Rightarrow> reader" where
  "file_reader f = \<lparr>rd_pieces = [s_bytes (of_r f)], rd_err = (if is_EOF (s_end (of_r f)) then None else Some (s_end (of_r f)))\<rparr>"

lemma fill_left: "fill c = (e, c') \<Longrightarrow> ck_cut c = 0 \<Longrightarrow> stream_left c' = stream_left c \<and> ck_cut c' = 0"
proof (induction c arbitrary: e c' rule: fill.induct)
  case (1 c)
  show ?case
  proof (cases "\<not> ck_eof c \<and> length (ck_buf c) < MaxCDCChunkSize")
    case True
    obtain m err r where rd: "rd_Read (MaxCDCChunkSize - length (ck_buf c)) (ck_r c) = (m, err, r)"
      using prod_cases3 by blast
    define c1 where "c1 = c\<lparr>ck_r := r, ck_buf := ck_buf c @ m\<rparr>"
    have l: "stream_left c1 = stream_left c" "ck_cut c1 = 0"
      using rd "1.prems"(2) by (auto simp: c1_def stream_left_def rd_Read_def split: list.splits if_splits)
    then have l': "stream_left (c1\<lparr>ck_eof := True\<rparr>) = stream_left c" "ck_cut (c1\<lparr>ck_eof := True\<rparr>) = 0"
      by (simp_all add: stream_left_def)
    have f: "fill c = (case err of None \<Rightarrow> fill c1 | Some e \<Rightarrow> if is_EOF e then fill (c1\<lparr>ck_eof := True\<rparr>) else (Some e, c1))"
      using True rd by (subst fill.simps) (simp add: c1_def Let_def split: option.splits)
    show ?thesis
    proof (cases err)
      case None
      with f "1.prems" have "fill c1 = (e, c')" by simp
      from "1.IH"(1) [OF True rd [symmetric] refl refl c1_def None this l(2)] l show ?thesis by simp
    next
      case (Some e1)
      show ?thesis
      proof (cases "is_EOF e1")
        case eof: True
        with f Some "1.prems" have "fill (c1\<lparr>ck_eof := True\<rparr>) = (e, c')" by simp
        from "1.IH"(2) [OF True rd [symmetric] refl refl c1_def Some eof this l'(2)] l' show ?thesis by simp
      qed (use f Some "1.prems" l in simp)
    qed
  next
    case False
    with "1.prems" show ?thesis by (auto simp: fill.simps [of c])
  qed
qed

lemma ck_Next_shorter: "ck_Next c = (Ok chunk, c') \<Longrightarrow> length (stream_left c') < length (stream_left c)"
proof -
  assume n: "ck_Next c = (Ok chunk, c')"
  let ?c = "c\<lparr>ck_buf := drop (ck_cut c) (ck_buf c), ck_cut := 0\<rparr>"
  obtain e c1 where f: "fill ?c = (e, c1)" by force
  have "stream_left ?c = stream_left c" by (simp add: stream_left_def)
  then have l: "stream_left c1 = stream_left c" "ck_cut c1 = 0" using fill_left [OF f] by simp_all
  have b: "ck_buf c1 \<noteq> []" and c': "c' = c1\<lparr>ck_cut := cutPoint (ck_buf c1) (ck_gear c1)\<rparr>"
    using n f by (auto simp: ck_Next_def Let_def split: option.splits if_splits)
  have "0 < cutPoint (ck_buf c1) (ck_gear c1)" by (rule cutPoint_pos [OF b])
  then show ?thesis
    using b l by (simp add: c' stream_left_def [of "c1\<lparr>ck_cut := _\<rparr>"] l(1) [symmetric]) (simp add: stream_left_def)
qed

text \<open>The loop of \<^verbatim>\<open>addFile\<close> over the chunks of the file.\<close>

function store_chunks ::
  "prims \<Rightarrow> zstd \<Rightarrow> sink \<Rightarrow> Codec \<Rightarrow> Chunker \<Rightarrow> FileVersion \<Rightarrow> sessionWriter \<Rightarrow> FileVersion outcome \<times> sessionWriter" where
  "store_chunks P Z K codec chunker version sw =
     (case ck_Next chunker of
        (Panic, chunker') \<Rightarrow> (Crash, sw)
      | (Err e, chunker') \<Rightarrow> if is_EOF e then (Val version, sw) else (Fail (readFailed ''read file'' e), sw)
      | (Ok chunk, chunker') \<Rightarrow>
          let version = version\<lparr>fv_Size := fv_Size version + word_of_nat (length chunk)\<rparr>;
              cid = ComputeHMAC P (sw_idKey sw) chunk in
          (case (case sw_known sw cid of Some n \<Rightarrow> (Val n, sw) | None \<Rightarrow> storeChunk P Z K cid chunk codec sw) of
             (Val n, sw) \<Rightarrow> store_chunks P Z K codec chunker' (version\<lparr>fv_Chunks := fv_Chunks version @ [n]\<rparr>) sw
           | (Fail e, sw) \<Rightarrow> (Fail e, sw)
           | (Crash, sw) \<Rightarrow> (Crash, sw)))"
  by pat_completeness auto
termination
  by (relation "measure (\<lambda>(P, Z, K, codec, chunker, version, sw). length (stream_left chunker))")
    (auto dest: ck_Next_shorter [OF sym])

declare store_chunks.simps [simp del]

definition addFile ::
  "prims \<Rightarrow> zstd \<Rightarrow> sink \<Rightarrow> os \<Rightarrow> (bytes \<Rightarrow> bytes) \<Rightarrow> inputFile \<Rightarrow> fileInfo \<Rightarrow> (sessionWriter, FileVersion) op" where
  "addFile P Z K fs lower inp info =
     bindS (orFail (readFailed ''open file'') (os_Open fs (in_path inp))) (\<lambda>f.
     withS (\<lambda>sw.
     bindS (orFail (readFailed ''read compression probe'') (readProbe f (fi_Size info) (po_mode (sw_policy sw)))) (\<lambda>probe.
     bindS (callS (writeFailed ''panic'') (codecFor Z lower (sw_policy sw) (in_name inp) probe)) (\<lambda>codec.
     store_chunks P Z K codec (NewChunker (file_reader f) (sw_gear sw))
       \<lparr>fv_Name = in_name inp, fv_Attributes = in_attrs inp, fv_Size = 0, fv_Chunks = []\<rparr>))))"

section \<open>A session\<close>

text \<open>An input to record, with its metadata when it is regular, or the error that prevents it.\<close>

record changedFile =
  cf_in :: inputFile
  cf_info :: "fileInfo option"
  cf_err :: "ArchiveError option"

record IncrementalResult =
  ir_Session :: u64
  ir_Created :: bool
  ir_Changed :: nat
  ir_Unchanged :: nat
  ir_Deleted :: nat
  ir_Failed :: nat
  ir_ChangedBytes :: i64
  ir_NewChunks :: nat
  ir_AppendedBytes :: int
  ir_Repaired :: bool
  ir_Signed :: bool
  ir_SignatureRemoved :: bool

definition empty_result :: IncrementalResult where
  "empty_result = \<lparr>ir_Session = 0, ir_Created = False, ir_Changed = 0, ir_Unchanged = 0, ir_Deleted = 0, ir_Failed = 0,
     ir_ChangedBytes = 0, ir_NewChunks = 0, ir_AppendedBytes = 0, ir_Repaired = False, ir_Signed = False, ir_SignatureRemoved = False\<rparr>"

definition add_version :: "FileVersion \<Rightarrow> sessionWriter \<Rightarrow> sessionWriter" where
  "add_version f sw = sw\<lparr>sw_index := (sw_index sw)\<lparr>si_Files := si_Files (sw_index sw) @ [f]\<rparr>\<rparr>"

definition report_failure :: "bytes \<Rightarrow> ArchiveError \<Rightarrow> sessionWriter \<Rightarrow> sessionWriter" where
  "report_failure path e sw = sw\<lparr>sw_errors := sw_errors sw @ [(path, e)]\<rparr>"

fun record_files ::
  "prims \<Rightarrow> zstd \<Rightarrow> sink \<Rightarrow> os \<Rightarrow> (bytes \<Rightarrow> bytes) \<Rightarrow> changedFile list \<Rightarrow> IncrementalResult \<Rightarrow> (sessionWriter, IncrementalResult) op" where
  "record_files P Z K fs lower [] res = returnS res"
| "record_files P Z K fs lower (c # cs) res =
     (case cf_err c of
        Some e \<Rightarrow> bindS (updateS (report_failure (in_path (cf_in c)) e)) (\<lambda>_.
          record_files P Z K fs lower cs (res\<lparr>ir_Failed := ir_Failed res + 1\<rparr>))
      | None \<Rightarrow>
          if \<not> in_regular (cf_in c)
          then bindS (updateS (add_version \<lparr>fv_Name = in_name (cf_in c), fv_Attributes = in_attrs (cf_in c), fv_Size = 0, fv_Chunks = []\<rparr>)) (\<lambda>_.
            record_files P Z K fs lower cs (res\<lparr>ir_Changed := ir_Changed res + 1\<rparr>))
          else bindS (catchS (bindS (addFile P Z K fs lower (cf_in c) (the (cf_info c))) (\<lambda>v. returnS (Inr v)))
              (\<lambda>e. if IsFatal e then failS e else returnS (Inl e))) (\<lambda>r.
            case r of
              Inl e \<Rightarrow> bindS (updateS (report_failure (in_path (cf_in c)) e)) (\<lambda>_.
                record_files P Z K fs lower cs (res\<lparr>ir_Failed := ir_Failed res + 1\<rparr>))
            | Inr v \<Rightarrow> bindS (updateS (add_version v)) (\<lambda>_.
                record_files P Z K fs lower cs
                  (res\<lparr>ir_Changed := ir_Changed res + 1, ir_ChangedBytes := ir_ChangedBytes res + fv_Size v\<rparr>))))"

definition writeIndex :: "prims \<Rightarrow> zstd \<Rightarrow> sink \<Rightarrow> (sessionWriter, nat) op" where
  "writeIndex P Z K =
     withS (\<lambda>sw.
     bindS (callS (writeFailed ''encode session index'') (si_Marshal (sw_index sw))) (\<lambda>plaintext.
     bindS (swWriter (sealPayloadEntry P Z EntryTypeIndex CodecNone plaintext plaintext)) (\<lambda>entry.
     withS (\<lambda>sw.
     bindS (swWriter (writeS (writeFailed ''write session index'') (WriteFileEntry K entry))) (\<lambda>_.
     returnS (aw_offset (sw_aw sw)))))))"

text \<open>
  The session after the newest one of \<open>ia\<close>.  The second component tells whether it was written:
  \<^verbatim>\<open>errEmptySession\<close> is a session that records nothing.
\<close>

definition writeSession ::
  "prims \<Rightarrow> zstd \<Rightarrow> hash_codec \<Rightarrow> sink \<Rightarrow> os \<Rightarrow> (bytes \<Rightarrow> bytes) \<Rightarrow> nat \<Rightarrow> i64 \<Rightarrow> incrementalArchive \<Rightarrow> changedFile list
    \<Rightarrow> bytes list \<Rightarrow> CompressionOptions \<Rightarrow> bool \<Rightarrow> ArchiveWriter \<times> bytes
    \<Rightarrow> (IncrementalResult \<times> bool \<times> sessionWriter) outcome" where
  "writeSession P Z H K fs lower procs now ia changed deleted compression allowEmpty s =
     (case newSessionWriter P Z procs now ia compression s of
        (Fail e, s) \<Rightarrow> Fail e
      | (Crash, s) \<Rightarrow> Crash
      | (Val sw, s) \<Rightarrow>
          fst (bindS (record_files P Z K fs lower changed
              (empty_result\<lparr>ir_Session := ia_sessions ia + 1, ir_Deleted := length deleted\<rparr>)) (\<lambda>res.
            if \<not> allowEmpty \<and> ir_Changed res = 0 \<and> deleted = [] then withS (\<lambda>sw. returnS (res, False, sw))
            else bindS (closePack P Z K) (\<lambda>_.
              bindS (updateS (\<lambda>sw. sw\<lparr>sw_index := (sw_index sw)\<lparr>si_Deleted := deleted\<rparr>\<rparr>)) (\<lambda>_.
              bindS (writeIndex P Z K) (\<lambda>indexOffset.
              bindS (swWriter (writeS (writeFailed ''write archive tail'') (WriteCheckpointFooter P H K indexOffset))) (\<lambda>_.
              withS (\<lambda>sw. returnS (res\<lparr>ir_NewChunks := length (si_Chunks (sw_index sw))\<rparr>, True, sw))))))) sw))"

end
