(* ===== verification/Session_Packs.thy ===== *)
theory Session_Packs
  imports Session_Writer Sealed_Entry
begin

text \<open>
  What the packs of a session are: a pack that has been opened, written to in any pieces and closed
  is one entry whose content is the pieces in order, and a session only ever appends to the archive.
\<close>

section \<open>Appending\<close>

text \<open>The writer after it has put out \<open>b\<close>, apart from its notes on the entry it is writing.\<close>

definition append_out :: "bytes \<Rightarrow> ArchiveWriter \<Rightarrow> ArchiveWriter" where
  "append_out b aw = (if b = [] then aw else put b aw)"

definition wrote :: "bytes \<Rightarrow> ArchiveWriter \<Rightarrow> ArchiveWriter \<Rightarrow> bool" where
  "wrote b aw aw' \<longleftrightarrow> (\<exists>m n. aw' = append_out b aw\<lparr>aw_entryOffset := m, aw_entryStored := n\<rparr>)"

lemma wroteI: "b \<noteq> [] \<Longrightarrow> wrote b aw (put b aw\<lparr>aw_entryOffset := m, aw_entryStored := n\<rparr>)"
  unfolding wrote_def append_out_def by auto

lemma wrote_refl [simp]: "wrote [] aw aw"
  unfolding wrote_def by (rule exI [of _ "aw_entryOffset aw"], rule exI [of _ "aw_entryStored aw"]) (simp add: append_out_def)

lemma append_out_twice:
  "append_out b (append_out a w\<lparr>aw_entryOffset := m, aw_entryStored := n\<rparr>)
     = append_out (a @ b) w\<lparr>aw_entryOffset := m, aw_entryStored := n\<rparr>"
  by (simp add: append_out_def)

lemma wrote_seq [trans]:
  assumes "wrote a w w'" and "wrote b w' w''" shows "wrote (a @ b) w w''"
proof -
  obtain m n m' n' where "w' = append_out a w\<lparr>aw_entryOffset := m, aw_entryStored := n\<rparr>"
      "w'' = append_out b w'\<lparr>aw_entryOffset := m', aw_entryStored := n'\<rparr>"
    using assms by (auto simp: wrote_def)
  then have "w'' = append_out (a @ b) w\<lparr>aw_entryOffset := m', aw_entryStored := n'\<rparr>" by (simp add: append_out_twice)
  then show ?thesis unfolding wrote_def by blast
qed

lemma wrote_fields:
  assumes "wrote b aw aw'"
  shows "aw_out aw' = aw_out aw @ b" "aw_offset aw' = aw_offset aw + length b" "aw_keys aw' = aw_keys aw"
  using assms by (auto simp: wrote_def append_out_def put_def)

lemma wrote_follows: "wrote b aw aw' \<Longrightarrow> follows P (aw_hasher aw) base \<Longrightarrow> follows P (aw_hasher aw') (base @ b)"
  by (auto simp: wrote_def append_out_def put_def follows_Write)

lemma wrote_update:
  assumes "b \<noteq> []"
  shows "wrote b aw (put b aw)" "wrote b aw (put b aw\<lparr>aw_entryStored := n\<rparr>)"
  using wroteI [OF assms, where aw = aw and m = "aw_entryOffset aw" and n = "aw_entryStored aw"]
    wroteI [OF assms, where aw = aw and m = "aw_entryOffset aw" and n = n]
  by (simp_all add: put_def)

lemma entry_bytes_nonempty: "entry_bytes en \<noteq> []" "entry_head ty salt hdr mb \<noteq> []"
  by (simp_all add: entry_bytes_def entry_head_def)

lemma wrote_entry: "WriteFileEntry K en aw = Ok aw' \<Longrightarrow> wrote (entry_bytes en) aw aw'"
  by (auto dest!: WriteFileEntry_Ok simp: put_entry_of_def wroteI entry_bytes_nonempty)

section \<open>An open pack\<close>

definition pack_metadata :: PlaintextMetadata where
  "pack_metadata = \<lparr>pm_EncryptedFilename = [], pm_SizeBucket = BucketHuge, pm_TimestampHash = replicate 32 0,
     pm_Permissions = 0, pm_Codec = CodecNone, pm_Attributes = None\<rparr>"

text \<open>
  The bytes \<open>b\<close> of an unfinished entry under the key \<open>k\<close>, whose blocks hold \<open>content\<close>; \<open>fb\<close> builds the rest.
\<close>

definition pack_part :: "prims \<Rightarrow> zstd \<Rightarrow> KeySchedule \<Rightarrow> bytes \<Rightarrow> bytes \<Rightarrow> bytes \<Rightarrow> FrameBuilder \<Rightarrow> bool" where
  "pack_part P Z keys k b content fb \<longleftrightarrow> (\<exists>salt hdr mb pad dbs cs fb0 fb1 fb2 rnd rnd'.
     b = entry_head EntryTypePack salt hdr mb @ padding_bytes pad @ concat (map block_bytes dbs)
     \<and> length salt = SaltSize \<and> FileKey P keys salt = Ok k
     \<and> fb_em fb0 = \<lparr>em_key = k\<rparr> \<and> fb_Codec fb0 = CodecNone \<and> decodes P Z block_decoder fb0
     \<and> FrameHeader P fb0 = Ok (hdr, fb1) \<and> InterBlockPadding P fb1 = Ok (pad, fb2)
     \<and> mm_Seal P \<lparr>em_key = k\<rparr> pack_metadata rnd = Ok (mb, rnd')
     \<and> list_all2 (block_of P Z block_decoder \<lparr>em_key = k\<rparr> CodecNone) dbs cs
     \<and> concat cs = content \<and> same_file fb2 fb)"

lemma pack_partI:
  assumes "length salt = SaltSize" "FileKey P keys salt = Ok k"
    "fb_em fb0 = \<lparr>em_key = k\<rparr>" "fb_Codec fb0 = CodecNone" "decodes P Z block_decoder fb0"
    "FrameHeader P fb0 = Ok (hdr, fb1)" "InterBlockPadding P fb1 = Ok (pad, fb2)"
    "mm_Seal P \<lparr>em_key = k\<rparr> pack_metadata rnd = Ok (mb, rnd')"
    "list_all2 (block_of P Z block_decoder \<lparr>em_key = k\<rparr> CodecNone) dbs cs" "same_file fb2 fb"
  shows "pack_part P Z keys k (entry_head EntryTypePack salt hdr mb @ padding_bytes pad @ concat (map block_bytes dbs)) (concat cs) fb"
  using assms unfolding pack_part_def by blast

lemma frame_parts_same: "FrameHeader P fb = Ok (hdr, fb1) \<Longrightarrow> InterBlockPadding P fb1 = Ok (pad, fb2) \<Longrightarrow> same_file fb fb2"
  using FrameHeader_total [of P fb] InterBlockPadding_total [of P fb1] by (auto intro: same_file_trans)

lemma pack_part_same: "pack_part P Z keys k b content fb \<Longrightarrow> same_file fb fb' \<Longrightarrow> pack_part P Z keys k b content fb'"
  unfolding pack_part_def by (elim exE conjE, intro exI conjI) (assumption | erule (1) same_file_trans)+

lemma pack_part_block:
  assumes p: "pack_part P Z keys k b content fb" and block: "block \<noteq> []" "length block \<le> MaxChunkSize"
    and enc: "EncryptChunk P Z fb block = Ok (db, fb')"
  shows "pack_part P Z keys k (b @ block_bytes db) (content @ block) fb'"
  using p unfolding pack_part_def [of P Z keys k b]
proof (elim exE conjE)
  fix salt hdr mb pad dbs cs fb0 fb1 fb2 rnd rnd'
  assume o: "b = entry_head EntryTypePack salt hdr mb @ padding_bytes pad @ concat (map block_bytes dbs)"
     "length salt = SaltSize" "FileKey P keys salt = Ok k"
     "fb_em fb0 = \<lparr>em_key = k\<rparr>" "fb_Codec fb0 = CodecNone" "decodes P Z block_decoder fb0"
     "FrameHeader P fb0 = Ok (hdr, fb1)" "InterBlockPadding P fb1 = Ok (pad, fb2)"
     "mm_Seal P \<lparr>em_key = k\<rparr> pack_metadata rnd = Ok (mb, rnd')"
     "list_all2 (block_of P Z block_decoder \<lparr>em_key = k\<rparr> CodecNone) dbs cs"
     "concat cs = content" "same_file fb2 fb"
  have f: "same_file fb0 fb" using frame_parts_same [OF o(7,8)] o(12) by (rule same_file_trans)
  have blk: "block_of P Z block_decoder \<lparr>em_key = k\<rparr> CodecNone db block"
    using EncryptChunk_block [OF same_file_decodes [OF f o(6)] enc block] same_file_fields [OF f] o(4,5) by simp
  have f2: "same_file fb2 fb'" using o(12) EncryptChunk_same_file [OF enc] by (rule same_file_trans)
  have "list_all2 (block_of P Z block_decoder \<lparr>em_key = k\<rparr> CodecNone) (dbs @ [db]) (cs @ [block])"
    using o(10) blk by (simp add: list_all2_appendI)
  from pack_partI [OF o(2-9) this f2] show ?thesis by (simp add: o(1,11))
qed

text \<open>A pack with its content so far: an entry that opens to it.\<close>

definition pack_entry :: "prims \<Rightarrow> zstd \<Rightarrow> KeySchedule \<Rightarrow> bytes \<Rightarrow> FileEntry \<Rightarrow> bool" where
  "pack_entry P Z keys content en \<longleftrightarrow> fe_EntryType en = EntryTypePack
     \<and> (\<exists>k. FileKey P keys (fe_EntrySalt en) = Ok k \<and> sealed_as P Z k pack_metadata CodecNone content content en)"

lemma pack_part_close:
  assumes lib: "lib_ok P Z" and p: "pack_part P Z keys k b content fb"
    and t: "BuildTrailer P fb (ComputeHMAC P k content) (word_of_nat (length content)) = Ok (t, fb')"
  shows "\<exists>en. entry_bytes en = b @ sentinel @ trailer_bytes t \<and> pack_entry P Z keys content en"
  using p unfolding pack_part_def
proof (elim exE conjE)
  fix salt hdr mb pad dbs cs fb0 fb1 fb2 rnd rnd'
  assume o: "b = entry_head EntryTypePack salt hdr mb @ padding_bytes pad @ concat (map block_bytes dbs)"
     "length salt = SaltSize" "FileKey P keys salt = Ok k" "fb_em fb0 = \<lparr>em_key = k\<rparr>"
     "FrameHeader P fb0 = Ok (hdr, fb1)" "InterBlockPadding P fb1 = Ok (pad, fb2)"
     "mm_Seal P \<lparr>em_key = k\<rparr> pack_metadata rnd = Ok (mb, rnd')"
     "list_all2 (block_of P Z block_decoder \<lparr>em_key = k\<rparr> CodecNone) dbs cs" "concat cs = content" "same_file fb2 fb"
  let ?en = "\<lparr>fe_EntryType = EntryTypePack, fe_EntrySalt = salt, fe_FrameHdr = hdr, fe_Metadata = mb, fe_InterBlockPad = pad,
     fe_DataBlocks = dbs, fe_Trailer = t\<rparr>"
  have "sealed_as P Z k pack_metadata CodecNone content content ?en"
    by (rule entry_sealed [OF lib o(2,4-7) _ o(8-10) t]) (simp add: pack_metadata_def)
  with o(1,3) show ?thesis by (intro exI [of _ ?en]) (simp add: entry_bytes_def entry_body_def pack_entry_def)
qed

text \<open>The state of an open pack: what is not in the blocks yet is in the buffer, which is shorter than the next block.\<close>

definition pack_open :: "prims \<Rightarrow> zstd \<Rightarrow> KeySchedule \<Rightarrow> bytes \<Rightarrow> packWriter \<Rightarrow> bool" where
  "pack_open P Z keys b pw \<longleftrightarrow> (\<exists>content. pack_part P Z keys (pw_key pw) b content (pw_fb pw) \<and> content @ pw_buf pw = pw_mac pw)
     \<and> length (pw_buf pw) < pw_next pw \<and> pw_next pw \<le> MaxChunkSize \<and> pw_size pw = word_of_nat (length (pw_mac pw))"

lemma openPackEntry_open:
  assumes lib: "lib_ok P Z" and run: "openPackEntry P K (aw, rnd) = (Val pw, (aw', rnd'))"
  shows "pw_mac pw = [] \<and> (\<exists>b. b \<noteq> [] \<and> wrote b aw aw' \<and> pack_open P Z (aw_keys aw) b pw)"
proof -
  obtain salt r1 k fb0 r2 hdr fb1 mm mb r4 pad fb2 aw1 where
    salt: "GenerateSalt rnd = Ok (salt, r1)" and k: "DeriveFileKey P aw salt = Ok k"
    and fb0: "NewFrameBuilder k r1 = Ok (fb0, r2)" and hdr: "FrameHeader P fb0 = Ok (hdr, fb1)"
    and mm: "NewMetadataManager k = Ok mm" and mb: "mm_Seal P mm pack_metadata r2 = Ok (mb, r4)"
    and pad: "InterBlockPadding P fb1 = Ok (pad, fb2)"
    and b: "BeginFileEntry K EntryTypePack salt hdr mb pad aw = Ok aw1"
    and last: "(case NextChunkSize P fb2 of (n, fb) \<Rightarrow>
       returnS \<lparr>pw_fb = fb, pw_key = k, pw_mac = [], pw_size = 0, pw_buf = [], pw_next = n\<rparr>) (aw1, r4) = (Val pw, (aw', rnd'))"
    using run by (auto simp: openPackEntry_def pack_metadata_def writing_convs)
  obtain n fb3 where n: "NextChunkSize P fb2 = (n, fb3)" by force
  have pw: "pw = \<lparr>pw_fb = fb3, pw_key = k, pw_mac = [], pw_size = 0, pw_buf = [], pw_next = n\<rparr>" "aw' = aw1"
    using last by (simp_all add: n returnS_def)
  have kl: "length k = 32" and fk: "FileKey P (aw_keys aw) salt = Ok k"
    using k FileKey_length by (auto simp: DeriveFileKey_def)
  have mk: "mm = \<lparr>em_key = k\<rparr>" using mm kl by (simp add: NewMetadataManager_def)
  have sl: "length salt = SaltSize" using salt by (auto simp: GenerateSalt_def ReadFull_Ok_conv)
  let ?b = "entry_head EntryTypePack salt hdr mb @ padding_bytes pad"
  have "pack_part P Z (aw_keys aw) k ?b [] fb3"
    using pack_partI [OF sl fk NewFrameBuilder_fields [OF fb0 kl lib] hdr pad mb [unfolded mk], of "[]" "[]"] NextChunkSize_bounds(3) [OF n]
    by simp
  then have "pack_open P Z (aw_keys aw) ?b pw"
    using NextChunkSize_bounds [OF n] by (simp add: pack_open_def pw)
  moreover have "wrote ?b aw aw'" using BeginFileEntry_Ok [OF b] pw(2) by (simp add: wroteI entry_bytes_nonempty)
  ultimately show ?thesis by (auto simp: pw entry_head_def)
qed

text \<open>Sealing moves bytes from the buffer into a block.\<close>

lemma pw_seal_part:
  assumes p: "pack_part P Z keys (pw_key pw) b content (pw_fb pw)" and block: "block \<noteq> []" "length block \<le> MaxChunkSize"
    and run: "pw_seal P Z K block pw (aw, rnd) = (Val pw', (aw', rnd'))"
  shows "rnd' = rnd \<and> (\<exists>b'. wrote b' aw aw' \<and> pack_part P Z keys (pw_key pw') (b @ b') (content @ block) (pw_fb pw'))
    \<and> 0 < pw_next pw' \<and> pw_next pw' \<le> MaxChunkSize \<and> (\<exists>fb n. pw' = pw\<lparr>pw_fb := fb, pw_next := n\<rparr>)"
proof -
  obtain db fb n fb' where s: "EncryptChunk P Z (pw_fb pw) block = Ok (db, fb)" "AppendDataBlock K db aw = Ok aw'"
      "NextChunkSize P fb = (n, fb')" "pw' = pw\<lparr>pw_fb := fb', pw_next := n\<rparr>" "rnd' = rnd"
    using pw_seal_Val [OF run] by blast
  note n = NextChunkSize_bounds [OF s(3)]
  have "pack_part P Z keys (pw_key pw') (b @ block_bytes db) (content @ block) (pw_fb pw')"
    using pack_part_same [OF pack_part_block [OF p block s(1)] n(3)] by (simp add: s(4))
  moreover have "block_bytes db \<noteq> []" by (simp add: block_bytes_def size32_def)
  then have "wrote (block_bytes db) aw aw'"
    using s(2) by (auto simp: AppendDataBlock_def dest!: writer_parts(4) intro: wrote_update)
  ultimately show ?thesis using s(4,5) n by auto
qed

lemma pw_blocks_open:
  assumes "pw_blocks P Z K data pw (aw, rnd) = (Val pw', (aw', rnd'))"
    and "pack_part P Z keys (pw_key pw) b content (pw_fb pw)" and "pw_buf pw = []" and "content @ data = pw_mac pw"
    and "0 < pw_next pw" "pw_next pw \<le> MaxChunkSize" "pw_size pw = word_of_nat (length (pw_mac pw))"
  shows "rnd' = rnd \<and> pw_mac pw' = pw_mac pw \<and> (\<exists>b'. wrote b' aw aw' \<and> pack_open P Z keys (b @ b') pw')"
  using assms
proof (induction P Z K data pw "(aw, rnd)" arbitrary: aw b content rule: pw_blocks.induct)
  case (1 P Z K data pw aw)
  show ?case
  proof (cases "length data < pw_next pw")
    case True
    then have r: "pw' = pw\<lparr>pw_buf := data\<rparr>" "aw' = aw" "rnd' = rnd"
      using "1.prems"(1,3) by (simp_all add: pw_blocks.simps [of P Z K data])
    with "1.prems" True show ?thesis by (intro conjI exI [of _ "[]"]) (auto simp: pack_open_def)
  next
    case False
    let ?d = "take (pw_next pw) data"
    obtain pw1 aw1 r1 where s: "pw_seal P Z K ?d pw (aw, rnd) = (Val pw1, (aw1, r1))"
      and rest: "pw_blocks P Z K (drop (pw_next pw) data) pw1 (aw1, r1) = (Val pw', (aw', rnd'))"
      using "1.prems"(1) False
      by (cases "pw_seal P Z K ?d pw (aw, rnd)") (simp add: pw_blocks.simps [of P Z K data] split: prod.splits outcome.splits)
    have d: "?d \<noteq> []" "length ?d \<le> MaxChunkSize" using "1.prems"(5,6) False by auto
    obtain b1 fb n where w: "r1 = rnd" "wrote b1 aw aw1" "pack_part P Z keys (pw_key pw1) (b @ b1) (content @ ?d) (pw_fb pw1)"
        "0 < pw_next pw1" "pw_next pw1 \<le> MaxChunkSize" "pw1 = pw\<lparr>pw_fb := fb, pw_next := n\<rparr>"
      using pw_seal_part [OF "1.prems"(2) d s] by blast
    have "rnd' = rnd \<and> pw_mac pw' = pw_mac pw1 \<and> (\<exists>b'. wrote b' aw1 aw' \<and> pack_open P Z keys ((b @ b1) @ b') pw')"
      by (rule "1.hyps" [OF False s [unfolded w(1), symmetric] refl rest [unfolded w(1)] w(3)]) (use "1.prems" w in simp_all)
    then show ?thesis using wrote_seq [OF w(2)] w(6) by (metis append_assoc packWriter.update_convs(1,6) packWriter.select_convs(3) packWriter.surjective)
  qed
qed

text \<open>However the content arrives, a pack takes all of it.\<close>

lemma pw_write_open:
  assumes o: "pack_open P Z keys b pw" and run: "pw_write P Z K data pw (aw, rnd) = (Val pw', (aw', rnd'))"
  shows "rnd' = rnd \<and> pw_mac pw' = pw_mac pw @ data \<and> (\<exists>b'. wrote b' aw aw' \<and> pack_open P Z keys (b @ b') pw')"
proof -
  let ?pw = "pw\<lparr>pw_mac := pw_mac pw @ data, pw_size := pw_size pw + word_of_nat (length data)\<rparr>"
  obtain content where c: "pack_part P Z keys (pw_key pw) b content (pw_fb pw)" "content @ pw_buf pw = pw_mac pw"
    and n: "length (pw_buf pw) < pw_next pw" "pw_next pw \<le> MaxChunkSize" "pw_size pw = word_of_nat (length (pw_mac pw))"
    using o by (auto simp: pack_open_def)
  have sz: "pw_size ?pw = word_of_nat (length (pw_mac ?pw))" using n(3) by simp
  show ?thesis
  proof (cases "pw_buf pw = []")
    case True
    then have "pw_blocks P Z K data ?pw (aw, rnd) = (Val pw', (aw', rnd'))" using run by (simp add: pw_write_def Let_def)
    from pw_blocks_open [OF this, of keys b content] True c n sz show ?thesis by simp
  next
    case False
    define k where "k = min (pw_next pw - length (pw_buf pw)) (length data)"
    define pw1 where "pw1 = ?pw\<lparr>pw_buf := pw_buf pw @ take k data\<rparr>"
    have r: "(if length (pw_buf pw1) < pw_next pw1 then returnS pw1
        else bindS (pw_seal P Z K (pw_buf pw1) pw1) (\<lambda>pw. pw_blocks P Z K (drop k data) (pw\<lparr>pw_buf := []\<rparr>))) (aw, rnd)
        = (Val pw', (aw', rnd'))"
      using run False by (simp add: pw_write_def Let_def k_def pw1_def cong: if_cong)
    show ?thesis
    proof (cases "length (pw_buf pw1) < pw_next pw1")
      case True
      then have "take k data = data" by (simp add: pw1_def k_def min_def split: if_splits)
      moreover have "pw' = pw1" "aw' = aw" "rnd' = rnd" using r True by (simp_all add: returnS_def)
      ultimately show ?thesis using c n True sz by (intro conjI exI [of _ "[]"]) (auto simp: pack_open_def pw1_def)
    next
      case F: False
      obtain pw2 aw2 r2 where s: "pw_seal P Z K (pw_buf pw1) pw1 (aw, rnd) = (Val pw2, (aw2, r2))"
        and rest: "pw_blocks P Z K (drop k data) (pw2\<lparr>pw_buf := []\<rparr>) (aw2, r2) = (Val pw', (aw', rnd'))"
        using r F by (auto simp: bindS_Val_conv)
      have bl: "pw_buf pw1 \<noteq> []" "length (pw_buf pw1) \<le> MaxChunkSize" using False n by (auto simp: pw1_def k_def)
      have c1: "pack_part P Z keys (pw_key pw1) b content (pw_fb pw1)" using c(1) by (simp add: pw1_def)
      obtain b1 fb m where w: "r2 = rnd" "wrote b1 aw aw2" "pack_part P Z keys (pw_key pw2) (b @ b1) (content @ pw_buf pw1) (pw_fb pw2)"
          "0 < pw_next pw2" "pw_next pw2 \<le> MaxChunkSize" "pw2 = pw1\<lparr>pw_fb := fb, pw_next := m\<rparr>"
        using pw_seal_part [OF c1 bl s] by blast
      have mac: "pw_mac pw2 = pw_mac pw @ data" "pw_size pw2 = word_of_nat (length (pw_mac pw2))" using sz by (simp_all add: w(6) pw1_def)
      have cd: "(content @ pw_buf pw1) @ drop k data = pw_mac pw2" using c(2) by (simp add: mac pw1_def flip: c(2))
      have "rnd' = rnd \<and> pw_mac pw' = pw_mac pw2 \<and> (\<exists>b'. wrote b' aw2 aw' \<and> pack_open P Z keys ((b @ b1) @ b') pw')"
        using pw_blocks_open [OF rest, of keys "b @ b1" "content @ pw_buf pw1"] w cd mac by simp
      then show ?thesis using wrote_seq [OF w(2)] mac(1) by (metis append_assoc)
    qed
  qed
qed

lemma pw_close_entry:
  assumes lib: "lib_ok P Z" and o: "pack_open P Z keys b pw" and run: "pw_close P Z K pw (aw, rnd) = (Val (), (aw', rnd'))"
  shows "rnd' = rnd \<and> (\<exists>b' en. wrote b' aw aw' \<and> entry_bytes en = b @ b' \<and> pack_entry P Z keys (pw_mac pw) en)"
proof -
  obtain content where c: "pack_part P Z keys (pw_key pw) b content (pw_fb pw)" "content @ pw_buf pw = pw_mac pw"
    and n: "length (pw_buf pw) < pw_next pw" "pw_next pw \<le> MaxChunkSize" "pw_size pw = word_of_nat (length (pw_mac pw))"
    using o by (auto simp: pack_open_def)
  obtain pw1 aw1 r1 t fb where s: "(if pw_buf pw \<noteq> [] then pw_seal P Z K (pw_buf pw) pw else returnS pw) (aw, rnd) = (Val pw1, (aw1, r1))"
    and t: "BuildTrailer P (pw_fb pw1) (ComputeHMAC P (pw_key pw1) (pw_mac pw1)) (pw_size pw1) = Ok (t, fb)"
    and e: "EndFileEntry K t aw1 = Ok aw'" and r: "rnd' = r1"
    using run by (auto simp: pw_close_def writing_convs split: prod.splits)
  have "r1 = rnd \<and> (\<exists>b1. wrote b1 aw aw1 \<and> pack_part P Z keys (pw_key pw) (b @ b1) (pw_mac pw) (pw_fb pw1))
      \<and> (\<exists>fb n. pw1 = pw\<lparr>pw_fb := fb, pw_next := n\<rparr>)"
  proof (cases "pw_buf pw = []")
    case True
    then have "pw1 = pw" "aw1 = aw" "r1 = rnd" using s by (simp_all add: returnS_def)
    with True c show ?thesis
      by (intro conjI exI [of _ "[]"] exI [of _ "pw_fb pw"] exI [of _ "pw_next pw"]) auto
  next
    case False
    have bl: "length (pw_buf pw) \<le> MaxChunkSize" using n by simp
    have "pw_seal P Z K (pw_buf pw) pw (aw, rnd) = (Val pw1, (aw1, r1))" using s False by simp
    from pw_seal_part [OF c(1) False bl this] c(2) show ?thesis by auto
  qed
  then obtain b1 fb1 m where w: "r1 = rnd" "wrote b1 aw aw1" "pack_part P Z keys (pw_key pw) (b @ b1) (pw_mac pw) (pw_fb pw1)"
      "pw1 = pw\<lparr>pw_fb := fb1, pw_next := m\<rparr>" by blast
  have "BuildTrailer P (pw_fb pw1) (ComputeHMAC P (pw_key pw) (pw_mac pw)) (word_of_nat (length (pw_mac pw))) = Ok (t, fb)"
    using t n(3) by (simp add: w(4))
  from pack_part_close [OF lib w(3) this] obtain en where en: "entry_bytes en = (b @ b1) @ sentinel @ trailer_bytes t"
      "pack_entry P Z keys (pw_mac pw) en" by blast
  have "wrote (sentinel @ trailer_bytes t) aw1 aw'"
    using EndFileEntry_Ok [OF e] by (simp add: wrote_update sentinel_def NonceSize_def)
  from wrote_seq [OF w(2) this] en r w(1) show ?thesis by (intro conjI exI [of _ "b1 @ sentinel @ trailer_bytes t"] exI [of _ en]) simp_all
qed

section \<open>A session only appends\<close>

text \<open>An operation never lowers the measure \<open>f\<close> of its state, however it ends.\<close>

definition grows :: "('s \<Rightarrow> nat) \<Rightarrow> ('s, 'a) op \<Rightarrow> bool" where
  "grows f m \<longleftrightarrow> (\<forall>s. f s \<le> f (snd (m s)))"

named_theorems grow_intros \<open>operations that never lower a measure\<close>

lemma growsD: "grows f m \<Longrightarrow> m s = (r, s') \<Longrightarrow> f s \<le> f s'"
  unfolding grows_def by (metis snd_conv)

lemma grows_bind [grow_intros]: "grows f m \<Longrightarrow> (\<And>x. grows f (g x)) \<Longrightarrow> grows f (bindS m g)"
  unfolding grows_def bindS_def by (auto split: prod.splits outcome.splits) (metis le_trans snd_conv)+

lemma grows_catch [grow_intros]: "grows f m \<Longrightarrow> (\<And>x. grows f (h x)) \<Longrightarrow> grows f (catchS m h)"
  unfolding grows_def catchS_def by (auto split: prod.splits outcome.splits) (metis le_trans snd_conv)+

lemma grows_basic [grow_intros]:
  "grows f (returnS x)" "grows f (failS e)" "grows f (callS w r)" "grows f (orFail w q)"
  by (auto simp: grows_def returnS_def failS_def callS_def orFail_def split: res.splits sum.splits)

lemma grows_with [grow_intros]: "(\<And>s. grows f (g s)) \<Longrightarrow> grows f (withS g)"
  by (simp add: grows_def withS_def)

lemma grows_if [grow_intros]: "(c \<Longrightarrow> grows f a) \<Longrightarrow> (\<not> c \<Longrightarrow> grows f b) \<Longrightarrow> grows f (if c then a else b)"
  by simp

lemma grows_pair [grow_intros]: "(\<And>x y. grows f (g x y)) \<Longrightarrow> grows f (case p of (x, y) \<Rightarrow> g x y)"
  by (cases p) simp

lemma grows_option [grow_intros]: "grows f a \<Longrightarrow> (\<And>x. grows f (g x)) \<Longrightarrow> grows f (case o' of None \<Rightarrow> a | Some x \<Rightarrow> g x)"
  by (cases o') simp_all

lemma grows_sum [grow_intros]: "(\<And>x. grows f (h x)) \<Longrightarrow> (\<And>x. grows f (g x)) \<Longrightarrow> grows f (case q of Inl x \<Rightarrow> h x | Inr x \<Rightarrow> g x)"
  by (cases q) simp_all

lemma grows_update [grow_intros]: "(\<And>s. f s \<le> f (g s)) \<Longrightarrow> grows f (updateS g)"
  by (simp add: grows_def updateS_def)

abbreviation offset_of :: "ArchiveWriter \<times> bytes \<Rightarrow> nat" where "offset_of s \<equiv> aw_offset (fst s)"
abbreviation sw_offset :: "sessionWriter \<Rightarrow> nat" where "sw_offset sw \<equiv> aw_offset (sw_aw sw)"

lemma grows_writing [grow_intros]:
  "grows offset_of (drawS w g)" "(\<And>aw. grows offset_of (h aw)) \<Longrightarrow> grows offset_of (withWriter h)"
  by (auto simp: grows_def drawS_def withWriter_def split: res.splits prod.splits)

lemma grows_writeS: "(\<And>aw aw'. k aw = Ok aw' \<Longrightarrow> aw_offset aw \<le> aw_offset aw') \<Longrightarrow> grows offset_of (writeS w k)"
  by (auto simp: grows_def writeS_def split: res.splits prod.splits)

lemma grows_swWriter [grow_intros]: "grows offset_of m \<Longrightarrow> grows sw_offset (swWriter m)"
  unfolding grows_def swWriter_def by (auto split: prod.splits) (metis fst_conv snd_conv)

lemma WriteFooter_forward: "WriteFooter P K aw = Ok aw' \<Longrightarrow> aw_offset aw' = aw_offset aw + 1"
proof -
  assume w: "WriteFooter P K aw = Ok aw'"
  obtain c h where "ac_Sum P (aw_hasher (put [EntryTypeEnd] aw)) [] = (c, h)" by force
  with w show ?thesis
    by (auto simp: WriteFooter_def writeByte_def raw_Write_def bindR_Ok_conv Let_def split: option.splits dest!: tee_Write_Ok)
qed

lemma grows_writes [grow_intros]:
  "grows offset_of (writeS w (BeginFileEntry K ty salt hdr mb pad))" "grows offset_of (writeS w (AppendDataBlock K db))"
  "grows offset_of (writeS w (EndFileEntry K t))" "grows offset_of (writeS w (WriteFileEntry K en))"
  "grows offset_of (writeS w (WriteCheckpointFooter P H K i))"
  by (rule grows_writeS, auto dest!: BeginFileEntry_Ok EndFileEntry_Ok WriteFileEntry_Ok writer_parts(4) tee_Write_Ok WriteFooter_forward
      simp: AppendDataBlock_def put_entry_of_def WriteCheckpointFooter_def bindR_Ok_conv)+

lemma pw_seal_grows [grow_intros]: "grows offset_of (pw_seal P Z K block pw)"
  unfolding pw_seal_def by (intro grow_intros)

lemma openPackEntry_grows [grow_intros]: "grows offset_of (openPackEntry P K)"
  unfolding openPackEntry_def by (intro grow_intros)

lemma pw_blocks_grows [grow_intros]: "grows offset_of (pw_blocks P Z K data pw)"
proof -
  have "offset_of s \<le> offset_of (snd (pw_blocks P Z K data pw s))" for s
  proof (induction P Z K data pw s rule: pw_blocks.induct)
    case (1 P Z K data pw s)
    show ?case
    proof (cases "length data < pw_next pw")
      case True
      then show ?thesis by (simp add: pw_blocks.simps)
    next
      case False
      obtain r s1 where s: "pw_seal P Z K (take (pw_next pw) data) pw s = (r, s1)" by (metis surj_pair)
      have g: "offset_of s \<le> offset_of s1" using growsD [OF pw_seal_grows s] .
      show ?thesis
      proof (cases r)
        case (Val pw1)
        with "1.IH" [OF False s [symmetric] Val] g show ?thesis by (simp add: pw_blocks.simps [of P Z K data] s False)
      qed (use g False s in \<open>simp_all add: pw_blocks.simps [of P Z K data]\<close>)
    qed
  qed
  then show ?thesis by (simp add: grows_def)
qed

lemma pack_ops_grow [grow_intros]:
  "grows offset_of (pw_write P Z K data pw)" "grows offset_of (pw_close P Z K pw)"
  "grows offset_of (sealPayloadEntry P Z ty codec payload plaintext)"
  unfolding pw_write_def pw_close_def sealPayloadEntry_def Let_def by (intro grow_intros)+

lemma closePack_grows [grow_intros]: "grows sw_offset (closePack P Z K)"
  unfolding grows_def
proof
  fix sw
  show "sw_offset sw \<le> sw_offset (snd (closePack P Z K sw))"
    using grows_swWriter [OF pack_ops_grow(2), of P Z K "the (sw_pack sw)", unfolded grows_def, THEN spec, of sw]
    by (auto simp: closePack_def split: option.splits prod.splits)
qed

lemma storeChunk_grows [grow_intros]: "grows sw_offset (storeChunk P Z K cid chunk codec)"
  unfolding storeChunk_def ensurePack_def by (intro grow_intros) (simp_all add: record_chunk_def Let_def)

lemma store_chunks_measure:
  assumes store: "\<And>cid chunk codec. grows f (storeChunk P Z K cid chunk codec)"
  shows "grows f (store_chunks P Z K codec chunker version)"
proof -
  have "f sw \<le> f (snd (store_chunks P Z K codec chunker version sw))" for sw
    using store
  proof (induction P Z K codec chunker version sw rule: store_chunks.induct)
    case (1 P Z K codec chunker version sw)
    let ?v = "\<lambda>chunk n. version\<lparr>fv_Size := fv_Size version + word_of_nat (length chunk), fv_Chunks := fv_Chunks version @ [n]\<rparr>"
    obtain nx chunker' where c: "ck_Next chunker = (nx, chunker')" by (metis surj_pair)
    show ?case
    proof (cases nx)
      case (Ok chunk)
      let ?id = "ComputeHMAC P (sw_idKey sw) chunk"
      obtain r sw1 where s: "(case sw_known sw ?id of Some n \<Rightarrow> (Val n, sw) | None \<Rightarrow> storeChunk P Z K ?id chunk codec sw) = (r, sw1)"
        by (metis surj_pair)
      have g: "f sw \<le> f sw1"
        using s growsD [OF "1.prems"] by (cases "sw_known sw ?id") auto
      show ?thesis
      proof (cases r)
        case (Val n)
        have "f sw1 \<le> f (snd (store_chunks P Z K codec chunker' (?v chunk n) sw1))"
          using "1.IH" [OF c [symmetric] Ok refl refl s [symmetric] Val "1.prems"] by simp
        with g show ?thesis by (subst store_chunks.simps) (simp add: c Ok Let_def s Val)
      qed (use g in \<open>subst store_chunks.simps, simp add: c Ok Let_def s\<close>)+
    qed (subst store_chunks.simps, simp add: c)+
  qed
  then show ?thesis by (simp add: grows_def)
qed

lemma store_chunks_grows [grow_intros]: "grows sw_offset (store_chunks P Z K codec chunker version)"
  by (rule store_chunks_measure [OF storeChunk_grows])

lemma addFile_grows [grow_intros]: "grows sw_offset (addFile P Z K fs lower inp info)"
  unfolding addFile_def by (intro grow_intros)

lemma record_files_grows [grow_intros]: "grows sw_offset (record_files P Z K fs lower cs res)"
proof (induction cs arbitrary: res)
  case (Cons c cs)
  show ?case
    unfolding record_files.simps by (intro grow_intros Cons.IH) (simp_all add: report_failure_def add_version_def)
qed (simp add: grow_intros)

lemma newSessionWriter_Val:
  assumes "newSessionWriter P Z procs now ia compression s = (Val sw, s')"
  shows "sw_aw sw = fst s" "sw_rnd sw = snd s"
  using assms by (cases s, auto simp: newSessionWriter_def writing_convs split: if_splits)+

text \<open>What a session does once its writer exists.\<close>

definition session_body ::
  "prims \<Rightarrow> zstd \<Rightarrow> hash_codec \<Rightarrow> sink \<Rightarrow> os \<Rightarrow> (bytes \<Rightarrow> bytes) \<Rightarrow> changedFile list \<Rightarrow> bytes list \<Rightarrow> bool \<Rightarrow> IncrementalResult
    \<Rightarrow> (sessionWriter, IncrementalResult \<times> bool \<times> sessionWriter) op" where
  "session_body P Z H K fs lower changed deleted allowEmpty res0 =
     bindS (record_files P Z K fs lower changed res0) (\<lambda>res.
       if \<not> allowEmpty \<and> ir_Changed res = 0 \<and> deleted = [] then withS (\<lambda>sw. returnS (res, False, sw))
       else bindS (closePack P Z K) (\<lambda>_.
         bindS (updateS (\<lambda>sw. sw\<lparr>sw_index := (sw_index sw)\<lparr>si_Deleted := deleted\<rparr>\<rparr>)) (\<lambda>_.
         bindS (writeIndex P Z K) (\<lambda>indexOffset.
         bindS (swWriter (writeS (writeFailed ''write archive tail'') (WriteCheckpointFooter P H K indexOffset))) (\<lambda>_.
         withS (\<lambda>sw. returnS (res\<lparr>ir_NewChunks := length (si_Chunks (sw_index sw))\<rparr>, True, sw)))))))"

lemma writeSession_Val:
  assumes "writeSession P Z H K fs lower procs now ia changed deleted compression allowEmpty s = Val (res, w, sw)"
  obtains sw0 s' where "newSessionWriter P Z procs now ia compression s = (Val sw0, s')"
    "session_body P Z H K fs lower changed deleted allowEmpty
       (empty_result\<lparr>ir_Session := ia_sessions ia + 1, ir_Deleted := length deleted\<rparr>) sw0 = (Val (res, w, sw), sw)"
proof -
  obtain sw0 s' where n: "newSessionWriter P Z procs now ia compression s = (Val sw0, s')"
    and run: "fst (session_body P Z H K fs lower changed deleted allowEmpty
       (empty_result\<lparr>ir_Session := ia_sessions ia + 1, ir_Deleted := length deleted\<rparr>) sw0) = Val (res, w, sw)"
    using assms unfolding writeSession_def session_body_def [symmetric] by (auto split: prod.splits outcome.splits)
  obtain r sw1 where r: "session_body P Z H K fs lower changed deleted allowEmpty
       (empty_result\<lparr>ir_Session := ia_sessions ia + 1, ir_Deleted := length deleted\<rparr>) sw0 = (r, sw1)" by (rule prod.exhaust)
  have "r = Val (res, w, sw)" using run r by simp
  moreover have "sw1 = sw"
    using r [unfolded calculation] unfolding session_body_def by (auto simp: bindS_Val_conv withS_def returnS_def split: if_splits)
  ultimately show thesis using that [OF n] r by simp
qed

lemma writeSession_grows:
  assumes "writeSession P Z H K fs lower procs now ia changed deleted compression allowEmpty s = Val (res, w, sw)"
  shows "offset_of s \<le> sw_offset sw"
  using assms
proof (rule writeSession_Val)
  fix sw0 s' assume n: "newSessionWriter P Z procs now ia compression s = (Val sw0, s')"
    and r: "session_body P Z H K fs lower changed deleted allowEmpty
       (empty_result\<lparr>ir_Session := ia_sessions ia + 1, ir_Deleted := length deleted\<rparr>) sw0 = (Val (res, w, sw), sw)"
  have "grows sw_offset (session_body P Z H K fs lower changed deleted allowEmpty res0)" for res0
    unfolding session_body_def writeIndex_def by (intro grow_intros) simp_all
  from growsD [OF this r] newSessionWriter_Val(1) [OF n] show ?thesis by simp
qed

end
