(* ===== verification/Session_Contents.thy ===== *)
theory Session_Contents
  imports Session_Packs
begin

text \<open>
  What a session records: every chunk lies in a pack and decodes to content with its identifier, and
  the chunks of a file, new and known ones, make up its content.
\<close>

section \<open>Stored chunks\<close>

definition chunk_decoder :: BlockDecompressor where
  "chunk_decoder = \<lparr>bd_limit = MaxCDCChunkSize, bd_window = MaxCDCChunkSize\<rparr>"

text \<open>Documented behaviour of zstd: a frame starts with its magic number, so it is not empty.\<close>

definition zstd_framed :: "zstd \<Rightarrow> bool" where
  "zstd_framed Z \<longleftrightarrow> (\<forall>l w src. z_EncodeAll Z l w src \<noteq> [])"

lemma toy_zstd_framed: "zstd_framed toy_zstd"
  by (simp add: zstd_framed_def toy_zstd_def)

definition decodes_to :: "zstd \<Rightarrow> Codec \<Rightarrow> bytes \<Rightarrow> bytes \<Rightarrow> bool" where
  "decodes_to Z codec stored raw \<longleftrightarrow>
     (if codec = CodecZstd then Decompress Z chunk_decoder stored = Ok raw else codec = CodecNone \<and> stored = raw)"

definition compressor_ok :: "BlockCompressor option \<Rightarrow> bool" where
  "compressor_ok cmp \<longleftrightarrow> (\<forall>bc. cmp = Some bc \<longrightarrow> bc_window bc \<le> MaxCDCChunkSize)"

lemma encode_chunk_stored:
  assumes "zstd_correct Z" "zstd_framed Z" and "compressor_ok cmp" and "chunk \<noteq> []" "length chunk \<le> MaxCDCChunkSize"
    and "encode_chunk Z cmp codec chunk = (stored, codec')"
  shows "decodes_to Z codec' stored chunk" "stored \<noteq> []" "length stored \<le> length chunk" "knownCodec codec'"
  using assms
  by (auto simp: encode_chunk_def decodes_to_def compressor_ok_def zstd_framed_def knownCodec_def chunk_decoder_def Compress_def
      Decompress_def zstd_correct_def CodecNone_def CodecZstd_def split: option.splits if_splits)

text \<open>
  \<open>chunk_stored\<close>: the record is valid, and its part of the pack, whose contents are \<open>ps\<close>, decodes to \<open>raw\<close>.
\<close>

definition chunk_stored :: "prims \<Rightarrow> zstd \<Rightarrow> bytes \<Rightarrow> bytes list \<Rightarrow> bytes \<Rightarrow> ChunkRecord \<Rightarrow> bool" where
  "chunk_stored P Z idKey ps raw c \<longleftrightarrow> chunk_ok (length ps) c \<and> cr_ID c = ComputeHMAC P idKey raw \<and> unat (cr_RawLen c) = length raw
     \<and> unat (cr_Offset c) + unat (cr_StoredLen c) \<le> length (ps ! unat (cr_Pack c))
     \<and> decodes_to Z (cr_Codec c) (take (unat (cr_StoredLen c)) (drop (unat (cr_Offset c)) (ps ! unat (cr_Pack c)))) raw"

text \<open>Packs only grow: new ones are added and content is appended.\<close>

definition packs_grow :: "bytes list \<Rightarrow> bytes list \<Rightarrow> bool" where
  "packs_grow ps ps' \<longleftrightarrow> length ps \<le> length ps' \<and> (\<forall>i < length ps. \<exists>more'. ps' ! i = ps ! i @ more')"

lemma packs_grow_refl [simp]: "packs_grow ps ps"
  by (auto simp: packs_grow_def)

lemma packs_grow_new: "packs_grow ps (ps @ [p])"
  by (simp add: packs_grow_def nth_append)

lemma packs_grow_last: "packs_grow (ps @ [p]) (ps @ [p @ d])"
  by (auto simp: packs_grow_def nth_append)

lemma chunk_stored_grow:
  assumes "chunk_stored P Z idKey ps raw c" and "packs_grow ps ps'"
  shows "chunk_stored P Z idKey ps' raw c"
proof -
  have i: "unat (cr_Pack c) < length ps" using assms(1) by (simp add: chunk_stored_def chunk_ok_def)
  then obtain m where m: "ps' ! unat (cr_Pack c) = ps ! unat (cr_Pack c) @ m" using assms(2) by (auto simp: packs_grow_def)
  have "chunk_ok (length ps') c"
    using assms i by (auto simp: chunk_stored_def chunk_ok_def packs_grow_def)
  with assms(1) show ?thesis by (simp add: chunk_stored_def m)
qed

section \<open>The invariant of a session\<close>

text \<open>Where pieces written one after the other from \<open>n\<close> on start.\<close>

fun starts :: "nat \<Rightarrow> bytes list \<Rightarrow> nat list" where
  "starts n [] = []"
| "starts n (b # bs) = n # starts (n + length b) bs"

lemma starts_append: "starts n (bs @ cs) = starts n bs @ starts (n + length (concat bs)) cs"
  by (induction bs arbitrary: n) (simp_all add: add.assoc)

lemma length_starts [simp]: "length (starts n bs) = length bs"
  by (induction bs arbitrary: n) simp_all

text \<open>
  The ledger of a session: the entries of the packs that are closed, the bytes of the one that is
  open, the contents of all, and the content of every chunk of the archive, old and new.
\<close>

record packLedger =
  pl_entries :: "FileEntry list"
  pl_open :: bytes
  pl_contents :: "bytes list"
  pl_raws :: "bytes list"

text \<open>The sizes of an archive within which the numbers of the format do not wrap.\<close>

definition small :: "sessionWriter \<Rightarrow> bool" where
  "small sw \<longleftrightarrow> length (si_Packs (sw_index sw)) \<le> 2 ^ 31 \<and> length (ia_chunks (sw_ia sw)) < 2 ^ 63"

text \<open>The part about the archive: entries, the open pack, and where the packs start.\<close>

definition packs_ok :: "prims \<Rightarrow> zstd \<Rightarrow> sessionWriter \<Rightarrow> packLedger \<Rightarrow> sessionWriter \<Rightarrow> bool" where
  "packs_ok P Z sw0 L sw \<longleftrightarrow>
     wrote (concat (map entry_bytes (pl_entries L)) @ pl_open L) (sw_aw sw0) (sw_aw sw)
     \<and> (case sw_pack sw of
          None \<Rightarrow> pl_open L = [] \<and> list_all2 (pack_entry P Z (aw_keys (sw_aw sw0))) (pl_contents L) (pl_entries L)
        | Some pw \<Rightarrow> pl_open L \<noteq> [] \<and> pack_open P Z (aw_keys (sw_aw sw0)) (pl_open L) pw \<and> length (pw_mac pw) \<le> MaxPackSize
            \<and> (\<exists>qs. pl_contents L = qs @ [pw_mac pw] \<and> list_all2 (pack_entry P Z (aw_keys (sw_aw sw0))) qs (pl_entries L)))
     \<and> si_Packs (sw_index sw) = map word_of_nat (starts (aw_offset (sw_aw sw0))
          (map entry_bytes (pl_entries L) @ (if pl_open L = [] then [] else [pl_open L])))"

text \<open>The part about the chunks: those of the session, those the archive had, and the map of the known ones.\<close>

definition chunks_ok :: "prims \<Rightarrow> zstd \<Rightarrow> sessionWriter \<Rightarrow> packLedger \<Rightarrow> sessionWriter \<Rightarrow> bool" where
  "chunks_ok P Z sw0 L sw \<longleftrightarrow>
     (\<exists>olds news locs. pl_raws L = olds @ news \<and> length olds = length (ia_chunks (sw_ia sw0))
        \<and> list_all2 (chunk_stored P Z (sw_idKey sw0) (pl_contents L)) news (si_Chunks (sw_index sw))
        \<and> mapO (chunk_location (si_Packs (sw_index sw))) (si_Chunks (sw_index sw)) = Val locs
        \<and> ia_chunks (sw_ia sw) = ia_chunks (sw_ia sw0) @ locs)
     \<and> list_all2 (\<lambda>raw c. cl_id c = ComputeHMAC P (sw_idKey sw0) raw \<and> unat (cl_raw c) = length raw) (pl_raws L) (ia_chunks (sw_ia sw))
     \<and> (\<forall>i n. sw_known sw i = Some n \<longrightarrow> unat n < length (ia_chunks (sw_ia sw)) \<and> cl_id (ia_chunks (sw_ia sw) ! unat n) = i)"

text \<open>What a session never changes.\<close>

definition same_session :: "sessionWriter \<Rightarrow> sessionWriter \<Rightarrow> bool" where
  "same_session sw0 sw \<longleftrightarrow> sw_idKey sw = sw_idKey sw0 \<and> sw_gear sw = sw_gear sw0 \<and> sw_policy sw = sw_policy sw0
     \<and> sw_compressor sw = sw_compressor sw0
     \<and> (sw_ia sw)\<lparr>ia_chunks := []\<rparr> = (sw_ia sw0)\<lparr>ia_chunks := []\<rparr>
     \<and> (sw_index sw)\<lparr>si_Packs := [], si_Chunks := [], si_Files := []\<rparr> = (sw_index sw0)\<lparr>si_Packs := [], si_Chunks := [], si_Files := []\<rparr>"

definition session_inv :: "prims \<Rightarrow> zstd \<Rightarrow> sessionWriter \<Rightarrow> packLedger \<Rightarrow> sessionWriter \<Rightarrow> bool" where
  "session_inv P Z sw0 L sw \<longleftrightarrow> same_session sw0 sw \<and> packs_ok P Z sw0 L sw \<and> (small sw \<longrightarrow> chunks_ok P Z sw0 L sw)"

section \<open>Packs\<close>

lemma swWriter_Val:
  assumes "swWriter m sw = (Val x, sw')"
  obtains aw rnd where "m (sw_aw sw, sw_rnd sw) = (Val x, (aw, rnd))" "sw' = sw\<lparr>sw_aw := aw, sw_rnd := rnd\<rparr>"
  using assms by (auto simp: swWriter_def split: prod.splits)

lemma same_session_refl [simp]: "same_session sw sw"
  by (simp add: same_session_def)

lemma same_session_update [simp]:
  "same_session sw0 (sw\<lparr>sw_aw := aw, sw_rnd := rnd\<rparr>) = same_session sw0 sw" "same_session sw0 (sw\<lparr>sw_pack := p\<rparr>) = same_session sw0 sw"
  "same_session sw0 (sw\<lparr>sw_known := kn\<rparr>) = same_session sw0 sw" "same_session sw0 (sw\<lparr>sw_errors := es\<rparr>) = same_session sw0 sw"
  by (simp_all add: same_session_def)

lemma small_update [simp]:
  "small (sw\<lparr>sw_aw := aw, sw_rnd := rnd\<rparr>) = small sw" "small (sw\<lparr>sw_pack := p\<rparr>) = small sw"
  by (simp_all add: small_def)

lemma chunks_ok_update [simp]:
  "chunks_ok P Z sw0 L (sw\<lparr>sw_aw := aw, sw_rnd := rnd\<rparr>) = chunks_ok P Z sw0 L sw"
  "chunks_ok P Z sw0 L (sw\<lparr>sw_pack := p\<rparr>) = chunks_ok P Z sw0 L sw"
  by (simp_all add: chunks_ok_def)

lemma chunks_ok_ledger:
  assumes "chunks_ok P Z sw0 L sw" and "pl_raws L' = pl_raws L" and "packs_grow (pl_contents L) (pl_contents L')"
  shows "chunks_ok P Z sw0 L' sw"
proof -
  obtain olds news locs where c: "pl_raws L = olds @ news" "length olds = length (ia_chunks (sw_ia sw0))"
      "list_all2 (chunk_stored P Z (sw_idKey sw0) (pl_contents L)) news (si_Chunks (sw_index sw))"
      "mapO (chunk_location (si_Packs (sw_index sw))) (si_Chunks (sw_index sw)) = Val locs"
      "ia_chunks (sw_ia sw) = ia_chunks (sw_ia sw0) @ locs"
    using assms(1) by (auto simp: chunks_ok_def)
  have "list_all2 (chunk_stored P Z (sw_idKey sw0) (pl_contents L')) news (si_Chunks (sw_index sw))"
    using c(3) by (rule list_all2_mono) (rule chunk_stored_grow [OF _ assms(3)])
  with c assms(1,2) show ?thesis by (auto simp: chunks_ok_def)
qed

lemma closePack_inv:
  assumes lib: "lib_ok P Z" and inv: "session_inv P Z sw0 L sw" and run: "closePack P Z K sw = (Val (), sw')"
  shows "\<exists>L'. session_inv P Z sw0 L' sw' \<and> sw_pack sw' = None \<and> pl_raws L' = pl_raws L \<and> pl_contents L' = pl_contents L
    \<and> sw_index sw' = sw_index sw \<and> sw_ia sw' = sw_ia sw \<and> sw_known sw' = sw_known sw"
proof (cases "sw_pack sw")
  case None
  with run inv show ?thesis by (intro exI [of _ L]) (simp add: closePack_def)
next
  case (Some pw)
  obtain aw rnd where c: "pw_close P Z K pw (sw_aw sw, sw_rnd sw) = (Val (), (aw, rnd))"
    and sw': "sw' = sw\<lparr>sw_aw := aw, sw_rnd := rnd, sw_pack := None\<rparr>"
    using run by (auto simp: closePack_def Some split: prod.splits elim!: swWriter_Val)
  obtain qs where o: "pl_open L \<noteq> []" "pack_open P Z (aw_keys (sw_aw sw0)) (pl_open L) pw"
      "wrote (concat (map entry_bytes (pl_entries L)) @ pl_open L) (sw_aw sw0) (sw_aw sw)"
      "pl_contents L = qs @ [pw_mac pw]" "list_all2 (pack_entry P Z (aw_keys (sw_aw sw0))) qs (pl_entries L)"
      "si_Packs (sw_index sw) = map word_of_nat (starts (aw_offset (sw_aw sw0)) (map entry_bytes (pl_entries L) @ [pl_open L]))"
    using inv Some by (auto simp: session_inv_def packs_ok_def)
  obtain b en where e: "wrote b (sw_aw sw) aw" "entry_bytes en = pl_open L @ b" "pack_entry P Z (aw_keys (sw_aw sw0)) (pw_mac pw) en"
    using pw_close_entry [OF lib o(2) c] by blast
  let ?L = "L\<lparr>pl_entries := pl_entries L @ [en], pl_open := []\<rparr>"
  have "wrote (concat (map entry_bytes (pl_entries ?L)) @ pl_open ?L) (sw_aw sw0) aw"
    using wrote_seq [OF o(3) e(1)] by (simp add: e(2))
  then have "packs_ok P Z sw0 ?L sw'"
    using o(4-6) e(3) by (simp add: packs_ok_def sw' starts_append list_all2_appendI)
  with inv show ?thesis
    by (intro exI [of _ ?L]) (auto simp: session_inv_def sw' intro: chunks_ok_ledger)
qed

text \<open>Opening a pack, which \<^verbatim>\<open>storeChunk\<close> does when there is none.\<close>

lemma openPack_inv:
  assumes lib: "lib_ok P Z" and inv: "session_inv P Z sw0 L sw" and none: "sw_pack sw = None"
    and run: "openPackEntry P K (sw_aw sw, sw_rnd sw) = (Val pw, (aw, rnd))"
    and sw': "sw' = sw\<lparr>sw_index := (sw_index sw)\<lparr>si_Packs := si_Packs (sw_index sw) @ [word_of_nat (aw_offset (sw_aw sw))]\<rparr>,
       sw_aw := aw, sw_rnd := rnd, sw_pack := Some pw\<rparr>"
  shows "pw_mac pw = [] \<and> (\<exists>L'. session_inv P Z sw0 L' sw' \<and> pl_raws L' = pl_raws L)"
proof -
  have w: "wrote (concat (map entry_bytes (pl_entries L))) (sw_aw sw0) (sw_aw sw)" and o: "pl_open L = []"
    and ps: "list_all2 (pack_entry P Z (aw_keys (sw_aw sw0))) (pl_contents L) (pl_entries L)"
    and pk: "si_Packs (sw_index sw) = map word_of_nat (starts (aw_offset (sw_aw sw0)) (map entry_bytes (pl_entries L)))"
    using inv none by (auto simp: session_inv_def packs_ok_def)
  obtain b where b: "b \<noteq> []" "wrote b (sw_aw sw) aw" "pack_open P Z (aw_keys (sw_aw sw)) b pw" and m: "pw_mac pw = []"
    using openPackEntry_open [OF lib run] by blast
  let ?L = "L\<lparr>pl_open := b, pl_contents := pl_contents L @ [[]]\<rparr>"
  have "packs_ok P Z sw0 ?L sw'"
    using b ps m wrote_seq [OF w b(2)] wrote_fields [OF w] pk
    by (simp add: packs_ok_def sw' starts_append)
  moreover have "chunks_ok P Z sw0 ?L sw'" if "small sw'"
  proof -
    have "small sw" using that by (simp add: sw' small_def)
    then have c: "chunks_ok P Z sw0 ?L sw"
      using inv by (auto simp: session_inv_def packs_grow_new intro: chunks_ok_ledger)
    then obtain olds news locs where c': "pl_raws L = olds @ news" "length olds = length (ia_chunks (sw_ia sw0))"
      "list_all2 (chunk_stored P Z (sw_idKey sw0) (pl_contents ?L)) news (si_Chunks (sw_index sw))"
      "mapO (chunk_location (si_Packs (sw_index sw))) (si_Chunks (sw_index sw)) = Val locs"
      "ia_chunks (sw_ia sw) = ia_chunks (sw_ia sw0) @ locs"
      by (auto simp: chunks_ok_def)
    have "mapO (chunk_location (packs @ [p])) cs = Val locs" if "mapO (chunk_location packs) cs = Val locs" for packs p cs locs
      using that by (induction cs arbitrary: locs) (auto simp: bindO_Val_conv chunk_location_def nth_append split: if_splits)
    with c c' show ?thesis by (simp add: chunks_ok_def sw')
  qed
  ultimately show ?thesis
    using inv m by (intro conjI exI [of _ ?L]) (auto simp: session_inv_def sw' same_session_def)
qed

text \<open>A pack with room for \<open>n\<close> more bytes.\<close>

lemma ensurePack_inv:
  assumes lib: "lib_ok P Z" and inv: "session_inv P Z sw0 L sw" and n: "n \<le> MaxPackSize"
    and run: "ensurePack P Z K n sw = (Val pw, sw')"
  shows "\<exists>L'. session_inv P Z sw0 L' sw' \<and> sw_pack sw' = Some pw \<and> length (pw_mac pw) + n \<le> MaxPackSize \<and> pl_raws L' = pl_raws L
    \<and> ia_chunks (sw_ia sw') = ia_chunks (sw_ia sw) \<and> si_Files (sw_index sw') = si_Files (sw_index sw)"
proof -
  obtain sw1 where first: "(case sw_pack sw of
         Some pw \<Rightarrow> if word_of_nat MaxPackSize < pw_size pw + word_of_nat n then closePack P Z K else returnS ()
       | None \<Rightarrow> returnS ()) sw = (Val (), sw1)"
    and rest: "(case sw_pack sw1 of
         Some pw \<Rightarrow> returnS pw
       | None \<Rightarrow>
           bindS (updateS (\<lambda>sw. sw\<lparr>sw_index := (sw_index sw)\<lparr>si_Packs := si_Packs (sw_index sw) @ [word_of_nat (aw_offset (sw_aw sw))]\<rparr>\<rparr>)) (\<lambda>_.
           bindS (swWriter (openPackEntry P K)) (\<lambda>pw.
           bindS (updateS (\<lambda>sw. sw\<lparr>sw_pack := Some pw\<rparr>)) (\<lambda>_. returnS pw)))) sw1 = (Val pw, sw')"
    using run by (auto simp: ensurePack_def bindS_Val_conv withS_def)
  have "\<exists>L1. session_inv P Z sw0 L1 sw1 \<and> pl_raws L1 = pl_raws L \<and> ia_chunks (sw_ia sw1) = ia_chunks (sw_ia sw)
      \<and> si_Files (sw_index sw1) = si_Files (sw_index sw)
      \<and> (\<forall>pw. sw_pack sw1 = Some pw \<longrightarrow> length (pw_mac pw) + n \<le> MaxPackSize)"
  proof (cases "\<exists>pw. sw_pack sw = Some pw \<and> word_of_nat MaxPackSize < pw_size pw + word_of_nat n")
    case True
    then have "closePack P Z K sw = (Val (), sw1)" using first by auto
    from closePack_inv [OF lib inv this] show ?thesis by auto
  next
    case False
    then have sw1: "sw1 = sw" using first by (auto simp: returnS_def split: option.splits)
    have "length (pw_mac pw) + n \<le> MaxPackSize" if p: "sw_pack sw = Some pw" for pw
    proof -
      have "pw_size pw = word_of_nat (length (pw_mac pw))" and l: "length (pw_mac pw) \<le> MaxPackSize"
        using inv p by (auto simp: session_inv_def packs_ok_def pack_open_def)
      then have "\<not> (word_of_nat MaxPackSize :: u64) < word_of_nat (length (pw_mac pw) + n)" using False p by auto
      moreover have "unat (word_of_nat (length (pw_mac pw) + n) :: u64) = length (pw_mac pw) + n"
        "unat (word_of_nat MaxPackSize :: u64) = MaxPackSize"
        using l n by (simp_all add: unat_of_nat MaxPackSize_def del: of_nat_add)
      ultimately show ?thesis by (simp add: word_less_nat_alt del: of_nat_add)
    qed
    with inv sw1 show ?thesis by blast
  qed
  then obtain L1 where L1: "session_inv P Z sw0 L1 sw1" "pl_raws L1 = pl_raws L" "ia_chunks (sw_ia sw1) = ia_chunks (sw_ia sw)"
      "si_Files (sw_index sw1) = si_Files (sw_index sw)" "\<forall>pw. sw_pack sw1 = Some pw \<longrightarrow> length (pw_mac pw) + n \<le> MaxPackSize"
    by blast
  show ?thesis
  proof (cases "sw_pack sw1")
    case (Some pw1)
    with rest L1 show ?thesis by (auto simp: returnS_def)
  next
    case None
    obtain aw rnd where o: "openPackEntry P K (sw_aw sw1, sw_rnd sw1) = (Val pw, (aw, rnd))"
      and sw': "sw' = sw1\<lparr>sw_index := (sw_index sw1)\<lparr>si_Packs := si_Packs (sw_index sw1) @ [word_of_nat (aw_offset (sw_aw sw1))]\<rparr>,
         sw_aw := aw, sw_rnd := rnd, sw_pack := Some pw\<rparr>"
      using rest None by (auto simp: bindS_Val_conv updateS_def returnS_def elim!: swWriter_Val)
    from openPack_inv [OF lib L1(1) None o sw'] L1(2-4) n show ?thesis by (auto simp: sw')
  qed
qed

section \<open>Chunks\<close>

lemma mapO_snoc: "mapO f xs = Val ys \<Longrightarrow> f x = Val y \<Longrightarrow> mapO f (xs @ [x]) = Val (ys @ [y])"
  by (induction xs arbitrary: ys) (auto simp: bindO_Val_conv)

text \<open>The assumptions under which chunks can be read back.\<close>

definition chunk_lib :: "prims \<Rightarrow> zstd \<Rightarrow> bool" where
  "chunk_lib P Z \<longleftrightarrow> lib_ok P Z \<and> zstd_framed Z"

lemma toy_chunk_lib: "chunk_lib toy_prims toy_zstd"
  by (simp add: chunk_lib_def toy_lib_ok toy_zstd_framed)

lemma new_chunk_ok:
  assumes lib: "chunk_lib P Z" and cmp: "compressor_ok cmp" and chunk: "chunk \<noteq> []" "length chunk \<le> MaxCDCChunkSize"
    and enc: "encode_chunk Z cmp codec chunk = (stored, codec')" and room: "length m + length stored \<le> MaxPackSize"
    and packs: "length qs < 2 ^ 32"
  shows "chunk_stored P Z idKey (qs @ [m @ stored]) chunk
    \<lparr>cr_ID = ComputeHMAC P idKey chunk, cr_Pack = word_of_nat (length qs), cr_Offset = word_of_nat (length m),
     cr_StoredLen = word_of_nat (length stored), cr_RawLen = word_of_nat (length chunk), cr_Codec = codec'\<rparr>"
proof -
  have z: "zstd_correct Z" "zstd_framed Z" "lib_ok P Z" using lib by (simp_all add: chunk_lib_def lib_ok_def)
  note e = encode_chunk_stored [OF z(1,2) cmp chunk enc]
  have u: "unat (word_of_nat (length qs) :: u32) = length qs" "unat (word_of_nat (length m) :: u64) = length m"
    "unat (word_of_nat (length stored) :: u32) = length stored" "unat (word_of_nat (length chunk) :: u32) = length chunk"
    using packs room e(3) chunk(2) by (simp_all add: unat_of_nat MaxPackSize_def MaxCDCChunkSize_def)
  show ?thesis
    using e chunk room HMAC_length [OF z(3)]
    by (auto simp: chunk_stored_def chunk_ok_def u MaxStoredChunkSize_def decodes_to_def CodecNone_def CodecZstd_def)
qed

text \<open>Recording a chunk that was just appended to the open pack.\<close>

lemma record_chunk_ok:
  assumes c: "chunks_ok P Z sw0 L sw" and small: "small (record_chunk cid off chunk stored codec sw)"
    and grow: "packs_grow (pl_contents L) (pl_contents L')" and raws: "pl_raws L' = pl_raws L @ [chunk]"
    and packs: "si_Packs (sw_index sw) \<noteq> []" "length (pl_contents L') = length (si_Packs (sw_index sw))"
    and cid: "cid = ComputeHMAC P (sw_idKey sw0) chunk" and len: "length chunk \<le> MaxCDCChunkSize"
    and new: "chunk_stored P Z (sw_idKey sw0) (pl_contents L') chunk
      \<lparr>cr_ID = cid, cr_Pack = word_of_nat (length (si_Packs (sw_index sw)) - 1), cr_Offset = off,
       cr_StoredLen = word_of_nat (length stored), cr_RawLen = word_of_nat (length chunk), cr_Codec = codec\<rparr>"
  shows "chunks_ok P Z sw0 L' (record_chunk cid off chunk stored codec sw)"
proof -
  let ?packs = "si_Packs (sw_index sw)" and ?cs = "ia_chunks (sw_ia sw)"
  define pk :: u32 where "pk = word_of_nat (length ?packs - 1)"
  let ?c = "\<lparr>cr_ID = cid, cr_Pack = pk, cr_Offset = off,
       cr_StoredLen = word_of_nat (length stored), cr_RawLen = word_of_nat (length chunk), cr_Codec = codec\<rparr>"
  let ?loc = "\<lparr>cl_id = cid, cl_packOffset = last ?packs, cl_offset = off, cl_stored = word_of_nat (length stored),
      cl_raw = word_of_nat (length chunk), cl_codec = codec\<rparr>"
  obtain olds news locs where o: "pl_raws L = olds @ news" "length olds = length (ia_chunks (sw_ia sw0))"
      "list_all2 (chunk_stored P Z (sw_idKey sw0) (pl_contents L)) news (si_Chunks (sw_index sw))"
      "mapO (chunk_location ?packs) (si_Chunks (sw_index sw)) = Val locs" "?cs = ia_chunks (sw_ia sw0) @ locs"
      "list_all2 (\<lambda>raw c. cl_id c = ComputeHMAC P (sw_idKey sw0) raw \<and> unat (cl_raw c) = length raw) (pl_raws L) ?cs"
      "\<forall>i n. sw_known sw i = Some n \<longrightarrow> unat n < length ?cs \<and> cl_id (?cs ! unat n) = i"
    using c by (auto simp: chunks_ok_def)
  have "length ?packs - 1 < 2 ^ 32" "length ?cs < 2 ^ 64"
    using small by (auto simp: small_def record_chunk_def Let_def)
  then have u: "unat pk = length ?packs - 1" "unat (word_of_nat (length ?cs) :: u64) = length ?cs"
    "unat (word_of_nat (length chunk) :: u32) = length chunk"
    using len by (simp_all add: unat_of_nat MaxCDCChunkSize_def pk_def del: of_nat_diff)
  have "chunk_location ?packs ?c = Val ?loc" using packs by (simp add: chunk_location_def u last_conv_nth)
  note locs = mapO_snoc [OF o(4) this]
  have "list_all2 (chunk_stored P Z (sw_idKey sw0) (pl_contents L')) news (si_Chunks (sw_index sw))"
    using o(3) by (rule list_all2_mono) (rule chunk_stored_grow [OF _ grow])
  then have "list_all2 (chunk_stored P Z (sw_idKey sw0) (pl_contents L')) (news @ [chunk]) (si_Chunks (sw_index sw) @ [?c])"
    using new [folded pk_def] by (simp add: list_all2_appendI)
  with locs o(1,2,5) have "\<exists>olds news' locs'. pl_raws L' = olds @ news' \<and> length olds = length (ia_chunks (sw_ia sw0))
      \<and> list_all2 (chunk_stored P Z (sw_idKey sw0) (pl_contents L')) news' (si_Chunks (sw_index sw) @ [?c])
      \<and> mapO (chunk_location ?packs) (si_Chunks (sw_index sw) @ [?c]) = Val locs' \<and> ?cs @ [?loc] = ia_chunks (sw_ia sw0) @ locs'"
    by (intro exI [of _ olds] exI [of _ "news @ [chunk]"] exI [of _ "locs @ [?loc]"]) (simp add: raws)
  moreover have "list_all2 (\<lambda>raw c. cl_id c = ComputeHMAC P (sw_idKey sw0) raw \<and> unat (cl_raw c) = length raw) (pl_raws L') (?cs @ [?loc])"
    using o(6) by (simp add: raws cid u list_all2_appendI)
  moreover have "\<forall>i n. ((sw_known sw)(cid \<mapsto> word_of_nat (length ?cs))) i = Some n \<longrightarrow>
      unat n < length (?cs @ [?loc]) \<and> cl_id ((?cs @ [?loc]) ! unat n) = i"
    using o(7) by (auto simp: u nth_append less_Suc_eq)
  ultimately show ?thesis unfolding chunks_ok_def record_chunk_def Let_def pk_def [symmetric] by simp
qed

lemma storeChunk_inv:
  assumes lib: "chunk_lib P Z" and inv: "session_inv P Z sw0 L sw" and cmp: "compressor_ok (sw_compressor sw0)"
    and chunk: "chunk \<noteq> []" "length chunk \<le> MaxCDCChunkSize" and cid: "cid = ComputeHMAC P (sw_idKey sw0) chunk"
    and run: "storeChunk P Z K cid chunk codec sw = (Val n, sw')"
  shows "\<exists>L'. session_inv P Z sw0 L' sw' \<and> pl_raws L' = pl_raws L @ [chunk] \<and> n = word_of_nat (length (ia_chunks (sw_ia sw)))
    \<and> length (ia_chunks (sw_ia sw')) = length (ia_chunks (sw_ia sw)) + 1 \<and> si_Files (sw_index sw') = si_Files (sw_index sw)"
proof -
  obtain stored codec' where enc: "encode_chunk Z (sw_compressor sw0) codec chunk = (stored, codec')" by (rule prod.exhaust)
  have cs: "sw_compressor sw = sw_compressor sw0" using inv by (simp add: session_inv_def same_session_def)
  obtain pw sw1 pw' aw rnd where e: "ensurePack P Z K (length stored) sw = (Val pw, sw1)"
    and w: "pw_write P Z K stored pw (sw_aw sw1, sw_rnd sw1) = (Val pw', (aw, rnd))"
    and sw': "sw' = record_chunk cid (pw_size pw) chunk stored codec' (sw1\<lparr>sw_aw := aw, sw_rnd := rnd, sw_pack := Some pw'\<rparr>)"
    and n: "n = word_of_nat (length (ia_chunks (sw_ia sw1)))"
    using run by (auto simp: storeChunk_def cs enc withS_def bindS_Val_conv updateS_def returnS_def elim!: swWriter_Val)
  have z: "lib_ok P Z" "zstd_correct Z" "zstd_framed Z" using lib by (simp_all add: chunk_lib_def lib_ok_def)
  have "length stored \<le> MaxPackSize"
    using encode_chunk_stored(3) [OF z(2,3) cmp chunk enc] chunk(2) by (simp add: MaxPackSize_def MaxCDCChunkSize_def)
  from ensurePack_inv [OF z(1) inv this e] obtain L1 where L1: "session_inv P Z sw0 L1 sw1" "sw_pack sw1 = Some pw"
      "length (pw_mac pw) + length stored \<le> MaxPackSize" "pl_raws L1 = pl_raws L" "ia_chunks (sw_ia sw1) = ia_chunks (sw_ia sw)"
      "si_Files (sw_index sw1) = si_Files (sw_index sw)" by blast
  obtain qs where o: "pl_open L1 \<noteq> []" "pack_open P Z (aw_keys (sw_aw sw0)) (pl_open L1) pw"
      "wrote (concat (map entry_bytes (pl_entries L1)) @ pl_open L1) (sw_aw sw0) (sw_aw sw1)"
      "pl_contents L1 = qs @ [pw_mac pw]" "list_all2 (pack_entry P Z (aw_keys (sw_aw sw0))) qs (pl_entries L1)"
      "si_Packs (sw_index sw1) = map word_of_nat (starts (aw_offset (sw_aw sw0)) (map entry_bytes (pl_entries L1) @ [pl_open L1]))"
    using L1(1,2) by (auto simp: session_inv_def packs_ok_def)
  obtain b where b: "wrote b (sw_aw sw1) aw" "pack_open P Z (aw_keys (sw_aw sw0)) (pl_open L1 @ b) pw'" "pw_mac pw' = pw_mac pw @ stored"
    using pw_write_open [OF o(2) w] by blast
  let ?L = "L1\<lparr>pl_open := pl_open L1 @ b, pl_contents := qs @ [pw_mac pw @ stored], pl_raws := pl_raws L @ [chunk]\<rparr>"
  have packs: "packs_ok P Z sw0 ?L sw'"
    using o b L1(3) wrote_seq [OF o(3) b(1)] by (simp add: packs_ok_def sw' record_chunk_def Let_def starts_append)
  have np: "length (si_Packs (sw_index sw1)) = Suc (length qs)" using o(6) list_all2_lengthD [OF o(5)] by simp
  have "chunks_ok P Z sw0 ?L sw'" if s: "small sw'"
  proof -
    let ?sw = "sw1\<lparr>sw_aw := aw, sw_rnd := rnd, sw_pack := Some pw'\<rparr>"
    have "small sw1" "length qs < 2 ^ 32" using s np by (simp_all add: sw' small_def record_chunk_def Let_def)
    then have c: "chunks_ok P Z sw0 L1 ?sw" using L1(1) by (simp add: session_inv_def)
    have off: "pw_size pw = word_of_nat (length (pw_mac pw))" using o(2) by (simp add: pack_open_def)
    show ?thesis
      unfolding sw'
      by (rule record_chunk_ok [OF c s [unfolded sw'] _ _ _ _ cid chunk(2)])
        (use o(4) np packs_grow_last [of qs "pw_mac pw" stored] L1(4)
          new_chunk_ok [OF lib cmp chunk enc L1(3) \<open>length qs < 2 ^ 32\<close>, of "sw_idKey sw0"] in \<open>auto simp: off cid\<close>)
  qed
  moreover have "same_session sw0 sw'" using L1(1) by (simp add: session_inv_def sw' record_chunk_def Let_def same_session_def)
  ultimately show ?thesis
    using packs L1(4-6) n by (intro exI [of _ ?L]) (simp add: session_inv_def sw' record_chunk_def Let_def)
qed

end
