(* ===== verification/Session_Records.thy ===== *)
theory Session_Records
  imports Session_Contents Archiver_Invariant
begin

text \<open>
  The files of a session: the version recorded for a file names chunks that make up what the file
  contained when it was read, and a file that fails leaves no version.
\<close>

section \<open>Counts\<close>

text \<open>The packs and chunks of a session are only added to, so a session that ends small was small all along.\<close>

abbreviation pack_count :: "sessionWriter \<Rightarrow> nat" where "pack_count sw \<equiv> length (si_Packs (sw_index sw))"
abbreviation chunk_count :: "sessionWriter \<Rightarrow> nat" where "chunk_count sw \<equiv> length (ia_chunks (sw_ia sw))"

definition counts_grow :: "(sessionWriter, 'a) op \<Rightarrow> bool" where
  "counts_grow m \<longleftrightarrow> grows pack_count m \<and> grows chunk_count m"

lemma counts_growI [grow_intros]: "grows pack_count m \<Longrightarrow> grows chunk_count m \<Longrightarrow> counts_grow m"
  by (simp add: counts_grow_def)

lemma counts_small: "counts_grow m \<Longrightarrow> m sw = (r, sw') \<Longrightarrow> small sw' \<Longrightarrow> small sw"
  using growsD [of pack_count m sw r sw'] growsD [of chunk_count m sw r sw'] by (auto simp: counts_grow_def small_def)

lemma writer_counts [grow_intros]: "grows pack_count (swWriter m)" "grows chunk_count (swWriter m)"
  by (auto simp: grows_def swWriter_def split: prod.splits)

lemma closePack_counts [grow_intros]: "grows pack_count (closePack P Z K)" "grows chunk_count (closePack P Z K)"
  by (auto simp: grows_def closePack_def swWriter_def split: option.splits prod.splits)

lemma storeChunk_counts: "counts_grow (storeChunk P Z K cid chunk codec)"
  unfolding storeChunk_def ensurePack_def by (intro grow_intros) (simp_all add: record_chunk_def Let_def)

lemma file_counts [grow_intros]:
  "grows pack_count (store_chunks P Z K codec chunker version)" "grows chunk_count (store_chunks P Z K codec chunker version)"
  using storeChunk_counts by (auto simp: counts_grow_def intro: store_chunks_measure)

lemma store_chunks_small: "store_chunks P Z K codec chunker version sw = (r, sw') \<Longrightarrow> small sw' \<Longrightarrow> small sw"
  by (rule counts_small [OF counts_growI [OF file_counts]])

lemma record_files_counts [grow_intros]: "grows pack_count (record_files P Z K fs lower cs res)" "grows chunk_count (record_files P Z K fs lower cs res)"
proof (induction cs arbitrary: res)
  case (Cons c cs)
  {
    case 1
    show ?case unfolding record_files.simps addFile_def by (intro grow_intros Cons.IH) (simp_all add: report_failure_def add_version_def)
  next
    case 2
    show ?case unfolding record_files.simps addFile_def by (intro grow_intros Cons.IH) (simp_all add: report_failure_def add_version_def)
  }
qed (simp_all add: grow_intros)

lemma record_files_small: "record_files P Z K fs lower cs res sw = (r, sw') \<Longrightarrow> small sw' \<Longrightarrow> small sw"
  by (rule counts_small [OF counts_growI [OF record_files_counts]])

section \<open>The chunks of a file\<close>

text \<open>
  The keyed hash tells the contents in \<open>C\<close> apart: no two of them collide.
\<close>

definition tells_apart :: "prims \<Rightarrow> bytes \<Rightarrow> bytes set \<Rightarrow> bool" where
  "tells_apart P idKey C \<longleftrightarrow> inj_on (ComputeHMAC P idKey) C"

lemma known_chunk:
  assumes "chunks_ok P Z sw0 L sw" and "sw_known sw (ComputeHMAC P (sw_idKey sw0) chunk) = Some n"
    and "tells_apart P (sw_idKey sw0) C" and "set (pl_raws L) \<subseteq> C" "chunk \<in> C"
  shows "unat n < length (pl_raws L) \<and> pl_raws L ! unat n = chunk"
proof -
  have l: "list_all2 (\<lambda>raw c. cl_id c = ComputeHMAC P (sw_idKey sw0) raw \<and> unat (cl_raw c) = length raw) (pl_raws L) (ia_chunks (sw_ia sw))"
    and n: "unat n < length (ia_chunks (sw_ia sw))" "cl_id (ia_chunks (sw_ia sw) ! unat n) = ComputeHMAC P (sw_idKey sw0) chunk"
    using assms(1,2) by (auto simp: chunks_ok_def)
  have len: "unat n < length (pl_raws L)" using n(1) list_all2_lengthD [OF l] by simp
  then have "ComputeHMAC P (sw_idKey sw0) (pl_raws L ! unat n) = ComputeHMAC P (sw_idKey sw0) chunk"
    using list_all2_nthD [OF l len] n(2) by simp
  moreover have "pl_raws L ! unat n \<in> C" using len assms(4) nth_mem by blast
  ultimately show ?thesis using assms(3,5) len by (auto simp: tells_apart_def dest: inj_onD)
qed

lemma chunks_ok_length: "chunks_ok P Z sw0 L sw \<Longrightarrow> length (pl_raws L) = length (ia_chunks (sw_ia sw))"
  by (auto simp: chunks_ok_def dest: list_all2_lengthD)

text \<open>What a run of the loop adds: chunk numbers that stand for the pieces.\<close>

definition stands_for :: "bytes list \<Rightarrow> u64 list \<Rightarrow> bytes list \<Rightarrow> bool" where
  "stands_for raws ns pieces \<longleftrightarrow> list_all2 (\<lambda>n p. unat n < length raws \<and> raws ! unat n = p) ns pieces"

lemma stands_for_extend: "stands_for raws ns pieces \<Longrightarrow> stands_for (raws @ news) ns pieces"
  unfolding stands_for_def by (erule list_all2_mono) (auto simp: nth_append)

lemma one_chunk:
  assumes lib: "chunk_lib P Z" and inv: "session_inv P Z sw0 L sw" and cmp: "compressor_ok (sw_compressor sw0)"
    and C: "tells_apart P (sw_idKey sw0) C" "set (pl_raws L) \<subseteq> C" "chunk \<in> C"
    and chunk: "chunk \<noteq> []" "length chunk \<le> MaxCDCChunkSize"
    and run: "(case sw_known sw (ComputeHMAC P (sw_idKey sw) chunk) of Some n \<Rightarrow> (Val n, sw)
        | None \<Rightarrow> storeChunk P Z K (ComputeHMAC P (sw_idKey sw) chunk) chunk codec sw) = (Val n, sw')"
  shows "\<exists>L' news. session_inv P Z sw0 L' sw' \<and> pl_raws L' = pl_raws L @ news \<and> set news \<subseteq> C
    \<and> si_Files (sw_index sw') = si_Files (sw_index sw) \<and> (small sw' \<longrightarrow> stands_for (pl_raws L') [n] [chunk])"
proof (cases "sw_known sw (ComputeHMAC P (sw_idKey sw0) chunk)")
  case (Some n')
  have id: "sw_idKey sw = sw_idKey sw0" using inv by (simp add: session_inv_def same_session_def)
  then have r: "n' = n" "sw' = sw" using run Some by simp_all
  have "stands_for (pl_raws L) [n] [chunk]" if "small sw"
    using known_chunk [OF _ Some C, of Z] that inv by (simp add: session_inv_def stands_for_def r)
  with inv r show ?thesis by (intro exI [of _ L] exI [of _ "[]"]) simp
next
  case None
  have id: "sw_idKey sw = sw_idKey sw0" using inv by (simp add: session_inv_def same_session_def)
  then have s: "storeChunk P Z K (ComputeHMAC P (sw_idKey sw0) chunk) chunk codec sw = (Val n, sw')" using run None by simp
  obtain L' where L': "session_inv P Z sw0 L' sw'" "pl_raws L' = pl_raws L @ [chunk]" "n = word_of_nat (length (ia_chunks (sw_ia sw)))"
      "si_Files (sw_index sw') = si_Files (sw_index sw)"
    using storeChunk_inv [OF lib inv cmp chunk refl s] by blast
  have "stands_for (pl_raws L') [n] [chunk]" if sm: "small sw'"
  proof -
    have "small sw" by (rule counts_small [OF storeChunk_counts s sm])
    then have l: "length (pl_raws L) = length (ia_chunks (sw_ia sw))" "length (ia_chunks (sw_ia sw)) < 2 ^ 63"
      using inv by (auto simp: session_inv_def small_def dest: chunks_ok_length)
    then have "unat n = length (pl_raws L)" by (simp add: L'(3) unat_of_nat)
    then show ?thesis by (simp add: stands_for_def L'(2))
  qed
  with L' C(3) show ?thesis by (intro exI [of _ L'] exI [of _ "[chunk]"]) simp
qed

text \<open>A failure to store is fatal; only reading fails in a way that lets the session go on.\<close>

lemma swWriter_fatal [fatal_intros]: "fatal_only m \<Longrightarrow> fatal_only (swWriter m)"
  by (fastforce simp: fatal_only_def swWriter_def split: prod.splits)

lemma pw_blocks_fatal [fatal_intros]: "fatal_only (pw_blocks P Z K data pw)"
proof -
  have "pw_blocks P Z K data pw s = (Fail e, s') \<Longrightarrow> IsFatal e" for s e s'
  proof (induction P Z K data pw s arbitrary: e s' rule: pw_blocks.induct)
    case (1 P Z K data pw s)
    have seal: "pw_seal P Z K b pw s = (Fail e, s') \<Longrightarrow> IsFatal e" for b e s'
    proof -
      have "fatal_only (pw_seal P Z K b pw)" unfolding pw_seal_def by (intro fatal_intros)
      then show "pw_seal P Z K b pw s = (Fail e, s') \<Longrightarrow> IsFatal e" unfolding fatal_only_def by blast
    qed
    with 1 show ?case
      by (subst (asm) (2) pw_blocks.simps) (auto split: if_splits prod.splits outcome.splits)
  qed
  then show ?thesis by (simp add: fatal_only_def)
qed

lemma pack_ops_fatal [fatal_intros]:
  "fatal_only (pw_write P Z K data pw)" "fatal_only (pw_close P Z K pw)" "fatal_only (openPackEntry P K)"
  unfolding pw_write_def pw_close_def openPackEntry_def pw_seal_def Let_def by (intro fatal_intros)+

lemma closePack_fatal [fatal_intros]: "fatal_only (closePack P Z K)"
  using pack_ops_fatal(2) [THEN swWriter_fatal, of P Z K, unfolded fatal_only_def]
  by (fastforce simp: fatal_only_def closePack_def split: option.splits prod.splits)

lemma storeChunk_fatal: "fatal_only (storeChunk P Z K cid chunk codec)"
  unfolding storeChunk_def ensurePack_def by (intro fatal_intros)

lemma swWriter_errors: "swWriter m sw = (q, sw') \<Longrightarrow> sw_errors sw' = sw_errors sw"
  by (auto simp: swWriter_def split: prod.splits)

lemma closePack_errors: "closePack P Z K sw = (q, sw') \<Longrightarrow> sw_errors sw' = sw_errors sw"
  by (auto simp: closePack_def split: option.splits prod.splits dest: swWriter_errors)

lemma storeChunk_errors:
  assumes "storeChunk P Z K cid chunk codec sw = (Val n, sw')" shows "sw_errors sw' = sw_errors sw"
proof -
  obtain stored codec' where enc: "encode_chunk Z (sw_compressor sw) codec chunk = (stored, codec')" by (rule prod.exhaust)
  obtain pw sw1 where e: "ensurePack P Z K (length stored) sw = (Val pw, sw1)" and sw': "sw_errors sw' = sw_errors sw1"
    using assms by (auto simp: storeChunk_def enc withS_def bindS_Val_conv updateS_def returnS_def record_chunk_def Let_def dest!: swWriter_errors)
  show ?thesis
    using e unfolding sw' ensurePack_def
    by (auto simp: bindS_Val_conv withS_def updateS_def returnS_def split: option.splits if_splits dest!: closePack_errors swWriter_errors)
qed

section \<open>Cutting a file that may fail to be read\<close>

text \<open>What holds of a chunker over any reader; \<open>chunker_inv\<close> is the case without a read error.\<close>

definition chunker_any :: "Chunker \<Rightarrow> bool" where
  "chunker_any c \<longleftrightarrow> ck_cut c \<le> length (ck_buf c) \<and> length (ck_buf c) \<le> MaxCDCChunkSize
     \<and> (ck_eof c \<longrightarrow> rd_pieces (ck_r c) = [] \<and> rd_err (ck_r c) = None)
     \<and> (\<forall>e. rd_err (ck_r c) = Some e \<longrightarrow> \<not> is_EOF e)"

lemma fill_any:
  "fill c = (e, c') \<Longrightarrow> chunker_any c \<Longrightarrow> chunker_any c' \<and> ck_gear c' = ck_gear c \<and> rd_err (ck_r c') = rd_err (ck_r c)
    \<and> (e = None \<longrightarrow> ck_eof c' \<or> length (ck_buf c') = MaxCDCChunkSize) \<and> (\<forall>x. e = Some x \<longrightarrow> rd_err (ck_r c) = Some x)"
proof (induction c arbitrary: e c' rule: fill.induct)
  case (1 c)
  show ?case
  proof (cases "\<not> ck_eof c \<and> length (ck_buf c) < MaxCDCChunkSize")
    case True
    obtain m err r where rd: "rd_Read (MaxCDCChunkSize - length (ck_buf c)) (ck_r c) = (m, err, r)" by (rule prod_cases3)
    define c1 where "c1 = c\<lparr>ck_r := r, ck_buf := ck_buf c @ m\<rparr>"
    have f: "fill c = (case err of None \<Rightarrow> fill c1 | Some e \<Rightarrow> if is_EOF e then fill (c1\<lparr>ck_eof := True\<rparr>) else (Some e, c1))"
      using True rd by (subst fill.simps) (simp add: c1_def Let_def split: option.splits)
    have l: "length m \<le> MaxCDCChunkSize - length (ck_buf c)" "rd_err r = rd_err (ck_r c)"
      "err = None \<or> err = Some (case rd_err r of None \<Rightarrow> EOF | Some e \<Rightarrow> e) \<and> rd_pieces r = []"
      using rd by (auto simp: rd_Read_def split: list.splits if_splits)
    have i1: "chunker_any c1" "ck_gear c1 = ck_gear c" "rd_err (ck_r c1) = rd_err (ck_r c)"
      using "1.prems"(2) l True by (auto simp: chunker_any_def c1_def)
    show ?thesis
    proof (cases err)
      case None
      with f "1.prems" have "fill c1 = (e, c')" by simp
      from "1.IH"(1) [OF True rd [symmetric] refl refl c1_def None this i1(1)] i1(2,3) show ?thesis by simp
    next
      case (Some x)
      with l(3) have x: "x = (case rd_err r of None \<Rightarrow> EOF | Some e \<Rightarrow> e)" "rd_pieces r = []" by simp_all
      show ?thesis
      proof (cases "is_EOF x")
        case eof: True
        then have "rd_err r = None" using x(1) "1.prems"(2) by (cases "rd_err (ck_r c)") (auto simp: chunker_any_def l(2))
        then have i2: "chunker_any (c1\<lparr>ck_eof := True\<rparr>)" using i1(1) x(2) by (simp add: chunker_any_def c1_def)
        from f Some eof "1.prems" have "fill (c1\<lparr>ck_eof := True\<rparr>) = (e, c')" by simp
        from "1.IH"(2) [OF True rd [symmetric] refl refl c1_def Some eof this i2] i1(2,3) show ?thesis by simp
      next
        case False
        then have "rd_err (ck_r c) = Some x" using x(1) by (cases "rd_err (ck_r c)") (auto simp: l(2))
        with f Some False "1.prems" i1 show ?thesis by auto
      qed
    qed
  next
    case False
    with "1.prems" show ?thesis by (auto simp: fill.simps [of c] chunker_any_def)
  qed
qed

lemma ck_Next_any:
  assumes inv: "chunker_any c"
  obtains (chunk) c' where "stream_left c \<noteq> []"
      "ck_Next c = (Ok (take (cutPoint (take MaxCDCChunkSize (stream_left c)) (ck_gear c)) (stream_left c)), c')"
      "chunker_any c'" "ck_gear c' = ck_gear c" "rd_err (ck_r c') = rd_err (ck_r c)"
      "stream_left c' = drop (cutPoint (take MaxCDCChunkSize (stream_left c)) (ck_gear c)) (stream_left c)"
  | (eof) c' where "stream_left c = []" "rd_err (ck_r c) = None" "ck_Next c = (Err EOF, c')"
  | (err) e c' where "rd_err (ck_r c) = Some e" "\<not> is_EOF e" "ck_Next c = (Err e, c')"
proof -
  let ?c = "c\<lparr>ck_buf := drop (ck_cut c) (ck_buf c), ck_cut := 0\<rparr>"
  obtain e c1 where f: "fill ?c = (e, c1)" by (rule prod.exhaust)
  have i: "chunker_any ?c" "ck_cut ?c = 0" "stream_left ?c = stream_left c"
    using inv by (auto simp: chunker_any_def stream_left_def)
  note a = fill_any [OF f i(1)] and l = fill_left [OF f i(2)]
  show thesis
  proof (cases e)
    case (Some x)
    with a inv f show thesis by (intro err [of x c1]) (auto simp: ck_Next_def chunker_any_def)
  next
    case None
    have left: "stream_left c = ck_buf c1 @ concat (rd_pieces (ck_r c1))" using l i(3) by (auto simp: stream_left_def [of c1])
    with a None have buf: "ck_buf c1 = take MaxCDCChunkSize (stream_left c)" by (auto simp: chunker_any_def)
    show thesis
    proof (cases "stream_left c = []")
      case True
      with buf have "ck_eof c1" using a None cdc_sizes by auto
      then have "rd_err (ck_r c) = None" using a by (auto simp: chunker_any_def)
      with True buf f None show thesis by (intro eof [of c1]) (auto simp: ck_Next_def)
    next
      case False
      define k where "k = cutPoint (take MaxCDCChunkSize (stream_left c)) (ck_gear c)"
      have k: "k \<le> length (ck_buf c1)" using cutPoint_bounds(1) [of "ck_buf c1" "ck_gear c"] by (simp add: k_def buf)
      have mx: "MaxCDCChunkSize \<noteq> 0" using cdc_sizes by linarith
      show thesis
      proof (rule chunk [folded k_def, of "c1\<lparr>ck_cut := k\<rparr>"])
        show "stream_left c \<noteq> []" by (rule False)
        show "ck_Next c = (Ok (take k (stream_left c)), c1\<lparr>ck_cut := k\<rparr>)"
          using f buf None False mx k a by (simp add: ck_Next_def k_def [symmetric] min_absorb1)
        show "chunker_any (c1\<lparr>ck_cut := k\<rparr>)" using conjunct1 [OF a] k by (simp add: chunker_any_def)
        show "stream_left (c1\<lparr>ck_cut := k\<rparr>) = drop k (stream_left c)"
          using k left by (simp add: stream_left_def [of "c1\<lparr>ck_cut := k\<rparr>"])
      qed (use a in simp_all)
    qed
  qed
qed

text \<open>
  The loop of \<^verbatim>\<open>addFile\<close>.  Whether the file is read completely or fails on the way, the chunks stored
  are in order; in the first case the version stands for the whole content.
\<close>

definition settled :: "'a outcome \<Rightarrow> bool" where
  "settled r \<longleftrightarrow> (case r of Val _ \<Rightarrow> True | Fail e \<Rightarrow> \<not> IsFatal e | Crash \<Rightarrow> False)"

lemma store_chunks_inv:
  assumes "store_chunks P Z K codec c v sw = (r, sw')" "settled r"
    and "chunk_lib P Z" "session_inv P Z sw0 L sw" "compressor_ok (sw_compressor sw0)"
    and "chunker_any c" "tells_apart P (sw_idKey sw0) C" "set (pl_raws L) \<subseteq> C" "set (cdc_split (ck_gear c) (stream_left c)) \<subseteq> C"
  shows "\<exists>L' news ns. session_inv P Z sw0 L' sw' \<and> pl_raws L' = pl_raws L @ news \<and> set news \<subseteq> C
    \<and> si_Files (sw_index sw') = si_Files (sw_index sw) \<and> sw_errors sw' = sw_errors sw
    \<and> (\<forall>v'. r = Val v' \<longrightarrow> rd_err (ck_r c) = None
        \<and> v' = v\<lparr>fv_Size := fv_Size v + word_of_nat (length (stream_left c)), fv_Chunks := fv_Chunks v @ ns\<rparr>
        \<and> (small sw' \<longrightarrow> stands_for (pl_raws L') ns (cdc_split (ck_gear c) (stream_left c))))"
  using assms
proof (induction P Z K codec c v sw arbitrary: L rule: store_chunks.induct)
  case (1 P Z K codec c v sw)
  note prem = "1.prems"
  have done_here: ?case if "sw' = sw" "\<And>v'. r = Val v' \<Longrightarrow> v' = v \<and> rd_err (ck_r c) = None \<and> stream_left c = []"
    using prem(4) that(1) that(2)
    by (intro exI [of _ L] exI [of _ "[]"]) (auto simp: stands_for_def cdc_split.simps [of _ "[]"])
  from prem(6) show ?case
  proof (cases rule: ck_Next_any)
    case (eof c')
    then have "r = Val v" "sw' = sw" using prem(1) by (simp_all add: store_chunks.simps [of P Z K codec c])
    with eof show ?thesis by (intro done_here) simp_all
  next
    case (err e c')
    then have "r = Fail (readFailed ''read file'' e)" "sw' = sw" using prem(1) by (simp_all add: store_chunks.simps [of P Z K codec c])
    then show ?thesis by (intro done_here) simp_all
  next
    case (chunk c')
    define chk where "chk = take (cutPoint (take MaxCDCChunkSize (stream_left c)) (ck_gear c)) (stream_left c)"
    have split: "cdc_split (ck_gear c) (stream_left c) = chk # cdc_split (ck_gear c') (stream_left c')"
      using chunk by (subst cdc_split.simps) (simp add: chk_def Let_def)
    have sz: "chk \<noteq> []" "length chk \<le> MaxCDCChunkSize"
      using cdc_split_sizes [of "ck_gear c" "stream_left c"] unfolding split by auto
    have left: "chk @ stream_left c' = stream_left c" using chunk(6) by (simp add: chk_def)
    note nx = chunk(2) [folded chk_def]
    let ?id = "ComputeHMAC P (sw_idKey sw) chk"
    let ?v = "\<lambda>m. v\<lparr>fv_Size := fv_Size v + word_of_nat (length chk), fv_Chunks := fv_Chunks v @ [m]\<rparr>"
    obtain q sw1 where s: "(case sw_known sw ?id of Some n \<Rightarrow> (Val n, sw) | None \<Rightarrow> storeChunk P Z K ?id chk codec sw) = (q, sw1)"
      by (rule prod.exhaust)
    have run: "(case q of Val m \<Rightarrow> store_chunks P Z K codec c' (?v m) sw1 | Fail e \<Rightarrow> (Fail e, sw1) | Crash \<Rightarrow> (Crash, sw1)) = (r, sw')"
      using prem(1) by (subst (asm) store_chunks.simps) (cases q; simp add: nx Let_def s)
    have "\<not> (\<exists>e. q = Fail e \<and> \<not> IsFatal e)" using s storeChunk_fatal unfolding fatal_only_def
      by (cases "sw_known sw ?id") (auto, blast)
    then obtain m where q: "q = Val m" using run prem(2) by (cases q) (auto simp: settled_def)
    with run have rest: "store_chunks P Z K codec c' (?v m) sw1 = (r, sw')" by simp
    have er: "sw_errors sw1 = sw_errors sw"
      using s q storeChunk_errors by (cases "sw_known sw ?id") auto
    obtain L1 news1 where L1: "session_inv P Z sw0 L1 sw1" "pl_raws L1 = pl_raws L @ news1" "set news1 \<subseteq> C"
        "si_Files (sw_index sw1) = si_Files (sw_index sw)" "small sw1 \<longrightarrow> stands_for (pl_raws L1) [m] [chk]"
      using one_chunk [OF prem(3-5,7,8) _ sz s [unfolded q]] prem(9) unfolding split by auto
    have c': "set (pl_raws L1) \<subseteq> C" "set (cdc_split (ck_gear c') (stream_left c')) \<subseteq> C" using prem(8,9) L1(2,3) split by auto
    have "\<exists>L' news ns. session_inv P Z sw0 L' sw' \<and> pl_raws L' = pl_raws L1 @ news \<and> set news \<subseteq> C
        \<and> si_Files (sw_index sw') = si_Files (sw_index sw1) \<and> sw_errors sw' = sw_errors sw1
        \<and> (\<forall>v'. r = Val v' \<longrightarrow> rd_err (ck_r c') = None
            \<and> v' = v\<lparr>fv_Size := fv_Size v + word_of_nat (length chk) + word_of_nat (length (stream_left c')), fv_Chunks := fv_Chunks v @ m # ns\<rparr>
            \<and> (small sw' \<longrightarrow> stands_for (pl_raws L') ns (cdc_split (ck_gear c') (stream_left c'))))"
      using "1.IH" [OF nx [symmetric] refl refl refl s [unfolded q, symmetric] refl _ prem(2,3) L1(1) prem(5) chunk(3) prem(7) c'] rest
      by simp
    then obtain L' news ns where L': "session_inv P Z sw0 L' sw'" "pl_raws L' = pl_raws L1 @ news" "set news \<subseteq> C"
        "si_Files (sw_index sw') = si_Files (sw_index sw1)" "sw_errors sw' = sw_errors sw1"
      and v': "\<forall>v'. r = Val v' \<longrightarrow> rd_err (ck_r c') = None
            \<and> v' = v\<lparr>fv_Size := fv_Size v + word_of_nat (length chk) + word_of_nat (length (stream_left c')), fv_Chunks := fv_Chunks v @ m # ns\<rparr>
            \<and> (small sw' \<longrightarrow> stands_for (pl_raws L') ns (cdc_split (ck_gear c') (stream_left c')))" by blast
    have sum: "fv_Size v + word_of_nat (length chk) + word_of_nat (length (stream_left c')) = fv_Size v + word_of_nat (length (stream_left c))"
      unfolding left [symmetric] by (simp add: add.assoc)
    have "stands_for (pl_raws L') (m # ns) (cdc_split (ck_gear c) (stream_left c))"
      if sm: "small sw'" "stands_for (pl_raws L') ns (cdc_split (ck_gear c') (stream_left c'))"
      using stands_for_extend [of "pl_raws L1" "[m]" "[chk]" news] L1(5) L'(2) sm store_chunks_small [OF rest sm(1)]
      unfolding split by (simp add: stands_for_def)
    with L' L1 v' chunk(5) er show ?thesis
      by (intro exI [of _ L'] exI [of _ "news1 @ news"] exI [of _ "m # ns"]) (simp add: sum)
  qed
qed

section \<open>Files\<close>

text \<open>The content that a version stands for, given the content of every chunk.\<close>

definition version_content :: "bytes list \<Rightarrow> FileVersion \<Rightarrow> bytes" where
  "version_content raws f = concat (map (\<lambda>n. raws ! unat n) (fv_Chunks f))"

text \<open>\<open>recorded\<close>: the version has the name and attributes of the input and stands for what was read.\<close>

definition recorded :: "os \<Rightarrow> bytes list \<Rightarrow> inputFile \<Rightarrow> FileVersion \<Rightarrow> bool" where
  "recorded fs raws inp f \<longleftrightarrow> fv_Name f = in_name inp \<and> fv_Attributes f = in_attrs inp
     \<and> list_all (\<lambda>n. unat n < length raws) (fv_Chunks f) \<and> fv_Size f = word_of_nat (length (version_content raws f))
     \<and> (if in_regular inp then \<exists>file'. os_Open fs (in_path inp) = Inr file' \<and> is_EOF (s_end (of_r file'))
          \<and> version_content raws f = s_bytes (of_r file')
        else fv_Chunks f = [])"

lemma stands_for_content:
  assumes "stands_for raws (fv_Chunks f) pieces"
  shows "version_content raws f = concat pieces" "list_all (\<lambda>n. unat n < length raws) (fv_Chunks f)"
proof -
  have "map (\<lambda>n. raws ! unat n) (fv_Chunks f) = pieces"
    using assms unfolding stands_for_def by (auto simp: list_all2_conv_all_nth intro: nth_equalityI)
  then show "version_content raws f = concat pieces" by (simp add: version_content_def)
  show "list_all (\<lambda>n. unat n < length raws) (fv_Chunks f)"
    using assms unfolding stands_for_def by (auto simp: list_all2_conv_all_nth list_all_length)
qed

lemma version_content_extend:
  "list_all (\<lambda>n. unat n < length raws) (fv_Chunks f) \<Longrightarrow> version_content (raws @ news) f = version_content raws f"
  unfolding version_content_def by (rule arg_cong [of _ _ concat]) (auto simp: list_all_iff nth_append)

lemma recorded_extend: "recorded fs raws inp f \<Longrightarrow> recorded fs (raws @ news) inp f"
  unfolding recorded_def by (auto simp: version_content_extend list_all_iff trans_less_add1)

text \<open>The chunks of the inputs are among the contents told apart.\<close>

definition chunks_within :: "os \<Rightarrow> u64 list \<Rightarrow> bytes set \<Rightarrow> inputFile list \<Rightarrow> bool" where
  "chunks_within fs gear C inps \<longleftrightarrow> (\<forall>inp \<in> set inps. \<forall>f. os_Open fs (in_path inp) = Inr f \<longrightarrow> set (cdc_split gear (s_bytes (of_r f))) \<subseteq> C)"

lemma addFile_inv:
  assumes run: "addFile P Z K fs lower inp info sw = (r, sw')" "settled r"
    and lib: "chunk_lib P Z" and inv: "session_inv P Z sw0 L sw" and cmp: "compressor_ok (sw_compressor sw0)"
    and C: "tells_apart P (sw_idKey sw0) C" "set (pl_raws L) \<subseteq> C" "chunks_within fs (sw_gear sw0) C [inp]"
    and reg: "in_regular inp"
  shows "\<exists>L' news. session_inv P Z sw0 L' sw' \<and> pl_raws L' = pl_raws L @ news \<and> set news \<subseteq> C
    \<and> si_Files (sw_index sw') = si_Files (sw_index sw) \<and> sw_errors sw' = sw_errors sw
    \<and> (\<forall>v. r = Val v \<longrightarrow> small sw' \<longrightarrow> recorded fs (pl_raws L') inp v)"
proof -
  have idle: ?thesis if "sw' = sw" "\<forall>v. r \<noteq> Val v" using inv that by (intro exI [of _ L] exI [of _ "[]"]) simp
  show ?thesis
  proof (cases "\<exists>f codec. os_Open fs (in_path inp) = Inr f
      \<and> store_chunks P Z K codec (NewChunker (file_reader f) (sw_gear sw))
          \<lparr>fv_Name = in_name inp, fv_Attributes = in_attrs inp, fv_Size = 0, fv_Chunks = []\<rparr> sw = (r, sw')")
    case False
    then show ?thesis
      using run(1) by (intro idle) (auto simp: addFile_def bindS_def orFail_def withS_def callS_def split: sum.splits res.splits)
  next
    case True
    then obtain f codec where f: "os_Open fs (in_path inp) = Inr f"
      and st: "store_chunks P Z K codec (NewChunker (file_reader f) (sw_gear sw))
          \<lparr>fv_Name = in_name inp, fv_Attributes = in_attrs inp, fv_Size = 0, fv_Chunks = []\<rparr> sw = (r, sw')" by blast
    let ?c = "NewChunker (file_reader f) (sw_gear sw)" and ?data = "s_bytes (of_r f)"
    have g: "sw_gear sw = sw_gear sw0" using inv by (simp add: session_inv_def same_session_def)
    have c: "chunker_any ?c" "stream_left ?c = ?data" "ck_gear ?c = sw_gear sw0"
      "rd_err (ck_r ?c) = (if is_EOF (s_end (of_r f)) then None else Some (s_end (of_r f)))"
      by (simp_all add: chunker_any_def NewChunker_def file_reader_def stream_left_def g)
    have "set (cdc_split (ck_gear ?c) (stream_left ?c)) \<subseteq> C" using C(3) f by (simp add: chunks_within_def c)
    from store_chunks_inv [OF st run(2) lib inv cmp c(1) C(1,2) this]
    obtain L' news ns where L': "session_inv P Z sw0 L' sw'" "pl_raws L' = pl_raws L @ news" "set news \<subseteq> C"
        "si_Files (sw_index sw') = si_Files (sw_index sw)" "sw_errors sw' = sw_errors sw"
      and v: "\<forall>v'. r = Val v' \<longrightarrow> is_EOF (s_end (of_r f))
          \<and> v' = \<lparr>fv_Name = in_name inp, fv_Attributes = in_attrs inp, fv_Size = word_of_nat (length ?data), fv_Chunks = ns\<rparr>
          \<and> (small sw' \<longrightarrow> stands_for (pl_raws L') ns (cdc_split (sw_gear sw0) ?data))"
      unfolding c by (auto split: if_splits)
    have "recorded fs (pl_raws L') inp v'" if r: "r = Val v'" and sm: "small sw'" for v'
      using v [rule_format, OF r] sm f reg stands_for_content [of "pl_raws L'" v' "cdc_split (sw_gear sw0) ?data"]
      by (auto simp: recorded_def cdc_split_concat)
    with L' show ?thesis by blast
  qed
qed

lemma addFile_fails: "addFile P Z K fs lower inp info sw = (Fail e, sw') \<Longrightarrow> \<not> IsFatal e \<Longrightarrow> settled (Fail e)"
  by (simp add: settled_def)

section \<open>All files of a session\<close>

lemma session_inv_update:
  assumes "session_inv P Z sw0 L sw"
  shows "session_inv P Z sw0 L (add_version v sw)" "session_inv P Z sw0 L (report_failure p e sw)"
proof -
  have "same_session sw0 (add_version v sw) = same_session sw0 sw" "packs_ok P Z sw0 L (add_version v sw) = packs_ok P Z sw0 L sw"
    "chunks_ok P Z sw0 L (add_version v sw) = chunks_ok P Z sw0 L sw" "small (add_version v sw) = small sw"
    by (simp_all add: add_version_def same_session_def packs_ok_def chunks_ok_def small_def)
  with assms show "session_inv P Z sw0 L (add_version v sw)" by (simp add: session_inv_def)
  have "same_session sw0 (report_failure p e sw) = same_session sw0 sw" "packs_ok P Z sw0 L (report_failure p e sw) = packs_ok P Z sw0 L sw"
    "chunks_ok P Z sw0 L (report_failure p e sw) = chunks_ok P Z sw0 L sw" "small (report_failure p e sw) = small sw"
    by (simp_all add: report_failure_def same_session_def packs_ok_def chunks_ok_def small_def)
  with assms show "session_inv P Z sw0 L (report_failure p e sw)" by (simp add: session_inv_def)
qed

lemma update_fields [simp]:
  "small (add_version v sw) = small sw" "small (report_failure p e sw) = small sw"
  "si_Files (sw_index (add_version v sw)) = si_Files (sw_index sw) @ [v]" "si_Files (sw_index (report_failure p e sw)) = si_Files (sw_index sw)"
  "sw_errors (add_version v sw) = sw_errors sw" "sw_errors (report_failure p e sw) = sw_errors sw @ [(p, e)]"
  by (simp_all add: small_def add_version_def report_failure_def)

text \<open>The inputs split into those recorded, in order, and those whose failure was reported.\<close>

definition recorded_all ::
  "prims \<Rightarrow> zstd \<Rightarrow> os \<Rightarrow> bytes set \<Rightarrow> sessionWriter \<Rightarrow> packLedger \<Rightarrow> sessionWriter \<Rightarrow> inputFile list \<Rightarrow> IncrementalResult
    \<Rightarrow> IncrementalResult \<Rightarrow> sessionWriter \<Rightarrow> bool" where
  "recorded_all P Z fs C sw0 L sw inps res res' sw' \<longleftrightarrow>
     (\<exists>L' news archived failed vs. session_inv P Z sw0 L' sw' \<and> pl_raws L' = pl_raws L @ news \<and> set news \<subseteq> C
        \<and> mset archived + mset failed = mset inps
        \<and> si_Files (sw_index sw') = si_Files (sw_index sw) @ vs \<and> length vs = length archived
        \<and> (small sw' \<longrightarrow> list_all2 (recorded fs (pl_raws L')) archived vs)
        \<and> map fst (sw_errors sw') = map fst (sw_errors sw) @ map in_path failed
        \<and> ir_Changed res' = ir_Changed res + length archived \<and> ir_Failed res' = ir_Failed res + length failed)"

lemma recorded_all_Nil: "session_inv P Z sw0 L sw \<Longrightarrow> recorded_all P Z fs C sw0 L sw [] res res sw"
  unfolding recorded_all_def
  by (rule exI [of _ L], rule exI [of _ "[]"], rule exI [of _ "[]"], rule exI [of _ "[]"], rule exI [of _ "[]"]) simp

lemma mset_cons_split: "mset archived + mset failed = mset inps \<Longrightarrow>
    mset (x # archived) + mset failed = mset (x # inps) \<and> mset archived + mset (x # failed) = mset (x # inps)"
  by simp

text \<open>One more input in front: recorded or reported.\<close>

lemma recorded_all_archive:
  assumes rest: "recorded_all P Z fs C sw0 L1 (add_version v sw1) inps res1 res' sw'"
    and L1: "pl_raws L1 = pl_raws L @ news1" "set news1 \<subseteq> C" and same: "si_Files (sw_index sw1) = si_Files (sw_index sw)" "sw_errors sw1 = sw_errors sw"
    and rec: "small sw' \<Longrightarrow> recorded fs (pl_raws L1) inp v" and res1: "ir_Changed res1 = ir_Changed res + 1" "ir_Failed res1 = ir_Failed res"
  shows "recorded_all P Z fs C sw0 L sw (inp # inps) res res' sw'"
proof -
  obtain L' news archived failed vs where r: "session_inv P Z sw0 L' sw'" "pl_raws L' = pl_raws L1 @ news" "set news \<subseteq> C"
      "mset archived + mset failed = mset inps" "si_Files (sw_index sw') = si_Files (sw_index (add_version v sw1)) @ vs"
      "length vs = length archived" "small sw' \<longrightarrow> list_all2 (recorded fs (pl_raws L')) archived vs"
      "map fst (sw_errors sw') = map fst (sw_errors (add_version v sw1)) @ map in_path failed"
      "ir_Changed res' = ir_Changed res1 + length archived" "ir_Failed res' = ir_Failed res1 + length failed"
    using rest unfolding recorded_all_def by blast
  have "recorded fs (pl_raws L') inp v" if "small sw'" using recorded_extend [OF rec [OF that], of news] by (simp add: r(2))
  with r L1 same res1 mset_cons_split [OF r(4), of inp] show ?thesis
    unfolding recorded_all_def
    by (intro exI [of _ L'] exI [of _ "news1 @ news"] exI [of _ "inp # archived"] exI [of _ failed] exI [of _ "v # vs"]) simp
qed

lemma recorded_all_report:
  assumes rest: "recorded_all P Z fs C sw0 L1 (report_failure (in_path inp) e sw1) inps res1 res' sw'"
    and L1: "pl_raws L1 = pl_raws L @ news1" "set news1 \<subseteq> C" and same: "si_Files (sw_index sw1) = si_Files (sw_index sw)" "sw_errors sw1 = sw_errors sw"
    and res1: "ir_Changed res1 = ir_Changed res" "ir_Failed res1 = ir_Failed res + 1"
  shows "recorded_all P Z fs C sw0 L sw (inp # inps) res res' sw'"
proof -
  obtain L' news archived failed vs where r: "session_inv P Z sw0 L' sw'" "pl_raws L' = pl_raws L1 @ news" "set news \<subseteq> C"
      "mset archived + mset failed = mset inps" "si_Files (sw_index sw') = si_Files (sw_index sw1) @ vs"
      "length vs = length archived" "small sw' \<longrightarrow> list_all2 (recorded fs (pl_raws L')) archived vs"
      "map fst (sw_errors sw') = map fst (sw_errors sw1) @ [in_path inp] @ map in_path failed"
      "ir_Changed res' = ir_Changed res1 + length archived" "ir_Failed res' = ir_Failed res1 + length failed"
    using rest unfolding recorded_all_def by auto
  with L1 same res1 mset_cons_split [OF r(4), of inp] show ?thesis
    unfolding recorded_all_def
    by (intro exI [of _ L'] exI [of _ "news1 @ news"] exI [of _ archived] exI [of _ "inp # failed"] exI [of _ vs]) simp
qed

text \<open>The changes an update records: regular inputs come with their metadata.\<close>

lemma record_files_inv:
  assumes "record_files P Z K fs lower cs res sw = (Val res', sw')"
    and "chunk_lib P Z" "session_inv P Z sw0 L sw" "compressor_ok (sw_compressor sw0)"
    and "tells_apart P (sw_idKey sw0) C" "set (pl_raws L) \<subseteq> C" "chunks_within fs (sw_gear sw0) C (map cf_in cs)"
  shows "recorded_all P Z fs C sw0 L sw (map cf_in cs) res res' sw'"
  using assms
proof (induction cs arbitrary: res sw L)
  case Nil
  then show ?case by (simp add: returnS_def recorded_all_Nil)
next
  case (Cons c cs)
  let ?inp = "cf_in c"
  have within: "chunks_within fs (sw_gear sw0) C [?inp]" "chunks_within fs (sw_gear sw0) C (map cf_in cs)"
    using Cons.prems(7) by (simp_all add: chunks_within_def)
  note ih = Cons.IH [OF _ Cons.prems(2) _ Cons.prems(4,5) _ within(2)]
  show ?case
  proof (cases "cf_err c")
    case (Some e)
    let ?sw = "report_failure (in_path ?inp) e sw"
    have "record_files P Z K fs lower cs (res\<lparr>ir_Failed := ir_Failed res + 1\<rparr>) ?sw = (Val res', sw')"
      using Cons.prems(1) Some by (simp add: bindS_def updateS_def)
    from ih [OF this session_inv_update(2) [OF Cons.prems(3)] Cons.prems(6)] show ?thesis
      unfolding list.map by (rule recorded_all_report [where ?news1.0 = "[]"]) simp_all
  next
    case None
    show ?thesis
    proof (cases "in_regular ?inp")
      case False
      let ?v = "\<lparr>fv_Name = in_name ?inp, fv_Attributes = in_attrs ?inp, fv_Size = 0, fv_Chunks = []\<rparr>"
      have "record_files P Z K fs lower cs (res\<lparr>ir_Changed := ir_Changed res + 1\<rparr>) (add_version ?v sw) = (Val res', sw')"
        using Cons.prems(1) None False by (simp add: bindS_def updateS_def)
      from ih [OF this session_inv_update(1) [OF Cons.prems(3)] Cons.prems(6)] show ?thesis
        unfolding list.map
        by (rule recorded_all_archive [where ?news1.0 = "[]"]) (use False in \<open>simp_all add: recorded_def version_content_def\<close>)
    next
      case True
      obtain r sw1 where a: "addFile P Z K fs lower ?inp (the (cf_info c)) sw = (r, sw1)" by (rule prod.exhaust)
      have run: "(case r of
            Val v \<Rightarrow> record_files P Z K fs lower cs
                (res\<lparr>ir_Changed := ir_Changed res + 1, ir_ChangedBytes := ir_ChangedBytes res + fv_Size v\<rparr>) (add_version v sw1)
          | Fail e \<Rightarrow> if IsFatal e then (Fail e, sw1)
              else record_files P Z K fs lower cs (res\<lparr>ir_Failed := ir_Failed res + 1\<rparr>) (report_failure (in_path ?inp) e sw1)
          | Crash \<Rightarrow> (Crash, sw1)) = (Val res', sw')"
        using Cons.prems(1) None True a
        by (cases r) (simp_all add: bindS_def catchS_def updateS_def returnS_def failS_def split: if_splits)
      then have st: "settled r" by (auto simp: settled_def split: outcome.splits if_splits)
      from addFile_inv [OF a st Cons.prems(2-6) within(1) True] obtain L1 news1
        where L1: "session_inv P Z sw0 L1 sw1" "pl_raws L1 = pl_raws L @ news1" "set news1 \<subseteq> C"
          "si_Files (sw_index sw1) = si_Files (sw_index sw)" "sw_errors sw1 = sw_errors sw"
          "\<forall>v. r = Val v \<longrightarrow> small sw1 \<longrightarrow> recorded fs (pl_raws L1) ?inp v" by blast
      have sub: "set (pl_raws L1) \<subseteq> C" using Cons.prems(6) L1(2,3) by simp
      show ?thesis
      proof (cases r)
        case (Val v)
        with run have rest: "record_files P Z K fs lower cs
            (res\<lparr>ir_Changed := ir_Changed res + 1, ir_ChangedBytes := ir_ChangedBytes res + fv_Size v\<rparr>) (add_version v sw1) = (Val res', sw')"
          by simp
        from record_files_small [OF rest] L1(6) Val have "small sw' \<Longrightarrow> recorded fs (pl_raws L1) ?inp v" by simp
        with ih [OF rest session_inv_update(1) [OF L1(1)] sub] show ?thesis
          unfolding list.map by (rule recorded_all_archive [OF _ L1(2-5)]) simp_all
      next
        case (Fail e)
        with run have rest: "record_files P Z K fs lower cs (res\<lparr>ir_Failed := ir_Failed res + 1\<rparr>) (report_failure (in_path ?inp) e sw1) = (Val res', sw')"
          by (simp split: if_splits)
        from ih [OF rest session_inv_update(2) [OF L1(1)] sub] show ?thesis
          unfolding list.map by (rule recorded_all_report [OF _ L1(2-5)]) simp_all
      qed (use run in simp)
    qed
  qed
qed

end
