(* ===== verification/Archive_File.thy ===== *)
theory Archive_File
  imports Archive_Reading
begin

text \<open>
  Changing an archive file in place, and signing it (\<^verbatim>\<open>io/signature.go\<close>, \<^verbatim>\<open>truncateAndSync\<close> of
  \<^verbatim>\<open>io/incremental_write.go\<close>).
\<close>

section \<open>An archive file\<close>

text \<open>
  Every call on the open file is recorded with its answer.  What it answers is a parameter, and so is
  how much of its data a failed write has written, and what a writer that gave up has left behind the
  offset it started from.
\<close>

datatype fileCall =
    FOpen
  | FStat
  | FCreateTemp
  | FReadAt nat nat
  | FSeek nat
  | FWriteAt bytes nat
  | FWrite bytes
  | FTruncate nat
  | FSync
  | FClose
  | FRename

type_synonym fileLog = "(fileCall \<times> sarc_error option) list"

record device =
  dv_answer :: "fileLog \<Rightarrow> fileCall \<Rightarrow> sarc_error option"
  dv_partial :: "fileLog \<Rightarrow> nat"
  dv_spill :: "fileLog \<Rightarrow> bytes"

record archiveFile =
  af_bytes :: bytes
  af_log :: fileLog

type_synonym 'a filing = "(archiveFile, 'a) op"

definition f_call :: "device \<Rightarrow> (sarc_error \<Rightarrow> ArchiveError) \<Rightarrow> fileCall \<Rightarrow> unit filing" where
  "f_call D wrap c f =
     (let a = dv_answer D (af_log f) c; f = f\<lparr>af_log := af_log f @ [(c, a)]\<rparr> in
      case a of None \<Rightarrow> (Val (), f) | Some e \<Rightarrow> (Fail (wrap e), f))"

definition f_stream :: "archiveFile \<Rightarrow> stream" where
  "f_stream f = Stream (af_bytes f) EOF"

definition f_ReadAt :: "device \<Rightarrow> (sarc_error \<Rightarrow> ArchiveError) \<Rightarrow> nat \<Rightarrow> nat \<Rightarrow> bytes filing" where
  "f_ReadAt D wrap n off =
     bindS (f_call D wrap (FReadAt n off)) (\<lambda>_. withS (\<lambda>f. orFail wrap (ReadAt (f_stream f) n off)))"

definition f_WriteAt :: "device \<Rightarrow> (sarc_error \<Rightarrow> ArchiveError) \<Rightarrow> bytes \<Rightarrow> nat \<Rightarrow> unit filing" where
  "f_WriteAt D wrap p off f =
     (let a = dv_answer D (af_log f) (FWriteAt p off);
          p' = (case a of None \<Rightarrow> p | Some e \<Rightarrow> take (dv_partial D (af_log f)) p);
          f = f\<lparr>af_bytes := overwrite (af_bytes f) p' off, af_log := af_log f @ [(FWriteAt p off, a)]\<rparr> in
      case a of None \<Rightarrow> (Val (), f) | Some e \<Rightarrow> (Fail (wrap e), f))"

definition f_Truncate :: "device \<Rightarrow> (sarc_error \<Rightarrow> ArchiveError) \<Rightarrow> nat \<Rightarrow> unit filing" where
  "f_Truncate D wrap n =
     bindS (f_call D wrap (FTruncate n)) (\<lambda>_.
     updateS (\<lambda>f. f\<lparr>af_bytes := take n (af_bytes f) @ replicate (n - length (af_bytes f)) 0\<rparr>))"

text \<open>What an archive writer put into the file from \<open>off\<close> on, and what one that failed did.\<close>

definition f_written :: "bytes \<Rightarrow> nat \<Rightarrow> unit filing" where
  "f_written b off = updateS (\<lambda>f. f\<lparr>af_bytes := overwrite (af_bytes f) b off\<rparr>)"

definition f_spilled :: "device \<Rightarrow> nat \<Rightarrow> unit filing" where
  "f_spilled D off = updateS (\<lambda>f. f\<lparr>af_bytes := overwrite (af_bytes f) (dv_spill D (af_log f)) off\<rparr>)"

definition truncateAndSync :: "device \<Rightarrow> nat \<Rightarrow> unit filing" where
  "truncateAndSync D n =
     bindS (f_Truncate D (writeFailed ''truncate archive'') n) (\<lambda>_.
     f_call D (writeFailed ''sync archive'') FSync)"

section \<open>Signing\<close>

definition writeSignature :: "prims \<Rightarrow> ('p, 's) ssh \<Rightarrow> device \<Rightarrow> nat \<Rightarrow> bytes \<Rightarrow> 's \<Rightarrow> unit filing" where
  "writeSignature P S D offset checksum signer =
     bindS (signatureBlock P S checksum signer) (\<lambda>block.
     bindS (f_WriteAt D (writeFailed ''write signature'') block offset) (\<lambda>_.
     truncateAndSync D (offset + length block)))"

abbreviation fatalRead :: "string \<Rightarrow> sarc_error \<Rightarrow> ArchiveError" where
  "fatalRead msg e \<equiv> fatal ErrCodeReadFailed msg (Some e)"

definition archiveChecksum :: "prims \<Rightarrow> device \<Rightarrow> nat \<Rightarrow> bytes filing" where
  "archiveChecksum P D proper =
     (if proper < length Magic + FooterSize
      then failS (fatal ErrCodeTruncated ''archive too small to contain a footer'' None)
      else bindS (f_ReadAt D (fatalRead ''read archive'') 4 0) (\<lambda>magic.
        if magic \<noteq> Magic then failS (fatal ErrCodeBadMagic ''not a sarc archive'' None)
        else bindS (f_ReadAt D (fatalRead ''read archive'') (proper - FooterSize) 0) (\<lambda>content.
        bindS (f_ReadAt D (fatalRead ''read footer'') HMACSize (proper - FooterSize)) (\<lambda>stored.
        let computed = fst (ac_Sum P (ac_Write NewArchiveChecksum content) []) in
        if computed \<noteq> stored
        then failS (fatal ErrCodeIntegrityFail ''archive checksum mismatch; refusing to sign a corrupted archive'' None)
        else returnS computed))))"

definition SignArchiveFile :: "prims \<Rightarrow> ('p, 's) ssh \<Rightarrow> device \<Rightarrow> 's \<Rightarrow> unit filing" where
  "SignArchiveFile P S D signer =
     bindS (f_call D (fatalRead ''open archive'') FOpen) (\<lambda>_.
     bindS (f_call D (fatalRead ''stat archive'') FStat) (\<lambda>_.
     withS (\<lambda>f.
     bindS (splitSignature (f_stream f) (length (af_bytes f))) (\<lambda>(proper, _).
     bindS (archiveChecksum P D proper) (\<lambda>checksum.
     writeSignature P S D proper checksum signer)))))"

definition signedBy :: "prims \<Rightarrow> ('p, 's) ssh \<Rightarrow> bytes \<Rightarrow> bytes \<Rightarrow> 'p \<Rightarrow> bool" where
  "signedBy P S signature checksum pub =
     (case VerifyMessage P S signature checksum of
        Ok got \<Rightarrow> sh_MarshalKey S got = sh_MarshalKey S pub
      | _ \<Rightarrow> False)"

end
