(* ===== verification/Filepath.thy ===== *)
theory Filepath
  imports Names
begin

text \<open>
  The functions of \<^verbatim>\<open>path/filepath\<close> (and \<^verbatim>\<open>path\<close>) that the program calls, on a Unix system, where the separator is a slash and there are no
  volume names: they only compute with strings.
\<close>

section \<open>Cleaning\<close>

definition dotdot :: bytes where "dotdot = [dot, dot]"

text \<open>The elements of a clean path, last first: \<^verbatim>\<open>..\<close> drops the element before it, unless there is none.\<close>

fun clean_elems :: "bool \<Rightarrow> bytes list \<Rightarrow> bytes list \<Rightarrow> bytes list" where
  "clean_elems rooted out [] = out"
| "clean_elems rooted out (e # es) =
     (if e = [] \<or> e = [dot] then clean_elems rooted out es
      else if e = dotdot then
        (case out of
           [] \<Rightarrow> clean_elems rooted (if rooted then [] else [dotdot]) es
         | d # ds \<Rightarrow> if d = dotdot then clean_elems rooted (dotdot # out) es else clean_elems rooted ds es)
      else clean_elems rooted (e # out) es)"

definition rooted :: "bytes \<Rightarrow> bool" where
  "rooted p \<longleftrightarrow> p \<noteq> [] \<and> hd p = slash"

definition elems :: "bytes \<Rightarrow> bytes list" where
  "elems p = rev (clean_elems (rooted p) [] (split_on slash p))"

definition join_elems :: "bytes list \<Rightarrow> bytes" where
  "join_elems es = (if es = [] then [] else join_with slash es)"

definition Clean :: "bytes \<Rightarrow> bytes" where
  "Clean p =
     (if rooted p then slash # join_elems (elems p)
      else if elems p = [] then [dot] else join_elems (elems p))"

section \<open>Parts and joins\<close>

definition filepath_Base :: "bytes \<Rightarrow> bytes" where
  "filepath_Base p =
     (if p = [] then [dot]
      else
        let r = dropWhile (\<lambda>c. c = slash) (rev p);
            b = rev (takeWhile (\<lambda>c. c \<noteq> slash) r) in
        if b = [] then [slash] else b)"

definition filepath_Dir :: "bytes \<Rightarrow> bytes" where
  "filepath_Dir p = Clean (rev (dropWhile (\<lambda>c. c \<noteq> slash) (rev p)))"

definition filepath_Join :: "bytes \<Rightarrow> bytes \<Rightarrow> bytes" where
  "filepath_Join a b =
     (if a = [] then (if b = [] then [] else Clean b)
      else if b = [] then Clean a else Clean (a @ [slash] @ b))"

section \<open>Relative paths\<close>

fun drop_common :: "bytes list \<Rightarrow> bytes list \<Rightarrow> bytes list \<times> bytes list" where
  "drop_common (x # xs) (y # ys) = (if x = y then drop_common xs ys else (x # xs, y # ys))"
| "drop_common xs ys = (xs, ys)"

text \<open>\<open>None\<close> is the error that the target cannot be made relative to the base.\<close>

definition filepath_Rel :: "bytes \<Rightarrow> bytes \<Rightarrow> bytes option" where
  "filepath_Rel base targ =
     (if Clean targ = Clean base then Some [dot]
      else if rooted base \<noteq> rooted targ then None
      else
        let (b, t) = drop_common (elems base) (if Clean targ = [dot] then [[dot]] else elems targ) in
        if b \<noteq> [] \<and> hd b = dotdot then None
        else Some (join_elems (replicate (length b) dotdot @ t)))"

end
