(* ===== verification/Xattrs.thy ===== *)
theory Xattrs
  imports Attributes "HOL-Library.List_Lexorder" "HOL-Library.Sublist"
begin

text \<open>
  Reading the extended attributes of a file (\<^verbatim>\<open>io/xattr_unix.go\<close>), which may change while they are read.
\<close>

section \<open>System calls\<close>

text \<open>
  The errors the code tells apart, and the calls: the size a list or a value would take, and reading it into a buffer of a given
  size.  The state \<open>'x\<close> of the system changes from call to call.
\<close>

datatype errno = ENODATA | ERANGE | ENOTSUP | EOPNOTSUPP | OtherErrno nat

record 'x xattrOS =
  xo_list_size :: "bytes \<Rightarrow> 'x \<Rightarrow> (errno + nat) \<times> 'x"
  xo_list :: "bytes \<Rightarrow> nat \<Rightarrow> 'x \<Rightarrow> (errno + bytes) \<times> 'x"
  xo_get_size :: "bytes \<Rightarrow> bytes \<Rightarrow> 'x \<Rightarrow> (errno + nat) \<times> 'x"
  xo_get :: "bytes \<Rightarrow> bytes \<Rightarrow> nat \<Rightarrow> 'x \<Rightarrow> (errno + bytes) \<times> 'x"

datatype xattrError = Errno errno | XattrMissing | XattrsChanging | XattrChanging | ReadXattr bytes xattrError

definition xattrRetries :: nat where "xattrRetries = 4"

definition unsupportedXattrs :: "errno \<Rightarrow> bool" where
  "unsupportedXattrs e \<longleftrightarrow> e = ENOTSUP \<or> e = EOPNOTSUPP"

text \<open>\<^verbatim>\<open>errNoXattr\<close> is \<^verbatim>\<open>ENODATA\<close> on Linux.\<close>

definition classifyXattrErr :: "errno \<Rightarrow> xattrError" where
  "classifyXattrErr e = (if e = ENODATA then XattrMissing else Errno e)"

section \<open>Listing and reading\<close>

fun list_tries :: "'x xattrOS \<Rightarrow> bytes \<Rightarrow> nat \<Rightarrow> 'x \<Rightarrow> (xattrError + bytes list) \<times> 'x" where
  "list_tries X path 0 x = (Inl XattrsChanging, x)"
| "list_tries X path (Suc k) x =
     (case xo_list_size X path x of
        (Inl e, x) \<Rightarrow> if unsupportedXattrs e then (Inr [], x) else (Inl (Errno e), x)
      | (Inr n, x) \<Rightarrow>
          if n = 0 then (Inr [], x)
          else case xo_list X path n x of
            (Inl e, x) \<Rightarrow> if e = ERANGE then list_tries X path k x else (Inl (Errno e), x)
          | (Inr buf, x) \<Rightarrow>
              (Inr (sort (filter (\<lambda>name. name \<noteq> [] \<and> length name \<le> MaxXattrNameLen) (split_on 0 buf))), x))"

definition listXattrs :: "'x xattrOS \<Rightarrow> bytes \<Rightarrow> 'x \<Rightarrow> (xattrError + bytes list) \<times> 'x" where
  "listXattrs X path x = list_tries X path xattrRetries x"

fun get_tries :: "'x xattrOS \<Rightarrow> bytes \<Rightarrow> bytes \<Rightarrow> nat \<Rightarrow> 'x \<Rightarrow> (xattrError + bytes) \<times> 'x" where
  "get_tries X path name 0 x = (Inl XattrChanging, x)"
| "get_tries X path name (Suc k) x =
     (case xo_get_size X path name x of
        (Inl e, x) \<Rightarrow> (Inl (classifyXattrErr e), x)
      | (Inr n, x) \<Rightarrow>
          if MaxXattrsSize < n then (Inr (replicate (MaxXattrsSize + 1) 0), x)
          else case xo_get X path name n x of
            (Inl e, x) \<Rightarrow> if e = ERANGE then get_tries X path name k x else (Inl (classifyXattrErr e), x)
          | (Inr buf, x) \<Rightarrow> (Inr buf, x))"

definition getXattr :: "'x xattrOS \<Rightarrow> bytes \<Rightarrow> bytes \<Rightarrow> 'x \<Rightarrow> (xattrError + bytes) \<times> 'x" where
  "getXattr X path name x = get_tries X path name xattrRetries x"

fun read_values :: "'x xattrOS \<Rightarrow> bytes \<Rightarrow> bytes list \<Rightarrow> Xattr list \<Rightarrow> 'x \<Rightarrow> (xattrError + Xattr list) \<times> 'x" where
  "read_values X path [] xattrs x = (Inr xattrs, x)"
| "read_values X path (name # names) xattrs x =
     (case getXattr X path name x of
        (Inl e, x) \<Rightarrow> if e = XattrMissing then read_values X path names xattrs x else (Inl (ReadXattr name e), x)
      | (Inr val, x) \<Rightarrow>
          let xattrs = xattrs @ [\<lparr>x_Name = name, x_Value = val\<rparr>] in
          if MaxXattrsSize < XattrsSize xattrs then (Inr xattrs, x) else read_values X path names xattrs x)"

definition readXattrs :: "'x xattrOS \<Rightarrow> bytes \<Rightarrow> 'x \<Rightarrow> (xattrError + Xattr list) \<times> 'x" where
  "readXattrs X path x =
     (case listXattrs X path x of
        (Inl e, x) \<Rightarrow> (Inl e, x)
      | (Inr names, x) \<Rightarrow> if names = [] then (Inr [], x) else read_values X path names [] x)"

section \<open>What is read\<close>

lemma list_tries_names:
  "list_tries X path k x = (Inr names, x') \<Longrightarrow>
   sorted names \<and> list_all (\<lambda>name. name \<noteq> [] \<and> length name \<le> MaxXattrNameLen) names"
  by (induction k arbitrary: x) (auto simp: list_all_iff split: prod.splits sum.splits if_splits)

lemma read_values_names:
  "read_values X path names xattrs x = (Inr ys, x') \<Longrightarrow> \<exists>zs. ys = xattrs @ zs \<and> subseq (map x_Name zs) names"
proof (induction names arbitrary: xattrs x)
  case (Cons name names)
  obtain r x1 where g: "getXattr X path name x = (r, x1)" by fastforce
  show ?case
  proof (cases r)
    case (Inl e)
    then show ?thesis using Cons.prems Cons.IH [of xattrs x1] by (auto simp: g split: if_splits)
  next
    case (Inr val)
    let ?x = "\<lparr>x_Name = name, x_Value = val\<rparr>"
    have "(MaxXattrsSize < XattrsSize (xattrs @ [?x]) \<and> ys = xattrs @ [?x]) \<or>
      (\<exists>zs. ys = (xattrs @ [?x]) @ zs \<and> subseq (map x_Name zs) names)"
      using Cons.prems Cons.IH [of "xattrs @ [?x]" x1] by (auto simp: g Inr Let_def split: if_splits)
    then show ?thesis by (elim disjE exE conjE) (auto intro: exI [of _ "?x # _"])
  qed
qed simp

text \<open>The names are sorted, none is empty and none is too long for the format.\<close>

lemma readXattrs_names:
  assumes "readXattrs X path x = (Inr xattrs, x')"
  shows "sorted (map x_Name xattrs)" "list_all (\<lambda>a. x_Name a \<noteq> [] \<and> length (x_Name a) \<le> MaxXattrNameLen) xattrs"
proof -
  obtain names x1 where l: "list_tries X path xattrRetries x = (Inr names, x1)"
    and r: "(if names = [] then (Inr [], x1) else read_values X path names [] x1) = (Inr xattrs, x')"
    using assms by (auto simp: readXattrs_def listXattrs_def split: prod.splits sum.splits)
  note n = list_tries_names [OF l]
  have s: "subseq (map x_Name xattrs) names" using r read_values_names [of X path names "[]" x1] by (auto split: if_splits)
  obtain N where N: "map x_Name xattrs = nths names N" using s by (auto simp: subseq_conv_nths)
  show "sorted (map x_Name xattrs)" unfolding N using n sorted_nths by blast
  have "set (map x_Name xattrs) \<subseteq> set names" unfolding N by (rule set_nths_subset)
  then show "list_all (\<lambda>a. x_Name a \<noteq> [] \<and> length (x_Name a) \<le> MaxXattrNameLen) xattrs"
    using n by (auto simp: list_all_iff)
qed

end
