(* ===== verification/Inputs.thy ===== *)
theory Inputs
  imports Archiver Output_Tree Filepath Xattrs
begin

unbundle bit_operations_syntax

text \<open>
  Turning the arguments into the entries to archive (\<^verbatim>\<open>io/inputs.go\<close>, \<^verbatim>\<open>io/fileinfo_unix.go\<close>), on a Unix system: walking directories, naming
  what is found, and recording its attributes.
\<close>

section \<open>Files as the system describes them\<close>

record sysStat =
  st_Nlink :: nat
  st_Dev :: u64
  st_Ino :: u64
  st_Uid :: u32
  st_Gid :: u32

text \<open>An \<^verbatim>\<open>fs.FileInfo\<close>; the modification time is in nanoseconds, and \<^verbatim>\<open>Sys\<close> need not be a \<^verbatim>\<open>Stat_t\<close>.\<close>

record statInfo =
  inf_Name :: bytes
  inf_Size :: nat
  inf_Mode :: u32
  inf_ModTime :: i64
  inf_Sys :: "sysStat option"

definition ModeDir :: u32 where "ModeDir = 0x80000000"
definition ModeSymlink :: u32 where "ModeSymlink = 0x08000000"
definition ModeType :: u32 where "ModeType = 0x8F280000"

definition mode_IsDir :: "u32 \<Rightarrow> bool" where "mode_IsDir m \<longleftrightarrow> m AND ModeDir \<noteq> 0"
definition mode_IsRegular :: "u32 \<Rightarrow> bool" where "mode_IsRegular m \<longleftrightarrow> m AND ModeType = 0"
definition mode_IsSymlink :: "u32 \<Rightarrow> bool" where "mode_IsSymlink m \<longleftrightarrow> m AND ModeSymlink \<noteq> 0"

definition linkedFileID :: "statInfo \<Rightarrow> (u64 \<times> u64) option" where
  "linkedFileID info =
     (case inf_Sys info of
        None \<Rightarrow> None
      | Some st \<Rightarrow> if st_Nlink st < 2 then None else Some (st_Dev st, st_Ino st))"

definition fileOwner :: "statInfo \<Rightarrow> Owner option" where
  "fileOwner info = map_option (\<lambda>st. \<lparr>o_UID = st_Uid st, o_GID = st_Gid st\<rparr>) (inf_Sys info)"

definition unixMode :: "u32 \<Rightarrow> u32" where
  "unixMode m =
     (let mode = m AND 0x1FF;
          mode = (if m AND ModeSetuid \<noteq> 0 then mode OR 0x800 else mode);
          mode = (if m AND ModeSetgid \<noteq> 0 then mode OR 0x400 else mode) in
      if m AND ModeSticky \<noteq> 0 then mode OR 0x200 else mode)"

section \<open>Walking a directory\<close>

text \<open>
  What \<^verbatim>\<open>filepath.WalkDir\<close> meets, as a tree: each entry with its name, what \<^verbatim>\<open>Info\<close> answers, and for a directory the entries
  \<^verbatim>\<open>os.ReadDir\<close> gives, in order, and its error.
\<close>

datatype dirEntry =
  DirEntry (de_Name: bytes) (de_IsDir: bool) (de_Info: "sarc_error + statInfo") (de_dirs: "dirEntry list") (de_err: "sarc_error option")

text \<open>The callback is called with an entry, or with an error and the entry if there is one; it may ask to skip.\<close>

datatype visit = Found dirEntry | Failed "dirEntry option" sarc_error

datatype walk_error = SkipDir | SkipAll | WalkFailed sarc_error

type_synonym 's walk_fn = "bytes \<Rightarrow> visit \<Rightarrow> 's \<Rightarrow> walk_error option \<times> 's"

fun walk_entry :: "'s walk_fn \<Rightarrow> bytes \<Rightarrow> dirEntry \<Rightarrow> 's \<Rightarrow> walk_error option \<times> 's"
  and walk_entries :: "'s walk_fn \<Rightarrow> bytes \<Rightarrow> dirEntry list \<Rightarrow> 's \<Rightarrow> walk_error option \<times> 's" where
  "walk_entry fn path (DirEntry name isDir info dirs rerr) s =
     (let d = DirEntry name isDir info dirs rerr in
      case fn path (Found d) s of
        (Some e, s) \<Rightarrow> (if e = SkipDir \<and> isDir then None else Some e, s)
      | (None, s) \<Rightarrow>
          if \<not> isDir then (None, s)
          else case rerr of
            None \<Rightarrow> walk_entries fn path dirs s
          | Some err \<Rightarrow>
              (case fn path (Failed (Some d) err) s of
                 (Some e, s) \<Rightarrow> (if e = SkipDir \<and> isDir then None else Some e, s)
               | (None, s) \<Rightarrow> walk_entries fn path dirs s))"
| "walk_entries fn path [] s = (None, s)"
| "walk_entries fn path (d # ds) s =
     (case walk_entry fn (filepath_Join path (de_Name d)) d s of
        (Some e, s) \<Rightarrow> (if e = SkipDir then None else Some e, s)
      | (None, s) \<Rightarrow> walk_entries fn path ds s)"

definition WalkDir :: "(sarc_error + dirEntry) \<Rightarrow> 's walk_fn \<Rightarrow> bytes \<Rightarrow> 's \<Rightarrow> walk_error option \<times> 's" where
  "WalkDir found fn root s =
     (case (case found of Inl err \<Rightarrow> fn root (Failed None err) s | Inr d \<Rightarrow> walk_entry fn root d s) of
        (err, s) \<Rightarrow> (if err = Some SkipDir \<or> err = Some SkipAll then None else err, s))"

text \<open>Whatever the callback keeps, the walk keeps.\<close>

lemma walk_entries_keep:
  assumes "\<And>d path s. d \<in> set ds \<Longrightarrow> I s \<Longrightarrow> I (snd (walk_entry fn path d s))" and "I s"
  shows "I (snd (walk_entries fn path ds s))"
  using assms
proof (induction ds arbitrary: s)
  case (Cons d ds)
  obtain e s1 where w: "walk_entry fn (filepath_Join path (de_Name d)) d s = (e, s1)" by fastforce
  have "I s1" using Cons.prems(1) [of d s "filepath_Join path (de_Name d)"] Cons.prems(2) w by simp
  then show ?case using Cons.IH [of s1] Cons.prems(1) by (cases e) (simp_all add: w)
qed simp

lemma walk_entry_keeps:
  assumes "\<And>p v s. I s \<Longrightarrow> I (snd (fn p v s))" and "I s"
  shows "I (snd (walk_entry fn path d s))"
  using assms(2)
proof (induction d arbitrary: path s)
  case (DirEntry name isDir info dirs rerr)
  let ?d = "DirEntry name isDir info dirs rerr"
  have below: "I (snd (walk_entries fn path dirs s'))" if "I s'" for s'
    using DirEntry.IH that by (rule walk_entries_keep)
  obtain e s1 where f1: "fn path (Found ?d) s = (e, s1)" by fastforce
  have "I s1" using assms(1) [OF DirEntry.prems, of path "Found ?d"] f1 by simp
  moreover have "I (snd (fn path (Failed (Some ?d) err) s1))" for err using assms(1) calculation by blast
  ultimately show ?case using below by (simp add: Let_def f1 split: prod.splits option.splits) (metis snd_conv)
qed

lemma WalkDir_keeps:
  assumes "\<And>p v s. I s \<Longrightarrow> I (snd (fn p v s))" and "I s"
  shows "I (snd (WalkDir found fn root s))"
  using assms walk_entry_keeps [of I fn, OF assms] by (cases found) (simp_all add: WalkDir_def split: prod.splits, (metis snd_conv)+)

section \<open>Names\<close>

definition directoryPrefix :: "bytes \<Rightarrow> bytes" where
  "directoryPrefix dir =
     (let base = filepath_Base (Clean dir) in
      if base = [dot] \<or> base = dotdot \<or> last base = slash then [] else base)"

definition storedName :: "bytes \<Rightarrow> bytes \<Rightarrow> bytes \<Rightarrow> bytes" where
  "storedName pre root walked =
     (case filepath_Rel root walked of
        None \<Rightarrow> pre
      | Some rel \<Rightarrow> if rel = [dot] then pre else filepath_Join pre rel)"

section \<open>The walker\<close>

record skippedInput =
  sk_path :: bytes
  sk_name :: bytes
  sk_err :: ArchiveError
  sk_unreadable :: bool
  sk_warning :: bool

text \<open>What the walk asks the system: files behind links, links themselves, trees, link targets and extended attributes.\<close>

record 'x walkOS =
  wo_Stat :: "bytes \<Rightarrow> sarc_error + statInfo"
  wo_Lstat :: "bytes \<Rightarrow> sarc_error + statInfo"
  wo_tree :: "bytes \<Rightarrow> sarc_error + dirEntry"
  wo_Readlink :: "bytes \<Rightarrow> sarc_error + bytes"
  wo_xattrs :: "'x xattrOS"

record 'x walker =
  wk_files :: "inputFile list"
  wk_skipped :: "skippedInput list"
  wk_linked :: "(u64 \<times> u64) \<Rightarrow> bytes option"
  wk_x :: 'x

definition wk_skip :: "skippedInput \<Rightarrow> 'x walker \<Rightarrow> 'x walker" where
  "wk_skip s wk = wk\<lparr>wk_skipped := wk_skipped wk @ [s]\<rparr>"

definition inputError :: "string \<Rightarrow> sarc_error option \<Rightarrow> ArchiveError" where
  "inputError m cause = recoverable ErrCodeReadFailed m cause"

text \<open>The kind of an entry and its link target: a reason to skip it, or they and the walker that remembers a first link.\<close>

definition wk_kind :: "'x walkOS \<Rightarrow> bytes \<Rightarrow> bytes \<Rightarrow> statInfo \<Rightarrow> 'x walker \<Rightarrow> skippedInput + (FileKind \<times> bytes \<times> 'x walker)" where
  "wk_kind W p name info wk =
     (let mode = inf_Mode info;
          skip = (\<lambda>m e un. \<lparr>sk_path = p, sk_name = name, sk_err = inputError m e, sk_unreadable = un, sk_warning = False\<rparr>) in
      if mode_IsRegular mode then
        (case linkedFileID info of
           None \<Rightarrow> Inr (KindRegular, [], wk)
         | Some fid \<Rightarrow>
             (case wk_linked wk fid of
                Some first \<Rightarrow> Inr (KindHardlink, first, wk)
              | None \<Rightarrow> Inr (KindRegular, [], wk\<lparr>wk_linked := (wk_linked wk)(fid \<mapsto> name)\<rparr>)))
      else if mode_IsDir mode then Inr (KindDirectory, [], wk)
      else if mode_IsSymlink mode then
        (case wo_Readlink W p of
           Inl e \<Rightarrow> Inl (skip ''read symlink'' (Some e) True)
         | Inr target \<Rightarrow>
             if target = [] \<or> MaxLinkTargetLen < length target then Inl (skip ''unsupported symlink target'' None False)
             else Inr (KindSymlink, target, wk))
      else Inl (skip ''device, socket, or pipe: not archived'' None False))"

text \<open>The extended attributes to store, and the notice when they are left out.\<close>

definition wk_xattrs :: "'x walkOS \<Rightarrow> bytes \<Rightarrow> bytes \<Rightarrow> 'x walker \<Rightarrow> Xattr list \<times> 'x walker" where
  "wk_xattrs W p name wk =
     (let warn = (\<lambda>m e. \<lparr>sk_path = p, sk_name = name, sk_err = inputError m e, sk_unreadable = False, sk_warning = True\<rparr>) in
      case readXattrs (wo_xattrs W) p (wk_x wk) of
        (Inl e, x) \<Rightarrow> ([], wk_skip (warn ''extended attributes not stored'' (Some (Errorf ''xattr''))) (wk\<lparr>wk_x := x\<rparr>))
      | (Inr xattrs, x) \<Rightarrow>
          if MaxXattrsSize < XattrsSize xattrs \<or> MaxXattrs < length xattrs
          then ([], wk_skip (warn ''extended attributes larger than 1 MiB not stored'' None) (wk\<lparr>wk_x := x\<rparr>))
          else (xattrs, wk\<lparr>wk_x := x\<rparr>))"

definition wk_add :: "'x walkOS \<Rightarrow> bool \<Rightarrow> bytes \<Rightarrow> bytes \<Rightarrow> statInfo \<Rightarrow> 'x walker \<Rightarrow> 'x walker" where
  "wk_add W owner p name info wk =
     (if \<not> ValidEntryName name
      then wk_skip \<lparr>sk_path = p, sk_name = [], sk_err = inputError ''unsupported file name'' None, sk_unreadable = False, sk_warning = False\<rparr> wk
      else case wk_kind W p name info wk of
        Inl s \<Rightarrow> wk_skip s wk
      | Inr (kind, target, wk) \<Rightarrow>
          (case wk_xattrs W p name wk of
             (xattrs, wk) \<Rightarrow>
               let attrs = \<lparr>a_Kind = kind, a_Mode = unixMode (inf_Mode info), a_ModTime = inf_ModTime info, a_LinkTarget = target,
                 a_Owner = if owner then fileOwner info else None, a_Xattrs = xattrs\<rparr> in
               wk\<lparr>wk_files := wk_files wk @ [\<lparr>in_path = p, in_name = name, in_attrs = attrs\<rparr>]\<rparr>))"

text \<open>The callback of the walk.\<close>

definition wk_visit :: "'x walkOS \<Rightarrow> bool \<Rightarrow> bytes \<Rightarrow> bytes \<Rightarrow> 'x walker walk_fn" where
  "wk_visit W owner pre root walked v wk =
     (let name = storedName pre root walked;
          unread = (\<lambda>m e. \<lparr>sk_path = walked, sk_name = name, sk_err = inputError m (Some e), sk_unreadable = True, sk_warning = False\<rparr>) in
      case v of
        Failed d err \<Rightarrow>
          (if (case d of None \<Rightarrow> False | Some d' \<Rightarrow> de_IsDir d') \<and> walked \<noteq> root then Some SkipDir else None,
           wk_skip (unread ''read directory'' err) wk)
      | Found d \<Rightarrow>
          if name = [] then (None, wk)
          else case de_Info d of
            Inl err \<Rightarrow> (None, wk_skip (unread ''stat file'' err) wk)
          | Inr info \<Rightarrow>
              if walked = root \<and> mode_IsSymlink (inf_Mode info)
              then (case wo_Stat W walked of
                      Inl err \<Rightarrow> (None, wk)
                    | Inr info \<Rightarrow> (None, wk_add W owner walked name info wk))
              else (None, wk_add W owner walked name info wk))"

definition wk_walkDir :: "'x walkOS \<Rightarrow> bool \<Rightarrow> bytes \<Rightarrow> 'x walker \<Rightarrow> 'x walker" where
  "wk_walkDir W owner dir wk =
     (let pre = directoryPrefix dir;
          root = (case wo_Lstat W dir of
                    Inr info \<Rightarrow> if mode_IsSymlink (inf_Mode info) then dir @ [slash] else dir
                  | Inl _ \<Rightarrow> dir) in
      case WalkDir (wo_tree W root) (wk_visit W owner pre root) root wk of
        (None, wk) \<Rightarrow> wk
      | (Some e, wk) \<Rightarrow>
          wk_skip \<lparr>sk_path = dir, sk_name = [], sk_err = inputError ''walk directory'' (Some (Errorf ''walk'')),
            sk_unreadable = True, sk_warning = False\<rparr> wk)"

definition expand_input :: "'x walkOS \<Rightarrow> bool \<Rightarrow> bytes \<Rightarrow> 'x walker \<Rightarrow> 'x walker" where
  "expand_input W owner p wk =
     (case wo_Stat W p of
        Inl err \<Rightarrow>
          wk_skip \<lparr>sk_path = p, sk_name = [], sk_err = inputError ''stat file'' (Some err), sk_unreadable = True, sk_warning = False\<rparr> wk
      | Inr info \<Rightarrow>
          if \<not> mode_IsDir (inf_Mode info) then wk_add W owner p (inf_Name info) info wk
          else wk_walkDir W owner p wk)"

definition newWalker :: "'x \<Rightarrow> 'x walker" where
  "newWalker x = \<lparr>wk_files = [], wk_skipped = [], wk_linked = (\<lambda>_. None), wk_x = x\<rparr>"

definition expandInputs :: "'x walkOS \<Rightarrow> bool \<Rightarrow> bytes list \<Rightarrow> 'x \<Rightarrow> inputFile list \<times> skippedInput list" where
  "expandInputs W owner paths x =
     (let wk = fold (expand_input W owner) paths (newWalker x) in (wk_files wk, wk_skipped wk))"

definition InputTotals :: "'x walkOS \<Rightarrow> bytes list \<Rightarrow> 'x \<Rightarrow> nat \<times> nat" where
  "InputTotals W paths x =
     (let files = fst (expandInputs W False paths x) in
      (length files,
       sum_list (map (\<lambda>f. case wo_Stat W (in_path f) of Inl _ \<Rightarrow> 0 | Inr info \<Rightarrow> inf_Size info) (filter in_regular files))))"

section \<open>What is archived\<close>

text \<open>Every hard link follows the regular file it is a link to.\<close>

definition is_link_to :: "inputFile \<Rightarrow> inputFile \<Rightarrow> bool" where
  "is_link_to f g \<longleftrightarrow> in_regular g \<and> in_name g = a_LinkTarget (in_attrs f)"

definition links_earlier :: "inputFile list \<Rightarrow> bool" where
  "links_earlier files \<longleftrightarrow>
     (\<forall>i<length files. a_Kind (in_attrs (files ! i)) = KindHardlink \<longrightarrow> list_ex (is_link_to (files ! i)) (take i files))"

lemma links_earlier_snoc:
  "links_earlier (files @ [f]) \<longleftrightarrow>
     links_earlier files \<and> (a_Kind (in_attrs f) = KindHardlink \<longrightarrow> list_ex (is_link_to f) files)"
  by (auto simp: links_earlier_def less_Suc_eq nth_append)

text \<open>The attributes are those the format accepts; only the length of the name a hard link refers to is left to the file system.\<close>

definition entry_sound :: "inputFile \<Rightarrow> bool" where
  "entry_sound f \<longleftrightarrow> ValidEntryName (in_name f) \<and>
     (length (a_LinkTarget (in_attrs f)) \<le> MaxLinkTargetLen \<longrightarrow> validate (in_attrs f) = None) \<and>
     (a_Kind (in_attrs f) \<noteq> KindHardlink \<longrightarrow> length (a_LinkTarget (in_attrs f)) \<le> MaxLinkTargetLen)"

definition walker_ok :: "'x walker \<Rightarrow> bool" where
  "walker_ok wk \<longleftrightarrow> list_all entry_sound (wk_files wk) \<and> links_earlier (wk_files wk) \<and>
     (\<forall>fid name. wk_linked wk fid = Some name \<longrightarrow> list_ex (\<lambda>g. in_regular g \<and> in_name g = name) (wk_files wk))"

lemma unixMode_mask: "unixMode m AND NOT ModeMask = 0"
  by (simp add: unixMode_def ModeMask_def Let_def bit.conj_disj_distrib2 and.assoc)

lemma wk_xattrs_ok:
  assumes "wk_xattrs W p name wk = (xs, wk')"
  shows "length xs \<le> MaxXattrs \<and> XattrsSize xs \<le> MaxXattrsSize \<and>
    list_all (\<lambda>a. x_Name a \<noteq> [] \<and> length (x_Name a) \<le> MaxXattrNameLen) xs \<and> wk_files wk' = wk_files wk \<and> wk_linked wk' = wk_linked wk"
  using assms readXattrs_names(2) [of "wo_xattrs W" p "wk_x wk"]
  by (auto simp: wk_xattrs_def wk_skip_def Let_def split: prod.splits sum.splits if_splits)

text \<open>What was decided about an entry: its kind and target fit, and the walker remembers the name for a file that has more links.\<close>

definition kind_fits :: "'x walker \<Rightarrow> FileKind \<Rightarrow> bytes \<Rightarrow> bool" where
  "kind_fits wk kind target \<longleftrightarrow>
     (kind = KindRegular \<or> kind = KindDirectory) \<and> target = []
     \<or> kind = KindSymlink \<and> target \<noteq> [] \<and> length target \<le> MaxLinkTargetLen
     \<or> kind = KindHardlink \<and> list_ex (\<lambda>g. in_regular g \<and> in_name g = target) (wk_files wk)"

lemma wk_kind_ok:
  assumes "wk_kind W p name info wk = Inr (kind, target, wk')" and "walker_ok wk"
  shows "kind_fits wk kind target \<and> wk_files wk' = wk_files wk
    \<and> (\<forall>fid n. wk_linked wk' fid = Some n \<longrightarrow> wk_linked wk fid = Some n \<or> kind = KindRegular \<and> n = name)"
  using assms
  by (auto simp: wk_kind_def kind_fits_def walker_ok_def Let_def split: if_splits option.splits sum.splits)

lemma wk_add_ok:
  assumes "walker_ok wk" shows "walker_ok (wk_add W owner p name info wk)"
proof (cases "ValidEntryName name")
  case False
  then show ?thesis using assms by (simp add: wk_add_def wk_skip_def walker_ok_def)
next
  case valid: True
  show ?thesis
  proof (cases "wk_kind W p name info wk")
    case (Inl sk)
    then show ?thesis using assms valid by (simp add: wk_add_def wk_skip_def walker_ok_def)
  next
    case (Inr r)
    obtain kind target wk1 where k: "wk_kind W p name info wk = Inr (kind, target, wk1)" using Inr by (cases r) auto
    obtain xs wk2 where x: "wk_xattrs W p name wk1 = (xs, wk2)" by fastforce
    let ?a = "\<lparr>a_Kind = kind, a_Mode = unixMode (inf_Mode info), a_ModTime = inf_ModTime info, a_LinkTarget = target,
      a_Owner = if owner then fileOwner info else None, a_Xattrs = xs\<rparr>"
    let ?f = "\<lparr>in_path = p, in_name = name, in_attrs = ?a\<rparr>"
    note kk = wk_kind_ok [OF k assms] and xx = wk_xattrs_ok [OF x]
    have add: "wk_add W owner p name info wk = wk2\<lparr>wk_files := wk_files wk @ [?f]\<rparr>"
      using valid kk xx by (simp add: wk_add_def k x Let_def)
    have "ValidEntryName target" if "kind = KindHardlink"
      using that kk assms by (auto simp: kind_fits_def walker_ok_def entry_sound_def list_ex_iff list_all_iff kind_defs)
    then have tgt: "ValidEntryName target \<and> target \<noteq> []" if "kind = KindHardlink" using that by (auto simp: ValidEntryName_def)
    have "entry_sound ?f"
      using kk xx valid tgt unixMode_mask
      by (auto simp: entry_sound_def validate_def kind_fits_def kind_defs list_ex_iff list_all_iff)
    moreover have "links_earlier (wk_files wk @ [?f])"
      using kk assms by (auto simp: links_earlier_snoc walker_ok_def kind_fits_def is_link_to_def kind_defs list_ex_iff)
    moreover have "list_ex (\<lambda>g. in_regular g \<and> in_name g = n) (wk_files wk @ [?f])" if "wk_linked wk2 fid = Some n" for fid n
    proof -
      have "wk_linked wk fid = Some n \<or> kind = KindRegular \<and> n = name" using that kk xx by metis
      then show ?thesis using assms by (auto simp: walker_ok_def in_regular_def simp del: split_paired_All)
    qed
    ultimately show ?thesis using assms by (simp add: add walker_ok_def)
  qed
qed

lemma wk_skip_ok: "walker_ok wk \<Longrightarrow> walker_ok (wk_skip s wk)"
  by (simp add: wk_skip_def walker_ok_def)

lemma wk_visit_ok: "walker_ok wk \<Longrightarrow> walker_ok (snd (wk_visit W owner pre root walked v wk))"
  by (simp add: wk_visit_def Let_def wk_skip_ok wk_add_ok split: visit.splits sum.splits)

lemma expand_input_ok: "walker_ok wk \<Longrightarrow> walker_ok (expand_input W owner p wk)"
proof -
  assume ok: "walker_ok wk"
  have "walker_ok (wk_walkDir W owner p wk)"
  proof -
    have "walker_ok (snd (WalkDir found (wk_visit W owner pre root) root wk))" for found pre root
      using wk_visit_ok ok by (rule WalkDir_keeps)
    then have "walker_ok wk'" if "WalkDir found (wk_visit W owner pre root) root wk = (e, wk')" for found pre root e wk'
      using that by (metis snd_conv)
    then show ?thesis by (auto simp: wk_walkDir_def Let_def wk_skip_ok split: prod.splits option.splits)
  qed
  with ok show ?thesis by (simp add: expand_input_def wk_skip_ok wk_add_ok split: sum.splits)
qed

lemma expandInputs_walker:
  fixes x :: 'x
  shows "\<exists>wk :: 'x walker. walker_ok wk \<and> expandInputs W owner paths x = (wk_files wk, wk_skipped wk)"
proof -
  have "walker_ok (fold (expand_input W owner) paths wk)" if "walker_ok wk" for wk
    using that by (induction paths arbitrary: wk) (simp_all add: expand_input_ok)
  moreover have "walker_ok (newWalker x)" by (simp add: newWalker_def walker_ok_def links_earlier_def)
  ultimately have "walker_ok (fold (expand_input W owner) paths (newWalker x))" by blast
  then show ?thesis
    unfolding expandInputs_def Let_def by (intro exI [of _ "fold (expand_input W owner) paths (newWalker x)"] conjI refl)
qed

end
