(* ===== verification/Incremental_Update.thy ===== *)
theory Incremental_Update
  imports Session_Writer Archive_File Inputs
begin

text \<open>
  Creating and updating an incremental archive file (\<^verbatim>\<open>io/incremental_write.go\<close>).  What walking the inputs
  gave (\<^verbatim>\<open>expandInputs\<close>, see \<open>Inputs\<close>), the time and the number of processors are parameters; progress reports are left
  out.  A result that accompanies an error is not modelled.
\<close>

section \<open>What changed\<close>

definition sameXattr :: "Xattr \<Rightarrow> Xattr \<Rightarrow> bool" where
  "sameXattr x y \<longleftrightarrow> x_Name x = x_Name y \<and> x_Value x = x_Value y"

definition sameOwner :: "Owner option \<Rightarrow> Owner option \<Rightarrow> bool" where
  "sameOwner a b \<longleftrightarrow> (a = None) = (b = None) \<and> (a \<noteq> None \<longrightarrow> the a = the b)"

definition sameAttributes :: "Attributes \<Rightarrow> Attributes \<Rightarrow> bool" where
  "sameAttributes a b \<longleftrightarrow>
     \<not> (a_Kind a \<noteq> a_Kind b \<or> a_Mode a \<noteq> a_Mode b \<or> a_ModTime a \<noteq> a_ModTime b \<or> a_LinkTarget a \<noteq> a_LinkTarget b
        \<or> \<not> sameOwner (a_Owner a) (a_Owner b) \<or> length (a_Xattrs a) \<noteq> length (a_Xattrs b))
     \<and> list_all (\<lambda>(x, y). sameXattr x y) (zip (a_Xattrs a) (a_Xattrs b))"

definition underAny :: "bytes \<Rightarrow> bytes list \<Rightarrow> bool" where
  "underAny name dirs = list_ex (\<lambda>p. name = p \<or> has_prefix (p @ [slash]) name) dirs"

text \<open>How one input compares with the newest state: \<open>None\<close> when it is unchanged.\<close>

definition diff_input :: "os \<Rightarrow> incrementalArchive \<Rightarrow> inputFile \<Rightarrow> changedFile option" where
  "diff_input fs ia inp =
     (let prev = map_of (ia_files ia) (in_name inp);
          same = (case prev of None \<Rightarrow> False | Some p \<Rightarrow> sameAttributes (fv_Attributes p) (in_attrs inp)) in
      if \<not> in_regular inp then
        if same then None else Some \<lparr>cf_in = inp, cf_info = None, cf_err = None\<rparr>
      else case os_Stat fs (in_path inp) of
        Inl e \<Rightarrow> Some \<lparr>cf_in = inp, cf_info = None, cf_err = Some (readFailed ''stat file'' e)\<rparr>
      | Inr info \<Rightarrow>
          if same \<and> fv_Size (the prev) = word_of_nat (fi_Size info) then None
          else Some \<lparr>cf_in = inp, cf_info = Some info, cf_err = None\<rparr>)"

definition protectedNames :: "skippedInput list \<Rightarrow> bytes list" where
  "protectedNames skipped = map sk_name (filter (\<lambda>s. sk_unreadable s \<and> sk_name s \<noteq> []) skipped)"

definition diffInputs :: "os \<Rightarrow> incrementalArchive \<Rightarrow> inputFile list \<Rightarrow> skippedInput list \<Rightarrow> changedFile list \<times> bytes list \<times> nat" where
  "diffInputs fs ia files skipped =
     (let ds = map (diff_input fs ia) files in
      (List.map_filter id ds,
       filter (\<lambda>n. n \<notin> set (map in_name files) \<and> \<not> underAny n (protectedNames skipped)) (map fv_Name (sortedFiles ia)),
       length (filter (\<lambda>d. d = None) ds)))"

section \<open>The tail\<close>

definition state_of :: "incrementalArchive \<Rightarrow> bytes" where
  "state_of ia = (case ia_hashState ia of None \<Rightarrow> [] | Some st \<Rightarrow> st)"

definition writeTail :: "prims \<Rightarrow> hash_codec \<Rightarrow> sink \<Rightarrow> device \<Rightarrow> incrementalArchive \<Rightarrow> nat \<Rightarrow> bytes \<Rightarrow> nat \<Rightarrow> bytes filing" where
  "writeTail P H K D ia offset hashState lastIndex =
     bindS (f_call D (writeFailed ''seek archive'') (FSeek offset)) (\<lambda>_.
     bindS (callS (\<lambda>e. fatal ErrCodeIntegrityFail ''resume archive'' (Some e)) (ResumeArchiveWriter H (ia_keys ia) offset hashState)) (\<lambda>aw.
     case WriteCheckpointFooter P H K lastIndex aw of
       Ok aw \<Rightarrow>
         bindS (f_written (aw_out aw) offset) (\<lambda>_.
         bindS (truncateAndSync D (aw_offset aw + FooterSize)) (\<lambda>_. returnS (aw_checksum aw)))
     | Err e \<Rightarrow> bindS (f_spilled D offset) (\<lambda>_. failS (writeFailed ''write archive tail'' e))
     | Panic \<Rightarrow> (\<lambda>f. (Crash, f))))"

definition repairTail :: "prims \<Rightarrow> hash_codec \<Rightarrow> sink \<Rightarrow> device \<Rightarrow> incrementalArchive \<Rightarrow> (bytes \<times> incrementalArchive) filing" where
  "repairTail P H K D ia =
     bindS (f_ReadAt D (fatalRead ''rehash archive'') (ia_tail ia) 0) (\<lambda>content.
     bindS (callS (writeFailed ''save checksum state'') (ac_MarshalBinary H (ac_Write NewArchiveChecksum content))) (\<lambda>state.
     bindS (writeTail P H K D ia (ia_tail ia) state (ia_lastIndex ia)) (\<lambda>checksum.
     returnS (checksum, ia\<lparr>ia_hashState := Some state, ia_recovered := False\<rparr>))))"

section \<open>Appending a session\<close>

text \<open>Put back everything from the old tail on.\<close>

definition restoreTail :: "device \<Rightarrow> bytes \<Rightarrow> nat \<Rightarrow> nat \<Rightarrow> unit filing" where
  "restoreTail D oldTail tail n =
     bindS (f_WriteAt D (writeFailed ''restore archive tail'') oldTail tail) (\<lambda>_. truncateAndSync D n)"

text \<open>The session count is sealed again in the header, after the session is complete.\<close>

definition sealSession :: "prims \<Rightarrow> device \<Rightarrow> incrementalArchive \<Rightarrow> u64 \<Rightarrow> bytes \<Rightarrow> unit filing" where
  "sealSession P D ia sessions rnd =
     bindS (callS (writeFailed ''seal session count'') (SealFileCount P (ia_keys ia) sessions rnd)) (\<lambda>(sealed, _).
     bindS (f_WriteAt D (writeFailed ''write session count'') sealed (FileCountOffset (hi_recipientBlockLen (ia_header ia)))) (\<lambda>_.
     f_call D (writeFailed ''sync archive'') FSync))"

text \<open>The checksum and the end of the archive, or \<open>None\<close> when no session was written.\<close>

definition appendSession ::
  "prims \<Rightarrow> zstd \<Rightarrow> hash_codec \<Rightarrow> sink \<Rightarrow> device \<Rightarrow> os \<Rightarrow> (bytes \<Rightarrow> bytes) \<Rightarrow> nat \<Rightarrow> i64 \<Rightarrow> incrementalArchive \<Rightarrow> changedFile list
    \<Rightarrow> bytes list \<Rightarrow> CompressionOptions \<Rightarrow> IncrementalResult \<Rightarrow> nat \<Rightarrow> bytes
    \<Rightarrow> (IncrementalResult \<times> (bytes \<times> nat) option) filing" where
  "appendSession P Z H K D fs lower procs now ia changed deleted compression res n rnd =
     (let tail = ia_tail ia in
      bindS (f_ReadAt D (fatalRead ''read archive tail'') (n - tail) tail) (\<lambda>oldTail.
      bindS (f_call D (writeFailed ''seek archive'') (FSeek tail)) (\<lambda>_.
      bindS (callS (\<lambda>e. fatal ErrCodeIntegrityFail ''resume archive'' (Some e)) (ResumeArchiveWriter H (ia_keys ia) tail (state_of ia))) (\<lambda>aw.
      case writeSession P Z H K fs lower procs now ia changed deleted compression False (aw, rnd) of
        Crash \<Rightarrow> bindS (f_spilled D tail) (\<lambda>_ f. (Crash, f))
      | Fail e \<Rightarrow> bindS (f_spilled D tail) (\<lambda>_. bindS (restoreTail D oldTail tail n) (\<lambda>_. failS e))
      | Val (sr, written, sw) \<Rightarrow>
          if \<not> written then
            bindS (f_spilled D tail) (\<lambda>_. bindS (restoreTail D oldTail tail n) (\<lambda>_.
            returnS (res\<lparr>ir_Failed := ir_Failed sr\<rparr>, None)))
          else
            let end' = aw_offset (sw_aw sw) + FooterSize in
            bindS (f_written (aw_out (sw_aw sw)) tail) (\<lambda>_.
            bindS (catchS (truncateAndSync D end') (\<lambda>e. bindS (restoreTail D oldTail tail n) (\<lambda>_. failS e))) (\<lambda>_.
            bindS (sealSession P D ia (ir_Session sr) (sw_rnd sw)) (\<lambda>_.
            returnS (sr\<lparr>ir_Unchanged := ir_Unchanged res, ir_Repaired := ir_Repaired res,
                ir_AppendedBytes := int end' - int (tail + TailSize)\<rparr>, Some (aw_checksum (sw_aw sw), end')))))))))"

text \<open>Only \<open>FReadAt\<close> of the footer may be needed when nothing changed.\<close>

definition finishUnchanged ::
  "prims \<Rightarrow> ('p, 's) ssh \<Rightarrow> device \<Rightarrow> incrementalArchive \<Rightarrow> IncrementalResult \<Rightarrow> bytes option \<Rightarrow> bytes option \<Rightarrow> 's option
    \<Rightarrow> IncrementalResult filing" where
  "finishUnchanged P S D ia res signature checksum signer =
     (let end' = ia_tail ia + TailSize in
      case signer of
        None \<Rightarrow> returnS (res\<lparr>ir_SignatureRemoved := ir_Repaired res \<and> signature \<noteq> None\<rparr>)
      | Some sg \<Rightarrow>
          let sign = (\<lambda>c. bindS (writeSignature P S D end' c sg) (\<lambda>_. returnS (res\<lparr>ir_Signed := True\<rparr>))) in
          (case checksum of
             Some c \<Rightarrow> sign c
           | None \<Rightarrow>
               bindS (f_ReadAt D (fatalRead ''read footer'') HMACSize (end' - FooterSize)) (\<lambda>footer.
               if signature \<noteq> None \<and> signedBy P S (the signature) footer (sh_PublicKey S sg) then returnS res
               else bindS (archiveChecksum P D end') sign)))"


text \<open>The update of an existing archive; \<open>u\<close> unlocks it.\<close>

definition updateIncremental ::
  "prims \<Rightarrow> ('r, 'i) age \<Rightarrow> zstd \<Rightarrow> hash_codec \<Rightarrow> ('p, 's) ssh \<Rightarrow> sink \<Rightarrow> device \<Rightarrow> os \<Rightarrow> (bytes \<Rightarrow> bytes) \<Rightarrow> nat \<Rightarrow> i64 \<Rightarrow> 'i Unlockers
    \<Rightarrow> inputFile list \<Rightarrow> skippedInput list \<Rightarrow> CompressionOptions \<Rightarrow> 's option \<Rightarrow> bytes \<Rightarrow> IncrementalResult filing" where
  "updateIncremental P A Z H S K D fs lower procs now u files skipped compression signer rnd =
     bindS (f_call D (fatalRead ''open archive'') FOpen) (\<lambda>_.
     bindS (f_call D (fatalRead ''stat archive'') FStat) (\<lambda>_.
     withS (\<lambda>f.
     let n = length (af_bytes f) in
     bindS (subS (readHeader P A u) (f_stream f)) (\<lambda>(keys, header).
     if \<not> incremental header
     then failS (fatal ErrCodeInvalidOption ''the output exists and is not an incremental archive'' None)
     else bindS (splitSignature (f_stream f) n) (\<lambda>(proper, signature).
     bindS (\<lambda>f. (loadIncremental P Z (f_stream f) proper keys header, f)) (\<lambda>ia.
     let res = empty_result\<lparr>ir_Session := ia_sessions ia\<rparr> in
     bindS (if ia_recovered ia
       then bindS (repairTail P H K D ia) (\<lambda>(checksum, ia). returnS (ia, Some checksum, res\<lparr>ir_Repaired := True\<rparr>, ia_tail ia + TailSize))
       else returnS (ia, None, res, n)) (\<lambda>(ia, checksum, res, n).
     case diffInputs fs ia files skipped of (changed, deleted, unchanged) \<Rightarrow>
       let res = res\<lparr>ir_Unchanged := unchanged\<rparr> in
       if changed = [] \<and> deleted = [] then finishUnchanged P S D ia res signature checksum signer
       else bindS (appendSession P Z H K D fs lower procs now ia changed deleted compression res n rnd) (\<lambda>(res, ended).
         case ended of
           None \<Rightarrow> returnS res
         | Some (checksum, end') \<Rightarrow>
             (case signer of
                Some sg \<Rightarrow> bindS (writeSignature P S D end' checksum sg) (\<lambda>_. returnS (res\<lparr>ir_Signed := True\<rparr>))
              | None \<Rightarrow> returnS (res\<lparr>ir_SignatureRemoved := signature \<noteq> None\<rparr>))))))))))"

section \<open>Creating an archive\<close>

definition first_changes :: "os \<Rightarrow> inputFile list \<Rightarrow> changedFile list" where
  "first_changes fs files = map (\<lambda>inp.
     if \<not> in_regular inp then \<lparr>cf_in = inp, cf_info = None, cf_err = None\<rparr>
     else case os_Stat fs (in_path inp) of
       Inr info \<Rightarrow> \<lparr>cf_in = inp, cf_info = Some info, cf_err = None\<rparr>
     | Inl e \<Rightarrow> \<lparr>cf_in = inp, cf_info = None, cf_err = Some (readFailed ''stat file'' e)\<rparr>) files"

definition empty_archive :: "KeySchedule \<Rightarrow> incrementalArchive" where
  "empty_archive keys = \<lparr>ia_keys = keys, ia_header = no_header, ia_sessions = 0, ia_lastIndex = 0, ia_tail = 0,
     ia_hashState = None, ia_recovered = False, ia_chunks = [], ia_files = []\<rparr>"

text \<open>
  The file is the temporary one, which is in place when the operation succeeds.  Its content is what
  the archive writer put out, followed by the signature.
\<close>

definition createIncremental ::
  "prims \<Rightarrow> ('r, 'i) age \<Rightarrow> zstd \<Rightarrow> hash_codec \<Rightarrow> ('p, 's) ssh \<Rightarrow> sink \<Rightarrow> device \<Rightarrow> os \<Rightarrow> (bytes \<Rightarrow> bytes) \<Rightarrow> nat \<Rightarrow> i64 \<Rightarrow> bytes
    \<Rightarrow> 'r archiverConfig \<Rightarrow> inputFile list \<Rightarrow> 's option \<Rightarrow> bytes \<Rightarrow> IncrementalResult filing" where
  "createIncremental P A Z H S K D fs lower procs now password cfg files signer rnd =
     bindS (f_call D (writeFailed ''create archive'') FCreateTemp) (\<lambda>_.
     bindS (\<lambda>f. (fst (bindS (newCredentialedWriter P A password cfg) (\<lambda>aw rnd.
         case WriteHeaderWithFlags P K 1 HeaderFlagIncremental aw rnd of
           Ok (aw, rnd) \<Rightarrow> (Val (aw, rnd), rnd)
         | Err e \<Rightarrow> (Fail (writeFailed ''write header'' e), rnd)
         | Panic \<Rightarrow> (Crash, rnd)) rnd), f)) (\<lambda>(aw, rnd).
     bindS (\<lambda>f. (writeSession P Z H K fs lower procs now (empty_archive (aw_keys aw)) (first_changes fs files) []
         (cf_compression cfg) True (aw, rnd), f)) (\<lambda>(res, _, sw).
     bindS (f_written (aw_out (sw_aw sw)) 0) (\<lambda>_.
     bindS (case signer of
         None \<Rightarrow> returnS res
       | Some sg \<Rightarrow>
           bindS (signatureBlock P S (aw_checksum (sw_aw sw)) sg) (\<lambda>block.
           bindS (f_call D (writeFailed ''write signature'') (FWrite block)) (\<lambda>_.
           bindS (f_written block (length (aw_out (sw_aw sw)))) (\<lambda>_.
           returnS (res\<lparr>ir_Signed := True\<rparr>))))) (\<lambda>res.
     bindS (f_call D (writeFailed ''sync archive'') FSync) (\<lambda>_.
     bindS (f_call D (writeFailed ''close archive'') FClose) (\<lambda>_.
     bindS (f_call D (writeFailed ''move archive into place'') FRename) (\<lambda>_.
     returnS (res\<lparr>ir_Created := True, ir_AppendedBytes := int (aw_offset (sw_aw sw) + FooterSize)\<rparr>)))))))))"

text \<open>
  \<^verbatim>\<open>ArchiveIncremental\<close> after the walk: \<open>stat\<close> is what \<^verbatim>\<open>os.Stat\<close> of the archive says, \<open>isNotExist\<close> stands for
  \<^verbatim>\<open>errors.Is(err, fs.ErrNotExist)\<close>.
\<close>

definition ArchiveIncremental ::
  "prims \<Rightarrow> ('r, 'i) age \<Rightarrow> zstd \<Rightarrow> hash_codec \<Rightarrow> ('p, 's) ssh \<Rightarrow> sink \<Rightarrow> device \<Rightarrow> os \<Rightarrow> (bytes \<Rightarrow> bytes) \<Rightarrow> nat \<Rightarrow> i64
    \<Rightarrow> sarc_error option \<Rightarrow> (sarc_error \<Rightarrow> bool) \<Rightarrow> bytes \<Rightarrow> 'i Unlockers \<Rightarrow> 'r archiverConfig \<Rightarrow> inputFile list \<Rightarrow> skippedInput list
    \<Rightarrow> 's option \<Rightarrow> bytes \<Rightarrow> IncrementalResult filing" where
  "ArchiveIncremental P A Z H S K D fs lower procs now stat isNotExist password u cfg files skipped signer rnd =
     (if co_Solid (cf_compression cfg)
      then failS (fatal ErrCodeInvalidOption ''solid mode does not apply to incremental archives'' None)
      else if list_ex (\<lambda>s. sk_unreadable s \<and> sk_name s = []) skipped
      then failS (fatal ErrCodeReadFailed ''cannot read an input; refusing to record its files as deleted'' None)
      else case stat of
        Some e \<Rightarrow>
          if isNotExist e then createIncremental P A Z H S K D fs lower procs now password cfg files signer rnd
          else failS (fatal ErrCodeReadFailed ''stat archive'' (Some e))
      | None \<Rightarrow> updateIncremental P A Z H S K D fs lower procs now u files skipped (cf_compression cfg) signer rnd)"

end
