(* ===== verification/Incremental_Load.thy ===== *)
theory Incremental_Load
  imports Incremental_Update
begin

text \<open>
  Loading an incremental archive (\<^verbatim>\<open>io/incremental.go\<close>): whatever the file holds, a state that is accepted is
  well formed and is the result of applying an unbroken chain of sessions in order.
\<close>

section \<open>Applying a chain\<close>

definition fold_sessions :: "SessionIndex list \<Rightarrow> (bytes \<rightharpoonup> FileVersion)" where
  "fold_sessions sis = fold session_files sis Map.empty"

lemma apply_all_Val:
  assumes "apply_all chain ia = Val ia'" and "state_ok hi ia"
    and "list_all (\<lambda>(si, off). index_ok si \<and> word_of_nat off \<le> hi') chain" and "hi \<le> hi'"
  shows "state_ok hi' ia' \<and> (\<exists>cs fs. ia' = ia\<lparr>ia_chunks := cs, ia_files := fs\<rparr>)
    \<and> map_of (ia_files ia') = fold (\<lambda>x. session_files (fst x)) chain (map_of (ia_files ia))"
  using assms
proof (induction chain arbitrary: ia hi)
  case Nil
  then have "state_ok hi' ia" by (auto simp: state_ok_def list_all_iff intro: location_ok_mono)
  with Nil show ?case by (auto intro!: exI [of _ "ia_chunks ia"] exI [of _ "ia_files ia"])
next
  case (Cons x chain)
  obtain si off where x: "x = (si, off)" by force
  obtain ia1 where a: "ia_apply si off ia = Val ia1" "apply_all chain ia1 = Val ia'"
    using Cons.prems(1) by (auto simp: x bindO_Val_conv)
  have ok: "index_ok si" "word_of_nat off \<le> hi'" using Cons.prems(3) by (simp_all add: x)
  note s = ia_apply_Val [OF a(1) ok(1) Cons.prems(2) ok(2) Cons.prems(4)]
  have ih: "state_ok hi' ia' \<and> (\<exists>cs fs. ia' = ia1\<lparr>ia_chunks := cs, ia_files := fs\<rparr>)
      \<and> map_of (ia_files ia') = fold (\<lambda>x. session_files (fst x)) chain (map_of (ia_files ia1))"
    using Cons.IH [OF a(2) conjunct1 [OF s]] Cons.prems(3) by simp
  obtain c1 f1 where "ia1 = ia\<lparr>ia_chunks := c1, ia_files := f1\<rparr>" using s by blast
  with ih s show ?case by (auto simp: x)
qed

lemma empty_state_ok: "ia_chunks ia = [] \<Longrightarrow> ia_files ia = [] \<Longrightarrow> state_ok hi ia"
  by (simp add: state_ok_def)

text \<open>
  C11: what is loaded from an incremental archive is well formed, whatever the file holds.  The sessions
  are numbered from 1 to the newest one without a gap, each read at its offset and authenticated, the
  newest is not older than the count sealed in the header (a rollback is refused), and the files are
  exactly what applying the sessions in order gives: new versions replace old ones, deleted names
  disappear.  Every file has a valid name and attributes, refers only to chunks that exist, and its
  size is the sum of theirs; every chunk lies in a pack between the header and the newest index, and
  its sizes respect the limits of the format.
\<close>

theorem loaded_state_ok:
  assumes "loadIncremental P Z ra len keys header = Val ia"
  shows "state_ok (word_of_nat (ia_lastIndex ia)) ia \<and> hi_sealedCount header \<le> ia_sessions ia
    \<and> (\<exists>chain. chain_ok P Z ra len keys (rev chain) \<and> snd (last chain) = ia_lastIndex ia
         \<and> ia_sessions ia = word_of_nat (length chain) \<and> map_of (ia_files ia) = fold_sessions (map fst chain))"
proof -
  obtain lastIndex tail hs rec chain ia1 where c: "readIndexChain P Z ra len keys (header_end header) lastIndex = Val chain"
    and n: "\<not> si_Session (fst (last chain)) < hi_sealedCount header"
    and a: "apply_all chain \<lparr>ia_keys = keys, ia_header = header, ia_sessions = 0, ia_lastIndex = lastIndex,
         ia_tail = tail, ia_hashState = hs, ia_recovered = rec, ia_chunks = [], ia_files = []\<rparr> = Val ia1"
    and ia: "ia = ia1\<lparr>ia_sessions := si_Session (fst (last chain))\<rparr>"
    using assms by (auto simp: loadIncremental_def bindO_Val_conv Let_def split: if_splits)
  obtain rc where rc: "index_chain P Z ra len keys (header_end header) None lastIndex = Val rc" "chain = rev rc"
    using c by (auto simp: readIndexChain_def bindO_Val_conv)
  have ok: "chain_ok P Z ra len keys rc" "rc \<noteq> []" "snd (hd rc) = lastIndex" using index_chain_ok [OF rc(1)] by simp_all
  note f = chain_ok_facts [OF ok(1)]
  have l: "list_all (\<lambda>(si, off). index_ok si \<and> (word_of_nat off :: u64) \<le> word_of_nat lastIndex) chain"
    using f ok(3) by (auto simp: rc(2) list_all_iff)
  have s: "state_ok (word_of_nat lastIndex) ia1" "ia_header ia1 = header" "ia_lastIndex ia1 = lastIndex"
    "map_of (ia_files ia1) = fold (\<lambda>x. session_files (fst x)) chain Map.empty"
    using apply_all_Val [OF a empty_state_ok [where hi = 0] l] by auto
  have last: "fst (last chain) = fst (hd rc)" "snd (last chain) = lastIndex" using ok(2,3) by (simp_all add: rc(2) last_rev)
  have "si_Session (fst (rc ! 0)) = word_of_nat (length rc - 0)" using f ok(2) by blast
  then have "si_Session (fst (last chain)) = word_of_nat (length chain)" using ok(2) by (simp add: hd_conv_nth rc(2) last_rev)
  with s n ok(1) last(2) show ?thesis
    by (auto simp: ia state_ok_def rc(2) fold_sessions_def fold_map comp_def not_less intro!: exI [of _ chain])
qed

end
