(* ===== verification/Session_Log.thy ===== *)
theory Session_Log
  imports Session_Records Written_Archive Incremental_Load
begin

text \<open>
  An incremental archive as a log of sessions: reading the chain of indexes and applying it gives the
  state that the sessions describe.
\<close>

section \<open>Sessions in a file\<close>

record sessionPart =
  sp_packs :: "FileEntry list"
  sp_index :: SessionIndex
  sp_entry :: FileEntry

definition packs_bytes :: "sessionPart \<Rightarrow> bytes" where
  "packs_bytes s = concat (map entry_bytes (sp_packs s))"

definition sp_bytes :: "sessionPart \<Rightarrow> bytes" where
  "sp_bytes s = packs_bytes s @ entry_bytes (sp_entry s)"

definition index_entry :: "prims \<Rightarrow> zstd \<Rightarrow> KeySchedule \<Rightarrow> SessionIndex \<Rightarrow> FileEntry \<Rightarrow> bool" where
  "index_entry P Z keys si en \<longleftrightarrow> fe_EntryType en = EntryTypeIndex \<and> index_ok si
     \<and> (\<exists>k pt. FileKey P keys (fe_EntrySalt en) = Ok k \<and> si_Marshal si = Ok pt
          \<and> sealed_as P Z k (payload_metadata CodecNone pt) CodecNone pt pt en)"

text \<open>A log is given newest session first, as the chain is read; \<open>hend\<close> is where the header ends.\<close>

fun log_bytes :: "sessionPart list \<Rightarrow> bytes" where
  "log_bytes [] = []"
| "log_bytes (s # log) = log_bytes log @ sp_bytes s"

definition index_at :: "nat \<Rightarrow> sessionPart \<Rightarrow> sessionPart list \<Rightarrow> nat" where
  "index_at hend s log = hend + length (log_bytes log) + length (packs_bytes s)"

fun log_chain :: "nat \<Rightarrow> sessionPart list \<Rightarrow> (SessionIndex \<times> nat) list" where
  "log_chain hend [] = []"
| "log_chain hend (s # log) = (sp_index s, index_at hend s log) # log_chain hend log"

fun last_index :: "nat \<Rightarrow> sessionPart list \<Rightarrow> nat" where
  "last_index hend [] = 0"
| "last_index hend (s # log) = index_at hend s log"

fun log_ok :: "prims \<Rightarrow> zstd \<Rightarrow> KeySchedule \<Rightarrow> nat \<Rightarrow> sessionPart list \<Rightarrow> bool" where
  "log_ok P Z keys hend [] \<longleftrightarrow> True"
| "log_ok P Z keys hend (s # log) \<longleftrightarrow> log_ok P Z keys hend log \<and> index_entry P Z keys (sp_index s) (sp_entry s)
     \<and> list_all (\<lambda>en. \<exists>content. pack_entry P Z keys content en) (sp_packs s)
     \<and> si_Session (sp_index s) = word_of_nat (Suc (length log)) \<and> si_PrevIndex (sp_index s) = word_of_nat (last_index hend log)"

lemma sp_bytes_nonempty: "sp_bytes s \<noteq> []"
  by (simp add: sp_bytes_def entry_bytes_nonempty)

lemma log_length: "length log \<le> length (log_bytes log)"
proof (induction log)
  case (Cons s log)
  have "0 < length (sp_bytes s)" using sp_bytes_nonempty by simp
  with Cons show ?case by (simp del: length_greater_0_conv)
qed simp

lemma index_at_less: "index_at hend s log < hend + length (log_bytes (s # log))" "hend \<le> index_at hend s log"
  using entry_bytes_nonempty(1) [of "sp_entry s"] by (simp_all add: index_at_def sp_bytes_def)

lemma last_index_less: "log \<noteq> [] \<Longrightarrow> last_index hend log < hend + length (log_bytes log) \<and> hend \<le> last_index hend log"
  by (cases log) (simp_all add: index_at_less del: log_bytes.simps)

section \<open>Reading an index\<close>

lemma entry_read_form: "entry_bytes en @ r = [fe_EntryType en] @ fe_EntrySalt en @ fe_FrameHdr en @ metadata_bytes (fe_Metadata en)
      @ entry_body (fe_InterBlockPad en) (fe_DataBlocks en) (fe_Trailer en) @ r"
  by (simp add: entry_bytes_def entry_head_def)

lemma readIndexAt_reads:
  assumes e: "index_entry P Z keys si en" and lib: "lib_ok P Z" and v: "ks_version keys = Version2"
    and b: "s_bytes ra = pre @ entry_bytes en @ post" "length pre + length (entry_bytes en) \<le> len" "len \<le> length (s_bytes ra)"
  shows "readIndexAt P Z ra len keys (length pre) = Val si"
proof -
  obtain k pt where k: "FileKey P keys (fe_EntrySalt en) = Ok k" "si_Marshal si = Ok pt"
      "sealed_as P Z k (payload_metadata CodecNone pt) CodecNone pt pt en" and ok: "index_ok si" "fe_EntryType en = EntryTypeIndex"
    using e by (auto simp: index_entry_def)
  have pt: "length pt \<le> MaxIndexSize" "ParseSessionIndex pt = Ok si"
    using k(2) ok(1) ParseSessionIndex_Marshal by (auto simp: si_Marshal_Ok_conv)
  obtain r where s: "entryReaderAt ra len (length pre) = Stream (entry_bytes en @ r) EOF"
  proof
    show "entryReaderAt ra len (length pre) = Stream (entry_bytes en @ take (len - length pre - length (entry_bytes en)) post) EOF"
      using b by (simp add: entryReaderAt_def SectionReader_def)
  qed
  note body = readPayloadBody_opens [OF k(3,1) lib v pt(1), of "''session index''" r EOF]
  have one: "readS (Suc 0) w (Stream (x # y) e) = (Val [x], Stream y e)" for w x y e
    using readS_append [of "[x]" "Suc 0" w y e] by simp
  show ?thesis
    unfolding readIndexAt_def s entry_read_form by (simp add: bindS_def one ok(2) readIndexBody_def body callS_def pt(2))
qed

lemma index_chain_reads:
  assumes "log_ok P Z keys hend (s # log)" and lib: "lib_ok P Z" and v: "ks_version keys = Version2"
    and b: "s_bytes ra = hdr @ log_bytes (s # log) @ post" "length hdr = hend" "hend + length (log_bytes (s # log)) \<le> len"
      "len \<le> length (s_bytes ra)" "len < 2 ^ 63"
    and after: "after = None \<or> after = Some (word_of_nat (Suc (Suc (length log))))"
  shows "index_chain P Z ra len keys hend after (index_at hend s log) = Val (log_chain hend (s # log))"
  using assms(1) b after
proof (induction log arbitrary: s post after)
  case Nil
  have e: "index_entry P Z keys (sp_index s) (sp_entry s)" using Nil.prems(1) by simp
  have "readIndexAt P Z ra len keys (length (hdr @ packs_bytes s)) = Val (sp_index s)"
    by (rule readIndexAt_reads [OF e lib v, where post = post]) (use Nil.prems in \<open>simp_all add: sp_bytes_def\<close>)
  with Nil.prems show ?case
    by (auto simp: index_chain.simps [of P Z ra len keys hend after] index_at_def)
next
  case (Cons s' log)
  let ?log = "s' # log" and ?off = "index_at hend s (s' # log)" and ?prev = "index_at hend s' log"
  have e: "index_entry P Z keys (sp_index s) (sp_entry s)" and ok: "log_ok P Z keys hend ?log"
    and si: "si_Session (sp_index s) = word_of_nat (Suc (Suc (length log)))" "si_PrevIndex (sp_index s) = word_of_nat ?prev"
    using Cons.prems(1) by simp_all
  have "readIndexAt P Z ra len keys (length (hdr @ log_bytes ?log @ packs_bytes s)) = Val (sp_index s)"
    by (rule readIndexAt_reads [OF e lib v, where post = post])
      (use Cons.prems in \<open>simp_all add: sp_bytes_def\<close>)
  then have rd: "readIndexAt P Z ra len keys ?off = Val (sp_index s)" by (simp add: index_at_def Cons.prems(3) add.assoc)
  have lt: "?prev < ?off" "hend \<le> ?prev" "?off < 2 ^ 63"
    using index_at_less [of hend s' log] index_at_less [of hend s ?log] Cons.prems(4,6) by (auto simp: index_at_def)
  have "Suc (length log) < 2 ^ 63" using log_length [of "s # ?log"] Cons.prems(4,6) by simp
  then have "unat (word_of_nat (Suc (Suc (length log))) :: u64) \<noteq> 1" by (simp add: unat_of_nat del: of_nat_Suc)
  then have n1: "si_Session (sp_index s) \<noteq> 1" by (metis si(1) unat_1)
  have u: "unat (word_of_nat ?prev :: u64) = ?prev" "unat (word_of_nat ?off :: u64) = ?off" "unat (word_of_nat hend :: u64) = hend"
    using lt by (simp_all add: unat_of_nat)
  have range: "\<not> (si_PrevIndex (sp_index s) < word_of_nat hend \<or> word_of_nat ?off \<le> si_PrevIndex (sp_index s))"
    using lt by (simp add: si(2) word_less_nat_alt word_le_nat_alt u)
  have after: "\<not> (after \<noteq> None \<and> si_Session (sp_index s) \<noteq> the after - 1)" using Cons.prems(7) by (auto simp: si(1))
  have "index_chain P Z ra len keys hend (Some (si_Session (sp_index s))) ?prev = Val (log_chain hend ?log)"
    by (rule Cons.IH [OF ok, where post = "sp_bytes s @ post"]) (use Cons.prems si(1) in simp_all)
  then show ?case
    using after by (subst index_chain.simps) (auto simp: rd n1 range [unfolded si(2)] si(2) u)
qed

section \<open>The tail\<close>

text \<open>The tail of an archive whose newest index is at \<open>i\<close>, with the saved state \<open>st\<close> of the checksum.\<close>

definition checkpoint_tail :: "nat \<Rightarrow> bytes \<Rightarrow> bytes \<Rightarrow> bool" where
  "checkpoint_tail i st t \<longleftrightarrow> (\<exists>cp checksum. t = cp @ [EntryTypeEnd] @ checksum @ replicate ReservedSize 0
     \<and> length cp = CheckpointSize \<and> length checksum = HMACSize
     \<and> ParseCheckpoint cp = Ok \<lparr>cp_LastIndex = word_of_nat i, cp_HashState = st\<rparr>)"

lemma checkpoint_tail_length: "checkpoint_tail i st t \<Longrightarrow> length t = TailSize"
  by (auto simp: checkpoint_tail_def TailSize_def FooterSize_def)

lemma readCheckpoint_reads:
  assumes t: "checkpoint_tail i st t" and b: "s_bytes ra = pre @ t @ post" and len: "len = length pre + TailSize" "len < 2 ^ 63"
    and i: "hend \<le> i" "i < length pre"
  shows "readCheckpoint ra len hend = Val (i, length pre, st)"
proof -
  obtain cp checksum where cp: "t = cp @ [EntryTypeEnd] @ checksum @ replicate ReservedSize 0" "length cp = CheckpointSize"
      "ParseCheckpoint cp = Ok \<lparr>cp_LastIndex = word_of_nat i, cp_HashState = st\<rparr>"
    using t by (auto simp: checkpoint_tail_def)
  have rd: "ReadAt ra TailSize (length pre) = Inr t"
    using b checkpoint_tail_length [OF t] by (simp add: ReadAt_def)
  have u: "unat (word_of_nat i :: u64) = i" "unat (word_of_nat hend :: u64) = hend" "unat (word_of_nat (length pre) :: u64) = length pre"
    using i len by (simp_all add: unat_of_nat)
  have "\<not> ((word_of_nat i :: u64) < word_of_nat hend \<or> word_of_nat (length pre) \<le> (word_of_nat i :: u64))"
    using i by (simp add: word_less_nat_alt word_le_nat_alt u)
  then show ?thesis
    using i cp by (simp add: readCheckpoint_def Let_def len(1) rd u nth_append)
qed

section \<open>The state of a log\<close>

text \<open>Applying the sessions of a log, oldest first, to an empty state gives these chunks and files.\<close>

definition log_state :: "nat \<Rightarrow> sessionPart list \<Rightarrow> chunkLocation list \<Rightarrow> (bytes \<times> FileVersion) list \<Rightarrow> bool" where
  "log_state hend log cs fs \<longleftrightarrow> (\<forall>ia. header_end (ia_header ia) = hend \<longrightarrow> ia_chunks ia = [] \<longrightarrow> ia_files ia = [] \<longrightarrow>
     apply_all (rev (log_chain hend log)) ia = Val (ia\<lparr>ia_chunks := cs, ia_files := fs\<rparr>))"

lemma log_state_Nil: "log_state hend [] [] []"
  by (simp add: log_state_def)

lemma apply_all_append: "apply_all (xs @ ys) ia = bindO (apply_all xs ia) (apply_all ys)"
proof (induction xs arbitrary: ia)
  case (Cons x xs)
  obtain si off where x: "x = (si, off)" by (rule prod.exhaust)
  show ?case by (cases "ia_apply si off ia") (simp_all add: x Cons.IH)
qed simp

text \<open>A session applies when its chunks and files fit what the archive holds.\<close>

definition new_files :: "FileVersion list \<Rightarrow> bytes list \<Rightarrow> (bytes \<times> FileVersion) list \<Rightarrow> (bytes \<times> FileVersion) list" where
  "new_files vs deleted fs = fold AList.delete deleted (fold (\<lambda>f. AList.update (fv_Name f) f) vs fs)"

lemma apply_files_all:
  assumes "list_all (\<lambda>f. chunk_total (\<lambda>c. u64_of_u32 (cl_raw c)) (ia_chunks ia) (fv_Chunks f) = Val (fv_Size f)) vs"
  shows "apply_files vs ia = Val (ia\<lparr>ia_files := fold (\<lambda>f. AList.update (fv_Name f) f) vs (ia_files ia)\<rparr>)"
  using assms by (induction vs arbitrary: ia) simp_all

lemma ia_apply_all:
  assumes "si_FirstChunk si = word_of_nat (length (ia_chunks ia))"
    and "list_all (\<lambda>p. word_of_nat (header_end (ia_header ia)) \<le> p \<and> p < word_of_nat off) (si_Packs si)"
    and "mapO (chunk_location (si_Packs si)) (si_Chunks si) = Val locs"
    and "list_all (\<lambda>f. chunk_total (\<lambda>c. u64_of_u32 (cl_raw c)) (ia_chunks ia @ locs) (fv_Chunks f) = Val (fv_Size f)) (si_Files si)"
  shows "ia_apply si off ia = Val (ia\<lparr>ia_chunks := ia_chunks ia @ locs, ia_files := new_files (si_Files si) (si_Deleted si) (ia_files ia)\<rparr>)"
proof -
  have "\<not> list_ex (\<lambda>p. p < word_of_nat (header_end (ia_header ia)) \<or> word_of_nat off \<le> p) (si_Packs si)"
    using assms(2) by (auto simp: list_all_iff list_ex_iff)
  then show ?thesis
    using assms(1,3) apply_files_all [of "ia\<lparr>ia_chunks := ia_chunks ia @ locs\<rparr>" "si_Files si"] assms(4)
    by (simp add: ia_apply_def new_files_def)
qed

lemma log_state_Cons:
  assumes st: "log_state hend log cs fs"
    and "si_FirstChunk (sp_index s) = word_of_nat (length cs)"
    and "list_all (\<lambda>p. word_of_nat hend \<le> p \<and> p < word_of_nat (index_at hend s log)) (si_Packs (sp_index s))"
    and "mapO (chunk_location (si_Packs (sp_index s))) (si_Chunks (sp_index s)) = Val locs"
    and "list_all (\<lambda>f. chunk_total (\<lambda>c. u64_of_u32 (cl_raw c)) (cs @ locs) (fv_Chunks f) = Val (fv_Size f)) (si_Files (sp_index s))"
  shows "log_state hend (s # log) (cs @ locs) (new_files (si_Files (sp_index s)) (si_Deleted (sp_index s)) fs)"
  unfolding log_state_def
proof (intro allI impI)
  fix ia :: incrementalArchive assume ia: "header_end (ia_header ia) = hend" "ia_chunks ia = []" "ia_files ia = []"
  let ?ia = "ia\<lparr>ia_chunks := cs, ia_files := fs\<rparr>"
  have "apply_all (rev (log_chain hend log)) ia = Val ?ia" using st ia by (simp add: log_state_def)
  moreover have "ia_apply (sp_index s) (index_at hend s log) ?ia
      = Val (?ia\<lparr>ia_chunks := cs @ locs, ia_files := new_files (si_Files (sp_index s)) (si_Deleted (sp_index s)) fs\<rparr>)"
    using ia_apply_all [of "sp_index s" ?ia "index_at hend s log" locs] assms(2-5) ia(1) by simp
  ultimately show "apply_all (rev (log_chain hend (s # log))) ia
      = Val (ia\<lparr>ia_chunks := cs @ locs, ia_files := new_files (si_Files (sp_index s)) (si_Deleted (sp_index s)) fs\<rparr>)"
    by (simp add: apply_all_append)
qed

text \<open>The state of an archive that consists of the log, with the tail right behind it.\<close>

definition log_archive ::
  "KeySchedule \<Rightarrow> headerInfo \<Rightarrow> sessionPart list \<Rightarrow> bytes \<Rightarrow> chunkLocation list \<Rightarrow> (bytes \<times> FileVersion) list \<Rightarrow> incrementalArchive" where
  "log_archive keys header log st cs fs =
     \<lparr>ia_keys = keys, ia_header = header, ia_sessions = word_of_nat (length log), ia_lastIndex = last_index (header_end header) log,
      ia_tail = header_end header + length (log_bytes log), ia_hashState = Some st, ia_recovered = False, ia_chunks = cs, ia_files = fs\<rparr>"

lemma load_log:
  assumes ok: "log_ok P Z keys (header_end header) log" "log \<noteq> []" and st: "log_state (header_end header) log cs fs"
    and lib: "lib_ok P Z" and v: "ks_version keys = Version2"
    and t: "checkpoint_tail (last_index (header_end header) log) hs t"
    and b: "s_bytes ra = hdr @ log_bytes log @ t @ post" "length hdr = header_end header"
      "len = header_end header + length (log_bytes log) + TailSize" "len < 2 ^ 63"
    and count: "hi_sealedCount header \<le> word_of_nat (length log)"
  shows "loadIncremental P Z ra len keys header = Val (log_archive keys header log hs cs fs)"
proof -
  let ?h = "header_end header"
  obtain s log' where log: "log = s # log'" using ok(2) by (cases log) simp_all
  have cp: "readCheckpoint ra len ?h = Val (last_index ?h log, ?h + length (log_bytes log), hs)"
    using readCheckpoint_reads [OF t, of ra "hdr @ log_bytes log" post len ?h] last_index_less [OF ok(2), of ?h] b by simp
  have "index_chain P Z ra len keys ?h None (index_at ?h s log') = Val (log_chain ?h (s # log'))"
    by (rule index_chain_reads [OF ok(1) [unfolded log] lib v, where hdr = hdr and post = "t @ post"])
      (use b checkpoint_tail_length [OF t] in \<open>simp_all add: log\<close>)
  then have ch: "readIndexChain P Z ra len keys ?h (last_index ?h log) = Val (rev (log_chain ?h log))"
    by (simp add: readIndexChain_def log)
  have newest: "si_Session (fst (last (rev (log_chain ?h log)))) = word_of_nat (length log)"
    using ok(1) by (simp add: log last_rev)
  have "\<not> (word_of_nat (length log) :: u64) < hi_sealedCount header" using count by simp
  then show ?thesis
    using st [unfolded log_state_def, rule_format, of "\<lparr>ia_keys = keys, ia_header = header, ia_sessions = 0, ia_lastIndex = last_index ?h log,
         ia_tail = ?h + length (log_bytes log), ia_hashState = Some hs, ia_recovered = False, ia_chunks = [], ia_files = []\<rparr>"]
    by (simp add: loadIncremental_def cp ch Let_def newest log_archive_def)
qed

end
