(* ===== verification/Session_Roundtrip.thy ===== *)
theory Session_Roundtrip
  imports Session_Log
begin

text \<open>
  What a session writes is a part of the log that applies to the state it was written for, and the
  archive loads to the state after it.
\<close>

section \<open>The index of a session\<close>

lemma newSessionWriter_state:
  assumes "newSessionWriter P Z procs now ia compression (aw, rnd) = (Val sw, s')"
    and "ChunkIDKey P (ia_keys ia) = Ok idKey" "GearTable P (ia_keys ia) = Ok gear"
  shows "sw_aw sw = aw \<and> sw_rnd sw = rnd \<and> sw_ia sw = ia \<and> sw_idKey sw = idKey \<and> sw_gear sw = gear \<and> compressor_ok (sw_compressor sw)
    \<and> sw_known sw = known_chunks 0 (ia_chunks ia) \<and> sw_pack sw = None \<and> sw_errors sw = []
    \<and> sw_index sw = \<lparr>si_Session = ia_sessions ia + 1, si_Time = now, si_PrevIndex = word_of_nat (ia_lastIndex ia),
          si_FirstChunk = word_of_nat (length (ia_chunks ia)), si_Packs = [], si_Chunks = [], si_Files = [], si_Deleted = []\<rparr>"
  using assms
  by (auto simp: newSessionWriter_def writing_convs compressor_ok_def NewChunkCompressor_def newCompressor_def bindR_Ok_conv Let_def
      split: if_splits)

text \<open>The content of each chunk of an archive.\<close>

definition raws_of :: "prims \<Rightarrow> bytes \<Rightarrow> bytes list \<Rightarrow> chunkLocation list \<Rightarrow> bool" where
  "raws_of P idKey raws cs \<longleftrightarrow>
     list_all2 (\<lambda>raw c. cl_id c = ComputeHMAC P idKey raw \<and> unat (cl_raw c) = length raw) raws cs"

lemma known_chunks_sound:
  "known_chunks n cs i = Some m \<Longrightarrow> n + length cs < 2 ^ 64 \<Longrightarrow> n \<le> unat m \<and> unat m < n + length cs \<and> cl_id (cs ! (unat m - n)) = i"
proof (induction cs arbitrary: n)
  case (Cons c cs)
  show ?case
  proof (cases "known_chunks (Suc n) cs i")
    case None
    then have "cl_id c = i" "m = word_of_nat n" using Cons.prems(1) by (auto simp: map_add_def split: if_splits)
    moreover have "unat (word_of_nat n :: u64) = n" using Cons.prems(2) by (simp add: unat_of_nat)
    ultimately show ?thesis by simp
  next
    case (Some m')
    then have m: "m' = m" using Cons.prems(1) by (simp add: map_add_def)
    from Cons.IH [OF Some [unfolded m]] Cons.prems(2) show ?thesis by (auto simp: nth_Cons' )
  qed
qed simp

lemma session_start_inv:
  assumes "newSessionWriter P Z procs now ia compression (aw, rnd) = (Val sw, s')"
    and "ChunkIDKey P (ia_keys ia) = Ok idKey" "GearTable P (ia_keys ia) = Ok gear"
    and "raws_of P idKey olds (ia_chunks ia)"
  shows "session_inv P Z sw \<lparr>pl_entries = [], pl_open = [], pl_contents = [], pl_raws = olds\<rparr> sw"
proof -
  note sw = newSessionWriter_state [OF assms(1-3)]
  have "chunks_ok P Z sw \<lparr>pl_entries = [], pl_open = [], pl_contents = [], pl_raws = olds\<rparr> sw" if "small sw"
    using sw assms(4) that known_chunks_sound [of 0 "ia_chunks ia"] list_all2_lengthD [of _ olds "ia_chunks ia"]
    by (auto simp: chunks_ok_def raws_of_def small_def)
  with sw show ?thesis by (simp add: session_inv_def packs_ok_def)
qed

text \<open>An index that marshals is small.\<close>

lemma marshal_small:
  assumes "si_Marshal si = Ok b"
  shows "length (si_Packs si) \<le> MaxIndexSize" "length (si_Chunks si) \<le> MaxIndexSize"
proof -
  have b: "length b \<le> MaxIndexSize" "length (concat (map append_uvarint (si_Packs si))) + length (concat (map chunk_bytes (si_Chunks si))) \<le> length b"
    using assms unfolding si_Marshal_Ok_conv by auto
  have "length (si_Packs si) * 1 \<le> length (concat (map append_uvarint (si_Packs si)))"
    by (rule length_concat_ge) (rule append_uvarint_length)
  moreover have "length (si_Chunks si) * 1 \<le> length (concat (map chunk_bytes (si_Chunks si)))"
    by (rule length_concat_ge) (simp add: chunk_bytes_def)
  ultimately show "length (si_Packs si) \<le> MaxIndexSize" "length (si_Chunks si) \<le> MaxIndexSize" using b by simp_all
qed

text \<open>The sum of the sizes of the chunks of a file is the size of its content.\<close>

lemma version_total:
  assumes "raws_of P idKey raws cs" and "list_all (\<lambda>n. unat n < length raws) ns"
  shows "chunk_total (\<lambda>c. u64_of_u32 (cl_raw c)) cs ns = Val (word_of_nat (length (concat (map (\<lambda>n. raws ! unat n) ns))))"
  using assms(2)
proof (induction ns)
  case (Cons n ns)
  have l: "length raws = length cs" using assms(1) by (auto simp: raws_of_def dest: list_all2_lengthD)
  have "unat (cl_raw (cs ! unat n)) = length (raws ! unat n)"
    using assms(1) Cons.prems by (auto simp: raws_of_def dest: list_all2_nthD)
  then have "u64_of_u32 (cl_raw (cs ! unat n)) = word_of_nat (length (raws ! unat n))" by (simp add: u64_of_u32_def)
  with Cons l show ?case by simp
qed simp

section \<open>A written session\<close>

lemma session_body_written:
  assumes "session_body P Z H K fs lower changed deleted allowEmpty res0 sw0 = (Val (res, True, sw), sw)"
  obtains res1 sw1 sw2 pt en aw3 rnd aw4 aw5 where
    "record_files P Z K fs lower changed res0 sw0 = (Val res1, sw1)" "closePack P Z K sw1 = (Val (), sw2)"
    "si_Marshal ((sw_index sw2)\<lparr>si_Deleted := deleted\<rparr>) = Ok pt"
    "sealPayloadEntry P Z EntryTypeIndex CodecNone pt pt (sw_aw sw2, sw_rnd sw2) = (Val en, (aw3, rnd))"
    "WriteFileEntry K en aw3 = Ok aw4" "WriteCheckpointFooter P H K (aw_offset aw3) aw4 = Ok aw5"
    "sw = sw2\<lparr>sw_index := (sw_index sw2)\<lparr>si_Deleted := deleted\<rparr>, sw_aw := aw5, sw_rnd := rnd\<rparr>"
    "res = res1\<lparr>ir_NewChunks := length (si_Chunks (sw_index sw2))\<rparr>"
proof -
  obtain res1 sw1 where r: "record_files P Z K fs lower changed res0 sw0 = (Val res1, sw1)"
    and rest: "bindS (closePack P Z K) (\<lambda>_.
         bindS (updateS (\<lambda>sw. sw\<lparr>sw_index := (sw_index sw)\<lparr>si_Deleted := deleted\<rparr>\<rparr>)) (\<lambda>_.
         bindS (writeIndex P Z K) (\<lambda>indexOffset.
         bindS (swWriter (writeS (writeFailed ''write archive tail'') (WriteCheckpointFooter P H K indexOffset))) (\<lambda>_.
         withS (\<lambda>sw. returnS (res1\<lparr>ir_NewChunks := length (si_Chunks (sw_index sw))\<rparr>, True, sw)))))) sw1 = (Val (res, True, sw), sw)"
    using assms by (auto simp: session_body_def bindS_Val_conv withS_def returnS_def split: if_splits)
  obtain sw2 where c: "closePack P Z K sw1 = (Val (), sw2)"
    and rest: "bindS (writeIndex P Z K) (\<lambda>indexOffset.
         bindS (swWriter (writeS (writeFailed ''write archive tail'') (WriteCheckpointFooter P H K indexOffset))) (\<lambda>_.
         withS (\<lambda>sw. returnS (res1\<lparr>ir_NewChunks := length (si_Chunks (sw_index sw))\<rparr>, True, sw))))
         (sw2\<lparr>sw_index := (sw_index sw2)\<lparr>si_Deleted := deleted\<rparr>\<rparr>) = (Val (res, True, sw), sw)"
    using rest by (auto simp: bindS_Val_conv updateS_def)
  show thesis
    using rest
    by (auto simp: writeIndex_def bindS_Val_conv withS_def callS_Val_conv returnS_def writing_Val_conv
        elim!: swWriter_Val intro!: that [OF r c])
qed

lemma WriteCheckpointFooter_offset:
  "WriteCheckpointFooter P H K i aw = Ok aw' \<Longrightarrow> aw_offset aw' + FooterSize = aw_offset aw + TailSize"
proof -
  assume "WriteCheckpointFooter P H K i aw = Ok aw'"
  then obtain state cp where m: "cp_Marshal \<lparr>cp_LastIndex = word_of_nat i, cp_HashState = state\<rparr> = Ok cp"
    and foot: "WriteFooter P K (put cp aw) = Ok aw'"
    by (auto simp: WriteCheckpointFooter_def bindR_Ok_conv dest!: tee_Write_Ok)
  have "length state \<le> checkpointStateSize" using m by (simp add: cp_Marshal_def split: if_splits)
  then have "length cp = CheckpointSize"
    using checkpoint_marshalled [of "\<lparr>cp_LastIndex = word_of_nat i, cp_HashState = state\<rparr>"] m by auto
  with WriteFooter_forward [OF foot] show ?thesis by (simp add: TailSize_def)
qed

text \<open>
  \<open>session_part\<close>: the session \<open>s\<close> written behind \<open>base\<close> for the state \<open>ia\<close>, whose chunks have the content
  \<open>olds\<close>; it has new chunks with the content \<open>news\<close> at \<open>locs\<close>.
\<close>

definition session_part ::
  "prims \<Rightarrow> zstd \<Rightarrow> bytes \<Rightarrow> incrementalArchive \<Rightarrow> nat \<Rightarrow> bytes list \<Rightarrow> sessionPart \<Rightarrow> bytes list \<Rightarrow> bytes list \<Rightarrow> chunkLocation list \<Rightarrow> bool" where
  "session_part P Z idKey ia base olds s contents news locs \<longleftrightarrow>
     (let si = sp_index s in
      index_entry P Z (ia_keys ia) si (sp_entry s) \<and> list_all2 (pack_entry P Z (ia_keys ia)) contents (sp_packs s)
      \<and> si_Session si = ia_sessions ia + 1 \<and> si_PrevIndex si = word_of_nat (ia_lastIndex ia)
      \<and> si_FirstChunk si = word_of_nat (length (ia_chunks ia))
      \<and> si_Packs si = map word_of_nat (starts base (map entry_bytes (sp_packs s)))
      \<and> list_all2 (chunk_stored P Z idKey contents) news (si_Chunks si)
      \<and> mapO (chunk_location (si_Packs si)) (si_Chunks si) = Val locs
      \<and> raws_of P idKey (olds @ news) (ia_chunks ia @ locs))"

lemma recorded_refs:
  assumes "list_all2 (recorded fs raws) archived vs" and "length raws < 2 ^ 64"
  shows "list_all (\<lambda>f. list_all (\<lambda>n. n < word_of_nat (length raws)) (fv_Chunks f)) vs"
proof -
  have u: "unat (word_of_nat (length raws) :: u64) = length raws" using assms(2) by (simp add: unat_of_nat)
  have "list_all (\<lambda>n. n < word_of_nat (length raws)) (fv_Chunks f)" if f: "f \<in> set vs" for f
  proof -
    obtain inp where "recorded fs raws inp f" using assms(1) f by (metis in_set_conv_nth list_all2_conv_all_nth)
    then show ?thesis by (auto simp: recorded_def list_all_iff word_less_nat_alt u)
  qed
  then show ?thesis by (simp add: list_all_iff)
qed

text \<open>The chunks that are new are those of the index, so their number is bounded by it.\<close>

definition new_counted :: "nat \<Rightarrow> sessionWriter \<Rightarrow> nat" where
  "new_counted n sw = (if chunk_count sw \<le> n + length (si_Chunks (sw_index sw)) then 1 else 0)"

lemma writer_counted [grow_intros]: "grows (new_counted n) (swWriter m)" "grows (new_counted n) (closePack P Z K)"
  by (auto simp: grows_def closePack_def swWriter_def new_counted_def split: option.splits prod.splits)

lemma storeChunk_counted: "grows (new_counted n) (storeChunk P Z K cid chunk codec)"
  unfolding storeChunk_def ensurePack_def by (intro grow_intros) (simp_all add: record_chunk_def new_counted_def Let_def)

lemma store_chunks_counted [grow_intros]: "grows (new_counted n) (store_chunks P Z K codec chunker version)"
  by (rule store_chunks_measure [OF storeChunk_counted])

lemma record_files_counted: "grows (new_counted n) (record_files P Z K fs lower cs res)"
proof (induction cs arbitrary: res)
  case (Cons c cs)
  show ?case
    unfolding record_files.simps addFile_def
    by (intro grow_intros Cons.IH) (simp_all add: report_failure_def add_version_def new_counted_def)
qed (simp add: grow_intros)

text \<open>The invariant at the end of a session: the last pack is closed and the index marshals.\<close>

lemma session_end:
  assumes lib: "chunk_lib P Z"
    and r: "record_files P Z K fs lower changed res0 sw0 = (Val res1, sw1)" and c: "closePack P Z K sw1 = (Val (), sw2)"
    and m: "si_Marshal ((sw_index sw2)\<lparr>si_Deleted := deleted\<rparr>) = Ok pt"
    and inv: "session_inv P Z sw0 L sw0" and cmp: "compressor_ok (sw_compressor sw0)" and e: "sw_errors sw0 = []" "si_Files (sw_index sw0) = []"
      "si_Chunks (sw_index sw0) = []" "chunk_count sw0 < 2 ^ 62"
    and C: "tells_apart P (sw_idKey sw0) C" "set (pl_raws L) \<subseteq> C" "chunks_within fs (sw_gear sw0) C (map cf_in changed)"
    and res0: "ir_Changed res0 = 0" "ir_Failed res0 = 0"
  shows "\<exists>L' news archived failed. same_session sw0 sw2 \<and> packs_ok P Z sw0 L' sw2 \<and> chunks_ok P Z sw0 L' sw2 \<and> sw_pack sw2 = None
    \<and> chunk_count sw2 < 2 ^ 63 \<and> pl_raws L' = pl_raws L @ news \<and> set news \<subseteq> C
    \<and> mset archived + mset failed = mset (map cf_in changed)
    \<and> list_all2 (recorded fs (pl_raws L')) archived (si_Files (sw_index sw2))
    \<and> map fst (sw_errors sw2) = map in_path failed \<and> ir_Changed res1 = length archived \<and> ir_Failed res1 = length failed"
proof -
  have "recorded_all P Z fs C sw0 L sw0 (map cf_in changed) res0 res1 sw1"
    by (rule record_files_inv [OF r lib inv cmp C])
  then obtain L1 news archived failed vs where inv1: "session_inv P Z sw0 L1 sw1"
    and raws: "pl_raws L1 = pl_raws L @ news" "set news \<subseteq> C"
    and parts: "mset archived + mset failed = mset (map cf_in changed)"
    and files: "si_Files (sw_index sw1) = vs" "small sw1 \<longrightarrow> list_all2 (recorded fs (pl_raws L1)) archived vs"
    and errs: "map fst (sw_errors sw1) = map in_path failed" "ir_Changed res1 = length archived" "ir_Failed res1 = length failed"
    unfolding recorded_all_def e res0 by auto
  obtain L' where inv2: "session_inv P Z sw0 L' sw2" "sw_pack sw2 = None" "pl_raws L' = pl_raws L1" "sw_index sw2 = sw_index sw1" "sw_ia sw2 = sw_ia sw1"
    using closePack_inv [OF _ inv1 c] lib unfolding chunk_lib_def by blast
  have errors: "sw_errors sw2 = sw_errors sw1" using c by (auto simp: closePack_def elim!: swWriter_Val split: option.splits prod.splits)
  have "new_counted (chunk_count sw0) sw0 = 1" by (simp add: new_counted_def)
  with growsD [OF record_files_counted r, of "chunk_count sw0"] have "chunk_count sw1 \<le> chunk_count sw0 + length (si_Chunks (sw_index sw1))"
    by (simp add: new_counted_def split: if_splits)
  with marshal_small [OF m] inv2(4) e(4) have "small sw1" "chunk_count sw1 < 2 ^ 63" by (simp_all add: small_def MaxIndexSize_def)
  moreover have "small sw2" using calculation inv2 by (simp add: small_def)
  ultimately show ?thesis
    using inv2 raws parts files errs errors unfolding session_inv_def
    by - (rule exI [of _ L'], rule exI [of _ news], rule exI [of _ archived], rule exI [of _ failed], simp)
qed

lemma session_end_part:
  assumes w: "packs_ok P Z sw0 L sw" "chunks_ok P Z sw0 L sw" "same_session sw0 sw" "sw_pack sw = None"
    and sw0: "sw_ia sw0 = ia" "aw_keys (sw_aw sw0) = ia_keys ia" "ia_sessions ia + 1 \<noteq> 0"
      "si_Session (sw_index sw0) = ia_sessions ia + 1" "si_PrevIndex (sw_index sw0) = word_of_nat (ia_lastIndex ia)"
      "si_FirstChunk (sw_index sw0) = word_of_nat (length (ia_chunks ia))"
    and raws: "pl_raws L = olds @ news" "length olds = length (ia_chunks ia)" "chunk_count sw < 2 ^ 63"
    and files: "list_all2 (recorded fs (pl_raws L)) archived (si_Files (sw_index sw))"
    and m: "si = (sw_index sw)\<lparr>si_Deleted := deleted\<rparr>" "si_Marshal si = Ok pt"
    and en: "fe_EntryType en = EntryTypeIndex" "FileKey P (ia_keys ia) (fe_EntrySalt en) = Ok k"
      "sealed_as P Z k (payload_metadata CodecNone pt) CodecNone pt pt en"
  shows "\<exists>locs. session_part P Z (sw_idKey sw0) ia (aw_offset (sw_aw sw0)) olds \<lparr>sp_packs = pl_entries L, sp_index = si, sp_entry = en\<rparr>
      (pl_contents L) news locs"
proof -
  have p: "list_all2 (pack_entry P Z (ia_keys ia)) (pl_contents L) (pl_entries L)"
      "si_Packs si = map word_of_nat (starts (aw_offset (sw_aw sw0)) (map entry_bytes (pl_entries L)))"
    using w(1,4) by (simp_all add: packs_ok_def sw0 m(1))
  have lp: "length (si_Packs si) = length (pl_contents L)" using p by (simp add: list_all2_lengthD [OF p(1)])
  obtain olds' news' locs where c: "pl_raws L = olds' @ news'" "length olds' = length (ia_chunks ia)"
      "list_all2 (chunk_stored P Z (sw_idKey sw0) (pl_contents L)) news' (si_Chunks si)"
      "mapO (chunk_location (si_Packs si)) (si_Chunks si) = Val locs" "ia_chunks (sw_ia sw) = ia_chunks ia @ locs"
    and r: "raws_of P (sw_idKey sw0) (pl_raws L) (ia_chunks (sw_ia sw))"
    using w(2) unfolding chunks_ok_def raws_of_def by (auto simp: sw0 m(1))
  have news: "news' = news" using c(1,2) raws(1,2) by (metis append_eq_append_conv)
  have eq: "(sw_index sw)\<lparr>si_Packs := [], si_Chunks := [], si_Files := []\<rparr> = (sw_index sw0)\<lparr>si_Packs := [], si_Chunks := [], si_Files := []\<rparr>"
    using w(3) by (simp add: same_session_def)
  have same: "si_Session si = ia_sessions ia + 1" "si_PrevIndex si = word_of_nat (ia_lastIndex ia)"
      "si_FirstChunk si = word_of_nat (length (ia_chunks ia))"
    using arg_cong [OF eq, of si_Session] arg_cong [OF eq, of si_PrevIndex] arg_cong [OF eq, of si_FirstChunk] by (simp_all add: m(1) sw0)
  have count: "si_FirstChunk si + word_of_nat (length (si_Chunks si)) = word_of_nat (length (pl_raws L))"
    using list_all2_lengthD [OF c(3)] raws(1,2) by (simp add: same news)
  have l: "length (pl_raws L) < 2 ^ 64"
    using r raws(3) by (auto simp: raws_of_def dest: list_all2_lengthD)
  have "list_all (chunk_ok (length (si_Packs si))) (si_Chunks si)"
    using c(3) unfolding lp list_all2_conv_all_nth list_all_length by (auto simp: chunk_stored_def)
  moreover have "list_all (file_ok (si_FirstChunk si + word_of_nat (length (si_Chunks si)))) (si_Files si)"
    using recorded_refs [OF files l] m unfolding count si_Marshal_Ok_conv by (auto simp: file_ok_def list_all_iff)
  moreover have "list_all ValidEntryName (si_Deleted si)" using m(2) by (simp add: si_Marshal_Ok_conv)
  ultimately have "index_ok si" by (simp add: index_ok_def same(1) sw0(3))
  then show ?thesis
    using p c(3-5) r en m(2) same by (intro exI [of _ locs]) (auto simp: session_part_def index_entry_def news raws(1) Let_def)
qed

lemma writeSession_part:
  assumes lib: "chunk_lib P Z" and H: "hash_resumes P H"
    and run: "writeSession P Z H K fs lower procs now ia changed deleted compression allowEmpty (aw, rnd) = Val (res, True, sw)"
    and keys: "aw_keys aw = ia_keys ia" "ChunkIDKey P (ia_keys ia) = Ok idKey" "GearTable P (ia_keys ia) = Ok gear"
    and olds: "raws_of P idKey olds (ia_chunks ia)"
    and C: "tells_apart P idKey C" "set olds \<subseteq> C" "chunks_within fs gear C (map cf_in changed)"
    and bounds: "length (ia_chunks ia) < 2 ^ 62" "ia_sessions ia + 1 \<noteq> 0"
    and base: "follows P (aw_hasher aw) base" "aw_offset aw = length base"
  shows "\<exists>s contents news locs st cp archived failed. session_part P Z idKey ia (length base) olds s contents news locs \<and> set news \<subseteq> C
    \<and> si_Deleted (sp_index s) = deleted
    \<and> mset archived + mset failed = mset (map cf_in changed) \<and> list_all2 (recorded fs (olds @ news)) archived (si_Files (sp_index s))
    \<and> ir_Changed res = length archived \<and> ir_Failed res = length failed \<and> map fst (sw_errors sw) = map in_path failed
    \<and> (let t = cp @ [EntryTypeEnd] @ sha256 P (masked (base @ sp_bytes s @ cp @ [EntryTypeEnd])) @ replicate ReservedSize 0 in
       aw_out (sw_aw sw) = aw_out aw @ sp_bytes s @ t \<and> checkpoint_tail (length base + length (packs_bytes s)) st t
       \<and> (\<exists>c. ResumeArchiveChecksum H st = Ok c \<and> follows P c (base @ sp_bytes s)))
    \<and> aw_offset (sw_aw sw) + FooterSize = length base + length (sp_bytes s) + TailSize"
proof -
  obtain sw0 s' where new: "newSessionWriter P Z procs now ia compression (aw, rnd) = (Val sw0, s')"
    and body: "session_body P Z H K fs lower changed deleted allowEmpty
       (empty_result\<lparr>ir_Session := ia_sessions ia + 1, ir_Deleted := length deleted\<rparr>) sw0 = (Val (res, True, sw), sw)"
    using run by (rule writeSession_Val)
  note sw0 = newSessionWriter_state [OF new keys(2,3)]
  obtain res1 sw1 sw2 pt en aw3 rnd' aw4 aw5 where b:
    "record_files P Z K fs lower changed (empty_result\<lparr>ir_Session := ia_sessions ia + 1, ir_Deleted := length deleted\<rparr>) sw0 = (Val res1, sw1)"
    "closePack P Z K sw1 = (Val (), sw2)"
    "si_Marshal ((sw_index sw2)\<lparr>si_Deleted := deleted\<rparr>) = Ok pt"
    "sealPayloadEntry P Z EntryTypeIndex CodecNone pt pt (sw_aw sw2, sw_rnd sw2) = (Val en, (aw3, rnd'))"
    "WriteFileEntry K en aw3 = Ok aw4" "WriteCheckpointFooter P H K (aw_offset aw3) aw4 = Ok aw5"
    "sw = sw2\<lparr>sw_index := (sw_index sw2)\<lparr>si_Deleted := deleted\<rparr>, sw_aw := aw5, sw_rnd := rnd'\<rparr>"
    "res = res1\<lparr>ir_NewChunks := length (si_Chunks (sw_index sw2))\<rparr>"
    using body by (rule session_body_written)
  let ?L = "\<lparr>pl_entries = [], pl_open = [], pl_contents = [], pl_raws = olds\<rparr>"
  have inv: "session_inv P Z sw0 ?L sw0" by (rule session_start_inv [OF new keys(2,3) olds])
  have lo: "length olds = length (ia_chunks ia)" using olds by (auto simp: raws_of_def dest: list_all2_lengthD)
  have z: "ir_Changed (empty_result\<lparr>ir_Session := ia_sessions ia + 1, ir_Deleted := length deleted\<rparr>) = 0"
      "ir_Failed (empty_result\<lparr>ir_Session := ia_sessions ia + 1, ir_Deleted := length deleted\<rparr>) = 0"
    by (simp_all add: empty_result_def)
  obtain L news archived failed where e: "same_session sw0 sw2" "packs_ok P Z sw0 L sw2" "chunks_ok P Z sw0 L sw2" "sw_pack sw2 = None"
      "chunk_count sw2 < 2 ^ 63" "pl_raws L = olds @ news" "set news \<subseteq> C"
      "mset archived + mset failed = mset (map cf_in changed)"
      "list_all2 (recorded fs (pl_raws L)) archived (si_Files (sw_index sw2))"
      "map fst (sw_errors sw2) = map in_path failed" "ir_Changed res1 = length archived" "ir_Failed res1 = length failed"
    using session_end [OF lib b(1-3) inv _ _ _ _ _ _ _ _ z, of C] sw0 C bounds(1) by auto
  have w: "wrote (concat (map entry_bytes (pl_entries L))) aw (sw_aw sw2)"
    using e(2,4) sw0 by (auto simp: packs_ok_def)
  have lib': "lib_ok P Z" "digest_sizes P" using lib by (simp_all add: chunk_lib_def lib_ok_def)
  obtain k where en: "aw3 = sw_aw sw2" "fe_EntryType en = EntryTypeIndex" "FileKey P (ia_keys ia) (fe_EntrySalt en) = Ok k"
      "sealed_as P Z k (payload_metadata CodecNone pt) CodecNone pt pt en"
    using sealPayloadEntry_sealed [OF lib'(1) b(4)] wrote_fields(3) [OF w] keys(1) by auto
  define s where "s = \<lparr>sp_packs = pl_entries L, sp_index = (sw_index sw2)\<lparr>si_Deleted := deleted\<rparr>, sp_entry = en\<rparr>"
  obtain locs where part: "session_part P Z (sw_idKey sw0) ia (aw_offset (sw_aw sw0)) olds s (pl_contents L) news locs"
    unfolding s_def
    using session_end_part [OF e(2,3,1,4) _ _ bounds(2) _ _ _ e(6) lo e(5,9) refl b(3) en(2-4)] sw0 keys(1) by auto
  have wp: "wrote (packs_bytes s) aw (sw_aw sw2)" using w by (simp add: packs_bytes_def s_def)
  have ws: "wrote (sp_bytes s) aw aw4"
    using wrote_seq [OF wp wrote_entry [OF b(5) [unfolded en(1)]]] by (simp add: sp_bytes_def s_def)
  have off: "aw_offset (sw_aw sw2) = length base + length (packs_bytes s)" "aw_offset aw4 = length base + length (sp_bytes s)"
    using wrote_fields [OF wp] wrote_fields [OF ws] base(2) by simp_all
  note f = wrote_follows [OF ws base(1)]
  obtain cp state where cp: "ac_MarshalBinary H (aw_hasher aw4) = Ok state" "length cp = CheckpointSize"
     "ParseCheckpoint cp = Ok \<lparr>cp_LastIndex = word_of_nat (length base + length (packs_bytes s)), cp_HashState = state\<rparr>"
     "aw_out aw5 = aw_out aw4 @ cp @ [EntryTypeEnd] @ sha256 P (masked ((base @ sp_bytes s) @ cp @ [EntryTypeEnd])) @ replicate ReservedSize 0"
    using WriteCheckpointFooter_Ok [OF b(6) lib'(2) f] unfolding en(1) off by blast
  define t where "t = cp @ [EntryTypeEnd] @ sha256 P (masked (base @ sp_bytes s @ cp @ [EntryTypeEnd])) @ replicate ReservedSize 0"
  have out: "aw_out (sw_aw sw) = aw_out aw @ sp_bytes s @ t" using cp(4) wrote_fields(1) [OF ws] b(7) by (simp add: t_def)
  have tail: "checkpoint_tail (length base + length (packs_bytes s)) state t"
    using cp(2,3) lib'(2) unfolding checkpoint_tail_def
    by - (rule exI [of _ cp], rule exI [of _ "sha256 P (masked (base @ sp_bytes s @ cp @ [EntryTypeEnd]))"],
      simp add: t_def digest_sizes_def HMACSize_def)
  have resume: "\<exists>c. ResumeArchiveChecksum H state = Ok c \<and> follows P c (base @ sp_bytes s)"
    by (rule follows_resume [OF H f cp(1)])
  have over: "aw_offset (sw_aw sw) + FooterSize = length base + length (sp_bytes s) + TailSize"
    using WriteCheckpointFooter_offset [OF b(6)] off(2) b(7) by simp
  have "session_part P Z idKey ia (length base) olds s (pl_contents L) news locs" using part sw0 base(2) by simp
  then show ?thesis
    using e out tail resume over b(7,8)
    by - (rule exI [of _ s], rule exI [of _ "pl_contents L"], rule exI [of _ news], rule exI [of _ locs], rule exI [of _ state],
      rule exI [of _ cp], rule exI [of _ archived], rule exI [of _ failed], simp add: s_def t_def)
qed

end
