(* ===== verification/Update_Safety.thy ===== *)
theory Update_Safety
  imports Incremental_Update Session_Packs
begin

text \<open>
  An update that fails leaves the archive as it was (\<^verbatim>\<open>appendSession\<close> of \<^verbatim>\<open>io/incremental_write.go\<close>), whatever
  was written before the failure.
\<close>

section \<open>Calls on the file\<close>

definition call_failed :: "archiveFile \<Rightarrow> bool" where
  "call_failed f \<longleftrightarrow> af_log f \<noteq> [] \<and> snd (last (af_log f)) \<noteq> None"

lemma f_call_cases:
  assumes "f_call D wrap c f = (r, f')"
  obtains "r = Val ()" "af_bytes f' = af_bytes f" "\<not> call_failed f'"
  | e where "r = Fail e" "af_bytes f' = af_bytes f" "call_failed f'"
  using assms by (auto simp: f_call_def Let_def call_failed_def split: option.splits)

lemma f_WriteAt_cases:
  assumes "f_WriteAt D wrap p off f = (r, f')"
  obtains "r = Val ()" "af_bytes f' = overwrite (af_bytes f) p off" "\<not> call_failed f'"
  | e where "r = Fail e" "call_failed f'"
  using assms by (auto simp: f_WriteAt_def Let_def call_failed_def split: option.splits)

lemma truncateAndSync_cases:
  assumes "truncateAndSync D n f = (r, f')"
  obtains "r = Val ()" "af_bytes f' = take n (af_bytes f) @ replicate (n - length (af_bytes f)) 0" "\<not> call_failed f'"
  | e where "r = Fail e" "call_failed f'"
      "af_bytes f' = af_bytes f \<or> af_bytes f' = take n (af_bytes f) @ replicate (n - length (af_bytes f)) 0"
proof -
  obtain r1 f1 where t: "f_call D (writeFailed ''truncate archive'') (FTruncate n) f = (r1, f1)" by force
  let ?f = "f1\<lparr>af_bytes := take n (af_bytes f1) @ replicate (n - length (af_bytes f1)) 0\<rparr>"
  obtain r2 f2 where s: "f_call D (writeFailed ''sync archive'') FSync ?f = (r2, f2)" by force
  from t show thesis
  proof (cases rule: f_call_cases)
    case 1
    then have run: "r = r2" "f' = f2" using assms t s by (simp_all add: truncateAndSync_def f_Truncate_def bindS_def updateS_def split: outcome.splits)
    from s show thesis by (cases rule: f_call_cases) (use 1 run that in auto)
  next
    case (2 e)
    then have "r = Fail e" "f' = f1" using assms t by (simp_all add: truncateAndSync_def f_Truncate_def bindS_def)
    with 2 that show thesis by blast
  qed
qed

lemma restoreTail_cases:
  assumes run: "restoreTail D (drop tail b) tail (length b) f = (r, f')" and t: "tail \<le> length b"
    and f: "take tail (af_bytes f) = take tail b" "tail \<le> length (af_bytes f)"
  obtains "r = Val ()" "af_bytes f' = b" "\<not> call_failed f'"
  | e where "r = Fail e" "call_failed f'"
proof -
  obtain r1 f1 where w: "f_WriteAt D (writeFailed ''restore archive tail'') (drop tail b) tail f = (r1, f1)" by force
  obtain r2 f2 where s: "truncateAndSync D (length b) f1 = (r2, f2)" by force
  from w show thesis
  proof (cases rule: f_WriteAt_cases)
    case 1
    then have run: "r = r2" "f' = f2" using assms w s by (simp_all add: restoreTail_def bindS_def)
    have "take (length b) (af_bytes f1) = b" "length b \<le> length (af_bytes f1)"
      using 1 f t by (simp_all add: overwrite_def)
    from s this show thesis by (cases rule: truncateAndSync_cases) (use run that in auto)
  next
    case (2 e)
    then have "r = Fail e" "f' = f1" using assms w by (simp_all add: restoreTail_def bindS_def)
    with 2 that show thesis by blast
  qed
qed

lemma overwrite_keeps: "tail \<le> length b \<Longrightarrow> take tail (overwrite b x tail) = take tail b \<and> tail \<le> length (overwrite b x tail)"
  by (simp add: overwrite_def)

text \<open>A session that is undone: whatever was put behind the old tail before.\<close>

lemma undone:
  assumes "bindS (restoreTail D (drop tail b) tail (length b)) (\<lambda>_. m) f = (r, f')"
    and "tail \<le> length b" and "take tail (af_bytes f) = take tail b \<and> tail \<le> length (af_bytes f)"
    and m: "\<And>f. snd (m f) = f" and "\<not> call_failed f'"
  shows "af_bytes f' = b"
proof -
  obtain r1 f1 where t: "restoreTail D (drop tail b) tail (length b) f = (r1, f1)" by force
  from t assms(2) conjunct1 [OF assms(3)] conjunct2 [OF assms(3)] show ?thesis
  proof (cases rule: restoreTail_cases)
    case 1
    then have "f' = f1" using assms(1) m [of f1] t by (simp add: bindS_def)
    with 1 show ?thesis by simp
  next
    case (2 e)
    then have "f' = f1" using assms(1) t by (simp add: bindS_def)
    with 2 assms(5) show ?thesis by simp
  qed
qed

section \<open>What a session leaves\<close>

lemma sealSession_cases:
  assumes "sealSession P D ia n rnd f = (r, f')"
  shows "r = Val () \<or> r = Crash \<or> (\<exists>e. r = Fail e \<and> (call_failed f' \<or> (\<exists>e'. e = writeFailed ''seal session count'' e')))"
  using assms
  by (auto simp: sealSession_def bindS_def callS_def split: res.splits outcome.splits prod.splits elim!: f_WriteAt_cases f_call_cases)

text \<open>A complete session: it is undone when its end cannot be made durable.\<close>

lemma end_undone:
  assumes run: "bindS (catchS (truncateAndSync D n') (\<lambda>e. bindS (restoreTail D (drop tail b) tail (length b)) (\<lambda>_. failS e)))
      (\<lambda>_. bindS (sealSession P D ia n rnd) (\<lambda>_. returnS (x, Some y))) f = (r, f')"
    and tail: "tail \<le> length b" "tail \<le> n'" and f: "take tail (af_bytes f) = take tail b \<and> tail \<le> length (af_bytes f)"
    and none: "\<forall>x y. r \<noteq> Val (x, Some y)" "r \<noteq> Crash" "\<forall>e. r \<noteq> Fail (writeFailed ''seal session count'' e)"
    and last: "\<not> call_failed f'"
  shows "af_bytes f' = b"
proof -
  obtain r3 f3 where tr: "truncateAndSync D n' f = (r3, f3)" by (rule prod.exhaust)
  from tr show ?thesis
  proof (cases rule: truncateAndSync_cases)
    case ok: 1
    obtain r4 f4 where sl: "sealSession P D ia n rnd f3 = (r4, f4)" by (rule prod.exhaust)
    have "r = (case r4 of Val _ \<Rightarrow> Val (x, Some y) | Fail e \<Rightarrow> Fail e | Crash \<Rightarrow> Crash)" "f' = f4"
      using run tr ok(1) sl by (auto simp: bindS_def catchS_def returnS_def split: outcome.splits)
    with sealSession_cases [OF sl] none last show ?thesis by auto
  next
    case (2 e)
    have kept: "take tail (af_bytes f3) = take tail b \<and> tail \<le> length (af_bytes f3)"
      using 2(3) f tail by (auto simp: min_absorb1)
    obtain rt ft where rt: "restoreTail D (drop tail b) tail (length b) f3 = (rt, ft)" by (rule prod.exhaust)
    have undo: "bindS (restoreTail D (drop tail b) tail (length b)) (\<lambda>_. failS e) f3 = (r, f')"
      using run tr 2(1) rt by (cases rt) (simp_all add: bindS_def catchS_def failS_def)
    show ?thesis by (rule undone [OF undo tail(1) kept _ last]) (simp add: failS_def)
  qed
qed

text \<open>Before the session nothing is changed.\<close>

lemma session_start:
  assumes "tail \<le> length (af_bytes f)"
    and "bindS (f_ReadAt D w (length (af_bytes f) - tail) tail) (\<lambda>oldTail. bindS (f_call D w' c) (\<lambda>_. m oldTail)) f = (r, f')"
  obtains "af_bytes f' = af_bytes f"
  | f2 where "af_bytes f2 = af_bytes f" "m (drop tail (af_bytes f)) f2 = (r, f')"
proof -
  obtain r1 f1 where a: "f_call D w (FReadAt (length (af_bytes f) - tail) tail) f = (r1, f1)" by (rule prod.exhaust)
  from a show thesis
  proof (cases rule: f_call_cases)
    case (2 e)
    then have "f' = f1" using assms(2) a by (simp add: f_ReadAt_def bindS_def)
    with 2 that(1) show thesis by simp
  next
    case r1: 1
    have rd: "f_ReadAt D w (length (af_bytes f) - tail) tail f = (Val (drop tail (af_bytes f)), f1)"
      using a r1 assms(1) by (simp add: f_ReadAt_def bindS_def withS_def orFail_def ReadAt_def f_stream_def)
    obtain r2 f2 where s: "f_call D w' c f1 = (r2, f2)" by (rule prod.exhaust)
    from s show thesis
    proof (cases rule: f_call_cases)
      case 1
      then have "m (drop tail (af_bytes f)) f2 = (r, f')" using assms(2) rd s by (simp add: bindS_def)
      with 1 r1 that(2) show thesis by simp
    next
      case (2 e)
      then have "f' = f2" using assms(2) rd s by (simp add: bindS_def)
      with 2 r1 that(1) show thesis by simp
    qed
  qed
qed

text \<open>
  C10: a failed update is undone.  When \<^verbatim>\<open>appendSession\<close> gives up without reporting a session --- because a
  file or the archive cannot be read, the output refuses data in the middle of the session, nothing could be
  recorded, or the new end cannot be made durable --- the archive file has exactly the bytes it had before,
  whatever the session had written by then, unless the last call on the file failed too.  The one
  exception is a session count that cannot be sealed, when the session stays.
\<close>

theorem failed_update_restores:
  assumes run: "appendSession P Z H K D fs lower procs now ia changed deleted compression res (length (af_bytes f)) rnd f = (r, f')"
    and tail: "ia_tail ia \<le> length (af_bytes f)"
    and none: "\<forall>x y. r \<noteq> Val (x, Some y)" "r \<noteq> Crash" "\<forall>e. r \<noteq> Fail (writeFailed ''seal session count'' e)"
    and last: "\<not> call_failed f'"
  shows "af_bytes f' = af_bytes f"
proof -
  let ?b = "af_bytes f" and ?t = "ia_tail ia" and ?n = "length (af_bytes f)"
  from tail run [unfolded appendSession_def Let_def] show ?thesis
  proof (rule session_start)
    fix f2 assume fb: "af_bytes f2 = ?b" and rest: "bindS (callS (\<lambda>e. fatal ErrCodeIntegrityFail ''resume archive'' (Some e))
        (ResumeArchiveWriter H (ia_keys ia) ?t (state_of ia))) (\<lambda>aw.
      case writeSession P Z H K fs lower procs now ia changed deleted compression False (aw, rnd) of
        Val (sr, written, sw) \<Rightarrow>
          if \<not> written then
            bindS (f_spilled D ?t) (\<lambda>_. bindS (restoreTail D (drop ?t ?b) ?t ?n) (\<lambda>_.
            returnS (res\<lparr>ir_Failed := ir_Failed sr\<rparr>, None)))
          else
            bindS (f_written (aw_out (sw_aw sw)) ?t) (\<lambda>_.
            bindS (catchS (truncateAndSync D (aw_offset (sw_aw sw) + FooterSize))
              (\<lambda>e. bindS (restoreTail D (drop ?t ?b) ?t ?n) (\<lambda>_. failS e))) (\<lambda>_.
            bindS (sealSession P D ia (ir_Session sr) (sw_rnd sw)) (\<lambda>_.
            returnS (sr\<lparr>ir_Unchanged := ir_Unchanged res, ir_Repaired := ir_Repaired res,
                ir_AppendedBytes := int (aw_offset (sw_aw sw) + FooterSize) - int (?t + TailSize)\<rparr>,
              Some (aw_checksum (sw_aw sw), aw_offset (sw_aw sw) + FooterSize)))))
      | Fail e \<Rightarrow> bindS (f_spilled D ?t) (\<lambda>_. bindS (restoreTail D (drop ?t ?b) ?t ?n) (\<lambda>_. failS e))
      | Crash \<Rightarrow> bindS (f_spilled D ?t) (\<lambda>_ f. (Crash, f))) f2 = (r, f')"
    define kept where "kept = (\<lambda>x. f2\<lparr>af_bytes := overwrite ?b x ?t\<rparr>)"
    have k: "take ?t (af_bytes (kept x)) = take ?t ?b \<and> ?t \<le> length (af_bytes (kept x))" for x
      using overwrite_keeps [OF tail] by (simp add: kept_def)
    note ops = bindS_def callS_def f_spilled_def f_written_def updateS_def kept_def fb
    show ?thesis
    proof (cases "ResumeArchiveWriter H (ia_keys ia) ?t (state_of ia)")
      case (Ok aw)
      show ?thesis
      proof (cases "writeSession P Z H K fs lower procs now ia changed deleted compression False (aw, rnd)")
        case (Fail e)
        then have undo: "bindS (restoreTail D (drop ?t ?b) ?t ?n) (\<lambda>_. failS e) (kept (dv_spill D (af_log f2))) = (r, f')"
          using rest Ok by (simp add: ops)
        show ?thesis by (rule undone [OF undo tail k _ last]) (simp add: failS_def)
      next
        case Crash
        with rest Ok none(2) show ?thesis by (simp add: ops)
      next
        case (Val x)
        obtain sr w sw where x: "x = (sr, w, sw)" by (rule prod_cases3)
        have grown: "?t \<le> aw_offset (sw_aw sw) + FooterSize"
          using writeSession_grows [OF Val [unfolded x]] Ok
          by (auto simp: ResumeArchiveWriter_def bindR_Ok_conv newArchiveWriter_def)
        show ?thesis
        proof (cases w)
          case False
          then have undo: "bindS (restoreTail D (drop ?t ?b) ?t ?n) (\<lambda>_. returnS (res\<lparr>ir_Failed := ir_Failed sr\<rparr>, None))
              (kept (dv_spill D (af_log f2))) = (r, f')"
            using rest Ok Val by (simp add: ops x)
          show ?thesis by (rule undone [OF undo tail k _ last]) (simp add: returnS_def)
        next
          case True
          then have "bindS (catchS (truncateAndSync D (aw_offset (sw_aw sw) + FooterSize))
              (\<lambda>e. bindS (restoreTail D (drop ?t ?b) ?t ?n) (\<lambda>_. failS e))) (\<lambda>_.
            bindS (sealSession P D ia (ir_Session sr) (sw_rnd sw)) (\<lambda>_.
            returnS (sr\<lparr>ir_Unchanged := ir_Unchanged res, ir_Repaired := ir_Repaired res,
                ir_AppendedBytes := int (aw_offset (sw_aw sw) + FooterSize) - int (?t + TailSize)\<rparr>,
              Some (aw_checksum (sw_aw sw), aw_offset (sw_aw sw) + FooterSize)))) (kept (aw_out (sw_aw sw))) = (r, f')"
            using rest Ok Val unfolding x by (subst (asm) bindS_def) (simp add: callS_def, subst (asm) bindS_def, simp add: f_written_def updateS_def kept_def fb)
          then show ?thesis by (rule end_undone [OF _ tail grown k none last])
        qed
      qed
    qed (use rest fb in \<open>auto simp: ops\<close>)
  qed simp
qed

end
