(* ===== verification/Session_Append.thy ===== *)
theory Session_Append
  imports Session_Roundtrip Update_Safety
begin

text \<open>
  The life of an incremental archive file: the state it loads to, and how an update changes it.
\<close>

section \<open>The header\<close>

lemma header_split: "header_bytes Version2 block sealed flags = (Magic @ le16 Version2 @ size32 block @ block) @ sealed @ flags # replicate (ReservedSize - 1) 0"
  by (simp add: header_bytes_def)

lemma header_prefix:
  assumes "length block \<le> MaxRecipientBlockSize"
  shows "headerPrefixLen \<le> length (Magic @ le16 Version2 @ size32 block @ block)" "v2_header (Magic @ le16 Version2 @ size32 block @ block)"
    "count_off (Magic @ le16 Version2 @ size32 block @ block) = length (Magic @ le16 Version2 @ size32 block @ block)"
proof -
  have l: "length block < 2 ^ 32" using assms by (simp add: MaxRecipientBlockSize_def)
  have m: "length Magic = 4" by (simp add: Magic_def)
  have v: "(word_le 2 (le16 Version2 @ r) :: u16) = Version2" for r using word_le_enc [of 2 Version2 r] by (simp add: le16_def)
  have s: "unat (word_le 4 (size32 block @ block) :: u32) = length block"
  proof -
    have "word_le 4 (size32 block @ block) = (word_le 4 (size32 block) :: u32)" by (rule word_le_prefix) simp
    with size32_dec [OF l] show ?thesis by simp
  qed
  show p: "headerPrefixLen \<le> length (Magic @ le16 Version2 @ size32 block @ block)" by (simp add: headerPrefixLen_def m)
  show "v2_header (Magic @ le16 Version2 @ size32 block @ block)"
    using p assms by (simp add: v2_header_def m v s)
  show "count_off (Magic @ le16 Version2 @ size32 block @ block) = length (Magic @ le16 Version2 @ size32 block @ block)"
    by (simp add: count_off_def m s headerPrefixLen_def)
qed

lemma header_layout:
  assumes "length block \<le> MaxRecipientBlockSize" and "length sealed = FileCountSealedSize"
  shows "layout_known (header_bytes Version2 block sealed flags)"
proof -
  note p = header_prefix [OF assms(1)]
  show ?thesis
    unfolding header_split layout_known_def using p assms(2) by (simp add: v2_header_append [OF p(1)] del: append_assoc)
qed

lemma masked_resealed:
  assumes "length block \<le> MaxRecipientBlockSize" and "length sealed = FileCountSealedSize" "length sealed' = FileCountSealedSize"
    and "flags AND HeaderFlagIncremental \<noteq> 0"
  shows "masked (header_bytes Version2 block sealed flags @ r) = masked (header_bytes Version2 block sealed' flags @ r)"
proof -
  note p = header_prefix [OF assms(1)]
  show ?thesis unfolding header_split using masked_count_irrelevant [OF p(1,3) assms(2,3) p(2) assms(4)] by simp
qed

lemma follows_resealed:
  assumes "length block \<le> MaxRecipientBlockSize" and "length sealed = FileCountSealedSize" "length sealed' = FileCountSealedSize"
    and "flags AND HeaderFlagIncremental \<noteq> 0" and "follows P c (header_bytes Version2 block sealed flags @ r)"
  shows "follows P c (header_bytes Version2 block sealed' flags @ r)"
proof -
  have "masked (header_bytes Version2 block sealed flags @ r) = masked (header_bytes Version2 block sealed' flags @ r)"
    by (rule masked_resealed [OF assms(1-4)])
  moreover have "layout_known (header_bytes Version2 block sealed' flags @ r)"
    by (rule layout_known_append [OF header_layout [OF assms(1,3)]])
  ultimately show ?thesis using assms(5) by (simp add: follows_def)
qed

section \<open>An incremental archive file\<close>

text \<open>
  What an incremental archive file holds: its key, the recipient block and the rest of the header, the
  sessions, newest first, the content of the chunks, their locations, the files, and the checkpoint.
\<close>

record incrementalFile =
  if_cek :: bytes
  if_block :: bytes
  if_count :: bytes
  if_flags :: byte
  if_sealed :: u64
  if_log :: "sessionPart list"
  if_raws :: "bytes list"
  if_chunks :: "chunkLocation list"
  if_files :: "(bytes \<times> FileVersion) list"
  if_state :: bytes
  if_checkpoint :: bytes

definition if_keys :: "incrementalFile \<Rightarrow> KeySchedule" where
  "if_keys g = NewVersion2KeySchedule (if_cek g)"

definition if_header :: "incrementalFile \<Rightarrow> headerInfo" where
  "if_header g = \<lparr>hi_flags = if_flags g, hi_sealedCount = if_sealed g, hi_recipientBlockLen = length (if_block g)\<rparr>"

definition if_base :: "incrementalFile \<Rightarrow> bytes" where
  "if_base g = header_bytes Version2 (if_block g) (if_count g) (if_flags g) @ log_bytes (if_log g)"

definition if_tail :: "prims \<Rightarrow> incrementalFile \<Rightarrow> bytes" where
  "if_tail P g = if_checkpoint g @ [EntryTypeEnd] @ sha256 P (masked (if_base g @ if_checkpoint g @ [EntryTypeEnd])) @ replicate ReservedSize 0"

definition if_bytes :: "prims \<Rightarrow> incrementalFile \<Rightarrow> bytes" where
  "if_bytes P g = if_base g @ if_tail P g"

definition if_archive :: "incrementalFile \<Rightarrow> incrementalArchive" where
  "if_archive g = log_archive (if_keys g) (if_header g) (if_log g) (if_state g) (if_chunks g) (if_files g)"

abbreviation if_end :: "incrementalFile \<Rightarrow> nat" where "if_end g \<equiv> header_end (if_header g)"

text \<open>
  The file is sound: the count that the header seals opens to at most the number of sessions, the sessions
  apply in order, the chunks have the content they are named for, the files refer only to chunks that exist,
  and the tail names the newest index and carries the state of the checksum.
\<close>

definition header_ok :: "prims \<Rightarrow> incrementalFile \<Rightarrow> bool" where
  "header_ok P g \<longleftrightarrow> length (if_block g) \<le> MaxRecipientBlockSize \<and> length (if_count g) = FileCountSealedSize
     \<and> if_flags g AND HeaderFlagIncremental \<noteq> 0 \<and> openFileCount P (if_keys g) (if_count g) = Ok (if_sealed g)"

definition sessions_ok :: "prims \<Rightarrow> zstd \<Rightarrow> incrementalFile \<Rightarrow> bool" where
  "sessions_ok P Z g \<longleftrightarrow> log_ok P Z (if_keys g) (if_end g) (if_log g)
     \<and> log_state (if_end g) (if_log g) (if_chunks g) (if_files g)
     \<and> (\<exists>idKey. ChunkIDKey P (if_keys g) = Ok idKey \<and> raws_of P idKey (if_raws g) (if_chunks g))
     \<and> list_all (\<lambda>(n, f). list_all (\<lambda>i. unat i < length (if_raws g)) (fv_Chunks f)) (if_files g)"

definition tail_ok :: "prims \<Rightarrow> hash_codec \<Rightarrow> incrementalFile \<Rightarrow> bool" where
  "tail_ok P H g \<longleftrightarrow> if_log g \<noteq> [] \<and> if_sealed g \<le> word_of_nat (length (if_log g)) \<and> checkpoint_tail (last_index (if_end g) (if_log g)) (if_state g) (if_tail P g)
     \<and> (\<exists>c. ResumeArchiveChecksum H (if_state g) = Ok c \<and> follows P c (if_base g))"

definition file_sound :: "prims \<Rightarrow> zstd \<Rightarrow> hash_codec \<Rightarrow> incrementalFile \<Rightarrow> bool" where
  "file_sound P Z H g \<longleftrightarrow> header_ok P g \<and> sessions_ok P Z g \<and> tail_ok P H g \<and> length (if_bytes P g) < 2 ^ 63"

lemma if_header_length: "header_ok P g \<Longrightarrow> length (header_bytes Version2 (if_block g) (if_count g) (if_flags g)) = if_end g"
  by (simp add: header_ok_def header_bytes_def header_end_def if_header_def FileCountOffset_def Magic_def ReservedSize_def)

lemma if_lengths:
  assumes "file_sound P Z H g"
  shows "length (if_base g) = ia_tail (if_archive g)" "length (if_bytes P g) = ia_tail (if_archive g) + TailSize"
  using assms if_header_length [of P g] checkpoint_tail_length [of _ _ "if_tail P g"]
  by (auto simp: file_sound_def if_bytes_def if_base_def if_archive_def log_archive_def tail_ok_def)

text \<open>A sound file loads, whatever follows it.\<close>

lemma sound_loads:
  assumes g: "file_sound P Z H g" and lib: "lib_ok P Z"
  shows "loadIncremental P Z (Stream (if_bytes P g @ r) e) (length (if_bytes P g)) (if_keys g) (if_header g) = Val (if_archive g)"
  unfolding if_archive_def
proof (rule load_log [where hdr = "header_bytes Version2 (if_block g) (if_count g) (if_flags g)" and t = "if_tail P g" and post = r])
  show "log_ok P Z (if_keys g) (if_end g) (if_log g)" "log_state (if_end g) (if_log g) (if_chunks g) (if_files g)"
    using g by (simp_all add: file_sound_def sessions_ok_def)
  show "if_log g \<noteq> []" "hi_sealedCount (if_header g) \<le> word_of_nat (length (if_log g))" "checkpoint_tail (last_index (if_end g) (if_log g)) (if_state g) (if_tail P g)"
    using g by (simp_all add: file_sound_def tail_ok_def if_header_def)
  show "length (header_bytes Version2 (if_block g) (if_count g) (if_flags g)) = if_end g"
    using g unfolding file_sound_def by (blast intro: if_header_length)
  then show "length (if_bytes P g) = if_end g + length (log_bytes (if_log g)) + TailSize"
    using if_lengths [OF g] by (simp add: if_archive_def log_archive_def)
  show "length (if_bytes P g) < 2 ^ 63" using g by (simp add: file_sound_def)
qed (simp_all add: lib if_keys_def NewVersion2KeySchedule_def if_bytes_def if_base_def)

text \<open>Its header is read by everyone who can open the recipient block.\<close>

lemma sound_header:
  assumes "file_sound P Z H g" and "OpenRecipientBlock P A (if_block g) u = Ok (if_cek g)"
  shows "readHeader P A u (Stream (if_bytes P g @ r) e) = (Val (if_keys g, if_header g), Stream (log_bytes (if_log g) @ if_tail P g @ r) e)"
  using header_reads [OF assms(2), of "if_count g" "if_sealed g" "if_flags g"] assms(1)
  by (simp add: file_sound_def header_ok_def if_keys_def if_bytes_def if_base_def if_header_def)

section \<open>The files of an archive\<close>

text \<open>What an archive holds under each name, and what a session makes of it.\<close>

type_synonym fileView = "bytes \<rightharpoonup> Attributes \<times> bytes"

definition file_view :: "bytes list \<Rightarrow> (bytes \<times> FileVersion) list \<Rightarrow> fileView" where
  "file_view raws fs name = map_option (\<lambda>f. (fv_Attributes f, version_content raws f)) (map_of fs name)"

definition in_content :: "os \<Rightarrow> inputFile \<Rightarrow> bytes" where
  "in_content fs inp = (if in_regular inp then case os_Open fs (in_path inp) of Inr f \<Rightarrow> s_bytes (of_r f) | Inl e \<Rightarrow> [] else [])"

definition view_record :: "os \<Rightarrow> inputFile list \<Rightarrow> fileView \<Rightarrow> fileView" where
  "view_record fs inps m = fold (\<lambda>inp m. m(in_name inp \<mapsto> (in_attrs inp, in_content fs inp))) inps m"

definition view_after :: "os \<Rightarrow> inputFile list \<Rightarrow> bytes list \<Rightarrow> fileView \<Rightarrow> fileView" where
  "view_after fs inps deleted m = view_record fs inps m |` (- set deleted)"

lemma recorded_content: "recorded fs raws inp f \<Longrightarrow> version_content raws f = in_content fs inp"
  by (auto simp: recorded_def in_content_def version_content_def split: if_splits)

lemma view_update:
  assumes "recorded fs raws inp f"
  shows "file_view raws (AList.update (fv_Name f) f vs) = (file_view raws vs)(in_name inp \<mapsto> (in_attrs inp, in_content fs inp))"
proof -
  have "fv_Name f = in_name inp" "fv_Attributes f = in_attrs inp" using assms by (simp_all add: recorded_def)
  with recorded_content [OF assms] show ?thesis by (simp add: file_view_def update_conv' fun_eq_iff)
qed

lemma view_updates:
  assumes "list_all2 (recorded fs raws) inps vs"
  shows "file_view raws (fold (\<lambda>f. AList.update (fv_Name f) f) vs xs) = view_record fs inps (file_view raws xs)"
  using assms by (induction arbitrary: xs rule: list_all2_induct) (simp_all add: view_record_def view_update)

lemma view_deletes: "file_view raws (fold AList.delete deleted xs) = file_view raws xs |` (- set deleted)"
proof (induction deleted arbitrary: xs)
  case (Cons d deleted)
  have "file_view raws (AList.delete d xs) = file_view raws xs |` (- {d})"
    by (auto simp: file_view_def delete_conv' restrict_map_def fun_eq_iff)
  with Cons show ?case by (auto simp: restrict_map_def fun_eq_iff)
qed (simp add: restrict_map_def)

lemma view_session:
  "list_all2 (recorded fs raws) inps vs \<Longrightarrow> file_view raws (new_files vs deleted xs) = view_after fs inps deleted (file_view raws xs)"
  by (simp add: new_files_def view_deletes view_updates view_after_def)

lemma view_extend:
  assumes "list_all (\<lambda>(n, f). list_all (\<lambda>i. unat i < length raws) (fv_Chunks f)) xs"
  shows "file_view (raws @ news) xs = file_view raws xs"
proof
  fix n show "file_view (raws @ news) xs n = file_view raws xs n"
    using assms by (cases "map_of xs n") (auto simp: file_view_def list_all_iff version_content_extend dest!: map_of_SomeD)
qed

section \<open>One more session\<close>

definition add_session :: "sessionPart \<Rightarrow> bytes list \<Rightarrow> chunkLocation list \<Rightarrow> incrementalFile \<Rightarrow> incrementalFile" where
  "add_session s news locs g = g\<lparr>if_log := s # if_log g, if_raws := if_raws g @ news, if_chunks := if_chunks g @ locs,
     if_files := new_files (si_Files (sp_index s)) (si_Deleted (sp_index s)) (if_files g)\<rparr>"

lemma add_session_fields [simp]:
  "if_keys (add_session s news locs g) = if_keys g" "if_header (add_session s news locs g) = if_header g"
  "if_log (add_session s news locs g) = s # if_log g" "if_base (add_session s news locs g) = if_base g @ sp_bytes s"
  "if_raws (add_session s news locs g) = if_raws g @ news" "if_sealed (add_session s news locs g) = if_sealed g"
  "if_files (add_session s news locs g) = new_files (si_Files (sp_index s)) (si_Deleted (sp_index s)) (if_files g)"
  by (simp_all add: add_session_def if_keys_def if_header_def if_base_def)

lemma starts_range: "p \<in> set (starts n bs) \<Longrightarrow> [] \<notin> set bs \<Longrightarrow> n \<le> p \<and> p < n + length (concat bs)"
proof (induction bs arbitrary: n)
  case (Cons b bs)
  have "0 < length b" using Cons.prems(2) by auto
  with Cons.prems Cons.IH [of "n + length b"] show ?case by auto
qed simp

lemma packs_between:
  assumes "hi = n + length (concat (map entry_bytes es))" "hi < 2 ^ 63" "lo \<le> n"
  shows "list_all (\<lambda>p. word_of_nat lo \<le> p \<and> p < word_of_nat hi) (map word_of_nat (starts n (map entry_bytes es)) :: u64 list)"
proof -
  have "word_of_nat lo \<le> (word_of_nat p :: u64) \<and> (word_of_nat p :: u64) < word_of_nat hi" if p: "p \<in> set (starts n (map entry_bytes es))" for p
  proof -
    have "[] \<notin> set (map entry_bytes es)" using entry_bytes_nonempty(1) by (auto dest: sym)
    from starts_range [OF p this] have r: "n \<le> p" "p < hi" by (simp_all add: assms(1))
    with assms(2,3) show ?thesis by (simp add: word_less_nat_alt word_le_nat_alt unat_of_nat)
  qed
  then show ?thesis by (simp add: list_all_iff)
qed

text \<open>A predicate on the versions of an archive.\<close>

lemma update_all: "list_all (\<lambda>(n, f). Q f) xs \<Longrightarrow> Q f \<Longrightarrow> list_all (\<lambda>(n, f). Q f) (AList.update k f xs)"
  by (induction xs) auto

lemma delete_all: "list_all (\<lambda>(n, f). Q f) xs \<Longrightarrow> list_all (\<lambda>(n, f). Q f) (AList.delete k xs)"
  by (auto simp: list_all_iff AList.delete_eq)

lemma new_files_all:
  assumes "list_all (\<lambda>(n, f). Q f) xs" and "list_all Q vs"
  shows "list_all (\<lambda>(n, f). Q f) (new_files vs deleted xs)"
proof -
  have "list_all (\<lambda>(n, f). Q f) (fold (\<lambda>f. AList.update (fv_Name f) f) vs xs)"
    using assms by (induction vs arbitrary: xs) (simp_all add: update_all)
  moreover have "list_all (\<lambda>(n, f). Q f) ys \<Longrightarrow> list_all (\<lambda>(n, f). Q f) (fold AList.delete deleted ys)" for ys
    by (induction deleted arbitrary: ys) (simp_all add: delete_all)
  ultimately show ?thesis by (simp add: new_files_def)
qed

lemma sessions_extend:
  assumes g: "sessions_ok P Z g" and ia: "ia_keys ia = if_keys g" "ia_sessions ia = word_of_nat (length (if_log g))"
      "ia_lastIndex ia = last_index (if_end g) (if_log g)" "ia_chunks ia = if_chunks g"
    and part: "session_part P Z idKey ia (if_end g + length (log_bytes (if_log g))) (if_raws g) s contents news locs"
    and id: "ChunkIDKey P (if_keys g) = Ok idKey"
    and files: "list_all2 (recorded fs (if_raws g @ news)) archived (si_Files (sp_index s))"
    and size': "if_end g + length (log_bytes (s # if_log g)) < 2 ^ 63"
  shows "sessions_ok P Z (add_session s news locs g)"
proof -
  let ?si = "sp_index s" and ?raws = "if_raws g @ news"
  have p: "index_entry P Z (if_keys g) ?si (sp_entry s)" "list_all2 (pack_entry P Z (if_keys g)) contents (sp_packs s)"
      "si_Session ?si = word_of_nat (Suc (length (if_log g)))" "si_PrevIndex ?si = word_of_nat (last_index (if_end g) (if_log g))"
      "si_FirstChunk ?si = word_of_nat (length (if_chunks g))"
      "si_Packs ?si = map word_of_nat (starts (if_end g + length (log_bytes (if_log g))) (map entry_bytes (sp_packs s)))"
      "mapO (chunk_location (si_Packs ?si)) (si_Chunks ?si) = Val locs" "raws_of P idKey ?raws (if_chunks g @ locs)"
    using part unfolding session_part_def Let_def ia by auto
  have log: "log_ok P Z (if_keys g) (if_end g) (s # if_log g)"
    using g p(1-4) by (auto simp: sessions_ok_def list_all2_conv_all_nth list_all_length)
  have "index_at (if_end g) s (if_log g) < 2 ^ 63" using index_at_less(1) [of "if_end g" s "if_log g"] size' by simp
  then have packs: "list_all (\<lambda>p. word_of_nat (if_end g) \<le> p \<and> p < word_of_nat (index_at (if_end g) s (if_log g))) (si_Packs ?si)"
    unfolding p(6) by (intro packs_between) (simp_all add: index_at_def packs_bytes_def)
  have rec: "list_all (\<lambda>i. unat i < length ?raws) (fv_Chunks f) \<and> fv_Size f = word_of_nat (length (version_content ?raws f))"
    if f: "f \<in> set (si_Files ?si)" for f
  proof -
    obtain inp where "recorded fs ?raws inp f" using files f by (metis in_set_conv_nth list_all2_conv_all_nth)
    then show ?thesis by (simp add: recorded_def)
  qed
  have "list_all (\<lambda>f. chunk_total (\<lambda>c. u64_of_u32 (cl_raw c)) (if_chunks g @ locs) (fv_Chunks f) = Val (fv_Size f)) (si_Files ?si)"
    unfolding list_all_iff using rec version_total [OF p(8)] by (simp add: version_content_def)
  then have st: "log_state (if_end g) (s # if_log g) (if_chunks g @ locs) (if_files (add_session s news locs g))"
    using log_state_Cons [OF _ p(5) packs p(7)] g by (simp add: sessions_ok_def)
  have "list_all (\<lambda>(n, f). list_all (\<lambda>i. unat i < length ?raws) (fv_Chunks f)) (if_files g)"
    using g by (fastforce simp: sessions_ok_def list_all_iff)
  moreover have "list_all (\<lambda>f. list_all (\<lambda>i. unat i < length ?raws) (fv_Chunks f)) (si_Files ?si)" using rec by (simp add: list_all_iff)
  ultimately have "list_all (\<lambda>(n, f). list_all (\<lambda>i. unat i < length ?raws) (fv_Chunks f)) (if_files (add_session s news locs g))"
    unfolding add_session_fields by (rule new_files_all)
  with log st p(8) id show ?thesis by (simp add: sessions_ok_def) (simp add: add_session_def)
qed

lemma record_files_session: "record_files P Z K fs lower cs res sw = (Val res', sw') \<Longrightarrow> ir_Session res' = ir_Session res"
proof (induction cs arbitrary: res sw)
  case (Cons c cs)
  from Cons.prems show ?case
    by (auto simp: bindS_Val_conv split_sum_ex split: option.splits if_splits dest!: Cons.IH)
qed (simp add: returnS_def)

lemma writeSession_number:
  assumes "writeSession P Z H K fs lower procs now ia changed deleted compression allowEmpty s = Val (res, w, sw)"
  shows "ir_Session res = ia_sessions ia + 1"
  using assms
proof (rule writeSession_Val)
  fix sw0 s' assume "session_body P Z H K fs lower changed deleted allowEmpty
       (empty_result\<lparr>ir_Session := ia_sessions ia + 1, ir_Deleted := length deleted\<rparr>) sw0 = (Val (res, w, sw), sw)"
  then show ?thesis
    by (auto simp: session_body_def bindS_Val_conv withS_def returnS_def split: if_splits dest!: record_files_session)
qed

text \<open>
  The keyed hash tells apart the chunks that the archive holds and those that the inputs are cut into, under
  the keys of the archive.
\<close>

definition input_chunks :: "os \<Rightarrow> u64 list \<Rightarrow> inputFile list \<Rightarrow> bytes set" where
  "input_chunks fs gear inps =
     (\<Union>inp \<in> set inps. case os_Open fs (in_path inp) of Inr f \<Rightarrow> set (cdc_split gear (s_bytes (of_r f))) | Inl e \<Rightarrow> {})"

definition no_collisions :: "prims \<Rightarrow> KeySchedule \<Rightarrow> os \<Rightarrow> bytes list \<Rightarrow> inputFile list \<Rightarrow> bool" where
  "no_collisions P keys fs raws inps \<longleftrightarrow> (\<forall>idKey gear. ChunkIDKey P keys = Ok idKey \<longrightarrow> GearTable P keys = Ok gear \<longrightarrow>
     tells_apart P idKey (set raws \<union> input_chunks fs gear inps))"

lemma chunks_within_inputs: "chunks_within fs gear (X \<union> input_chunks fs gear inps) inps"
proof -
  have "x \<in> input_chunks fs gear inps"
    if "inp \<in> set inps" "os_Open fs (in_path inp) = Inr f" "x \<in> set (cdc_split gear (s_bytes (of_r f)))" for inp f x
    unfolding input_chunks_def by (rule UN_I [OF that(1)]) (simp add: that)
  then show ?thesis by (auto simp: chunks_within_def)
qed

lemma newSessionWriter_keys:
  "newSessionWriter P Z procs now ia compression s = (Val sw, s') \<Longrightarrow>
     (\<exists>idKey. ChunkIDKey P (ia_keys ia) = Ok idKey) \<and> (\<exists>gear. GearTable P (ia_keys ia) = Ok gear)"
  by (auto simp: newSessionWriter_def bindS_Val_conv callS_Val_conv)

text \<open>The session that was written is one more session of the file, and the file after it is sound.\<close>

definition session_added ::
  "prims \<Rightarrow> os \<Rightarrow> inputFile list \<Rightarrow> bytes list \<Rightarrow> incrementalFile \<Rightarrow> incrementalFile \<Rightarrow> IncrementalResult \<Rightarrow> bool" where
  "session_added P fs inps deleted g g' res \<longleftrightarrow>
     (\<exists>archived failed. mset archived + mset failed = mset inps \<and> ir_Changed res = length archived \<and> ir_Failed res = length failed
        \<and> file_view (if_raws g') (if_files g') = view_after fs archived deleted (file_view (if_raws g) (if_files g)))
     \<and> (\<forall>gear. GearTable P (if_keys g) = Ok gear \<longrightarrow> set (if_raws g') \<subseteq> set (if_raws g) \<union> input_chunks fs gear inps)
     \<and> if_cek g' = if_cek g \<and> if_block g' = if_block g \<and> if_flags g' = if_flags g \<and> tl (if_log g') = if_log g \<and> if_log g' \<noteq> []"

lemma session_written:
  assumes lib: "chunk_lib P Z" and H: "hash_resumes P H"
    and run: "writeSession P Z H K fs lower procs now ia changed deleted compression allowEmpty (aw, rnd) = Val (res, True, sw)"
    and g: "header_ok P g" "sessions_ok P Z g" "if_sealed g \<le> word_of_nat (Suc (length (if_log g)))"
    and ia: "ia_keys ia = if_keys g" "ia_sessions ia = word_of_nat (length (if_log g))"
      "ia_lastIndex ia = last_index (if_end g) (if_log g)" "ia_chunks ia = if_chunks g"
    and aw: "aw_keys aw = if_keys g" "follows P (aw_hasher aw) (if_base g)" "aw_offset aw = length (if_base g)"
    and C: "no_collisions P (if_keys g) fs (if_raws g) (map cf_in changed)"
    and bounds: "length (if_chunks g) < 2 ^ 62" "aw_offset (sw_aw sw) + FooterSize < 2 ^ 63"
  shows "\<exists>g'. sessions_ok P Z g' \<and> tail_ok P H g' \<and> session_added P fs (map cf_in changed) deleted g g' res
    \<and> if_count g' = if_count g \<and> if_sealed g' = if_sealed g
    \<and> aw_out aw @ drop (length (if_base g)) (if_bytes P g') = aw_out (sw_aw sw) \<and> take (length (if_base g)) (if_bytes P g') = if_base g
    \<and> aw_offset (sw_aw sw) + FooterSize = length (if_bytes P g')"
proof -
  let ?log = "if_log g" and ?raws = "if_raws g"
  obtain idKey where id: "ChunkIDKey P (if_keys g) = Ok idKey" "raws_of P idKey ?raws (if_chunks g)"
    using g(2) by (auto simp: sessions_ok_def)
  obtain gear where gear: "GearTable P (if_keys g) = Ok gear"
    using run unfolding ia(1) [symmetric] by (rule writeSession_Val) (blast dest: newSessionWriter_keys)
  define C where "C = set ?raws \<union> input_chunks fs gear (map cf_in changed)"
  have C': "tells_apart P idKey C" "set ?raws \<subseteq> C" "chunks_within fs gear C (map cf_in changed)"
    using C id(1) gear chunks_within_inputs by (auto simp: no_collisions_def C_def)
  have base: "length (if_base g) = if_end g + length (log_bytes ?log)" using if_header_length [OF g(1)] by (simp add: if_base_def)
  have grown: "length (if_base g) \<le> aw_offset (sw_aw sw)" using writeSession_grows [OF run] aw(3) by simp
  have "length ?log < 2 ^ 63" using log_length [of ?log] base grown bounds(2) by simp
  then have "unat (word_of_nat (Suc (length ?log)) :: u64) \<noteq> 0" by (simp add: unat_of_nat del: of_nat_Suc)
  then have "word_of_nat (Suc (length ?log)) \<noteq> (0 :: u64)" by (metis unat_0)
  then have n: "ia_sessions ia + 1 \<noteq> 0" by (simp add: ia(2) add.commute)
  have olds: "raws_of P idKey ?raws (ia_chunks ia)" using id(2) ia(4) by simp
  have keys: "aw_keys aw = ia_keys ia" "ChunkIDKey P (ia_keys ia) = Ok idKey" "GearTable P (ia_keys ia) = Ok gear"
    using aw(1) id(1) gear ia(1) by simp_all
  have lc: "length (ia_chunks ia) < 2 ^ 62" using bounds(1) ia(4) by simp
  obtain s contents news locs st cp archived failed where part: "session_part P Z idKey ia (length (if_base g)) ?raws s contents news locs"
    and sub: "set news \<subseteq> C" and del: "si_Deleted (sp_index s) = deleted"
    and in': "mset archived + mset failed = mset (map cf_in changed)" "list_all2 (recorded fs (?raws @ news)) archived (si_Files (sp_index s))"
      "ir_Changed res = length archived" "ir_Failed res = length failed"
    and t: "let t = cp @ [EntryTypeEnd] @ sha256 P (masked (if_base g @ sp_bytes s @ cp @ [EntryTypeEnd])) @ replicate ReservedSize 0 in
       aw_out (sw_aw sw) = aw_out aw @ sp_bytes s @ t \<and> checkpoint_tail (length (if_base g) + length (packs_bytes s)) st t
       \<and> (\<exists>c. ResumeArchiveChecksum H st = Ok c \<and> follows P c (if_base g @ sp_bytes s))"
    and off: "aw_offset (sw_aw sw) + FooterSize = length (if_base g) + length (sp_bytes s) + TailSize"
    using writeSession_part [OF lib H run keys olds C' lc n aw(2,3)] by auto
  define g' where "g' = (add_session s news locs g)\<lparr>if_state := st, if_checkpoint := cp\<rparr>"
  have g': "if_log g' = s # ?log" "if_base g' = if_base g @ sp_bytes s" "if_header g' = if_header g" "if_keys g' = if_keys g"
      "if_tail P g' = cp @ [EntryTypeEnd] @ sha256 P (masked (if_base g @ sp_bytes s @ cp @ [EntryTypeEnd])) @ replicate ReservedSize 0"
    by (simp_all add: g'_def add_session_def if_base_def if_header_def if_keys_def if_tail_def)
  have size': "if_end g + length (log_bytes (s # ?log)) < 2 ^ 63" using off bounds(2) base by simp
  have "sessions_ok P Z (add_session s news locs g)"
    by (rule sessions_extend [OF g(2) ia part [unfolded base] id(1) in'(2) size'])
  then have so: "sessions_ok P Z g'" by (simp add: sessions_ok_def g'_def if_keys_def if_header_def)
  have ti: "tail_ok P H g'"
    using t g(3) base unfolding Let_def g'(5) [symmetric] tail_ok_def g'(1-3) by (simp add: index_at_def g'_def)
  have tl: "length (if_tail P g') = TailSize" using ti checkpoint_tail_length by (auto simp: tail_ok_def)
  have "list_all (\<lambda>(n, f). list_all (\<lambda>i. unat i < length ?raws) (fv_Chunks f)) (if_files g)" using g(2) by (simp add: sessions_ok_def)
  note vs = view_session [OF in'(2), of deleted "if_files g", unfolded view_extend [OF this]]
  have "session_added P fs (map cf_in changed) deleted g g' res"
    using in' vs sub del gear unfolding session_added_def by (auto simp: g'_def add_session_def C_def)
  moreover have "aw_out (sw_aw sw) = aw_out aw @ sp_bytes s @ if_tail P g'" using t unfolding Let_def g'(5) [symmetric] by simp
  moreover have "if_count g' = if_count g" "if_sealed g' = if_sealed g" by (simp_all add: g'_def add_session_def)
  ultimately show ?thesis
    using so ti off tl by (intro exI [of _ g']) (simp add: if_bytes_def g'(2))
qed

section \<open>Appending to a file\<close>

text \<open>Sealing the count again changes the header only, and neither the checksum nor the tail.\<close>

definition reseal :: "bytes \<Rightarrow> u64 \<Rightarrow> incrementalFile \<Rightarrow> incrementalFile" where
  "reseal sealed n g = g\<lparr>if_count := sealed, if_sealed := n\<rparr>"

lemma header_overwritten:
  assumes "length sealed = FileCountSealedSize" "length sealed' = FileCountSealedSize"
  shows "overwrite (header_bytes Version2 block sealed flags @ r) sealed' (FileCountOffset (length block)) = header_bytes Version2 block sealed' flags @ r"
  using assms by (simp add: overwrite_def header_bytes_def FileCountOffset_def Magic_def)

lemma resealed:
  assumes ok: "header_ok P g" "sessions_ok P Z g" "tail_ok P H g" and n: "n \<le> word_of_nat (length (if_log g))"
    and c: "length sealed = FileCountSealedSize" "openFileCount P (if_keys g) sealed = Ok n"
  shows "overwrite (if_bytes P g) sealed (FileCountOffset (length (if_block g))) = if_bytes P (reseal sealed n g)"
    "header_ok P (reseal sealed n g)" "sessions_ok P Z (reseal sealed n g)" "tail_ok P H (reseal sealed n g)"
    "length (if_bytes P (reseal sealed n g)) = length (if_bytes P g)"
proof -
  have h: "length (if_block g) \<le> MaxRecipientBlockSize" "length (if_count g) = FileCountSealedSize" "if_flags g AND HeaderFlagIncremental \<noteq> 0"
    using ok(1) by (simp_all add: header_ok_def)
  have b: "if_base (reseal sealed n g) = header_bytes Version2 (if_block g) sealed (if_flags g) @ log_bytes (if_log g)"
    "if_base g = header_bytes Version2 (if_block g) (if_count g) (if_flags g) @ log_bytes (if_log g)"
    by (simp_all add: if_base_def reseal_def)
  have t: "if_tail P (reseal sealed n g) = if_tail P g"
    unfolding if_tail_def b using masked_resealed [OF h(1,2) c(1) h(3)] by (simp add: reseal_def)
  show "overwrite (if_bytes P g) sealed (FileCountOffset (length (if_block g))) = if_bytes P (reseal sealed n g)"
    unfolding if_bytes_def t b using header_overwritten [OF h(2) c(1)] by simp
  show "length (if_bytes P (reseal sealed n g)) = length (if_bytes P g)"
    unfolding if_bytes_def t b using h(2) c(1) by (simp add: header_bytes_def)
  show "header_ok P (reseal sealed n g)" using h c by (simp add: header_ok_def reseal_def if_keys_def)
  show "sessions_ok P Z (reseal sealed n g)"
    using ok(2) by (simp add: sessions_ok_def reseal_def if_keys_def if_header_def header_end_def)
  have "follows P ck (if_base (reseal sealed n g))" if "follows P ck (if_base g)" for ck
    using follows_resealed [OF h(1,2) c(1) h(3)] that unfolding b .
  with ok(3) n t show "tail_ok P H (reseal sealed n g)"
    by (auto simp: tail_ok_def) (auto simp: reseal_def if_header_def header_end_def)
qed

lemma orFail_Val_conv: "orFail w m s = (Val x, s') \<longleftrightarrow> m = Inr x \<and> s' = s"
  by (auto simp: orFail_def split: sum.splits)

lemma file_Val:
  "f_call D w c f = (Val u, f') \<Longrightarrow> af_bytes f' = af_bytes f"
  "f_ReadAt D w n off f = (Val x, f') \<Longrightarrow> af_bytes f' = af_bytes f"
  "f_WriteAt D w p off f = (Val (), f') \<Longrightarrow> af_bytes f' = overwrite (af_bytes f) p off"
  "truncateAndSync D n f = (Val (), f') \<Longrightarrow> af_bytes f' = take n (af_bytes f) @ replicate (n - length (af_bytes f)) 0"
proof -
  show call: "f_call D w c f = (Val u, f') \<Longrightarrow> af_bytes f' = af_bytes f" for w c f u f' by (auto elim: f_call_cases)
  show "f_ReadAt D w n off f = (Val x, f') \<Longrightarrow> af_bytes f' = af_bytes f"
    by (auto simp: f_ReadAt_def bindS_Val_conv withS_def orFail_Val_conv dest!: call)
  show "f_WriteAt D w p off f = (Val (), f') \<Longrightarrow> af_bytes f' = overwrite (af_bytes f) p off" by (auto elim: f_WriteAt_cases)
  show "truncateAndSync D n f = (Val (), f') \<Longrightarrow> af_bytes f' = take n (af_bytes f) @ replicate (n - length (af_bytes f)) 0"
    by (auto elim: truncateAndSync_cases)
qed

lemma sealSession_Val:
  assumes "sealSession P D ia n rnd f = (Val (), f')"
  obtains sealed rnd' where "SealFileCount P (ia_keys ia) n rnd = Ok (sealed, rnd')"
    "af_bytes f' = overwrite (af_bytes f) sealed (FileCountOffset (hi_recipientBlockLen (ia_header ia)))"
  using assms by (auto simp: sealSession_def bindS_Val_conv callS_Val_conv dest!: file_Val)

lemma catch_restore_Val:
  assumes "catchS m (\<lambda>e. bindS k (\<lambda>_. failS e)) f = (Val x, f')" shows "m f = (Val x, f')"
  using assms by (auto simp: catchS_def bindS_Val_conv failS_def split: prod.splits outcome.splits)

lemma append_start:
  assumes "bindS (f_ReadAt D w n off) (\<lambda>oldTail. bindS (f_call D w' c) (\<lambda>_. bindS (callS w'' r) (m oldTail))) f = (Val y, f')"
  obtains aw oldTail f2 where "r = Ok aw" "af_bytes f2 = af_bytes f" "m oldTail aw f2 = (Val y, f')"
  using assms by (auto simp: bindS_Val_conv callS_Val_conv dest!: file_Val(1,2))

text \<open>A session that is reported was written behind the old tail, with nothing left behind it.\<close>

lemma appendSession_done:
  assumes "appendSession P Z H K D fs lower procs now ia changed deleted compression res n rnd f = (Val (res', Some (checksum, end')), f')"
  obtains aw sr sw sealed rnd' where "ResumeArchiveWriter H (ia_keys ia) (ia_tail ia) (state_of ia) = Ok aw"
    "writeSession P Z H K fs lower procs now ia changed deleted compression False (aw, rnd) = Val (sr, True, sw)"
    "SealFileCount P (ia_keys ia) (ir_Session sr) (sw_rnd sw) = Ok (sealed, rnd')"
    "end' = aw_offset (sw_aw sw) + FooterSize" "checksum = aw_checksum (sw_aw sw)"
    "ir_Changed res' = ir_Changed sr" "ir_Failed res' = ir_Failed sr" "ir_AppendedBytes res' = int end' - int (ia_tail ia + TailSize)"
    "af_bytes f' = (let b = overwrite (af_bytes f) (aw_out (sw_aw sw)) (ia_tail ia) in
       overwrite (take end' b @ replicate (end' - length b) 0) sealed (FileCountOffset (hi_recipientBlockLen (ia_header ia))))"
proof -
  let ?tail = "ia_tail ia"
  obtain aw oldTail f2 where aw: "ResumeArchiveWriter H (ia_keys ia) ?tail (state_of ia) = Ok aw" and f2: "af_bytes f2 = af_bytes f"
    and rest: "(case writeSession P Z H K fs lower procs now ia changed deleted compression False (aw, rnd) of
        Crash \<Rightarrow> bindS (f_spilled D ?tail) (\<lambda>_ f. (Crash, f))
      | Fail e \<Rightarrow> bindS (f_spilled D ?tail) (\<lambda>_. bindS (restoreTail D oldTail ?tail n) (\<lambda>_. failS e))
      | Val (sr, w, sw) \<Rightarrow>
          if \<not> w then
            bindS (f_spilled D ?tail) (\<lambda>_. bindS (restoreTail D oldTail ?tail n) (\<lambda>_.
            returnS (res\<lparr>ir_Failed := ir_Failed sr\<rparr>, None)))
          else
            bindS (f_written (aw_out (sw_aw sw)) ?tail) (\<lambda>_.
            bindS (catchS (truncateAndSync D (aw_offset (sw_aw sw) + FooterSize))
              (\<lambda>e. bindS (restoreTail D oldTail ?tail n) (\<lambda>_. failS e))) (\<lambda>_.
            bindS (sealSession P D ia (ir_Session sr) (sw_rnd sw)) (\<lambda>_.
            returnS (sr\<lparr>ir_Unchanged := ir_Unchanged res, ir_Repaired := ir_Repaired res,
                ir_AppendedBytes := int (aw_offset (sw_aw sw) + FooterSize) - int (?tail + TailSize)\<rparr>,
              Some (aw_checksum (sw_aw sw), aw_offset (sw_aw sw) + FooterSize)))))) f2 = (Val (res', Some (checksum, end')), f')"
    using assms unfolding appendSession_def Let_def by (rule append_start)
  obtain sr sw where w: "writeSession P Z H K fs lower procs now ia changed deleted compression False (aw, rnd) = Val (sr, True, sw)"
    using rest by (auto simp: bindS_Val_conv failS_def returnS_def split: outcome.splits prod.splits if_splits)
  show thesis
    using rest f2 unfolding w
    by (auto simp: bindS_Val_conv f_written_def updateS_def returnS_def Let_def dest!: catch_restore_Val file_Val(4)
        elim!: sealSession_Val intro!: that [OF aw w])
qed

lemma session_added_reseal [simp]: "session_added P fs inps deleted g (reseal sealed n g') res = session_added P fs inps deleted g g' res"
  by (simp add: session_added_def reseal_def)

lemma session_added_result:
  "ir_Changed res' = ir_Changed res \<Longrightarrow> ir_Failed res' = ir_Failed res \<Longrightarrow>
   session_added P fs inps deleted g g' res' = session_added P fs inps deleted g g' res"
  by (simp add: session_added_def)

lemma written_behind:
  assumes "take (length base) b' = base" and "length base + length out = length b'" "drop (length base) b' = out"
  shows "(let b = overwrite (base @ r) out (length base) in take (length b') b @ replicate (length b' - length b) 0) = b'"
proof -
  have b': "b' = base @ out" using assms by (metis append_take_drop_id)
  show ?thesis by (simp add: overwrite_def b' Let_def)
qed

lemma append_sound:
  assumes lib: "chunk_lib P Z" and H: "hash_resumes P H"
    and g: "file_sound P Z H g" "af_bytes f = if_bytes P g @ sig"
    and run: "appendSession P Z H K D fs lower procs now (if_archive g) changed deleted compression res (length (af_bytes f)) rnd f
      = (Val (res', Some (checksum, end')), f')"
    and C: "no_collisions P (if_keys g) fs (if_raws g) (map cf_in changed)"
    and bounds: "length (if_chunks g) < 2 ^ 62" "end' < 2 ^ 63"
  shows "\<exists>g'. af_bytes f' = if_bytes P g' \<and> file_sound P Z H g' \<and> session_added P fs (map cf_in changed) deleted g g' res'
    \<and> if_sealed g' = word_of_nat (Suc (length (if_log g)))
    \<and> ir_AppendedBytes res' = int (length (if_bytes P g')) - int (length (if_bytes P g))
    \<and> loadIncremental P Z (f_stream f') (length (af_bytes f')) (if_keys g) (if_header g') = Val (if_archive g')"
proof -
  have ok: "header_ok P g" "sessions_ok P Z g" "tail_ok P H g" using g(1) by (simp_all add: file_sound_def)
  have lib': "lib_ok P Z" "gcm_correct P" using lib by (simp_all add: chunk_lib_def lib_ok_def)
  have ia: "ia_keys (if_archive g) = if_keys g" "ia_sessions (if_archive g) = word_of_nat (length (if_log g))"
      "ia_lastIndex (if_archive g) = last_index (if_end g) (if_log g)" "ia_chunks (if_archive g) = if_chunks g"
      "ia_header (if_archive g) = if_header g" "state_of (if_archive g) = if_state g"
    by (simp_all add: if_archive_def log_archive_def state_of_def)
  note len = if_lengths [OF g(1)]
  obtain aw sr sw sealed rnd' where aw: "ResumeArchiveWriter H (if_keys g) (length (if_base g)) (if_state g) = Ok aw"
    and w: "writeSession P Z H K fs lower procs now (if_archive g) changed deleted compression False (aw, rnd) = Val (sr, True, sw)"
    and sl: "SealFileCount P (if_keys g) (ir_Session sr) (sw_rnd sw) = Ok (sealed, rnd')"
    and e: "end' = aw_offset (sw_aw sw) + FooterSize" and r: "ir_Changed res' = ir_Changed sr" "ir_Failed res' = ir_Failed sr"
    and ap: "ir_AppendedBytes res' = int end' - int (length (if_base g) + TailSize)"
    and f': "af_bytes f' = (let b = overwrite (af_bytes f) (aw_out (sw_aw sw)) (length (if_base g)) in
       overwrite (take end' b @ replicate (end' - length b) 0) sealed (FileCountOffset (length (if_block g))))"
    using run by (rule appendSession_done) (simp add: ia len if_header_def)
  obtain c where c: "ResumeArchiveChecksum H (if_state g) = Ok c" "follows P c (if_base g)" using ok(3) by (auto simp: tail_ok_def)
  have awf: "aw_keys aw = if_keys g" "aw_offset aw = length (if_base g)" "follows P (aw_hasher aw) (if_base g)" "aw_out aw = []"
    using aw c by (auto simp: ResumeArchiveWriter_def newArchiveWriter_def bindR_Ok_conv)
  have "length (if_log g) \<le> length (if_base g)" using log_length [of "if_log g"] by (simp add: if_base_def)
  moreover have "length (if_base g) < 2 ^ 63" using g(1) len by (simp add: file_sound_def)
  ultimately have "(word_of_nat (length (if_log g)) :: u64) \<le> word_of_nat (Suc (length (if_log g)))"
    by (simp add: word_le_nat_alt unat_of_nat del: of_nat_Suc)
  then have n: "if_sealed g \<le> word_of_nat (Suc (length (if_log g)))" using ok(3) by (auto simp: tail_ok_def simp del: of_nat_Suc)
  obtain g1 where g1: "sessions_ok P Z g1" "tail_ok P H g1" "session_added P fs (map cf_in changed) deleted g g1 sr"
      "if_count g1 = if_count g" "if_sealed g1 = if_sealed g" "drop (length (if_base g)) (if_bytes P g1) = aw_out (sw_aw sw)"
      "take (length (if_base g)) (if_bytes P g1) = if_base g" "end' = length (if_bytes P g1)"
    using session_written [OF lib H w ok(1,2) n ia(1-4) awf(1,3,2) C bounds(1)] bounds(2) awf(4) unfolding e by auto
  have same: "if_keys g1 = if_keys g" "if_block g1 = if_block g" "length (if_log g1) = Suc (length (if_log g))" "if_flags g1 = if_flags g"
    using g1(3) by (cases "if_log g1"; simp add: session_added_def if_keys_def)+
  have h1: "header_ok P g1" using ok(1) g1(4,5) same by (simp add: header_ok_def)
  have num: "ir_Session sr = word_of_nat (length (if_log g1))" using writeSession_number [OF w] ia(2) same(3) by (simp add: add.commute)
  let ?g = "reseal sealed (ir_Session sr) g1"
  have s: "length sealed = FileCountSealedSize" "openFileCount P (if_keys g1) sealed = Ok (ir_Session sr)"
    using SealFileCount_length [OF sl] SealFileCount_open [OF lib'(2) sl] same(1) by simp_all
  note re = resealed [OF h1 g1(1,2) eq_refl [OF num] s]
  have "length (if_base g) \<le> length (if_bytes P g1)" using arg_cong [OF g1(7), of length] by simp
  then have lo: "length (if_base g) + length (aw_out (sw_aw sw)) = length (if_bytes P g1)" using arg_cong [OF g1(6), of length] by simp
  have b: "af_bytes f' = if_bytes P ?g"
    using written_behind [OF g1(7) lo g1(6), of "if_tail P g @ sig"] re(1)
    by (simp add: f' g(2) if_bytes_def [of P g] g1(8) same(2) Let_def)
  have sound: "file_sound P Z H ?g" using re(2-5) bounds(2) g1(8) by (simp add: file_sound_def)
  have "if_keys ?g = if_keys g" "if_sealed ?g = ir_Session sr" using same(1) by (simp_all add: reseal_def if_keys_def)
  moreover have "ir_AppendedBytes res' = int (length (if_bytes P ?g)) - int (length (if_bytes P g))" using ap re(5) len g1(8) by simp
  ultimately show ?thesis
    using sound_loads [OF sound lib'(1), of "[]" EOF] b sound g1(3) num same(3)
    by (intro exI [of _ ?g]) (simp add: f_stream_def session_added_result [OF r])
qed

text \<open>
  C9: an update leaves a sound archive.  When a session is appended to a sound incremental archive, whether a signature
  follows it or not, the file afterwards is a sound archive again: the count in the header is the number of the new
  session, the checksum in the footer is that of the whole file, and loading the file gives a state whose files are the
  old ones with each recorded input replaced by what it held when it was read, and without the deleted names.  Every
  changed input is either recorded or counted as failed, and a failed one leaves the old version of its name.  The
  chunks added are chunks of the changed inputs.
\<close>

theorem appended_session_loads:
  assumes lib: "chunk_lib P Z" and H: "hash_resumes P H"
    and g: "file_sound P Z H g" "af_bytes f = if_bytes P g @ sig"
    and run: "appendSession P Z H K D fs lower procs now (if_archive g) changed deleted compression res (length (af_bytes f)) rnd f
      = (Val (res', Some (checksum, end')), f')"
    and C: "no_collisions P (if_keys g) fs (if_raws g) (map cf_in changed)"
    and bounds: "length (if_chunks g) < 2 ^ 62" "end' < 2 ^ 63"
  shows "\<exists>g'. af_bytes f' = if_bytes P g' \<and> file_sound P Z H g' \<and> session_added P fs (map cf_in changed) deleted g g' res'
    \<and> if_sealed g' = word_of_nat (Suc (length (if_log g)))
    \<and> ir_AppendedBytes res' = int (length (if_bytes P g')) - int (length (if_bytes P g))
    \<and> loadIncremental P Z (f_stream f') (length (af_bytes f')) (if_keys g) (if_header g') = Val (if_archive g')"
  using assms by (rule append_sound)

section \<open>A new archive\<close>

lemma writeSession_allowed:
  assumes "writeSession P Z H K fs lower procs now ia changed deleted compression True s = Val (res, w, sw)"
  shows w
  using assms by (rule writeSession_Val) (auto simp: session_body_def bindS_Val_conv withS_def returnS_def)

lemma create_start:
  assumes "bindS (f_call D w c) (\<lambda>_. bindS (\<lambda>f. (r, f)) (\<lambda>(a, b). bindS (\<lambda>f. (q a b, f)) (\<lambda>(x, y, z). m a b x y z))) f = (Val v, f')"
  obtains f1 a b x y z where "af_bytes f1 = af_bytes f" "r = Val (a, b)" "q a b = Val (x, y, z)" "m a b x y z f1 = (Val v, f')"
  using assms by (auto simp: bindS_Val_conv dest!: file_Val(1))

lemma header_start:
  assumes "fst (bindS (newCredentialedWriter P A password cfg) (\<lambda>aw rnd.
         case WriteHeaderWithFlags P K 1 HeaderFlagIncremental aw rnd of
           Ok (aw, rnd) \<Rightarrow> (Val (aw, rnd), rnd)
         | Err e \<Rightarrow> (Fail (writeFailed ''write header'' e), rnd)
         | Panic \<Rightarrow> (Crash, rnd)) rnd) = Val (aw, rnd2)"
  obtains aw0 rnd1 where "NewArchiveWriter P A (archiveCredentials password cfg) rnd = Ok (aw0, rnd1)"
    "WriteHeaderWithFlags P K 1 HeaderFlagIncremental aw0 rnd1 = Ok (aw, rnd2)"
  using assms
  by (auto simp: bindS_def newCredentialedWriter_def split: prod.splits outcome.splits res.splits if_splits)

lemma signatureBlock_state: "signatureBlock P S checksum sg s = (Val b, s') \<Longrightarrow> s' = s"
  by (auto simp: signatureBlock_def bindS_Val_conv callS_Val_conv)

lemma createIncremental_done:
  assumes "createIncremental P A Z H S K D fs lower procs now password cfg files signer rnd f = (Val res, f')"
  obtains aw0 rnd1 aw rnd2 sr sw sig where "NewArchiveWriter P A (archiveCredentials password cfg) rnd = Ok (aw0, rnd1)"
    "WriteHeaderWithFlags P K 1 HeaderFlagIncremental aw0 rnd1 = Ok (aw, rnd2)"
    "writeSession P Z H K fs lower procs now (empty_archive (aw_keys aw)) (first_changes fs files) [] (cf_compression cfg) True (aw, rnd2)
       = Val (sr, True, sw)"
    "af_bytes f' = (let b = overwrite (af_bytes f) (aw_out (sw_aw sw)) 0 in case signer of None \<Rightarrow> b | Some sg \<Rightarrow> overwrite b sig (length (aw_out (sw_aw sw))))"
    "ir_Changed res = ir_Changed sr" "ir_Failed res = ir_Failed sr" "ir_AppendedBytes res = int (aw_offset (sw_aw sw) + FooterSize)"
proof -
  obtain f1 aw rnd2 sr w sw where f1: "af_bytes f1 = af_bytes f"
    and open': "fst (bindS (newCredentialedWriter P A password cfg) (\<lambda>aw rnd.
         case WriteHeaderWithFlags P K 1 HeaderFlagIncremental aw rnd of
           Ok (aw, rnd) \<Rightarrow> (Val (aw, rnd), rnd)
         | Err e \<Rightarrow> (Fail (writeFailed ''write header'' e), rnd)
         | Panic \<Rightarrow> (Crash, rnd)) rnd) = Val (aw, rnd2)"
    and w: "writeSession P Z H K fs lower procs now (empty_archive (aw_keys aw)) (first_changes fs files) [] (cf_compression cfg) True (aw, rnd2)
       = Val (sr, w, sw)"
    and rest: "bindS (f_written (aw_out (sw_aw sw)) 0) (\<lambda>_.
     bindS (case signer of
         None \<Rightarrow> returnS sr
       | Some sg \<Rightarrow>
           bindS (signatureBlock P S (aw_checksum (sw_aw sw)) sg) (\<lambda>block.
           bindS (f_call D (writeFailed ''write signature'') (FWrite block)) (\<lambda>_.
           bindS (f_written block (length (aw_out (sw_aw sw)))) (\<lambda>_.
           returnS (sr\<lparr>ir_Signed := True\<rparr>))))) (\<lambda>res.
     bindS (f_call D (writeFailed ''sync archive'') FSync) (\<lambda>_.
     bindS (f_call D (writeFailed ''close archive'') FClose) (\<lambda>_.
     bindS (f_call D (writeFailed ''move archive into place'') FRename) (\<lambda>_.
     returnS (res\<lparr>ir_Created := True, ir_AppendedBytes := int (aw_offset (sw_aw sw) + FooterSize)\<rparr>)))))) f1 = (Val res, f')"
    using assms unfolding createIncremental_def by (rule create_start)
  have True: "w" using w by (rule writeSession_allowed)
  show thesis
    using open'
  proof (rule header_start)
    fix aw0 rnd1 assume a: "NewArchiveWriter P A (archiveCredentials password cfg) rnd = Ok (aw0, rnd1)"
      "WriteHeaderWithFlags P K 1 HeaderFlagIncremental aw0 rnd1 = Ok (aw, rnd2)"
    have w': "writeSession P Z H K fs lower procs now (empty_archive (aw_keys aw)) (first_changes fs files) [] (cf_compression cfg) True (aw, rnd2)
       = Val (sr, True, sw)" using w True by simp
    show thesis
      using rest f1
      by (cases signer) (auto simp: bindS_Val_conv f_written_def updateS_def returnS_def Let_def dest!: file_Val(1) signatureBlock_state
        intro!: that [OF a w'])
  qed
qed

lemma view_none: "file_view raws [] = Map.empty" and view_after_empty: "view_after fs inps [] m = view_record fs inps m"
  by (simp_all add: file_view_def view_after_def restrict_map_def fun_eq_iff)

text \<open>The file behind a new header, before its first session.\<close>

definition new_file :: "bytes \<Rightarrow> bytes \<Rightarrow> bytes \<Rightarrow> incrementalFile" where
  "new_file cek block sealed = \<lparr>if_cek = cek, if_block = block, if_count = sealed, if_flags = HeaderFlagIncremental, if_sealed = 1, if_log = [],
     if_raws = [], if_chunks = [], if_files = [], if_state = [], if_checkpoint = []\<rparr>"

lemma new_header:
  assumes n: "NewArchiveWriter P A creds rnd = Ok (aw0, rnd1)" and w: "WriteHeaderWithFlags P K 1 HeaderFlagIncremental aw0 rnd1 = Ok (aw, rnd2)"
    and gcm: "gcm_correct P"
  obtains cek rnd0 block sealed where "GenerateCEK rnd = Ok (cek, rnd0)" "SealRecipientBlock P A cek creds rnd0 = Ok (block, rnd1)"
    "header_ok P (new_file cek block sealed)" "aw_keys aw = NewVersion2KeySchedule cek"
    "aw_out aw = if_base (new_file cek block sealed)" "aw_offset aw = length (if_base (new_file cek block sealed))"
    "follows P (aw_hasher aw) (if_base (new_file cek block sealed))"
proof -
  obtain cek block rnd0 where cek: "GenerateCEK rnd = Ok (cek, rnd0)" and seal: "SealRecipientBlock P A cek creds rnd0 = Ok (block, rnd1)"
    and aw0: "aw0 = newArchiveWriter (NewVersion2KeySchedule cek) block NewArchiveChecksum 0"
    using n by (auto simp: NewArchiveWriter_def bindR_Ok_conv)
  have bl: "length block \<le> MaxRecipientBlockSize"
    using seal by (auto simp: SealRecipientBlock_def bindR_Ok_conv split: if_splits)
  have f: "aw_keys aw0 = NewVersion2KeySchedule cek" "aw_recipients aw0 = block" "ks_version (aw_keys aw0) = Version2"
    by (simp_all add: aw0 newArchiveWriter_def NewVersion2KeySchedule_def)
  from WriteHeader_Ok [OF w] f obtain sealed where
    sl: "SealFileCount P (NewVersion2KeySchedule cek) 1 rnd1 = Ok (sealed, rnd2)"
    and aw: "aw = put (header_bytes Version2 block sealed HeaderFlagIncremental) aw0" by auto
  note cl = SealFileCount_length [OF sl] and co = SealFileCount_open [OF gcm sl]
  let ?g = "new_file cek block sealed"
  have base: "if_base ?g = header_bytes Version2 block sealed HeaderFlagIncremental" by (simp add: if_base_def new_file_def)
  have h: "header_ok P ?g" using bl cl co by (simp add: header_ok_def new_file_def if_keys_def HeaderFlagIncremental_def)
  have fo: "follows P (aw_hasher aw) (if_base ?g)"
    using follows_state [OF header_layout [OF bl cl, of HeaderFlagIncremental]]
    by (simp add: aw aw0 newArchiveWriter_def put_def checksum_new ac_Write_state base)
  show thesis
    by (rule that [OF cek seal h _ _ _ fo]) (simp_all add: aw aw0 newArchiveWriter_def put_def base)
qed

lemma first_changes_inputs: "map cf_in (first_changes fs files) = files"
  by (simp add: first_changes_def comp_def split: sum.splits cong: map_cong) (induction files, auto split: sum.splits)

lemma create_sound:
  assumes lib: "chunk_lib P Z" "hash_resumes P H" "wrap_laws P" "age_correct A m"
    and run: "createIncremental P A Z H S K D fs lower procs now password cfg files signer rnd f = (Val res, f')" and f: "af_bytes f = []"
    and C: "\<And>cek rnd'. GenerateCEK rnd = Ok (cek, rnd') \<Longrightarrow> no_collisions P (NewVersion2KeySchedule cek) fs [] files"
    and bound: "ir_AppendedBytes res < 2 ^ 63"
  shows "\<exists>g sig. af_bytes f' = if_bytes P g @ sig \<and> (signer = None \<longrightarrow> sig = []) \<and> file_sound P Z H g \<and> length (if_log g) = 1
    \<and> ir_AppendedBytes res = int (length (if_bytes P g))
    \<and> (\<exists>archived failed. mset archived + mset failed = mset files \<and> ir_Changed res = length archived \<and> ir_Failed res = length failed
         \<and> file_view (if_raws g) (if_files g) = view_record fs archived Map.empty)
    \<and> (\<forall>gear. GearTable P (if_keys g) = Ok gear \<longrightarrow> set (if_raws g) \<subseteq> input_chunks fs gear files)
    \<and> loadIncremental P Z (f_stream f') (length (if_bytes P g)) (if_keys g) (if_header g) = Val (if_archive g)
    \<and> (\<forall>c \<in> set (cred_list (archiveCredentials password cfg)). \<forall>u. opens m u c \<longrightarrow>
         fst (readHeader P A u (f_stream f')) = Val (if_keys g, if_header g))"
proof -
  obtain aw0 rnd1 aw rnd2 sr sw sg where n: "NewArchiveWriter P A (archiveCredentials password cfg) rnd = Ok (aw0, rnd1)"
    and hd: "WriteHeaderWithFlags P K 1 HeaderFlagIncremental aw0 rnd1 = Ok (aw, rnd2)"
    and w: "writeSession P Z H K fs lower procs now (empty_archive (aw_keys aw)) (first_changes fs files) [] (cf_compression cfg) True (aw, rnd2)
       = Val (sr, True, sw)"
    and f': "af_bytes f' = (let b = overwrite (af_bytes f) (aw_out (sw_aw sw)) 0 in case signer of None \<Rightarrow> b | Some s \<Rightarrow> overwrite b sg (length (aw_out (sw_aw sw))))"
    and r: "ir_Changed res = ir_Changed sr" "ir_Failed res = ir_Failed sr" and len: "ir_AppendedBytes res = int (aw_offset (sw_aw sw) + FooterSize)"
    using run by (rule createIncremental_done)
  have lib': "lib_ok P Z" "gcm_correct P" using lib(1) by (simp_all add: chunk_lib_def lib_ok_def)
  obtain cek rnd0 block sealed where cek: "GenerateCEK rnd = Ok (cek, rnd0)"
    and seal: "SealRecipientBlock P A cek (archiveCredentials password cfg) rnd0 = Ok (block, rnd1)"
    and h: "header_ok P (new_file cek block sealed)" and aw: "aw_keys aw = NewVersion2KeySchedule cek"
      "aw_out aw = if_base (new_file cek block sealed)" "aw_offset aw = length (if_base (new_file cek block sealed))"
      "follows P (aw_hasher aw) (if_base (new_file cek block sealed))"
    using n hd lib'(2) by (rule new_header)
  let ?g = "new_file cek block sealed"
  have g0: "if_keys ?g = NewVersion2KeySchedule cek" "if_log ?g = []" "if_raws ?g = []" "if_chunks ?g = []" "if_files ?g = []" "if_sealed ?g = 1"
    by (simp_all add: new_file_def if_keys_def)
  have ik: "\<exists>idKey. ChunkIDKey P (if_keys ?g) = Ok idKey"
    using w unfolding aw(1) g0(1) by (rule writeSession_Val) (use newSessionWriter_keys [of P Z procs now "empty_archive (NewVersion2KeySchedule cek)"] in \<open>auto simp: empty_archive_def\<close>)
  have so: "sessions_ok P Z ?g" using ik by (simp add: sessions_ok_def g0 log_state_Nil raws_of_def)
  have ia: "ia_keys (empty_archive (aw_keys aw)) = if_keys ?g" "ia_sessions (empty_archive (aw_keys aw)) = word_of_nat (length (if_log ?g))"
      "ia_lastIndex (empty_archive (aw_keys aw)) = last_index (if_end ?g) (if_log ?g)" "ia_chunks (empty_archive (aw_keys aw)) = if_chunks ?g"
    by (simp_all add: empty_archive_def g0 aw)
  have nc: "no_collisions P (if_keys ?g) fs (if_raws ?g) (map cf_in (first_changes fs files))"
    using C [OF cek] by (simp add: g0 first_changes_inputs)
  obtain sig where out: "af_bytes f' = aw_out (sw_aw sw) @ sig" "signer = None \<longrightarrow> sig = []"
    by (cases signer) (simp_all add: f' f overwrite_def)
  have b: "aw_offset (sw_aw sw) + FooterSize < 2 ^ 63" using bound unfolding len by simp
  obtain g where g: "sessions_ok P Z g" "tail_ok P H g" "session_added P fs files [] ?g g sr"
      "if_count g = if_count ?g" "if_sealed g = if_sealed ?g" "aw_out aw @ drop (length (if_base ?g)) (if_bytes P g) = aw_out (sw_aw sw)"
      "take (length (if_base ?g)) (if_bytes P g) = if_base ?g" "aw_offset (sw_aw sw) + FooterSize = length (if_bytes P g)"
    using session_written [OF lib(1,2) w h so _ ia _ aw(4,3) nc _ b] by (auto simp: g0 aw first_changes_inputs)
  have bytes: "aw_out (sw_aw sw) = if_bytes P g" using g(6,7) aw(2) by (metis append_take_drop_id)
  have same: "if_cek g = cek" "if_block g = block" "if_flags g = if_flags ?g" "length (if_log g) = 1" "if_keys g = if_keys ?g"
    using g(3) by (cases "if_log g"; simp add: session_added_def new_file_def if_keys_def)+
  have "header_ok P g" using h g(4,5) same by (simp add: header_ok_def) (simp add: new_file_def)
  then have sound: "file_sound P Z H g" using g(1,2,8) b by (simp add: file_sound_def)
  have view: "\<exists>archived failed. mset archived + mset failed = mset files \<and> ir_Changed res = length archived \<and> ir_Failed res = length failed
         \<and> file_view (if_raws g) (if_files g) = view_record fs archived Map.empty"
    using g(3) r unfolding session_added_def view_after_empty g0 view_none by auto
  have chunks: "\<forall>gear. GearTable P (if_keys g) = Ok gear \<longrightarrow> set (if_raws g) \<subseteq> input_chunks fs gear files"
    using g(3) by (simp add: session_added_def same(5) g0(3))
  have "fst (readHeader P A u (f_stream f')) = Val (if_keys g, if_header g)"
    if "c \<in> set (cred_list (archiveCredentials password cfg))" "opens m u c" for c u
  proof -
    have "length cek = 32" using cek by (auto simp: GenerateCEK_def ReadFull_Ok_conv KeySize_def)
    from recipient_block_opens [OF lib(3,4) this seal that] have "OpenRecipientBlock P A (if_block g) u = Ok (if_cek g)" by (simp add: same)
    from sound_header [OF sound this, of sig EOF] show ?thesis by (simp add: f_stream_def out(1) bytes)
  qed
  with sound_loads [OF sound lib'(1), of sig EOF] out bytes sound same(4) view chunks len g(8) show ?thesis
    by (intro exI [of _ g] exI [of _ sig]) (auto simp: f_stream_def)
qed


end
