(* ===== verification/Incremental_Sample.thy ===== *)
theory Incremental_Sample
  imports Session_Append Archive_Completes
begin

text \<open>
  Sessions that always complete, and a concrete incremental archive: created with one directory, updated with another.
\<close>

section \<open>How much a session without chunks writes\<close>

lemma seal_chunks_count: "seal_chunks P Z fb payload = Ok (dbs, fb') \<Longrightarrow> length dbs \<le> length payload"
proof (induction P Z fb payload arbitrary: dbs fb' rule: seal_chunks.induct)
  case (1 P Z fb payload)
  obtain sz fb1 where c: "NextChunkSize P fb = (sz, fb1)" by (rule prod.exhaust)
  show ?case
  proof (cases "payload = []")
    case False
    then obtain db fb2 dbs' where e: "EncryptChunk P Z fb1 (take (min sz (length payload)) payload) = Ok (db, fb2)"
        "seal_chunks P Z fb2 (drop (min sz (length payload)) payload) = Ok (dbs', fb')" "dbs = db # dbs'"
      using "1.prems" c by (auto simp: seal_chunks.simps [of P Z fb] Let_def bindR_Ok_conv)
    have "length dbs' \<le> length payload - min sz (length payload)"
      using "1.IH" [OF False c [symmetric] refl e(1) refl e(2)] by simp
    then show ?thesis using NextChunkSize_bounds(1) [OF c] False e(3) by (cases payload) auto
  qed (use "1.prems" in \<open>simp add: seal_chunks.simps\<close>)
qed

lemma sealPayloadEntry_blocks:
  "sealPayloadEntry P Z ty codec payload plaintext (aw, rnd) = (Val en, s') \<Longrightarrow> length (fe_DataBlocks en) \<le> length payload"
  by (auto simp: sealPayloadEntry_def writing_convs Let_def split: prod.splits dest!: seal_chunks_count)

lemma concat_bound: "list_all (\<lambda>x. length (f x) \<le> n) xs \<Longrightarrow> length (concat (map f xs)) \<le> length xs * n"
  by (induction xs) auto

lemma entry_bytes_bound:
  assumes "entry_sized en" and "length (fe_DataBlocks en) \<le> MaxIndexSize"
  shows "length (entry_bytes en) \<le> 2 ^ 60"
proof -
  have "list_all (\<lambda>db. length (block_bytes db) \<le> 295200) (fe_DataBlocks en)"
    using assms(1) by (auto simp: entry_sized_def block_sized_def block_bytes_def list_all_iff block_limit NonceSize_def)
  from concat_bound [OF this] have "length (concat (map block_bytes (fe_DataBlocks en))) \<le> MaxIndexSize * 295200" using assms(2)
    by (meson le_trans mult_le_mono1)
  moreover have "length (trailer_bytes (fe_Trailer en)) \<le> 2 ^ 33"
    using assms(1) by (auto simp: entry_sized_def trailer_sized_def trailer_bytes_def padding_bytes_def block_limit NonceSize_def)
  moreover have "length (padding_bytes (fe_InterBlockPad en)) \<le> 2 ^ 33" "length (metadata_bytes (fe_Metadata en)) \<le> 2 ^ 33"
    using assms(1) metadata_limit by (auto simp: entry_sized_def padding_bytes_def metadata_bytes_def NonceSize_def)
  ultimately show ?thesis
    using assms(1) by (simp add: entry_bytes_def entry_head_def entry_body_def sentinel_def entry_sized_def SaltSize_def NonceSize_def MaxIndexSize_def)
qed

text \<open>Inputs without data are recorded as they are.\<close>

definition special_version :: "inputFile \<Rightarrow> FileVersion" where
  "special_version inp = \<lparr>fv_Name = in_name inp, fv_Attributes = in_attrs inp, fv_Size = 0, fv_Chunks = []\<rparr>"

definition special_change :: "inputFile \<Rightarrow> changedFile" where
  "special_change inp = \<lparr>cf_in = inp, cf_info = None, cf_err = None\<rparr>"

lemma record_special:
  assumes "list_all (\<lambda>inp. \<not> in_regular inp) inps"
  shows "\<exists>res' sw'. record_files P Z K fs lower (map special_change inps) res sw = (Val res', sw') \<and> ir_Changed res' = ir_Changed res + length inps
    \<and> sw' = sw\<lparr>sw_index := (sw_index sw)\<lparr>si_Files := si_Files (sw_index sw) @ map special_version inps\<rparr>\<rparr>"
  using assms
proof (induction inps arbitrary: res sw)
  case (Cons inp inps)
  have "record_files P Z K fs lower (map special_change (inp # inps)) res sw
      = record_files P Z K fs lower (map special_change inps) (res\<lparr>ir_Changed := ir_Changed res + 1\<rparr>) (add_version (special_version inp) sw)"
    using Cons.prems by (simp add: special_change_def special_version_def bindS_def updateS_def)
  with Cons.IH [of "res\<lparr>ir_Changed := ir_Changed res + 1\<rparr>" "add_version (special_version inp) sw"] Cons.prems show ?case
    by (auto simp: add_version_def)
qed (simp add: returnS_def)

section \<open>An index without chunks\<close>

lemma uvarint_enc_bound: "n < 128 ^ Suc k \<Longrightarrow> length (uvarint_enc n) \<le> Suc k"
proof (induction k arbitrary: n)
  case (Suc k)
  have "n div 128 < 128 ^ Suc k" using Suc.prems by (simp add: div_less_iff_less_mult mult.commute)
  then show ?case using Suc.IH by (subst uvarint_enc.simps) simp
qed (simp add: uvarint_enc_small)

lemma append_uvarint_bound: "length (append_uvarint x) \<le> 10" "length (append_varint y) \<le> 10"
proof -
  have "length (append_uvarint x) \<le> 10" for x
    using uvarint_enc_bound [of "unat x" 9] unat_bound [of x] by (simp add: append_uvarint_def)
  then show "length (append_uvarint x) \<le> 10" "length (append_varint y) \<le> 10" by (simp_all add: append_varint_def)
qed

lemma special_bytes_bound:
  assumes "input_ok inp" shows "length (file_bytes (special_version inp)) \<le> 2 ^ 24"
proof -
  have "length (attributes_bytes (in_attrs inp)) \<le> MaxAttributesSize" using attributes_bytes_bounds(2) assms by (simp add: input_ok_def)
  moreover have "length (in_name inp) \<le> 0xFFFF" using assms by (simp add: input_ok_def)
  ultimately show ?thesis
    using append_uvarint_bound(1) [of "word_of_nat (length (in_name inp))"] append_uvarint_bound(1) [of "word_of_nat (length (attributes_bytes (in_attrs inp)))"]
      append_uvarint_bound(1) [of 0]
    by (simp add: file_bytes_def special_version_def appendString_def MaxAttributesSize_def attr_limits)
qed

lemma special_index_marshals:
  assumes inps: "list_all input_ok inps" "list_all (\<lambda>inp. \<not> in_regular inp) inps" "length inps \<le> 8"
  shows "\<exists>pt. si_Marshal \<lparr>si_Session = n, si_Time = now, si_PrevIndex = prev, si_FirstChunk = first, si_Packs = [], si_Chunks = [],
      si_Files = map special_version inps, si_Deleted = []\<rparr> = Ok pt"
proof -
  let ?si = "\<lparr>si_Session = n, si_Time = now, si_PrevIndex = prev, si_FirstChunk = first, si_Packs = [], si_Chunks = [],
      si_Files = map special_version inps, si_Deleted = []\<rparr>"
  let ?b = "indexMagic @ append_uvarint n @ append_varint now @ append_uvarint prev @ append_uvarint first @ append_uvarint 0 @ append_uvarint 0
      @ append_uvarint (word_of_nat (length inps)) @ concat (map file_bytes (map special_version inps)) @ append_uvarint 0"
  have "length (concat (map (\<lambda>inp. file_bytes (special_version inp)) inps)) \<le> length inps * 2 ^ 24"
    by (rule concat_bound) (use inps(1) special_bytes_bound in \<open>simp add: list_all_iff\<close>)
  also have "\<dots> \<le> 8 * 2 ^ 24" using inps(3) by simp
  finally have "length ?b \<le> MaxIndexSize"
    using append_uvarint_bound(1) [of n] append_uvarint_bound(2) [of now] append_uvarint_bound(1) [of prev] append_uvarint_bound(1) [of first]
      append_uvarint_bound(1) [of 0] append_uvarint_bound(1) [of "word_of_nat (length inps)"]
    by (simp add: MaxIndexSize_def indexMagic_def str_def comp_def)
  moreover have "list_all (\<lambda>f. ValidEntryName (fv_Name f) \<and> validate (fv_Attributes f) = None
      \<and> (a_Kind (fv_Attributes f) = KindRegular \<or> \<not> has_data f)) (map special_version inps)"
    using inps(1) by (auto simp: list_all_iff special_version_def input_ok_def has_data_def)
  ultimately have "si_Marshal ?si = Ok ?b" by (subst si_Marshal_Ok_conv) simp
  then show ?thesis by blast
qed

section \<open>A session without chunks\<close>

lemma gear_entries_total: "8 * n \<le> length b \<Longrightarrow> \<exists>g. gear_entries n b = Ok g"
proof (induction n arbitrary: b)
  case (Suc n)
  have "8 * n \<le> length (drop 8 b)" using Suc.prems by simp
  from Suc.IH [OF this] obtain g where "gear_entries n (drop 8 b) = Ok g" by blast
  with Suc.prems show ?case by (simp add: uint64_def)
qed simp

lemma chunk_keys_total:
  assumes "hkdf_total P" and "ks_version ks = Version2"
  shows "\<exists>k. ChunkIDKey P ks = Ok k" "\<exists>gear. GearTable P ks = Ok gear"
proof -
  obtain b where "hkdf_expand P (ks_masterKey ks) chunkIDLabel KeySize = Ok b"
    using assms(1) [unfolded hkdf_total_def, rule_format, of KeySize] by (auto simp: KeySize_def)
  with assms(2) show "\<exists>k. ChunkIDKey P ks = Ok k"
    by (simp add: ChunkIDKey_def DeriveChunkIDKey_def expandSubkey_def Version1_def Version2_def)
  obtain r where r: "hkdf_expand P (ks_masterKey ks) gearTableLabel (GearTableSize * 8) = Ok r" "length r = GearTableSize * 8"
    using assms(1) [unfolded hkdf_total_def, rule_format, of "GearTableSize * 8"] by (auto simp: GearTableSize_def)
  have "8 * GearTableSize \<le> length r" using r(2) by simp
  from gear_entries_total [OF this] r(1) assms(2) show "\<exists>gear. GearTable P ks = Ok gear"
    by (simp add: GearTable_def DeriveGearTable_def Version1_def Version2_def)
qed

lemma toy_session_starts:
  assumes "ks_version (ia_keys ia) = Version2" "co_Mode compression = CompressionNever"
  obtains sw0 where "newSessionWriter toy_prims toy_zstd procs now ia compression (aw, rnd) = (Val sw0, (aw, rnd))"
    "sw_aw sw0 = aw" "sw_rnd sw0 = rnd" "sw_pack sw0 = None"
    "sw_index sw0 = \<lparr>si_Session = ia_sessions ia + 1, si_Time = now, si_PrevIndex = word_of_nat (ia_lastIndex ia),
        si_FirstChunk = word_of_nat (length (ia_chunks ia)), si_Packs = [], si_Chunks = [], si_Files = [], si_Deleted = []\<rparr>"
proof -
  obtain idKey gear where k: "ChunkIDKey toy_prims (ia_keys ia) = Ok idKey" "GearTable toy_prims (ia_keys ia) = Ok gear"
    using chunk_keys_total [OF toy_prims_correct(3) assms(1)] by blast
  obtain policy where p: "newCompressionPolicy toy_zstd procs compression = Ok policy" using assms(2) by (simp add: newCompressionPolicy_def)
  show thesis
    by (rule that [of "\<lparr>sw_aw = aw, sw_rnd = rnd, sw_ia = ia, sw_idKey = idKey, sw_gear = gear, sw_policy = policy, sw_compressor = None,
        sw_known = known_chunks 0 (ia_chunks ia),
        sw_index = \<lparr>si_Session = ia_sessions ia + 1, si_Time = now, si_PrevIndex = word_of_nat (ia_lastIndex ia),
          si_FirstChunk = word_of_nat (length (ia_chunks ia)), si_Packs = [], si_Chunks = [], si_Files = [], si_Deleted = []\<rparr>,
        sw_pack = None, sw_errors = []\<rparr>"])
      (use k p assms(2) in \<open>simp_all add: newSessionWriter_def bindS_def callS_def returnS_def\<close>)
qed

lemma special_session:
  assumes aw: "aw_keys aw = ia_keys ia" "ks_version (ia_keys ia) = Version2" "follows toy_prims (aw_hasher aw) base"
    and inps: "list_all input_ok inps" "list_all (\<lambda>inp. \<not> in_regular inp) inps" "length inps \<le> 8" "inps \<noteq> [] \<or> allowEmpty"
    and c: "co_Mode compression = CompressionNever" and rnd: "76 \<le> length rnd"
  shows "\<exists>res sw. writeSession toy_prims toy_zstd toy_hash_codec open_sink fs lower procs now ia (map special_change inps) [] compression allowEmpty (aw, rnd)
      = Val (res, True, sw) \<and> sw_rnd sw = drop 76 rnd \<and> aw_offset (sw_aw sw) \<le> aw_offset aw + 2 ^ 61"
proof -
  obtain sw0 where n: "newSessionWriter toy_prims toy_zstd procs now ia compression (aw, rnd) = (Val sw0, (aw, rnd))"
    and sw0: "sw_aw sw0 = aw" "sw_rnd sw0 = rnd" "sw_pack sw0 = None"
      "sw_index sw0 = \<lparr>si_Session = ia_sessions ia + 1, si_Time = now, si_PrevIndex = word_of_nat (ia_lastIndex ia),
          si_FirstChunk = word_of_nat (length (ia_chunks ia)), si_Packs = [], si_Chunks = [], si_Files = [], si_Deleted = []\<rparr>"
    using aw(2) c by (rule toy_session_starts)
  let ?res = "empty_result\<lparr>ir_Session := ia_sessions ia + 1, ir_Deleted := length ([] :: bytes list)\<rparr>"
  let ?si = "(sw_index sw0)\<lparr>si_Files := map special_version inps, si_Deleted := []\<rparr>"
  define sw1 where "sw1 = sw0\<lparr>sw_index := (sw_index sw0)\<lparr>si_Files := map special_version inps\<rparr>\<rparr>"
  obtain res1 where r: "record_files toy_prims toy_zstd open_sink fs lower (map special_change inps) ?res sw0 = (Val res1, sw1)"
      "ir_Changed res1 = length inps"
    using record_special [OF inps(2), of toy_prims toy_zstd open_sink fs lower ?res sw0] by (auto simp: sw1_def sw0 empty_result_def)
  obtain pt where pt: "si_Marshal ?si = Ok pt"
    using special_index_marshals [OF inps(1-3), of "ia_sessions ia + 1" now "word_of_nat (ia_lastIndex ia)" "word_of_nat (length (ia_chunks ia))"]
    by (auto simp: sw0)
  have v: "ks_version (aw_keys aw) = Version2" using aw by simp
  obtain en where en: "sealPayloadEntry toy_prims toy_zstd EntryTypeIndex CodecNone pt pt (aw, rnd) = (Val en, (aw, drop 76 rnd))"
    using sealPayloadEntry_completes [OF sample_ok(1) v rnd] by (metis knownCodec_simps(1))
  define aw4 where "aw4 = put_entry_of en aw"
  have w: "WriteFileEntry open_sink en aw = Ok aw4" by (simp add: aw4_def WriteFileEntry_accepts [OF open_sink_accepts])
  have f: "follows toy_prims (aw_hasher aw4) (base @ entry_bytes en)" by (rule wrote_follows [OF wrote_entry [OF w] aw(3)])
  obtain aw5 where t: "WriteCheckpointFooter toy_prims toy_hash_codec open_sink (aw_offset aw) aw4 = Ok aw5" using toy_footer_total [OF f] by blast
  have "length pt \<le> MaxIndexSize" using pt unfolding si_Marshal_Ok_conv by (elim conjE)
  then have "entry_sized en" "length (fe_DataBlocks en) \<le> MaxIndexSize"
    using sealPayloadEntry_sealed [OF toy_lib_ok en] sealPayloadEntry_blocks [OF en] by (auto simp: sealed_as_def)
  then have l: "aw_offset aw5 \<le> aw_offset aw + 2 ^ 61"
    using WriteCheckpointFooter_offset [OF t] wrote_fields(2) [OF wrote_entry [OF w]] entry_bytes_bound [of en]
    by (simp add: TailSize_def FooterSize_def CheckpointSize_def checkpointMagic_def checkpointStateSize_def str_def HMACSize_def ReservedSize_def)
  have "session_body toy_prims toy_zstd toy_hash_codec open_sink fs lower (map special_change inps) [] allowEmpty ?res sw0
      = (Val (res1\<lparr>ir_NewChunks := 0\<rparr>, True, sw1\<lparr>sw_index := ?si, sw_aw := aw5, sw_rnd := drop 76 rnd\<rparr>),
         sw1\<lparr>sw_index := ?si, sw_aw := aw5, sw_rnd := drop 76 rnd\<rparr>)"
    using r inps(4) pt en w t
    by (auto simp: session_body_def bindS_def closePack_def sw1_def sw0 updateS_def writeIndex_def withS_def callS_def swWriter_def
        returnS_def writeS_def)
  then have "writeSession toy_prims toy_zstd toy_hash_codec open_sink fs lower procs now ia (map special_change inps) [] compression allowEmpty (aw, rnd)
      = Val (res1\<lparr>ir_NewChunks := 0\<rparr>, True, sw1\<lparr>sw_index := ?si, sw_aw := aw5, sw_rnd := drop 76 rnd\<rparr>)"
    unfolding writeSession_def n session_body_def [symmetric] by simp
  with l show ?thesis by simp
qed

section \<open>A new archive with one directory\<close>

definition quiet_device :: device where
  "quiet_device = \<lparr>dv_answer = (\<lambda>_ _. None), dv_partial = (\<lambda>_. 0), dv_spill = (\<lambda>_. [9, 9, 9])\<rparr>"

definition inc_cfg :: "nat archiverConfig" where
  "inc_cfg = sample_cfg\<lparr>cf_compression := DefaultCompressionOptions\<lparr>co_Mode := CompressionNever\<rparr>\<rparr>"

definition inc_rnd :: bytes where
  "inc_rnd = replicate 32 5 @ replicate 44 0 @ replicate 12 0 @ replicate 76 0"

definition empty_file :: archiveFile where
  "empty_file = \<lparr>af_bytes = [], af_log = []\<rparr>"

abbreviation sample_create :: "inputFile list \<Rightarrow> IncrementalResult filing" where
  "sample_create inps \<equiv> createIncremental toy_prims toy_age toy_zstd toy_hash_codec toy_ssh open_sink quiet_device sample_os id 4 0 (str ''pw'') inc_cfg
     inps None inc_rnd"

abbreviation sample_dir :: "string \<Rightarrow> inputFile" where
  "sample_dir name \<equiv> sample_input name KindDirectory"

lemma sample_dirs: "list_all input_ok [sample_dir ''d'']" "list_all input_ok [sample_dir ''e'']" "\<not> in_regular (sample_dir n)"
  by (simp_all add: sample_input_def input_ok_def ValidEntryName_def str_def slash_def backslash_def dot_def MaxEntryNameLen_def NonceSize_def
      GCMTagSize_def validate_def in_regular_def KindRegular_def KindDirectory_def KindHardlink_def KindSymlink_def ModeMask_def)

lemma quiet_call: "f_call quiet_device w c f = (Val (), f\<lparr>af_log := af_log f @ [(c, None)]\<rparr>)"
  by (simp add: f_call_def quiet_device_def)

lemma sample_archive_created: "\<exists>res f'. sample_create [sample_dir ''d''] empty_file = (Val res, f') \<and> ir_AppendedBytes res < 2 ^ 62"
proof -
  obtain aw0 where aw0: "NewArchiveWriter toy_prims toy_age sample_creds inc_rnd = Ok (aw0, replicate 12 0 @ replicate 76 0)"
      "aw_keys aw0 = NewVersion2KeySchedule (replicate 32 5)"
    using sample_writer [of "replicate 12 0 @ replicate 76 0"] unfolding inc_rnd_def by blast
  have "\<exists>c. SealFileCount toy_prims (aw_keys aw0) 1 (replicate 12 0 @ replicate 76 0) = Ok (c, replicate 76 0)"
    by (rule SealFileCount_total) (simp_all add: toy_prims_correct aw0(2) NewVersion2KeySchedule_def NonceSize_def)
  then obtain aw where w: "WriteHeaderWithFlags toy_prims open_sink 1 HeaderFlagIncremental aw0 (replicate 12 0 @ replicate 76 0) = Ok (aw, replicate 76 0)"
    by (auto simp: WriteHeaderWithFlags_def writeHeader_def tee_Write_accepts [OF open_sink_accepts])
  have "archiveCredentials (str ''pw'') inc_cfg = sample_creds"
    by (simp add: archiveCredentials_def inc_cfg_def sample_cfg_def sample_creds_def str_def)
  then have n: "newCredentialedWriter toy_prims toy_age (str ''pw'') inc_cfg inc_rnd = (Val aw0, replicate 12 0 @ replicate 76 0)"
    using aw0(1) by (simp add: newCredentialedWriter_def str_def)
  obtain cek rnd0 block sealed where h: "GenerateCEK inc_rnd = Ok (cek, rnd0)" "header_ok toy_prims (new_file cek block sealed)"
      "aw_keys aw = NewVersion2KeySchedule cek" "aw_offset aw = length (if_base (new_file cek block sealed))"
      "follows toy_prims (aw_hasher aw) (if_base (new_file cek block sealed))"
    using aw0(1) w toy_prims_correct(1) by (rule new_header)
  have off: "aw_offset aw < 2 ^ 40"
    using h(2,4) by (simp add: header_ok_def if_base_def header_bytes_def new_file_def MaxRecipientBlockSize_def Magic_def FileCountSealedSize_def
        NonceSize_def GCMTagSize_def ReservedSize_def)
  let ?ia = "empty_archive (aw_keys aw)"
  have fc: "first_changes sample_os [sample_dir ''d''] = map special_change [sample_dir ''d'']"
    using sample_dirs(3) by (simp add: first_changes_def special_change_def)
  have ia: "aw_keys aw = ia_keys ?ia" "ks_version (ia_keys ?ia) = Version2" by (simp_all add: empty_archive_def h(3) NewVersion2KeySchedule_def)
  have m: "co_Mode (cf_compression inc_cfg) = CompressionNever" by (simp add: inc_cfg_def)
  obtain res sw where s: "writeSession toy_prims toy_zstd toy_hash_codec open_sink sample_os id 4 0 ?ia (map special_change [sample_dir ''d'']) []
      (cf_compression inc_cfg) True (aw, replicate 76 0) = Val (res, True, sw)" "aw_offset (sw_aw sw) \<le> aw_offset aw + 2 ^ 61"
    using special_session [OF ia h(5) sample_dirs(1) _ _ _ m, where rnd = "replicate 76 0" and allowEmpty = True and fs = sample_os
        and lower = id and procs = 4 and now = 0] sample_dirs(3) by auto
  have "\<exists>f'. sample_create [sample_dir ''d''] empty_file
      = (Val (res\<lparr>ir_Created := True, ir_AppendedBytes := int (aw_offset (sw_aw sw) + FooterSize)\<rparr>), f')"
    using n w s(1) unfolding createIncremental_def fc
    by (simp add: bindS_def quiet_call f_written_def updateS_def returnS_def)
  moreover have "int (aw_offset (sw_aw sw) + FooterSize) < 2 ^ 62" using s(2) off by (simp add: FooterSize_def HMACSize_def ReservedSize_def)
  ultimately show ?thesis by auto
qed

lemma sample_no_input: "input_chunks sample_os gear [sample_dir ''d''] = {}" "input_chunks sample_os gear [sample_dir ''e''] = {}"
  by (simp_all add: input_chunks_def sample_os_def sample_input_def str_def)

lemma sample_no_collisions: "no_collisions toy_prims keys sample_os [] [sample_dir ''d'']" "no_collisions toy_prims keys sample_os [] [sample_dir ''e'']"
  by (simp_all add: no_collisions_def sample_no_input tells_apart_def)


section \<open>An update with another directory\<close>

lemma sample_sound: "\<exists>g. file_sound toy_prims toy_zstd toy_hash_codec g \<and> if_raws g = [] \<and> length (if_bytes toy_prims g) < 2 ^ 62"
proof -
  obtain res f' where r: "sample_create [sample_dir ''d''] empty_file = (Val res, f')" "ir_AppendedBytes res < 2 ^ 62" using sample_archive_created by blast
  have e: "af_bytes empty_file = []" "ir_AppendedBytes res < 2 ^ 63" using r(2) by (simp_all add: empty_file_def)
  obtain g where g: "file_sound toy_prims toy_zstd toy_hash_codec g" "ir_AppendedBytes res = int (length (if_bytes toy_prims g))"
      "\<forall>gear. GearTable toy_prims (if_keys g) = Ok gear \<longrightarrow> set (if_raws g) \<subseteq> input_chunks sample_os gear [sample_dir ''d'']"
    using create_sound [OF toy_chunk_lib toy_hash_resumes toy_prims_wrap_laws toy_age_correct r(1) e(1) sample_no_collisions(1) e(2)] by blast
  have "ks_version (if_keys g) = Version2" by (simp add: if_keys_def NewVersion2KeySchedule_def)
  with chunk_keys_total(2) [OF toy_prims_correct(3)] g(3) have "if_raws g = []" by (auto simp: sample_no_input)
  with g(1,2) r(2) show ?thesis by auto
qed

definition file_of :: "bytes \<Rightarrow> archiveFile" where
  "file_of b = \<lparr>af_bytes = b, af_log = []\<rparr>"

abbreviation sample_append :: "incrementalArchive \<Rightarrow> inputFile list \<Rightarrow> bytes \<Rightarrow> (IncrementalResult \<times> (bytes \<times> nat) option) outcome \<times> archiveFile" where
  "sample_append ia inps b \<equiv> appendSession toy_prims toy_zstd toy_hash_codec open_sink quiet_device sample_os id 4 0 ia
     (map special_change inps) [] (cf_compression inc_cfg) empty_result (length b) (replicate 76 0 @ replicate 12 0) (file_of b)"

lemma bind_runs: "m f = (Val x, f1) \<Longrightarrow> \<exists>r f'. h x f1 = (Val (r, y), f') \<Longrightarrow> \<exists>r f'. bindS m h f = (Val (r, y), f')"
  by (simp add: bindS_def)

lemma bind_runs_ex: "\<exists>f1. m f = (Val (), f1) \<Longrightarrow> (\<And>f1. \<exists>r f'. h () f1 = (Val (r, y), f')) \<Longrightarrow> \<exists>r f'. bindS m h f = (Val (r, y), f')"
  by (auto simp: bindS_def)

lemma quiet_ReadAt:
  "off + n \<le> length (af_bytes f) \<Longrightarrow>
   f_ReadAt quiet_device w n off f = (Val (take n (drop off (af_bytes f))), f\<lparr>af_log := af_log f @ [(FReadAt n off, None)]\<rparr>)"
  by (simp add: f_ReadAt_def bindS_def quiet_call withS_def orFail_def ReadAt_def f_stream_def)

lemma quiet_truncate: "\<exists>f'. truncateAndSync quiet_device n f = (Val (), f')"
  by (simp add: truncateAndSync_def f_Truncate_def bindS_def quiet_call updateS_def)

lemma quiet_seal:
  assumes "SealFileCount P (ia_keys ia) n rnd = Ok (c, rnd')" shows "\<exists>f'. sealSession P quiet_device ia n rnd f = (Val (), f')"
  by (simp add: sealSession_def bindS_def callS_def assms f_WriteAt_def quiet_device_def f_call_def Let_def)

lemma sample_appended:
  assumes g: "file_sound toy_prims toy_zstd toy_hash_codec g" "length (if_bytes toy_prims g) < 2 ^ 62"
  shows "\<exists>res checksum end' f'. sample_append (if_archive g) [sample_dir ''e''] (if_bytes toy_prims g) = (Val (res, Some (checksum, end')), f') \<and> end' < 2 ^ 63"
proof -
  let ?ia = "if_archive g" and ?b = "if_bytes toy_prims g" and ?rnd = "replicate 76 0 @ replicate 12 0 :: bytes"
  note len = if_lengths [OF g(1)]
  have ia: "ia_keys ?ia = if_keys g" "state_of ?ia = if_state g" "ks_version (if_keys g) = Version2"
    by (simp_all add: if_archive_def log_archive_def state_of_def if_keys_def NewVersion2KeySchedule_def)
  obtain c where c: "ResumeArchiveChecksum toy_hash_codec (if_state g) = Ok c" "follows toy_prims c (if_base g)"
    using g(1) by (auto simp: file_sound_def tail_ok_def)
  define aw where "aw = newArchiveWriter (if_keys g) [] c (ia_tail ?ia)"
  have r: "ResumeArchiveWriter toy_hash_codec (ia_keys ?ia) (ia_tail ?ia) (state_of ?ia) = Ok aw"
    by (simp add: ResumeArchiveWriter_def ia c(1) aw_def)
  have a: "aw_keys aw = ia_keys ?ia" "ks_version (ia_keys ?ia) = Version2" "follows toy_prims (aw_hasher aw) (if_base g)" "aw_offset aw = ia_tail ?ia"
    using c(2) ia by (simp_all add: aw_def newArchiveWriter_def)
  have m: "co_Mode (cf_compression inc_cfg) = CompressionNever" by (simp add: inc_cfg_def)
  obtain sr sw where s: "writeSession toy_prims toy_zstd toy_hash_codec open_sink sample_os id 4 0 ?ia (map special_change [sample_dir ''e'']) []
      (cf_compression inc_cfg) False (aw, ?rnd) = Val (sr, True, sw)" "sw_rnd sw = replicate 12 0" "aw_offset (sw_aw sw) \<le> aw_offset aw + 2 ^ 61"
    using special_session [OF a(1-3) sample_dirs(2) _ _ _ m, where rnd = ?rnd and allowEmpty = False and fs = sample_os
        and lower = id and procs = 4 and now = 0] sample_dirs(3) by auto
  obtain sealed where sl: "SealFileCount toy_prims (ia_keys ?ia) (ir_Session sr) (sw_rnd sw) = Ok (sealed, [])"
    using SealFileCount_total [OF toy_prims_correct(3) a(2), of "replicate 12 0" "ir_Session sr" "[]"] s(2) by (auto simp: NonceSize_def)
  have rd: "ia_tail ?ia + (length ?b - ia_tail ?ia) \<le> length (af_bytes (file_of ?b))" using len by (simp add: file_of_def)
  let ?fin = "aw_offset (sw_aw sw) + FooterSize"
  have "?fin < 2 ^ 63" using s(3) a(4) len g(2) by (simp add: FooterSize_def HMACSize_def ReservedSize_def)
  moreover have "\<exists>res f'. sample_append ?ia [sample_dir ''e''] ?b = (Val (res, Some (aw_checksum (sw_aw sw), ?fin)), f')"
  proof -
    have call: "callS w (ResumeArchiveWriter toy_hash_codec (ia_keys ?ia) (ia_tail ?ia) (state_of ?ia)) f = (Val aw, f)" for w f
      by (simp add: callS_def r)
    have written: "f_written b off f = (Val (), f\<lparr>af_bytes := overwrite (af_bytes f) b off\<rparr>)" for b off f
      by (simp add: f_written_def updateS_def)
    have "\<exists>f'. catchS (truncateAndSync quiet_device ?fin) h f = (Val (), f')" for h f
      using quiet_truncate [of ?fin f] by (auto simp: catchS_def)
    note tr = this
    show ?thesis
      unfolding appendSession_def Let_def
      by (rule bind_runs, rule quiet_ReadAt [OF rd], rule bind_runs, rule quiet_call, rule bind_runs, rule call,
        simp only: s(1) outcome.case prod.case not_True_eq_False if_False, rule bind_runs, rule written,
        rule bind_runs_ex, rule tr, rule bind_runs_ex, rule quiet_seal [OF sl], simp add: returnS_def)
  qed
  ultimately show ?thesis by blast
qed

theorem appended_session_loads_witness:
  "\<exists>g g' res checksum end' f'. file_sound toy_prims toy_zstd toy_hash_codec g
    \<and> sample_append (if_archive g) [sample_dir ''e''] (if_bytes toy_prims g) = (Val (res, Some (checksum, end')), f')
    \<and> af_bytes f' = if_bytes toy_prims g'
    \<and> loadIncremental toy_prims toy_zstd (f_stream f') (length (af_bytes f')) (if_keys g) (if_header g') = Val (if_archive g')"
proof -
  obtain g where g: "file_sound toy_prims toy_zstd toy_hash_codec g" "if_raws g = []" "length (if_bytes toy_prims g) < 2 ^ 62"
    using sample_sound by blast
  obtain res checksum end' f' where r: "sample_append (if_archive g) [sample_dir ''e''] (if_bytes toy_prims g) = (Val (res, Some (checksum, end')), f')"
      "end' < 2 ^ 63"
    using sample_appended [OF g(1,3)] by blast
  have b: "af_bytes (file_of (if_bytes toy_prims g)) = if_bytes toy_prims g @ []" by (simp add: file_of_def)
  have r': "appendSession toy_prims toy_zstd toy_hash_codec open_sink quiet_device sample_os id 4 0 (if_archive g)
     (map special_change [sample_dir ''e'']) [] (cf_compression inc_cfg) empty_result (length (af_bytes (file_of (if_bytes toy_prims g))))
     (replicate 76 0 @ replicate 12 0) (file_of (if_bytes toy_prims g)) = (Val (res, Some (checksum, end')), f')"
    using r(1) by (simp add: file_of_def)
  have nc: "no_collisions toy_prims (if_keys g) sample_os (if_raws g) (map cf_in (map special_change [sample_dir ''e'']))"
    using sample_no_collisions(2) g(2) by (simp add: special_change_def)
  have ch: "length (if_chunks g) < 2 ^ 62"
    using g(1,2) by (auto simp: file_sound_def sessions_ok_def raws_of_def)
  from appended_session_loads [OF toy_chunk_lib toy_hash_resumes g(1) b r' nc ch r(2)] g(1) r(1) show ?thesis by blast
qed

theorem loaded_state_ok_witness:
  "\<exists>b len keys header ia. loadIncremental toy_prims toy_zstd (Stream b EOF) len keys header = Val ia
    \<and> state_ok (word_of_nat (ia_lastIndex ia)) ia \<and> hi_sealedCount header \<le> ia_sessions ia"
proof -
  obtain g where g: "file_sound toy_prims toy_zstd toy_hash_codec g" using sample_sound by blast
  from sound_loads [OF this toy_lib_ok, of "[]" EOF]
  have l: "loadIncremental toy_prims toy_zstd (Stream (if_bytes toy_prims g) EOF) (length (if_bytes toy_prims g)) (if_keys g) (if_header g) = Val (if_archive g)"
    by simp
  from loaded_state_ok [OF l] l show ?thesis by blast
qed

section \<open>An update that fails\<close>

text \<open>The only changed input cannot be examined, so nothing is recorded.\<close>

definition failed_change :: changedFile where
  "failed_change = \<lparr>cf_in = sample_input ''x'' KindRegular, cf_info = None, cf_err = Some (readFailed ''stat file'' (Errorf ''no such file''))\<rparr>"

lemma failed_session:
  assumes "ks_version (ia_keys ia) = Version2" and "co_Mode compression = CompressionNever"
  shows "\<exists>res sw. writeSession toy_prims toy_zstd toy_hash_codec open_sink fs lower procs now ia [failed_change] [] compression False (aw, rnd) = Val (res, False, sw)"
  using assms
proof (rule toy_session_starts)
  fix sw0 assume "newSessionWriter toy_prims toy_zstd procs now ia compression (aw, rnd) = (Val sw0, (aw, rnd))"
  then show ?thesis
    by (simp add: writeSession_def failed_change_def bindS_def updateS_def returnS_def withS_def empty_result_def)
qed

lemma bind_ends: "m f = (Val x, f1) \<Longrightarrow> \<exists>f'. h x f1 = (y, f') \<and> Q f' \<Longrightarrow> \<exists>f'. bindS m h f = (y, f') \<and> Q f'"
  by (simp add: bindS_def)

lemma bind_returns: "\<exists>f1. m f = (Val (), f1) \<and> Q f1 \<Longrightarrow> \<exists>f'. bindS m (\<lambda>_. returnS z) f = (Val z, f') \<and> Q f'"
  by (auto simp: bindS_def returnS_def)

lemma quiet_restore:
  "\<exists>f'. restoreTail quiet_device b t n f = (Val (), f') \<and> \<not> call_failed f'"
  by (simp add: restoreTail_def bindS_def f_WriteAt_def truncateAndSync_def f_Truncate_def f_call_def quiet_device_def updateS_def Let_def call_failed_def)

theorem failed_update_restores_witness:
  "\<exists>g res f'. file_sound toy_prims toy_zstd toy_hash_codec g
    \<and> appendSession toy_prims toy_zstd toy_hash_codec open_sink quiet_device sample_os id 4 0 (if_archive g) [failed_change] []
        (cf_compression inc_cfg) empty_result (length (if_bytes toy_prims g)) [] (file_of (if_bytes toy_prims g)) = (Val (res, None), f')
    \<and> af_bytes f' = if_bytes toy_prims g"
proof -
  obtain g where g: "file_sound toy_prims toy_zstd toy_hash_codec g" using sample_sound by blast
  let ?ia = "if_archive g" and ?b = "if_bytes toy_prims g"
  note len = if_lengths [OF g]
  obtain c where c: "ResumeArchiveChecksum toy_hash_codec (if_state g) = Ok c" using g by (auto simp: file_sound_def tail_ok_def)
  have ia: "ia_keys ?ia = if_keys g" "state_of ?ia = if_state g" "ks_version (ia_keys ?ia) = Version2"
    by (simp_all add: if_archive_def log_archive_def state_of_def if_keys_def NewVersion2KeySchedule_def)
  obtain aw where r: "ResumeArchiveWriter toy_hash_codec (ia_keys ?ia) (ia_tail ?ia) (state_of ?ia) = Ok aw"
    by (simp add: ResumeArchiveWriter_def ia c)
  have m: "co_Mode (cf_compression inc_cfg) = CompressionNever" by (simp add: inc_cfg_def)
  obtain sr sw where s: "writeSession toy_prims toy_zstd toy_hash_codec open_sink sample_os id 4 0 ?ia [failed_change] [] (cf_compression inc_cfg) False (aw, [])
      = Val (sr, False, sw)"
    using failed_session [OF ia(3) m] by blast
  have rd: "ia_tail ?ia + (length ?b - ia_tail ?ia) \<le> length (af_bytes (file_of ?b))" using len by (simp add: file_of_def)
  have call: "callS w (ResumeArchiveWriter toy_hash_codec (ia_keys ?ia) (ia_tail ?ia) (state_of ?ia)) f = (Val aw, f)" for w f
    by (simp add: callS_def r)
  have spilled: "f_spilled quiet_device off f = (Val (), f\<lparr>af_bytes := overwrite (af_bytes f) [9, 9, 9] off\<rparr>)" for off f
    by (simp add: f_spilled_def updateS_def quiet_device_def)
  have "\<exists>f'. appendSession toy_prims toy_zstd toy_hash_codec open_sink quiet_device sample_os id 4 0 ?ia [failed_change] []
        (cf_compression inc_cfg) empty_result (length ?b) [] (file_of ?b) = (Val (empty_result\<lparr>ir_Failed := ir_Failed sr\<rparr>, None), f') \<and> \<not> call_failed f'"
    unfolding appendSession_def Let_def
    by (rule bind_ends, rule quiet_ReadAt [OF rd], rule bind_ends, rule quiet_call, rule bind_ends, rule call,
      simp only: s outcome.case prod.case not_False_eq_True if_True, rule bind_ends, rule spilled, rule bind_returns, rule quiet_restore)
  then obtain f' where run: "appendSession toy_prims toy_zstd toy_hash_codec open_sink quiet_device sample_os id 4 0 ?ia [failed_change] []
        (cf_compression inc_cfg) empty_result (length ?b) [] (file_of ?b) = (Val (empty_result\<lparr>ir_Failed := ir_Failed sr\<rparr>, None), f')" "\<not> call_failed f'"
    by blast
  have run': "appendSession toy_prims toy_zstd toy_hash_codec open_sink quiet_device sample_os id 4 0 ?ia [failed_change] []
        (cf_compression inc_cfg) empty_result (length (af_bytes (file_of ?b))) [] (file_of ?b) = (Val (empty_result\<lparr>ir_Failed := ir_Failed sr\<rparr>, None), f')"
    using run(1) by (simp add: file_of_def)
  have "af_bytes f' = af_bytes (file_of ?b)"
    by (rule failed_update_restores [OF run' _ _ _ _ run(2)]) (use len in \<open>simp_all add: file_of_def\<close>)
  with g run(1) show ?thesis by (auto simp: file_of_def)
qed

end
