(* ===== verification/Archivable_Inputs.thy ===== *)
theory Archivable_Inputs
  imports Inputs Archive_Completes
begin

text \<open>
  What the arguments expand to (\<open>Inputs\<close>) is what the archivers require of their inputs (\<open>input_ok\<close>), and a concrete directory.
\<close>

section \<open>The entries can be archived\<close>

lemma sound_input_ok:
  assumes "list_all entry_sound files" and "links_earlier files" and "list_all (\<lambda>f. length (in_name f) \<le> MaxLinkTargetLen) files"
  shows "list_all input_ok files"
  unfolding list_all_length
proof (intro allI impI)
  fix i
  assume i: "i < length files"
  have f: "entry_sound (files ! i)" "length (in_name (files ! i)) \<le> MaxLinkTargetLen" using assms i by (auto simp: list_all_length)
  have "length (a_LinkTarget (in_attrs (files ! i))) \<le> MaxLinkTargetLen"
  proof (cases "a_Kind (in_attrs (files ! i)) = KindHardlink")
    case True
    then obtain g where "g \<in> set (take i files)" "in_name g = a_LinkTarget (in_attrs (files ! i))"
      using assms(2) i by (auto simp: links_earlier_def list_ex_iff is_link_to_def)
    then show ?thesis using assms(3) by (metis in_set_takeD list_all_iff)
  qed (use f(1) in \<open>simp add: entry_sound_def\<close>)
  then show "input_ok (files ! i)"
    using f by (simp add: entry_sound_def input_ok_def NonceSize_def GCMTagSize_def MaxLinkTargetLen_def)
qed

text \<open>
  C29: whatever the file system holds and answers, the entries that the arguments expand to can be archived.  Their names are safe, each hard
  link follows the regular file it is a link to, and as long as no name is longer than 4096 bytes, the bound of a path, every entry meets
  what the archivers require of their inputs.
\<close>

theorem expandInputs_sound:
  assumes "expandInputs W owner paths x = (files, skipped)"
  shows "list_all (\<lambda>f. ValidEntryName (in_name f)) files \<and> links_earlier files
    \<and> (list_all (\<lambda>f. length (in_name f) \<le> MaxLinkTargetLen) files \<longrightarrow> list_all input_ok files)"
proof -
  have "list_all entry_sound files" "links_earlier files"
    using expandInputs_walker [of W owner paths x] assms by (auto simp: walker_ok_def)
  then show ?thesis using sound_input_ok by (auto simp: entry_sound_def list_all_iff)
qed

section \<open>A concrete directory\<close>

text \<open>
  The directory \<^verbatim>\<open>data\<close>, given as \<^verbatim>\<open>data/\<close>, with two links to one file and a pipe; and an argument that does not exist.
\<close>

definition sample_info :: "string \<Rightarrow> u32 \<Rightarrow> u64 \<Rightarrow> statInfo" where
  "sample_info name mode ino =
     \<lparr>inf_Name = str name, inf_Size = 3, inf_Mode = mode, inf_ModTime = 5,
      inf_Sys = Some \<lparr>st_Nlink = 2, st_Dev = 1, st_Ino = ino, st_Uid = 1000, st_Gid = 100\<rparr>\<rparr>"

definition sample_leaf :: "string \<Rightarrow> u32 \<Rightarrow> u64 \<Rightarrow> dirEntry" where
  "sample_leaf name mode ino = DirEntry (str name) False (Inr (sample_info name mode ino)) [] None"

definition sample_tree :: dirEntry where
  "sample_tree =
     DirEntry (str ''data'') True (Inr (sample_info ''data'' 0x800001ED 1))
       [sample_leaf ''a'' 0x1A4 7, sample_leaf ''b'' 0x1A4 7, sample_leaf ''pipe'' 0x2000000 9] None"

definition sample_walk :: "unit walkOS" where
  "sample_walk =
     \<lparr>wo_Stat = (\<lambda>p. if p = str ''data/'' then Inr (sample_info ''data'' 0x800001ED 1) else Inl (Errorf ''not found'')),
      wo_Lstat = (\<lambda>p. Inr (sample_info ''data'' 0x800001ED 1)),
      wo_tree = (\<lambda>p. Inr sample_tree), wo_Readlink = (\<lambda>p. Inl (Errorf ''not a link'')),
      wo_xattrs = \<lparr>xo_list_size = (\<lambda>p x. (Inl ENOTSUP, x)), xo_list = (\<lambda>p n x. (Inr [], x)),
        xo_get_size = (\<lambda>p a x. (Inr 0, x)), xo_get = (\<lambda>p a n x. (Inr [], x))\<rparr>\<rparr>"

definition sample_paths :: "bytes list" where
  "sample_paths = [str ''data/'', str ''missing'']"

lemma sample_names:
  "directoryPrefix (str ''data/'') = str ''data''" "storedName (str ''data'') (str ''data/'') (str ''data/'') = str ''data''"
  "filepath_Join (str ''data/'') (str ''a'') = str ''data/a''" "storedName (str ''data'') (str ''data/'') (str ''data/a'') = str ''data/a''"
  "filepath_Join (str ''data/'') (str ''b'') = str ''data/b''" "storedName (str ''data'') (str ''data/'') (str ''data/b'') = str ''data/b''"
  "filepath_Join (str ''data/'') (str ''pipe'') = str ''data/pipe''" "storedName (str ''data'') (str ''data/'') (str ''data/pipe'') = str ''data/pipe''"
  by code_simp+

lemma sample_valid:
  "ValidEntryName (str ''data'')" "ValidEntryName (str ''data/a'')" "ValidEntryName (str ''data/b'')" "ValidEntryName (str ''data/pipe'')"
  by (simp_all add: ValidEntryName_def str_def slash_def backslash_def dot_def MaxEntryNameLen_def)

lemma sample_modes:
  "mode_IsDir 0x800001ED" "\<not> mode_IsRegular 0x800001ED" "\<not> mode_IsSymlink 0x800001ED" "mode_IsRegular 0x1A4" "\<not> mode_IsSymlink 0x1A4"
  "\<not> mode_IsRegular 0x2000000" "\<not> mode_IsDir 0x2000000" "\<not> mode_IsSymlink 0x2000000"
  by (simp_all add: mode_IsDir_def mode_IsRegular_def mode_IsSymlink_def ModeDir_def ModeType_def ModeSymlink_def)

lemma sample_readXattrs: "readXattrs (wo_xattrs sample_walk) p x = (Inr [], x)"
  by (simp add: readXattrs_def listXattrs_def xattrRetries_def eval_nat_numeral sample_walk_def unsupportedXattrs_def)

lemma sample_wk_xattrs: "wk_xattrs sample_walk p name wk = ([], wk)"
  by (simp add: wk_xattrs_def sample_readXattrs Let_def)

lemma sample_expands:
  "map (\<lambda>f. (in_name f, a_Kind (in_attrs f), a_LinkTarget (in_attrs f))) (fst (expandInputs sample_walk True sample_paths ())) =
     [(str ''data'', KindDirectory, []), (str ''data/a'', KindRegular, []), (str ''data/b'', KindHardlink, str ''data/a'')]"
proof -
  have os: "wo_Stat sample_walk (str ''data/'') = Inr (sample_info ''data'' 0x800001ED 1)" "wo_Stat sample_walk (str ''missing'') = Inl (Errorf ''not found'')"
    "wo_Lstat sample_walk p = Inr (sample_info ''data'' 0x800001ED 1)" "wo_tree sample_walk p = Inr sample_tree" for p
    by (simp_all add: sample_walk_def str_def)
  have ne: "str ''data/'' \<noteq> str ''data/a''" "str ''data/'' \<noteq> str ''data/b''" "str ''data/'' \<noteq> str ''data/pipe''" "str ''data'' \<noteq> []"
    "str ''data/a'' \<noteq> []" "str ''data/b'' \<noteq> []" "str ''data/pipe'' \<noteq> []"
    by (simp_all add: str_def)
  show ?thesis
    by (simp add: expandInputs_def sample_paths_def expand_input_def os sample_info_def sample_modes wk_walkDir_def sample_names WalkDir_def
        sample_tree_def sample_leaf_def wk_visit_def ne ne [symmetric] wk_add_def sample_valid wk_kind_def linkedFileID_def sample_wk_xattrs wk_skip_def newWalker_def Let_def)
qed

theorem expandInputs_sound_witness:
  "list_all input_ok (fst (expandInputs sample_walk True sample_paths ())) \<and> links_earlier (fst (expandInputs sample_walk True sample_paths ()))"
proof -
  have "map in_name (fst (expandInputs sample_walk True sample_paths ())) = [str ''data'', str ''data/a'', str ''data/b'']"
    using arg_cong [OF sample_expands, of "map fst"] by (simp add: comp_def)
  then have "list_all (\<lambda>f. length (in_name f) \<le> MaxLinkTargetLen) (fst (expandInputs sample_walk True sample_paths ()))"
    by (auto simp: MaxLinkTargetLen_def)
  with expandInputs_sound [of sample_walk True sample_paths "()", OF prod.collapse [symmetric]] show ?thesis by blast
qed

end
