(* ===== verification/Storage_Reader.thy ===== *)
theory Storage_Reader
  imports Prelude
begin

text \<open>
  Reading stored objects (\<^verbatim>\<open>storage/reader.go\<close>): a sequential reader of a range that reopens the object where a
  connection broke off, and random access on top of it.
  The contract \<open>stored_object\<close> is what they rely on; \<open>Local_Store\<close> interprets it.
\<close>

section \<open>Objects\<close>

datatype storage_error =
    ErrNotFound
  | ErrObjectChanged
  | EndOfFile
  | UnexpectedEOF
  | StorageErrorf string
  | StorageWrap string storage_error
  | ReadFailed nat nat storage_error

text \<open>
  \<^verbatim>\<open>ReadFailed off attempts err\<close> is what \<^verbatim>\<open>backoff\<close> gives up with.  \<^verbatim>\<open>errors.Is\<close>: the error or one it wraps.
\<close>

fun is_error :: "storage_error \<Rightarrow> storage_error \<Rightarrow> bool" where
  "is_error t (StorageWrap m e) \<longleftrightarrow> StorageWrap m e = t \<or> is_error t e"
| "is_error t (ReadFailed off k e) \<longleftrightarrow> ReadFailed off k e = t \<or> is_error t e"
| "is_error t e \<longleftrightarrow> e = t"

text \<open>
  An implementation of the interface \<^verbatim>\<open>Object\<close> and of the bodies it opens; \<open>'w\<close> is the state of the world.  Reading
  a body into a buffer of \<open>n\<close> bytes gives the bytes read and an error.
\<close>

record ('b, 'w) object =
  ob_Size :: nat
  ob_NewRangeReader :: "nat \<Rightarrow> int \<Rightarrow> 'w \<Rightarrow> (storage_error + 'b) \<times> 'w"
  ob_Read :: "'b \<Rightarrow> nat \<Rightarrow> 'w \<Rightarrow> (bytes \<times> storage_error option) \<times> 'b \<times> 'w"
  ob_Close :: "'b \<Rightarrow> 'w \<Rightarrow> storage_error option \<times> 'w"

text \<open>A context: the error it was cancelled with, and whether a timer fires before it is.\<close>

record 'w storageContext =
  cx_Err :: "'w \<Rightarrow> storage_error option"
  cx_fires :: "nat \<Rightarrow> 'w \<Rightarrow> bool \<times> 'w"

definition sleepContext :: "'w storageContext \<Rightarrow> nat \<Rightarrow> 'w \<Rightarrow> storage_error option \<times> 'w" where
  "sleepContext cx d w = (case cx_fires cx d w of (fired, w) \<Rightarrow> (if fired then None else cx_Err cx w, w))"

section \<open>The range reader\<close>

definition maxConsecutiveResumes :: nat where "maxConsecutiveResumes = 5"

text \<open>In nanoseconds.\<close>

definition resumeBaseDelay :: nat where "resumeBaseDelay = 200 * 1000000"
definition resumeMaxDelay :: nat where "resumeMaxDelay = 5 * 1000000000"

record 'b rangeReader =
  rr_off :: nat
  rr_end :: nat
  rr_body :: "'b option"
  rr_resumes :: nat

definition newRangeReader :: "nat \<Rightarrow> nat \<Rightarrow> 'b rangeReader" where
  "newRangeReader off fin = \<lparr>rr_off = off, rr_end = fin, rr_body = None, rr_resumes = 0\<rparr>"

definition rr_backoff ::
  "'w storageContext \<Rightarrow> storage_error \<Rightarrow> 'b rangeReader \<Rightarrow> 'w \<Rightarrow> storage_error option \<times> 'b rangeReader \<times> 'w" where
  "rr_backoff cx err r w =
     (if cx_Err cx w \<noteq> None \<or> is_error ErrNotFound err \<or> is_error ErrObjectChanged err then (Some err, r, w)
      else if maxConsecutiveResumes \<le> rr_resumes r then (Some (ReadFailed (rr_off r) (rr_resumes r + 1) err), r, w)
      else
        let delay = min (resumeBaseDelay * 2 ^ rr_resumes r) resumeMaxDelay;
            r = r\<lparr>rr_resumes := Suc (rr_resumes r)\<rparr> in
        case sleepContext cx delay w of
          (Some serr, w) \<Rightarrow> (Some err, r, w)
        | (None, w) \<Rightarrow> (None, r, w))"

lemma rr_backoff_retries:
  assumes "rr_backoff cx err r w = (None, r', w')"
  shows "r' = r\<lparr>rr_resumes := Suc (rr_resumes r)\<rparr> \<and> rr_resumes r < maxConsecutiveResumes
    \<and> (\<exists>d. w' = snd (cx_fires cx d w))"
  using assms
  by (auto simp: rr_backoff_def sleepContext_def Let_def split: if_splits prod.splits option.splits) (metis snd_conv)+

text \<open>The body at hand, opened first when there is none.\<close>

definition rr_open :: "('b, 'w) object \<Rightarrow> 'b rangeReader \<Rightarrow> 'w \<Rightarrow> (storage_error + 'b) \<times> 'w" where
  "rr_open obj r w =
     (case rr_body r of
        Some b \<Rightarrow> (Inr b, w)
      | None \<Rightarrow> ob_NewRangeReader obj (rr_off r) (int (rr_end r) - int (rr_off r)) w)"

text \<open>What reading the body did to the reader.\<close>

definition rr_advance :: "'b \<Rightarrow> bytes \<Rightarrow> 'b rangeReader \<Rightarrow> 'b rangeReader" where
  "rr_advance b x r =
     r\<lparr>rr_body := Some b, rr_off := rr_off r + length x, rr_resumes := if x \<noteq> [] then 0 else rr_resumes r\<rparr>"

text \<open>The loop of \<^verbatim>\<open>Read\<close>: it goes round again only after waiting, and at most five times.\<close>

function rr_loop ::
  "('b, 'w) object \<Rightarrow> 'w storageContext \<Rightarrow> nat \<Rightarrow> 'b rangeReader \<Rightarrow> 'w
   \<Rightarrow> (bytes \<times> storage_error option) \<times> 'b rangeReader \<times> 'w" where
  "rr_loop obj cx n r w =
     (case rr_open obj r w of
        (Inl e, w) \<Rightarrow>
          (case rr_backoff cx e r w of
             (Some e', r, w) \<Rightarrow> (([], Some e'), r, w)
           | (None, r, w) \<Rightarrow> rr_loop obj cx n r w)
      | (Inr b, w) \<Rightarrow>
          (case ob_Read obj b n w of
             ((x, err), b, w) \<Rightarrow>
               (case err of
                  None \<Rightarrow> ((x, None), rr_advance b x r, w)
                | Some e \<Rightarrow>
                    if e = EndOfFile \<and> rr_end r \<le> rr_off r + length x then ((x, None), rr_advance b x r, w)
                    else
                      (case ob_Close obj b w of
                         (_, w) \<Rightarrow>
                           if x \<noteq> [] then ((x, None), (rr_advance b x r)\<lparr>rr_body := None\<rparr>, w)
                           else
                             (case rr_backoff cx (if e = EndOfFile then UnexpectedEOF else e) (r\<lparr>rr_body := None\<rparr>) w of
                                (Some e', r, w) \<Rightarrow> (([], Some e'), r, w)
                              | (None, r, w) \<Rightarrow> rr_loop obj cx n r w)))))"
  by pat_completeness auto
termination
  by (relation "measure (\<lambda>(obj, cx, n, r, w). maxConsecutiveResumes - rr_resumes r)")
    (auto dest!: sym [THEN rr_backoff_retries])

declare rr_loop.simps [simp del]

definition rr_Read ::
  "('b, 'w) object \<Rightarrow> 'w storageContext \<Rightarrow> nat \<Rightarrow> 'b rangeReader \<Rightarrow> 'w
   \<Rightarrow> (bytes \<times> storage_error option) \<times> 'b rangeReader \<times> 'w" where
  "rr_Read obj cx n r w =
     (if rr_end r \<le> rr_off r then (([], Some EndOfFile), r, w)
      else rr_loop obj cx (min n (rr_end r - rr_off r)) r w)"

definition rr_Close :: "('b, 'w) object \<Rightarrow> 'b rangeReader \<Rightarrow> 'w \<Rightarrow> storage_error option \<times> 'b rangeReader \<times> 'w" where
  "rr_Close obj r w =
     (case rr_body r of
        None \<Rightarrow> (None, r, w)
      | Some b \<Rightarrow> (case ob_Close obj b w of (err, w) \<Rightarrow> (err, r\<lparr>rr_body := None\<rparr>, w)))"

text \<open>\<^verbatim>\<open>NewReader\<close>: the whole object, from its start.\<close>

definition NewReader :: "('b, 'w) object \<Rightarrow> 'b rangeReader" where
  "NewReader obj = newRangeReader 0 (ob_Size obj)"

section \<open>Random access\<close>

text \<open>\<^verbatim>\<open>io.ReadFull\<close> on a range reader; a body may give nothing and no error for ever, then it does not return.\<close>

partial_function (option) rr_ReadFull ::
  "('b, 'w) object \<Rightarrow> 'w storageContext \<Rightarrow> nat \<Rightarrow> bytes \<Rightarrow> 'b rangeReader \<Rightarrow> 'w
   \<Rightarrow> ((bytes \<times> storage_error option) \<times> 'b rangeReader \<times> 'w) option" where
  "rr_ReadFull obj cx want got r w =
     (if want \<le> length got then Some ((got, None), r, w)
      else case rr_Read obj cx (want - length got) r w of
        ((x, err), r, w) \<Rightarrow>
          (case err of
             None \<Rightarrow> rr_ReadFull obj cx want (got @ x) r w
           | Some e \<Rightarrow>
               Some ((got @ x,
                 if want \<le> length (got @ x) then None
                 else if got @ x \<noteq> [] \<and> e = EndOfFile then Some UnexpectedEOF
                 else Some e), r, w)))"

definition ra_ReadAt ::
  "('b, 'w) object \<Rightarrow> 'w storageContext \<Rightarrow> nat \<Rightarrow> int \<Rightarrow> 'w \<Rightarrow> ((bytes \<times> storage_error option) \<times> 'w) option" where
  "ra_ReadAt obj cx n off w =
     (if off < 0 then Some (([], Some (StorageErrorf ''storage: negative offset'')), w)
      else if int (ob_Size obj) \<le> off then Some (([], Some EndOfFile), w)
      else
        let want = min n (ob_Size obj - nat off) in
        case rr_ReadFull obj cx want [] (newRangeReader (nat off) (nat off + want)) w of
          None \<Rightarrow> None
        | Some ((x, err), r, w) \<Rightarrow>
            (case rr_Close obj r w of
               (_, _, w) \<Rightarrow> Some ((x, if err \<noteq> None then err else if want < n then Some EndOfFile else None), w)))"

text \<open>A client that reads into buffers of the given sizes, up to the first error, and keeps what it reads.\<close>

fun rr_reads ::
  "('b, 'w) object \<Rightarrow> 'w storageContext \<Rightarrow> nat list \<Rightarrow> 'b rangeReader \<Rightarrow> 'w
   \<Rightarrow> (bytes \<times> storage_error option) \<times> 'b rangeReader \<times> 'w" where
  "rr_reads obj cx [] r w = (([], None), r, w)"
| "rr_reads obj cx (n # ns) r w =
     (case rr_Read obj cx n r w of
        ((x, Some e), r, w) \<Rightarrow> ((x, Some e), r, w)
      | ((x, None), r, w) \<Rightarrow> (case rr_reads obj cx ns r w of ((y, err), r, w) \<Rightarrow> ((x @ y, err), r, w)))"

section \<open>What the readers rely on, and what they give\<close>

text \<open>
  While the object is what it was when it was opened (\<open>valid\<close>), a body opened at an offset gives the consecutive bytes of the object from
  there (\<open>body_at\<close> is the place a body has reached), however many at a time, at least one for a buffer that is not empty, and may fail at
  any point.  No request is answered with the error that marks the end of a stream.
\<close>

locale stored_object =
  fixes obj :: "('b, 'w) object" and cx :: "'w storageContext"
    and content :: bytes and valid :: "'w \<Rightarrow> bool" and body_at :: "'b \<Rightarrow> nat \<Rightarrow> 'w \<Rightarrow> bool"
  assumes Size: "ob_Size obj = length content"
    and opened: "valid w \<Longrightarrow> ob_NewRangeReader obj off len w = (Inr b, w') \<Longrightarrow> valid w' \<and> body_at b off w'"
    and refused: "valid w \<Longrightarrow> ob_NewRangeReader obj off len w = (Inl e, w') \<Longrightarrow> valid w' \<and> e \<noteq> EndOfFile"
    and read: "valid w \<Longrightarrow> body_at b off w \<Longrightarrow> ob_Read obj b n w = ((x, err), b', w') \<Longrightarrow>
      valid w' \<and> body_at b' (off + length x) w' \<and> length x \<le> n \<and> x = take (length x) (drop off content)
      \<and> (err = None \<longrightarrow> 0 < n \<longrightarrow> x \<noteq> [])"
    and closed: "valid w \<Longrightarrow> valid (snd (ob_Close obj b w))"
    and waited: "valid w \<Longrightarrow> valid (snd (cx_fires cx d w))"
begin

definition in_place :: "'b rangeReader \<Rightarrow> 'w \<Rightarrow> bool" where
  "in_place r w \<longleftrightarrow> valid w \<and> (\<forall>b. rr_body r = Some b \<longrightarrow> body_at b (rr_off r) w)"

text \<open>A read delivers the next bytes of the object, at least one of them, or an error and nothing.\<close>

definition delivers :: "nat \<Rightarrow> 'b rangeReader \<Rightarrow> (bytes \<times> storage_error option) \<times> 'b rangeReader \<times> 'w \<Rightarrow> bool" where
  "delivers n r res \<longleftrightarrow> (case res of ((x, err), r', w') \<Rightarrow>
     length x \<le> n \<and> x = take (length x) (drop (rr_off r) content) \<and> (err \<noteq> None \<longrightarrow> x = []) \<and> (err = None \<longrightarrow> 0 < n \<longrightarrow> x \<noteq> [])
     \<and> (err = Some EndOfFile \<longrightarrow> rr_end r \<le> rr_off r)
     \<and> in_place r' w' \<and> rr_off r' = rr_off r + length x \<and> rr_end r' = rr_end r)"

lemma backoff_gives_up:
  assumes "rr_backoff cx e r w = (Some e', r', w')" and "in_place r w" and "rr_body r = None" and "e \<noteq> EndOfFile"
  shows "delivers n r (([], Some e'), r', w')"
proof -
  have "rr_off r' = rr_off r \<and> rr_end r' = rr_end r \<and> rr_body r' = None \<and> e' \<noteq> EndOfFile"
    using assms by (auto simp: rr_backoff_def Let_def split: if_splits prod.splits option.splits)
  moreover have "valid w'"
    using assms waited [of w]
    by (auto simp: rr_backoff_def sleepContext_def in_place_def Let_def split: if_splits prod.splits option.splits)
      (metis snd_conv)+
  ultimately show ?thesis by (simp add: delivers_def in_place_def)
qed

lemma backoff_in_place:
  assumes "rr_backoff cx e r w = (None, r', w')" and "in_place r w" and "rr_body r = None"
  shows "in_place r' w'"
  using rr_backoff_retries [OF assms(1)] assms(2,3) waited [of w] by (auto simp: in_place_def)

lemma delivers_moved: "delivers n (r\<lparr>rr_body := b, rr_resumes := k\<rparr>) res \<Longrightarrow> delivers n r res"
  by (simp add: delivers_def split: prod.splits)

text \<open>Waiting and going round again.\<close>

lemma retry_delivers:
  assumes "in_place (r\<lparr>rr_body := None\<rparr>) w" and "e \<noteq> EndOfFile"
    and again: "\<And>r' w'. maxConsecutiveResumes - rr_resumes r' < maxConsecutiveResumes - rr_resumes r \<Longrightarrow> in_place r' w' \<Longrightarrow>
      rr_off r' = rr_off r \<Longrightarrow> rr_end r' = rr_end r \<Longrightarrow> delivers n r' (rr_loop obj cx n r' w')"
  shows "delivers n r (case rr_backoff cx e (r\<lparr>rr_body := None\<rparr>) w of
     (Some e', r, w) \<Rightarrow> (([], Some e'), r, w) | (None, r, w) \<Rightarrow> rr_loop obj cx n r w)"
proof (cases "rr_backoff cx e (r\<lparr>rr_body := None\<rparr>) w")
  case (fields a r' w')
  show ?thesis
  proof (cases a)
    case None
    note t = rr_backoff_retries [OF fields [unfolded None]]
    have "delivers n r' (rr_loop obj cx n r' w')"
      using t backoff_in_place [OF fields [unfolded None] assms(1)] by (intro again) auto
    then have "delivers n r (rr_loop obj cx n r' w')" using t delivers_moved by auto
    then show ?thesis by (simp add: fields None)
  next
    case (Some e')
    have "delivers n (r\<lparr>rr_body := None\<rparr>) (([], Some e'), r', w')"
      using backoff_gives_up [OF fields [unfolded Some] assms(1) _ assms(2)] by simp
    then show ?thesis by (simp add: fields Some delivers_def)
  qed
qed

lemma advance_delivers:
  assumes "ob_Read obj b n w = ((x, err), b', w')" and "valid w" and "body_at b (rr_off r) w" and "err = None \<or> x \<noteq> [] \<or> n = 0"
  shows "delivers n r ((x, None), rr_advance b' x r, w')"
    and "valid v \<Longrightarrow> delivers n r ((x, None), (rr_advance b' x r)\<lparr>rr_body := None\<rparr>, v)"
  using read [OF assms(2,3,1)] assms(4) by (auto simp: delivers_def rr_advance_def in_place_def)

lemma open_in_place:
  assumes "in_place r w" and "rr_open obj r w = (res, w')"
  shows "valid w'" and "res = Inr b \<Longrightarrow> body_at b (rr_off r) w'" and "res = Inl e \<Longrightarrow> rr_body r = None \<and> e \<noteq> EndOfFile"
  using assms by (cases res; auto simp: rr_open_def in_place_def dest: opened refused split: option.splits)+

lemma loop_delivers: "in_place r w \<Longrightarrow> n \<le> rr_end r - rr_off r \<Longrightarrow> delivers n r (rr_loop obj cx n r w)"
proof (induction "maxConsecutiveResumes - rr_resumes r" arbitrary: r w rule: less_induct)
  case less
  have retry: "delivers n r (case rr_backoff cx e (r\<lparr>rr_body := None\<rparr>) v of
     (Some e', r, w) \<Rightarrow> (([], Some e'), r, w) | (None, r, w) \<Rightarrow> rr_loop obj cx n r w)" if "valid v" "e \<noteq> EndOfFile" for e v
    using less.prems(2) that by (intro retry_delivers less.hyps) (auto simp: in_place_def)
  obtain res w1 where o: "rr_open obj r w = (res, w1)" by fastforce
  note p = open_in_place [OF less.prems(1) o]
  show ?case
  proof (cases res)
    case (Inl e)
    then have "r\<lparr>rr_body := None\<rparr> = r" and "e \<noteq> EndOfFile" using p(3) by simp_all
    note same = this(1) and e = this(2)
    show ?thesis using retry [OF p(1) e] by (subst rr_loop.simps) (simp only: same o Inl prod.case sum.case)
  next
    case (Inr b)
    obtain x err b' w2 where rd: "ob_Read obj b n w1 = ((x, err), b', w2)" by (metis surj_pair)
    note at = p(2) [OF Inr]
    note adv = advance_delivers [OF rd p(1) at]
    note law = read [OF p(1) at rd]
    have "valid (snd (ob_Close obj b' w2))" using law closed by blast
    then have v: "\<And>ce w3. ob_Close obj b' w2 = (ce, w3) \<Longrightarrow> valid w3" by simp
    have "x \<noteq> [] \<or> n = 0" if "rr_end r \<le> rr_off r + length x" using that less.prems(2) by auto
    with adv retry v show ?thesis by (subst rr_loop.simps) (auto simp: o Inr rd split: option.splits prod.splits)
  qed
qed

lemma Read_delivers:
  assumes "in_place r w" and "0 < n"
  shows "delivers n r (rr_Read obj cx n r w)"
proof (cases "rr_end r \<le> rr_off r")
  case False
  with assms loop_delivers [OF assms(1), of "min n (rr_end r - rr_off r)"] show ?thesis
    by (auto simp: rr_Read_def delivers_def split: prod.splits)
qed (use assms in \<open>simp add: rr_Read_def delivers_def\<close>)

text \<open>\<^verbatim>\<open>io.ReadFull\<close> on a reader of exactly the bytes wanted returns, with all of them or an error other than the end.\<close>

lemma ReadFull_returns:
  assumes "in_place r w" and "rr_off r = off + length got" and "rr_end r = off + want"
    and "got = take (length got) (drop off content)" and "length got \<le> want"
  shows "\<exists>x err r' w'. rr_ReadFull obj cx want got r w = Some ((x, err), r', w') \<and> in_place r' w'
    \<and> x = take (length x) (drop off content) \<and> length x \<le> want
    \<and> (err = None \<longrightarrow> length x = want) \<and> err \<noteq> Some EndOfFile"
  using assms
proof (induction "want - length got" arbitrary: got r w rule: less_induct)
  case less
  show ?case
  proof (cases "want \<le> length got")
    case True
    then show ?thesis using less.prems by (subst rr_ReadFull.simps) auto
  next
    case False
    obtain x err r' w' where rd: "rr_Read obj cx (want - length got) r w = ((x, err), r', w')" by (metis surj_pair)
    have d: "length x \<le> want - length got" "x = take (length x) (drop (rr_off r) content)" "err \<noteq> None \<Longrightarrow> x = []"
      "err = None \<Longrightarrow> x \<noteq> []" "err \<noteq> Some EndOfFile" "in_place r' w'" "rr_off r' = rr_off r + length x" "rr_end r' = rr_end r"
      using Read_delivers [OF less.prems(1), of "want - length got"] False less.prems(2,3) by (auto simp: rd delivers_def)
    have "got @ x = take (length (got @ x)) (drop off content)"
      using less.prems(2,4) d(2) by (simp add: take_add add.commute)
    note more_got = this
    show ?thesis
    proof (cases err)
      case None
      have "length (got @ x) \<le> want" "want - length (got @ x) < want - length got"
        using d(1) d(4) [OF None] False by (simp_all add: length_greater_0_conv [symmetric] del: length_greater_0_conv)
      then have "\<exists>y e' r'' w''. rr_ReadFull obj cx want (got @ x) r' w' = Some ((y, e'), r'', w'') \<and> in_place r'' w''
        \<and> y = take (length y) (drop off content) \<and> length y \<le> want \<and> (e' = None \<longrightarrow> length y = want) \<and> e' \<noteq> Some EndOfFile"
        using less.prems(2,3) d(6,7,8) by (intro less.hyps) (rule more_got | simp)+
      then show ?thesis by (subst rr_ReadFull.simps) (simp add: False rd None)
    next
      case (Some e)
      then show ?thesis using d(3,5,6) False less.prems(4,5) by (subst rr_ReadFull.simps) (auto simp: rd)
    qed
  qed
qed

text \<open>\<^verbatim>\<open>ReadAt\<close> returns; its bytes are those of the object from the offset on, all that were asked for when there is no error, and all there are at its end.\<close>

lemma ReadAt_exact:
  assumes "valid w"
  shows "\<exists>x err w'. ra_ReadAt obj cx n off w = Some ((x, err), w') \<and> valid w'
    \<and> x = take (length x) (drop (nat off) content) \<and> length x \<le> n
    \<and> (err = None \<longrightarrow> length x = n) \<and> (err = Some EndOfFile \<longrightarrow> x = drop (nat off) content)"
proof (cases "off < 0 \<or> int (length content) \<le> off")
  case True
  then show ?thesis using assms by (auto simp: ra_ReadAt_def Size)
next
  case False
  let ?want = "min n (length content - nat off)"
  have "in_place (newRangeReader (nat off) (nat off + ?want)) w" using assms by (simp add: in_place_def newRangeReader_def)
  then obtain x err r w1 where rf: "rr_ReadFull obj cx ?want [] (newRangeReader (nat off) (nat off + ?want)) w = Some ((x, err), r, w1)"
    and ip: "in_place r w1" and x: "x = take (length x) (drop (nat off) content)" "length x \<le> ?want"
    and err: "err = None \<Longrightarrow> length x = ?want" "err \<noteq> Some EndOfFile"
    using ReadFull_returns [of "newRangeReader (nat off) (nat off + ?want)" w "nat off" "[]" ?want] by (auto simp: newRangeReader_def)
  obtain ce r' w2 where cl: "rr_Close obj r w1 = (ce, r', w2)" by (metis surj_pair)
  have "valid w2" using cl ip closed [of w1] by (auto simp: rr_Close_def in_place_def split: option.splits prod.splits) (metis snd_conv)
  moreover have "x = drop (nat off) content" if "length x = ?want" "?want < n"
  proof -
    have "length x = length content - nat off" using that by linarith
    then show ?thesis using x(1) by simp
  qed
  ultimately show ?thesis using False rf cl x err by (auto simp: ra_ReadAt_def Size Let_def not_le)
qed

lemma reads_prefix:
  assumes "in_place r w" and "0 \<notin> set ns" and "rr_reads obj cx ns r w = ((x, err), r', w')"
  shows "in_place r' w' \<and> x = take (length x) (drop (rr_off r) content) \<and> rr_off r' = rr_off r + length x \<and> rr_end r' = rr_end r
    \<and> (err = Some EndOfFile \<longrightarrow> rr_end r \<le> rr_off r') \<and> (err = None \<longrightarrow> length ns \<le> length x)"
  using assms
proof (induction ns arbitrary: r w x)
  case (Cons n ns)
  obtain y e r1 w1 where rd: "rr_Read obj cx n r w = ((y, e), r1, w1)" by (metis surj_pair)
  have d: "y = take (length y) (drop (rr_off r) content)" "e \<noteq> None \<Longrightarrow> y = []" "e = None \<Longrightarrow> 1 \<le> length y"
    "e = Some EndOfFile \<Longrightarrow> rr_end r \<le> rr_off r" "in_place r1 w1" "rr_off r1 = rr_off r + length y" "rr_end r1 = rr_end r"
    using Read_delivers [OF Cons.prems(1), of n] Cons.prems(2) by (auto simp: rd delivers_def Suc_le_eq)
  show ?case
  proof (cases e)
    case None
    obtain z where z: "rr_reads obj cx ns r1 w1 = ((z, err), r', w')" and x: "x = y @ z"
      using Cons.prems(3) by (auto simp: rd None split: prod.splits)
    note ih = Cons.IH [OF d(5) _ z]
    have t: "y @ z = take (length (y @ z)) (drop (rr_off r) content)"
      using d(1,6) ih Cons.prems(2) by (simp add: take_add add.commute)
    show ?thesis unfolding x
    proof (intro conjI)
      show "y @ z = take (length (y @ z)) (drop (rr_off r) content)" by (rule t)
    qed (use ih d(3) [OF None] d(6,7) Cons.prems(2) in auto)
  next
    case (Some e')
    then show ?thesis using d(2,4,5,6,7) Cons.prems(3) by (auto simp: rd)
  qed
qed simp

text \<open>
  From the start of the object, with more buffers than it has bytes: what was read is all of it and the error is the end of the
  stream, or it is a prefix and the error another one.
\<close>

lemma NewReader_reads:
  assumes "valid w" and "0 \<notin> set ns" and "length content < length ns"
  shows "case rr_reads obj cx ns (NewReader obj) w of ((x, err), r', w') \<Rightarrow>
    err \<noteq> None \<and> x = take (length x) content \<and> (err = Some EndOfFile \<longrightarrow> x = content) \<and> valid w'"
proof -
  obtain x err r' w' where fields: "rr_reads obj cx ns (NewReader obj) w = ((x, err), r', w')" by (metis surj_pair)
  have "in_place (NewReader obj) w" using assms(1) by (simp add: NewReader_def newRangeReader_def in_place_def)
  from reads_prefix [OF this assms(2) fields]
  have r: "in_place r' w'" "x = take (length x) content" "err = Some EndOfFile \<Longrightarrow> length content \<le> length x"
    "err = None \<Longrightarrow> length ns \<le> length x"
    by (simp_all add: NewReader_def newRangeReader_def Size)
  have "length x \<le> length content" using arg_cong [OF r(2), of length] by simp
  then have "err \<noteq> None" using r(4) assms(3) by fastforce
  moreover have "x = content" if "err = Some EndOfFile" using r(2) r(3) [OF that] by simp
  ultimately show ?thesis using r(1,2) by (simp add: fields in_place_def)
qed

end

text \<open>
  C27: \<^verbatim>\<open>ReadAt\<close> over an object that obeys the contract always returns.  The bytes it gives are those of the object from the offset on; it gives
  all that were asked for unless it reports an error, and when it reports the end of the object it gave everything up to there, whatever
  requests failed and were repeated.
\<close>

theorem stored_object_ReadAt:
  assumes "stored_object obj cx content valid body_at" and "valid w"
  shows "\<exists>x err w'. ra_ReadAt obj cx n off w = Some ((x, err), w') \<and> valid w'
    \<and> x = take (length x) (drop (nat off) content) \<and> length x \<le> n
    \<and> (err = None \<longrightarrow> length x = n) \<and> (err = Some EndOfFile \<longrightarrow> x = drop (nat off) content)"
  using assms by (rule stored_object.ReadAt_exact)

end
