(* ===== verification/Storage.thy ===== *)
theory Storage
  imports Storage_Reader Names "HOL-Library.List_Lexorder"
begin

text \<open>
  The names of stored objects and the registry of the stores (\<^verbatim>\<open>storage/storage.go\<close>): parsing a location gives exactly the locations
  that can be written out, and the registry finds what was registered under a scheme and nothing else.
\<close>

section \<open>Strings\<close>

text \<open>\<^verbatim>\<open>strings.Cut\<close>: what is before and after the first occurrence of a separator.\<close>

fun strings_Cut :: "bytes \<Rightarrow> bytes \<Rightarrow> (bytes \<times> bytes) option" where
  "strings_Cut sep [] = (if sep = [] then Some ([], []) else None)"
| "strings_Cut sep (c # s) =
     (if take (length sep) (c # s) = sep then Some ([], drop (length sep) (c # s))
      else map_option (apfst ((#) c)) (strings_Cut sep s))"

lemma strings_Cut_Some: "strings_Cut sep s = Some (a, b) \<Longrightarrow> s = a @ sep @ b"
  by (induction s arbitrary: a) (auto split: if_splits, metis append_take_drop_id)

text \<open>A part in which the first byte of the separator does not occur is what is before it.\<close>

lemma strings_Cut_before:
  assumes "c \<notin> set a"
  shows "strings_Cut (c # sep) (a @ (c # sep) @ b) = Some (a, b)"
  using assms by (induction a) auto

lemma strings_Cut_single: "strings_Cut [c] s = Some (a, b) \<longleftrightarrow> s = a @ [c] @ b \<and> c \<notin> set a"
proof
  assume cut: "strings_Cut [c] s = Some (a, b)"
  then have "c \<notin> set a" by (induction s arbitrary: a) (auto split: if_splits)
  then show "s = a @ [c] @ b \<and> c \<notin> set a" using strings_Cut_Some [OF cut] by simp
qed (use strings_Cut_before in blast)

definition is_lower :: "byte \<Rightarrow> bool" where "is_lower c \<longleftrightarrow> 0x61 \<le> c \<and> c \<le> 0x7A"
definition is_upper :: "byte \<Rightarrow> bool" where "is_upper c \<longleftrightarrow> 0x41 \<le> c \<and> c \<le> 0x5A"
definition is_digit :: "byte \<Rightarrow> bool" where "is_digit c \<longleftrightarrow> 0x30 \<le> c \<and> c \<le> 0x39"

definition lower_byte :: "byte \<Rightarrow> byte" where
  "lower_byte c = (if is_upper c then c + 0x20 else c)"

text \<open>
  \<^verbatim>\<open>strings.ToLower\<close> is the bytewise function on ASCII strings; what it makes of another one, by the tables of Unicode, is a
  parameter.
\<close>

definition strings_ToLower :: "(bytes \<Rightarrow> bytes) \<Rightarrow> bytes \<Rightarrow> bytes" where
  "strings_ToLower unicode s = (if list_all (\<lambda>c. c < 0x80) s then map lower_byte s else unicode s)"

section \<open>Locations\<close>

record Location =
  loc_Scheme :: bytes
  loc_Bucket :: bytes
  loc_Key :: bytes

definition scheme_sep :: bytes where "scheme_sep = [0x3A, slash, slash]"

definition Location_String :: "Location \<Rightarrow> bytes" where
  "Location_String l = loc_Scheme l @ scheme_sep @ loc_Bucket l @ [slash] @ loc_Key l"

text \<open>
  The runes of a string that starts a rune at every byte are its bytes, and a byte from 128 on starts a rune that no case accepts, so
  ranging over the runes and over the bytes gives the same answer.
\<close>

definition scheme_first :: "byte \<Rightarrow> bool" where
  "scheme_first c \<longleftrightarrow> is_lower c \<or> is_upper c"

definition scheme_next :: "byte \<Rightarrow> bool" where
  "scheme_next c \<longleftrightarrow> scheme_first c \<or> is_digit c \<or> c = 0x2B \<or> c = 0x2D \<or> c = dot"

definition validScheme :: "bytes \<Rightarrow> bool" where
  "validScheme s \<longleftrightarrow> (if length s < 2 then False else scheme_first (hd s) \<and> list_all scheme_next (tl s))"

definition ParseLocation :: "(bytes \<Rightarrow> bytes) \<Rightarrow> bytes \<Rightarrow> Location \<times> bool \<times> storage_error option" where
  "ParseLocation unicode raw =
     (let empty = \<lparr>loc_Scheme = [], loc_Bucket = [], loc_Key = []\<rparr> in
      case strings_Cut scheme_sep raw of
        None \<Rightarrow> (empty, False, None)
      | Some (scheme, rest) \<Rightarrow>
          if \<not> validScheme scheme then (empty, False, None)
          else
            let (bucket, key) = (case strings_Cut [slash] rest of None \<Rightarrow> (rest, []) | Some bk \<Rightarrow> bk) in
            if key = [] \<or> last key = slash then (empty, True, Some (StorageErrorf ''location needs an object key''))
            else (\<lparr>loc_Scheme = strings_ToLower unicode scheme, loc_Bucket = bucket, loc_Key = key\<rparr>, True, None))"

text \<open>The locations there are: a valid scheme in lower case, a bucket without a slash, and a key that does not name a directory.\<close>

definition location_wf :: "Location \<Rightarrow> bool" where
  "location_wf l \<longleftrightarrow> validScheme (loc_Scheme l) \<and> list_all (\<lambda>c. \<not> is_upper c) (loc_Scheme l)
     \<and> slash \<notin> set (loc_Bucket l) \<and> loc_Key l \<noteq> [] \<and> last (loc_Key l) \<noteq> slash"

lemma validScheme_chars: "validScheme s \<Longrightarrow> c \<in> set s \<Longrightarrow> scheme_next c"
  by (cases s) (auto simp: validScheme_def scheme_next_def list_all_iff split: if_splits)

lemma scheme_next_ascii: "scheme_next c \<Longrightarrow> c < 0x80 \<and> c \<noteq> 0x3A"
  by (auto simp: scheme_next_def scheme_first_def is_lower_def is_upper_def is_digit_def dot_def word_le_nat_alt word_less_nat_alt)

lemma validScheme_ascii:
  assumes "validScheme s"
  shows "list_all (\<lambda>c. c < 0x80) s" "0x3A \<notin> set s"
  using validScheme_chars [OF assms] scheme_next_ascii by (auto simp: list_all_iff)

lemma lower_byte_scheme:
  "scheme_first c \<Longrightarrow> scheme_first (lower_byte c)" "scheme_next c \<Longrightarrow> scheme_next (lower_byte c)" "\<not> is_upper (lower_byte c)"
  by (auto simp: lower_byte_def scheme_next_def scheme_first_def is_lower_def is_upper_def is_digit_def dot_def
      word_le_nat_alt unat_word_ariths)

lemma ToLower_scheme:
  assumes "validScheme s"
  shows "strings_ToLower unicode s = map lower_byte s" "validScheme (map lower_byte s)"
    "list_all (\<lambda>c. \<not> is_upper c) (map lower_byte s)"
  using assms validScheme_ascii [OF assms] lower_byte_scheme
  by (cases s; auto simp: strings_ToLower_def validScheme_def list_all_iff split: if_splits)+

lemma ToLower_id: "list_all (\<lambda>c. \<not> is_upper c) s \<Longrightarrow> map lower_byte s = s"
  by (induction s) (auto simp: lower_byte_def)

lemma ParseLocation_sound:
  assumes "ParseLocation unicode raw = (l, True, None)"
  shows "\<exists>scheme. raw = scheme @ scheme_sep @ loc_Bucket l @ [slash] @ loc_Key l \<and> validScheme scheme
    \<and> loc_Scheme l = map lower_byte scheme \<and> location_wf l"
proof -
  obtain scheme rest bucket key where cut: "strings_Cut scheme_sep raw = Some (scheme, rest)" and v: "validScheme scheme"
    and bk: "strings_Cut [slash] rest = Some (bucket, key)" and key: "key \<noteq> []" "last key \<noteq> slash"
    and l: "l = \<lparr>loc_Scheme = strings_ToLower unicode scheme, loc_Bucket = bucket, loc_Key = key\<rparr>"
    using assms by (auto simp: ParseLocation_def Let_def split: option.splits if_splits)
  have "raw = scheme @ scheme_sep @ bucket @ [slash] @ key" "slash \<notin> set bucket"
    using strings_Cut_Some [OF cut] bk by (simp_all add: strings_Cut_single)
  with v key ToLower_scheme [OF v] show ?thesis by (intro exI [of _ scheme]) (simp add: l location_wf_def)
qed

lemma ParseLocation_complete:
  assumes "validScheme scheme" and "slash \<notin> set bucket" and "key \<noteq> []" and "last key \<noteq> slash"
  shows "ParseLocation unicode (scheme @ scheme_sep @ bucket @ [slash] @ key) =
    (\<lparr>loc_Scheme = map lower_byte scheme, loc_Bucket = bucket, loc_Key = key\<rparr>, True, None)"
proof -
  have "strings_Cut scheme_sep (scheme @ scheme_sep @ bucket @ [slash] @ key) = Some (scheme, bucket @ [slash] @ key)"
    unfolding scheme_sep_def by (rule strings_Cut_before) (rule validScheme_ascii(2) [OF assms(1)])
  moreover have "strings_Cut [slash] (bucket @ [slash] @ key) = Some (bucket, key)"
    using assms(2) by (simp only: strings_Cut_single) simp
  ultimately show ?thesis using assms by (simp add: ParseLocation_def ToLower_scheme(1) del: append_assoc)
qed

text \<open>
  C28: a string parses as a location exactly when it is a valid scheme, the separator, a bucket without a slash, a slash, and a key that
  is not empty and does not end in one.  The location has the scheme in lower case and the bucket and the key as they are, and writing it
  out and parsing it again gives it back.
\<close>

theorem ParseLocation_exact:
  "ParseLocation unicode raw = (l, True, None) \<longleftrightarrow>
     location_wf l \<and> ParseLocation unicode (Location_String l) = (l, True, None)
     \<and> (\<exists>scheme. validScheme scheme \<and> loc_Scheme l = map lower_byte scheme
          \<and> raw = scheme @ scheme_sep @ loc_Bucket l @ [slash] @ loc_Key l)" (is "?parsed \<longleftrightarrow> ?written")
proof
  have eq: "\<lparr>loc_Scheme = loc_Scheme l, loc_Bucket = loc_Bucket l, loc_Key = loc_Key l\<rparr> = l" by simp
  assume ?parsed
  from ParseLocation_sound [OF this] obtain scheme where s: "validScheme scheme" "loc_Scheme l = map lower_byte scheme"
    "raw = scheme @ scheme_sep @ loc_Bucket l @ [slash] @ loc_Key l" and wf: "location_wf l" by blast
  have "ParseLocation unicode (Location_String l) = (l, True, None)"
    using wf ParseLocation_complete [of "loc_Scheme l" "loc_Bucket l" "loc_Key l"] ToLower_id [of "loc_Scheme l"]
    by (simp add: Location_String_def location_wf_def)
  with s wf show ?written by blast
next
  assume ?written
  then obtain scheme where "validScheme scheme" "loc_Scheme l = map lower_byte scheme" "location_wf l"
    "raw = scheme @ scheme_sep @ loc_Bucket l @ [slash] @ loc_Key l" by blast
  then show ?parsed using ParseLocation_complete [of scheme "loc_Bucket l" "loc_Key l"] by (simp add: location_wf_def)
qed

section \<open>The registry\<close>

text \<open>A factory makes the backend of a bucket; the keys of the map are distinct.\<close>

type_synonym ('k, 'w) Factory = "bytes \<Rightarrow> 'w \<Rightarrow> (storage_error + 'k) \<times> 'w"

record ('k, 'w) Registry =
  rg_factories :: "(bytes \<times> ('k, 'w) Factory) list"

definition NewRegistry :: "('k, 'w) Registry" where
  "NewRegistry = \<lparr>rg_factories = []\<rparr>"

definition Register ::
  "(bytes \<Rightarrow> bytes) \<Rightarrow> bytes \<Rightarrow> ('k, 'w) Factory \<Rightarrow> ('k, 'w) Registry \<Rightarrow> storage_error option \<times> ('k, 'w) Registry" where
  "Register unicode scheme f r =
     (let scheme = strings_ToLower unicode scheme in
      if \<not> validScheme scheme then (Some (StorageErrorf ''invalid scheme''), r)
      else if map_of (rg_factories r) scheme \<noteq> None then (Some (StorageErrorf ''scheme registered twice''), r)
      else (None, r\<lparr>rg_factories := (scheme, f) # rg_factories r\<rparr>))"

definition Schemes :: "('k, 'w) Registry \<Rightarrow> bytes list" where
  "Schemes r = sort (map fst (rg_factories r))"

text \<open>The message for an unknown scheme lists the supported ones.\<close>

datatype registry_error =
    UnsupportedScheme bytes "bytes list"
  | FactoryFailed bytes storage_error

definition rg_Backend :: "Location \<Rightarrow> ('k, 'w) Registry \<Rightarrow> 'w \<Rightarrow> (registry_error + 'k) \<times> 'w" where
  "rg_Backend loc r w =
     (case map_of (rg_factories r) (loc_Scheme loc) of
        None \<Rightarrow> (Inl (UnsupportedScheme (loc_Scheme loc) (Schemes r)), w)
      | Some f \<Rightarrow>
          (case f (loc_Bucket loc) w of
             (Inl err, w) \<Rightarrow> (Inl (FactoryFailed (loc_Scheme loc) err), w)
           | (Inr b, w) \<Rightarrow> (Inr b, w)))"

definition registry_wf :: "('k, 'w) Registry \<Rightarrow> bool" where
  "registry_wf r \<longleftrightarrow> distinct (map fst (rg_factories r)) \<and> list_all (validScheme \<circ> fst) (rg_factories r)"

lemma registry_wf_kept: "registry_wf NewRegistry" "registry_wf r \<Longrightarrow> registry_wf (snd (Register unicode scheme f r))"
  by (auto simp: registry_wf_def NewRegistry_def Register_def Let_def map_of_eq_None_iff)

lemma Schemes_sorted: "registry_wf r \<Longrightarrow> sorted (Schemes r) \<and> distinct (Schemes r) \<and> set (Schemes r) = dom (map_of (rg_factories r))"
  by (simp add: Schemes_def registry_wf_def dom_map_of_conv_image_fst)

text \<open>What registering a list of stores finds: for each scheme, in any case of its letters, the first one registered under it.\<close>

definition register_all :: "(bytes \<Rightarrow> bytes) \<Rightarrow> (bytes \<times> ('k, 'w) Factory) list \<Rightarrow> ('k, 'w) Registry" where
  "register_all unicode fs = fold (\<lambda>(s, f) r. snd (Register unicode s f r)) fs NewRegistry"

lemma register_fold:
  "registry_wf r \<Longrightarrow> registry_wf (fold (\<lambda>(s, f) r. snd (Register unicode s f r)) fs r) \<and>
   map_of (rg_factories (fold (\<lambda>(s, f) r. snd (Register unicode s f r)) fs r)) k =
     (case map_of (rg_factories r) k of Some f \<Rightarrow> Some f
      | None \<Rightarrow> if validScheme k then map_of (map (apfst (strings_ToLower unicode)) fs) k else None)"
proof (induction fs arbitrary: r)
  case (Cons sf fs)
  then show ?case
    using registry_wf_kept(2) [OF Cons.prems] Cons.IH [of "snd (Register unicode (fst sf) (snd sf) r)"]
    by (auto simp: Register_def Let_def split: option.splits prod.splits if_splits)
qed (auto split: option.splits)

lemma registry_finds:
  "rg_Backend loc (register_all unicode fs) w =
     (if validScheme (loc_Scheme loc)
      then case map_of (map (apfst (strings_ToLower unicode)) fs) (loc_Scheme loc) of
        Some f \<Rightarrow> (case f (loc_Bucket loc) w of (res, w) \<Rightarrow> (case res of Inl e \<Rightarrow> Inl (FactoryFailed (loc_Scheme loc) e) | Inr b \<Rightarrow> Inr b, w))
      | None \<Rightarrow> (Inl (UnsupportedScheme (loc_Scheme loc) (Schemes (register_all unicode fs))), w)
      else (Inl (UnsupportedScheme (loc_Scheme loc) (Schemes (register_all unicode fs))), w))"
  using register_fold [OF registry_wf_kept(1), of unicode fs "loc_Scheme loc"]
  by (auto simp: rg_Backend_def register_all_def NewRegistry_def split: option.splits prod.splits sum.splits)

end
