(* ===== verification/Local_Store.thy ===== *)
theory Local_Store
  imports Storage Filepath
begin

text \<open>
  The store of local files (\<^verbatim>\<open>storage/local/local.go\<close>), on a Unix system.  An object is written to a temporary file that is renamed when it
  is complete: whatever fails, the target holds its old content or all of the new.  An object that is opened is read back as it was
  written.
\<close>

section \<open>The file system\<close>

text \<open>
  Names lead to files by number, each with its content; \<open>fs_answers\<close> says how the next system calls go: \<open>None\<close> for one that succeeds,
  or its error, with the number of bytes a failed read or write still transferred.  When no answer is left, calls succeed.
\<close>

datatype node = RegularFile nat | DirectoryNode | DeviceNode

record local_fs =
  fs_names :: "bytes \<Rightarrow> node option"
  fs_data :: "nat \<Rightarrow> bytes"
  fs_next :: nat
  fs_answers :: "(storage_error \<times> nat) option list"

definition fs_answer :: "local_fs \<Rightarrow> (storage_error \<times> nat) option \<times> local_fs" where
  "fs_answer w = (case fs_answers w of [] \<Rightarrow> (None, w) | a # as \<Rightarrow> (a, w\<lparr>fs_answers := as\<rparr>))"

text \<open>The content of the regular file with a name.\<close>

definition fs_content :: "local_fs \<Rightarrow> bytes \<Rightarrow> bytes option" where
  "fs_content w p = (case fs_names w p of Some (RegularFile i) \<Rightarrow> Some (fs_data w i) | _ \<Rightarrow> None)"

definition fs_wf :: "local_fs \<Rightarrow> bool" where
  "fs_wf w \<longleftrightarrow> (\<forall>p i. fs_names w p = Some (RegularFile i) \<longrightarrow> i < fs_next w)"

text \<open>An \<^verbatim>\<open>os.File\<close>: its name, the file it was opened on, and whether it was closed.  The errors of \<^verbatim>\<open>os\<close> wrap those of the system.\<close>

record os_file =
  of_Name :: bytes
  of_node :: nat
  of_closed :: bool

definition ErrClosed :: storage_error where "ErrClosed = StorageErrorf ''file already closed''"

definition os_call :: "string \<Rightarrow> local_fs \<Rightarrow> storage_error option \<times> local_fs" where
  "os_call c w = (case fs_answer w of (None, w) \<Rightarrow> (None, w) | (Some (e, _), w) \<Rightarrow> (Some (StorageWrap c e), w))"

definition os_Write :: "os_file \<Rightarrow> bytes \<Rightarrow> local_fs \<Rightarrow> (nat \<times> storage_error option) \<times> local_fs" where
  "os_Write f p w =
     (if of_closed f then ((0, Some ErrClosed), w)
      else case fs_answer w of
        (a, w) \<Rightarrow>
          let n = (case a of None \<Rightarrow> length p | Some (_, k) \<Rightarrow> min k (length p)) in
          ((n, map_option (\<lambda>(e, _). StorageWrap ''write'' e) a),
           w\<lparr>fs_data := (fs_data w)(of_node f := fs_data w (of_node f) @ take n p)\<rparr>))"

definition os_Sync :: "os_file \<Rightarrow> local_fs \<Rightarrow> storage_error option \<times> local_fs" where
  "os_Sync f w = (if of_closed f then (Some ErrClosed, w) else os_call ''sync'' w)"

definition os_Close :: "os_file \<Rightarrow> local_fs \<Rightarrow> storage_error option \<times> os_file \<times> local_fs" where
  "os_Close f w =
     (if of_closed f then (Some ErrClosed, f, w)
      else case os_call ''close'' w of (err, w) \<Rightarrow> (err, f\<lparr>of_closed := True\<rparr>, w))"

definition os_Rename :: "bytes \<Rightarrow> bytes \<Rightarrow> local_fs \<Rightarrow> storage_error option \<times> local_fs" where
  "os_Rename src dst w =
     (case os_call ''rename'' w of
        (Some e, w) \<Rightarrow> (Some e, w)
      | (None, w) \<Rightarrow>
          if fs_names w src = None then (Some (StorageErrorf ''rename: no such file''), w)
          else if fs_names w dst = Some DirectoryNode then (Some (StorageErrorf ''rename: file exists''), w)
          else (None, w\<lparr>fs_names := (fs_names w)(dst := fs_names w src, src := None)\<rparr>))"

definition os_Remove :: "bytes \<Rightarrow> local_fs \<Rightarrow> storage_error option \<times> local_fs" where
  "os_Remove p w =
     (case os_call ''remove'' w of
        (Some e, w) \<Rightarrow> (Some e, w)
      | (None, w) \<Rightarrow>
          if fs_names w p = None then (Some (StorageErrorf ''remove: no such file''), w)
          else (None, w\<lparr>fs_names := (fs_names w)(p := None)\<rparr>))"

text \<open>
  \<^verbatim>\<open>os.CreateTemp\<close> with the pattern split at its star: random numbers, written in decimal, until a name is free.
\<close>

fun itoa :: "nat \<Rightarrow> bytes" where
  "itoa n = (if n < 10 then [word_of_nat (48 + n)] else itoa (n div 10) @ [word_of_nat (48 + n mod 10)])"

declare itoa.simps [simp del]

definition os_joinPath :: "bytes \<Rightarrow> bytes \<Rightarrow> bytes" where
  "os_joinPath dir name = (if dir \<noteq> [] \<and> last dir = slash then dir @ name else dir @ [slash] @ name)"

fun create_tries :: "bytes \<Rightarrow> bytes \<Rightarrow> bytes \<Rightarrow> nat list \<Rightarrow> local_fs \<Rightarrow> (storage_error + os_file) \<times> local_fs" where
  "create_tries dir pre suf [] w = (Inl (StorageErrorf ''createtemp: file exists''), w)"
| "create_tries dir pre suf (r # rs) w =
     (let name = os_joinPath dir (pre @ itoa r @ suf) in
      if fs_names w name \<noteq> None then create_tries dir pre suf rs w
      else case os_call ''createtemp'' w of
        (Some e, w) \<Rightarrow> (Inl e, w)
      | (None, w) \<Rightarrow>
          (Inr \<lparr>of_Name = name, of_node = fs_next w, of_closed = False\<rparr>,
           w\<lparr>fs_names := (fs_names w)(name \<mapsto> RegularFile (fs_next w)), fs_data := (fs_data w)(fs_next w := []),
             fs_next := Suc (fs_next w)\<rparr>))"

definition os_CreateTemp :: "bytes \<Rightarrow> bytes \<Rightarrow> bytes \<Rightarrow> nat list \<Rightarrow> local_fs \<Rightarrow> (storage_error + os_file) \<times> local_fs" where
  "os_CreateTemp dir pre suf rnds w =
     (if slash \<in> set pre \<or> slash \<in> set suf then (Inl (StorageErrorf ''createtemp: pattern contains path separator''), w)
      else create_tries dir pre suf (take 10000 rnds) w)"

section \<open>Writing an object\<close>

text \<open>\<^verbatim>\<open>New\<close> refuses hosts other than the local one; a \<^verbatim>\<open>Backend\<close> has no state.\<close>

definition local_New :: "bytes \<Rightarrow> 'w \<Rightarrow> (storage_error + unit) \<times> 'w" where
  "local_New host w =
     (if host \<noteq> [] \<and> host \<noteq> str ''localhost'' then (Inl (StorageErrorf ''file:// locations cannot name a remote host''), w)
      else (Inr (), w))"

definition local_path :: "bytes \<Rightarrow> bytes" where
  "local_path key = slash # key"

record local_writer =
  lw_f :: os_file
  lw_target :: bytes
  lw_done :: bool

definition lb_Create :: "bytes \<Rightarrow> nat list \<Rightarrow> local_fs \<Rightarrow> (storage_error + local_writer) \<times> local_fs" where
  "lb_Create key rnds w =
     (let target = local_path key in
      case os_CreateTemp (filepath_Dir target) ([dot] @ filepath_Base target @ [dot]) (str ''.partial'') rnds w of
        (Inl err, w) \<Rightarrow> (Inl (StorageWrap ''create'' err), w)
      | (Inr f, w) \<Rightarrow> (Inr \<lparr>lw_f = f, lw_target = target, lw_done = False\<rparr>, w))"

definition lw_Write :: "local_writer \<Rightarrow> bytes \<Rightarrow> local_fs \<Rightarrow> (nat \<times> storage_error option) \<times> local_fs" where
  "lw_Write x p w = os_Write (lw_f x) p w"

definition lw_Close :: "local_writer \<Rightarrow> local_fs \<Rightarrow> storage_error option \<times> local_writer \<times> local_fs" where
  "lw_Close x w =
     (if lw_done x then (None, x, w)
      else
        case os_Sync (lw_f x) w of (err, w) \<Rightarrow>
        case os_Close (lw_f x) w of (cerr, f, w) \<Rightarrow>
        let err = (if err = None then cerr else err);
            x = x\<lparr>lw_done := True, lw_f := f\<rparr> in
        case (if err = None then os_Rename (of_Name f) (lw_target x) w else (err, w)) of
          (None, w) \<Rightarrow> (None, x, w)
        | (Some e, w) \<Rightarrow> (Some (StorageWrap ''commit'' e), x, snd (os_Remove (of_Name f) w)))"

definition lw_Abort :: "local_writer \<Rightarrow> local_fs \<Rightarrow> storage_error option \<times> local_writer \<times> local_fs" where
  "lw_Abort x w =
     (if lw_done x then (None, x, w)
      else
        case os_Close (lw_f x) w of (_, f, w) \<Rightarrow>
        case os_Remove (of_Name f) w of (err, w) \<Rightarrow> (err, x\<lparr>lw_done := True, lw_f := f\<rparr>, w))"

section \<open>Reading an object\<close>

definition lb_Open :: "bytes \<Rightarrow> local_fs \<Rightarrow> (storage_error + bytes \<times> nat) \<times> local_fs" where
  "lb_Open key w =
     (let p = local_path key in
      case os_call ''stat'' w of
        (Some e, w) \<Rightarrow> (Inl (StorageWrap ''open'' e), w)
      | (None, w) \<Rightarrow>
          (case fs_names w p of
             None \<Rightarrow> (Inl (StorageWrap ''open'' ErrNotFound), w)
           | Some (RegularFile i) \<Rightarrow> (Inr (p, length (fs_data w i)), w)
           | Some _ \<Rightarrow> (Inl (StorageErrorf ''open: not a regular file''), w)))"

text \<open>
  The body of a range: an \<^verbatim>\<open>io.SectionReader\<close> over the file, and the file to close.  (A name that has come to lead to something
  other than a regular file is refused here, where the system would refuse the reads.)
\<close>

record section_body =
  sb_f :: os_file
  sb_off :: nat
  sb_limit :: nat

definition lo_NewRangeReader :: "bytes \<times> nat \<Rightarrow> nat \<Rightarrow> int \<Rightarrow> local_fs \<Rightarrow> (storage_error + section_body) \<times> local_fs" where
  "lo_NewRangeReader o' off len w =
     (case os_call ''open'' w of
        (Some e, w) \<Rightarrow> (Inl e, w)
      | (None, w) \<Rightarrow>
          (case fs_names w (fst o') of
             Some (RegularFile i) \<Rightarrow>
               let len = (if len < 0 then int (snd o') - int off else len) in
               (Inr \<lparr>sb_f = \<lparr>of_Name = fst o', of_node = i, of_closed = False\<rparr>, sb_off = off, sb_limit = nat (int off + len)\<rparr>, w)
           | _ \<Rightarrow> (Inl (StorageErrorf ''open: no such file''), w)))"

text \<open>\<^verbatim>\<open>os.File.ReadAt\<close> reads until the buffer is full, the file ends or a call fails.\<close>

definition os_ReadAt :: "os_file \<Rightarrow> nat \<Rightarrow> nat \<Rightarrow> local_fs \<Rightarrow> (bytes \<times> storage_error option) \<times> local_fs" where
  "os_ReadAt f n off w =
     (if of_closed f then (([], Some ErrClosed), w)
      else case fs_answer w of
        (Some (e, k), w) \<Rightarrow> ((take (min k n) (drop off (fs_data w (of_node f))), Some (StorageWrap ''read'' e)), w)
      | (None, w) \<Rightarrow>
          (let x = take n (drop off (fs_data w (of_node f))) in
           ((x, if length x < n then Some EndOfFile else None), w)))"

definition sb_Read :: "section_body \<Rightarrow> nat \<Rightarrow> local_fs \<Rightarrow> (bytes \<times> storage_error option) \<times> section_body \<times> local_fs" where
  "sb_Read b n w =
     (if sb_limit b \<le> sb_off b then (([], Some EndOfFile), b, w)
      else case os_ReadAt (sb_f b) (min n (sb_limit b - sb_off b)) (sb_off b) w of
        ((x, err), w) \<Rightarrow> ((x, err), b\<lparr>sb_off := sb_off b + length x\<rparr>, w))"

definition sb_Close :: "section_body \<Rightarrow> local_fs \<Rightarrow> storage_error option \<times> local_fs" where
  "sb_Close b w = (case os_Close (sb_f b) w of (err, _, w) \<Rightarrow> (err, w))"

definition local_object :: "bytes \<times> nat \<Rightarrow> (section_body, local_fs) object" where
  "local_object o' =
     \<lparr>ob_Size = snd o', ob_NewRangeReader = lo_NewRangeReader o', ob_Read = sb_Read, ob_Close = sb_Close\<rparr>"

section \<open>Writing is atomic\<close>

text \<open>What a client does with a writer, and the results it gets: the bytes taken by a write, and an error.\<close>

datatype writer_op = DoWrite bytes | DoClose | DoAbort

fun lw_op :: "writer_op \<Rightarrow> local_writer \<Rightarrow> local_fs \<Rightarrow> (nat \<times> storage_error option) \<times> local_writer \<times> local_fs" where
  "lw_op (DoWrite p) x w = (case lw_Write x p w of (res, w) \<Rightarrow> (res, x, w))"
| "lw_op DoClose x w = (case lw_Close x w of (err, x, w) \<Rightarrow> ((0, err), x, w))"
| "lw_op DoAbort x w = (case lw_Abort x w of (err, x, w) \<Rightarrow> ((0, err), x, w))"

fun lw_ops :: "writer_op list \<Rightarrow> local_writer \<Rightarrow> local_fs \<Rightarrow> (nat \<times> storage_error option) list \<times> local_writer \<times> local_fs" where
  "lw_ops [] x w = ([], x, w)"
| "lw_ops (c # cs) x w =
     (case lw_op c x w of (res, x, w) \<Rightarrow> case lw_ops cs x w of (rs, x, w) \<Rightarrow> (res # rs, x, w))"

text \<open>What the client may conclude: the object was committed, with this content, if the first call that ends the writing is a successful \<^verbatim>\<open>Close\<close>.\<close>

fun committed :: "bytes \<Rightarrow> (writer_op \<times> nat \<times> storage_error option) list \<Rightarrow> bytes option" where
  "committed acc [] = None"
| "committed acc ((DoWrite p, n, err) # cs) = committed (acc @ take n p) cs"
| "committed acc ((DoClose, n, err) # cs) = (if err = None then Some acc else None)"
| "committed acc ((DoAbort, n, err) # cs) = None"

text \<open>The system calls that only answer.\<close>

definition same_files :: "local_fs \<Rightarrow> local_fs \<Rightarrow> bool" where
  "same_files w w' \<longleftrightarrow> fs_names w' = fs_names w \<and> fs_data w' = fs_data w \<and> fs_next w' = fs_next w"

lemma fs_answer_same: "fs_answer w = (a, w') \<Longrightarrow> same_files w w'"
  by (auto simp: fs_answer_def same_files_def split: list.splits)

lemma os_call_same: "os_call c w = (e, w') \<Longrightarrow> same_files w w'"
  by (auto simp: os_call_def dest: fs_answer_same split: prod.splits option.splits)

lemma same_files_trans: "same_files u v \<Longrightarrow> same_files v w \<Longrightarrow> same_files u w"
  by (simp add: same_files_def)

lemma os_Sync_same: "os_Sync f w = (e, w') \<Longrightarrow> same_files w w'"
  by (auto simp: os_Sync_def same_files_def dest: os_call_same [unfolded same_files_def] split: if_splits)

lemma os_Close_same: "os_Close f w = (e, f', w') \<Longrightarrow> same_files w w' \<and> f' = f\<lparr>of_closed := True\<rparr>"
  by (auto simp: os_Close_def same_files_def dest: os_call_same [unfolded same_files_def] split: if_splits prod.splits)

lemma os_Remove_effect:
  assumes "os_Remove p w = (e, w')"
  shows "fs_data w' = fs_data w \<and> fs_next w' = fs_next w \<and> (fs_names w' = fs_names w \<or> fs_names w' = (fs_names w)(p := None))"
  using assms
  by (auto simp: os_Remove_def dest!: os_call_same [unfolded same_files_def] split: prod.splits option.splits if_splits)

lemma os_Rename_effect:
  assumes "os_Rename src dst w = (e, w')"
  shows "fs_data w' = fs_data w \<and> fs_next w' = fs_next w \<and>
    fs_names w' = (if e = None then (fs_names w)(dst := fs_names w src, src := None) else fs_names w)"
  using assms
  by (auto simp: os_Rename_def dest!: os_call_same [unfolded same_files_def] split: prod.splits option.splits if_splits)

text \<open>The states of a writer that was created in \<open>w0\<close>: writing the new file, which only the temporary name leads to; and finished.\<close>

definition writing :: "local_fs \<Rightarrow> bytes \<Rightarrow> bytes \<Rightarrow> local_writer \<Rightarrow> local_fs \<Rightarrow> bool" where
  "writing w0 tmp acc x w \<longleftrightarrow>
     lw_f x = \<lparr>of_Name = tmp, of_node = fs_next w0, of_closed = False\<rparr> \<and> \<not> lw_done x
     \<and> fs_names w = (fs_names w0)(tmp \<mapsto> RegularFile (fs_next w0)) \<and> fs_data w = (fs_data w0)(fs_next w0 := acc)"

definition finished :: "local_fs \<Rightarrow> bytes \<Rightarrow> bytes option \<Rightarrow> local_writer \<Rightarrow> local_fs \<Rightarrow> bool" where
  "finished w0 tmp res x w \<longleftrightarrow> lw_done x \<and> of_closed (lw_f x) \<and>
     (case res of
        Some acc \<Rightarrow> fs_names w = (fs_names w0)(lw_target x \<mapsto> RegularFile (fs_next w0), tmp := None)
          \<and> fs_data w = (fs_data w0)(fs_next w0 := acc)
      | None \<Rightarrow> (fs_names w = (fs_names w0)(tmp := None) \<or> fs_names w = (fs_names w0)(tmp \<mapsto> RegularFile (fs_next w0)))
          \<and> (\<exists>acc. fs_data w = (fs_data w0)(fs_next w0 := acc)))"

lemma finished_stays: "finished w0 tmp res x w \<Longrightarrow> lw_ops cs x w = (rs, x', w') \<Longrightarrow> x' = x \<and> w' = w"
proof (induction cs arbitrary: rs)
  case (Cons c cs)
  have "lw_op c x w = (fst (lw_op c x w), x, w)"
    using Cons.prems(1) by (cases c) (simp_all add: finished_def lw_Write_def os_Write_def lw_Close_def lw_Abort_def)
  then show ?case using Cons by (cases "lw_op c x w") (auto split: prod.splits)
qed simp

lemma Write_writing:
  assumes "writing w0 tmp acc x w" and "lw_Write x p w = ((n, err), w')"
  shows "writing w0 tmp (acc @ take n p) x w'"
proof -
  obtain a w1 where "fs_answer w = (a, w1)" by fastforce
  with fs_answer_same [OF this] assms show ?thesis
    by (auto simp: writing_def lw_Write_def os_Write_def same_files_def Let_def)
qed

lemma Close_finishes:
  assumes "writing w0 tmp acc x w" and "lw_Close x w = (err, x', w')"
  shows "finished w0 tmp (if err = None then Some acc else None) x' w' \<and> lw_target x' = lw_target x"
proof -
  have open_f: "\<not> lw_done x" "lw_f x = \<lparr>of_Name = tmp, of_node = fs_next w0, of_closed = False\<rparr>"
    using assms(1) by (simp_all add: writing_def)
  obtain e1 w1 where sync: "os_Sync (lw_f x) w = (e1, w1)" by fastforce
  obtain e2 f w2 where close: "os_Close (lw_f x) w1 = (e2, f, w2)" by (metis surj_pair)
  have f: "f = (lw_f x)\<lparr>of_closed := True\<rparr>" and same: "same_files w w2"
    using os_Sync_same [OF sync] os_Close_same [OF close] same_files_trans by blast+
  let ?e = "if e1 = None then e2 else e1"
  obtain e3 w3 where ren: "(if ?e = None then os_Rename (of_Name f) (lw_target x) w2 else (?e, w2)) = (e3, w3)" by fastforce
  obtain e4 w4 where rm: "os_Remove (of_Name f) w3 = (e4, w4)" by fastforce
  have fin: "x' = x\<lparr>lw_done := True, lw_f := f\<rparr>" "err = map_option (StorageWrap ''commit'') e3" "w' = (if e3 = None then w3 else w4)"
    using assms(2) open_f(1) sync close ren rm
    by (auto simp: lw_Close_def Let_def cong: if_cong prod.case_cong split: option.splits if_splits)
  show ?thesis
  proof (cases e3)
    case None
    then have "?e = None" and "os_Rename tmp (lw_target x) w2 = (None, w3)" using ren f open_f by (auto split: if_splits)
    from os_Rename_effect [OF this(2)] show ?thesis
      using assms(1) same fin None f by (auto simp: finished_def writing_def same_files_def fun_upd_twist)
  next
    case (Some e)
    have "fs_names w3 = fs_names w2 \<and> fs_data w3 = fs_data w2"
      using ren Some os_Rename_effect by (fastforce split: if_splits)
    with os_Remove_effect [OF rm] show ?thesis
      using assms(1) same fin Some f by (auto simp: finished_def writing_def same_files_def)
  qed
qed

lemma Abort_finishes:
  assumes "writing w0 tmp acc x w" and "lw_Abort x w = (err, x', w')"
  shows "finished w0 tmp None x' w' \<and> lw_target x' = lw_target x"
proof -
  obtain e1 f w1 where close: "os_Close (lw_f x) w = (e1, f, w1)" by (metis surj_pair)
  obtain e2 w2 where rm: "os_Remove (of_Name f) w1 = (e2, w2)" by fastforce
  have "x' = x\<lparr>lw_done := True, lw_f := f\<rparr>" "w' = w2"
    using assms close rm by (auto simp: lw_Abort_def writing_def)
  with assms(1) os_Close_same [OF close] os_Remove_effect [OF rm] show ?thesis
    by (auto simp: finished_def writing_def same_files_def)
qed

text \<open>The temporary name is new, and not the name of the target: its last element is longer.\<close>

lemma itoa_digits: "slash \<notin> set (itoa n)"
proof (induction n rule: itoa.induct)
  case (1 n)
  have "slash \<noteq> (word_of_nat (48 + k) :: byte)" if "k < 10" for k
  proof
    assume "slash = (word_of_nat (48 + k) :: byte)"
    then have "unat slash = unat (word_of_nat (48 + k) :: byte)" by (rule arg_cong)
    then show False using that by (simp add: unat_of_nat take_bit_eq_mod slash_def del: of_nat_add)
  qed
  then show ?case using 1 by (subst itoa.simps) auto
qed

lemma last_elem_join: "slash \<notin> set name \<Longrightarrow> takeWhile (\<lambda>c. c \<noteq> slash) (rev (os_joinPath dir name)) = rev name"
proof -
  assume n: "slash \<notin> set name"
  have "\<exists>d. os_joinPath dir name = d @ [slash] @ name"
    by (cases dir rule: rev_cases) (auto simp: os_joinPath_def)
  then obtain d where "os_joinPath dir name = d @ [slash] @ name" ..
  then show ?thesis using n by (auto simp: takeWhile_append)
qed

lemma Base_last_elem:
  assumes "p \<noteq> []" and "last p \<noteq> slash"
  shows "filepath_Base p = rev (takeWhile (\<lambda>c. c \<noteq> slash) (rev p))"
  using assms by (cases p rule: rev_cases) (auto simp: filepath_Base_def Let_def)

lemma temp_not_target:
  assumes "slash \<notin> set (a # filepath_Base p @ b)" and "slash \<notin> set m"
  shows "os_joinPath dir ((a # filepath_Base p @ b) @ m) \<noteq> p"
proof
  assume eq: "os_joinPath dir ((a # filepath_Base p @ b) @ m) = p"
  have t: "rev (takeWhile (\<lambda>c. c \<noteq> slash) (rev p)) = (a # filepath_Base p @ b) @ m"
    using last_elem_join [of "(a # filepath_Base p @ b) @ m" dir] assms unfolding eq by (simp add: rev_swap)
  have "last p \<noteq> slash"
  proof
    assume "last p = slash"
    moreover have "p \<noteq> []" using t by auto
    ultimately have "takeWhile (\<lambda>c. c \<noteq> slash) (rev p) = []" by (cases p rule: rev_cases) auto
    with t show False by simp
  qed
  moreover have "p \<noteq> []" using t by auto
  ultimately have "length (filepath_Base p) = length ((a # filepath_Base p @ b) @ m)" using Base_last_elem t by metis
  then show False by simp
qed

lemma create_tries_creates:
  assumes "create_tries dir pre suf rs w = (Inr f, w')"
  shows "\<exists>r w1. same_files w w1 \<and> fs_names w (os_joinPath dir (pre @ itoa r @ suf)) = None
    \<and> f = \<lparr>of_Name = os_joinPath dir (pre @ itoa r @ suf), of_node = fs_next w1, of_closed = False\<rparr>
    \<and> w' = w1\<lparr>fs_names := (fs_names w1)(of_Name f \<mapsto> RegularFile (fs_next w1)), fs_data := (fs_data w1)(fs_next w1 := []),
         fs_next := Suc (fs_next w1)\<rparr>"
  using assms
proof (induction rs)
  case (Cons r rs)
  show ?case
  proof (cases "fs_names w (os_joinPath dir (pre @ itoa r @ suf)) = None")
    case True
    obtain e w1 where call: "os_call ''createtemp'' w = (e, w1)" by fastforce
    show ?thesis using Cons.prems True os_call_same [OF call]
      by (intro exI [of _ r] exI [of _ w1]) (auto simp: Let_def call fun_upd_def split: option.splits)
  qed (use Cons in \<open>simp add: Let_def\<close>)
qed simp

lemma Create_writing:
  assumes "lb_Create key rnds w = (Inr x, w')"
  shows "\<exists>tmp. fs_names w tmp = None \<and> tmp \<noteq> local_path key \<and> lw_target x = local_path key \<and> writing w tmp [] x w'"
proof -
  let ?dir = "filepath_Dir (local_path key)" and ?pre = "dot # filepath_Base (local_path key) @ [dot]"
  obtain f where c: "create_tries ?dir ?pre (str ''.partial'') (take 10000 rnds) w = (Inr f, w')"
    and ns: "slash \<notin> set ?pre" "slash \<notin> set (str ''.partial'')" and x: "x = \<lparr>lw_f = f, lw_target = local_path key, lw_done = False\<rparr>"
    using assms by (auto simp: lb_Create_def os_CreateTemp_def Let_def split: prod.splits sum.splits if_splits)
  from create_tries_creates [OF c] obtain r w1 where
    r: "same_files w w1" "fs_names w (os_joinPath ?dir (?pre @ itoa r @ str ''.partial'')) = None"
      "f = \<lparr>of_Name = os_joinPath ?dir (?pre @ itoa r @ str ''.partial''), of_node = fs_next w1, of_closed = False\<rparr>"
      "w' = w1\<lparr>fs_names := (fs_names w1)(of_Name f \<mapsto> RegularFile (fs_next w1)), fs_data := (fs_data w1)(fs_next w1 := []),
         fs_next := Suc (fs_next w1)\<rparr>" by blast
  have "os_joinPath ?dir (?pre @ itoa r @ str ''.partial'') \<noteq> local_path key"
    by (rule temp_not_target [OF ns(1)]) (use ns(2) itoa_digits in simp)
  with r x show ?thesis by (intro exI [of _ "of_Name f"]) (simp add: writing_def same_files_def)
qed

lemma other_content:
  assumes "fs_wf w0" and "fs_names w p = fs_names w0 p" and "fs_data w = (fs_data w0)(fs_next w0 := acc)"
  shows "fs_content w p = fs_content w0 p"
  using assms by (auto simp: fs_content_def fs_wf_def split: option.splits node.splits)

lemma ops_writing:
  assumes "writing w0 tmp acc x w" and "lw_ops cs x w = (rs, x', w')" and "fs_names w0 tmp = None" and "fs_wf w0"
    and "tmp \<noteq> lw_target x" and "p \<noteq> tmp"
  shows "fs_content w' p = (case committed acc (zip cs rs) of
     Some y \<Rightarrow> if p = lw_target x then Some y else fs_content w0 p | None \<Rightarrow> fs_content w0 p)"
  using assms
proof (induction cs arbitrary: acc x w rs)
  case Nil
  then show ?case using other_content [of w0 w p acc] by (simp add: writing_def)
next
  case (Cons c cs)
  obtain n err x1 w1 where c: "lw_op c x w = ((n, err), x1, w1)" by (metis surj_pair)
  obtain rs' where rs: "rs = (n, err) # rs'" and more_ops: "lw_ops cs x1 w1 = (rs', x', w')"
    using Cons.prems(2) by (auto simp: c split: prod.splits)
  have ended: "fs_content w' p = (case res of Some y \<Rightarrow> if p = lw_target x then Some y else fs_content w0 p | None \<Rightarrow> fs_content w0 p)"
    if "finished w0 tmp res x1 w1" "lw_target x1 = lw_target x" for res
  proof -
    have "w' = w1" using finished_stays [OF that(1) more_ops] by simp
    with that Cons.prems(3-6) other_content [OF Cons.prems(4), of w1 p] show ?thesis
      by (cases "p = lw_target x"; cases res) (auto simp: finished_def fs_content_def [of w1 "lw_target x"])
  qed
  show ?case
  proof (cases c)
    case (DoWrite q)
    then have x1: "x1 = x" and wr: "lw_Write x q w = ((n, err), w1)" using c by (auto split: prod.splits)
    from Cons.IH [OF Write_writing [OF Cons.prems(1) wr] more_ops [unfolded x1] Cons.prems(3-6)] show ?thesis
      by (simp add: rs DoWrite)
  next
    case DoClose
    then have "lw_Close x w = (err, x1, w1)" using c by (auto split: prod.splits)
    from Close_finishes [OF Cons.prems(1) this] ended show ?thesis by (simp add: rs DoClose)
  next
    case DoAbort
    then have "lw_Abort x w = (err, x1, w1)" using c by (auto split: prod.splits)
    from Abort_finishes [OF Cons.prems(1) this] ended [of None] show ?thesis by (simp add: rs DoAbort)
  qed
qed

lemma Create_ops_content:
  assumes "fs_wf w" and "lb_Create key rnds w = (Inr x, w1)" and "lw_ops cs x w1 = (rs, x', w')"
  shows "\<exists>tmp. fs_names w tmp = None \<and> tmp \<noteq> local_path key \<and>
    (\<forall>p. p \<noteq> tmp \<longrightarrow> fs_content w' p =
      (if p = local_path key \<and> committed [] (zip cs rs) \<noteq> None then committed [] (zip cs rs) else fs_content w p))"
proof -
  obtain tmp where t: "fs_names w tmp = None" "tmp \<noteq> local_path key" "lw_target x = local_path key" "writing w tmp [] x w1"
    using Create_writing [OF assms(2)] by blast
  have "fs_content w' p = (if p = local_path key \<and> committed [] (zip cs rs) \<noteq> None then committed [] (zip cs rs) else fs_content w p)"
    if "p \<noteq> tmp" for p
    using ops_writing [OF t(4) assms(3) t(1) assms(1) _ that] t(2,3) by (auto split: option.splits)
  with t show ?thesis by blast
qed

text \<open>
  C25: writing an object to the local store is atomic.  Whatever a client does with a writer, and whichever system calls fail, the target
  holds the bytes the writes accepted if the first call that ends the writing is a \<^verbatim>\<open>Close\<close> that returned no error, and otherwise what it
  held before; and apart from it and the temporary name, which was free, no file has changed.
\<close>

theorem local_write_atomic:
  assumes "fs_wf w" and "lb_Create key rnds w = (Inr x, w1)" and "lw_ops cs x w1 = (rs, x', w')"
  shows "\<exists>tmp. fs_names w tmp = None \<and> tmp \<noteq> local_path key \<and>
    (\<forall>p. p \<noteq> tmp \<longrightarrow> fs_content w' p =
      (if p = local_path key \<and> committed [] (zip cs rs) \<noteq> None then committed [] (zip cs rs) else fs_content w p))"
  using assms by (rule Create_ops_content)

section \<open>Local files are stored objects\<close>

text \<open>A context whose timers do not touch the files, and a file that keeps its content.\<close>

definition quietContext :: "(local_fs \<Rightarrow> storage_error option) \<Rightarrow> (nat \<Rightarrow> local_fs \<Rightarrow> bool) \<Rightarrow> local_fs storageContext" where
  "quietContext err fires = \<lparr>cx_Err = err, cx_fires = \<lambda>d w. (fires d w, w)\<rparr>"

definition file_holds :: "bytes \<Rightarrow> bytes \<Rightarrow> local_fs \<Rightarrow> bool" where
  "file_holds p content w \<longleftrightarrow> fs_content w p = Some content"

definition section_at :: "bytes \<Rightarrow> section_body \<Rightarrow> nat \<Rightarrow> local_fs \<Rightarrow> bool" where
  "section_at content b off w \<longleftrightarrow> sb_off b = off \<and> fs_data w (of_node (sb_f b)) = content"

lemma same_files_holds: "same_files w w' \<Longrightarrow> file_holds p content w' = file_holds p content w"
  by (simp add: same_files_def file_holds_def fs_content_def cong: option.case_cong node.case_cong)

lemma same_files_at: "same_files w w' \<Longrightarrow> section_at content b off w' = section_at content b off w"
  by (simp add: same_files_def section_at_def)

lemma NewRangeReader_opens:
  assumes "lo_NewRangeReader (p, n) off len w = (res, w')" and "file_holds p content w"
  shows "same_files w w'" and "res = Inr b \<Longrightarrow> section_at content b off w'" and "res = Inl e \<Longrightarrow> e \<noteq> EndOfFile"
proof -
  obtain e' w1 where c: "os_call ''open'' w = (e', w1)" by fastforce
  note s = os_call_same [OF c]
  have e': "e' \<noteq> Some EndOfFile" using c by (auto simp: os_call_def split: prod.splits option.splits)
  show "same_files w w'" "res = Inr b \<Longrightarrow> section_at content b off w'" "res = Inl e \<Longrightarrow> e \<noteq> EndOfFile"
    using assms s e'
    by (auto simp: lo_NewRangeReader_def c same_files_def section_at_def file_holds_def fs_content_def Let_def
        split: option.splits node.splits)
qed

lemma os_ReadAt_reads:
  assumes "os_ReadAt f n off w = ((y, e), w')"
  shows "same_files w w'" and "\<exists>k\<le>n. y = take k (drop off (fs_data w (of_node f)))" and "e = None \<Longrightarrow> length y = n"
proof -
  obtain a w1 where an: "fs_answer w = (a, w1)" by fastforce
  have d: "same_files w w1" "fs_data w1 = fs_data w" using fs_answer_same [OF an] by (simp_all add: same_files_def)
  show "same_files w w'" using assms d by (auto simp: os_ReadAt_def an Let_def same_files_def split: if_splits option.splits)
  show "\<exists>k\<le>n. y = take k (drop off (fs_data w (of_node f)))"
  proof (cases "of_closed f")
    case False
    then show ?thesis using assms d by (cases a) (auto simp: os_ReadAt_def an Let_def intro: exI [of _ "min _ n"])
  qed (use assms in \<open>auto simp: os_ReadAt_def\<close>)
  show "e = None \<Longrightarrow> length y = n" using assms by (auto simp: os_ReadAt_def an Let_def split: if_splits option.splits)
qed

lemma sb_Read_reads:
  assumes "sb_Read b n w = ((x, err), b', w')" and "section_at content b off w"
  shows "same_files w w' \<and> section_at content b' (off + length x) w' \<and> length x \<le> n \<and> x = take (length x) (drop off content)
    \<and> (err = None \<longrightarrow> 0 < n \<longrightarrow> x \<noteq> [])"
proof (cases "sb_limit b \<le> sb_off b")
  case True
  then show ?thesis using assms by (auto simp: sb_Read_def same_files_def)
next
  case False
  let ?n = "min n (sb_limit b - sb_off b)"
  obtain y e w1 where rd: "os_ReadAt (sb_f b) ?n (sb_off b) w = ((y, e), w1)" by (metis surj_pair)
  note r = os_ReadAt_reads [OF rd]
  have res: "x = y" "err = e" "w' = w1" "b' = b\<lparr>sb_off := sb_off b + length y\<rparr>"
    using assms(1) False rd by (auto simp: sb_Read_def)
  obtain k where k: "k \<le> ?n" "y = take k (drop off content)" using r(2) assms(2) by (auto simp: section_at_def)
  have "section_at content b' (off + length x) w'" using res assms(2) r(1) by (simp add: section_at_def same_files_def)
  moreover have "x = take (length x) (drop off content)" unfolding res(1) k(2) by (simp add: min_def)
  moreover have "length x \<le> n" using k res by auto
  moreover have "err = None \<longrightarrow> 0 < n \<longrightarrow> x \<noteq> []" using r(3) res False by fastforce
  ultimately show ?thesis using r(1) res(3) by blast
qed

interpretation local_file: stored_object "local_object (p, length content)" "quietContext err fires" content
    "file_holds p content" "section_at content" for p content err fires
proof unfold_locales
  fix w w' off len e b
  assume v: "file_holds p content w"
  show "ob_NewRangeReader (local_object (p, length content)) off len w = (Inr b, w') \<Longrightarrow> file_holds p content w' \<and> section_at content b off w'"
    using NewRangeReader_opens(1,2) v same_files_holds by (fastforce simp: local_object_def)
  show "ob_NewRangeReader (local_object (p, length content)) off len w = (Inl e, w') \<Longrightarrow> file_holds p content w' \<and> e \<noteq> EndOfFile"
    using NewRangeReader_opens(1,3) v same_files_holds by (fastforce simp: local_object_def)
next
  fix w b off n x err b' w'
  assume "file_holds p content w" "section_at content b off w" "ob_Read (local_object (p, length content)) b n w = ((x, err), b', w')"
  then show "file_holds p content w' \<and> section_at content b' (off + length x) w' \<and> length x \<le> n \<and> x = take (length x) (drop off content)
      \<and> (err = None \<longrightarrow> 0 < n \<longrightarrow> x \<noteq> [])"
    using sb_Read_reads [of b n w x err b' w' content off] same_files_holds [of w w' p content] by (auto simp: local_object_def)
next
  fix w b
  assume "file_holds p content w"
  then show "file_holds p content (snd (ob_Close (local_object (p, length content)) b w))"
    using os_Close_same same_files_holds by (simp add: local_object_def sb_Close_def split: prod.splits) blast
qed (simp_all add: local_object_def quietContext_def)

text \<open>
  C26: an object that was written to the local store and committed, and then opened, reads back.  It has the size of what the
  writes accepted; reading it from the start with buffers of any sizes, enough of them, ends with an error, what was read is a prefix of
  what was written, and it is all of it if the error is the end of the stream, however many reads fail and are resumed on the way.
\<close>

theorem local_object_reads_back:
  assumes "fs_wf w" and "lb_Create key rnds w = (Inr x, w1)" and "lw_ops cs x w1 = (rs, x', w2)"
    and "committed [] (zip cs rs) = Some y" and "lb_Open key w2 = (Inr o', w3)" and "0 \<notin> set ns" and "length y < length ns"
  shows "ob_Size (local_object o') = length y \<and>
    (case rr_reads (local_object o') (quietContext err fires) ns (NewReader (local_object o')) w3 of ((z, e), r, w') \<Rightarrow>
       e \<noteq> None \<and> z = take (length z) y \<and> (e = Some EndOfFile \<longrightarrow> z = y))"
proof -
  have c: "fs_content w2 (local_path key) = Some y"
    using Create_ops_content [OF assms(1-3)] assms(4) by auto
  obtain e w' where call: "os_call ''stat'' w2 = (e, w')" by fastforce
  have "o' = (local_path key, length y) \<and> same_files w2 w3"
    using assms(5) c os_call_same [OF call]
    by (auto simp: lb_Open_def call fs_content_def same_files_def Let_def split: option.splits node.splits)
  then have o': "o' = (local_path key, length y)" and "file_holds (local_path key) y w3"
    using c same_files_holds by (auto simp: file_holds_def)
  with local_file.NewReader_reads [OF this(2) assms(6,7), of err fires] show ?thesis
    by (auto simp: local_object_def split: prod.splits)
qed

section \<open>Concrete runs\<close>

text \<open>
  A directory with one older object; a write that a full disk cuts short is retried, and the new object is committed.  The second
  run is aborted.
\<close>

definition sample_key :: bytes where "sample_key = str ''b/a.sarc''"

definition sample_fs :: "(storage_error \<times> nat) option list \<Rightarrow> local_fs" where
  "sample_fs answers =
     \<lparr>fs_names = (\<lambda>p. if p = local_path sample_key then Some (RegularFile 0) else None), fs_data = (\<lambda>i. if i = 0 then [9] else []),
      fs_next = 1, fs_answers = answers\<rparr>"

definition sample_ops :: "writer_op list" where
  "sample_ops = [DoWrite [1, 2], DoWrite [2], DoWrite [3], DoClose]"

definition disk_full :: "(storage_error \<times> nat) option list" where
  "disk_full = [None, Some (StorageErrorf ''no space left on device'', 1)]"

lemma stored_sample_created: "\<exists>x w1. lb_Create sample_key [7] (sample_fs disk_full) = (Inr x, w1)"
proof -
  have "\<not> isl (fst (lb_Create sample_key [7] (sample_fs disk_full)))" by code_simp
  then show ?thesis by (metis surj_pair fst_conv sum.collapse(2))
qed

lemma sample_wf: "fs_wf (sample_fs answers)"
  by (simp add: fs_wf_def sample_fs_def)

definition sample_outcome :: "(bytes option \<times> bytes option)" where
  "sample_outcome =
     (case lb_Create sample_key [7] (sample_fs disk_full) of
        (Inr x, w1) \<Rightarrow> (case lw_ops sample_ops x w1 of (rs, _, w') \<Rightarrow> (committed [] (zip sample_ops rs), fs_content w' (local_path sample_key)))
      | (Inl e, w1) \<Rightarrow> (None, None))"

lemma sample_committed: "fst sample_outcome = Some [1, 2, 3]"
  by code_simp

lemma stored_sample_written:
  "\<exists>x w1 rs x' w2 o' w3. lb_Create sample_key [7] (sample_fs disk_full) = (Inr x, w1) \<and> lw_ops sample_ops x w1 = (rs, x', w2)
     \<and> committed [] (zip sample_ops rs) = Some [1, 2, 3] \<and> lb_Open sample_key w2 = (Inr o', w3)"
proof -
  obtain x w1 where c: "lb_Create sample_key [7] (sample_fs disk_full) = (Inr x, w1)" using stored_sample_created by blast
  obtain rs x' w2 where r: "lw_ops sample_ops x w1 = (rs, x', w2)" by (metis surj_pair)
  have com: "committed [] (zip sample_ops rs) = Some [1, 2, 3]" using sample_committed by (simp add: sample_outcome_def c r)
  have "\<not> isl (fst (lb_Open sample_key (snd (snd (lw_ops sample_ops (projr (fst (lb_Create sample_key [7] (sample_fs disk_full))))
      (snd (lb_Create sample_key [7] (sample_fs disk_full))))))))" by code_simp
  then have "\<not> isl (fst (lb_Open sample_key w2))" by (simp add: c r)
  then obtain o' w3 where "lb_Open sample_key w2 = (Inr o', w3)" by (metis surj_pair fst_conv sum.collapse(2))
  with c r com show ?thesis by blast
qed

theorem local_write_atomic_witness: "snd sample_outcome = Some [1, 2, 3]"
proof -
  obtain x w1 rs x' w2 where c: "lb_Create sample_key [7] (sample_fs disk_full) = (Inr x, w1)" "lw_ops sample_ops x w1 = (rs, x', w2)"
    and com: "committed [] (zip sample_ops rs) = Some [1, 2, 3]" using stored_sample_written by blast
  from local_write_atomic [OF sample_wf c] com have "fs_content w2 (local_path sample_key) = Some [1, 2, 3]" by auto
  then show ?thesis by (simp add: sample_outcome_def c)
qed

theorem local_object_reads_back_witness:
  "\<exists>o' w3. ob_Size (local_object o') = 3 \<and>
    (case rr_reads (local_object o') (quietContext (\<lambda>_. None) (\<lambda>_ _. True)) [2, 2, 2, 2] (NewReader (local_object o')) w3 of ((z, e), r, w') \<Rightarrow>
       e \<noteq> None \<and> z = take (length z) [1, 2, 3] \<and> (e = Some EndOfFile \<longrightarrow> z = [1, 2, 3]))"
proof -
  obtain x w1 rs x' w2 o' w3 where c: "lb_Create sample_key [7] (sample_fs disk_full) = (Inr x, w1)"
    "lw_ops sample_ops x w1 = (rs, x', w2)" "committed [] (zip sample_ops rs) = Some [1, 2, 3]" "lb_Open sample_key w2 = (Inr o', w3)"
    using stored_sample_written by blast
  from local_object_reads_back [OF sample_wf c, of "[2, 2, 2, 2]"] show ?thesis
    by (intro exI [of _ o'] exI [of _ w3]) (simp split: prod.splits)
qed

theorem stored_object_ReadAt_witness:
  "\<exists>x err w'. ra_ReadAt (local_object (local_path sample_key, length [9])) (quietContext (\<lambda>_. None) (\<lambda>_ _. True)) 4 0 (sample_fs []) = Some ((x, err), w')
     \<and> x = take (length x) [9] \<and> length x \<le> 4 \<and> (err = None \<longrightarrow> length x = 4) \<and> (err = Some EndOfFile \<longrightarrow> x = [9])"
proof -
  have "file_holds (local_path sample_key) [9] (sample_fs [])"
    by (simp add: file_holds_def fs_content_def sample_fs_def)
  from stored_object_ReadAt [OF local_file.stored_object_axioms this, of "\<lambda>_. None" "\<lambda>_ _. True" 4 0] show ?thesis by auto
qed

end
