(* ===== verification/Spec2Isabelle.thy ===== *)
theory Spec2Isabelle
  imports Decrypt_Pipeline Volumes Concurrent_Completes Incremental_Sample Archivable_Inputs Local_Store
begin

text \<open>
  Verification library of sarc, an archiver written in Go that encrypts and authenticates everything it stores.

  \<^bold>\<open>The program.\<close>  Package \<^verbatim>\<open>crypto\<close> seals blocks with AES-GCM under random nonces, varies block and padding sizes,
  derives subkeys and wraps the content key for passwords, key files and age recipients.  Package \<^verbatim>\<open>archive\<close> is the format:
  names, attributes, metadata, frames, solid streams, the directory, session indexes and checkpoints, the checksum in the
  footer, signatures, volume headers, and the writer through which every byte of an archive passes.  Package \<^verbatim>\<open>io\<close> is the
  behaviour: it encrypts and decrypts files in pipelines of goroutines, writes one-pass archives as a stream and incremental
  archives session by session, splits them into volumes, and lists, verifies and extracts them.  \<^verbatim>\<open>cmd/sarc\<close> is a command
  line over package \<^verbatim>\<open>io\<close>, and \<^verbatim>\<open>storage/\<close> reads and writes archives as objects in local or remote stores.

  \<^bold>\<open>Conventions.\<close>  A Go function that returns an error becomes a function to \<^typ>\<open>'a res\<close> (\<open>Ok\<close>, \<open>Err\<close>, or \<open>Panic\<close>; \<open>Prelude\<close>).  In package
  \<^verbatim>\<open>io\<close>, whose errors are fatal or recoverable, it becomes a state-passing operation to an outcome (\<open>Val\<close>, \<open>Fail\<close> of a structured
  error, or \<open>Crash\<close>; \<open>Reader\<close>).  Slices and indexing have Go's bounds checks.  Integers are words of their width, except lengths
  and offsets that the code keeps in \<^verbatim>\<open>int\<close> or \<^verbatim>\<open>int64\<close> and that count bytes in memory or in a file, which are natural numbers;
  where such a number is stored in the format it is converted, and wraps, as in the code.  Random bytes are an argument from
  which each draw takes a prefix; an exhausted source is an error of \<^verbatim>\<open>rand.Reader\<close>.  Goroutines and channels are step relations.

  \<^bold>\<open>Foundations.\<close>  \<open>Prelude\<close> (results, bytes, words, the little-endian integers), \<open>Binary\<close> (varints of \<^verbatim>\<open>encoding/binary\<close>), \<open>Codec\<close> (the
  interface of an encoder and the decoder of one field, and of repeated fields; interpreted by the attribute and index decoders),
  \<open>Reader\<close> (\<^verbatim>\<open>io/errors.go\<close>, streams and \<^verbatim>\<open>io.ReadFull\<close>), \<open>Worker_Pool\<close> (what the pipelines share: the ordered queue of jobs, and a
  measure under which every run ends).

  \<^bold>\<open>Package crypto.\<close>  \<open>Crypto\<close> (\<^verbatim>\<open>encryption.go\<close>, \<^verbatim>\<open>padding.go\<close>, \<^verbatim>\<open>bufferedrand.go\<close>, \<^verbatim>\<open>hmac.go\<close>, \<^verbatim>\<open>keyderiver.go\<close>, \<^verbatim>\<open>subkey.go\<close>): the blocks of
  a stream decrypt to its consecutive chunks, within their bounds.  \<open>Keywrap\<close> (\<^verbatim>\<open>cek.go\<close>, \<^verbatim>\<open>keyfile.go\<close>).  \<open>Signature\<close>
  (\<^verbatim>\<open>crypto/signature.go\<close>, \<^verbatim>\<open>archive/signature.go\<close>): only a signature over the message with an allowed format and key is accepted.

  \<^bold>\<open>Package archive.\<close>  \<open>Names\<close> (accepted names never leave the directory they are resolved in), \<open>Attributes\<close> (encoding and decoding are
  inverse), \<open>Format\<close> (\<^verbatim>\<open>format.go\<close>, \<^verbatim>\<open>codec.go\<close>, \<^verbatim>\<open>keys.go\<close>, \<^verbatim>\<open>metadata.go\<close>), \<open>Recipients\<close> (every credential opens the block, none opens it to
  another key, the parser accepts exactly the encodings), \<open>Solid\<close>, \<open>Index_Decoder\<close>, \<open>Session_Index\<close> (\<^verbatim>\<open>incremental.go\<close>), \<open>Directory\<close>,
  \<open>Checksum\<close>, \<open>Chunker\<close>, \<open>Volume_Header\<close>, \<open>Frames\<close>, and \<open>Writer\<close> (what a whole run writes, byte for byte).

  \<^bold>\<open>Inputs.\<close>  \<open>Filepath\<close> (the string functions of \<^verbatim>\<open>path/filepath\<close>), \<open>Xattrs\<close> (\<^verbatim>\<open>io/xattr_unix.go\<close>: extended attributes that change while they are read),
  \<open>Inputs\<close> (\<^verbatim>\<open>io/inputs.go\<close>, \<^verbatim>\<open>io/fileinfo_unix.go\<close>: the walk over the arguments, over any tree the file system holds, with an invariant of the walker) and \<open>Archivable_Inputs\<close> (its
  entries are what the archivers require).

  \<^bold>\<open>Pipelines.\<close>  \<open>Encrypt_Pipeline\<close> and \<open>Encrypt_Parallel\<close> (\<^verbatim>\<open>io/pipeline.go\<close>, \<^verbatim>\<open>io/mmap_pipeline.go\<close>) and \<open>Decrypt_Pipeline\<close>
  (\<^verbatim>\<open>io/decrypt_pipeline.go\<close>): every interleaving that returns has the result and the effects of the sequential definition; the
  parallel ones always return, with a bounded number of blocks in memory; the two-stage one deadlocks when the first write of a
  file of six chunks or more fails.

  \<^bold>\<open>One-pass archives.\<close>  Writing: \<open>Archiver\<close> (\<^verbatim>\<open>compression.go\<close>, \<^verbatim>\<open>streaming.go\<close>, \<^verbatim>\<open>special.go\<close> and \<^verbatim>\<open>encryptFile\<close> of \<^verbatim>\<open>concurrent.go\<close>),
  \<open>Solid_Groups\<close> (\<^verbatim>\<open>io/solid.go\<close>), \<open>Archive_Session\<close> (\<^verbatim>\<open>io/directory.go\<close>, \<^verbatim>\<open>finishArchive\<close>, the streaming archiver).  Reading: \<open>Block_Reader\<close>
  and \<open>Extractor\<close> (\<^verbatim>\<open>io/extractor.go\<close>), \<open>Archive_Reading\<close> (\<^verbatim>\<open>VerifyArchive\<close>, entries at an offset, the directory), \<open>Output_Tree\<close>
  (\<^verbatim>\<open>output_tree.go\<close>, \<^verbatim>\<open>verified_file.go\<close>) and \<open>Entry_Extraction\<close>.  The proofs: \<open>Archive_Roundtrip\<close> (headers and entries), \<open>Sealed_Entry\<close> and
  \<open>Entry_Listing\<close> (what was sealed opens to the same content), \<open>Archive_Contents\<close> and \<open>Archiver_Invariant\<close> (a ledger of the entries
  written, kept by every operation: each input is archived, reported or still queued), \<open>Written_Archive\<close> (listing by scan and by
  directory agree, verification succeeds), \<open>Archive_Completes\<close> (a run ends without a fatal error), \<open>Publication\<close> (from the log of the
  system calls: only paths below the output directory are named, and only content vouched for by a sealed HMAC is renamed into place,
  for any archive bytes and any answers), \<open>Extraction_Roundtrip\<close> and \<open>Extract_Archive\<close> (extraction restores what was archived).

  \<^bold>\<open>The concurrent archiver.\<close>  \<open>Job_Pool\<close> (the goroutines and channels of \<^verbatim>\<open>archiveJobs\<close> in \<^verbatim>\<open>io/concurrent.go\<close> over what the jobs do, as a step
  relation; the contract \<open>job_archiver\<close> says that writing an entry changes nothing a worker looks at), \<open>Concurrent_Archiver\<close> (planning, the jobs, the
  writer; the interpretation of the contract), \<open>Concurrent_Roundtrip\<close> (no worker panics; every interleaving is the jobs one after the other, ends with no
  goroutine left, holds a bounded number of results, and leaves an archive that extracts to what was stored) and \<open>Concurrent_Completes\<close> (a run
  that ends well, and a concrete one).

  \<^bold>\<open>Incremental archives.\<close>  \<open>Incremental_State\<close> (\<^verbatim>\<open>io/incremental.go\<close>), \<open>Incremental_Restore\<close> (\<^verbatim>\<open>io/incremental_restore.go\<close>, \<^verbatim>\<open>Extract\<close> and
  \<^verbatim>\<open>List\<close> as a whole), \<open>Session_Writer\<close> and \<open>Incremental_Update\<close> (\<^verbatim>\<open>io/incremental_write.go\<close>), \<open>Archive_File\<close> (a file changed in place, \<^verbatim>\<open>SignArchiveFile\<close>).
  \<open>Incremental_Load\<close>: whatever the bytes, a state that is accepted is well formed and not older than the count sealed in the
  header.  \<open>Session_Packs\<close> (a pack written in pieces is one entry with that content), \<open>Session_Contents\<close> (the invariant of a session: each chunk
  lies in a pack and decodes to content with its identifier), \<open>Session_Records\<close> (the version of a file names chunks that make up
  what was read), \<open>Session_Log\<close> (a file as a log of sessions, and loading it), \<open>Session_Roundtrip\<close> (a session that was written is one more part of
  the log), \<open>Session_Append\<close> (creating and updating keep the file sound, and the loaded files are the recorded inputs), \<open>Update_Safety\<close>
  (an update that gives up restores the file), \<open>Incremental_Sample\<close> (a concrete archive).

  \<^bold>\<open>Volumes.\<close>  \<open>Volumes\<close> (\<^verbatim>\<open>io/volume.go\<close>): a split archive joins to the bytes written, and reading ends without an error only on a complete
  set in order.

  \<^bold>\<open>Stored objects.\<close>  \<open>Storage_Reader\<close> (\<^verbatim>\<open>storage/reader.go\<close>; the contract \<open>stored_object\<close> is what it relies on of an object: readers that reopen it
  where a connection broke off give its bytes in order, and end after five attempts without progress), \<open>Storage\<close> (\<^verbatim>\<open>storage/storage.go\<close>: locations and the
  registry) and \<open>Local_Store\<close> (\<^verbatim>\<open>storage/local/local.go\<close>, the interpretation of the contract: writing is
  atomic whichever call fails, and what was committed is read back).

  \<^bold>\<open>Parameters.\<close>  Code outside the repository is an argument of the definitions that use it, and what is relied on is a named
  hypothesis: AES-GCM opens what it sealed (\<open>gcm_correct\<close>), digests have their length (\<open>digest_sizes\<close>), HKDF does not fail for short outputs
  (\<open>hkdf_total\<close>), zstd decodes what it encoded within its bounds and its frames are self-delimiting (\<open>zstd_correct\<close>, \<open>zstd_bounded\<close>, \<open>zstd_framed\<close>), the age
  library unwraps what it wrapped (\<open>age_correct\<close>), a SHA-256 state that was saved resumes (\<open>hash_resumes\<close>), the keyed hash tells
  apart the chunks at hand (\<open>no_collisions\<close>).  The operating system is a parameter: what each call answers, how much of a refused write was
  written, what a file contains.  Every hypothesis has a concrete instance (\<open>toy_prims\<close>, \<open>toy_zstd\<close>, \<open>toy_age\<close>, \<open>toy_ssh\<close>, \<open>toy_hash_codec\<close>), with which the
  witnesses run the operations.

  \<^bold>\<open>Bounds and termination.\<close>  No definition uses fuel: loops are functions with a termination proof, by the bytes left, the
  offset that decreases or the inputs still to do.  Two loops need not end: \<^verbatim>\<open>VolumeReader.Read\<close> on an empty buffer, and \<^verbatim>\<open>io.ReadFull\<close> on a body
  that gives nothing and no error.  They are partial functions whose value is then \<open>None\<close>; \<^verbatim>\<open>ReadAt\<close> is proved to return under the contract.  Archives are assumed shorter than \<open>2 ^ 63\<close> bytes where offsets are compared as 64-bit words,
  with fewer than \<open>2 ^ 62\<close> chunks.

  \<^bold>\<open>Not modelled.\<close>  The archivers take what \<^verbatim>\<open>expandInputs\<close> returned as an argument; progress callbacks and \<^verbatim>\<open>String\<close> methods have no effect on
  an archive; the armored text of signatures is base64; \<^verbatim>\<open>mmap\<close>, preallocation and files of other systems than Unix are left out; a
  result that accompanies an error is dropped; \<^verbatim>\<open>storage/s3\<close>, \<^verbatim>\<open>azblob\<close> and \<^verbatim>\<open>gcs\<close> call the clients of remote stores and \<^verbatim>\<open>cmd/sarc\<close> parses flags and prints.
\<close>

end
